(* ===== verification/Prelude.thy ===== *)
theory Prelude
  imports Main "HOL-Library.Word" "HOL-Library.Sublist"
begin

text \<open>
  Prelude of the Mozkey development: the names of the machine types the components share
  (bytes, code points), the little-endian loads and bit counts of
  \<^verbatim>\<open>src/src/base/bits.h\<close> and the standard library's string searches, with the generic
  facts about them that the component theories use.
\<close>

unbundle bit_operations_syntax

section \<open>Types\<close>

type_synonym byte = "8 word"
type_synonym bytes = "byte list"
type_synonym char32 = "32 word"

text \<open>\<^verbatim>\<open>std::string::npos\<close> of a 64-bit build, as a length.\<close>

definition npos :: nat where
  "npos = 2 ^ 64 - 1"

text \<open>A C++ string literal of ASCII characters, as bytes.\<close>

definition ascii :: "string \<Rightarrow> bytes" where
  "ascii s = map (\<lambda>c. of_nat (of_char c)) s"

named_theorems bytes_simps \<open>evaluation of byte strings\<close>

lemma ascii_Nil [simp, bytes_simps]: "ascii [] = []"
  by (simp add: ascii_def)

lemma ascii_Cons [bytes_simps]: "ascii (c # s) = of_nat (of_char c) # ascii s"
  by (simp add: ascii_def)

section \<open>Unaligned little-endian loads and bit counts\<close>

text \<open>
  \<^verbatim>\<open>LoadUnaligned<T>(ptr)\<close> on a little-endian machine: the first byte is the least
  significant one. The list holds the \<^verbatim>\<open>sizeof(T)\<close> bytes read.
\<close>

fun load_le :: "bytes \<Rightarrow> 'a::len word" where
  "load_le [] = 0"
| "load_le (b # bs) = ucast b OR push_bit 8 (load_le bs)"

definition popcount :: "'a::len word \<Rightarrow> nat" where
  "popcount w = length (filter (bit w) [0 ..< LENGTH('a)])"

lemma bit_load_le:
  "bit (load_le bs :: 'a::len word) n \<longleftrightarrow>
     n < LENGTH('a) \<and> n div 8 < length bs \<and> bit (bs ! (n div 8)) (n mod 8)"
proof (induction bs arbitrary: n)
  case Nil
  then show ?case by simp
next
  case (Cons b bs)
  show ?case
  proof (cases "n < 8")
    case True
    then show ?thesis by (auto simp: bit_simps)
  next
    case False
    then have div: "n div 8 = Suc ((n - 8) div 8)" and md: "(n - 8) mod 8 = n mod 8"
      by (simp_all add: div_if mod_if)
    from False have "\<not> bit b n" by (auto dest: bit_imp_le_length)
    with False show ?thesis
      by (auto simp: bit_simps Cons.IH div md)
  qed
qed

lemma popcount_eq_card: "popcount (w :: 'a::len word) = card {n. n < LENGTH('a) \<and> bit w n}"
proof -
  have "distinct (filter (bit w) [0 ..< LENGTH('a)])" by simp
  then have "popcount w = card (set (filter (bit w) [0 ..< LENGTH('a)]))"
    unfolding popcount_def by (metis distinct_card)
  also have "set (filter (bit w) [0 ..< LENGTH('a)]) = {n. n < LENGTH('a) \<and> bit w n}"
    by auto
  finally show ?thesis .
qed

lemma length_filter_eq_count: "length (filter P xs) = (\<Sum>x\<leftarrow>xs. if P x then 1 else 0)"
  by (induction xs) auto

section \<open>Searching and cutting strings\<close>

definition starts_with :: "'a list \<Rightarrow> 'a list \<Rightarrow> bool" where
  "starts_with s p \<longleftrightarrow> prefix p s"

definition clipped_substr :: "'a list \<Rightarrow> nat \<Rightarrow> nat \<Rightarrow> 'a list" where
  "clipped_substr s pos n = take n (drop pos s)"

text \<open>\<^verbatim>\<open>s.find(c)\<close> for a one-byte needle: the first position, or nothing.\<close>

fun find_byte :: "'a \<Rightarrow> 'a list \<Rightarrow> nat option" where
  "find_byte c [] = None"
| "find_byte c (x # xs) = (if x = c then Some 0 else map_option Suc (find_byte c xs))"

text \<open>\<^verbatim>\<open>s.find(c, from)\<close>.\<close>

definition find_byte_from :: "'a \<Rightarrow> 'a list \<Rightarrow> nat \<Rightarrow> nat option" where
  "find_byte_from c s from = map_option (\<lambda>i. from + i) (find_byte c (drop from s))"

lemma find_byte_None [simp]: "find_byte c xs = None \<longleftrightarrow> c \<notin> set xs"
  by (induction xs) auto

lemma find_byte_Some:
  "find_byte c xs = Some i \<Longrightarrow> i < length xs \<and> xs ! i = c \<and> c \<notin> set (take i xs)"
  by (induction xs arbitrary: i) (auto split: if_splits)

lemma find_byte_from_Some:
  assumes "find_byte_from c xs n = Some i"
  shows "n \<le> i" "i < length xs" "xs ! i = c"
  using assms by (auto simp: find_byte_from_def dest: find_byte_Some)

section \<open>Words as numbers\<close>

lemma and_not_mask_eq: "x AND NOT (mask n) = push_bit n (drop_bit n (x :: 'a::len word))"
  by (rule bit_word_eqI) (auto simp: bit_simps)

lemma unat_push_bit_small:
  "unat x * 2 ^ n < 2 ^ LENGTH('a) \<Longrightarrow> unat (push_bit n (x :: 'a::len word)) = unat x * 2 ^ n"
  by (subst unsigned_push_bit_eq) (simp add: push_bit_eq_mult take_bit_eq_mod)

lemma unat_drop_bit: "unat (drop_bit n (x :: 'a::len word)) = unat x div 2 ^ n"
  by (subst unsigned_drop_bit_eq) (simp add: drop_bit_eq_div take_bit_nat_eq_self)

lemma unat_and_mask: "unat (x AND mask n :: 'a::len word) = unat x mod 2 ^ n"
  by (metis take_bit_eq_mask take_bit_eq_mod unsigned_take_bit_eq)

lemma unat_and_not_mask: "unat (x AND NOT (mask n) :: 'a::len word) = unat x div 2 ^ n * 2 ^ n"
proof -
  have "unat x div 2 ^ n * 2 ^ n < 2 ^ LENGTH('a)"
    using unsigned_less [of x, where 'a = nat] div_times_less_eq_dividend [of "unat x" "2 ^ n"]
    by (meson le_less_trans)
  then show ?thesis
    by (simp add: and_not_mask_eq unat_push_bit_small unat_drop_bit)
qed

lemma mask_literals:
  "(0x3f :: 'a::len word) = mask 6" "(0x1f :: 'a::len word) = mask 5" "(0x0f :: 'a::len word) = mask 4"
  "(0x07 :: 'a::len word) = mask 3" "(0x03 :: 'a::len word) = mask 2" "(0x01 :: 'a::len word) = mask 1"
  "(0xff :: 'a::len word) = mask 8"
  by (simp_all add: mask_eq_exp_minus_1)

lemma byte_high_masks:
  "(0xc0 :: byte) = NOT (mask 6)" "(0xe0 :: byte) = NOT (mask 5)" "(0xf0 :: byte) = NOT (mask 4)"
  "(0xf8 :: byte) = NOT (mask 3)" "(0xfc :: byte) = NOT (mask 2)" "(0xfe :: byte) = NOT (mask 1)"
  by (simp_all add: mask_eq_exp_minus_1)

lemma unat_low:
  "unat (x AND 0x3f :: 'a::len word) = unat x mod 64" "unat (x AND 0x1f :: 'a::len word) = unat x mod 32"
  "unat (x AND 0x0f :: 'a::len word) = unat x mod 16" "unat (x AND 0x07 :: 'a::len word) = unat x mod 8"
  "unat (x AND 0x03 :: 'a::len word) = unat x mod 4" "unat (x AND 0x01 :: 'a::len word) = unat x mod 2"
  "unat (x AND 0xff :: 'a::len word) = unat x mod 256"
  by (simp_all only: mask_literals unat_and_mask) simp_all

lemma unat_ucast_byte: "unat (ucast (w :: char32) :: byte) = unat w mod 256"
  by (simp add: unsigned_ucast_eq take_bit_eq_mod)

lemma unat_ucast_char32: "unat (ucast (b :: byte) :: char32) = unat b"
proof -
  have "unat b < 256" using unsigned_less [of b, where 'a = nat] by simp
  then show ?thesis by (simp add: unsigned_ucast_eq take_bit_eq_mod)
qed

lemma unat_lt_byte: "unat (b::byte) < 256"
  using unsigned_less [of b, where 'a = nat] by simp

lemma bit_unat: "bit (b :: 'a::len word) n \<longleftrightarrow> odd (unat b div 2 ^ n)"
proof -
  have "bit b n \<longleftrightarrow> bit (unat b) n" by (simp add: bit_unsigned_iff)
  then show ?thesis by (simp add: bit_iff_odd)
qed

lemma mod_128_64: "(128 + n) mod 64 = (n::nat) mod 64"
  using mod_mult_self4 [of 64 2 n] by simp

end
