(* ===== verification/Utf8.thy ===== *)
theory Utf8
  imports Prelude
begin

text \<open>
  UTF-8 handling of \<^verbatim>\<open>src/src/base/util.cc\<close> (class \<^verbatim>\<open>Util\<close>) and of
  \<^verbatim>\<open>src/src/base/strings\<close>: the decoder of one code point, the encoder, the validity
  check, the character count and the substring by characters. Strings are byte lists, as
  \<^verbatim>\<open>std::string\<close> is; code points are 32-bit words.
\<close>

section \<open>Decoding: util.cc\<close>

definition IsUtf8TrailingByte :: "byte \<Rightarrow> bool" where
  "IsUtf8TrailingByte c \<longleftrightarrow> c AND 0xc0 = 0x80"

text \<open>
  The leading byte's case distinction of \<^verbatim>\<open>SplitFirstChar32\<close>: length, smallest and largest
  code point, and the payload bits of the leading byte.
\<close>

definition LeadingByteInfo :: "byte \<Rightarrow> (nat \<times> char32 \<times> char32 \<times> char32) option" where
  "LeadingByteInfo b =
     (if IsUtf8TrailingByte b then None
      else if b AND 0xe0 = 0xc0 then Some (2, 0x0080, 0x07ff, ucast (b AND 0x1f))
      else if b AND 0xf0 = 0xe0 then Some (3, 0x0800, 0xffff, ucast (b AND 0x0f))
      else if b AND 0xf8 = 0xf0 then Some (4, 0x010000, 0x1fffff, ucast (b AND 0x07))
      else if b AND 0xfc = 0xf8 then Some (5, 0x0200000, 0x3ffffff, ucast (b AND 0x03))
      else if b AND 0xfe = 0xfc then Some (6, 0x4000000, 0x7fffffff, ucast (b AND 0x01))
      else None)"

text \<open>The loop over the trailing bytes: \<^verbatim>\<open>result <<= 6; result += (c & 0x3f)\<close>.\<close>

fun AddTrailingBytes :: "bytes \<Rightarrow> char32 \<Rightarrow> char32 option" where
  "AddTrailingBytes [] result = Some result"
| "AddTrailingBytes (c # cs) result =
     (if \<not> IsUtf8TrailingByte c then None
      else AddTrailingBytes cs (push_bit 6 result + ucast (c AND 0x3f)))"

text \<open>
  \<^verbatim>\<open>Util::SplitFirstChar32\<close>: the returned flag and the two out parameters, which are 0 and
  the empty string whenever the flag is false.
\<close>

definition SplitFirstChar32 :: "bytes \<Rightarrow> bool \<times> char32 \<times> bytes" where
  "SplitFirstChar32 s =
     (case s of
        [] \<Rightarrow> (False, 0, [])
      | b # bs \<Rightarrow>
          if b < 0x80 then (True, ucast b, bs)
          else (case LeadingByteInfo b of
                  None \<Rightarrow> (False, 0, [])
                | Some (len, min_value, max_value, result) \<Rightarrow>
                    if length s < len then (False, 0, [])
                    else (case AddTrailingBytes (take (len - 1) bs) result of
                            None \<Rightarrow> (False, 0, [])
                          | Some r \<Rightarrow>
                              if r < min_value \<or> max_value < r then (False, 0, [])
                              else (True, r, drop len s))))"

lemma LeadingByteInfo_len:
  "LeadingByteInfo b = Some (len, mn, mx, r) \<Longrightarrow> 2 \<le> len \<and> len \<le> 6"
  by (auto simp: LeadingByteInfo_def split: if_splits)

lemma SplitFirstChar32_shorter:
  assumes "SplitFirstChar32 s = (True, c, rest)"
  shows "length rest < length s"
proof (cases s)
  case Nil
  with assms show ?thesis by (simp add: SplitFirstChar32_def)
next
  case (Cons b t)
  with assms show ?thesis
    by (auto simp: SplitFirstChar32_def split: if_splits option.splits dest!: LeadingByteInfo_len)
qed

text \<open>\<^verbatim>\<open>Util::IsValidUtf8\<close>.\<close>

function IsValidUtf8 :: "bytes \<Rightarrow> bool" where
  "IsValidUtf8 s =
     (if s = [] then True
      else (case SplitFirstChar32 s of
              (ok, c, rest) \<Rightarrow> if \<not> ok then False else IsValidUtf8 rest))"
  by pat_completeness auto
termination
  by (relation "measure length") (auto dest: SplitFirstChar32_shorter [OF sym])

text \<open>
  \<^verbatim>\<open>Util::Utf8ToUtf32\<close>, which is also the list of values a \<^verbatim>\<open>ConstChar32Iterator\<close> visits: both
  stop at the first position where \<^verbatim>\<open>SplitFirstChar32\<close> returns false.
\<close>

function Utf8ToUtf32 :: "bytes \<Rightarrow> char32 list" where
  "Utf8ToUtf32 s =
     (case SplitFirstChar32 s of (ok, c, rest) \<Rightarrow> if ok then c # Utf8ToUtf32 rest else [])"
  by pat_completeness auto
termination
  by (relation "measure length") (auto dest: SplitFirstChar32_shorter [OF sym])

declare IsValidUtf8.simps [simp del] Utf8ToUtf32.simps [simp del]

text \<open>\<^verbatim>\<open>ConstChar32Iterator\<close>: the remaining string, the current value and the done flag.\<close>

record char32_iterator =
  utf8_string :: bytes
  current :: char32
  is_done :: bool

definition iterator_Next :: "char32_iterator \<Rightarrow> char32_iterator" where
  "iterator_Next it =
     (if \<not> is_done it
      then (case SplitFirstChar32 (utf8_string it) of
              (ok, c, rest) \<Rightarrow> it\<lparr>utf8_string := rest, current := c, is_done := \<not> ok\<rparr>)
      else it)"

definition ConstChar32Iterator :: "bytes \<Rightarrow> char32_iterator" where
  "ConstChar32Iterator s = iterator_Next \<lparr>utf8_string = s, current = 0, is_done = False\<rparr>"

section \<open>Encoding: util.cc\<close>

text \<open>
  \<^verbatim>\<open>Util::CodepointToUtf8(c, buf)\<close>: the bytes it writes before the terminating NUL. The
  arithmetic is in \<^verbatim>\<open>char32_t\<close>, the \<^verbatim>\<open>static_cast<char>\<close> truncates to a byte.
\<close>

definition CodepointToUtf8 :: "char32 \<Rightarrow> bytes" where
  "CodepointToUtf8 c =
     (if c = 0 then []
      else if c < 0x00080 then [ucast (c AND 0xFF)]
      else if c < 0x00800 then
        [ucast (0xC0 + (drop_bit 6 c AND 0x1F)), ucast (0x80 + (c AND 0x3F))]
      else if c < 0x10000 then
        [ucast (0xE0 + (drop_bit 12 c AND 0x0F)), ucast (0x80 + (drop_bit 6 c AND 0x3F)),
         ucast (0x80 + (c AND 0x3F))]
      else if c < 0x200000 then
        [ucast (0xF0 + (drop_bit 18 c AND 0x07)), ucast (0x80 + (drop_bit 12 c AND 0x3F)),
         ucast (0x80 + (drop_bit 6 c AND 0x3F)), ucast (0x80 + (c AND 0x3F))]
      else if c < 0x8000000 then
        [ucast (0xF8 + (drop_bit 24 c AND 0x03)), ucast (0x80 + (drop_bit 18 c AND 0x3F)),
         ucast (0x80 + (drop_bit 12 c AND 0x3F)), ucast (0x80 + (drop_bit 6 c AND 0x3F)),
         ucast (0x80 + (c AND 0x3F))]
      else
        [ucast (0xFC + (drop_bit 30 c AND 0x01)), ucast (0x80 + (drop_bit 24 c AND 0x3F)),
         ucast (0x80 + (drop_bit 18 c AND 0x3F)), ucast (0x80 + (drop_bit 12 c AND 0x3F)),
         ucast (0x80 + (drop_bit 6 c AND 0x3F)), ucast (0x80 + (c AND 0x3F))])"

definition Utf32ToUtf8 :: "char32 list \<Rightarrow> bytes" where
  "Utf32ToUtf8 cs = concat (map CodepointToUtf8 cs)"


section \<open>Reading the last code point: util.cc\<close>

text \<open>
  \<^verbatim>\<open>Util::SplitLastChar32\<close>: the trailing bytes at the end and the byte before them are
  decoded; the flag, the rest and the code point, 0 and empty whenever the flag is false.
\<close>

definition SplitLastChar32 :: "bytes \<Rightarrow> bool \<times> bytes \<times> char32" where
  "SplitLastChar32 s =
     (if s = [] then (False, [], 0)
      else let trail = takeWhile IsUtf8TrailingByte (rev s) in
        if length trail = length s then (False, [], 0)
        else let len = length trail + 1;
                 last_piece = drop (length s - len) s
             in (case SplitFirstChar32 last_piece of
                   (ok, last_char32, result_piece) \<Rightarrow>
                     if \<not> ok then (False, [], last_char32)
                     else if result_piece \<noteq> [] then (False, [], last_char32)
                     else (True, take (length s - len) s, last_char32)))"

section \<open>Counting and cutting by characters: unicode.cc, utf8\_internal.h, util.cc\<close>

text \<open>\<^verbatim>\<open>kUtf8LenTbl\<close>, row by row, and \<^verbatim>\<open>OneCharLen\<close>.\<close>

definition kUtf8LenTbl :: "nat list" where
  "kUtf8LenTbl =
     replicate 0xc0 1 @ replicate 2 1 @ replicate 14 2 @ replicate 16 2 @ replicate 16 3
     @ replicate 5 4 @ replicate 11 1"

definition OneCharLen :: "byte \<Rightarrow> nat" where
  "OneCharLen c = kUtf8LenTbl ! unat c"

text \<open>\<^verbatim>\<open>strings::FrontChar\<close>.\<close>

definition FrontChar :: "bytes \<Rightarrow> bytes \<times> bytes" where
  "FrontChar s =
     (case s of [] \<Rightarrow> ([], [])
      | b # _ \<Rightarrow> (take (OneCharLen b) s, drop (OneCharLen b) s))"

text \<open>
  \<^verbatim>\<open>strings::CharsLen\<close>: eight bytes at a time, the bits 7 whose neighbour 6 is clear are
  counted by a population count; the last bytes one by one.
\<close>

function CountContinuations :: "bytes \<Rightarrow> nat" where
  "CountContinuations rest =
     (if 8 \<le> length rest
      then (let w = load_le (take 8 rest) :: 64 word
            in popcount (w AND NOT (push_bit 1 w) AND 0x8080808080808080)
               + CountContinuations (drop 8 rest))
      else length (filter IsUtf8TrailingByte rest))"
  by pat_completeness auto
termination by (relation "measure length") auto

declare CountContinuations.simps [simp del]

definition CharsLen :: "bytes \<Rightarrow> nat" where
  "CharsLen sv = length sv - CountContinuations sv"

text \<open>
  The pointer loops of \<^verbatim>\<open>Util::Utf8SubString\<close> advance by \<^verbatim>\<open>OneCharLen\<close> without checking that
  the character is complete. Where the pointer would pass the end of the string the C++
  behaviour is undefined (the size computed from it wraps around); that run is None.
\<close>

function AdvanceChars :: "nat \<Rightarrow> bytes \<Rightarrow> bytes option" where
  "AdvanceChars n s =
     (if n = 0 \<or> s = [] then Some s
      else let len = OneCharLen (hd s) in
        if len = 0 then None
        else if length s < len then None
        else AdvanceChars (n - 1) (drop len s))"
  by pat_completeness auto
termination by (relation "measure (\<lambda>(n, s). length s)") auto

declare AdvanceChars.simps [simp del]

definition Utf8SubStringFrom :: "bytes \<Rightarrow> nat \<Rightarrow> bytes option" where
  "Utf8SubStringFrom src start = AdvanceChars start src"

definition Utf8SubString :: "bytes \<Rightarrow> nat \<Rightarrow> nat \<Rightarrow> bytes option" where
  "Utf8SubString src start n =
     (case Utf8SubStringFrom src start of
        None \<Rightarrow> None
      | Some s \<Rightarrow> (case AdvanceChars n s of
                    None \<Rightarrow> None
                  | Some e \<Rightarrow> Some (take (length s - length e) s)))"

text \<open>\<^verbatim>\<open>Util::SplitStringToUtf8Chars\<close>, the loop of \<^verbatim>\<open>AppendUtf8CharsImpl\<close>.\<close>

function SplitStringToUtf8Chars :: "bytes \<Rightarrow> bytes list option" where
  "SplitStringToUtf8Chars s =
     (if s = [] then Some []
      else let mblen = OneCharLen (hd s) in
        if mblen = 0 \<or> length s < mblen then None
        else map_option ((#) (take mblen s)) (SplitStringToUtf8Chars (drop mblen s)))"
  by pat_completeness auto
termination by (relation "measure length") auto

declare SplitStringToUtf8Chars.simps [simp del]

section \<open>Leading and trailing bytes\<close>

lemma unat_high:
  "unat ((b::byte) AND 0xc0) = unat b div 64 * 64" "unat (b AND 0xe0) = unat b div 32 * 32"
  "unat (b AND 0xf0) = unat b div 16 * 16" "unat (b AND 0xf8) = unat b div 8 * 8"
  "unat (b AND 0xfc) = unat b div 4 * 4" "unat (b AND 0xfe) = unat b div 2 * 2"
  unfolding byte_high_masks unat_and_not_mask by simp_all

lemma IsUtf8TrailingByte_range: "IsUtf8TrailingByte b \<longleftrightarrow> 0x80 \<le> unat b \<and> unat b < 0xc0"
  unfolding IsUtf8TrailingByte_def word_unat_eq_iff unat_high by simp arith

lemma LeadingByteInfo_range:
  "LeadingByteInfo b =
     (if unat b < 0x80 \<or> 0xfe \<le> unat b \<or> 0x80 \<le> unat b \<and> unat b < 0xc0 then None
      else if unat b < 0xe0 then Some (2, 0x0080, 0x07ff, ucast (b AND 0x1f))
      else if unat b < 0xf0 then Some (3, 0x0800, 0xffff, ucast (b AND 0x0f))
      else if unat b < 0xf8 then Some (4, 0x010000, 0x1fffff, ucast (b AND 0x07))
      else if unat b < 0xfc then Some (5, 0x0200000, 0x3ffffff, ucast (b AND 0x03))
      else Some (6, 0x4000000, 0x7fffffff, ucast (b AND 0x01)))"
proof -
  have b: "unat b < 256" using unsigned_less [of b, where 'a = nat] by simp
  have "(b AND 0xe0 = 0xc0) = (0xc0 \<le> unat b \<and> unat b < 0xe0)"
    "(b AND 0xf0 = 0xe0) = (0xe0 \<le> unat b \<and> unat b < 0xf0)"
    "(b AND 0xf8 = 0xf0) = (0xf0 \<le> unat b \<and> unat b < 0xf8)"
    "(b AND 0xfc = 0xf8) = (0xf8 \<le> unat b \<and> unat b < 0xfc)"
    "(b AND 0xfe = 0xfc) = (0xfc \<le> unat b \<and> unat b < 0xfe)"
    using b unfolding word_unat_eq_iff unat_high by (simp_all, arith+)
  then show ?thesis
    unfolding LeadingByteInfo_def IsUtf8TrailingByte_range by auto
qed

fun payload :: "nat \<Rightarrow> char32 \<Rightarrow> bytes" where
  "payload 0 x = []"
| "payload (Suc n) x = ucast (0x80 + (drop_bit (6 * n) x AND 0x3F)) # payload n x"

lemma length_payload [simp]: "length (payload n x) = n"
  by (induction n) auto

lemma unat_payload_byte:
  "unat (ucast (0x80 + (x AND 0x3F) :: char32) :: byte) = 0x80 + unat x mod 64"
proof -
  have "unat (x AND 0x3F) < 64" by (simp add: unat_low)
  then have "unat (0x80 + (x AND 0x3F) :: char32) = 0x80 + unat x mod 64"
    by (simp add: unat_word_ariths unat_low)
  then show ?thesis by (simp add: unat_ucast_byte)
qed

lemma six_bits: "push_bit 6 (drop_bit 6 (x::char32)) + (x AND 0x3F) = x"
  using bits_ident [of 6 x] by (simp only: take_bit_eq_mask mask_literals)

lemma AddTrailingBytes_payload:
  "n \<le> 5 \<Longrightarrow> AddTrailingBytes (payload n x) (drop_bit (6 * n) x) = Some x"
proof (induction n)
  case 0
  then show ?case by simp
next
  case (Suc n)
  let ?y = "drop_bit (6 * n) x"
  have t: "IsUtf8TrailingByte (ucast (0x80 + (?y AND 0x3F)))"
    unfolding IsUtf8TrailingByte_range unat_payload_byte by simp
  have p: "ucast ((ucast (0x80 + (?y AND 0x3F)) :: byte) AND 0x3f) = ?y AND 0x3F"
    unfolding word_unat_eq_iff unat_ucast_char32 unat_low unat_payload_byte by (simp add: mod_128_64)
  have "drop_bit (6 * Suc n) x = drop_bit 6 ?y" by (simp add: algebra_simps)
  then have "AddTrailingBytes (payload (Suc n) x) (drop_bit (6 * Suc n) x)
      = AddTrailingBytes (payload n x) (push_bit 6 (drop_bit 6 ?y) + (?y AND 0x3F))"
    using t p by simp
  also have "\<dots> = Some x" unfolding six_bits using Suc by simp
  finally show ?case .
qed

lemma trailing_byte_offset: "0x80 \<le> n \<Longrightarrow> n < 0xc0 \<Longrightarrow> 0x80 + n mod 64 = (n::nat)"
  using mod_128_64 [of "n - 128"] by simp

lemma AddTrailingBytes_canonical:
  "AddTrailingBytes cs r = Some x \<Longrightarrow> (unat r + 1) * 64 ^ length cs \<le> 2 ^ 32 \<Longrightarrow>
     cs = payload (length cs) x \<and> r = drop_bit (6 * length cs) x"
proof (induction cs arbitrary: r)
  case Nil
  then show ?case by simp
next
  case (Cons c cs)
  let ?r = "push_bit 6 r + ucast (c AND 0x3f) :: char32"
  from Cons.prems(1) have t: "0x80 \<le> unat c" "unat c < 0xc0"
    and add: "AddTrailingBytes cs ?r = Some x"
    by (auto simp: IsUtf8TrailingByte_range split: if_splits)
  have bound: "((unat r + 1) * 64) * 64 ^ length cs \<le> 2 ^ 32" using Cons.prems(2) by (simp only: mult.assoc power_Suc length_Cons)
  have "(unat r + 1) * 64 \<le> ((unat r + 1) * 64) * 64 ^ length cs" by simp
  with bound have r: "(unat r + 1) * 64 \<le> 2 ^ 32" by linarith
  have ur: "unat ?r = unat r * 64 + unat c mod 64"
  proof -
    have "unat (push_bit 6 r) = unat r * 64" using r by (simp add: unat_push_bit_small)
    moreover have "unat (ucast (c AND 0x3f) :: char32) = unat c mod 64"
      by (simp add: unat_ucast_char32 unat_low)
    moreover have "unat r * 64 + unat c mod 64 < 2 ^ 32" using r mod_less_divisor [of 64 "unat c"] by simp
    ultimately show ?thesis by (simp add: unat_word_ariths)
  qed
  have "(unat ?r + 1) * 64 ^ length cs \<le> ((unat r + 1) * 64) * 64 ^ length cs"
    unfolding ur by (rule mult_le_mono1) (use mod_less_divisor [of 64 "unat c"] in simp)
  with bound have IH: "cs = payload (length cs) x" "?r = drop_bit (6 * length cs) x"
    using Cons.IH [OF add] by auto
  have "r = drop_bit 6 ?r" unfolding word_unat_eq_iff unat_drop_bit ur by simp
  moreover have "c = ucast (0x80 + (?r AND 0x3F))"
    unfolding word_unat_eq_iff unat_payload_byte ur using trailing_byte_offset [OF t] by simp
  ultimately show ?case using IH by (simp add: algebra_simps)
qed

text \<open>lead\<close>

lemma unat_lead_byte:
  assumes "k + unat y < 256"
  shows "unat (ucast (of_nat k + y :: char32) :: byte) = k + unat y"
  using assms by (simp add: unat_ucast_byte unat_word_ariths unat_of_nat)

lemma CodepointToUtf8_payload:
  "CodepointToUtf8 c =
     (if c = 0 then []
      else if c < 0x00080 then [ucast c]
      else if c < 0x00800 then ucast (0xC0 + drop_bit 6 c) # payload 1 c
      else if c < 0x10000 then ucast (0xE0 + drop_bit 12 c) # payload 2 c
      else if c < 0x200000 then ucast (0xF0 + drop_bit 18 c) # payload 3 c
      else if c < 0x8000000 then ucast (0xF8 + (drop_bit 24 c AND 0x03)) # payload 4 c
      else ucast (0xFC + (drop_bit 30 c AND 0x01)) # payload 5 c)"
proof -
  have "c < 0x80 \<Longrightarrow> c AND 0xFF = c" 
       "c < 0x00800 \<Longrightarrow> drop_bit 6 c AND 0x1F = drop_bit 6 c"
       "c < 0x10000 \<Longrightarrow> drop_bit 12 c AND 0x0F = drop_bit 12 c"
       "c < 0x200000 \<Longrightarrow> drop_bit 18 c AND 0x07 = drop_bit 18 c"
    unfolding word_unat_eq_iff unat_low unat_drop_bit word_less_nat_alt by simp_all
  then show ?thesis
    unfolding CodepointToUtf8_def by (simp add: numeral_eq_Suc)
qed


lemma SplitFirstChar32_lead:
  assumes info: "LeadingByteInfo b = Some (Suc n, mn, mx, drop_bit (6 * n) c)"
    and b: "0x80 \<le> unat b" and n: "n \<le> 5" and "mn \<le> c" and "c \<le> mx"
  shows "SplitFirstChar32 (b # payload n c @ rest) = (True, c, rest)"
  using assms(4,5) b
  by (simp add: SplitFirstChar32_def info AddTrailingBytes_payload [OF n] word_less_nat_alt
      word_le_nat_alt not_less)

lemma lead_info:
  fixes y :: char32
  shows "unat y < 32 \<Longrightarrow> LeadingByteInfo (ucast (0xC0 + y)) = Some (2, 0x0080, 0x07ff, y)"
    "unat y < 16 \<Longrightarrow> LeadingByteInfo (ucast (0xE0 + y)) = Some (3, 0x0800, 0xffff, y)"
    "unat y < 8 \<Longrightarrow> LeadingByteInfo (ucast (0xF0 + y)) = Some (4, 0x010000, 0x1fffff, y)"
    "unat y < 4 \<Longrightarrow> LeadingByteInfo (ucast (0xF8 + y)) = Some (5, 0x0200000, 0x3ffffff, y)"
    "unat y < 2 \<Longrightarrow> LeadingByteInfo (ucast (0xFC + y)) = Some (6, 0x4000000, 0x7fffffff, y)"
  using unat_lead_byte [of 192 y] unat_lead_byte [of 224 y] unat_lead_byte [of 240 y]
    unat_lead_byte [of 248 y] unat_lead_byte [of 252 y]
    mod_mult_self4 [of 32 6 "unat y"] mod_mult_self4 [of 16 14 "unat y"]
    mod_mult_self4 [of 8 30 "unat y"] mod_mult_self4 [of 4 62 "unat y"]
    mod_mult_self4 [of 2 126 "unat y"]
  by (auto simp: LeadingByteInfo_range word_unat_eq_iff unat_ucast_char32 unat_low)

text \<open>
  Where the encoder is right: every code point but 0 and those of the 5-byte branch that do
  not fit in 26 bits.
\<close>

lemma CodepointToUtf8_multibyte:
  assumes "0x80 \<le> c" and "c < 0x4000000 \<or> 0x8000000 \<le> c \<and> c < 0x80000000"
  obtains b n mn mx where "CodepointToUtf8 c = b # payload n c" "n \<le> 5" "mn \<le> c" "c \<le> mx"
    "LeadingByteInfo b = Some (Suc n, mn, mx, drop_bit (6 * n) c)"
proof -
  note simps = CodepointToUtf8_payload word_less_nat_alt word_le_nat_alt unat_drop_bit
  from assms(1) have nz: "c \<noteq> 0" by auto
  consider "c < 0x800" | "0x800 \<le> c" "c < 0x10000"
    | "0x10000 \<le> c" "c < 0x200000" | "0x200000 \<le> c" "c < 0x4000000" 
    | "0x8000000 \<le> c" "c < 0x80000000"
    using assms(2) by fastforce
  then show ?thesis
  proof cases
    case 1
    with assms(1) nz show ?thesis
      using lead_info(1) [of "drop_bit 6 c"]
      by (intro that [of "ucast (0xC0 + drop_bit 6 c)" 1 "0x80" "0x7ff"]) (auto simp: simps)
  next
    case 2
    with assms(1) nz show ?thesis
      using lead_info(2) [of "drop_bit 12 c"]
      by (intro that [of "ucast (0xE0 + drop_bit 12 c)" 2 "0x800" "0xffff"]) (auto simp: simps)
  next
    case 3
    with assms(1) nz show ?thesis
      using lead_info(3) [of "drop_bit 18 c"]
      by (intro that [of "ucast (0xF0 + drop_bit 18 c)" 3 "0x10000" "0x1fffff"]) (auto simp: simps)
  next
    case 4
    then have "drop_bit 24 c AND 0x03 = drop_bit 24 c" 
      unfolding word_unat_eq_iff unat_low unat_drop_bit word_less_nat_alt by simp
    with 4 assms(1) nz show ?thesis
      using lead_info(4) [of "drop_bit 24 c"]
      by (intro that [of "ucast (0xF8 + drop_bit 24 c)" 4 "0x200000" "0x3ffffff"]) (auto simp: simps)
  next
    case 5
    then have "drop_bit 30 c AND 0x01 = drop_bit 30 c" 
      unfolding word_unat_eq_iff unat_low unat_drop_bit word_less_nat_alt by simp
    with 5 assms(1) nz show ?thesis
      using lead_info(5) [of "drop_bit 30 c"]
      by (intro that [of "ucast (0xFC + drop_bit 30 c)" 5 "0x4000000" "0x7fffffff"]) (auto simp: simps)
  qed
qed

lemma LeadingByteInfo_ge: "LeadingByteInfo b = Some i \<Longrightarrow> 0x80 \<le> unat b"
  by (auto simp: LeadingByteInfo_range split: if_splits)

lemma SplitFirstChar32_CodepointToUtf8:
  assumes "c \<noteq> 0" and "c < 0x4000000 \<or> 0x8000000 \<le> c \<and> c < 0x80000000"
  shows "SplitFirstChar32 (CodepointToUtf8 c @ rest) = (True, c, rest)"
proof (cases "c < 0x80")
  case True
  then have "unat c < 128" by (simp add: word_less_nat_alt)
  then have "ucast (ucast c :: byte) = c" "(ucast c :: byte) < 0x80"
    by (simp_all add: word_unat_eq_iff unat_ucast_char32 unat_ucast_byte word_less_nat_alt)
  with True assms(1) show ?thesis
    by (simp add: CodepointToUtf8_payload SplitFirstChar32_def)
next
  case False
  then have "0x80 \<le> c" by simp
  from CodepointToUtf8_multibyte [OF this assms(2)] show ?thesis
    by (metis LeadingByteInfo_ge SplitFirstChar32_lead append_Cons)
qed

section \<open>Shortest forms\<close>

lemma lead_inv:
  fixes b :: byte and m :: nat
  assumes "k \<le> unat b" "unat b < k + 2 ^ n" "k = j * 2 ^ n" "k + 2 ^ n \<le> 256"
    "unat r = unat b mod 2 ^ n"
  shows "b = ucast (of_nat k + r :: char32) \<and> unat r < 2 ^ n"
proof -
  have "unat b mod 2 ^ n = unat b - k"
    using assms(1,2,3) mod_mult_self4 [of "2 ^ n" j "unat b - k"] by (simp add: mult.commute)
  then have "unat b = k + unat r" and r: "unat r < 2 ^ n" using assms by auto
  moreover have "unat (ucast (of_nat k + r :: char32) :: byte) = k + unat r"
    by (rule unat_lead_byte) (use r assms(4) in linarith)
  ultimately show ?thesis by (simp add: word_unat_eq_iff)
qed

lemma LeadingByteInfo_inv:
  assumes "LeadingByteInfo b = Some (len, mn, mx, r)"
  shows "(len, mn, mx, b) \<in> {(2, 0x80, 0x7ff, ucast (0xC0 + r)), (3, 0x800, 0xffff, ucast (0xE0 + r)),
     (4, 0x10000, 0x1fffff, ucast (0xF0 + r)), (5, 0x200000, 0x3ffffff, ucast (0xF8 + r)),
     (6, 0x4000000, 0x7fffffff, ucast (0xFC + r))} \<and> (unat r + 1) * 64 ^ (len - 1) \<le> 2 ^ 32"
proof -
  from assms have range: "192 \<le> unat b" "unat b < 254"
    by (auto simp: LeadingByteInfo_range split: if_splits)
  consider "192 \<le> unat b" "unat b < 224" | "224 \<le> unat b" "unat b < 240" | "240 \<le> unat b" "unat b < 248"
    | "248 \<le> unat b" "unat b < 252" | "252 \<le> unat b" "unat b < 254"
    using range by linarith
  then show ?thesis
  proof cases
    case 1
    then have "LeadingByteInfo b = Some (2, 0x80, 0x7ff, ucast (b AND 0x1f))"
      by (simp add: LeadingByteInfo_range)
    from trans [OF sym [OF assms] this]
    have info: "len = 2" "mn = 0x80" "mx = 0x7ff" "r = ucast (b AND 0x1f)"
      by (simp_all only: option.inject prod.inject)
    have r: "unat r = unat b mod 2 ^ 5" unfolding info(4) unat_ucast_char32 unat_low(2) by simp
    have "b = ucast (of_nat 192 + r) \<and> unat r < 2 ^ 5"
      by (rule lead_inv [OF _ _ _ _ r, where j = 6]) (use 1 in simp_all)
    then show ?thesis unfolding info(1-3) by simp
  next
    case 2
    then have "LeadingByteInfo b = Some (3, 0x800, 0xffff, ucast (b AND 0x0f))"
      by (simp add: LeadingByteInfo_range)
    from trans [OF sym [OF assms] this]
    have info: "len = 3" "mn = 0x800" "mx = 0xffff" "r = ucast (b AND 0x0f)"
      by (simp_all only: option.inject prod.inject)
    have r: "unat r = unat b mod 2 ^ 4" unfolding info unat_ucast_char32 unat_low by simp
    have "b = ucast (of_nat 224 + r) \<and> unat r < 2 ^ 4"
      by (rule lead_inv [OF _ _ _ _ r, where j = 14]) (use 2 in simp_all)
    then show ?thesis unfolding info(1-3) by simp
  next
    case 3
    then have "LeadingByteInfo b = Some (4, 0x10000, 0x1fffff, ucast (b AND 0x07))"
      by (simp add: LeadingByteInfo_range)
    from trans [OF sym [OF assms] this]
    have info: "len = 4" "mn = 0x10000" "mx = 0x1fffff" "r = ucast (b AND 0x07)"
      by (simp_all only: option.inject prod.inject)
    have r: "unat r = unat b mod 2 ^ 3" unfolding info unat_ucast_char32 unat_low by simp
    have "b = ucast (of_nat 240 + r) \<and> unat r < 2 ^ 3"
      by (rule lead_inv [OF _ _ _ _ r, where j = 30]) (use 3 in simp_all)
    then show ?thesis unfolding info(1-3) by simp
  next
    case 4
    then have "LeadingByteInfo b = Some (5, 0x200000, 0x3ffffff, ucast (b AND 0x03))"
      by (simp add: LeadingByteInfo_range)
    from trans [OF sym [OF assms] this]
    have info: "len = 5" "mn = 0x200000" "mx = 0x3ffffff" "r = ucast (b AND 0x03)"
      by (simp_all only: option.inject prod.inject)
    have r: "unat r = unat b mod 2 ^ 2" unfolding info unat_ucast_char32 unat_low by simp
    have "b = ucast (of_nat 248 + r) \<and> unat r < 2 ^ 2"
      by (rule lead_inv [OF _ _ _ _ r, where j = 62]) (use 4 in simp_all)
    then show ?thesis unfolding info(1-3) by simp
  next
    case 5
    then have "LeadingByteInfo b = Some (6, 0x4000000, 0x7fffffff, ucast (b AND 0x01))"
      by (simp add: LeadingByteInfo_range)
    from trans [OF sym [OF assms] this]
    have info: "len = 6" "mn = 0x4000000" "mx = 0x7fffffff" "r = ucast (b AND 0x01)"
      by (simp_all only: option.inject prod.inject)
    have r: "unat r = unat b mod 2 ^ 1" unfolding info unat_ucast_char32 unat_low by simp
    have "b = ucast (of_nat 252 + r) \<and> unat r < 2 ^ 1"
      by (rule lead_inv [OF _ _ _ _ r, where j = 126]) (use 5 in simp_all)
    then show ?thesis unfolding info(1-3) by simp
  qed
qed

lemma SplitFirstChar32_canonical:
  assumes "SplitFirstChar32 s = (True, c, rest)" and "c \<noteq> 0" and "c < 0x4000000 \<or> 0x8000000 \<le> c"
  shows "s = CodepointToUtf8 c @ rest"
proof (cases s)
  case Nil
  with assms show ?thesis by (simp add: SplitFirstChar32_def)
next
  case (Cons b bs)
  show ?thesis
  proof (cases "b < 0x80")
    case True
    with assms Cons have "c = ucast b" "rest = bs" by (auto simp: SplitFirstChar32_def)
    with True assms(2) Cons show ?thesis
      by (auto simp: CodepointToUtf8_payload word_less_nat_alt unat_ucast_char32 word_unat_eq_iff unat_ucast_byte)
  next
    case False
    with assms(1) Cons obtain len mn mx r where
      info: "LeadingByteInfo b = Some (len, mn, mx, r)" and len: "len \<le> length s"
      and add: "AddTrailingBytes (take (len - 1) bs) r = Some c"
      and mn: "mn \<le> c" and mx: "c \<le> mx" and rest: "rest = drop len s"
      by (auto simp: SplitFirstChar32_def not_less split: if_splits option.splits)
    from LeadingByteInfo_inv [OF info] have bound: "(unat r + 1) * 64 ^ (len - 1) \<le> 2 ^ 32" by blast
    from LeadingByteInfo_len [OF info] have l2: "2 \<le> len" by blast
    have lt: "length (take (len - 1) bs) = len - 1" using len Cons by simp
    from AddTrailingBytes_canonical [OF add] bound lt
    have p: "take (len - 1) bs = payload (len - 1) c" and r: "r = drop_bit (6 * (len - 1)) c" by auto
    have s: "s = b # payload (len - 1) c @ rest"
      using Cons rest l2 p append_take_drop_id [of "len - 1" bs] by (cases len) auto
    have c80: "0x80 \<le> c" and nz: "c \<noteq> 0"
      using LeadingByteInfo_inv [OF info] mn assms(2) by (auto simp: word_le_nat_alt)
    have "drop_bit 24 c AND 0x03 = drop_bit 24 c" if "c \<le> 0x3ffffff"
      using that unfolding word_unat_eq_iff unat_low unat_drop_bit word_le_nat_alt by simp
    moreover have "drop_bit 30 c AND 0x01 = drop_bit 30 c" if "c \<le> 0x7fffffff"
      using that unfolding word_unat_eq_iff unat_low unat_drop_bit word_le_nat_alt by simp
    ultimately have "CodepointToUtf8 c = b # payload (len - 1) c"
      using LeadingByteInfo_inv [OF info] mn mx nz assms(3) r unfolding CodepointToUtf8_payload
      by (auto simp: word_le_nat_alt word_less_nat_alt)
    with s show ?thesis by simp
  qed
qed

lemma CodepointToUtf8_gap:
  assumes "0x4000000 \<le> c" and "c < 0x8000000"
  shows "SplitFirstChar32 (CodepointToUtf8 c @ rest) \<noteq> (True, c, rest)"
proof 
  let ?b = "ucast (0xF8 + (drop_bit 24 c AND 0x03)) :: byte"
  assume dec: "SplitFirstChar32 (CodepointToUtf8 c @ rest) = (True, c, rest)"
  have enc: "CodepointToUtf8 c = ?b # payload 4 c"
    using assms by (auto simp: CodepointToUtf8_payload word_le_nat_alt word_less_nat_alt)
  have "unat (drop_bit 24 c AND 0x03) < 4" by (simp add: unat_low)
  then have "LeadingByteInfo ?b = Some (5, 0x0200000, 0x3ffffff, drop_bit 24 c AND 0x03)" "\<not> ?b < 0x80"
    using lead_info(4) LeadingByteInfo_ge by (fastforce simp: word_less_nat_alt)+
  with dec have "c \<le> 0x3ffffff"
    unfolding enc by (auto simp: SplitFirstChar32_def split: if_splits option.splits)
  with assms show False by (simp add: word_le_nat_alt)
qed

section \<open>The block-wise character count\<close>

lemma bit_byte_0x80: "bit (0x80 :: byte) n \<longleftrightarrow> n = 7"
proof -
  have "(0x80 :: byte) = push_bit 7 1" by simp
  then show ?thesis by (simp only: bit_simps) (auto simp: bit_simps bit_1_iff)
qed

lemma bit_high_bits: "bit (0x8080808080808080 :: 64 word) n \<longleftrightarrow> n < 64 \<and> n mod 8 = 7"
proof -
  have r: "[0x80, 0x80, 0x80, 0x80, 0x80, 0x80, 0x80, 0x80] = replicate 8 (0x80 :: byte)"
    by (simp add: numeral_eq_Suc)
  have "(0x8080808080808080 :: 64 word) = load_le [0x80, 0x80, 0x80, 0x80, 0x80, 0x80, 0x80, 0x80]"
    by simp
  then have eq: "(0x8080808080808080 :: 64 word) = load_le (replicate 8 0x80)" unfolding r .
  have "n < 64 \<Longrightarrow> n div 8 < 8" by simp
  moreover have "bit (0x80 :: byte) (n mod 8) \<longleftrightarrow> n mod 8 = 7" by (rule bit_byte_0x80)
  ultimately show ?thesis unfolding eq bit_load_le by (simp only: length_replicate nth_replicate) auto
qed

lemma IsUtf8TrailingByte_bits: "IsUtf8TrailingByte b \<longleftrightarrow> bit b 7 \<and> \<not> bit b 6"
proof -
  define q where "q = unat b div 64"
  have "q < 4" using unat_lt_byte [of b] by (simp add: q_def)
  then consider "q = 0" | "q = 1" | "q = 2" | "q = 3" by linarith
  then have "q = 2 \<longleftrightarrow> odd (q div 2) \<and> even q" by cases simp_all
  moreover have "q div 2 = unat b div 128" by (simp add: q_def div_mult2_eq [symmetric])
  moreover have "0x80 \<le> unat b \<and> unat b < 0xc0 \<longleftrightarrow> q = 2" by (auto simp: q_def)
  ultimately show ?thesis by (simp add: IsUtf8TrailingByte_range bit_unat q_def)
qed

lemma popcount_continuations:
  assumes "length bs = 8"
  defines "w \<equiv> load_le bs :: 64 word"
  shows "popcount (w AND NOT (push_bit 1 w) AND 0x8080808080808080)
    = length (filter IsUtf8TrailingByte bs)"
proof -
  let ?m = "w AND NOT (push_bit 1 w) AND 0x8080808080808080"
  have b: "bit ?m n \<longleftrightarrow> n div 8 < 8 \<and> n mod 8 = 7 \<and> IsUtf8TrailingByte (bs ! (n div 8))" if "n < 64" for n
  proof (cases "n mod 8 = 7")
    case True
    then have n: "n = 8 * (n div 8) + 7" using div_mult_mod_eq [of n 8] by simp
    then have "n - 1 = 8 * (n div 8) + 6" by simp
    then have "0 < n" "(n - 1) mod 8 = 6" "(n - 1) div 8 = n div 8" using n by simp_all
    have d: "n div 8 < 8" and d1: "n - Suc 0 < 64" using that by simp_all
    have p: "bit (push_bit 1 w) n \<longleftrightarrow> bit w (n - 1)"
      unfolding bit_push_bit_iff using \<open>0 < n\<close> that by auto
    have w7: "bit w n \<longleftrightarrow> bit (bs ! (n div 8)) 7"
      unfolding w_def bit_load_le using True that assms(1) d by simp
    have w6: "bit w (n - 1) \<longleftrightarrow> bit (bs ! (n div 8)) 6"
      unfolding w_def bit_load_le
      using \<open>(n - 1) mod 8 = 6\<close> \<open>(n - 1) div 8 = n div 8\<close> that assms(1) d d1 by simp
    show ?thesis
      unfolding bit_and_iff bit_not_iff bit_high_bits p w7 w6 IsUtf8TrailingByte_bits
      using True that d by auto
  next
    case False
    then show ?thesis unfolding bit_and_iff bit_high_bits by simp
  qed
  have "{n. n < 64 \<and> bit ?m n} = (\<lambda>i. 8 * i + 7) ` {i. i < 8 \<and> IsUtf8TrailingByte (bs ! i)}"
  proof (intro set_eqI iffI)
    fix n assume "n \<in> {n. n < 64 \<and> bit ?m n}"
    then have "n < 64" "n mod 8 = 7" "n div 8 < 8" "IsUtf8TrailingByte (bs ! (n div 8))" using b by auto
    moreover have "n = 8 * (n div 8) + 7" using \<open>n mod 8 = 7\<close> div_mult_mod_eq [of n 8] by simp
    ultimately show "n \<in> (\<lambda>i. 8 * i + 7) ` {i. i < 8 \<and> IsUtf8TrailingByte (bs ! i)}" by blast
  next
    fix n assume "n \<in> (\<lambda>i. 8 * i + 7) ` {i. i < 8 \<and> IsUtf8TrailingByte (bs ! i)}"
    then obtain i where "n = 8 * i + 7" "i < 8" "IsUtf8TrailingByte (bs ! i)" by auto
    moreover from this have "n < 64" "n div 8 = i" "n mod 8 = 7" by auto
    ultimately show "n \<in> {n. n < 64 \<and> bit ?m n}" using b by auto
  qed
  moreover have "inj_on (\<lambda>i. 8 * i + 7 :: nat) A" for A by (simp add: inj_on_def)
  ultimately have "popcount ?m = card {i. i < 8 \<and> IsUtf8TrailingByte (bs ! i)}"
    by (simp add: popcount_eq_card card_image)
  then show ?thesis using assms(1) by (simp add: length_filter_conv_card)
qed

lemma CountContinuations_eq: "CountContinuations s = length (filter IsUtf8TrailingByte s)"
proof (induction s rule: CountContinuations.induct)
  case (1 s)
  show ?case
  proof (cases "8 \<le> length s")
    case True
    have "filter IsUtf8TrailingByte s = filter IsUtf8TrailingByte (take 8 s) @ filter IsUtf8TrailingByte (drop 8 s)"
      by (metis append_take_drop_id filter_append)
    with True 1 popcount_continuations [of "take 8 s"] show ?thesis
      by (simp add: CountContinuations.simps [of s] Let_def)
  next
    case False
    then show ?thesis by (simp add: CountContinuations.simps [of s])
  qed
qed

lemma CharsLen_eq:
  "CharsLen s = length (filter (\<lambda>b. \<not> IsUtf8TrailingByte b) s)"
  using sum_length_filter_compl [of IsUtf8TrailingByte s]
  by (simp add: CharsLen_def CountContinuations_eq)

section \<open>Strings of code points\<close>

text \<open>
  The code points that survive the encoder (all but NUL, which it drops, and those between
  0x4000000 and 0x7ffffff, see the gap below), and the Unicode scalar range without NUL.
\<close>

definition encodable :: "char32 \<Rightarrow> bool" where
  "encodable c \<longleftrightarrow> c \<noteq> 0 \<and> (c < 0x4000000 \<or> 0x8000000 \<le> c \<and> c < 0x80000000)"

definition unicode :: "char32 \<Rightarrow> bool" where
  "unicode c \<longleftrightarrow> c \<noteq> 0 \<and> c \<le> 0x10ffff"

lemma unicode_encodable [intro]: "unicode c \<Longrightarrow> encodable c"
  by (auto simp: unicode_def encodable_def word_less_nat_alt word_le_nat_alt)

lemma Utf32ToUtf8_simps [simp]:
  "Utf32ToUtf8 [] = []" "Utf32ToUtf8 (c # cs) = CodepointToUtf8 c @ Utf32ToUtf8 cs"
  "Utf32ToUtf8 (cs @ ds) = Utf32ToUtf8 cs @ Utf32ToUtf8 ds"
  by (simp_all add: Utf32ToUtf8_def)

lemma SplitFirstChar32_Nil [simp]: "SplitFirstChar32 [] = (False, 0, [])"
  by (simp add: SplitFirstChar32_def)

lemma SplitFirstChar32_encoded [simp]:
  "encodable c \<Longrightarrow> SplitFirstChar32 (CodepointToUtf8 c @ rest) = (True, c, rest)"
  by (simp add: encodable_def SplitFirstChar32_CodepointToUtf8)

lemma SplitFirstChar32_encoded' [simp]:
  "encodable c \<Longrightarrow> SplitFirstChar32 (CodepointToUtf8 c) = (True, c, [])"
  using SplitFirstChar32_encoded [of c "[]"] by simp

lemma CodepointToUtf8_nonempty: "encodable c \<Longrightarrow> CodepointToUtf8 c \<noteq> []"
  by (metis SplitFirstChar32_Nil SplitFirstChar32_encoded' Pair_inject)

lemma Utf8ToUtf32_encoded [simp]:
  "list_all encodable cs \<Longrightarrow> Utf8ToUtf32 (Utf32ToUtf8 cs) = cs"
  by (induction cs) (auto simp: Utf8ToUtf32.simps)

lemma IsValidUtf8_encoded [simp]: "list_all encodable cs \<Longrightarrow> IsValidUtf8 (Utf32ToUtf8 cs)"
  by (induction cs) (auto simp: IsValidUtf8.simps)

lemma valid_is_encoded:
  assumes "IsValidUtf8 s" and "\<And>c. c \<in> set (Utf8ToUtf32 s) \<Longrightarrow> c \<noteq> 0 \<and> (c < 0x4000000 \<or> 0x8000000 \<le> c)"
  shows "Utf32ToUtf8 (Utf8ToUtf32 s) = s"
  using assms
proof (induction s rule: IsValidUtf8.induct)
  case (1 s)
  show ?case
  proof (cases "s = []")
    case True
    then show ?thesis by (simp add: Utf8ToUtf32.simps)
  next
    case False
    with "1.prems"(1) obtain c rest where dec: "SplitFirstChar32 s = (True, c, rest)"
      and v: "IsValidUtf8 rest"
      by (auto simp: IsValidUtf8.simps [of s] split: prod.splits if_splits)
    then have cps: "Utf8ToUtf32 s = c # Utf8ToUtf32 rest" by (simp add: Utf8ToUtf32.simps [of s])
    with "1.prems"(2) have c: "c \<noteq> 0 \<and> (c < 0x4000000 \<or> 0x8000000 \<le> c)" by simp
    have "Utf32ToUtf8 (Utf8ToUtf32 rest) = rest"
      using "1.IH" [OF False dec [symmetric] refl] dec v "1.prems"(2) cps by auto
    then have "Utf32ToUtf8 (Utf8ToUtf32 s) = CodepointToUtf8 c @ rest" unfolding cps by simp
    also have "\<dots> = s" using SplitFirstChar32_canonical [OF dec] c by simp
    finally show ?thesis .
  qed
qed

text \<open>Leading bytes: \<^verbatim>\<open>OneCharLen\<close> is the length of the encoding of a Unicode code point.\<close>

lemma OneCharLen_range:
  "OneCharLen b = (if unat b < 0xc2 then 1 else if unat b < 0xe0 then 2
     else if unat b < 0xf0 then 3 else if unat b < 0xf5 then 4 else 1)"
  using unat_lt_byte [of b] by (auto simp: OneCharLen_def kUtf8LenTbl_def nth_append)

lemma OneCharLen_pos [simp]: "0 < OneCharLen b"
  by (simp add: OneCharLen_range)

lemma unicode_leading:
  assumes "unicode c"
  obtains b n where "CodepointToUtf8 c = b # payload n c" "OneCharLen b = Suc n" "\<not> IsUtf8TrailingByte b"
proof -
  have c: "unat c \<noteq> 0" "unat c \<le> 0x10ffff" using assms by (auto simp: unicode_def word_le_nat_alt unat_eq_zero)
  note cp = CodepointToUtf8_payload word_less_nat_alt word_le_nat_alt
  consider "unat c < 0x80" | "0x80 \<le> unat c" "unat c < 0x800" | "0x800 \<le> unat c" "unat c < 0x10000"
    | "0x10000 \<le> unat c" by linarith
  then show ?thesis
  proof cases
    case 1
    then have e: "CodepointToUtf8 c = ucast c # payload 0 c" using c by (auto simp: cp)
    moreover have "unat (ucast c :: byte) = unat c" using 1 by (simp add: unat_ucast_byte)
    ultimately show ?thesis using 1 by (intro that [OF e]) (simp_all add: OneCharLen_range IsUtf8TrailingByte_range)
  next
    case 2
    then have e: "CodepointToUtf8 c = ucast (of_nat 192 + drop_bit 6 c) # payload 1 c" using c by (auto simp: cp)
    moreover have "unat (ucast (of_nat 192 + drop_bit 6 c) :: byte) = 192 + unat c div 64"
      using unat_lead_byte [of 192 "drop_bit 6 c"] 2 by (simp add: unat_drop_bit)
    moreover have "2 \<le> unat c div 64" "unat c div 64 < 32" using 2 by auto
    ultimately show ?thesis by (intro that [OF e]) (simp_all add: OneCharLen_range IsUtf8TrailingByte_range)
  next
    case 3
    then have e: "CodepointToUtf8 c = ucast (of_nat 224 + drop_bit 12 c) # payload 2 c" using c by (auto simp: cp)
    moreover have "unat (ucast (of_nat 224 + drop_bit 12 c) :: byte) = 224 + unat c div 4096"
      using unat_lead_byte [of 224 "drop_bit 12 c"] 3 by (simp add: unat_drop_bit)
    moreover have "unat c div 4096 < 16" using 3 by auto
    ultimately show ?thesis by (intro that [OF e]) (simp_all add: OneCharLen_range IsUtf8TrailingByte_range)
  next
    case 4
    then have e: "CodepointToUtf8 c = ucast (of_nat 240 + drop_bit 18 c) # payload 3 c" using c by (auto simp: cp)
    moreover have q: "unat c div 262144 < 5" using c(2) by auto
    moreover have "unat (ucast (of_nat 240 + drop_bit 18 c) :: byte) = 240 + unat c div 262144"
      using unat_lead_byte [of 240 "drop_bit 18 c"] q by (simp add: unat_drop_bit)
    ultimately show ?thesis by (intro that [OF e]) (simp_all add: OneCharLen_range IsUtf8TrailingByte_range)
  qed
qed

lemma payload_trailing: "list_all IsUtf8TrailingByte (payload n c)"
proof (induction n)
  case (Suc n)
  have "IsUtf8TrailingByte (ucast (0x80 + (drop_bit (6 * n) c AND 0x3F)))"
    unfolding IsUtf8TrailingByte_range unat_payload_byte by simp
  with Suc show ?case by simp
qed simp

lemma CharsLen_append [simp]: "CharsLen (s @ t) = CharsLen s + CharsLen t"
  by (simp add: CharsLen_eq)

lemma CharsLen_CodepointToUtf8: "unicode c \<Longrightarrow> CharsLen (CodepointToUtf8 c) = 1"
  using payload_trailing
  by (elim unicode_leading) (auto simp: CharsLen_eq list_all_iff filter_empty_conv)

lemma CharsLen_Utf32ToUtf8: "list_all unicode cs \<Longrightarrow> CharsLen (Utf32ToUtf8 cs) = length cs"
  by (induction cs) (auto simp: CharsLen_CodepointToUtf8 CharsLen_eq [of "[]"])

lemma AdvanceChars_step:
  "unicode c \<Longrightarrow> AdvanceChars n (CodepointToUtf8 c @ s) =
     (if n = 0 then Some (CodepointToUtf8 c @ s) else AdvanceChars (n - 1) s)"
  by (erule unicode_leading) (simp add: AdvanceChars.simps [of n])

lemma AdvanceChars_Utf32ToUtf8:
  "list_all unicode cs \<Longrightarrow> AdvanceChars n (Utf32ToUtf8 cs) = Some (Utf32ToUtf8 (drop n cs))"
proof (induction cs arbitrary: n)
  case Nil
  then show ?case by (simp add: AdvanceChars.simps)
next
  case (Cons c cs)
  then show ?case by (cases n) (auto simp: AdvanceChars_step)
qed

lemma list_all_take_drop: "list_all P xs \<Longrightarrow> list_all P (take n xs) \<and> list_all P (drop n xs)"
  by (auto simp: list_all_iff dest: in_set_takeD in_set_dropD)

lemma Utf8SubString_Utf32ToUtf8:
  assumes "list_all unicode cs"
  shows "Utf8SubString (Utf32ToUtf8 cs) i n = Some (Utf32ToUtf8 (take n (drop i cs)))"
proof -
  have "list_all unicode (drop i cs)" using assms list_all_take_drop by blast
  moreover have "Utf32ToUtf8 (drop i cs) = Utf32ToUtf8 (take n (drop i cs)) @ Utf32ToUtf8 (drop n (drop i cs))"
    by (metis Utf32ToUtf8_simps(3) append_take_drop_id)
  then have "take (length (Utf32ToUtf8 (drop i cs)) - length (Utf32ToUtf8 (drop n (drop i cs))))
      (Utf32ToUtf8 (drop i cs)) = Utf32ToUtf8 (take n (drop i cs))" by simp
  ultimately show ?thesis
    using assms
    by (simp add: Utf8SubString_def Utf8SubStringFrom_def AdvanceChars_Utf32ToUtf8 del: drop_drop)
qed

lemma SplitStringToUtf8Chars_Utf32ToUtf8:
  "list_all unicode cs \<Longrightarrow> SplitStringToUtf8Chars (Utf32ToUtf8 cs) = Some (map CodepointToUtf8 cs)"
proof (induction cs)
  case Nil
  then show ?case by (simp add: SplitStringToUtf8Chars.simps)
next
  case (Cons c cs)
  then have "unicode c" by simp
  then obtain b n where "CodepointToUtf8 c = b # payload n c" "OneCharLen b = Suc n"
    by (rule unicode_leading)
  with Cons show ?case by (simp add: SplitStringToUtf8Chars.simps [of "b # payload n c @ Utf32ToUtf8 cs"])
qed

lemma SplitLastChar32_append:
  assumes "unicode c"
  shows "SplitLastChar32 (s @ CodepointToUtf8 c) = (True, s, c)"
proof -
  obtain b n where e: "CodepointToUtf8 c = b # payload n c" and b: "\<not> IsUtf8TrailingByte b"
    using assms by (rule unicode_leading)
  have "takeWhile IsUtf8TrailingByte (rev (s @ CodepointToUtf8 c)) = rev (payload n c)"
    using b payload_trailing [of n c] by (simp add: e list_all_iff takeWhile_append)
  moreover have "SplitFirstChar32 (b # payload n c) = (True, c, [])"
    using SplitFirstChar32_encoded' [of c] assms e by (simp add: unicode_encodable)
  ultimately show ?thesis by (simp add: SplitLastChar32_def e Let_def)
qed

section \<open>Properties\<close>

text \<open>C15: encoding a list of code points and decoding it again gives the list back, and the
  encoded string is valid, for every code point but NUL and those of the gap.\<close>

theorem utf8_string_roundtrip:
  assumes "list_all encodable cs"
  shows "Utf8ToUtf32 (Utf32ToUtf8 cs) = cs \<and> IsValidUtf8 (Utf32ToUtf8 cs)"
  using assms by simp

theorem utf8_string_roundtrip_witness:
  "Utf8ToUtf32 (Utf32ToUtf8 [0x3042, 0x61, 0x1f600]) = [0x3042, 0x61, 0x1f600]
   \<and> IsValidUtf8 (Utf32ToUtf8 [0x3042, 0x61, 0x1f600])"
  by (rule utf8_string_roundtrip) (simp add: encodable_def)

text \<open>a valid string is the encoding of the code points it decodes to, so no other byte
  sequence decodes to them: the decoder accepts the shortest form only.\<close>

theorem utf8_canonical:
  assumes "IsValidUtf8 s" and "list_all (\<lambda>c. c \<noteq> 0 \<and> (c < 0x4000000 \<or> 0x8000000 \<le> c)) (Utf8ToUtf32 s)"
  shows "Utf32ToUtf8 (Utf8ToUtf32 s) = s"
  using assms valid_is_encoded by (simp add: list_all_iff)

theorem utf8_canonical_witness:
  "Utf32ToUtf8 (Utf8ToUtf32 [0xe3, 0x81, 0x82, 0x61]) = [0xe3, 0x81, 0x82, 0x61]"
  by (rule utf8_canonical)
    (simp_all add: IsValidUtf8.simps Utf8ToUtf32.simps SplitFirstChar32_def LeadingByteInfo_def
      IsUtf8TrailingByte_def)

text \<open>C16: the encoder's 5-byte branch extends up to 0x8000000, but a 5-byte sequence carries 26
  bits only: no code point from 0x4000000 to 0x7ffffff decodes back to itself.\<close>

theorem utf8_roundtrip_gap:
  assumes "0x4000000 \<le> c" and "c < 0x8000000"
  shows "SplitFirstChar32 (CodepointToUtf8 c @ rest) \<noteq> (True, c, rest)"
  using assms by (rule CodepointToUtf8_gap)

theorem utf8_roundtrip_gap_witness:
  "SplitFirstChar32 (CodepointToUtf8 0x4000000 @ []) \<noteq> (True, 0x4000000, [])"
  by (rule utf8_roundtrip_gap) simp_all

text \<open>C17: the word-at-a-time character count gives the number of code points of a string of
  Unicode code points, and the substring by characters, never running past the end, is the
  encoding of the sublist.\<close>

theorem utf8_substring_by_characters:
  assumes "list_all unicode cs"
  shows "CharsLen (Utf32ToUtf8 cs) = length cs \<and>
    Utf8SubString (Utf32ToUtf8 cs) i n = Some (Utf32ToUtf8 (take n (drop i cs)))"
  using assms by (simp add: CharsLen_Utf32ToUtf8 Utf8SubString_Utf32ToUtf8)

theorem utf8_substring_by_characters_witness:
  "CharsLen (Utf32ToUtf8 [0x3042, 0x61]) = length [0x3042 :: char32, 0x61] \<and>
    Utf8SubString (Utf32ToUtf8 [0x3042, 0x61]) 1 5 = Some (Utf32ToUtf8 (take 5 (drop 1 [0x3042, 0x61])))"
  by (rule utf8_substring_by_characters) (simp add: unicode_def)

text \<open>the block-wise count of \<^verbatim>\<open>strings::CharsLen\<close> equals the byte-wise count of the bytes that
  are not continuation bytes, for every byte string, valid or not.\<close>

theorem CharsLen_counts_leading_bytes:
  "CharsLen s = length (filter (\<lambda>b. \<not> IsUtf8TrailingByte b) s)"
  by (rule CharsLen_eq)

end
