(* ===== verification/Codec.thy ===== *)
theory Codec
  imports Utf8 "HOL-Library.Monad_Syntax"
begin

text \<open>
  The system dictionary's codec, \<^verbatim>\<open>src/src/dictionary/system/codec.cc\<close>: keys (a swap of code
  point ranges), values (a variable-length encoding without NUL bytes) and tokens (flags,
  part-of-speech ids, cost and value id packed in at most nine bytes). A result None is a run
  that a CHECK or \<^verbatim>\<open>LOG(FATAL)\<close> aborts, or a read past the end of the buffer.
\<close>

section \<open>Tokens: dictionary\_token.h, words\_info.h\<close>

record Token =
  t_key :: bytes
  t_value :: bytes
  t_cost :: int
  t_lid :: "16 word"
  t_rid :: "16 word"
  t_attributes :: byte

definition SPELLING_CORRECTION :: byte where "SPELLING_CORRECTION = 1"

datatype PosType = DEFAULT_POS | FREQUENT_POS | SAME_AS_PREV_POS

datatype ValueType = DEFAULT_VALUE | SAME_AS_PREV_VALUE | AS_IS_HIRAGANA | AS_IS_KATAKANA

datatype CostType = DEFAULT_COST | CAN_USE_SMALL_ENCODING

record TokenInfo =
  token :: Token
  id_in_value_trie :: int
  id_in_frequent_pos_map :: int
  pos_type :: PosType
  value_type :: ValueType
  cost_type :: CostType

text \<open>The constructor \<^verbatim>\<open>TokenInfo(t)\<close>.\<close>

definition TokenInfo_init :: "Token \<Rightarrow> TokenInfo" where
  "TokenInfo_init t = \<lparr>token = t, id_in_value_trie = -1, id_in_frequent_pos_map = -1,
     pos_type = DEFAULT_POS, value_type = DEFAULT_VALUE, cost_type = DEFAULT_COST\<rparr>"

section \<open>Constants\<close>

text \<open>The validation limits, the flag masks and the flags.\<close>

abbreviation kPosMax :: "16 word" where "kPosMax \<equiv> 0x0fff"
abbreviation kCostMax :: int where "kCostMax \<equiv> 0x7fff"
abbreviation kValueTrieIdMax :: "32 word" where "kValueTrieIdMax \<equiv> 0x3fffff"
abbreviation kSmallCostFlag :: byte where "kSmallCostFlag \<equiv> 0x80"
abbreviation kSmallCostMask :: byte where "kSmallCostMask \<equiv> 0x7f"
abbreviation kTokenTerminationFlag :: byte where "kTokenTerminationFlag \<equiv> 0xff"
abbreviation kValueTypeFlagMask :: byte where "kValueTypeFlagMask \<equiv> 0x03"
abbreviation kAsIsHiraganaValueFlag :: byte where "kAsIsHiraganaValueFlag \<equiv> 0x01"
abbreviation kAsIsKatakanaValueFlag :: byte where "kAsIsKatakanaValueFlag \<equiv> 0x02"
abbreviation kSameAsPrevValueFlag :: byte where "kSameAsPrevValueFlag \<equiv> 0x03"
abbreviation kNormalValueFlag :: byte where "kNormalValueFlag \<equiv> 0x00"
abbreviation kPosTypeFlagMask :: byte where "kPosTypeFlagMask \<equiv> 0x0c"
abbreviation kFullPosFlag :: byte where "kFullPosFlag \<equiv> 0x04"
abbreviation kMonoPosFlag :: byte where "kMonoPosFlag \<equiv> 0x08"
abbreviation kSameAsPrevPosFlag :: byte where "kSameAsPrevPosFlag \<equiv> 0x0c"
abbreviation kFrequentPosFlag :: byte where "kFrequentPosFlag \<equiv> 0x00"
abbreviation kSpellingCorrectionFlag :: byte where "kSpellingCorrectionFlag \<equiv> 0x10"
abbreviation kCrammedIDFlag :: byte where "kCrammedIDFlag \<equiv> 0x40"
abbreviation kUpperFlagsMask :: byte where "kUpperFlagsMask \<equiv> 0xc0"
abbreviation kUpperCrammedIDMask :: byte where "kUpperCrammedIDMask \<equiv> 0x3f"
abbreviation kLastTokenFlag :: byte where "kLastTokenFlag \<equiv> 0x80"

section \<open>Keys\<close>

text \<open>The loop body of \<^verbatim>\<open>EncodeDecodeKeyImpl\<close> on one code point.\<close>

definition SwapCode :: "char32 \<Rightarrow> char32" where
  "SwapCode code =
     (let offset =
        (if 0x0001 \<le> code \<and> code \<le> 0x001f \<or> 0x3041 \<le> code \<and> code \<le> 0x305f then 0x3041 - 0x0001
         else if 0x0040 \<le> code \<and> code \<le> 0x0075 \<or> 0x3060 \<le> code \<and> code \<le> 0x3095 then 0x3060 - 0x0040
         else if 0x0076 \<le> code \<and> code \<le> 0x0077 \<or> 0x30FB \<le> code \<and> code \<le> 0x30FC then 0x30FB - 0x0076
         else 0)
      in if code < 0x80 then code + offset else code - offset)"

definition EncodeDecodeKeyImpl :: "bytes \<Rightarrow> bytes" where
  "EncodeDecodeKeyImpl src = Utf32ToUtf8 (map SwapCode (Utf8ToUtf32 src))"

definition EncodeKey :: "bytes \<Rightarrow> bytes" where
  "EncodeKey src = EncodeDecodeKeyImpl src"

definition DecodeKey :: "bytes \<Rightarrow> bytes" where
  "DecodeKey src = EncodeDecodeKeyImpl src"

text \<open>\<^verbatim>\<open>GetEncodedDecodedKeyLengthImpl\<close>; \<^verbatim>\<open>size_t\<close> is kept as an integer.\<close>

definition KeyLengthDelta :: "char32 \<Rightarrow> int" where
  "KeyLengthDelta code =
     (if 0x3041 \<le> code \<and> code \<le> 0x3095 \<or> 0x30FB \<le> code \<and> code \<le> 0x30FC then -2
      else if 0x0001 \<le> code \<and> code \<le> 0x001F \<or> 0x0040 \<le> code \<and> code \<le> 0x0077 then 2
      else 0)"

definition GetEncodedDecodedKeyLengthImpl :: "bytes \<Rightarrow> int" where
  "GetEncodedDecodedKeyLengthImpl src =
     fold (\<lambda>code size. size + KeyLengthDelta code) (Utf8ToUtf32 src) (int (length src))"

section \<open>Values\<close>

definition EncodeValueChar :: "char32 \<Rightarrow> bytes" where
  "EncodeValueChar c =
     (if 0x3041 \<le> c \<and> c < 0x3095 then [ucast (c - 0x3041 + 0x4b)]
      else if 0x30a1 \<le> c \<and> c < 0x30fd then [ucast (c - 0x30a1 + 0x9f)]
      else if c < 0x10000 \<and> drop_bit 8 c AND 255 = 0 then [0xfc, ucast (c AND 255)]
      else if c < 0x10000 \<and> c AND 255 = 0 then [0xfd, ucast (drop_bit 8 c AND 255)]
      else if 0x4e00 \<le> c \<and> c < 0x9800 then
        [ucast (drop_bit 8 (c - 0x4e00) + 0x01), ucast (c AND 255)]
      else if 0x10000 \<le> c \<and> c \<le> 0x10ffff then
        (let middle = drop_bit 8 c AND 255;
             right = c AND 255;
             left0 = drop_bit 16 c AND 255;
             left1 = (if middle = 0 then left0 OR 0x80 else left0);
             left = (if right = 0 then left1 OR 0x40 else left1)
         in [0xff, ucast left] @ (if middle \<noteq> 0 then [ucast middle] else [])
            @ (if right \<noteq> 0 then [ucast right] else []))
      else [0xfe, ucast (drop_bit 8 c AND 255), ucast (c AND 255)])"

definition EncodeValue :: "bytes \<Rightarrow> bytes" where
  "EncodeValue src = concat (map EncodeValueChar (Utf8ToUtf32 src))"

text \<open>\<^verbatim>\<open>p[i]\<close>, where reading past the end is None.\<close>

definition byte_at :: "bytes \<Rightarrow> nat \<Rightarrow> byte option" where
  "byte_at p i = (if i < length p then Some (p ! i) else None)"

text \<open>One round of the loop of \<^verbatim>\<open>DecodeValue\<close>: the code point and the advanced pointer.\<close>

definition DecodeValueChar :: "bytes \<Rightarrow> (char32 \<times> bytes) option" where
  "DecodeValueChar p = do {
     cc \<leftarrow> byte_at p 0;
     if 0x4b \<le> cc \<and> cc < 0x9f then Some (0x3041 + ucast cc - 0x4b, drop 1 p)
     else if 0x9f \<le> cc \<and> cc < 0xfc then Some (0x30a1 + ucast cc - 0x9f, drop 1 p)
     else if cc = 0xfc then do { p1 \<leftarrow> byte_at p 1; Some (ucast p1, drop 2 p) }
     else if cc = 0xfd then do { p1 \<leftarrow> byte_at p 1; Some (push_bit 8 (ucast p1), drop 2 p) }
     else if cc = 0xff then do {
       p1 \<leftarrow> byte_at p 1;
       let c = push_bit 16 (ucast (p1 AND 0x1f));
       (c, pos) \<leftarrow> (if p1 AND 0x80 = 0
                    then do { b \<leftarrow> byte_at p 2; Some (c + push_bit 8 (ucast b), 3) }
                    else Some (c, 2));
       (c, pos) \<leftarrow> (if p1 AND 0x40 = 0
                    then do { b \<leftarrow> byte_at p pos; Some (c + ucast b, pos + 1) }
                    else Some (c, pos));
       Some (c, drop pos p) }
     else if cc = 0xfe then do {
       p1 \<leftarrow> byte_at p 1; p2 \<leftarrow> byte_at p 2;
       Some (push_bit 8 (ucast p1) + ucast p2, drop 3 p) }
     else do { p1 \<leftarrow> byte_at p 1; Some (push_bit 8 (ucast cc - 0x01) + 0x4e00 + ucast p1, drop 2 p) }
   }"

lemma byte_at_Cons [simp]:
  "byte_at (b # bs) 0 = Some b" "byte_at (b # bs) (Suc i) = byte_at bs i" "byte_at [] i = None"
  by (simp_all add: byte_at_def)

lemma byte_at_numeral [simp]: "byte_at (b # bs) (numeral k) = byte_at bs (pred_numeral k)"
  by (simp add: byte_at_def)

lemma byte_at_Some_iff: "byte_at p i = Some b \<longleftrightarrow> i < length p \<and> p ! i = b"
  by (simp add: byte_at_def)

lemma DecodeValueChar_shorter:
  "DecodeValueChar p = Some (c, p') \<Longrightarrow> length p' < length p"
  by (auto simp: DecodeValueChar_def Let_def byte_at_Some_iff bind_eq_Some_conv split: if_splits)

function DecodeValue :: "bytes \<Rightarrow> bytes option" where
  "DecodeValue p =
     (if p = [] then Some []
      else case DecodeValueChar p of
             None \<Rightarrow> None
           | Some (c, p') \<Rightarrow> map_option (\<lambda>dst. CodepointToUtf8 c @ dst) (DecodeValue p'))"
  by pat_completeness auto
termination by (relation "measure length") (auto dest: DecodeValueChar_shorter)

declare DecodeValue.simps [simp del]

section \<open>Tokens: the encoder\<close>

text \<open>\<^verbatim>\<open>lid > kPosMax\<close> is fatal in \<^verbatim>\<open>GetFlagForPos\<close>.\<close>

definition GetFlagForPos :: "TokenInfo \<Rightarrow> byte option" where
  "GetFlagForPos ti =
     (let lid = t_lid (token ti); rid = t_rid (token ti) in
      if kPosMax < lid \<or> kPosMax < rid then None
      else if pos_type ti = FREQUENT_POS then Some kFrequentPosFlag
      else if pos_type ti = SAME_AS_PREV_POS then Some kSameAsPrevPosFlag
      else if lid = rid then Some kMonoPosFlag
      else Some kFullPosFlag)"

definition GetFlagForValue :: "TokenInfo \<Rightarrow> byte" where
  "GetFlagForValue ti =
     (if value_type ti = SAME_AS_PREV_VALUE then kSameAsPrevValueFlag
      else if value_type ti = AS_IS_HIRAGANA then kAsIsHiraganaValueFlag
      else if value_type ti = AS_IS_KATAKANA then kAsIsKatakanaValueFlag
      else kNormalValueFlag)"

definition GetFlagsForToken :: "TokenInfo list \<Rightarrow> nat \<Rightarrow> byte option" where
  "GetFlagsForToken tokens index =
     (let flags0 = (if index = length tokens - 1 then kLastTokenFlag else 0);
          ti = tokens ! index;
          flags1 = (if t_attributes (token ti) AND SPELLING_CORRECTION \<noteq> 0
                    then flags0 OR kSpellingCorrectionFlag else flags0)
      in case GetFlagForPos ti of
           None \<Rightarrow> None
         | Some pf \<Rightarrow>
             let flags2 = flags1 OR pf in
             if index = 0 \<and> flags2 AND kPosTypeFlagMask = kSameAsPrevPosFlag then None
             else let flags3 = flags2 OR GetFlagForValue ti in
               if index = 0 \<and> flags3 AND kValueTypeFlagMask = kSameAsPrevValueFlag then None
               else if flags3 AND kUpperCrammedIDMask = 0 then Some (flags3 OR kCrammedIDFlag)
               else Some flags3)"

text \<open>
  The buffer is the list of the bytes written so far, so that \<^verbatim>\<open>*offset\<close> is its length and
  \<^verbatim>\<open>dst[*offset] = ..\<close> appends to it.
\<close>

definition EncodeCost :: "TokenInfo \<Rightarrow> bytes \<Rightarrow> bytes option" where
  "EncodeCost ti dst =
     (let cost = t_cost (token ti) in
      if kCostMax < cost then None
      else if cost_type ti = CAN_USE_SMALL_ENCODING
      then Some (dst @ [word_of_int (drop_bit 8 cost OR 0x80)])
      else Some (dst @ [word_of_int (drop_bit 8 cost), word_of_int (cost AND 0xff)]))"

definition EncodePos :: "TokenInfo \<Rightarrow> byte \<Rightarrow> bytes \<Rightarrow> bytes option" where
  "EncodePos ti flags dst =
     (let pos_flag = flags AND kPosTypeFlagMask;
          lid = t_lid (token ti); rid = t_rid (token ti) in
      if pos_flag = kFullPosFlag then
        Some (dst @ [ucast (lid AND 255), ucast ((push_bit 4 rid AND 255) OR drop_bit 8 lid),
                     ucast (drop_bit 4 rid AND 255)])
      else if pos_flag = kMonoPosFlag then
        Some (dst @ [ucast (lid AND 255), ucast (drop_bit 8 lid)])
      else if pos_flag = kFrequentPosFlag then
        (let id = id_in_frequent_pos_map ti in
         if id < 0 then None else Some (dst @ [word_of_int id]))
      else if pos_flag = kSameAsPrevPosFlag then Some dst
      else None)"

definition EncodeValueInfo :: "TokenInfo \<Rightarrow> byte \<Rightarrow> bytes \<Rightarrow> bytes option" where
  "EncodeValueInfo ti flags dst =
     (if flags AND kValueTypeFlagMask \<noteq> kNormalValueFlag then Some dst
      else let id = word_of_int (id_in_value_trie ti) :: 32 word in
        if kValueTrieIdMax < id then None
        else if flags AND kCrammedIDFlag \<noteq> 0 then
          Some (dst[0 := dst ! 0 OR (ucast (drop_bit 16 id) AND kUpperCrammedIDMask)]
                @ [ucast (id AND 255), ucast (drop_bit 8 id AND 255)])
        else Some (dst @ [ucast (id AND 255), ucast (drop_bit 8 id AND 255),
                          ucast (drop_bit 16 id AND 255)]))"

definition EncodeToken :: "TokenInfo list \<Rightarrow> nat \<Rightarrow> bytes option" where
  "EncodeToken tokens index =
     (if \<not> index < length tokens then None
      else do {
        flags \<leftarrow> GetFlagsForToken tokens index;
        let ti = tokens ! index;
        buff \<leftarrow> EncodePos ti flags [flags];
        buff \<leftarrow> EncodeCost ti buff;
        buff \<leftarrow> EncodeValueInfo ti flags buff;
        if \<not> length buff \<le> 9 then None else Some buff })"

text \<open>The loop of \<^verbatim>\<open>EncodeTokens\<close> from index \<^verbatim>\<open>i\<close> on. \<^verbatim>\<open>output[0]\<close> of an empty
  \<^verbatim>\<open>std::string\<close> is its terminating NUL, which is not the termination flag.\<close>

function EncodeTokensFrom :: "TokenInfo list \<Rightarrow> nat \<Rightarrow> bytes option" where
  "EncodeTokensFrom tokens i =
     (if i < length tokens
      then do { t \<leftarrow> EncodeToken tokens i; out \<leftarrow> EncodeTokensFrom tokens (i + 1); Some (t @ out) }
      else Some [])"
  by pat_completeness auto
termination by (relation "measure (\<lambda>(ts, i). length ts - i)") auto

declare EncodeTokensFrom.simps [simp del]

definition EncodeTokens :: "TokenInfo list \<Rightarrow> bytes option" where
  "EncodeTokens tokens = do {
     output \<leftarrow> EncodeTokensFrom tokens 0;
     if output \<noteq> [] \<and> hd output = kTokenTerminationFlag then None else Some output }"

section \<open>Tokens: the decoder\<close>

definition ReadFlags :: "byte \<Rightarrow> byte" where
  "ReadFlags val = (if val AND kCrammedIDFlag \<noteq> 0 then val AND kUpperFlagsMask else val)"

definition DecodeCost :: "bytes \<Rightarrow> TokenInfo \<times> nat \<Rightarrow> (TokenInfo \<times> nat) option" where
  "DecodeCost ptr s = (case s of (ti, offset) \<Rightarrow> do {
     b \<leftarrow> byte_at ptr offset;
     if b AND kSmallCostFlag \<noteq> 0
     then Some (ti\<lparr>token := (token ti)\<lparr>t_cost := push_bit 8 (uint (b AND kSmallCostMask))\<rparr>\<rparr>, offset + 1)
     else do {
       b1 \<leftarrow> byte_at ptr (offset + 1);
       Some (ti\<lparr>token := (token ti)\<lparr>t_cost := push_bit 8 (uint b) + uint b1\<rparr>\<rparr>, offset + 2) } })"

definition DecodePos :: "bytes \<Rightarrow> byte \<Rightarrow> TokenInfo \<times> nat \<Rightarrow> (TokenInfo \<times> nat) option" where
  "DecodePos ptr flags s = (case s of (ti, offset) \<Rightarrow>
     let pos_flag = flags AND kPosTypeFlagMask in
     if pos_flag = kFrequentPosFlag then do {
       b \<leftarrow> byte_at ptr offset;
       Some (ti\<lparr>pos_type := FREQUENT_POS, id_in_frequent_pos_map := uint b\<rparr>, offset + 1) }
     else if pos_flag = kSameAsPrevPosFlag then Some (ti\<lparr>pos_type := SAME_AS_PREV_POS\<rparr>, offset)
     else if pos_flag = kMonoPosFlag then do {
       b0 \<leftarrow> byte_at ptr offset; b1 \<leftarrow> byte_at ptr (offset + 1);
       let id = push_bit 8 (ucast b1) OR ucast b0;
       Some (ti\<lparr>token := (token ti)\<lparr>t_lid := id, t_rid := id\<rparr>\<rparr>, offset + 2) }
     else if pos_flag = kFullPosFlag then do {
       b0 \<leftarrow> byte_at ptr offset; b1 \<leftarrow> byte_at ptr (offset + 1); b2 \<leftarrow> byte_at ptr (offset + 2);
       Some (ti\<lparr>token := (token ti)\<lparr>t_lid := ucast b0 + push_bit 8 (ucast (b1 AND 0x0f)),
                                 t_rid := ucast (drop_bit 4 b1) + push_bit 4 (ucast b2)\<rparr>\<rparr>,
             offset + 3) }
     else Some (ti, offset))"

text \<open>The id read by \<^verbatim>\<open>DecodeValueInfo\<close> and \<^verbatim>\<open>ReadValueInfo\<close>, and the offset after it.\<close>

definition ReadValueId :: "bytes \<Rightarrow> byte \<Rightarrow> nat \<Rightarrow> (32 word \<times> nat) option" where
  "ReadValueId ptr flags offset = do {
     b0 \<leftarrow> byte_at ptr offset; b1 \<leftarrow> byte_at ptr (offset + 1);
     let id = push_bit 8 (ucast b1) OR ucast b0;
     if flags AND kCrammedIDFlag \<noteq> 0
     then do { p0 \<leftarrow> byte_at ptr 0; Some (id OR push_bit 16 (ucast (p0 AND kUpperCrammedIDMask)), offset + 2) }
     else do { b2 \<leftarrow> byte_at ptr (offset + 2); Some (id OR push_bit 16 (ucast b2), offset + 3) } }"

definition DecodeValueInfo :: "bytes \<Rightarrow> byte \<Rightarrow> TokenInfo \<times> nat \<Rightarrow> (TokenInfo \<times> nat) option" where
  "DecodeValueInfo ptr flags s = (case s of (ti, offset) \<Rightarrow>
     let value_flag = flags AND kValueTypeFlagMask in
     if value_flag = kAsIsHiraganaValueFlag then Some (ti\<lparr>value_type := AS_IS_HIRAGANA\<rparr>, offset)
     else if value_flag = kAsIsKatakanaValueFlag then Some (ti\<lparr>value_type := AS_IS_KATAKANA\<rparr>, offset)
     else if value_flag = kSameAsPrevValueFlag then Some (ti\<lparr>value_type := SAME_AS_PREV_VALUE\<rparr>, offset)
     else do {
       (id, offset') \<leftarrow> ReadValueId ptr flags offset;
       Some (ti\<lparr>value_type := DEFAULT_VALUE, id_in_value_trie := sint id\<rparr>, offset') })"

text \<open>\<^verbatim>\<open>DecodeToken\<close>: the token info, the number of bytes read and the returned flag, false for
  the last token.\<close>

definition DecodeToken :: "bytes \<Rightarrow> TokenInfo \<Rightarrow> (TokenInfo \<times> nat \<times> bool) option" where
  "DecodeToken ptr ti = do {
     p0 \<leftarrow> byte_at ptr 0;
     let flags = ReadFlags p0;
     let ti = (if flags AND kSpellingCorrectionFlag \<noteq> 0
               then ti\<lparr>token := (token ti)\<lparr>t_attributes := SPELLING_CORRECTION\<rparr>\<rparr> else ti);
     s \<leftarrow> DecodePos ptr flags (ti, 1);
     s \<leftarrow> DecodeCost ptr s;
     (ti, offset) \<leftarrow> DecodeValueInfo ptr flags s;
     Some (ti, offset, flags AND kLastTokenFlag = 0) }"

text \<open>\<^verbatim>\<open>ReadTokenForReverseLookup\<close>: value id, bytes read, flag.\<close>

definition ReadValueInfo :: "bytes \<Rightarrow> byte \<Rightarrow> nat \<Rightarrow> (int \<times> nat) option" where
  "ReadValueInfo ptr flags offset =
     (if flags AND kValueTypeFlagMask = kNormalValueFlag
      then do { (id, offset') \<leftarrow> ReadValueId ptr flags offset; Some (sint id, offset') }
      else Some (-1, offset))"

definition ReadTokenForReverseLookup :: "bytes \<Rightarrow> (int \<times> nat \<times> bool) option" where
  "ReadTokenForReverseLookup ptr = do {
     p0 \<leftarrow> byte_at ptr 0;
     let flags = ReadFlags p0;
     let pos_flag = flags AND kPosTypeFlagMask;
     let offset = (if pos_flag = kFrequentPosFlag then 1 + 1
                   else if pos_flag = kMonoPosFlag then 1 + 2
                   else if pos_flag = kFullPosFlag then 1 + 3 else 1);
     b \<leftarrow> byte_at ptr offset;
     let offset = (if b AND kSmallCostFlag \<noteq> 0 then offset + 1 else offset + 2);
     (value_id, offset) \<leftarrow> ReadValueInfo ptr flags offset;
     Some (value_id, offset, flags AND kLastTokenFlag = 0) }"

section \<open>The value codec is invertible\<close>


lemma ucast_byte_id: "unat (x :: char32) < 256 \<Longrightarrow> ucast (ucast x :: byte) = x"
  by (simp add: word_unat_eq_iff unat_ucast_char32 unat_ucast_byte)

lemma byte_cmp:
  assumes "unat (x :: char32) < 256"
  shows "unat (ucast x :: byte) = unat x"
  using assms by (simp add: unat_ucast_byte)

lemma unat_and_255: "unat (x AND 255 :: char32) = unat x mod 256"
  using unat_low(7) [of x] by simp

lemma unat_shift_sub:
  assumes "k \<le> c" "unat c - unat k + unat j < 2 ^ 32"
  shows "unat (c - k + j :: char32) = unat c - unat k + unat j"
  using assms by (simp add: unat_sub unat_word_ariths)

lemma split_low_byte: "push_bit 8 (drop_bit 8 c) + (c AND 255) = (c :: char32)"
  using bits_ident [of 8 c] by (simp only: take_bit_eq_mask mask_literals(7) [symmetric])

lemma DecodeValueChar_kana:
  assumes "0x3041 \<le> c \<and> c < 0x3095 \<or> 0x30a1 \<le> c \<and> c < 0x30fd"
  shows "DecodeValueChar (EncodeValueChar c @ rest) = Some (c, rest)"
proof -
  from assms consider "0x3041 \<le> c" "c < 0x3095" | "0x30a1 \<le> c" "c < 0x30fd" by blast
  then show ?thesis
  proof cases
    case 1
    let ?x = "c - 0x3041 + 0x4b"
    have u: "unat ?x = unat c - 0x3041 + 0x4b"
      using 1 unat_shift_sub [of "0x3041" c "0x4b"] by (simp add: word_le_nat_alt word_less_nat_alt)
    then have s: "unat ?x < 256" using 1 by (simp add: word_le_nat_alt word_less_nat_alt)
    have "(0x4b::byte) \<le> ucast ?x" "(ucast ?x :: byte) < 0x9f"
      using 1 unfolding word_le_nat_alt word_less_nat_alt byte_cmp [OF s] u by simp_all
    with 1 ucast_byte_id [OF s] show ?thesis
      by (simp add: EncodeValueChar_def DecodeValueChar_def)
  next
    case 2
    let ?x = "c - 0x30a1 + 0x9f"
    have u: "unat ?x = unat c - 0x30a1 + 0x9f"
      using 2 unat_shift_sub [of "0x30a1" c "0x9f"] by (simp add: word_le_nat_alt word_less_nat_alt)
    then have s: "unat ?x < 256" using 2 by (simp add: word_le_nat_alt word_less_nat_alt)
    have "(0x9f::byte) \<le> ucast ?x" "(ucast ?x :: byte) < 0xfc"
      using 2 unfolding word_le_nat_alt word_less_nat_alt byte_cmp [OF s] u by simp_all
    moreover have "\<not> c < 0x3095" using 2 by (simp add: word_le_nat_alt word_less_nat_alt)
    moreover from calculation(1) have "\<not> (ucast ?x :: byte) < 0x9f" by simp
    ultimately show ?thesis using 2 ucast_byte_id [OF s]
      by (simp add: EncodeValueChar_def DecodeValueChar_def)
  qed
qed

lemma DecodeValueChar_lead:
  "DecodeValueChar (0xfc # b # r) = Some (ucast b, r)"
  "DecodeValueChar (0xfd # b # r) = Some (push_bit 8 (ucast b), r)"
  "DecodeValueChar (0xfe # b # d # r) = Some (push_bit 8 (ucast b) + ucast d, r)"
  by (simp_all add: DecodeValueChar_def)

lemma DecodeValueChar_kanji:
  assumes "unat h < 0x4b"
  shows "DecodeValueChar (h # b # r) = Some (push_bit 8 (ucast h - 0x01) + 0x4e00 + ucast b, r)"
proof -
  have "\<not> 0x4b \<le> h" "\<not> 0x9f \<le> h" "h \<noteq> 0xfc" "h \<noteq> 0xfd" "h \<noteq> 0xfe" "h \<noteq> 0xff"
    using assms by (auto simp: word_le_nat_alt)
  then show ?thesis by (simp add: DecodeValueChar_def)
qed

lemma DecodeValueChar_bmp:
  assumes c: "c < 0x10000" and nk: "\<not> (0x3041 \<le> c \<and> c < 0x3095)" "\<not> (0x30a1 \<le> c \<and> c < 0x30fd)"
  shows "DecodeValueChar (EncodeValueChar c @ rest) = Some (c, rest)"
proof -
  have hi: "unat (drop_bit 8 c AND 255) = unat c div 256"
    using c by (simp add: unat_and_255 unat_drop_bit word_less_nat_alt)
  then have hi': "drop_bit 8 c AND 255 = drop_bit 8 c"
    by (simp add: word_unat_eq_iff unat_drop_bit)
  have sh: "unat (drop_bit 8 c) < 256" using c by (simp add: unat_drop_bit word_less_nat_alt)
  have sl: "unat (c AND 255) < 256" by (simp add: unat_and_255)
  note ids = ucast_byte_id [OF sh] ucast_byte_id [OF sl]
  have ct: "(c < 0x10000) = True" and na: "(0x10000 \<le> c) = False" using c by simp_all
  note ev = EncodeValueChar_def if_not_P [OF nk(1)] if_not_P [OF nk(2)] hi' ct na simp_thms if_True if_False
  consider (ascii) "drop_bit 8 c = 0" | (xx00) "drop_bit 8 c \<noteq> 0" "c AND 255 = 0"
    | (kanji) "drop_bit 8 c \<noteq> 0" "c AND 255 \<noteq> 0" "0x4e00 \<le> c" "c < 0x9800"
    | (other) "drop_bit 8 c \<noteq> 0" "c AND 255 \<noteq> 0" "\<not> (0x4e00 \<le> c \<and> c < 0x9800)" by blast
  then show ?thesis
  proof cases
    case ascii
    then have e: "EncodeValueChar c = [0xfc, ucast (c AND 255)]" by (simp only: ev) simp
    have "c AND 255 = c" using split_low_byte [of c] unfolding ascii by simp
    then show ?thesis unfolding e append.simps DecodeValueChar_lead ids by simp
  next
    case xx00
    then have e: "EncodeValueChar c = [0xfd, ucast (drop_bit 8 c)]" by (simp only: ev)
    have "push_bit 8 (drop_bit 8 c) = c" using split_low_byte [of c] unfolding xx00(2) by simp
    then show ?thesis unfolding e append.simps DecodeValueChar_lead ids by simp
  next
    case kanji
    let ?h = "drop_bit 8 (c - 0x4e00) + 0x01"
    have d: "unat (c - 0x4e00) = unat c - 0x4e00" using kanji(3) unat_sub [of "0x4e00" c] by simp
    have k: "0x4e00 \<le> unat c" "unat c < 0x9800"
      using kanji(3,4) by (simp_all add: word_less_nat_alt word_le_nat_alt)
    have u: "unat ?h = (unat c - 0x4e00) div 256 + 1"
      using d k by (simp add: unat_word_ariths unat_drop_bit)
    have b: "(unat c - 0x4e00) div 256 < 0x4a" using k by simp
    with u have sh: "unat ?h < 256" by simp
    have lt: "unat (ucast ?h :: byte) < 0x4b"
      using b unfolding byte_cmp [OF sh] u by simp
    have e: "EncodeValueChar c = [ucast ?h, ucast (c AND 255)]"
      using kanji by (simp only: ev)
    have "push_bit 8 (?h - 0x01) + 0x4e00 + (c AND 255) = c"
    proof -
      have "push_bit 8 (drop_bit 8 (c - 0x4e00)) + ((c - 0x4e00) AND 255) = c - 0x4e00" by (rule split_low_byte)
      moreover have "(c - 0x4e00) AND 255 = c AND 255"
      proof -
        obtain n where "unat c = 0x4e00 + n" using k(1) le_Suc_ex by blast
        moreover have "(0x4e00 + n) mod 256 = n mod 256" using mod_mult_self4 [of 256 78 n] by simp
        ultimately show ?thesis unfolding word_unat_eq_iff unat_and_255 d by simp
      qed
      ultimately show ?thesis by (simp add: algebra_simps)
    qed
    then show ?thesis unfolding e append.simps DecodeValueChar_kanji [OF lt] ids(2) ucast_byte_id [OF sh] by simp
  next
    case other
    then have e: "EncodeValueChar c = [0xfe, ucast (drop_bit 8 c), ucast (c AND 255)]"
      by (simp only: ev)
    show ?thesis unfolding e append.simps DecodeValueChar_lead ids split_low_byte by simp
  qed
qed

lemma left_byte:
  assumes l: "l AND 0x1f = (l :: byte)"
  shows "l AND 0x80 = 0" "l AND 0x40 = 0" "(l OR 0x80) AND 0x1f = l" "(l OR 0x40) AND 0x1f = l"
    "((l OR 0x80) OR 0x40) AND 0x1f = l"
    "(l OR 0x80) AND 0x80 = 0x80" "(l OR 0x80) AND 0x40 = 0" "(l OR 0x40) AND 0x40 = 0x40"
    "(l OR 0x40) AND 0x80 = 0" "((l OR 0x80) OR 0x40) AND 0x80 = 0x80" "((l OR 0x80) OR 0x40) AND 0x40 = 0x40"
proof -
  have "l AND 0x80 = l AND (0x1f AND 0x80)" by (subst l [symmetric]) (simp only: ac_simps)
  then show 1: "l AND 0x80 = 0" by simp
  have "l AND 0x40 = l AND (0x1f AND 0x40)" by (subst l [symmetric]) (simp only: ac_simps)
  then show 2: "l AND 0x40 = 0" by simp
  show "(l OR 0x80) AND 0x1f = l" "(l OR 0x40) AND 0x1f = l"
    "((l OR 0x80) OR 0x40) AND 0x1f = l"
    "(l OR 0x80) AND 0x80 = 0x80" "(l OR 0x80) AND 0x40 = 0" "(l OR 0x40) AND 0x40 = 0x40"
    "(l OR 0x40) AND 0x80 = 0" "((l OR 0x80) OR 0x40) AND 0x80 = 0x80" "((l OR 0x80) OR 0x40) AND 0x40 = 0x40"
    unfolding bit.conj_disj_distrib2 l 1 2 by simp_all
qed

lemma DecodeValueChar_supplementary:
  assumes "0x10000 \<le> c" "c \<le> 0x10ffff"
  shows "DecodeValueChar (EncodeValueChar c @ rest) = Some (c, rest)"
proof -
  have n: "\<not> c < 0x3095" "\<not> c < 0x30fd" "\<not> c < 0x10000" "\<not> c < 0x9800"
    using assms by (auto simp: word_less_nat_alt word_le_nat_alt)
  have kn: "0x10000 \<le> unat c" "unat c \<le> 0x10ffff" using assms by (simp_all add: word_le_nat_alt)
  let ?l = "drop_bit 16 c AND 255"
  have ul: "unat ?l = unat c div 65536" using kn by (simp add: unat_and_255 unat_drop_bit)
  then have l16: "unat ?l < 17" using kn by simp
  define l :: byte where "l = ucast ?l"
  have l_un: "unat l = unat ?l" unfolding l_def by (rule byte_cmp) (use l16 in simp)
  have l1: "l AND 0x1f = l"
    using unat_low(2) [of l] l16 by (simp add: word_unat_eq_iff l_un)
  have cl: "ucast l = drop_bit 16 c"
    using ul by (simp add: word_unat_eq_iff unat_ucast_char32 l_un unat_drop_bit)
  let ?m = "drop_bit 8 c AND 255" and ?r = "c AND 255"
  have sm: "unat ?m < 256" and sr: "unat ?r < 256" by (simp_all add: unat_and_255)
  note ids = ucast_byte_id [OF sm] ucast_byte_id [OF sr]
  have d16: "drop_bit 8 (drop_bit 8 c) = drop_bit 16 c" by simp
  have c_eq: "push_bit 16 (drop_bit 16 c) + push_bit 8 ?m + ?r = c"
  proof -
    have "push_bit 8 (push_bit 8 (drop_bit 8 (drop_bit 8 c)) + ?m) + ?r = c"
      by (simp only: split_low_byte)
    then show ?thesis unfolding d16 by (simp add: push_bit_add)
  qed
  have e: "EncodeValueChar c = [0xff, (let l1 = (if ?m = 0 then l OR 0x80 else l) in if ?r = 0 then l1 OR 0x40 else l1)]
      @ (if ?m \<noteq> 0 then [ucast ?m] else []) @ (if ?r \<noteq> 0 then [ucast ?r] else [])"
    unfolding EncodeValueChar_def using n assms
    by (simp add: Let_def l_def unsigned_or_eq)
  have dec: "DecodeValueChar (0xff # b # r) = do {
       let c = push_bit 16 (ucast (b AND 0x1f));
       (c, pos) \<leftarrow> (if b AND 0x80 = 0
                    then do { b \<leftarrow> byte_at r 0; Some (c + push_bit 8 (ucast b), 3) }
                    else Some (c, 2));
       (c, pos) \<leftarrow> (if b AND 0x40 = 0
                    then do { d \<leftarrow> byte_at (0xff # b # r) pos; Some (c + ucast d, pos + 1) }
                    else Some (c, pos));
       Some (c, drop pos (0xff # b # r)) }" for b r
    unfolding DecodeValueChar_def by (simp cong: if_cong)
  note lb = left_byte [OF l1] l1 cl
  show ?thesis
  proof (cases "?m = 0")
    case m: True
    show ?thesis
    proof (cases "?r = 0")
      case True
      with m show ?thesis using c_eq unfolding e by (simp add: dec lb Let_def)
    next
      case False
      with m show ?thesis using c_eq ids unfolding e by (simp add: dec lb Let_def)
    qed
  next
    case m: False
    show ?thesis
    proof (cases "?r = 0")
      case True
      with m show ?thesis using c_eq ids unfolding e by (simp add: dec lb Let_def)
    next
      case False
      with m show ?thesis using c_eq ids unfolding e by (simp add: dec lb Let_def)
    qed
  qed
qed

lemma DecodeValueChar_EncodeValueChar:
  assumes "c \<le> 0x10ffff"
  shows "DecodeValueChar (EncodeValueChar c @ rest) = Some (c, rest)"
proof (cases "c < 0x10000")
  case True
  then show ?thesis using DecodeValueChar_kana [of c rest] DecodeValueChar_bmp [of c rest] by blast
next
  case False
  then show ?thesis using DecodeValueChar_supplementary [of c rest] assms by simp
qed

lemma DecodeValue_EncodeValueChars:
  assumes "\<forall>c \<in> set cs. c \<le> 0x10ffff"
  shows "DecodeValue (concat (map EncodeValueChar cs)) = Some (Utf32ToUtf8 cs)"
  using assms
proof (induction cs)
  case Nil
  then show ?case by (simp add: DecodeValue.simps)
next
  case (Cons c cs)
  have "EncodeValueChar c \<noteq> []" by (auto simp: EncodeValueChar_def Let_def)
  then show ?case
    using Cons DecodeValueChar_EncodeValueChar [of c "concat (map EncodeValueChar cs)"]
    by (subst DecodeValue.simps) simp
qed

section \<open>The token codec is invertible\<close>

lemma bit_low_masks [simp]:
  "bit (0xff :: int) n \<longleftrightarrow> n < 8" "bit (0x3f :: int) n \<longleftrightarrow> n < 6" "bit (0xf :: int) n \<longleftrightarrow> n < 4"
proof -
  have m: "0xff = (mask 8 :: int)" "0x3f = (mask 6 :: int)" "0xf = (mask 4 :: int)"
    by (simp_all add: mask_eq_exp_minus_1)
  show "bit (0xff :: int) n \<longleftrightarrow> n < 8" "bit (0x3f :: int) n \<longleftrightarrow> n < 6" "bit (0xf :: int) n \<longleftrightarrow> n < 4"
    unfolding m bit_mask_iff by simp_all
qed

lemma byte_at_append [simp]:
  "byte_at (xs @ ys) (length xs + k) = byte_at ys k" "byte_at (xs @ ys) (length xs) = byte_at ys 0"
  "byte_at (xs @ ys) (Suc (length xs)) = byte_at ys 1"
  by (auto simp: byte_at_def nth_append)

lemma byte_at_pre [simp]:
  assumes "length pre = n"
  shows "byte_at (pre @ ys) n = byte_at ys 0" "byte_at (pre @ ys) (Suc n) = byte_at ys 1"
    "byte_at (pre @ ys) (Suc (Suc n)) = byte_at ys 2" "byte_at (pre @ ys) (n + k) = byte_at ys k"
  using assms by (auto simp: byte_at_def nth_append)

lemma flag_bits:
  assumes "l \<in> {0, 0x80}" "s \<in> {0, 0x10}" "pf \<in> {0, 4, 8, 0xc}" "vf \<in> {0, 1, 2, 3 :: byte}"
  defines "g \<equiv> ((l OR s) OR pf) OR vf"
  shows "g AND 0xc = pf" "g AND 3 = vf" "g AND 0x10 = s" "g AND 0x80 = l" "g AND 0x40 = 0"
    "(g AND 0x3f = 0) = (s = 0 \<and> pf = 0 \<and> vf = 0)" "((l OR s) OR pf) AND 0xc = pf"
  using assms(1-4) unfolding g_def by (elim insertE emptyE; simp)+

lemma flag_byte:
  assumes "l \<in> {0, 0x80}" "s \<in> {0, 0x10}" "pf \<in> {0, 4, 8, 0xc}" "vf \<in> {0, 1, 2, 3 :: byte}"
  defines "g \<equiv> ((l OR s) OR pf) OR vf"
  defines "f \<equiv> if g AND 0x3f = 0 then g OR 0x40 else g"
  shows "f AND 0xc = pf" "f AND 3 = vf" "f AND 0x10 = s" "f AND 0x80 = l"
    "f AND 0x40 \<noteq> 0 \<longleftrightarrow> f AND 0x3f = 0"
  using assms(1-4) unfolding f_def g_def by (elim insertE emptyE; simp)+

definition last_flag :: "TokenInfo list \<Rightarrow> nat \<Rightarrow> byte" where
  "last_flag tokens i = (if i = length tokens - 1 then 0x80 else 0)"

definition pos_flag_of :: "TokenInfo \<Rightarrow> byte" where
  "pos_flag_of ti = (case pos_type ti of FREQUENT_POS \<Rightarrow> 0 | SAME_AS_PREV_POS \<Rightarrow> 0xc
     | DEFAULT_POS \<Rightarrow> if t_lid (token ti) = t_rid (token ti) then 8 else 4)"

definition is_correction :: "TokenInfo \<Rightarrow> bool" where
  "is_correction ti \<longleftrightarrow> t_attributes (token ti) AND SPELLING_CORRECTION \<noteq> 0"

text \<open>The bits of the flags byte the encoder writes.\<close>

lemma GetFlagsForToken_bits:
  assumes "GetFlagsForToken tokens i = Some f"
  defines "ti \<equiv> tokens ! i"
  shows "f AND 0xc = pos_flag_of ti" "f AND 3 = GetFlagForValue ti"
    "f AND 0x10 = (if is_correction ti then 0x10 else 0)" "f AND 0x80 = last_flag tokens i"
    "f AND 0x40 \<noteq> 0 \<longleftrightarrow> f AND 0x3f = 0"
    "t_lid (token ti) \<le> 0xfff" "t_rid (token ti) \<le> 0xfff"
    "i = 0 \<Longrightarrow> pos_type ti \<noteq> SAME_AS_PREV_POS" "i = 0 \<Longrightarrow> value_type ti \<noteq> SAME_AS_PREV_VALUE"
proof -
  let ?l = "last_flag tokens i" and ?s = "if is_correction ti then 0x10 else 0 :: byte"
  let ?p = "pos_flag_of ti" and ?v = "GetFlagForValue ti"
  let ?g = "((?l OR ?s) OR ?p) OR ?v"
  have mem: "?l \<in> {0, 0x80}" "?s \<in> {0, 0x10}" "?p \<in> {0, 4, 8, 0xc}" "?v \<in> {0, 1, 2, 3}"
    by (auto simp: last_flag_def pos_flag_of_def GetFlagForValue_def split: PosType.splits)
  note fb = flag_bits [OF mem]
  have pf: "GetFlagForPos ti = (if 0xfff < t_lid (token ti) \<or> 0xfff < t_rid (token ti) then None else Some ?p)"
    by (auto simp: GetFlagForPos_def pos_flag_of_def Let_def split: PosType.splits)
  have s: "(if t_attributes (token ti) AND SPELLING_CORRECTION \<noteq> 0
             then (if i = length tokens - 1 then kLastTokenFlag else 0) OR kSpellingCorrectionFlag
             else (if i = length tokens - 1 then kLastTokenFlag else 0)) = ?l OR ?s"
    by (simp add: last_flag_def is_correction_def)
  have bounds: "t_lid (token ti) \<le> 0xfff" "t_rid (token ti) \<le> 0xfff"
    and first: "i = 0 \<longrightarrow> ?p \<noteq> 0xc" "i = 0 \<longrightarrow> ?v \<noteq> 3"
    and f: "f = (if ?g AND 0x3f = 0 then ?g OR 0x40 else ?g)"
    using assms(1) unfolding GetFlagsForToken_def Let_def ti_def [symmetric] s pf
    by (auto split: if_splits simp: fb)
  show "t_lid (token ti) \<le> 0xfff" "t_rid (token ti) \<le> 0xfff" by (fact bounds)+
  show "i = 0 \<Longrightarrow> pos_type ti \<noteq> SAME_AS_PREV_POS" using first by (auto simp: pos_flag_of_def)
  show "i = 0 \<Longrightarrow> value_type ti \<noteq> SAME_AS_PREV_VALUE" using first by (auto simp: GetFlagForValue_def)
  show "f AND 0xc = ?p" "f AND 3 = ?v" "f AND 0x10 = ?s" "f AND 0x80 = ?l"
    "f AND 0x40 \<noteq> 0 \<longleftrightarrow> f AND 0x3f = 0"
    unfolding f by (rule flag_byte [OF mem])+
qed

text \<open>What the decoder finds in the first byte, after the id's upper bits were put in it.\<close>

lemma ReadFlags_crammed:
  assumes "f AND 0x40 \<noteq> 0" "f AND 0x3f = (0 :: byte)"
  shows "ReadFlags (f OR (x AND 0x3f)) = f" "(f OR (x AND 0x3f)) AND 0x3f = x AND 0x3f"
proof -
  have "f AND 0xff = f AND (0xc0 OR 0x3f)" by simp
  also have "\<dots> = (f AND 0xc0) OR (f AND 0x3f)" by (rule bit.conj_disj_distrib)
  also have "f AND 0xff = f" by (rule bit_word_eqI) (auto simp: bit_simps)
  finally have "f = (f AND 0xc0) OR (f AND 0x3f)" .
  then have f: "f = f AND 0xc0" using assms(2) by simp
  have "x AND (0x3f AND 0x40) = 0" "x AND (0x3f AND 0xc0) = 0" by simp_all
  then show "ReadFlags (f OR (x AND 0x3f)) = f" using assms(1) f
    unfolding ReadFlags_def bit.conj_disj_distrib2 by (simp add: and.assoc)
  show "(f OR (x AND 0x3f)) AND 0x3f = x AND 0x3f"
    unfolding bit.conj_disj_distrib2 assms(2) by (simp add: and.assoc)
qed

lemma pos_id_bits:
  assumes "(x :: 16 word) \<le> 0xfff"
  shows "bit x n \<Longrightarrow> n < 12"
proof -
  assume b: "bit x n"
  have "drop_bit 12 x = 0" using assms by (simp add: word_unat_eq_iff unat_drop_bit word_le_nat_alt)
  then have "\<not> bit (drop_bit 12 x) (n - 12)" by simp
  then show "n < 12" using b by (cases "n < 12") (auto simp: bit_drop_bit_eq)
qed

lemma push_drop_16: "(x AND 255) + push_bit 8 (drop_bit 8 x) = (x :: 16 word)"
  "(x AND 15) + push_bit 4 (drop_bit 4 x) = (x :: 16 word)"
proof -
  have m: "255 = (mask 8 :: 16 word)" "15 = (mask 4 :: 16 word)" by (simp_all add: mask_eq_exp_minus_1)
  show "(x AND 255) + push_bit 8 (drop_bit 8 x) = x" "(x AND 15) + push_bit 4 (drop_bit 4 x) = x"
    using bits_ident [of 8 x] bits_ident [of 4 x] unfolding m take_bit_eq_mask by (simp_all add: add.commute)
qed

lemma full_pos:
  assumes "lid \<le> 0xfff" "rid \<le> (0xfff :: 16 word)"
  defines "b1 \<equiv> (ucast ((push_bit 4 rid AND 255) OR drop_bit 8 lid) :: byte)"
  shows "ucast (ucast (lid AND 255) :: byte) + push_bit 8 (ucast (b1 AND 0x0f)) = lid"
    "ucast (drop_bit 4 b1) + push_bit 4 (ucast (ucast (drop_bit 4 rid AND 255) :: byte)) = rid"
proof -
  have "ucast (ucast (lid AND 255) :: byte) = lid AND 255"
    by (rule bit_word_eqI) (auto simp: bit_simps)
  moreover have "ucast (b1 AND 0x0f) = drop_bit 8 lid"
    unfolding b1_def by (intro bit_word_eqI) (auto simp: bit_simps dest: pos_id_bits [OF assms(1)])
  ultimately show "ucast (ucast (lid AND 255) :: byte) + push_bit 8 (ucast (b1 AND 0x0f)) = lid"
    by (simp only: push_drop_16)
  have "ucast (drop_bit 4 b1) = rid AND 15"
    unfolding b1_def using pos_id_bits [OF assms(1)]
    by (intro bit_word_eqI) (auto simp: bit_simps)
  moreover have "ucast (ucast (drop_bit 4 rid AND 255) :: byte) = drop_bit 4 rid"
    by (intro bit_word_eqI) (auto simp: bit_simps dest: pos_id_bits [OF assms(2)])
  ultimately show "ucast (drop_bit 4 b1) + push_bit 4 (ucast (ucast (drop_bit 4 rid AND 255) :: byte)) = rid"
    by (simp only: push_drop_16)
qed

lemma mono_pos:
  "push_bit 8 (ucast (ucast (drop_bit 8 x) :: byte)) OR ucast (ucast (x AND 255) :: byte) = (x :: 16 word)"
  by (rule bit_word_eqI) (auto simp: bit_simps)

lemma id_bits:
  assumes "(x :: 32 word) \<le> 0x3fffff"
  shows "bit x n \<Longrightarrow> n < 22"
proof -
  assume b: "bit x n"
  have "drop_bit 22 x = 0" using assms by (simp add: word_unat_eq_iff unat_drop_bit word_le_nat_alt)
  then have "\<not> bit (drop_bit 22 x) (n - 22)" by simp
  then show "n < 22" using b by (cases "n < 22") (auto simp: bit_drop_bit_eq)
qed

lemma value_id:
  assumes "(x :: 32 word) \<le> 0x3fffff"
  defines "lo \<equiv> push_bit 8 (ucast (ucast (drop_bit 8 x AND 255) :: byte)) OR ucast (ucast (x AND 255) :: byte)"
  shows "lo OR push_bit 16 (ucast (ucast (drop_bit 16 x AND 255) :: byte)) = x"
    "lo OR push_bit 16 (ucast (ucast (drop_bit 16 x) AND 0x3f :: byte)) = x"
proof -
  have r: "n < 8 \<or> (8 \<le> n \<and> n < 16) \<or> (16 \<le> n \<and> n < 22) \<or> 22 \<le> n" for n :: nat by linarith
  show "lo OR push_bit 16 (ucast (ucast (drop_bit 16 x AND 255) :: byte)) = x"
  proof (rule bit_word_eqI)
    fix n show "bit (lo OR push_bit 16 (ucast (ucast (drop_bit 16 x AND 255) :: byte))) n = bit x n"
      using r [of n] unfolding lo_def by (elim disjE) (auto simp: bit_simps dest: id_bits [OF assms(1)])
  qed
  show "lo OR push_bit 16 (ucast (ucast (drop_bit 16 x) AND 0x3f :: byte)) = x"
  proof (rule bit_word_eqI)
    fix n show "bit (lo OR push_bit 16 (ucast (ucast (drop_bit 16 x) AND 0x3f :: byte))) n = bit x n"
      using r [of n] unfolding lo_def by (elim disjE) (auto simp: bit_simps dest: id_bits [OF assms(1)])
  qed
qed

text \<open>What decoding the encoding of \<^verbatim>\<open>ti\<close> makes of the token info \<^verbatim>\<open>ti0\<close> it is given: only the
  fields the encoder stored change.\<close>

definition decoded_pos :: "TokenInfo \<Rightarrow> TokenInfo \<Rightarrow> TokenInfo" where
  "decoded_pos ti ti0 =
     (case pos_type ti of
        FREQUENT_POS \<Rightarrow> ti0\<lparr>pos_type := FREQUENT_POS, id_in_frequent_pos_map := id_in_frequent_pos_map ti\<rparr>
      | SAME_AS_PREV_POS \<Rightarrow> ti0\<lparr>pos_type := SAME_AS_PREV_POS\<rparr>
      | DEFAULT_POS \<Rightarrow> ti0\<lparr>token := (token ti0)\<lparr>t_lid := t_lid (token ti), t_rid := t_rid (token ti)\<rparr>\<rparr>)"

definition decoded_cost :: "TokenInfo \<Rightarrow> TokenInfo \<Rightarrow> TokenInfo" where
  "decoded_cost ti ti0 =
     ti0\<lparr>token := (token ti0)\<lparr>t_cost :=
       (if cost_type ti = CAN_USE_SMALL_ENCODING then t_cost (token ti) div 256 * 256
        else t_cost (token ti))\<rparr>\<rparr>"

definition decoded_value :: "TokenInfo \<Rightarrow> TokenInfo \<Rightarrow> TokenInfo" where
  "decoded_value ti ti0 =
     (if value_type ti = DEFAULT_VALUE
      then ti0\<lparr>value_type := DEFAULT_VALUE, id_in_value_trie := id_in_value_trie ti\<rparr>
      else ti0\<lparr>value_type := value_type ti\<rparr>)"

definition decoded_attributes :: "TokenInfo \<Rightarrow> TokenInfo \<Rightarrow> TokenInfo" where
  "decoded_attributes ti ti0 =
     (if is_correction ti then ti0\<lparr>token := (token ti0)\<lparr>t_attributes := SPELLING_CORRECTION\<rparr>\<rparr> else ti0)"

definition decoded :: "TokenInfo \<Rightarrow> TokenInfo \<Rightarrow> TokenInfo" where
  "decoded ti ti0 = decoded_value ti (decoded_cost ti (decoded_pos ti (decoded_attributes ti ti0)))"

text \<open>The numbers the encoder stores fit their fields: costs are not negative, ids of frequent
  parts of speech are bytes and value ids are C++ \<^verbatim>\<open>int\<close>s.\<close>

definition wf_token_info :: "TokenInfo \<Rightarrow> bool" where
  "wf_token_info ti \<longleftrightarrow> 0 \<le> t_cost (token ti)
     \<and> (pos_type ti = FREQUENT_POS \<longrightarrow> id_in_frequent_pos_map ti < 256)
     \<and> - (2 ^ 31) \<le> id_in_value_trie ti \<and> id_in_value_trie ti < 2 ^ 31"

lemma EncodePos_decodes:
  assumes "EncodePos ti f dst = Some dst'" "f AND 0xc = pos_flag_of ti" "wf_token_info ti"
    "t_lid (token ti) \<le> 0xfff" "t_rid (token ti) \<le> 0xfff"
  obtains bs where "dst' = dst @ bs" "length bs \<le> 3"
    "\<And>pre rest ti0. length pre = length dst \<Longrightarrow>
       DecodePos (pre @ bs @ rest) f (ti0, length dst) = Some (decoded_pos ti ti0, length dst + length bs)"
proof (cases "pos_type ti")
  case DEFAULT_POS
  show ?thesis
  proof (cases "t_lid (token ti) = t_rid (token ti)")
    case True
    with DEFAULT_POS assms(1,2) have d: "dst' = dst @ [ucast (t_lid (token ti) AND 255), ucast (drop_bit 8 (t_lid (token ti)))]"
      by (simp add: EncodePos_def pos_flag_of_def Let_def)
    show ?thesis
      by (rule that [OF d])
        (use DEFAULT_POS True assms(2) in \<open>simp_all add: DecodePos_def decoded_pos_def pos_flag_of_def Let_def mono_pos\<close>)
  next
    case False
    let ?b1 = "ucast ((push_bit 4 (t_rid (token ti)) AND 255) OR drop_bit 8 (t_lid (token ti))) :: byte"
    from False DEFAULT_POS assms(1,2) have d: "dst' = dst @ [ucast (t_lid (token ti) AND 255), ?b1,
        ucast (drop_bit 4 (t_rid (token ti)) AND 255)]"
      by (simp add: EncodePos_def pos_flag_of_def Let_def)
    note fp = full_pos [OF assms(4,5)]
    show ?thesis
      by (rule that [OF d])
        (use DEFAULT_POS False assms(2) in \<open>simp_all add: DecodePos_def decoded_pos_def pos_flag_of_def fp\<close>)
  qed
next
  case FREQUENT_POS
  with assms(1,2) have d: "dst' = dst @ [word_of_int (id_in_frequent_pos_map ti)]"
    and i: "0 \<le> id_in_frequent_pos_map ti"
    by (simp_all add: EncodePos_def pos_flag_of_def Let_def split: if_splits)
  have "uint (word_of_int (id_in_frequent_pos_map ti) :: byte) = id_in_frequent_pos_map ti"
    using i assms(3) FREQUENT_POS by (simp add: wf_token_info_def uint_word_of_int_eq take_bit_int_eq_self)
  with FREQUENT_POS assms(2) show ?thesis
    by (intro that [OF d]) (simp_all add: DecodePos_def decoded_pos_def pos_flag_of_def)
next
  case SAME_AS_PREV_POS
  with assms(1,2) have d: "dst' = dst @ []"
    by (simp add: EncodePos_def pos_flag_of_def)
  with SAME_AS_PREV_POS assms(2) show ?thesis
    by (intro that [OF d]) (simp_all add: DecodePos_def decoded_pos_def pos_flag_of_def)
qed

lemma cost_bytes:
  assumes "0 \<le> c" "c \<le> kCostMax"
  shows "uint (word_of_int (drop_bit 8 c OR 0x80) AND 0x7f :: byte) = c div 256"
    "word_of_int (drop_bit 8 c OR 0x80) AND 0x80 \<noteq> (0 :: byte)"
    "word_of_int (drop_bit 8 c) AND 0x80 = (0 :: byte)"
    "uint (word_of_int (drop_bit 8 c) :: byte) = c div 256"
    "uint (word_of_int (c AND 0xff) :: byte) = c mod 256"
proof -
  let ?w = "word_of_int (c div 256) :: byte"
  have r: "0 \<le> c div 256" "c div 256 < 128" using assms by auto
  then have u: "uint ?w = c div 256" by (simp add: uint_word_of_int_eq take_bit_int_eq_self)
  then have un: "unat ?w < 128" "unat ?w = nat (c div 256)" using r by (simp_all add: unat_eq_nat_uint)
  have m: "(0x7f :: byte) = mask 7" by (simp add: mask_eq_exp_minus_1)
  have w7: "?w AND 0x7f = ?w" unfolding m using un by (simp add: word_unat_eq_iff unat_and_mask)
  have "?w AND (0x7f AND 0x80) = 0" by simp
  then have w8: "?w AND 0x80 = 0" using w7 by (metis and.assoc)
  have d: "drop_bit 8 c = c div 256" by (simp add: drop_bit_eq_div)
  have o: "word_of_int (drop_bit 8 c OR 0x80) = ?w OR (0x80 :: byte)"
    unfolding d by (rule bit_word_eqI) (auto simp: bit_simps)
  show "uint (word_of_int (drop_bit 8 c OR 0x80) AND 0x7f :: byte) = c div 256"
    unfolding o bit.conj_disj_distrib2 w7 using u by simp
  show "word_of_int (drop_bit 8 c OR 0x80) AND 0x80 \<noteq> (0 :: byte)"
    unfolding o bit.conj_disj_distrib2 w8 by simp
  show "word_of_int (drop_bit 8 c) AND 0x80 = (0 :: byte)" unfolding d by (rule w8)
  show "uint (word_of_int (drop_bit 8 c) :: byte) = c div 256" unfolding d by (rule u)
  have m8: "(0xff :: int) = mask 8" by (simp add: mask_eq_exp_minus_1)
  have "c AND 0xff = c mod 256" unfolding m8 by (simp add: take_bit_eq_mod flip: take_bit_eq_mask)
  then show "uint (word_of_int (c AND 0xff) :: byte) = c mod 256"
    by (simp add: uint_word_of_int_eq take_bit_int_eq_self)
qed

lemma EncodeCost_decodes:
  assumes "EncodeCost ti dst = Some dst'" "wf_token_info ti"
  obtains bs where "dst' = dst @ bs" "length bs \<le> 2"
    "\<And>pre rest ti0. length pre = length dst \<Longrightarrow>
       DecodeCost (pre @ bs @ rest) (ti0, length dst) = Some (decoded_cost ti ti0, length dst + length bs)"
proof -
  let ?c = "t_cost (token ti)"
  from assms have c: "0 \<le> ?c" "?c \<le> kCostMax" by (auto simp: EncodeCost_def wf_token_info_def Let_def split: if_splits)
  note cb = cost_bytes [OF c]
  have p: "push_bit 8 x = x * 256" for x :: int by (simp add: push_bit_eq_mult)
  show ?thesis
  proof (cases "cost_type ti")
    case DEFAULT_COST
    with assms c have d: "dst' = dst @ [word_of_int (drop_bit 8 ?c), word_of_int (?c AND 0xff)]"
      by (simp add: EncodeCost_def Let_def)
    show ?thesis
      by (intro that [OF d]) (use DEFAULT_COST in \<open>simp_all add: DecodeCost_def decoded_cost_def cb p\<close>)
  next
    case CAN_USE_SMALL_ENCODING
    with assms c have d: "dst' = dst @ [word_of_int (drop_bit 8 ?c OR 0x80)]"
      by (simp add: EncodeCost_def Let_def)
    show ?thesis
      by (intro that [OF d]) (use CAN_USE_SMALL_ENCODING in \<open>simp_all add: DecodeCost_def decoded_cost_def cb p\<close>)
  qed
qed

lemma GetFlagForValue_simps: "GetFlagForValue ti = (case value_type ti of DEFAULT_VALUE \<Rightarrow> 0
    | AS_IS_HIRAGANA \<Rightarrow> 1 | AS_IS_KATAKANA \<Rightarrow> 2 | SAME_AS_PREV_VALUE \<Rightarrow> 3)"
  by (simp add: GetFlagForValue_def split: ValueType.splits)

lemma EncodeValueInfo_decodes:
  assumes "EncodeValueInfo ti f (f # dst) = Some dst'" "f AND 3 = GetFlagForValue ti" "wf_token_info ti"
    "f AND 0x40 \<noteq> 0 \<longleftrightarrow> f AND 0x3f = 0"
  obtains b0 bs where "dst' = (b0 # dst) @ bs" "length bs \<le> 3" "ReadFlags b0 = f"
    "\<And>pre rest ti0. length pre = length dst \<Longrightarrow>
       DecodeValueInfo (b0 # pre @ bs @ rest) f (ti0, Suc (length dst))
         = Some (decoded_value ti ti0, Suc (length dst + length bs))"
proof (cases "value_type ti = DEFAULT_VALUE")
  case False
  then have g: "GetFlagForValue ti \<noteq> 0" by (auto simp: GetFlagForValue_simps split: ValueType.splits)
  with assms(1,2) have d: "dst' = (f # dst) @ []" by (simp add: EncodeValueInfo_def)
  have "f AND 0x3f \<noteq> 0"
  proof
    assume "f AND 0x3f = 0"
    then have "(f AND 0x3f) AND 3 = 0" by simp
    with g assms(2) show False by (simp add: and.assoc)
  qed
  with assms(4) have "f AND 0x40 = 0" by blast
  then have "ReadFlags f = f" by (simp add: ReadFlags_def)
  then show ?thesis
    by (intro that [OF d])
      (use False assms(2) in \<open>simp_all add: DecodeValueInfo_def decoded_value_def GetFlagForValue_simps split: ValueType.splits\<close>)
next
  case True
  let ?id = "word_of_int (id_in_value_trie ti) :: 32 word"
  from True assms(1,2) have le: "?id \<le> 0x3fffff"
    by (auto simp: EncodeValueInfo_def GetFlagForValue_simps Let_def split: if_splits)
  have si: "sint ?id = id_in_value_trie ti"
    using assms(3) by (simp add: wf_token_info_def sint_sbintrunc' signed_take_bit_int_eq_self)
  have nl: "\<not> 0x3fffff < ?id" using le by (simp only: not_less)
  have v0: "f AND 3 = 0" using True assms(2) by (simp add: GetFlagForValue_simps)
  show ?thesis
  proof (cases "f AND 0x40 = 0")
    case False
    let ?b0 = "f OR (ucast (drop_bit 16 ?id) AND 0x3f)"
    from False True v0 nl assms(1) have d: "dst' = (?b0 # dst) @ [ucast (?id AND 255), ucast (drop_bit 8 ?id AND 255)]"
      by (simp add: EncodeValueInfo_def Let_def)
    note rf = ReadFlags_crammed [OF False, of "ucast (drop_bit 16 ?id)"]
    show ?thesis
      by (intro that [OF d])
        (use False True v0 assms(4) in \<open>simp_all add: DecodeValueInfo_def decoded_value_def ReadValueId_def rf value_id [OF le] si\<close>)
  next
    case f40: True
    from f40 True v0 nl assms(1) have d: "dst' = (f # dst) @ [ucast (?id AND 255), ucast (drop_bit 8 ?id AND 255),
        ucast (drop_bit 16 ?id AND 255)]"
      by (simp add: EncodeValueInfo_def Let_def)
    show ?thesis
      by (intro that [OF d])
        (use f40 True v0 in \<open>simp_all add: DecodeValueInfo_def decoded_value_def ReadValueId_def ReadFlags_def value_id [OF le] si\<close>)
  qed
qed

theorem EncodeToken_decodes:
  assumes "EncodeToken tokens i = Some bs" "wf_token_info (tokens ! i)"
  shows "DecodeToken (bs @ rest) ti0
           = Some (decoded (tokens ! i) ti0, length bs, i \<noteq> length tokens - 1)"
proof -
  let ?ti = "tokens ! i"
  from assms(1) obtain f d1 d2 where
    f: "GetFlagsForToken tokens i = Some f" and e1: "EncodePos ?ti f [f] = Some d1"
    and e2: "EncodeCost ?ti d1 = Some d2" and e3: "EncodeValueInfo ?ti f d2 = Some bs"
    by (auto simp: EncodeToken_def bind_eq_Some_conv Let_def split: if_splits)
  note fb = GetFlagsForToken_bits [OF f]
  obtain p where p: "d1 = [f] @ p" "\<And>pre rest ti0. length pre = length [f] \<Longrightarrow>
      DecodePos (pre @ p @ rest) f (ti0, length [f]) = Some (decoded_pos ?ti ti0, length [f] + length p)"
    by (rule EncodePos_decodes [OF e1 fb(1) assms(2) fb(6,7)]) blast
  obtain c where c: "d2 = d1 @ c" "\<And>pre rest ti0. length pre = length d1 \<Longrightarrow>
      DecodeCost (pre @ c @ rest) (ti0, length d1) = Some (decoded_cost ?ti ti0, length d1 + length c)"
    by (rule EncodeCost_decodes [OF e2 assms(2)]) blast
  from e3 p(1) c(1) have e3': "EncodeValueInfo ?ti f (f # p @ c) = Some bs" by simp
  obtain b0 v where v: "bs = (b0 # p @ c) @ v" "ReadFlags b0 = f"
    "\<And>pre rest ti0. length pre = length (p @ c) \<Longrightarrow> DecodeValueInfo (b0 # pre @ v @ rest) f (ti0, Suc (length (p @ c)))
         = Some (decoded_value ?ti ti0, Suc (length (p @ c) + length v))"
    by (rule EncodeValueInfo_decodes [OF e3' fb(2) assms(2) fb(5)]) blast
  have P: "DecodePos (b0 # p @ c @ v @ rest) f (t, Suc 0) = Some (decoded_pos ?ti t, Suc (length p))" for t
    using p(2) [of "[b0]" "c @ v @ rest" t] by simp
  have C: "DecodeCost (b0 # p @ c @ v @ rest) (t, Suc (length p)) = Some (decoded_cost ?ti t, Suc (length p + length c))" for t
    using c(2) [of "b0 # p" "v @ rest" t] p(1) by simp
  have V: "DecodeValueInfo (b0 # p @ c @ v @ rest) f (t, Suc (length p + length c))
       = Some (decoded_value ?ti t, Suc (length p + length c + length v))" for t
    using v(3) [of "p @ c" rest t] by simp
  have sc: "f AND 0x10 \<noteq> 0 \<longleftrightarrow> is_correction ?ti" and la: "f AND 0x80 = 0 \<longleftrightarrow> i \<noteq> length tokens - 1"
    using fb(3,4) by (auto simp: last_flag_def)
  show ?thesis
    using v(1,2) unfolding decoded_def decoded_attributes_def
    by (simp add: DecodeToken_def sc la P C V)
qed

text \<open>The first byte of a token list can only be the termination flag when the value id needs
  all the six bits crammed in the flags.\<close>

lemma EncodeToken_length:
  assumes "EncodeToken tokens i = Some bs"
  shows "1 \<le> length bs \<and> length bs \<le> 9"
  using assms by (auto simp: EncodeToken_def bind_eq_Some_conv Let_def EncodePos_def EncodeCost_def
      EncodeValueInfo_def split: if_splits)

section \<open>The key codec is an involution\<close>

lemma SwapCode_unat:
  "unat (SwapCode c) =
     (let n = unat c in
      if 0x1 \<le> n \<and> n \<le> 0x1f then n + 0x3040
      else if 0x40 \<le> n \<and> n \<le> 0x75 then n + 0x3020
      else if 0x76 \<le> n \<and> n \<le> 0x77 then n + 0x3085
      else if 0x3041 \<le> n \<and> n \<le> 0x305f then n - 0x3040
      else if 0x3060 \<le> n \<and> n \<le> 0x3095 then n - 0x3020
      else if 0x30fb \<le> n \<and> n \<le> 0x30fc then n - 0x3085
      else n)"
proof -
  have a: "unat (c + k) = unat c + unat k" if "unat c + unat k < 2 ^ 32" for k :: char32
    using that by (simp add: unat_word_ariths)
  have s: "unat (c - k) = unat c - unat k" if "unat k \<le> unat c" for k :: char32
    using that by (simp add: unat_sub word_le_nat_alt)
  show ?thesis
    unfolding SwapCode_def Let_def word_le_nat_alt word_less_nat_alt
    by (auto simp: a s)
qed

lemma SwapCode_cases:
  fixes c :: char32
  obtains (ctrl) "0x1 \<le> unat c" "unat c \<le> 0x1f" "unat (SwapCode c) = unat c + 0x3040"
  | (alpha) "0x40 \<le> unat c" "unat c \<le> 0x75" "unat (SwapCode c) = unat c + 0x3020"
  | (vw) "0x76 \<le> unat c" "unat c \<le> 0x77" "unat (SwapCode c) = unat c + 0x3085"
  | (hira1) "0x3041 \<le> unat c" "unat c \<le> 0x305f" "unat (SwapCode c) = unat c - 0x3040"
  | (hira2) "0x3060 \<le> unat c" "unat c \<le> 0x3095" "unat (SwapCode c) = unat c - 0x3020"
  | (dot) "0x30fb \<le> unat c" "unat c \<le> 0x30fc" "unat (SwapCode c) = unat c - 0x3085"
  | (other) "\<not> (0x1 \<le> unat c \<and> unat c \<le> 0x1f)" "\<not> (0x40 \<le> unat c \<and> unat c \<le> 0x77)"
      "\<not> (0x3041 \<le> unat c \<and> unat c \<le> 0x3095)" "\<not> (0x30fb \<le> unat c \<and> unat c \<le> 0x30fc)"
      "unat (SwapCode c) = unat c"
  using SwapCode_unat [of c] unfolding Let_def by (auto split: if_splits)

lemma SwapCode_involution [simp]: "SwapCode (SwapCode c) = c"
  unfolding word_unat_eq_iff
  by (rule SwapCode_cases [of c]; rule SwapCode_cases [of "SwapCode c"]; (simp; fail | arith))

lemma SwapCode_encodable: "encodable c \<Longrightarrow> encodable (SwapCode c)"
  by (rule SwapCode_cases [of c])
    (auto simp: encodable_def word_less_nat_alt word_le_nat_alt word_unat_eq_iff)

lemma length_CodepointToUtf8:
  "length (CodepointToUtf8 c) = (if unat c = 0 then 0 else if unat c < 0x80 then 1
     else if unat c < 0x800 then 2 else if unat c < 0x10000 then 3
     else if unat c < 0x200000 then 4 else if unat c < 0x8000000 then 5 else 6)"
  by (simp add: CodepointToUtf8_def word_less_nat_alt word_unat_eq_iff)

lemma KeyLengthDelta_correct:
  "int (length (CodepointToUtf8 (SwapCode c))) = int (length (CodepointToUtf8 c)) + KeyLengthDelta c"
  by (rule SwapCode_cases [of c])
    (auto simp: length_CodepointToUtf8 KeyLengthDelta_def word_le_nat_alt)

lemma fold_KeyLengthDelta:
  "fold (\<lambda>code size. size + KeyLengthDelta code) cs n
     = n + int (length (Utf32ToUtf8 (map SwapCode cs))) - int (length (Utf32ToUtf8 cs))"
proof (induction cs arbitrary: n)
  case (Cons c cs)
  then show ?case using KeyLengthDelta_correct [of c] by simp
qed simp

lemma key_codec:
  assumes "list_all encodable cs"
  shows "EncodeDecodeKeyImpl (Utf32ToUtf8 cs) = Utf32ToUtf8 (map SwapCode cs)"
    "EncodeDecodeKeyImpl (EncodeDecodeKeyImpl (Utf32ToUtf8 cs)) = Utf32ToUtf8 cs"
    "GetEncodedDecodedKeyLengthImpl (Utf32ToUtf8 cs) = int (length (EncodeDecodeKeyImpl (Utf32ToUtf8 cs)))"
proof -
  have e: "list_all encodable (map SwapCode cs)"
    using assms SwapCode_encodable by (auto simp: list_all_iff)
  show "EncodeDecodeKeyImpl (Utf32ToUtf8 cs) = Utf32ToUtf8 (map SwapCode cs)"
    using assms by (simp add: EncodeDecodeKeyImpl_def)
  then show "EncodeDecodeKeyImpl (EncodeDecodeKeyImpl (Utf32ToUtf8 cs)) = Utf32ToUtf8 cs"
    using e by (simp add: EncodeDecodeKeyImpl_def comp_def)
  show "GetEncodedDecodedKeyLengthImpl (Utf32ToUtf8 cs) = int (length (EncodeDecodeKeyImpl (Utf32ToUtf8 cs)))"
    using assms by (simp add: GetEncodedDecodedKeyLengthImpl_def fold_KeyLengthDelta EncodeDecodeKeyImpl_def)
qed

text \<open>No NUL byte in an encoded value.\<close>

lemma ucast_byte_zero: "(ucast (x :: char32) :: byte) = 0 \<longleftrightarrow> unat x mod 256 = 0"
  by (simp add: word_unat_eq_iff unat_ucast_byte)

lemma EncodeValueChar_no_NUL:
  assumes "unicode c"
  shows "0 \<notin> set (EncodeValueChar c)"
proof -
  have c: "0 < unat c" "unat c \<le> 0x10ffff"
    using assms by (auto simp: unicode_def word_le_nat_alt word_unat_eq_iff)
  have s1: "unat (c - 0x3041 + 0x4b) = unat c - 0x3041 + 0x4b" if "0x3041 \<le> c"
    using that c unat_shift_sub [of "0x3041" c "0x4b"] by (simp add: word_le_nat_alt)
  have s2: "unat (c - 0x30a1 + 0x9f) = unat c - 0x30a1 + 0x9f" if "0x30a1 \<le> c"
    using that c unat_shift_sub [of "0x30a1" c "0x9f"] by (simp add: word_le_nat_alt)
  have s3: "unat (drop_bit 8 (c - 0x4e00) + 0x01) = (unat c - 0x4e00) div 256 + 1"
    if "0x4e00 \<le> c" "c < 0x9800"
  proof -
    have "unat (c - 0x4e00) = unat c - 0x4e00" using that unat_sub [of "0x4e00" c] by simp
    then show ?thesis using that by (simp add: unat_word_ariths unat_drop_bit word_less_nat_alt)
  qed
  have m: "unat (drop_bit 8 c AND 255) = unat c div 256 mod 256"
    "unat (drop_bit 16 c AND 255) = unat c div 65536 mod 256" "unat (c AND 255) = unat c mod 256"
    by (simp_all add: unat_and_255 unat_drop_bit)
  show ?thesis
  proof (cases "0x10000 \<le> c")
    case False
    then have c16: "unat c < 0x10000" by (simp add: word_le_nat_alt)
    consider "0x3041 \<le> c \<and> c < 0x3095" | "0x30a1 \<le> c \<and> c < 0x30fd" "\<not> (0x3041 \<le> c \<and> c < 0x3095)"
      | "\<not> (0x3041 \<le> c \<and> c < 0x3095)" "\<not> (0x30a1 \<le> c \<and> c < 0x30fd)" by blast
    then show ?thesis
    proof cases
      case 1
      then have "unat c < 0x3095" "0x3041 \<le> unat c" by (simp_all add: word_less_nat_alt word_le_nat_alt)
      then have r: "unat c - 0x3041 + 0x4b < 256" "unat c - 0x3041 + 0x4b \<noteq> 0" by linarith+
      then have "(ucast (c - 0x3041 + 0x4b) :: byte) \<noteq> 0"
        using 1 by (simp only: ucast_byte_zero s1 mod_less simp_thms)
      moreover have "EncodeValueChar c = [ucast (c - 0x3041 + 0x4b)]"
        using 1 by (simp only: EncodeValueChar_def if_True if_False simp_thms)
      ultimately show ?thesis by (auto simp only: list.set insert_iff empty_iff)
    next
      case 2
      then have "unat c < 0x30fd" "0x30a1 \<le> unat c" by (simp_all add: word_less_nat_alt word_le_nat_alt)
      then have r: "unat c - 0x30a1 + 0x9f < 256" "unat c - 0x30a1 + 0x9f \<noteq> 0" by linarith+
      then have "(ucast (c - 0x30a1 + 0x9f) :: byte) \<noteq> 0"
        using 2 by (simp only: ucast_byte_zero s2 mod_less simp_thms)
      moreover have "EncodeValueChar c = [ucast (c - 0x30a1 + 0x9f)]"
        using 2 by (simp only: EncodeValueChar_def if_True if_False simp_thms)
      ultimately show ?thesis by (auto simp only: list.set insert_iff empty_iff)
    next
      case 3
      have ct: "(c < 0x10000) = True" "(0x10000 \<le> c) = False" using False by simp_all
      have z: "x AND 255 = 0 \<longleftrightarrow> unat (x AND 255) = 0" for x :: char32 by (simp add: word_unat_eq_iff)
      have e: "EncodeValueChar c =
        (if unat (drop_bit 8 c AND 255) = 0 then [0xfc, ucast (c AND 255)]
         else if unat (c AND 255) = 0 then [0xfd, ucast (drop_bit 8 c AND 255)]
         else if 0x4e00 \<le> c \<and> c < 0x9800 then [ucast (drop_bit 8 (c - 0x4e00) + 0x01), ucast (c AND 255)]
         else [0xfe, ucast (drop_bit 8 c AND 255), ucast (c AND 255)])"
        by (simp only: EncodeValueChar_def if_not_P [OF 3(1)] if_not_P [OF 3(2)] ct z simp_thms if_True if_False)
      have k: "0x4e00 \<le> c \<and> c < 0x9800 \<Longrightarrow> (unat c - 0x4e00) div 256 < 0x4a"
        by (auto simp: word_less_nat_alt word_le_nat_alt)
      show ?thesis
        unfolding e using c c16 s3 k by (auto simp: ucast_byte_zero m)
    qed
  next
    case True
    have n: "\<not> (0x3041 \<le> c \<and> c < 0x3095)" "\<not> (0x30a1 \<le> c \<and> c < 0x30fd)" "\<not> (0x4e00 \<le> c \<and> c < 0x9800)"
      "(c < 0x10000) = False" "(0x10000 \<le> c \<and> c \<le> 0x10ffff) = True"
      using True c by (auto simp: word_less_nat_alt word_le_nat_alt)
    have z: "x AND 255 = 0 \<longleftrightarrow> unat (x AND 255) = 0" for x :: char32 by (simp add: word_unat_eq_iff)
    have "unat c div 65536 < 17" "0 < unat c div 65536" using True c by (auto simp: word_le_nat_alt)
    then have "(ucast (drop_bit 16 c AND 255) :: byte) \<noteq> 0" by (simp add: ucast_byte_zero m)
    then have "(ucast (L OR x) :: byte) \<noteq> 0" if "L = drop_bit 16 c AND 255" for L x
    proof -
      have "a AND (a OR x) = a" for a x :: byte by (rule bit_word_eqI) (auto simp: bit_simps)
      with \<open>(ucast (drop_bit 16 c AND 255) :: byte) \<noteq> 0\<close> that show ?thesis
        unfolding unsigned_or_eq by (metis and_zero_eq)
    qed
    then obtain L where L: "drop_bit 16 c AND 255 = L" and l: "\<And>x. (ucast (L OR x) :: byte) \<noteq> 0" by blast
    have ml: "unat L mod 256 \<noteq> 0" "unat (L OR x) mod 256 \<noteq> 0" "unat ((L OR x) OR y) mod 256 \<noteq> 0" for x y
      using l [of 0] l [of x] l [of "x OR y"] by (simp_all only: ucast_byte_zero or.assoc or.right_neutral not_False_eq_True)
    obtain M R where MR: "unat (drop_bit 8 c AND 255) = unat M" "drop_bit 8 c AND 255 = M" "unat M < 256"
      "c AND 255 = R" "unat R < 256" using m by simp
    have "0 < unat M mod 256" if "M \<noteq> 0" using that MR(3) by (simp add: unat_gt_0)
    moreover have "0 < unat R mod 256" if "R \<noteq> 0" using that MR(5) by (simp add: unat_gt_0)
    ultimately show ?thesis
      unfolding EncodeValueChar_def if_not_P [OF n(1)] if_not_P [OF n(2)] if_not_P [OF n(3)] n(4,5) Let_def z L MR(2,4)
      using ml by (auto simp: ucast_byte_zero)
  qed
qed

lemma EncodeValue_no_NUL:
  "list_all unicode cs \<Longrightarrow> 0 \<notin> set (concat (map EncodeValueChar cs))"
  using EncodeValueChar_no_NUL by (auto simp: list_all_iff)

section \<open>Reverse lookup\<close>

lemma ReadTokenForReverseLookup_agrees:
  assumes "DecodeToken ptr ti0 = Some (ti, n, nxt)"
  shows "ReadTokenForReverseLookup ptr
           = Some (if value_type ti = DEFAULT_VALUE then id_in_value_trie ti else -1, n, nxt)"
proof -
  from assms obtain p0 t1 s1 s2 where p0: "byte_at ptr 0 = Some p0"
    and P: "DecodePos ptr (ReadFlags p0) (t1, 1) = Some s1"
    and C: "DecodeCost ptr s1 = Some s2" and V: "DecodeValueInfo ptr (ReadFlags p0) s2 = Some (ti, n)"
    and m: "nxt = (ReadFlags p0 AND 0x80 = 0)"
    unfolding DecodeToken_def Let_def bind_eq_Some_conv by (auto split: prod.splits)
  let ?f = "ReadFlags p0"
  let ?o = "if ?f AND 0xc = 0 then 1 + 1 else if ?f AND 0xc = 8 then 1 + 2 else if ?f AND 0xc = 4 then 1 + 3 else 1 :: nat"
  have o: "snd s1 = ?o"
    using P unfolding DecodePos_def Let_def by (auto simp: bind_eq_Some_conv split: if_splits)
  obtain b where b: "byte_at ptr ?o = Some b" "snd s2 = (if b AND 0x80 \<noteq> 0 then ?o + 1 else ?o + 2)"
    using C unfolding DecodeCost_def o [symmetric] by (auto simp: bind_eq_Some_conv split: if_splits prod.splits)
  let ?o2 = "if b AND 0x80 \<noteq> 0 then ?o + 1 else ?o + 2"
  have v: "ReadValueInfo ptr ?f ?o2 = Some (if value_type ti = DEFAULT_VALUE then id_in_value_trie ti else -1, n)"
  proof -
    have "ReadValueInfo ptr ?f (snd s2) = Some (if value_type ti = DEFAULT_VALUE then id_in_value_trie ti else -1, n)"
    proof -
      have cases3: "?f AND 3 = 0 \<or> ?f AND 3 = 1 \<or> ?f AND 3 = 2 \<or> ?f AND 3 = 3"
      proof -
        have "unat (?f AND 3) < 4" using unat_low(5) [of ?f] by simp
        then have "unat (?f AND 3) = 0 \<or> unat (?f AND 3) = 1 \<or> unat (?f AND 3) = 2 \<or> unat (?f AND 3) = 3" by linarith
        then show ?thesis by (simp add: word_unat_eq_iff)
      qed
      obtain t2 o2 where s2: "s2 = (t2, o2)" by fastforce
      show ?thesis
        using V cases3 unfolding s2 DecodeValueInfo_def ReadValueInfo_def
        by (elim disjE) (auto simp: bind_eq_Some_conv)
    qed
    then show ?thesis unfolding b(2) .
  qed
  show ?thesis
    unfolding ReadTokenForReverseLookup_def p0 bind.bind_lunit Let_def b(1) v m by simp
qed

lemma sint_small:
  assumes "unat (w :: 32 word) \<le> 0x3fffff"
  shows "sint w = uint w"
proof -
  have "uint w \<le> 0x3fffff"
    using assms of_nat_le_iff [of "unat w" "0x3fffff", where 'a = int] by simp
  moreover have "- (2 ^ 31) \<le> uint w" by (rule order_trans [of _ 0]) simp_all
  ultimately show ?thesis unfolding sint_uint by (intro signed_take_bit_int_eq_self) simp_all
qed

lemma uint_ge_unat: "0x3f0000 \<le> uint (w :: 32 word) \<longleftrightarrow> 0x3f0000 \<le> unat w"
  using of_nat_le_iff [of "0x3f0000" "unat w", where 'a = int] by simp

text \<open>The first byte of the only token of a key is the termination flag when the value id needs all
  of the six bits crammed in the flags.\<close>

lemma EncodeTokens_single:
  assumes "EncodeToken [ti] 0 = Some bs" "wf_token_info ti"
  shows "EncodeTokens [ti] = None \<longleftrightarrow>
    pos_type ti = FREQUENT_POS \<and> value_type ti = DEFAULT_VALUE \<and> \<not> is_correction ti
    \<and> 0x3f0000 \<le> id_in_value_trie ti"
proof -
  from assms(1) obtain f d1 d2 where
    f: "GetFlagsForToken [ti] 0 = Some f" and e1: "EncodePos ti f [f] = Some d1"
    and e2: "EncodeCost ti d1 = Some d2" and e3: "EncodeValueInfo ti f d2 = Some bs"
    by (auto simp: EncodeToken_def bind_eq_Some_conv Let_def split: if_splits)
  note fb = GetFlagsForToken_bits [OF f, simplified]
  let ?id = "word_of_int (id_in_value_trie ti) :: 32 word"
  let ?x = "ucast (drop_bit 16 ?id) :: byte"
  have h2: "d2 \<noteq> []" "d2 ! 0 = f"
    using e1 e2 by (auto simp: EncodePos_def EncodeCost_def Let_def nth_append split: if_splits)
  have hd: "hd bs = (if f AND 3 = 0 \<and> f AND 0x40 \<noteq> 0 then f OR (?x AND 0x3f) else f)" "bs \<noteq> []"
    using e3 h2 by (auto simp: EncodeValueInfo_def Let_def hd_append hd_conv_nth split: if_splits)
  have le: "?id \<le> 0x3fffff" if "f AND 3 = 0"
    using e3 that by (auto simp: EncodeValueInfo_def Let_def split: if_splits)
  have none: "EncodeTokens [ti] = None \<longleftrightarrow> hd bs = 0xff"
    using assms(1) hd(2) by (simp add: EncodeTokens_def EncodeTokensFrom.simps)
  let ?cram = "pos_type ti = FREQUENT_POS \<and> value_type ti = DEFAULT_VALUE \<and> \<not> is_correction ti"
  have f40: "f AND 0x40 = 0 \<Longrightarrow> f \<noteq> 0xff" by auto
  have cram: "f AND 0x40 \<noteq> 0 \<longleftrightarrow> ?cram"
  proof
    assume "f AND 0x40 \<noteq> 0"
    with fb(5) have z: "f AND 0x3f = 0" by blast
    have m: "f AND m = 0" if "0x3f AND m = m" for m
    proof -
      have "f AND m = (f AND 0x3f) AND m" by (simp only: and.assoc that)
      then show ?thesis by (simp add: z)
    qed
    from m [of "0xc"] m [of 3] m [of "0x10"] fb(1,2,3)
    show ?cram by (auto simp: pos_flag_of_def GetFlagForValue_simps split: PosType.splits ValueType.splits if_splits)
  next
    assume ?cram
    then have "f = 0xc0"
      using f by (auto simp: GetFlagsForToken_def GetFlagForPos_def GetFlagForValue_def is_correction_def Let_def split: if_splits)
    then show "f AND 0x40 \<noteq> 0" by simp
  qed
  show ?thesis
  proof (cases ?cram)
    case False
    with cram hd(1) f40 show ?thesis unfolding none by auto
  next
    case True
    then have f: "f = 0xc0"
      using f by (auto simp: GetFlagsForToken_def GetFlagForPos_def GetFlagForValue_def is_correction_def Let_def split: if_splits)
    have il: "?id \<le> 0x3fffff" using le f by simp
    then have iu: "unat ?id \<le> 0x3fffff" by (simp add: word_le_nat_alt)
    have si: "sint ?id = id_in_value_trie ti"
      using assms(2) by (simp add: wf_token_info_def sint_sbintrunc' signed_take_bit_int_eq_self)
    have idn: "id_in_value_trie ti = uint ?id"
      using sint_small [OF iu] si by simp
    have ux: "unat ?x = unat ?id div 65536" using iu by (simp add: unat_ucast_byte unat_drop_bit)
    then have x6: "unat ?x < 64" using iu by simp
    then have "?x AND 0x3f = ?x" using unat_low(1) [of ?x] by (simp add: word_unat_eq_iff)
    then have "hd bs = 0xc0 OR ?x" unfolding hd(1) f by simp
    moreover have "0xc0 OR ?x = 0xff \<longleftrightarrow> ?x = 0x3f"
    proof
      assume o: "0xc0 OR ?x = 0xff"
      have "?x = ?x AND 0x3f" using \<open>?x AND 0x3f = ?x\<close> by simp
      also have "\<dots> = (0xc0 OR ?x) AND 0x3f" unfolding bit.conj_disj_distrib2 by simp
      finally show "?x = 0x3f" unfolding o by simp
    qed simp
    moreover have "?x = 0x3f \<longleftrightarrow> 0x3f0000 \<le> unat ?id"
      using iu by (simp add: word_unat_eq_iff ux) linarith
    moreover have "0x3f0000 \<le> id_in_value_trie ti \<longleftrightarrow> 0x3f0000 \<le> unat ?id"
      by (subst idn) (rule uint_ge_unat)
    ultimately show ?thesis unfolding none using True by simp
  qed
qed

section \<open>The interface of a string codec\<close>

text \<open>
  What the dictionary builder and the lookups rely on for keys and values: an encoder whose
  decoder gives the string back. Distinct strings then have distinct trie keys.
\<close>

locale string_codec =
  fixes enc :: "bytes \<Rightarrow> bytes" and dec :: "bytes \<Rightarrow> bytes option" and ok :: "bytes \<Rightarrow> bool"
  assumes dec_enc: "ok s \<Longrightarrow> dec (enc s) = Some s"
begin

lemma enc_eq_iff: "ok s \<Longrightarrow> ok t \<Longrightarrow> enc s = enc t \<longleftrightarrow> s = t"
  by (metis dec_enc option.inject)

lemma enc_inj_on: "inj_on enc {s. ok s}"
  by (rule inj_onI) (simp add: enc_eq_iff)

lemma distinct_enc: "list_all ok ss \<Longrightarrow> distinct (map enc ss) \<longleftrightarrow> distinct ss"
  by (auto simp: distinct_map list_all_iff intro: inj_on_subset [OF enc_inj_on])

end

definition encodable_string :: "bytes \<Rightarrow> bool" where
  "encodable_string s \<longleftrightarrow> IsValidUtf8 s \<and> list_all encodable (Utf8ToUtf32 s)"

definition unicode_string :: "bytes \<Rightarrow> bool" where
  "unicode_string s \<longleftrightarrow> IsValidUtf8 s \<and> list_all unicode (Utf8ToUtf32 s)"

lemma encodable_string_canonical: "encodable_string s \<Longrightarrow> Utf32ToUtf8 (Utf8ToUtf32 s) = s"
  using valid_is_encoded [of s] by (auto simp: encodable_string_def encodable_def list_all_iff)

lemma unicode_string_encodable: "unicode_string s \<Longrightarrow> encodable_string s"
  by (auto simp: unicode_string_def encodable_string_def list_all_iff)

lemma DecodeKey_EncodeKey:
  assumes "encodable_string s"
  shows "DecodeKey (EncodeKey s) = s"
    "GetEncodedDecodedKeyLengthImpl s = int (length (EncodeKey s))"
  using key_codec [of "Utf8ToUtf32 s"] assms encodable_string_canonical [OF assms]
  by (simp_all add: DecodeKey_def EncodeKey_def encodable_string_def)

lemma DecodeValue_EncodeValue:
  assumes "unicode_string s"
  shows "DecodeValue (EncodeValue s) = Some s" "0 \<notin> set (EncodeValue s)"
  using assms DecodeValue_EncodeValueChars [of "Utf8ToUtf32 s"] EncodeValue_no_NUL [of "Utf8ToUtf32 s"]
    encodable_string_canonical [OF unicode_string_encodable [OF assms]]
  by (simp_all add: EncodeValue_def unicode_string_def unicode_def list_all_iff)

interpretation key_codec: string_codec EncodeKey "\<lambda>s. Some (DecodeKey s)" encodable_string
  by unfold_locales (simp add: DecodeKey_EncodeKey)

interpretation value_codec: string_codec EncodeValue DecodeValue unicode_string
  by unfold_locales (simp add: DecodeValue_EncodeValue)

section \<open>Properties\<close>

text \<open>C18: decoding an encoded key gives the key back, the length function predicts the length of
  the encoded key, and distinct keys have distinct encodings.\<close>

theorem key_codec_roundtrip:
  assumes "encodable_string s" and "encodable_string t"
  shows "DecodeKey (EncodeKey s) = s \<and> GetEncodedDecodedKeyLengthImpl s = int (length (EncodeKey s))
    \<and> (EncodeKey s = EncodeKey t \<longleftrightarrow> s = t)"
  using DecodeKey_EncodeKey [OF assms(1)] key_codec.enc_eq_iff [OF assms] by simp

theorem key_codec_roundtrip_witness:
  "DecodeKey (EncodeKey [0xe3, 0x81, 0x82, 0x61]) = [0xe3, 0x81, 0x82, 0x61]
   \<and> GetEncodedDecodedKeyLengthImpl [0xe3, 0x81, 0x82, 0x61] = int (length (EncodeKey [0xe3, 0x81, 0x82, 0x61]))
   \<and> (EncodeKey [0xe3, 0x81, 0x82, 0x61] = EncodeKey [0x61] \<longleftrightarrow> [0xe3, 0x81, 0x82, 0x61] = [0x61 :: byte])"
  by (rule key_codec_roundtrip)
    (simp_all add: encodable_string_def IsValidUtf8.simps Utf8ToUtf32.simps SplitFirstChar32_def
      LeadingByteInfo_def IsUtf8TrailingByte_def encodable_def)

text \<open>C19: decoding an encoded value gives the value back, the encoded value has no NUL byte and
  distinct values have distinct encodings.\<close>

theorem value_codec_roundtrip:
  assumes "unicode_string s" and "unicode_string t"
  shows "DecodeValue (EncodeValue s) = Some s \<and> 0 \<notin> set (EncodeValue s)
    \<and> (EncodeValue s = EncodeValue t \<longleftrightarrow> s = t)"
  using DecodeValue_EncodeValue [OF assms(1)] value_codec.enc_eq_iff [OF assms] by simp

theorem value_codec_roundtrip_witness:
  "DecodeValue (EncodeValue [0xe4, 0xb8, 0x80, 0x61]) = Some [0xe4, 0xb8, 0x80, 0x61]
   \<and> 0 \<notin> set (EncodeValue [0xe4, 0xb8, 0x80, 0x61])
   \<and> (EncodeValue [0xe4, 0xb8, 0x80, 0x61] = EncodeValue [0x61] \<longleftrightarrow> [0xe4, 0xb8, 0x80, 0x61] = [0x61 :: byte])"
  by (rule value_codec_roundtrip)
    (simp_all add: unicode_string_def IsValidUtf8.simps Utf8ToUtf32.simps SplitFirstChar32_def
      LeadingByteInfo_def IsUtf8TrailingByte_def unicode_def)

text \<open>C20: one token round trip on every branch. Decoding the bytes of a token, whatever follows
  them, into any token info sets exactly the stored fields, reads exactly these bytes, and says
  whether the token is the last one. The low byte of a cost in the small encoding is lost.\<close>

theorem token_codec_roundtrip:
  assumes "EncodeToken tokens i = Some bs" and "wf_token_info (tokens ! i)"
  shows "DecodeToken (bs @ rest) ti0
           = Some (decoded (tokens ! i) ti0, length bs, i \<noteq> length tokens - 1)"
  using assms by (rule EncodeToken_decodes)

definition example_token :: TokenInfo where
  "example_token = (TokenInfo_init \<lparr>t_key = [], t_value = [], t_cost = 0x1234, t_lid = 0xabc, t_rid = 0x123,
     t_attributes = 1\<rparr>)\<lparr>id_in_value_trie := 0x2f1234, cost_type := CAN_USE_SMALL_ENCODING\<rparr>"

theorem token_codec_roundtrip_witness:
  "DecodeToken ([0x94, 0xbc, 0x3a, 0x12, 0x92, 0x34, 0x12, 0x2f] @ [1, 2]) example_token
     = Some (decoded ([example_token] ! 0) example_token,
         length [0x94 :: byte, 0xbc, 0x3a, 0x12, 0x92, 0x34, 0x12, 0x2f], 0 \<noteq> length [example_token] - 1)"
proof (rule token_codec_roundtrip)
  show "wf_token_info ([example_token] ! 0)"
    by (simp add: wf_token_info_def example_token_def TokenInfo_init_def)
  show "EncodeToken [example_token] 0 = Some [0x94, 0xbc, 0x3a, 0x12, 0x92, 0x34, 0x12, 0x2f]"
    by (simp add: EncodeToken_def GetFlagsForToken_def GetFlagForPos_def GetFlagForValue_def
        EncodePos_def EncodeCost_def EncodeValueInfo_def example_token_def TokenInfo_init_def
        SPELLING_CORRECTION_def Let_def)
qed

text \<open>on any bytes DecodeToken can read, the shortcut reader of reverse lookups returns the same
  value id (-1 unless one is stored), the same length and the same continuation flag.\<close>

theorem reverse_lookup_agrees:
  assumes "DecodeToken ptr ti0 = Some (ti, n, nxt)"
  shows "ReadTokenForReverseLookup ptr
           = Some (if value_type ti = DEFAULT_VALUE then id_in_value_trie ti else -1, n, nxt)"
  using assms by (rule ReadTokenForReverseLookup_agrees)

theorem reverse_lookup_agrees_witness:
  "ReadTokenForReverseLookup [0xc2, 0x05, 0x92, 0x34, 0x12] = Some (0x21234, 5, False)"
proof -
  obtain ti where "DecodeToken [0xc2, 0x05, 0x92, 0x34, 0x12] example_token = Some (ti, 5, False)"
    and "value_type ti = DEFAULT_VALUE" "id_in_value_trie ti = 0x21234"
    by (simp add: DecodeToken_def ReadFlags_def DecodePos_def DecodeCost_def DecodeValueInfo_def
        ReadValueId_def Let_def)
  then show ?thesis using reverse_lookup_agrees by fastforce
qed

text \<open>The comment on the termination flag says that the first token's flags cannot be 0xff.
  The only token of a key, frequent, without correction and with its value in the trie, has the
  first byte 0xff exactly when its value id is 0x3f0000 or more, although ids up to 0x3fffff are
  accepted: EncodeTokens then stops at its check.\<close>

theorem termination_flag_collision:
  assumes "EncodeToken [ti] 0 = Some bs" and "wf_token_info ti"
  shows "EncodeTokens [ti] = None \<longleftrightarrow>
    pos_type ti = FREQUENT_POS \<and> value_type ti = DEFAULT_VALUE \<and> \<not> is_correction ti
    \<and> 0x3f0000 \<le> id_in_value_trie ti"
  using assms by (rule EncodeTokens_single)

definition colliding_token :: TokenInfo where
  "colliding_token = (TokenInfo_init \<lparr>t_key = [], t_value = [], t_cost = 5, t_lid = 1, t_rid = 2,
     t_attributes = 0\<rparr>)\<lparr>id_in_value_trie := 0x3f1234, pos_type := FREQUENT_POS, id_in_frequent_pos_map := 7\<rparr>"

theorem termination_flag_collision_witness: "EncodeTokens [colliding_token] = None"
proof -
  have "EncodeToken [colliding_token] 0 = Some [0xff, 7, 0, 5, 0x34, 0x12]"
    by (simp add: EncodeToken_def GetFlagsForToken_def GetFlagForPos_def GetFlagForValue_def
        EncodePos_def EncodeCost_def EncodeValueInfo_def colliding_token_def TokenInfo_init_def
        SPELLING_CORRECTION_def Let_def)
  moreover have "wf_token_info colliding_token"
    by (simp add: wf_token_info_def colliding_token_def TokenInfo_init_def)
  ultimately show ?thesis
    using termination_flag_collision [of colliding_token]
    by (simp add: colliding_token_def TokenInfo_init_def is_correction_def)
qed

end
