(* ===== verification/SystemDictionary.thy ===== *)
theory SystemDictionary
  imports Codec "HOL-Library.List_Lexorder" "HOL-Library.Product_Lexorder" "HOL-Library.Multiset"
begin

text \<open>
  The system dictionary: the builder (\<^verbatim>\<open>dictionary/system/system_dictionary_builder.cc\<close>) that
  groups the tokens by key, chooses the shortcuts of each and encodes them, and the iterator
  (\<^verbatim>\<open>dictionary/system/token_decode_iterator.h\<close>) that reads the tokens of a key back. The
  strings live in tries; their builder and reader are parameters here.
\<close>

section \<open>The token iterator: token\_decode\_iterator.h\<close>

datatype IteratorState = HAS_NEXT | LAST_TOKEN | ITERATOR_DONE

text \<open>\<^verbatim>\<open>token_info_.token\<close> points to \<^verbatim>\<open>token_\<close> throughout, so the model keeps the token inside the
  token info. The pointer is the list of the bytes from it on.\<close>

record TokenDecodeIterator =
  it_key :: bytes
  key_katakana :: bytes
  it_state :: IteratorState
  it_ptr :: bytes
  token_info :: TokenInfo

text \<open>What the iterator is given: the value trie's \<^verbatim>\<open>RestoreKeyString\<close>, the table of frequent parts
  of speech, and the conversion to katakana (driven by a table the build generates).\<close>

record DecodeEnv =
  RestoreKeyString :: "int \<Rightarrow> bytes option"
  frequent_pos :: "32 word list"
  HiraganaToKatakana :: "bytes \<Rightarrow> bytes"

definition LookupValue :: "DecodeEnv \<Rightarrow> int \<Rightarrow> bytes option" where
  "LookupValue env value_id = Option.bind (RestoreKeyString env value_id) DecodeValue"

text \<open>The switch on the value type in \<^verbatim>\<open>NextInternal\<close>.\<close>

definition FillValue :: "DecodeEnv \<Rightarrow> int \<Rightarrow> TokenDecodeIterator \<Rightarrow> TokenDecodeIterator option" where
  "FillValue env prev_id it =
     (let ti = token_info it; tok = token ti in
      case value_type ti of
        DEFAULT_VALUE \<Rightarrow> do {
          v \<leftarrow> LookupValue env (id_in_value_trie ti);
          Some (it\<lparr>token_info := ti\<lparr>token := tok\<lparr>t_value := v\<rparr>\<rparr>\<rparr>) }
      | SAME_AS_PREV_VALUE \<Rightarrow> Some (it\<lparr>token_info := ti\<lparr>id_in_value_trie := prev_id\<rparr>\<rparr>)
      | AS_IS_HIRAGANA \<Rightarrow> Some (it\<lparr>token_info := ti\<lparr>token := tok\<lparr>t_value := t_key tok\<rparr>\<rparr>\<rparr>)
      | AS_IS_KATAKANA \<Rightarrow>
          (let k = (if it_key it \<noteq> [] \<and> key_katakana it = []
                    then HiraganaToKatakana env (it_key it) else key_katakana it)
           in Some (it\<lparr>key_katakana := k, token_info := ti\<lparr>token := tok\<lparr>t_value := k\<rparr>\<rparr>\<rparr>)))"

definition FillPos :: "DecodeEnv \<Rightarrow> TokenInfo \<Rightarrow> TokenInfo option" where
  "FillPos env ti =
     (if pos_type ti = FREQUENT_POS then
        (let i = nat (id_in_frequent_pos_map ti) in
         if i < length (frequent_pos env)
         then (let pos = frequent_pos env ! i in
               Some (ti\<lparr>token := (token ti)\<lparr>t_lid := ucast (drop_bit 16 pos), t_rid := ucast (pos AND 0xffff)\<rparr>\<rparr>))
         else None)
      else Some ti)"

definition NextInternal :: "DecodeEnv \<Rightarrow> TokenDecodeIterator \<Rightarrow> TokenDecodeIterator option" where
  "NextInternal env it = do {
     let prev_id = id_in_value_trie (token_info it);
     let ti0 = TokenInfo_init ((token (token_info it))\<lparr>t_attributes := 0\<rparr>);
     (ti, read_bytes, nxt) \<leftarrow> DecodeToken (it_ptr it) ti0;
     let it = it\<lparr>it_state := (if nxt then it_state it else LAST_TOKEN),
                 it_ptr := drop read_bytes (it_ptr it), token_info := ti\<rparr>;
     it \<leftarrow> FillValue env prev_id it;
     ti \<leftarrow> FillPos env (token_info it);
     Some (it\<lparr>token_info := ti\<rparr>) }"

definition NewTokenDecodeIterator :: "DecodeEnv \<Rightarrow> bytes \<Rightarrow> bytes \<Rightarrow> TokenDecodeIterator option" where
  "NewTokenDecodeIterator env key ptr =
     NextInternal env \<lparr>it_key = key, key_katakana = [], it_state = HAS_NEXT, it_ptr = ptr,
       token_info = TokenInfo_init \<lparr>t_key = key, t_value = [], t_cost = 0, t_lid = 0, t_rid = 0, t_attributes = 0\<rparr>\<rparr>"

definition Next :: "DecodeEnv \<Rightarrow> TokenDecodeIterator \<Rightarrow> TokenDecodeIterator option" where
  "Next env it =
     (if it_state it = LAST_TOKEN then Some (it\<lparr>it_state := ITERATOR_DONE\<rparr>) else NextInternal env it)"

text \<open>The loop \<^verbatim>\<open>for (iter; !iter.Done(); iter.Next())\<close> of the lookups, with fuel: the tokens
  \<^verbatim>\<open>Get\<close> returns.\<close>

fun CollectTokens :: "nat \<Rightarrow> DecodeEnv \<Rightarrow> TokenDecodeIterator \<Rightarrow> Token list option" where
  "CollectTokens 0 env it = None"
| "CollectTokens (Suc n) env it =
     (if it_state it = ITERATOR_DONE then Some []
      else do { it' \<leftarrow> Next env it; ts \<leftarrow> CollectTokens n env it'; Some (token (token_info it) # ts) })"

section \<open>The iterator reads what the encoder wrote\<close>

text \<open>What the encoder keeps of a token, and the conditions under which the shortcuts of the token
  at index \<^verbatim>\<open>i\<close> stand for its part of speech and value.\<close>

definition stored_token :: "TokenInfo \<Rightarrow> Token" where
  "stored_token ti = (token ti)\<lparr>
     t_cost := (if cost_type ti = CAN_USE_SMALL_ENCODING then t_cost (token ti) div 256 * 256 else t_cost (token ti)),
     t_attributes := (if is_correction ti then SPELLING_CORRECTION else 0)\<rparr>"

definition GetCombinedPos :: "16 word \<Rightarrow> 16 word \<Rightarrow> 32 word" where
  "GetCombinedPos lid rid = push_bit 16 (ucast lid) OR ucast rid"

definition pos_recoverable :: "DecodeEnv \<Rightarrow> TokenInfo list \<Rightarrow> nat \<Rightarrow> bool" where
  "pos_recoverable env ts i \<longleftrightarrow>
     (let ti = ts ! i in
      case pos_type ti of
        DEFAULT_POS \<Rightarrow> True
      | FREQUENT_POS \<Rightarrow> 0 \<le> id_in_frequent_pos_map ti
          \<and> nat (id_in_frequent_pos_map ti) < length (frequent_pos env)
          \<and> frequent_pos env ! nat (id_in_frequent_pos_map ti) = GetCombinedPos (t_lid (token ti)) (t_rid (token ti))
      | SAME_AS_PREV_POS \<Rightarrow> 0 < i \<and> t_lid (token (ts ! (i - 1))) = t_lid (token ti)
          \<and> t_rid (token (ts ! (i - 1))) = t_rid (token ti))"

definition value_recoverable :: "DecodeEnv \<Rightarrow> TokenInfo list \<Rightarrow> nat \<Rightarrow> bool" where
  "value_recoverable env ts i \<longleftrightarrow>
     (let ti = ts ! i; v = t_value (token ti) in
      case value_type ti of
        DEFAULT_VALUE \<Rightarrow> LookupValue env (id_in_value_trie ti) = Some v
      | SAME_AS_PREV_VALUE \<Rightarrow> 0 < i \<and> t_value (token (ts ! (i - 1))) = v
      | AS_IS_HIRAGANA \<Rightarrow> v = t_key (token ti)
      | AS_IS_KATAKANA \<Rightarrow> v = HiraganaToKatakana env (t_key (token ti)))"

definition recoverable :: "DecodeEnv \<Rightarrow> bytes \<Rightarrow> TokenInfo list \<Rightarrow> bool" where
  "recoverable env key ts \<longleftrightarrow> key \<noteq> [] \<and> (\<forall>i < length ts. t_key (token (ts ! i)) = key
     \<and> wf_token_info (ts ! i) \<and> pos_recoverable env ts i \<and> value_recoverable env ts i)"

lemma combined_pos:
  "ucast (drop_bit 16 (GetCombinedPos lid rid)) = lid" "ucast (GetCombinedPos lid rid AND 0xffff) = rid"
proof -
  have m: "(0xffff :: 32 word) = mask 16" by (simp add: mask_eq_exp_minus_1)
  show "ucast (drop_bit 16 (GetCombinedPos lid rid)) = lid"
    unfolding GetCombinedPos_def by (rule bit_word_eqI) (auto simp: bit_simps dest: bit_imp_le_length)
  show "ucast (GetCombinedPos lid rid AND 0xffff) = rid"
    unfolding GetCombinedPos_def m by (rule bit_word_eqI) (auto simp: bit_simps)
qed

lemma combined_pos_eq_iff:
  "GetCombinedPos l r = GetCombinedPos l' r' \<longleftrightarrow> l = l' \<and> r = r'"
  by (metis combined_pos)

text \<open>The state of the iterator between two tokens.\<close>

definition at_token :: "DecodeEnv \<Rightarrow> bytes \<Rightarrow> TokenInfo list \<Rightarrow> nat \<Rightarrow> TokenDecodeIterator \<Rightarrow> bool" where
  "at_token env key ts i it \<longleftrightarrow> it_key it = key
     \<and> (key_katakana it = [] \<or> key_katakana it = HiraganaToKatakana env key)
     \<and> t_key (token (token_info it)) = key
     \<and> (0 < i \<longrightarrow> t_value (token (token_info it)) = t_value (token (ts ! (i - 1)))
         \<and> t_lid (token (token_info it)) = t_lid (token (ts ! (i - 1)))
         \<and> t_rid (token (token_info it)) = t_rid (token (ts ! (i - 1))))"

lemma NextInternal_step:
  assumes enc: "EncodeToken ts i = Some bs" and i: "i < length ts"
    and rec: "recoverable env key ts" and at: "at_token env key ts i it" and ptr: "it_ptr it = bs @ rest"
  obtains it' where "NextInternal env it = Some it'" "token (token_info it') = stored_token (ts ! i)"
    "at_token env key ts (Suc i) it'" "it_ptr it' = rest"
    "it_state it' = (if i = length ts - 1 then LAST_TOKEN else it_state it)"
proof -
  let ?ti = "ts ! i"
  let ?t0 = "TokenInfo_init ((token (token_info it))\<lparr>t_attributes := 0\<rparr>)"
  let ?d = "decoded ?ti ?t0"
  from rec i have wf: "wf_token_info ?ti" and p: "pos_recoverable env ts i" and v: "value_recoverable env ts i"
    and k: "t_key (token ?ti) = key" "key \<noteq> []"
    by (auto simp: recoverable_def)
  have D: "DecodeToken (bs @ rest) ?t0 = Some (?d, length bs, i \<noteq> length ts - 1)"
    by (rule EncodeToken_decodes [OF enc wf])
  let ?it1 = "it\<lparr>it_state := (if i \<noteq> length ts - 1 then it_state it else LAST_TOKEN), it_ptr := rest, token_info := ?d\<rparr>"
  have d: "value_type ?d = value_type ?ti" "pos_type ?d = pos_type ?ti"
    "value_type ?ti = DEFAULT_VALUE \<Longrightarrow> id_in_value_trie ?d = id_in_value_trie ?ti"
    "pos_type ?ti = FREQUENT_POS \<Longrightarrow> id_in_frequent_pos_map ?d = id_in_frequent_pos_map ?ti"
    "t_key (token ?d) = key" "t_value (token ?d) = t_value (token (token_info it))"
    "t_cost (token ?d) = t_cost (stored_token ?ti)" "t_attributes (token ?d) = t_attributes (stored_token ?ti)"
    "pos_type ?ti = DEFAULT_POS \<Longrightarrow> t_lid (token ?d) = t_lid (token ?ti) \<and> t_rid (token ?d) = t_rid (token ?ti)"
    "pos_type ?ti \<noteq> DEFAULT_POS \<Longrightarrow> t_lid (token ?d) = t_lid (token (token_info it)) \<and> t_rid (token ?d) = t_rid (token (token_info it))"
    using at by (auto simp: decoded_def decoded_value_def decoded_cost_def decoded_pos_def decoded_attributes_def
        TokenInfo_init_def stored_token_def at_token_def split: PosType.splits ValueType.splits)
  let ?prev = "id_in_value_trie (token_info it)"
  obtain it2 where F: "FillValue env ?prev ?it1 = Some it2"
    and it2: "t_value (token (token_info it2)) = t_value (token ?ti)"
      "t_key (token (token_info it2)) = key" "t_cost (token (token_info it2)) = t_cost (stored_token ?ti)"
      "t_attributes (token (token_info it2)) = t_attributes (stored_token ?ti)"
      "t_lid (token (token_info it2)) = t_lid (token ?d)" "t_rid (token (token_info it2)) = t_rid (token ?d)"
      "pos_type (token_info it2) = pos_type ?ti" "id_in_frequent_pos_map (token_info it2) = id_in_frequent_pos_map ?d"
      "it_ptr it2 = rest" "it_state it2 = it_state ?it1" "it_key it2 = key"
      "key_katakana it2 = [] \<or> key_katakana it2 = HiraganaToKatakana env key"
  proof (cases "value_type ?ti")
    case DEFAULT_VALUE
    with v d(3) have "LookupValue env (id_in_value_trie ?d) = Some (t_value (token ?ti))"
      by (simp add: value_recoverable_def Let_def)
    with DEFAULT_VALUE d at show ?thesis
      by (intro that [of "?it1\<lparr>token_info := ?d\<lparr>token := (token ?d)\<lparr>t_value := t_value (token ?ti)\<rparr>\<rparr>\<rparr>"])
        (simp_all add: FillValue_def at_token_def Let_def)
  next
    case SAME_AS_PREV_VALUE
    with v d at show ?thesis
      by (intro that [of "?it1\<lparr>token_info := ?d\<lparr>id_in_value_trie := ?prev\<rparr>\<rparr>"])
        (simp_all add: FillValue_def at_token_def value_recoverable_def Let_def)
  next
    case AS_IS_HIRAGANA
    with v d at k show ?thesis
      by (intro that [of "?it1\<lparr>token_info := ?d\<lparr>token := (token ?d)\<lparr>t_value := key\<rparr>\<rparr>\<rparr>"])
        (simp_all add: FillValue_def at_token_def value_recoverable_def Let_def)
  next
    case AS_IS_KATAKANA
    with v d at k show ?thesis
      by (intro that [of "?it1\<lparr>key_katakana := HiraganaToKatakana env key,
          token_info := ?d\<lparr>token := (token ?d)\<lparr>t_value := HiraganaToKatakana env key\<rparr>\<rparr>\<rparr>"])
        (auto simp: FillValue_def at_token_def value_recoverable_def Let_def)
  qed
  obtain t3 where P: "FillPos env (token_info it2) = Some t3" and t3: "token t3 = stored_token ?ti"
  proof (cases "pos_type ?ti")
    case DEFAULT_POS
    with it2 d(9) k(1) show ?thesis
      by (intro that [of "token_info it2"]) (simp_all add: FillPos_def stored_token_def)
  next
    case FREQUENT_POS
    with p have f: "nat (id_in_frequent_pos_map ?ti) < length (frequent_pos env)"
      "frequent_pos env ! nat (id_in_frequent_pos_map ?ti) = GetCombinedPos (t_lid (token ?ti)) (t_rid (token ?ti))"
      by (simp_all add: pos_recoverable_def Let_def)
    show ?thesis
      by (rule that [of "(token_info it2)\<lparr>token := (token (token_info it2))\<lparr>t_lid := t_lid (token ?ti), t_rid := t_rid (token ?ti)\<rparr>\<rparr>"])
        (use FREQUENT_POS it2 d(4) k(1) f in \<open>simp_all add: FillPos_def stored_token_def combined_pos Let_def\<close>)
  next
    case SAME_AS_PREV_POS
    with p it2 d(10) at k(1) show ?thesis
      by (intro that [of "token_info it2"])
        (simp_all add: FillPos_def stored_token_def pos_recoverable_def at_token_def Let_def)
  qed
  have N: "NextInternal env it = Some (it2\<lparr>token_info := t3\<rparr>)"
    unfolding NextInternal_def Let_def ptr D using F P by (cases "i = length ts - 1") simp_all
  show ?thesis
    by (rule that [OF N]) (use t3 it2 k(1) in \<open>simp_all add: at_token_def stored_token_def\<close>)
qed

text \<open>All the tokens: the loop returns with fuel for one round more than there are tokens.\<close>

lemma EncodeTokensFrom_Cons:
  assumes "EncodeTokensFrom ts i = Some bs" "i < length ts"
  obtains b c where "EncodeToken ts i = Some b" "EncodeTokensFrom ts (Suc i) = Some c" "bs = b @ c"
  using assms by (subst (asm) EncodeTokensFrom.simps) (auto simp: bind_eq_Some_conv)

lemma CollectTokens_done [simp]:
  "it_state it = ITERATOR_DONE \<Longrightarrow> CollectTokens (Suc n) env it = Some []"
  by simp

lemma CollectTokens_from:
  assumes "recoverable env key ts" "i < length ts"
    and "EncodeTokensFrom ts (Suc i) = Some bs" "it_ptr it = bs @ rest" "at_token env key ts (Suc i) it"
    and "token (token_info it) = stored_token (ts ! i)"
    and "it_state it = (if i = length ts - 1 then LAST_TOKEN else HAS_NEXT)"
    and "length ts - i < n"
  shows "CollectTokens n env it = Some (map stored_token (drop i ts))"
  using assms
proof (induction "length ts - i" arbitrary: i it bs n)
  case 0
  then show ?case by simp
next
  case (Suc m)
  from Suc.prems(8) obtain n' where n: "n = Suc n'" by (cases n) auto
  show ?case
  proof (cases "i = length ts - 1")
    case True
    with Suc.prems obtain n'' where n': "n' = Suc n''" by (cases n') (auto simp: n)
    from True Suc.prems(2) have "drop i ts = [ts ! i]"
      by (metis Cons_nth_drop_Suc Suc_pred' drop_all length_greater_0_conv less_zeroE list.size(3) nle_le)
    with True Suc.prems(6,7) show ?thesis by (simp add: n n' Next_def)
  next
    case False
    with Suc.prems(2) have i': "Suc i < length ts" by simp
    from EncodeTokensFrom_Cons [OF Suc.prems(3) i'] obtain b c where
      b: "EncodeToken ts (Suc i) = Some b" "EncodeTokensFrom ts (Suc (Suc i)) = Some c" "bs = b @ c" .
    have p: "it_ptr it = b @ c @ rest" using Suc.prems(4) b(3) by simp
    from NextInternal_step [OF b(1) i' Suc.prems(1,5) p] obtain it' where
      it': "NextInternal env it = Some it'" "token (token_info it') = stored_token (ts ! Suc i)"
        "at_token env key ts (Suc (Suc i)) it'" "it_ptr it' = c @ rest"
        "it_state it' = (if Suc i = length ts - 1 then LAST_TOKEN else it_state it)" .
    have st: "it_state it = HAS_NEXT" using False Suc.prems(7) by simp
    have "CollectTokens n' env it' = Some (map stored_token (drop (Suc i) ts))"
      by (rule Suc.hyps(1) [OF _ Suc.prems(1) i' b(2) it'(4,3,2)])
        (use Suc.hyps(2) Suc.prems(8) i' it'(5) st n in auto)
    with it'(1) st Suc.prems(6) show ?thesis
      by (simp add: n Next_def Cons_nth_drop_Suc [OF Suc.prems(2), symmetric])
  qed
qed

lemma iterator_reads_back:
  assumes enc: "EncodeTokens ts = Some bs" and "ts \<noteq> []" and rec: "recoverable env key ts"
    and n: "length ts < n"
  shows "Option.bind (NewTokenDecodeIterator env key (bs @ rest)) (CollectTokens n env)
           = Some (map stored_token ts)"
proof -
  let ?it0 = "\<lparr>it_key = key, key_katakana = [], it_state = HAS_NEXT, it_ptr = bs @ rest,
       token_info = TokenInfo_init \<lparr>t_key = key, t_value = [], t_cost = 0, t_lid = 0, t_rid = 0, t_attributes = 0\<rparr>\<rparr>"
  have l: "0 < length ts" using assms(2) by simp
  from enc have e: "EncodeTokensFrom ts 0 = Some bs"
    by (auto simp: EncodeTokens_def bind_eq_Some_conv split: if_splits)
  from EncodeTokensFrom_Cons [OF e l] obtain b c where
    b: "EncodeToken ts 0 = Some b" "EncodeTokensFrom ts (Suc 0) = Some c" "bs = b @ c" .
  have p: "it_ptr ?it0 = b @ c @ rest" using b(3) by simp
  have a: "at_token env key ts 0 ?it0" by (simp add: at_token_def TokenInfo_init_def)
  from NextInternal_step [OF b(1) l rec a p] obtain it where
    it: "NextInternal env ?it0 = Some it" "token (token_info it) = stored_token (ts ! 0)"
      "at_token env key ts (Suc 0) it" "it_ptr it = c @ rest"
      "it_state it = (if 0 = length ts - 1 then LAST_TOKEN else it_state ?it0)" .
  have "CollectTokens n env it = Some (map stored_token (drop 0 ts))"
    by (rule CollectTokens_from [OF rec l b(2) it(4,3,2)]) (use it(5) n in auto)
  with it(1) show ?thesis by (simp add: NewTokenDecodeIterator_def)
qed

section \<open>The builder: system\_dictionary\_builder.cc\<close>

record KeyInfo =
  ki_key :: bytes
  ki_tokens :: "TokenInfo list"
  id_in_key_trie :: int

definition GetValueType :: "(bytes \<Rightarrow> bytes) \<Rightarrow> Token \<Rightarrow> ValueType" where
  "GetValueType h2k t =
     (if t_value t = t_key t then AS_IS_HIRAGANA
      else if t_value t = h2k (t_key t) then AS_IS_KATAKANA
      else DEFAULT_VALUE)"

text \<open>The loop of \<^verbatim>\<open>ReadTokens\<close>: \<^verbatim>\<open>last_key_info\<close> collects the tokens of one key.\<close>

definition AppendToken :: "(bytes \<Rightarrow> bytes) \<Rightarrow> Token \<Rightarrow> KeyInfo \<Rightarrow> KeyInfo" where
  "AppendToken h2k t ki =
     ki\<lparr>ki_tokens := ki_tokens ki @ [(TokenInfo_init t)\<lparr>value_type := GetValueType h2k t\<rparr>]\<rparr>"

fun GroupTokens :: "(bytes \<Rightarrow> bytes) \<Rightarrow> KeyInfo \<Rightarrow> Token list \<Rightarrow> KeyInfo list" where
  "GroupTokens h2k last_key_info [] = [last_key_info]"
| "GroupTokens h2k last_key_info (t # ts) =
     (if ki_key last_key_info \<noteq> t_key t
      then last_key_info # GroupTokens h2k
             (AppendToken h2k t \<lparr>ki_key = t_key t, ki_tokens = [], id_in_key_trie = -1\<rparr>) ts
      else GroupTokens h2k (AppendToken h2k t last_key_info) ts)"

text \<open>None is a failed check: an empty key or value. \<^verbatim>\<open>std::string\<close> orders by unsigned bytes,
  and \<^verbatim>\<open>std::stable_sort\<close> keeps the order of equal keys, as \<^const>\<open>sort_key\<close> does.\<close>

definition ReadTokens :: "(bytes \<Rightarrow> bytes) \<Rightarrow> Token list \<Rightarrow> KeyInfo list option" where
  "ReadTokens h2k tokens =
     (if \<not> list_all (\<lambda>t. t_key t \<noteq> [] \<and> t_value t \<noteq> []) tokens then None
      else let sorted = sort_key t_key tokens in
        if sorted = [] then Some []
        else Some (GroupTokens h2k \<lparr>ki_key = t_key (hd sorted), ki_tokens = [], id_in_key_trie = -1\<rparr> sorted))"

definition AllTokenInfos :: "KeyInfo list \<Rightarrow> TokenInfo list" where
  "AllTokenInfos kis = concat (map ki_tokens kis)"

definition PosOf :: "TokenInfo \<Rightarrow> 32 word" where
  "PosOf ti = GetCombinedPos (t_lid (token ti)) (t_rid (token ti))"

text \<open>\<^verbatim>\<open>BuildFrequentPos\<close>: the ordered maps are lists in the order of their keys.\<close>

definition PosMap :: "KeyInfo list \<Rightarrow> (32 word \<times> nat) list" where
  "PosMap kis = (let ps = map PosOf (AllTokenInfos kis) in
     map (\<lambda>p. (p, count_list ps p)) (sort (remdups ps)))"

definition FreqMap :: "(32 word \<times> nat) list \<Rightarrow> (nat \<times> nat) list" where
  "FreqMap pos_map = (let fs = map snd pos_map in
     map (\<lambda>f. (f, count_list fs f)) (sort (remdups fs)))"

text \<open>The loop over the reversed map: the threshold and the number of frequent positions.\<close>

fun FreqThreshold :: "(nat \<times> nat) list \<Rightarrow> nat \<Rightarrow> nat \<Rightarrow> nat \<times> nat" where
  "FreqThreshold [] threshold num = (threshold, num)"
| "FreqThreshold ((f, c) # rest) threshold num =
     (if 255 < num + c then (threshold, num) else FreqThreshold rest f (num + c))"

definition INT_MAX :: nat where "INT_MAX = 2147483647"

text \<open>The map \<^verbatim>\<open>frequent_pos_\<close> as the list of its parts of speech in the order of their indices.\<close>

definition BuildFrequentPos :: "KeyInfo list \<Rightarrow> 32 word list option" where
  "BuildFrequentPos kis =
     (let pos_map = PosMap kis in
      case FreqThreshold (rev (FreqMap pos_map)) INT_MAX 0 of
        (threshold, num) \<Rightarrow>
          let frequent = map fst (filter (\<lambda>(p, f). threshold \<le> f) pos_map) in
          if length frequent = num then Some frequent else None)"

text \<open>\<^verbatim>\<open>frequent_pos_array\<close> of \<^verbatim>\<open>WriteToStream\<close>.\<close>

definition FrequentPosArray :: "32 word list \<Rightarrow> 32 word list" where
  "FrequentPosArray frequent = frequent @ replicate (256 - length frequent) 0"

definition SetIdForValue :: "(bytes \<Rightarrow> int) \<Rightarrow> KeyInfo \<Rightarrow> KeyInfo" where
  "SetIdForValue get_id ki = ki\<lparr>ki_tokens :=
     map (\<lambda>ti. ti\<lparr>id_in_value_trie := get_id (EncodeValue (t_value (token ti)))\<rparr>) (ki_tokens ki)\<rparr>"

definition SetIdForKey :: "(bytes \<Rightarrow> int) \<Rightarrow> KeyInfo \<Rightarrow> KeyInfo" where
  "SetIdForKey get_id ki = ki\<lparr>id_in_key_trie := get_id (EncodeKey (ki_key ki))\<rparr>"

definition SortTokenInfo :: "KeyInfo \<Rightarrow> KeyInfo" where
  "SortTokenInfo ki = ki\<lparr>ki_tokens :=
     sort_key (\<lambda>ti. (- uint (t_lid (token ti)), - uint (t_rid (token ti)), id_in_value_trie ti,
                     t_attributes (token ti))) (ki_tokens ki)\<rparr>"

definition HasHomonymsInSamePos :: "KeyInfo \<Rightarrow> bool" where
  "HasHomonymsInSamePos ki =
     (if length (ki_tokens ki) = 1 then False else \<not> distinct (map PosOf (ki_tokens ki)))"

definition HasHeterophones :: "bytes set \<Rightarrow> KeyInfo \<Rightarrow> bool" where
  "HasHeterophones heteronym_values ki =
     list_ex (\<lambda>ti. t_value (token ti) \<in> heteronym_values) (ki_tokens ki)"

definition HeterophoneStep :: "Token \<Rightarrow> bytes set \<times> (bytes \<rightharpoonup> bytes) \<Rightarrow> bytes set \<times> (bytes \<rightharpoonup> bytes)" where
  "HeterophoneStep t s = (case s of (heterophones, seen) \<Rightarrow>
     if t_value t \<in> heterophones then s
     else case seen (t_value t) of
       None \<Rightarrow> (heterophones, seen(t_value t \<mapsto> t_key t))
     | Some k \<Rightarrow> if k = t_key t then s else (insert (t_value t) heterophones, seen))"

definition HeterophoneValues :: "KeyInfo list \<Rightarrow> bytes set" where
  "HeterophoneValues kis = fst (fold HeterophoneStep (map token (AllTokenInfos kis)) ({}, Map.empty))"

definition SetCostTypeOf :: "nat \<Rightarrow> bytes set \<Rightarrow> KeyInfo \<Rightarrow> KeyInfo" where
  "SetCostTypeOf min_key_len heterophones ki =
     (if CharsLen (ki_key ki) < min_key_len then ki
      else if HasHomonymsInSamePos ki then ki
      else if HasHeterophones heterophones ki then ki
      else ki\<lparr>ki_tokens := map (\<lambda>ti. if t_cost (token ti) < 0x100 then ti
                                      else ti\<lparr>cost_type := CAN_USE_SMALL_ENCODING\<rparr>) (ki_tokens ki)\<rparr>)"

definition SetCostType :: "nat \<Rightarrow> KeyInfo list \<Rightarrow> KeyInfo list" where
  "SetCostType min_key_len kis = map (SetCostTypeOf min_key_len (HeterophoneValues kis)) kis"

text \<open>The loops of \<^verbatim>\<open>SetPosType\<close> and \<^verbatim>\<open>SetValueType\<close> over the tokens of one key, with the token
  before. The tokens themselves do not change.\<close>

definition PosTypeOf :: "32 word list \<Rightarrow> TokenInfo option \<Rightarrow> TokenInfo \<Rightarrow> TokenInfo" where
  "PosTypeOf frequent prev ti =
     (let pos = PosOf ti;
          ti1 = (case find_byte pos frequent of
                   Some i \<Rightarrow> ti\<lparr>pos_type := FREQUENT_POS, id_in_frequent_pos_map := int i\<rparr>
                 | None \<Rightarrow> ti)
      in case prev of
           Some p \<Rightarrow> if PosOf p = pos then ti1\<lparr>pos_type := SAME_AS_PREV_POS\<rparr> else ti1
         | None \<Rightarrow> ti1)"

fun SetPosTypes :: "32 word list \<Rightarrow> TokenInfo option \<Rightarrow> TokenInfo list \<Rightarrow> TokenInfo list" where
  "SetPosTypes frequent prev [] = []"
| "SetPosTypes frequent prev (ti # ts) = PosTypeOf frequent prev ti # SetPosTypes frequent (Some ti) ts"

definition SetPosType :: "32 word list \<Rightarrow> KeyInfo \<Rightarrow> KeyInfo" where
  "SetPosType frequent ki = ki\<lparr>ki_tokens := SetPosTypes frequent None (ki_tokens ki)\<rparr>"

definition ValueTypeOf :: "TokenInfo option \<Rightarrow> TokenInfo \<Rightarrow> TokenInfo" where
  "ValueTypeOf prev ti =
     (case prev of
        None \<Rightarrow> ti
      | Some p \<Rightarrow>
          if value_type ti \<noteq> AS_IS_HIRAGANA \<and> value_type ti \<noteq> AS_IS_KATAKANA
             \<and> t_value (token ti) = t_value (token p)
          then ti\<lparr>value_type := SAME_AS_PREV_VALUE\<rparr> else ti)"

fun SetValueTypes :: "TokenInfo option \<Rightarrow> TokenInfo list \<Rightarrow> TokenInfo list" where
  "SetValueTypes prev [] = []"
| "SetValueTypes prev (ti # ts) = ValueTypeOf prev ti # SetValueTypes (Some ti) ts"

definition SetValueType :: "KeyInfo \<Rightarrow> KeyInfo" where
  "SetValueType ki = ki\<lparr>ki_tokens := SetValueTypes None (ki_tokens ki)\<rparr>"

text \<open>\<^verbatim>\<open>BuildValueTrie\<close>: the values added to the value trie builder.\<close>

definition BuildValueTrie :: "KeyInfo list \<Rightarrow> bytes list" where
  "BuildValueTrie kis =
     map (\<lambda>ti. EncodeValue (t_value (token ti)))
       (filter (\<lambda>ti. \<not> (value_type ti = AS_IS_HIRAGANA \<or> value_type ti = AS_IS_KATAKANA)) (AllTokenInfos kis))"

definition BuildKeyTrie :: "KeyInfo list \<Rightarrow> bytes list" where
  "BuildKeyTrie kis = map (\<lambda>ki. EncodeKey (ki_key ki)) kis"

text \<open>
  \<^verbatim>\<open>BuildFromTokensInternal\<close> before the token array: the key infos and the frequent parts of
  speech, and the strings added to the value trie. \<^verbatim>\<open>build_trie\<close> stands for the construction of a trie from the strings added to its
  builder, and gives its \<^verbatim>\<open>GetId\<close>.
\<close>

definition BuildKeyInfos :: "(bytes \<Rightarrow> bytes) \<Rightarrow> (bytes list \<Rightarrow> bytes \<Rightarrow> int) \<Rightarrow> nat \<Rightarrow> Token list
    \<Rightarrow> (KeyInfo list \<times> 32 word list \<times> bytes list) option" where
  "BuildKeyInfos h2k build_trie min_key_len tokens = do {
     kis \<leftarrow> ReadTokens h2k tokens;
     frequent \<leftarrow> BuildFrequentPos kis;
     let values = BuildValueTrie kis;
     let kis = map (SetIdForValue (build_trie values)) kis;
     let kis = map (SetIdForKey (build_trie (BuildKeyTrie kis))) kis;
     let kis = map SortTokenInfo kis;
     let kis = SetCostType min_key_len kis;
     let kis = map (SetPosType frequent) kis;
     let kis = map SetValueType kis;
     Some (kis, frequent, values) }"

text \<open>\<^verbatim>\<open>BuildTokenArray\<close>: the elements added to the array builder, in the order of the key ids. A
  key id out of range is an out-of-bounds write and a gap a null pointer.\<close>

fun FillIdTable :: "KeyInfo list \<Rightarrow> KeyInfo option list \<Rightarrow> KeyInfo option list option" where
  "FillIdTable [] table = Some table"
| "FillIdTable (ki # kis) table =
     (if 0 \<le> id_in_key_trie ki \<and> nat (id_in_key_trie ki) < length table
      then FillIdTable kis (table[nat (id_in_key_trie ki) := Some ki]) else None)"

fun EncodeTable :: "KeyInfo option list \<Rightarrow> bytes list option" where
  "EncodeTable [] = Some []"
| "EncodeTable (e # es) = do { ki \<leftarrow> e; bs \<leftarrow> EncodeTokens (ki_tokens ki); rest \<leftarrow> EncodeTable es; Some (bs # rest) }"

definition BuildTokenArray :: "KeyInfo list \<Rightarrow> bytes list option" where
  "BuildTokenArray kis = do {
     table \<leftarrow> FillIdTable kis (replicate (length kis) None);
     elements \<leftarrow> EncodeTable table;
     Some (elements @ [[kTokenTerminationFlag]]) }"

section \<open>Frequent parts of speech\<close>

lemma FreqThreshold_bound: "num \<le> 255 \<Longrightarrow> snd (FreqThreshold fm thr num) \<le> 255"
  by (induction fm thr num rule: FreqThreshold.induct) auto

lemma FreqThreshold_split:
  obtains a b where "fm = a @ b" "snd (FreqThreshold fm thr num) = num + sum_list (map snd a)"
    "fst (FreqThreshold fm thr num) = (if a = [] then thr else fst (last a))"
proof (induction fm thr num arbitrary: thesis rule: FreqThreshold.induct)
  case (1 thr num)
  show ?case by (rule 1 [of "[]" "[]"]) simp_all
next
  case (2 f c rest thr num)
  show ?case
  proof (cases "255 < num + c")
    case True
    then show ?thesis by (intro "2.prems" [of "[]"]) simp_all
  next
    case False
    from "2.IH" [OF False] obtain a b where "rest = a @ b"
      "snd (FreqThreshold rest f (num + c)) = num + c + sum_list (map snd a)"
      "fst (FreqThreshold rest f (num + c)) = (if a = [] then f else fst (last a))" by blast
    with False show ?thesis by (intro "2.prems" [of "(f, c) # a" b]) simp_all
  qed
qed

lemma sum_count_list:
  "distinct fs \<Longrightarrow> (\<Sum>f\<leftarrow>fs. count_list xs f) = length (filter (\<lambda>x. x \<in> set fs) xs)"
proof (induction fs)
  case (Cons f fs)
  have c: "count_list xs f = length (filter ((=) f) xs)" by (simp add: count_list_eq_length_filter)
  have "length (filter (\<lambda>x. x = f \<or> x \<in> set fs) xs)
      = length (filter ((=) f) xs) + length (filter (\<lambda>x. x \<in> set fs) xs)"
    using Cons.prems by (induction xs) auto
  with Cons c show ?case by simp
qed simp

lemma count_list_lt: "count_list xs x \<le> length xs"
  by (rule count_le_length)

lemma BuildFrequentPos_total:
  assumes "length (AllTokenInfos kis) < INT_MAX"
  shows "\<exists>frequent. BuildFrequentPos kis = Some frequent"
proof -
  let ?pm = "PosMap kis" and ?fm = "rev (FreqMap (PosMap kis))"
  let ?fs = "map snd ?pm"
  obtain a b where ab: "?fm = a @ b"
    and num: "snd (FreqThreshold ?fm INT_MAX 0) = 0 + sum_list (map snd a)"
    and thr: "fst (FreqThreshold ?fm INT_MAX 0) = (if a = [] then INT_MAX else fst (last a))"
    by (rule FreqThreshold_split)
  let ?thr = "if a = [] then INT_MAX else fst (last a)"
  have fst_fm: "map fst ?fm = rev (sort (remdups ?fs))" by (simp add: FreqMap_def Let_def rev_map comp_def)
  have "sorted_wrt (\<lambda>x y. x \<le> y) (sort (remdups ?fs))" by simp
  then have "sorted_wrt (<) (sort (remdups ?fs))"
    by (simp add: strict_sorted_iff)
  then have dec: "sorted_wrt (\<lambda>x y. y < x) (map fst ?fm)"
    unfolding fst_fm by (simp add: sorted_wrt_rev)
  have snd_a: "map snd a = map (count_list ?fs) (map fst a)"
  proof -
    have "\<forall>e \<in> set ?fm. snd e = count_list ?fs (fst e)" by (auto simp: FreqMap_def Let_def)
    then show ?thesis unfolding ab by simp
  qed
  have dist: "distinct (map fst a)"
  proof -
    have "distinct (map fst ?fm)" unfolding fst_fm by simp
    then show ?thesis unfolding ab by simp
  qed
  have mem: "f \<in> set (map fst a) \<longleftrightarrow> ?thr \<le> f" if f: "f \<in> set ?fs" for f
  proof (cases "a = []")
    case True
    from f obtain p where "(p, f) \<in> set ?pm" by auto
    then have "f = count_list (map PosOf (AllTokenInfos kis)) p" by (auto simp: PosMap_def Let_def)
    then have "f \<le> length (AllTokenInfos kis)"
      using count_list_lt [of "map PosOf (AllTokenInfos kis)" p] by simp
    with assms True show ?thesis by simp
  next
    case False
    then obtain a' l where a: "a = a' @ [l]" by (metis rev_exhaust)
    have "set (map fst ?fm) = set ?fs" unfolding fst_fm by simp
    with f have "f \<in> set (map fst a) \<or> f \<in> set (map fst b)" unfolding ab by auto
    moreover have "\<forall>x \<in> set (map fst a). fst l \<le> x" "\<forall>x \<in> set (map fst b). x < fst l"
      using dec unfolding ab a by (auto simp: sorted_wrt_append dest: less_imp_le)
    ultimately show ?thesis unfolding a by force
  qed
  have "length (map fst (filter (\<lambda>(p, f). ?thr \<le> f) ?pm)) = length (filter (\<lambda>f. ?thr \<le> f) ?fs)"
    by (simp add: filter_map comp_def case_prod_unfold)
  also have "\<dots> = length (filter (\<lambda>f. f \<in> set (map fst a)) ?fs)"
    using mem by (metis (no_types, lifting) filter_cong)
  also have "\<dots> = sum_list (map snd a)"
    unfolding snd_a using sum_count_list [OF dist] by (simp add: comp_def)
  finally show ?thesis
    using num thr unfolding BuildFrequentPos_def Let_def by (auto split: prod.splits)
qed

lemma BuildFrequentPos_props:
  assumes "BuildFrequentPos kis = Some frequent"
  shows "distinct frequent" "length frequent \<le> 255"
proof -
  have d: "distinct (map fst (PosMap kis))" by (simp add: PosMap_def Let_def comp_def)
  then show "distinct frequent"
    using assms unfolding BuildFrequentPos_def Let_def
    by (auto split: prod.splits if_splits intro: distinct_map_filter)
  show "length frequent \<le> 255"
    using assms FreqThreshold_bound [of 0 "rev (FreqMap (PosMap kis))" INT_MAX]
    unfolding BuildFrequentPos_def Let_def by (auto split: prod.splits if_splits)
qed


section \<open>Grouping by key\<close>

definition fresh :: "(bytes \<Rightarrow> bytes) \<Rightarrow> TokenInfo \<Rightarrow> bool" where
  "fresh h2k ti \<longleftrightarrow> ti = (TokenInfo_init (token ti))\<lparr>value_type := GetValueType h2k (token ti)\<rparr>"

definition group_ok :: "(bytes \<Rightarrow> bytes) \<Rightarrow> KeyInfo \<Rightarrow> bool" where
  "group_ok h2k ki \<longleftrightarrow> (\<forall>ti \<in> set (ki_tokens ki). t_key (token ti) = ki_key ki \<and> fresh h2k ti)"

lemma AppendToken_simps [simp]:
  "ki_key (AppendToken h2k t ki) = ki_key ki"
  "map token (ki_tokens (AppendToken h2k t ki)) = map token (ki_tokens ki) @ [t]"
  "ki_tokens (AppendToken h2k t ki) \<noteq> []"
  by (simp_all add: AppendToken_def TokenInfo_init_def)

lemma token_init [simp]: "token (TokenInfo_init t) = t"
  by (simp add: TokenInfo_init_def)

lemma fresh_init: "fresh h2k ((TokenInfo_init t)\<lparr>value_type := GetValueType h2k t\<rparr>)"
  by (simp add: fresh_def TokenInfo_init_def)

lemma AppendToken_group_ok:
  "group_ok h2k ki \<Longrightarrow> t_key t = ki_key ki \<Longrightarrow> group_ok h2k (AppendToken h2k t ki)"
  using fresh_init [of h2k t] by (simp add: group_ok_def AppendToken_def token_init)

lemma GroupTokens_tokens:
  "map token (AllTokenInfos (GroupTokens h2k ki ts)) = map token (ki_tokens ki) @ ts"
  by (induction h2k ki ts rule: GroupTokens.induct) (simp_all add: AllTokenInfos_def)

lemma GroupTokens_ok:
  assumes "group_ok h2k ki" and "ki_tokens ki \<noteq> [] \<or> (ts \<noteq> [] \<and> t_key (hd ts) = ki_key ki)"
  shows "\<forall>k \<in> set (GroupTokens h2k ki ts). group_ok h2k k \<and> ki_tokens k \<noteq> []"
  using assms
proof (induction h2k ki ts rule: GroupTokens.induct)
  case (2 h2k ki t ts)
  show ?case
  proof (cases "ki_key ki = t_key t")
    case True
    have g: "group_ok h2k (AppendToken h2k t ki)"
      by (rule AppendToken_group_ok [OF "2.prems"(1)]) (simp only: True)
    have "\<forall>k \<in> set (GroupTokens h2k (AppendToken h2k t ki) ts). group_ok h2k k \<and> ki_tokens k \<noteq> []"
      by (rule "2.IH"(2)) (use True g in simp_all)
    then show ?thesis by (simp add: True)
  next
    case False
    let ?new = "AppendToken h2k t \<lparr>ki_key = t_key t, ki_tokens = [], id_in_key_trie = -1\<rparr>"
    have g: "group_ok h2k ?new"
      by (rule AppendToken_group_ok) (simp_all add: group_ok_def)
    have "\<forall>k \<in> set (GroupTokens h2k ?new ts). group_ok h2k k \<and> ki_tokens k \<noteq> []"
      by (rule "2.IH"(1)) (use False g in simp_all)
    moreover have "ki_tokens ki \<noteq> []" using "2.prems"(2) False by simp
    ultimately show ?thesis using False "2.prems"(1) by simp
  qed
qed simp

lemma GroupTokens_hd: "ki_key (hd (GroupTokens h2k ki ts)) = ki_key ki \<and> GroupTokens h2k ki ts \<noteq> []"
  by (induction h2k ki ts rule: GroupTokens.induct) simp_all

lemma GroupTokens_sorted:
  assumes "sorted (map t_key ts)" "\<forall>t \<in> set ts. ki_key ki \<le> t_key t"
  shows "sorted_wrt (<) (map ki_key (GroupTokens h2k ki ts)) \<and> (\<forall>k \<in> set (GroupTokens h2k ki ts). ki_key ki \<le> ki_key k)"
  using assms
proof (induction h2k ki ts rule: GroupTokens.induct)
  case (2 h2k ki t ts)
  show ?case
  proof (cases "ki_key ki = t_key t")
    case True
    with 2 show ?thesis by simp
  next
    case False
    let ?new = "AppendToken h2k t \<lparr>ki_key = t_key t, ki_tokens = [], id_in_key_trie = -1\<rparr>"
    from 2 False have IH: "sorted_wrt (<) (map ki_key (GroupTokens h2k ?new ts))"
      "\<forall>k \<in> set (GroupTokens h2k ?new ts). t_key t \<le> ki_key k" by simp_all
    have lt: "ki_key ki < t_key t" using False 2(4) by (simp add: order_less_le)
    with IH(2) have "\<forall>k \<in> set (GroupTokens h2k ?new ts). ki_key ki < ki_key k" by (meson order_less_le_trans)
    with False IH(1) show ?thesis by (auto intro: less_imp_le)
  qed
qed simp

lemma ReadTokens_props:
  assumes "ReadTokens h2k tokens = Some kis"
  shows "map token (AllTokenInfos kis) = sort_key t_key tokens"
    "\<forall>k \<in> set kis. group_ok h2k k \<and> ki_tokens k \<noteq> []"
    "sorted_wrt (<) (map ki_key kis)"
    "\<forall>t \<in> set tokens. t_key t \<noteq> [] \<and> t_value t \<noteq> []"
proof -
  let ?s = "sort_key t_key tokens"
  let ?k0 = "\<lparr>ki_key = t_key (hd ?s), ki_tokens = [], id_in_key_trie = -1\<rparr>"
  from assms have k: "kis = (if ?s = [] then [] else GroupTokens h2k ?k0 ?s)"
    and ne: "list_all (\<lambda>t. t_key t \<noteq> [] \<and> t_value t \<noteq> []) tokens"
    by (auto simp: ReadTokens_def Let_def split: if_splits)
  show "\<forall>t \<in> set tokens. t_key t \<noteq> [] \<and> t_value t \<noteq> []" using ne by (simp add: list_all_iff)
  show "map token (AllTokenInfos kis) = ?s"
    unfolding k using GroupTokens_tokens [of h2k ?k0 ?s] by (auto simp: AllTokenInfos_def)
  show "\<forall>k \<in> set kis. group_ok h2k k \<and> ki_tokens k \<noteq> []"
    unfolding k using GroupTokens_ok [of h2k ?k0 ?s] by (simp add: group_ok_def)
  show "sorted_wrt (<) (map ki_key kis)"
  proof (cases "?s = []")
    case False
    then have "\<forall>t \<in> set ?s. t_key (hd ?s) \<le> t_key t"
      using sorted_sort_key [of t_key tokens] by (cases ?s) auto
    with False GroupTokens_sorted [of ?s ?k0 h2k] show ?thesis unfolding k by simp
  qed (simp add: k)
qed

section \<open>The passes keep the tokens\<close>

lemma length_SetPosTypes [simp]: "length (SetPosTypes f p ts) = length ts"
  by (induction f p ts rule: SetPosTypes.induct) simp_all

lemma length_SetValueTypes [simp]: "length (SetValueTypes p ts) = length ts"
  by (induction p ts rule: SetValueTypes.induct) simp_all

lemma nth_SetPosTypes:
  "i < length ts \<Longrightarrow> SetPosTypes f p ts ! i = PosTypeOf f (if i = 0 then p else Some (ts ! (i - 1))) (ts ! i)"
proof (induction f p ts arbitrary: i rule: SetPosTypes.induct)
  case (2 f p t ts)
  then show ?case by (cases i) (auto simp: nth_Cons split: nat.splits)
qed simp

lemma nth_SetValueTypes:
  "i < length ts \<Longrightarrow> SetValueTypes p ts ! i = ValueTypeOf (if i = 0 then p else Some (ts ! (i - 1))) (ts ! i)"
proof (induction p ts arbitrary: i rule: SetValueTypes.induct)
  case (2 p t ts)
  then show ?case by (cases i) (auto simp: nth_Cons split: nat.splits)
qed simp

lemma token_PosTypeOf [simp]: "token (PosTypeOf f p ti) = token ti"
  by (simp add: PosTypeOf_def Let_def split: option.split)

lemma token_ValueTypeOf [simp]: "token (ValueTypeOf p ti) = token ti"
  by (simp add: ValueTypeOf_def split: option.split)

lemma map_token_passes [simp]:
  "map token (SetPosTypes f p ts) = map token ts" "map token (SetValueTypes q ts) = map token ts"
  "map token (ki_tokens (SetIdForValue g ki)) = map token (ki_tokens ki)"
  "ki_tokens (SetIdForKey g ki) = ki_tokens ki"
  "map token (ki_tokens (SetCostTypeOf m h ki)) = map token (ki_tokens ki)"
  by (simp_all add: list_eq_iff_nth_eq nth_SetPosTypes nth_SetValueTypes SetIdForValue_def SetIdForKey_def
      SetCostTypeOf_def comp_def)

lemma ki_key_passes [simp]:
  "ki_key (SetIdForValue g ki) = ki_key ki" "ki_key (SetIdForKey g ki) = ki_key ki"
  "ki_key (SortTokenInfo ki) = ki_key ki" "ki_key (SetCostTypeOf m h ki) = ki_key ki"
  "ki_key (SetPosType f ki) = ki_key ki" "ki_key (SetValueType ki) = ki_key ki"
  by (simp_all add: SetIdForValue_def SetIdForKey_def SortTokenInfo_def SetCostTypeOf_def SetPosType_def
      SetValueType_def)

section \<open>The encoder accepts the key infos, and the iterator reads them back\<close>

lemma EncodeTokensFrom_Some:
  assumes "\<forall>j. i \<le> j \<and> j < length ts \<longrightarrow> EncodeToken ts j \<noteq> None"
  shows "EncodeTokensFrom ts i \<noteq> None"
  using assms
proof (induction ts i rule: EncodeTokensFrom.induct)
  case (1 ts i)
  show ?case
  proof (cases "i < length ts")
    case True
    then have "EncodeToken ts i \<noteq> None" using "1.prems" by simp
    moreover have "EncodeTokensFrom ts (i + 1) \<noteq> None" using "1.IH" True "1.prems" calculation by auto
    ultimately show ?thesis using True by (subst EncodeTokensFrom.simps) auto
  qed (simp add: EncodeTokensFrom.simps)
qed

text \<open>The values every check of the encoder accepts.\<close>

definition encodable_token :: "TokenInfo list \<Rightarrow> nat \<Rightarrow> bool" where
  "encodable_token ts i \<longleftrightarrow>
     (let ti = ts ! i in
      t_lid (token ti) \<le> kPosMax \<and> t_rid (token ti) \<le> kPosMax \<and> t_cost (token ti) \<le> kCostMax
      \<and> (pos_type ti = FREQUENT_POS \<longrightarrow> 0 \<le> id_in_frequent_pos_map ti)
      \<and> (i = 0 \<longrightarrow> pos_type ti \<noteq> SAME_AS_PREV_POS \<and> value_type ti \<noteq> SAME_AS_PREV_VALUE)
      \<and> (value_type ti = DEFAULT_VALUE \<longrightarrow> 0 \<le> id_in_value_trie ti \<and> id_in_value_trie ti < 0x3f0000))"

lemma EncodeToken_Some:
  assumes e: "encodable_token ts i" and i: "i < length ts"
  shows "EncodeToken ts i \<noteq> None"
proof -
  let ?ti = "ts ! i"
  have "GetFlagsForToken ts i \<noteq> None"
  proof -
    have mem: "last_flag ts i \<in> {0, 0x80}" "(if is_correction ?ti then 0x10 else 0) \<in> {0, 0x10 :: byte}"
      "pos_flag_of ?ti \<in> {0, 4, 8, 0xc}" "GetFlagForValue ?ti \<in> {0, 1, 2, 3}"
      by (auto simp: last_flag_def pos_flag_of_def GetFlagForValue_def split: PosType.splits)
    note fb = flag_bits [OF mem]
    have pf: "GetFlagForPos ?ti = Some (pos_flag_of ?ti)"
      using e by (auto simp: encodable_token_def GetFlagForPos_def pos_flag_of_def Let_def split: PosType.splits)
    have s: "(if t_attributes (token ?ti) AND SPELLING_CORRECTION \<noteq> 0
             then (if i = length ts - 1 then kLastTokenFlag else 0) OR kSpellingCorrectionFlag
             else (if i = length ts - 1 then kLastTokenFlag else 0))
        = last_flag ts i OR (if is_correction ?ti then 0x10 else 0)"
      by (simp add: last_flag_def is_correction_def)
    have n: "i = 0 \<Longrightarrow> pos_flag_of ?ti \<noteq> 0xc" "i = 0 \<Longrightarrow> GetFlagForValue ?ti \<noteq> 3"
      using e by (auto simp: encodable_token_def pos_flag_of_def GetFlagForValue_def Let_def split: PosType.splits)
    have g: "\<not> (i = 0 \<and> ((last_flag ts i OR (if is_correction ?ti then 0x10 else 0)) OR pos_flag_of ?ti) AND kPosTypeFlagMask = kSameAsPrevPosFlag)"
      "\<not> (i = 0 \<and> (((last_flag ts i OR (if is_correction ?ti then 0x10 else 0)) OR pos_flag_of ?ti) OR GetFlagForValue ?ti) AND kValueTypeFlagMask = kSameAsPrevValueFlag)"
      using n by (auto simp only: fb)
    show ?thesis
      unfolding GetFlagsForToken_def Let_def s pf option.simps if_not_P [OF g(1)] if_not_P [OF g(2)] by simp
  qed
  then obtain f where f: "GetFlagsForToken ts i = Some f" by blast
  note fb = GetFlagsForToken_bits [OF f]
  obtain d1 where d1: "EncodePos ?ti f [f] = Some d1" "length d1 \<le> 4"
    using e fb(1) by (auto simp: EncodePos_def pos_flag_of_def encodable_token_def Let_def split: PosType.splits if_splits)
  obtain d2 where d2: "EncodeCost ?ti d1 = Some d2" "length d2 \<le> 6"
    using e d1(2) by (cases "cost_type ?ti") (auto simp: EncodeCost_def encodable_token_def Let_def)
  have id: "f AND 3 = 0 \<Longrightarrow> \<not> kValueTrieIdMax < (word_of_int (id_in_value_trie ?ti) :: 32 word)"
  proof -
    assume "f AND 3 = 0"
    then have "value_type ?ti = DEFAULT_VALUE" using fb(2) by (auto simp: GetFlagForValue_simps split: ValueType.splits)
    then have r: "0 \<le> id_in_value_trie ?ti" "id_in_value_trie ?ti < 0x3f0000"
      using e by (simp_all add: encodable_token_def Let_def)
    then have "uint (word_of_int (id_in_value_trie ?ti) :: 32 word) = id_in_value_trie ?ti"
      by (simp add: uint_word_of_int_eq take_bit_int_eq_self)
    with r show ?thesis by (simp add: word_less_def)
  qed
  obtain d3 where d3: "EncodeValueInfo ?ti f d2 = Some d3" "length d3 \<le> 9"
    using d2(2) id by (cases "f AND 3 = 0"; cases "f AND 0x40 = 0") (auto simp: EncodeValueInfo_def Let_def)
  show ?thesis using i f d1(1) d2(1) d3 by (simp add: EncodeToken_def Let_def)
qed

text \<open>The first byte of a key with several tokens has no last-token bit.\<close>

lemma hd_EncodeToken_not_last:
  assumes "EncodeToken ts i = Some bs" "i \<noteq> length ts - 1"
  shows "hd bs \<noteq> 0xff"
proof -
  let ?ti = "ts ! i"
  from assms(1) obtain f d1 d2 where
    f: "GetFlagsForToken ts i = Some f" and e1: "EncodePos ?ti f [f] = Some d1"
    and e2: "EncodeCost ?ti d1 = Some d2" and e3: "EncodeValueInfo ?ti f d2 = Some bs"
    by (auto simp: EncodeToken_def bind_eq_Some_conv Let_def split: if_splits)
  have h2: "d2 \<noteq> []" "d2 ! 0 = f"
    using e1 e2 by (auto simp: EncodePos_def EncodeCost_def Let_def nth_append split: if_splits)
  have f80: "f AND 0x80 = 0" using GetFlagsForToken_bits(4) [OF f] assms(2) by (simp add: last_flag_def)
  obtain x where hd: "hd bs = f OR (x AND 0x3f)"
  proof (cases "f AND 3 = 0 \<and> f AND 0x40 \<noteq> 0")
    case True
    with e3 h2 show ?thesis
      by (intro that [of "ucast (drop_bit 16 (word_of_int (id_in_value_trie ?ti) :: 32 word))"])
        (auto simp: EncodeValueInfo_def Let_def hd_append hd_conv_nth split: if_splits)
  next
    case False
    with e3 h2 show ?thesis
      by (intro that [of 0]) (auto simp: EncodeValueInfo_def Let_def hd_append hd_conv_nth split: if_splits)
  qed
  have "x AND (0x3f AND 0x80) = (0 :: byte)" by simp
  then have "hd bs AND 0x80 = 0"
    unfolding hd bit.conj_disj_distrib2 f80 by (simp add: and.assoc)
  then show ?thesis by auto
qed

lemma EncodeTokens_Some:
  assumes "ts \<noteq> []" and e: "\<forall>i < length ts. encodable_token ts i \<and> wf_token_info (ts ! i)"
  shows "\<exists>bs. EncodeTokens ts = Some bs"
proof -
  have "EncodeTokensFrom ts 0 \<noteq> None"
    using e EncodeToken_Some by (intro EncodeTokensFrom_Some) auto
  then obtain bs where bs: "EncodeTokensFrom ts 0 = Some bs" by blast
  have l: "0 < length ts" using assms(1) by simp
  from EncodeTokensFrom_Cons [OF bs l] obtain b c where
    b: "EncodeToken ts 0 = Some b" "bs = b @ c" .
  have ne: "b \<noteq> []" using EncodeToken_length [OF b(1)] by auto
  show ?thesis
  proof (cases "length ts = 1")
    case False
    then have "0 \<noteq> length ts - 1" using l by linarith
    then have "hd b \<noteq> 0xff" by (rule hd_EncodeToken_not_last [OF b(1)])
    then show ?thesis using bs b(2) ne by (simp add: EncodeTokens_def)
  next
    case True
    then obtain ti where ts: "ts = [ti]" by (cases ts) auto
    have w: "wf_token_info ti" and en: "encodable_token [ti] 0" using e ts by auto
    have "EncodeTokens [ti] \<noteq> None"
      using EncodeTokens_single [OF b(1) [unfolded ts] w] en by (auto simp: encodable_token_def Let_def)
    then show ?thesis using ts by simp
  qed
qed

text \<open>What the passes before \<^verbatim>\<open>SetPosType\<close> have made of the tokens of one key.\<close>

definition prepared :: "(bytes \<Rightarrow> bytes) \<Rightarrow> (bytes \<Rightarrow> int) \<Rightarrow> bytes \<Rightarrow> TokenInfo \<Rightarrow> bool" where
  "prepared h2k get_id key ti \<longleftrightarrow> t_key (token ti) = key \<and> value_type ti = GetValueType h2k (token ti)
     \<and> pos_type ti = DEFAULT_POS \<and> id_in_value_trie ti = get_id (EncodeValue (t_value (token ti)))"

lemma fresh_fields:
  assumes "fresh h2k ti"
  shows "value_type ti = GetValueType h2k (token ti)" "pos_type ti = DEFAULT_POS"
  by (subst assms [unfolded fresh_def], simp add: TokenInfo_init_def)+

lemma prepared_passes:
  assumes "group_ok h2k k"
  shows "\<forall>ti \<in> set (ki_tokens (SetCostTypeOf m h (SortTokenInfo (SetIdForKey kid (SetIdForValue get_id k))))).
    prepared h2k get_id (ki_key k) ti"
  using assms fresh_fields
  by (auto simp: group_ok_def SetCostTypeOf_def SortTokenInfo_def SetIdForKey_def SetIdForValue_def prepared_def)

text \<open>The conditions on the input: what the text dictionary has to satisfy.\<close>

definition input_token :: "Token \<Rightarrow> bool" where
  "input_token t \<longleftrightarrow> t_lid t \<le> kPosMax \<and> t_rid t \<le> kPosMax \<and> 0 \<le> t_cost t \<and> t_cost t \<le> kCostMax
     \<and> unicode_string (t_value t)"

lemma PosTypeOf_cases:
  assumes "pos_type x = DEFAULT_POS"
  shows "pos_type (PosTypeOf frequent q x) = FREQUENT_POS \<Longrightarrow>
      \<exists>j. id_in_frequent_pos_map (PosTypeOf frequent q x) = int j \<and> j < length frequent \<and> frequent ! j = PosOf x"
    "pos_type (PosTypeOf frequent q x) = SAME_AS_PREV_POS \<Longrightarrow> \<exists>p. q = Some p \<and> PosOf p = PosOf x"
proof -
  consider "find_byte (PosOf x) frequent = None" | j where "find_byte (PosOf x) frequent = Some j" by blast
  note cs = this
  show "pos_type (PosTypeOf frequent q x) = FREQUENT_POS \<Longrightarrow>
      \<exists>j. id_in_frequent_pos_map (PosTypeOf frequent q x) = int j \<and> j < length frequent \<and> frequent ! j = PosOf x"
    using cs
  proof cases
    case 2
    assume "pos_type (PosTypeOf frequent q x) = FREQUENT_POS"
    then have "id_in_frequent_pos_map (PosTypeOf frequent q x) = int j"
      using 2 by (auto simp: PosTypeOf_def Let_def split: option.splits if_splits)
    with find_byte_Some [OF 2] show ?thesis by blast
  qed (use assms in \<open>simp del: find_byte_None add: PosTypeOf_def Let_def split: option.splits if_splits\<close>)
  show "pos_type (PosTypeOf frequent q x) = SAME_AS_PREV_POS \<Longrightarrow> \<exists>p. q = Some p \<and> PosOf p = PosOf x"
    using cs assms by cases (simp_all del: find_byte_None add: PosTypeOf_def Let_def split: option.splits if_splits)
qed

lemma final_token:
  fixes frequent :: "32 word list"
  assumes i: "i < length ts"
    and p: "\<forall>ti \<in> set ts. prepared h2k get_id key ti"
  defines "f \<equiv> SetValueTypes None (SetPosTypes frequent None ts) ! i"
  shows "token f = token (ts ! i)" "id_in_value_trie f = id_in_value_trie (ts ! i)"
    "pos_type f = FREQUENT_POS \<Longrightarrow> \<exists>j. id_in_frequent_pos_map f = int j \<and> j < length frequent \<and> frequent ! j = PosOf (ts ! i)"
    "pos_type f = SAME_AS_PREV_POS \<Longrightarrow> 0 < i \<and> PosOf (ts ! (i - 1)) = PosOf (ts ! i)"
    "value_type f = SAME_AS_PREV_VALUE \<Longrightarrow> 0 < i \<and> t_value (token (ts ! (i - 1))) = t_value (token (ts ! i))"
    "value_type f \<noteq> SAME_AS_PREV_VALUE \<Longrightarrow> value_type f = GetValueType h2k (token (ts ! i))"
proof -
  let ?ps = "SetPosTypes frequent None ts"
  have ti: "prepared h2k get_id key (ts ! i)" using p i by simp
  have f: "f = ValueTypeOf (if i = 0 then None else Some (?ps ! (i - 1))) (?ps ! i)"
    unfolding f_def using i by (simp add: nth_SetValueTypes)
  have pi: "?ps ! i = PosTypeOf frequent (if i = 0 then None else Some (ts ! (i - 1))) (ts ! i)"
    using i by (simp add: nth_SetPosTypes)
  have tp: "token (?ps ! (i - 1)) = token (ts ! (i - 1))"
    using i by (simp add: nth_SetPosTypes less_imp_diff_less)
  have same: "pos_type (ValueTypeOf q x) = pos_type x" "id_in_value_trie (ValueTypeOf q x) = id_in_value_trie x"
    "id_in_frequent_pos_map (ValueTypeOf q x) = id_in_frequent_pos_map x" for q x
    by (simp_all add: ValueTypeOf_def split: option.split)
  have same': "value_type (PosTypeOf frequent q x) = value_type x"
    "id_in_value_trie (PosTypeOf frequent q x) = id_in_value_trie x" for q x
    by (simp_all add: PosTypeOf_def Let_def split: option.split)
  show "token f = token (ts ! i)" "id_in_value_trie f = id_in_value_trie (ts ! i)"
    by (simp_all add: f pi same same')
  have vt: "value_type (ts ! i) = GetValueType h2k (token (ts ! i))" "value_type (ts ! i) \<noteq> SAME_AS_PREV_VALUE"
    using ti by (auto simp: prepared_def GetValueType_def)
  show "value_type f = SAME_AS_PREV_VALUE \<Longrightarrow> 0 < i \<and> t_value (token (ts ! (i - 1))) = t_value (token (ts ! i))"
    "value_type f \<noteq> SAME_AS_PREV_VALUE \<Longrightarrow> value_type f = GetValueType h2k (token (ts ! i))"
    using vt tp by (auto simp: f pi ValueTypeOf_def same' split: option.splits if_splits)
  have pt: "pos_type (ts ! i) = DEFAULT_POS" using ti by (simp add: prepared_def)
  show "pos_type f = FREQUENT_POS \<Longrightarrow> \<exists>j. id_in_frequent_pos_map f = int j \<and> j < length frequent \<and> frequent ! j = PosOf (ts ! i)"
    "pos_type f = SAME_AS_PREV_POS \<Longrightarrow> 0 < i \<and> PosOf (ts ! (i - 1)) = PosOf (ts ! i)"
    using PosTypeOf_cases [OF pt] unfolding f same pi by (auto split: if_splits)
qed

lemma final_key_info:
  fixes restore :: "int \<Rightarrow> bytes option" and frequent :: "32 word list" and h2k :: "bytes \<Rightarrow> bytes"
    and ts :: "TokenInfo list"
  defines "env \<equiv> \<lparr>RestoreKeyString = restore, frequent_pos = FrequentPosArray frequent, HiraganaToKatakana = h2k\<rparr>"
  assumes ts: "\<forall>ti \<in> set ts. prepared h2k get_id key ti \<and> input_token (token ti)" and key: "key \<noteq> []"
    and frequent: "length frequent \<le> 255"
    and stored: "\<forall>ti \<in> set ts. GetValueType h2k (token ti) = DEFAULT_VALUE \<longrightarrow>
        restore (get_id (EncodeValue (t_value (token ti)))) = Some (EncodeValue (t_value (token ti)))
        \<and> 0 \<le> get_id (EncodeValue (t_value (token ti))) \<and> get_id (EncodeValue (t_value (token ti))) < 0x3f0000"
    and ids: "\<forall>s. - (2 ^ 31) \<le> get_id s \<and> get_id s < 2 ^ 31"
  defines "fs \<equiv> SetValueTypes None (SetPosTypes frequent None ts)"
  shows "recoverable env key fs" "\<forall>i < length fs. encodable_token fs i \<and> wf_token_info (fs ! i)"
proof -
  have len: "length fs = length ts" by (simp add: fs_def)
  have each: "t_key (token (fs ! i)) = key \<and> wf_token_info (fs ! i) \<and> encodable_token fs i
      \<and> pos_recoverable env fs i \<and> value_recoverable env fs i" if i: "i < length ts" for i
  proof -
    have p: "\<forall>ti \<in> set ts. prepared h2k get_id key ti" using ts by blast
    note ft = final_token [OF i p, where frequent = frequent, folded fs_def]
    have pr: "prepared h2k get_id key (ts ! i)" and inp: "input_token (token (ts ! i))" using ts i by simp_all
    have prev: "token (fs ! (i - 1)) = token (ts ! (i - 1))"
      using final_token(1) [OF _ p, of "i - 1" frequent, folded fs_def] i by simp
    let ?t = "token (ts ! i)" and ?id = "get_id (EncodeValue (t_value (token (ts ! i))))"
    have id: "id_in_value_trie (fs ! i) = ?id" using ft(2) pr by (simp add: prepared_def)
    have def_: "value_type (fs ! i) = DEFAULT_VALUE \<Longrightarrow> restore ?id = Some (EncodeValue (t_value ?t)) \<and> 0 \<le> ?id \<and> ?id < 0x3f0000"
      using ft(6) stored i by auto
    have w: "wf_token_info (fs ! i)"
      using ft(1,3) inp ids id frequent by (auto simp: wf_token_info_def input_token_def)
    have e: "encodable_token fs i"
      unfolding encodable_token_def Let_def
      using ft(1,3,4,5) inp id def_ by (auto simp: input_token_def)
    have pos: "pos_recoverable env fs i"
    proof (cases "pos_type (fs ! i)")
      case FREQUENT_POS
      from ft(3) [OF this] obtain j where j: "id_in_frequent_pos_map (fs ! i) = int j" "j < length frequent"
        "frequent ! j = PosOf (ts ! i)" by blast
      then show ?thesis using ft(1) FREQUENT_POS
        by (simp add: pos_recoverable_def Let_def env_def FrequentPosArray_def nth_append PosOf_def)
    next
      case SAME_AS_PREV_POS
      with ft(1,4) prev show ?thesis
        by (simp add: pos_recoverable_def Let_def PosOf_def combined_pos_eq_iff)
    qed (simp add: pos_recoverable_def Let_def)
    have val: "value_recoverable env fs i"
    proof (cases "value_type (fs ! i)")
      case DEFAULT_VALUE
      then show ?thesis using def_ id ft(1) inp DecodeValue_EncodeValue(1) [of "t_value ?t"]
        by (simp add: value_recoverable_def Let_def LookupValue_def env_def input_token_def)
    next
      case SAME_AS_PREV_VALUE
      with ft(1,5) prev show ?thesis by (simp add: value_recoverable_def Let_def)
    next
      case AS_IS_HIRAGANA
      then have "GetValueType h2k ?t = AS_IS_HIRAGANA" using ft(6) by simp
      then show ?thesis using AS_IS_HIRAGANA ft(1)
        by (simp add: value_recoverable_def Let_def GetValueType_def split: if_splits)
    next
      case AS_IS_KATAKANA
      then have "GetValueType h2k ?t = AS_IS_KATAKANA" using ft(6) by simp
      then show ?thesis using AS_IS_KATAKANA ft(1)
        by (simp add: value_recoverable_def Let_def GetValueType_def env_def split: if_splits)
    qed
    show ?thesis using ft(1) pr w e pos val by (simp add: prepared_def)
  qed
  show "recoverable env key fs" using each key by (simp add: recoverable_def len)
  show "\<forall>i < length fs. encodable_token fs i \<and> wf_token_info (fs ! i)" using each by (simp add: len)
qed

text \<open>The trie the builder makes of its strings: every added string has an id of at most 22 bits,
  whose restored key string is the string. Ids of other strings are C++ \<^verbatim>\<open>int\<close>s.\<close>

definition trie_law :: "(bytes list \<Rightarrow> bytes \<Rightarrow> int) \<Rightarrow> (bytes list \<Rightarrow> int \<Rightarrow> bytes option) \<Rightarrow> bytes list \<Rightarrow> bool" where
  "trie_law build restore ss \<longleftrightarrow>
     (\<forall>s \<in> set ss. restore ss (build ss s) = Some s \<and> 0 \<le> build ss s \<and> build ss s < 0x3f0000)
     \<and> (\<forall>s. - (2 ^ 31) \<le> build ss s \<and> build ss s < 2 ^ 31)"

definition PrepareKeyInfo :: "nat \<Rightarrow> bytes set \<Rightarrow> (bytes \<Rightarrow> int) \<Rightarrow> (bytes \<Rightarrow> int) \<Rightarrow> KeyInfo \<Rightarrow> KeyInfo" where
  "PrepareKeyInfo m h kid vid k = SetCostTypeOf m h (SortTokenInfo (SetIdForKey kid (SetIdForValue vid k)))"

lemma BuildKeyInfos_split:
  assumes "BuildKeyInfos h2k build m tokens = Some (kis, frequent, vstrs)"
  obtains kis0 h where "ReadTokens h2k tokens = Some kis0" "BuildFrequentPos kis0 = Some frequent"
    "vstrs = BuildValueTrie kis0"
    "kis = map (\<lambda>k. SetValueType (SetPosType frequent (PrepareKeyInfo m h (build (BuildKeyTrie
             (map (SetIdForValue (build vstrs)) kis0))) (build vstrs) k))) kis0"
  using assms by (auto simp: BuildKeyInfos_def bind_eq_Some_conv Let_def SetCostType_def comp_def PrepareKeyInfo_def)

lemma mset_PrepareKeyInfo:
  "mset (map token (ki_tokens (PrepareKeyInfo m h kid vid k))) = mset (map token (ki_tokens k))"
proof -
  have "mset (map token (ki_tokens (SortTokenInfo x))) = mset (map token (ki_tokens x))" for x
    by (simp add: SortTokenInfo_def)
  then show ?thesis unfolding PrepareKeyInfo_def by (simp only: map_token_passes)
qed

lemma map_token_final:
  "map token (ki_tokens (SetValueType (SetPosType f k))) = map token (ki_tokens k)"
  by (simp add: SetValueType_def SetPosType_def)

lemma mset_concat: "mset (concat xss) = (\<Sum>xs\<leftarrow>xss. mset xs)"
  by (induction xss) simp_all

lemma BuildKeyInfos_tokens:
  assumes "BuildKeyInfos h2k build m tokens = Some (kis, frequent, vstrs)"
  shows "mset (map token (AllTokenInfos kis)) = mset tokens" "sorted_wrt (<) (map ki_key kis)"
proof -
  from assms obtain kis0 h where r: "ReadTokens h2k tokens = Some kis0"
    and k: "kis = map (\<lambda>k. SetValueType (SetPosType frequent (PrepareKeyInfo m h (build (BuildKeyTrie
             (map (SetIdForValue (build vstrs)) kis0))) (build vstrs) k))) kis0"
    by (rule BuildKeyInfos_split)
  note rp = ReadTokens_props [OF r]
  have "mset (map token (AllTokenInfos kis)) = mset (map token (AllTokenInfos kis0))"
    unfolding k AllTokenInfos_def map_concat mset_concat map_map comp_def
      map_token_final mset_PrepareKeyInfo ..
  also have "\<dots> = mset tokens" unfolding rp(1) by simp
  finally show "mset (map token (AllTokenInfos kis)) = mset tokens" .
  have "map ki_key kis = map ki_key kis0" unfolding k by (simp add: comp_def PrepareKeyInfo_def)
  with rp(3) show "sorted_wrt (<) (map ki_key kis)" by simp
qed

text \<open>The tokens of a key before the part-of-speech and value types are set.\<close>

lemma BuildKeyInfos_prepared:
  assumes b: "BuildKeyInfos h2k build m tokens = Some (kis, frequent, vstrs)"
    and inp: "\<forall>t \<in> set tokens. input_token t" and ki: "ki \<in> set kis"
  obtains ts where "ki_tokens ki = SetValueTypes None (SetPosTypes frequent None ts)" "ts \<noteq> []" "ki_key ki \<noteq> []"
    "length frequent \<le> 255"
    "\<forall>ti \<in> set ts. prepared h2k (build vstrs) (ki_key ki) ti \<and> input_token (token ti)"
    "\<forall>ti \<in> set ts. GetValueType h2k (token ti) = DEFAULT_VALUE \<longrightarrow> EncodeValue (t_value (token ti)) \<in> set vstrs"
proof -
  from b obtain kis0 h where r: "ReadTokens h2k tokens = Some kis0" and fr: "BuildFrequentPos kis0 = Some frequent"
    and v: "vstrs = BuildValueTrie kis0"
    and k: "kis = map (\<lambda>k. SetValueType (SetPosType frequent (PrepareKeyInfo m h (build (BuildKeyTrie
             (map (SetIdForValue (build vstrs)) kis0))) (build vstrs) k))) kis0"
    by (rule BuildKeyInfos_split)
  note rp = ReadTokens_props [OF r]
  from ki obtain k0 where k0: "k0 \<in> set kis0" and ki: "ki = SetValueType (SetPosType frequent (PrepareKeyInfo m h
      (build (BuildKeyTrie (map (SetIdForValue (build vstrs)) kis0))) (build vstrs) k0))"
    unfolding k by auto
  let ?p = "PrepareKeyInfo m h (build (BuildKeyTrie (map (SetIdForValue (build vstrs)) kis0))) (build vstrs) k0"
  let ?ts = "ki_tokens ?p"
  have kt: "ki_tokens ki = SetValueTypes None (SetPosTypes frequent None ?ts)" and kk: "ki_key ki = ki_key k0"
    unfolding ki by (simp_all add: SetValueType_def SetPosType_def PrepareKeyInfo_def)
  from rp(2) k0 have g: "group_ok h2k k0" "ki_tokens k0 \<noteq> []" by blast+
  have msets: "set (map token ?ts) = set (map token (ki_tokens k0))"
    by (rule mset_eq_setD) (rule mset_PrepareKeyInfo)
  have "length (map token ?ts) = length (map token (ki_tokens k0))"
    by (rule mset_eq_length) (rule mset_PrepareKeyInfo)
  then have ne: "?ts \<noteq> []" using g(2) by auto
  have in0: "token ` set (ki_tokens k0) \<subseteq> set tokens"
  proof -
    have "token ` set (ki_tokens k0) \<subseteq> set (map token (AllTokenInfos kis0))"
      using k0 by (auto simp: AllTokenInfos_def)
    then show ?thesis unfolding rp(1) by simp
  qed
  have prep: "\<forall>ti \<in> set ?ts. prepared h2k (build vstrs) (ki_key k0) ti"
    unfolding PrepareKeyInfo_def by (rule prepared_passes [OF g(1)])
  have sub: "token ti \<in> set (map token (ki_tokens k0))" if "ti \<in> set ?ts" for ti
  proof -
    from that have "token ti \<in> set (map token ?ts)" by simp
    then show ?thesis unfolding msets .
  qed
  have tok: "token ti \<in> set tokens" if "ti \<in> set ?ts" for ti
    using sub [OF that] in0 by auto
  have ts: "\<forall>ti \<in> set ?ts. prepared h2k (build vstrs) (ki_key ki) ti \<and> input_token (token ti)"
    using prep tok inp unfolding kk by blast
  obtain ti0 where ti0: "ti0 \<in> set ?ts" using ne by (meson list.set_sel(1))
  then have key: "ki_key ki \<noteq> []" using rp(4) tok prep unfolding kk by (metis prepared_def)
  have "EncodeValue (t_value (token ti)) \<in> set vstrs"
    if ti: "ti \<in> set ?ts" and d: "GetValueType h2k (token ti) = DEFAULT_VALUE" for ti
  proof -
    from sub [OF ti] obtain ti' where ti': "ti' \<in> set (ki_tokens k0)" "token ti' = token ti" by auto
    have "value_type ti' = DEFAULT_VALUE"
      using g(1) ti' d fresh_fields(1) by (auto simp: group_ok_def)
    then have "EncodeValue (t_value (token ti')) \<in> set vstrs"
      using ti'(1) k0 unfolding v BuildValueTrie_def AllTokenInfos_def by auto
    then show ?thesis using ti'(2) by simp
  qed
  then show thesis using that [OF kt ne key BuildFrequentPos_props(2) [OF fr] ts] by blast
qed

lemma BuildKeyInfos_reads_back:
  fixes restore :: "bytes list \<Rightarrow> int \<Rightarrow> bytes option"
  assumes b: "BuildKeyInfos h2k build m tokens = Some (kis, frequent, vstrs)"
    and inp: "\<forall>t \<in> set tokens. input_token t" and law: "trie_law build restore vstrs" and ki: "ki \<in> set kis"
  defines "env \<equiv> \<lparr>RestoreKeyString = restore vstrs, frequent_pos = FrequentPosArray frequent,
    HiraganaToKatakana = h2k\<rparr>"
  shows "\<exists>bs. EncodeTokens (ki_tokens ki) = Some bs \<and>
    (\<forall>rest n. length (ki_tokens ki) < n \<longrightarrow>
       Option.bind (NewTokenDecodeIterator env (ki_key ki) (bs @ rest)) (CollectTokens n env)
         = Some (map stored_token (ki_tokens ki)))"
proof -
  obtain ts where kt: "ki_tokens ki = SetValueTypes None (SetPosTypes frequent None ts)" "ts \<noteq> []" "ki_key ki \<noteq> []"
    "length frequent \<le> 255" and ts: "\<forall>ti \<in> set ts. prepared h2k (build vstrs) (ki_key ki) ti \<and> input_token (token ti)"
    and vs: "\<forall>ti \<in> set ts. GetValueType h2k (token ti) = DEFAULT_VALUE \<longrightarrow> EncodeValue (t_value (token ti)) \<in> set vstrs"
    by (rule BuildKeyInfos_prepared [OF b inp ki])
  have stored: "\<forall>ti \<in> set ts. GetValueType h2k (token ti) = DEFAULT_VALUE \<longrightarrow>
        restore vstrs (build vstrs (EncodeValue (t_value (token ti)))) = Some (EncodeValue (t_value (token ti)))
        \<and> 0 \<le> build vstrs (EncodeValue (t_value (token ti))) \<and> build vstrs (EncodeValue (t_value (token ti))) < 0x3f0000"
    using vs law by (simp add: trie_law_def)
  have ids: "\<forall>s. - (2 ^ 31) \<le> build vstrs s \<and> build vstrs s < 2 ^ 31" using law by (simp add: trie_law_def)
  note fin = final_key_info [OF ts kt(3,4) stored ids, folded kt(1)]
  have ne': "ki_tokens ki \<noteq> []" unfolding kt(1) using kt(2) by (metis length_0_conv length_SetPosTypes length_SetValueTypes)
  obtain bs where bs: "EncodeTokens (ki_tokens ki) = Some bs" using EncodeTokens_Some [OF ne' fin(2)] by blast
  show ?thesis
    using iterator_reads_back [OF bs ne' fin(1)] bs unfolding env_def by blast
qed

text \<open>The value ids of the tokens: the first token with a value keeps its id, the others repeat it.\<close>

lemma BuildKeyInfos_value_ids:
  assumes b: "BuildKeyInfos h2k build m tokens = Some (kis, frequent, vstrs)"
    and inp: "\<forall>t \<in> set tokens. input_token t" and law: "trie_law build restore vstrs" and ki: "ki \<in> set kis"
    and i: "i < length (ki_tokens ki)"
  defines "ti \<equiv> ki_tokens ki ! i"
  shows "wf_token_info ti" "encodable_token (ki_tokens ki) i" "id_in_value_trie ti = build vstrs (EncodeValue (t_value (token ti)))"
    "value_type ti = SAME_AS_PREV_VALUE \<Longrightarrow> 0 < i \<and> t_value (token (ki_tokens ki ! (i - 1))) = t_value (token ti)"
    "value_type ti \<noteq> SAME_AS_PREV_VALUE \<Longrightarrow> value_type ti = GetValueType h2k (token ti)"
    "value_type ti = DEFAULT_VALUE \<Longrightarrow> EncodeValue (t_value (token ti)) \<in> set vstrs" "t_key (token ti) = ki_key ki"
proof -
  obtain ts where kt: "ki_tokens ki = SetValueTypes None (SetPosTypes frequent None ts)" "ts \<noteq> []" "ki_key ki \<noteq> []"
    "length frequent \<le> 255" and ts: "\<forall>ti \<in> set ts. prepared h2k (build vstrs) (ki_key ki) ti \<and> input_token (token ti)"
    and vs: "\<forall>ti \<in> set ts. GetValueType h2k (token ti) = DEFAULT_VALUE \<longrightarrow> EncodeValue (t_value (token ti)) \<in> set vstrs"
    by (rule BuildKeyInfos_prepared [OF b inp ki])
  have stored: "\<forall>ti \<in> set ts. GetValueType h2k (token ti) = DEFAULT_VALUE \<longrightarrow>
        restore vstrs (build vstrs (EncodeValue (t_value (token ti)))) = Some (EncodeValue (t_value (token ti)))
        \<and> 0 \<le> build vstrs (EncodeValue (t_value (token ti))) \<and> build vstrs (EncodeValue (t_value (token ti))) < 0x3f0000"
    using vs law by (simp add: trie_law_def)
  have ids: "\<forall>s. - (2 ^ 31) \<le> build vstrs s \<and> build vstrs s < 2 ^ 31" using law by (simp add: trie_law_def)
  note fin = final_key_info [OF ts kt(3,4) stored ids, folded kt(1)]
  show "wf_token_info ti" "encodable_token (ki_tokens ki) i" using fin(2) i by (simp_all add: ti_def)
  have l: "i < length ts" using i unfolding kt(1) by simp
  have p: "\<forall>ti \<in> set ts. prepared h2k (build vstrs) (ki_key ki) ti" using ts by blast
  note ft = final_token [OF l p, where frequent = frequent, folded kt(1), folded ti_def]
  have pi: "prepared h2k (build vstrs) (ki_key ki) (ts ! i)" using p l by simp
  show "id_in_value_trie ti = build vstrs (EncodeValue (t_value (token ti)))" "t_key (token ti) = ki_key ki"
    using ft(1,2) pi by (simp_all add: prepared_def)
  have prev: "token (ki_tokens ki ! (i - 1)) = token (ts ! (i - 1))"
    using final_token(1) [OF _ p, of "i - 1" frequent, folded kt(1)] l by simp
  show "value_type ti = SAME_AS_PREV_VALUE \<Longrightarrow> 0 < i \<and> t_value (token (ki_tokens ki ! (i - 1))) = t_value (token ti)"
    using ft(1,5) prev by simp
  show d: "value_type ti \<noteq> SAME_AS_PREV_VALUE \<Longrightarrow> value_type ti = GetValueType h2k (token ti)" using ft(1,6) by simp
  show "value_type ti = DEFAULT_VALUE \<Longrightarrow> EncodeValue (t_value (token ti)) \<in> set vstrs"
    using d vs ft(1) l by simp
qed

lemma BuildKeyInfos_total:
  assumes "\<forall>t \<in> set tokens. t_key t \<noteq> [] \<and> t_value t \<noteq> []" "length tokens < INT_MAX"
  shows "\<exists>r. BuildKeyInfos h2k build m tokens = Some r"
proof -
  obtain kis0 where r: "ReadTokens h2k tokens = Some kis0"
    using assms(1) by (cases "sort_key t_key tokens = []") (auto simp: ReadTokens_def list_all_iff Let_def)
  have "length (map token (AllTokenInfos kis0)) = length tokens"
    unfolding ReadTokens_props(1) [OF r] by simp
  then obtain fr where "BuildFrequentPos kis0 = Some fr" using BuildFrequentPos_total [of kis0] assms(2) by auto
  with r show ?thesis by (simp add: BuildKeyInfos_def Let_def)
qed

section \<open>Properties\<close>

text \<open>the builder fails no check on tokens with keys and values; it keeps every token, and
  orders the keys strictly.\<close>

theorem builder_keeps_tokens:
  assumes "\<forall>t \<in> set tokens. t_key t \<noteq> [] \<and> t_value t \<noteq> []" and "length tokens < INT_MAX"
  shows "\<exists>kis frequent vstrs. BuildKeyInfos h2k build m tokens = Some (kis, frequent, vstrs)
    \<and> mset (map token (AllTokenInfos kis)) = mset tokens \<and> sorted_wrt (<) (map ki_key kis)
    \<and> distinct frequent \<and> length frequent \<le> 255"
proof -
  obtain kis frequent vstrs where b: "BuildKeyInfos h2k build m tokens = Some (kis, frequent, vstrs)"
    using BuildKeyInfos_total [OF assms] by (metis prod_cases3)
  moreover obtain kis0 h where "BuildFrequentPos kis0 = Some frequent"
    by (rule BuildKeyInfos_split [OF b])
  ultimately show ?thesis using BuildKeyInfos_tokens [OF b] BuildFrequentPos_props by blast
qed

definition example_tokens :: "Token list" where
  "example_tokens =
     [\<lparr>t_key = [0x62], t_value = [0x63], t_cost = 3, t_lid = 1, t_rid = 2, t_attributes = 0\<rparr>,
      \<lparr>t_key = [0x61], t_value = [0x61], t_cost = 300, t_lid = 1, t_rid = 2, t_attributes = 1\<rparr>,
      \<lparr>t_key = [0x62], t_value = [0x63], t_cost = 7, t_lid = 5, t_rid = 5, t_attributes = 0\<rparr>]"

theorem builder_keeps_tokens_witness:
  "\<exists>kis frequent vstrs. BuildKeyInfos id (\<lambda>ss s. -1) 6 example_tokens = Some (kis, frequent, vstrs)
    \<and> mset (map token (AllTokenInfos kis)) = mset example_tokens \<and> sorted_wrt (<) (map ki_key kis)
    \<and> distinct frequent \<and> length frequent \<le> 255"
  by (rule builder_keeps_tokens) (simp_all add: example_tokens_def INT_MAX_def)

text \<open>what the dictionary stores for a key reads back. The bytes the builder encodes for the
  tokens of a key pass every check of the encoder, and the token iterator, whatever bytes follow
  them, returns exactly these tokens: key, value, part-of-speech ids, cost (rounded down to a
  multiple of 256 when the small encoding was chosen) and spelling correction attribute. The trie's
  own contract is the hypothesis.\<close>

theorem dictionary_reads_back:
  assumes "BuildKeyInfos h2k build m tokens = Some (kis, frequent, vstrs)"
    and "\<forall>t \<in> set tokens. input_token t" and "trie_law build restore vstrs" and "ki \<in> set kis"
    and "env = \<lparr>RestoreKeyString = restore vstrs, frequent_pos = FrequentPosArray frequent, HiraganaToKatakana = h2k\<rparr>"
  shows "\<exists>bs. EncodeTokens (ki_tokens ki) = Some bs \<and>
    (\<forall>rest n. length (ki_tokens ki) < n \<longrightarrow>
       Option.bind (NewTokenDecodeIterator env (ki_key ki) (bs @ rest)) (CollectTokens n env)
         = Some (map stored_token (ki_tokens ki)))"
  unfolding assms(5) using assms(1-4) by (rule BuildKeyInfos_reads_back)

definition index_trie :: "bytes list \<Rightarrow> bytes \<Rightarrow> int" where
  "index_trie ss s = (case find_byte s ss of Some i \<Rightarrow> if i < 0x1000 then int i else -1 | None \<Rightarrow> -1)"

definition index_restore :: "bytes list \<Rightarrow> int \<Rightarrow> bytes option" where
  "index_restore ss i = (if 0 \<le> i \<and> nat i < length ss then Some (ss ! nat i) else None)"

theorem dictionary_reads_back_witness:
  "\<exists>kis frequent vstrs ki bs. BuildKeyInfos id index_trie 6 example_tokens = Some (kis, frequent, vstrs) \<and>
     ki \<in> set kis \<and> EncodeTokens (ki_tokens ki) = Some bs \<and>
     Option.bind (NewTokenDecodeIterator \<lparr>RestoreKeyString = index_restore vstrs,
         frequent_pos = FrequentPosArray frequent, HiraganaToKatakana = id\<rparr> (ki_key ki) (bs @ []))
       (CollectTokens (Suc (length (ki_tokens ki))) \<lparr>RestoreKeyString = index_restore vstrs,
         frequent_pos = FrequentPosArray frequent, HiraganaToKatakana = id\<rparr>)
     = Some (map stored_token (ki_tokens ki))"
proof -
  have t: "\<forall>t \<in> set example_tokens. t_key t \<noteq> [] \<and> t_value t \<noteq> []" "length example_tokens < INT_MAX"
    by (simp_all add: example_tokens_def INT_MAX_def)
  obtain kis frequent vstrs where b: "BuildKeyInfos id index_trie 6 example_tokens = Some (kis, frequent, vstrs)"
    using BuildKeyInfos_total [OF t] by (metis prod_cases3)
  have inp: "\<forall>t \<in> set example_tokens. input_token t"
    by (simp add: example_tokens_def input_token_def unicode_string_def IsValidUtf8.simps Utf8ToUtf32.simps
        SplitFirstChar32_def unicode_def)
  obtain kis0 h where r: "ReadTokens id example_tokens = Some kis0" and v: "vstrs = BuildValueTrie kis0"
    by (rule BuildKeyInfos_split [OF b])
  have "length (map token (AllTokenInfos kis0)) = 3"
    unfolding ReadTokens_props(1) [OF r] by (simp add: example_tokens_def)
  then have "length vstrs \<le> 3"
    unfolding v BuildValueTrie_def using length_filter_le [of _ "AllTokenInfos kis0"] by (simp del: length_filter_le)
  then have law: "trie_law index_trie index_restore vstrs"
    by (auto simp: trie_law_def index_trie_def index_restore_def split: option.splits dest: find_byte_Some)
  have "kis \<noteq> []"
  proof
    assume "kis = []"
    then have "mset example_tokens = {#}" using BuildKeyInfos_tokens(1) [OF b] by (simp add: AllTokenInfos_def)
    then show False by (simp add: example_tokens_def)
  qed
  then obtain ki where ki: "ki \<in> set kis" by (meson list.set_sel(1))
  from dictionary_reads_back [OF b inp law ki refl] b ki show ?thesis by blast
qed

end
