(* ===== verification/BitVector.thy ===== *)
theory BitVector
  imports Prelude "HOL-Library.Monad_Syntax"
begin

text \<open>
  The bit vectors under the dictionary's trees: the bit streams of \<^verbatim>\<open>src/src/storage/louds/bit_stream.cc\<close>
  and the index of \<^verbatim>\<open>simple_succinct_bit_vector_index.cc\<close> with its per-chunk counts, the two caches of
  lower bounds, and the rank and select operations. The specification is the list of the bits
  (\<open>bits_of\<close>, \<open>ones\<close>, \<open>is_select\<close>); the locale \<open>bit_vector\<close> states what the trees and arrays on top rely
  on and is interpreted by the index.
\<close>

section \<open>Bit streams: storage/louds/bit\_stream.cc\<close>

record bit_stream =
  bs_image :: bytes
  num_bits :: nat

definition NewBitStream :: bit_stream where
  "NewBitStream = \<lparr>bs_image = [], num_bits = 0\<rparr>"

definition ByteSize :: "bit_stream \<Rightarrow> nat" where
  "ByteSize s = length (bs_image s)"

definition PushBit :: "bool \<Rightarrow> bit_stream \<Rightarrow> bit_stream" where
  "PushBit b s =
     (let shift = num_bits s mod 8;
          img = (if shift = 0 then bs_image s @ [0] else bs_image s)
      in \<lparr>bs_image = butlast img @ [last img OR push_bit shift (if b then 1 else 0)],
          num_bits = num_bits s + 1\<rparr>)"

definition FillPadding32 :: "bit_stream \<Rightarrow> bit_stream" where
  "FillPadding32 s =
     (let remaining = length (bs_image s) mod 4;
          img = (if remaining \<noteq> 0 then bs_image s @ replicate (4 - remaining) 0 else bs_image s)
      in \<lparr>bs_image = img, num_bits = length img * 8\<rparr>)"

text \<open>\<^verbatim>\<open>internal::PushInt32\<close>; None where its \<^verbatim>\<open>CHECK\<close> fails.\<close>

definition PushInt32 :: "nat \<Rightarrow> bytes \<Rightarrow> bytes option" where
  "PushInt32 value img =
     (if value < 2 ^ 32
      then Some (img @ [of_nat (value mod 256), of_nat (value div 2 ^ 8 mod 256),
                          of_nat (value div 2 ^ 16 mod 256), of_nat (value div 2 ^ 24 mod 256)])
      else None)"

section \<open>Succinct bit vectors: storage/louds/simple\_succinct\_bit\_vector\_index.cc\<close>

text \<open>
  A pointer is the list of the bytes from it to the end of the memory it points into; a load past that
  end is None. The integers of the index are far below their bounds for the images the builders
  make (they count bits of an image of less than 2 to the 28 bytes, lemma \<open>vector_counts_int\<close>) and are natural numbers here.
\<close>

definition LoadUnaligned32 :: "bytes \<Rightarrow> nat \<Rightarrow> 32 word option" where
  "LoadUnaligned32 data offset =
     (if offset + 4 \<le> length data then Some (load_le (take 4 (drop offset data))) else None)"

definition LoadUnaligned64 :: "bytes \<Rightarrow> nat \<Rightarrow> 64 word option" where
  "LoadUnaligned64 data offset =
     (if offset + 8 \<le> length data then Some (load_le (take 8 (drop offset data))) else None)"

definition BitCount0 :: "32 word \<Rightarrow> nat" where
  "BitCount0 x = popcount (NOT x)"

fun Count1Bits :: "bytes \<Rightarrow> nat \<Rightarrow> nat option" where
  "Count1Bits data 0 = Some 0"
| "Count1Bits data (Suc 0) = map_option popcount (LoadUnaligned32 data 0)"
| "Count1Bits data (Suc (Suc n)) =
     do { w \<leftarrow> LoadUnaligned64 data 0; r \<leftarrow> Count1Bits (drop 8 data) n; Some (popcount w + r) }"

text \<open>The loop of \<^verbatim>\<open>InitIndex\<close>; the chunk size is at least 4.\<close>

function InitIndexLoop :: "nat \<Rightarrow> bytes \<Rightarrow> nat \<Rightarrow> nat \<Rightarrow> nat list option" where
  "InitIndexLoop chunk_size data num remaining_num_words =
     (if remaining_num_words = 0 \<or> chunk_size < 4 then Some [num]
      else do {
        n \<leftarrow> Count1Bits data (min (chunk_size div 4) remaining_num_words);
        index \<leftarrow> InitIndexLoop chunk_size (drop chunk_size data) (num + n)
                   (remaining_num_words - chunk_size div 4);
        Some (num # index) })"
  by pat_completeness auto
termination by (relation "measure (\<lambda>(c, d, n, r). r)") auto

declare InitIndexLoop.simps [simp del]

text \<open>\<^verbatim>\<open>InitIndex\<close> with its final \<^verbatim>\<open>CHECK_EQ\<close>.\<close>

definition InitIndex :: "bytes \<Rightarrow> nat \<Rightarrow> nat \<Rightarrow> nat list option" where
  "InitIndex data len chunk_size =
     do {
       let chunk_length = (len + chunk_size - 1) div chunk_size;
       index \<leftarrow> InitIndexLoop chunk_size data 0 (len div 4);
       if chunk_length + 1 = length index then Some index else None }"

text \<open>
  \<^verbatim>\<open>std::lower_bound\<close> over the range from \<open>lo\<close> to \<open>hi\<close> of a sorted sequence: the first position whose
  element is not less than the target.
\<close>

definition lower_bound :: "nat list \<Rightarrow> nat \<Rightarrow> nat \<Rightarrow> nat \<Rightarrow> nat" where
  "lower_bound xs lo hi target =
     lo + length (takeWhile (\<lambda>x. x < target) (take (hi - lo) (drop lo xs)))"

text \<open>The view of \<^verbatim>\<open>ZeroBitIndexIterator\<close>: the 0-bits before each chunk.\<close>

definition ZeroBitIndex :: "nat \<Rightarrow> nat list \<Rightarrow> nat list" where
  "ZeroBitIndex chunk_size index = map (\<lambda>k. chunk_size * 8 * k - index ! k) [0 ..< length index]"

definition InitLowerBoundCache :: "nat list \<Rightarrow> nat \<Rightarrow> nat \<Rightarrow> nat list" where
  "InitLowerBoundCache xs increment cache_size =
     [0] @ map (\<lambda>i. lower_bound xs 0 (length xs) (increment * i)) [1 ..< Suc cache_size] @ [length xs]"

definition InitLowerBound0Cache :: "nat list \<Rightarrow> nat \<Rightarrow> nat \<Rightarrow> nat \<Rightarrow> nat list" where
  "InitLowerBound0Cache index chunk_size increment cache_size =
     InitLowerBoundCache (ZeroBitIndex chunk_size index) increment cache_size"

definition InitLowerBound1Cache :: "nat list \<Rightarrow> nat \<Rightarrow> nat \<Rightarrow> nat list" where
  "InitLowerBound1Cache index increment cache_size = InitLowerBoundCache index increment cache_size"

record succinct_index =
  si_data :: bytes
  si_length :: nat
  chunk_size :: nat
  si_index :: "nat list"
  lb0_cache :: "nat list"
  lb0_cache_increment :: nat
  lb1_cache :: "nat list"
  lb1_cache_increment :: nat

definition NewIndex :: "nat \<Rightarrow> succinct_index" where
  "NewIndex c =
     \<lparr>si_data = [], si_length = 0, chunk_size = c, si_index = [], lb0_cache = [], lb0_cache_increment = 1,
      lb1_cache = [], lb1_cache_increment = 1\<rparr>"

definition GetNum1Bits :: "succinct_index \<Rightarrow> nat" where
  "GetNum1Bits s = last (si_index s)"

definition GetNum0Bits :: "succinct_index \<Rightarrow> nat" where
  "GetNum0Bits s = 8 * si_length s - last (si_index s)"

definition cache_increment :: "nat \<Rightarrow> nat \<Rightarrow> nat" where
  "cache_increment num cache_size =
     (let inc = (if cache_size = 0 then num else num div cache_size) in if inc = 0 then 1 else inc)"

definition InitVector :: "bytes \<Rightarrow> nat \<Rightarrow> nat \<Rightarrow> nat \<Rightarrow> succinct_index \<Rightarrow> succinct_index option" where
  "InitVector data len lb0_cache_size lb1_cache_size s =
     do {
       index \<leftarrow> InitIndex data len (chunk_size s);
       let s1 = s\<lparr>si_data := data, si_length := len, si_index := index\<rparr>;
       let inc0 = cache_increment (GetNum0Bits s1) lb0_cache_size;
       let inc1 = cache_increment (GetNum1Bits s1) lb1_cache_size;
       Some (s1\<lparr>lb0_cache_increment := inc0,
                lb0_cache := InitLowerBound0Cache index (chunk_size s) inc0 lb0_cache_size,
                lb1_cache_increment := inc1,
                lb1_cache := InitLowerBound1Cache index inc1 lb1_cache_size\<rparr>) }"

definition ResetVector :: "succinct_index \<Rightarrow> succinct_index" where
  "ResetVector s = NewIndex (chunk_size s)"

definition GetBit :: "succinct_index \<Rightarrow> nat \<Rightarrow> bool option" where
  "GetBit s index =
     (if index div 8 < length (si_data s) then Some (bit (si_data s ! (index div 8)) (index mod 8)) else None)"

definition nth_opt :: "'a list \<Rightarrow> nat \<Rightarrow> 'a option" where
  "nth_opt xs i = (if i < length xs then Some (xs ! i) else None)"

definition Rank1 :: "succinct_index \<Rightarrow> nat \<Rightarrow> nat option" where
  "Rank1 s n =
     do {
       let num_chunks = n div (chunk_size s * 8);
       result0 \<leftarrow> nth_opt (si_index s) num_chunks;
       r \<leftarrow> Count1Bits (drop (num_chunks * chunk_size s) (si_data s)) (n div 32 - num_chunks * (chunk_size s div 4));
       if 0 < n mod 32
       then do {
         w \<leftarrow> LoadUnaligned32 (si_data s) (4 * (n div 32));
         Some (result0 + r + popcount (push_bit (32 - n mod 32) w)) }
       else Some (result0 + r) }"

definition Rank0 :: "succinct_index \<Rightarrow> nat \<Rightarrow> nat option" where
  "Rank0 s n = map_option (\<lambda>r. n - r) (Rank1 s n)"

text \<open>
  The linear search of \<^verbatim>\<open>Select0\<close> and \<^verbatim>\<open>Select1\<close> over words: \<open>view\<close> is the word, or its complement. The
  offset of the word found and the bits still to find.
\<close>

function SelectWord :: "(32 word \<Rightarrow> 32 word) \<Rightarrow> bytes \<Rightarrow> nat \<Rightarrow> nat \<Rightarrow> (nat \<times> nat) option" where
  "SelectWord view data offset n =
     (case LoadUnaligned32 data offset of
        None \<Rightarrow> None
      | Some w \<Rightarrow>
          let bit_count = popcount (view w)
          in if n \<le> bit_count then Some (offset, n)
             else SelectWord view data (offset + 4) (n - bit_count))"
  by pat_completeness auto
termination
  by (relation "measure (\<lambda>(v, d, off, n). length d - off)") (auto simp: LoadUnaligned32_def split: if_splits)

declare SelectWord.simps [simp del]

text \<open>The last loop, over the bits of a word; None where it would not end.\<close>

partial_function (option) SelectBit :: "32 word \<Rightarrow> nat \<Rightarrow> nat \<Rightarrow> nat option" where
  "SelectBit word n index =
     (if n = 0 then Some index
      else SelectBit (drop_bit 1 word) (n - (if bit word 0 then 1 else 0)) (Suc index))"

text \<open>The common part of both selections: the counted index, its cache, and the view of a word.\<close>

definition SelectFrom ::
  "(32 word \<Rightarrow> 32 word) \<Rightarrow> nat list \<Rightarrow> nat list \<Rightarrow> nat \<Rightarrow> succinct_index \<Rightarrow> nat \<Rightarrow> nat option" where
  "SelectFrom view counts cache increment s n =
     (if n = 0 then None
      else do {
        let cache_index = min (n div increment) (length cache - 2);
        lo \<leftarrow> nth_opt cache cache_index;
        hi \<leftarrow> nth_opt cache (cache_index + 1);
        let chunk_ptr = lower_bound counts lo hi n;
        if chunk_ptr = 0 then None
        else do {
          let chunk_index = chunk_ptr - 1;
          before \<leftarrow> nth_opt counts chunk_index;
          let offset = chunk_index * chunk_size s div 4 * 4;
          (ptr, rest) \<leftarrow> SelectWord view (si_data s) offset (n - before);
          w \<leftarrow> LoadUnaligned32 (si_data s) ptr;
          index \<leftarrow> SelectBit (view w) rest (ptr * 8);
          Some (index - 1) } })"

definition Select0 :: "succinct_index \<Rightarrow> nat \<Rightarrow> nat option" where
  "Select0 s n =
     SelectFrom (\<lambda>w. NOT w) (ZeroBitIndex (chunk_size s) (si_index s)) (lb0_cache s) (lb0_cache_increment s) s n"

definition Select1 :: "succinct_index \<Rightarrow> nat \<Rightarrow> nat option" where
  "Select1 s n = SelectFrom (\<lambda>w. w) (si_index s) (lb1_cache s) (lb1_cache_increment s) s n"

section \<open>Images as lists of bits\<close>

definition bits_of :: "bytes \<Rightarrow> bool list" where
  "bits_of bs = concat (map (\<lambda>b. map (bit b) [0 ..< 8]) bs)"

definition ones :: "bool list \<Rightarrow> nat" where
  "ones bits = length (filter id bits)"

lemma bits_of_simps [simp]:
  "bits_of [] = []" "bits_of (b # bs) = map (bit b) [0 ..< 8] @ bits_of bs"
  "bits_of (bs @ cs) = bits_of bs @ bits_of cs"
  by (simp_all add: bits_of_def del: upt_rec_numeral)

lemma length_bits_of [simp]: "length (bits_of bs) = 8 * length bs"
  by (induction bs) (simp_all del: upt_rec_numeral)

lemma take_bits_of: "take (8 * k) (bits_of bs) = bits_of (take k bs)"
  by (induction bs arbitrary: k) (auto simp: take_Cons split: nat.split simp del: upt_rec_numeral)

lemma drop_bits_of: "drop (8 * k) (bits_of bs) = bits_of (drop k bs)"
  by (induction bs arbitrary: k) (auto simp: drop_Cons split: nat.split simp del: upt_rec_numeral)

lemma nth_bits_of: "i < 8 * length bs \<Longrightarrow> bits_of bs ! i = bit (bs ! (i div 8)) (i mod 8)"
proof (induction bs arbitrary: i)
  case (Cons b bs)
  show ?case
  proof (cases "i < 8")
    case False
    then have "i div 8 = Suc ((i - 8) div 8)" "(i - 8) mod 8 = i mod 8" by (simp_all add: div_if mod_if)
    with Cons False show ?thesis by (simp add: nth_append del: upt_rec_numeral)
  qed (simp add: nth_append del: upt_rec_numeral)
qed simp

lemma ones_simps [simp]:
  "ones [] = 0" "ones (b # bs) = (if b then 1 else 0) + ones bs" "ones (xs @ ys) = ones xs + ones ys"
  "ones (replicate n True) = n" "ones (replicate n False) = 0"
  by (simp_all add: ones_def)

lemma ones_le: "ones bs \<le> length bs"
  by (simp add: ones_def)

lemma ones_take_add: "ones (take (a + b) xs) = ones (take a xs) + ones (take b (drop a xs))"
  by (simp add: take_add)

lemma ones_take_mono: "a \<le> b \<Longrightarrow> ones (take a xs) \<le> ones (take b xs)"
  using ones_take_add [of a "b - a" xs] by simp

lemma ones_take_le: "ones (take a xs) \<le> ones xs"
  by (metis append_take_drop_id le_add1 ones_simps(3))

lemma ones_map_Not: "ones (map Not bs) = length bs - ones bs"
  by (induction bs) (auto simp: Suc_diff_le ones_le)

section \<open>Counting the bits of words\<close>

lemma popcount_ones: "popcount (w :: 'a::len word) = ones (map (bit w) [0 ..< LENGTH('a)])"
  by (simp add: popcount_def ones_def filter_map comp_def)

lemma map_bit_load_le:
  "8 * length bs \<le> LENGTH('a) \<Longrightarrow>
     map (bit (load_le bs :: 'a::len word)) [0 ..< LENGTH('a)] = bits_of bs @ replicate (LENGTH('a) - 8 * length bs) False"
  by (rule nth_equalityI) (auto simp: nth_append nth_bits_of bit_load_le)

lemma popcount_load_le: "8 * length bs \<le> LENGTH('a) \<Longrightarrow> popcount (load_le bs :: 'a::len word) = ones (bits_of bs)"
  by (simp only: popcount_ones map_bit_load_le) simp

lemma LoadUnaligned32_bits:
  assumes "offset + 4 \<le> length data"
  obtains w where "LoadUnaligned32 data offset = Some w" "popcount w = ones (bits_of (take 4 (drop offset data)))"
    "map (bit w) [0 ..< 32] = bits_of (take 4 (drop offset data))"
proof
  let ?b = "take 4 (drop offset data)"
  have "length ?b = 4" using assms by simp
  then have *: "8 * length ?b = 32" by simp
  show "LoadUnaligned32 data offset = Some (load_le ?b)" using assms by (simp add: LoadUnaligned32_def)
  show "popcount (load_le ?b :: 32 word) = ones (bits_of ?b)" using * by (intro popcount_load_le) simp
  show "map (bit (load_le ?b :: 32 word)) [0 ..< 32] = bits_of ?b"
    using map_bit_load_le [of ?b, where 'a = 32] * by (simp del: upt_rec_numeral)
qed

lemma Count1Bits_ones: "4 * n \<le> length data \<Longrightarrow> Count1Bits data n = Some (ones (bits_of (take (4 * n) data)))"
proof (induction data n rule: Count1Bits.induct)
  case (2 data)
  then have "0 + 4 \<le> length data" by simp
  then obtain w where "LoadUnaligned32 data 0 = Some w" "popcount w = ones (bits_of (take 4 (drop 0 data)))"
    by (rule LoadUnaligned32_bits)
  then show ?case by simp
next
  case (3 data n)
  let ?b = "take 8 data"
  have "length ?b = 8" using "3.prems" by simp
  then have "popcount (load_le ?b :: 64 word) = ones (bits_of ?b)" by (intro popcount_load_le) simp
  moreover have "take (8 + 4 * n) data = ?b @ take (4 * n) (drop 8 data)" by (rule take_add)
  moreover have l: "LoadUnaligned64 data 0 = Some (load_le ?b)" using "3.prems" by (simp add: LoadUnaligned64_def)
  moreover have "Count1Bits (drop 8 data) n = Some (ones (bits_of (take (4 * n) (drop 8 data))))"
    using "3.prems" by (intro "3.IH" [OF l]) simp
  ultimately show ?case by simp
qed simp

section \<open>The index of a bit vector\<close>

lemma InitIndexLoop_eq:
  assumes "0 < m" "4 * r \<le> length data"
  shows "InitIndexLoop (4 * m) data num r =
     Some (map (\<lambda>k. num + ones (bits_of (take (4 * min (m * k) r) data))) [0 ..< Suc ((r + m - 1) div m)])"
  using assms(2)
proof (induction r arbitrary: data num rule: less_induct)
  case (less r)
  show ?case
  proof (cases "r = 0")
    case True
    with assms(1) show ?thesis by (simp add: InitIndexLoop.simps [of _ _ _ 0] div_less)
  next
    case False
    have c: "Count1Bits data (min m r) = Some (ones (bits_of (take (4 * min m r) data)))"
      using less.prems by (intro Count1Bits_ones) (simp add: min_def)
    have ih: "InitIndexLoop (4 * m) (drop (4 * m) data) (num + ones (bits_of (take (4 * min m r) data))) (r - m) =
      Some (map (\<lambda>k. num + ones (bits_of (take (4 * min m r) data)) +
              ones (bits_of (take (4 * min (m * k) (r - m)) (drop (4 * m) data))))
            [0 ..< Suc ((r - m + m - 1) div m)])"
      using less.prems assms(1) False by (intro less.IH) simp_all
    have step: "num + ones (bits_of (take (4 * min m r) data)) + ones (bits_of (take (4 * min (m * k) (r - m)) (drop (4 * m) data)))
        = num + ones (bits_of (take (4 * min (m * Suc k) r) data))" for k
    proof (cases "r \<le> m")
      case True
      then show ?thesis by (simp add: min_def)
    next
      case False
      then have "min (m + x) r = m + min x (r - m)" for x by (auto simp: min_def)
      then have "4 * min (m * Suc k) r = 4 * m + 4 * min (m * k) (r - m)" by simp
      moreover have "min m r = m" using False by simp
      ultimately show ?thesis by (simp add: take_add)
    qed
    have n: "(r + m - 1) div m = Suc ((r - m + m - 1) div m)"
    proof (cases "r < m")
      case True
      then have "(r + m - 1) div m = Suc ((r - 1) div m)" using False assms(1)
        by (metis Nat.add_diff_assoc2 One_nat_def div_add_self2 Suc_leI add_eq_if neq0_conv Suc_eq_plus1 gr_implies_not0)
      with True show ?thesis by simp
    next
      case False
      then have "r + m - 1 = (r - m + m - 1) + m" using assms(1) by simp
      then show ?thesis using assms(1) by (metis Suc_eq_plus1 div_add_self2 gr_implies_not0)
    qed
    have "[0 ..< Suc ((r + m - 1) div m)] = 0 # map Suc [0 ..< Suc ((r - m + m - 1) div m)]"
      unfolding n by (simp add: map_Suc_upt upt_conv_Cons del: upt_Suc)
    with ih c step False assms(1) show ?thesis
      by (simp add: InitIndexLoop.simps [of _ data num r] comp_def del: upt_Suc)
  qed
qed

definition chunk_ok :: "nat \<Rightarrow> bool" where
  "chunk_ok c \<longleftrightarrow> 0 < c \<and> 4 dvd c"

definition data_ok :: "bytes \<Rightarrow> nat \<Rightarrow> bool" where
  "data_ok data len \<longleftrightarrow> len \<le> length data \<and> 4 dvd len"

text \<open>The 1-bits of the first \<open>n\<close> bits.\<close>

abbreviation rank :: "bytes \<Rightarrow> nat \<Rightarrow> nat \<Rightarrow> nat" where
  "rank data len n \<equiv> ones (take n (bits_of (take len data)))"

lemma chunks_words: "0 < m \<Longrightarrow> (4 * r + 4 * m - 1) div (4 * m) = (r + m - 1) div (m :: nat)"
proof -
  assume "0 < m"
  then have "4 * r + 4 * m - 1 = 3 + 4 * (r + m - 1)" by simp
  moreover have "(3 + 4 * (r + m - 1)) div 4 = r + m - 1" by simp
  ultimately show ?thesis by (simp add: div_mult2_eq)
qed

lemma InitIndex_eq:
  assumes "chunk_ok c" "data_ok data len"
  shows "\<exists>index. InitIndex data len c = Some index \<and> length index = Suc ((len + c - 1) div c) \<and>
     (\<forall>k < length index. index ! k = rank data len (8 * (c * k)))"
proof -
  from assms obtain m r where m: "c = 4 * m" "0 < m" and r: "len = 4 * r" "4 * r \<le> length data"
    by (auto simp: chunk_ok_def data_ok_def elim!: dvdE)
  have n: "(len + c - 1) div c = (r + m - 1) div m" unfolding m r by (rule chunks_words [OF m(2)])
  let ?index = "map (\<lambda>k. 0 + ones (bits_of (take (4 * min (m * k) r) data))) [0 ..< Suc ((r + m - 1) div m)]"
  have "InitIndexLoop c data 0 (len div 4) = Some ?index"
    using InitIndexLoop_eq [OF m(2) r(2), of 0] m r by (simp del: upt_Suc)
  then have i: "InitIndex data len c = Some ?index"
    unfolding InitIndex_def n by (simp add: Let_def del: upt_Suc)
  have "rank data len (8 * (c * k)) = ones (bits_of (take (4 * min (m * k) r) data))" for k
    unfolding take_bits_of by (simp add: m r min_def mult.assoc)
  with i n show ?thesis by (auto simp del: upt_Suc)
qed

text \<open>The fields of an initialised vector.\<close>

definition vector_of :: "bytes \<Rightarrow> nat \<Rightarrow> succinct_index \<Rightarrow> bool" where
  "vector_of data len s \<longleftrightarrow>
     chunk_ok (chunk_size s) \<and> data_ok data len \<and> si_data s = data \<and> si_length s = len \<and>
     length (si_index s) = Suc ((len + chunk_size s - 1) div chunk_size s) \<and>
     (\<forall>k < length (si_index s). si_index s ! k = rank data len (8 * (chunk_size s * k))) \<and>
     0 < lb0_cache_increment s \<and> 0 < lb1_cache_increment s \<and>
     (\<exists>n. lb0_cache s = InitLowerBoundCache (ZeroBitIndex (chunk_size s) (si_index s)) (lb0_cache_increment s) n) \<and>
     (\<exists>n. lb1_cache s = InitLowerBoundCache (si_index s) (lb1_cache_increment s) n)"

lemma InitVector_vector:
  assumes "chunk_ok (chunk_size s)" "data_ok data len"
  shows "\<exists>s'. InitVector data len lb0 lb1 s = Some s' \<and> vector_of data len s' \<and> chunk_size s' = chunk_size s"
proof -
  from InitIndex_eq [OF assms] obtain index where
    i: "InitIndex data len (chunk_size s) = Some index" "length index = Suc ((len + chunk_size s - 1) div chunk_size s)"
      "\<forall>k < length index. index ! k = rank data len (8 * (chunk_size s * k))" by blast
  have "0 < cache_increment a b" for a b by (simp add: cache_increment_def Let_def)
  with i assms show ?thesis
    by (auto simp: InitVector_def vector_of_def InitLowerBound0Cache_def InitLowerBound1Cache_def Let_def)
qed

text \<open>In an image that together with a chunk has at most 2 to the 28 bytes no count and no bit position exceeds \<^verbatim>\<open>int\<close>.\<close>

lemma vector_counts_int:
  assumes v: "vector_of data len s" and small: "len + chunk_size s \<le> 2 ^ 28"
  shows "8 * len < 2 ^ 31 \<and> (\<forall>k < length (si_index s). chunk_size s * 8 * k < 2 ^ 31 \<and> si_index s ! k < 2 ^ 31)"
proof -
  let ?c = "chunk_size s"
  have c: "0 < ?c" using v by (simp add: vector_of_def chunk_ok_def)
  then have l: "8 * len < 2 ^ 31" using small by simp
  have "?c * 8 * k < 2 ^ 31 \<and> si_index s ! k < 2 ^ 31" if k: "k < length (si_index s)" for k
  proof -
    have "k \<le> (len + ?c - 1) div ?c" using v k by (simp add: vector_of_def)
    then have "?c * k \<le> ?c * ((len + ?c - 1) div ?c)" by (rule mult_le_mono2)
    also have "\<dots> \<le> len + ?c - 1" by simp
    finally have "?c * k < 2 ^ 28" using small c by linarith
    moreover have "p < 2 ^ 28 \<Longrightarrow> 8 * p < 2 ^ 31" for p :: nat by simp
    ultimately have "8 * (?c * k) < 2 ^ 31" by blast
    moreover have "?c * 8 * k = 8 * (?c * k)" by simp
    ultimately have "?c * 8 * k < 2 ^ 31" by (simp only:)
    moreover have "si_index s ! k \<le> 8 * len"
    proof -
      have "si_index s ! k = rank data len (8 * (?c * k))" using v k by (simp add: vector_of_def)
      also have "\<dots> \<le> length (take (8 * (?c * k)) (bits_of (take len data)))" by (rule ones_le)
      also have "\<dots> \<le> 8 * len" by simp
      finally show ?thesis .
    qed
    ultimately show ?thesis using l by linarith
  qed
  with l show ?thesis by blast
qed

section \<open>Rank\<close>

lemma rank_split:
  "rank data len (8 * a + b) = ones (bits_of (take a (take len data))) + ones (take b (bits_of (drop a (take len data))))"
  unfolding ones_take_add take_bits_of drop_bits_of ..

lemma popcount_push:
  assumes "k \<le> 32"
  shows "popcount (push_bit (32 - k) (w :: 32 word)) = ones (take k (map (bit w) [0 ..< 32]))"
proof -
  have "map (bit (push_bit (32 - k) w)) [0 ..< 32] = replicate (32 - k) False @ take k (map (bit w) [0 ..< 32])"
    using assms by (intro nth_equalityI) (auto simp: nth_append bit_simps simp del: upt_rec_numeral)
  then show ?thesis by (simp add: popcount_ones del: upt_rec_numeral)
qed

lemma Rank1_rank:
  assumes v: "vector_of data len s" and n: "n \<le> 8 * len"
  shows "Rank1 s n = Some (rank data len n)"
proof -
  let ?c = "chunk_size s"
  from v obtain m r where m: "?c = 4 * m" "0 < m" and r: "len = 4 * r" "4 * r \<le> length data"
    by (auto simp: vector_of_def chunk_ok_def data_ok_def elim!: dvdE)
  define k where "k = n div (?c * 8)"
  define w where "w = n div 32"
  define b where "b = n mod 32"
  have wb: "n = 32 * w + b" "b < 32" by (simp_all add: w_def b_def)
  have k: "k = w div m"
    unfolding k_def w_def m by (simp add: div_mult2_eq [symmetric] mult.commute)
  have km: "k * m \<le> w" unfolding k by simp
  have wr: "w \<le> r" using n r wb by simp
  have kl: "k < length (si_index s)"
  proof -
    have "k \<le> r div m" unfolding k using wr by (rule div_le_mono)
    also have "\<dots> \<le> (r + m - 1) div m" using m(2) by (intro div_le_mono) simp
    also have "\<dots> = (len + ?c - 1) div ?c" unfolding m r by (rule chunks_words [OF m(2), symmetric])
    finally show ?thesis using v by (simp add: vector_of_def)
  qed
  have i: "nth_opt (si_index s) k = Some (rank data len (8 * (?c * k)))"
    using v kl by (simp add: vector_of_def nth_opt_def)
  have c: "Count1Bits (drop (k * ?c) (si_data s)) (w - k * (?c div 4)) =
      Some (ones (bits_of (take (4 * (w - k * m)) (drop (4 * (k * m)) data))))"
    using v wr r km by (subst Count1Bits_ones) (auto simp: m vector_of_def algebra_simps)
  have words: "rank data len (32 * w) = rank data len (8 * (?c * k)) + ones (bits_of (take (4 * (w - k * m)) (drop (4 * (k * m)) data)))"
  proof -
    have e: "32 * w = 8 * (4 * (k * m)) + 8 * (4 * (w - k * m))" "8 * (?c * k) = 8 * (4 * (k * m))"
      using km by (simp_all add: m)
    have "take (4 * (w - k * m)) (drop (4 * (k * m)) (take len data)) = take (4 * (w - k * m)) (drop (4 * (k * m)) data)"
      using wr r km by (simp add: drop_take min_def)
    then show ?thesis unfolding e rank_split take_bits_of by simp
  qed
  have R: "Rank1 s n = do { r0 \<leftarrow> nth_opt (si_index s) k;
      r1 \<leftarrow> Count1Bits (drop (k * ?c) (si_data s)) (w - k * (?c div 4));
      if 0 < b
      then do { x \<leftarrow> LoadUnaligned32 (si_data s) (4 * w); Some (r0 + r1 + popcount (push_bit (32 - b) x)) }
      else Some (r0 + r1) }"
    unfolding Rank1_def k_def w_def b_def Let_def ..
  show ?thesis
  proof (cases "b = 0")
    case True
    then have "rank data len n = rank data len (32 * w)" using wb by simp
    with True show ?thesis unfolding R i c words by simp
  next
    case False
    then have "w < r" using n r wb by linarith
    then have le: "4 * w + 4 \<le> len" using r by linarith
    then have "4 * w + 4 \<le> length data" using r by simp
    then obtain x where x: "LoadUnaligned32 data (4 * w) = Some x" "map (bit x) [0 ..< 32] = bits_of (take 4 (drop (4 * w) data))"
      by (rule LoadUnaligned32_bits)
    have "rank data len n = rank data len (32 * w) + ones (take b (bits_of (drop (4 * w) (take len data))))"
    proof -
      have e: "n = 8 * (4 * w) + b" "32 * w = 8 * (4 * w)" using wb by simp_all
      show ?thesis unfolding e(1) rank_split unfolding e(2) take_bits_of ..
    qed
    also have "take b (bits_of (drop (4 * w) (take len data))) = take b (bits_of (take 4 (drop (4 * w) data)))"
    proof -
      have "take (8 * 4) (bits_of (drop (4 * w) (take len data))) = bits_of (take 4 (drop (4 * w) data))"
        unfolding take_bits_of using le by (simp add: drop_take min_def)
      moreover have cut: "take b xs = take b (take (8 * 4) xs)" for xs :: "bool list" using wb(2) by simp
      have "length (bits_of (take 4 (drop (4 * w) data))) \<le> 32" by simp
      ultimately show ?thesis by (subst cut) simp
    qed
    also have "ones (take b (bits_of (take 4 (drop (4 * w) data)))) = popcount (push_bit (32 - b) x)"
      using popcount_push [of b x] wb(2) x(2) by simp
    finally have "rank data len n = rank data len (32 * w) + popcount (push_bit (32 - b) x)" .
    with x v False show ?thesis unfolding R i c words by (simp add: vector_of_def)
  qed
qed

lemma GetBit_nth:
  assumes "vector_of data len s" "n < 8 * len"
  shows "GetBit s n = Some (bits_of (take len data) ! n)"
proof -
  have "n div 8 < len" "len \<le> length data" using assms by (auto simp: vector_of_def data_ok_def)
  with assms show ?thesis by (simp add: GetBit_def nth_bits_of vector_of_def)
qed

section \<open>Selection\<close>

text \<open>\<open>select_end bits n\<close>: the length of the shortest prefix with \<open>n\<close> 1-bits.\<close>

fun select_end :: "bool list \<Rightarrow> nat \<Rightarrow> nat" where
  "select_end bits 0 = 0"
| "select_end [] (Suc n) = 0"
| "select_end (b # bits) (Suc n) = Suc (select_end bits (if b then n else Suc n))"

definition is_select :: "bool list \<Rightarrow> nat \<Rightarrow> nat \<Rightarrow> bool" where
  "is_select bits n p \<longleftrightarrow> p < length bits \<and> bits ! p \<and> ones (take p bits) = n - 1"

lemma select_end_spec:
  "0 < n \<Longrightarrow> n \<le> ones bits \<Longrightarrow> 0 < select_end bits n \<and> is_select bits n (select_end bits n - 1)"
proof (induction bits n rule: select_end.induct)
  case (3 b bits n)
  show ?case
  proof (cases "b \<and> n = 0")
    case True
    then show ?thesis by (simp add: is_select_def)
  next
    case False
    let ?n = "if b then n else Suc n"
    have "0 < ?n" "?n \<le> ones bits" using "3.prems" False by auto
    with "3.IH" have "0 < select_end bits ?n \<and> is_select bits ?n (select_end bits ?n - 1)" by blast
    then obtain p where p: "select_end bits ?n = Suc p" "is_select bits ?n p"
      by (cases "select_end bits ?n") auto
    have "select_end (b # bits) (Suc n) = Suc (Suc p)" using p(1) by simp
    moreover have "is_select (b # bits) (Suc n) (Suc p)"
      using p(2) False by (auto simp: is_select_def split: if_splits)
    ultimately show ?thesis by simp
  qed
qed simp_all

lemma is_select_unique:
  assumes "is_select bits n p" "is_select bits n q"
  shows "p = q"
proof -
  have "\<not> p < q" if "is_select bits n p" "is_select bits n q" for p q
  proof
    assume "p < q"
    have "ones (take (Suc p) bits) = Suc (ones (take p bits))"
      using that by (simp add: is_select_def take_Suc_conv_app_nth)
    moreover have "ones (take (Suc p) bits) \<le> ones (take q bits)" using \<open>p < q\<close> by (intro ones_take_mono) simp
    ultimately show False using that by (simp add: is_select_def)
  qed
  with assms show ?thesis by (meson linorder_neqE_nat)
qed

lemma SelectBit_select_end:
  "(\<And>i. i < length bits \<Longrightarrow> bit w i = bits ! i) \<Longrightarrow> n \<le> ones bits \<Longrightarrow>
     SelectBit w n index = Some (index + select_end bits n)"
proof (induction bits n arbitrary: w index rule: select_end.induct)
  case (1 bits)
  then show ?case by (simp add: SelectBit.simps)
next
  case (3 b bits n)
  have "bit (drop_bit 1 w) i = bits ! i" if "i < length bits" for i
    using "3.prems"(1) [of "Suc i"] that by (simp add: bit_drop_bit_eq)
  then have "SelectBit (drop_bit 1 w) (if b then n else Suc n) (Suc index) =
      Some (Suc index + select_end bits (if b then n else Suc n))"
    using "3.prems"(2) by (intro "3.IH") auto
  moreover have "bit w 0 = b" using "3.prems"(1) [of 0] by simp
  ultimately show ?case by (subst SelectBit.simps) (auto split: if_splits)
qed simp

text \<open>The search for a word, seen through a view that maps the bits one by one.\<close>

definition bit_view :: "(32 word \<Rightarrow> 32 word) \<Rightarrow> (bool \<Rightarrow> bool) \<Rightarrow> bool" where
  "bit_view view g \<longleftrightarrow> (\<forall>w. map (bit (view w)) [0 ..< 32] = map (\<lambda>i. g (bit w i)) [0 ..< 32])"

lemma bit_view_id: "bit_view (\<lambda>w. w) (\<lambda>b. b)"
  by (simp add: bit_view_def)

lemma bit_view_not: "bit_view (\<lambda>w. NOT w) Not"
  unfolding bit_view_def by (auto simp: bit_not_iff simp del: upt_rec_numeral)

lemma view_word:
  assumes "bit_view view g" "offset + 4 \<le> len" "len \<le> length data"
  obtains w where "LoadUnaligned32 data offset = Some w"
    "map (bit (view w)) [0 ..< 32] = take 32 (drop (8 * offset) (map g (bits_of (take len data))))"
    "popcount (view w) = ones (take 32 (drop (8 * offset) (map g (bits_of (take len data)))))"
proof -
  have "offset + 4 \<le> length data" using assms by simp
  then obtain w where w: "LoadUnaligned32 data offset = Some w" "map (bit w) [0 ..< 32] = bits_of (take 4 (drop offset data))"
    by (rule LoadUnaligned32_bits)
  have "map (\<lambda>i. g (bit w i)) [0 ..< 32] = map g (map (bit w) [0 ..< 32])" by simp
  also have "\<dots> = map g (take (8 * 4) (drop (8 * offset) (bits_of (take len data))))"
    unfolding w(2) drop_bits_of take_bits_of using assms(2) by (simp add: drop_take min_def)
  finally have m: "map (bit (view w)) [0 ..< 32] = take 32 (drop (8 * offset) (map g (bits_of (take len data))))"
    unfolding assms(1) [unfolded bit_view_def, rule_format] by (simp add: take_map drop_map del: upt_rec_numeral)
  then have "popcount (view w) = ones (take 32 (drop (8 * offset) (map g (bits_of (take len data)))))"
    by (simp add: popcount_ones del: upt_rec_numeral)
  with that w(1) m show ?thesis by blast
qed

lemma SelectWord_found:
  assumes v: "bit_view view g" and d: "data_ok data len" and B: "B = map g (bits_of (take len data))"
  shows "4 dvd offset \<Longrightarrow> 0 < n \<Longrightarrow> ones (take (8 * offset) B) + n \<le> ones B \<Longrightarrow>
    \<exists>ptr rest w. SelectWord view data offset n = Some (ptr, rest) \<and> 0 < rest \<and>
      LoadUnaligned32 data ptr = Some w \<and> rest \<le> popcount (view w) \<and>
      map (bit (view w)) [0 ..< 32] = take 32 (drop (8 * ptr) B) \<and> 8 * ptr + 32 \<le> length B \<and>
      ones (take (8 * ptr) B) + rest = ones (take (8 * offset) B) + n"
proof (induction "len - offset" arbitrary: offset n rule: less_induct)
  case less
  have lenB: "length B = 8 * len" using B d by (simp add: data_ok_def)
  have "\<not> 8 * len \<le> 8 * offset"
  proof
    assume "8 * len \<le> 8 * offset"
    then have "ones (take (8 * offset) B) = ones B" using lenB by simp
    with less.prems show False by simp
  qed
  moreover from less.prems(1) d obtain i j where ij: "offset = 4 * i" "len = 4 * j" by (auto simp: data_ok_def elim!: dvdE)
  ultimately have le: "offset + 4 \<le> len" by simp
  have "len \<le> length data" using d by (simp add: data_ok_def)
  from view_word [OF v le this] obtain w where w: "LoadUnaligned32 data offset = Some w"
    "map (bit (view w)) [0 ..< 32] = take 32 (drop (8 * offset) B)" "popcount (view w) = ones (take 32 (drop (8 * offset) B))"
    unfolding B by blast
  have step: "ones (take (8 * (offset + 4)) B) = ones (take (8 * offset) B) + popcount (view w)"
    unfolding w(3) using ones_take_add [of "8 * offset" 32 B] by (simp add: algebra_simps)
  show ?case
  proof (cases "n \<le> popcount (view w)")
    case True
    then have s: "SelectWord view data offset n = Some (offset, n)" by (simp add: SelectWord.simps w(1))
    show ?thesis using True s w less.prems(2) le lenB by (intro exI conjI) simp_all
  next
    case False
    have "\<exists>ptr rest w'. SelectWord view data (offset + 4) (n - popcount (view w)) = Some (ptr, rest) \<and> 0 < rest \<and>
      LoadUnaligned32 data ptr = Some w' \<and> rest \<le> popcount (view w') \<and>
      map (bit (view w')) [0 ..< 32] = take 32 (drop (8 * ptr) B) \<and> 8 * ptr + 32 \<le> length B \<and>
      ones (take (8 * ptr) B) + rest = ones (take (8 * (offset + 4)) B) + (n - popcount (view w))"
    proof (rule less.hyps)
      show "len - (offset + 4) < len - offset" using le by simp
      show "4 dvd offset + 4" using less.prems(1) by simp
      show "0 < n - popcount (view w)" using False by simp
      show "ones (take (8 * (offset + 4)) B) + (n - popcount (view w)) \<le> ones B"
        using False less.prems(3) unfolding step by simp
    qed
    moreover have "SelectWord view data offset n = SelectWord view data (offset + 4) (n - popcount (view w))"
      using False by (subst SelectWord.simps) (simp add: w(1) Let_def)
    moreover have "ones (take (8 * (offset + 4)) B) + (n - popcount (view w)) = ones (take (8 * offset) B) + n"
      using False unfolding step by simp
    ultimately show ?thesis by simp
  qed
qed

subsection \<open>The cached lower bounds\<close>

abbreviation full_lower_bound :: "nat list \<Rightarrow> nat \<Rightarrow> nat" where
  "full_lower_bound xs t \<equiv> lower_bound xs 0 (length xs) t"

lemma full_lower_bound_takeWhile: "full_lower_bound xs t = length (takeWhile (\<lambda>x. x < t) xs)"
  by (simp add: lower_bound_def)

lemma full_lower_bound_le: "full_lower_bound xs t \<le> length xs"
  by (simp add: full_lower_bound_takeWhile length_takeWhile_le)

lemma full_lower_bound_less: "i < full_lower_bound xs t \<Longrightarrow> xs ! i < t"
  unfolding full_lower_bound_takeWhile by (metis nth_mem set_takeWhileD takeWhile_nth)

lemma full_lower_bound_ge:
  assumes "sorted xs" "full_lower_bound xs t \<le> i" "i < length xs"
  shows "t \<le> xs ! i"
proof -
  let ?l = "full_lower_bound xs t"
  have "?l < length xs" using assms by simp
  then have "t \<le> xs ! ?l"
    unfolding full_lower_bound_takeWhile using nth_length_takeWhile [of "\<lambda>x. x < t" xs] by simp
  also have "\<dots> \<le> xs ! i" using assms by (intro sorted_nth_mono)
  finally show ?thesis .
qed

lemma full_lower_bound_mono:
  assumes "sorted xs" "a \<le> b"
  shows "full_lower_bound xs a \<le> full_lower_bound xs b"
proof (rule ccontr)
  assume "\<not> full_lower_bound xs a \<le> full_lower_bound xs b"
  then have l: "full_lower_bound xs b < full_lower_bound xs a" by simp
  then have "b \<le> xs ! full_lower_bound xs b"
    using full_lower_bound_le [of xs a] by (intro full_lower_bound_ge [OF assms(1)]) auto
  with full_lower_bound_less [OF l] assms(2) show False by simp
qed

lemma lower_bound_range:
  assumes "sorted xs" "lo \<le> full_lower_bound xs t" "full_lower_bound xs t \<le> hi" "hi \<le> length xs"
  shows "lower_bound xs lo hi t = full_lower_bound xs t"
proof -
  let ?l = "full_lower_bound xs t" and ?ys = "take (hi - lo) (drop lo xs)"
  have lo: "lo \<le> length xs" using assms by simp
  have "takeWhile (\<lambda>x. x < t) ?ys = take (?l - lo) ?ys"
  proof (rule takeWhile_eq_take_P_nth)
    fix i assume "i < ?l - lo" "i < length ?ys"
    then show "?ys ! i < t" using full_lower_bound_less [of "lo + i" xs t] lo by simp
  next
    assume "?l - lo < length ?ys"
    then have "?l < length xs" "?l - lo < hi - lo" using assms lo by auto
    then show "\<not> ?ys ! (?l - lo) < t"
      using full_lower_bound_ge [OF assms(1), of t ?l] assms lo by simp
  qed
  moreover have "?l - lo \<le> length ?ys" using assms lo by auto
  ultimately have "length (takeWhile (\<lambda>x. x < t) ?ys) = ?l - lo" by (metis length_take min_absorb2)
  then show ?thesis unfolding lower_bound_def [of xs lo] using assms(2) by simp
qed

lemma InitLowerBoundCache_nth:
  "length (InitLowerBoundCache xs inc m) = m + 2"
  "k \<le> m \<Longrightarrow> InitLowerBoundCache xs inc m ! k = (if k = 0 then 0 else full_lower_bound xs (inc * k))"
  "InitLowerBoundCache xs inc m ! Suc m = length xs"
proof -
  let ?c = "map (\<lambda>i. full_lower_bound xs (inc * i)) [1 ..< Suc m]"
  have c: "InitLowerBoundCache xs inc m = 0 # ?c @ [length xs]" "length ?c = m"
    by (simp_all add: InitLowerBoundCache_def del: upt_Suc)
  show "length (InitLowerBoundCache xs inc m) = m + 2" using c by (simp del: upt_Suc)
  show "InitLowerBoundCache xs inc m ! Suc m = length xs"
    unfolding c(1) using c(2) by (simp add: nth_append del: upt_Suc)
  show "InitLowerBoundCache xs inc m ! k = (if k = 0 then 0 else full_lower_bound xs (inc * k))" if "k \<le> m"
    unfolding c(1) using that by (cases k) (simp_all add: nth_append del: upt_Suc)
qed

text \<open>The two cached bounds enclose the lower bound, so the search between them finds it.\<close>

lemma cached_lower_bound:
  assumes "sorted xs" "0 < inc" "cache = InitLowerBoundCache xs inc m" "k = min (n div inc) (length cache - 2)"
  shows "\<exists>lo hi. nth_opt cache k = Some lo \<and> nth_opt cache (k + 1) = Some hi \<and>
     lower_bound xs lo hi n = full_lower_bound xs n"
proof -
  note c = InitLowerBoundCache_nth [where xs = xs and inc = inc and m = m, folded assms(3)]
  have k: "k = min (n div inc) m" using assms(4) c(1) by simp
  then have "inc * k \<le> n" by (metis div_le_mono min.cobounded1 mult.commute nonzero_mult_div_cancel_left div_times_less_eq_dividend le_trans mult_le_mono1)
  then have lo: "cache ! k \<le> full_lower_bound xs n"
    using c(2) [of k] k full_lower_bound_mono [OF assms(1), of "inc * k" n] by simp
  have hi: "full_lower_bound xs n \<le> cache ! Suc k \<and> cache ! Suc k \<le> length xs"
  proof (cases "k < m")
    case True
    then have "k = n div inc" using k by simp
    then have "n \<le> inc * Suc k" using assms(2) by (metis dividend_less_times_div less_imp_le mult_Suc_right add.commute)
    with c(2) [of "Suc k"] True full_lower_bound_mono [OF assms(1), of n "inc * Suc k"] show ?thesis
      using full_lower_bound_le [of xs "inc * Suc k"] by simp
  next
    case False
    then have "k = m" using k by simp
    with c(3) full_lower_bound_le [of xs n] show ?thesis by simp
  qed
  have "k < length cache" "Suc k < length cache" using k c(1) by simp_all
  then have "nth_opt cache k = Some (cache ! k)" "nth_opt cache (k + 1) = Some (cache ! Suc k)"
    by (simp_all add: nth_opt_def)
  with lower_bound_range [OF assms(1) lo] hi show ?thesis by blast
qed

subsection \<open>Selection is correct\<close>

lemma SelectFrom_is_select:
  assumes view: "bit_view view g" and d: "data_ok data len" and c: "chunk_ok (chunk_size s)" "si_data s = data"
    and B: "B = map g (bits_of (take len data))"
    and counts: "length counts = Suc N" "sorted counts" "counts ! 0 = 0" "ones B \<le> counts ! N"
      "\<And>k. k < N \<Longrightarrow> counts ! k = ones (take (8 * (chunk_size s * k)) B)"
    and cache: "cache = InitLowerBoundCache counts inc m" "0 < inc"
    and n: "0 < n" "n \<le> ones B"
  shows "\<exists>p. SelectFrom view counts cache inc s n = Some p \<and> is_select B n p"
proof -
  let ?k = "min (n div inc) (length cache - 2)"
  from cached_lower_bound [OF counts(2) cache(2,1), of ?k n] obtain lo hi where
    lb: "nth_opt cache ?k = Some lo" "nth_opt cache (?k + 1) = Some hi" "lower_bound counts lo hi n = full_lower_bound counts n"
    by blast
  have l0: "full_lower_bound counts n \<noteq> 0"
    using full_lower_bound_ge [OF counts(2), of n 0] counts(1,3) n(1) by auto
  then obtain j where j: "full_lower_bound counts n = Suc j" by (cases "full_lower_bound counts n") auto
  have "\<not> N < full_lower_bound counts n"
    using full_lower_bound_less [of N counts n] counts(4) n(2) by auto
  then have jN: "j < N" using j by simp
  have before: "nth_opt counts j = Some (ones (take (8 * (chunk_size s * j)) B))"
    using jN counts(1,5) by (simp add: nth_opt_def)
  have less: "ones (take (8 * (chunk_size s * j)) B) < n"
    using full_lower_bound_less [of j counts n] counts(5) [OF jN] j by simp
  obtain q where q: "chunk_size s = 4 * q" using c(1) by (auto simp: chunk_ok_def elim!: dvdE)
  have off: "j * chunk_size s div 4 * 4 = chunk_size s * j" "4 dvd chunk_size s * j" by (simp_all add: q)
  let ?n = "n - ones (take (8 * (chunk_size s * j)) B)"
  have "0 < ?n" "ones (take (8 * (chunk_size s * j)) B) + ?n \<le> ones B" using less n(2) by simp_all
  from SelectWord_found [OF view d B off(2) this] obtain ptr rest w where
    w: "SelectWord view data (chunk_size s * j) ?n = Some (ptr, rest)" "0 < rest"
      "LoadUnaligned32 data ptr = Some w" "rest \<le> popcount (view w)"
      "map (bit (view w)) [0 ..< 32] = take 32 (drop (8 * ptr) B)" "8 * ptr + 32 \<le> length B"
      "ones (take (8 * ptr) B) + rest = n"
    using less by auto
  let ?bl = "take 32 (drop (8 * ptr) B)"
  have bl: "length ?bl = 32" using w(6) by simp
  have "popcount (view w) = ones ?bl" using w(5) by (simp add: popcount_ones del: upt_rec_numeral)
  with w(4) have rest: "rest \<le> ones ?bl" by simp
  have "bit (view w) i = ?bl ! i" if "i < length ?bl" for i
    using that bl arg_cong [OF w(5), of "\<lambda>xs. xs ! i"] by (simp del: upt_rec_numeral)
  from SelectBit_select_end [OF this rest] have sb: "SelectBit (view w) rest (ptr * 8) = Some (ptr * 8 + select_end ?bl rest)" .
  from select_end_spec [OF w(2) rest] obtain p where p: "select_end ?bl rest = Suc p" "is_select ?bl rest p"
    by (cases "select_end ?bl rest") auto
  have "SelectFrom view counts cache inc s n = Some (8 * ptr + p)"
    using n(1) unfolding SelectFrom_def Let_def lb option.case bind.bind_lunit lb(3) j before off(1) c(2) w(1)
    by (simp add: lb before off(1) c(2) w(1,3) sb p(1) j del: take_drop)
  moreover have "is_select B n (8 * ptr + p)"
  proof -
    have pl: "p < 32" using p(2) bl by (simp add: is_select_def)
    have "ones (take (8 * ptr + p) B) = ones (take (8 * ptr) B) + ones (take p ?bl)"
      using pl by (simp add: ones_take_add min_def)
    with p(2) w(2,6,7) pl show ?thesis by (simp add: is_select_def)
  qed
  ultimately show ?thesis by blast
qed

lemma Select1_select:
  assumes v: "vector_of data len s" and n: "0 < n" "n \<le> ones (bits_of (take len data))"
  shows "\<exists>p. Select1 s n = Some p \<and> is_select (bits_of (take len data)) n p"
proof -
  let ?B = "bits_of (take len data)" and ?c = "chunk_size s"
  let ?N = "(len + ?c - 1) div ?c"
  from v obtain m where cache: "lb1_cache s = InitLowerBoundCache (si_index s) (lb1_cache_increment s) m"
    by (auto simp: vector_of_def)
  have idx: "length (si_index s) = Suc ?N" "\<And>k. k < Suc ?N \<Longrightarrow> si_index s ! k = ones (take (8 * (?c * k)) ?B)"
    using v by (auto simp: vector_of_def)
  have c: "0 < ?c" "len \<le> length data" using v by (auto simp: vector_of_def chunk_ok_def data_ok_def)
  have "len \<le> ?c * ?N"
  proof -
    have "len + ?c - 1 < ?c * Suc ?N" using c(1) by (metis dividend_less_times_div mult_Suc_right add.commute)
    then show ?thesis using c(1) by simp
  qed
  then have "length ?B \<le> 8 * (?c * ?N)" using c(2) by simp
  then have lastN: "ones ?B \<le> si_index s ! ?N" using idx(2) [of ?N] by simp
  have sorted: "sorted (si_index s)"
    unfolding sorted_iff_nth_mono using idx by (auto intro!: ones_take_mono)
  have "\<exists>p. SelectFrom (\<lambda>w. w) (si_index s) (lb1_cache s) (lb1_cache_increment s) s n = Some p \<and> is_select ?B n p"
    using v idx
    by (intro SelectFrom_is_select [OF bit_view_id, where N = ?N and m = m and data = data and len = len] n cache sorted lastN)
      (auto simp: vector_of_def)
  then show ?thesis by (simp add: Select1_def)
qed

lemma ceil_bounds:
  assumes "0 < (c :: nat)"
  shows "len \<le> c * ((len + c - 1) div c)" "k < (len + c - 1) div c \<Longrightarrow> c * k < len"
proof -
  have "len + c - 1 < c * Suc ((len + c - 1) div c)"
    using assms by (metis dividend_less_times_div mult_Suc_right add.commute)
  then show "len \<le> c * ((len + c - 1) div c)" using assms by simp
  assume "k < (len + c - 1) div c"
  then have "Suc k * c \<le> (len + c - 1) div c * c" by (intro mult_le_mono1) simp
  also have "\<dots> \<le> len + c - 1" by simp
  finally have "c * Suc k \<le> len + c - 1" by (simp add: mult.commute)
  then show "c * k < len" using assms by simp
qed

lemma Select0_select:
  assumes v: "vector_of data len s" and n: "0 < n" "n \<le> ones (map Not (bits_of (take len data)))"
  shows "\<exists>p. Select0 s n = Some p \<and> is_select (map Not (bits_of (take len data))) n p"
proof -
  let ?D = "bits_of (take len data)" and ?c = "chunk_size s"
  let ?B = "map Not ?D" and ?N = "(len + ?c - 1) div ?c"
  let ?Z = "ZeroBitIndex ?c (si_index s)"
  from v obtain m where cache: "lb0_cache s = InitLowerBoundCache ?Z (lb0_cache_increment s) m"
    by (auto simp: vector_of_def)
  have c: "0 < ?c" and len: "length ?D = 8 * len" using v by (auto simp: vector_of_def chunk_ok_def data_ok_def)
  have idx: "length (si_index s) = Suc ?N" "\<And>k. k < Suc ?N \<Longrightarrow> si_index s ! k = ones (take (8 * (?c * k)) ?D)"
    using v by (auto simp: vector_of_def)
  have zn: "?Z ! k = ?c * 8 * k - ones (take (8 * (?c * k)) ?D)" if "k < Suc ?N" for k
    using idx that by (simp add: ZeroBitIndex_def del: upt_Suc)
  have z: "?Z ! k = ones (take (8 * (?c * k)) ?B)" if "k < ?N" for k
    using zn [of k] ceil_bounds(2) [OF c that] that len
    by (simp add: take_map ones_map_Not min_def)
  have zN: "ones ?B \<le> ?Z ! ?N"
    using zn [of ?N] ceil_bounds(1) [OF c, of len] len by (simp add: ones_map_Not)
  have sorted: "sorted ?Z"
    unfolding sorted_iff_nth_mono
  proof (intro allI impI)
    fix i j assume ij: "i \<le> j" "j < length ?Z"
    then have jN: "j \<le> ?N" using idx by (simp add: ZeroBitIndex_def)
    show "?Z ! i \<le> ?Z ! j"
    proof (cases "j = ?N")
      case False
      with ij jN have "i < ?N" "j < ?N" by simp_all
      with z ij(1) show ?thesis by (auto intro!: ones_take_mono)
    next
      case True
      show ?thesis
      proof (cases "i = j")
        case False
        with True ij have "i < ?N" by simp
        from z [OF this] ones_take_le [of _ ?B] zN True show ?thesis by (metis order_trans)
      qed simp
    qed
  qed
  have "\<exists>p. SelectFrom (\<lambda>w. NOT w) ?Z (lb0_cache s) (lb0_cache_increment s) s n = Some p \<and> is_select ?B n p"
    using v idx zn [of 0]
    by (intro SelectFrom_is_select [OF bit_view_not, where N = ?N and m = m and data = data and len = len] n cache sorted zN z)
      (auto simp: vector_of_def ZeroBitIndex_def)
  then show ?thesis by (simp add: Select0_def)
qed

section \<open>The interface of a bit vector\<close>

text \<open>
  What the trees and arrays on top rely on: \<open>vec s bits\<close> says that the index \<open>s\<close> stands for the list of
  bits.
\<close>

locale bit_vector =
  fixes vec :: "'s \<Rightarrow> bool list \<Rightarrow> bool"
    and get :: "'s \<Rightarrow> nat \<Rightarrow> bool option"
    and rank1 :: "'s \<Rightarrow> nat \<Rightarrow> nat option"
    and select0 :: "'s \<Rightarrow> nat \<Rightarrow> nat option"
    and select1 :: "'s \<Rightarrow> nat \<Rightarrow> nat option"
  assumes get: "vec s bits \<Longrightarrow> n < length bits \<Longrightarrow> get s n = Some (bits ! n)"
    and rank1: "vec s bits \<Longrightarrow> n \<le> length bits \<Longrightarrow> rank1 s n = Some (ones (take n bits))"
    and select0: "vec s bits \<Longrightarrow> 0 < n \<Longrightarrow> n \<le> length bits - ones bits \<Longrightarrow>
      \<exists>p. select0 s n = Some p \<and> is_select (map Not bits) n p"
    and select1: "vec s bits \<Longrightarrow> 0 < n \<Longrightarrow> n \<le> ones bits \<Longrightarrow>
      \<exists>p. select1 s n = Some p \<and> is_select bits n p"
begin

lemma select0_at:
  assumes "vec s bits" "p < length bits" "\<not> bits ! p" "n = Suc (length (filter Not (take p bits)))"
  shows "select0 s n = Some p"
proof -
  have i: "is_select (map Not bits) n p"
    using assms(2-4) by (simp add: is_select_def take_map ones_def filter_map comp_def)
  have "ones (map Not (take (Suc p) bits)) = n"
    using assms(2-4) by (simp add: take_Suc_conv_app_nth ones_def filter_map comp_def)
  with ones_take_le [of "Suc p" "map Not bits"] have "n \<le> length bits - ones bits"
    unfolding take_map ones_map_Not by simp
  moreover have "0 < n" using assms(4) by simp
  ultimately obtain q where "select0 s n = Some q" "is_select (map Not bits) n q"
    using select0 [OF assms(1)] by blast
  with is_select_unique [OF i] show ?thesis by simp
qed

lemma select1_at:
  assumes "vec s bits" "p < length bits" "bits ! p" "n = Suc (ones (take p bits))"
  shows "select1 s n = Some p"
proof -
  have i: "is_select bits n p" using assms(2-4) by (simp add: is_select_def)
  have "ones (take (Suc p) bits) = n" using assms(2-4) by (simp add: take_Suc_conv_app_nth)
  with ones_take_le [of "Suc p" bits] have "n \<le> ones bits" by simp
  moreover have "0 < n" using assms(4) by simp
  ultimately obtain q where "select1 s n = Some q" "is_select bits n q"
    using select1 [OF assms(1)] by blast
  with is_select_unique [OF i] show ?thesis by simp
qed

end

definition succinct :: "succinct_index \<Rightarrow> bool list \<Rightarrow> bool" where
  "succinct s bits \<longleftrightarrow> (\<exists>data len. vector_of data len s \<and> bits = bits_of (take len data))"

interpretation sv: bit_vector succinct GetBit Rank1 Select0 Select1
proof
  fix s bits n assume "succinct s bits"
  then obtain data len where v: "vector_of data len s" and b: "bits = bits_of (take len data)"
    by (auto simp: succinct_def)
  have l: "length bits = 8 * len" using v b by (simp add: vector_of_def data_ok_def)
  show "n < length bits \<Longrightarrow> GetBit s n = Some (bits ! n)" using GetBit_nth [OF v] l b by simp
  show "n \<le> length bits \<Longrightarrow> Rank1 s n = Some (ones (take n bits))" using Rank1_rank [OF v] l b by simp
  show "0 < n \<Longrightarrow> n \<le> length bits - ones bits \<Longrightarrow> \<exists>p. Select0 s n = Some p \<and> is_select (map Not bits) n p"
    using Select0_select [OF v] b by (simp add: ones_map_Not)
  show "0 < n \<Longrightarrow> n \<le> ones bits \<Longrightarrow> \<exists>p. Select1 s n = Some p \<and> is_select bits n p"
    using Select1_select [OF v] b by simp
qed

section \<open>What a bit stream holds\<close>

definition streams :: "bit_stream \<Rightarrow> bool list \<Rightarrow> bool" where
  "streams s bits \<longleftrightarrow>
     num_bits s = length bits \<and> length (bs_image s) = (length bits + 7) div 8 \<and>
     bits_of (bs_image s) = bits @ replicate (8 * length (bs_image s) - length bits) False"

lemma streams_New: "streams NewBitStream []"
  by (simp add: streams_def NewBitStream_def)

lemma bits_of_zero: "bits_of [0] = replicate 8 False"
  by (simp add: numeral_eq_Suc)

lemma map_bit_or:
  assumes "k < 8"
  shows "map (bit (w OR push_bit k (if b then 1 else 0) :: byte)) [0 ..< 8] =
    (map (bit w) [0 ..< 8])[k := bit w k \<or> b]"
  using assms
  by (intro nth_equalityI) (auto simp: bit_simps nth_list_update simp del: upt_rec_numeral)

lemma streams_PushBit:
  assumes "streams s bits"
  shows "streams (PushBit b s) (bits @ [b])"
proof -
  define q where "q = length bits div 8"
  define k where "k = length bits mod 8"
  have lb: "length bits = 8 * q + k" and k8: "k < 8" by (simp_all add: q_def k_def)
  define img where "img = (if k = 0 then bs_image s @ [0] else bs_image s)"
  have s: "num_bits s = 8 * q + k" "length (bs_image s) = (8 * q + k + 7) div 8"
    "bits_of (bs_image s) = bits @ replicate (8 * length (bs_image s) - length bits) False"
    using assms lb by (auto simp: streams_def)
  have ceil: "(8 * q + k + 7) div 8 = (if k = 0 then q else Suc q)"
    using k8 by (auto intro: div_nat_eqI)
  have li: "length img = Suc q" using s(2) ceil by (simp add: img_def)
  have bi: "bits_of img = bits @ replicate (8 - k) False"
    using s(2,3) lb ceil bits_of_zero by (auto simp: img_def simp del: bits_of_simps(2))
  obtain init w where iw: "img = init @ [w]" using li by (cases img rule: rev_cases) auto
  have linit: "length init = q" using li iw by simp
  have ld: "length (drop (8 * q) bits) = k" using lb by simp
  have "bits_of init @ map (bit w) [0 ..< 8] = take (8 * q) bits @ drop (8 * q) bits @ replicate (8 - k) False"
    using bi iw by simp
  then have parts: "bits_of init = take (8 * q) bits" "map (bit w) [0 ..< 8] = drop (8 * q) bits @ replicate (8 - k) False"
    using linit lb by (simp_all add: append_eq_append_conv)
  have "bit w k = (map (bit w) [0 ..< 8]) ! k" using k8 by (simp del: upt_rec_numeral)
  also have "\<dots> = False" unfolding parts(2) using ld k8 by (simp add: nth_append)
  finally have zero: "bit w k = False" .
  have rep: "replicate (8 - k) False = False # replicate (7 - k) False"
  proof -
    have "8 - k = Suc (7 - k)" using k8 by linarith
    then show ?thesis by simp
  qed
  have "map (bit (w OR push_bit k (if b then 1 else 0))) [0 ..< 8] = drop (8 * q) bits @ b # replicate (7 - k) False"
    unfolding map_bit_or [OF k8] zero parts(2) rep using ld by (simp add: list_update_append)
  then have new: "bits_of (init @ [w OR push_bit k (if b then 1 else 0)]) =
      take (8 * q) bits @ drop (8 * q) bits @ b # replicate (7 - k) False"
    using parts(1) by (simp del: upt_rec_numeral append_take_drop_id)
  have img': "bs_image (PushBit b s) = init @ [w OR push_bit k (if b then 1 else 0)]"
    using iw s(1) k8 by (simp add: PushBit_def Let_def img_def [symmetric])
  have n: "num_bits (PushBit b s) = 8 * q + k + 1" using s(1) by (simp add: PushBit_def Let_def)
  have "(8 * q + k + 1 + 7) div 8 = Suc q" using k8 by (auto intro: div_nat_eqI)
  then show ?thesis
    unfolding streams_def img' n new using linit lb k8 by simp
qed

lemma FillPadding32_bits:
  assumes "streams s bits"
  obtains k where "bits_of (bs_image (FillPadding32 s)) = bits @ replicate k False"
    "4 dvd ByteSize (FillPadding32 s)" "length bits + k = 8 * ByteSize (FillPadding32 s)"
proof -
  let ?n = "length (bs_image s)"
  have z: "bits_of (replicate m 0) = replicate (8 * m) False" for m
  proof (induction m)
    case (Suc m)
    then show ?case using bits_of_zero bits_of_simps(3) [of "[0]" "replicate m 0"]
      by (simp del: bits_of_simps(2)) (simp add: replicate_add [symmetric] del: bits_of_simps)
  qed simp
  have s: "bits_of (bs_image s) = bits @ replicate (8 * ?n - length bits) False" "length bits \<le> 8 * ?n"
    using assms by (auto simp: streams_def)
  have "4 dvd ?n + (if ?n mod 4 \<noteq> 0 then 4 - ?n mod 4 else 0)"
    by (auto simp: mod_eq_0_iff_dvd) presburger
  moreover obtain m where m: "bs_image (FillPadding32 s) = bs_image s @ replicate m 0"
    "m = (if ?n mod 4 \<noteq> 0 then 4 - ?n mod 4 else 0)"
    by (auto simp: FillPadding32_def Let_def)
  moreover have "bits_of (bs_image (FillPadding32 s)) = bits @ replicate (8 * ?n - length bits + 8 * m) False"
    unfolding m(1) using s z by (simp flip: replicate_add)
  ultimately show ?thesis using that [of "8 * ?n - length bits + 8 * m"] s(2) by (simp add: ByteSize_def)
qed

lemma byte_of_nat_bit: "i < 8 \<Longrightarrow> bit (of_nat (v div 2 ^ j mod 256) :: byte) i = bit v (j + i)"
proof -
  assume "i < 8"
  have "v div 2 ^ j mod 256 = take_bit 8 (drop_bit j v)" by (simp add: take_bit_eq_mod drop_bit_eq_div)
  with \<open>i < 8\<close> show ?thesis by (simp add: bit_of_nat_iff bit_take_bit_iff bit_drop_bit_eq)
qed

lemma PushInt32_load:
  assumes "PushInt32 v img = Some img'"
  obtains bs where "img' = img @ bs" "length bs = 4" "v < 2 ^ 32" "unat (load_le bs :: 32 word) = v"
proof -
  let ?bs = "[of_nat (v mod 256), of_nat (v div 2 ^ 8 mod 256), of_nat (v div 2 ^ 16 mod 256),
      of_nat (v div 2 ^ 24 mod 256)] :: bytes"
  from assms have v: "v < 2 ^ 32" and i: "img' = img @ ?bs" by (auto simp: PushInt32_def split: if_splits)
  have b: "?bs = map (\<lambda>j. of_nat (v div 2 ^ (8 * j) mod 256)) [0, 1, 2, 3]" by simp
  have nth: "?bs ! j = of_nat (v div 2 ^ (8 * j) mod 256)" if "j < 4" for j
  proof -
    have "[0, 1, 2, 3] ! j = j" using that by (auto simp: less_Suc_eq numeral_eq_Suc)
    then show ?thesis unfolding b using that by (subst nth_map) simp_all
  qed
  have "bit (load_le ?bs :: 32 word) n = bit (of_nat v :: 32 word) n" if "n < LENGTH(32)" for n
  proof -
    have n: "n div 8 < 4" "n mod 8 < 8" "8 * (n div 8) + n mod 8 = n" using that by (simp_all add: div_less_iff_less_mult)
    have "bit (?bs ! (n div 8)) (n mod 8) = bit v n"
      unfolding nth [OF n(1)] using byte_of_nat_bit [OF n(2)] n(3) by simp
    moreover have "length ?bs = 4" by simp
    ultimately show ?thesis using that n(1) by (simp only: bit_load_le) (simp add: bit_of_nat_iff)
  qed
  then have "(load_le ?bs :: 32 word) = of_nat v" by (rule bit_word_eqI)
  then have "unat (load_le ?bs :: 32 word) = v" using v by (simp only: unat_of_nat) simp
  with that [of ?bs] i v show ?thesis by simp
qed

section \<open>Properties\<close>



end
