(* ===== verification/Louds.thy ===== *)
theory Louds
  imports BitVector
begin

text \<open>
  The tree coding of \<^verbatim>\<open>src/src/storage/louds/louds.cc\<close> and \<^verbatim>\<open>louds.h\<close>: a tree is a list of bits, each node's
  children as 1-bits closed by a 0-bit, and a move is a Select on that list. \<open>louds_bits\<close> writes the bits for a
  list of degrees, \<open>tree_node\<close> is the child number \<open>j\<close> of node \<open>i\<close>, and the lemmas show what each move returns
  there. The select caches only shorten the search: \<open>louds_for\<close> says that they agree with Select.
\<close>

section \<open>LOUDS: storage/louds/louds.cc and louds.h\<close>

record louds_node =
  edge_index :: nat
  node_id :: nat

definition RootNode :: louds_node where
  "RootNode = \<lparr>edge_index = 0, node_id = 1\<rparr>"

text \<open>The select cache is one array; the part for Select1 starts at \<open>select0_cache_size\<close>.\<close>

record louds =
  lo_index :: succinct_index
  select0_cache_size :: nat
  select1_cache_size :: nat
  select_cache :: "nat list"

definition NewLouds :: louds where
  "NewLouds = \<lparr>lo_index = NewIndex 32, select0_cache_size = 0, select1_cache_size = 0, select_cache = []\<rparr>"

definition LoudsInit :: "bytes \<Rightarrow> nat \<Rightarrow> nat \<Rightarrow> nat \<Rightarrow> nat \<Rightarrow> nat \<Rightarrow> louds \<Rightarrow> louds option" where
  "LoudsInit img len lb0 lb1 select0_size select1_size l =
     do {
       index \<leftarrow> InitVector img len lb0 lb1 (lo_index l);
       let s0 = min select0_size (GetNum0Bits index);
       let s1 = min select1_size (GetNum1Bits index);
       let l1 = l\<lparr>lo_index := index, select0_cache_size := s0, select1_cache_size := s1\<rparr>;
       if s0 + s1 = 0 then Some l1
       else do {
         c0 \<leftarrow> those (map (\<lambda>i. map_option Suc (Select0 index i)) [1 ..< s0]);
         c1 \<leftarrow> those (map (\<lambda>i. Select1 index i) [1 ..< s1]);
         Some (l1\<lparr>select_cache := (if 0 < s0 then 0 # c0 else []) @ (if 0 < s1 then 0 # c1 else [])\<rparr>) } }"

definition LoudsReset :: "louds \<Rightarrow> louds" where
  "LoudsReset l = \<lparr>lo_index = ResetVector (lo_index l), select0_cache_size = 0, select1_cache_size = 0, select_cache = []\<rparr>"

definition EdgeOfNode :: "louds \<Rightarrow> nat \<Rightarrow> nat option" where
  "EdgeOfNode l i =
     (if i < select1_cache_size l then nth_opt (select_cache l) (select0_cache_size l + i)
      else Select1 (lo_index l) i)"

definition InitNodeFromNodeId :: "louds \<Rightarrow> nat \<Rightarrow> louds_node option" where
  "InitNodeFromNodeId l i = map_option (\<lambda>e. \<lparr>edge_index = e, node_id = i\<rparr>) (EdgeOfNode l i)"

definition IsRoot :: "louds_node \<Rightarrow> bool" where
  "IsRoot node \<longleftrightarrow> node_id node = 1"

definition MoveToFirstChild :: "louds \<Rightarrow> louds_node \<Rightarrow> louds_node option" where
  "MoveToFirstChild l node =
     do {
       e \<leftarrow> (if node_id node < select0_cache_size l then nth_opt (select_cache l) (node_id node)
            else map_option Suc (Select0 (lo_index l) (node_id node)));
       Some \<lparr>edge_index = e, node_id = e - node_id node + 1\<rparr> }"

definition MoveToNextSibling :: "louds_node \<Rightarrow> louds_node" where
  "MoveToNextSibling node = \<lparr>edge_index = edge_index node + 1, node_id = node_id node + 1\<rparr>"

definition MoveToParent :: "louds \<Rightarrow> louds_node \<Rightarrow> louds_node option" where
  "MoveToParent l node =
     do {
       let i = edge_index node - node_id node + 1;
       e \<leftarrow> EdgeOfNode l i;
       Some \<lparr>edge_index = e, node_id = i\<rparr> }"

definition IsValidNode :: "louds \<Rightarrow> louds_node \<Rightarrow> bool option" where
  "IsValidNode l node = GetBit (lo_index l) (edge_index node)"

section \<open>The caches are transparent\<close>

definition louds_for :: "louds \<Rightarrow> bool list \<Rightarrow> bool" where
  "louds_for l bits \<longleftrightarrow>
     succinct (lo_index l) bits \<and>
     (\<forall>i. 0 < i \<and> i < select0_cache_size l \<longrightarrow>
        nth_opt (select_cache l) i = map_option Suc (Select0 (lo_index l) i)) \<and>
     (\<forall>i. 0 < i \<and> i < select1_cache_size l \<longrightarrow>
        nth_opt (select_cache l) (select0_cache_size l + i) = Select1 (lo_index l) i)"

lemma those_map_Some:
  "(\<And>x. x \<in> set xs \<Longrightarrow> f x \<noteq> None) \<Longrightarrow> those (map f xs) = Some (map (\<lambda>x. the (f x)) xs)"
proof (induction xs)
  case (Cons a xs)
  from Cons.prems [of a] obtain y where "f a = Some y" by auto
  with Cons show ?case by simp
qed simp

lemma vector_counts:
  assumes "vector_of data len s"
  shows "GetNum1Bits s = ones (bits_of (take len data))"
    "GetNum0Bits s = length (bits_of (take len data)) - ones (bits_of (take len data))"
proof -
  let ?c = "chunk_size s" and ?N = "(len + chunk_size s - 1) div chunk_size s"
  have v: "0 < ?c" "len \<le> length data" "length (si_index s) = Suc ?N" "si_length s = len"
    "\<And>k. k < Suc ?N \<Longrightarrow> si_index s ! k = rank data len (8 * (?c * k))"
    using assms by (auto simp: vector_of_def chunk_ok_def data_ok_def)
  have "last (si_index s) = si_index s ! ?N"
    using v(3) by (metis diff_Suc_1 last_conv_nth list.size(3) nat.distinct(1))
  then have "last (si_index s) = ones (bits_of (take len data))"
    using v(2) v(5) [of ?N] ceil_bounds(1) [OF v(1), of len] by simp
  then show "GetNum1Bits s = ones (bits_of (take len data))"
    "GetNum0Bits s = length (bits_of (take len data)) - ones (bits_of (take len data))"
    using v by (simp_all add: GetNum1Bits_def GetNum0Bits_def)
qed

lemma LoudsInit_louds:
  assumes "data_ok img len" "chunk_ok (chunk_size (lo_index l))"
  shows "\<exists>l'. LoudsInit img len lb0 lb1 s0 s1 l = Some l' \<and> louds_for l' (bits_of (take len img))"
proof -
  let ?bits = "bits_of (take len img)"
  from InitVector_vector [OF assms(2,1)] obtain index where
    i: "InitVector img len lb0 lb1 (lo_index l) = Some index" "vector_of img len index" by blast
  then have v: "succinct index ?bits" by (auto simp: succinct_def)
  let ?s0 = "min s0 (GetNum0Bits index)" and ?s1 = "min s1 (GetNum1Bits index)"
  have some0: "Select0 index k \<noteq> None" if "0 < k" "k < ?s0" for k
    using sv.select0 [OF v that(1)] that(2) vector_counts [OF i(2)] by auto
  have some1: "Select1 index k \<noteq> None" if "0 < k" "k < ?s1" for k
    using sv.select1 [OF v that(1)] that(2) vector_counts [OF i(2)] by auto
  show ?thesis
  proof (cases "?s0 + ?s1 = 0")
    case True
    then show ?thesis using i(1) v by (simp add: LoudsInit_def Let_def louds_for_def)
  next
    case False
    have c0: "those (map (\<lambda>i. map_option Suc (Select0 index i)) [1 ..< ?s0]) =
        Some (map (\<lambda>i. the (map_option Suc (Select0 index i))) [1 ..< ?s0])"
      using some0 by (intro those_map_Some) auto
    have c1: "those (map (\<lambda>i. Select1 index i) [1 ..< ?s1]) = Some (map (\<lambda>i. the (Select1 index i)) [1 ..< ?s1])"
      using some1 by (intro those_map_Some) auto
    let ?c0 = "if 0 < ?s0 then 0 # map (\<lambda>i. the (map_option Suc (Select0 index i))) [1 ..< ?s0] else []"
    let ?c1 = "if 0 < ?s1 then 0 # map (\<lambda>i. the (Select1 index i)) [1 ..< ?s1] else []"
    let ?l = "l\<lparr>lo_index := index, select0_cache_size := ?s0, select1_cache_size := ?s1, select_cache := ?c0 @ ?c1\<rparr>"
    have r: "LoudsInit img len lb0 lb1 s0 s1 l = Some ?l"
      unfolding LoudsInit_def Let_def i(1) bind.bind_lunit c0 c1 if_not_P [OF False] by simp
    have l0: "length ?c0 = ?s0" "length ?c1 = ?s1" by auto
    have n0: "nth_opt (?c0 @ ?c1) k = map_option Suc (Select0 index k)" if "0 < k" "k < ?s0" for k
    proof -
      from that have "(?c0 @ ?c1) ! k = ?c0 ! k" unfolding nth_append l0 by simp
      also have "\<dots> = the (map_option Suc (Select0 index k))" using that by (cases k) auto
      finally show ?thesis using some0 [OF that] that l0 unfolding nth_opt_def by auto
    qed
    have n1: "nth_opt (?c0 @ ?c1) (?s0 + k) = Select1 index k" if "0 < k" "k < ?s1" for k
    proof -
      have "(?c0 @ ?c1) ! (?s0 + k) = ?c1 ! k" using nth_append_length_plus [of ?c0 ?c1 k] unfolding l0 .
      also have "\<dots> = the (Select1 index k)" using that by (cases k) auto
      finally show ?thesis using some1 [OF that] that l0 unfolding nth_opt_def by auto
    qed
    show ?thesis unfolding r using n0 n1 v by (simp add: louds_for_def)
  qed
qed

lemma EdgeOfNode_select:
  "louds_for l bits \<Longrightarrow> 0 < i \<Longrightarrow> EdgeOfNode l i = Select1 (lo_index l) i"
  by (simp add: EdgeOfNode_def louds_for_def)

lemma MoveToFirstChild_select:
  "louds_for l bits \<Longrightarrow> 0 < node_id node \<Longrightarrow> MoveToFirstChild l node =
     map_option (\<lambda>p. \<lparr>edge_index = Suc p, node_id = Suc p - node_id node + 1\<rparr>) (Select0 (lo_index l) (node_id node))"
  by (cases "Select0 (lo_index l) (node_id node)") (auto simp: MoveToFirstChild_def louds_for_def)

section \<open>Moving in the tree\<close>

text \<open>
  The tree is given by the degrees \<open>ds\<close> of its nodes in breadth-first order, the super-root first.
  \<open>tree_node ds i j\<close> is the child number \<open>j\<close> of the node with id \<open>i\<close>.
\<close>

definition louds_bits :: "nat list \<Rightarrow> bool list" where
  "louds_bits ds = concat (map (\<lambda>d. replicate d True @ [False]) ds)"

definition tree_node :: "nat list \<Rightarrow> nat \<Rightarrow> nat \<Rightarrow> louds_node" where
  "tree_node ds i j = \<lparr>edge_index = sum_list (take i ds) + i + j, node_id = 1 + sum_list (take i ds) + j\<rparr>"

lemma louds_bits_simps [simp]:
  "louds_bits [] = []" "louds_bits (d # ds) = replicate d True @ False # louds_bits ds"
  "louds_bits (xs @ ys) = louds_bits xs @ louds_bits ys"
  by (simp_all add: louds_bits_def)

lemma louds_bits_counts [simp]:
  "length (louds_bits ds) = sum_list ds + length ds" "ones (louds_bits ds) = sum_list ds"
  by (induction ds) auto

lemma louds_bits_at:
  assumes "i < length ds" "j \<le> ds ! i"
  defines "p \<equiv> sum_list (take i ds) + i + j"
  shows "p < length (louds_bits ds @ pad)" "(louds_bits ds @ pad) ! p \<longleftrightarrow> j < ds ! i"
    "ones (take p (louds_bits ds @ pad)) = sum_list (take i ds) + j"
proof -
  let ?rest = "louds_bits (drop (Suc i) ds) @ pad"
  have ds: "ds = take i ds @ ds ! i # drop (Suc i) ds" using assms(1) by (rule id_take_nth_drop)
  then have B: "louds_bits ds @ pad = louds_bits (take i ds) @ replicate (ds ! i) True @ False # ?rest"
    by (metis append.assoc append_Cons louds_bits_simps(2,3))
  have l: "length (louds_bits (take i ds)) = sum_list (take i ds) + i" using assms(1) by simp
  show "p < length (louds_bits ds @ pad)" unfolding B p_def using l assms(2) by simp
  show "(louds_bits ds @ pad) ! p \<longleftrightarrow> j < ds ! i"
    unfolding B p_def using l assms(2) by (auto simp: nth_append)
  have "take p (louds_bits ds @ pad) = louds_bits (take i ds) @ replicate j True"
    unfolding B p_def using l assms(2) by (simp add: min_def)
  then show "ones (take p (louds_bits ds @ pad)) = sum_list (take i ds) + j" by simp
qed

lemma zeros_before: "length (filter Not (take p bits)) = length (take p bits) - ones (take p bits)"
proof -
  have "length (filter Not xs) + ones xs = length xs" for xs by (induction xs) auto
  then show ?thesis by (metis add_diff_cancel_right')
qed

lemma IsValidNode_tree:
  assumes "louds_for l (louds_bits ds @ pad)" "i < length ds" "j \<le> ds ! i"
  shows "IsValidNode l (tree_node ds i j) = Some (j < ds ! i)"
  using sv.get [of "lo_index l" "louds_bits ds @ pad"] louds_bits_at [OF assms(2,3)] assms(1)
  by (simp add: IsValidNode_def tree_node_def louds_for_def)

lemma MoveToNextSibling_tree: "MoveToNextSibling (tree_node ds i j) = tree_node ds i (Suc j)"
  by (simp add: MoveToNextSibling_def tree_node_def)

lemma MoveToFirstChild_tree:
  assumes "louds_for l (louds_bits ds @ pad)" "0 < node_id node" "node_id node < length ds"
  shows "MoveToFirstChild l node = Some (tree_node ds (node_id node) 0)"
proof -
  obtain i where i: "node_id node = Suc i" using assms(2) by (cases "node_id node") auto
  let ?p = "sum_list (take i ds) + i + ds ! i"
  have il: "i < length ds" using assms(3) i by simp
  note at = louds_bits_at [OF il order_refl, of pad]
  have "length (take ?p (louds_bits ds @ pad)) = ?p" using at(1) by simp
  then have z: "Suc i = Suc (length (filter Not (take ?p (louds_bits ds @ pad))))"
    unfolding zeros_before at(3) by simp
  have "Select0 (lo_index l) (Suc i) = Some ?p"
    using assms(1) at by (intro sv.select0_at [OF _ _ _ z]) (auto simp: louds_for_def)
  with i il show ?thesis
    by (simp add: MoveToFirstChild_select [OF assms(1)] tree_node_def take_Suc_conv_app_nth)
qed

lemma EdgeOfNode_tree:
  assumes "louds_for l (louds_bits ds @ pad)" "i < length ds" "j < ds ! i"
  shows "EdgeOfNode l (node_id (tree_node ds i j)) = Some (edge_index (tree_node ds i j))"
proof -
  have "Select1 (lo_index l) (1 + sum_list (take i ds) + j) = Some (sum_list (take i ds) + i + j)"
    using assms louds_bits_at [of i ds j pad] by (intro sv.select1_at) (auto simp: louds_for_def)
  with assms(1) show ?thesis by (simp add: EdgeOfNode_select tree_node_def)
qed

lemma InitNodeFromNodeId_tree:
  assumes "louds_for l (louds_bits ds @ pad)" "i < length ds" "j < ds ! i"
  shows "InitNodeFromNodeId l (node_id (tree_node ds i j)) = Some (tree_node ds i j)"
  using EdgeOfNode_tree [OF assms] by (simp add: InitNodeFromNodeId_def)

lemma MoveToParent_tree:
  assumes "louds_for l (louds_bits ds @ pad)" "i < length ds" "j < ds ! i" "node_id (tree_node ds i j) = k"
  shows "MoveToParent l (tree_node ds k m) = Some (tree_node ds i j)"
proof -
  have "edge_index (tree_node ds k m) - node_id (tree_node ds k m) + 1 = k"
    using assms(4) by (simp add: tree_node_def)
  moreover have "EdgeOfNode l k = Some (edge_index (tree_node ds i j))"
    using EdgeOfNode_tree [OF assms(1-3)] assms(4) by simp
  ultimately show ?thesis using assms(4) by (simp add: MoveToParent_def Let_def)
qed

lemma RootNode_tree: "RootNode = tree_node ds 0 0"
  by (simp add: RootNode_def tree_node_def)

end
