(* ===== verification/LoudsBuild.thy ===== *)
theory LoudsBuild
  imports Louds "HOL-Library.List_Lexorder"
begin

text \<open>
  The trie of \<^verbatim>\<open>src/src/storage/louds/louds_trie.cc\<close> and its builder \<^verbatim>\<open>louds_trie_builder.cc\<close>. The definitions come
  first; then what the builder's level-order pass over the sorted words writes: the bits of the tree of all
  prefixes (\<open>nodes\<close>, \<open>children\<close>), one terminal bit and one character a node, and the id of each word.
\<close>

section \<open>The trie: storage/louds/louds\_trie.cc and louds\_trie.h\<close>

definition kMaxDepth :: nat where "kMaxDepth = 256"

record louds_trie =
  lt_louds :: louds
  terminal_bit_vector :: succinct_index
  edge_character :: bytes

definition NewTrie :: louds_trie where
  "NewTrie = \<lparr>lt_louds = NewLouds, terminal_bit_vector = NewIndex 32, edge_character = []\<rparr>"

text \<open>\<^verbatim>\<open>LoadUnalignedAdvance<uint32_t>\<close>: the number and the advanced pointer.\<close>

definition LoadAdvance32 :: "bytes \<Rightarrow> (nat \<times> bytes) option" where
  "LoadAdvance32 p = map_option (\<lambda>w. (unat w, drop 4 p)) (LoadUnaligned32 p 0)"

definition TrieOpen :: "bytes \<Rightarrow> nat \<Rightarrow> nat \<Rightarrow> nat \<Rightarrow> nat \<Rightarrow> nat \<Rightarrow> louds_trie \<Rightarrow> louds_trie option" where
  "TrieOpen img lb0 lb1 select0_size select1_size termvec_lb1 t =
     do {
       (louds_size, img1) \<leftarrow> LoadAdvance32 img;
       (terminal_size, img2) \<leftarrow> LoadAdvance32 img1;
       (num_character_bits, img3) \<leftarrow> LoadAdvance32 img2;
       (edge_character_size, louds_image) \<leftarrow> LoadAdvance32 img3;
       if num_character_bits \<noteq> 8 \<or> edge_character_size = 0 then None
       else do {
         let terminal_image = drop louds_size louds_image;
         let edges = drop terminal_size terminal_image;
         l \<leftarrow> LoudsInit louds_image louds_size lb0 lb1 select0_size select1_size (lt_louds t);
         v \<leftarrow> InitVector terminal_image terminal_size 0 termvec_lb1 (terminal_bit_vector t);
         Some \<lparr>lt_louds = l, terminal_bit_vector = v, edge_character = edges\<rparr> } }"

definition TrieClose :: "louds_trie \<Rightarrow> louds_trie" where
  "TrieClose t =
     \<lparr>lt_louds = LoudsReset (lt_louds t), terminal_bit_vector = ResetVector (terminal_bit_vector t),
      edge_character = []\<rparr>"

definition IsTerminalNode :: "louds_trie \<Rightarrow> louds_node \<Rightarrow> bool option" where
  "IsTerminalNode t node = GetBit (terminal_bit_vector t) (node_id node - 1)"

definition GetEdgeLabelToParentNode :: "louds_trie \<Rightarrow> louds_node \<Rightarrow> byte option" where
  "GetEdgeLabelToParentNode t node = nth_opt (edge_character t) (node_id node - 1)"

definition GetKeyIdOfTerminalNode :: "louds_trie \<Rightarrow> louds_node \<Rightarrow> nat option" where
  "GetKeyIdOfTerminalNode t node = Rank1 (terminal_bit_vector t) (node_id node - 1)"

definition GetTerminalNodeFromKeyId :: "louds_trie \<Rightarrow> nat \<Rightarrow> louds_node option" where
  "GetTerminalNodeFromKeyId t key_id =
     do { p \<leftarrow> Select1 (terminal_bit_vector t) (key_id + 1); InitNodeFromNodeId (lt_louds t) (p + 1) }"

text \<open>The loop of \<^verbatim>\<open>MoveToChildByLabel\<close> over the siblings.\<close>

function FindSibling :: "louds_trie \<Rightarrow> byte \<Rightarrow> louds_node \<Rightarrow> (bool \<times> louds_node) option" where
  "FindSibling t label node =
     (case IsValidNode (lt_louds t) node of
        None \<Rightarrow> None
      | Some valid \<Rightarrow>
          if valid
          then (case GetEdgeLabelToParentNode t node of
                  None \<Rightarrow> None
                | Some c \<Rightarrow> if c = label then Some (True, node) else FindSibling t label (MoveToNextSibling node))
          else Some (False, node))"
  by pat_completeness auto
termination
  by (relation "measure (\<lambda>(t, c, node). 8 * length (si_data (lo_index (lt_louds t))) - edge_index node)")
    (auto simp: IsValidNode_def GetBit_def MoveToNextSibling_def split: if_splits)

declare FindSibling.simps [simp del]

definition MoveToChildByLabel :: "louds_trie \<Rightarrow> byte \<Rightarrow> louds_node \<Rightarrow> (bool \<times> louds_node) option" where
  "MoveToChildByLabel t label node =
     do { child \<leftarrow> MoveToFirstChild (lt_louds t) node; FindSibling t label child }"

fun Traverse :: "louds_trie \<Rightarrow> bytes \<Rightarrow> louds_node \<Rightarrow> (bool \<times> louds_node) option" where
  "Traverse t [] node = Some (True, node)"
| "Traverse t (c # key) node =
     do {
       (found, node') \<leftarrow> MoveToChildByLabel t c node;
       if found then Traverse t key node' else Some (False, node') }"

definition HasKey :: "louds_trie \<Rightarrow> bytes \<Rightarrow> bool option" where
  "HasKey t key =
     do { (found, node) \<leftarrow> Traverse t key RootNode; if found then IsTerminalNode t node else Some False }"

definition ExactSearch :: "louds_trie \<Rightarrow> bytes \<Rightarrow> int option" where
  "ExactSearch t key =
     do {
       (found, node) \<leftarrow> Traverse t key RootNode;
       terminal \<leftarrow> (if found then IsTerminalNode t node else Some False);
       if terminal then map_option int (GetKeyIdOfTerminalNode t node) else Some (-1) }"

text \<open>\<^verbatim>\<open>PrefixSearch\<close>: the prefix lengths and nodes its callback is run with, in order.\<close>

fun PrefixSearchFrom :: "louds_trie \<Rightarrow> bytes \<Rightarrow> nat \<Rightarrow> louds_node \<Rightarrow> (nat \<times> louds_node) list option" where
  "PrefixSearchFrom t [] i node = Some []"
| "PrefixSearchFrom t (c # key) i node =
     do {
       (found, node') \<leftarrow> MoveToChildByLabel t c node;
       if found
       then do {
         terminal \<leftarrow> IsTerminalNode t node';
         rest \<leftarrow> PrefixSearchFrom t key (i + 1) node';
         Some (if terminal then (i + 1, node') # rest else rest) }
       else Some [] }"

definition PrefixSearch :: "louds_trie \<Rightarrow> bytes \<Rightarrow> (nat \<times> louds_node) list option" where
  "PrefixSearch t key = PrefixSearchFrom t key 0 RootNode"

text \<open>
  \<^verbatim>\<open>RestoreKeyString\<close> fills a buffer of \<^verbatim>\<open>kMaxDepth\<close> characters backward; \<open>space\<close> is the room left in front
  of the pointer, and writing in front of the buffer is None.
\<close>

fun RestoreLoop :: "louds_trie \<Rightarrow> nat \<Rightarrow> louds_node \<Rightarrow> bytes \<Rightarrow> bytes option" where
  "RestoreLoop t space node ptr =
     (if IsRoot node then Some ptr
      else (case space of
              0 \<Rightarrow> None
            | Suc space' \<Rightarrow>
                do {
                  c \<leftarrow> GetEdgeLabelToParentNode t node;
                  parent \<leftarrow> MoveToParent (lt_louds t) node;
                  RestoreLoop t space' parent (c # ptr) }))"

declare RestoreLoop.simps [simp del]

definition RestoreKeyOfNode :: "louds_trie \<Rightarrow> louds_node \<Rightarrow> bytes option" where
  "RestoreKeyOfNode t node = RestoreLoop t kMaxDepth node []"

definition RestoreKeyOfId :: "louds_trie \<Rightarrow> int \<Rightarrow> bytes option" where
  "RestoreKeyOfId t key_id =
     (if key_id < 0 then Some []
      else do { node \<leftarrow> GetTerminalNodeFromKeyId t (nat key_id); RestoreKeyOfNode t node })"

section \<open>The builder: storage/louds/louds\_trie\_builder.cc\<close>

record trie_builder =
  built :: bool
  word_list :: "bytes list"
  id_list :: "int list"
  tb_image :: bytes

definition NewTrieBuilder :: trie_builder where
  "NewTrieBuilder = \<lparr>built = False, word_list = [], id_list = [], tb_image = []\<rparr>"

text \<open>\<^verbatim>\<open>Add\<close>; None where a \<^verbatim>\<open>CHECK\<close> fails.\<close>

definition TrieAdd :: "bytes \<Rightarrow> trie_builder \<Rightarrow> trie_builder option" where
  "TrieAdd word b = (if built b \<or> word = [] then None else Some (b\<lparr>word_list := word_list b @ [word]\<rparr>))"

text \<open>The streams and counters of \<^verbatim>\<open>Build\<close>. An entry is a word with its index in the word list.\<close>

record build_state =
  trie_stream :: bit_stream
  terminal_stream :: bit_stream
  edge_characters :: bytes
  ids :: "int list"
  next_id :: nat

fun BuildLevel :: "nat \<Rightarrow> bytes option \<Rightarrow> (bytes \<times> nat) list \<Rightarrow> build_state \<Rightarrow> build_state" where
  "BuildLevel depth prev [] st = st"
| "BuildLevel depth prev ((word, index) # entries) st =
     (let st1 =
        (if depth < length word \<and> (prev = None \<or> take (depth + 1) word \<noteq> take (depth + 1) (the prev))
         then let st0 = st\<lparr>trie_stream := PushBit True (trie_stream st),
                           edge_characters := edge_characters st @ [word ! depth]\<rparr>
              in if length word = depth + 1
                 then st0\<lparr>terminal_stream := PushBit True (terminal_stream st0),
                          ids := (ids st0)[index := int (next_id st0)], next_id := next_id st0 + 1\<rparr>
                 else st0\<lparr>terminal_stream := PushBit False (terminal_stream st0)\<rparr>
         else st);
        st2 =
        (if entries = [] \<or> take depth word \<noteq> take depth (fst (hd entries))
         then st1\<lparr>trie_stream := PushBit False (trie_stream st1)\<rparr> else st1)
      in BuildLevel depth (Some word) entries st2)"

lemma levels_shrink:
  fixes entries :: "('a list \<times> 'b) list"
    and depth :: nat
  assumes "entries \<noteq> []"
  defines "f \<equiv> \<lambda>d e. Suc (length (fst e)) - d" and "rest \<equiv> filter (\<lambda>e. \<not> length (fst e) < depth + 1) entries"
  shows "sum_list (map (f (Suc depth)) rest) < sum_list (map (f depth) entries) \<or>
     sum_list (map (f (Suc depth)) rest) = sum_list (map (f depth) entries) \<and> length rest < length entries"
proof (cases "rest = []")
  case True
  with assms(1) show ?thesis by auto
next
  case False
  have sum: "sum_list (map (f (Suc depth)) (filter (\<lambda>e. \<not> length (fst e) < depth + 1) es)) +
      length (filter (\<lambda>e. \<not> length (fst e) < depth + 1) es) \<le> sum_list (map (f depth) es)" for es
    by (induction es) (auto simp: f_def)
  from sum [of entries] False show ?thesis unfolding rest_def [symmetric] by (cases rest) auto
qed

function BuildLevels :: "nat \<Rightarrow> (bytes \<times> nat) list \<Rightarrow> build_state \<Rightarrow> build_state" where
  "BuildLevels depth entries st =
     (if entries = [] then st
      else BuildLevels (depth + 1) (filter (\<lambda>e. \<not> length (fst e) < depth + 1) entries)
             (BuildLevel depth None entries st))"
  by pat_completeness auto
termination
  by (relation "inv_image (less_than <*lex*> less_than)
      (\<lambda>(depth, entries, st). (sum_list (map (\<lambda>e. Suc (length (fst e)) - depth) entries), length entries))")
    (use levels_shrink in auto)

declare BuildLevels.simps [simp del]

definition InitialBuild :: "nat \<Rightarrow> build_state" where
  "InitialBuild n =
     \<lparr>trie_stream = PushBit False (PushBit True NewBitStream), terminal_stream = PushBit False NewBitStream,
      edge_characters = [0], ids = replicate n (-1), next_id = 0\<rparr>"

definition TrieBuild :: "trie_builder \<Rightarrow> trie_builder option" where
  "TrieBuild b =
     (if built b then None
      else do {
        let words = remdups_adj (sort (word_list b));
        let st = BuildLevels 0 (zip words [0 ..< length words]) (InitialBuild (length words));
        let trie = FillPadding32 (trie_stream st);
        let terminal = FillPadding32 (terminal_stream st);
        img1 \<leftarrow> PushInt32 (ByteSize trie) (tb_image b);
        img2 \<leftarrow> PushInt32 (ByteSize terminal) img1;
        img3 \<leftarrow> PushInt32 8 img2;
        img4 \<leftarrow> PushInt32 (length (edge_characters st)) img3;
        Some (b\<lparr>built := True, word_list := words, id_list := ids st,
                tb_image := img4 @ bs_image trie @ bs_image terminal @ edge_characters st\<rparr>) })"

text \<open>\<^verbatim>\<open>GetId\<close>; the binary search finds the first word that is not less.\<close>

definition GetId :: "trie_builder \<Rightarrow> bytes \<Rightarrow> int option" where
  "GetId b word =
     (if \<not> built b then None
      else let iter = length (takeWhile (\<lambda>w. w < word) (word_list b))
           in if iter = length (word_list b) \<or> word_list b ! iter \<noteq> word then Some (-1)
              else nth_opt (id_list b) iter)"

section \<open>What one level of the builder emits\<close>

text \<open>The nodes (prefixes of length \<open>d + 1\<close>) and the LOUDS bits of one pass over the words.\<close>

definition new_here :: "nat \<Rightarrow> bytes option \<Rightarrow> bytes \<Rightarrow> bool" where
  "new_here d prev w \<longleftrightarrow> d < length w \<and> (prev = None \<or> take (d + 1) w \<noteq> take (d + 1) (the prev))"

fun lev_new :: "nat \<Rightarrow> bytes option \<Rightarrow> bytes list \<Rightarrow> bytes list" where
  "lev_new d prev [] = []"
| "lev_new d prev (w # ws) = (if new_here d prev w then [take (d + 1) w] else []) @ lev_new d (Some w) ws"

fun lev_bits :: "nat \<Rightarrow> bytes option \<Rightarrow> bytes list \<Rightarrow> bool list" where
  "lev_bits d prev [] = []"
| "lev_bits d prev (w # ws) =
     (if new_here d prev w then [True] else []) @
     (if ws = [] \<or> take d w \<noteq> take d (hd ws) then [False] else []) @ lev_bits d (Some w) ws"

abbreviation prev_of :: "bytes option \<Rightarrow> bytes list \<Rightarrow> bytes option" where
  "prev_of prev xs \<equiv> (if xs = [] then prev else Some (last xs))"

lemma lev_new_append: "lev_new d prev (xs @ ys) = lev_new d prev xs @ lev_new d (prev_of prev xs) ys"
  by (induction d prev xs rule: lev_new.induct) auto

lemma lev_new_subset: "set (lev_new d prev ws) \<subseteq> {take (d + 1) w |w. w \<in> set ws \<and> d < length w}"
  by (induction d prev ws rule: lev_new.induct) (auto simp: new_here_def)

lemma lev_new_superset:
  "w \<in> set ws \<Longrightarrow> d < length w \<Longrightarrow>
     take (d + 1) w \<in> set (lev_new d prev ws) \<or> prev \<noteq> None \<and> take (d + 1) w = take (d + 1) (the prev)"
proof (induction d prev ws rule: lev_new.induct)
  case (2 d prev v ws)
  show ?case
  proof (cases "w = v")
    case True
    then show ?thesis using "2.prems" by (auto simp: new_here_def)
  next
    case False
    with "2.prems" have "w \<in> set ws" by simp
    with "2.IH" "2.prems"(2) have "take (d + 1) w \<in> set (lev_new d (Some v) ws) \<or> take (d + 1) w = take (d + 1) v"
      by auto
    then show ?thesis
    proof
      assume e: "take (d + 1) w = take (d + 1) v"
      from e have "min (length w) (d + 1) = min (length v) (d + 1)" using length_take by metis
      with "2.prems"(2) have "d < length v" by simp
      with e show ?thesis by (auto simp: new_here_def)
    qed simp
  qed
qed simp

lemma set_lev_new: "set (lev_new d None ws) = {take (d + 1) w |w. w \<in> set ws \<and> d < length w}"
  using lev_new_subset [of d None ws] lev_new_superset [of _ ws d None] by blast

subsection \<open>The lexicographic order and prefixes\<close>

lemma take_le_mono: "x \<le> y \<Longrightarrow> take n x \<le> take n (y :: 'a::linorder list)"
proof (induction x arbitrary: y n)
  case (Cons a x)
  then obtain b y' where y: "y = b # y'" by (cases y) auto
  with Cons show ?case by (cases n) auto
qed simp

lemma take_le_self: "take n x \<le> (x :: 'a::linorder list)"
proof (induction x arbitrary: n)
  case (Cons a x)
  then show ?case by (cases n) auto
qed simp

lemma lev_new_sorted:
  "sorted_wrt (<) ws \<Longrightarrow> (\<And>p. prev = Some p \<Longrightarrow> \<forall>w \<in> set ws. p < w) \<Longrightarrow>
     sorted_wrt (<) (lev_new d prev ws) \<and> (\<forall>p. prev = Some p \<longrightarrow> (\<forall>q \<in> set (lev_new d prev ws). take (d + 1) p < q))"
proof (induction d prev ws rule: lev_new.induct)
  case (2 d prev w ws)
  have ih: "sorted_wrt (<) (lev_new d (Some w) ws)" "\<forall>q \<in> set (lev_new d (Some w) ws). take (d + 1) w < q"
    using "2.IH" "2.prems"(1) by auto
  have le: "take (d + 1) p \<le> take (d + 1) w" if "prev = Some p" for p
    using "2.prems"(2) [OF that] by (intro take_le_mono less_imp_le) simp
  have "take (d + 1) p < take (d + 1) w" if "prev = Some p" "new_here d prev w" for p
    using le [OF that(1)] that by (auto simp: new_here_def)
  then show ?case using ih le by (fastforce simp: less_le_trans)
qed simp

subsection \<open>The bits of a level\<close>

lemma lev_bits_group:
  "g \<noteq> [] \<Longrightarrow> (\<And>w. w \<in> set g \<Longrightarrow> take d w = p) \<Longrightarrow> rest = [] \<or> take d (hd rest) \<noteq> p \<Longrightarrow>
     lev_bits d prev (g @ rest) =
     replicate (length (lev_new d prev g)) True @ False # lev_bits d (Some (last g)) rest"
proof (induction g arbitrary: prev)
  case (Cons w g)
  show ?case
  proof (cases "g = []")
    case True
    with Cons.prems show ?thesis by (auto simp: new_here_def)
  next
    case False
    have "take d w = take d (hd (g @ rest))" using False Cons.prems(2) by simp
    moreover have "lev_bits d (Some w) (g @ rest) =
        replicate (length (lev_new d (Some w) g)) True @ False # lev_bits d (Some (last g)) rest"
      using Cons.prems False by (intro Cons.IH) auto
    ultimately show ?thesis using False by simp
  qed
qed simp

lemma lev_new_take: "q \<in> set (lev_new d prev ws) \<Longrightarrow> \<exists>w \<in> set ws. take d q = take d w \<and> q = take (d + 1) w \<and> d < length w"
  using lev_new_subset [of d prev ws] by force

lemma lev_bits_groups:
  "sorted_wrt (<) ws \<Longrightarrow> sorted_wrt (<) ps \<Longrightarrow> set ps = take d ` set ws \<Longrightarrow>
     lev_bits d prev ws =
     concat (map (\<lambda>p. replicate (length (filter (\<lambda>q. take d q = p) (lev_new d prev ws))) True @ [False]) ps)"
proof (induction ps arbitrary: ws prev)
  case (Cons p ps)
  define g where "g = takeWhile (\<lambda>w. take d w = p) ws"
  define rest where "rest = dropWhile (\<lambda>w. take d w = p) ws"
  have ws: "ws = g @ rest" by (simp add: g_def rest_def)
  have gp: "take d w = p" if "w \<in> set g" for w using that by (auto simp: g_def dest: set_takeWhileD)
  have s: "sorted_wrt (<) rest" "\<And>v w. v \<in> set g \<Longrightarrow> w \<in> set rest \<Longrightarrow> v < w"
    using Cons.prems(1) by (auto simp: ws sorted_wrt_append)
  have min: "p \<le> take d w" if "w \<in> set ws" for w
  proof -
    from that Cons.prems(3) have "take d w \<in> set (p # ps)" by auto
    with Cons.prems(2) show ?thesis by auto
  qed
  obtain v where v: "v \<in> set ws" "take d v = p" using Cons.prems(3) by (metis imageE list.set_intros(1))
  have hdp: "rest = [] \<or> take d (hd rest) \<noteq> p"
    using hd_dropWhile [of "\<lambda>w. take d w = p" ws] by (auto simp: rest_def)
  have rp: "take d w \<noteq> p" if "w \<in> set rest" for w
  proof -
    from that obtain h t where ht: "rest = h # t" by (cases rest) auto
    with hdp have "take d h \<noteq> p" by simp
    moreover have "p \<le> take d h" using min [of h] ws ht by simp
    ultimately have "p < take d h" by simp
    moreover have "take d h \<le> take d w"
      using that s(1) ht by (auto intro: take_le_mono less_imp_le)
    ultimately show ?thesis by auto
  qed
  have ne: "g \<noteq> []"
  proof
    assume "g = []"
    with v ws rp show False by auto
  qed
  have sp: "set ps = take d ` set rest"
  proof -
    have "p \<notin> set ps" using Cons.prems(2) by auto
    moreover have "take d ` set ws = insert p (take d ` set rest)"
    proof -
      have "take d ` set g = {p}" using gp ne by (cases g) auto
      then show ?thesis unfolding ws by auto
    qed
    moreover have "p \<notin> take d ` set rest" using rp by auto
    ultimately show ?thesis using Cons.prems(3) by auto
  qed
  have new: "lev_new d prev ws = lev_new d prev g @ lev_new d (Some (last g)) rest"
    unfolding ws lev_new_append using ne by simp
  have fg: "filter (\<lambda>q. take d q = p) (lev_new d prev g) = lev_new d prev g"
    by (rule filter_True) (use gp lev_new_take in force)
  have fr: "filter (\<lambda>q. take d q = p) (lev_new d (Some (last g)) rest) = []"
    by (rule filter_False) (use rp lev_new_take in force)
  have fg': "filter (\<lambda>q. take d q = p') (lev_new d prev g) = []" if "p' \<in> set ps" for p'
  proof (rule filter_False)
    have "p' \<noteq> p" using that Cons.prems(2) by auto
    then show "\<forall>q \<in> set (lev_new d prev g). take d q \<noteq> p'" using gp lev_new_take by force
  qed
  have "lev_bits d (Some (last g)) rest =
     concat (map (\<lambda>p. replicate (length (filter (\<lambda>q. take d q = p) (lev_new d (Some (last g)) rest))) True @ [False]) ps)"
    using Cons.prems(2) by (intro Cons.IH s sp) simp
  also have "\<dots> = concat (map (\<lambda>p. replicate (length (filter (\<lambda>q. take d q = p) (lev_new d prev ws))) True @ [False]) ps)"
    using fg' by (intro arg_cong [where f = concat] map_cong) (simp_all add: new)
  finally have r: "lev_bits d (Some (last g)) rest = \<dots>" .
  have "lev_bits d prev ws = replicate (length (lev_new d prev g)) True @ False # lev_bits d (Some (last g)) rest"
    unfolding ws by (rule lev_bits_group [OF ne gp hdp])
  then show ?case unfolding r using fg fr by (simp add: new)
qed simp

lemma sorted_groups:
  "sorted_wrt (<) (xs :: bytes list) \<Longrightarrow> sorted_wrt (<) ys \<Longrightarrow> take d ` set xs \<subseteq> set ys \<Longrightarrow>
     concat (map (\<lambda>y. filter (\<lambda>x. take d x = y) xs) ys) = xs"
proof (induction ys arbitrary: xs)
  case (Cons y ys)
  let ?P = "\<lambda>x. take d x = y"
  have min: "y \<le> take d x" if "x \<in> set xs" for x
  proof -
    from that Cons.prems(3) have "take d x \<in> set (y # ys)" by auto
    with Cons.prems(2) show ?thesis by auto
  qed
  have split: "filter ?P xs @ filter (\<lambda>x. \<not> ?P x) xs = xs"
    using Cons.prems(1) min
  proof (induction xs)
    case (Cons x xs)
    show ?case
    proof (cases "?P x")
      case False
      have "\<not> ?P v" if "v \<in> set xs" for v
      proof -
        have "take d x \<le> take d v" using Cons.prems(1) that by (auto intro: take_le_mono less_imp_le)
        moreover have "y < take d x" using Cons.prems(2) [of x] False by auto
        ultimately show ?thesis by auto
      qed
      then show ?thesis using False by (simp add: filter_empty_conv filter_id_conv)
    qed (use Cons in auto)
  qed simp
  let ?r = "filter (\<lambda>x. \<not> ?P x) xs"
  have "concat (map (\<lambda>y. filter (\<lambda>x. take d x = y) ?r) ys) = ?r"
    using Cons.prems by (intro Cons.IH) (auto simp: sorted_wrt_filter)
  moreover have "filter (\<lambda>x. take d x = y') ?r = filter (\<lambda>x. take d x = y') xs" if "y' \<in> set ys" for y'
  proof -
    have "y' \<noteq> y" using that Cons.prems(2) by auto
    then show ?thesis by (auto intro: filter_cong)
  qed
  ultimately have "concat (map (\<lambda>y. filter (\<lambda>x. take d x = y) xs) ys) = ?r"
    by (metis (mono_tags, lifting) map_cong)
  with split show ?case by simp
qed (use filter_empty_conv in auto)

section \<open>One level of the builder\<close>

text \<open>The id of a word among the nodes \<open>E\<close> emitted so far: the terminal nodes before it.\<close>

definition key_number :: "bytes list \<Rightarrow> bytes list \<Rightarrow> bytes \<Rightarrow> nat" where
  "key_number W E w = length (filter (\<lambda>q. q \<in> set W) (takeWhile (\<lambda>q. q \<noteq> w) E))"

definition build_inv :: "bytes list \<Rightarrow> bytes list \<Rightarrow> bool list \<Rightarrow> build_state \<Rightarrow> bool" where
  "build_inv W E bits st \<longleftrightarrow>
     streams (trie_stream st) bits \<and>
     streams (terminal_stream st) (False # map (\<lambda>q. q \<in> set W) E) \<and>
     edge_characters st = 0 # map last E \<and>
     ids st = map (\<lambda>w. if w \<in> set E then int (key_number W E w) else -1) W \<and>
     next_id st = length (filter (\<lambda>q. q \<in> set W) E)"

lemma key_number_append: "w \<in> set E \<Longrightarrow> key_number W (E @ F) w = key_number W E w"
  by (simp add: key_number_def)

lemma key_number_new: "w \<notin> set E \<Longrightarrow> key_number W (E @ w # F) w = length (filter (\<lambda>q. q \<in> set W) E)"
proof -
  assume "w \<notin> set E"
  then have "takeWhile (\<lambda>q. q \<noteq> w) (E @ w # F) = E" by (subst takeWhile_append2) auto
  then show ?thesis by (simp add: key_number_def)
qed

lemma ids_emit:
  assumes "distinct W" "i < length W" "W ! i = w" "w \<notin> set E"
  shows "(map (\<lambda>v. if v \<in> set E then int (key_number W E v) else -1) W)
      [i := int (length (filter (\<lambda>q. q \<in> set W) E))] =
    map (\<lambda>v. if v \<in> set (E @ [w]) then int (key_number W (E @ [w]) v) else -1) W"
proof (rule nth_equalityI)
  fix k assume k: "k < length ((map (\<lambda>v. if v \<in> set E then int (key_number W E v) else -1) W)
      [i := int (length (filter (\<lambda>q. q \<in> set W) E))])"
  show "(map (\<lambda>v. if v \<in> set E then int (key_number W E v) else -1) W)
      [i := int (length (filter (\<lambda>q. q \<in> set W) E))] ! k =
    map (\<lambda>v. if v \<in> set (E @ [w]) then int (key_number W (E @ [w]) v) else -1) W ! k"
  proof (cases "k = i")
    case True
    then show ?thesis using assms k key_number_new [of w E W "[]"] by simp
  next
    case False
    with assms k have "W ! k \<noteq> w" by (auto simp: nth_eq_iff_index_eq)
    with False k show ?thesis by (auto simp: key_number_append)
  qed
qed simp

lemma ids_skip:
  assumes "q \<notin> set W"
  shows "map (\<lambda>v. if v \<in> set E then int (key_number W E v) else -1) W =
    map (\<lambda>v. if v \<in> set (E @ [q]) then int (key_number W (E @ [q]) v) else -1) W"
  using assms by (auto simp: key_number_append)

lemma build_inv_emit:
  assumes inv: "build_inv W E bits st" and W: "distinct W" "i < length W" "W ! i = w"
    and new: "take (d + 1) w \<notin> set E" "d < length w" and t: "take (d + 1) w \<in> set W \<longleftrightarrow> length w = d + 1"
  shows "build_inv W (E @ [take (d + 1) w]) (bits @ [True])
    (let st0 = st\<lparr>trie_stream := PushBit True (trie_stream st),
                  edge_characters := edge_characters st @ [w ! d]\<rparr>
     in if length w = d + 1
        then st0\<lparr>terminal_stream := PushBit True (terminal_stream st0),
                 ids := (ids st0)[i := int (next_id st0)], next_id := next_id st0 + 1\<rparr>
        else st0\<lparr>terminal_stream := PushBit False (terminal_stream st0)\<rparr>)"
proof -
  have last: "last (take (d + 1) w) = w ! d" using new(2) by (simp add: take_Suc_conv_app_nth)
  show ?thesis
  proof (cases "length w = d + 1")
    case True
    then have q: "take (d + 1) w = w" by simp
    have "w \<in> set W" using t True by simp
    then show ?thesis
      using inv True ids_emit [OF W] new(1) streams_PushBit last
      unfolding q build_inv_def Let_def by (auto simp: streams_PushBit [of _ "False # _", simplified])
  next
    case False
    then have nW: "take (d + 1) w \<notin> set W" using t by simp
    show ?thesis
      using inv False ids_skip [OF nW, of E] streams_PushBit last nW
      unfolding build_inv_def Let_def by (auto simp: streams_PushBit [of _ "False # _", simplified])
  qed
qed

lemma BuildLevel_inv:
  assumes "build_inv W E bits st" "distinct W"
    and "sorted_wrt (<) (map fst es)" "\<And>w i. (w, i) \<in> set es \<Longrightarrow> i < length W \<and> W ! i = w"
    and "\<And>p. prev = Some p \<Longrightarrow> \<forall>w \<in> fst ` set es. p < w"
    and "\<And>q. q \<in> set W \<Longrightarrow> length q = d + 1 \<Longrightarrow> q \<in> fst ` set es \<or> (\<exists>p. prev = Some p \<and> q \<le> p)"
    and "\<And>q. q \<in> set E \<Longrightarrow> length q \<le> d \<or> (\<exists>p. prev = Some p \<and> q \<le> take (d + 1) p)"
  shows "build_inv W (E @ lev_new d prev (map fst es)) (bits @ lev_bits d prev (map fst es)) (BuildLevel d prev es st)"
  using assms
proof (induction d prev es st arbitrary: E bits rule: BuildLevel.induct)
  case (2 d prev w i es st)
  let ?q = "take (d + 1) w"
  let ?st1 = "if d < length w \<and> (prev = None \<or> take (d + 1) w \<noteq> take (d + 1) (the prev))
         then let st0 = st\<lparr>trie_stream := PushBit True (trie_stream st),
                           edge_characters := edge_characters st @ [w ! d]\<rparr>
              in if length w = d + 1
                 then st0\<lparr>terminal_stream := PushBit True (terminal_stream st0),
                          ids := (ids st0)[i := int (next_id st0)], next_id := next_id st0 + 1\<rparr>
                 else st0\<lparr>terminal_stream := PushBit False (terminal_stream st0)\<rparr>
         else st"
  let ?E = "E @ (if new_here d prev w then [?q] else [])"
  let ?b1 = "bits @ (if new_here d prev w then [True] else [])"
  let ?last = "es = [] \<or> take d w \<noteq> take d (fst (hd es))"
  let ?st2 = "if ?last then ?st1\<lparr>trie_stream := PushBit False (trie_stream ?st1)\<rparr> else ?st1"
  let ?b2 = "?b1 @ (if ?last then [False] else [])"
  have wi: "i < length W" "W ! i = w" using "2.prems"(4) [of w i] by auto
  have le: "take (d + 1) p \<le> ?q" if "prev = Some p" for p
    using "2.prems"(5) [OF that] by (intro take_le_mono less_imp_le) simp
  have ne: "take (d + 1) p \<noteq> ?q" if "prev = Some p" "new_here d prev w" for p
    using that by (auto simp: new_here_def)
  have inv1: "build_inv W ?E ?b1 ?st1"
  proof (cases "new_here d prev w")
    case True
    then have dl: "d < length w" by (simp add: new_here_def)
    have nE: "?q \<notin> set E"
    proof
      assume "?q \<in> set E"
      with "2.prems"(7) [of ?q] dl obtain p where "prev = Some p" "?q \<le> take (d + 1) p" by auto
      with le [of p] ne [of p] True show False by auto
    qed
    have t: "?q \<in> set W \<longleftrightarrow> length w = d + 1"
    proof
      assume q: "?q \<in> set W"
      show "length w = d + 1"
      proof (rule ccontr)
        assume n: "length w \<noteq> d + 1"
        from "2.prems"(6) [OF q] dl have "?q \<in> fst ` set ((w, i) # es) \<or> (\<exists>p. prev = Some p \<and> ?q \<le> p)" by simp
        then show False
        proof
          assume "?q \<in> fst ` set ((w, i) # es)"
          moreover have "?q \<noteq> w"
          proof
            assume "?q = w"
            then have "length ?q = length w" by simp
            with n dl show False by simp
          qed
          ultimately have "w < ?q" using "2.prems"(3) by auto
          with take_le_self [of "d + 1" w] show False by simp
        next
          assume "\<exists>p. prev = Some p \<and> ?q \<le> p"
          then obtain p where p: "prev = Some p" "?q \<le> p" by blast
          then have "take (d + 1) ?q \<le> take (d + 1) p" by (intro take_le_mono)
          with le [OF p(1)] ne [OF p(1) True] show False by simp
        qed
      qed
    next
      assume "length w = d + 1"
      then have "?q = w" by simp
      then show "?q \<in> set W" using wi nth_mem by metis
    qed
    show ?thesis
      using build_inv_emit [OF "2.prems"(1,2) wi nE dl t] True unfolding new_here_def by (simp del: take_Suc)
  next
    case False
    then have c: "\<not> (d < length w \<and> (prev = None \<or> take (d + 1) w \<noteq> take (d + 1) (the prev)))"
      by (simp add: new_here_def)
    from False "2.prems"(1) show ?thesis unfolding if_not_P [OF c] by (simp only: if_False append_Nil2)
  qed
  have inv2: "build_inv W ?E ?b2 ?st2"
    using inv1 by (auto simp: build_inv_def intro: streams_PushBit simp del: append_assoc)
  have "build_inv W (?E @ lev_new d (Some w) (map fst es)) (?b2 @ lev_bits d (Some w) (map fst es))
      (BuildLevel d (Some w) es ?st2)"
  proof (rule "2.IH" [OF refl refl inv2 "2.prems"(2)])
    show "sorted_wrt (<) (map fst es)" using "2.prems"(3) by simp
  next
    fix v k assume "(v, k) \<in> set es"
    then show "k < length W \<and> W ! k = v" using "2.prems"(4) by auto
  next
    fix p assume "Some w = Some p"
    then show "\<forall>v \<in> fst ` set es. p < v" using "2.prems"(3) by auto
  next
    fix q assume "q \<in> set W" "length q = d + 1"
    from "2.prems"(6) [OF this] show "q \<in> fst ` set es \<or> (\<exists>p. Some w = Some p \<and> q \<le> p)"
      using "2.prems"(5) by fastforce
  next
    fix q assume "q \<in> set ?E"
    then consider "q \<in> set E" | "q = ?q" by (auto split: if_splits)
    then show "length q \<le> d \<or> (\<exists>p. Some w = Some p \<and> q \<le> take (d + 1) p)"
    proof cases
      case 1
      with "2.prems"(7) [OF 1] le show ?thesis by (metis order_trans)
    qed simp
  qed
  then show ?case by (auto simp: Let_def hd_map)
qed simp

section \<open>The levels of the tree\<close>

text \<open>The nodes of a level are the prefixes of that length, in order; the root is the empty prefix.\<close>

fun level :: "bytes list \<Rightarrow> nat \<Rightarrow> bytes list" where
  "level W 0 = [[]]"
| "level W (Suc d) = lev_new d None (filter (\<lambda>w. d \<le> length w) W)"

definition nodes :: "bytes list \<Rightarrow> nat \<Rightarrow> bytes list" where
  "nodes W D = concat (map (level W) [0 ..< D])"

definition children :: "bytes list \<Rightarrow> bytes \<Rightarrow> bytes list" where
  "children W p = filter (\<lambda>q. take (length p) q = p) (level W (Suc (length p)))"

definition degrees :: "bytes list \<Rightarrow> nat \<Rightarrow> nat list" where
  "degrees W D = map (\<lambda>p. length (children W p)) (nodes W D)"

lemma set_level: "q \<in> set (level W d) \<longleftrightarrow> length q = d \<and> (q = [] \<or> (\<exists>w \<in> set W. take d w = q))"
proof (cases d)
  case (Suc k)
  have "q \<in> set (level W (Suc k)) \<longleftrightarrow> (\<exists>w \<in> set W. q = take (Suc k) w \<and> k < length w)"
    by (auto simp: set_lev_new)
  also have "\<dots> \<longleftrightarrow> length q = Suc k \<and> (\<exists>w \<in> set W. take (Suc k) w = q)" by auto
  finally show ?thesis using Suc by auto
qed auto

lemma sorted_level: "sorted_wrt (<) W \<Longrightarrow> sorted_wrt (<) (level W d)"
  by (cases d) (auto intro!: lev_new_sorted [THEN conjunct1] simp: sorted_wrt_filter)

lemma sorted_distinct: "sorted_wrt (<) (xs :: 'a::linorder list) \<Longrightarrow> distinct xs"
  by (induction xs) auto

lemma nodes_Suc: "nodes W (Suc D) = nodes W D @ level W D"
  by (simp add: nodes_def)

lemma nodes_Cons: "0 < D \<Longrightarrow> nodes W D = [] # concat (map (level W) [1 ..< D])"
  by (simp add: nodes_def upt_conv_Cons)

lemma set_nodes: "q \<in> set (nodes W D) \<longleftrightarrow> length q < D \<and> (q = [] \<or> (\<exists>w \<in> set W. take (length q) w = q))"
  by (auto simp: nodes_def set_level simp del: level.simps)

lemma distinct_nodes: "sorted_wrt (<) W \<Longrightarrow> distinct (nodes W D)"
proof (induction D)
  case (Suc D)
  then show ?case
    by (auto simp: nodes_Suc set_nodes set_level intro: sorted_distinct sorted_level simp del: level.simps)
qed (simp add: nodes_def)

lemma set_children:
  "q \<in> set (children W p) \<longleftrightarrow> (\<exists>c. q = p @ [c]) \<and> (\<exists>w \<in> set W. take (length q) w = q)"
proof -
  have "length q = Suc (length p) \<and> take (length p) q = p \<longleftrightarrow> (\<exists>c. q = p @ [c])"
    by (metis append_eq_conv_conj append_take_drop_id length_append_singleton length_drop diff_add_inverse2
        length_Suc_conv_rev Suc_diff_Suc diff_self_eq_0 length_0_conv append_Nil2 butlast_snoc butlast_conv_take diff_Suc_1)
  then show ?thesis by (auto simp: children_def set_level simp del: level.simps)
qed

lemma distinct_children: "sorted_wrt (<) W \<Longrightarrow> distinct (children W p)"
  unfolding children_def by (intro distinct_filter sorted_distinct sorted_level)

lemma children_level:
  assumes "sorted_wrt (<) W"
  shows "concat (map (children W) (level W d)) = level W (Suc d)"
proof -
  have "map (children W) (level W d) = map (\<lambda>y. filter (\<lambda>x. take d x = y) (level W (Suc d))) (level W d)"
    by (rule map_cong) (auto simp: children_def set_level simp del: level.simps)
  moreover have "take d ` set (level W (Suc d)) \<subseteq> set (level W d)"
    by (force simp: set_level min_def simp del: level.simps)
  ultimately show ?thesis
    using sorted_groups [OF sorted_level [OF assms] sorted_level [OF assms]] by metis
qed

lemma children_nodes:
  "sorted_wrt (<) W \<Longrightarrow> concat (map (children W) (nodes W D)) = concat (map (level W) [1 ..< Suc D])"
proof (induction D)
  case (Suc D)
  then show ?case by (simp add: nodes_Suc children_level del: level.simps)
qed (simp add: nodes_def)

lemma level_past: "\<forall>w \<in> set W. length w < D \<Longrightarrow> 0 < D \<Longrightarrow> level W D = []"
proof -
  assume "\<forall>w \<in> set W. length w < D" "0 < D"
  then have "q \<notin> set (level W D)" for q by (auto simp: set_level simp del: level.simps)
  then show ?thesis by (metis list.set_intros(1) neq_Nil_conv)
qed

lemma children_tree:
  assumes "sorted_wrt (<) W" "\<forall>w \<in> set W. length w < D" "0 < D"
  shows "concat (map (children W) (nodes W D)) = tl (nodes W D)"
  using assms children_nodes [OF assms(1), of D] level_past [OF assms(2,3)]
  by (simp add: nodes_Cons del: level.simps)

lemma lev_bits_level:
  assumes "sorted_wrt (<) W" "W \<noteq> []"
  shows "lev_bits d None (filter (\<lambda>w. d \<le> length w) W) = louds_bits (map (\<lambda>p. length (children W p)) (level W d))"
proof -
  let ?ws = "filter (\<lambda>w. d \<le> length w) W"
  have lv: "set (level W d) = take d ` set ?ws"
  proof (cases d)
    case 0
    with assms(2) show ?thesis by (cases W) auto
  next
    case (Suc k)
    have "q \<in> set (level W d) \<longleftrightarrow> q \<in> take d ` set ?ws" for q
      unfolding set_level using Suc by (auto simp: image_iff)
    then show ?thesis by blast
  qed
  from lev_bits_groups [OF _ sorted_level [OF assms(1)] lv, of None]
  have "lev_bits d None ?ws = concat (map (\<lambda>p. replicate (length (filter (\<lambda>q. take d q = p) (lev_new d None ?ws))) True @ [False])
      (level W d))"
    using assms(1) by (simp add: sorted_wrt_filter)
  also have "\<dots> = louds_bits (map (\<lambda>p. length (children W p)) (level W d))"
    unfolding louds_bits_def map_map
    by (intro arg_cong [where f = concat] map_cong refl) (auto simp: children_def set_level simp del: level.simps(1))
  finally show ?thesis .
qed

definition built_bits :: "bytes list \<Rightarrow> nat \<Rightarrow> bool list" where
  "built_bits W D = [True, False] @ concat (map (\<lambda>d. lev_bits d None (filter (\<lambda>w. d \<le> length w) W)) [0 ..< D])"

lemma louds_bits_concat: "concat (map (\<lambda>x. louds_bits (f x)) xs) = louds_bits (concat (map f xs))"
  by (induction xs) auto

lemma built_bits_tree:
  assumes "sorted_wrt (<) W" "W \<noteq> []"
  shows "built_bits W D = louds_bits (1 # degrees W D)"
  by (simp add: built_bits_def lev_bits_level [OF assms] degrees_def nodes_def louds_bits_concat map_concat comp_def)

lemma built_bits_empty: "built_bits [] D = [True, False]"
  by (auto simp: built_bits_def)

lemma BuildLevels_inv:
  assumes "sorted_wrt (<) W" "\<forall>w \<in> set W. length w < D"
  shows "d \<le> D \<Longrightarrow> build_inv W (concat (map (level W) [1 ..< Suc d])) (built_bits W d) st \<Longrightarrow>
    build_inv W (concat (map (level W) [1 ..< Suc D])) (built_bits W D)
      (BuildLevels d (filter (\<lambda>e. d \<le> length (fst e)) (zip W [0 ..< length W])) st)"
proof (induction "D - d" arbitrary: d st)
  case 0
  then have "d = D" by simp
  then have "filter (\<lambda>e. d \<le> length (fst e)) (zip W [0 ..< length W]) = []"
    using assms(2) by (fastforce simp: filter_empty_conv dest: set_zip_leftD)
  then show ?case using 0 \<open>d = D\<close> by (simp add: BuildLevels.simps)
next
  case (Suc n)
  let ?es = "filter (\<lambda>e. d \<le> length (fst e)) (zip W [0 ..< length W])"
  let ?ws = "filter (\<lambda>w. d \<le> length w) W"
  have fst_es: "map fst ?es = ?ws"
  proof -
    have "map fst ?es = filter (\<lambda>w. d \<le> length w) (map fst (zip W [0 ..< length W]))" by (simp only: filter_map comp_def)
    then show ?thesis by simp
  qed
  have es: "i < length W \<and> W ! i = w" if "(w, i) \<in> set ?es" for w i
    using that by (auto simp: set_zip)
  have rest: "filter (\<lambda>e. \<not> length (fst e) < d + 1) ?es = filter (\<lambda>e. Suc d \<le> length (fst e)) (zip W [0 ..< length W])"
    by (auto intro: filter_cong)
  have bits: "built_bits W (Suc d) = built_bits W d @ lev_bits d None ?ws" by (simp add: built_bits_def)
  have nodes: "concat (map (level W) [1 ..< Suc (Suc d)]) = concat (map (level W) [1 ..< Suc d]) @ lev_new d None ?ws"
    by simp
  have len: "length q \<le> d" if "q \<in> set (concat (map (level W) [1 ..< Suc d]))" for q
    using that by (auto simp: set_level simp del: level.simps upt_Suc)
  show ?case
  proof (cases "?es = []")
    case True
    then have "?ws = []" using fst_es by simp
    then have no: "length w < d" if "w \<in> set W" for w using that by (auto simp: filter_empty_conv)
    then have r: "filter (\<lambda>e. Suc d \<le> length (fst e)) (zip W [0 ..< length W]) = []"
      by (auto simp: filter_empty_conv dest!: set_zip_leftD) (metis Suc_leD leD)
    have "build_inv W (concat (map (level W) [1 ..< Suc (Suc d)])) (built_bits W (Suc d)) st"
      using Suc.prems(2) \<open>?ws = []\<close> unfolding bits nodes by simp
    then have "build_inv W (concat (map (level W) [1 ..< Suc D])) (built_bits W D)
      (BuildLevels (Suc d) (filter (\<lambda>e. Suc d \<le> length (fst e)) (zip W [0 ..< length W])) st)"
      using Suc by (intro Suc.hyps) auto
    then show ?thesis unfolding r True by (simp add: BuildLevels.simps)
  next
    case False
    have "build_inv W (concat (map (level W) [1 ..< Suc d]) @ lev_new d None (map fst ?es))
        (built_bits W d @ lev_bits d None (map fst ?es)) (BuildLevel d None ?es st)"
    proof (rule BuildLevel_inv [OF Suc.prems(2)])
      show "distinct W" using assms(1) by (rule sorted_distinct)
      show "sorted_wrt (<) (map fst ?es)" unfolding fst_es using assms(1) by (rule sorted_wrt_filter)
      show "q \<in> set W \<Longrightarrow> length q = d + 1 \<Longrightarrow> q \<in> fst ` set ?es \<or> (\<exists>p. None = Some p \<and> q \<le> p)" for q
        unfolding set_map [symmetric] fst_es by simp
      show "(w, i) \<in> set ?es \<Longrightarrow> i < length W \<and> W ! i = w" for w i by (rule es)
      show "q \<in> set (concat (map (level W) [1 ..< Suc d])) \<Longrightarrow> length q \<le> d \<or> (\<exists>p. None = Some p \<and> q \<le> take (d + 1) p)" for q
        using len by blast
    qed simp
    then have "build_inv W (concat (map (level W) [1 ..< Suc (Suc d)])) (built_bits W (Suc d)) (BuildLevel d None ?es st)"
      unfolding bits nodes fst_es .
    then have "build_inv W (concat (map (level W) [1 ..< Suc D])) (built_bits W D)
      (BuildLevels (Suc d) (filter (\<lambda>e. Suc d \<le> length (fst e)) (zip W [0 ..< length W])) (BuildLevel d None ?es st))"
      using Suc by (intro Suc.hyps) auto
    then show ?thesis using False rest by (simp add: BuildLevels.simps [of d ?es])
  qed
qed

lemma InitialBuild_inv: "build_inv W [] (built_bits W 0) (InitialBuild (length W))"
  using streams_PushBit [OF streams_New, of False] streams_PushBit [OF streams_PushBit [OF streams_New, of True], of False]
  by (simp add: build_inv_def InitialBuild_def built_bits_def map_replicate_const)

lemma Build_streams:
  assumes "sorted_wrt (<) W" "\<forall>w \<in> set W. length w < D" "0 < D"
  shows "build_inv W (tl (nodes W D)) (built_bits W D)
    (BuildLevels 0 (zip W [0 ..< length W]) (InitialBuild (length W)))"
proof -
  have "concat (map (level W) [1 ..< Suc D]) = tl (nodes W D)"
    using assms level_past [OF assms(2,3)] by (simp add: nodes_Cons del: level.simps)
  with BuildLevels_inv [OF assms(1,2), of 0 "InitialBuild (length W)"] InitialBuild_inv [of W]
  show ?thesis by (simp del: upt_Suc)
qed

end
