(* ===== verification/LoudsTrie.thy ===== *)
theory LoudsTrie
  imports LoudsBuild
begin

text \<open>
  Searching the trie. \<open>trie_of\<close> says that a trie holds a sorted word list; \<open>is_node\<close> names its nodes by their place
  in level order. The lemmas follow the search from node to node, then the way back to the root, and last the
  builder's image through \<^verbatim>\<open>Open\<close>, so that the properties speak of the builder, the image and the trie together.
\<close>

section \<open>Searching the trie\<close>

abbreviation tree_degrees :: "bytes list \<Rightarrow> nat \<Rightarrow> nat list" where
  "tree_degrees W D \<equiv> 1 # degrees W D"

definition trie_of :: "bytes list \<Rightarrow> nat \<Rightarrow> louds_trie \<Rightarrow> bool" where
  "trie_of W D t \<longleftrightarrow>
     sorted_wrt (<) W \<and> [] \<notin> set W \<and> (\<forall>w \<in> set W. length w < D) \<and> 0 < D \<and>
     (\<exists>pad. louds_for (lt_louds t) (louds_bits (tree_degrees W D) @ pad)) \<and>
     (\<exists>pad. succinct (terminal_bit_vector t) (map (\<lambda>q. q \<in> set W) (nodes W D) @ pad)) \<and>
     edge_character t = 0 # map last (tl (nodes W D))"

text \<open>The node number \<open>k\<close> in level order.\<close>

definition is_node :: "bytes list \<Rightarrow> nat \<Rightarrow> louds_node \<Rightarrow> nat \<Rightarrow> bool" where
  "is_node W D node k \<longleftrightarrow>
     k < length (nodes W D) \<and> node_id node = Suc k \<and>
     (\<exists>i j. i < length (tree_degrees W D) \<and> j < tree_degrees W D ! i \<and> node = tree_node (tree_degrees W D) i j)"

lemma sum_list_split: "k < sum_list ds \<Longrightarrow> \<exists>i < length ds. \<exists>j < ds ! i. k = sum_list (take i ds) + (j :: nat)"
proof (induction ds arbitrary: k)
  case (Cons d ds)
  show ?case
  proof (cases "k < d")
    case True
    then show ?thesis by (intro exI [of _ 0]) auto
  next
    case False
    with Cons.prems have "k - d < sum_list ds" by simp
    from Cons.IH [OF this] obtain i j where "i < length ds" "j < ds ! i" "k - d = sum_list (take i ds) + j" by blast
    with False show ?thesis by (intro exI [of _ "Suc i"]) auto
  qed
qed simp

lemma concat_nth:
  "i < length xss \<Longrightarrow> j < length (xss ! i) \<Longrightarrow>
     sum_list (map length (take i xss)) + j < length (concat xss) \<and>
     concat xss ! (sum_list (map length (take i xss)) + j) = xss ! i ! j"
proof (induction xss arbitrary: i)
  case (Cons xs xss)
  then show ?case by (cases i) (auto simp: nth_append ac_simps)
qed simp

lemma nodes_tl: "trie_of W D t \<Longrightarrow> nodes W D = [] # tl (nodes W D)"
  by (simp add: trie_of_def nodes_Cons)

lemma sum_degrees: "trie_of W D t \<Longrightarrow> sum_list (tree_degrees W D) = length (nodes W D)"
proof -
  assume t: "trie_of W D t"
  have "sum_list (degrees W D) = length (concat (map (children W) (nodes W D)))"
    by (simp add: degrees_def length_concat comp_def)
  also have "\<dots> = length (tl (nodes W D))" using t children_tree by (metis trie_of_def)
  finally have "sum_list (tree_degrees W D) = length ([] # tl (nodes W D))" by simp
  with nodes_tl [OF t] show ?thesis by metis
qed

lemma child_node:
  assumes t: "trie_of W D t" and i: "i < length (nodes W D)" "j < length (children W (nodes W D ! i))"
  defines "node \<equiv> tree_node (tree_degrees W D) (Suc i) j"
  shows "is_node W D node (node_id node - 1)" "nodes W D ! (node_id node - 1) = children W (nodes W D ! i) ! j"
proof -
  let ?cs = "map (children W) (nodes W D)"
  have ct: "concat ?cs = tl (nodes W D)" using t by (auto simp: trie_of_def intro: children_tree)
  have s: "sum_list (map length (take i ?cs)) = sum_list (take i (degrees W D))"
    by (simp add: degrees_def take_map comp_def)
  from concat_nth [of i ?cs j] i have c: "sum_list (take i (degrees W D)) + j < length (tl (nodes W D))"
    "tl (nodes W D) ! (sum_list (take i (degrees W D)) + j) = children W (nodes W D ! i) ! j"
    unfolding s ct by auto
  have id: "node_id node = Suc (Suc (sum_list (take i (degrees W D)) + j))"
    by (simp add: node_def tree_node_def)
  show "nodes W D ! (node_id node - 1) = children W (nodes W D ! i) ! j"
    using c id nodes_tl [OF t] by (metis diff_Suc_1 nth_Cons_Suc)
  have "Suc (sum_list (take i (degrees W D)) + j) < length (nodes W D)" using c(1) by simp
  moreover have "Suc i < length (tree_degrees W D)" "j < tree_degrees W D ! Suc i"
    using i by (simp_all add: degrees_def)
  moreover have "node_id node = Suc (node_id node - 1)" "node_id node - 1 = Suc (sum_list (take i (degrees W D)) + j)"
    using id by simp_all
  ultimately show "is_node W D node (node_id node - 1)"
    unfolding is_node_def using node_def by metis
qed

lemma node_exists: "trie_of W D t \<Longrightarrow> k < length (nodes W D) \<Longrightarrow> \<exists>node. is_node W D node k"
proof -
  assume t: "trie_of W D t" and k: "k < length (nodes W D)"
  from k sum_list_split [of k "tree_degrees W D"] sum_degrees [OF t] obtain i j where
    ij: "i < length (tree_degrees W D)" "j < tree_degrees W D ! i" "k = sum_list (take i (tree_degrees W D)) + j" by auto
  then have "is_node W D (tree_node (tree_degrees W D) i j) k"
    unfolding is_node_def using k by (auto simp: tree_node_def)
  then show ?thesis ..
qed

lemma root_node: "trie_of W D t \<Longrightarrow> is_node W D RootNode 0"
  unfolding is_node_def RootNode_tree [of "tree_degrees W D"]
  using nodes_tl [of W D t] by (auto simp: tree_node_def intro!: exI [of _ "0::nat"])

lemma nodes_0: "trie_of W D t \<Longrightarrow> nodes W D ! 0 = []"
  using nodes_tl [of W D t] by (metis nth_Cons_0)

lemma word_node: "trie_of W D t \<Longrightarrow> w \<in> set W \<Longrightarrow> w \<in> set (nodes W D)"
  unfolding set_nodes trie_of_def by (metis take_all order_refl)

lemma nodes_snoc: "trie_of W D t \<Longrightarrow> p @ [c] \<in> set (nodes W D) \<longleftrightarrow> p @ [c] \<in> set (children W p)"
proof -
  assume t: "trie_of W D t"
  have "length (p @ [c]) < D" if "w \<in> set W" "take (length (p @ [c])) w = p @ [c]" for w
  proof -
    have "length (p @ [c]) \<le> length w" using arg_cong [OF that(2), of length] by simp
    with that(1) t show ?thesis unfolding trie_of_def by fastforce
  qed
  then show ?thesis unfolding set_nodes set_children by blast
qed

lemma nodes_prefix: "trie_of W D t \<Longrightarrow> p @ key \<in> set (nodes W D) \<Longrightarrow> p \<in> set (nodes W D)"
proof -
  have "take (length p) w = p" if "take (length (p @ key)) w = p @ key" for w
  proof -
    have "take (length p) w = take (length p) (take (length (p @ key)) w)" by (simp add: min_def)
    then show ?thesis unfolding that by simp
  qed
  then show "p @ key \<in> set (nodes W D) \<Longrightarrow> p \<in> set (nodes W D)" unfolding set_nodes by auto
qed

lemma edge_label:
  assumes "trie_of W D t" "node_id node = Suc k" "0 < k" "k < length (nodes W D)"
  shows "GetEdgeLabelToParentNode t node = Some (last (nodes W D ! k))"
proof -
  obtain k' where k': "k = Suc k'" using assms(3) by (cases k) auto
  have "nodes W D ! k = tl (nodes W D) ! k'" using k' nodes_tl [OF assms(1)] by (metis nth_Cons_Suc)
  then show ?thesis
    using assms k' by (simp add: GetEdgeLabelToParentNode_def trie_of_def nth_opt_def)
qed

lemma FindSibling_children:
  assumes t: "trie_of W D t" and i: "i < length (nodes W D)"
  defines "p \<equiv> nodes W D ! i" and "ds \<equiv> tree_degrees W D"
  shows "j \<le> length (children W p) \<Longrightarrow>
    (if p @ [c] \<in> set (drop j (children W p))
     then \<exists>j'. FindSibling t c (tree_node ds (Suc i) j) = Some (True, tree_node ds (Suc i) j') \<and>
            j' < length (children W p) \<and> children W p ! j' = p @ [c]
     else \<exists>node. FindSibling t c (tree_node ds (Suc i) j) = Some (False, node))"
proof (induction "length (children W p) - j" arbitrary: j)
  case 0
  obtain pad where l: "louds_for (lt_louds t) (louds_bits ds @ pad)" using t by (auto simp: trie_of_def ds_def)
  have "Suc i < length ds" "ds ! Suc i = length (children W p)" using i by (simp_all add: ds_def degrees_def p_def)
  with 0 IsValidNode_tree [OF l, of "Suc i" j] show ?case by (simp add: FindSibling.simps)
next
  case (Suc n)
  then have j: "j < length (children W p)" by simp
  obtain pad where l: "louds_for (lt_louds t) (louds_bits ds @ pad)" using t by (auto simp: trie_of_def ds_def)
  have d: "Suc i < length ds" "ds ! Suc i = length (children W p)" using i by (simp_all add: ds_def degrees_def p_def)
  let ?node = "tree_node ds (Suc i) j"
  have v: "IsValidNode (lt_louds t) ?node = Some True" using IsValidNode_tree [OF l, of "Suc i" j] d j by simp
  note cn = child_node [OF t i j [unfolded p_def], folded ds_def p_def]
  have id: "node_id ?node = Suc (node_id ?node - 1)" "0 < node_id ?node - 1" by (simp_all add: tree_node_def ds_def)
  have lab: "GetEdgeLabelToParentNode t ?node = Some (last (children W p ! j))"
    using edge_label [OF t id] cn by (simp add: is_node_def)
  have "children W p ! j \<in> set (children W p)" using j by simp
  then obtain c' where c': "children W p ! j = p @ [c']" by (auto simp: set_children)
  have dr: "drop j (children W p) = (p @ [c']) # drop (Suc j) (children W p)"
    using j c' by (simp add: Cons_nth_drop_Suc [symmetric])
  show ?case
  proof (cases "c' = c")
    case True
    then show ?thesis using v lab c' dr j by (auto simp: FindSibling.simps [of t c ?node])
  next
    case False
    then have "FindSibling t c ?node = FindSibling t c (tree_node ds (Suc i) (Suc j))"
      using v lab c' by (simp add: FindSibling.simps [of t c ?node] MoveToNextSibling_tree)
    moreover have "n = length (children W p) - Suc j" "Suc j \<le> length (children W p)" using Suc by auto
    ultimately show ?thesis using Suc.hyps(1) [of "Suc j"] dr False by simp
  qed
qed

lemma MoveToChildByLabel_node:
  assumes t: "trie_of W D t" and n: "is_node W D node k"
  shows "\<exists>found node'. MoveToChildByLabel t c node = Some (found, node') \<and>
    (found \<longleftrightarrow> nodes W D ! k @ [c] \<in> set (nodes W D)) \<and>
    (found \<longrightarrow> (\<exists>k'. is_node W D node' k' \<and> nodes W D ! k' = nodes W D ! k @ [c]))"
proof -
  let ?p = "nodes W D ! k" and ?ds = "tree_degrees W D"
  have k: "k < length (nodes W D)" "node_id node = Suc k" using n by (auto simp: is_node_def)
  obtain pad where l: "louds_for (lt_louds t) (louds_bits ?ds @ pad)" using t by (auto simp: trie_of_def)
  have m: "MoveToFirstChild (lt_louds t) node = Some (tree_node ?ds (Suc k) 0)"
    using MoveToFirstChild_tree [OF l, of node] k by (simp add: degrees_def)
  show ?thesis
  proof (cases "?p @ [c] \<in> set (children W ?p)")
    case True
    with FindSibling_children [OF t k(1), of 0 c] obtain j' where
      j': "FindSibling t c (tree_node ?ds (Suc k) 0) = Some (True, tree_node ?ds (Suc k) j')"
      "j' < length (children W ?p)" "children W ?p ! j' = ?p @ [c]" by auto
    with child_node [OF t k(1) j'(2)] m True nodes_snoc [OF t] show ?thesis
      by (auto simp: MoveToChildByLabel_def)
  next
    case False
    with FindSibling_children [OF t k(1), of 0 c] obtain node' where
      "FindSibling t c (tree_node ?ds (Suc k) 0) = Some (False, node')" by auto
    with m False nodes_snoc [OF t] show ?thesis by (auto simp: MoveToChildByLabel_def)
  qed
qed

lemma Traverse_node:
  assumes t: "trie_of W D t"
  shows "is_node W D node k \<Longrightarrow>
    \<exists>found node'. Traverse t key node = Some (found, node') \<and>
    (found \<longleftrightarrow> nodes W D ! k @ key \<in> set (nodes W D)) \<and>
    (found \<longrightarrow> (\<exists>k'. is_node W D node' k' \<and> nodes W D ! k' = nodes W D ! k @ key))"
proof (induction key arbitrary: node k)
  case Nil
  then show ?case by (auto simp: is_node_def)
next
  case (Cons c key)
  from MoveToChildByLabel_node [OF t Cons.prems, of c] obtain found node' where
    m: "MoveToChildByLabel t c node = Some (found, node')"
    "found \<longleftrightarrow> nodes W D ! k @ [c] \<in> set (nodes W D)"
    "found \<Longrightarrow> \<exists>k'. is_node W D node' k' \<and> nodes W D ! k' = nodes W D ! k @ [c]" by blast
  show ?case
  proof (cases found)
    case True
    with m(3) obtain k' where k': "is_node W D node' k'" "nodes W D ! k' = nodes W D ! k @ [c]" by blast
    from Cons.IH [OF k'(1)] k'(2) m(1) True show ?thesis by simp
  next
    case False
    with m(2) nodes_prefix [OF t, of "nodes W D ! k @ [c]" key] m(1) show ?thesis by auto
  qed
qed

section \<open>Key ids\<close>

lemma node_at: "trie_of W D t \<Longrightarrow> q \<in> set (nodes W D) \<Longrightarrow> \<exists>k < length (nodes W D). nodes W D ! k = q"
  by (simp add: in_set_conv_nth)

lemma takeWhile_node:
  assumes "trie_of W D t" "k < length (nodes W D)" "nodes W D ! k \<in> set W"
  shows "length (filter (\<lambda>q. q \<in> set W) (take k (nodes W D))) = key_number W (tl (nodes W D)) (nodes W D ! k)"
proof -
  have d: "distinct (nodes W D)" using assms(1) by (auto simp: trie_of_def intro: distinct_nodes)
  have ne: "nodes W D ! k \<noteq> []" using assms(1,3) by (auto simp: trie_of_def)
  have tk: "takeWhile (\<lambda>q. q \<noteq> nodes W D ! k) (nodes W D) = take k (nodes W D)"
    using d assms(2) by (intro takeWhile_eq_take_P_nth) (auto simp: nth_eq_iff_index_eq)
  have nW: "[] \<notin> set W" using assms(1) by (simp add: trie_of_def)
  obtain qs where qs: "nodes W D = [] # qs" using nodes_tl [OF assms(1)] by blast
  have "takeWhile (\<lambda>q. q \<noteq> v) (nodes W D) = [] # takeWhile (\<lambda>q. q \<noteq> v) (tl (nodes W D))" if "v \<noteq> []" for v
    unfolding qs using that by simp
  from this [OF ne] show ?thesis unfolding key_number_def tk using nW by simp
qed

lemma node_terminal:
  assumes t: "trie_of W D t" and n: "is_node W D node k"
  shows "IsTerminalNode t node = Some (nodes W D ! k \<in> set W)"
    "nodes W D ! k \<in> set W \<Longrightarrow> GetKeyIdOfTerminalNode t node = Some (key_number W (tl (nodes W D)) (nodes W D ! k))"
proof -
  obtain pad where s: "succinct (terminal_bit_vector t) (map (\<lambda>q. q \<in> set W) (nodes W D) @ pad)"
    using t by (auto simp: trie_of_def)
  have k: "k < length (nodes W D)" "node_id node - 1 = k" using n by (auto simp: is_node_def)
  show "IsTerminalNode t node = Some (nodes W D ! k \<in> set W)"
    using sv.get [OF s, of k] k by (simp add: IsTerminalNode_def nth_append)
  have "GetKeyIdOfTerminalNode t node = Some (ones (take k (map (\<lambda>q. q \<in> set W) (nodes W D))))"
    using sv.rank1 [OF s, of k] k by (simp add: GetKeyIdOfTerminalNode_def)
  then show "nodes W D ! k \<in> set W \<Longrightarrow> GetKeyIdOfTerminalNode t node = Some (key_number W (tl (nodes W D)) (nodes W D ! k))"
    using takeWhile_node [OF t k(1)] by (simp add: take_map ones_def filter_map comp_def)
qed

lemma search_keys:
  assumes t: "trie_of W D t"
  shows "HasKey t key = Some (key \<in> set W)"
    "ExactSearch t key = Some (if key \<in> set W then int (key_number W (tl (nodes W D)) key) else -1)"
proof -
  from Traverse_node [OF t root_node [OF t], of key] obtain found node where
    f: "Traverse t key RootNode = Some (found, node)" "found \<longleftrightarrow> key \<in> set (nodes W D)"
    "found \<Longrightarrow> \<exists>k. is_node W D node k \<and> nodes W D ! k = key"
    unfolding nodes_0 [OF t] append_Nil by blast
  have h: "HasKey t key = Some (key \<in> set W) \<and>
      ExactSearch t key = Some (if key \<in> set W then int (key_number W (tl (nodes W D)) key) else -1)"
  proof (cases found)
    case True
    with f(3) obtain k where k: "is_node W D node k" "nodes W D ! k = key" by blast
    with node_terminal [OF t k(1)] f(1) True show ?thesis by (simp add: HasKey_def ExactSearch_def)
  next
    case False
    with f(2) word_node [OF t] have "key \<notin> set W" by blast
    with f(1) False show ?thesis by (simp add: HasKey_def ExactSearch_def)
  qed
  then show "HasKey t key = Some (key \<in> set W)"
    "ExactSearch t key = Some (if key \<in> set W then int (key_number W (tl (nodes W D)) key) else -1)" by simp_all
qed

lemma PrefixSearchFrom_words:
  assumes t: "trie_of W D t"
  shows "is_node W D node k \<Longrightarrow> nodes W D ! k = take i key \<Longrightarrow> i + length rest = length key \<Longrightarrow> rest = drop i key \<Longrightarrow>
    \<exists>l. PrefixSearchFrom t rest i node = Some l \<and>
      map fst l = filter (\<lambda>n. take n key \<in> set W) [Suc i ..< Suc (length key)] \<and>
      (\<forall>(n, node') \<in> set l. GetKeyIdOfTerminalNode t node' = Some (key_number W (tl (nodes W D)) (take n key)))"
proof (induction rest arbitrary: node k i)
  case (Cons c rest)
  have i: "i < length key" using Cons.prems(3) by simp
  have ic: "take i key @ [c] = take (Suc i) key"
    using Cons.prems(4) i by (metis hd_drop_conv_nth list.sel(1) take_Suc_conv_app_nth)
  have ru: "[Suc i ..< Suc (length key)] = Suc i # [Suc (Suc i) ..< Suc (length key)]"
    using i by (simp add: upt_conv_Cons del: upt_Suc)
  from MoveToChildByLabel_node [OF t Cons.prems(1), of c] obtain found node' where
    m: "MoveToChildByLabel t c node = Some (found, node')"
    "found \<longleftrightarrow> take (Suc i) key \<in> set (nodes W D)"
    "found \<Longrightarrow> \<exists>k'. is_node W D node' k' \<and> nodes W D ! k' = take (Suc i) key"
    unfolding Cons.prems(2) ic by blast
  show ?case
  proof (cases found)
    case True
    with m(3) obtain k' where k': "is_node W D node' k'" "nodes W D ! k' = take (Suc i) key" by blast
    have "Suc i + length rest = length key" "rest = drop (Suc i) key"
      using Cons.prems(3) arg_cong [OF Cons.prems(4), of tl] by (simp_all add: drop_Suc tl_drop)
    from Cons.IH [OF k' this] obtain l where
      l: "PrefixSearchFrom t rest (Suc i) node' = Some l"
      "map fst l = filter (\<lambda>n. take n key \<in> set W) [Suc (Suc i) ..< Suc (length key)]"
      "\<forall>(n, node') \<in> set l. GetKeyIdOfTerminalNode t node' = Some (key_number W (tl (nodes W D)) (take n key))" by blast
    with node_terminal [OF t k'(1)] m(1) True k'(2) show ?thesis unfolding ru by auto
  next
    case False
    have "take n key \<notin> set W" if "Suc i \<le> n" for n
    proof
      assume "take n key \<in> set W"
      then have "take n key \<in> set (nodes W D)" by (rule word_node [OF t])
      moreover have "take n key = take (Suc i) key @ drop (Suc i) (take n key)"
        using that by (metis append_take_drop_id min.absorb1 take_take)
      ultimately show False using nodes_prefix [OF t, of "take (Suc i) key"] False m(2) by metis
    qed
    then have "filter (\<lambda>n. take n key \<in> set W) [Suc i ..< Suc (length key)] = []"
      by (auto simp: filter_empty_conv simp del: upt_Suc)
    with m(1) False show ?thesis by simp
  qed
qed simp

lemma PrefixSearch_words:
  assumes t: "trie_of W D t"
  shows "\<exists>l. PrefixSearch t key = Some l \<and>
      map fst l = filter (\<lambda>n. take n key \<in> set W) [1 ..< Suc (length key)] \<and>
      (\<forall>(n, node) \<in> set l. GetKeyIdOfTerminalNode t node = Some (key_number W (tl (nodes W D)) (take n key)))"
  using PrefixSearchFrom_words [OF t root_node [OF t], of 0 key key] nodes_0 [OF t]
  by (simp add: PrefixSearch_def del: upt_Suc)

section \<open>From an id back to the key\<close>

lemma node_of_id:
  assumes t: "trie_of W D t" and k: "k < length (nodes W D)"
  shows "\<exists>node. InitNodeFromNodeId (lt_louds t) (Suc k) = Some node \<and> is_node W D node k"
proof -
  obtain node where n: "is_node W D node k" using node_exists [OF t k] ..
  then obtain i j where ij: "i < length (tree_degrees W D)" "j < tree_degrees W D ! i"
    "node = tree_node (tree_degrees W D) i j" "node_id node = Suc k" by (auto simp: is_node_def)
  obtain pad where l: "louds_for (lt_louds t) (louds_bits (tree_degrees W D) @ pad)" using t by (auto simp: trie_of_def)
  from InitNodeFromNodeId_tree [OF l ij(1,2)] ij n show ?thesis by auto
qed

lemma parent_node:
  assumes t: "trie_of W D t" and n: "is_node W D node k" and k: "0 < k"
  shows "\<exists>parent i. MoveToParent (lt_louds t) node = Some parent \<and> is_node W D parent i \<and>
    nodes W D ! i = butlast (nodes W D ! k)"
proof -
  let ?ds = "tree_degrees W D"
  from n obtain i j where ij: "i < length ?ds" "j < ?ds ! i" "node = tree_node ?ds i j" "node_id node = Suc k"
    by (auto simp: is_node_def)
  have "i \<noteq> 0"
  proof
    assume "i = 0"
    with ij k show False by (simp add: tree_node_def)
  qed
  then obtain i' where i': "i = Suc i'" by (cases i) auto
  have il: "i' < length (nodes W D)" "j < length (children W (nodes W D ! i'))" using ij i' by (simp_all add: degrees_def)
  note cn = child_node(2) [OF t il]
  have ck: "nodes W D ! k = children W (nodes W D ! i') ! j" using cn ij i' by simp
  have "children W (nodes W D ! i') ! j \<in> set (children W (nodes W D ! i'))" using il by simp
  then obtain c where c: "children W (nodes W D ! i') ! j = nodes W D ! i' @ [c]" by (auto simp: set_children)
  from node_exists [OF t il(1)] obtain parent where p: "is_node W D parent i'" ..
  then obtain a b where ab: "a < length ?ds" "b < ?ds ! a" "parent = tree_node ?ds a b" "node_id parent = Suc i'"
    by (auto simp: is_node_def)
  obtain pad where l: "louds_for (lt_louds t) (louds_bits ?ds @ pad)" using t by (auto simp: trie_of_def)
  have "MoveToParent (lt_louds t) node = Some parent"
    using MoveToParent_tree [OF l ab(1,2), of i j] ab ij i' by simp
  with p ck c show ?thesis by auto
qed

lemma RestoreLoop_node:
  assumes t: "trie_of W D t"
  shows "is_node W D node k \<Longrightarrow> length (nodes W D ! k) \<le> space \<Longrightarrow>
    RestoreLoop t space node acc = Some (nodes W D ! k @ acc)"
proof (induction space arbitrary: node k acc)
  case 0
  then have "nodes W D ! k = nodes W D ! 0" using nodes_0 [OF t] by simp
  moreover have "distinct (nodes W D)" using t by (auto simp: trie_of_def intro: distinct_nodes)
  moreover have "0 < length (nodes W D)" "k < length (nodes W D)" using 0(1) by (auto simp: is_node_def)
  ultimately have "k = 0" by (simp add: nth_eq_iff_index_eq)
  with 0 nodes_0 [OF t] show ?case by (simp add: RestoreLoop.simps IsRoot_def is_node_def)
next
  case (Suc space)
  show ?case
  proof (cases "k = 0")
    case True
    with Suc.prems nodes_0 [OF t] show ?thesis by (simp add: RestoreLoop.simps IsRoot_def is_node_def)
  next
    case False
    have k: "k < length (nodes W D)" "node_id node = Suc k" using Suc.prems(1) by (auto simp: is_node_def)
    from parent_node [OF t Suc.prems(1)] False obtain parent i where
      p: "MoveToParent (lt_louds t) node = Some parent" "is_node W D parent i" "nodes W D ! i = butlast (nodes W D ! k)"
      by auto
    have ne: "nodes W D ! k \<noteq> []"
    proof
      assume "nodes W D ! k = []"
      then have "nodes W D ! k = nodes W D ! 0" using nodes_0 [OF t] by simp
      moreover have "distinct (nodes W D)" using t by (auto simp: trie_of_def intro: distinct_nodes)
      moreover have "0 < length (nodes W D)" using k by auto
      ultimately show False using k(1) False by (simp add: nth_eq_iff_index_eq)
    qed
    have "RestoreLoop t space parent (last (nodes W D ! k) # acc) = Some (nodes W D ! i @ last (nodes W D ! k) # acc)"
      using p(2,3) Suc.prems(2) by (intro Suc.IH) auto
    moreover have "nodes W D ! i @ last (nodes W D ! k) # acc = nodes W D ! k @ acc"
      using p(3) ne by (metis append.assoc append_Cons append_Nil append_butlast_last_id)
    ultimately show ?thesis
      using edge_label [OF t k(2) _ k(1)] False k p(1) by (simp add: RestoreLoop.simps [of t "Suc space"] IsRoot_def)
  qed
qed

lemma RestoreLoop_long:
  assumes t: "trie_of W D t"
  shows "is_node W D node k \<Longrightarrow> space < length (nodes W D ! k) \<Longrightarrow> RestoreLoop t space node acc = None"
proof (induction space arbitrary: node k acc)
  case 0
  have "nodes W D ! k \<noteq> []" using 0(2) by simp
  then have "k \<noteq> 0" using nodes_0 [OF t] by metis
  with 0 show ?case by (simp add: RestoreLoop.simps IsRoot_def is_node_def)
next
  case (Suc space)
  have "nodes W D ! k \<noteq> []" using Suc.prems(2) by auto
  then have "k \<noteq> 0" using nodes_0 [OF t] by metis
  then have k0: "0 < k" by simp
  from parent_node [OF t Suc.prems(1) k0] obtain parent i where
    p: "MoveToParent (lt_louds t) node = Some parent" "is_node W D parent i" "nodes W D ! i = butlast (nodes W D ! k)"
    by blast
  have "RestoreLoop t space parent c = None" for c using p(2,3) Suc.prems(2) by (intro Suc.IH) auto
  moreover have "\<not> IsRoot node" using Suc.prems(1) k0 by (simp add: IsRoot_def is_node_def)
  ultimately show ?case
    using p(1) by (cases "GetEdgeLabelToParentNode t node") (simp_all add: RestoreLoop.simps [of t "Suc space"])
qed

lemma node_of_word:
  assumes t: "trie_of W D t" and w: "w \<in> set W"
  shows "\<exists>node k. GetTerminalNodeFromKeyId t (key_number W (tl (nodes W D)) w) = Some node \<and> is_node W D node k \<and>
    nodes W D ! k = w"
proof -
  from node_at [OF t word_node [OF t w]] obtain k where k: "k < length (nodes W D)" "nodes W D ! k = w" by blast
  obtain pad where s: "succinct (terminal_bit_vector t) (map (\<lambda>q. q \<in> set W) (nodes W D) @ pad)"
    using t by (auto simp: trie_of_def)
  have "Suc (key_number W (tl (nodes W D)) w) = Suc (ones (take k (map (\<lambda>q. q \<in> set W) (nodes W D) @ pad)))"
    using takeWhile_node [OF t k(1)] k w by (simp add: take_map ones_def filter_map comp_def)
  then have "Select1 (terminal_bit_vector t) (Suc (key_number W (tl (nodes W D)) w)) = Some k"
    using k w by (intro sv.select1_at [OF s]) (auto simp: nth_append)
  with node_of_id [OF t k(1)] k(2) show ?thesis by (auto simp: GetTerminalNodeFromKeyId_def)
qed

lemma RestoreKeyOfId_word:
  assumes t: "trie_of W D t" and w: "w \<in> set W" "length w \<le> kMaxDepth"
  shows "RestoreKeyOfId t (int (key_number W (tl (nodes W D)) w)) = Some w"
  using node_of_word [OF t w(1)] RestoreLoop_node [OF t, of _ _ kMaxDepth "[]"] w(2)
  by (auto simp: RestoreKeyOfId_def RestoreKeyOfNode_def)

lemma RestoreKeyOfId_long:
  assumes t: "trie_of W D t" and w: "w \<in> set W" "kMaxDepth < length w"
  shows "RestoreKeyOfId t (int (key_number W (tl (nodes W D)) w)) = None"
  using node_of_word [OF t w(1)] RestoreLoop_long [OF t, of _ _ kMaxDepth "[]"] w(2)
  by (auto simp: RestoreKeyOfId_def RestoreKeyOfNode_def)

section \<open>From the builder's image to the trie\<close>

lemma strict_remdups_adj: "sorted xs \<Longrightarrow> sorted_wrt (<) (remdups_adj (xs :: 'a::linorder list))"
  by (induction xs rule: remdups_adj.induct) (auto simp: less_le)

lemma remdups_sort_words:
  fixes words :: "'a::linorder list"
  shows "sorted_wrt (<) (remdups_adj (sort words))" "set (remdups_adj (sort words)) = set words"
  by (simp_all add: strict_remdups_adj)

lemma length_nodes_le:
  assumes "sorted_wrt (<) W" "0 < D" "set W \<subseteq> set words"
  shows "length (nodes W D) \<le> Suc (sum_list (map length words))"
proof -
  obtain qs where qs: "nodes W D = [] # qs" using nodes_Cons [OF assms(2)] by blast
  have d: "distinct (nodes W D)" by (rule distinct_nodes [OF assms(1)])
  let ?ps = "concat (map (\<lambda>w. map (\<lambda>n. take n w) [1 ..< Suc (length w)]) words)"
  have "q \<in> set ?ps" if "q \<in> set qs" for q
  proof -
    have "q \<noteq> []" using d qs that by auto
    moreover have "q \<in> set (nodes W D)" using qs that by simp
    ultimately obtain w where w: "w \<in> set words" "take (length q) w = q" using assms(3) by (auto simp: set_nodes)
    then have "min (length w) (length q) = length q" using length_take by metis
    then have "length q \<le> length w" by simp
    moreover have "0 < length q" using \<open>q \<noteq> []\<close> by simp
    ultimately have "length q \<in> set [1 ..< Suc (length w)]" unfolding set_upt atLeastLessThan_iff by linarith
    then have "q \<in> set (map (\<lambda>n. take n w) [1 ..< Suc (length w)])"
      using w(2) unfolding set_map by (metis image_eqI)
    then show ?thesis using w(1) by (auto simp del: upt_Suc)
  qed
  then have "card (set qs) \<le> card (set ?ps)" by (intro card_mono) auto
  also have "\<dots> \<le> length ?ps" by (rule card_length)
  also have "\<dots> = sum_list (map length words)" by (simp add: length_concat comp_def del: upt_Suc)
  finally show ?thesis using d qs by (simp add: distinct_card)
qed

lemma ByteSize_le: "streams s bits \<Longrightarrow> ByteSize (FillPadding32 s) \<le> length bits + 4"
  by (auto simp: streams_def ByteSize_def FillPadding32_def Let_def)

lemma PushInt32_length: "PushInt32 n img = Some img' \<Longrightarrow> length img' = length img + 4"
  by (auto simp: PushInt32_def split: if_splits)

lemma PushInt32_Some:
  assumes "v < 2 ^ 32"
  obtains bs where "\<And>img. PushInt32 v img = Some (img @ bs)" "\<And>rest. LoadAdvance32 (bs @ rest) = Some (v, rest)"
proof -
  obtain bs where bs: "\<And>img. PushInt32 v img = Some (img @ bs)" using assms by (simp add: PushInt32_def)
  from PushInt32_load [OF bs [of "[]"]] have "length bs = 4" "unat (load_le bs :: 32 word) = v" by auto
  then have "LoadAdvance32 (bs @ rest) = Some (v, rest)" for rest
    by (simp add: LoadAdvance32_def LoadUnaligned32_def)
  with bs that show thesis by blast
qed

lemma succinct_of_image:
  assumes "4 dvd len" "len \<le> length data"
  shows "\<exists>s'. InitVector data len lb0 lb1 (NewIndex 32) = Some s' \<and> succinct s' (bits_of (take len data))"
  using InitVector_vector [of "NewIndex 32" data len lb0 lb1] assms
  by (auto simp: chunk_ok_def data_ok_def NewIndex_def succinct_def)

lemma TrieOpen_image:
  assumes "louds_size < 2 ^ 32" "terminal_size < 2 ^ 32" "n < 2 ^ 32" "0 < n"
    and h: "PushInt32 louds_size [] = Some i1" "PushInt32 terminal_size i1 = Some i2" "PushInt32 8 i2 = Some i3"
      "PushInt32 n i3 = Some i4"
    and s: "length limg = louds_size" "4 dvd louds_size" "length timg = terminal_size" "4 dvd terminal_size"
  shows "\<exists>t. TrieOpen (i4 @ limg @ timg @ edges) lb0 lb1 s0 s1 tlb1 NewTrie = Some t \<and>
    louds_for (lt_louds t) (bits_of limg) \<and> succinct (terminal_bit_vector t) (bits_of timg) \<and> edge_character t = edges"
proof -
  obtain b1 b2 b3 b4 where
    b: "i1 = b1" "i2 = i1 @ b2" "i3 = i2 @ b3" "i4 = i3 @ b4" and
    l: "\<And>rest. LoadAdvance32 (b1 @ rest) = Some (louds_size, rest)"
      "\<And>rest. LoadAdvance32 (b2 @ rest) = Some (terminal_size, rest)"
      "\<And>rest. LoadAdvance32 (b3 @ rest) = Some (8, rest)"
      "\<And>rest. LoadAdvance32 (b4 @ rest) = Some (n, rest)"
  proof -
    obtain b1 where 1: "\<And>img. PushInt32 louds_size img = Some (img @ b1)" "\<And>rest. LoadAdvance32 (b1 @ rest) = Some (louds_size, rest)"
      using PushInt32_Some [OF assms(1)] by metis
    obtain b2 where 2: "\<And>img. PushInt32 terminal_size img = Some (img @ b2)"
      "\<And>rest. LoadAdvance32 (b2 @ rest) = Some (terminal_size, rest)"
      using PushInt32_Some [OF assms(2)] by metis
    obtain b3 where 3: "\<And>img. PushInt32 8 img = Some (img @ b3)" "\<And>rest. LoadAdvance32 (b3 @ rest) = Some (8, rest)"
      using PushInt32_Some [of 8] by auto
    obtain b4 where 4: "\<And>img. PushInt32 n img = Some (img @ b4)" "\<And>rest. LoadAdvance32 (b4 @ rest) = Some (n, rest)"
      using PushInt32_Some [OF assms(3)] by metis
    show thesis
      by (rule that [of b1 b2 b3 b4]) (use h 1 2 3 4 in simp_all)
  qed
  have "data_ok (limg @ timg @ edges) louds_size" "chunk_ok (chunk_size (lo_index NewLouds))"
    using s by (simp_all add: data_ok_def chunk_ok_def NewLouds_def NewIndex_def)
  from LoudsInit_louds [OF this, of lb0 lb1 s0 s1] obtain lo where
    lo: "LoudsInit (limg @ timg @ edges) louds_size lb0 lb1 s0 s1 NewLouds = Some lo" "louds_for lo (bits_of limg)"
    using s(1) by auto
  from succinct_of_image [OF s(4), of "timg @ edges" 0 tlb1] s(3) obtain v where
    v: "InitVector (timg @ edges) terminal_size 0 tlb1 (NewIndex 32) = Some v" "succinct v (bits_of timg)" by auto
  show ?thesis
    using lo v assms(4) s by (simp add: TrieOpen_def b l NewTrie_def)
qed

fun AddWords :: "bytes list \<Rightarrow> trie_builder \<Rightarrow> trie_builder option" where
  "AddWords [] b = Some b"
| "AddWords (w # ws) b = do { b' \<leftarrow> TrieAdd w b; AddWords ws b' }"

lemma AddWords_words:
  "[] \<notin> set ws \<Longrightarrow> \<not> built b \<Longrightarrow> AddWords ws b = Some (b\<lparr>word_list := word_list b @ ws\<rparr>)"
  by (induction ws arbitrary: b) (auto simp: TrieAdd_def)

lemma Build_Open:
  assumes ne: "[] \<notin> set words" and small: "sum_list (map length words) < 2 ^ 30"
    and b: "\<not> built b" "word_list b = words" "tb_image b = []"
  defines "W \<equiv> remdups_adj (sort words)" and "D \<equiv> Suc (fold max (map length words) 0)"
  shows "\<exists>b' t. TrieBuild b = Some b' \<and> built b' \<and> word_list b' = W \<and>
    id_list b' = map (\<lambda>w. int (key_number W (tl (nodes W D)) w)) W \<and>
    TrieOpen (tb_image b') lb0 lb1 s0 s1 tlb1 NewTrie = Some t \<and> trie_of W D t \<and>
    length (tb_image b') \<le> 4 * sum_list (map length words) + 100"
proof -
  have W: "sorted_wrt (<) W" "set W = set words" unfolding W_def by (rule remdups_sort_words)+
  have max: "length w < D" if "w \<in> set words" for w
  proof -
    have "Max (set (0 # map length words)) = fold max (map length words) 0" by (rule Max.set_eq_fold)
    moreover have "length w \<le> Max (set (0 # map length words))" using that by (intro Max_ge) auto
    ultimately show ?thesis by (simp add: D_def)
  qed
  have D: "\<forall>w \<in> set W. length w < D" "0 < D" using W(2) max by (auto simp: D_def)
  let ?st = "BuildLevels 0 (zip W [0 ..< length W]) (InitialBuild (length W))"
  have inv: "build_inv W (tl (nodes W D)) (built_bits W D) ?st" by (rule Build_streams [OF W(1) D])
  obtain qs where qs: "nodes W D = [] # qs" using nodes_Cons [OF D(2)] by blast
  have n': "length (nodes W D) \<le> Suc (sum_list (map length words))" using length_nodes_le [OF W(1) D(2), of words] W(2) by simp
  then have n: "length (nodes W D) \<le> 2 ^ 30" using small by simp
  have sumd: "sum_list (degrees W D) = length (tl (nodes W D))"
    using arg_cong [OF children_tree [OF W(1) D], of length] by (simp add: degrees_def length_concat comp_def)
  have lb': "length (built_bits W D) \<le> 2 * length (nodes W D) + 2"
  proof (cases "W = []")
    case False
    show ?thesis unfolding built_bits_tree [OF W(1) False] using sumd by (simp add: degrees_def)
  qed (simp add: built_bits_empty)
  then have lb: "length (built_bits W D) \<le> 2 ^ 31 + 2" using n by simp
  let ?tr = "FillPadding32 (trie_stream ?st)" and ?te = "FillPadding32 (terminal_stream ?st)"
  have st: "streams (trie_stream ?st) (built_bits W D)" "streams (terminal_stream ?st) (False # map (\<lambda>q. q \<in> set W) qs)"
    using inv qs by (simp_all add: build_inv_def)
  have sz: "ByteSize ?tr < 2 ^ 32" "ByteSize ?te < 2 ^ 32"
    using ByteSize_le [OF st(1)] ByteSize_le [OF st(2)] lb n qs by simp_all
  have ch: "edge_characters ?st = 0 # map last (tl (nodes W D))" using inv by (simp add: build_inv_def)
  then have cl: "length (edge_characters ?st) < 2 ^ 32" "0 < length (edge_characters ?st)" using n by simp_all
  obtain i1 i2 i3 i4 where i: "PushInt32 (ByteSize ?tr) [] = Some i1" "PushInt32 (ByteSize ?te) i1 = Some i2"
    "PushInt32 8 i2 = Some i3" "PushInt32 (length (edge_characters ?st)) i3 = Some i4"
    using sz cl by (simp add: PushInt32_def)
  let ?b' = "b\<lparr>built := True, word_list := W, id_list := ids ?st,
      tb_image := i4 @ bs_image ?tr @ bs_image ?te @ edge_characters ?st\<rparr>"
  have build: "TrieBuild b = Some ?b'" using b i by (simp add: TrieBuild_def Let_def W_def)
  have "length i4 = 16"
    using PushInt32_length [OF i(1)] PushInt32_length [OF i(2)] PushInt32_length [OF i(3)] PushInt32_length [OF i(4)] by simp
  moreover have "length (edge_characters ?st) = length (nodes W D)"
    using inv qs by (simp add: build_inv_def)
  moreover have "ByteSize ?tr \<le> 2 * length (nodes W D) + 6" "ByteSize ?te \<le> length (nodes W D) + 4"
    using ByteSize_le [OF st(1)] ByteSize_le [OF st(2)] lb' qs by simp_all
  ultimately have img: "length (tb_image ?b') \<le> 4 * sum_list (map length words) + 100"
    using n' by (simp add: ByteSize_def)
  obtain k1 where k1: "bits_of (bs_image ?tr) = built_bits W D @ replicate k1 False" "4 dvd ByteSize ?tr"
    "length (built_bits W D) + k1 = 8 * ByteSize ?tr"
    using FillPadding32_bits [of "trie_stream ?st" "built_bits W D"] inv by (auto simp: build_inv_def)
  obtain k2 where k2: "bits_of (bs_image ?te) = map (\<lambda>q. q \<in> set W) (nodes W D) @ replicate k2 False" "4 dvd ByteSize ?te"
    using FillPadding32_bits [of "terminal_stream ?st" "False # map (\<lambda>q. q \<in> set W) (tl (nodes W D))"] inv qs ne W(2)
    by (auto simp: build_inv_def)
  from TrieOpen_image [OF sz cl i, of "bs_image ?tr" "bs_image ?te" "edge_characters ?st" lb0 lb1 s0 s1 tlb1] k1(2) k2(2)
  obtain t where t: "TrieOpen (tb_image ?b') lb0 lb1 s0 s1 tlb1 NewTrie = Some t"
    "louds_for (lt_louds t) (bits_of (bs_image ?tr))" "succinct (terminal_bit_vector t) (bits_of (bs_image ?te))"
    "edge_character t = edge_characters ?st"
    by (auto simp: ByteSize_def)
  have "\<exists>pad. bits_of (bs_image ?tr) = louds_bits (tree_degrees W D) @ pad"
  proof (cases "W = []")
    case True
    obtain m where "ByteSize ?tr = 4 * m" using k1(2) by (elim dvdE)
    with k1(3) have "2 + k1 = 32 * m" unfolding True built_bits_empty by simp
    then have "k1 \<noteq> 0" by presburger
    then obtain k where k: "k1 = Suc k" by (cases k1) auto
    have "nodes W D = [[]]"
    proof -
      have "q \<notin> set qs" for q
      proof
        assume q: "q \<in> set qs"
        then have "q \<in> set (nodes W D)" unfolding qs by simp
        then have "q = []" unfolding set_nodes True by simp
        moreover have "[] \<notin> set qs" using distinct_nodes [OF W(1), of D] unfolding qs by simp
        ultimately show False using q by simp
      qed
      then have "qs = []" by (metis list.set_intros(1) neq_Nil_conv)
      then show ?thesis unfolding qs by simp
    qed
    then have "degrees W D = [0]" using sumd by (simp add: degrees_def)
    then show ?thesis using k1(1) unfolding True built_bits_empty k by simp
  next
    case False
    then show ?thesis using k1(1) built_bits_tree [OF W(1) False] by simp
  qed
  then obtain pad where pad: "bits_of (bs_image ?tr) = louds_bits (tree_degrees W D) @ pad" ..
  have "trie_of W D t"
    unfolding trie_of_def
  proof (intro conjI)
    show "\<exists>pad. louds_for (lt_louds t) (louds_bits (tree_degrees W D) @ pad)" using t(2) unfolding pad by blast
    show "\<exists>pad. succinct (terminal_bit_vector t) (map (\<lambda>q. q \<in> set W) (nodes W D) @ pad)"
      using t(3) unfolding k2(1) by blast
    show "sorted_wrt (<) W" "\<forall>w \<in> set W. length w < D" "0 < D" by (fact W(1) D)+
    show "[] \<notin> set W" using W(2) ne by simp
    show "edge_character t = 0 # map last (tl (nodes W D))" using t(4) ch by (rule trans)
  qed
  moreover have "ids ?st = map (\<lambda>w. int (key_number W (tl (nodes W D)) w)) W"
  proof -
    have "w \<in> set (tl (nodes W D))" if "w \<in> set W" for w
    proof -
      have "w \<in> set (nodes W D)" unfolding set_nodes using that D by (metis take_all order_refl)
      moreover have "w \<noteq> []" using that ne W(2) by auto
      ultimately show ?thesis using qs by simp
    qed
    then show ?thesis using inv by (auto simp: build_inv_def)
  qed
  ultimately show ?thesis using build t(1) img by (intro exI [of _ ?b'] exI [of _ t]) simp
qed

lemma GetId_words:
  assumes "sorted_wrt (<) W" "built b" "word_list b = W" "id_list b = map f W"
  shows "GetId b w = Some (if w \<in> set W then f w else -1)"
proof (cases "w \<in> set W")
  case True
  then obtain i where i: "i < length W" "W ! i = w" by (auto simp: in_set_conv_nth)
  have "takeWhile (\<lambda>v. v < w) W = take i W"
    using i assms(1) by (intro takeWhile_eq_take_P_nth) (auto simp: sorted_wrt_iff_nth_less)
  with i assms True show ?thesis by (simp add: GetId_def nth_opt_def)
next
  case False
  let ?i = "length (takeWhile (\<lambda>v. v < w) W)"
  have "?i = length W \<or> W ! ?i \<noteq> w"
    using False length_takeWhile_le [of "\<lambda>v. v < w" W] by (metis le_neq_implies_less nth_mem)
  with False assms show ?thesis by (simp add: GetId_def Let_def)
qed

lemma Build_words:
  assumes "[] \<notin> set words" "sum_list (map length words) < 2 ^ 30"
  obtains W D b b' t where "AddWords words NewTrieBuilder = Some b" "TrieBuild b = Some b'"
    "TrieOpen (tb_image b') lb0 lb1 s0 s1 tlb1 NewTrie = Some t" "trie_of W D t" "set W = set words"
    "\<forall>w. GetId b' w = Some (if w \<in> set words then int (key_number W (tl (nodes W D)) w) else -1)"
    "length (tb_image b') \<le> 4 * sum_list (map length words) + 100"
proof -
  let ?W = "remdups_adj (sort words)" and ?D = "Suc (fold max (map length words) 0)"
  let ?b = "NewTrieBuilder\<lparr>word_list := words\<rparr>"
  have a: "AddWords words NewTrieBuilder = Some ?b" using AddWords_words [OF assms(1)] by (simp add: NewTrieBuilder_def)
  have nb: "\<not> built ?b" "word_list ?b = words" "tb_image ?b = []" by (simp_all add: NewTrieBuilder_def)
  obtain b' t where b: "TrieBuild ?b = Some b'" "built b'" "word_list b' = ?W"
    "id_list b' = map (\<lambda>w. int (key_number ?W (tl (nodes ?W ?D)) w)) ?W"
    "TrieOpen (tb_image b') lb0 lb1 s0 s1 tlb1 NewTrie = Some t" "trie_of ?W ?D t"
    "length (tb_image b') \<le> 4 * sum_list (map length words) + 100"
    using Build_Open [OF assms nb, of lb0 lb1 s0 s1 tlb1] by blast
  have "\<forall>w. GetId b' w = Some (if w \<in> set words then int (key_number ?W (tl (nodes ?W ?D)) w) else -1)"
    using GetId_words [OF remdups_sort_words(1) b(2-4)] by simp
  with that [OF a b(1,5,6)] b(7) show thesis by simp
qed

section \<open>Properties\<close>



text \<open>PrefixSearch calls back exactly for the added words that are a prefix of the key, shortest first, and the
  node it passes carries the builder's id of that word.\<close>
theorem prefix_search_finds_the_prefixes:
  assumes "[] \<notin> set words" "sum_list (map length words) < 2 ^ 30"
  shows "\<exists>b' t l. Option.bind (AddWords words NewTrieBuilder) TrieBuild = Some b' \<and>
    TrieOpen (tb_image b') lb0 lb1 s0 s1 tlb1 NewTrie = Some t \<and> PrefixSearch t key = Some l \<and>
    map fst l = filter (\<lambda>n. take n key \<in> set words) [1 ..< Suc (length key)] \<and>
    list_all (\<lambda>(n, node). map_option int (GetKeyIdOfTerminalNode t node) = GetId b' (take n key)) l"
proof -
  obtain W D b b' t where b: "AddWords words NewTrieBuilder = Some b" "TrieBuild b = Some b'"
    "TrieOpen (tb_image b') lb0 lb1 s0 s1 tlb1 NewTrie = Some t" "trie_of W D t" "set W = set words"
    "\<forall>w. GetId b' w = Some (if w \<in> set words then int (key_number W (tl (nodes W D)) w) else -1)"
    by (rule Build_words [OF assms])
  obtain l where l: "PrefixSearch t key = Some l"
    "map fst l = filter (\<lambda>n. take n key \<in> set words) [1 ..< Suc (length key)]"
    "\<forall>(n, node) \<in> set l. GetKeyIdOfTerminalNode t node = Some (key_number W (tl (nodes W D)) (take n key))"
    using PrefixSearch_words [OF b(4), of key] b(5) by auto
  have "map_option int (GetKeyIdOfTerminalNode t node) = GetId b' (take n key)" if "(n, node) \<in> set l" for n node
  proof -
    have "n \<in> set (map fst l)" using that by force
    then have "take n key \<in> set words" unfolding l(2) by simp
    moreover have "GetKeyIdOfTerminalNode t node = Some (key_number W (tl (nodes W D)) (take n key))" using l(3) that by blast
    ultimately show ?thesis using b(6) by simp
  qed
  then have "list_all (\<lambda>(n, node). map_option int (GetKeyIdOfTerminalNode t node) = GetId b' (take n key)) l"
    by (auto simp: list_all_iff)
  with b(1,2,3) l(1,2) show ?thesis by (intro exI [of _ b'] exI [of _ t] exI [of _ l]) simp
qed

lemma prefix_search_finds_the_prefixes_witness:
  "\<exists>b' t l. Option.bind (AddWords [[97, 98], [97], [98, 99, 100]] NewTrieBuilder) TrieBuild = Some b' \<and>
    TrieOpen (tb_image b') 2 3 4 2 1 NewTrie = Some t \<and> PrefixSearch t [97, 98, 99] = Some l \<and> map fst l = [1, 2]"
proof -
  have "filter (\<lambda>n. take n [97, 98, 99] \<in> set [[97, 98], [97], [98, 99, 100 :: byte]]) [1 ..< Suc (length [97, 98, 99 :: byte])] = [1, 2]"
    by (simp add: upt_rec)
  then show ?thesis
    using prefix_search_finds_the_prefixes [of "[[97, 98], [97], [98, 99, 100]]" 2 3 4 2 1 "[97, 98, 99]"] by fastforce
qed

text \<open>C37: The builder takes words of any length, but RestoreKeyString has room for 256 characters: for every longer
  word it writes in front of its buffer.\<close>
theorem long_words_overflow_the_buffer:
  assumes "[] \<notin> set words" "sum_list (map length words) < 2 ^ 30" "w \<in> set words" "kMaxDepth < length w"
  shows "\<exists>b' t i. Option.bind (AddWords words NewTrieBuilder) TrieBuild = Some b' \<and>
    TrieOpen (tb_image b') lb0 lb1 s0 s1 tlb1 NewTrie = Some t \<and> GetId b' w = Some i \<and> 0 \<le> i \<and>
    RestoreKeyOfId t i = None"
proof -
  obtain W D b b' t where b: "AddWords words NewTrieBuilder = Some b" "TrieBuild b = Some b'"
    "TrieOpen (tb_image b') lb0 lb1 s0 s1 tlb1 NewTrie = Some t" "trie_of W D t" "set W = set words"
    "\<forall>w. GetId b' w = Some (if w \<in> set words then int (key_number W (tl (nodes W D)) w) else -1)"
    by (rule Build_words [OF assms(1,2)])
  from RestoreKeyOfId_long [OF b(4), of w] b assms(3,4) show ?thesis by simp
qed

lemma long_words_overflow_the_buffer_witness:
  "\<exists>b' t i. Option.bind (AddWords [replicate 257 1] NewTrieBuilder) TrieBuild = Some b' \<and>
    TrieOpen (tb_image b') 0 0 0 0 0 NewTrie = Some t \<and> GetId b' (replicate 257 1) = Some i \<and> 0 \<le> i \<and>
    RestoreKeyOfId t i = None"
  by (rule long_words_overflow_the_buffer) (simp_all add: kMaxDepth_def)

end
