(* ===== verification/BitArray.thy ===== *)
theory BitArray
  imports LoudsTrie
begin

text \<open>
  The arrays of byte strings of \<^verbatim>\<open>src/src/storage/louds/bit_vector_based_array.cc\<close> and their builder
  \<^verbatim>\<open>bit_vector_based_array_builder.cc\<close>: each element is stored with a length of the form \<open>base + N * step\<close>, and a bit
  vector with a 0-bit per element and a 1-bit per step says where it begins. \<open>array_of\<close> says what an opened array
  holds.
\<close>

section \<open>The builder: storage/louds/bit\_vector\_based\_array\_builder.cc\<close>

record array_builder =
  ab_built :: bool
  ab_elements :: "bytes list"
  ab_base_length :: "64 word"
  ab_step_length :: "64 word"
  ab_image :: bytes

definition NewArrayBuilder :: array_builder where
  "NewArrayBuilder = \<lparr>ab_built = False, ab_elements = [], ab_base_length = 4, ab_step_length = 1, ab_image = []\<rparr>"

text \<open>\<^verbatim>\<open>Add\<close>, \<^verbatim>\<open>SetSize\<close> and \<^verbatim>\<open>Build\<close> are None where a \<^verbatim>\<open>CHECK\<close> fails.\<close>

definition ArrayAdd :: "bytes \<Rightarrow> array_builder \<Rightarrow> array_builder option" where
  "ArrayAdd element b = (if ab_built b then None else Some (b\<lparr>ab_elements := ab_elements b @ [element]\<rparr>))"

definition ArraySetSize :: "64 word \<Rightarrow> 64 word \<Rightarrow> array_builder \<Rightarrow> array_builder option" where
  "ArraySetSize base_len step_len b =
     (if ab_built b then None else Some (b\<lparr>ab_base_length := base_len, ab_step_length := step_len\<rparr>))"

text \<open>
  The loop that counts the steps of an element. The length is a \<^verbatim>\<open>size_t\<close> and wraps around; \<^verbatim>\<open>num_steps\<close> is an
  \<^verbatim>\<open>int\<close>, and None is its overflow.
\<close>

function CountSteps :: "64 word \<Rightarrow> 64 word \<Rightarrow> 64 word \<Rightarrow> nat \<Rightarrow> nat option" where
  "CountSteps base_len step_len len num_steps =
     (if base_len < len
      then (if num_steps < 2 ^ 31 - 1 then CountSteps base_len step_len (len - step_len) (num_steps + 1) else None)
      else Some num_steps)"
  by pat_completeness auto
termination by (relation "measure (\<lambda>(b, s, l, n). 2 ^ 31 - 1 - n)") auto

declare CountSteps.simps [simp del]

fun BuildElements :: "64 word \<Rightarrow> 64 word \<Rightarrow> bytes list \<Rightarrow> bit_stream \<Rightarrow> bytes \<Rightarrow> (bit_stream \<times> bytes) option" where
  "BuildElements base_len step_len [] s data = Some (s, data)"
| "BuildElements base_len step_len (element # elements) s data =
     do {
       num_steps \<leftarrow> CountSteps base_len step_len (of_nat (length element)) 0;
       let output_length = base_len + of_nat num_steps * step_len;
       let s1 = (PushBit True ^^ num_steps) (PushBit False s);
       let data1 = data @ element @ replicate (unat (output_length - of_nat (length element))) 0;
       BuildElements base_len step_len elements s1 data1 }"

definition ArrayBuild :: "array_builder \<Rightarrow> array_builder option" where
  "ArrayBuild b =
     (if ab_built b then None
      else do {
        (s, data) \<leftarrow> BuildElements (ab_base_length b) (ab_step_length b) (ab_elements b) NewBitStream [];
        let stream = FillPadding32 (PushBit False s);
        img1 \<leftarrow> PushInt32 (ByteSize stream) (ab_image b);
        img2 \<leftarrow> PushInt32 (unat (ab_base_length b)) img1;
        img3 \<leftarrow> PushInt32 (unat (ab_step_length b)) img2;
        img4 \<leftarrow> PushInt32 0 img3;
        Some (b\<lparr>ab_built := True, ab_image := img4 @ bs_image stream @ data\<rparr>) })"

definition GetArrayImage :: "array_builder \<Rightarrow> bytes option" where
  "GetArrayImage b = (if ab_built b then Some (ab_image b) else None)"

section \<open>The array: storage/louds/bit\_vector\_based\_array.cc\<close>

definition kLb0CacheSize :: nat where "kLb0CacheSize = 1024"
definition kLb1CacheSize :: nat where "kLb1CacheSize = 0"

record bit_array =
  ba_index :: succinct_index
  ba_base_length :: nat
  ba_step_length :: nat
  ba_data :: bytes

definition NewArray :: bit_array where
  "NewArray = \<lparr>ba_index = NewIndex 32, ba_base_length = 0, ba_step_length = 0, ba_data = []\<rparr>"

definition ArrayOpen :: "bytes \<Rightarrow> bit_array \<Rightarrow> bit_array option" where
  "ArrayOpen img a =
     do {
       (index_length, img1) \<leftarrow> LoadAdvance32 img;
       (base_length, img2) \<leftarrow> LoadAdvance32 img1;
       (step_length, img3) \<leftarrow> LoadAdvance32 img2;
       (padding, img4) \<leftarrow> LoadAdvance32 img3;
       if padding \<noteq> 0 then None
       else do {
         index \<leftarrow> InitVector img4 index_length kLb0CacheSize kLb1CacheSize (ba_index a);
         Some \<lparr>ba_index = index, ba_base_length = base_length, ba_step_length = step_length,
               ba_data = drop index_length img4\<rparr> } }"

definition ArrayClose :: "bit_array \<Rightarrow> bit_array" where
  "ArrayClose a = \<lparr>ba_index = ResetVector (ba_index a), ba_base_length = 0, ba_step_length = 0, ba_data = []\<rparr>"

text \<open>The linear search of \<^verbatim>\<open>Get\<close> for the end of the 1-bits.\<close>

function RunEnd :: "succinct_index \<Rightarrow> nat \<Rightarrow> nat option" where
  "RunEnd s i =
     (case GetBit s i of
        None \<Rightarrow> None
      | Some b \<Rightarrow> if b then RunEnd s (i + 1) else Some i)"
  by pat_completeness auto
termination by (relation "measure (\<lambda>(s, i). 8 * length (si_data s) - i)") (auto simp: GetBit_def split: if_splits)

declare RunEnd.simps [simp del]

text \<open>
  \<^verbatim>\<open>Get\<close> returns a pointer and a length: \<open>ArrayFind\<close> the offset and the length, \<open>ArrayGet\<close> the bytes there (None where
  they are not in the image), \<open>ArrayPtr\<close> all bytes from the pointer on.
\<close>

definition ArrayFind :: "bit_array \<Rightarrow> nat \<Rightarrow> (nat \<times> nat) option" where
  "ArrayFind a index =
     do {
       bit_index \<leftarrow> Select0 (ba_index a) (index + 1);
       r \<leftarrow> Rank1 (ba_index a) bit_index;
       let data_index = ba_base_length a * index + ba_step_length a * r;
       i \<leftarrow> RunEnd (ba_index a) (bit_index + 1);
       Some (data_index, ba_base_length a + ba_step_length a * (i - bit_index - 1)) }"

definition ArrayGet :: "bit_array \<Rightarrow> nat \<Rightarrow> bytes option" where
  "ArrayGet a index =
     do {
       (data_index, len) \<leftarrow> ArrayFind a index;
       if data_index + len \<le> length (ba_data a) then Some (take len (drop data_index (ba_data a))) else None }"

definition ArrayPtr :: "bit_array \<Rightarrow> nat \<Rightarrow> bytes option" where
  "ArrayPtr a index = map_option (\<lambda>(data_index, len). drop data_index (ba_data a)) (ArrayFind a index)"

section \<open>Counting steps\<close>

definition steps_of :: "nat \<Rightarrow> nat \<Rightarrow> nat \<Rightarrow> nat" where
  "steps_of base_len step_len len = (len - base_len + step_len - 1) div step_len"

definition padded :: "nat \<Rightarrow> nat \<Rightarrow> bytes \<Rightarrow> bytes" where
  "padded base_len step_len e =
     e @ replicate (base_len + step_len * steps_of base_len step_len (length e) - length e) 0"

lemma steps_of_zero: "0 < s \<Longrightarrow> l \<le> b \<Longrightarrow> steps_of b s l = 0"
  by (simp add: steps_of_def)

lemma steps_of_Suc:
  assumes "0 < s" "s \<le> b + 1" "b < l"
  shows "steps_of b s l = Suc (steps_of b s (l - s))"
proof (cases "b < l - s")
  case True
  define m where "m = l - s - b + s - 1"
  have e: "l - b + s - 1 = m + s" using True assms by (simp add: m_def)
  have "(m + s) div s = Suc (m div s)" using assms(1) by (simp add: div_add_self2)
  then show ?thesis unfolding steps_of_def e m_def .
next
  case False
  then have "steps_of b s l = 1" using assms unfolding steps_of_def by (intro div_nat_eqI) auto
  with False steps_of_zero [OF assms(1), of "l - s" b] show ?thesis by simp
qed

lemma steps_of_bounds:
  assumes "0 < s"
  shows "l \<le> b + s * steps_of b s l" "s * steps_of b s l \<le> l + s"
proof -
  define q where "q = steps_of b s l"
  define r where "r = (l - b + s - 1) mod s"
  have "s * q + r = l - b + s - 1" "r < s" using assms by (simp_all add: q_def r_def steps_of_def)
  then show "l \<le> b + s * steps_of b s l" "s * steps_of b s l \<le> l + s" unfolding q_def [symmetric] by arith+
qed

lemma CountSteps_small:
  assumes "0 < s" "s \<le> b + 1" "b < 2 ^ 32"
  shows "l < 2 ^ 30 \<Longrightarrow> n + l < 2 ^ 31 - 1 \<Longrightarrow>
    CountSteps (of_nat b) (of_nat s) (of_nat l) n = Some (n + steps_of b s l)"
proof (induction l arbitrary: n rule: less_induct)
  case (less l)
  have w: "(of_nat b :: 64 word) < of_nat l \<longleftrightarrow> b < l"
    using assms(3) less.prems(1) by (simp add: word_less_nat_alt unat_of_nat)
  show ?case
  proof (cases "b < l")
    case True
    then have "s \<le> l" using assms(2) by simp
    then have e: "(of_nat l :: 64 word) - of_nat s = of_nat (l - s)" by simp
    have "CountSteps (of_nat b) (of_nat s) (of_nat (l - s)) (n + 1) = Some (n + 1 + steps_of b s (l - s))"
      using less.prems \<open>s \<le> l\<close> assms(1) by (intro less.IH) auto
    moreover have "n < 2 ^ 31 - 1" using less.prems by simp
    ultimately show ?thesis
      using True w e steps_of_Suc [OF assms(1,2) True] by (subst CountSteps.simps) (simp del: of_nat_diff)
  next
    case False
    then show ?thesis using w steps_of_zero [OF assms(1), of l b] by (subst CountSteps.simps) simp
  qed
qed

text \<open>Once the length has wrapped around, the counter overflows.\<close>

lemma CountSteps_wrapped:
  assumes "0 < s" "s \<le> 2 ^ 32" "b < 2 ^ 32"
  shows "n < 2 ^ 31 \<Longrightarrow> v < 2 ^ 64 \<Longrightarrow> 2 ^ 32 + s * (2 ^ 31 - n) \<le> v \<Longrightarrow>
    CountSteps (of_nat b) (of_nat s) (of_nat v) n = None"
proof (induction "2 ^ 31 - n" arbitrary: n v)
  case 0
  then show ?case by simp
next
  case (Suc m)
  define m where "m = 2 ^ 31 - Suc n"
  have "2 ^ 31 - n = Suc m" using Suc.prems(1) by (simp add: m_def)
  then have "2 ^ 32 + (s + s * m) \<le> v" using Suc.prems(3) by simp
  then have sv: "s \<le> v" "b < v" using assms(3) by linarith+
  then have w: "(of_nat b :: 64 word) < of_nat v"
    using Suc.prems(2) by (simp add: word_less_nat_alt unat_of_nat)
  show ?case
  proof (cases "n < 2 ^ 31 - 1")
    case True
    have "s * (2 ^ 31 - n) = s * (2 ^ 31 - (n + 1)) + s"
    proof -
      have "2 ^ 31 - n = Suc (2 ^ 31 - (n + 1))" using True by simp
      then show ?thesis by simp
    qed
    then have "2 ^ 32 + s * (2 ^ 31 - (n + 1)) \<le> v - s" using Suc.prems(3) by simp
    then have "CountSteps (of_nat b) (of_nat s) (of_nat (v - s)) (n + 1) = None"
      using Suc.hyps(2) Suc.prems(2) True by (intro Suc.hyps(1)) auto
    moreover have "(of_nat v :: 64 word) - of_nat s = of_nat (v - s)" using sv(1) by simp
    ultimately show ?thesis using w True by (subst CountSteps.simps) (simp del: of_nat_diff)
  next
    case False
    with w show ?thesis by (subst CountSteps.simps) simp
  qed
qed

lemma CountSteps_overflow:
  assumes "s \<le> 2 ^ 32" "b < l" "l < s"
  shows "CountSteps (of_nat b) (of_nat s) (of_nat l) 0 = None"
proof -
  have w: "(of_nat b :: 64 word) < of_nat l" using assms by (simp add: word_less_nat_alt unat_of_nat)
  have "(of_nat l :: 64 word) - of_nat s = of_nat (2 ^ 64 + l - s)"
  proof -
    have "of_nat (2 ^ 64 + l - s) = (of_nat (2 ^ 64 + l) :: 64 word) - of_nat s" using assms by (intro of_nat_diff) simp
    then show ?thesis by simp
  qed
  moreover have "CountSteps (of_nat b) (of_nat s) (of_nat (2 ^ 64 + l - s)) 1 = None"
  proof (rule CountSteps_wrapped)
    have "s * (2 ^ 31 - 1) \<le> 2 ^ 32 * (2 ^ 31 - 1)" using assms(1) by (rule mult_le_mono1)
    then show "2 ^ 32 + s * (2 ^ 31 - 1) \<le> 2 ^ 64 + l - s" using assms by simp
  qed (use assms in auto)
  ultimately show ?thesis using w by (subst CountSteps.simps) (simp del: of_nat_diff)
qed

section \<open>The image of the builder\<close>

definition element_bits :: "nat \<Rightarrow> nat \<Rightarrow> bytes \<Rightarrow> bool list" where
  "element_bits b s e = False # replicate (steps_of b s (length e)) True"

abbreviation array_bits :: "nat \<Rightarrow> nat \<Rightarrow> bytes list \<Rightarrow> bool list" where
  "array_bits b s es \<equiv> concat (map (element_bits b s) es)"

lemma streams_replicate: "streams s bits \<Longrightarrow> streams ((PushBit True ^^ n) s) (bits @ replicate n True)"
proof (induction n)
  case (Suc n)
  from streams_PushBit [OF Suc.IH [OF Suc.prems], of True] show ?case
    by (simp add: replicate_append_same)
qed simp

lemma BuildElements_padded:
  assumes "0 < s" "s \<le> b + 1" "b < 2 ^ 30"
  shows "\<forall>e \<in> set es. length e < 2 ^ 30 \<Longrightarrow> streams st bits \<Longrightarrow>
    \<exists>st'. BuildElements (of_nat b) (of_nat s) es st data = Some (st', data @ concat (map (padded b s) es)) \<and>
      streams st' (bits @ array_bits b s es)"
proof (induction es arbitrary: st bits data)
  case (Cons e es)
  let ?n = "steps_of b s (length e)" and ?l = "length e"
  have l: "?l < 2 ^ 30" using Cons.prems(1) by simp
  have c: "CountSteps (of_nat b) (of_nat s) (of_nat ?l) 0 = Some ?n"
    using CountSteps_small [of s b ?l 0] assms l by simp
  note n = steps_of_bounds [OF assms(1)]
  have "(of_nat b :: 64 word) + of_nat ?n * of_nat s - of_nat ?l = of_nat (b + s * ?n - ?l)"
    using n(1) [of ?l b] by (simp add: mult.commute)
  moreover have "b + s * ?n - ?l < 2 ^ 64" using n(2) [of b ?l] assms l by simp
  ultimately have u: "unat ((of_nat b :: 64 word) + of_nat ?n * of_nat s - of_nat ?l) = b + s * ?n - ?l"
    by (simp add: unat_of_nat del: of_nat_add of_nat_mult of_nat_diff)
  have st: "streams ((PushBit True ^^ ?n) (PushBit False st)) (bits @ element_bits b s e)"
    using streams_replicate [OF streams_PushBit [OF Cons.prems(2)]] by (simp add: element_bits_def)
  have "\<exists>st'. BuildElements (of_nat b) (of_nat s) es ((PushBit True ^^ ?n) (PushBit False st)) (data @ padded b s e) =
      Some (st', (data @ padded b s e) @ concat (map (padded b s) es)) \<and>
      streams st' ((bits @ element_bits b s e) @ array_bits b s es)"
    using Cons.prems(1) st by (intro Cons.IH) auto
  moreover have "padded b s e = e @ replicate (b + s * ?n - ?l) 0" by (simp add: padded_def)
  ultimately show ?case by (simp add: c u Let_def)
qed simp

lemma length_array_bits: "length (array_bits b s xs) = length xs + (\<Sum>e \<leftarrow> xs. steps_of b s (length e))"
  by (induction xs) (auto simp: element_bits_def)

lemma element_zero_at:
  fixes b s :: nat
  assumes "i < length es"
  defines "p \<equiv> length (array_bits b s (take i es))"
  shows "p < length (array_bits b s es @ False # pad)" "\<not> (array_bits b s es @ False # pad) ! p"
    "ones (take p (array_bits b s es @ False # pad)) = (\<Sum>e \<leftarrow> take i es. steps_of b s (length e))"
    "\<And>k. k < steps_of b s (length (es ! i)) \<Longrightarrow> (array_bits b s es @ False # pad) ! (p + 1 + k)"
    "\<not> (array_bits b s es @ False # pad) ! (p + 1 + steps_of b s (length (es ! i)))"
    "p + 1 + steps_of b s (length (es ! i)) < length (array_bits b s es @ False # pad)"
proof -
  let ?n = "steps_of b s (length (es ! i))"
  let ?tail = "array_bits b s (drop (Suc i) es) @ False # pad"
  have es: "es = take i es @ es ! i # drop (Suc i) es" using assms(1) by (rule id_take_nth_drop)
  have "array_bits b s es = array_bits b s (take i es) @ element_bits b s (es ! i) @ array_bits b s (drop (Suc i) es)"
    by (subst es) (simp only: map_append list.map concat_append concat.simps)
  then have B: "array_bits b s es @ False # pad =
      array_bits b s (take i es) @ False # replicate ?n True @ ?tail"
    by (simp add: element_bits_def)
  have ones: "ones (array_bits b s xs) = (\<Sum>e \<leftarrow> xs. steps_of b s (length e))" for xs
    by (induction xs) (auto simp: element_bits_def)
  have hd: "\<not> ?tail ! 0"
    by (cases "drop (Suc i) es") (auto simp: element_bits_def)
  show "p < length (array_bits b s es @ False # pad)" unfolding B p_def by simp
  show "\<not> (array_bits b s es @ False # pad) ! p" unfolding B p_def by simp
  show "ones (take p (array_bits b s es @ False # pad)) = (\<Sum>e \<leftarrow> take i es. steps_of b s (length e))"
    unfolding B p_def using ones by simp
  show "(array_bits b s es @ False # pad) ! (p + 1 + k)" if "k < ?n" for k
    unfolding B p_def using that by (simp add: nth_append)
  show "\<not> (array_bits b s es @ False # pad) ! (p + 1 + ?n)"
    unfolding B p_def using hd by (simp add: nth_append)
  show "p + 1 + ?n < length (array_bits b s es @ False # pad)" unfolding B p_def by simp
qed

lemma RunEnd_run:
  assumes "succinct v bits"
  shows "(\<And>k. k < n \<Longrightarrow> bits ! (i + k)) \<Longrightarrow> \<not> bits ! (i + n) \<Longrightarrow> i + n < length bits \<Longrightarrow> RunEnd v i = Some (i + n)"
proof (induction n arbitrary: i)
  case 0
  with sv.get [OF assms, of i] show ?case by (subst RunEnd.simps) simp
next
  case (Suc n)
  have "RunEnd v (i + 1) = Some (i + 1 + n)"
    using Suc.prems(1) [of "Suc k" for k] Suc.prems(2,3) by (intro Suc.IH) auto
  moreover have "bits ! i" using Suc.prems(1) [of 0] by simp
  ultimately show ?case using sv.get [OF assms, of i] Suc.prems(3) by (subst RunEnd.simps) simp
qed

lemma length_padded: "0 < s \<Longrightarrow> length (padded b s e) = b + s * steps_of b s (length e)"
  using steps_of_bounds(1) [of s "length e" b] by (simp add: padded_def)

definition array_of :: "nat \<Rightarrow> nat \<Rightarrow> bytes list \<Rightarrow> bit_array \<Rightarrow> bool" where
  "array_of b s es a \<longleftrightarrow>
     (\<exists>pad. succinct (ba_index a) (array_bits b s es @ False # pad)) \<and> ba_base_length a = b \<and> ba_step_length a = s \<and>
     ba_data a = concat (map (padded b s) es)"

lemma ArrayFind_element:
  assumes a: "array_of b s es a" and i: "i < length es" and s: "0 < s"
  shows "ArrayFind a i = Some (length (concat (map (padded b s) (take i es))), length (padded b s (es ! i)))"
proof -
  obtain pad where v: "succinct (ba_index a) (array_bits b s es @ False # pad)" using a by (auto simp: array_of_def)
  let ?B = "array_bits b s es @ False # pad" and ?p = "length (array_bits b s (take i es))"
    and ?sum = "\<Sum>e \<leftarrow> take i es. steps_of b s (length e)" and ?n = "steps_of b s (length (es ! i))"
  note z = element_zero_at [OF i, where b = b and s = s and pad = pad]
  have "Suc i = Suc (length (filter Not (take ?p ?B)))"
    unfolding zeros_before z(3) using z(1) i length_array_bits [of b s "take i es"] by simp
  then have s0: "Select0 (ba_index a) (i + 1) = Some ?p"
    using z(1,2) by (intro sv.select0_at [OF v]) simp_all
  have r: "Rank1 (ba_index a) ?p = Some ?sum" using sv.rank1 [OF v, of ?p] z(1,3) by simp
  have e: "RunEnd (ba_index a) (?p + 1) = Some (?p + 1 + ?n)" by (rule RunEnd_run [OF v z(4-6)])
  have len: "length (concat (map (padded b s) xs)) = b * length xs + s * (\<Sum>e \<leftarrow> xs. steps_of b s (length e))" for xs
    by (induction xs) (auto simp: length_padded [OF s] algebra_simps)
  have "length (concat (map (padded b s) (take i es))) = b * i + s * ?sum" using len [of "take i es"] i by simp
  with a s0 r e show ?thesis by (simp add: ArrayFind_def array_of_def Let_def length_padded [OF s])
qed

lemma padded_at:
  assumes "i < length es"
  shows "concat (map (padded b s) es) =
    concat (map (padded b s) (take i es)) @ padded b s (es ! i) @ concat (map (padded b s) (drop (Suc i) es))"
  using id_take_nth_drop [OF assms] by (metis concat.simps(2) concat_append list.simps(9) map_append)

lemma ArrayGet_element:
  assumes a: "array_of b s es a" and i: "i < length es" and s: "0 < s"
  shows "ArrayGet a i = Some (padded b s (es ! i))"
  using ArrayFind_element [OF assms] padded_at [OF i, of b s] a by (simp add: ArrayGet_def array_of_def)

lemma ArrayPtr_element:
  assumes a: "array_of b s es a" and i: "i < length es" and s: "0 < s"
  shows "ArrayPtr a i = Some (concat (map (padded b s) (drop i es)))"
proof -
  have "concat (map (padded b s) (drop i es)) = padded b s (es ! i) @ concat (map (padded b s) (drop (Suc i) es))"
    using Cons_nth_drop_Suc [OF i] by (metis concat.simps(2) list.simps(9))
  with ArrayFind_element [OF assms] padded_at [OF i, of b s] a show ?thesis
    by (simp add: ArrayPtr_def array_of_def)
qed

section \<open>From the builder to the array\<close>

fun AddElements :: "bytes list \<Rightarrow> array_builder \<Rightarrow> array_builder option" where
  "AddElements [] b = Some b"
| "AddElements (e # es) b = do { b' \<leftarrow> ArrayAdd e b; AddElements es b' }"

definition MakeArray :: "64 word \<Rightarrow> 64 word \<Rightarrow> bytes list \<Rightarrow> bytes option" where
  "MakeArray base_len step_len es =
     do {
       b \<leftarrow> ArraySetSize base_len step_len NewArrayBuilder;
       b1 \<leftarrow> AddElements es b;
       b2 \<leftarrow> ArrayBuild b1;
       GetArrayImage b2 }"

lemma AddElements_elements: "\<not> ab_built b \<Longrightarrow> AddElements es b = Some (b\<lparr>ab_elements := ab_elements b @ es\<rparr>)"
  by (induction es arbitrary: b) (auto simp: ArrayAdd_def)

lemma MakeArray_eq:
  "MakeArray base_len step_len es =
     Option.bind (ArrayBuild \<lparr>ab_built = False, ab_elements = es, ab_base_length = base_len, ab_step_length = step_len,
       ab_image = []\<rparr>) GetArrayImage"
  by (simp add: MakeArray_def ArraySetSize_def NewArrayBuilder_def AddElements_elements)

lemma ArrayOpen_image:
  assumes "n < 2 ^ 32" "b < 2 ^ 32" "s < 2 ^ 32"
    and h: "PushInt32 n [] = Some i1" "PushInt32 b i1 = Some i2" "PushInt32 s i2 = Some i3" "PushInt32 0 i3 = Some i4"
    and l: "length simg = n" "4 dvd n"
  shows "\<exists>a. ArrayOpen (i4 @ simg @ data) NewArray = Some a \<and> succinct (ba_index a) (bits_of simg) \<and>
    ba_base_length a = b \<and> ba_step_length a = s \<and> ba_data a = data"
proof -
  obtain b1 where 1: "\<And>img. PushInt32 n img = Some (img @ b1)" "\<And>rest. LoadAdvance32 (b1 @ rest) = Some (n, rest)"
    using PushInt32_Some [OF assms(1)] by metis
  obtain b2 where 2: "\<And>img. PushInt32 b img = Some (img @ b2)" "\<And>rest. LoadAdvance32 (b2 @ rest) = Some (b, rest)"
    using PushInt32_Some [OF assms(2)] by metis
  obtain b3 where 3: "\<And>img. PushInt32 s img = Some (img @ b3)" "\<And>rest. LoadAdvance32 (b3 @ rest) = Some (s, rest)"
    using PushInt32_Some [OF assms(3)] by metis
  obtain b4 where 4: "\<And>img. PushInt32 0 img = Some (img @ b4)" "\<And>rest. LoadAdvance32 (b4 @ rest) = Some (0, rest)"
    using PushInt32_Some [of 0] by auto
  have i4: "i4 = b1 @ b2 @ b3 @ b4" using h unfolding 1(1) 2(1) 3(1) 4(1) by auto
  from succinct_of_image [OF l(2), of "simg @ data" kLb0CacheSize kLb1CacheSize] l obtain v where
    v: "InitVector (simg @ data) n kLb0CacheSize kLb1CacheSize (NewIndex 32) = Some v" "succinct v (bits_of simg)" by auto
  then show ?thesis using l(1) by (simp add: ArrayOpen_def i4 1(2) 2(2) 3(2) 4(2) NewArray_def)
qed

lemma MakeArray_array:
  assumes s: "0 < s" "s \<le> b + 1" and small: "b + s + (\<Sum>e \<leftarrow> es. b + s + length e) < 2 ^ 28"
  shows "\<exists>img a. MakeArray (of_nat b) (of_nat s) es = Some img \<and> ArrayOpen img NewArray = Some a \<and> array_of b s es a \<and>
    length img \<le> 3 * (\<Sum>e \<leftarrow> es. b + s + length e) + 100"
proof -
  have le: "length e < 2 ^ 30" if "e \<in> set es" for e
  proof -
    have "b + s + length e \<le> (\<Sum>e \<leftarrow> es. b + s + length e)" using that by (intro member_le_sum_list) auto
    with small show ?thesis by simp
  qed
  have b30: "b < 2 ^ 30" using small by simp
  from BuildElements_padded [OF s b30, of es NewBitStream "[]" "[]"] le streams_New obtain st where
    st: "BuildElements (of_nat b) (of_nat s) es NewBitStream [] = Some (st, concat (map (padded b s) es))"
    "streams st (array_bits b s es)" by auto
  have sf: "streams (PushBit False st) (array_bits b s es @ [False])" by (rule streams_PushBit [OF st(2)])
  let ?f = "FillPadding32 (PushBit False st)" and ?d = "concat (map (padded b s) es)"
  obtain k where k: "bits_of (bs_image ?f) = (array_bits b s es @ [False]) @ replicate k False" "4 dvd ByteSize ?f"
    using FillPadding32_bits [OF sf] by metis
  have stp: "steps_of b s l \<le> s + l" for l
  proof -
    have "steps_of b s l \<le> s * steps_of b s l" using s(1) by simp
    with steps_of_bounds(2) [OF s(1), of b l] show ?thesis by linarith
  qed
  have A: "length (array_bits b s xs) \<le> length xs + (\<Sum>e \<leftarrow> xs. b + s + length e)" for xs
    unfolding length_array_bits
  proof (induction xs)
    case (Cons x xs)
    with stp [of "length x"] show ?case by simp
  qed simp
  have B: "length xs \<le> (\<Sum>e \<leftarrow> xs. b + s + length e)" for xs :: "bytes list"
    using s(1) by (induction xs) auto
  define T where "T = (\<Sum>e \<leftarrow> es. b + s + length e)"
  have "length (array_bits b s es) < 2 ^ 30" using A [of es] B [of es] small unfolding T_def [symmetric] by simp
  then have bs: "ByteSize ?f < 2 ^ 32" using ByteSize_le [OF sf] by simp
  have bs': "b < 2 ^ 32" "s < 2 ^ 32" using small by simp_all
  obtain i1 i2 i3 i4 where i: "PushInt32 (ByteSize ?f) [] = Some i1" "PushInt32 b i1 = Some i2" "PushInt32 s i2 = Some i3"
    "PushInt32 0 i3 = Some i4"
    using bs bs' by (simp add: PushInt32_def)
  have u: "unat (of_nat b :: 64 word) = b" "unat (of_nat s :: 64 word) = s" using bs' by (simp_all add: unat_of_nat)
  have m: "MakeArray (of_nat b) (of_nat s) es = Some (i4 @ bs_image ?f @ ?d)"
    by (simp add: MakeArray_eq ArrayBuild_def GetArrayImage_def st(1) u i Let_def)
  have "length (bs_image ?f) = ByteSize ?f" by (simp add: ByteSize_def)
  from ArrayOpen_image [OF bs bs' i this k(2), of ?d] obtain a where
    a: "ArrayOpen (i4 @ bs_image ?f @ ?d) NewArray = Some a" "succinct (ba_index a) (bits_of (bs_image ?f))"
    "ba_base_length a = b" "ba_step_length a = s" "ba_data a = ?d" by blast
  have "array_of b s es a" unfolding array_of_def using a(2-5) unfolding k(1) by auto
  moreover have "length i4 = 16"
    using PushInt32_length [OF i(1)] PushInt32_length [OF i(2)] PushInt32_length [OF i(3)] PushInt32_length [OF i(4)] by simp
  moreover have "ByteSize ?f \<le> 2 * T + 5"
    using ByteSize_le [OF sf] A [of es] B [of es] unfolding T_def [symmetric] by simp
  moreover have "length (concat (map (padded b s) xs)) \<le> (\<Sum>e \<leftarrow> xs. b + s + length e)" for xs
  proof (induction xs)
    case (Cons x xs)
    with steps_of_bounds(2) [OF s(1), of b "length x"] show ?case by (simp add: length_padded [OF s(1)])
  qed simp
  then have "length ?d \<le> T" by (simp add: T_def)
  ultimately show ?thesis using m a(1) unfolding T_def [symmetric] by (intro exI [of _ "i4 @ bs_image ?f @ ?d"] exI [of _ a]) (simp add: ByteSize_def)
qed

lemma BuildElements_None:
  "e \<in> set es \<Longrightarrow> CountSteps b s (of_nat (length e)) 0 = None \<Longrightarrow> BuildElements b s es st data = None"
proof (induction es arbitrary: st data)
  case (Cons x es)
  then show ?case by (cases "CountSteps b s (of_nat (length x)) 0") auto
qed simp

section \<open>Properties\<close>



text \<open>An element longer than the base length but shorter than the step length makes the unsigned length of the
  step-counting loop wrap around, and the counter overflows its \<open>int\<close>: such an array is never built, although
  the element should be stored in one step.\<close>
theorem array_step_count_overflows:
  assumes "s \<le> 2 ^ 32" "e \<in> set es" "b < length e" "length e < s"
  shows "MakeArray (of_nat b) (of_nat s) es = None"
  using BuildElements_None [OF assms(2) CountSteps_overflow [OF assms(1,3,4)]]
  by (simp add: MakeArray_eq ArrayBuild_def)

lemma array_step_count_overflows_witness: "MakeArray 4 8 [[1, 2, 3, 4, 5]] = None"
  using array_step_count_overflows [of 8 "[1, 2, 3, 4, 5]" "[[1, 2, 3, 4, 5]]" 4] by simp

end
