(* ===== verification/DictFile.thy ===== *)
theory DictFile
  imports LoudsBuild "HOL-Library.Signed_Division"
begin

text \<open>
  Dictionary files: the fingerprints of \<^verbatim>\<open>src/src/base/hash.cc\<close>, the sections of
  \<^verbatim>\<open>src/src/dictionary/file/codec.cc\<close>, and \<^verbatim>\<open>dictionary_file.cc\<close> and \<^verbatim>\<open>dictionary_file_builder.cc\<close>. The loop that
  reads the sections is a partial function: its size field is a signed number from the file, so it may go back and
  never end. Numbers in the file are little endian, as on the machines the program runs on; the words of the file
  builder's input are what the files hold.
\<close>

section \<open>Fingerprints: base/hash.cc\<close>

definition kFingerPrint32Seed :: "32 word" where "kFingerPrint32Seed = 0xfd12deff"
definition kFingerPrintSeed0 :: "32 word" where "kFingerPrintSeed0 = 0x6d6f"
definition kFingerPrintSeed1 :: "32 word" where "kFingerPrintSeed1 = 0x7a63"

definition ToUint32 :: "byte \<Rightarrow> byte \<Rightarrow> byte \<Rightarrow> byte \<Rightarrow> 32 word" where
  "ToUint32 a b c d = ucast a + push_bit 8 (ucast b) + push_bit 16 (ucast c) + push_bit 24 (ucast d)"

definition Mix :: "32 word \<times> 32 word \<times> 32 word \<Rightarrow> 32 word \<times> 32 word \<times> 32 word" where
  "Mix s =
     (case s of (a, b, c) \<Rightarrow>
       let a = (a - b - c) XOR drop_bit 13 c;
           b = (b - c - a) XOR push_bit 8 a;
           c = (c - a - b) XOR drop_bit 13 b;
           a = (a - b - c) XOR drop_bit 12 c;
           b = (b - c - a) XOR push_bit 16 a;
           c = (c - a - b) XOR drop_bit 5 b;
           a = (a - b - c) XOR drop_bit 3 c;
           b = (b - c - a) XOR push_bit 10 a;
           c = (c - a - b) XOR drop_bit 15 b
       in (a, b, c))"

text \<open>The loop over blocks of twelve bytes, and the \<^verbatim>\<open>switch\<close> that falls through from the last byte to the first.\<close>

fun FingerprintBlocks :: "bytes \<Rightarrow> 32 word \<times> 32 word \<times> 32 word \<Rightarrow> bytes \<times> (32 word \<times> 32 word \<times> 32 word)" where
  "FingerprintBlocks (s0 # s1 # s2 # s3 # s4 # s5 # s6 # s7 # s8 # s9 # s10 # s11 # str) (a, b, c) =
     FingerprintBlocks str
       (Mix (a + ToUint32 s0 s1 s2 s3, b + ToUint32 s4 s5 s6 s7, c + ToUint32 s8 s9 s10 s11))"
| "FingerprintBlocks str s = (str, s)"

definition tail_byte :: "bytes \<Rightarrow> nat \<Rightarrow> nat \<Rightarrow> 32 word" where
  "tail_byte str i shift = (if i < length str then push_bit shift (ucast (str ! i)) else 0)"

definition FingerprintTail :: "bytes \<Rightarrow> 32 word \<times> 32 word \<times> 32 word \<Rightarrow> 32 word \<times> 32 word \<times> 32 word" where
  "FingerprintTail str s =
     (case s of (a, b, c) \<Rightarrow>
       (a + tail_byte str 3 24 + tail_byte str 2 16 + tail_byte str 1 8 + tail_byte str 0 0,
        b + tail_byte str 7 24 + tail_byte str 6 16 + tail_byte str 5 8 + tail_byte str 4 0,
        c + tail_byte str 10 24 + tail_byte str 9 16 + tail_byte str 8 8))"

definition LegacyFingerprint32WithSeed :: "bytes \<Rightarrow> 32 word \<Rightarrow> 32 word" where
  "LegacyFingerprint32WithSeed str seed =
     (case FingerprintBlocks str (0x9e3779b9, 0x9e3779b9, seed) of
        (rest, (a, b, c)) \<Rightarrow> snd (snd (Mix (FingerprintTail rest (a, b, c + of_nat (length str))))))"

definition LegacyFingerprint32 :: "bytes \<Rightarrow> 32 word" where
  "LegacyFingerprint32 str = LegacyFingerprint32WithSeed str kFingerPrint32Seed"

definition LegacyFingerprintWithSeed :: "bytes \<Rightarrow> 32 word \<Rightarrow> 64 word" where
  "LegacyFingerprintWithSeed str seed =
     (let hi = LegacyFingerprint32WithSeed str seed;
          lo = LegacyFingerprint32WithSeed str kFingerPrintSeed1;
          result = push_bit 32 (ucast hi) OR ucast lo :: 64 word
      in if hi = 0 \<and> lo < 2 then result XOR 0x130f9bef94a0a928 else result)"

definition LegacyFingerprint :: "bytes \<Rightarrow> 64 word" where
  "LegacyFingerprint str = LegacyFingerprintWithSeed str kFingerPrintSeed0"

section \<open>The sections of a dictionary file: dictionary/file/codec.cc\<close>

text \<open>
  The state of the codec is its seed. A section to write has its bytes; a section that was read is a pointer into the
  image and a length, both as the code computes them.
\<close>

definition filemagic :: "32 word" where "filemagic = 20110701"
definition default_seed :: "32 word" where "default_seed = 2135654146"

record write_section =
  ws_image :: bytes
  ws_name :: bytes

record read_section =
  rs_start :: int
  rs_size :: int
  rs_name :: bytes

definition le_bytes :: "nat \<Rightarrow> 'a::len word \<Rightarrow> bytes" where
  "le_bytes n w = map (\<lambda>i. ucast (drop_bit (8 * i) w)) [0 ..< n]"

definition WriteInt32 :: "32 word \<Rightarrow> bytes" where
  "WriteInt32 value = le_bytes 4 value"

text \<open>Both count in \<^verbatim>\<open>int\<close>: the largest sizes overflow, which is modelled as the wrap-around of 32 bits.\<close>

definition RoundUp4 :: "int \<Rightarrow> int" where
  "RoundUp4 len = (let rem = len smod 4 in signed_take_bit 31 (len + (4 - rem) smod 4))"

function Pad4 :: "32 word \<Rightarrow> bytes" where
  "Pad4 i = (if sint i smod 4 \<noteq> 0 then 0 # Pad4 (i + 1) else [])"
  by auto

lemma smod4_iff: "sint (i :: 32 word) smod 4 = 0 \<longleftrightarrow> uint i mod 4 = 0"
proof -
  have "take_bit 2 (sint i) = take_bit 2 (uint i)"
    by (rule bit_eqI) (auto simp: bit_take_bit_iff bit_sint_iff bit_uint_iff)
  then have "sint i mod 4 = uint i mod 4" by (simp add: take_bit_eq_mod)
  moreover have "sint i smod 4 = 0 \<longleftrightarrow> sint i mod 4 = 0" by (auto simp: smod_int_alt_def mod_eq_0_iff_dvd sgn_if split: if_splits)
  ultimately show ?thesis by simp
qed

lemma uint_inc_mod4: "uint (i + 1 :: 32 word) mod 4 = (uint i mod 4 + 1) mod 4"
  by (simp add: uint_word_ariths mod_mod_cancel mod_add_left_eq)

termination Pad4
proof (relation "measure (\<lambda>i. nat ((4 - uint i mod 4) mod 4))")
  fix i :: "32 word"
  assume "sint i smod 4 \<noteq> 0"
  then have "uint i mod 4 \<noteq> 0" "0 \<le> uint i mod 4" "uint i mod 4 < 4" by (simp_all add: smod4_iff)
  then have "uint i mod 4 = 1 \<or> uint i mod 4 = 2 \<or> uint i mod 4 = 3" by linarith
  then show "(i + 1, i) \<in> measure (\<lambda>i. nat ((4 - uint i mod 4) mod 4))" by (auto simp: uint_inc_mod4)
qed simp

declare Pad4.simps [simp del]

definition GetSectionName :: "32 word \<Rightarrow> bytes \<Rightarrow> bytes" where
  "GetSectionName seed name = le_bytes 8 (LegacyFingerprintWithSeed name seed)"

definition WriteHeader :: "32 word \<Rightarrow> bytes" where
  "WriteHeader seed = WriteInt32 filemagic @ WriteInt32 seed"

definition WriteSection :: "write_section \<Rightarrow> bytes" where
  "WriteSection sec =
     WriteInt32 (of_nat (length (ws_image sec))) @ ws_name sec @ ws_image sec @ Pad4 (of_nat (length (ws_image sec)))"

definition WriteSections :: "32 word \<Rightarrow> write_section list \<Rightarrow> bytes" where
  "WriteSections seed sections =
     WriteHeader seed @
     (if length sections = 4 then concat (map (\<lambda>i. WriteSection (sections ! i)) [0, 2, 1, 3])
      else concat (map WriteSection sections)) @
     WriteInt32 0"

text \<open>\<^verbatim>\<open>BadAccess\<close> is a read outside the image, which C++ leaves undefined.\<close>

datatype read_status = ReadOk | FailedPrecondition | OutOfRange | BadAccess

definition LoadInt32At :: "bytes \<Rightarrow> int \<Rightarrow> int option" where
  "LoadInt32At img ptr =
     (if 0 \<le> ptr then map_option sint (LoadUnaligned32 img (nat ptr)) else None)"

partial_function (option) ReadSectionLoop ::
  "bytes \<Rightarrow> int \<Rightarrow> read_section list \<Rightarrow> (read_status \<times> read_section list) option" where
  "ReadSectionLoop img ptr sections =
     (if int (length img) - ptr < 4 then Some (OutOfRange, sections)
      else (case LoadInt32At img ptr of
              None \<Rightarrow> Some (BadAccess, sections)
            | Some data_size \<Rightarrow>
                let ptr1 = ptr + 4 in
                if data_size = 0
                then Some (if ptr1 \<noteq> int (length img) then FailedPrecondition else ReadOk, sections)
                else let padded_data_size = RoundUp4 data_size;
                         section_end = ptr1 + 8 + padded_data_size
                     in if int (length img) < section_end then Some (OutOfRange, sections)
                        else if int (length img) < ptr1 + 8 then Some (BadAccess, sections)
                        else let fingerprint = take 8 (drop (nat ptr1) img);
                                 ptr2 = ptr1 + 8
                             in ReadSectionLoop img (ptr2 + padded_data_size)
                                  (sections @ [\<lparr>rs_start = ptr2, rs_size = data_size, rs_name = fingerprint\<rparr>])))"

text \<open>\<open>aligned\<close> says that the image begins at a multiple of four. The result has the new seed.\<close>

definition ReadSections :: "bool \<Rightarrow> bytes \<Rightarrow> 32 word \<Rightarrow> read_section list \<Rightarrow> (read_status \<times> 32 word \<times> read_section list) option" where
  "ReadSections aligned img seed sections =
     (if length img < 12 then Some (FailedPrecondition, seed, sections)
      else if \<not> aligned then Some (FailedPrecondition, seed, sections)
      else do {
        magic \<leftarrow> LoadUnaligned32 img 0;
        if magic \<noteq> filemagic then Some (FailedPrecondition, seed, sections)
        else do {
          seed' \<leftarrow> LoadUnaligned32 img 4;
          (status, sections') \<leftarrow> ReadSectionLoop img 8 sections;
          Some (status, seed', sections') } })"

section \<open>Dictionary files: dictionary/file/dictionary\_file.cc and dictionary\_file\_builder.cc\<close>

record dictionary_file =
  df_seed :: "32 word"
  df_image :: bytes
  df_sections :: "read_section list"

definition NewDictionaryFile :: dictionary_file where
  "NewDictionaryFile = \<lparr>df_seed = default_seed, df_image = [], df_sections = []\<rparr>"

definition OpenFromImage :: "bool \<Rightarrow> bytes \<Rightarrow> dictionary_file \<Rightarrow> (read_status \<times> dictionary_file) option" where
  "OpenFromImage aligned img f =
     do {
       (status, seed, sections) \<leftarrow> ReadSections aligned img (df_seed f) [];
       Some (status, \<lparr>df_seed = seed, df_image = img, df_sections = sections\<rparr>) }"

definition SectionImage :: "bytes \<Rightarrow> read_section \<Rightarrow> bytes" where
  "SectionImage img sec = take (nat (rs_size sec)) (drop (nat (rs_start sec)) img)"

definition GetSection :: "dictionary_file \<Rightarrow> bytes \<Rightarrow> bytes option" where
  "GetSection f section_name =
     (let name = GetSectionName (df_seed f) section_name
      in map_option (SectionImage (df_image f)) (find (\<lambda>sec. rs_name sec = name) (df_sections f)))"

record file_builder =
  fb_seed :: "32 word"
  fb_added :: "bytes list"
  fb_sections :: "write_section list"

definition NewFileBuilder :: file_builder where
  "NewFileBuilder = \<lparr>fb_seed = default_seed, fb_added = [], fb_sections = []\<rparr>"

text \<open>\<open>contents\<close> is what the file holds, or None where it cannot be read and the \<^verbatim>\<open>CHECK\<close> fails.\<close>

definition AddSectionFromFile :: "bytes \<Rightarrow> bytes option \<Rightarrow> file_builder \<Rightarrow> (bool \<times> file_builder) option" where
  "AddSectionFromFile section_name contents b =
     (if section_name \<in> set (fb_added b) then Some (False, b)
      else do {
        img \<leftarrow> contents;
        Some (True, b\<lparr>fb_added := fb_added b @ [section_name],
          fb_sections := fb_sections b @ [\<lparr>ws_image = img, ws_name = GetSectionName (fb_seed b) section_name\<rparr>]\<rparr>) })"

definition WriteImageToFile :: "file_builder \<Rightarrow> bytes" where
  "WriteImageToFile b = WriteSections (fb_seed b) (fb_sections b)"

section \<open>Numbers in the file\<close>

lemma le_bytes_length [simp]: "length (le_bytes n w) = n"
  by (simp add: le_bytes_def)

lemma load_le_bytes: "LENGTH('a) = 8 * n \<Longrightarrow> (load_le (le_bytes n w) :: 'a::len word) = w"
proof (rule bit_word_eqI)
  fix k assume l: "LENGTH('a) = 8 * n" and k: "k < LENGTH('a)"
  then have "k div 8 < n" "8 * (k div 8) + k mod 8 = k" by (simp_all add: div_less_iff_less_mult mult.commute)
  then show "bit (load_le (le_bytes n w) :: 'a word) k = bit w k"
    using k by (simp add: bit_load_le le_bytes_def bit_simps)
qed

lemma WriteInt32_length [simp]: "length (WriteInt32 w) = 4"
  by (simp add: WriteInt32_def)

lemma LoadUnaligned32_WriteInt32:
  "drop off img = WriteInt32 w @ rest \<Longrightarrow> off \<le> length img \<Longrightarrow> LoadUnaligned32 img off = Some w"
proof -
  assume d: "drop off img = WriteInt32 w @ rest" and "off \<le> length img"
  then have "off + 4 \<le> length img"
    using arg_cong [OF d, of length] \<open>off \<le> length img\<close> unfolding length_drop length_append WriteInt32_length by linarith
  then show ?thesis using d load_le_bytes [of 4 w] by (simp add: LoadUnaligned32_def WriteInt32_def)
qed

lemma LoadInt32At_WriteInt32:
  "drop (nat ptr) img = WriteInt32 w @ rest \<Longrightarrow> 0 \<le> ptr \<Longrightarrow> ptr \<le> int (length img) \<Longrightarrow>
     LoadInt32At img ptr = Some (sint w)"
  using LoadUnaligned32_WriteInt32 [of "nat ptr" img w rest] by (simp add: LoadInt32At_def nat_le_iff)

lemma sint_size: "n < 2 ^ 31 \<Longrightarrow> sint (of_nat n :: 32 word) = int n"
proof -
  assume n: "n < 2 ^ 31"
  have "sint (of_nat n :: 32 word) = signed_take_bit 31 (int n)" by (simp add: signed_of_nat)
  also have "\<dots> = int n" using n by (intro signed_take_bit_int_eq_self) auto
  finally show ?thesis .
qed

lemma RoundUp4_nat: "n < 2 ^ 31 - 3 \<Longrightarrow> RoundUp4 (int n) = int (n + (4 - n mod 4) mod 4)"
proof -
  assume n: "n < 2 ^ 31 - 3"
  have r: "int n smod 4 = int (n mod 4)" by (cases "n = 0") (simp_all add: smod_int_alt_def zmod_int)
  have "n mod 4 < 4" by simp
  then have "(4 - int (n mod 4)) smod 4 = int ((4 - n mod 4) mod 4)"
    by (simp add: smod_int_alt_def zmod_int of_nat_diff)
  with r have R: "RoundUp4 (int n) = signed_take_bit 31 (int (n + (4 - n mod 4) mod 4))" by (simp add: RoundUp4_def Let_def)
  have "n + (4 - n mod 4) mod 4 < 2 ^ 31"
  proof -
    have "n = 4 * (n div 4) + n mod 4" by simp
    moreover have "n mod 4 = 0 \<or> n mod 4 = 1 \<or> n mod 4 = 2 \<or> n mod 4 = 3" by linarith
    ultimately show ?thesis using n by (elim disjE) auto
  qed
  then show ?thesis unfolding R by (intro signed_take_bit_int_eq_self) auto
qed

lemma Pad4_zeros: "Pad4 i = replicate (nat ((4 - uint i mod 4) mod 4)) 0"
proof (induction i rule: Pad4.induct)
  case (1 i)
  have "uint i mod 4 = 0 \<or> uint i mod 4 = 1 \<or> uint i mod 4 = 2 \<or> uint i mod 4 = 3"
    using pos_mod_bound [of 4 "uint i"] pos_mod_sign [of 4 "uint i"] by linarith
  with 1 show ?case by (subst Pad4.simps) (auto simp: smod4_iff uint_inc_mod4 simp flip: replicate_Suc simp: numeral_eq_Suc)
qed

lemma Pad4_nat: "Pad4 (of_nat n) = replicate ((4 - n mod 4) mod 4) 0"
proof -
  have "uint (of_nat n :: 32 word) mod 4 = int (n mod 4)"
    by (simp add: unsigned_of_nat take_bit_nat_eq zmod_int take_bit_eq_mod mod_mod_cancel)
  moreover have "n mod 4 = 0 \<or> n mod 4 = 1 \<or> n mod 4 = 2 \<or> n mod 4 = 3" by linarith
  then have "nat ((4 - int (n mod 4)) mod 4) = (4 - n mod 4) mod 4" by (elim disjE) simp_all
  ultimately show ?thesis by (simp add: Pad4_zeros)
qed

section \<open>Reading what was written\<close>

definition section_ok :: "write_section \<Rightarrow> bool" where
  "section_ok s \<longleftrightarrow> length (ws_name s) = 8 \<and> length (ws_image s) < 2 ^ 31 - 3"

lemma WriteSection_length:
  "section_ok s \<Longrightarrow> length (WriteSection s) = 12 + length (ws_image s) + (4 - length (ws_image s) mod 4) mod 4"
  by (simp add: section_ok_def WriteSection_def Pad4_nat)

lemma ReadSectionLoop_section:
  assumes s: "section_ok s" "ws_image s \<noteq> []" and d: "drop (nat ptr) img = WriteSection s @ rest"
    and ptr: "0 \<le> ptr" "ptr \<le> int (length img)"
  shows "ReadSectionLoop img ptr secs = ReadSectionLoop img (ptr + int (length (WriteSection s)))
      (secs @ [\<lparr>rs_start = ptr + 12, rs_size = int (length (ws_image s)), rs_name = ws_name s\<rparr>])"
    "SectionImage img \<lparr>rs_start = ptr + 12, rs_size = int (length (ws_image s)), rs_name = ws_name s\<rparr> = ws_image s"
proof -
  let ?n = "length (ws_image s)"
  obtain p where p: "ptr = int p" using ptr(1) by (metis nonneg_int_cases)
  have d': "drop p img = WriteInt32 (of_nat ?n) @ ws_name s @ ws_image s @ Pad4 (of_nat ?n) @ rest"
    using d p by (simp add: WriteSection_def)
  have len: "length img = p + length (WriteSection s) + length rest"
    using arg_cong [OF d, of length] ptr p by simp
  have ld: "LoadInt32At img ptr = Some (int ?n)"
    using LoadInt32At_WriteInt32 [of ptr img "of_nat ?n"] d' p ptr s by (simp add: section_ok_def sint_size)
  have n: "int ?n \<noteq> 0" using s(2) by simp
  have d4: "drop (p + 4) img = ws_name s @ ws_image s @ Pad4 (of_nat ?n) @ rest"
    using arg_cong [OF d', of "drop 4"] by (simp add: add.commute)
  have d12: "drop (p + 12) img = ws_image s @ Pad4 (of_nat ?n) @ rest"
    using arg_cong [OF d4, of "drop 8"] s(1) by (simp add: section_ok_def add.commute)
  have nm: "take 8 (drop (nat (ptr + 4)) img) = ws_name s"
  proof -
    have "nat (ptr + 4) = p + 4" using p by simp
    then show ?thesis using d4 s(1) by (simp add: section_ok_def)
  qed
  have R: "RoundUp4 (int ?n) = int (length (WriteSection s)) - 12"
    using s(1) RoundUp4_nat [of ?n] WriteSection_length [OF s(1)] by (simp add: section_ok_def)
  have b: "\<not> int (length img) - ptr < 4" "\<not> int (length img) < ptr + int (length (WriteSection s))"
    "\<not> int (length img) < ptr + 12"
    using len p WriteSection_length [OF s(1)] by simp_all
  show "ReadSectionLoop img ptr secs = ReadSectionLoop img (ptr + int (length (WriteSection s)))
      (secs @ [\<lparr>rs_start = ptr + 12, rs_size = int (length (ws_image s)), rs_name = ws_name s\<rparr>])"
    using b ld n nm by (subst ReadSectionLoop.simps) (simp add: R Let_def, simp add: add.commute)
  show "SectionImage img \<lparr>rs_start = ptr + 12, rs_size = int (length (ws_image s)), rs_name = ws_name s\<rparr> = ws_image s"
  proof -
    have "nat (ptr + 12) = p + 12" using p by simp
    then show ?thesis using d12 by (simp add: SectionImage_def)
  qed
qed

lemma ReadSectionLoop_end:
  assumes "drop (nat ptr) img = WriteInt32 0 @ rest" "0 \<le> ptr" "ptr \<le> int (length img)"
  shows "ReadSectionLoop img ptr secs = Some (if rest = [] then ReadOk else FailedPrecondition, secs)"
proof -
  have l: "length img = nat ptr + 4 + length rest"
    using arg_cong [OF assms(1), of length] assms(2,3) unfolding length_drop length_append WriteInt32_length by linarith
  have "LoadInt32At img ptr = Some 0" using LoadInt32At_WriteInt32 [OF assms] by simp
  moreover have "\<not> int (length img) - ptr < 4" "ptr + 4 \<noteq> int (length img) \<longleftrightarrow> rest \<noteq> []"
    using l assms(2) by (auto simp: nat_eq_iff)
  ultimately show ?thesis by (subst ReadSectionLoop.simps) (simp add: Let_def)
qed

lemma ReadSectionLoop_sections:
  assumes "\<forall>s \<in> set ss. section_ok s \<and> ws_image s \<noteq> []"
    and "drop (nat ptr) img = concat (map WriteSection ss) @ rest" "0 \<le> ptr" "ptr \<le> int (length img)"
  shows "\<exists>new. ReadSectionLoop img ptr secs =
      ReadSectionLoop img (ptr + int (length (concat (map WriteSection ss)))) (secs @ new) \<and>
    map (SectionImage img) new = map ws_image ss \<and> map rs_name new = map ws_name ss"
  using assms
proof (induction ss arbitrary: ptr secs)
  case (Cons s ss)
  let ?rest = "concat (map WriteSection ss) @ rest"
  let ?new = "\<lparr>rs_start = ptr + 12, rs_size = int (length (ws_image s)), rs_name = ws_name s\<rparr>"
  have s: "section_ok s" "ws_image s \<noteq> []" using Cons.prems(1) by auto
  have d: "drop (nat ptr) img = WriteSection s @ ?rest" using Cons.prems(2) by simp
  note r = ReadSectionLoop_section [OF s d Cons.prems(3,4)]
  let ?ptr = "ptr + int (length (WriteSection s))"
  have np: "nat ?ptr = length (WriteSection s) + nat ptr" using Cons.prems(3) by (simp add: nat_add_distrib)
  have "drop (nat ?ptr) img = ?rest"
    unfolding np using arg_cong [OF d, of "drop (length (WriteSection s))"] by simp
  moreover have "?ptr \<le> int (length img)"
    using arg_cong [OF d, of length] Cons.prems(3,4) unfolding length_drop length_append by linarith
  moreover have "0 \<le> ?ptr" using Cons.prems(3) by simp
  ultimately obtain new where "ReadSectionLoop img ?ptr (secs @ [?new]) =
      ReadSectionLoop img (?ptr + int (length (concat (map WriteSection ss)))) ((secs @ [?new]) @ new)"
    "map (SectionImage img) new = map ws_image ss" "map rs_name new = map ws_name ss"
    using Cons.IH [of ?ptr "secs @ [?new]"] Cons.prems(1) by auto
  with r show ?case by (intro exI [of _ "?new # new"]) (simp add: add.assoc)
qed simp

text \<open>The order in which the sections are written.\<close>

definition file_order :: "'a list \<Rightarrow> 'a list" where
  "file_order ss = (if length ss = 4 then map (\<lambda>i. ss ! i) [0, 2, 1, 3] else ss)"

lemma set_file_order: "set (file_order ss) = set ss"
proof (cases "length ss = 4")
  case True
  then obtain a b c d where "ss = [a, b, c, d]" by (auto simp: numeral_eq_Suc length_Suc_conv)
  then show ?thesis by (auto simp: file_order_def)
qed (simp add: file_order_def)

lemma WriteSections_order:
  "WriteSections seed ss = WriteHeader seed @ concat (map WriteSection (file_order ss)) @ WriteInt32 0"
  by (simp add: WriteSections_def file_order_def)

lemma ReadSections_header:
  assumes "12 \<le> length img" "img = WriteHeader seed @ rest"
  shows "ReadSections True img seed0 secs =
    Option.bind (ReadSectionLoop img 8 secs) (\<lambda>(status, secs'). Some (status, seed, secs'))"
proof -
  have "LoadUnaligned32 img 0 = Some filemagic"
    using LoadUnaligned32_WriteInt32 [of 0 img filemagic "WriteInt32 seed @ rest"] assms(2) by (simp add: WriteHeader_def)
  moreover have "LoadUnaligned32 img 4 = Some seed"
    using LoadUnaligned32_WriteInt32 [of 4 img seed rest] assms by (simp add: WriteHeader_def)
  ultimately show ?thesis using assms(1) by (simp add: ReadSections_def)
qed

lemma write_read:
  assumes "\<forall>s \<in> set ss. section_ok s \<and> ws_image s \<noteq> []"
  shows "\<exists>new. ReadSections True (WriteSections seed ss) seed0 [] = Some (ReadOk, seed, new) \<and>
    map (SectionImage (WriteSections seed ss)) new = map ws_image (file_order ss) \<and>
    map rs_name new = map ws_name (file_order ss)"
proof -
  let ?img = "WriteSections seed ss" and ?ws = "concat (map WriteSection (file_order ss))"
  have h: "length (WriteHeader seed) = 8" by (simp add: WriteHeader_def)
  have d: "drop (nat 8) ?img = ?ws @ WriteInt32 0" using h by (simp add: WriteSections_order)
  have l: "length ?img = 12 + length ?ws" using h by (simp add: WriteSections_order)
  have "\<forall>s \<in> set (file_order ss). section_ok s \<and> ws_image s \<noteq> []" using assms by (simp add: set_file_order)
  from ReadSectionLoop_sections [OF this d, of "[]"] l obtain new where
    n: "ReadSectionLoop ?img 8 [] = ReadSectionLoop ?img (8 + int (length ?ws)) new"
    "map (SectionImage ?img) new = map ws_image (file_order ss)" "map rs_name new = map ws_name (file_order ss)" by auto
  have "nat (8 + int (length ?ws)) = length ?ws + nat 8" by simp
  then have "drop (nat (8 + int (length ?ws))) ?img = WriteInt32 0 @ []"
    using arg_cong [OF d, of "drop (length ?ws)"] by simp
  from ReadSectionLoop_end [OF this, of new] l have "ReadSectionLoop ?img (8 + int (length ?ws)) new = Some (ReadOk, new)" by simp
  with n ReadSections_header [OF _ WriteSections_order, of seed ss seed0 "[]"] l show ?thesis by auto
qed

lemma empty_section_stops:
  assumes ok: "\<forall>s \<in> set ss. section_ok s" and e: "\<exists>s \<in> set ss. ws_image s = []"
  shows "\<exists>new. ReadSections True (WriteSections seed ss) seed0 [] = Some (FailedPrecondition, seed, new)"
proof -
  let ?img = "WriteSections seed ss"
  have "\<exists>s \<in> set (file_order ss). ws_image s = []" using e by (simp add: set_file_order)
  then obtain pre s post where sp: "file_order ss = pre @ s # post" "ws_image s = []" "\<forall>x \<in> set pre. ws_image x \<noteq> []"
    using split_list_first_prop [of "file_order ss" "\<lambda>s. ws_image s = []"] by auto
  have okp: "\<forall>x \<in> set pre. section_ok x \<and> ws_image x \<noteq> []" "section_ok s"
    using ok sp by (simp_all flip: set_file_order [of ss])
  let ?ws = "concat (map WriteSection pre)" and ?post = "concat (map WriteSection post) @ WriteInt32 0"
  have h: "length (WriteHeader seed) = 8" by (simp add: WriteHeader_def)
  have d: "drop (nat 8) ?img = ?ws @ WriteSection s @ ?post" using h by (simp add: WriteSections_order sp(1))
  have l: "length ?img = 8 + length ?ws + length (WriteSection s) + length ?post" using h by (simp add: WriteSections_order sp(1))
  from ReadSectionLoop_sections [OF okp(1) d, of "[]"] l obtain new where
    n: "ReadSectionLoop ?img 8 [] = ReadSectionLoop ?img (8 + int (length ?ws)) new" by auto
  have "nat (8 + int (length ?ws)) = length ?ws + nat 8" by simp
  then have "drop (nat (8 + int (length ?ws))) ?img = WriteInt32 0 @ (ws_name s @ ?post)"
    using arg_cong [OF d, of "drop (length ?ws)"] sp(2) Pad4_nat [of 0] by (simp add: WriteSection_def)
  from ReadSectionLoop_end [OF this, of new] l okp(2)
  have "ReadSectionLoop ?img (8 + int (length ?ws)) new = Some (FailedPrecondition, new)"
    by (auto simp: section_ok_def)
  with n ReadSections_header [OF _ WriteSections_order, of seed ss seed0 "[]"] l show ?thesis by auto
qed

section \<open>A size that leads back\<close>

lemma ReadSectionLoop_minus12:
  assumes "LoadInt32At img ptr = Some (- 12)" "ptr + 12 \<le> int (length img)"
  shows "ReadSectionLoop img ptr secs = None"
proof (rule ccontr)
  assume "ReadSectionLoop img ptr secs \<noteq> None"
  then obtain r where "ReadSectionLoop img ptr secs = Some r" by auto
  moreover have "ReadSectionLoop img' ptr' secs' = Some r \<Longrightarrow> \<not> (img' = img \<and> ptr' = ptr)" for img' ptr' secs' r
  proof (induction rule: ReadSectionLoop.raw_induct [rotated, consumes 1, case_names step,
      where P = "\<lambda>img' ptr' secs' r. \<not> (img' = img \<and> ptr' = ptr)"])
    case (step loop img' ptr' secs' r)
    have "RoundUp4 (- 12) = - 12" by (simp add: RoundUp4_def smod_int_alt_def)
    with step assms show ?case by (fastforce simp: Let_def split: if_splits)
  qed
  ultimately show False by blast
qed

lemma RoundUp4_largest: "RoundUp4 (2 ^ 31 - 1) = - (2 ^ 31)"
  by (simp add: RoundUp4_def smod_int_alt_def signed_take_bit_int_eq_self_iff)

text \<open>The largest size rounds up to the smallest \<^verbatim>\<open>int\<close>: it passes the check of the end in any image, the section it adds is longer than
  the image, and the next size is read in front of the image.\<close>

lemma largest_section_size_passes:
  assumes "LoadInt32At img ptr = Some (2 ^ 31 - 1)" "0 \<le> ptr" "ptr + 12 \<le> int (length img)" "length img < 2 ^ 31"
  shows "ReadSectionLoop img ptr secs =
    Some (BadAccess, secs @ [\<lparr>rs_start = ptr + 12, rs_size = 2 ^ 31 - 1, rs_name = take 8 (drop (nat (ptr + 4)) img)\<rparr>])"
proof -
  have n: "ptr + 12 - 2 ^ 31 < 0" "\<not> int (length img) - (ptr + 12 - 2 ^ 31) < 4" using assms(3,4) by simp_all
  then have "LoadInt32At img (ptr + 12 - 2 ^ 31) = None" by (simp add: LoadInt32At_def)
  then have "ReadSectionLoop img (ptr + 12 - 2 ^ 31) secs' = Some (BadAccess, secs')" for secs'
    using n(2) by (subst ReadSectionLoop.simps) (simp only: if_False option.case)
  with assms RoundUp4_largest show ?thesis
    by (subst ReadSectionLoop.simps) (simp add: Let_def add.commute)
qed

section \<open>Files made by the builder\<close>

fun AddSections :: "(bytes \<times> bytes) list \<Rightarrow> file_builder \<Rightarrow> file_builder option" where
  "AddSections [] b = Some b"
| "AddSections ((name, contents) # files) b =
     do { (added, b') \<leftarrow> AddSectionFromFile name (Some contents) b; AddSections files b' }"

lemma AddSections_new:
  "distinct (map fst files) \<Longrightarrow> fst ` set files \<inter> set (fb_added b) = {} \<Longrightarrow>
     AddSections files b = Some (b\<lparr>fb_added := fb_added b @ map fst files,
       fb_sections := fb_sections b @ map (\<lambda>(n, c). \<lparr>ws_image = c, ws_name = GetSectionName (fb_seed b) n\<rparr>) files\<rparr>)"
proof (induction files b rule: AddSections.induct)
  case (2 name contents files b)
  then show ?case by (simp add: AddSectionFromFile_def)
qed simp

lemma find_map_agree:
  "map f xs = map f' ys \<Longrightarrow> map g xs = map g' ys \<Longrightarrow>
     map_option f (find (\<lambda>x. g x = N) xs) = map_option f' (find (\<lambda>y. g' y = N) ys)"
proof (induction xs arbitrary: ys)
  case (Cons x xs)
  from Cons.prems(1) obtain y ys' where ys: "ys = y # ys'" by (cases ys) simp_all
  have e: "f x = f' y" "g x = g' y" "map f xs = map f' ys'" "map g xs = map g' ys'" using Cons.prems unfolding ys by simp_all
  from Cons.IH [OF e(3,4)] e(1,2) show ?case unfolding ys by simp
qed simp

lemma find_unique: "x \<in> set xs \<Longrightarrow> P x \<Longrightarrow> (\<And>y. y \<in> set xs \<Longrightarrow> P y \<Longrightarrow> y = x) \<Longrightarrow> find P xs = Some x"
proof (induction xs)
  case (Cons a xs)
  show ?case
  proof (cases "P a")
    case True
    then show ?thesis using Cons.prems(3) [of a] by simp
  next
    case False
    then have "x \<in> set xs" using Cons.prems(1,2) by auto
    then have "find P xs = Some x" using Cons.prems(2,3) by (intro Cons.IH) auto
    then show ?thesis using False by simp
  qed
qed simp

lemma written_sections_read:
  assumes "distinct (map fst files)" "\<forall>(n, c) \<in> set files. c \<noteq> [] \<and> length c < 2 ^ 31 - 3"
    and "inj_on (GetSectionName default_seed) (fst ` set files)"
  defines "ss \<equiv> map (\<lambda>(n, c). \<lparr>ws_image = c, ws_name = GetSectionName default_seed n\<rparr>) files"
  shows "\<exists>f. OpenFromImage True (WriteSections default_seed ss) NewDictionaryFile = Some (ReadOk, f) \<and>
    (\<forall>(n, c) \<in> set files. GetSection f n = Some c)"
proof -
  let ?sec = "\<lambda>(n, c). \<lparr>ws_image = c, ws_name = GetSectionName default_seed n\<rparr>"
  let ?img = "WriteSections default_seed ss"
  have "\<forall>s \<in> set ss. section_ok s \<and> ws_image s \<noteq> []"
    using assms(2) by (auto simp: ss_def section_ok_def GetSectionName_def)
  from write_read [OF this, of default_seed default_seed] obtain new where
    new: "ReadSections True ?img default_seed [] = Some (ReadOk, default_seed, new)"
    "map (SectionImage ?img) new = map ws_image (file_order ss)"
    "map rs_name new = map ws_name (file_order ss)" by auto
  let ?f = "\<lparr>df_seed = default_seed, df_image = ?img, df_sections = new\<rparr>"
  have o: "OpenFromImage True ?img NewDictionaryFile = Some (ReadOk, ?f)"
    using new(1) by (simp add: OpenFromImage_def NewDictionaryFile_def)
  have "GetSection ?f n = Some c" if nc: "(n, c) \<in> set files" for n c
  proof -
    have "find (\<lambda>s. ws_name s = GetSectionName default_seed n) (file_order ss) = Some (?sec (n, c))"
    proof (rule find_unique)
      show "?sec (n, c) \<in> set (file_order ss)" unfolding set_file_order ss_def using nc by force
      fix y assume y: "y \<in> set (file_order ss)" "ws_name y = GetSectionName default_seed n"
      then obtain n' c' where nc': "(n', c') \<in> set files" "y = ?sec (n', c')" unfolding set_file_order ss_def by auto
      with y(2) assms(3) nc have "n' = n" by (auto simp: inj_on_def)
      with nc nc'(1) have "c' = c" using eq_key_imp_eq_value [OF assms(1)] by blast
      with \<open>n' = n\<close> nc'(2) show "y = ?sec (n, c)" by simp
    qed simp
    with find_map_agree [OF new(2,3), of "GetSectionName default_seed n"] show ?thesis
      by (simp add: GetSection_def Let_def)
  qed
  with o show ?thesis by (intro exI [of _ ?f]) auto
qed

section \<open>Properties\<close>

text \<open>C39: A dictionary file made by the builder from files with distinct names and non-empty contents of less than 2147483645
  bytes each opens, and GetSection returns for each name the contents of its file, as long as the 64-bit fingerprints of the
  names differ. At 2147483645 bytes the rounding up to a multiple of four overflows \<^verbatim>\<open>int\<close>.\<close>
theorem dictionary_file_gives_the_sections:
  assumes "distinct (map fst files)" "\<forall>(n, c) \<in> set files. c \<noteq> [] \<and> length c < 2 ^ 31 - 3"
    and "inj_on (GetSectionName default_seed) (fst ` set files)"
  shows "\<exists>b f. AddSections files NewFileBuilder = Some b \<and>
    OpenFromImage True (WriteImageToFile b) NewDictionaryFile = Some (ReadOk, f) \<and>
    (\<forall>(n, c) \<in> set files. GetSection f n = Some c)"
  using AddSections_new [OF assms(1), of NewFileBuilder] written_sections_read [OF assms]
  by (simp add: NewFileBuilder_def WriteImageToFile_def)

lemma dictionary_file_gives_the_sections_witness:
  "\<exists>b f. AddSections [([0x6b], [1, 2, 3])] NewFileBuilder = Some b \<and>
    OpenFromImage True (WriteImageToFile b) NewDictionaryFile = Some (ReadOk, f) \<and> GetSection f [0x6b] = Some [1, 2, 3]"
  using dictionary_file_gives_the_sections [of "[([0x6b], [1, 2, 3])]"] by auto

text \<open>An empty section is written with the size that marks the end of the file: a file with one can be written
  but never opened, the reader stops there and reports the remaining bytes.\<close>
theorem empty_section_makes_file_unreadable:
  assumes "list_all (\<lambda>s. length (ws_name s) = 8 \<and> length (ws_image s) < 2 ^ 31 - 3) ss" "list_ex (\<lambda>s. ws_image s = []) ss"
  shows "map_option fst (ReadSections True (WriteSections seed ss) seed0 []) = Some FailedPrecondition"
  using empty_section_stops [of ss seed seed0] assms by (auto simp: list_all_iff list_ex_iff section_ok_def)

lemma empty_section_makes_file_unreadable_witness:
  "map_option fst (ReadSections True (WriteSections 5 [\<lparr>ws_image = [], ws_name = replicate 8 1\<rparr>,
     \<lparr>ws_image = [7], ws_name = replicate 8 2\<rparr>]) 0 []) = Some FailedPrecondition"
  by (rule empty_section_makes_file_unreadable) simp_all

text \<open>C40: A section size of -12 passes every check of the reader and sends it back to the same size: such a file
  makes ReadSections add sections for ever.\<close>
theorem negative_section_size_hangs:
  assumes "length name = 8"
  shows "ReadSections True (WriteHeader seed @ WriteInt32 (- 12) @ name @ rest) seed0 [] = None"
proof -
  let ?img = "WriteHeader seed @ WriteInt32 (- 12) @ name @ rest"
  have h: "length (WriteHeader seed) = 8" by (simp add: WriteHeader_def)
  have "drop (nat 8) ?img = WriteInt32 (- 12) @ name @ rest" using h by simp
  moreover have "sint (- 12 :: 32 word) = - 12" by simp
  ultimately have "LoadInt32At ?img 8 = Some (- 12)"
    using LoadInt32At_WriteInt32 [of 8 ?img "- 12" "name @ rest"] h by simp
  then have "ReadSectionLoop ?img 8 [] = None" using h assms by (intro ReadSectionLoop_minus12) auto
  then show ?thesis using h assms by (subst ReadSections_header [OF _ refl]) auto
qed

lemma negative_section_size_hangs_witness:
  "ReadSections True (WriteHeader 1 @ WriteInt32 (- 12) @ replicate 8 0 @ [0, 0, 0, 0]) 1 [] = None"
  by (rule negative_section_size_hangs) simp

end
