(* ===== verification/Dictionary.thy ===== *)
theory Dictionary
  imports SystemDictionary BitArray DictFile
begin

text \<open>
  The system dictionary at run time: \<^verbatim>\<open>src/src/dictionary/system/system_dictionary.cc\<close> with the key expansion table
  (\<^verbatim>\<open>key_expansion_table.h\<close>) and the callbacks (\<^verbatim>\<open>dictionary_interface.h\<close>), and the images the builder writes. The state of
  a callback object is passed along and every method of it gives a traverse result and the new state. A failing
  \<^verbatim>\<open>CHECK\<close>, a \<^verbatim>\<open>LOG(FATAL)\<close> and a read outside an image are None. The conversions between Hiragana and Katakana
  (\<^verbatim>\<open>japanese_util\<close>) are the parameters \<open>h2k\<close> and \<open>k2h\<close>.
\<close>

section \<open>Constants and key expansion\<close>

definition kMinTokenArrayBlobSize :: nat where "kMinTokenArrayBlobSize = 4"
definition kKeyTrieLb0CacheSize :: nat where "kKeyTrieLb0CacheSize = 1 * 1024"
definition kKeyTrieLb1CacheSize :: nat where "kKeyTrieLb1CacheSize = 1 * 1024"
definition kKeyTrieSelect0CacheSize :: nat where "kKeyTrieSelect0CacheSize = 4 * 1024"
definition kKeyTrieSelect1CacheSize :: nat where "kKeyTrieSelect1CacheSize = 4 * 1024"
definition kKeyTrieTermvecCacheSize :: nat where "kKeyTrieTermvecCacheSize = 1 * 1024"
definition kValueTrieLb0CacheSize :: nat where "kValueTrieLb0CacheSize = 1 * 1024"
definition kValueTrieLb1CacheSize :: nat where "kValueTrieLb1CacheSize = 1 * 1024"
definition kValueTrieSelect0CacheSize :: nat where "kValueTrieSelect0CacheSize = 1 * 1024"
definition kValueTrieSelect1CacheSize :: nat where "kValueTrieSelect1CacheSize = 16 * 1024"
definition kValueTrieTermvecCacheSize :: nat where "kValueTrieTermvecCacheSize = 4 * 1024"

text \<open>The strings of the table as code points.\<close>

definition kHiraganaExpansionTable :: "char32 list list" where
  "kHiraganaExpansionTable =
     [[0x3042, 0x3042, 0x3041], [0x3044, 0x3044, 0x3043], [0x3046, 0x3046, 0x3045, 0x3094],
      [0x3048, 0x3048, 0x3047], [0x304a, 0x304a, 0x3049], [0x304b, 0x304b, 0x304c],
      [0x304d, 0x304d, 0x304e], [0x304f, 0x304f, 0x3050], [0x3051, 0x3051, 0x3052],
      [0x3053, 0x3053, 0x3054], [0x3055, 0x3055, 0x3056], [0x3057, 0x3057, 0x3058],
      [0x3059, 0x3059, 0x305a], [0x305b, 0x305b, 0x305c], [0x305d, 0x305d, 0x305e],
      [0x305f, 0x305f, 0x3060], [0x3061, 0x3061, 0x3062], [0x3064, 0x3064, 0x3063, 0x3065],
      [0x3063, 0x3063, 0x3065], [0x3066, 0x3066, 0x3067], [0x3068, 0x3068, 0x3069],
      [0x306f, 0x306f, 0x3070, 0x3071], [0x3072, 0x3072, 0x3073, 0x3074], [0x3075, 0x3075, 0x3076, 0x3077],
      [0x3078, 0x3078, 0x3079, 0x307a], [0x307b, 0x307b, 0x307c, 0x307d], [0x3084, 0x3084, 0x3083],
      [0x3086, 0x3086, 0x3085], [0x3088, 0x3088, 0x3087], [0x308f, 0x308f, 0x308e]]"

text \<open>key\_expansion\_table.h: 256 rows of 256 bits.\<close>

type_synonym expansion_table = "32 word list list"

definition SetBit :: "byte \<Rightarrow> byte \<Rightarrow> expansion_table \<Rightarrow> expansion_table" where
  "SetBit key value table =
     (let row = table ! unat key; k = unat value div 32
      in table[unat key := row[k := row ! k OR push_bit (unat value mod 32) 1]])"

definition NewExpansionTable :: expansion_table where
  "NewExpansionTable =
     fold (\<lambda>i. SetBit (of_nat i) (of_nat i)) [0 ..< 256] (replicate 256 (replicate 8 0))"

definition AddExpansion :: "byte \<Rightarrow> bytes \<Rightarrow> expansion_table \<Rightarrow> expansion_table" where
  "AddExpansion key data table = fold (SetBit key) data table"

definition ExpandKey :: "expansion_table \<Rightarrow> byte \<Rightarrow> 32 word list" where
  "ExpandKey table key = table ! unat key"

definition IsHit :: "32 word list \<Rightarrow> byte \<Rightarrow> bool" where
  "IsHit data value = (drop_bit (unat value mod 32) (data ! (unat value div 32)) AND 1 \<noteq> 0)"

definition BuildHiraganaExpansionTable :: "expansion_table \<Rightarrow> expansion_table" where
  "BuildHiraganaExpansionTable table =
     fold (\<lambda>s table. let encoded = EncodeKey (Utf32ToUtf8 s)
                       in if length encoded = 1 then table else AddExpansion (hd encoded) (tl encoded) table)
       kHiraganaExpansionTable table"

section \<open>The dictionary and its iterators\<close>

text \<open>A result of the reverse lookup: offset of the tokens and id of the key; (-1, -1) is an unused entry.\<close>

type_synonym reverse_result = "int \<times> int"

record system_dictionary =
  key_trie :: louds_trie
  value_trie :: louds_trie
  token_array :: bit_array
  sd_frequent_pos :: "32 word list"
  hiragana_expansion_table :: expansion_table
  reverse_lookup_cache :: "(int \<times> reverse_result) list option"
  reverse_lookup_index :: "reverse_result list list option"

definition NewSystemDictionary :: system_dictionary where
  "NewSystemDictionary =
     \<lparr>key_trie = NewTrie, value_trie = NewTrie, token_array = NewArray, sd_frequent_pos = [],
      hiragana_expansion_table = NewExpansionTable, reverse_lookup_cache = None, reverse_lookup_index = None\<rparr>"

definition dict_env :: "(bytes \<Rightarrow> bytes) \<Rightarrow> system_dictionary \<Rightarrow> DecodeEnv" where
  "dict_env h2k d =
     \<lparr>RestoreKeyString = RestoreKeyOfId (value_trie d), frequent_pos = sd_frequent_pos d, HiraganaToKatakana = h2k\<rparr>"

definition GetTokenArrayPtr :: "bit_array \<Rightarrow> nat \<Rightarrow> bytes option" where
  "GetTokenArrayPtr a key_id = ArrayPtr a key_id"

text \<open>
  The loop over the tokens of a key. The body gets a token info and the state of the caller, and gives a value
  where it leaves the loop. A run that reads outside the image is None.
\<close>

partial_function (option) TokenLoop ::
  "DecodeEnv \<Rightarrow> (TokenInfo \<Rightarrow> 's \<Rightarrow> 'r option \<times> 's) \<Rightarrow> TokenDecodeIterator \<Rightarrow> 's \<Rightarrow> ('r option \<times> 's) option" where
  "TokenLoop env body it s =
     (if it_state it = ITERATOR_DONE then Some (None, s)
      else (case body (token_info it) s of
              (Some r, s') \<Rightarrow> Some (Some r, s')
            | (None, s') \<Rightarrow>
                (case Next env it of
                   None \<Rightarrow> None
                 | Some it' \<Rightarrow> TokenLoop env body it' s')))"

definition ForEachToken ::
  "DecodeEnv \<Rightarrow> bytes \<Rightarrow> bytes \<Rightarrow> (TokenInfo \<Rightarrow> 's \<Rightarrow> 'r option \<times> 's) \<Rightarrow> 's \<Rightarrow> ('r option \<times> 's) option" where
  "ForEachToken env key ptr body s = do { it \<leftarrow> NewTokenDecodeIterator env key ptr; TokenLoop env body it s }"

text \<open>\<^verbatim>\<open>TokenScanIterator\<close>: the scan of the whole token array for the reverse lookup.\<close>

record scan_result =
  value_id :: int
  sr_index :: nat
  sr_tokens_offset :: nat

record scan_iterator =
  sc_ptr :: bytes
  sc_done :: bool
  sc_result :: scan_result
  sc_offset :: nat
  sc_tokens_offset :: nat
  sc_index :: nat

definition ScanNext :: "scan_iterator \<Rightarrow> scan_iterator option" where
  "ScanNext it =
     do {
       b \<leftarrow> byte_at (sc_ptr it) (sc_offset it);
       if b = kTokenTerminationFlag then Some (it\<lparr>sc_done := True\<rparr>)
       else do {
         (vid, read_bytes, more) \<leftarrow> ReadTokenForReverseLookup (drop (sc_offset it) (sc_ptr it));
         let it1 = it\<lparr>sc_result := \<lparr>value_id = vid, sr_index = sc_index it, sr_tokens_offset = sc_tokens_offset it\<rparr>\<rparr>;
         if \<not> more
         then let tokens_size = max kMinTokenArrayBlobSize (sc_offset it + read_bytes - sc_tokens_offset it);
                  tokens_offset = sc_tokens_offset it + tokens_size
              in Some (it1\<lparr>sc_tokens_offset := tokens_offset, sc_index := sc_index it + 1, sc_offset := tokens_offset\<rparr>)
         else Some (it1\<lparr>sc_offset := sc_offset it + read_bytes\<rparr>) } }"

definition NewScanIterator :: "bit_array \<Rightarrow> scan_iterator option" where
  "NewScanIterator a =
     do {
       ptr \<leftarrow> GetTokenArrayPtr a 0;
       ScanNext \<lparr>sc_ptr = ptr, sc_done = False,
         sc_result = \<lparr>value_id = -1, sr_index = 0, sr_tokens_offset = 0\<rparr>,
         sc_offset = 0, sc_tokens_offset = 0, sc_index = 0\<rparr> }"

text \<open>The results that a loop over the iterator sees, in order.\<close>

partial_function (option) ScanFrom :: "scan_iterator \<Rightarrow> scan_result list option" where
  "ScanFrom it =
     (if sc_done it then Some []
      else Option.bind (ScanNext it) (\<lambda>it'. Option.bind (ScanFrom it') (\<lambda>rest. Some (sc_result it # rest))))"

definition ScanAll :: "bit_array \<Rightarrow> scan_result list option" where
  "ScanAll a = Option.bind (NewScanIterator a) ScanFrom"

section \<open>Reverse lookup index and cache\<close>

definition set_insert :: "int \<Rightarrow> int list \<Rightarrow> int list" where
  "set_insert vid id_set = (if vid \<in> set id_set then id_set else insort vid id_set)"

text \<open>\<^verbatim>\<open>emplace\<close> of the multimap: after all entries whose key is not greater.\<close>

fun multimap_insert :: "int \<Rightarrow> 'v \<Rightarrow> (int \<times> 'v) list \<Rightarrow> (int \<times> 'v) list" where
  "multimap_insert k v [] = [(k, v)]"
| "multimap_insert k v ((k', v') # m) =
     (if k' \<le> k then (k', v') # multimap_insert k v m else (k, v) # (k', v') # m)"

definition equal_range :: "int \<Rightarrow> (int \<times> 'v) list \<Rightarrow> 'v list" where
  "equal_range k m = map snd (filter (\<lambda>(k', v). k' = k) m)"

definition IsAvailable :: "int list \<Rightarrow> (int \<times> reverse_result) list \<Rightarrow> bool" where
  "IsAvailable id_set results = list_all (\<lambda>vid. vid \<in> fst ` set results) id_set"

text \<open>The search for an unused entry in the loop that builds the index.\<close>

fun FillUnused :: "reverse_result \<Rightarrow> reverse_result list \<Rightarrow> reverse_result list" where
  "FillUnused new [] = []"
| "FillUnused new (r # rs) = (if r = (-1, -1) then new # rs else r # FillUnused new rs)"

definition NewReverseLookupIndex :: "bit_array \<Rightarrow> reverse_result list list option" where
  "NewReverseLookupIndex a =
     do {
       scan \<leftarrow> ScanAll a;
       let value_id_max = fold (\<lambda>r m. max m (value_id r)) scan (-1);
       if value_id_max < 0 then None
       else do {
         let index_size = nat (value_id_max + 1);
         let sizes = fold (\<lambda>r sizes. if value_id r \<noteq> -1
             then sizes[nat (value_id r) := sizes ! nat (value_id r) + 1] else sizes) scan (replicate index_size 0);
         let index = map (\<lambda>n. replicate n (-1, -1)) sizes;
         Some (fold (\<lambda>r index. if value_id r = -1 then index
             else index[nat (value_id r) :=
               FillUnused (int (sr_tokens_offset r), int (sr_index r)) (index ! nat (value_id r))]) scan index) } }"

definition FillResultMap ::
  "int list \<Rightarrow> reverse_result list list \<Rightarrow> (int \<times> reverse_result) list \<Rightarrow> (int \<times> reverse_result) list option" where
  "FillResultMap id_set index result_map =
     (if list_all (\<lambda>vid. 0 \<le> vid \<and> nat vid < length index) id_set
      then Some (fold (\<lambda>vid m. fold (multimap_insert vid) (index ! nat vid) m) id_set result_map)
      else None)"

definition ScanTokens :: "int list \<Rightarrow> system_dictionary \<Rightarrow> (int \<times> reverse_result) list option" where
  "ScanTokens id_set d =
     do {
       scan \<leftarrow> ScanAll (token_array d);
       Some (fold (\<lambda>r results. if value_id r \<noteq> -1 \<and> value_id r \<in> set id_set
           then multimap_insert (value_id r) (int (sr_tokens_offset r), int (sr_index r)) results
           else results) scan []) }"

definition AddKeyIdsOfAllPrefixes :: "louds_trie \<Rightarrow> bytes \<Rightarrow> int list \<Rightarrow> int list option" where
  "AddKeyIdsOfAllPrefixes t key key_ids =
     do {
       found \<leftarrow> PrefixSearch t key;
       ids \<leftarrow> those (map (\<lambda>(len, node). GetKeyIdOfTerminalNode t node) found);
       Some (fold (\<lambda>vid. set_insert (int vid)) ids key_ids) }"

function CollectSuffixIds :: "louds_trie \<Rightarrow> bytes \<Rightarrow> int list \<Rightarrow> int list option" where
  "CollectSuffixIds t str id_set =
     (if str = [] then Some id_set
      else Option.bind (AddKeyIdsOfAllPrefixes t (EncodeValue str) id_set)
             (CollectSuffixIds t (drop (OneCharLen (hd str)) str)))"
  by pat_completeness auto
termination
  by (relation "measure (\<lambda>(t, str, ids). length str)") (auto simp: OneCharLen_pos)

declare CollectSuffixIds.simps [simp del]

definition PopulateReverseLookupCache :: "bytes \<Rightarrow> system_dictionary \<Rightarrow> system_dictionary option" where
  "PopulateReverseLookupCache str d =
     (case reverse_lookup_index d of
        Some index \<Rightarrow> Some d
      | None \<Rightarrow>
          do {
            id_set \<leftarrow> CollectSuffixIds (value_trie d) str [];
            cache \<leftarrow> ScanTokens id_set d;
            Some (d\<lparr>reverse_lookup_cache := Some cache\<rparr>) })"

definition ClearReverseLookupCache :: "system_dictionary \<Rightarrow> system_dictionary" where
  "ClearReverseLookupCache d = d\<lparr>reverse_lookup_cache := None\<rparr>"

definition InitReverseLookupIndex :: "system_dictionary \<Rightarrow> system_dictionary option" where
  "InitReverseLookupIndex d =
     (case reverse_lookup_index d of
        Some index \<Rightarrow> Some d
      | None \<Rightarrow> do { index \<leftarrow> NewReverseLookupIndex (token_array d); Some (d\<lparr>reverse_lookup_index := Some index\<rparr>) })"

section \<open>Opening\<close>

text \<open>\<^verbatim>\<open>MakeAlignedConstSpan<uint32_t>\<close> of aligned data.\<close>

definition WordsOf :: "bytes \<Rightarrow> 32 word list" where
  "WordsOf data =
     (if length data < 4 \<or> length data mod 4 \<noteq> 0 then []
      else map (\<lambda>i. load_le (take 4 (drop (4 * i) data))) [0 ..< length data div 4])"

definition GetSectionNameForKey :: bytes where "GetSectionNameForKey = [0x6b]"
definition GetSectionNameForValue :: bytes where "GetSectionNameForValue = [0x76]"
definition GetSectionNameForTokens :: bytes where "GetSectionNameForTokens = [0x74]"
definition GetSectionNameForPos :: bytes where "GetSectionNameForPos = [0x70]"

text \<open>\<open>get\<close> is \<^verbatim>\<open>GetSection\<close> of the dictionary file; None is a failing \<^verbatim>\<open>CHECK\<close> or a read outside a section.\<close>

definition OpenDictionaryFile :: "(bytes \<Rightarrow> bytes option) \<Rightarrow> bool \<Rightarrow> system_dictionary \<Rightarrow> (bool \<times> system_dictionary) option" where
  "OpenDictionaryFile get enable_reverse_lookup_index d =
     (case (get GetSectionNameForKey, get GetSectionNameForValue, get GetSectionNameForTokens, get GetSectionNameForPos) of
        (Some key_image, Some value_image, Some token_image, Some frequent_pos_image) \<Rightarrow>
          do {
            kt \<leftarrow> TrieOpen key_image kKeyTrieLb0CacheSize kKeyTrieLb1CacheSize kKeyTrieSelect0CacheSize
                    kKeyTrieSelect1CacheSize kKeyTrieTermvecCacheSize (key_trie d);
            let table = BuildHiraganaExpansionTable (hiragana_expansion_table d);
            vt \<leftarrow> TrieOpen value_image kValueTrieLb0CacheSize kValueTrieLb1CacheSize kValueTrieSelect0CacheSize
                    kValueTrieSelect1CacheSize kValueTrieTermvecCacheSize (value_trie d);
            ta \<leftarrow> ArrayOpen token_image (token_array d);
            let d1 = d\<lparr>key_trie := kt, hiragana_expansion_table := table, value_trie := vt, token_array := ta,
                      sd_frequent_pos := WordsOf frequent_pos_image\<rparr>;
            d2 \<leftarrow> (if enable_reverse_lookup_index then InitReverseLookupIndex d1 else Some d1);
            Some (True, d2) }
      | _ \<Rightarrow> Some (False, d))"

section \<open>Callbacks: dictionary\_interface.h\<close>

datatype traverse_result = TRAVERSE_DONE | TRAVERSE_NEXT_KEY | TRAVERSE_CULL | TRAVERSE_CONTINUE

text \<open>The state of the callback object is passed along.\<close>

record 's callback =
  OnKey :: "bytes \<Rightarrow> 's \<Rightarrow> traverse_result \<times> 's"
  OnActualKey :: "bytes \<Rightarrow> bytes \<Rightarrow> int \<Rightarrow> 's \<Rightarrow> traverse_result \<times> 's"
  OnToken :: "bytes \<Rightarrow> bytes \<Rightarrow> Token \<Rightarrow> 's \<Rightarrow> traverse_result \<times> 's"
  IsKanaModifierInsensitiveConversion :: bool

definition ReverseLookupCallbackWrapper :: "'s callback \<Rightarrow> 's callback" where
  "ReverseLookupCallbackWrapper cb =
     \<lparr>OnKey = (\<lambda>key s. (TRAVERSE_CONTINUE, s)),
      OnActualKey = (\<lambda>key actual_key num_expanded s. (TRAVERSE_CONTINUE, s)),
      OnToken = (\<lambda>key actual_key t s. OnToken cb key actual_key (t\<lparr>t_key := t_value t, t_value := t_key t\<rparr>) s),
      IsKanaModifierInsensitiveConversion = False\<rparr>"

section \<open>Exact and prefix lookup\<close>

definition DictHasKey :: "system_dictionary \<Rightarrow> bytes \<Rightarrow> bool option" where
  "DictHasKey d key = HasKey (key_trie d) (EncodeKey key)"

definition DictHasValue :: "(bytes \<Rightarrow> bytes) \<Rightarrow> (bytes \<Rightarrow> bytes) \<Rightarrow> system_dictionary \<Rightarrow> bytes \<Rightarrow> bool option" where
  "DictHasValue h2k k2h d value =
     do {
       in_trie \<leftarrow> HasKey (value_trie d) (EncodeValue value);
       if in_trie then Some True
       else do {
         let key = k2h value;
         key_id \<leftarrow> ExactSearch (key_trie d) (EncodeKey key);
         if key_id = -1 then Some False
         else do {
           ptr \<leftarrow> GetTokenArrayPtr (token_array d) (nat key_id);
           (r, s) \<leftarrow> ForEachToken (dict_env h2k d) key ptr
             (\<lambda>ti s. (if value = t_value (token ti) then Some True else None, s)) ();
           Some (r = Some True) } } }"

definition LookupExact :: "(bytes \<Rightarrow> bytes) \<Rightarrow> system_dictionary \<Rightarrow> bytes \<Rightarrow> 's callback \<Rightarrow> 's \<Rightarrow> 's option" where
  "LookupExact h2k d key cb s =
     do {
       key_id \<leftarrow> ExactSearch (key_trie d) (EncodeKey key);
       if key_id = -1 then Some s
       else (case OnKey cb key s of (r, s) \<Rightarrow>
         if r \<noteq> TRAVERSE_CONTINUE then Some s
         else (case OnActualKey cb key key 0 s of (r, s) \<Rightarrow>
           if r \<noteq> TRAVERSE_CONTINUE then Some s
           else do {
             ptr \<leftarrow> GetTokenArrayPtr (token_array d) (nat key_id);
             (r, s) \<leftarrow> ForEachToken (dict_env h2k d) key ptr
               (\<lambda>ti s. case OnToken cb key key (token ti) s of
                         (r, s) \<Rightarrow> (if r \<noteq> TRAVERSE_CONTINUE then Some () else None, s)) s;
             Some s })) }"

text \<open>
  \<^verbatim>\<open>RunCallbackOnEachPrefix\<close> from position \<open>i\<close> of the encoded key. The body of the token loop leaves with True for
  the return of the function and with False for the break of the loop.
\<close>

definition PrefixTokenBody ::
  "(TokenInfo \<Rightarrow> bool) \<Rightarrow> 's callback \<Rightarrow> bytes \<Rightarrow> bytes \<Rightarrow> TokenInfo \<Rightarrow> 's \<Rightarrow> bool option \<times> 's" where
  "PrefixTokenBody token_filter cb key actual_key ti s =
     (if \<not> token_filter ti then (None, s)
      else (case OnToken cb key actual_key (token ti) s of (r, s) \<Rightarrow>
        (if r = TRAVERSE_DONE \<or> r = TRAVERSE_CULL then Some True
         else if r = TRAVERSE_NEXT_KEY then Some False else None, s)))"

fun RunCallbackOnEachPrefix ::
  "(bytes \<Rightarrow> bytes) \<Rightarrow> system_dictionary \<Rightarrow> bytes \<Rightarrow> bytes \<Rightarrow> 's callback \<Rightarrow> (TokenInfo \<Rightarrow> bool) \<Rightarrow>
     bytes \<Rightarrow> nat \<Rightarrow> louds_node \<Rightarrow> 's \<Rightarrow> 's option" where
  "RunCallbackOnEachPrefix h2k d key encoded_key cb token_filter [] i node s = Some s"
| "RunCallbackOnEachPrefix h2k d key encoded_key cb token_filter (c # rest) i node s =
     do {
       (found, node) \<leftarrow> MoveToChildByLabel (key_trie d) c node;
       if \<not> found then Some s
       else do {
         terminal \<leftarrow> IsTerminalNode (key_trie d) node;
         let next = RunCallbackOnEachPrefix h2k d key encoded_key cb token_filter rest (i + 1) node;
         if \<not> terminal then next s
         else let encoded_prefix = take (i + 1) encoded_key;
                  pre = take (nat (GetEncodedDecodedKeyLengthImpl encoded_prefix)) key
              in (case OnKey cb pre s of (r, s) \<Rightarrow>
                if r = TRAVERSE_DONE \<or> r = TRAVERSE_CULL then Some s
                else if r = TRAVERSE_NEXT_KEY then next s
                else (case OnActualKey cb pre pre 0 s of (r, s) \<Rightarrow>
                  if r = TRAVERSE_DONE \<or> r = TRAVERSE_CULL then Some s
                  else if r = TRAVERSE_NEXT_KEY then next s
                  else do {
                    key_id \<leftarrow> GetKeyIdOfTerminalNode (key_trie d) node;
                    ptr \<leftarrow> GetTokenArrayPtr (token_array d) key_id;
                    (r, s) \<leftarrow> ForEachToken (dict_env h2k d) pre ptr (PrefixTokenBody token_filter cb pre pre) s;
                    if r = Some True then Some s else next s })) } }"

text \<open>The nodes a loop over the children of a node visits, in order.\<close>

function Siblings :: "louds_trie \<Rightarrow> louds_node \<Rightarrow> louds_node list option" where
  "Siblings t node =
     (case IsValidNode (lt_louds t) node of
        None \<Rightarrow> None
      | Some valid \<Rightarrow>
          if valid then map_option ((#) node) (Siblings t (MoveToNextSibling node)) else Some [])"
  by pat_completeness auto
termination
  by (relation "measure (\<lambda>(t, node). 8 * length (si_data (lo_index (lt_louds t))) - edge_index node)")
    (auto simp: IsValidNode_def GetBit_def MoveToNextSibling_def split: if_splits)

declare Siblings.simps [simp del]

definition Children :: "louds_trie \<Rightarrow> louds_node \<Rightarrow> louds_node list option" where
  "Children t node = Option.bind (MoveToFirstChild (lt_louds t) node) (Siblings t)"

text \<open>
  \<^verbatim>\<open>LookupPrefixWithKeyExpansionImpl\<close>. The first part handles a terminal node: it gives a result where the function
  returns, and nothing where it goes on to the traversal.
\<close>

definition VisitPrefixNode ::
  "(bytes \<Rightarrow> bytes) \<Rightarrow> system_dictionary \<Rightarrow> bytes \<Rightarrow> bytes \<Rightarrow> 's callback \<Rightarrow> louds_node \<Rightarrow> nat \<Rightarrow> int \<Rightarrow> bytes \<Rightarrow>
     's \<Rightarrow> (traverse_result option \<times> 's) option" where
  "VisitPrefixNode h2k d key encoded_key cb node key_pos num_expanded actual_key_buffer s =
     do {
       terminal \<leftarrow> IsTerminalNode (key_trie d) node;
       if \<not> terminal then Some (None, s)
       else let encoded_prefix = take key_pos encoded_key;
                pre = take (nat (GetEncodedDecodedKeyLengthImpl encoded_prefix)) key
            in (case OnKey cb pre s of (r, s) \<Rightarrow>
              if r = TRAVERSE_DONE \<or> r = TRAVERSE_CULL then Some (Some r, s)
              else if r = TRAVERSE_NEXT_KEY then Some (None, s)
              else let actual_prefix = DecodeKey (take key_pos actual_key_buffer)
                   in (case OnActualKey cb pre actual_prefix num_expanded s of (r, s) \<Rightarrow>
                     if r = TRAVERSE_DONE \<or> r = TRAVERSE_CULL then Some (Some r, s)
                     else if r = TRAVERSE_NEXT_KEY then Some (None, s)
                     else do {
                       key_id \<leftarrow> GetKeyIdOfTerminalNode (key_trie d) node;
                       ptr \<leftarrow> GetTokenArrayPtr (token_array d) key_id;
                       (r, s) \<leftarrow> ForEachToken (dict_env h2k d) actual_prefix ptr
                         (\<lambda>ti s. case OnToken cb pre actual_prefix (token ti) s of (r, s) \<Rightarrow>
                            (if r \<noteq> TRAVERSE_CONTINUE then Some r else None, s)) s;
                       Some (case r of
                               Some r' \<Rightarrow> if r' = TRAVERSE_NEXT_KEY then None else Some r'
                             | None \<Rightarrow> None, s) })) }"

text \<open>The loop over the children; \<open>visit\<close> is the recursive call.\<close>

fun ExpandedChildren ::
  "louds_trie \<Rightarrow> 32 word list \<Rightarrow> (louds_node \<Rightarrow> byte \<Rightarrow> 's \<Rightarrow> (traverse_result \<times> 's) option) \<Rightarrow>
     louds_node list \<Rightarrow> 's \<Rightarrow> (traverse_result \<times> 's) option" where
  "ExpandedChildren t chars visit [] s = Some (TRAVERSE_CONTINUE, s)"
| "ExpandedChildren t chars visit (node # rest) s =
     do {
       c \<leftarrow> GetEdgeLabelToParentNode t node;
       if \<not> IsHit chars c then ExpandedChildren t chars visit rest s
       else do {
         (r, s) \<leftarrow> visit node c s;
         if r = TRAVERSE_DONE then Some (TRAVERSE_DONE, s) else ExpandedChildren t chars visit rest s } }"

text \<open>Writing past the buffer of \<^verbatim>\<open>kMaxDepth + 1\<close> characters is None.\<close>

primrec LookupPrefixWithKeyExpansionImpl ::
  "bytes \<Rightarrow> (bytes \<Rightarrow> bytes) \<Rightarrow> system_dictionary \<Rightarrow> bytes \<Rightarrow> bytes \<Rightarrow> expansion_table \<Rightarrow> 's callback \<Rightarrow>
     louds_node \<Rightarrow> nat \<Rightarrow> int \<Rightarrow> bytes \<Rightarrow> 's \<Rightarrow> (traverse_result \<times> 's) option" where
  "LookupPrefixWithKeyExpansionImpl [] h2k d key encoded_key table cb node key_pos num_expanded buf s =
     do {
       (r, s) \<leftarrow> VisitPrefixNode h2k d key encoded_key cb node key_pos num_expanded buf s;
       Some (case r of Some r \<Rightarrow> r | None \<Rightarrow> TRAVERSE_CONTINUE, s) }"
| "LookupPrefixWithKeyExpansionImpl (current_char # rest) h2k d key encoded_key table cb node key_pos num_expanded buf s =
     do {
       (r, s) \<leftarrow> VisitPrefixNode h2k d key encoded_key cb node key_pos num_expanded buf s;
       case r of
         Some r \<Rightarrow> Some (r, s)
       | None \<Rightarrow>
           do {
             nodes \<leftarrow> Children (key_trie d) node;
             ExpandedChildren (key_trie d) (ExpandKey table current_char)
               (\<lambda>child c s.
                  if kMaxDepth < key_pos then None
                  else LookupPrefixWithKeyExpansionImpl rest h2k d key encoded_key table cb child (key_pos + 1)
                         (num_expanded + (if c \<noteq> current_char then 1 else 0)) (take key_pos buf @ [c]) s)
               nodes s } }"

text \<open>
  \<^verbatim>\<open>LookupPrefix\<close> passes \<^verbatim>\<open>key.data()\<close> on, which becomes a string again: up to the first NUL. (Bytes behind the end of \<^verbatim>\<open>key\<close>, should
  it not end with a NUL, are cut off again by the \<^verbatim>\<open>substr\<close> of the functions called.)
\<close>

definition LookupPrefix :: "(bytes \<Rightarrow> bytes) \<Rightarrow> system_dictionary \<Rightarrow> bytes \<Rightarrow> 's callback \<Rightarrow> 's \<Rightarrow> 's option" where
  "LookupPrefix h2k d key cb s =
     (let encoded_key = EncodeKey key;
          data = takeWhile (\<lambda>b. b \<noteq> 0) key
      in if \<not> IsKanaModifierInsensitiveConversion cb
         then RunCallbackOnEachPrefix h2k d data encoded_key cb (\<lambda>ti. True) encoded_key 0 RootNode s
         else map_option snd (LookupPrefixWithKeyExpansionImpl encoded_key h2k d data encoded_key
                (hiragana_expansion_table d) cb RootNode 0 0 [] s))"

section \<open>Predictive lookup\<close>

record search_state =
  ss_node :: louds_node
  ss_key_pos :: nat
  ss_num_expanded :: int

text \<open>The states a loop over the children adds to the queue, all of them or those that hit the expanded key.\<close>

fun PushExpanded :: "louds_trie \<Rightarrow> byte \<Rightarrow> 32 word list \<Rightarrow> search_state \<Rightarrow> louds_node list \<Rightarrow> search_state list option" where
  "PushExpanded t target chars state [] = Some []"
| "PushExpanded t target chars state (node # rest) =
     do {
       c \<leftarrow> GetEdgeLabelToParentNode t node;
       states \<leftarrow> PushExpanded t target chars state rest;
       Some (if IsHit chars c
             then \<lparr>ss_node = node, ss_key_pos = ss_key_pos state + 1,
                   ss_num_expanded = ss_num_expanded state + (if c \<noteq> target then 1 else 0)\<rparr> # states
             else states) }"

definition PushAll :: "search_state \<Rightarrow> louds_node list \<Rightarrow> search_state list" where
  "PushAll state = map (\<lambda>node. \<lparr>ss_node = node, ss_key_pos = ss_key_pos state + 1,
                              ss_num_expanded = ss_num_expanded state\<rparr>)"

text \<open>The loop that collects the remaining keys of the same length.\<close>

fun CollectSameLength :: "louds_trie \<Rightarrow> nat \<Rightarrow> search_state list \<Rightarrow> search_state list \<Rightarrow> search_state list option" where
  "CollectSameLength t max_key_len [] result = Some result"
| "CollectSameLength t max_key_len (state # queue) result =
     (if max_key_len < ss_key_pos state then Some result
      else do {
        terminal \<leftarrow> IsTerminalNode t (ss_node state);
        CollectSameLength t max_key_len queue (if terminal then result @ [state] else result) })"

partial_function (option) CollectPredictive ::
  "louds_trie \<Rightarrow> bytes \<Rightarrow> expansion_table \<Rightarrow> nat \<Rightarrow> search_state list \<Rightarrow> search_state list \<Rightarrow> search_state list option" where
  "CollectPredictive t encoded_key table limit queue result =
     (case queue of
        [] \<Rightarrow> Some result
      | state # queue \<Rightarrow>
          if ss_key_pos state < length encoded_key
          then Option.bind (Children t (ss_node state)) (\<lambda>nodes.
               Option.bind (PushExpanded t (encoded_key ! ss_key_pos state)
                   (ExpandKey table (encoded_key ! ss_key_pos state)) state nodes) (\<lambda>states.
               CollectPredictive t encoded_key table limit (queue @ states) result))
          else Option.bind (IsTerminalNode t (ss_node state)) (\<lambda>terminal.
               let result = (if terminal then result @ [state] else result)
               in if limit < length result then CollectSameLength t (ss_key_pos state) queue result
                  else Option.bind (Children t (ss_node state)) (\<lambda>nodes.
                    CollectPredictive t encoded_key table limit (queue @ PushAll state nodes) result)))"

definition CollectPredictiveNodesInBfsOrder ::
  "louds_trie \<Rightarrow> bytes \<Rightarrow> expansion_table \<Rightarrow> nat \<Rightarrow> search_state list option" where
  "CollectPredictiveNodesInBfsOrder t encoded_key table limit =
     CollectPredictive t encoded_key table limit
       [\<lparr>ss_node = RootNode, ss_key_pos = 0, ss_num_expanded = 0\<rparr>] []"

definition kLookupLimit :: nat where "kLookupLimit = 64"

text \<open>
  The loop of \<^verbatim>\<open>LookupPredictive\<close> over the collected states. \<^verbatim>\<open>TRAVERSE_CULL\<close> from the first two callbacks is a
  \<^verbatim>\<open>LOG(FATAL)\<close>.
\<close>

fun PredictiveLoop ::
  "(bytes \<Rightarrow> bytes) \<Rightarrow> system_dictionary \<Rightarrow> bytes \<Rightarrow> bytes \<Rightarrow> 's callback \<Rightarrow> search_state list \<Rightarrow> 's \<Rightarrow> 's option" where
  "PredictiveLoop h2k d key encoded_key cb [] s = Some s"
| "PredictiveLoop h2k d key encoded_key cb (state # states) s =
     do {
       encoded_actual_key \<leftarrow> RestoreKeyOfNode (key_trie d) (ss_node state);
       let decoded_key = key @ DecodeKey (drop (length encoded_key) encoded_actual_key);
       case OnKey cb decoded_key s of (r, s) \<Rightarrow>
         if r = TRAVERSE_DONE then Some s
         else if r = TRAVERSE_NEXT_KEY then PredictiveLoop h2k d key encoded_key cb states s
         else if r = TRAVERSE_CULL then None
         else let actual_key = (if 0 < ss_num_expanded state then DecodeKey encoded_actual_key else decoded_key)
              in (case OnActualKey cb decoded_key actual_key (ss_num_expanded state) s of (r, s) \<Rightarrow>
                if r = TRAVERSE_DONE then Some s
                else if r = TRAVERSE_NEXT_KEY then PredictiveLoop h2k d key encoded_key cb states s
                else if r = TRAVERSE_CULL then None
                else do {
                  key_id \<leftarrow> GetKeyIdOfTerminalNode (key_trie d) (ss_node state);
                  ptr \<leftarrow> GetTokenArrayPtr (token_array d) key_id;
                  (r, s) \<leftarrow> ForEachToken (dict_env h2k d) actual_key ptr
                    (\<lambda>ti s. case OnToken cb decoded_key actual_key (token ti) s of (r, s) \<Rightarrow>
                       (if r = TRAVERSE_DONE then Some True
                        else if r = TRAVERSE_NEXT_KEY then Some False else None, s)) s;
                  if r = Some True then Some s else PredictiveLoop h2k d key encoded_key cb states s }) }"

definition LookupPredictive :: "(bytes \<Rightarrow> bytes) \<Rightarrow> system_dictionary \<Rightarrow> bytes \<Rightarrow> 's callback \<Rightarrow> 's \<Rightarrow> 's option" where
  "LookupPredictive h2k d key cb s =
     (if key = [] then Some s
      else let encoded_key = EncodeKey key
           in if kMaxDepth < length encoded_key then Some s
              else let table = (if IsKanaModifierInsensitiveConversion cb then hiragana_expansion_table d
                                else NewExpansionTable)
                   in do {
                     result \<leftarrow> CollectPredictiveNodesInBfsOrder (key_trie d) encoded_key table kLookupLimit;
                     PredictiveLoop h2k d key encoded_key cb result s })"

section \<open>Reverse lookup\<close>

definition T13NFilter :: "(bytes \<Rightarrow> bytes) \<Rightarrow> TokenInfo \<Rightarrow> bool" where
  "T13NFilter k2h ti =
     (if t_attributes (token ti) AND SPELLING_CORRECTION \<noteq> 0 then False
      else if value_type ti \<noteq> AS_IS_HIRAGANA \<and> value_type ti \<noteq> AS_IS_KATAKANA
           then t_key (token ti) = k2h (t_value (token ti))
           else True)"

definition RegisterReverseLookupTokensForT13N ::
  "(bytes \<Rightarrow> bytes) \<Rightarrow> (bytes \<Rightarrow> bytes) \<Rightarrow> system_dictionary \<Rightarrow> bytes \<Rightarrow> 's callback \<Rightarrow> 's \<Rightarrow> 's option" where
  "RegisterReverseLookupTokensForT13N h2k k2h d value cb s =
     (let hiragana_value = k2h value; encoded_key = EncodeKey hiragana_value
      in RunCallbackOnEachPrefix h2k d hiragana_value encoded_key cb (T13NFilter k2h) encoded_key 0 RootNode s)"

definition ReverseTokenBody :: "int \<Rightarrow> 's callback \<Rightarrow> bytes \<Rightarrow> TokenInfo \<Rightarrow> 's \<Rightarrow> unit option \<times> 's" where
  "ReverseTokenBody vid cb tokens_key ti s =
     (if t_attributes (token ti) AND SPELLING_CORRECTION \<noteq> 0 \<or> id_in_value_trie ti \<noteq> vid then (None, s)
      else (None, snd (OnToken cb tokens_key tokens_key (token ti) s)))"

fun RegisterResults ::
  "(bytes \<Rightarrow> bytes) \<Rightarrow> system_dictionary \<Rightarrow> bytes \<Rightarrow> 's callback \<Rightarrow> int \<Rightarrow> reverse_result list \<Rightarrow> 's \<Rightarrow> 's option" where
  "RegisterResults h2k d tokens_ptr cb vid [] s = Some s"
| "RegisterResults h2k d tokens_ptr cb vid ((tokens_offset, key_id) # results) s =
     do {
       encoded_key \<leftarrow> RestoreKeyOfId (key_trie d) key_id;
       let tokens_key = DecodeKey encoded_key;
       case OnKey cb tokens_key s of (r, s) \<Rightarrow>
         if r \<noteq> TRAVERSE_CONTINUE then RegisterResults h2k d tokens_ptr cb vid results s
         else if tokens_offset < 0 then None
         else do {
           (r, s) \<leftarrow> ForEachToken (dict_env h2k d) tokens_key (drop (nat tokens_offset) tokens_ptr)
             (ReverseTokenBody vid cb tokens_key) s;
           RegisterResults h2k d tokens_ptr cb vid results s } }"

fun RegisterReverseLookupResults ::
  "(bytes \<Rightarrow> bytes) \<Rightarrow> system_dictionary \<Rightarrow> bytes \<Rightarrow> int list \<Rightarrow> (int \<times> reverse_result) list \<Rightarrow> 's callback \<Rightarrow> 's \<Rightarrow> 's option" where
  "RegisterReverseLookupResults h2k d tokens_ptr [] cache cb s = Some s"
| "RegisterReverseLookupResults h2k d tokens_ptr (vid # id_set) cache cb s =
     do {
       s \<leftarrow> RegisterResults h2k d tokens_ptr cb vid (equal_range vid cache) s;
       RegisterReverseLookupResults h2k d tokens_ptr id_set cache cb s }"

text \<open>Where the results of the reverse lookup come from: the index, the cache, or a scan.\<close>

definition ReverseResults :: "system_dictionary \<Rightarrow> int list \<Rightarrow> (int \<times> reverse_result) list option" where
  "ReverseResults d id_set =
     (case reverse_lookup_index d of
        Some index \<Rightarrow> FillResultMap id_set index []
      | None \<Rightarrow>
          (case reverse_lookup_cache d of
             Some cache \<Rightarrow> if IsAvailable id_set cache then Some cache else ScanTokens id_set d
           | None \<Rightarrow> ScanTokens id_set d))"

definition RegisterReverseLookupTokensForValue ::
  "(bytes \<Rightarrow> bytes) \<Rightarrow> system_dictionary \<Rightarrow> bytes \<Rightarrow> 's callback \<Rightarrow> 's \<Rightarrow> 's option" where
  "RegisterReverseLookupTokensForValue h2k d value cb s =
     do {
       id_set \<leftarrow> AddKeyIdsOfAllPrefixes (value_trie d) (EncodeValue value) [];
       results \<leftarrow> ReverseResults d id_set;
       tokens_ptr \<leftarrow> GetTokenArrayPtr (token_array d) 0;
       RegisterReverseLookupResults h2k d tokens_ptr id_set results cb s }"

definition LookupReverse ::
  "(bytes \<Rightarrow> bytes) \<Rightarrow> (bytes \<Rightarrow> bytes) \<Rightarrow> system_dictionary \<Rightarrow> bytes \<Rightarrow> 's callback \<Rightarrow> 's \<Rightarrow> 's option" where
  "LookupReverse h2k k2h d str cb s =
     do {
       let wrapper = ReverseLookupCallbackWrapper cb;
       s \<leftarrow> RegisterReverseLookupTokensForT13N h2k k2h d str wrapper s;
       RegisterReverseLookupTokensForValue h2k d str wrapper s }"

section \<open>The builder's images\<close>

text \<open>\<open>trie_ids\<close> are the ids of a trie builder that got the words; \<open>BuildTrie\<close> is the built builder.\<close>

definition BuildTrie :: "bytes list \<Rightarrow> trie_builder option" where
  "BuildTrie words = Option.bind (AddWords words NewTrieBuilder) TrieBuild"

definition trie_ids :: "bytes list \<Rightarrow> bytes \<Rightarrow> int" where
  "trie_ids words word =
     (case Option.bind (BuildTrie words) (\<lambda>b. GetId b word) of Some i \<Rightarrow> i | None \<Rightarrow> -1)"

definition FrequentPosImage :: "32 word list \<Rightarrow> bytes" where
  "FrequentPosImage frequent = concat (map (le_bytes 4) (FrequentPosArray frequent))"

text \<open>
  \<^verbatim>\<open>BuildFromTokensInternal\<close> and the sections of \<^verbatim>\<open>WriteToStream\<close>, in its order. The name of a section is what the
  file codec makes of the name in the dictionary's codec.
\<close>

definition BuildSections ::
  "(bytes \<Rightarrow> bytes) \<Rightarrow> nat \<Rightarrow> Token list \<Rightarrow> (bytes \<times> bytes) list option" where
  "BuildSections h2k min_key_len tokens =
     do {
       (kis, frequent, value_strings) \<leftarrow> BuildKeyInfos h2k trie_ids min_key_len tokens;
       value_builder \<leftarrow> BuildTrie value_strings;
       key_builder \<leftarrow> BuildTrie (BuildKeyTrie kis);
       elements \<leftarrow> BuildTokenArray kis;
       token_image \<leftarrow> MakeArray (ab_base_length NewArrayBuilder) (ab_step_length NewArrayBuilder) elements;
       Some [(GetSectionNameForValue, tb_image value_builder), (GetSectionNameForKey, tb_image key_builder),
             (GetSectionNameForTokens, token_image), (GetSectionNameForPos, FrequentPosImage frequent)] }"

definition WriteToStream :: "(bytes \<times> bytes) list \<Rightarrow> bytes" where
  "WriteToStream sections =
     WriteSections default_seed (map (\<lambda>(name, img). \<lparr>ws_image = img, ws_name = GetSectionName default_seed name\<rparr>) sections)"

text \<open>
  \<^verbatim>\<open>Builder::Build\<close> for an image. The inner option is the status returned: a dictionary or an error.
\<close>

definition BuildSystemDictionary :: "bool \<Rightarrow> bytes \<Rightarrow> bool \<Rightarrow> system_dictionary option option" where
  "BuildSystemDictionary aligned img enable_reverse_lookup_index =
     do {
       (status, dictionary_file) \<leftarrow> OpenFromImage aligned img NewDictionaryFile;
       if status \<noteq> ReadOk then Some None
       else do {
         (opened, d) \<leftarrow> OpenDictionaryFile (GetSection dictionary_file) enable_reverse_lookup_index NewSystemDictionary;
         Some (if opened then Some d else None) } }"

end
