(* ===== verification/DictBuild.thy ===== *)
theory DictBuild
  imports Dictionary
begin

text \<open>
  From the builder to the opened dictionary: the tries, the token array and the sections of the file that the builder
  writes are what the dictionary reads. \<open>holds\<close> says that a dictionary holds a map from keys to tokens; the dictionary
  file made of a list of tokens opens and holds the tokens.
\<close>

section \<open>The tries of the builder\<close>

lemma BuildTrie_open:
  assumes "[] \<notin> set words" "sum_list (map length words) < 2 ^ 30"
  obtains b t W D where "BuildTrie words = Some b" "TrieOpen (tb_image b) lb0 lb1 s0 s1 tlb1 NewTrie = Some t"
    "trie_of W D t" "set W = set words"
    "\<And>w. trie_ids words w = (if w \<in> set words then int (key_number W (tl (nodes W D)) w) else -1)"
    "length (tb_image b) \<le> 4 * sum_list (map length words) + 100"
proof -
  obtain W D b b' t where b: "AddWords words NewTrieBuilder = Some b" "TrieBuild b = Some b'"
    "TrieOpen (tb_image b') lb0 lb1 s0 s1 tlb1 NewTrie = Some t" "trie_of W D t" "set W = set words"
    "\<forall>w. GetId b' w = Some (if w \<in> set words then int (key_number W (tl (nodes W D)) w) else -1)"
    "length (tb_image b') \<le> 4 * sum_list (map length words) + 100"
    by (rule Build_words [OF assms])
  from b(1,2) have bt: "BuildTrie words = Some b'" by (simp add: BuildTrie_def)
  show thesis
    by (rule that [OF bt b(3-5) _ b(7)]) (simp add: trie_ids_def bt b(6))
qed

lemma key_number_filter:
  "w \<in> set W \<Longrightarrow> key_number W E w = length (takeWhile (\<lambda>q. q \<noteq> w) (filter (\<lambda>q. q \<in> set W) E))"
  unfolding key_number_def by (induction E) auto

lemma key_number_index:
  assumes w: "w \<in> set W" and d: "distinct E" "distinct W" and sub: "set W \<subseteq> set E"
  shows "key_number W E w < length W" "filter (\<lambda>q. q \<in> set W) E ! key_number W E w = w"
    "length (filter (\<lambda>q. q \<in> set W) E) = length W"
proof -
  let ?F = "filter (\<lambda>q. q \<in> set W) E"
  have F: "set ?F = set W" "distinct ?F" using sub d by auto
  then show l: "length ?F = length W" using d(2) by (metis distinct_card)
  have wF: "w \<in> set ?F" using F(1) w by simp
  then have lt: "length (takeWhile (\<lambda>q. q \<noteq> w) ?F) < length ?F"
    by (metis (mono_tags, lifting) length_takeWhile_le le_neq_implies_less takeWhile_eq_all_conv takeWhile_eq_take take_all order_refl)
  show "key_number W E w < length W" using lt unfolding key_number_filter [OF w] l .
  show "?F ! key_number W E w = w" unfolding key_number_filter [OF w] using nth_length_takeWhile [OF lt] by simp
qed

lemma trie_ids_range:
  assumes "trie_of W D t" "set W = set words" "w \<in> set words"
  shows "key_number W (tl (nodes W D)) w < card (set words)"
    "w' \<in> set words \<Longrightarrow> key_number W (tl (nodes W D)) w = key_number W (tl (nodes W D)) w' \<Longrightarrow> w = w'"
proof -
  have s: "sorted_wrt (<) W" using assms(1) by (simp add: trie_of_def)
  obtain qs where qs: "nodes W D = [] # qs" using nodes_tl [OF assms(1)] by metis
  have d: "distinct (tl (nodes W D))" "distinct W"
    using distinct_nodes [OF s, of D] sorted_distinct [OF s] by (simp_all add: qs)
  have sub: "set W \<subseteq> set (tl (nodes W D))"
  proof
    fix v assume "v \<in> set W"
    moreover have "[] \<notin> set W" using assms(1) by (simp add: trie_of_def)
    ultimately show "v \<in> set (tl (nodes W D))" using word_node [OF assms(1), of v] qs by auto
  qed
  have "card (set words) = length W" using d(2) assms(2) by (metis distinct_card)
  with key_number_index(1) [OF _ d sub] assms(2,3)
  show "key_number W (tl (nodes W D)) w < card (set words)" by simp
  show "w = w'" if "w' \<in> set words" "key_number W (tl (nodes W D)) w = key_number W (tl (nodes W D)) w'"
    using key_number_index(2) [OF _ d sub, of w] key_number_index(2) [OF _ d sub, of w'] assms(2,3) that by simp
qed

lemma trie_ids_bijection:
  assumes "[] \<notin> set words" "sum_list (map length words) < 2 ^ 30" "w \<in> set words"
  shows "0 \<le> trie_ids words w" "trie_ids words w < int (card (set words))"
    "w' \<in> set words \<Longrightarrow> trie_ids words w = trie_ids words w' \<Longrightarrow> w = w'"
proof -
  obtain b t W D where b: "trie_of W D t" "set W = set words"
    "\<And>w. trie_ids words w = (if w \<in> set words then int (key_number W (tl (nodes W D)) w) else -1)"
    using BuildTrie_open [OF assms(1,2), of 0 0 0 0 0] by metis
  show "0 \<le> trie_ids words w" "trie_ids words w < int (card (set words))"
    using trie_ids_range(1) [OF b(1,2)] assms(3) by (simp_all add: b(3))
  show "w = w'" if "w' \<in> set words" "trie_ids words w = trie_ids words w'"
    using trie_ids_range(2) [OF b(1,2) assms(3)] that assms(3) by (simp add: b(3))
qed

lemma card_words: "[] \<notin> set words \<Longrightarrow> card (set words) \<le> sum_list (map length words)"
proof (induction words)
  case (Cons w words)
  then have "card (set (w # words)) \<le> Suc (card (set words))" by (simp add: card_insert_le_m1 card_insert_if)
  moreover have "1 \<le> length w" using Cons.prems by (cases w) auto
  ultimately show ?case using Cons by simp
qed simp

text \<open>The trie of the values keeps the law the reading of the tokens rests on.\<close>

lemma value_trie_law:
  assumes "[] \<notin> set words" "sum_list (map length words) < 2 ^ 30" "card (set words) \<le> 0x3f0000"
    and "\<forall>w \<in> set words. length w \<le> kMaxDepth"
    and "BuildTrie words = Some b" "TrieOpen (tb_image b) lb0 lb1 s0 s1 tlb1 NewTrie = Some t"
  shows "trie_law trie_ids (\<lambda>vs. RestoreKeyOfId t) words"
proof -
  obtain b' t' W D where b: "BuildTrie words = Some b'" "TrieOpen (tb_image b') lb0 lb1 s0 s1 tlb1 NewTrie = Some t'"
    "trie_of W D t'" "set W = set words"
    "\<And>w. trie_ids words w = (if w \<in> set words then int (key_number W (tl (nodes W D)) w) else -1)"
    using BuildTrie_open [OF assms(1,2)] by metis
  then have [simp]: "t' = t" "b' = b" using assms(5,6) by auto
  have *: "RestoreKeyOfId t (trie_ids words w) = Some w \<and> 0 \<le> trie_ids words w \<and> trie_ids words w < 0x3f0000"
    if "w \<in> set words" for w
    using RestoreKeyOfId_word [OF b(3), of w] trie_ids_bijection(1,2) [OF assms(1,2) that] assms(3,4) that b(4)
    by (simp add: b(5))
  moreover have "- (2 ^ 31) \<le> trie_ids words w \<and> trie_ids words w < 2 ^ 31" for w
  proof (cases "w \<in> set words")
    case True
    then show ?thesis using * [OF True] by simp
  qed (simp add: b(5))
  ultimately show ?thesis by (simp add: trie_law_def)
qed

section \<open>The token array in the order of the key ids\<close>

lemma FillIdTable_Some:
  assumes "\<forall>ki \<in> set kis. 0 \<le> id_in_key_trie ki \<and> nat (id_in_key_trie ki) < length table"
    and "distinct (map id_in_key_trie kis)"
  shows "\<exists>table'. FillIdTable kis table = Some table' \<and> length table' = length table \<and>
    (\<forall>ki \<in> set kis. table' ! nat (id_in_key_trie ki) = Some ki) \<and>
    (\<forall>i < length table. int i \<notin> id_in_key_trie ` set kis \<longrightarrow> table' ! i = table ! i)"
  using assms
proof (induction kis arbitrary: table)
  case (Cons ki kis)
  let ?i = "nat (id_in_key_trie ki)"
  from Cons.prems Cons.IH [of "table[?i := Some ki]"] obtain table' where
    t: "FillIdTable kis (table[?i := Some ki]) = Some table'" "length table' = length table"
    "\<forall>k \<in> set kis. table' ! nat (id_in_key_trie k) = Some k"
    "\<forall>i < length table. int i \<notin> id_in_key_trie ` set kis \<longrightarrow> table' ! i = table[?i := Some ki] ! i" by auto
  have i: "0 \<le> id_in_key_trie ki" "?i < length table" using Cons.prems by simp_all
  moreover have "int ?i \<notin> id_in_key_trie ` set kis" using i Cons.prems(2) by simp
  ultimately have "table' ! ?i = Some ki" using t(4) by simp
  with t i show ?case by (auto simp: nth_list_update)
qed simp

lemma EncodeTable_Some:
  assumes "\<forall>e \<in> set table. \<exists>ki bs. e = Some ki \<and> EncodeTokens (ki_tokens ki) = Some bs"
  shows "\<exists>es. EncodeTable table = Some es \<and> length es = length table \<and>
    (\<forall>i < length table. \<forall>ki. table ! i = Some ki \<longrightarrow> EncodeTokens (ki_tokens ki) = Some (es ! i))"
  using assms
proof (induction table)
  case (Cons e table)
  then obtain es ki bs where "EncodeTable table = Some es" "length es = length table"
    "\<forall>i < length table. \<forall>ki. table ! i = Some ki \<longrightarrow> EncodeTokens (ki_tokens ki) = Some (es ! i)"
    "e = Some ki" "EncodeTokens (ki_tokens ki) = Some bs" by auto
  then show ?case by (intro exI [of _ "bs # es"]) (auto simp: nth_Cons split: nat.splits)
qed simp

lemma key_ids_onto:
  assumes "\<forall>ki \<in> set kis. 0 \<le> id_in_key_trie ki \<and> id_in_key_trie ki < int (length kis)"
    and "distinct (map id_in_key_trie kis)"
  shows "(\<lambda>ki. nat (id_in_key_trie ki)) ` set kis = {..< length kis}"
    "inj_on (\<lambda>ki. nat (id_in_key_trie ki)) (set kis)"
proof -
  show inj: "inj_on (\<lambda>ki. nat (id_in_key_trie ki)) (set kis)"
  proof (rule inj_onI)
    fix x y assume xy: "x \<in> set kis" "y \<in> set kis" "nat (id_in_key_trie x) = nat (id_in_key_trie y)"
    then have "id_in_key_trie x = id_in_key_trie y" using assms(1) by (simp add: eq_nat_nat_iff)
    then show "x = y" using assms(2) xy(1,2) by (meson distinct_map inj_onD)
  qed
  have "distinct kis" using assms(2) by (simp add: distinct_map)
  then have "card ((\<lambda>ki. nat (id_in_key_trie ki)) ` set kis) = length kis"
    using inj by (simp add: card_image distinct_card)
  moreover have "(\<lambda>ki. nat (id_in_key_trie ki)) ` set kis \<subseteq> {..< length kis}"
    using assms(1) by (auto simp: nat_less_iff)
  ultimately show "(\<lambda>ki. nat (id_in_key_trie ki)) ` set kis = {..< length kis}"
    by (intro card_subset_eq) simp_all
qed

lemma BuildTokenArray_elements:
  assumes ids: "\<forall>ki \<in> set kis. 0 \<le> id_in_key_trie ki \<and> id_in_key_trie ki < int (length kis)"
    "distinct (map id_in_key_trie kis)"
    and enc: "\<forall>ki \<in> set kis. \<exists>bs. EncodeTokens (ki_tokens ki) = Some bs"
  shows "\<exists>es. BuildTokenArray kis = Some (es @ [[kTokenTerminationFlag]]) \<and> length es = length kis \<and>
    (\<forall>ki \<in> set kis. EncodeTokens (ki_tokens ki) = Some (es ! nat (id_in_key_trie ki))) \<and>
    (\<exists>by_id. set by_id = set kis \<and> list_all2 (\<lambda>ki e. EncodeTokens (ki_tokens ki) = Some e) by_id es \<and>
       (\<forall>i < length by_id. id_in_key_trie (by_id ! i) = int i))"
proof -
  let ?n = "length kis"
  have "\<forall>ki \<in> set kis. 0 \<le> id_in_key_trie ki \<and> nat (id_in_key_trie ki) < length (replicate ?n (None :: KeyInfo option))"
    using ids(1) by (auto simp: nat_less_iff)
  from FillIdTable_Some [OF this ids(2)] obtain table where
    t: "FillIdTable kis (replicate ?n None) = Some table" "length table = ?n"
    "\<forall>ki \<in> set kis. table ! nat (id_in_key_trie ki) = Some ki" by auto
  have onto: "(\<lambda>ki. nat (id_in_key_trie ki)) ` set kis = {..< ?n}" by (rule key_ids_onto [OF ids])
  have all: "\<exists>ki \<in> set kis. table ! i = Some ki" if "i < ?n" for i
  proof -
    have "i \<in> (\<lambda>ki. nat (id_in_key_trie ki)) ` set kis" using that onto by simp
    then obtain ki where "ki \<in> set kis" "nat (id_in_key_trie ki) = i" by auto
    with t(3) show ?thesis by fastforce
  qed
  have "\<forall>e \<in> set table. \<exists>ki bs. e = Some ki \<and> EncodeTokens (ki_tokens ki) = Some bs"
  proof
    fix e assume "e \<in> set table"
    then obtain i where i: "i < ?n" "table ! i = e" using t(2) by (auto simp: in_set_conv_nth)
    from all [OF i(1)] i(2) obtain ki where "ki \<in> set kis" "e = Some ki" by auto
    with enc show "\<exists>ki bs. e = Some ki \<and> EncodeTokens (ki_tokens ki) = Some bs" by blast
  qed
  from EncodeTable_Some [OF this] obtain es where es: "EncodeTable table = Some es" "length es = ?n"
    "\<forall>i < ?n. \<forall>ki. table ! i = Some ki \<longrightarrow> EncodeTokens (ki_tokens ki) = Some (es ! i)" using t(2) by auto
  have "EncodeTokens (ki_tokens ki) = Some (es ! nat (id_in_key_trie ki))" if "ki \<in> set kis" for ki
  proof -
    have "nat (id_in_key_trie ki) < ?n" using ids(1) that by (auto simp: nat_less_iff)
    then show ?thesis using es(3) t(3) that by blast
  qed
  moreover have "\<exists>by_id. set by_id = set kis \<and> list_all2 (\<lambda>ki e. EncodeTokens (ki_tokens ki) = Some e) by_id es \<and>
       (\<forall>i < length by_id. id_in_key_trie (by_id ! i) = int i)"
  proof (intro exI conjI allI impI)
    let ?by_id = "map the table"
    have at: "\<exists>ki \<in> set kis. table ! i = Some ki \<and> nat (id_in_key_trie ki) = i" if i: "i < ?n" for i
    proof -
      have "i \<in> (\<lambda>ki. nat (id_in_key_trie ki)) ` set kis" using i onto by simp
      then obtain ki where "ki \<in> set kis" "nat (id_in_key_trie ki) = i" by auto
      with t(3) show ?thesis by fastforce
    qed
    show "set ?by_id = set kis"
    proof
      show "set ?by_id \<subseteq> set kis"
      proof
        fix x assume "x \<in> set ?by_id"
        then obtain i where "i < ?n" "x = the (table ! i)" using t(2) by (auto simp: in_set_conv_nth)
        with at show "x \<in> set kis" by fastforce
      qed
      show "set kis \<subseteq> set ?by_id"
      proof
        fix ki assume ki: "ki \<in> set kis"
        then have "nat (id_in_key_trie ki) < length table" using ids(1) t(2) by (auto simp: nat_less_iff)
        moreover have "?by_id ! nat (id_in_key_trie ki) = ki" using t(3) ki calculation by simp
        ultimately show "ki \<in> set ?by_id" by (metis length_map nth_mem)
      qed
    qed
    show "list_all2 (\<lambda>ki e. EncodeTokens (ki_tokens ki) = Some e) ?by_id es"
      unfolding list_all2_conv_all_nth using es(2,3) at t(2) by fastforce
    fix i assume i: "i < length ?by_id"
    then obtain ki where ki: "ki \<in> set kis" "table ! i = Some ki" "nat (id_in_key_trie ki) = i" using at t(2) by auto
    moreover have "0 \<le> id_in_key_trie ki" using ids(1) ki(1) by blast
    ultimately show "id_in_key_trie (?by_id ! i) = int i" using i by simp
  qed
  ultimately show ?thesis using t(1) es(1,2) by (auto simp: BuildTokenArray_def)
qed

section \<open>The frequent parts of speech\<close>

lemma WordsOf_words: "ws \<noteq> [] \<Longrightarrow> WordsOf (concat (map (le_bytes 4) ws)) = (ws :: 32 word list)"
proof -
  assume ne: "ws \<noteq> []"
  have l: "length (concat (map (le_bytes 4) ws)) = 4 * length ws" by (induction ws) simp_all
  have "take 4 (drop (4 * i) (concat (map (le_bytes 4) ws))) = le_bytes 4 (ws ! i)" if "i < length ws" for i
    using that
  proof (induction ws arbitrary: i)
    case (Cons w ws)
    then show ?case by (cases i) simp_all
  qed simp
  then have "map (\<lambda>i. load_le (take 4 (drop (4 * i) (concat (map (le_bytes 4) ws))))) [0 ..< length ws] = ws"
    by (intro nth_equalityI) (simp_all add: load_le_bytes)
  moreover have "0 < length ws" using ne by simp
  ultimately show ?thesis unfolding WordsOf_def l by simp
qed

lemma FrequentPosImage_words: "WordsOf (FrequentPosImage frequent) = FrequentPosArray frequent"
proof (cases "FrequentPosArray frequent = []")
  case True
  then have False by (auto simp: FrequentPosArray_def)
  then show ?thesis ..
next
  case False
  then show ?thesis unfolding FrequentPosImage_def by (rule WordsOf_words)
qed

section \<open>The loop over the tokens of a key\<close>

fun VisitTokens :: "('t \<Rightarrow> 's \<Rightarrow> 'r option \<times> 's) \<Rightarrow> 't list \<Rightarrow> 's \<Rightarrow> 'r option \<times> 's" where
  "VisitTokens f [] s = (None, s)"
| "VisitTokens f (t # ts) s =
     (case f t s of (Some r, s') \<Rightarrow> (Some r, s') | (None, s') \<Rightarrow> VisitTokens f ts s')"

lemma TokenLoop_tokens:
  "CollectTokens n env it = Some ts \<Longrightarrow>
     TokenLoop env (\<lambda>ti. f (token ti)) it s = Some (VisitTokens f ts s)"
proof (induction n arbitrary: it ts s)
  case (Suc n)
  show ?case
  proof (cases "it_state it = ITERATOR_DONE")
    case True
    with Suc.prems show ?thesis by (simp add: TokenLoop.simps)
  next
    case False
    with Suc.prems obtain it' ts' where n: "Next env it = Some it'" "CollectTokens n env it' = Some ts'"
      "ts = token (token_info it) # ts'" by (auto simp: bind_eq_Some_conv)
    obtain r s' where r: "f (token (token_info it)) s = (r, s')" by (cases "f (token (token_info it)) s")
    show ?thesis
    proof (cases r)
      case None
      then show ?thesis
        by (subst TokenLoop.simps) (simp add: False n(1,3) r Suc.IH [OF n(2)])
    next
      case (Some x)
      then show ?thesis by (subst TokenLoop.simps) (simp add: False n(3) r)
    qed
  qed
qed simp

definition reads_tokens :: "DecodeEnv \<Rightarrow> bytes \<Rightarrow> bytes \<Rightarrow> Token list \<Rightarrow> bool" where
  "reads_tokens env key ptr ts \<longleftrightarrow>
     (\<exists>n. Option.bind (NewTokenDecodeIterator env key ptr) (CollectTokens n env) = Some ts)"

lemma ForEachToken_tokens:
  assumes "reads_tokens env key ptr ts"
  shows "ForEachToken env key ptr (\<lambda>ti. f (token ti)) s = Some (VisitTokens f ts s)"
proof -
  from assms obtain n it where "NewTokenDecodeIterator env key ptr = Some it" "CollectTokens n env it = Some ts"
    by (auto simp: reads_tokens_def bind_eq_Some_conv)
  then show ?thesis using TokenLoop_tokens by (simp add: ForEachToken_def)
qed

section \<open>Key ids\<close>

lemma BuildKeyInfos_ids:
  assumes "BuildKeyInfos h2k build m tokens = Some (kis, frequent, vstrs)" "ki \<in> set kis"
  shows "id_in_key_trie ki = build (BuildKeyTrie kis) (EncodeKey (ki_key ki))"
proof -
  from assms(1) obtain kis0 h where k: "kis = map (\<lambda>k. SetValueType (SetPosType frequent (PrepareKeyInfo m h
      (build (BuildKeyTrie (map (SetIdForValue (build vstrs)) kis0))) (build vstrs) k))) kis0"
    by (rule BuildKeyInfos_split)
  have "BuildKeyTrie kis = BuildKeyTrie (map (SetIdForValue (build vstrs)) kis0)"
    unfolding k by (simp add: BuildKeyTrie_def PrepareKeyInfo_def)
  moreover from assms(2) obtain k0 where "ki = SetValueType (SetPosType frequent (PrepareKeyInfo m h
      (build (BuildKeyTrie (map (SetIdForValue (build vstrs)) kis0))) (build vstrs) k0))" unfolding k by auto
  moreover have "id_in_key_trie (SetValueType (SetPosType frequent (PrepareKeyInfo m h f g k0))) = f (EncodeKey (ki_key k0))"
    "ki_key (SetValueType (SetPosType frequent (PrepareKeyInfo m h f g k0))) = ki_key k0" for f g k0
    by (simp_all add: SetValueType_def SetPosType_def PrepareKeyInfo_def SetCostTypeOf_def SortTokenInfo_def
        SetIdForKey_def SetIdForValue_def)
  ultimately show ?thesis by simp
qed

lemma BuildKeyInfos_groups:
  assumes b: "BuildKeyInfos h2k build m tokens = Some (kis, frequent, vstrs)" and ki: "ki \<in> set kis"
  shows "ki_tokens ki \<noteq> []" "\<forall>ti \<in> set (ki_tokens ki). t_key (token ti) = ki_key ki"
    "mset (map token (ki_tokens ki)) = mset (filter (\<lambda>t. t_key t = ki_key ki) tokens)"
proof -
  from b obtain kis0 h where r: "ReadTokens h2k tokens = Some kis0"
    and k: "kis = map (\<lambda>k. SetValueType (SetPosType frequent (PrepareKeyInfo m h (build (BuildKeyTrie
             (map (SetIdForValue (build vstrs)) kis0))) (build vstrs) k))) kis0"
    by (rule BuildKeyInfos_split)
  note rp = ReadTokens_props [OF r]
  have g: "ki_tokens ki \<noteq> [] \<and> (\<forall>t \<in> set (map token (ki_tokens ki)). t_key t = ki_key ki)" if "ki \<in> set kis" for ki
  proof -
    from that obtain k0 f g where k0: "k0 \<in> set kis0"
      and ki: "ki = SetValueType (SetPosType frequent (PrepareKeyInfo m h f g k0))" unfolding k by auto
    have kk: "ki_key ki = ki_key k0" unfolding ki by (simp add: SetValueType_def SetPosType_def PrepareKeyInfo_def)
    have ms: "mset (map token (ki_tokens ki)) = mset (map token (ki_tokens k0))"
      unfolding ki map_token_final by (rule mset_PrepareKeyInfo)
    have "set (map token (ki_tokens ki)) = set (map token (ki_tokens k0))"
      "length (map token (ki_tokens ki)) = length (map token (ki_tokens k0))"
      by (rule mset_eq_setD [OF ms], rule mset_eq_length [OF ms])
    moreover have "\<forall>t \<in> set (map token (ki_tokens k0)). t_key t = ki_key k0" "ki_tokens k0 \<noteq> []"
      using rp(2) k0 by (auto simp: group_ok_def)
    ultimately show ?thesis unfolding kk by auto
  qed
  from g [OF ki] show "ki_tokens ki \<noteq> []" "\<forall>ti \<in> set (ki_tokens ki). t_key (token ti) = ki_key ki" by auto
  have other: "filter (\<lambda>t. t_key t = ki_key ki) (map token (ki_tokens k')) = (if k' = ki then map token (ki_tokens ki) else [])"
    if "k' \<in> set kis" "ki_key k' = ki_key ki \<longrightarrow> k' = ki" for k'
    using g [OF that(1)] that(2) by (auto simp: filter_empty_conv filter_id_conv)
  have dist: "distinct (map ki_key kis)" using BuildKeyInfos_tokens(2) [OF b] by (rule sorted_distinct)
  then have inj: "k' = ki" if "k' \<in> set kis" "ki_key k' = ki_key ki" for k'
    using that ki by (meson distinct_map inj_onD)
  from ki obtain xs ys where xy: "kis = xs @ ki # ys" by (auto simp: in_set_conv_decomp)
  have nxy: "ki \<notin> set xs" "ki \<notin> set ys" using dist unfolding xy by auto
  have "filter (\<lambda>t. t_key t = ki_key ki) (map token (AllTokenInfos zs)) = []" if "set zs \<subseteq> set kis" "ki \<notin> set zs" for zs
    using that
  proof (induction zs)
    case (Cons z zs)
    then show ?case using other [of z] inj [of z] by (auto simp: AllTokenInfos_def)
  qed (simp add: AllTokenInfos_def)
  moreover have "set xs \<subseteq> set kis" "set ys \<subseteq> set kis" unfolding xy by auto
  ultimately have "filter (\<lambda>t. t_key t = ki_key ki) (map token (AllTokenInfos kis)) = map token (ki_tokens ki)"
    using other [OF ki] nxy unfolding xy by (simp add: AllTokenInfos_def)
  then show "mset (map token (ki_tokens ki)) = mset (filter (\<lambda>t. t_key t = ki_key ki) tokens)"
    using BuildKeyInfos_tokens(1) [OF b] by (metis mset_filter)
qed

section \<open>Sizes\<close>

lemma EncodeTokensFrom_length: "EncodeTokensFrom ts i = Some bs \<Longrightarrow> length bs \<le> 9 * (length ts - i)"
proof (induction ts i arbitrary: bs rule: EncodeTokensFrom.induct)
  case (1 ts i)
  show ?case
  proof (cases "i < length ts")
    case True
    with "1.prems" obtain b out where e: "EncodeToken ts i = Some b" "EncodeTokensFrom ts (i + 1) = Some out" "bs = b @ out"
      by (subst (asm) EncodeTokensFrom.simps) (auto simp: bind_eq_Some_conv)
    from True have "Suc (length ts - (i + 1)) = length ts - i" by simp
    with "1.IH" [OF True e(1,2)] EncodeToken_length [OF e(1)] e(3) show ?thesis
      by (metis (no_types, lifting) add_mono length_append mult_Suc_right)
  next
    case False
    with "1.prems" show ?thesis by (simp add: EncodeTokensFrom.simps [of ts i])
  qed
qed

lemma EncodeTokens_length: "EncodeTokens ts = Some bs \<Longrightarrow> length bs \<le> 9 * length ts"
  using EncodeTokensFrom_length [of ts 0] by (auto simp: EncodeTokens_def bind_eq_Some_conv split: if_splits)

section \<open>What an opened dictionary holds\<close>

text \<open>The dictionary holds the tokens \<open>m key\<close> for the keys of \<open>m\<close>.\<close>

definition holds :: "(bytes \<Rightarrow> bytes) \<Rightarrow> system_dictionary \<Rightarrow> (bytes \<rightharpoonup> Token list) \<Rightarrow> bool" where
  "holds h2k d m \<longleftrightarrow>
     (\<exists>W D. trie_of W D (key_trie d) \<and> set W = EncodeKey ` dom m \<and>
        (\<forall>key ts. m key = Some ts \<longrightarrow> encodable_string key \<and>
          (\<exists>ptr. GetTokenArrayPtr (token_array d) (key_number W (tl (nodes W D)) (EncodeKey key)) = Some ptr \<and>
             reads_tokens (dict_env h2k d) key ptr ts)))"

definition tokens_of_keys :: "KeyInfo list \<Rightarrow> bytes \<rightharpoonup> Token list" where
  "tokens_of_keys kis = map_of (map (\<lambda>ki. (ki_key ki, map stored_token (ki_tokens ki))) kis)"

text \<open>The conditions on the tokens of a text dictionary.\<close>

definition dict_token :: "Token \<Rightarrow> bool" where
  "dict_token t \<longleftrightarrow> input_token t \<and> t_key t \<noteq> [] \<and> t_value t \<noteq> [] \<and> encodable_string (t_key t) \<and>
     length (EncodeValue (t_value t)) \<le> kMaxDepth"

definition token_weight :: "Token \<Rightarrow> nat" where
  "token_weight t = length (EncodeKey (t_key t)) + length (EncodeValue (t_value t)) + 20"

lemma EncodeKey_nonempty: "encodable_string key \<Longrightarrow> key \<noteq> [] \<Longrightarrow> EncodeKey key \<noteq> []"
  using DecodeKey_EncodeKey(1) [of key] by (auto simp: DecodeKey_def EncodeDecodeKeyImpl_def Utf8ToUtf32.simps)

lemma EncodeValue_nonempty: "unicode_string value \<Longrightarrow> value \<noteq> [] \<Longrightarrow> EncodeValue value \<noteq> []"
  using DecodeValue_EncodeValue(1) [of "value"] by (auto simp: DecodeValue.simps)

lemma sum_list_mset_mono:
  fixes f :: "'a \<Rightarrow> nat"
  assumes "mset xs \<subseteq># mset ys"
  shows "sum_list (map f xs) \<le> sum_list (map f ys)"
proof -
  from assms obtain M where "mset ys = mset xs + M" by (auto simp: mset_subset_eq_exists_conv)
  then have "sum_mset (image_mset f (mset ys)) = sum_mset (image_mset f (mset xs)) + sum_mset (image_mset f M)" by simp
  then show ?thesis by (metis le_add1 mset_map sum_mset_sum_list)
qed

lemma BuildKeyInfos_values:
  assumes b: "BuildKeyInfos h2k build m tokens = Some (kis, frequent, vstrs)"
  shows "set vstrs \<subseteq> (\<lambda>t. EncodeValue (t_value t)) ` set tokens"
    "sum_list (map length vstrs) \<le> (\<Sum>t \<leftarrow> tokens. length (EncodeValue (t_value t)))" "length vstrs \<le> length tokens"
proof -
  from b obtain kis0 h where r: "ReadTokens h2k tokens = Some kis0" and v: "vstrs = BuildValueTrie kis0"
    by (rule BuildKeyInfos_split)
  let ?P = "\<lambda>ti. \<not> (value_type ti = AS_IS_HIRAGANA \<or> value_type ti = AS_IS_KATAKANA)"
  let ?f = "\<lambda>t. EncodeValue (t_value t)"
  have m: "mset (map token (AllTokenInfos kis0)) = mset tokens" using ReadTokens_props(1) [OF r] by simp
  have vs: "vstrs = map ?f (map token (filter ?P (AllTokenInfos kis0)))" unfolding v BuildValueTrie_def by simp
  have sub: "mset (map token (filter ?P (AllTokenInfos kis0))) \<subseteq># mset tokens"
    unfolding m [symmetric] mset_map mset_filter by (intro image_mset_subseteq_mono) simp
  have "set (map token (filter ?P (AllTokenInfos kis0))) \<subseteq> set tokens" using set_mset_mono [OF sub] by simp
  then show "set vstrs \<subseteq> ?f ` set tokens" unfolding vs by auto
  show "sum_list (map length vstrs) \<le> (\<Sum>t \<leftarrow> tokens. length (?f t))"
    using sum_list_mset_mono [OF sub, of "\<lambda>t. length (?f t)"] unfolding vs by (simp add: comp_def)
  show "length vstrs \<le> length tokens" using size_mset_mono [OF sub] unfolding vs size_mset length_map .
qed

lemma BuildKeyInfos_keys:
  assumes b: "BuildKeyInfos h2k build m tokens = Some (kis, frequent, vstrs)"
  shows "set (map ki_key kis) = t_key ` set tokens"
    "(\<Sum>ki \<leftarrow> kis. f (ki_key ki)) \<le> (\<Sum>t \<leftarrow> tokens. f (t_key t) :: nat)"
    "length kis \<le> length tokens" "(\<Sum>ki \<leftarrow> kis. length (ki_tokens ki)) = length tokens"
proof -
  note g = BuildKeyInfos_groups [OF b]
  have m: "mset (map token (AllTokenInfos kis)) = mset tokens" by (rule BuildKeyInfos_tokens(1) [OF b])
  have s: "t_key ` set tokens = t_key ` token ` set (AllTokenInfos kis)"
    using arg_cong [OF m, of set_mset] by simp
  show "set (map ki_key kis) = t_key ` set tokens"
  proof -
    have "ki_key ki \<in> t_key ` token ` set (AllTokenInfos kis)" if ki: "ki \<in> set kis" for ki
    proof -
      obtain ti where "ti \<in> set (ki_tokens ki)" using g(1) [OF ki] by (meson list.set_sel(1))
      then show ?thesis using g(2) [OF ki] ki by (force simp: AllTokenInfos_def)
    qed
    moreover have "t_key (token ti) \<in> ki_key ` set kis" if "ti \<in> set (AllTokenInfos kis)" for ti
      using that g(2) by (auto simp: AllTokenInfos_def)
    ultimately show ?thesis unfolding s by auto
  qed
  have "(\<Sum>ki \<leftarrow> kis. f (ki_key ki)) \<le> (\<Sum>ki \<leftarrow> kis. \<Sum>ti \<leftarrow> ki_tokens ki. f (t_key (token ti)))"
  proof (rule sum_list_mono)
    fix ki assume ki: "ki \<in> set kis"
    obtain ti where ti: "ti \<in> set (ki_tokens ki)" using g(1) [OF ki] by (meson list.set_sel(1))
    then have "f (t_key (token ti)) \<le> (\<Sum>ti \<leftarrow> ki_tokens ki. f (t_key (token ti)))" by (intro member_le_sum_list) auto
    then show "f (ki_key ki) \<le> (\<Sum>ti \<leftarrow> ki_tokens ki. f (t_key (token ti)))" using g(2) [OF ki] ti by simp
  qed
  also have "\<dots> = (\<Sum>t \<leftarrow> map token (AllTokenInfos kis). f (t_key t))"
    unfolding AllTokenInfos_def by (induction kis) (simp_all add: comp_def)
  also have "\<dots> = (\<Sum>t \<leftarrow> tokens. f (t_key t))"
    using arg_cong [OF m, of "\<lambda>M. sum_mset (image_mset (\<lambda>t. f (t_key t)) M)"]
    by (simp only: mset_map [symmetric] sum_mset_sum_list)
  finally show "(\<Sum>ki \<leftarrow> kis. f (ki_key ki)) \<le> (\<Sum>t \<leftarrow> tokens. f (t_key t))" .
  have "(\<Sum>ki \<leftarrow> kis. length (ki_tokens ki)) = length (AllTokenInfos kis)"
    unfolding AllTokenInfos_def length_concat by (simp add: comp_def)
  also have "\<dots> = length tokens" using arg_cong [OF m, of size] by simp
  finally show t: "(\<Sum>ki \<leftarrow> kis. length (ki_tokens ki)) = length tokens" .
  have "length kis = (\<Sum>ki \<leftarrow> kis. 1)" by (simp add: sum_list_triv)
  also have "\<dots> \<le> (\<Sum>ki \<leftarrow> kis. length (ki_tokens ki))"
  proof (rule sum_list_mono)
    fix ki assume "ki \<in> set kis"
    then show "1 \<le> length (ki_tokens ki)" using g(1) [of ki] by (cases "ki_tokens ki") auto
  qed
  finally show "length kis \<le> length tokens" unfolding t .
qed

section \<open>The builder's dictionary opens\<close>

lemma sum_weights:
  "(\<Sum>t \<leftarrow> tokens. token_weight t) = (\<Sum>t \<leftarrow> tokens. length (EncodeKey (t_key t))) +
     (\<Sum>t \<leftarrow> tokens. length (EncodeValue (t_value t))) + 20 * length tokens"
  by (induction tokens) (simp_all add: token_weight_def)

lemma elements_size:
  assumes ids: "\<forall>ki \<in> set kis. 0 \<le> id_in_key_trie ki \<and> id_in_key_trie ki < int (length kis)"
    "distinct (map id_in_key_trie kis)"
    and es: "length es = length kis" "\<forall>ki \<in> set kis. EncodeTokens (ki_tokens ki) = Some (es ! nat (id_in_key_trie ki))"
  shows "sum_list (map length es) \<le> 9 * (\<Sum>ki \<leftarrow> kis. length (ki_tokens ki))"
proof -
  let ?i = "\<lambda>ki. nat (id_in_key_trie ki)"
  have d: "distinct kis" using ids(2) by (simp add: distinct_map)
  have "sum_list (map length es) = (\<Sum>i < length kis. length (es ! i))"
    by (simp add: sum_list_sum_nth atLeast0LessThan es(1))
  also have "\<dots> = (\<Sum>ki \<in> set kis. length (es ! ?i ki))"
    unfolding key_ids_onto(1) [OF ids, symmetric] by (rule sum.reindex_cong [OF key_ids_onto(2) [OF ids]]) simp_all
  also have "\<dots> \<le> (\<Sum>ki \<in> set kis. 9 * length (ki_tokens ki))"
    using es(2) EncodeTokens_length by (intro sum_mono) blast
  also have "\<dots> = 9 * (\<Sum>ki \<leftarrow> kis. length (ki_tokens ki))"
    by (simp add: sum_list_distinct_conv_sum_set [OF d] sum_distrib_left)
  finally show ?thesis .
qed

lemma TrieOpen_nonempty: "TrieOpen img lb0 lb1 s0 s1 tlb1 t0 = Some t \<Longrightarrow> img \<noteq> []"
  by (auto simp: TrieOpen_def LoadAdvance32_def LoadUnaligned32_def bind_eq_Some_conv split: if_splits)

lemma ArrayOpen_nonempty: "ArrayOpen img a0 = Some a \<Longrightarrow> img \<noteq> []"
  by (auto simp: ArrayOpen_def LoadAdvance32_def LoadUnaligned32_def bind_eq_Some_conv split: if_splits)

lemma built_dictionary:
  assumes tok: "\<forall>t \<in> set tokens. dict_token t" and small: "(\<Sum>t \<leftarrow> tokens. token_weight t) < 2 ^ 26"
  obtains kis frequent vstrs kimg vimg timg pimg d where
    "BuildKeyInfos h2k trie_ids min_key_len tokens = Some (kis, frequent, vstrs)"
    "BuildSections h2k min_key_len tokens = Some [(GetSectionNameForValue, vimg), (GetSectionNameForKey, kimg),
       (GetSectionNameForTokens, timg), (GetSectionNameForPos, pimg)]"
    "\<forall>img \<in> {kimg, vimg, timg, pimg}. img \<noteq> [] \<and> length img < 2 ^ 31 - 3"
    "\<And>get. get GetSectionNameForKey = Some kimg \<Longrightarrow> get GetSectionNameForValue = Some vimg \<Longrightarrow>
       get GetSectionNameForTokens = Some timg \<Longrightarrow> get GetSectionNameForPos = Some pimg \<Longrightarrow>
       OpenDictionaryFile get False NewSystemDictionary = Some (True, d)"
    "holds h2k d (tokens_of_keys kis)"
    "hiragana_expansion_table d = BuildHiraganaExpansionTable NewExpansionTable"
    "reverse_lookup_cache d = None" "reverse_lookup_index d = None" "trie_law trie_ids (\<lambda>vs. RestoreKeyOfId (value_trie d)) vstrs"
    "\<exists>W D. trie_of W D (value_trie d) \<and> set W = set vstrs \<and>
       (\<forall>w \<in> set vstrs. trie_ids vstrs w = int (key_number W (tl (nodes W D)) w))"
    "\<exists>by_id es. set by_id = set kis \<and> list_all2 (\<lambda>ki e. EncodeTokens (ki_tokens ki) = Some e) by_id es \<and>
       (\<forall>i < length by_id. id_in_key_trie (by_id ! i) = int i) \<and> array_of 4 1 (es @ [[kTokenTerminationFlag]]) (token_array d)"
proof -
  note sz = small [unfolded sum_weights]
  have "\<forall>t \<in> set tokens. t_key t \<noteq> [] \<and> t_value t \<noteq> []" using tok by (simp add: dict_token_def)
  moreover have "length tokens < INT_MAX" using sz by (simp add: INT_MAX_def)
  ultimately obtain kis frequent vstrs where b: "BuildKeyInfos h2k trie_ids min_key_len tokens = Some (kis, frequent, vstrs)"
    using BuildKeyInfos_total by (metis prod_cases3)
  note vals = BuildKeyInfos_values [OF b] and keys = BuildKeyInfos_keys [OF b]
  have key_ok: "encodable_string (ki_key ki) \<and> ki_key ki \<noteq> []" if "ki \<in> set kis" for ki
  proof -
    have "ki_key ki \<in> t_key ` set tokens" using keys(1) that by auto
    then show ?thesis using tok by (auto simp: dict_token_def)
  qed

  have v1: "[] \<notin> set vstrs"
    using vals(1) tok EncodeValue_nonempty by (fastforce simp: dict_token_def input_token_def)
  have v2: "sum_list (map length vstrs) < 2 ^ 30" using vals(2) sz by simp
  have "card (set vstrs) \<le> length tokens" using card_length [of vstrs] vals(3) by simp
  then have v3: "card (set vstrs) \<le> 0x3f0000" using sz by simp
  have v4: "\<forall>w \<in> set vstrs. length w \<le> kMaxDepth" using vals(1) tok by (auto simp: dict_token_def)
  obtain vb vt VW VD where vt: "BuildTrie vstrs = Some vb" "TrieOpen (tb_image vb) kValueTrieLb0CacheSize kValueTrieLb1CacheSize
      kValueTrieSelect0CacheSize kValueTrieSelect1CacheSize kValueTrieTermvecCacheSize NewTrie = Some vt"
    "length (tb_image vb) \<le> 4 * sum_list (map length vstrs) + 100" "trie_of VW VD vt" "set VW = set vstrs"
    "\<And>w. trie_ids vstrs w = (if w \<in> set vstrs then int (key_number VW (tl (nodes VW VD)) w) else -1)"
    using BuildTrie_open [OF v1 v2] by metis
  note law = value_trie_law [OF v1 v2 v3 v4 vt(1,2)]

  let ?words = "BuildKeyTrie kis"
  have k1: "[] \<notin> set ?words" using key_ok EncodeKey_nonempty by (force simp: BuildKeyTrie_def)
  have "sum_list (map length ?words) \<le> (\<Sum>t \<leftarrow> tokens. length (EncodeKey (t_key t)))"
    using keys(2) [of "\<lambda>k. length (EncodeKey k)"] by (simp add: BuildKeyTrie_def comp_def)
  then have k2': "sum_list (map length ?words) < 2 ^ 26" using sz by simp
  then have k2: "sum_list (map length ?words) < 2 ^ 30" by simp
  obtain kb kt W D where kt: "BuildTrie ?words = Some kb" "TrieOpen (tb_image kb) kKeyTrieLb0CacheSize kKeyTrieLb1CacheSize
      kKeyTrieSelect0CacheSize kKeyTrieSelect1CacheSize kKeyTrieTermvecCacheSize NewTrie = Some kt"
    "trie_of W D kt" "set W = set ?words"
    "\<And>w. trie_ids ?words w = (if w \<in> set ?words then int (key_number W (tl (nodes W D)) w) else -1)"
    "length (tb_image kb) \<le> 4 * sum_list (map length ?words) + 100"
    using BuildTrie_open [OF k1 k2] by metis
  have dk: "distinct (map ki_key kis)" using BuildKeyInfos_tokens(2) [OF b] by (rule sorted_distinct)
  have inj: "inj_on EncodeKey (ki_key ` set kis)"
    using key_ok key_codec.enc_inj_on by (auto simp: inj_on_def dest: key_codec.enc_eq_iff)
  have word: "EncodeKey (ki_key ki) \<in> set ?words" if "ki \<in> set kis" for ki
    using that by (auto simp: BuildKeyTrie_def)
  have "distinct ?words" using dk inj unfolding BuildKeyTrie_def by (simp add: distinct_map inj_on_def)
  then have card: "card (set ?words) = length kis" by (simp add: distinct_card) (simp add: BuildKeyTrie_def)
  have ids: "id_in_key_trie ki = trie_ids ?words (EncodeKey (ki_key ki))" if "ki \<in> set kis" for ki
    by (rule BuildKeyInfos_ids [OF b that])
  have range: "\<forall>ki \<in> set kis. 0 \<le> id_in_key_trie ki \<and> id_in_key_trie ki < int (length kis)"
    using trie_ids_bijection(1,2) [OF k1 k2 word] card by (simp add: ids)
  have "inj_on id_in_key_trie (set kis)"
  proof (rule inj_onI)
    fix x y assume xy: "x \<in> set kis" "y \<in> set kis" "id_in_key_trie x = id_in_key_trie y"
    then have "EncodeKey (ki_key x) = EncodeKey (ki_key y)"
      using trie_ids_bijection(3) [OF k1 k2 word [OF xy(1)] word [OF xy(2)]] by (simp add: ids)
    then have "ki_key x = ki_key y" using inj xy(1,2) by (auto simp: inj_on_def)
    then show "x = y" using dk xy(1,2) by (meson distinct_map inj_onD)
  qed
  then have idd: "distinct (map id_in_key_trie kis)" using dk by (simp add: distinct_map)

  have inp: "\<forall>t \<in> set tokens. input_token t" using tok by (simp add: dict_token_def)
  note reads = BuildKeyInfos_reads_back [OF b inp law]
  have enc: "\<forall>ki \<in> set kis. \<exists>bs. EncodeTokens (ki_tokens ki) = Some bs" using reads by blast
  obtain es by_id where es: "BuildTokenArray kis = Some (es @ [[kTokenTerminationFlag]])" "length es = length kis"
    "\<forall>ki \<in> set kis. EncodeTokens (ki_tokens ki) = Some (es ! nat (id_in_key_trie ki))"
    "set by_id = set kis" "list_all2 (\<lambda>ki e. EncodeTokens (ki_tokens ki) = Some e) by_id es"
    "\<forall>i < length by_id. id_in_key_trie (by_id ! i) = int i"
    using BuildTokenArray_elements [OF range idd enc] by blast
  let ?es = "es @ [[kTokenTerminationFlag]]"
  have "sum_list (map length es) \<le> 9 * length tokens"
    using elements_size [OF range idd es(2,3)] keys(4) by simp
  then have e26: "(\<Sum>e \<leftarrow> ?es. 4 + 1 + length e) < 2 ^ 26"
    using sz keys(3) es(2) by (simp add: sum_list_addf sum_list_triv)
  then have "4 + 1 + (\<Sum>e \<leftarrow> ?es. 4 + 1 + length e) < 2 ^ 28" by simp
  from MakeArray_array [OF _ _ this] obtain img a where a: "MakeArray 4 1 ?es = Some img" "ArrayOpen img NewArray = Some a"
    "array_of 4 1 ?es a" "length img \<le> 3 * (\<Sum>e \<leftarrow> ?es. 4 + 1 + length e) + 100" by auto

  let ?sections = "[(GetSectionNameForValue, tb_image vb), (GetSectionNameForKey, tb_image kb),
      (GetSectionNameForTokens, img), (GetSectionNameForPos, FrequentPosImage frequent)]"
  let ?d = "NewSystemDictionary\<lparr>key_trie := kt,
      hiragana_expansion_table := BuildHiraganaExpansionTable (hiragana_expansion_table NewSystemDictionary),
      value_trie := vt, token_array := a, sd_frequent_pos := FrequentPosArray frequent\<rparr>"
  have s: "BuildSections h2k min_key_len tokens = Some ?sections"
    by (simp add: BuildSections_def b vt(1) kt(1) es(1) NewArrayBuilder_def a(1))
  have new: "key_trie NewSystemDictionary = NewTrie" "value_trie NewSystemDictionary = NewTrie"
    "token_array NewSystemDictionary = NewArray" by (simp_all add: NewSystemDictionary_def)
  have o: "OpenDictionaryFile get False NewSystemDictionary = Some (True, ?d)"
    if "get GetSectionNameForKey = Some (tb_image kb)" "get GetSectionNameForValue = Some (tb_image vb)"
      "get GetSectionNameForTokens = Some img" "get GetSectionNameForPos = Some (FrequentPosImage frequent)" for get
    unfolding OpenDictionaryFile_def that new by (simp add: kt(2) vt(2) a(2) Let_def FrequentPosImage_words)
  have fl: "length frequent \<le> 255"
    using BuildFrequentPos_props(2) by (rule BuildKeyInfos_split [OF b])
  have pos: "length (FrequentPosImage frequent) = 1024"
  proof -
    have "length (concat (map (le_bytes 4) ws)) = 4 * length ws" for ws :: "32 word list" by (induction ws) simp_all
    moreover have "length (FrequentPosArray frequent) = 256" using fl by (simp add: FrequentPosArray_def)
    ultimately show ?thesis by (simp add: FrequentPosImage_def)
  qed
  have v26: "sum_list (map length vstrs) < 2 ^ 26" using vals(2) sz by simp
  have sizes: "\<forall>i \<in> {tb_image kb, tb_image vb, img, FrequentPosImage frequent}. i \<noteq> [] \<and> length i < 2 ^ 31 - 3"
    using TrieOpen_nonempty [OF kt(2)] TrieOpen_nonempty [OF vt(2)] ArrayOpen_nonempty [OF a(2)] pos
      kt(6) vt(3) a(4) k2' v26 e26 by auto
  have h: "holds h2k ?d (tokens_of_keys kis)"
    unfolding holds_def
  proof (rule exI [of _ W], rule exI [of _ D], intro conjI allI impI)
    show "trie_of W D (key_trie ?d)" using kt(3) by simp
    show "set W = EncodeKey ` dom (tokens_of_keys kis)"
      unfolding kt(4) by (auto simp: BuildKeyTrie_def tokens_of_keys_def dom_map_of_conv_image_fst image_image)
    fix key ts assume m: "tokens_of_keys kis key = Some ts"
    then obtain ki where ki: "ki \<in> set kis" "key = ki_key ki" "ts = map stored_token (ki_tokens ki)"
      unfolding tokens_of_keys_def by (auto dest!: map_of_SomeD)
    show "encodable_string key" using key_ok ki by simp
    let ?i = "nat (id_in_key_trie ki)"
    have id: "id_in_key_trie ki = int (key_number W (tl (nodes W D)) (EncodeKey key))"
      unfolding ids [OF ki(1)] kt(5) using word [OF ki(1)] ki(2) by simp
    have i: "?i < length ?es" using range ki(1) es(2) by auto
    have "ArrayPtr a ?i = Some (concat (map (padded 4 1) (drop ?i ?es)))" by (rule ArrayPtr_element [OF a(3) i]) simp
    moreover have "?i < length es" using range ki(1) es(2) by (simp add: nat_less_iff)
    then have "?es ! ?i = es ! ?i" by (simp add: nth_append)
    then have "drop ?i ?es = es ! ?i # drop (Suc ?i) ?es" using Cons_nth_drop_Suc [OF i] by simp
    ultimately have "ArrayPtr a ?i = Some (padded 4 1 (es ! ?i) @ concat (map (padded 4 1) (drop (Suc ?i) ?es)))"
      by (simp only: list.map concat.simps)
    then obtain rest where p: "ArrayPtr a ?i = Some (es ! ?i @ rest)" unfolding padded_def append_assoc by blast
    let ?env = "\<lparr>RestoreKeyString = RestoreKeyOfId vt, frequent_pos = FrequentPosArray frequent, HiraganaToKatakana = h2k\<rparr>"
    have "EncodeTokens (ki_tokens ki) = Some (es ! ?i)" using es(3) ki(1) by blast
    with reads [OF ki(1)] have "Option.bind (NewTokenDecodeIterator ?env (ki_key ki) (es ! ?i @ rest))
        (CollectTokens (Suc (length (ki_tokens ki))) ?env) = Some (map stored_token (ki_tokens ki))" by simp
    then have "reads_tokens (dict_env h2k ?d) key (es ! ?i @ rest) ts"
      unfolding reads_tokens_def dict_env_def ki(2,3) by (auto simp: NewSystemDictionary_def)
    then show "\<exists>ptr. GetTokenArrayPtr (token_array ?d) (key_number W (tl (nodes W D)) (EncodeKey key)) = Some ptr \<and>
        reads_tokens (dict_env h2k ?d) key ptr ts"
      using p id by (simp add: GetTokenArrayPtr_def)
  qed
  show thesis
  proof (rule that [OF b s sizes o h])
    show "trie_law trie_ids (\<lambda>vs. RestoreKeyOfId (value_trie ?d)) vstrs" using law by simp
    show "\<exists>W D. trie_of W D (value_trie ?d) \<and> set W = set vstrs \<and>
       (\<forall>w \<in> set vstrs. trie_ids vstrs w = int (key_number W (tl (nodes W D)) w))"
      using vt(4-6) by auto
    show "\<exists>by_id es. set by_id = set kis \<and> list_all2 (\<lambda>ki e. EncodeTokens (ki_tokens ki) = Some e) by_id es \<and>
       (\<forall>i < length by_id. id_in_key_trie (by_id ! i) = int i) \<and> array_of 4 1 (es @ [[kTokenTerminationFlag]]) (token_array ?d)"
      using es(4-6) a(3) by auto
  qed (simp_all add: NewSystemDictionary_def)
qed

lemma Mix_steps:
  assumes "(a - b - c) XOR drop_bit 13 c = a1" "(b - c - a1) XOR push_bit 8 a1 = b1" "(c - a1 - b1) XOR drop_bit 13 b1 = c1"
    "(a1 - b1 - c1) XOR drop_bit 12 c1 = a2" "(b1 - c1 - a2) XOR push_bit 16 a2 = b2" "(c1 - a2 - b2) XOR drop_bit 5 b2 = c2"
    "(a2 - b2 - c2) XOR drop_bit 3 c2 = a3" "(b2 - c2 - a3) XOR push_bit 10 a3 = b3" "(c2 - a3 - b3) XOR drop_bit 15 b3 = c3"
  shows "Mix (a, b, c) = (a3, b3, c3)"
  unfolding Mix_def prod.case Let_def assms ..

lemma fingerprint_key: "LegacyFingerprint32WithSeed [0x6b] default_seed = 2723926483"
  by (simp add: LegacyFingerprint32WithSeed_def FingerprintTail_def tail_byte_def default_seed_def,
      subst Mix_steps, simp, simp, simp, simp, simp, simp, simp, simp, simp, simp)

lemma fingerprint_value: "LegacyFingerprint32WithSeed [0x76] default_seed = 3140761869"
  by (simp add: LegacyFingerprint32WithSeed_def FingerprintTail_def tail_byte_def default_seed_def,
      subst Mix_steps, simp, simp, simp, simp, simp, simp, simp, simp, simp, simp)

lemma fingerprint_tokens: "LegacyFingerprint32WithSeed [0x74] default_seed = 2482278458"
  by (simp add: LegacyFingerprint32WithSeed_def FingerprintTail_def tail_byte_def default_seed_def,
      subst Mix_steps, simp, simp, simp, simp, simp, simp, simp, simp, simp, simp)

lemma fingerprint_pos: "LegacyFingerprint32WithSeed [0x70] default_seed = 1961384912"
  by (simp add: LegacyFingerprint32WithSeed_def FingerprintTail_def tail_byte_def default_seed_def,
      subst Mix_steps, simp, simp, simp, simp, simp, simp, simp, simp, simp, simp)

lemma GetSectionName_eq:
  assumes "GetSectionName seed a = GetSectionName seed b" "LegacyFingerprint32WithSeed a seed \<noteq> 0"
    "LegacyFingerprint32WithSeed b seed \<noteq> 0"
  shows "LegacyFingerprint32WithSeed a seed = LegacyFingerprint32WithSeed b seed"
proof -
  have "LegacyFingerprintWithSeed a seed = LegacyFingerprintWithSeed b seed"
    using arg_cong [OF assms(1) [unfolded GetSectionName_def], of "load_le :: bytes \<Rightarrow> 64 word"] by (simp add: load_le_bytes)
  then have e: "push_bit 32 (ucast (LegacyFingerprint32WithSeed a seed)) OR ucast (LegacyFingerprint32WithSeed a kFingerPrintSeed1) =
      (push_bit 32 (ucast (LegacyFingerprint32WithSeed b seed)) OR ucast (LegacyFingerprint32WithSeed b kFingerPrintSeed1) :: 64 word)"
    using assms(2,3) by (simp add: LegacyFingerprintWithSeed_def Let_def)
  show ?thesis
  proof (rule bit_word_eqI)
    fix n assume n: "n < LENGTH(32)"
    have "bit (push_bit 32 (ucast x) OR ucast y :: 64 word) (32 + n) \<longleftrightarrow> bit x n" for x y :: "32 word"
      using n bit_imp_le_length [of y "32 + n"] by (auto simp: bit_simps)
    then show "bit (LegacyFingerprint32WithSeed a seed) n \<longleftrightarrow> bit (LegacyFingerprint32WithSeed b seed) n"
      using e by metis
  qed
qed

lemma section_names_differ:
  "inj_on (GetSectionName default_seed) {GetSectionNameForKey, GetSectionNameForValue, GetSectionNameForTokens, GetSectionNameForPos}"
  by (rule inj_onI, drule GetSectionName_eq)
    (auto simp: GetSectionNameForKey_def GetSectionNameForValue_def GetSectionNameForTokens_def GetSectionNameForPos_def
      fingerprint_key fingerprint_value fingerprint_tokens fingerprint_pos)

section \<open>Through the file\<close>

definition MakeDictionary :: "(bytes \<Rightarrow> bytes) \<Rightarrow> nat \<Rightarrow> Token list \<Rightarrow> system_dictionary option option" where
  "MakeDictionary h2k min_key_len tokens =
     do { sections \<leftarrow> BuildSections h2k min_key_len tokens; BuildSystemDictionary True (WriteToStream sections) False }"

lemma built_file:
  assumes "\<forall>t \<in> set tokens. dict_token t" "(\<Sum>t \<leftarrow> tokens. token_weight t) < 2 ^ 26"
  obtains kis frequent vstrs d where "BuildKeyInfos h2k trie_ids min_key_len tokens = Some (kis, frequent, vstrs)"
    "MakeDictionary h2k min_key_len tokens = Some (Some d)" "holds h2k d (tokens_of_keys kis)"
    "hiragana_expansion_table d = BuildHiraganaExpansionTable NewExpansionTable"
    "reverse_lookup_cache d = None" "reverse_lookup_index d = None" "trie_law trie_ids (\<lambda>vs. RestoreKeyOfId (value_trie d)) vstrs"
    "\<exists>W D. trie_of W D (value_trie d) \<and> set W = set vstrs \<and>
       (\<forall>w \<in> set vstrs. trie_ids vstrs w = int (key_number W (tl (nodes W D)) w))"
    "\<exists>by_id es. set by_id = set kis \<and> list_all2 (\<lambda>ki e. EncodeTokens (ki_tokens ki) = Some e) by_id es \<and>
       (\<forall>i < length by_id. id_in_key_trie (by_id ! i) = int i) \<and> array_of 4 1 (es @ [[kTokenTerminationFlag]]) (token_array d)"
proof -
  obtain kis frequent vstrs kimg vimg timg pimg d where
    b: "BuildKeyInfos h2k trie_ids min_key_len tokens = Some (kis, frequent, vstrs)"
    "BuildSections h2k min_key_len tokens = Some [(GetSectionNameForValue, vimg), (GetSectionNameForKey, kimg),
       (GetSectionNameForTokens, timg), (GetSectionNameForPos, pimg)]"
    "\<forall>img \<in> {kimg, vimg, timg, pimg}. img \<noteq> [] \<and> length img < 2 ^ 31 - 3"
    and o: "\<And>get. get GetSectionNameForKey = Some kimg \<Longrightarrow> get GetSectionNameForValue = Some vimg \<Longrightarrow>
       get GetSectionNameForTokens = Some timg \<Longrightarrow> get GetSectionNameForPos = Some pimg \<Longrightarrow>
       OpenDictionaryFile get False NewSystemDictionary = Some (True, d)"
    and h: "holds h2k d (tokens_of_keys kis)"
      "hiragana_expansion_table d = BuildHiraganaExpansionTable NewExpansionTable"
      "reverse_lookup_cache d = None" "reverse_lookup_index d = None" "trie_law trie_ids (\<lambda>vs. RestoreKeyOfId (value_trie d)) vstrs"
      "\<exists>W D. trie_of W D (value_trie d) \<and> set W = set vstrs \<and>
       (\<forall>w \<in> set vstrs. trie_ids vstrs w = int (key_number W (tl (nodes W D)) w))"
      "\<exists>by_id es. set by_id = set kis \<and> list_all2 (\<lambda>ki e. EncodeTokens (ki_tokens ki) = Some e) by_id es \<and>
       (\<forall>i < length by_id. id_in_key_trie (by_id ! i) = int i) \<and> array_of 4 1 (es @ [[kTokenTerminationFlag]]) (token_array d)"
    by (rule built_dictionary [OF assms, of h2k min_key_len]) (rule that)
  let ?files = "[(GetSectionNameForValue, vimg), (GetSectionNameForKey, kimg), (GetSectionNameForTokens, timg),
    (GetSectionNameForPos, pimg)]"
  have "distinct (map fst ?files)"
    by (simp add: GetSectionNameForKey_def GetSectionNameForValue_def GetSectionNameForTokens_def GetSectionNameForPos_def)
  moreover have "\<forall>(n, c) \<in> set ?files. c \<noteq> [] \<and> length c < 2 ^ 31 - 3" using b(3) by auto
  moreover have "inj_on (GetSectionName default_seed) (fst ` set ?files)"
    by (rule inj_on_subset [OF section_names_differ]) auto
  ultimately obtain f where f: "OpenFromImage True (WriteToStream ?files) NewDictionaryFile = Some (ReadOk, f)"
    "\<forall>(n, c) \<in> set ?files. GetSection f n = Some c"
    using written_sections_read [of ?files] unfolding WriteToStream_def by blast
  have "OpenDictionaryFile (GetSection f) False NewSystemDictionary = Some (True, d)"
    by (rule o) (use f(2) in simp_all)
  then have "MakeDictionary h2k min_key_len tokens = Some (Some d)"
    by (simp add: MakeDictionary_def b(2) BuildSystemDictionary_def f(1))
  then show thesis by (rule that [OF b(1) _ h])
qed

end
