(* ===== verification/DictLookup.thy ===== *)
theory DictLookup
  imports DictBuild
begin

text \<open>
  Exact and prefix lookup on a dictionary that holds a map from keys to tokens: the calls of the callback are those of a
  loop over the map.
\<close>

section \<open>Exact lookup\<close>

lemma holdsE:
  assumes "holds h2k d m"
  obtains W D where "trie_of W D (key_trie d)" "set W = EncodeKey ` dom m"
    "\<And>key. m key \<noteq> None \<Longrightarrow> encodable_string key"
    "\<And>key. encodable_string key \<Longrightarrow> EncodeKey key \<in> set W \<longleftrightarrow> m key \<noteq> None"
    "\<And>key ts. m key = Some ts \<Longrightarrow>
      \<exists>ptr. GetTokenArrayPtr (token_array d) (key_number W (tl (nodes W D)) (EncodeKey key)) = Some ptr \<and>
         reads_tokens (dict_env h2k d) key ptr ts"
proof -
  from assms obtain W D where t: "trie_of W D (key_trie d)" "set W = EncodeKey ` dom m"
    "\<forall>key ts. m key = Some ts \<longrightarrow> encodable_string key \<and>
      (\<exists>ptr. GetTokenArrayPtr (token_array d) (key_number W (tl (nodes W D)) (EncodeKey key)) = Some ptr \<and>
         reads_tokens (dict_env h2k d) key ptr ts)" unfolding holds_def by blast
  have e: "encodable_string key" if "m key \<noteq> None" for key using t(3) that by blast
  have "EncodeKey key \<in> set W \<longleftrightarrow> m key \<noteq> None" if "encodable_string key" for key
  proof
    assume "EncodeKey key \<in> set W"
    then obtain k where k: "EncodeKey key = EncodeKey k" "m k \<noteq> None" unfolding t(2) by auto
    then show "m key \<noteq> None" using key_codec.enc_eq_iff [OF that e [OF k(2)]] by simp
  qed (auto simp: t(2))
  from that [OF t(1,2) e this] t(3) show thesis by simp
qed

lemma DictHasKey_holds:
  assumes "holds h2k d m" "encodable_string key"
  shows "DictHasKey d key = Some (m key \<noteq> None)"
proof (rule holdsE [OF assms(1)])
  fix W D assume t: "trie_of W D (key_trie d)" and e: "\<And>key. encodable_string key \<Longrightarrow> EncodeKey key \<in> set W \<longleftrightarrow> m key \<noteq> None"
  show ?thesis using search_keys(1) [OF t] e [OF assms(2)] by (simp add: DictHasKey_def)
qed

text \<open>What the callback of an exact lookup is run with, given the tokens of the key.\<close>

definition VisitKey :: "bytes \<Rightarrow> 's callback \<Rightarrow> Token list \<Rightarrow> 's \<Rightarrow> 's" where
  "VisitKey key cb ts s =
     (case OnKey cb key s of (r, s) \<Rightarrow>
        if r \<noteq> TRAVERSE_CONTINUE then s
        else (case OnActualKey cb key key 0 s of (r, s) \<Rightarrow>
          if r \<noteq> TRAVERSE_CONTINUE then s
          else snd (VisitTokens (\<lambda>t s. case OnToken cb key key t s of
                 (r, s) \<Rightarrow> (if r \<noteq> TRAVERSE_CONTINUE then Some () else None, s)) ts s)))"

lemma LookupExact_holds:
  assumes "holds h2k d m" "encodable_string key"
  shows "LookupExact h2k d key cb s = Some (case m key of None \<Rightarrow> s | Some ts \<Rightarrow> VisitKey key cb ts s)"
proof -
  from assms(1) obtain W D where t: "trie_of W D (key_trie d)"
    "EncodeKey key \<in> set W \<longleftrightarrow> m key \<noteq> None"
    "\<And>ts. m key = Some ts \<Longrightarrow>
      \<exists>ptr. GetTokenArrayPtr (token_array d) (key_number W (tl (nodes W D)) (EncodeKey key)) = Some ptr \<and>
         reads_tokens (dict_env h2k d) key ptr ts"
    by (rule holdsE) (use assms(2) in simp)
  note search = search_keys(2) [OF t(1), of "EncodeKey key"]
  show ?thesis
  proof (cases "m key")
    case None
    then show ?thesis using search t(2) by (simp add: LookupExact_def)
  next
    case (Some ts)
    with t(3) obtain ptr where p: "GetTokenArrayPtr (token_array d) (key_number W (tl (nodes W D)) (EncodeKey key)) = Some ptr"
      "reads_tokens (dict_env h2k d) key ptr ts" by blast
    let ?f = "\<lambda>t s. case OnToken cb key key t s of (r, s) \<Rightarrow> (if r \<noteq> TRAVERSE_CONTINUE then Some () else None, s)"
    have f: "ForEachToken (dict_env h2k d) key ptr (\<lambda>ti s. case OnToken cb key key (token ti) s of
        (r, s) \<Rightarrow> (if r \<noteq> TRAVERSE_CONTINUE then Some () else None, s)) s' = Some (VisitTokens ?f ts s')" for s'
      using ForEachToken_tokens [OF p(2), of ?f] .
    show ?thesis
      using search t(2) Some p(1) by (simp add: LookupExact_def VisitKey_def f split: prod.split)
  qed
qed

section \<open>Prefix lookup\<close>

text \<open>The prefixes of a key that the dictionary has, shortest first, and the calls for them.\<close>

definition PrefixKeys :: "(bytes \<rightharpoonup> Token list) \<Rightarrow> bytes \<Rightarrow> bytes list" where
  "PrefixKeys m key = filter (\<lambda>k. m k \<noteq> None) (map (\<lambda>n. take n key) [1 ..< Suc (length key)])"

fun VisitPrefixes :: "(bytes \<rightharpoonup> Token list) \<Rightarrow> 's callback \<Rightarrow> bytes list \<Rightarrow> 's \<Rightarrow> 's" where
  "VisitPrefixes m cb [] s = s"
| "VisitPrefixes m cb (k # ks) s =
     (case OnKey cb k s of (r, s) \<Rightarrow>
        if r = TRAVERSE_DONE \<or> r = TRAVERSE_CULL then s
        else if r = TRAVERSE_NEXT_KEY then VisitPrefixes m cb ks s
        else (case OnActualKey cb k k 0 s of (r, s) \<Rightarrow>
          if r = TRAVERSE_DONE \<or> r = TRAVERSE_CULL then s
          else if r = TRAVERSE_NEXT_KEY then VisitPrefixes m cb ks s
          else (case VisitTokens (\<lambda>t s. case OnToken cb k k t s of (r, s) \<Rightarrow>
                       (if r = TRAVERSE_DONE \<or> r = TRAVERSE_CULL then Some True
                        else if r = TRAVERSE_NEXT_KEY then Some False else None, s)) (the (m k)) s of
                  (r, s) \<Rightarrow> if r = Some True then s else VisitPrefixes m cb ks s)))"

lemma Utf32ToUtf8_prefix:
  "list_all encodable cs \<Longrightarrow> list_all encodable ds \<Longrightarrow> Utf32ToUtf8 cs @ r = Utf32ToUtf8 ds \<Longrightarrow>
     \<exists>es. ds = cs @ es \<and> r = Utf32ToUtf8 es"
proof (induction cs arbitrary: ds)
  case (Cons c cs)
  have c: "encodable c" using Cons.prems(1) by simp
  from Cons.prems(3) obtain e es where ds: "ds = e # es"
    using CodepointToUtf8_nonempty [OF c] by (cases ds) auto
  then have e: "encodable e" using Cons.prems(2) by simp
  have eq: "CodepointToUtf8 c @ (Utf32ToUtf8 cs @ r) = CodepointToUtf8 e @ Utf32ToUtf8 es"
    using Cons.prems(3) ds by simp
  have "(True, c, Utf32ToUtf8 cs @ r) = (True, e, Utf32ToUtf8 es)"
    using SplitFirstChar32_encoded [OF c, of "Utf32ToUtf8 cs @ r"] SplitFirstChar32_encoded [OF e, of "Utf32ToUtf8 es"]
    unfolding eq by simp
  then have "c = e" "Utf32ToUtf8 cs @ r = Utf32ToUtf8 es" by simp_all
  with Cons.IH [of es] Cons.prems(1,2) ds show ?case by auto
qed simp

lemma Utf32ToUtf8_append: "Utf32ToUtf8 (cs @ ds) = Utf32ToUtf8 cs @ Utf32ToUtf8 ds"
  by (induction cs) simp_all

text \<open>Prefixes of encoded keys are encoded prefixes.\<close>

lemma EncodeKey_chars:
  assumes "encodable_string key"
  shows "\<exists>cs. list_all encodable cs \<and> key = Utf32ToUtf8 cs \<and> EncodeKey key = Utf32ToUtf8 (map SwapCode cs)"
proof (intro exI conjI)
  show "list_all encodable (Utf8ToUtf32 key)" using assms by (simp add: encodable_string_def)
  show k: "key = Utf32ToUtf8 (Utf8ToUtf32 key)" using encodable_string_canonical [OF assms] by simp
  show "EncodeKey key = Utf32ToUtf8 (map SwapCode (Utf8ToUtf32 key))"
    using key_codec(1) [OF \<open>list_all encodable (Utf8ToUtf32 key)\<close>] k by (simp add: EncodeKey_def)
qed

lemma encodable_chars: "list_all encodable cs \<Longrightarrow> encodable_string (Utf32ToUtf8 cs)"
  by (simp add: encodable_string_def)

lemma encodable_map: "list_all encodable cs \<Longrightarrow> list_all encodable (map SwapCode cs)"
  using SwapCode_encodable by (auto simp: list_all_iff)

lemma EncodeKey_prefix:
  assumes k: "encodable_string k" and key: "encodable_string key"
  shows "EncodeKey key = EncodeKey k @ r \<longleftrightarrow> (\<exists>r'. key = k @ r' \<and> encodable_string r' \<and> r = EncodeKey r')"
proof -
  obtain cs where cs: "list_all encodable cs" "k = Utf32ToUtf8 cs" "EncodeKey k = Utf32ToUtf8 (map SwapCode cs)"
    using EncodeKey_chars [OF k] by blast
  obtain ds where ds: "list_all encodable ds" "key = Utf32ToUtf8 ds" "EncodeKey key = Utf32ToUtf8 (map SwapCode ds)"
    using EncodeKey_chars [OF key] by blast
  have enc: "EncodeKey (Utf32ToUtf8 es) = Utf32ToUtf8 (map SwapCode es)" if "list_all encodable es" for es
    using key_codec(1) [OF that] by (simp add: EncodeKey_def)
  show ?thesis
  proof
    assume "EncodeKey key = EncodeKey k @ r"
    then have "Utf32ToUtf8 (map SwapCode cs) @ r = Utf32ToUtf8 (map SwapCode ds)" using cs(3) ds(3) by simp
    from Utf32ToUtf8_prefix [OF encodable_map [OF cs(1)] encodable_map [OF ds(1)] this] obtain es' where
      es': "map SwapCode ds = map SwapCode cs @ es'" "r = Utf32ToUtf8 es'" by blast
    then obtain cs' es where "ds = cs' @ es" "map SwapCode cs' = map SwapCode cs" "es' = map SwapCode es"
      by (auto simp: map_eq_append_conv)
    moreover from this have "cs' = cs" using inj_map_eq_map [of SwapCode] inj_on_inverseI [of UNIV SwapCode SwapCode] by simp
    ultimately have r: "key = k @ Utf32ToUtf8 es" "list_all encodable es" "r = Utf32ToUtf8 (map SwapCode es)"
      using ds(1,2) cs(2) es'(2) by (simp_all add: Utf32ToUtf8_append)
    show "\<exists>r'. key = k @ r' \<and> encodable_string r' \<and> r = EncodeKey r'"
      using r(1,3) enc [OF r(2)] encodable_chars [OF r(2)] by (intro exI [of _ "Utf32ToUtf8 es"]) simp
  next
    assume "\<exists>r'. key = k @ r' \<and> encodable_string r' \<and> r = EncodeKey r'"
    then obtain r' where r': "key = k @ r'" "encodable_string r'" "r = EncodeKey r'" by blast
    obtain es where es: "list_all encodable es" "r' = Utf32ToUtf8 es" "EncodeKey r' = Utf32ToUtf8 (map SwapCode es)"
      using EncodeKey_chars [OF r'(2)] by blast
    have "key = Utf32ToUtf8 (cs @ es)" using r'(1) cs(2) es(2) by (simp add: Utf32ToUtf8_append)
    then show "EncodeKey key = EncodeKey k @ r"
      using enc [of "cs @ es"] cs es r'(3) by (simp add: Utf32ToUtf8_append)
  qed
qed

lemma encodable_rest:
  assumes "encodable_string k" "encodable_string (k @ r)"
  shows "encodable_string r"
proof -
  obtain cs where cs: "list_all encodable cs" "k = Utf32ToUtf8 cs" using EncodeKey_chars [OF assms(1)] by blast
  obtain ds where ds: "list_all encodable ds" "k @ r = Utf32ToUtf8 ds" using EncodeKey_chars [OF assms(2)] by blast
  from Utf32ToUtf8_prefix [OF cs(1) ds(1)] cs(2) ds(2) obtain es where "ds = cs @ es" "r = Utf32ToUtf8 es" by auto
  then show ?thesis using ds(1) encodable_chars by simp
qed

lemma EncodeKey_encoded:
  assumes "encodable_string k"
  shows "encodable_string (EncodeKey k)" "EncodeKey (EncodeKey k) = k"
    "GetEncodedDecodedKeyLengthImpl (EncodeKey k) = int (length k)"
proof -
  obtain cs where cs: "list_all encodable cs" "EncodeKey k = Utf32ToUtf8 (map SwapCode cs)"
    using EncodeKey_chars [OF assms] by blast
  show e: "encodable_string (EncodeKey k)" unfolding cs(2) by (rule encodable_chars [OF encodable_map [OF cs(1)]])
  show "EncodeKey (EncodeKey k) = k" using DecodeKey_EncodeKey(1) [OF assms] by (simp add: DecodeKey_def EncodeKey_def)
  then show "GetEncodedDecodedKeyLengthImpl (EncodeKey k) = int (length k)" using DecodeKey_EncodeKey(2) [OF e] by simp
qed

lemma strict_lists_equal:
  fixes f :: "'a \<Rightarrow> nat"
  shows "sorted_wrt (\<lambda>a b. f a < f b) xs \<Longrightarrow> sorted_wrt (\<lambda>a b. f a < f b) ys \<Longrightarrow> set xs = set ys \<Longrightarrow> xs = ys"
proof (induction xs arbitrary: ys)
  case (Cons x xs)
  from Cons.prems(3) obtain y ys' where ys: "ys = y # ys'" by (cases ys) auto
  have "x = y"
  proof (rule ccontr)
    assume "x \<noteq> y"
    then have "x \<in> set ys'" "y \<in> set xs" using Cons.prems(3) ys by (auto simp: set_eq_iff)
    then have "f y < f x" "f x < f y" using Cons.prems(1,2) ys by auto
    then show False by simp
  qed
  moreover have "x \<notin> set xs" "y \<notin> set ys'" using Cons.prems(1,2) ys by auto
  then have "set xs = set ys'" using Cons.prems(3) ys \<open>x = y\<close> by (auto simp: set_eq_iff)
  ultimately show ?case using Cons.IH [of ys'] Cons.prems(1,2) ys by simp
qed simp

lemma PrefixKeys_encoded:
  assumes W: "[] \<notin> set W" and key: "encodable_string key"
    and e: "\<And>k. m k \<noteq> None \<Longrightarrow> encodable_string k" and dom: "set W = EncodeKey ` dom m"
  shows "map (\<lambda>n. DecodeKey (take n (EncodeKey key)))
      (filter (\<lambda>n. take n (EncodeKey key) \<in> set W) [1 ..< Suc (length (EncodeKey key))]) = PrefixKeys m key"
    (is "map ?f ?ns = _")
proof (rule strict_lists_equal)
  let ?ek = "EncodeKey key"
  have at: "\<exists>k. m k \<noteq> None \<and> take n ?ek = EncodeKey k \<and> ?f n = k \<and> encodable_string k" if "take n ?ek \<in> set W" for n
  proof -
    from that obtain k where "m k \<noteq> None" "take n ?ek = EncodeKey k" unfolding dom by auto
    then show ?thesis using DecodeKey_EncodeKey(1) [OF e] e by auto
  qed
  have less: "length (?f n) < length (?f n')"
    if n: "take n ?ek \<in> set W" "take n' ?ek \<in> set W" "n < n'" "n' \<le> length ?ek" for n n'
  proof -
    obtain k where k: "take n ?ek = EncodeKey k" "?f n = k" "encodable_string k" using at [OF n(1)] by blast
    obtain k' where k': "take n' ?ek = EncodeKey k'" "?f n' = k'" "encodable_string k'" using at [OF n(2)] by blast
    have "take n' ?ek = take n ?ek @ drop n (take n' ?ek)"
      using n(3) by (metis append_take_drop_id min.absorb1 take_take less_imp_le)
    then have "EncodeKey k' = EncodeKey k @ drop n (take n' ?ek)" unfolding k(1) k'(1) by simp
    then obtain r' where r': "k' = k @ r'" "drop n (take n' ?ek) = EncodeKey r'"
      using EncodeKey_prefix [OF k(3) k'(3)] by blast
    have "drop n (take n' ?ek) \<noteq> []" using n(3,4) by simp
    then have "r' \<noteq> []" unfolding r'(2) by (auto simp: EncodeKey_def EncodeDecodeKeyImpl_def Utf8ToUtf32.simps)
    then show ?thesis unfolding k(2) k'(2) r'(1) by simp
  qed
  have "sorted_wrt (<) ?ns" by (intro sorted_wrt_filter) (simp del: upt_Suc)
  then have "sorted_wrt (\<lambda>n n'. length (?f n) < length (?f n')) ?ns"
    by (rule sorted_wrt_mono_rel [rotated]) (use less in \<open>auto simp del: upt_Suc\<close>)
  then show "sorted_wrt (\<lambda>a b. length a < length b) (map ?f ?ns)" by (simp add: sorted_wrt_map)
  have "sorted_wrt (\<lambda>n n'. n < n') [1 ..< Suc (length key)]" by (simp del: upt_Suc)
  then have "sorted_wrt (\<lambda>n n'. length (take n key) < length (take n' key)) [1 ..< Suc (length key)]"
    by (rule sorted_wrt_mono_rel [rotated]) auto
  then show "sorted_wrt (\<lambda>a b. length a < length b) (PrefixKeys m key)"
    unfolding PrefixKeys_def by (intro sorted_wrt_filter) (simp add: sorted_wrt_map del: upt_Suc)
  have nW: "m [] = None" using W e [of "[]"] unfolding dom by (force simp: EncodeKey_def EncodeDecodeKeyImpl_def Utf8ToUtf32.simps)
  have "k \<in> set (map ?f ?ns) \<longleftrightarrow> m k \<noteq> None \<and> (\<exists>r. key = k @ r)" for k
  proof
    assume "k \<in> set (map ?f ?ns)"
    then obtain n where n: "take n ?ek \<in> set W" "?f n = k" by auto
    from at [OF n(1)] n(2) have k: "m k \<noteq> None" "take n ?ek = EncodeKey k" "encodable_string k" by auto
    have "?ek = EncodeKey k @ drop n ?ek" using k(2) by (metis append_take_drop_id)
    then show "m k \<noteq> None \<and> (\<exists>r. key = k @ r)" using EncodeKey_prefix [OF k(3) key] k(1) by blast
  next
    assume "m k \<noteq> None \<and> (\<exists>r. key = k @ r)"
    then obtain r where k: "m k \<noteq> None" "key = k @ r" by blast
    have ek: "encodable_string k" using e k(1) by blast
    have "encodable_string r" using encodable_rest [OF ek] key k(2) by simp
    then have "?ek = EncodeKey k @ EncodeKey r" using EncodeKey_prefix [OF ek key] k(2) by blast
    moreover have "EncodeKey k \<in> set W" unfolding dom using k(1) by blast
    moreover have "EncodeKey k \<noteq> []" using calculation(2) W by auto
    ultimately have n: "take (length (EncodeKey k)) ?ek = EncodeKey k" "EncodeKey k \<in> set W" "0 < length (EncodeKey k)"
      "length (EncodeKey k) \<le> length ?ek" by simp_all
    then have "length (EncodeKey k) \<in> set ?ns" by (simp add: Suc_le_eq del: upt_Suc)
    moreover have "?f (length (EncodeKey k)) = k" unfolding n(1) by (rule DecodeKey_EncodeKey(1) [OF ek])
    ultimately show "k \<in> set (map ?f ?ns)" by (metis (no_types, lifting) image_eqI set_map)
  qed
  moreover have "k \<in> set (PrefixKeys m key) \<longleftrightarrow> m k \<noteq> None \<and> (\<exists>r. key = k @ r)" for k
  proof
    assume "k \<in> set (PrefixKeys m key)"
    then show "m k \<noteq> None \<and> (\<exists>r. key = k @ r)"
      unfolding PrefixKeys_def by (auto simp del: upt_Suc) (metis append_take_drop_id)
  next
    assume k: "m k \<noteq> None \<and> (\<exists>r. key = k @ r)"
    then have "k \<noteq> []" using nW by auto
    with k have "length k \<in> set [1 ..< Suc (length key)]" "take (length k) key = k"
      by (auto simp: Suc_le_eq simp del: upt_Suc)
    then have "k \<in> set (map (\<lambda>n. take n key) [1 ..< Suc (length key)])" by (metis image_eqI set_map)
    with k show "k \<in> set (PrefixKeys m key)" unfolding PrefixKeys_def by simp
  qed
  ultimately show "set (map ?f ?ns) = set (PrefixKeys m key)" by blast
qed

lemma RunCallbackOnEachPrefix_words:
  assumes t: "trie_of W D (key_trie d)" and dom: "set W = EncodeKey ` dom m"
    and e: "\<And>key. m key \<noteq> None \<Longrightarrow> encodable_string key" and key: "encodable_string key"
    and tok: "\<And>key ts. m key = Some ts \<Longrightarrow>
      \<exists>ptr. GetTokenArrayPtr (token_array d) (key_number W (tl (nodes W D)) (EncodeKey key)) = Some ptr \<and>
         reads_tokens (dict_env h2k d) key ptr ts"
  defines "ek \<equiv> EncodeKey key"
  shows "is_node W D node k \<Longrightarrow> nodes W D ! k = take i ek \<Longrightarrow> i + length rest = length ek \<Longrightarrow> rest = drop i ek \<Longrightarrow>
    RunCallbackOnEachPrefix h2k d key ek cb (\<lambda>ti. True) rest i node s =
      Some (VisitPrefixes m cb (map (\<lambda>n. DecodeKey (take n ek)) (filter (\<lambda>n. take n ek \<in> set W) [Suc i ..< Suc (length ek)])) s)"
proof (induction rest arbitrary: node k i s)
  case (Cons c rest)
  have i: "i < length ek" using Cons.prems(3) by simp
  have ic: "take i ek @ [c] = take (Suc i) ek"
    using Cons.prems(4) i by (metis hd_drop_conv_nth list.sel(1) take_Suc_conv_app_nth)
  have ru: "[Suc i ..< Suc (length ek)] = Suc i # [Suc (Suc i) ..< Suc (length ek)]"
    using i by (simp add: upt_conv_Cons del: upt_Suc)
  from MoveToChildByLabel_node [OF t Cons.prems(1), of c] obtain found node' where
    m: "MoveToChildByLabel (key_trie d) c node = Some (found, node')"
    "found \<longleftrightarrow> take (Suc i) ek \<in> set (nodes W D)"
    "found \<Longrightarrow> \<exists>k'. is_node W D node' k' \<and> nodes W D ! k' = take (Suc i) ek"
    unfolding Cons.prems(2) ic by blast
  show ?case
  proof (cases found)
    case False
    have "take n ek \<notin> set W" if "Suc i \<le> n" for n
    proof
      assume "take n ek \<in> set W"
      then have "take n ek \<in> set (nodes W D)" by (rule word_node [OF t])
      moreover have "take n ek = take (Suc i) ek @ drop (Suc i) (take n ek)"
        using that by (metis append_take_drop_id min.absorb1 take_take)
      ultimately show False using nodes_prefix [OF t, of "take (Suc i) ek"] False m(2) by metis
    qed
    then have "filter (\<lambda>n. take n ek \<in> set W) [Suc i ..< Suc (length ek)] = []"
      by (auto simp: filter_empty_conv simp del: upt_Suc)
    with m(1) False show ?thesis by simp
  next
    case True
    with m(3) obtain k' where k': "is_node W D node' k'" "nodes W D ! k' = take (Suc i) ek" by blast
    have "Suc i + length rest = length ek" "rest = drop (Suc i) ek"
      using Cons.prems(3) arg_cong [OF Cons.prems(4), of tl] by (simp_all add: drop_Suc tl_drop)
    note IH = Cons.IH [OF k' this]
    note tm = node_terminal [OF t k'(1), unfolded k'(2)]
    show ?thesis
    proof (cases "take (Suc i) ek \<in> set W")
      case False
      then show ?thesis unfolding ru using m(1) True tm IH by (simp del: upt_Suc)
    next
      case w: True
      then obtain w ts where w': "take (Suc i) ek = EncodeKey w" "m w = Some ts" unfolding dom by auto
      have ew: "encodable_string w" using e w'(2) by simp
      have "ek = EncodeKey w @ drop (Suc i) ek" using w'(1) by (metis append_take_drop_id)
      then obtain r where "key = w @ r" using EncodeKey_prefix [OF ew key] unfolding ek_def by blast
      then have pre: "take (nat (GetEncodedDecodedKeyLengthImpl (take (Suc i) ek))) key = w"
        unfolding w'(1) EncodeKey_encoded(3) [OF ew] by simp
      have dw: "DecodeKey (take (Suc i) ek) = w" unfolding w'(1) by (rule DecodeKey_EncodeKey(1) [OF ew])
      from tok [OF w'(2)] obtain ptr where
        p: "GetTokenArrayPtr (token_array d) (key_number W (tl (nodes W D)) (take (Suc i) ek)) = Some ptr"
        "reads_tokens (dict_env h2k d) w ptr ts" unfolding w'(1) by blast
      let ?f = "\<lambda>t s. case OnToken cb w w t s of (r, s) \<Rightarrow>
                       (if r = TRAVERSE_DONE \<or> r = TRAVERSE_CULL then Some True
                        else if r = TRAVERSE_NEXT_KEY then Some False else None, s)"
      have f: "ForEachToken (dict_env h2k d) w ptr (PrefixTokenBody (\<lambda>ti. True) cb w w) s' = Some (VisitTokens ?f ts s')" for s'
        using ForEachToken_tokens [OF p(2), of ?f] by (simp add: PrefixTokenBody_def [abs_def])
      show ?thesis
        unfolding ru using m(1) True tm w IH p(1) w'(2)
        by (simp add: pre dw f del: upt_Suc split: prod.split)
    qed
  qed
qed simp

lemma LookupPrefix_holds:
  assumes "holds h2k d m" "encodable_string key" "\<not> IsKanaModifierInsensitiveConversion cb" "0 \<notin> set key"
  shows "LookupPrefix h2k d key cb s = Some (VisitPrefixes m cb (PrefixKeys m key) s)"
proof (rule holdsE [OF assms(1)])
  fix W D
  assume t: "trie_of W D (key_trie d)" and dom: "set W = EncodeKey ` dom m"
    and e: "\<And>key. m key \<noteq> None \<Longrightarrow> encodable_string key"
    and tok: "\<And>key ts. m key = Some ts \<Longrightarrow>
      \<exists>ptr. GetTokenArrayPtr (token_array d) (key_number W (tl (nodes W D)) (EncodeKey key)) = Some ptr \<and>
         reads_tokens (dict_env h2k d) key ptr ts"
  have "[] \<notin> set W" using t by (simp add: trie_of_def)
  note keys = PrefixKeys_encoded [OF this assms(2) e dom]
  have "RunCallbackOnEachPrefix h2k d key (EncodeKey key) cb (\<lambda>ti. True) (EncodeKey key) 0 RootNode s =
      Some (VisitPrefixes m cb (map (\<lambda>n. DecodeKey (take n (EncodeKey key)))
        (filter (\<lambda>n. take n (EncodeKey key) \<in> set W) [Suc 0 ..< Suc (length (EncodeKey key))])) s)"
    by (rule RunCallbackOnEachPrefix_words [OF t dom e assms(2) tok root_node [OF t]]) (simp_all add: nodes_0 [OF t])
  then have r: "RunCallbackOnEachPrefix h2k d key (EncodeKey key) cb (\<lambda>ti. True) (EncodeKey key) 0 RootNode s =
      Some (VisitPrefixes m cb (PrefixKeys m key) s)" using keys by simp
  have data: "takeWhile (\<lambda>b. b \<noteq> 0) key = key" using assms(4) by (auto simp: takeWhile_eq_all_conv)
  show ?thesis unfolding LookupPrefix_def Let_def data r using assms(3) by simp
qed

end
