(* ===== verification/DictPredict.thy ===== *)
theory DictPredict
  imports DictLookup
begin

text \<open>
  Predictive lookup: the nodes that the breadth-first search collects are the words of the key trie that match the
  expanded key, by length and then in byte order, cut after the length on which the limit is exceeded. The expansion
  table of the Hiragana variants.
\<close>

section \<open>The nodes in breadth-first order\<close>

text \<open>The number of the first child of the node \<open>k\<close>.\<close>

definition first_child :: "bytes list \<Rightarrow> nat \<Rightarrow> nat \<Rightarrow> nat" where
  "first_child W D k = Suc (sum_list (take k (degrees W D)))"

lemma first_child_Suc:
  "k < length (nodes W D) \<Longrightarrow> first_child W D (Suc k) = first_child W D k + length (children W (nodes W D ! k))"
  by (simp add: first_child_def degrees_def take_Suc_conv_app_nth)

lemma first_child_mono: "i \<le> k \<Longrightarrow> first_child W D i \<le> first_child W D k"
proof -
  assume "i \<le> k"
  then have "take k (degrees W D) = take i (degrees W D) @ drop i (take k (degrees W D))"
    by (metis append_take_drop_id min.absorb1 take_take)
  then show ?thesis unfolding first_child_def by (metis Suc_le_mono le_add1 sum_list_append)
qed

lemma first_child_end:
  assumes t: "trie_of W D t"
  shows "first_child W D (length (nodes W D)) = length (nodes W D)"
  using sum_degrees [OF t] by (simp add: first_child_def degrees_def)

lemma child_at:
  assumes t: "trie_of W D t" and i: "i < length (nodes W D)" and j: "j < length (children W (nodes W D ! i))"
  shows "is_node W D (tree_node (tree_degrees W D) (Suc i) j) (first_child W D i + j)"
    "nodes W D ! (first_child W D i + j) = children W (nodes W D ! i) ! j"
    "first_child W D i + j < length (nodes W D)"
proof -
  have id: "node_id (tree_node (tree_degrees W D) (Suc i) j) - 1 = first_child W D i + j"
    by (simp add: tree_node_def first_child_def)
  show "is_node W D (tree_node (tree_degrees W D) (Suc i) j) (first_child W D i + j)"
    "nodes W D ! (first_child W D i + j) = children W (nodes W D ! i) ! j"
    using child_node [OF t i j] unfolding id by simp_all
  then show "first_child W D i + j < length (nodes W D)" by (simp add: is_node_def)
qed

text \<open>A child is its parent and one more character.\<close>

lemma child_snoc:
  assumes t: "trie_of W D t" and i: "i < length (nodes W D)"
    and m: "first_child W D i \<le> m" "m < first_child W D (Suc i)"
  shows "m < length (nodes W D)" "\<exists>c. nodes W D ! m = nodes W D ! i @ [c]"
proof -
  define j where "j = m - first_child W D i"
  have j: "m = first_child W D i + j" "j < length (children W (nodes W D ! i))"
    using m first_child_Suc [OF i] by (simp_all add: j_def)
  from child_at(2,3) [OF t i j(2)] show "m < length (nodes W D)" unfolding j(1) by simp
  have "children W (nodes W D ! i) ! j \<in> set (children W (nodes W D ! i))" using j(2) by simp
  then show "\<exists>c. nodes W D ! m = nodes W D ! i @ [c]"
    unfolding j(1) child_at(2) [OF t i j(2)] set_children by blast
qed

lemma parent_index:
  assumes t: "trie_of W D t" and m: "0 < m" "m < length (nodes W D)"
  shows "\<exists>i < length (nodes W D). first_child W D i \<le> m \<and> m < first_child W D (Suc i)"
proof -
  have "m < first_child W D (length (nodes W D))" unfolding first_child_end [OF t] by (rule m(2))
  then have ex: "\<exists>i. m < first_child W D i" by blast
  define n where "n = (LEAST i. m < first_child W D i)"
  have n: "m < first_child W D n" unfolding n_def by (rule LeastI_ex [OF ex])
  have "n \<le> length (nodes W D)" unfolding n_def by (rule Least_le) (simp add: first_child_end [OF t] m(2))
  moreover have "n \<noteq> 0"
  proof
    assume "n = 0"
    with n m(1) show False by (simp add: first_child_def)
  qed
  ultimately obtain i where i: "n = Suc i" "i < length (nodes W D)" by (cases n) auto
  have "\<not> m < first_child W D i" using not_less_Least [of i "\<lambda>i. m < first_child W D i"] i(1) by (simp add: n_def)
  with n i show ?thesis by auto
qed

lemma sorted_nodes: "sorted (map length (nodes W D))"
proof (induction D)
  case (Suc D)
  have "map length (level W D) = map (\<lambda>q. D) (level W D)"
    by (rule map_cong) (simp_all add: set_level del: level.simps)
  then have "map length (level W D) = replicate (length (level W D)) D" by (simp add: map_replicate_const)
  with Suc show ?case by (auto simp: nodes_Suc sorted_append set_nodes simp del: level.simps)
qed (simp add: nodes_def)

lemma later_longer:
  "i \<le> k \<Longrightarrow> k < length (nodes W D) \<Longrightarrow> length (nodes W D ! i) \<le> length (nodes W D ! k)"
  using sorted_nth_mono [OF sorted_nodes, of i k W D] by simp

lemma grandchildren_longer:
  assumes t: "trie_of W D t" and k: "k < length (nodes W D)" and m: "first_child W D k \<le> m" "m < length (nodes W D)"
  shows "length (nodes W D ! k) < length (nodes W D ! m)"
proof -
  have "0 < m" using m(1) by (simp add: first_child_def)
  from parent_index [OF t this m(2)] obtain i where i: "i < length (nodes W D)" "first_child W D i \<le> m" "m < first_child W D (Suc i)"
    by blast
  have "k \<le> i"
  proof (rule ccontr)
    assume "\<not> k \<le> i"
    then have "first_child W D (Suc i) \<le> first_child W D k" by (intro first_child_mono) simp
    with i(3) m(1) show False by simp
  qed
  then have "length (nodes W D ! k) \<le> length (nodes W D ! i)" by (rule later_longer [OF _ i(1)])
  with child_snoc(2) [OF t i] show ?thesis by auto
qed

lemma first_child_later:
  assumes t: "trie_of W D t" and k: "k < length (nodes W D)"
  shows "k < first_child W D k"
  using grandchildren_longer [OF t k _ k] by (cases "first_child W D k \<le> k") auto

lemma Siblings_children:
  assumes t: "trie_of W D t" and i: "i < length (nodes W D)"
  shows "j \<le> length (children W (nodes W D ! i)) \<Longrightarrow>
    \<exists>ns. Siblings t (tree_node (tree_degrees W D) (Suc i) j) = Some ns \<and>
      list_all2 (is_node W D) ns [first_child W D i + j ..< first_child W D (Suc i)]"
proof (induction "length (children W (nodes W D ! i)) - j" arbitrary: j)
  case 0
  let ?ds = "tree_degrees W D"
  obtain pad where l: "louds_for (lt_louds t) (louds_bits ?ds @ pad)" using t by (auto simp: trie_of_def)
  have "Suc i < length ?ds" "?ds ! Suc i = length (children W (nodes W D ! i))" using i by (simp_all add: degrees_def)
  with 0 IsValidNode_tree [OF l, of "Suc i" j] first_child_Suc [OF i] show ?case by (simp add: Siblings.simps)
next
  case (Suc n)
  let ?ds = "tree_degrees W D"
  have j: "j < length (children W (nodes W D ! i))" using Suc.hyps(2) by simp
  obtain pad where l: "louds_for (lt_louds t) (louds_bits ?ds @ pad)" using t by (auto simp: trie_of_def)
  have d: "Suc i < length ?ds" "?ds ! Suc i = length (children W (nodes W D ! i))" using i by (simp_all add: degrees_def)
  have v: "IsValidNode (lt_louds t) (tree_node ?ds (Suc i) j) = Some True" using IsValidNode_tree [OF l, of "Suc i" j] d j by simp
  have "n = length (children W (nodes W D ! i)) - Suc j" "Suc j \<le> length (children W (nodes W D ! i))" using Suc.hyps(2) j by auto
  from Suc.hyps(1) [OF this] obtain ns where ns: "Siblings t (tree_node ?ds (Suc i) (Suc j)) = Some ns"
    "list_all2 (is_node W D) ns [first_child W D i + Suc j ..< first_child W D (Suc i)]" by blast
  have "[first_child W D i + j ..< first_child W D (Suc i)] =
      (first_child W D i + j) # [first_child W D i + Suc j ..< first_child W D (Suc i)]"
    using j first_child_Suc [OF i] by (simp add: upt_conv_Cons)
  with v ns child_at(1) [OF t i j] show ?case
    by (intro exI [of _ "tree_node ?ds (Suc i) j # ns"])
      (simp add: Siblings.simps [of t "tree_node ?ds (Suc i) j"] MoveToNextSibling_tree del: One_nat_def)
qed

lemma Children_node:
  assumes t: "trie_of W D t" and n: "is_node W D node k"
  shows "\<exists>ns. Children t node = Some ns \<and> list_all2 (is_node W D) ns [first_child W D k ..< first_child W D (Suc k)]"
proof -
  have k: "k < length (nodes W D)" "node_id node = Suc k" using n by (auto simp: is_node_def)
  obtain pad where l: "louds_for (lt_louds t) (louds_bits (tree_degrees W D) @ pad)" using t by (auto simp: trie_of_def)
  have "MoveToFirstChild (lt_louds t) node = Some (tree_node (tree_degrees W D) (Suc k) 0)"
    using MoveToFirstChild_tree [OF l, of node] k by (simp add: degrees_def)
  with Siblings_children [OF t k(1), of 0] show ?thesis by (simp add: Children_def)
qed

section \<open>The breadth-first collection\<close>

text \<open>A key that the expanded key matches, and the characters that differ from the encoded key.\<close>

definition expands :: "expansion_table \<Rightarrow> bytes \<Rightarrow> bytes \<Rightarrow> bool" where
  "expands table ek q = list_all (\<lambda>(a, b). IsHit (ExpandKey table a) b) (zip ek q)"

definition num_differing :: "bytes \<Rightarrow> bytes \<Rightarrow> int" where
  "num_differing ek q = int (length (filter (\<lambda>(a, b). b \<noteq> a) (zip ek q)))"

lemma zip_snoc_short: "length q < length ek \<Longrightarrow> zip ek (q @ [c]) = zip ek q @ [(ek ! length q, c)]"
proof (induction q arbitrary: ek)
  case (Cons x q)
  then show ?case by (cases ek) auto
next
  case Nil
  then show ?case by (cases ek) auto
qed

lemma zip_snoc_long: "length ek \<le> length q \<Longrightarrow> zip ek (q @ [c]) = zip ek q"
  by (simp add: zip_append2)

lemma expands_snoc:
  "expands table ek (q @ [c]) \<longleftrightarrow>
     expands table ek q \<and> (length q < length ek \<longrightarrow> IsHit (ExpandKey table (ek ! length q)) c)"
  by (cases "length q < length ek") (auto simp: expands_def zip_snoc_short zip_snoc_long)

lemma num_differing_snoc:
  "num_differing ek (q @ [c]) = num_differing ek q + (if length q < length ek \<and> c \<noteq> ek ! length q then 1 else 0)"
  by (cases "length q < length ek") (auto simp: num_differing_def zip_snoc_short zip_snoc_long)

text \<open>The search state of the node \<open>k\<close>.\<close>

definition state_of :: "bytes list \<Rightarrow> nat \<Rightarrow> bytes \<Rightarrow> search_state \<Rightarrow> nat \<Rightarrow> bool" where
  "state_of W D ek st k \<longleftrightarrow>
     is_node W D (ss_node st) k \<and> ss_key_pos st = length (nodes W D ! k) \<and>
     ss_num_expanded st = num_differing ek (nodes W D ! k)"

lemma PushExpanded_nodes:
  assumes t: "trie_of W D t" and st: "state_of W D ek st i" and short: "length (nodes W D ! i) < length ek"
    and M: "expands table ek (nodes W D ! i)"
  shows "list_all2 (is_node W D) ns ks \<Longrightarrow> set ks \<subseteq> {first_child W D i ..< first_child W D (Suc i)} \<Longrightarrow>
    \<exists>sts. PushExpanded t (ek ! ss_key_pos st) (ExpandKey table (ek ! ss_key_pos st)) st ns = Some sts \<and>
      list_all2 (state_of W D ek) sts (filter (\<lambda>k. expands table ek (nodes W D ! k)) ks)"
proof (induction rule: list_all2_induct)
  case (Cons n ns k ks)
  have i: "i < length (nodes W D)" using st by (simp add: state_of_def is_node_def)
  from Cons.prems have k: "first_child W D i \<le> k" "k < first_child W D (Suc i)" by simp_all
  from child_snoc [OF t i k] obtain c where c: "nodes W D ! k = nodes W D ! i @ [c]" "k < length (nodes W D)" by blast
  have "0 < k" using k(1) by (simp add: first_child_def)
  then have lab: "GetEdgeLabelToParentNode t n = Some c"
    using edge_label [OF t _ _ c(2)] Cons.hyps(1) c(1) by (simp add: is_node_def)
  from Cons.IH Cons.prems obtain sts where
    "PushExpanded t (ek ! ss_key_pos st) (ExpandKey table (ek ! ss_key_pos st)) st ns = Some sts"
    "list_all2 (state_of W D ek) sts (filter (\<lambda>k. expands table ek (nodes W D ! k)) ks)" by auto
  with lab c st short M Cons.hyps(1) show ?case
    by (simp add: expands_snoc state_of_def [of W D ek _ i] state_of_def [of W D ek _ k] num_differing_snoc)
qed simp

lemma PushAll_nodes:
  assumes t: "trie_of W D t" and st: "state_of W D ek st i" and long: "length ek \<le> length (nodes W D ! i)"
    and M: "expands table ek (nodes W D ! i)"
  shows "list_all2 (is_node W D) ns ks \<Longrightarrow> set ks \<subseteq> {first_child W D i ..< first_child W D (Suc i)} \<Longrightarrow>
    list_all2 (state_of W D ek) (PushAll st ns) (filter (\<lambda>k. expands table ek (nodes W D ! k)) ks)"
proof (induction rule: list_all2_induct)
  case (Cons n ns k ks)
  have i: "i < length (nodes W D)" using st by (simp add: state_of_def is_node_def)
  from Cons.prems have k: "first_child W D i \<le> k" "k < first_child W D (Suc i)" by simp_all
  from child_snoc [OF t i k] obtain c where c: "nodes W D ! k = nodes W D ! i @ [c]" "k < length (nodes W D)" by blast
  with Cons st long M show ?case
    by (simp add: expands_snoc state_of_def num_differing_snoc PushAll_def)
qed (simp add: PushAll_def)

definition key_state :: "bytes list \<Rightarrow> nat \<Rightarrow> bytes \<Rightarrow> search_state \<Rightarrow> bytes \<Rightarrow> bool" where
  "key_state W D ek st q \<longleftrightarrow> (\<exists>k. state_of W D ek st k \<and> nodes W D ! k = q)"

lemma CollectSameLength_nodes:
  assumes t: "trie_of W D t"
  shows "list_all2 (state_of W D ek) queue ks \<Longrightarrow> sorted (map (\<lambda>k. length (nodes W D ! k)) ks) \<Longrightarrow>
    \<exists>S. CollectSameLength t n queue result = Some (result @ S) \<and>
      list_all2 (key_state W D ek) S (filter (\<lambda>q. length q \<le> n \<and> q \<in> set W) (map ((!) (nodes W D)) ks))"
proof (induction arbitrary: result rule: list_all2_induct)
  case (Cons st queue k ks)
  show ?case
  proof (cases "length (nodes W D ! k) \<le> n")
    case False
    then have "\<forall>m \<in> set ks. n < length (nodes W D ! m)" using Cons.prems by auto
    then show ?thesis using Cons.hyps(1) False by (simp add: state_of_def filter_empty_conv not_le)
  next
    case True
    let ?r = "if nodes W D ! k \<in> set W then result @ [st] else result"
    from Cons.IH [of ?r] Cons.prems obtain S where S: "CollectSameLength t n queue ?r = Some (?r @ S)"
      "list_all2 (key_state W D ek) S (filter (\<lambda>q. length q \<le> n \<and> q \<in> set W) (map ((!) (nodes W D)) ks))" by auto
    have "is_node W D (ss_node st) k" using Cons.hyps(1) by (simp add: state_of_def)
    note tm = node_terminal(1) [OF t this]
    have kp: "ss_key_pos st = length (nodes W D ! k)" using Cons.hyps(1) by (simp add: state_of_def)
    have ks: "key_state W D ek st (nodes W D ! k)" using Cons.hyps(1) by (auto simp: key_state_def)
    show ?thesis
    proof (cases "nodes W D ! k \<in> set W")
      case w: True
      with S tm kp ks True show ?thesis by (intro exI [of _ "st # S"]) simp
    next
      case w: False
      with S tm kp True show ?thesis by (intro exI [of _ S]) simp
    qed
  qed
qed simp

text \<open>At most \<open>limit\<close> keys, and all others as short as the first key over the limit.\<close>

definition cut_keys :: "nat \<Rightarrow> bytes list \<Rightarrow> bytes list" where
  "cut_keys limit qs = (if length qs \<le> limit then qs else filter (\<lambda>q. length q \<le> length (qs ! limit)) qs)"

lemma cut_keys_Cons:
  "\<forall>p \<in> set qs. length q \<le> length p \<Longrightarrow> cut_keys (Suc limit) (q # qs) = q # cut_keys limit qs"
  by (auto simp: cut_keys_def)

text \<open>The keys from the node \<open>k\<close> on.\<close>

definition keys_from :: "bytes list \<Rightarrow> nat \<Rightarrow> expansion_table \<Rightarrow> bytes \<Rightarrow> nat \<Rightarrow> bytes list" where
  "keys_from W D table ek k =
     filter (\<lambda>q. expands table ek q \<and> length ek \<le> length q \<and> q \<in> set W) (drop k (nodes W D))"

lemma keys_from_step:
  "k < length (nodes W D) \<Longrightarrow> keys_from W D table ek k =
     (if expands table ek (nodes W D ! k) \<and> length ek \<le> length (nodes W D ! k) \<and> nodes W D ! k \<in> set W
      then [nodes W D ! k] else []) @ keys_from W D table ek (Suc k)"
  by (simp add: keys_from_def Cons_nth_drop_Suc [symmetric])

lemma keys_from_longer:
  "k < length (nodes W D) \<Longrightarrow> q \<in> set (keys_from W D table ek (Suc k)) \<Longrightarrow> length (nodes W D ! k) \<le> length q"
proof -
  assume k: "k < length (nodes W D)" and "q \<in> set (keys_from W D table ek (Suc k))"
  then have "q \<in> set (drop (Suc k) (nodes W D))" by (simp add: keys_from_def)
  then obtain i where "i < length (nodes W D) - Suc k" "q = nodes W D ! (Suc k + i)" by (auto simp: in_set_conv_nth)
  then show ?thesis using later_longer [of k "Suc k + i" W D] by simp
qed

lemma same_length_keys:
  assumes t: "trie_of W D t" and k: "k < length (nodes W D)" and long: "length ek \<le> length (nodes W D ! k)"
  shows "filter (\<lambda>q. length q \<le> length (nodes W D ! k) \<and> q \<in> set W)
      (map ((!) (nodes W D)) (filter (\<lambda>m. expands table ek (nodes W D ! m)) [Suc k ..< first_child W D k])) =
    filter (\<lambda>q. length q \<le> length (nodes W D ! k)) (keys_from W D table ek (Suc k))" (is "?l = ?r")
proof -
  let ?N = "length (nodes W D)" and ?c = "first_child W D k" and ?n = "length (nodes W D ! k)"
  have c: "Suc k \<le> ?c" "?c \<le> ?N" using first_child_later [OF t k] first_child_mono [of k ?N W D] k first_child_end [OF t] by simp_all
  have split: "[Suc k ..< ?N] = [Suc k ..< ?c] @ [?c ..< ?N]" using c by (metis le_Suc_ex upt_add_eq_append)
  have dr: "drop (Suc k) (nodes W D) = map ((!) (nodes W D)) [Suc k ..< ?N]"
    by (intro nth_equalityI) simp_all
  let ?P = "\<lambda>m. expands table ek (nodes W D ! m) \<and> length (nodes W D ! m) \<le> ?n \<and> nodes W D ! m \<in> set W"
  have "?r = map ((!) (nodes W D)) (filter (\<lambda>m. ?P m \<and> length ek \<le> length (nodes W D ! m)) [Suc k ..< ?N])"
    unfolding keys_from_def dr by (simp add: filter_map comp_def conj_ac)
  also have "filter (\<lambda>m. ?P m \<and> length ek \<le> length (nodes W D ! m)) [Suc k ..< ?N] = filter ?P [Suc k ..< ?N]"
  proof (rule filter_cong [OF refl])
    fix m assume "m \<in> set [Suc k ..< ?N]"
    then have "?n \<le> length (nodes W D ! m)" using later_longer [of k m W D] by simp
    with long show "(?P m \<and> length ek \<le> length (nodes W D ! m)) = ?P m" by auto
  qed
  also have "filter ?P [Suc k ..< ?N] = filter ?P [Suc k ..< ?c]"
    unfolding split using grandchildren_longer [OF t k] by (auto simp: filter_empty_conv not_le)
  finally show ?thesis by (simp add: filter_map comp_def conj_ac)
qed

lemma CollectPredictive_nodes:
  assumes t: "trie_of W D t"
  shows "k \<le> length (nodes W D) \<Longrightarrow> length result \<le> limit \<Longrightarrow>
    list_all2 (state_of W D ek) queue (filter (\<lambda>m. expands table ek (nodes W D ! m)) [k ..< first_child W D k]) \<Longrightarrow>
    \<exists>S. CollectPredictive t ek table limit queue result = Some (result @ S) \<and>
      list_all2 (key_state W D ek) S (cut_keys (limit - length result) (keys_from W D table ek k))"
proof (induction "length (nodes W D) - k" arbitrary: k queue result)
  case 0
  then have k: "k = length (nodes W D)" by simp
  with 0 have "queue = []" by (simp add: first_child_end [OF t])
  then show ?case using k by (simp add: CollectPredictive.simps keys_from_def cut_keys_def)
next
  case (Suc n)
  then have k: "k < length (nodes W D)" "n = length (nodes W D) - Suc k" "Suc k \<le> length (nodes W D)" by auto
  note IH = Suc.hyps(1) [OF k(2,3)]
  let ?q = "nodes W D ! k" and ?M = "\<lambda>m. expands table ek (nodes W D ! m)"
    and ?c = "first_child W D k" and ?c' = "first_child W D (Suc k)"
  have lt: "k < ?c" by (rule first_child_later [OF t k(1)])
  have cc: "?c \<le> ?c'" by (intro first_child_mono) simp
  have hd: "[k ..< ?c] = k # [Suc k ..< ?c]" using lt by (simp add: upt_conv_Cons)
  have nxt: "[Suc k ..< ?c'] = [Suc k ..< ?c] @ [?c ..< ?c']" using lt cc by (metis Suc_leI le_Suc_ex upt_add_eq_append)
  show ?case
  proof (cases "?M k")
    case False
    have "filter ?M [?c ..< ?c'] = []"
      using child_snoc(2) [OF t k(1)] False by (fastforce simp: filter_empty_conv expands_snoc)
    with Suc.prems(3) False have "list_all2 (state_of W D ek) queue (filter ?M [Suc k ..< ?c'])"
      unfolding hd nxt by simp
    with IH [OF Suc.prems(2)] keys_from_step [OF k(1), of table ek] False show ?thesis by simp
  next
    case True
    with Suc.prems(3) obtain st rest where q: "queue = st # rest" "state_of W D ek st k"
      "list_all2 (state_of W D ek) rest (filter ?M [Suc k ..< ?c])"
      unfolding hd by (auto simp: list_all2_Cons2)
    have node: "is_node W D (ss_node st) k" "ss_key_pos st = length ?q" using q(2) by (simp_all add: state_of_def)
    obtain ns where ns: "Children t (ss_node st) = Some ns" "list_all2 (is_node W D) ns [?c ..< ?c']"
      using Children_node [OF t node(1)] by blast
    have sub: "set [?c ..< ?c'] \<subseteq> {?c ..< ?c'}" by simp
    show ?thesis
    proof (cases "length ?q < length ek")
      case short: True
      obtain sts where sts: "PushExpanded t (ek ! ss_key_pos st) (ExpandKey table (ek ! ss_key_pos st)) st ns = Some sts"
        "list_all2 (state_of W D ek) sts (filter ?M [?c ..< ?c'])"
        using PushExpanded_nodes [OF t q(2) short True ns(2) sub] by blast
      have "list_all2 (state_of W D ek) (rest @ sts) (filter ?M [Suc k ..< ?c'])"
        unfolding nxt filter_append by (rule list_all2_appendI [OF q(3) sts(2)])
      from IH [OF Suc.prems(2) this] keys_from_step [OF k(1), of table ek] short q(1) node(2) ns(1) sts(1)
      show ?thesis by (simp add: CollectPredictive.simps [of _ _ _ _ "st # rest"])
    next
      case False
      then have long: "length ek \<le> length ?q" by simp
      note tm = node_terminal(1) [OF t node(1)]
      have all: "list_all2 (state_of W D ek) (rest @ PushAll st ns) (filter ?M [Suc k ..< ?c'])"
        unfolding nxt filter_append by (rule list_all2_appendI [OF q(3) PushAll_nodes [OF t q(2) long True ns(2) sub]])
      have unf: "CollectPredictive t ek table limit queue result =
          (let result' = (if ?q \<in> set W then result @ [st] else result)
           in if limit < length result' then CollectSameLength t (length ?q) rest result'
              else CollectPredictive t ek table limit (rest @ PushAll st ns) result')"
        using q(1) node(2) ns(1) tm False by (simp add: CollectPredictive.simps [of _ _ _ _ "st # rest"] Let_def)
      show ?thesis
      proof (cases "?q \<in> set W")
        case False
        with IH [OF Suc.prems(2) all] keys_from_step [OF k(1), of table ek] Suc.prems(2) show ?thesis
          unfolding unf by simp
      next
        case w: True
        have ks: "key_state W D ek st ?q" using q(2) by (auto simp: key_state_def)
        have step: "keys_from W D table ek k = ?q # keys_from W D table ek (Suc k)"
          using keys_from_step [OF k(1), of table ek] True long w by simp
        show ?thesis
        proof (cases "length result = limit")
          case full: True
          have "sorted (map (\<lambda>m. length (nodes W D ! m)) (filter ?M [Suc k ..< ?c]))"
          proof (rule sorted_wrt_map [THEN iffD2], rule sorted_wrt_filter)
            have "?c \<le> length (nodes W D)" using first_child_mono [of k "length (nodes W D)" W D] k(1) first_child_end [OF t] by simp
            then show "sorted_wrt (\<lambda>x y. length (nodes W D ! x) \<le> length (nodes W D ! y)) [Suc k ..< ?c]"
              using later_longer by (auto simp: sorted_wrt_iff_nth_less)
          qed
          from CollectSameLength_nodes [OF t q(3) this, of "length ?q" "result @ [st]"] obtain S where
            S: "CollectSameLength t (length ?q) rest (result @ [st]) = Some ((result @ [st]) @ S)"
            "list_all2 (key_state W D ek) S (filter (\<lambda>q. length q \<le> length ?q) (keys_from W D table ek (Suc k)))"
            unfolding same_length_keys [OF t k(1) long] by blast
          have "cut_keys 0 (keys_from W D table ek k) = ?q # filter (\<lambda>q. length q \<le> length ?q) (keys_from W D table ek (Suc k))"
            unfolding step cut_keys_def by simp
          with S ks w full show ?thesis unfolding unf by (intro exI [of _ "st # S"]) simp
        next
          case False
          then have l: "length (result @ [st]) \<le> limit" using Suc.prems(2) by simp
          from IH [OF this all] obtain S where S: "CollectPredictive t ek table limit (rest @ PushAll st ns) (result @ [st]) =
              Some ((result @ [st]) @ S)"
            "list_all2 (key_state W D ek) S (cut_keys (limit - length (result @ [st])) (keys_from W D table ek (Suc k)))" by blast
          have "limit - length result = Suc (limit - length (result @ [st]))" using l by simp
          then have "cut_keys (limit - length result) (keys_from W D table ek k) =
              ?q # cut_keys (limit - length (result @ [st])) (keys_from W D table ek (Suc k))"
            unfolding step using cut_keys_Cons keys_from_longer [OF k(1)] by metis
          with S ks w l show ?thesis unfolding unf by (intro exI [of _ "st # S"]) simp
        qed
      qed
    qed
  qed
qed

lemma nodes_of_length: "filter (\<lambda>q. length q = d) (nodes W D) = (if d < D then level W d else [])"
proof (induction D)
  case (Suc D)
  have "filter (\<lambda>q. length q = d) (level W D) = (if d = D then level W D else [])"
    by (auto simp: filter_id_conv filter_empty_conv set_level simp del: level.simps)
  with Suc show ?case by (auto simp: nodes_Suc simp del: level.simps)
qed (simp add: nodes_def)

text \<open>In level order the words are sorted by length first.\<close>

lemma words_by_length:
  assumes t: "trie_of W D t"
  shows "filter (\<lambda>q. q \<in> set W) (nodes W D) = sort_key length W"
proof (rule properties_for_sort_key [symmetric])
  have s: "sorted_wrt (<) W" and D: "\<forall>w \<in> set W. length w < D" and ne: "[] \<notin> set W"
    using t by (simp_all add: trie_of_def)
  have "set (filter (\<lambda>q. q \<in> set W) (nodes W D)) = set W" using word_node [OF t] by auto
  moreover have "distinct (filter (\<lambda>q. q \<in> set W) (nodes W D))" using distinct_nodes [OF s] by simp
  ultimately show "mset (filter (\<lambda>q. q \<in> set W) (nodes W D)) = mset W"
    using sorted_distinct [OF s] set_eq_iff_mset_eq_distinct by blast
  show "sorted (map length (filter (\<lambda>q. q \<in> set W) (nodes W D)))"
    using sorted_nodes [of W D] by (simp add: sorted_wrt_map sorted_wrt_filter)
  fix k assume "k \<in> set (filter (\<lambda>q. q \<in> set W) (nodes W D))"
  then have d: "length k < D" using D by simp
  let ?l = "filter (\<lambda>q. q \<in> set W) (level W (length k))" and ?r = "filter (\<lambda>x. length k = length x) W"
  have "filter (\<lambda>x. length k = length x) (filter (\<lambda>q. q \<in> set W) (nodes W D)) =
      filter (\<lambda>q. q \<in> set W) (filter (\<lambda>q. length q = length k) (nodes W D))"
    by (simp add: conj_ac eq_commute)
  also have "\<dots> = ?l" unfolding nodes_of_length using d by simp
  also have "?l = ?r"
  proof (rule sorted_distinct_set_unique)
    have "sorted_wrt (<) ?l" "sorted_wrt (<) ?r" by (rule sorted_wrt_filter, rule sorted_level [OF s]) (rule sorted_wrt_filter [OF s])
    then show "sorted ?l" "distinct ?l" "sorted ?r" "distinct ?r"
      by (simp_all only: strict_sorted_iff)
    have "x \<in> set (level W (length k))" if "x \<in> set W" "length k = length x" for x
      unfolding set_level using that by (auto intro!: bexI [of _ x])
    moreover have "length k = length x" if "x \<in> set (level W (length k))" for x
      using that unfolding set_level by simp
    ultimately show "set ?l = set ?r" unfolding set_filter by blast
  qed
  finally show "filter (\<lambda>x. length k = length x) (filter (\<lambda>q. q \<in> set W) (nodes W D)) = ?r" .
qed

text \<open>The encoded keys that a predictive lookup collects from a trie with the words \<open>W\<close>.\<close>

definition PredictiveKeys :: "expansion_table \<Rightarrow> bytes list \<Rightarrow> bytes \<Rightarrow> nat \<Rightarrow> bytes list" where
  "PredictiveKeys table W ek limit =
     cut_keys limit (filter (\<lambda>q. expands table ek q \<and> length ek \<le> length q) (sort_key length W))"

lemma CollectPredictiveNodesInBfsOrder_keys:
  assumes t: "trie_of W D t"
  shows "\<exists>S. CollectPredictiveNodesInBfsOrder t ek table limit = Some S \<and>
    list_all2 (key_state W D ek) S (PredictiveKeys table W ek limit)"
proof -
  have "state_of W D ek \<lparr>ss_node = RootNode, ss_key_pos = 0, ss_num_expanded = 0\<rparr> 0"
    using root_node [OF t] by (simp add: state_of_def nodes_0 [OF t] num_differing_def)
  then have "list_all2 (state_of W D ek) [\<lparr>ss_node = RootNode, ss_key_pos = 0, ss_num_expanded = 0\<rparr>]
      (filter (\<lambda>m. expands table ek (nodes W D ! m)) [0 ..< first_child W D 0])"
    by (simp add: first_child_def nodes_0 [OF t] expands_def)
  from CollectPredictive_nodes [OF t _ _ this, of "[]" limit] obtain S where
    S: "CollectPredictive t ek table limit [\<lparr>ss_node = RootNode, ss_key_pos = 0, ss_num_expanded = 0\<rparr>] [] = Some S"
    "list_all2 (key_state W D ek) S (cut_keys limit (keys_from W D table ek 0))" by auto
  have "keys_from W D table ek 0 = filter (\<lambda>q. expands table ek q \<and> length ek \<le> length q) (sort_key length W)"
    unfolding words_by_length [OF t, symmetric] keys_from_def by (simp add: conj_ac)
  with S show ?thesis by (simp add: CollectPredictiveNodesInBfsOrder_def PredictiveKeys_def)
qed

text \<open>
  The calls of a predictive lookup for the dictionary keys \<open>ks\<close>: the callback sees the typed key with the rest of the
  dictionary key, and the dictionary key as the actual one.
\<close>

fun VisitPredictive :: "(bytes \<rightharpoonup> Token list) \<Rightarrow> bytes \<Rightarrow> 's callback \<Rightarrow> bytes list \<Rightarrow> 's \<Rightarrow> 's option" where
  "VisitPredictive m key cb [] s = Some s"
| "VisitPredictive m key cb (k # ks) s =
     (let shown = key @ DecodeKey (drop (length (EncodeKey key)) (EncodeKey k))
      in case OnKey cb shown s of (r, s) \<Rightarrow>
        if r = TRAVERSE_DONE then Some s
        else if r = TRAVERSE_NEXT_KEY then VisitPredictive m key cb ks s
        else if r = TRAVERSE_CULL then None
        else (case OnActualKey cb shown k (num_differing (EncodeKey key) (EncodeKey k)) s of (r, s) \<Rightarrow>
          if r = TRAVERSE_DONE then Some s
          else if r = TRAVERSE_NEXT_KEY then VisitPredictive m key cb ks s
          else if r = TRAVERSE_CULL then None
          else (case VisitTokens (\<lambda>t s. case OnToken cb shown k t s of (r, s) \<Rightarrow>
                       (if r = TRAVERSE_DONE then Some True
                        else if r = TRAVERSE_NEXT_KEY then Some False else None, s)) (the (m k)) s of
                  (r, s) \<Rightarrow> if r = Some True then Some s else VisitPredictive m key cb ks s)))"

text \<open>A callback that is asked to cull ends the program (\<^verbatim>\<open>LOG(FATAL)\<close>); any other returns.\<close>

definition never_culls :: "'s callback \<Rightarrow> bool" where
  "never_culls cb \<longleftrightarrow> (\<forall>k s. fst (OnKey cb k s) \<noteq> TRAVERSE_CULL) \<and> (\<forall>k k' n s. fst (OnActualKey cb k k' n s) \<noteq> TRAVERSE_CULL)"

lemma never_cullsD:
  "never_culls cb \<Longrightarrow> OnKey cb k s \<noteq> (TRAVERSE_CULL, s')" "never_culls cb \<Longrightarrow> OnActualKey cb k k' n s \<noteq> (TRAVERSE_CULL, s')"
  unfolding never_culls_def by (metis fst_conv)+

lemma VisitPredictive_returns: "never_culls cb \<Longrightarrow> \<exists>s'. VisitPredictive m key cb ks s = Some s'"
  by (induction ks arbitrary: s) (auto simp: Let_def never_cullsD split: prod.split)

lemma same_prefix: "num_differing ek q = 0 \<Longrightarrow> length ek \<le> length q \<Longrightarrow> q = ek @ drop (length ek) q"
proof (induction ek arbitrary: q)
  case (Cons a ek)
  then obtain b q' where q: "q = b # q'" by (cases q) auto
  with Cons.prems have "b = a" "num_differing ek q' = 0" by (auto simp: num_differing_def split: if_splits)
  with Cons q show ?case by simp
qed simp

lemma PredictiveLoop_keys:
  assumes t: "trie_of W D (key_trie d)" and key: "encodable_string key"
    and tok: "\<And>key ts. m key = Some ts \<Longrightarrow>
      \<exists>ptr. GetTokenArrayPtr (token_array d) (key_number W (tl (nodes W D)) (EncodeKey key)) = Some ptr \<and>
         reads_tokens (dict_env h2k d) key ptr ts"
  shows "list_all2 (key_state W D (EncodeKey key)) states qs \<Longrightarrow> qs = map EncodeKey ks \<Longrightarrow>
    \<forall>k \<in> set ks. m k \<noteq> None \<and> encodable_string k \<and> EncodeKey k \<in> set W \<and> length (EncodeKey k) \<le> kMaxDepth \<and>
      length (EncodeKey key) \<le> length (EncodeKey k) \<Longrightarrow>
    PredictiveLoop h2k d key (EncodeKey key) cb states s = VisitPredictive m key cb ks s"
proof (induction arbitrary: ks s rule: list_all2_induct)
  case (Cons st states q qs)
  let ?ek = "EncodeKey key"
  from Cons.prems(1) obtain k ks' where ks: "ks = k # ks'" "q = EncodeKey k" "qs = map EncodeKey ks'" by (cases ks) auto
  with Cons.prems(2) have k: "m k \<noteq> None" "encodable_string k" "EncodeKey k \<in> set W" "length (EncodeKey k) \<le> kMaxDepth"
    "length ?ek \<le> length (EncodeKey k)" by auto
  have IH: "PredictiveLoop h2k d key ?ek cb states s = VisitPredictive m key cb ks' s" for s
    by (rule Cons.IH) (use ks(3) Cons.prems(2) ks(1) in auto)
  from Cons.hyps(1) obtain i where i: "is_node W D (ss_node st) i" "nodes W D ! i = EncodeKey k"
    "ss_num_expanded st = num_differing ?ek (EncodeKey k)" unfolding ks(2) by (auto simp: key_state_def state_of_def)
  have r: "RestoreKeyOfNode (key_trie d) (ss_node st) = Some (EncodeKey k)"
    using RestoreLoop_node [OF t i(1), of kMaxDepth "[]"] i(2) k(4) by (simp add: RestoreKeyOfNode_def)
  have id: "GetKeyIdOfTerminalNode (key_trie d) (ss_node st) = Some (key_number W (tl (nodes W D)) (EncodeKey k))"
    using node_terminal(2) [OF t i(1)] i(2) k(3) by simp
  obtain ts where ts: "m k = Some ts" using k(1) by blast
  obtain ptr where p: "GetTokenArrayPtr (token_array d) (key_number W (tl (nodes W D)) (EncodeKey k)) = Some ptr"
    "reads_tokens (dict_env h2k d) k ptr ts" using tok [OF ts] by blast
  let ?shown = "key @ DecodeKey (drop (length ?ek) (EncodeKey k))"
  have actual: "(if 0 < ss_num_expanded st then DecodeKey (EncodeKey k) else ?shown) = k"
  proof (cases "0 < ss_num_expanded st")
    case True
    then show ?thesis using DecodeKey_EncodeKey(1) [OF k(2)] by simp
  next
    case False
    then have "num_differing ?ek (EncodeKey k) = 0" using i(3) by (simp add: num_differing_def)
    from same_prefix [OF this k(5)] obtain r where r: "EncodeKey k = ?ek @ r" by blast
    then obtain r' where "k = key @ r'" "encodable_string r'" "r = EncodeKey r'"
      using EncodeKey_prefix [OF key k(2)] by blast
    then show ?thesis using False r DecodeKey_EncodeKey(1) by simp
  qed
  let ?f = "\<lambda>t s. case OnToken cb ?shown k t s of (r, s) \<Rightarrow>
                       (if r = TRAVERSE_DONE then Some True
                        else if r = TRAVERSE_NEXT_KEY then Some False else None, s)"
  have f: "ForEachToken (dict_env h2k d) k ptr (\<lambda>ti s. case OnToken cb ?shown k (token ti) s of (r, s) \<Rightarrow>
                       (if r = TRAVERSE_DONE then Some True
                        else if r = TRAVERSE_NEXT_KEY then Some False else None, s)) s' = Some (VisitTokens ?f ts s')" for s'
    using ForEachToken_tokens [OF p(2), of ?f] .
  show ?case
    unfolding ks(1) PredictiveLoop.simps r VisitPredictive.simps Let_def bind.bind_lunit actual
    by (simp add: id p(1) f ts i(3) IH split: prod.split)
qed simp

section \<open>Expansion tables\<close>

definition wf_table :: "expansion_table \<Rightarrow> bool" where
  "wf_table table \<longleftrightarrow> length table = 256 \<and> (\<forall>row \<in> set table. length row = 8)"

lemma IsHit_bit: "IsHit data v \<longleftrightarrow> bit (data ! (unat v div 32)) (unat v mod 32)"
proof -
  have "drop_bit n w AND 1 \<noteq> 0 \<longleftrightarrow> bit w n" for n and w :: "32 word"
    by (metis and_one_eq bit_iff_odd_drop_bit even_iff_mod_2_eq_zero odd_iff_mod_2_eq_one zero_neq_one)
  then show ?thesis by (simp add: IsHit_def)
qed

lemma IsHit_SetBit:
  assumes "wf_table table"
  shows "wf_table (SetBit k v table)"
    "IsHit (ExpandKey (SetBit k v table) a) b \<longleftrightarrow> IsHit (ExpandKey table a) b \<or> a = k \<and> b = v"
proof -
  have lt: "unat a < 256" for a :: byte using unsigned_less [of a, where ?'a = nat] by simp
  have l: "length table = 256" "length (table ! unat a) = 8" for a :: byte
    using assms lt [of a] by (auto simp: wf_table_def)
  show "wf_table (SetBit k v table)"
    using assms l(2) [of k] by (auto simp: wf_table_def SetBit_def Let_def dest!: set_update_subset_insert [THEN subsetD])
  have w: "unat v div 32 < 8" for v :: byte using lt [of v] by (simp add: div_less_iff_less_mult)
  have eq: "b = v \<longleftrightarrow> unat b div 32 = unat v div 32 \<and> unat b mod 32 = unat v mod 32" for b :: byte
    by (metis div_mult_mod_eq word_unat_eq_iff)
  have kb: "unat a = unat k \<longleftrightarrow> a = k" by (simp add: word_unat_eq_iff)
  have one: "bit (push_bit n (1 :: 32 word)) i \<longleftrightarrow> i = n" if "n < 32" for i n
    using that by (auto simp: bit_simps)
  show "IsHit (ExpandKey (SetBit k v table) a) b \<longleftrightarrow> IsHit (ExpandKey table a) b \<or> a = k \<and> b = v"
  proof (cases "a = k")
    case True
    then show ?thesis
      using lt [of k] l w [of v] w [of b] one [of "unat v mod 32" "unat b mod 32"]
      by (auto simp: IsHit_bit ExpandKey_def SetBit_def Let_def nth_list_update bit_or_iff eq)
  next
    case False
    then show ?thesis using kb by (simp add: IsHit_bit ExpandKey_def SetBit_def Let_def)
  qed
qed

lemma IsHit_fold:
  assumes "wf_table table"
  shows "wf_table (fold (\<lambda>i. SetBit (f i) (g i)) is table)"
    "IsHit (ExpandKey (fold (\<lambda>i. SetBit (f i) (g i)) is table) a) b \<longleftrightarrow>
      IsHit (ExpandKey table a) b \<or> (\<exists>i \<in> set is. a = f i \<and> b = g i)"
  using assms by (induction "is" arbitrary: table) (auto simp: IsHit_SetBit)

lemma NewExpansionTable_hits:
  "wf_table NewExpansionTable" "IsHit (ExpandKey NewExpansionTable a) b \<longleftrightarrow> a = b"
proof -
  let ?zero = "replicate 256 (replicate 8 0) :: expansion_table"
  have z: "wf_table ?zero" by (simp add: wf_table_def)
  have lt: "unat a < 256" for a :: byte using unsigned_less [of a, where ?'a = nat] by simp
  have "\<not> IsHit (ExpandKey ?zero a) b"
    using lt [of a] lt [of b] by (simp add: IsHit_bit ExpandKey_def div_less_iff_less_mult)
  moreover have "(\<exists>i \<in> set [0 ..< 256]. a = of_nat i \<and> b = of_nat i) \<longleftrightarrow> a = b"
  proof
    assume "a = b"
    then have "a = of_nat (unat a) \<and> b = of_nat (unat a)" by simp
    moreover have "unat a \<in> set [0 ..< 256]" using lt [of a] by simp
    ultimately show "\<exists>i \<in> set [0 ..< 256]. a = of_nat i \<and> b = of_nat i" by blast
  qed auto
  ultimately show "IsHit (ExpandKey NewExpansionTable a) b \<longleftrightarrow> a = b"
    unfolding NewExpansionTable_def IsHit_fold(2) [OF z, of of_nat of_nat "[0 ..< 256]"] by simp
  show "wf_table NewExpansionTable"
    unfolding NewExpansionTable_def by (rule IsHit_fold(1) [OF z])
qed

definition kana_variant :: "byte \<Rightarrow> byte \<Rightarrow> bool" where
  "kana_variant a b \<longleftrightarrow> (\<exists>s \<in> set kHiraganaExpansionTable. let e = EncodeKey (Utf32ToUtf8 s) in a = hd e \<and> b \<in> set (tl e))"

lemma AddExpansion_hits:
  assumes "wf_table table"
  shows "wf_table (AddExpansion key data table)"
    "IsHit (ExpandKey (AddExpansion key data table) a) b \<longleftrightarrow> IsHit (ExpandKey table a) b \<or> a = key \<and> b \<in> set data"
  using IsHit_fold [OF assms, of "\<lambda>_. key" "\<lambda>b. b" data] by (auto simp: AddExpansion_def)

lemma BuildHiragana_hits:
  assumes "wf_table table"
  shows "IsHit (ExpandKey (BuildHiraganaExpansionTable table) a) b \<longleftrightarrow> IsHit (ExpandKey table a) b \<or> kana_variant a b"
proof -
  let ?step = "\<lambda>s table. let encoded = EncodeKey (Utf32ToUtf8 s)
      in if length encoded = 1 then table else AddExpansion (hd encoded) (tl encoded) table"
  have "IsHit (ExpandKey (fold ?step ss table) a) b \<longleftrightarrow> IsHit (ExpandKey table a) b \<or>
      (\<exists>s \<in> set ss. let e = EncodeKey (Utf32ToUtf8 s) in a = hd e \<and> b \<in> set (tl e))" if "wf_table table" for ss table
    using that
  proof (induction ss arbitrary: table)
    case (Cons s ss)
    let ?e = "EncodeKey (Utf32ToUtf8 s)"
    have wf: "wf_table (?step s table)" using Cons.prems by (simp add: Let_def AddExpansion_hits)
    have "IsHit (ExpandKey (?step s table) a) b \<longleftrightarrow> IsHit (ExpandKey table a) b \<or> a = hd ?e \<and> b \<in> set (tl ?e)"
    proof (cases "length ?e = 1")
      case True
      then have "tl ?e = []" by (cases ?e) auto
      with True show ?thesis by simp
    qed (simp add: AddExpansion_hits [OF Cons.prems] Let_def)
    with Cons.IH [OF wf] show ?case by (auto simp: Let_def)
  qed simp
  from this [OF assms, of kHiraganaExpansionTable] show ?thesis
    unfolding BuildHiraganaExpansionTable_def kana_variant_def .
qed

section \<open>Predictive lookup\<close>

definition expansion_of :: "system_dictionary \<Rightarrow> 's callback \<Rightarrow> expansion_table" where
  "expansion_of d cb = (if IsKanaModifierInsensitiveConversion cb then hiragana_expansion_table d else NewExpansionTable)"

definition EncodedKeys :: "(bytes \<rightharpoonup> Token list) \<Rightarrow> bytes list" where
  "EncodedKeys m = sorted_list_of_set (EncodeKey ` dom m)"

lemma LookupPredictive_holds:
  assumes "holds h2k d m" "encodable_string key" "\<And>k. m k \<noteq> None \<Longrightarrow> length (EncodeKey k) \<le> kMaxDepth"
  shows "LookupPredictive h2k d key cb s =
    (if key = [] \<or> kMaxDepth < length (EncodeKey key) then Some s
     else VisitPredictive m key cb
       (map DecodeKey (PredictiveKeys (expansion_of d cb) (EncodedKeys m) (EncodeKey key) kLookupLimit)) s)"
proof (cases "key = [] \<or> kMaxDepth < length (EncodeKey key)")
  case True
  then show ?thesis by (auto simp: LookupPredictive_def Let_def)
next
  case False
  show ?thesis
  proof (rule holdsE [OF assms(1)])
    fix W D
    assume t: "trie_of W D (key_trie d)" and dom: "set W = EncodeKey ` dom m"
      and e: "\<And>key. m key \<noteq> None \<Longrightarrow> encodable_string key"
      and tok: "\<And>key ts. m key = Some ts \<Longrightarrow>
        \<exists>ptr. GetTokenArrayPtr (token_array d) (key_number W (tl (nodes W D)) (EncodeKey key)) = Some ptr \<and>
           reads_tokens (dict_env h2k d) key ptr ts"
    have "sorted_wrt (<) W" using t by (simp add: trie_of_def)
    then have W: "EncodedKeys m = W"
      unfolding EncodedKeys_def dom [symmetric] by (metis sorted_list_of_set.idem_if_sorted_distinct strict_sorted_iff)
    let ?qs = "PredictiveKeys (expansion_of d cb) W (EncodeKey key) kLookupLimit"
    have qs: "q \<in> set W \<and> length (EncodeKey key) \<le> length q" if "q \<in> set ?qs" for q
      using that by (auto simp: PredictiveKeys_def cut_keys_def split: if_splits)
    then have dec: "\<exists>k. m k \<noteq> None \<and> q = EncodeKey k \<and> DecodeKey q = k" if "q \<in> set ?qs" for q
      using that DecodeKey_EncodeKey(1) [OF e] unfolding dom by fastforce
    then have "?qs = map EncodeKey (map DecodeKey ?qs)"
      unfolding map_map comp_def by (intro map_idI [symmetric]) metis
    moreover have "\<forall>k \<in> set (map DecodeKey ?qs). m k \<noteq> None \<and> encodable_string k \<and> EncodeKey k \<in> set W \<and>
        length (EncodeKey k) \<le> kMaxDepth \<and> length (EncodeKey key) \<le> length (EncodeKey k)"
    proof
      fix k assume "k \<in> set (map DecodeKey ?qs)"
      then obtain q where q: "q \<in> set ?qs" "k = DecodeKey q" by auto
      with dec [OF q(1)] have "m k \<noteq> None" "EncodeKey k = q" by auto
      with qs [OF q(1)] assms(3) e show "m k \<noteq> None \<and> encodable_string k \<and> EncodeKey k \<in> set W \<and>
        length (EncodeKey k) \<le> kMaxDepth \<and> length (EncodeKey key) \<le> length (EncodeKey k)" by auto
    qed
    moreover obtain S where S: "CollectPredictiveNodesInBfsOrder (key_trie d) (EncodeKey key) (expansion_of d cb) kLookupLimit = Some S"
      "list_all2 (key_state W D (EncodeKey key)) S ?qs"
      using CollectPredictiveNodesInBfsOrder_keys [OF t] by blast
    ultimately have "PredictiveLoop h2k d key (EncodeKey key) cb S s = VisitPredictive m key cb (map DecodeKey ?qs) s"
      by (intro PredictiveLoop_keys [OF t assms(2) tok])
    with S(1) False show ?thesis unfolding W by (simp add: LookupPredictive_def Let_def expansion_of_def)
  qed
qed

end
