(* ===== verification/DictReverse.thy ===== *)
theory DictReverse
  imports DictBuild
begin

text \<open>
  Reverse lookup: multimaps, the scan of the token array, the index and the cache. A scan sees the tokens of all keys in
  the order of the ids of the keys; the index, the cache and a scan give the same results for the ids of the value trie.
\<close>

section \<open>The multimap of the results\<close>

abbreviation by_key :: "(int \<times> 'v) list \<Rightarrow> bool" where "by_key m \<equiv> sorted (map fst m)"

lemma set_multimap_insert: "fst ` set (multimap_insert k v m) = insert k (fst ` set m)"
  by (induction k v m rule: multimap_insert.induct) auto

lemma multimap_insert_sorted: "by_key m \<Longrightarrow> by_key (multimap_insert k v m)"
  by (induction k v m rule: multimap_insert.induct) (auto simp: set_multimap_insert)

lemma equal_range_insert:
  "by_key m \<Longrightarrow> equal_range k (multimap_insert k' v m) = equal_range k m @ (if k = k' then [v] else [])"
proof (induction k' v m rule: multimap_insert.induct)
  case (2 k' v a b m)
  show ?case
  proof (cases "a \<le> k'")
    case False
    then have "\<forall>p \<in> set ((a, b) # m). k' < fst p" using 2 by force
    then have "filter (\<lambda>(x, v). x = k') ((a, b) # m) = []" by (force simp: filter_empty_conv)
    with False show ?thesis by (auto simp: equal_range_def)
  qed (use 2 in \<open>auto simp: equal_range_def\<close>)
qed (simp add: equal_range_def)

lemma fold_multimap_insert:
  "by_key m \<Longrightarrow> by_key (fold (multimap_insert k') vs m) \<and>
     equal_range k (fold (multimap_insert k') vs m) = equal_range k m @ (if k = k' then vs else [])"
  by (induction vs arbitrary: m) (simp_all add: multimap_insert_sorted equal_range_insert)

section \<open>What a scan finds\<close>

definition result_of :: "scan_result \<Rightarrow> reverse_result" where
  "result_of r = (int (sr_tokens_offset r), int (sr_index r))"

definition found :: "scan_result list \<Rightarrow> int \<Rightarrow> reverse_result list" where
  "found scan v = map result_of (filter (\<lambda>r. value_id r = v) scan)"

lemma found_Cons: "found (r # scan) v = (if value_id r = v then [result_of r] else []) @ found scan v"
  by (simp add: found_def)

lemma found_append: "found (xs @ ys) v = found xs v @ found ys v"
  by (simp add: found_def)

lemma scan_results:
  "by_key m \<Longrightarrow> v \<noteq> -1 \<Longrightarrow>
     (let m' = fold (\<lambda>r results. if value_id r \<noteq> -1 \<and> value_id r \<in> S
           then multimap_insert (value_id r) (int (sr_tokens_offset r), int (sr_index r)) results else results) scan m
      in by_key m' \<and> equal_range v m' = equal_range v m @ (if v \<in> S then found scan v else []) \<and>
         fst ` set m' = fst ` set m \<union> {value_id r |r. r \<in> set scan \<and> value_id r \<noteq> -1 \<and> value_id r \<in> S})"
proof (induction scan arbitrary: m)
  case (Cons r scan)
  show ?case
  proof (cases "value_id r \<noteq> -1 \<and> value_id r \<in> S")
    case True
    with Cons.IH [OF multimap_insert_sorted [OF Cons.prems(1)] Cons.prems(2), of "value_id r" "result_of r"] Cons.prems
    show ?thesis by (auto simp: Let_def result_of_def found_Cons equal_range_insert set_multimap_insert)
  next
    case False
    with Cons.IH [OF Cons.prems] Cons.prems(2) show ?thesis by (auto simp: Let_def found_Cons)
  qed
qed (simp add: found_def)

lemma ScanTokens_found:
  assumes "ScanAll (token_array d) = Some scan"
  shows "\<exists>m. ScanTokens vids d = Some m \<and> (\<forall>v. 0 \<le> v \<longrightarrow> equal_range v m = (if v \<in> set vids then found scan v else [])) \<and>
    (\<forall>v. 0 \<le> v \<longrightarrow> (v \<in> fst ` set m \<longleftrightarrow> v \<in> set vids \<and> found scan v \<noteq> []))"
proof -
  let ?m = "fold (\<lambda>r results. if value_id r \<noteq> -1 \<and> value_id r \<in> set vids
           then multimap_insert (value_id r) (int (sr_tokens_offset r), int (sr_index r)) results else results) scan []"
  have "equal_range v ?m = (if v \<in> set vids then found scan v else [])" if "0 \<le> v" for v
    using scan_results [of "[]" v "set vids" scan] that by (simp add: Let_def equal_range_def)
  moreover have "v \<in> fst ` set ?m \<longleftrightarrow> v \<in> set vids \<and> found scan v \<noteq> []" if "0 \<le> v" for v
    using scan_results [of "[]" 0 "set vids" scan] that by (auto simp: Let_def found_def filter_empty_conv)
  ultimately show ?thesis using assms by (simp add: ScanTokens_def)
qed

section \<open>The index\<close>

lemma FillUnused_first:
  "(-1, -1) \<notin> set xs \<Longrightarrow> FillUnused new (xs @ replicate (Suc n) (-1, -1)) = xs @ [new] @ replicate n (-1, -1)"
  by (induction xs) auto

lemma found_used: "(-1, -1) \<notin> set (found scan v)"
  by (auto simp: found_def result_of_def)

lemma count_sizes:
  assumes "\<forall>r \<in> set scan. value_id r = -1 \<or> 0 \<le> value_id r \<and> nat (value_id r) < length sizes" "i < length sizes"
  shows "fold (\<lambda>r sizes. if value_id r \<noteq> -1 then sizes[nat (value_id r) := sizes ! nat (value_id r) + 1] else sizes) scan sizes ! i
      = sizes ! i + length (found scan (int i)) \<and>
    length (fold (\<lambda>r sizes. if value_id r \<noteq> -1 then sizes[nat (value_id r) := sizes ! nat (value_id r) + 1] else sizes) scan sizes)
      = length sizes"
  using assms
proof (induction scan arbitrary: sizes)
  case (Cons r scan)
  show ?case
  proof (cases "value_id r = -1")
    case False
    let ?s = "sizes[nat (value_id r) := sizes ! nat (value_id r) + 1]"
    have "0 \<le> value_id r" "nat (value_id r) < length sizes" using Cons.prems(1) False by auto
    with False Cons.IH [of ?s] Cons.prems show ?thesis by (auto simp: found_Cons nth_list_update)
  qed (use Cons in \<open>simp add: found_Cons\<close>)
qed (simp add: found_def)

lemma fill_index:
  assumes "\<forall>r \<in> set scan. value_id r = -1 \<or> 0 \<le> value_id r \<and> nat (value_id r) < length index"
    and "\<forall>i < length index. index ! i = found pre (int i) @ replicate (length (found scan (int i))) (-1, -1)"
  shows "(let index' = fold (\<lambda>r index. if value_id r = -1 then index
             else index[nat (value_id r) :=
               FillUnused (int (sr_tokens_offset r), int (sr_index r)) (index ! nat (value_id r))]) scan index
    in length index' = length index \<and> (\<forall>i < length index. index' ! i = found (pre @ scan) (int i)))"
  using assms
proof (induction scan arbitrary: index pre)
  case (Cons r scan)
  show ?case
  proof (cases "value_id r = -1")
    case True
    then have "\<forall>i < length index. index ! i = found (pre @ [r]) (int i) @ replicate (length (found scan (int i))) (-1, -1)"
      using Cons.prems(2) by (simp add: found_append found_Cons) (simp add: found_def)
    with Cons.IH [of index "pre @ [r]"] Cons.prems(1) True show ?thesis by (simp add: Let_def)
  next
    case False
    let ?v = "nat (value_id r)" and ?new = "(int (sr_tokens_offset r), int (sr_index r))"
    have v: "0 \<le> value_id r" "?v < length index" using Cons.prems(1) False by auto
    let ?index = "index[?v := FillUnused ?new (index ! ?v)]"
    have "index ! ?v = found pre (value_id r) @ replicate (Suc (length (found scan (value_id r)))) (-1, -1)"
      using Cons.prems(2) v by (simp add: found_Cons)
    then have new: "FillUnused ?new (index ! ?v) = found pre (value_id r) @ [?new] @ replicate (length (found scan (value_id r))) (-1, -1)"
      by (simp only: FillUnused_first [OF found_used])
    have "\<forall>i < length ?index. ?index ! i = found (pre @ [r]) (int i) @ replicate (length (found scan (int i))) (-1, -1)"
    proof (intro allI impI)
      fix i assume i: "i < length ?index"
      show "?index ! i = found (pre @ [r]) (int i) @ replicate (length (found scan (int i))) (-1, -1)"
      proof (cases "i = ?v")
        case True
        then show ?thesis using v new by (simp add: found_append found_Cons result_of_def) (simp add: found_def)
      next
        case neq: False
        then have "value_id r \<noteq> int i" using v by auto
        then show ?thesis using neq i Cons.prems(2) by (simp add: found_append found_Cons) (simp add: found_def)
      qed
    qed
    with Cons.IH [of ?index "pre @ [r]"] Cons.prems(1) False show ?thesis by (simp add: Let_def)
  qed
qed (simp add: found_def)

lemma fold_max: "fold (\<lambda>r m. max m (value_id r)) scan a = Max (insert a (value_id ` set scan))"
proof (induction scan arbitrary: a)
  case (Cons r scan)
  have "Max (insert (max a (value_id r)) (value_id ` set scan)) = Max (insert a (insert (value_id r) (value_id ` set scan)))"
    by (cases "value_id ` set scan = {}") (simp_all add: max.assoc)
  with Cons show ?case by simp
qed simp

lemma NewReverseLookupIndex_found:
  assumes scan: "ScanAll a = Some scan" and vids: "\<forall>r \<in> set scan. -1 \<le> value_id r"
  shows "if \<forall>r \<in> set scan. value_id r = -1 then NewReverseLookupIndex a = None
    else \<exists>index. NewReverseLookupIndex a = Some index \<and> (\<forall>i < length index. index ! i = found scan (int i)) \<and>
      (\<forall>r \<in> set scan. value_id r < int (length index)) \<and> (\<exists>r \<in> set scan. value_id r = int (length index) - 1)"
proof (cases "\<forall>r \<in> set scan. value_id r = -1")
  case True
  then have "insert (-1) (value_id ` set scan) = {-1}" by auto
  then have "fold (\<lambda>r m. max m (value_id r)) scan (-1) = -1" unfolding fold_max by (simp only: Max_singleton)
  then show ?thesis using True scan by (simp add: NewReverseLookupIndex_def)
next
  case False
  define M where "M = fold (\<lambda>r m. max m (value_id r)) scan (-1)"
  have le: "value_id r \<le> M" if "r \<in> set scan" for r unfolding M_def fold_max using that by (intro Max_ge) auto
  from False obtain r where r: "r \<in> set scan" "value_id r \<noteq> -1" by blast
  then have M: "0 \<le> M" using le [OF r(1)] vids by fastforce
  have "M \<in> insert (-1) (value_id ` set scan)" unfolding M_def fold_max by (rule Max_in) auto
  then have mem: "\<exists>r \<in> set scan. value_id r = M" using M by auto
  define n where "n = nat (M + 1)"
  have range: "\<forall>r \<in> set scan. value_id r = -1 \<or> 0 \<le> value_id r \<and> nat (value_id r) < n"
    using le vids M by (force simp: n_def nat_less_eq_zless)
  let ?sizes = "fold (\<lambda>r sizes. if value_id r \<noteq> -1 then sizes[nat (value_id r) := sizes ! nat (value_id r) + 1] else sizes) scan (replicate n (0::nat))"
  have sizes: "?sizes ! i = length (found scan (int i)) \<and> length ?sizes = n" if "i < n" for i
    using count_sizes [of scan "replicate n 0" i] range that by simp
  let ?index = "map (\<lambda>n. replicate n (-1, -1)) ?sizes :: reverse_result list list"
  have n: "0 < n" using M by (simp add: n_def)
  then have len: "length ?sizes = n" using sizes by blast
  have "\<forall>i < length ?index. ?index ! i = found [] (int i) @ replicate (length (found scan (int i))) (-1, -1)"
    using sizes len by (simp add: found_def)
  from fill_index [OF _ this] range len obtain index where
    i: "fold (\<lambda>r index. if value_id r = -1 then index
             else index[nat (value_id r) :=
               FillUnused (int (sr_tokens_offset r), int (sr_index r)) (index ! nat (value_id r))]) scan ?index = index"
    "length index = n" "\<forall>i < n. index ! i = found scan (int i)" by (auto simp: Let_def)
  have "NewReverseLookupIndex a = Some index"
    using scan M i(1) by (simp add: NewReverseLookupIndex_def Let_def M_def [symmetric] n_def)
  moreover have "\<forall>r \<in> set scan. value_id r < int (length index)" using le i(2) M by (force simp: n_def)
  ultimately show ?thesis using False i(2,3) mem M by (auto simp: n_def)
qed

lemma FillResultMap_found:
  assumes "\<forall>v \<in> set vids. 0 \<le> v \<and> nat v < length index" "distinct vids" "by_key m"
  shows "\<exists>m'. FillResultMap vids index m = Some m' \<and>
    (\<forall>v \<in> set vids. equal_range v m' = equal_range v m @ index ! nat v)"
proof -
  have "by_key (fold (\<lambda>vid m. fold (multimap_insert vid) (index ! nat vid) m) vids m) \<and>
    (\<forall>v. equal_range v (fold (\<lambda>vid m. fold (multimap_insert vid) (index ! nat vid) m) vids m) =
      equal_range v m @ (if v \<in> set vids then index ! nat v else []))"
    using assms(2,3)
  proof (induction vids arbitrary: m)
    case (Cons x vids)
    from fold_multimap_insert [OF Cons.prems(2), where k' = x and vs = "index ! nat x"] Cons.prems(1)
      Cons.IH [of "fold (multimap_insert x) (index ! nat x) m"] show ?case by auto
  qed simp
  with assms(1) show ?thesis by (auto simp: FillResultMap_def list_all_iff)
qed

section \<open>Scanning the token array\<close>

definition reverse_id :: "TokenInfo \<Rightarrow> int" where
  "reverse_id ti = (if value_type ti = DEFAULT_VALUE then id_in_value_trie ti else -1)"

lemma read_token:
  assumes "EncodeToken ts i = Some b" "wf_token_info (ts ! i)"
  shows "ReadTokenForReverseLookup (b @ rest) = Some (reverse_id (ts ! i), length b, i \<noteq> length ts - 1)"
proof -
  let ?ti0 = "TokenInfo_init undefined"
  have "value_type (decoded (ts ! i) ?ti0) = value_type (ts ! i)"
    "value_type (ts ! i) = DEFAULT_VALUE \<Longrightarrow> id_in_value_trie (decoded (ts ! i) ?ti0) = id_in_value_trie (ts ! i)"
    by (simp_all add: decoded_def decoded_value_def)
  with ReadTokenForReverseLookup_agrees [OF EncodeToken_decodes [OF assms, of rest ?ti0]] show ?thesis
    by (simp add: reverse_id_def)
qed

lemma EncodeToken_not_terminator:
  assumes "EncodeToken ts i = Some b" "wf_token_info (ts ! i)" "encodable_token ts i" "i < length ts"
  shows "b \<noteq> []" "hd b \<noteq> kTokenTerminationFlag"
proof -
  show ne: "b \<noteq> []" using EncodeToken_length [OF assms(1)] by auto
  let ?ti = "ts ! i"
  from assms(1) obtain f d1 d2 where
    f: "GetFlagsForToken ts i = Some f" and e1: "EncodePos ?ti f [f] = Some d1"
    and e2: "EncodeCost ?ti d1 = Some d2" and e3: "EncodeValueInfo ?ti f d2 = Some b"
    by (auto simp: EncodeToken_def bind_eq_Some_conv Let_def split: if_splits)
  have h2: "d2 \<noteq> []" "d2 ! 0 = f"
    using e1 e2 by (auto simp: EncodePos_def EncodeCost_def Let_def nth_append split: if_splits)
  note fb = GetFlagsForToken_bits [OF f]
  show "hd b \<noteq> kTokenTerminationFlag"
  proof (cases "f AND 0x40 = 0")
    case True
    have "hd b = f" using e3 h2 True by (auto simp: EncodeValueInfo_def Let_def hd_append hd_conv_nth split: if_splits)
    with True show ?thesis by auto
  next
    case False
    with fb(5) have z: "f AND 0x3f = 0" by blast
    have m: "f AND m = 0" if "0x3f AND m = m" for m
    proof -
      have "f AND m = (f AND 0x3f) AND m" by (simp only: and.assoc that)
      then show ?thesis by (simp add: z)
    qed
    from m [of "0xc"] m [of 3] m [of "0x10"] fb(1,2,3)
    have cram: "pos_type ?ti = FREQUENT_POS" "value_type ?ti = DEFAULT_VALUE" "\<not> is_correction ?ti"
      by (auto simp: pos_flag_of_def GetFlagForValue_simps split: PosType.splits ValueType.splits if_splits)
    show ?thesis
    proof (cases "i = length ts - 1")
      case False
      then show ?thesis using hd_EncodeToken_not_last [OF assms(1)] by simp
    next
      case True
      have "GetFlagsForToken [?ti] 0 = GetFlagsForToken ts i"
        using cram True by (simp add: GetFlagsForToken_def GetFlagForPos_def GetFlagForValue_def is_correction_def Let_def)
      then have e: "EncodeToken [?ti] 0 = Some b" using assms(1,4) by (simp add: EncodeToken_def)
      have "\<not> 0x3f0000 \<le> id_in_value_trie ?ti" using assms(3) cram by (auto simp: encodable_token_def Let_def)
      then have "EncodeTokens [?ti] \<noteq> None" using EncodeTokens_single [OF e assms(2)] by blast
      moreover have "EncodeTokensFrom [?ti] (Suc 0) = Some []" by (simp add: EncodeTokensFrom.simps [of "[?ti]" "Suc 0"])
      then have "EncodeTokensFrom [?ti] 0 = Some b" using e by (simp add: EncodeTokensFrom.simps [of "[?ti]" 0])
      ultimately show ?thesis using ne by (auto simp: EncodeTokens_def split: if_splits)
    qed
  qed
qed

text \<open>The results from a position of the iterator on.\<close>

definition ScanStream :: "scan_iterator \<Rightarrow> scan_result list option" where
  "ScanStream it = Option.bind (ScanNext it) ScanFrom"

lemma ScanStream_step:
  "ScanNext it = Some it' \<Longrightarrow> \<not> sc_done it' \<Longrightarrow> ScanStream it = map_option ((#) (sc_result it')) (ScanStream it')"
  by (cases "ScanNext it'") (simp_all add: ScanStream_def ScanFrom.simps [of it'] map_option_bind map_option_case split: option.split)

lemma ScanStream_end: "byte_at (sc_ptr it) (sc_offset it) = Some kTokenTerminationFlag \<Longrightarrow> ScanStream it = Some []"
  by (simp add: ScanStream_def ScanNext_def ScanFrom.simps)

definition scannable :: "TokenInfo list \<Rightarrow> bool" where
  "scannable ts \<longleftrightarrow> ts \<noteq> [] \<and> (\<forall>i < length ts. wf_token_info (ts ! i) \<and> encodable_token ts i)"

lemma drop_append_more: "drop n xs = ys @ zs \<Longrightarrow> n \<le> length xs \<Longrightarrow> drop (n + length ys) xs = zs"
  by (metis add.commute append_eq_conv_conj drop_drop)

lemma append_single: "(@) [x] = (#) x"
  by (rule ext) simp

lemma append_Cons_fun: "(@) (x # xs) = (\<lambda>ys. x # xs @ ys)"
  by (rule ext) simp

lemma ScanStream_key:
  assumes ts: "scannable ts"
  shows "i < length ts \<Longrightarrow> EncodeTokensFrom ts i = Some bs \<Longrightarrow> \<not> sc_done it \<Longrightarrow>
    drop (sc_offset it) (sc_ptr it) = bs @ rest \<Longrightarrow> sc_tokens_offset it \<le> sc_offset it \<Longrightarrow>
    \<exists>r. ScanStream it = map_option ((@) (map (\<lambda>ti. \<lparr>value_id = reverse_id ti, sr_index = sc_index it,
          sr_tokens_offset = sc_tokens_offset it\<rparr>) (drop i ts)))
      (ScanStream (it\<lparr>sc_result := r, sc_index := sc_index it + 1,
         sc_tokens_offset := sc_tokens_offset it + max 4 (sc_offset it + length bs - sc_tokens_offset it),
         sc_offset := sc_tokens_offset it + max 4 (sc_offset it + length bs - sc_tokens_offset it)\<rparr>))"
proof (induction "length ts - i" arbitrary: i bs it)
  case 0
  then show ?case by simp
next
  case (Suc n)
  from EncodeTokensFrom_Cons [OF Suc.prems(2,1)] obtain b c where
    b: "EncodeToken ts i = Some b" "EncodeTokensFrom ts (Suc i) = Some c" "bs = b @ c" .
  have wf: "wf_token_info (ts ! i)" "encodable_token ts i" using ts Suc.prems(1) by (simp_all add: scannable_def)
  note nt = EncodeToken_not_terminator [OF b(1) wf Suc.prems(1)]
  have off: "sc_offset it < length (sc_ptr it)"
    using Suc.prems(4) nt(1) b(3) by (metis append_is_Nil_conv drop_eq_Nil not_le)
  have hd: "byte_at (sc_ptr it) (sc_offset it) = Some (hd b)"
    using off Suc.prems(4) nt(1) b(3) by (simp add: byte_at_Some_iff hd_drop_conv_nth [symmetric])
  note rt = read_token [OF b(1) wf(1), of "c @ rest"]
  have d: "drop (sc_offset it) (sc_ptr it) = b @ c @ rest" using Suc.prems(4) b(3) by simp
  let ?r = "\<lparr>value_id = reverse_id (ts ! i), sr_index = sc_index it, sr_tokens_offset = sc_tokens_offset it\<rparr>"
  have hd_ts: "drop i ts = ts ! i # drop (Suc i) ts" using Suc.prems(1) by (simp add: Cons_nth_drop_Suc)
  show ?case
  proof (cases "i = length ts - 1")
    case True
    then have "Suc i = length ts" using Suc.prems(1) by linarith
    then have nil: "drop (Suc i) ts = []" "c = []" using b(2) EncodeTokensFrom.simps [of ts "length ts"] by simp_all
    let ?toff = "sc_tokens_offset it + max 4 (sc_offset it + length b - sc_tokens_offset it)"
    have "ScanNext it = Some (it\<lparr>sc_result := ?r, sc_index := sc_index it + 1, sc_tokens_offset := ?toff, sc_offset := ?toff\<rparr>)"
      unfolding ScanNext_def using hd nt(2) rt True d by (simp add: Let_def kMinTokenArrayBlobSize_def)
    from ScanStream_step [OF this] Suc.prems(3) show ?thesis
      unfolding hd_ts nil b(3) by (intro exI [of _ ?r]) (simp add: append_single)
  next
    case False
    let ?it' = "it\<lparr>sc_result := ?r, sc_offset := sc_offset it + length b\<rparr>"
    have n: "ScanNext it = Some ?it'"
      unfolding ScanNext_def using hd nt(2) rt False d by (simp add: Let_def)
    have "drop (sc_offset ?it') (sc_ptr ?it') = c @ rest" using drop_append_more [OF d] off by simp
    have si: "n = length ts - Suc i" "Suc i < length ts" using Suc.hyps(2) Suc.prems(1) False by linarith+
    have "\<not> sc_done ?it'" "sc_tokens_offset ?it' \<le> sc_offset ?it'" using Suc.prems(3,5) by simp_all
    from Suc.hyps(1) [OF si b(2) this(1) \<open>drop (sc_offset ?it') (sc_ptr ?it') = c @ rest\<close> this(2)] obtain r where
      r: "ScanStream ?it' = map_option ((@) (map (\<lambda>ti. \<lparr>value_id = reverse_id ti, sr_index = sc_index it,
          sr_tokens_offset = sc_tokens_offset it\<rparr>) (drop (Suc i) ts)))
      (ScanStream (it\<lparr>sc_result := r, sc_index := sc_index it + 1,
         sc_tokens_offset := sc_tokens_offset it + max 4 (sc_offset it + length b + length c - sc_tokens_offset it),
         sc_offset := sc_tokens_offset it + max 4 (sc_offset it + length b + length c - sc_tokens_offset it)\<rparr>))" by auto
    from ScanStream_step [OF n] Suc.prems(3) show ?thesis
      unfolding hd_ts b(3) by (intro exI [of _ r]) (simp add: r map_option.compositionality comp_def add.assoc append_Cons_fun)
  qed
qed

text \<open>The results for the tokens and the bytes of the keys in the order of their ids.\<close>

fun scan_of :: "nat \<Rightarrow> nat \<Rightarrow> (TokenInfo list \<times> bytes) list \<Rightarrow> scan_result list" where
  "scan_of k off [] = []"
| "scan_of k off ((ts, e) # keys) =
     map (\<lambda>ti. \<lparr>value_id = reverse_id ti, sr_index = k, sr_tokens_offset = off\<rparr>) ts @
     scan_of (k + 1) (off + length (padded 4 1 e)) keys"

lemma length_padded_4: "length (padded 4 1 e) = max 4 (length e)"
  using length_padded [of 1 4 e] by (simp add: steps_of_def)

lemmas length_padded_4' = length_padded_4 [unfolded One_nat_def]

lemma ScanStream_keys:
  "\<forall>(ts, e) \<in> set keys. scannable ts \<and> EncodeTokens ts = Some e \<Longrightarrow> \<not> sc_done it \<Longrightarrow>
    drop (sc_offset it) (sc_ptr it) = concat (map (padded 4 1) (map snd keys @ [[kTokenTerminationFlag]])) \<Longrightarrow>
    sc_offset it \<le> length (sc_ptr it) \<Longrightarrow> sc_tokens_offset it = sc_offset it \<Longrightarrow>
    ScanStream it = Some (scan_of (sc_index it) (sc_offset it) keys)"
proof (induction keys arbitrary: it)
  case Nil
  then have "drop (sc_offset it) (sc_ptr it) = kTokenTerminationFlag # replicate 3 0"
    by (simp add: padded_def steps_of_def numeral_eq_Suc)
  moreover from this have "sc_offset it < length (sc_ptr it)" by (metis drop_eq_Nil list.distinct(1) not_le)
  ultimately have "byte_at (sc_ptr it) (sc_offset it) = Some kTokenTerminationFlag"
    by (simp add: byte_at_Some_iff hd_drop_conv_nth [symmetric])
  then show ?case by (simp add: ScanStream_end)
next
  case (Cons key keys)
  obtain ts e where key: "key = (ts, e)" by (cases key)
  have ts: "scannable ts" "EncodeTokens ts = Some e" using Cons.prems(1) key by auto
  then have l: "0 < length ts" and ef: "EncodeTokensFrom ts 0 = Some e"
    by (auto simp: scannable_def EncodeTokens_def bind_eq_Some_conv split: if_splits)
  let ?tail = "concat (map (padded 4 1) (map snd keys @ [[kTokenTerminationFlag]]))"
  have d: "drop (sc_offset it) (sc_ptr it) = padded 4 1 e @ ?tail" using Cons.prems(3) key by simp
  then have d': "drop (sc_offset it) (sc_ptr it) = e @ (replicate (max 4 (length e) - length e) 0 @ ?tail)"
    unfolding padded_def by (simp add: steps_of_def)
  from ScanStream_key [OF ts(1) l ef Cons.prems(2) d'] Cons.prems(5) obtain r where
    r: "ScanStream it = map_option ((@) (map (\<lambda>ti. \<lparr>value_id = reverse_id ti, sr_index = sc_index it, sr_tokens_offset = sc_offset it\<rparr>) ts))
      (ScanStream (it\<lparr>sc_result := r, sc_index := sc_index it + 1, sc_tokens_offset := sc_offset it + max 4 (length e),
         sc_offset := sc_offset it + max 4 (length e)\<rparr>))" (is "_ = map_option _ (ScanStream ?it')") by auto
  have "drop (sc_offset it + length (padded 4 1 e)) (sc_ptr it) = ?tail" by (rule drop_append_more [OF d Cons.prems(4)])
  moreover have "sc_offset it + length (padded 4 1 e) \<le> length (sc_ptr it)"
    using arg_cong [OF d, of length] Cons.prems(4) by simp
  ultimately have "ScanStream ?it' = Some (scan_of (sc_index ?it') (sc_offset ?it') keys)"
    using Cons.prems(1,2) by (intro Cons.IH) (simp_all add: length_padded_4')
  with r key show ?case by (simp add: length_padded_4')
qed

lemma ScanAll_keys:
  assumes "array_of 4 1 (map snd keys @ [[kTokenTerminationFlag]]) a"
    "\<forall>(ts, e) \<in> set keys. scannable ts \<and> EncodeTokens ts = Some e"
  shows "ScanAll a = Some (scan_of 0 0 keys)"
proof -
  let ?data = "concat (map (padded 4 1) (map snd keys @ [[kTokenTerminationFlag]]))"
  have p: "ArrayPtr a 0 = Some ?data" using ArrayPtr_element [OF assms(1), of 0] by simp
  let ?it = "\<lparr>sc_ptr = ?data, sc_done = False, sc_result = \<lparr>value_id = -1, sr_index = 0, sr_tokens_offset = 0\<rparr>,
         sc_offset = 0, sc_tokens_offset = 0, sc_index = 0\<rparr>"
  have "ScanStream ?it = Some (scan_of 0 0 keys)" using ScanStream_keys [OF assms(2), of ?it] by simp
  then show ?thesis by (simp add: ScanAll_def NewScanIterator_def GetTokenArrayPtr_def p ScanStream_def)
qed

section \<open>Every value of the value trie is found by the scan\<close>

lemma BuildKeyInfos_default_values:
  assumes b: "BuildKeyInfos h2k build m tokens = Some (kis, frequent, vstrs)" and w: "w \<in> set vstrs"
  obtains t where "t \<in> set tokens" "w = EncodeValue (t_value t)" "GetValueType h2k t = DEFAULT_VALUE"
proof -
  from b obtain kis0 h where r: "ReadTokens h2k tokens = Some kis0" and v: "vstrs = BuildValueTrie kis0"
    by (rule BuildKeyInfos_split)
  from w obtain k ti where ti: "k \<in> set kis0" "ti \<in> set (ki_tokens k)" "w = EncodeValue (t_value (token ti))"
    "value_type ti \<noteq> AS_IS_HIRAGANA" "value_type ti \<noteq> AS_IS_KATAKANA"
    unfolding v BuildValueTrie_def AllTokenInfos_def by auto
  have "fresh h2k ti" using ReadTokens_props(2) [OF r] ti(1,2) by (auto simp: group_ok_def)
  then have "value_type ti = GetValueType h2k (token ti)" by (rule fresh_fields)
  then have "GetValueType h2k (token ti) = DEFAULT_VALUE" using ti(4,5) by (auto simp: GetValueType_def split: if_splits)
  moreover have "token ti \<in> token ` set (AllTokenInfos kis0)" using ti(1,2) by (auto simp: AllTokenInfos_def)
  then have "token ti \<in> set tokens" using arg_cong [OF ReadTokens_props(1) [OF r], of set] by simp
  ultimately show thesis using ti(3) that by blast
qed

lemma first_default:
  assumes b: "BuildKeyInfos h2k build m tokens = Some (kis, frequent, vstrs)"
    and inp: "\<forall>t \<in> set tokens. input_token t" and law: "trie_law build restore vstrs" and ki: "ki \<in> set kis"
  shows "i < length (ki_tokens ki) \<Longrightarrow> GetValueType h2k (token (ki_tokens ki ! i)) = DEFAULT_VALUE \<Longrightarrow>
    \<exists>j \<le> i. value_type (ki_tokens ki ! j) = DEFAULT_VALUE \<and> t_value (token (ki_tokens ki ! j)) = t_value (token (ki_tokens ki ! i))"
proof (induction i rule: less_induct)
  case (less i)
  note facts = BuildKeyInfos_value_ids [OF b inp law ki]
  show ?case
  proof (cases "value_type (ki_tokens ki ! i) = SAME_AS_PREV_VALUE")
    case False
    then have "value_type (ki_tokens ki ! i) = DEFAULT_VALUE" using facts(5) [OF less.prems(1)] less.prems(2) by simp
    then show ?thesis by blast
  next
    case True
    from facts(4) [OF less.prems(1) True] have p: "i - 1 < i"
      "t_value (token (ki_tokens ki ! (i - 1))) = t_value (token (ki_tokens ki ! i))" by auto
    have l: "i - 1 < length (ki_tokens ki)" using p(1) less.prems(1) by linarith
    have "GetValueType h2k (token (ki_tokens ki ! (i - 1))) = DEFAULT_VALUE"
      using less.prems(2) p(2) facts(7) [OF l] facts(7) [OF less.prems(1)] by (simp add: GetValueType_def split: if_splits)
    from less.IH [OF p(1) l this] p(2) obtain j where "j \<le> i - 1"
      "value_type (ki_tokens ki ! j) = DEFAULT_VALUE \<and> t_value (token (ki_tokens ki ! j)) = t_value (token (ki_tokens ki ! i))" by auto
    then show ?thesis using p(1) by (intro exI [of _ j]) simp
  qed
qed

lemma first_of_value:
  assumes b: "BuildKeyInfos h2k build m tokens = Some (kis, frequent, vstrs)"
    and inp: "\<forall>t \<in> set tokens. input_token t" and law: "trie_law build restore vstrs" and ki: "ki \<in> set kis"
    and i: "i < length (ki_tokens ki)" "GetValueType h2k (token (ki_tokens ki ! i)) = DEFAULT_VALUE"
  shows "EncodeValue (t_value (token (ki_tokens ki ! i))) \<in> set vstrs"
    "\<exists>j \<le> i. reverse_id (ki_tokens ki ! j) = build vstrs (EncodeValue (t_value (token (ki_tokens ki ! i))))"
proof -
  note facts = BuildKeyInfos_value_ids [OF b inp law ki]
  from first_default [OF b inp law ki i] obtain j where j: "j \<le> i" "value_type (ki_tokens ki ! j) = DEFAULT_VALUE"
    "t_value (token (ki_tokens ki ! j)) = t_value (token (ki_tokens ki ! i))" by blast
  have l: "j < length (ki_tokens ki)" using j(1) i(1) by simp
  show "EncodeValue (t_value (token (ki_tokens ki ! i))) \<in> set vstrs" using facts(6) [OF l j(2)] j(3) by simp
  show "\<exists>j \<le> i. reverse_id (ki_tokens ki ! j) = build vstrs (EncodeValue (t_value (token (ki_tokens ki ! i))))"
    using facts(3) [OF l] j by (intro exI [of _ j]) (simp add: reverse_id_def)
qed

lemma value_has_reverse_id:
  assumes b: "BuildKeyInfos h2k build m tokens = Some (kis, frequent, vstrs)"
    and inp: "\<forall>t \<in> set tokens. input_token t" and law: "trie_law build restore vstrs" and w: "w \<in> set vstrs"
  shows "\<exists>ki \<in> set kis. \<exists>ti \<in> set (ki_tokens ki). reverse_id ti = build vstrs w"
proof -
  obtain t where t: "t \<in> set tokens" "w = EncodeValue (t_value t)" "GetValueType h2k t = DEFAULT_VALUE"
    by (rule BuildKeyInfos_default_values [OF b w])
  have "t_key t \<in> set (map ki_key kis)" unfolding BuildKeyInfos_keys(1) [OF b] using t(1) by simp
  then obtain ki where ki: "ki \<in> set kis" "ki_key ki = t_key t" by auto
  have "t \<in> token ` set (ki_tokens ki)"
    using arg_cong [OF BuildKeyInfos_groups(3) [OF b ki(1)], of set_mset] t(1) ki(2) by simp
  then obtain i where i: "i < length (ki_tokens ki)" "token (ki_tokens ki ! i) = t" by (auto simp: in_set_conv_nth)
  from first_of_value(2) [OF b inp law ki(1) i(1)] i(2) t(2,3) obtain j where "j \<le> i" "reverse_id (ki_tokens ki ! j) = build vstrs w"
    by auto
  then show ?thesis using ki(1) i(1) by (intro bexI [of _ ki] bexI [of _ "ki_tokens ki ! j"]) auto
qed

lemma scan_of_ids: "value_id ` set (scan_of k off keys) = reverse_id ` (\<Union>(ts, e) \<in> set keys. set ts)"
  by (induction k off keys rule: scan_of.induct) (auto simp: image_Un image_image)

lemma found_iff: "found scan v \<noteq> [] \<longleftrightarrow> v \<in> value_id ` set scan"
  by (auto simp: found_def filter_empty_conv)

section \<open>The ids of the prefixes\<close>

lemma fold_set_insert:
  "set (fold (\<lambda>vid. set_insert (int vid)) vids S) = set S \<union> int ` set vids"
  "distinct S \<Longrightarrow> distinct (fold (\<lambda>vid. set_insert (int vid)) vids S)"
  by (induction vids arbitrary: S) (auto simp: set_insert_def set_insort_key distinct_insort)

lemma those_map_eq: "\<forall>x \<in> set xs. f x = Some (g x) \<Longrightarrow> those (map f xs) = Some (map g xs)"
  by (induction xs) auto

lemma AddKeyIds_words:
  assumes t: "trie_of W D t"
  shows "\<exists>S'. AddKeyIdsOfAllPrefixes t key S = Some S' \<and> (distinct S \<longrightarrow> distinct S') \<and>
    set S' = set S \<union> {int (key_number W (tl (nodes W D)) (take n key)) |n. n \<le> length key \<and> take n key \<in> set W}"
proof -
  obtain l where l: "PrefixSearch t key = Some l" "map fst l = filter (\<lambda>n. take n key \<in> set W) [1 ..< Suc (length key)]"
    "\<forall>(n, node) \<in> set l. GetKeyIdOfTerminalNode t node = Some (key_number W (tl (nodes W D)) (take n key))"
    using PrefixSearch_words [OF t, of key] by blast
  let ?num = "\<lambda>n. key_number W (tl (nodes W D)) (take n key)"
  have "those (map (\<lambda>(len, node). GetKeyIdOfTerminalNode t node) l) = Some (map (\<lambda>(n, node). ?num n) l)"
    using l(3) by (intro those_map_eq) auto
  also have "map (\<lambda>(n, node). ?num n) l = map ?num (map fst l)" by (simp add: comp_def case_prod_beta)
  finally have a: "AddKeyIdsOfAllPrefixes t key S = Some (fold (\<lambda>vid. set_insert (int vid)) (map ?num (map fst l)) S)"
    using l(1) by (simp add: AddKeyIdsOfAllPrefixes_def)
  have ne: "[] \<notin> set W" using t by (simp add: trie_of_def)
  have "int ` set (map ?num (map fst l)) = {int (?num n) |n. n \<le> length key \<and> take n key \<in> set W}"
  proof -
    have "0 < n" if "take n key \<in> set W" for n using ne that by (cases n) simp_all
    then have "set (map fst l) = {n. n \<le> length key \<and> take n key \<in> set W}" unfolding l(2) using ne by (auto simp: less_Suc_eq_le Suc_le_eq)
    then show ?thesis unfolding set_map by auto
  qed
  with a fold_set_insert show ?thesis by (intro exI conjI impI) (assumption | simp only:)+
qed

lemma CollectSuffixIds_words:
  assumes t: "trie_of W D t"
  shows "\<exists>S'. CollectSuffixIds t str S = Some S'"
proof (induction str arbitrary: S rule: length_induct)
  case (1 str)
  show ?case
  proof (cases "str = []")
    case True
    then show ?thesis by (simp add: CollectSuffixIds.simps [of t "[]" S])
  next
    case False
    obtain S1 where S1: "AddKeyIdsOfAllPrefixes t (EncodeValue str) S = Some S1"
      using AddKeyIds_words [OF t, of "EncodeValue str" S] by blast
    have "length (drop (OneCharLen (hd str)) str) < length str" using False OneCharLen_pos [of "hd str"] by simp
    with 1 obtain S' where "CollectSuffixIds t (drop (OneCharLen (hd str)) str) S1 = Some S'" by blast
    with S1 False show ?thesis by (simp add: CollectSuffixIds.simps [of t str S])
  qed
qed

section \<open>The three sources of results agree\<close>

lemma RegisterReverseLookupResults_ranges:
  "\<forall>v \<in> set vids. equal_range v c1 = equal_range v c2 \<Longrightarrow>
    RegisterReverseLookupResults h2k d ptr vids c1 cb s = RegisterReverseLookupResults h2k d ptr vids c2 cb s"
proof (induction vids arbitrary: s)
  case (Cons v vids)
  have "RegisterReverseLookupResults h2k d ptr vids c1 cb = RegisterReverseLookupResults h2k d ptr vids c2 cb"
    using Cons by (intro ext) simp
  then show ?case using Cons.prems by simp
qed simp

text \<open>A dictionary that differs in the index and the cache only.\<close>

definition same_images :: "system_dictionary \<Rightarrow> system_dictionary \<Rightarrow> bool" where
  "same_images d d' \<longleftrightarrow> key_trie d' = key_trie d \<and> value_trie d' = value_trie d \<and> token_array d' = token_array d \<and>
     sd_frequent_pos d' = sd_frequent_pos d"

lemma same_images_env: "same_images d d' \<Longrightarrow> dict_env h2k d' = dict_env h2k d"
  by (simp add: same_images_def dict_env_def)

lemma RunCallbackOnEachPrefix_same:
  assumes "same_images d d'"
  shows "RunCallbackOnEachPrefix h2k d' key ek cb f rest i node s = RunCallbackOnEachPrefix h2k d key ek cb f rest i node s"
proof (induction rest arbitrary: i node s)
  case (Cons c rest)
  have "key_trie d' = key_trie d" "token_array d' = token_array d" using assms by (simp_all add: same_images_def)
  then show ?case unfolding RunCallbackOnEachPrefix.simps Cons.IH same_images_env [OF assms] by (simp only:)
qed simp

lemma RegisterResults_same:
  assumes "same_images d d'"
  shows "RegisterResults h2k d' ptr cb v rs s = RegisterResults h2k d ptr cb v rs s"
proof (induction rs arbitrary: s)
  case (Cons r rs)
  obtain off k where r: "r = (off, k)" by (cases r)
  have "key_trie d' = key_trie d" using assms by (simp add: same_images_def)
  then show ?case unfolding r RegisterResults.simps Cons.IH same_images_env [OF assms] by (simp only:)
qed simp

lemma RegisterReverseLookupResults_same:
  assumes "same_images d d'"
  shows "RegisterReverseLookupResults h2k d' ptr vids c cb s = RegisterReverseLookupResults h2k d ptr vids c cb s"
proof (induction vids arbitrary: s)
  case (Cons v vids)
  then have "RegisterReverseLookupResults h2k d' ptr vids c cb = RegisterReverseLookupResults h2k d ptr vids c cb" by blast
  then show ?case by (simp add: RegisterResults_same [OF assms])
qed simp

lemma LookupReverse_same:
  assumes i: "same_images d d'"
    and r: "\<And>vids. AddKeyIdsOfAllPrefixes (value_trie d) (EncodeValue str) [] = Some vids \<Longrightarrow>
      \<exists>c c'. ReverseResults d vids = Some c \<and> ReverseResults d' vids = Some c' \<and> (\<forall>v \<in> set vids. equal_range v c' = equal_range v c)"
  shows "LookupReverse h2k k2h d' str cb s = LookupReverse h2k k2h d str cb s"
proof -
  have v: "RegisterReverseLookupTokensForValue h2k d' str cb s = RegisterReverseLookupTokensForValue h2k d str cb s" for cb :: "'a callback" and s
  proof (cases "AddKeyIdsOfAllPrefixes (value_trie d) (EncodeValue str) []")
    case None
    then show ?thesis using i by (simp add: RegisterReverseLookupTokensForValue_def same_images_def)
  next
    case (Some vids)
    from r [OF this] obtain c c' where "ReverseResults d vids = Some c" "ReverseResults d' vids = Some c'"
      "\<forall>v \<in> set vids. equal_range v c' = equal_range v c" by blast
    with Some i show ?thesis
      by (simp add: RegisterReverseLookupTokensForValue_def same_images_def [of d d'] RegisterReverseLookupResults_same [OF i]
          RegisterReverseLookupResults_ranges [of vids c' c])
  qed
  show ?thesis
    unfolding LookupReverse_def RegisterReverseLookupTokensForT13N_def Let_def v RunCallbackOnEachPrefix_same [OF i] ..
qed

end
