(* ===== verification/DictProps.thy ===== *)
theory DictProps
  imports DictPredict DictReverse
begin

text \<open>
  The properties of the whole chain from a list of tokens over the dictionary file to the lookups. \<open>entries\<close> says what
  the dictionary keeps of the tokens.
\<close>

section \<open>The entries of the text dictionary\<close>

text \<open>
  What the dictionary keeps of a token: all of it but other attributes than the spelling correction, and the cost
  exactly or rounded down to a multiple of 256.
\<close>

definition same_entry :: "Token \<Rightarrow> Token \<Rightarrow> bool" where
  "same_entry t t' \<longleftrightarrow> t_key t' = t_key t \<and> t_value t' = t_value t \<and> t_lid t' = t_lid t \<and> t_rid t' = t_rid t \<and>
     (t_cost t' = t_cost t \<or> t_cost t' = t_cost t div 256 * 256) \<and>
     t_attributes t' = (if t_attributes t AND SPELLING_CORRECTION \<noteq> 0 then SPELLING_CORRECTION else 0)"

text \<open>\<open>m\<close> has the keys of the tokens, and for each of them its tokens in some order.\<close>

definition entries :: "Token list \<Rightarrow> (bytes \<rightharpoonup> Token list) \<Rightarrow> bool" where
  "entries tokens m \<longleftrightarrow> dom m = t_key ` set tokens \<and>
     (\<forall>key ts. m key = Some ts \<longrightarrow>
        (\<exists>us. mset us = mset (filter (\<lambda>t. t_key t = key) tokens) \<and> list_all2 same_entry us ts))"

lemma entries_tokens_of_keys:
  assumes b: "BuildKeyInfos h2k build m tokens = Some (kis, frequent, vstrs)"
  shows "entries tokens (tokens_of_keys kis)"
proof -
  have "dom (tokens_of_keys kis) = t_key ` set tokens"
    using BuildKeyInfos_keys(1) [OF b] by (simp add: tokens_of_keys_def dom_map_of_conv_image_fst image_image)
  moreover have "\<exists>us. mset us = mset (filter (\<lambda>t. t_key t = key) tokens) \<and> list_all2 same_entry us ts"
    if "tokens_of_keys kis key = Some ts" for key ts
  proof -
    from that obtain ki where ki: "ki \<in> set kis" "key = ki_key ki" "ts = map stored_token (ki_tokens ki)"
      unfolding tokens_of_keys_def by (auto dest!: map_of_SomeD)
    have "list_all2 same_entry (map token (ki_tokens ki)) ts"
      unfolding ki(3) by (auto simp: list_all2_conv_all_nth same_entry_def stored_token_def is_correction_def)
    with BuildKeyInfos_groups(3) [OF b ki(1)] ki(2) show ?thesis by blast
  qed
  ultimately show ?thesis by (simp add: entries_def)
qed

lemma made_dictionary:
  assumes "\<forall>t \<in> set tokens. dict_token t" "(\<Sum>t \<leftarrow> tokens. token_weight t) < 2 ^ 26"
  obtains d m where "MakeDictionary h2k min_key_len tokens = Some (Some d)" "entries tokens m" "holds h2k d m"
    "hiragana_expansion_table d = BuildHiraganaExpansionTable NewExpansionTable"
proof -
  obtain kis frequent vstrs d where b: "BuildKeyInfos h2k trie_ids min_key_len tokens = Some (kis, frequent, vstrs)"
    "MakeDictionary h2k min_key_len tokens = Some (Some d)" "holds h2k d (tokens_of_keys kis)"
    "hiragana_expansion_table d = BuildHiraganaExpansionTable NewExpansionTable"
    by (rule built_file [OF assms, of h2k min_key_len]) (rule that)
  from that [OF b(2) entries_tokens_of_keys [OF b(1)] b(3,4)] show thesis .
qed

lemma entry_weights: "entries tokens m \<Longrightarrow> m key \<noteq> None \<longleftrightarrow> key \<in> t_key ` set tokens"
  unfolding entries_def by (metis domIff)

section \<open>Properties\<close>

text \<open>C1: The builder makes a dictionary file of every list of tokens with encodable keys and values within the sizes of
  the format, and the file opens. HasKey and the exact lookup on the opened dictionary are those of the tokens: HasKey
  answers whether some token has the key, and LookupExact runs the callback for exactly the tokens of the key, each as
  it was in the text dictionary but for the rounding of its cost, following the callback's traverse results.\<close>
theorem exact_lookup_finds_the_tokens:
  assumes "\<forall>t \<in> set tokens. dict_token t" "(\<Sum>t \<leftarrow> tokens. token_weight t) < 2 ^ 26"
  shows "\<exists>d m. MakeDictionary h2k min_key_len tokens = Some (Some d) \<and> entries tokens m \<and>
    (\<forall>key. encodable_string key \<longrightarrow> DictHasKey d key = Some (key \<in> t_key ` set tokens) \<and>
      (\<forall>cb s. LookupExact h2k d key cb s = Some (case m key of None \<Rightarrow> s | Some ts \<Rightarrow> VisitKey key cb ts s)))"
proof -
  obtain d m where d: "MakeDictionary h2k min_key_len tokens = Some (Some d)" "entries tokens m" "holds h2k d m"
    by (rule made_dictionary [OF assms, of h2k min_key_len])
  then show ?thesis
    using DictHasKey_holds [OF d(3)] LookupExact_holds [OF d(3)] entry_weights [OF d(2)] by (intro exI conjI) auto
qed

lemma ascii_key: "encodable_string [0x61]" "encodable_string [0x62]" "encodable_string [0x61, 0x62]"
  by (simp_all add: encodable_string_def IsValidUtf8.simps Utf8ToUtf32.simps SplitFirstChar32_def encodable_def)

lemma example_dictionary: "\<forall>t \<in> set example_tokens. dict_token t" "(\<Sum>t \<leftarrow> example_tokens. token_weight t) < 2 ^ 26"
  by (simp_all add: example_tokens_def dict_token_def input_token_def unicode_string_def IsValidUtf8.simps Utf8ToUtf32.simps
      SplitFirstChar32_def unicode_def ascii_key EncodeValue_def EncodeValueChar_def kMaxDepth_def token_weight_def EncodeKey_def
      EncodeDecodeKeyImpl_def SwapCode_def CodepointToUtf8_def)

text \<open>A callback that collects the values it is called with.\<close>

definition collect_values :: "bytes list callback" where
  "collect_values =
     \<lparr>OnKey = (\<lambda>key s. (TRAVERSE_CONTINUE, s)), OnActualKey = (\<lambda>key actual_key n s. (TRAVERSE_CONTINUE, s)),
      OnToken = (\<lambda>key actual_key t s. (TRAVERSE_CONTINUE, s @ [t_value t])), IsKanaModifierInsensitiveConversion = False\<rparr>"

lemma collect_tokens:
  "VisitTokens (\<lambda>t s. case OnToken collect_values k k' t s of (r, s) \<Rightarrow> (if r \<noteq> TRAVERSE_CONTINUE then Some () else None, s)) ts s =
     (None, s @ map t_value ts)"
  by (induction ts arbitrary: s) (simp_all add: collect_values_def)

lemma example_entry:
  assumes "entries example_tokens m"
  shows "\<exists>t. m [0x61] = Some [t] \<and> t_value t = [0x61]" "m [0x61, 0x62] = None"
proof -
  have d: "dom m = t_key ` set example_tokens" using assms by (simp add: entries_def)
  then have "[0x61] \<in> dom m" "[0x61, 0x62] \<notin> dom m" by (simp_all add: example_tokens_def)
  then obtain ts where ts: "m [0x61] = Some ts" and n: "m [0x61, 0x62] = None" by blast
  from assms ts obtain us where us: "mset us = mset (filter (\<lambda>t. t_key t = [0x61]) example_tokens)" "list_all2 same_entry us ts"
    unfolding entries_def by blast
  then obtain u where "us = [u]" "t_value u = [0x61]" by (auto simp: example_tokens_def)
  with us(2) ts show "\<exists>t. m [0x61] = Some [t] \<and> t_value t = [0x61]" by (auto simp: list_all2_Cons1 same_entry_def)
  show "m [0x61, 0x62] = None" by (rule n)
qed

lemma exact_lookup_finds_the_tokens_witness:
  "\<exists>d. MakeDictionary id 6 example_tokens = Some (Some d) \<and> DictHasKey d [0x61] = Some True \<and>
    DictHasKey d [0x61, 0x62] = Some False \<and> LookupExact id d [0x61] collect_values [] = Some [[0x61]]"
proof -
  from exact_lookup_finds_the_tokens [OF example_dictionary, of id 6] obtain d m where
    d: "MakeDictionary id 6 example_tokens = Some (Some d)" "entries example_tokens m"
    "\<forall>key. encodable_string key \<longrightarrow> DictHasKey d key = Some (key \<in> t_key ` set example_tokens) \<and>
      (\<forall>cb s. LookupExact id d key cb s = Some (case m key of None \<Rightarrow> s | Some ts \<Rightarrow> VisitKey key cb ts (s :: bytes list)))" by blast
  from example_entry(1) [OF d(2)] obtain t where t: "m [0x61] = Some [t]" "t_value t = [0x61]" by blast
  have "DictHasKey d [0x61] = Some True" "DictHasKey d [0x61, 0x62] = Some False"
    using d(3) ascii_key by (simp_all add: example_tokens_def)
  moreover have "VisitKey [0x61] collect_values [t] [] = [[0x61]]"
    using t(2) collect_tokens [of "[0x61]" "[0x61]" "[t]" "[]"] by (simp add: VisitKey_def) (simp add: collect_values_def)
  ultimately show ?thesis using d(1,3) ascii_key(1) t(1) by (intro exI [of _ d]) simp
qed

text \<open>C2: For a callback that does not ask for kana modifier insensitive conversion, and a key without NUL bytes, the prefix lookup
  runs the callback for exactly the dictionary keys that are a prefix of the key, shortest first, with the tokens of each, and
  follows the traverse results of the callback. (With the conversion \<^verbatim>\<open>LookupPrefixWithKeyExpansionImpl\<close> also visits variants of the
  prefixes, which is not stated here.)\<close>
theorem prefix_lookup_visits_the_prefixes:
  assumes "\<forall>t \<in> set tokens. dict_token t" "(\<Sum>t \<leftarrow> tokens. token_weight t) < 2 ^ 26"
    and "encodable_string key" "0 \<notin> set key" "\<not> IsKanaModifierInsensitiveConversion cb"
  shows "\<exists>d m. MakeDictionary h2k min_key_len tokens = Some (Some d) \<and> entries tokens m \<and>
    LookupPrefix h2k d key cb s = Some (VisitPrefixes m cb (PrefixKeys m key) s)"
proof -
  obtain d m where d: "MakeDictionary h2k min_key_len tokens = Some (Some d)" "entries tokens m" "holds h2k d m"
    by (rule made_dictionary [OF assms(1,2), of h2k min_key_len])
  with LookupPrefix_holds [OF d(3) assms(3,5,4)] show ?thesis by blast
qed

lemma prefix_lookup_visits_the_prefixes_witness:
  "\<exists>d. MakeDictionary id 6 example_tokens = Some (Some d) \<and>
    LookupPrefix id d [0x61, 0x62] collect_values [] = Some [[0x61]]"
proof -
  have "\<not> IsKanaModifierInsensitiveConversion collect_values" by (simp add: collect_values_def)
  from prefix_lookup_visits_the_prefixes [OF example_dictionary ascii_key(3) _ this, of id 6 "[]"] obtain d m where
    d: "MakeDictionary id 6 example_tokens = Some (Some d)" "entries example_tokens m"
    "LookupPrefix id d [0x61, 0x62] collect_values [] = Some (VisitPrefixes m collect_values (PrefixKeys m [0x61, 0x62]) [])" by auto
  from example_entry [OF d(2)] obtain t where t: "m [0x61] = Some [t]" "t_value t = [0x61]" "m [0x61, 0x62] = None" by blast
  have "PrefixKeys m [0x61, 0x62] = [[0x61]]" using t(1,3) by (simp add: PrefixKeys_def upt_rec)
  with d t show ?thesis by (intro exI [of _ d]) (simp add: collect_values_def)
qed

text \<open>C3: In a dictionary whose keys encode to at most 256 bytes (\<^verbatim>\<open>kMaxDepth\<close>, the buffer into which keys are restored), the predictive
  lookup of a non-empty key of at most that length visits the dictionary keys that the typed key, expanded by the table, matches
  up to its length, shorter encoded keys first and in byte order among keys of a length: all of them where there are at most 64,
  else those not longer than the 65th. The callback is shown the typed key with the rest of each dictionary key. The lookup
  returns unless the callback asks to cull at a key, which ends the program.\<close>
theorem predictive_lookup_in_bfs_order:
  assumes "\<forall>t \<in> set tokens. dict_token t \<and> length (EncodeKey (t_key t)) \<le> kMaxDepth"
    and "(\<Sum>t \<leftarrow> tokens. token_weight t) < 2 ^ 26" "encodable_string key"
    and "key \<noteq> []" "length (EncodeKey key) \<le> kMaxDepth"
    and "table = (if IsKanaModifierInsensitiveConversion cb then BuildHiraganaExpansionTable NewExpansionTable else NewExpansionTable)"
  shows "\<exists>d m. MakeDictionary h2k min_key_len tokens = Some (Some d) \<and> entries tokens m \<and>
    LookupPredictive h2k d key cb s = VisitPredictive m key cb
      (map DecodeKey (PredictiveKeys table (EncodedKeys m) (EncodeKey key) kLookupLimit)) s \<and>
    (never_culls cb \<longrightarrow> LookupPredictive h2k d key cb s \<noteq> None)"
proof -
  have tok: "\<forall>t \<in> set tokens. dict_token t" using assms(1) by blast
  obtain d m where d: "MakeDictionary h2k min_key_len tokens = Some (Some d)" "entries tokens m" "holds h2k d m"
    "hiragana_expansion_table d = BuildHiraganaExpansionTable NewExpansionTable"
    by (rule made_dictionary [OF tok assms(2), of h2k min_key_len])
  have "length (EncodeKey k) \<le> kMaxDepth" if "m k \<noteq> None" for k
    using that entry_weights [OF d(2), of k] assms(1) by auto
  from LookupPredictive_holds [OF d(3) assms(3) this, of cb s] assms(4-6) d(4) have
    l: "LookupPredictive h2k d key cb s = VisitPredictive m key cb
      (map DecodeKey (PredictiveKeys table (EncodedKeys m) (EncodeKey key) kLookupLimit)) s" by (simp add: expansion_of_def)
  have "never_culls cb \<longrightarrow> LookupPredictive h2k d key cb s \<noteq> None"
    unfolding l using VisitPredictive_returns by (metis option.distinct(1))
  with l d(1,2) show ?thesis by blast
qed

lemma expands_New: "expands NewExpansionTable ek q \<longleftrightarrow> list_all (\<lambda>(a, b). a = b) (zip ek q)"
  by (simp add: expands_def NewExpansionTable_hits)

lemma predictive_lookup_in_bfs_order_witness:
  "\<exists>d. MakeDictionary id 6 example_tokens = Some (Some d) \<and> LookupPredictive id d [0x61] collect_values [] = Some [[0x61]]"
proof -
  have t: "\<forall>t \<in> set example_tokens. dict_token t \<and> length (EncodeKey (t_key t)) \<le> kMaxDepth"
    using example_dictionary(1) by (simp add: example_tokens_def EncodeKey_def EncodeDecodeKeyImpl_def Utf8ToUtf32.simps
        SplitFirstChar32_def SwapCode_def CodepointToUtf8_def kMaxDepth_def)
  have ek: "EncodeKey [0x61] = [0xe3, 0x82, 0x81]" "EncodeKey [0x62] = [0xe3, 0x82, 0x82]"
    by (simp_all add: EncodeKey_def EncodeDecodeKeyImpl_def Utf8ToUtf32.simps SplitFirstChar32_def SwapCode_def CodepointToUtf8_def)
  have dk: "DecodeKey [0xe3, 0x82, 0x81] = [0x61]" "DecodeKey [] = []"
    using DecodeKey_EncodeKey(1) [OF ascii_key(1)] unfolding ek(1)
    by (simp_all add: DecodeKey_def EncodeDecodeKeyImpl_def Utf8ToUtf32.simps)
  have l: "length (EncodeKey [0x61]) \<le> kMaxDepth" by (simp add: ek kMaxDepth_def)
  from predictive_lookup_in_bfs_order [OF t example_dictionary(2) ascii_key(1) _ l refl, of id 6 collect_values "[]"] obtain d m where
    d: "MakeDictionary id 6 example_tokens = Some (Some d)" "entries example_tokens m"
    "LookupPredictive id d [0x61] collect_values [] = VisitPredictive m [0x61] collect_values
      (map DecodeKey (PredictiveKeys NewExpansionTable (EncodedKeys m) (EncodeKey [0x61]) kLookupLimit)) []"
    by (auto simp: collect_values_def)
  from example_entry(1) [OF d(2)] obtain t where t: "m [0x61] = Some [t]" "t_value t = [0x61]" by blast
  have "dom m = {[0x62], [0x61]}" using d(2) by (auto simp: entries_def example_tokens_def)
  then have "EncodedKeys m = [[0xe3, 0x82, 0x81], [0xe3, 0x82, 0x82]]"
    by (simp add: EncodedKeys_def ek)
  then have "PredictiveKeys NewExpansionTable (EncodedKeys m) (EncodeKey [0x61]) kLookupLimit = [[0xe3, 0x82, 0x81]]"
    by (simp add: PredictiveKeys_def expands_New kLookupLimit_def cut_keys_def ek)
  with d t ek dk show ?thesis by (intro exI [of _ d]) (simp add: collect_values_def)
qed

text \<open>C5: The expansion of a key byte hits exactly the byte itself and, for the first kana of a row of the table, the encoded
  variants of that row; no other row or bit is set.\<close>
theorem expansion_table_hits_kana_variants:
  "IsHit (ExpandKey (BuildHiraganaExpansionTable NewExpansionTable) a) b \<longleftrightarrow> a = b \<or> kana_variant a b"
  using BuildHiragana_hits [OF NewExpansionTable_hits(1)] NewExpansionTable_hits(2) by simp

section \<open>The sources of the reverse lookup\<close>

lemma made_reverse:
  assumes "\<forall>t \<in> set tokens. dict_token t" "(\<Sum>t \<leftarrow> tokens. token_weight t) < 2 ^ 26"
  obtains d W D scan where "MakeDictionary h2k min_key_len tokens = Some (Some d)"
    "reverse_lookup_cache d = None" "reverse_lookup_index d = None" "trie_of W D (value_trie d)"
    "ScanAll (token_array d) = Some scan" "\<forall>r \<in> set scan. -1 \<le> value_id r"
    "\<forall>w \<in> set W. int (key_number W (tl (nodes W D)) w) \<in> value_id ` set scan"
    "(\<forall>r \<in> set scan. value_id r = -1) \<longleftrightarrow> (\<forall>t \<in> set tokens. GetValueType h2k t \<noteq> DEFAULT_VALUE)"
proof -
  obtain kis frequent vstrs d where b: "BuildKeyInfos h2k trie_ids min_key_len tokens = Some (kis, frequent, vstrs)"
    and d: "MakeDictionary h2k min_key_len tokens = Some (Some d)"
      "reverse_lookup_cache d = None" "reverse_lookup_index d = None"
    and law: "trie_law trie_ids (\<lambda>vs. RestoreKeyOfId (value_trie d)) vstrs"
    and vt: "\<exists>W D. trie_of W D (value_trie d) \<and> set W = set vstrs \<and>
       (\<forall>w \<in> set vstrs. trie_ids vstrs w = int (key_number W (tl (nodes W D)) w))"
    and es: "\<exists>by_id es. set by_id = set kis \<and> list_all2 (\<lambda>ki e. EncodeTokens (ki_tokens ki) = Some e) by_id es \<and>
       (\<forall>i < length by_id. id_in_key_trie (by_id ! i) = int i) \<and> array_of 4 1 (es @ [[kTokenTerminationFlag]]) (token_array d)"
    by (rule built_file [OF assms, of h2k min_key_len]) (rule that)
  have inp: "\<forall>t \<in> set tokens. input_token t" using assms(1) by (simp add: dict_token_def)
  obtain W D where W: "trie_of W D (value_trie d)" "set W = set vstrs"
    "\<forall>w \<in> set vstrs. trie_ids vstrs w = int (key_number W (tl (nodes W D)) w)" using vt by blast
  obtain by_id es where e: "set by_id = set kis" "list_all2 (\<lambda>ki e. EncodeTokens (ki_tokens ki) = Some e) by_id es"
    "array_of 4 1 (es @ [[kTokenTerminationFlag]]) (token_array d)" using es by blast
  let ?keys = "zip (map ki_tokens by_id) es"
  have l: "length by_id = length es" using e(2) by (rule list_all2_lengthD)
  have a: "array_of 4 1 (map snd ?keys @ [[kTokenTerminationFlag]]) (token_array d)" using e(3) l by simp
  have sc: "\<forall>(ts, e) \<in> set ?keys. scannable ts \<and> EncodeTokens ts = Some e"
  proof clarify
    fix ts x assume "(ts, x) \<in> set ?keys"
    then obtain i where i: "i < length by_id" "ts = ki_tokens (by_id ! i)" "x = es ! i" using l by (auto simp: in_set_zip)
    then have ki: "by_id ! i \<in> set kis" using e(1) nth_mem by blast
    have "scannable ts"
      using BuildKeyInfos_groups(1) [OF b ki] BuildKeyInfos_value_ids(1,2) [OF b inp law ki] by (simp add: scannable_def i(2))
    moreover have "EncodeTokens ts = Some x" using list_all2_nthD [OF e(2) i(1)] i by simp
    ultimately show "scannable ts \<and> EncodeTokens ts = Some x" by blast
  qed
  let ?scan = "scan_of 0 0 ?keys"
  have "(\<Union>(ts, e) \<in> set ?keys. set ts) = (\<Union>ts \<in> set (map fst ?keys). set ts)" by auto
  also have "\<dots> = (\<Union>ki \<in> set kis. set (ki_tokens ki))" using l e(1) by simp
  finally have ids: "value_id ` set ?scan = reverse_id ` (\<Union>ki \<in> set kis. set (ki_tokens ki))" unfolding scan_of_ids by simp
  have vid: "trie_ids vstrs w \<in> value_id ` set ?scan" if w: "w \<in> set vstrs" for w
  proof -
    obtain ki ti where "ki \<in> set kis" "ti \<in> set (ki_tokens ki)" "reverse_id ti = trie_ids vstrs w"
      using value_has_reverse_id [OF b inp law w] by blast
    then show ?thesis unfolding ids by (intro image_eqI [of _ _ ti]) auto
  qed
  have rid: "reverse_id ti = -1 \<or> 0 \<le> reverse_id ti \<and> GetValueType h2k (token ti) = DEFAULT_VALUE"
    if ki: "ki \<in> set kis" and "ti \<in> set (ki_tokens ki)" for ki ti
  proof -
    from that obtain i where i: "i < length (ki_tokens ki)" "ti = ki_tokens ki ! i" by (auto simp: in_set_conv_nth)
    note f = BuildKeyInfos_value_ids [OF b inp law ki i(1), folded i(2)]
    show ?thesis using f(3,5,6) law by (auto simp: reverse_id_def trie_law_def)
  qed
  have "-1 \<le> value_id r" if "r \<in> set ?scan" for r
  proof -
    have "value_id r \<in> reverse_id ` (\<Union>ki \<in> set kis. set (ki_tokens ki))" using that unfolding ids [symmetric] by blast
    then show ?thesis using rid by fastforce
  qed
  moreover have "(\<forall>r \<in> set ?scan. value_id r = -1) \<longleftrightarrow> (\<forall>t \<in> set tokens. GetValueType h2k t \<noteq> DEFAULT_VALUE)"
  proof
    assume none: "\<forall>r \<in> set ?scan. value_id r = -1"
    show "\<forall>t \<in> set tokens. GetValueType h2k t \<noteq> DEFAULT_VALUE"
    proof (intro ballI notI)
      fix t assume t: "t \<in> set tokens" "GetValueType h2k t = DEFAULT_VALUE"
      have "t_key t \<in> set (map ki_key kis)" unfolding BuildKeyInfos_keys(1) [OF b] using t(1) by simp
      then obtain ki where ki: "ki \<in> set kis" "ki_key ki = t_key t" by auto
      have "t \<in> token ` set (ki_tokens ki)"
        using arg_cong [OF BuildKeyInfos_groups(3) [OF b ki(1)], of set_mset] t(1) ki(2) by simp
      then obtain i where i: "i < length (ki_tokens ki)" "token (ki_tokens ki ! i) = t" by (auto simp: in_set_conv_nth)
      from first_of_value(2) [OF b inp law ki(1) i(1)] i(2) t(2) obtain j where j: "j \<le> i"
        "reverse_id (ki_tokens ki ! j) = trie_ids vstrs (EncodeValue (t_value t))" by auto
      from first_of_value(1) [OF b inp law ki(1) i(1)] i(2) t(2) have "EncodeValue (t_value t) \<in> set vstrs" by simp
      then have "0 \<le> reverse_id (ki_tokens ki ! j)" using j(2) law by (simp add: trie_law_def)
      moreover have "reverse_id (ki_tokens ki ! j) \<in> value_id ` set ?scan"
        unfolding ids using ki(1) j(1) i(1) by (intro imageI UN_I [of ki]) simp_all
      ultimately show False using none by force
    qed
  next
    assume none: "\<forall>t \<in> set tokens. GetValueType h2k t \<noteq> DEFAULT_VALUE"
    show "\<forall>r \<in> set ?scan. value_id r = -1"
    proof
      fix r assume "r \<in> set ?scan"
      then have "value_id r \<in> reverse_id ` (\<Union>ki \<in> set kis. set (ki_tokens ki))" unfolding ids [symmetric] by blast
      then obtain ki ti where ki: "ki \<in> set kis" "ti \<in> set (ki_tokens ki)" "value_id r = reverse_id ti" by blast
      have "token ti \<in> set tokens"
        using arg_cong [OF BuildKeyInfos_groups(3) [OF b ki(1)], of set_mset] ki(2) by auto
      then show "value_id r = -1" using rid [OF ki(1,2)] ki(3) none by auto
    qed
  qed
  ultimately show thesis
    using that [OF d W(1) ScanAll_keys [OF a sc]] vid W(2,3) by simp
qed

lemma ReverseResults_scan:
  assumes "ScanAll (token_array d) = Some scan" "reverse_lookup_index d = None" "reverse_lookup_cache d = None"
  obtains c where "ReverseResults d vids = Some c" "\<forall>v \<in> set vids. 0 \<le> v \<longrightarrow> equal_range v c = found scan v"
  using ScanTokens_found [OF assms(1), of vids] assms(2,3) by (auto simp: ReverseResults_def)

lemma ReverseResults_cache:
  assumes "ScanAll (token_array d) = Some scan" "reverse_lookup_index d = None" "ScanTokens vids' d = Some cache"
    and "reverse_lookup_cache d' = Some cache" "token_array d' = token_array d" "reverse_lookup_index d' = None"
  obtains c where "ReverseResults d' vids = Some c" "\<forall>v \<in> set vids. 0 \<le> v \<longrightarrow> equal_range v c = found scan v"
proof (cases "IsAvailable vids cache")
  case False
  have "ScanTokens vids d' = ScanTokens vids d" by (simp add: ScanTokens_def assms(5))
  with False ScanTokens_found [OF assms(1), of vids] assms(4,6) that show ?thesis by (auto simp: ReverseResults_def)
next
  case True
  from ScanTokens_found [OF assms(1), of vids'] assms(3) have
    c: "\<forall>v. 0 \<le> v \<longrightarrow> equal_range v cache = (if v \<in> set vids' then found scan v else [])"
      "\<forall>v. 0 \<le> v \<longrightarrow> (v \<in> fst ` set cache \<longleftrightarrow> v \<in> set vids' \<and> found scan v \<noteq> [])" by auto
  have "equal_range v cache = found scan v" if "v \<in> set vids" "0 \<le> v" for v
    using c True that by (auto simp: IsAvailable_def list_all_iff)
  with True assms(4,6) that show ?thesis by (simp add: ReverseResults_def)
qed

lemma ReverseResults_index:
  assumes "reverse_lookup_index d = Some index" "\<forall>i < length index. index ! i = found scan (int i)"
    and "\<forall>v \<in> set vids. 0 \<le> v \<and> v < int (length index)" "distinct vids"
  obtains c where "ReverseResults d vids = Some c" "\<forall>v \<in> set vids. equal_range v c = found scan v"
proof -
  have "\<forall>v \<in> set vids. 0 \<le> v \<and> nat v < length index" using assms(3) by (auto simp: nat_less_iff)
  from FillResultMap_found [OF this assms(4), of "[]"] obtain m where
    m: "FillResultMap vids index [] = Some m" "\<forall>v \<in> set vids. equal_range v m = index ! nat v" by (auto simp: equal_range_def)
  have "equal_range v m = found scan v" if "v \<in> set vids" for v
    using m(2) assms(2,3) that by (simp add: nat_less_iff)
  with m(1) assms(1) that show ?thesis by (simp add: ReverseResults_def)
qed

text \<open>The ids of the value trie are all seen by the scan.\<close>

definition scanned :: "system_dictionary \<Rightarrow> scan_result list \<Rightarrow> bytes \<Rightarrow> bool" where
  "scanned d scan key \<longleftrightarrow>
     (\<forall>vids. AddKeyIdsOfAllPrefixes (value_trie d) key [] = Some vids \<longrightarrow>
       distinct vids \<and> (\<forall>v \<in> set vids. 0 \<le> v \<and> v \<in> value_id ` set scan))"

lemma LookupReverse_cache:
  assumes scan: "ScanAll (token_array d) = Some scan" and d: "reverse_lookup_index d = None" "reverse_lookup_cache d = None"
    and vids: "scanned d scan (EncodeValue str)" and cache: "ScanTokens S d = Some cache"
  shows "LookupReverse h2k k2h (d\<lparr>reverse_lookup_cache := Some cache\<rparr>) str cb s = LookupReverse h2k k2h d str cb s"
proof (rule LookupReverse_same)
  let ?dc = "d\<lparr>reverse_lookup_cache := Some cache\<rparr>"
  fix vs assume vs: "AddKeyIdsOfAllPrefixes (value_trie d) (EncodeValue str) [] = Some vs"
  obtain c where "ReverseResults d vs = Some c" "\<forall>v \<in> set vs. 0 \<le> v \<longrightarrow> equal_range v c = found scan v"
    by (rule ReverseResults_scan [OF scan d])
  moreover obtain c' where "ReverseResults ?dc vs = Some c'" "\<forall>v \<in> set vs. 0 \<le> v \<longrightarrow> equal_range v c' = found scan v"
    by (rule ReverseResults_cache [OF scan d(1) cache, of ?dc]) (use d(1) in simp_all)
  ultimately show "\<exists>c c'. ReverseResults d vs = Some c \<and> ReverseResults ?dc vs = Some c' \<and>
      (\<forall>v \<in> set vs. equal_range v c' = equal_range v c)"
    using vids vs by (auto simp: scanned_def)
qed (simp add: same_images_def)

lemma LookupReverse_index:
  assumes scan: "ScanAll (token_array d) = Some scan" and d: "reverse_lookup_index d = None" "reverse_lookup_cache d = None"
    and vids: "scanned d scan (EncodeValue str)" and index: "\<forall>i < length index. index ! i = found scan (int i)"
    "\<forall>r \<in> set scan. value_id r < int (length index)"
  shows "LookupReverse h2k k2h (d\<lparr>reverse_lookup_index := Some index\<rparr>) str cb s = LookupReverse h2k k2h d str cb s"
proof (rule LookupReverse_same)
  let ?di = "d\<lparr>reverse_lookup_index := Some index\<rparr>"
  fix vs assume vs: "AddKeyIdsOfAllPrefixes (value_trie d) (EncodeValue str) [] = Some vs"
  with vids have v: "distinct vs" "\<forall>v \<in> set vs. 0 \<le> v \<and> v \<in> value_id ` set scan" by (auto simp: scanned_def)
  obtain c where "ReverseResults d vs = Some c" "\<forall>v \<in> set vs. 0 \<le> v \<longrightarrow> equal_range v c = found scan v"
    by (rule ReverseResults_scan [OF scan d])
  moreover obtain c' where "ReverseResults ?di vs = Some c'" "\<forall>v \<in> set vs. equal_range v c' = found scan v"
    by (rule ReverseResults_index [of ?di index scan vs]) (use index v in auto)
  ultimately show "\<exists>c c'. ReverseResults d vs = Some c \<and> ReverseResults ?di vs = Some c' \<and>
      (\<forall>v \<in> set vs. equal_range v c' = equal_range v c)"
    using v by auto
qed (simp add: same_images_def)

text \<open>C4: The reverse lookup makes the same calls whether its results come from a scan of the token array, from a cache populated
  for any string, or from the index. The index can be made if some token has a value that is neither its key nor the key in
  Katakana; for a dictionary without such a token the check of the largest value id fails.\<close>
theorem reverse_lookup_sources_agree:
  assumes "\<forall>t \<in> set tokens. dict_token t" "(\<Sum>t \<leftarrow> tokens. token_weight t) < 2 ^ 26"
  shows "\<exists>d. MakeDictionary h2k min_key_len tokens = Some (Some d) \<and>
    (\<exists>dc. PopulateReverseLookupCache populated d = Some dc \<and>
       LookupReverse h2k k2h dc str cb s = LookupReverse h2k k2h d str cb s) \<and>
    (if \<forall>t \<in> set tokens. GetValueType h2k t \<noteq> DEFAULT_VALUE then InitReverseLookupIndex d = None
     else \<exists>di. InitReverseLookupIndex d = Some di \<and>
       LookupReverse h2k k2h di str cb s = LookupReverse h2k k2h d str cb s)"
proof -
  obtain d W D scan where d: "MakeDictionary h2k min_key_len tokens = Some (Some d)"
      "reverse_lookup_cache d = None" "reverse_lookup_index d = None"
    and W: "trie_of W D (value_trie d)" and scan: "ScanAll (token_array d) = Some scan" and r: "\<forall>r \<in> set scan. -1 \<le> value_id r"
    and v: "\<forall>w \<in> set W. int (key_number W (tl (nodes W D)) w) \<in> value_id ` set scan"
    and n: "(\<forall>r \<in> set scan. value_id r = -1) \<longleftrightarrow> (\<forall>t \<in> set tokens. GetValueType h2k t \<noteq> DEFAULT_VALUE)"
    by (rule made_reverse [OF assms, of h2k min_key_len])
  have vids: "scanned d scan (EncodeValue str)"
    using AddKeyIds_words [OF W, of "EncodeValue str" "[]"] v by (auto simp: scanned_def)
  obtain S where S: "CollectSuffixIds (value_trie d) populated [] = Some S" using CollectSuffixIds_words [OF W] by blast
  obtain cache where cache: "ScanTokens S d = Some cache" using ScanTokens_found [OF scan, of S] by blast
  have p: "PopulateReverseLookupCache populated d = Some (d\<lparr>reverse_lookup_cache := Some cache\<rparr>)"
    using d(3) S cache by (simp add: PopulateReverseLookupCache_def)
  note c = LookupReverse_cache [OF scan d(3,2) vids cache, of h2k k2h cb s]
  have i: "if \<forall>r \<in> set scan. value_id r = -1 then InitReverseLookupIndex d = None
    else \<exists>di. InitReverseLookupIndex d = Some di \<and> LookupReverse h2k k2h di str cb s = LookupReverse h2k k2h d str cb s"
    using NewReverseLookupIndex_found [OF scan r] LookupReverse_index [OF scan d(3,2) vids, of _ h2k k2h cb s] d(3)
    by (auto simp: InitReverseLookupIndex_def split: if_splits)
  from d(1) p c i n show ?thesis by (intro exI [of _ d]) auto
qed

lemma reverse_lookup_sources_agree_witness:
  "\<exists>d. MakeDictionary id 6 example_tokens = Some (Some d) \<and> 
    (\<exists>di. InitReverseLookupIndex d = Some di \<and> LookupReverse id id di [0x61] collect_values [] = LookupReverse id id d [0x61] collect_values []) \<and>
    (\<exists>dc. PopulateReverseLookupCache [0x61] d = Some dc \<and> LookupReverse id id dc [0x61] collect_values [] = LookupReverse id id d [0x61] collect_values [])"
proof -
  have "\<not> (\<forall>t \<in> set example_tokens. GetValueType id t \<noteq> DEFAULT_VALUE)"
    by (simp add: example_tokens_def GetValueType_def)
  from reverse_lookup_sources_agree [OF example_dictionary, of id 6 "[0x61]" id "[0x61]" collect_values "[]", unfolded if_not_P [OF this]]
  show ?thesis by blast
qed

end
