(* ===== verification/CandList.thy ===== *)
theory CandList
  imports Prelude
begin

text \<open>
  The candidate window's model, \<^verbatim>\<open>src/src/engine/candidate_list.cc\<close> and
  \<^verbatim>\<open>candidate_list.h\<close>: a list of candidates with a focus, some of which hold a list of their
  own. A result None is an access past the end of \<^verbatim>\<open>candidates_\<close>, undefined in C++.
\<close>

section \<open>Data\<close>

type_synonym Attributes = "32 word"

text \<open>\<^verbatim>\<open>Candidate\<close> and \<^verbatim>\<open>CandidateList\<close>; \<^verbatim>\<open>CityFingerprint\<close> of a value is given by the caller, as
  the list stores fingerprints only.\<close>

datatype Candidate =
  Candidate (cand_id: int) (cand_attributes: Attributes) (subcandidate_list: "CandidateList option")
and CandidateList =
  CandidateList (page_size: nat) (focused_index: nat) (candidates: "Candidate list")
    (added_candidates: "64 word \<rightharpoonup> int") (alternative_ids: "int \<rightharpoonup> int")
    (next_available_id_field: int) (rotate: bool) (focused: bool)

abbreviation HasSubcandidateList :: "Candidate \<Rightarrow> bool" where
  "HasSubcandidateList c \<equiv> subcandidate_list c \<noteq> None"

abbreviation csize :: "CandidateList \<Rightarrow> nat" where "csize l \<equiv> length (candidates l)"

text \<open>Assignments to one member.\<close>

definition set_focused_index :: "nat \<Rightarrow> CandidateList \<Rightarrow> CandidateList" where
  "set_focused_index i l = (case l of CandidateList p f cs a alt n r fo \<Rightarrow> CandidateList p i cs a alt n r fo)"

definition set_candidates :: "Candidate list \<Rightarrow> CandidateList \<Rightarrow> CandidateList" where
  "set_candidates cs l = (case l of CandidateList p f _ a alt n r fo \<Rightarrow> CandidateList p f cs a alt n r fo)"

definition set_added_candidates :: "(64 word \<rightharpoonup> int) \<Rightarrow> CandidateList \<Rightarrow> CandidateList" where
  "set_added_candidates a l = (case l of CandidateList p f cs _ alt n r fo \<Rightarrow> CandidateList p f cs a alt n r fo)"

definition set_alternative_ids :: "(int \<rightharpoonup> int) \<Rightarrow> CandidateList \<Rightarrow> CandidateList" where
  "set_alternative_ids alt l = (case l of CandidateList p f cs a _ n r fo \<Rightarrow> CandidateList p f cs a alt n r fo)"

definition set_next_available_id :: "int \<Rightarrow> CandidateList \<Rightarrow> CandidateList" where
  "set_next_available_id n l = (case l of CandidateList p f cs a alt _ r fo \<Rightarrow> CandidateList p f cs a alt n r fo)"

definition set_sub :: "CandidateList \<Rightarrow> Candidate \<Rightarrow> Candidate" where
  "set_sub s c = Candidate (cand_id c) (cand_attributes c) (Some s)"

definition add_attributes :: "Attributes \<Rightarrow> Candidate \<Rightarrow> Candidate" where
  "add_attributes a c = Candidate (cand_id c) (cand_attributes c OR a) (subcandidate_list c)"

definition has_attributes :: "Attributes \<Rightarrow> Candidate \<Rightarrow> bool" where
  "has_attributes a c \<longleftrightarrow> cand_attributes c AND a = a"

lemma set_fields [simp]:
  "page_size (set_focused_index i l) = page_size l" "focused_index (set_focused_index i l) = i"
  "candidates (set_focused_index i l) = candidates l" "rotate (set_focused_index i l) = rotate l"
  "alternative_ids (set_focused_index i l) = alternative_ids l"
  "added_candidates (set_focused_index i l) = added_candidates l"
  "page_size (set_candidates cs l) = page_size l" "focused_index (set_candidates cs l) = focused_index l"
  "candidates (set_candidates cs l) = cs" "rotate (set_candidates cs l) = rotate l"
  "alternative_ids (set_candidates cs l) = alternative_ids l"
  "added_candidates (set_candidates cs l) = added_candidates l"
  "candidates (set_added_candidates a l) = candidates l" "added_candidates (set_added_candidates a l) = a"
  "alternative_ids (set_added_candidates a l) = alternative_ids l"
  "candidates (set_alternative_ids alt l) = candidates l" "alternative_ids (set_alternative_ids alt l) = alt"
  "added_candidates (set_alternative_ids alt l) = added_candidates l"
  "candidates (set_next_available_id n l) = candidates l"
  "added_candidates (set_next_available_id n l) = added_candidates l"
  "alternative_ids (set_next_available_id n l) = alternative_ids l"
  by (cases l; simp add: set_focused_index_def set_candidates_def set_added_candidates_def
      set_alternative_ids_def set_next_available_id_def)+

lemma set_sub_simps [simp]:
  "subcandidate_list (set_sub s c) = Some s" "cand_id (set_sub s c) = cand_id c"
  by (simp_all add: set_sub_def)

text \<open>\<^verbatim>\<open>kDefaultPageSize\<close>, the constructor and \<^verbatim>\<open>Clear\<close>.\<close>

definition NewCandidateList :: "bool \<Rightarrow> CandidateList" where
  "NewCandidateList rot = CandidateList 9 0 [] Map.empty Map.empty 0 rot False"

definition ClearCandidateList :: "CandidateList \<Rightarrow> CandidateList" where
  "ClearCandidateList l = CandidateList (page_size l) 0 [] Map.empty Map.empty 0 (rotate l) False"

section \<open>Adding candidates\<close>

text \<open>\<^verbatim>\<open>AddCandidateWithAttributes(id, value, attributes)\<close>, given the fingerprint of the value.\<close>

definition AddCandidateWithAttributes :: "int \<Rightarrow> 64 word \<Rightarrow> Attributes \<Rightarrow> CandidateList \<Rightarrow> CandidateList" where
  "AddCandidateWithAttributes i fp attributes l0 =
     (let l = (if 0 \<le> i then set_next_available_id (i + 1) l0 else l0) in
      case added_candidates l fp of
        Some alt_id \<Rightarrow>
          set_candidates (map (\<lambda>c. if cand_id c = alt_id then add_attributes attributes c else c) (candidates l))
            (set_alternative_ids ((alternative_ids l)(i \<mapsto> alt_id)) l)
      | None \<Rightarrow>
          set_candidates (candidates l @ [Candidate i attributes None])
            (set_added_candidates ((added_candidates l)(fp \<mapsto> i)) l))"

text \<open>\<^verbatim>\<open>AddSubCandidateList\<close>: the new list is the last candidate's; the candidate keeps the id 0.\<close>

definition AddSubCandidateList :: "CandidateList \<Rightarrow> CandidateList" where
  "AddSubCandidateList l = set_candidates (candidates l @ [Candidate 0 0 (Some (NewCandidateList False))]) l"

section \<open>Reading\<close>

text \<open>The focused candidate, if the index is in bounds, and its list.\<close>

definition focused_candidate :: "CandidateList \<Rightarrow> Candidate option" where
  "focused_candidate l = (if focused_index l < csize l then Some (candidates l ! focused_index l) else None)"

lemma size_sub:
  "c \<in> set (candidates l) \<Longrightarrow> subcandidate_list c = Some s \<Longrightarrow> size s < size l"
proof (cases l)
  case (CandidateList p f cs a alt n r fo)
  assume c: "c \<in> set (candidates l)" and s: "subcandidate_list c = Some s"
  have "size s < size c" using s by (cases c) simp
  moreover have "size c < size_list size cs + 1" using c CandidateList by (simp add: size_list_estimation less_Suc_eq_le size_list_estimation')
  ultimately show ?thesis using CandidateList by simp
qed

lemma size_nth_sub:
  "i < csize l \<Longrightarrow> subcandidate_list (candidates l ! i) = Some s \<Longrightarrow> size s < size l"
  by (rule size_sub [of "candidates l ! i"]) simp_all

lemma size_mod_sub:
  "i < csize l \<Longrightarrow> subcandidate_list (candidates l ! ((n + i) mod csize l)) = Some s \<Longrightarrow> size s < size l"
  by (rule size_nth_sub [of "(n + i) mod csize l"], rule mod_less_divisor, linarith)

lemma size_focused_sub:
  "focused_candidate l = Some c \<Longrightarrow> subcandidate_list c = Some s \<Longrightarrow> size s < size l"
  by (rule size_sub [of c]) (auto simp: focused_candidate_def split: if_splits)

function focused_id :: "CandidateList \<Rightarrow> int option" where
  "focused_id l =
     (if csize l = 0 then Some 0
      else case focused_candidate l of
        None \<Rightarrow> None
      | Some c \<Rightarrow> (case subcandidate_list c of
                    Some s \<Rightarrow> focused_id s
                  | None \<Rightarrow> Some (cand_id c)))"
  by pat_completeness auto
termination by (relation "measure size") (auto dest: size_focused_sub)

function GetDeepestFocusedCandidate :: "CandidateList \<Rightarrow> Candidate option" where
  "GetDeepestFocusedCandidate l =
     (case focused_candidate l of
        None \<Rightarrow> None
      | Some c \<Rightarrow> (case subcandidate_list c of
                    Some s \<Rightarrow> GetDeepestFocusedCandidate s
                  | None \<Rightarrow> Some c))"
  by pat_completeness auto
termination by (relation "measure size") (auto dest: size_focused_sub)

function next_available_id :: "CandidateList \<Rightarrow> int" where
  "next_available_id l =
     fold (\<lambda>c result. case subcandidate_list c of
             Some s \<Rightarrow> (let sub_available_id = next_available_id s in
                       if result < sub_available_id then sub_available_id else result)
           | None \<Rightarrow> result) (candidates l) (next_available_id_field l)"
  by pat_completeness auto
termination by (relation "measure size") (auto dest: size_sub)

declare focused_id.simps [simp del] GetDeepestFocusedCandidate.simps [simp del] next_available_id.simps [simp del]

text \<open>\<^verbatim>\<open>GetPageRange\<close>; the modulus by a page size 0 is undefined.\<close>

definition GetPageRange :: "CandidateList \<Rightarrow> nat \<Rightarrow> nat \<times> nat" where
  "GetPageRange l index =
     (let begin = index - index mod page_size l in (begin, min (csize l) (begin + page_size l)))"

definition IsLast :: "CandidateList \<Rightarrow> nat \<Rightarrow> bool" where "IsLast l index \<longleftrightarrow> index = csize l - 1"
definition IsFirstPage :: "CandidateList \<Rightarrow> nat \<Rightarrow> bool" where "IsFirstPage l index \<longleftrightarrow> index < page_size l"
definition IsLastPage :: "CandidateList \<Rightarrow> nat \<Rightarrow> bool" where "IsLastPage l index \<longleftrightarrow> snd (GetPageRange l index) = csize l"

section \<open>Moving the focus\<close>

definition MoveFirst :: "CandidateList \<Rightarrow> CandidateList" where "MoveFirst l = set_focused_index 0 l"
definition MoveLast :: "CandidateList \<Rightarrow> CandidateList" where "MoveLast l = set_focused_index (csize l - 1) l"

definition store_sub :: "nat \<Rightarrow> CandidateList \<Rightarrow> CandidateList \<Rightarrow> CandidateList" where
  "store_sub i s l = set_candidates ((candidates l)[i := set_sub s (candidates l ! i)]) l"

text \<open>The end of every move: the list of the newly focused candidate, if any, moves as well.\<close>

definition MoveFocusedSub :: "(CandidateList \<Rightarrow> CandidateList) \<Rightarrow> CandidateList \<Rightarrow> CandidateList option" where
  "MoveFocusedSub move l =
     (case focused_candidate l of
        None \<Rightarrow> None
      | Some c \<Rightarrow> (case subcandidate_list c of
                    Some s \<Rightarrow> Some (store_sub (focused_index l) (move s) l)
                  | None \<Rightarrow> Some l))"

text \<open>The beginning of every move: the focused candidate's list is asked first. The result is the
  list with the changed sublist and whether it moved.\<close>

definition AskSub :: "(CandidateList \<Rightarrow> (CandidateList \<times> bool) option) \<Rightarrow> CandidateList \<Rightarrow> (CandidateList \<times> bool) option" where
  "AskSub move l =
     (case focused_candidate l of
        None \<Rightarrow> None
      | Some c \<Rightarrow> (case subcandidate_list c of
                    Some s \<Rightarrow> (case move s of
                                None \<Rightarrow> None
                              | Some (s', moved) \<Rightarrow> Some (store_sub (focused_index l) s' l, moved))
                  | None \<Rightarrow> Some (l, False)))"

lemma AskSub_cong [fundef_cong]:
  assumes "l = l'" "\<And>c s. focused_candidate l' = Some c \<Longrightarrow> subcandidate_list c = Some s \<Longrightarrow> move s = move' s"
  shows "AskSub move l = AskSub move' l'"
  using assms by (auto simp: AskSub_def split: option.split)

function MoveNext :: "CandidateList \<Rightarrow> (CandidateList \<times> bool) option" where
  "MoveNext l0 =
     (case AskSub MoveNext l0 of
        None \<Rightarrow> None
      | Some (l, moved) \<Rightarrow>
          if moved then Some (l, True)
          else if IsLast l (focused_index l) \<and> \<not> rotate l then Some (MoveFirst l, False)
          else (let l1 = (if IsLast l (focused_index l) then MoveFirst l else set_focused_index (focused_index l + 1) l)
                in map_option (\<lambda>l2. (l2, True)) (MoveFocusedSub MoveFirst l1)))"
  by pat_completeness auto
termination by (relation "measure size") (auto dest: size_focused_sub)

function MovePrev :: "CandidateList \<Rightarrow> (CandidateList \<times> bool) option" where
  "MovePrev l0 =
     (case AskSub MovePrev l0 of
        None \<Rightarrow> None
      | Some (l, moved) \<Rightarrow>
          if moved then Some (l, True)
          else if focused_index l = 0 \<and> \<not> rotate l then Some (MoveLast l, False)
          else (let l1 = (if focused_index l = 0 then MoveLast l else set_focused_index (focused_index l - 1) l)
                in map_option (\<lambda>l2. (l2, True)) (MoveFocusedSub MoveLast l1)))"
  by pat_completeness auto
termination by (relation "measure size") (auto dest: size_focused_sub)

function MoveNextPage :: "CandidateList \<Rightarrow> (CandidateList \<times> bool) option" where
  "MoveNextPage l0 =
     (case AskSub MoveNextPage l0 of
        None \<Rightarrow> None
      | Some (l, moved) \<Rightarrow>
          if moved then Some (l, True)
          else if IsLastPage l (focused_index l) \<and> \<not> rotate l then Some (l, False)
          else (let l1 = (if IsLastPage l (focused_index l) then MoveFirst l
                          else set_focused_index (focused_index l + page_size l) l);
                    l2 = set_focused_index (focused_index l1 - focused_index l1 mod page_size l1) l1
                in map_option (\<lambda>l3. (l3, True)) (MoveFocusedSub MoveFirst l2)))"
  by pat_completeness auto
termination by (relation "measure size") (auto dest: size_focused_sub)

function MovePrevPage :: "CandidateList \<Rightarrow> (CandidateList \<times> bool) option" where
  "MovePrevPage l0 =
     (case AskSub MovePrevPage l0 of
        None \<Rightarrow> None
      | Some (l, moved) \<Rightarrow>
          if moved then Some (l, True)
          else if IsFirstPage l (focused_index l) \<and> \<not> rotate l then Some (l, False)
          else (let l1 = (if IsFirstPage l (focused_index l) then MoveLast l
                          else set_focused_index (focused_index l - page_size l) l);
                    l2 = set_focused_index (focused_index l1 - focused_index l1 mod page_size l1) l1
                in map_option (\<lambda>l3. (l3, True)) (MoveFocusedSub MoveFirst l2)))"
  by pat_completeness auto
termination by (relation "measure size") (auto dest: size_focused_sub)

text \<open>
  \<^verbatim>\<open>MoveToAttributes\<close> and \<^verbatim>\<open>MoveToId\<close> write only before they return true: Some is true with the
  list moved, None is false with the list unchanged. \<^verbatim>\<open>cand_size\<close> 0 makes no round of the loop.
\<close>

function MoveToAttributes :: "Attributes \<Rightarrow> CandidateList \<Rightarrow> CandidateList option"
  and MoveToAttributesFrom :: "Attributes \<Rightarrow> CandidateList \<Rightarrow> nat \<Rightarrow> CandidateList option" where
  "MoveToAttributes attributes l = MoveToAttributesFrom attributes l 0"
| "MoveToAttributesFrom attributes l i =
     (if i < csize l then
        (let index = (focused_index l + i) mod csize l; cand = candidates l ! index in
         case (case subcandidate_list cand of None \<Rightarrow> None | Some s \<Rightarrow> MoveToAttributes attributes s) of
           Some s' \<Rightarrow> Some (set_focused_index index (store_sub index s' l))
         | None \<Rightarrow> if has_attributes attributes cand then Some (set_focused_index index l)
                   else MoveToAttributesFrom attributes l (i + 1))
      else None)"
  by pat_completeness auto
termination
  by (relation "measures [\<lambda>x. case x of Inl (a, l) \<Rightarrow> size l | Inr (a, l, i) \<Rightarrow> size l,
        \<lambda>x. case x of Inl (a, l) \<Rightarrow> Suc (csize l) | Inr (a, l, i) \<Rightarrow> csize l - i]")
    (auto dest: size_nth_sub size_mod_sub)

definition MoveNextAttributes :: "Attributes \<Rightarrow> CandidateList \<Rightarrow> (CandidateList \<times> bool) option" where
  "MoveNextAttributes attributes l =
     (case MoveNext l of
        None \<Rightarrow> None
      | Some (l1, _) \<Rightarrow> (case MoveToAttributes attributes l1 of
                         Some l2 \<Rightarrow> Some (l2, True) | None \<Rightarrow> Some (l1, False)))"

function MoveToId :: "int \<Rightarrow> CandidateList \<Rightarrow> CandidateList option"
  and MoveToIdFrom :: "int \<Rightarrow> CandidateList \<Rightarrow> nat \<Rightarrow> CandidateList option" where
  "MoveToId base_id l =
     MoveToIdFrom (case alternative_ids l base_id of Some alt \<Rightarrow> alt | None \<Rightarrow> base_id) l 0"
| "MoveToIdFrom target l i =
     (if i < csize l then
        (let cand = candidates l ! i in
         case (case subcandidate_list cand of None \<Rightarrow> None | Some s \<Rightarrow> MoveToId target s) of
           Some s' \<Rightarrow> Some (set_focused_index i (store_sub i s' l))
         | None \<Rightarrow> if cand_id cand = target then Some (set_focused_index i l)
                   else MoveToIdFrom target l (i + 1))
      else None)"
  by pat_completeness auto
termination
  by (relation "measures [\<lambda>x. case x of Inl (a, l) \<Rightarrow> size l | Inr (a, l, i) \<Rightarrow> size l,
        \<lambda>x. case x of Inl (a, l) \<Rightarrow> Suc (csize l) | Inr (a, l, i) \<Rightarrow> csize l - i]")
    (auto dest: size_nth_sub size_mod_sub)

definition MoveToPageIndex :: "nat \<Rightarrow> CandidateList \<Rightarrow> (CandidateList \<times> bool) option" where
  "MoveToPageIndex page_index l =
     (case GetPageRange l (focused_index l) of (begin, end_) \<Rightarrow>
        if end_ \<le> begin + page_index then Some (l, False)
        else map_option (\<lambda>l'. (l', True)) (MoveFocusedSub MoveFirst (set_focused_index (begin + page_index) l)))"

declare MoveNext.simps [simp del] MovePrev.simps [simp del] MoveNextPage.simps [simp del]
  MovePrevPage.simps [simp del] MoveToAttributes.simps [simp del] MoveToAttributesFrom.simps [simp del]
  MoveToId.simps [simp del] MoveToIdFrom.simps [simp del]

section \<open>The invariant: every focus is in bounds\<close>

function wf_list :: "CandidateList \<Rightarrow> bool" where
  "wf_list l \<longleftrightarrow> 0 < page_size l \<and> focused_index l < csize l
     \<and> list_all (\<lambda>c. case subcandidate_list c of None \<Rightarrow> True | Some s \<Rightarrow> wf_list s) (candidates l)"
  by pat_completeness auto
termination by (relation "measure size") (auto dest: size_sub)

text \<open>The ids of the candidates that hold no list, in the order they are shown.\<close>

function leaves :: "CandidateList \<Rightarrow> int list" where
  "leaves l = concat (map (\<lambda>c. case subcandidate_list c of None \<Rightarrow> [cand_id c] | Some s \<Rightarrow> leaves s) (candidates l))"
  by pat_completeness auto
termination by (relation "measure size") (auto dest: size_sub)

declare wf_list.simps [simp del] leaves.simps [simp del]

text \<open>The list without its focuses: what no move may change.\<close>

function unfocus :: "CandidateList \<Rightarrow> CandidateList" where
  "unfocus l = set_focused_index 0 (set_candidates
     (map (\<lambda>c. Candidate (cand_id c) (cand_attributes c)
             (case subcandidate_list c of None \<Rightarrow> None | Some s \<Rightarrow> Some (unfocus s))) (candidates l)) l)"
  by pat_completeness auto
termination by (relation "measure size") (auto dest: size_sub)

declare unfocus.simps [simp del]

definition unfocus_cand :: "Candidate \<Rightarrow> Candidate" where
  "unfocus_cand c = Candidate (cand_id c) (cand_attributes c) (map_option unfocus (subcandidate_list c))"

lemma unfocus_eq: "unfocus l = set_focused_index 0 (set_candidates (map unfocus_cand (candidates l)) l)"
proof -
  have "(\<lambda>c. Candidate (cand_id c) (cand_attributes c)
      (case subcandidate_list c of None \<Rightarrow> None | Some s \<Rightarrow> Some (unfocus s))) = unfocus_cand"
    by (rule ext) (simp add: unfocus_cand_def split: option.split)
  then show ?thesis by (subst unfocus.simps) simp
qed

definition same_shape :: "CandidateList \<Rightarrow> CandidateList \<Rightarrow> bool" where
  "same_shape l l' \<longleftrightarrow> wf_list l' \<and> unfocus l' = unfocus l"

lemma set_field_absorb [simp]:
  "set_focused_index i (set_focused_index j l) = set_focused_index i l"
  "set_candidates cs (set_candidates ds l) = set_candidates cs l"
  "set_candidates cs (set_focused_index i l) = set_focused_index i (set_candidates cs l)"
  by (cases l; simp add: set_focused_index_def set_candidates_def)+

lemma unfocus_fields [simp]:
  "csize (unfocus l) = csize l" "page_size (unfocus l) = page_size l" "rotate (unfocus l) = rotate l"
  by (simp_all add: unfocus_eq [of l])

lemma leaves_unfocus [simp]: "leaves (unfocus l) = leaves l"
proof (induction l rule: leaves.induct)
  case (1 l)
  have c: "candidates (unfocus l) = map unfocus_cand (candidates l)" by (simp add: unfocus_eq [of l])
  show ?case
    unfolding leaves.simps [of "unfocus l"] leaves.simps [of l] c
    using 1 by (auto simp: comp_def unfocus_cand_def intro!: arg_cong [of _ _ concat] map_cong split: option.split)
qed

lemma same_shapeD:
  assumes "same_shape l l'"
  shows "leaves l' = leaves l" "csize l' = csize l" "page_size l' = page_size l" "rotate l' = rotate l"
  using assms unfolding same_shape_def by (metis leaves_unfocus unfocus_fields)+

lemma same_shape_refl: "wf_list l \<Longrightarrow> same_shape l l"
  by (simp add: same_shape_def)

lemma same_shape_trans: "same_shape a b \<Longrightarrow> same_shape b c \<Longrightarrow> same_shape a c"
  by (simp add: same_shape_def)

lemma wf_list_nth: "wf_list l \<Longrightarrow> i < csize l \<Longrightarrow> subcandidate_list (candidates l ! i) = Some s \<Longrightarrow> wf_list s"
  by (subst (asm) wf_list.simps) (auto simp: list_all_iff split: option.splits dest: nth_mem)

lemma wf_list_bounds: "wf_list l \<Longrightarrow> 0 < page_size l \<and> focused_index l < csize l"
  by (subst (asm) wf_list.simps) simp

lemma focused_candidate_wf [simp]:
  "wf_list l \<Longrightarrow> focused_candidate l = Some (candidates l ! focused_index l)"
  by (simp add: focused_candidate_def wf_list_bounds)

lemma set_focused_index_shape:
  "wf_list l \<Longrightarrow> i < csize l \<Longrightarrow> same_shape l (set_focused_index i l)"
  unfolding same_shape_def by (subst (asm) wf_list.simps) (subst wf_list.simps, simp add: unfocus_eq)

lemma store_sub_simps [simp]:
  "focused_index (store_sub i s l) = focused_index l" "page_size (store_sub i s l) = page_size l"
  "rotate (store_sub i s l) = rotate l" "csize (store_sub i s l) = csize l"
  "candidates (store_sub i s l) = (candidates l)[i := set_sub s (candidates l ! i)]"
  by (simp_all add: store_sub_def)

lemma map_update_same: "f y = f (xs ! i) \<Longrightarrow> map f (xs[i := y]) = map f xs"
  by (metis list_update_id map_update)

lemma store_sub_shape:
  assumes "wf_list l" "i < csize l" "subcandidate_list (candidates l ! i) = Some s" "same_shape s s'"
  shows "same_shape l (store_sub i s' l)"
proof -
  have "map unfocus_cand (candidates (store_sub i s' l)) = map unfocus_cand (candidates l)"
    using assms(3,4) by (simp add: map_update_same same_shape_def set_sub_def unfocus_cand_def)
  then have "unfocus (store_sub i s' l) = unfocus l"
    by (subst unfocus_eq, subst unfocus_eq) (simp only: store_sub_def set_fields set_field_absorb)
  moreover have "wf_list (store_sub i s' l)"
    using assms unfolding wf_list.simps [of l] wf_list.simps [of "store_sub i s' l"] store_sub_simps
    by (auto simp: list_all_iff same_shape_def dest!: set_update_subset_insert [THEN subsetD] split: option.splits)
  ultimately show ?thesis by (simp add: same_shape_def)
qed

definition good_move :: "(CandidateList \<Rightarrow> (CandidateList \<times> bool) option) \<Rightarrow> CandidateList \<Rightarrow> bool" where
  "good_move move l \<longleftrightarrow> (\<exists>l' b. move l = Some (l', b) \<and> same_shape l l')"

lemma AskSub_shape:
  assumes wf: "wf_list l"
    and IH: "\<And>c s. focused_candidate l = Some c \<Longrightarrow> subcandidate_list c = Some s \<Longrightarrow> wf_list s \<Longrightarrow> good_move move s"
  obtains l' b where "AskSub move l = Some (l', b)" "same_shape l l'" "focused_index l' = focused_index l"
proof (cases "subcandidate_list (candidates l ! focused_index l)")
  case None
  with wf show ?thesis by (intro that [of l False]) (simp_all add: AskSub_def same_shape_refl)
next
  case (Some s)
  have ws: "wf_list s" using wf_list_nth [OF wf _ Some] wf_list_bounds [OF wf] by blast
  have "good_move move s" using IH [OF _ Some ws] wf by simp
  then obtain s' b where s': "move s = Some (s', b)" "same_shape s s'" by (auto simp: good_move_def)
  then show ?thesis
    using wf Some store_sub_shape [OF wf _ Some s'(2)] wf_list_bounds [OF wf]
    by (intro that [of "store_sub (focused_index l) s' l" b]) (simp_all add: AskSub_def)
qed

lemma MoveFocusedSub_shape:
  assumes wf: "wf_list l" and move: "\<And>s. wf_list s \<Longrightarrow> same_shape s (move s)"
  obtains l' where "MoveFocusedSub move l = Some l'" "same_shape l l'" "focused_index l' = focused_index l"
proof (cases "subcandidate_list (candidates l ! focused_index l)")
  case None
  with wf show ?thesis by (intro that [of l]) (simp_all add: MoveFocusedSub_def same_shape_refl)
next
  case (Some s)
  have b: "focused_index l < csize l" using wf_list_bounds [OF wf] by blast
  have "wf_list s" by (rule wf_list_nth [OF wf b Some])
  then have "same_shape l (store_sub (focused_index l) (move s) l)"
    using store_sub_shape [OF wf b Some] move by blast
  with wf Some show ?thesis
    by (intro that [of "store_sub (focused_index l) (move s) l"]) (simp_all add: MoveFocusedSub_def)
qed

lemma MoveFirst_shape: "wf_list s \<Longrightarrow> same_shape s (MoveFirst s)"
  unfolding MoveFirst_def using wf_list_bounds [of s] by (intro set_focused_index_shape) auto

lemma MoveLast_shape: "wf_list s \<Longrightarrow> same_shape s (MoveLast s)"
  unfolding MoveLast_def using wf_list_bounds [of s] by (intro set_focused_index_shape) auto

text \<open>The second half of a move, to an index in bounds.\<close>

lemma good_finish:
  assumes wf: "wf_list l" and i: "i < csize l" and move: "\<And>s. wf_list s \<Longrightarrow> same_shape s (move s)"
  shows "\<exists>l' b. map_option (\<lambda>l2. (l2, True)) (MoveFocusedSub move (set_focused_index i l)) = Some (l', b) \<and> same_shape l l'"
proof -
  have s: "same_shape l (set_focused_index i l)" by (rule set_focused_index_shape [OF wf i])
  then have "wf_list (set_focused_index i l)" by (simp add: same_shape_def)
  then obtain l' where "MoveFocusedSub move (set_focused_index i l) = Some l'" "same_shape (set_focused_index i l) l'"
    by (rule MoveFocusedSub_shape [OF _ move])
  with s same_shape_trans show ?thesis by auto
qed

lemma good_move_after_ask:
  assumes ask: "AskSub move l0 = Some (l, m)" "same_shape l0 l"
    and rest: "\<exists>l' b. r = Some (l', b) \<and> same_shape l l'"
    and eq: "move' l0 = (if m then Some (l, True) else r)"
  shows "good_move move' l0"
  using assms same_shape_trans same_shape_refl unfolding good_move_def by (cases m) auto

lemma MoveNext_good: "wf_list l \<Longrightarrow> good_move MoveNext l"
proof (induction l rule: MoveNext.induct)
  case (1 l0)
  obtain l m where a: "AskSub MoveNext l0 = Some (l, m)" "same_shape l0 l" "focused_index l = focused_index l0"
    by (rule AskSub_shape [OF "1.prems" "1.IH"])
  then have wf: "wf_list l" by (simp add: same_shape_def)
  note b = wf_list_bounds [OF wf]
  let ?i = "if IsLast l (focused_index l) then 0 else focused_index l + 1"
  have i: "?i < csize l" using b by (auto simp: IsLast_def)
  show ?case
  proof (rule good_move_after_ask [OF a(1,2)])
    show "MoveNext l0 = (if m then Some (l, True) else if IsLast l (focused_index l) \<and> \<not> rotate l then Some (MoveFirst l, False)
       else map_option (\<lambda>l2. (l2, True)) (MoveFocusedSub MoveFirst (set_focused_index ?i l)))"
      by (subst MoveNext.simps) (simp add: a(1) MoveFirst_def)
    show "\<exists>l' b. (if IsLast l (focused_index l) \<and> \<not> rotate l then Some (MoveFirst l, False)
       else map_option (\<lambda>l2. (l2, True)) (MoveFocusedSub MoveFirst (set_focused_index ?i l))) = Some (l', b) \<and> same_shape l l'"
      using good_finish [OF wf i MoveFirst_shape] MoveFirst_shape [OF wf] by auto
  qed
qed

lemma MovePrev_good: "wf_list l \<Longrightarrow> good_move MovePrev l"
proof (induction l rule: MovePrev.induct)
  case (1 l0)
  obtain l m where a: "AskSub MovePrev l0 = Some (l, m)" "same_shape l0 l" "focused_index l = focused_index l0"
    by (rule AskSub_shape [OF "1.prems" "1.IH"])
  then have wf: "wf_list l" by (simp add: same_shape_def)
  note b = wf_list_bounds [OF wf]
  let ?i = "if focused_index l = 0 then csize l - 1 else focused_index l - 1"
  have i: "?i < csize l" using b by auto
  show ?case
  proof (rule good_move_after_ask [OF a(1,2)])
    show "MovePrev l0 = (if m then Some (l, True) else if focused_index l = 0 \<and> \<not> rotate l then Some (MoveLast l, False)
       else map_option (\<lambda>l2. (l2, True)) (MoveFocusedSub MoveLast (set_focused_index ?i l)))"
      by (subst MovePrev.simps) (simp add: a(1) MoveLast_def)
    show "\<exists>l' b. (if focused_index l = 0 \<and> \<not> rotate l then Some (MoveLast l, False)
       else map_option (\<lambda>l2. (l2, True)) (MoveFocusedSub MoveLast (set_focused_index ?i l))) = Some (l', b) \<and> same_shape l l'"
      using good_finish [OF wf i MoveLast_shape] MoveLast_shape [OF wf] by auto
  qed
qed

lemma page_begin: "(i :: nat) - i mod p \<le> i" by simp

text \<open>Off the last page, the next page begins in bounds.\<close>

lemma next_page_bounds:
  assumes "wf_list l" "\<not> IsLastPage l (focused_index l)"
  shows "focused_index l + page_size l - (focused_index l + page_size l) mod page_size l < csize l"
    "focused_index l + page_size l - (focused_index l + page_size l) mod page_size l
       = fst (GetPageRange l (focused_index l)) + page_size l"
proof -
  let ?f = "focused_index l" and ?p = "page_size l"
  have "?f mod ?p \<le> ?f" by simp
  then have e: "?f + ?p - (?f + ?p) mod ?p = ?f - ?f mod ?p + ?p" by simp
  then show "?f + ?p - (?f + ?p) mod ?p = fst (GetPageRange l ?f) + ?p" by (simp add: GetPageRange_def Let_def)
  show "?f + ?p - (?f + ?p) mod ?p < csize l"
    using assms(2) unfolding e by (auto simp: IsLastPage_def GetPageRange_def Let_def min_def split: if_splits)
qed

lemma MoveNextPage_good: "wf_list l \<Longrightarrow> good_move MoveNextPage l"
proof (induction l rule: MoveNextPage.induct)
  case (1 l0)
  obtain l m where a: "AskSub MoveNextPage l0 = Some (l, m)" "same_shape l0 l" "focused_index l = focused_index l0"
    by (rule AskSub_shape [OF "1.prems" "1.IH"])
  then have wf: "wf_list l" by (simp add: same_shape_def)
  note b = wf_list_bounds [OF wf]
  let ?f1 = "if IsLastPage l (focused_index l) then 0 else focused_index l + page_size l"
  let ?i = "?f1 - ?f1 mod page_size l"
  have i: "?i < csize l" using b next_page_bounds(1) [OF wf] by auto
  have sf: "set_focused_index j (set_focused_index k l) = set_focused_index j l" for j k l
    by (cases l) (simp add: set_focused_index_def)
  show ?case
  proof (rule good_move_after_ask [OF a(1,2)])
    show "MoveNextPage l0 = (if m then Some (l, True) else if IsLastPage l (focused_index l) \<and> \<not> rotate l then Some (l, False)
       else map_option (\<lambda>l2. (l2, True)) (MoveFocusedSub MoveFirst (set_focused_index ?i l)))"
      by (subst MoveNextPage.simps) (simp add: a(1) MoveFirst_def Let_def sf)
    show "\<exists>l' b. (if IsLastPage l (focused_index l) \<and> \<not> rotate l then Some (l, False)
       else map_option (\<lambda>l2. (l2, True)) (MoveFocusedSub MoveFirst (set_focused_index ?i l))) = Some (l', b) \<and> same_shape l l'"
      using good_finish [OF wf i MoveFirst_shape] same_shape_refl [OF wf] by auto
  qed
qed

lemma MovePrevPage_good: "wf_list l \<Longrightarrow> good_move MovePrevPage l"
proof (induction l rule: MovePrevPage.induct)
  case (1 l0)
  obtain l m where a: "AskSub MovePrevPage l0 = Some (l, m)" "same_shape l0 l" "focused_index l = focused_index l0"
    by (rule AskSub_shape [OF "1.prems" "1.IH"])
  then have wf: "wf_list l" by (simp add: same_shape_def)
  note b = wf_list_bounds [OF wf]
  let ?f1 = "if IsFirstPage l (focused_index l) then csize l - 1 else focused_index l - page_size l"
  let ?i = "?f1 - ?f1 mod page_size l"
  have "?f1 < csize l" using b by auto
  then have i: "?i < csize l" by (rule le_less_trans [OF diff_le_self])
  have sf: "set_focused_index j (set_focused_index k l) = set_focused_index j l" for j k l
    by (cases l) (simp add: set_focused_index_def)
  show ?case
  proof (rule good_move_after_ask [OF a(1,2)])
    show "MovePrevPage l0 = (if m then Some (l, True) else if IsFirstPage l (focused_index l) \<and> \<not> rotate l then Some (l, False)
       else map_option (\<lambda>l2. (l2, True)) (MoveFocusedSub MoveFirst (set_focused_index ?i l)))"
      by (subst MovePrevPage.simps) (simp add: a(1) MoveLast_def Let_def sf)
    show "\<exists>l' b. (if IsFirstPage l (focused_index l) \<and> \<not> rotate l then Some (l, False)
       else map_option (\<lambda>l2. (l2, True)) (MoveFocusedSub MoveFirst (set_focused_index ?i l))) = Some (l', b) \<and> same_shape l l'"
      using good_finish [OF wf i MoveFirst_shape] same_shape_refl [OF wf] by auto
  qed
qed

section \<open>The focus as a position in the flat list of leaves\<close>

text \<open>The lists the converter builds: one level of lists, which do not rotate.\<close>

definition flat :: "CandidateList \<Rightarrow> bool" where
  "flat s \<longleftrightarrow> list_all (\<lambda>c. subcandidate_list c = None) (candidates s)"

definition two_level :: "CandidateList \<Rightarrow> bool" where
  "two_level l \<longleftrightarrow> wf_list l \<and> list_all (\<lambda>c. case subcandidate_list c of None \<Rightarrow> True
     | Some s \<Rightarrow> flat s \<and> \<not> rotate s) (candidates l)"

definition width :: "Candidate \<Rightarrow> nat" where
  "width c = (case subcandidate_list c of None \<Rightarrow> 1 | Some s \<Rightarrow> csize s)"

definition widths :: "CandidateList \<Rightarrow> nat list" where "widths l = map width (candidates l)"

definition start :: "CandidateList \<Rightarrow> nat \<Rightarrow> nat" where "start l i = sum_list (take i (widths l))"

definition total :: "CandidateList \<Rightarrow> nat" where "total l = sum_list (widths l)"

definition inner :: "Candidate \<Rightarrow> nat" where
  "inner c = (case subcandidate_list c of None \<Rightarrow> 0 | Some s \<Rightarrow> focused_index s)"

definition position :: "CandidateList \<Rightarrow> nat" where
  "position l = start l (focused_index l) + inner (candidates l ! focused_index l)"

lemma leaves_flat: "flat s \<Longrightarrow> leaves s = map cand_id (candidates s)"
proof -
  assume "flat s"
  then have m: "map (\<lambda>c. case subcandidate_list c of None \<Rightarrow> [cand_id c] | Some s \<Rightarrow> leaves s) (candidates s)
      = map (\<lambda>c. [cand_id c]) (candidates s)"
    by (auto simp: flat_def list_all_iff)
  show ?thesis unfolding leaves.simps [of s] m by simp
qed

lemma two_level_nth:
  assumes "two_level l" "i < csize l" "subcandidate_list (candidates l ! i) = Some s"
  shows "flat s" "\<not> rotate s" "wf_list s"
proof -
  have "list_all (\<lambda>c. case subcandidate_list c of None \<Rightarrow> True | Some s \<Rightarrow> flat s \<and> \<not> rotate s) (candidates l)"
    using assms(1) by (simp add: two_level_def)
  with assms(2,3) show "flat s" "\<not> rotate s" by (auto simp: list_all_length)
  show "wf_list s" using assms wf_list_nth by (auto simp: two_level_def)
qed

lemma width_pos:
  assumes "two_level l" "i < csize l"
  shows "0 < width (candidates l ! i)"
proof (cases "subcandidate_list (candidates l ! i)")
  case (Some s)
  have "focused_index s < csize s" using wf_list_bounds [OF two_level_nth(3) [OF assms Some]] by simp
  then show ?thesis using Some by (auto simp: width_def)
qed (simp add: width_def)

lemma start_Suc: "i < csize l \<Longrightarrow> start l (Suc i) = start l i + width (candidates l ! i)"
  by (simp add: start_def widths_def take_Suc_conv_app_nth)

lemma start_0 [simp]: "start l 0 = 0" by (simp add: start_def)

lemma start_all: "start l (csize l) = total l" by (simp add: start_def total_def widths_def)

lemma start_mono: "i \<le> j \<Longrightarrow> start l i \<le> start l j"
  unfolding start_def by (metis le_add1 le_add_diff_inverse sum_list_append take_add)

lemma start_less: "two_level l \<Longrightarrow> i < csize l \<Longrightarrow> i < j \<Longrightarrow> start l i < start l j"
  using start_mono [of "Suc i" j l] width_pos [of l i] start_Suc [of i l] by simp

lemma inner_less: "two_level l \<Longrightarrow> i < csize l \<Longrightarrow> inner (candidates l ! i) < width (candidates l ! i)"
  using two_level_nth(3) [of l i] wf_list_bounds by (auto simp: width_def inner_def split: option.splits)

lemma position_less: "two_level l \<Longrightarrow> position l < total l"
proof -
  assume t: "two_level l"
  then have f: "focused_index l < csize l" using wf_list_bounds by (simp add: two_level_def)
  have "position l < start l (Suc (focused_index l))"
    using inner_less [OF t f] by (simp add: position_def start_Suc [OF f])
  also have "\<dots> \<le> total l" using start_mono [of "Suc (focused_index l)" "csize l" l] f by (simp add: start_all)
  finally show ?thesis .
qed

lemma length_leaves: "two_level l \<Longrightarrow> length (leaves l) = total l"
proof -
  assume t: "two_level l"
  have "length (case subcandidate_list c of None \<Rightarrow> [cand_id c] | Some s \<Rightarrow> leaves s) = width c"
    if "c \<in> set (candidates l)" for c
  proof (cases "subcandidate_list c")
    case (Some s)
    then have "flat s" using t that by (auto simp: two_level_def list_all_iff)
    then show ?thesis using Some by (simp add: width_def leaves_flat)
  qed (simp add: width_def)
  then show ?thesis unfolding leaves.simps [of l] total_def widths_def
    by (simp add: length_concat comp_def cong: map_cong)
qed

text \<open>The focused id is the leaf at the position.\<close>

lemma nth_concat_start:
  assumes "i < length xss" "j < length (xss ! i)"
  shows "concat xss ! (sum_list (map length (take i xss)) + j) = xss ! i ! j"
  using assms
proof (induction xss arbitrary: i)
  case (Cons xs xss)
  then show ?case by (cases i) (auto simp: nth_append)
qed simp

lemma focused_id_position:
  assumes t: "two_level l"
  shows "focused_id l = Some (leaves l ! position l)"
proof -
  let ?f = "focused_index l" and ?xss = "map (\<lambda>c. case subcandidate_list c of None \<Rightarrow> [cand_id c] | Some s \<Rightarrow> leaves s) (candidates l)"
  have wf: "wf_list l" and f: "?f < csize l" using t wf_list_bounds by (auto simp: two_level_def)
  have len: "map length (take ?f ?xss) = take ?f (widths l)"
  proof -
    have "map length ?xss = widths l"
      unfolding widths_def map_map
    proof (rule map_cong [OF refl])
      fix c assume c: "c \<in> set (candidates l)"
      show "(length \<circ> (\<lambda>c. case subcandidate_list c of None \<Rightarrow> [cand_id c] | Some s \<Rightarrow> leaves s)) c = width c"
        using t c by (cases "subcandidate_list c") (auto simp: width_def leaves_flat two_level_def list_all_iff)
    qed
    then show ?thesis by (metis take_map)
  qed
  have inn: "inner (candidates l ! ?f) < length (?xss ! ?f)"
    using inner_less [OF t f] f two_level_nth(1) [OF t f]
    by (cases "subcandidate_list (candidates l ! ?f)") (simp_all add: width_def leaves_flat)
  have "leaves l ! position l = ?xss ! ?f ! inner (candidates l ! ?f)"
    unfolding leaves.simps [of l] position_def start_def len [symmetric]
    using f inn by (intro nth_concat_start) simp_all
  also have "Some \<dots> = focused_id l"
  proof (cases "subcandidate_list (candidates l ! ?f)")
    case None
    then show ?thesis using wf f by (subst focused_id.simps) (auto simp: inner_def)
  next
    case (Some s)
    note s = two_level_nth [OF t f Some]
    have fs: "focused_index s < csize s" using wf_list_bounds [OF s(3)] by simp
    have "subcandidate_list (candidates s ! focused_index s) = None"
      using s(1) fs by (simp add: flat_def list_all_length)
    then have "focused_id s = Some (cand_id (candidates s ! focused_index s))"
      using s(3) fs by (subst focused_id.simps) auto
    moreover have "focused_id l = focused_id s"
      using wf f Some by (subst focused_id.simps) auto
    ultimately show ?thesis using Some f fs s(1) by (simp add: inner_def leaves_flat)
  qed
  finally show ?thesis by simp
qed

text \<open>Storing a list with as many candidates keeps the widths.\<close>

lemma widths_store_sub:
  assumes "subcandidate_list (candidates l ! i) = Some s" "csize s' = csize s"
  shows "widths (store_sub i s' l) = widths l"
  unfolding widths_def using assms by (simp add: map_update_same width_def)

lemma start_cong: "widths l' = widths l \<Longrightarrow> start l' i = start l i"
  by (simp add: start_def)

lemma widths_set_focused_index [simp]: "widths (set_focused_index i l) = widths l"
  by (simp add: widths_def)

lemma position_after_MoveFirst:
  assumes "MoveFocusedSub MoveFirst (set_focused_index i l) = Some l'" "i < csize l"
  shows "position l' = start l i" "widths l' = widths l"
proof -
  let ?l = "set_focused_index i l"
  have c: "focused_candidate ?l = Some (candidates l ! i)" using assms(2) by (simp add: focused_candidate_def)
  show "position l' = start l i" "widths l' = widths l"
  proof (atomize (full), cases "subcandidate_list (candidates l ! i)")
    case None
    with assms c have "l' = ?l" by (simp add: MoveFocusedSub_def)
    with None show "position l' = start l i \<and> widths l' = widths l"
      by (simp add: position_def inner_def start_cong [OF widths_set_focused_index])
  next
    case (Some s)
    with assms c have l': "l' = store_sub i (MoveFirst s) ?l" by (simp add: MoveFocusedSub_def)
    have w: "widths l' = widths l"
      unfolding l' using Some by (subst widths_store_sub [of _ _ s]) (simp_all add: MoveFirst_def)
    have "candidates l' ! i = set_sub (MoveFirst s) (candidates l ! i)" "focused_index l' = i"
      unfolding l' using assms(2) by simp_all
    with w show "position l' = start l i \<and> widths l' = widths l"
      by (simp add: position_def inner_def MoveFirst_def start_cong [OF w])
  qed
qed

lemma position_after_MoveLast:
  assumes "MoveFocusedSub MoveLast (set_focused_index i l) = Some l'" "i < csize l" "two_level l"
  shows "position l' = start l (Suc i) - 1" "widths l' = widths l"
proof -
  let ?l = "set_focused_index i l"
  have c: "focused_candidate ?l = Some (candidates l ! i)" using assms(2) by (simp add: focused_candidate_def)
  show "position l' = start l (Suc i) - 1" "widths l' = widths l"
  proof (atomize (full), cases "subcandidate_list (candidates l ! i)")
    case None
    with assms c have "l' = ?l" by (simp add: MoveFocusedSub_def)
    with None show "position l' = start l (Suc i) - 1 \<and> widths l' = widths l"
      by (simp add: position_def inner_def start_cong [OF widths_set_focused_index] start_Suc [OF assms(2)] width_def)
  next
    case (Some s)
    with assms c have l': "l' = store_sub i (MoveLast s) ?l" by (simp add: MoveFocusedSub_def)
    have w: "widths l' = widths l"
      unfolding l' using Some by (subst widths_store_sub [of _ _ s]) (simp_all add: MoveLast_def)
    have "candidates l' ! i = set_sub (MoveLast s) (candidates l ! i)" "focused_index l' = i"
      unfolding l' using assms(2) by simp_all
    moreover have "0 < csize s" using wf_list_bounds [OF two_level_nth(3) [OF assms(3,2) Some]] by auto
    ultimately show "position l' = start l (Suc i) - 1 \<and> widths l' = widths l"
      using w Some by (cases "csize s") (simp_all add: position_def inner_def MoveLast_def start_cong [OF w] start_Suc [OF assms(2)] width_def)
  qed
qed

lemma focused_flat:
  assumes "flat s" "wf_list s"
  shows "AskSub move s = Some (s, False)" "MoveFocusedSub move' s = Some s"
proof -
  have "subcandidate_list (candidates s ! focused_index s) = None"
    using assms wf_list_bounds by (simp add: flat_def list_all_length)
  then show "AskSub move s = Some (s, False)" "MoveFocusedSub move' s = Some s"
    using assms(2) by (simp_all add: AskSub_def MoveFocusedSub_def)
qed

lemma MoveNext_flat:
  assumes "flat s" "wf_list s" "\<not> rotate s"
  shows "MoveNext s = Some (if focused_index s = csize s - 1 then (MoveFirst s, False)
                           else (set_focused_index (focused_index s + 1) s, True))"
proof -
  have "flat (set_focused_index i s)" for i using assms(1) by (simp add: flat_def)
  moreover have "wf_list (set_focused_index i s)" if "i < csize s" for i
    using set_focused_index_shape [OF assms(2) that] by (simp add: same_shape_def)
  ultimately show ?thesis
    using assms wf_list_bounds [OF assms(2)]
    by (subst MoveNext.simps) (auto simp: focused_flat IsLast_def)
qed

lemma MovePrev_flat:
  assumes "flat s" "wf_list s" "\<not> rotate s"
  shows "MovePrev s = Some (if focused_index s = 0 then (MoveLast s, False)
                           else (set_focused_index (focused_index s - 1) s, True))"
proof -
  have "flat (set_focused_index i s)" for i using assms(1) by (simp add: flat_def)
  moreover have "wf_list (set_focused_index i s)" if "i < csize s" for i
    using set_focused_index_shape [OF assms(2) that] by (simp add: same_shape_def)
  ultimately show ?thesis
    using assms wf_list_bounds [OF assms(2)]
    by (subst MovePrev.simps) (auto simp: focused_flat)
qed


text \<open>A move changes nothing but focuses, so the list stays of the same kind.\<close>

lemma unfocus_nth:
  "i < csize l \<Longrightarrow> subcandidate_list (candidates (unfocus l) ! i) = map_option unfocus (subcandidate_list (candidates l ! i))"
  by (simp add: unfocus_eq [of l] unfocus_cand_def)

lemma flat_unfocus [simp]: "flat (unfocus s) = flat s"
  using unfocus_nth by (simp add: flat_def list_all_length)

lemma two_level_unfocus:
  "two_level l \<longleftrightarrow> wf_list l \<and> (\<forall>i < csize l. case subcandidate_list (candidates (unfocus l) ! i) of None \<Rightarrow> True
     | Some s \<Rightarrow> flat s \<and> \<not> rotate s)"
  by (auto simp: two_level_def list_all_length unfocus_nth split: option.splits)

lemma two_level_same: "two_level l \<Longrightarrow> same_shape l l' \<Longrightarrow> two_level l'"
  using same_shapeD(2) [of l l'] by (auto simp: two_level_unfocus same_shape_def)

text \<open>One step of MoveNext: what the focused candidate's list does, then the list itself.\<close>

lemma AskSub_next:
  assumes t: "two_level l" and c: "subcandidate_list (candidates l ! focused_index l) = Some s"
  shows "AskSub MoveNext l = Some (if focused_index s = csize s - 1
      then (store_sub (focused_index l) (MoveFirst s) l, False)
      else (store_sub (focused_index l) (set_focused_index (focused_index s + 1) s) l, True))"
    "AskSub MovePrev l = Some (if focused_index s = 0
      then (store_sub (focused_index l) (MoveLast s) l, False)
      else (store_sub (focused_index l) (set_focused_index (focused_index s - 1) s) l, True))"
proof -
  have wf: "wf_list l" and f: "focused_index l < csize l" using t wf_list_bounds by (auto simp: two_level_def)
  note s = two_level_nth [OF t f c]
  show "AskSub MoveNext l = Some (if focused_index s = csize s - 1
      then (store_sub (focused_index l) (MoveFirst s) l, False)
      else (store_sub (focused_index l) (set_focused_index (focused_index s + 1) s) l, True))"
    using wf c by (simp add: AskSub_def MoveNext_flat [OF s(1,3,2)])
  show "AskSub MovePrev l = Some (if focused_index s = 0
      then (store_sub (focused_index l) (MoveLast s) l, False)
      else (store_sub (focused_index l) (set_focused_index (focused_index s - 1) s) l, True))"
    using wf c by (simp add: AskSub_def MovePrev_flat [OF s(1,3,2)])
qed

lemma AskSub_leaf:
  assumes "two_level l" "subcandidate_list (candidates l ! focused_index l) = None"
  shows "AskSub move l = Some (l, False)"
  using assms by (simp add: AskSub_def two_level_def)

text \<open>After the focused candidate's list declined to move, the list itself moves.\<close>

lemma MoveNext_position:
  assumes t: "two_level l"
  obtains l' b where "MoveNext l = Some (l', b)"
    "b \<longleftrightarrow> rotate l \<or> position l + 1 < total l" "b \<Longrightarrow> position l' = (position l + 1) mod total l"
    "\<not> b \<Longrightarrow> focused_index l' = 0"
proof -
  let ?f = "focused_index l"
  have wf: "wf_list l" and f: "?f < csize l" using t wf_list_bounds by (auto simp: two_level_def)
  have tot: "start l (Suc ?f) = total l \<longleftrightarrow> ?f = csize l - 1"
  proof
    show "?f = csize l - 1" if "start l (Suc ?f) = total l"
    proof (rule ccontr)
      assume "?f \<noteq> csize l - 1"
      then have "Suc ?f < csize l" using f by simp
      then have "start l (Suc ?f) < start l (csize l)" by (rule start_less [OF t]) (use \<open>Suc ?f < csize l\<close> in simp)
      with that show False by (simp add: start_all)
    qed
    show "start l (Suc ?f) = total l" if "?f = csize l - 1"
      using that f start_all [of l] by (metis Suc_pred' length_greater_0_conv list.size(3) not_less_zero)
  qed
  have le: "start l (Suc ?f) \<le> total l" using start_mono [of "Suc ?f" "csize l" l] f by (simp add: start_all)
  have move: "\<exists>l' b. r = Some (l', b) \<and> (b \<longleftrightarrow> rotate l \<or> start l (Suc ?f) < total l)
      \<and> (b \<longrightarrow> position l' = start l (Suc ?f) mod total l) \<and> (\<not> b \<longrightarrow> focused_index l' = 0)"
    if ask: "AskSub MoveNext l = Some (l1, False)" and w: "widths l1 = widths l" and r: "r = MoveNext l"
      and same: "focused_index l1 = ?f" "csize l1 = csize l" "rotate l1 = rotate l" "wf_list l1" for l1 r
  proof (cases "?f = csize l - 1 \<and> \<not> rotate l")
    case True
    then have "MoveNext l = Some (MoveFirst l1, False)"
      using ask same by (subst MoveNext.simps) (simp add: IsLast_def)
    then show ?thesis using True tot r by (auto simp: MoveFirst_def)
  next
    case False
    let ?i = "if ?f = csize l - 1 then 0 else Suc ?f"
    have i: "?i < csize l1" using f same(2) by auto
    have m: "MoveNext l = map_option (\<lambda>l2. (l2, True)) (MoveFocusedSub MoveFirst (set_focused_index ?i l1))"
      using ask same False by (subst MoveNext.simps) (auto simp: IsLast_def MoveFirst_def)
    have "wf_list (set_focused_index ?i l1)" using set_focused_index_shape [OF same(4) i] by (simp add: same_shape_def)
    then obtain l2 where l2: "MoveFocusedSub MoveFirst (set_focused_index ?i l1) = Some l2"
      by (rule MoveFocusedSub_shape [OF _ MoveFirst_shape])
    have "position l2 = start l ?i" using position_after_MoveFirst(1) [OF l2 i] start_cong [OF w] by simp
    moreover have "start l ?i = start l (Suc ?f) mod total l"
    proof (cases "?f = csize l - 1")
      case True
      then show ?thesis using tot by simp
    next
      case no: False
      then have "start l (Suc ?f) < total l" using tot le by simp
      then show ?thesis using no by simp
    qed
    ultimately show ?thesis using False tot le l2 r m by auto
  qed
  show ?thesis
  proof (cases "subcandidate_list (candidates l ! ?f)")
    case None
    have p: "position l + 1 = start l (Suc ?f)" using None by (simp add: position_def inner_def start_Suc [OF f] width_def)
    from move [OF AskSub_leaf [OF t None] refl refl refl refl refl wf] that show ?thesis unfolding p by blast
  next
    case (Some s)
    note s = two_level_nth [OF t f Some]
    have fs: "focused_index s < csize s" using wf_list_bounds [OF s(3)] by simp
    show ?thesis
    proof (cases "focused_index s = csize s - 1")
      case True
      let ?l1 = "store_sub ?f (MoveFirst s) l"
      have a: "AskSub MoveNext l = Some (?l1, False)" using AskSub_next(1) [OF t Some] True by simp
      have w: "widths ?l1 = widths l" by (rule widths_store_sub [OF Some]) (simp add: MoveFirst_def)
      have "wf_list ?l1" using store_sub_shape [OF wf f Some MoveFirst_shape [OF s(3)]] by (simp add: same_shape_def)
      moreover have p: "position l + 1 = start l (Suc ?f)"
        using Some True fs by (simp add: position_def inner_def start_Suc [OF f] width_def)
      ultimately have "\<exists>l' b. MoveNext l = Some (l', b) \<and> (b \<longleftrightarrow> rotate l \<or> start l (Suc ?f) < total l)
        \<and> (b \<longrightarrow> position l' = start l (Suc ?f) mod total l) \<and> (\<not> b \<longrightarrow> focused_index l' = 0)"
        by (intro move [OF a w refl]) simp_all
      with p that show ?thesis by metis
    next
      case False
      let ?l1 = "store_sub ?f (set_focused_index (focused_index s + 1) s) l"
      have a: "AskSub MoveNext l = Some (?l1, True)" using AskSub_next(1) [OF t Some] False by simp
      then have m: "MoveNext l = Some (?l1, True)" by (subst MoveNext.simps) simp
      have w: "widths ?l1 = widths l" by (rule widths_store_sub [OF Some]) simp
      have p: "position ?l1 = position l + 1" unfolding position_def start_cong [OF w] using f Some by (simp add: inner_def)
      have lt: "position l + 1 < total l"
        using Some False fs le by (simp add: position_def inner_def start_Suc [OF f] width_def)
      show ?thesis by (rule that [OF m]) (use p lt in simp_all)
    qed
  qed
qed

lemma MovePrev_position:
  assumes t: "two_level l"
  obtains l' b where "MovePrev l = Some (l', b)"
    "b \<longleftrightarrow> rotate l \<or> 0 < position l" "b \<Longrightarrow> position l' = (position l + total l - 1) mod total l"
    "\<not> b \<Longrightarrow> focused_index l' = csize l - 1"
proof -
  let ?f = "focused_index l"
  have wf: "wf_list l" and f: "?f < csize l" using t wf_list_bounds by (auto simp: two_level_def)
  have "0 < csize l" using f by linarith
  then have z: "start l ?f = 0 \<longleftrightarrow> ?f = 0" using start_less [OF t, of 0 ?f] by (cases "?f = 0") auto
  have le: "start l ?f < total l" using position_less [OF t] by (simp add: position_def)
  have move: "\<exists>l' b. r = Some (l', b) \<and> (b \<longleftrightarrow> rotate l \<or> 0 < start l ?f)
      \<and> (b \<longrightarrow> position l' = (start l ?f + total l - 1) mod total l) \<and> (\<not> b \<longrightarrow> focused_index l' = csize l - 1)"
    if ask: "AskSub MovePrev l = Some (l1, False)" and w: "widths l1 = widths l" and r: "r = MovePrev l"
      and same: "focused_index l1 = ?f" "csize l1 = csize l" "rotate l1 = rotate l" and t1: "two_level l1" for l1 r
  proof (cases "?f = 0 \<and> \<not> rotate l")
    case True
    then have "MovePrev l = Some (MoveLast l1, False)"
      using ask same by (subst MovePrev.simps) simp
    then show ?thesis using True z r same by (auto simp: MoveLast_def)
  next
    case False
    let ?i = "if ?f = 0 then csize l - 1 else ?f - 1"
    have i: "?i < csize l1" using f same(2) by auto
    have m: "MovePrev l = map_option (\<lambda>l2. (l2, True)) (MoveFocusedSub MoveLast (set_focused_index ?i l1))"
      using ask same False by (subst MovePrev.simps) (auto simp: MoveLast_def)
    have "wf_list (set_focused_index ?i l1)"
      using set_focused_index_shape [OF _ i] t1 by (simp add: same_shape_def two_level_def)
    then obtain l2 where l2: "MoveFocusedSub MoveLast (set_focused_index ?i l1) = Some l2"
      by (rule MoveFocusedSub_shape [OF _ MoveLast_shape])
    have "position l2 = start l (Suc ?i) - 1" using position_after_MoveLast(1) [OF l2 i t1] start_cong [OF w] by simp
    moreover have "start l (Suc ?i) - 1 = (start l ?f + total l - 1) mod total l"
    proof (cases "?f = 0")
      case True
      then have "Suc ?i = csize l" using f by simp
      then show ?thesis using True le by (simp add: start_all)
    next
      case no: False
      have si: "Suc ?i = ?f" using no by simp
      have "0 < start l ?f" using z no by simp
      then have "start l ?f + total l - 1 = start l ?f - 1 + total l" by simp
      then have "(start l ?f + total l - 1) mod total l = (start l ?f - 1) mod total l"
        by (simp only: mod_add_self2)
      also have "\<dots> = start l ?f - 1" by (rule mod_less) (use le in linarith)
      finally show ?thesis unfolding si by (rule sym)
    qed
    ultimately show ?thesis using False z l2 r m by auto
  qed
  show ?thesis
  proof (cases "subcandidate_list (candidates l ! ?f)")
    case None
    have p: "position l = start l ?f" using None by (simp add: position_def inner_def)
    have "\<exists>l' b. MovePrev l = Some (l', b) \<and> (b \<longleftrightarrow> rotate l \<or> 0 < position l)
        \<and> (b \<longrightarrow> position l' = (position l + total l - 1) mod total l) \<and> (\<not> b \<longrightarrow> focused_index l' = csize l - 1)"
      unfolding p by (rule move [OF AskSub_leaf [OF t None] refl refl refl refl refl t])
    then show ?thesis by (elim exE conjE) (rule that, assumption, assumption, simp, simp)
  next
    case (Some s)
    note s = two_level_nth [OF t f Some]
    have fs: "focused_index s < csize s" using wf_list_bounds [OF s(3)] by simp
    show ?thesis
    proof (cases "focused_index s = 0")
      case True
      let ?l1 = "store_sub ?f (MoveLast s) l"
      have a: "AskSub MovePrev l = Some (?l1, False)" using AskSub_next(2) [OF t Some] True by simp
      have w: "widths ?l1 = widths l" by (rule widths_store_sub [OF Some]) (simp add: MoveLast_def)
      have sh: "same_shape l ?l1" by (rule store_sub_shape [OF wf f Some MoveLast_shape [OF s(3)]])
      have "two_level ?l1" by (rule two_level_same [OF t sh])
      moreover have p: "position l = start l ?f" using Some True by (simp add: position_def inner_def)
      ultimately have "\<exists>l' b. MovePrev l = Some (l', b) \<and> (b \<longleftrightarrow> rotate l \<or> 0 < position l)
        \<and> (b \<longrightarrow> position l' = (position l + total l - 1) mod total l) \<and> (\<not> b \<longrightarrow> focused_index l' = csize l - 1)"
        unfolding p by (intro move [OF a w refl]) simp_all
      then show ?thesis by (elim exE conjE) (rule that, assumption, assumption, simp, simp)
    next
      case False
      let ?l1 = "store_sub ?f (set_focused_index (focused_index s - 1) s) l"
      have a: "AskSub MovePrev l = Some (?l1, True)" using AskSub_next(2) [OF t Some] False by simp
      then have m: "MovePrev l = Some (?l1, True)" by (subst MovePrev.simps) simp
      have w: "widths ?l1 = widths l" by (rule widths_store_sub [OF Some]) simp
      have p: "position ?l1 = position l - 1" "0 < position l"
        unfolding position_def start_cong [OF w] using f Some False by (simp_all add: inner_def)
      have "(position l + total l - 1) mod total l = (position l - 1 + total l) mod total l" using p(2) by simp
      also have "\<dots> = position l - 1" using position_less [OF t] by simp
      finally show ?thesis by (intro that [OF m]) (use p in simp_all)
    qed
  qed
qed


lemma moves_two_level:
  assumes "two_level l" and "m \<in> {MoveNext, MovePrev, MoveNextPage, MovePrevPage}"
  obtains l' b where "m l = Some (l', b)" "same_shape l l'" "two_level l'" "total l' = total l"
proof -
  have wf: "wf_list l" using assms(1) by (simp add: two_level_def)
  then have "good_move m l" using assms(2) MoveNext_good MovePrev_good MoveNextPage_good MovePrevPage_good by blast
  then obtain l' b where l': "m l = Some (l', b)" "same_shape l l'" by (auto simp: good_move_def)
  have t: "two_level l'" by (rule two_level_same [OF assms(1) l'(2)])
  have "total l' = total l"
    using same_shapeD(1) [OF l'(2)] length_leaves [OF t] length_leaves [OF assms(1)] by simp
  with l' t that show ?thesis by blast
qed

section \<open>Pages\<close>

lemma GetPageRange_props:
  assumes "wf_list l" "GetPageRange l (focused_index l) = (b, e)"
  shows "b \<le> focused_index l" "focused_index l < e" "e \<le> csize l" "b mod page_size l = 0" "e - b \<le> page_size l"
proof -
  note w = wf_list_bounds [OF assms(1)]
  from assms(2) have be: "b = focused_index l - focused_index l mod page_size l" "e = min (csize l) (b + page_size l)"
    by (auto simp: GetPageRange_def Let_def)
  have m: "focused_index l mod page_size l < page_size l" using w by simp
  show "b \<le> focused_index l" "e \<le> csize l" using be by simp_all
  have "e \<le> b + page_size l" using be(2) by simp
  then show "e - b \<le> page_size l" by linarith
  show "focused_index l < e" using be w m by auto
  show "b mod page_size l = 0" unfolding be by (simp add: minus_mod_eq_mult_div)
qed

text \<open>\<^verbatim>\<open>MoveToPageIndex\<close> moves within the page, and only there.\<close>

lemma MoveToPageIndex_good:
  assumes wf: "wf_list l" and r: "GetPageRange l (focused_index l) = (b, e)"
  obtains l' moved where "MoveToPageIndex k l = Some (l', moved)" "same_shape l l'" "moved \<longleftrightarrow> b + k < e"
    "focused_index l' = (if b + k < e then b + k else focused_index l)"
    "GetPageRange l' (focused_index l') = (b, e)"
proof (cases "b + k < e")
  case False
  with wf r show ?thesis by (intro that [of l False]) (simp_all add: MoveToPageIndex_def same_shape_refl)
next
  case True
  note p = GetPageRange_props [OF wf r]
  have i: "b + k < csize l" using True p(3) by simp
  have s: "same_shape l (set_focused_index (b + k) l)" by (rule set_focused_index_shape [OF wf i])
  then have "wf_list (set_focused_index (b + k) l)" by (simp add: same_shape_def)
  then obtain l' where l': "MoveFocusedSub MoveFirst (set_focused_index (b + k) l) = Some l'"
    "same_shape (set_focused_index (b + k) l) l'" "focused_index l' = focused_index (set_focused_index (b + k) l)"
    by (rule MoveFocusedSub_shape [OF _ MoveFirst_shape])
  have sh: "same_shape l l'" by (rule same_shape_trans [OF s l'(2)])
  have "k < page_size l" using True p(5) by simp
  then have "(b + k) mod page_size l = k" using p(4) by (metis add_0 mod_add_left_eq mod_less)
  then have "GetPageRange l' (b + k) = (b, e)"
    using r same_shapeD [OF sh] by (auto simp: GetPageRange_def Let_def)
  with True r l' sh show ?thesis by (intro that [of l' True]) (simp_all add: MoveToPageIndex_def)
qed

section \<open>Jumping to an id\<close>

text \<open>A list without sublists: the first candidate with the id, or none.\<close>

lemma MoveToIdFrom_flat:
  assumes "flat l"
  shows "MoveToIdFrom target l i =
    (case find_byte target (drop i (map cand_id (candidates l))) of
       Some k \<Rightarrow> Some (set_focused_index (i + k) l) | None \<Rightarrow> None)"
  using assms
proof (induction "csize l - i" arbitrary: i)
  case 0
  then show ?case by (subst MoveToIdFrom.simps) simp
next
  case (Suc n)
  then have i: "i < csize l" by simp
  have "subcandidate_list (candidates l ! i) = None" using Suc.prems i by (simp add: flat_def list_all_length)
  moreover have "drop i (map cand_id (candidates l)) = cand_id (candidates l ! i) # drop (Suc i) (map cand_id (candidates l))"
    using i by (metis Cons_nth_drop_Suc length_map nth_map)
  ultimately show ?case
    using i Suc.hyps(1) [of "Suc i"] Suc.hyps(2) Suc.prems
    by (subst MoveToIdFrom.simps) (auto simp: Let_def simp del: find_byte_None split: option.split)
qed

text \<open>Adding candidates: the list stays flat, a known fingerprint becomes an alternative id.\<close>

definition AddAll :: "(int \<times> 64 word \<times> Attributes) list \<Rightarrow> CandidateList \<Rightarrow> CandidateList" where
  "AddAll xs l = fold (\<lambda>(i, fp, a). AddCandidateWithAttributes i fp a) xs l"

definition added_inv :: "(int \<times> 64 word \<times> Attributes) list \<Rightarrow> CandidateList \<Rightarrow> bool" where
  "added_inv xs l \<longleftrightarrow> flat l
     \<and> (\<forall>fp i. added_candidates l fp = Some i \<longrightarrow> i \<in> set (map cand_id (candidates l)) \<and> alternative_ids l i = None
          \<and> (\<exists>a. (i, fp, a) \<in> set xs))
     \<and> (\<forall>(i, fp, a) \<in> set xs. \<exists>j. added_candidates l fp = Some j
          \<and> (if i = j then alternative_ids l i = None else alternative_ids l i = Some j))
     \<and> (\<forall>i j. alternative_ids l i = Some j \<longrightarrow> i \<in> fst ` set xs)
     \<and> set (map cand_id (candidates l)) \<subseteq> fst ` set xs"

lemma AddCandidate_inv:
  assumes inv: "added_inv xs l" and new: "i \<notin> fst ` set xs"
  shows "added_inv (xs @ [(i, fp, a)]) (AddCandidateWithAttributes i fp a l)"
proof -
  let ?l = "if 0 \<le> i then set_next_available_id (i + 1) l else l"
  have l: "candidates ?l = candidates l" "added_candidates ?l = added_candidates l" "alternative_ids ?l = alternative_ids l"
    by auto
  have altn: "alternative_ids l i = None" using inv new unfolding added_inv_def by (cases "alternative_ids l i") auto
  have nadd: "added_candidates l fp' \<noteq> Some i" for fp'
    using inv new unfolding added_inv_def by force
  show ?thesis
  proof (cases "added_candidates l fp")
    case None
    have e: "AddCandidateWithAttributes i fp a l = set_candidates (candidates l @ [Candidate i a None])
            (set_added_candidates ((added_candidates l)(fp \<mapsto> i)) ?l)"
      unfolding AddCandidateWithAttributes_def Let_def l None by simp
    show ?thesis
      unfolding e added_inv_def using inv None altn new
      by (auto simp: added_inv_def flat_def l split: if_splits) 
  next
    case (Some j)
    then have ji: "j \<noteq> i" using nadd by auto
    have e: "AddCandidateWithAttributes i fp a l =
        set_candidates (map (\<lambda>c. if cand_id c = j then add_attributes a c else c) (candidates l))
            (set_alternative_ids ((alternative_ids l)(i \<mapsto> j)) ?l)"
      unfolding AddCandidateWithAttributes_def Let_def l Some by simp
    have ids: "map cand_id (map (\<lambda>c. if cand_id c = j then add_attributes a c else c) (candidates l)) = map cand_id (candidates l)"
      by (auto simp: add_attributes_def)
    have fl: "flat (set_candidates (map (\<lambda>c. if cand_id c = j then add_attributes a c else c) (candidates l)) x)" for x
      using inv by (auto simp: added_inv_def flat_def list_all_iff add_attributes_def)
    let ?l' = "AddCandidateWithAttributes i fp a l"
    have f: "set (map cand_id (candidates ?l')) = set (map cand_id (candidates l))"
      "added_candidates ?l' = added_candidates l" "alternative_ids ?l' = (alternative_ids l)(i \<mapsto> j)" "flat ?l'"
      unfolding e using ids fl by (simp_all add: l del: map_map)
    show ?thesis
      unfolding added_inv_def f(1-3)
    proof (intro conjI)
      show "flat ?l'" by (rule f(4))
      show "\<forall>fp' k. added_candidates l fp' = Some k \<longrightarrow> k \<in> set (map cand_id (candidates l))
          \<and> ((alternative_ids l)(i \<mapsto> j)) k = None \<and> (\<exists>a'. (k, fp', a') \<in> set (xs @ [(i, fp, a)]))"
        using inv nadd unfolding added_inv_def by (auto simp del: set_map)
      show "\<forall>(k, fp', a') \<in> set (xs @ [(i, fp, a)]). \<exists>m. added_candidates l fp' = Some m
          \<and> (if k = m then ((alternative_ids l)(i \<mapsto> j)) k = None else ((alternative_ids l)(i \<mapsto> j)) k = Some m)"
      proof (clarify)
        fix k fp' a' assume m: "(k, fp', a') \<in> set (xs @ [(i, fp, a)])"
        show "\<exists>m. added_candidates l fp' = Some m
          \<and> (if k = m then ((alternative_ids l)(i \<mapsto> j)) k = None else ((alternative_ids l)(i \<mapsto> j)) k = Some m)"
        proof (cases "(k, fp', a') \<in> set xs")
          case True
          then have "k \<noteq> i" using new by force
          with True inv show ?thesis unfolding added_inv_def by fastforce
        next
          case False
          with m have "k = i" "fp' = fp" by auto
          with Some ji show ?thesis by auto
        qed
      qed
      show "\<forall>k m. ((alternative_ids l)(i \<mapsto> j)) k = Some m \<longrightarrow> k \<in> fst ` set (xs @ [(i, fp, a)])"
        using inv unfolding added_inv_def by auto
      show "set (map cand_id (candidates l)) \<subseteq> fst ` set (xs @ [(i, fp, a)])"
        using inv unfolding added_inv_def by auto
    qed
  qed
qed

lemma MovePrev_position_ex:
  assumes "two_level l"
  shows "\<exists>l' b. MovePrev l = Some (l', b) \<and> b = (rotate l \<or> 0 < position l)
    \<and> (b \<longrightarrow> position l' = (position l + total l - 1) mod total l)"
  by (rule MovePrev_position [OF assms]) auto

lemma MoveNext_position_ex:
  assumes "two_level l"
  shows "\<exists>l' b. MoveNext l = Some (l', b) \<and> b = (rotate l \<or> position l + 1 < total l)
    \<and> (b \<longrightarrow> position l' = (position l + 1) mod total l)"
  by (rule MoveNext_position [OF assms]) auto

lemma AddCandidate_added:
  "added_candidates (AddCandidateWithAttributes i fp a l) =
     (case added_candidates l fp of None \<Rightarrow> (added_candidates l)(fp \<mapsto> i) | Some _ \<Rightarrow> added_candidates l)"
  by (auto simp: AddCandidateWithAttributes_def Let_def split: option.split)

text \<open>The id a fingerprint was first added with.\<close>

definition first_id :: "(int \<times> 64 word \<times> Attributes) list \<Rightarrow> 64 word \<rightharpoonup> int" where
  "first_id xs = map_of (map (\<lambda>(i, fp, a). (fp, i)) xs)"

lemma AddAll_inv:
  assumes "distinct (map fst xs)"
  shows "added_inv xs (AddAll xs (NewCandidateList r)) \<and> added_candidates (AddAll xs (NewCandidateList r)) = first_id xs"
  using assms
proof (induction xs rule: rev_induct)
  case Nil
  show ?case by (simp add: AddAll_def added_inv_def NewCandidateList_def flat_def first_id_def)
next
  case (snoc x xs)
  obtain i fp a where x: "x = (i, fp, a)" by (cases x)
  let ?l = "AddAll xs (NewCandidateList r)"
  have IH: "added_inv xs ?l" "added_candidates ?l = first_id xs" using snoc by simp_all
  have e: "AddAll (xs @ [(i, fp, a)]) (NewCandidateList r) = AddCandidateWithAttributes i fp a ?l"
    by (simp add: AddAll_def)
  have "i \<notin> fst ` set xs" using snoc.prems x by simp
  then have "added_inv (xs @ [x]) (AddAll (xs @ [x]) (NewCandidateList r))"
    unfolding x e by (rule AddCandidate_inv [OF IH(1)])
  moreover have "added_candidates (AddAll (xs @ [x]) (NewCandidateList r)) = first_id (xs @ [x])"
    unfolding x e AddCandidate_added IH(2) by (auto simp: first_id_def map_add_def split: option.split)
  ultimately show ?case by blast
qed

lemma MoveToId_added:
  assumes d: "distinct (map fst xs)" and x: "(i, fp, a) \<in> set xs"
  obtains l' j where "MoveToId i (AddAll xs (NewCandidateList r)) = Some l'" "first_id xs fp = Some j"
    "focused_id l' = Some j" "candidates l' = candidates (AddAll xs (NewCandidateList r))"
proof -
  let ?l = "AddAll xs (NewCandidateList r)"
  note inv = AddAll_inv [OF d, of r]
  have flat: "flat ?l" using inv by (simp add: added_inv_def)
  from inv x obtain j where j: "added_candidates ?l fp = Some j"
    "if i = j then alternative_ids ?l i = None else alternative_ids ?l i = Some j"
    unfolding added_inv_def by fastforce
  have t: "(case alternative_ids ?l i of Some alt \<Rightarrow> alt | None \<Rightarrow> i) = j" using j(2) by (auto split: if_splits)
  have "j \<in> set (map cand_id (candidates ?l))" using inv j(1) unfolding added_inv_def by blast
  then obtain k where k: "find_byte j (map cand_id (candidates ?l)) = Some k"
    by (metis find_byte_None not_Some_eq)
  note kk = find_byte_Some [OF k]
  have m: "MoveToId i ?l = Some (set_focused_index k ?l)"
    unfolding MoveToId.simps t MoveToIdFrom_flat [OF flat] by (simp add: k del: find_byte_None)
  have "k < csize ?l" using kk by simp
  moreover from this have "subcandidate_list (candidates ?l ! k) = None" "cand_id (candidates ?l ! k) = j"
    using flat kk by (simp_all add: flat_def list_all_length)
  ultimately have "focused_id (set_focused_index k ?l) = Some j"
    by (subst focused_id.simps) (auto simp: focused_candidate_def)
  with m j(1) inv show ?thesis by (intro that [of "set_focused_index k ?l" j]) simp_all
qed

section \<open>Properties\<close>


definition example_list :: CandidateList where
  "example_list = CandidateList 2 1
     [Candidate 0 0 None,
      Candidate 0 0 (Some (CandidateList 9 1 [Candidate (-1) 0 None, Candidate (-2) 0 None] Map.empty Map.empty 0 False False)),
      Candidate 1 0 None] Map.empty Map.empty 2 True True"

lemma example_list_wf: "wf_list example_list"
  by (simp add: example_list_def wf_list.simps)




text \<open>after adding any candidates with distinct ids, jumping to each of these ids succeeds and
  focuses the candidate that was first added with the same value (fingerprint).\<close>

theorem move_to_added_id:
  assumes "distinct (map fst xs)" and "(i, fp, a) \<in> set xs"
  shows "\<exists>l'. MoveToId i (AddAll xs (NewCandidateList r)) = Some l' \<and> focused_id l' = first_id xs fp
    \<and> candidates l' = candidates (AddAll xs (NewCandidateList r))"
  by (rule MoveToId_added [OF assms]) auto

theorem move_to_added_id_witness:
  "\<exists>l'. MoveToId (-1) (AddAll [(0, 5, 0), (1, 6, 0), (-1, 5, 2)] (NewCandidateList True)) = Some l'
    \<and> focused_id l' = first_id [(0, 5, 0), (1, 6, 0), (-1, 5, 2)] 5
    \<and> candidates l' = candidates (AddAll [(0, 5, 0), (1, 6, 0), (-1, 5, 2)] (NewCandidateList True))"
  by (rule move_to_added_id [where a = 2]) simp_all

text \<open>MoveToPageIndex succeeds exactly for the indices of the page shown, moves to that candidate,
  and the page shown stays the same.\<close>

theorem page_index_stays_on_page:
  assumes "wf_list l" and "GetPageRange l (focused_index l) = (b, e)"
  shows "b \<le> focused_index l \<and> focused_index l < e \<and> e \<le> csize l \<and> e - b \<le> page_size l \<and>
    (\<exists>l' moved. MoveToPageIndex k l = Some (l', moved) \<and> moved = (b + k < e)
      \<and> focused_index l' = (if b + k < e then b + k else focused_index l)
      \<and> GetPageRange l' (focused_index l') = (b, e) \<and> unfocus l' = unfocus l)"
proof -
  obtain l' moved where "MoveToPageIndex k l = Some (l', moved)" "same_shape l l'" "moved \<longleftrightarrow> b + k < e"
    "focused_index l' = (if b + k < e then b + k else focused_index l)"
    "GetPageRange l' (focused_index l') = (b, e)" by (rule MoveToPageIndex_good [OF assms])
  with GetPageRange_props [OF assms] show ?thesis by (simp add: same_shape_def)
qed

theorem page_index_stays_on_page_witness:
  "\<exists>l' moved. MoveToPageIndex 1 example_list = Some (l', moved) \<and> moved = (0 + 1 < (2::nat))
      \<and> focused_index l' = (if 0 + 1 < (2::nat) then 0 + 1 else focused_index example_list)
      \<and> GetPageRange l' (focused_index l') = (0, 2) \<and> unfocus l' = unfocus example_list"
proof -
  have "GetPageRange example_list (focused_index example_list) = (0, 2)"
    by (simp add: example_list_def GetPageRange_def)
  from page_index_stays_on_page [OF example_list_wf this, of 1] show ?thesis by blast
qed

end
