(* ===== verification/SpecialKey.thy ===== *)
theory SpecialKey
  imports Utf8
begin

text \<open>
  Special keys of \<^verbatim>\<open>src/src/composer/special_key.cc\<close>: keys in braces, registered as private-use
  characters, parsed back, and removed from the front or from the whole of a string.
\<close>

section \<open>Special keys: composer/special\_key.cc\<close>

definition kSpecialKeyBegin :: char32 where "kSpecialKeyBegin = 0xF000"

definition kSpecialKeyEnd :: char32 where "kSpecialKeyEnd = 0xF8FF"

definition kSpecialKeyOpen :: byte where "kSpecialKeyOpen = 0x0F"

definition kSpecialKeyClose :: byte where "kSpecialKeyClose = 0x0E"

definition IsSpecialKey :: "char32 \<Rightarrow> bool" where
  "IsSpecialKey c \<longleftrightarrow> kSpecialKeyBegin \<le> c \<and> c \<le> kSpecialKeyEnd"

text \<open>\<^verbatim>\<open>FindBlock\<close>, with one-byte brackets: the two positions.\<close>

definition FindBlock :: "bytes \<Rightarrow> byte \<Rightarrow> byte \<Rightarrow> (nat \<times> nat) option" where
  "FindBlock input open_key close_key =
     (case find_byte open_key input of
        None \<Rightarrow> None
      | Some open_pos \<Rightarrow>
          (case find_byte_from close_key input open_pos of
             None \<Rightarrow> None
           | Some close_pos \<Rightarrow> Some (open_pos, close_pos)))"

lemma FindBlock_bounds:
  "FindBlock input x y = Some (i, j) \<Longrightarrow> i \<le> j \<and> j < length input"
  by (auto simp: FindBlock_def find_byte_from_Some split: option.splits simp del: find_byte_None)

text \<open>
  \<^verbatim>\<open>ParseBlock\<close>: the callback may change a state (the map of \<^verbatim>\<open>Register\<close>), which is threaded
  through.
\<close>

function ParseBlock :: "(bytes \<Rightarrow> 's \<Rightarrow> bytes \<times> 's) \<Rightarrow> bytes \<Rightarrow> 's \<Rightarrow> bytes \<times> 's" where
  "ParseBlock callback input st =
     (if input = [] then ([], st)
      else (case FindBlock input 0x7B 0x7D of
              None \<Rightarrow> (input, st)
            | Some (open_pos, close_pos) \<Rightarrow>
                let key = take (close_pos - open_pos - 1) (drop (open_pos + 1) input);
                    (piece, st') = (if key = [0x7B] then ([0x7B], st) else callback key st);
                    (output, st'') = ParseBlock callback (drop (close_pos + 1) input) st'
                in (take open_pos input @ piece @ output, st'')))"
  by pat_completeness auto
termination
  by (relation "measure (\<lambda>(callback, input, st). length input)") auto

declare ParseBlock.simps [simp del]

type_synonym special_key_map = "(bytes \<times> bytes) list"

text \<open>
  The callback of \<^verbatim>\<open>SpecialKeyMap::Register\<close>: a new key gets the next private-use character; when
  they are used up, the last one again. The sum is \<^verbatim>\<open>size_t\<close>, converted to \<^verbatim>\<open>char32_t\<close>.
\<close>

definition RegisterKey :: "bytes \<Rightarrow> special_key_map \<Rightarrow> bytes \<times> special_key_map" where
  "RegisterKey key m =
     (case map_of m key of
        Some v \<Rightarrow> (v, m)
      | None \<Rightarrow>
          let keycode = kSpecialKeyBegin + of_nat (length m);
              keycode = (if kSpecialKeyEnd < keycode then kSpecialKeyEnd else keycode);
              special_key = CodepointToUtf8 keycode
          in (special_key, (key, special_key) # m))"

definition Register :: "special_key_map \<Rightarrow> bytes \<Rightarrow> bytes \<times> special_key_map" where
  "Register m input = ParseBlock RegisterKey input m"

definition ParseKey :: "special_key_map \<Rightarrow> bytes \<Rightarrow> bytes" where
  "ParseKey m key =
     (case map_of m key of
        Some v \<Rightarrow> v
      | None \<Rightarrow> [kSpecialKeyOpen] @ key @ [kSpecialKeyClose])"

definition Parse :: "special_key_map \<Rightarrow> bytes \<Rightarrow> bytes" where
  "Parse m input = fst (ParseBlock (\<lambda>key st. (ParseKey m key, st)) input ())"

definition TrimLeadingSpecialKey :: "bytes \<Rightarrow> bytes" where
  "TrimLeadingSpecialKey input =
     (case SplitFirstChar32 input of
        (ok, first_char, rest) \<Rightarrow>
          if IsSpecialKey first_char then drop (length input - length rest) input
          else if \<not> starts_with input [kSpecialKeyOpen] then input
          else (case find_byte_from kSpecialKeyClose input 1 of
                  None \<Rightarrow> input
                | Some close_pos \<Rightarrow> drop (close_pos + 1) input))"

text \<open>\<^verbatim>\<open>DeleteSpecialKeys\<close>: the loop that cuts the bracketed blocks, then the private-use characters.\<close>

function DeleteBlocks :: "bytes \<Rightarrow> bytes" where
  "DeleteBlocks input =
     (if input = [] then []
      else (case FindBlock input kSpecialKeyOpen kSpecialKeyClose of
              None \<Rightarrow> input
            | Some (open_pos, close_pos) \<Rightarrow>
                take open_pos input @ DeleteBlocks (drop (close_pos + 1) input)))"
  by pat_completeness auto
termination
  by (relation "measure length") auto

declare DeleteBlocks.simps [simp del]

definition DeleteSpecialKeys :: "bytes \<Rightarrow> bytes" where
  "DeleteSpecialKeys input =
     (let output = DeleteBlocks input;
          codepoints = Utf8ToUtf32 output;
          kept = filter (\<lambda>c. \<not> IsSpecialKey c) codepoints
      in if length kept = length codepoints then output else Utf32ToUtf8 kept)"

section \<open>Registered keys\<close>

text \<open>
  The map after any registrations: the n-th new key has the n-th private-use character, until they
  are used up.
\<close>

fun special_map_ok :: "special_key_map \<Rightarrow> bool" where
  "special_map_ok [] = True"
| "special_map_ok ((k, v) # m) \<longleftrightarrow>
     special_map_ok m \<and> k \<notin> fst ` set m \<and> v = CodepointToUtf8 (0xF000 + of_nat (min (length m) 0x8FF))"

lemma keycode_eq:
  assumes "length m < 2 ^ 31"
  shows "(if kSpecialKeyEnd < kSpecialKeyBegin + of_nat (length m) then kSpecialKeyEnd
     else kSpecialKeyBegin + of_nat (length m)) = (0xF000 + of_nat (min (length m) 0x8FF) :: char32)"
proof -
  have "unat (kSpecialKeyBegin + of_nat (length m)) = 0xF000 + length m"
    using assms by (simp add: kSpecialKeyBegin_def unat_word_ariths unat_of_nat)
  then show ?thesis
    using assms
    by (auto simp: kSpecialKeyEnd_def kSpecialKeyBegin_def word_less_nat_alt min_def)
qed

lemma RegisterKey_ok:
  assumes "special_map_ok m" "length m < 2 ^ 31" "RegisterKey k m = (v, m')"
  shows "special_map_ok m'" "map_of m' k = Some v" "map_of m \<subseteq>\<^sub>m map_of m'"
    "length m' \<le> Suc (length m)"
proof -
  have "special_map_ok m' \<and> map_of m' k = Some v \<and> map_of m \<subseteq>\<^sub>m map_of m' \<and> length m' \<le> Suc (length m)"
  proof (cases "map_of m k")
    case None
    then have "k \<notin> fst ` set m" by (simp add: map_of_eq_None_iff)
    with None assms keycode_eq [OF assms(2)] show ?thesis
      by (auto simp: RegisterKey_def Let_def map_le_def simp del: map_of_eq_None_iff)
  qed (use assms in \<open>simp add: RegisterKey_def\<close>)
  then show "special_map_ok m'" "map_of m' k = Some v" "map_of m \<subseteq>\<^sub>m map_of m'"
    "length m' \<le> Suc (length m)" by auto
qed

lemma ParseBlock_plain:
  "input = [] \<or> FindBlock input 0x7B 0x7D = None \<Longrightarrow> ParseBlock f input st = (input, st)"
  by (auto simp: ParseBlock.simps [of f input])

lemma ParseBlock_step:
  assumes "input \<noteq> []" "FindBlock input 0x7B 0x7D = Some (i, j)"
    and "key = take (j - i - 1) (drop (i + 1) input)" "rest = drop (j + 1) input"
  shows "ParseBlock f input st =
     (case (if key = [0x7B] then ([0x7B], st) else f key st) of
        (piece, st') \<Rightarrow> (case ParseBlock f rest st' of
           (output, st'') \<Rightarrow> (take i input @ piece @ output, st'')))"
  by (subst ParseBlock.simps) (simp only: assms if_False option.case prod.case Let_def)

lemma ParseBlock_Register:
  assumes "special_map_ok m" "length m + length input < 2 ^ 31" "ParseBlock RegisterKey input m = (out, m')"
  shows "special_map_ok m' \<and> map_of m \<subseteq>\<^sub>m map_of m' \<and>
     (\<forall>m''. map_of m' \<subseteq>\<^sub>m map_of m'' \<longrightarrow> ParseBlock (\<lambda>key st. (ParseKey m'' key, st)) input () = (out, ()))"
  using assms
proof (induction "length input" arbitrary: input m out m' rule: less_induct)
  case less
  show ?case
  proof (cases "input = [] \<or> FindBlock input 0x7B 0x7D = None")
    case True
    with less.prems show ?thesis
      by (auto simp: ParseBlock_plain)
  next
    case False
    then obtain i j where ne: "input \<noteq> []" and fb: "FindBlock input 0x7B 0x7D = Some (i, j)" by auto
    define key where "key = take (j - i - 1) (drop (i + 1) input)"
    define rest where "rest = drop (j + 1) input"
    obtain piece m1 where p: "(if key = [0x7B] then ([0x7B], m) else RegisterKey key m) = (piece, m1)"
      by fastforce
    obtain o2 m2 where o: "ParseBlock RegisterKey rest m1 = (o2, m2)" by fastforce
    have sh: "length rest < length input" using FindBlock_bounds [OF fb] ne by (simp add: rest_def)
    have eq: "out = take i input @ piece @ o2" "m' = m2"
      using less.prems(3) unfolding ParseBlock_step [OF ne fb key_def rest_def] p by (simp_all add: o)
    have m: "length m < 2 ^ 31" using less.prems(2) by simp
    have m1: "special_map_ok m1" "map_of m \<subseteq>\<^sub>m map_of m1" "length m1 \<le> Suc (length m)"
      "key \<noteq> [0x7B] \<longrightarrow> map_of m1 key = Some piece"
      using p RegisterKey_ok [OF less.prems(1) m] less.prems(1) by (auto split: if_splits)
    from less.hyps [OF sh m1(1) _ o] m1(3) less.prems(2) sh
    have ih: "special_map_ok m2" "map_of m1 \<subseteq>\<^sub>m map_of m2"
      "\<And>m''. map_of m2 \<subseteq>\<^sub>m map_of m'' \<Longrightarrow> ParseBlock (\<lambda>key st. (ParseKey m'' key, st)) rest () = (o2, ())"
      by auto
    have "ParseBlock (\<lambda>key st. (ParseKey m'' key, st)) input () = (out, ())"
      if le: "map_of m2 \<subseteq>\<^sub>m map_of m''" for m''
    proof -
      have "(if key = [0x7B] then [0x7B] else ParseKey m'' key) = piece"
      proof (cases "key = [0x7B]")
        case True
        with p show ?thesis by simp
      next
        case False
        with m1(4) ih(2) le have "map_of m'' key = Some piece" by (auto simp: map_le_def dom_def)
        with False show ?thesis by (simp add: ParseKey_def)
      qed
      then have pc: "(if key = [0x7B] then ([0x7B], ()) else (ParseKey m'' key, ())) = (piece, ())" by auto
      show ?thesis
        unfolding ParseBlock_step [OF ne fb key_def rest_def] pc by (simp add: ih(3) [OF le] eq)
    qed
    with ih eq m1(2) show ?thesis by (auto intro: map_le_trans)
  qed
qed

lemma special_map_value:
  "special_map_ok m \<Longrightarrow> map_of m k = Some v \<Longrightarrow> \<exists>c. v = CodepointToUtf8 c \<and> IsSpecialKey c \<and>
     (length m \<le> 0x900 \<longrightarrow> unat c < 0xF000 + length m)"
proof (induction m rule: special_map_ok.induct)
  case (2 k' v' m)
  have u: "unat (0xF000 + of_nat (min (length m) 0x8FF) :: char32) = 0xF000 + min (length m) 0x8FF"
    by (simp add: unat_word_ariths unat_of_nat)
  show ?case
  proof (cases "k = k'")
    case True
    with 2 u show ?thesis
      by (intro exI [of _ "0xF000 + of_nat (min (length m) 0x8FF)"])
        (auto simp: IsSpecialKey_def kSpecialKeyBegin_def kSpecialKeyEnd_def word_le_nat_alt)
  next
    case False
    with 2 show ?thesis by fastforce
  qed
qed simp

lemma special_map_inj:
  assumes "special_map_ok m" "length m \<le> 0x900" "map_of m k = Some v" "map_of m k' = Some v"
  shows "k = k'"
  using assms
proof (induction m rule: special_map_ok.induct)
  case (2 a b m)
  have ne: "map_of m x \<noteq> Some b" for x
  proof
    assume "map_of m x = Some b"
    with special_map_value [of m x b] "2.prems"(1,2) obtain c where
      c: "b = CodepointToUtf8 c" "IsSpecialKey c" "unat c < 0xF000 + length m" by auto
    define d :: char32 where "d = 0xF000 + of_nat (min (length m) 0x8FF)"
    have d: "unat d = 0xF000 + length m"
      using "2.prems"(2) by (simp add: d_def unat_word_ariths unat_of_nat min_def)
    have eq: "CodepointToUtf8 c = CodepointToUtf8 d" using c(1) "2.prems"(1) by (simp add: d_def)
    have ec: "encodable c"
      using c(2) by (auto simp: encodable_def IsSpecialKey_def kSpecialKeyBegin_def kSpecialKeyEnd_def
          word_le_nat_alt word_less_nat_alt)
    have ed: "encodable d"
    proof -
      have "d \<noteq> 0" using d by auto
      with d "2.prems"(2) show ?thesis by (simp add: encodable_def word_less_nat_alt)
    qed
    have "c = d"
      using trans [OF SplitFirstChar32_encoded' [OF ec, unfolded eq, symmetric] SplitFirstChar32_encoded' [OF ed]]
      by blast
    with c(3) d show False by simp
  qed
  have "special_map_ok m" "length m \<le> 0x900" using "2.prems"(1,2) by simp_all
  from "2.IH" [OF this] have ih: "map_of m k = Some v \<Longrightarrow> map_of m k' = Some v \<Longrightarrow> k = k'" .
  have "(if k = a then Some b else map_of m k) = Some v" "(if k' = a then Some b else map_of m k') = Some v"
    using "2.prems"(3,4) by (simp_all split: if_splits)
  with ih ne show ?case by (metis option.inject)
qed simp

lemma special_encodable: "IsSpecialKey c \<Longrightarrow> encodable c"
  by (auto simp: encodable_def IsSpecialKey_def kSpecialKeyBegin_def kSpecialKeyEnd_def
      word_le_nat_alt word_less_nat_alt)

lemma TrimLeadingSpecialKey_special:
  "IsSpecialKey c \<Longrightarrow> TrimLeadingSpecialKey (CodepointToUtf8 c @ rest) = rest"
  by (simp add: TrimLeadingSpecialKey_def special_encodable)

section \<open>Properties\<close>

text \<open>C26: What Register returns for a string, Parse returns for it ever after: every braced key of the
  string gets a private-use character of its own (for up to 2304 keys), kept by later
  registrations; TrimLeadingSpecialKey removes exactly that character from the front.\<close>
theorem special_keys_roundtrip:
  assumes "special_map_ok m" "length m + length input < 2 ^ 31" "Register m input = (out, m')"
  shows "special_map_ok m' \<and> map_of m \<subseteq>\<^sub>m map_of m' \<and>
     (\<forall>m''. map_of m' \<subseteq>\<^sub>m map_of m'' \<longrightarrow> Parse m'' input = out) \<and>
     (\<forall>k v. map_of m' k = Some v \<longrightarrow> (\<forall>rest. TrimLeadingSpecialKey (v @ rest) = rest) \<and>
        (length m' \<le> 0x900 \<longrightarrow> (\<forall>k'. map_of m' k' = Some v \<longrightarrow> k' = k)))"
proof -
  from ParseBlock_Register [OF assms(1,2) assms(3) [unfolded Register_def]] have
    *: "special_map_ok m'" "map_of m \<subseteq>\<^sub>m map_of m'"
    "\<forall>m''. map_of m' \<subseteq>\<^sub>m map_of m'' \<longrightarrow> ParseBlock (\<lambda>key st. (ParseKey m'' key, st)) input () = (out, ())"
    by auto
  have "TrimLeadingSpecialKey (v @ rest) = rest" if "map_of m' k = Some v" for k v rest
    using special_map_value [OF *(1) that] TrimLeadingSpecialKey_special by auto
  with * special_map_inj [OF *(1)] show ?thesis by (auto simp: Parse_def)
qed

theorem special_keys_roundtrip_witness:
  "Parse (snd (Register [] (ascii ''{a}b''))) (ascii ''{a}b'') = fst (Register [] (ascii ''{a}b''))"
  using special_keys_roundtrip [of "[]" "ascii ''{a}b''" "fst (Register [] (ascii ''{a}b''))"
      "snd (Register [] (ascii ''{a}b''))"]
  by (simp add: bytes_simps)

end
