(* ===== verification/KeyTrie.thy ===== *)
theory KeyTrie
  imports Utf8 "HOL-Library.AList"
begin

text \<open>
  The character trie of \<^verbatim>\<open>src/src/base/container/trie.h\<close>: \<^verbatim>\<open>FindSubTrie\<close>, insertion, removal, exact,
  prefix, longest-match and predictive look-up, and the interface (locale \<open>prefix_store\<close>) through
  which the romaji table uses it. The abstraction is \<open>data_at\<close>, a partial map from character
  strings to data; \<open>trie_inv\<close> is the shape every sequence of operations keeps.
\<close>

section \<open>The trie and its operations: base/container/trie.h\<close>

text \<open>
  \<^verbatim>\<open>Trie<T>\<close>: the hash map from the first character to the sub-trie is an association list (its
  order stands for the unspecified iteration order), \<^verbatim>\<open>data_\<close> an option.
\<close>

datatype 'a trie = Trie (trie_map: "(char32 \<times> 'a trie) list") (trie_data: "'a option")

abbreviation empty_trie :: "'a trie" where
  "empty_trie \<equiv> Trie [] None"

text \<open>
  \<^verbatim>\<open>FindSubTrie\<close>: the sub-trie found (if any), the first character and the rest of the key. An
  invalid UTF-8 prefix gives the character 0 and the empty rest, because
  \<^verbatim>\<open>SplitFirstChar32\<close>'s result is ignored.
\<close>

definition FindSubTrie :: "'a trie \<Rightarrow> bytes \<Rightarrow> 'a trie option \<times> char32 \<times> bytes" where
  "FindSubTrie t key =
     (if key = [] then (None, 0, [])
      else (case SplitFirstChar32 key of
              (ok, first_char, rest) \<Rightarrow> (map_of (trie_map t) first_char, first_char, rest)))"

lemma SplitFirstChar32_rest_shorter:
  "s \<noteq> [] \<Longrightarrow> SplitFirstChar32 s = (ok, c, rest) \<Longrightarrow> length rest < length s"
proof (cases ok)
  case True
  then show "s \<noteq> [] \<Longrightarrow> SplitFirstChar32 s = (ok, c, rest) \<Longrightarrow> length rest < length s"
    using SplitFirstChar32_shorter by simp
next
  case False
  then show "s \<noteq> [] \<Longrightarrow> SplitFirstChar32 s = (ok, c, rest) \<Longrightarrow> length rest < length s"
    by (auto simp: SplitFirstChar32_def split: list.splits if_splits option.splits)
qed

lemma FindSubTrie_shorter [termination_simp]:
  "FindSubTrie t key = (r, c, rest) \<Longrightarrow> key \<noteq> [] \<Longrightarrow> length rest < length key"
  by (auto simp: FindSubTrie_def split: prod.splits dest: SplitFirstChar32_rest_shorter)

lemma FindSubTrie_Some_shorter:
  "FindSubTrie t key = (Some u, c, rest) \<Longrightarrow> length rest < length key"
  by (auto simp: FindSubTrie_def split: prod.splits if_splits dest: SplitFirstChar32_rest_shorter)

text \<open>\<^verbatim>\<open>AddEntry\<close>: overwrites the data at the key's node, creating the nodes on the way.\<close>

function AddEntry :: "'a trie \<Rightarrow> bytes \<Rightarrow> 'a \<Rightarrow> 'a trie" where
  "AddEntry t key data =
     (if key = [] then Trie (trie_map t) (Some data)
      else (case FindSubTrie t key of
              (res, first_char, rest) \<Rightarrow>
                Trie (AList.update first_char
                        (AddEntry (case res of None \<Rightarrow> empty_trie | Some s \<Rightarrow> s) rest data)
                        (trie_map t))
                     (trie_data t)))"
  by pat_completeness auto
termination
  by (relation "measure (\<lambda>(t, key, data). length key)") (auto dest: FindSubTrie_shorter [OF sym])

text \<open>\<^verbatim>\<open>DeleteEntry\<close>: whether the caller is to erase this node, and the node left.\<close>

function DeleteEntry :: "'a trie \<Rightarrow> bytes \<Rightarrow> bool \<times> 'a trie" where
  "DeleteEntry t key =
     (if key = [] then
        if trie_map t = [] then (True, t) else (False, Trie (trie_map t) None)
      else (case FindSubTrie t key of
              (None, first_char, rest) \<Rightarrow> (False, t)
            | (Some s, first_char, rest) \<Rightarrow>
                (case DeleteEntry s rest of
                   (True, s') \<Rightarrow>
                     let m = AList.delete first_char (trie_map t)
                     in (m = [], Trie m (trie_data t))
                 | (False, s') \<Rightarrow>
                     (False, Trie (AList.update first_char s' (trie_map t)) (trie_data t)))))"
  by pat_completeness auto
termination
  by (relation "measure (\<lambda>(t, key). length key)") (auto dest: FindSubTrie_Some_shorter [OF sym])

text \<open>\<^verbatim>\<open>LookUp\<close>: the flag and the out parameter as an option.\<close>

function LookUp :: "'a trie \<Rightarrow> bytes \<Rightarrow> 'a option" where
  "LookUp t key =
     (if key = [] then trie_data t
      else (case FindSubTrie t key of
              (None, first_char, rest) \<Rightarrow> None
            | (Some s, first_char, rest) \<Rightarrow> LookUp s rest))"
  by pat_completeness auto
termination
  by (relation "measure (\<lambda>(t, key). length key)") (auto dest: FindSubTrie_Some_shorter [OF sym])

text \<open>\<^verbatim>\<open>LookUpPrefix\<close>: the data (none when it returns false), \<^verbatim>\<open>key_length\<close> and \<^verbatim>\<open>fixed\<close>.\<close>

function LookUpPrefix :: "'a trie \<Rightarrow> bytes \<Rightarrow> 'a option \<times> nat \<times> bool" where
  "LookUpPrefix t key =
     (case FindSubTrie t key of
        (None, first_char, rest) \<Rightarrow>
          (case trie_data t of
             Some d \<Rightarrow> (Some d, 0, trie_map t = [])
           | None \<Rightarrow> (None, 0, True))
      | (Some s, first_char, rest) \<Rightarrow>
          (case LookUpPrefix s rest of
             (found, key_length, fixed) \<Rightarrow>
               (found, key_length + (length key - length rest), fixed)))"
  by pat_completeness auto
termination
  by (relation "measure (\<lambda>(t, key). length key)") (auto dest: FindSubTrie_Some_shorter [OF sym])

text \<open>\<^verbatim>\<open>LongestMatch\<close>: the data and \<^verbatim>\<open>key_length\<close>.\<close>

function LongestMatch :: "'a trie \<Rightarrow> bytes \<Rightarrow> 'a option \<times> nat" where
  "LongestMatch t key =
     (case FindSubTrie t key of
        (None, first_char, rest) \<Rightarrow>
          (case trie_data t of Some d \<Rightarrow> (Some d, 0) | None \<Rightarrow> (None, 0))
      | (Some s, first_char, rest) \<Rightarrow>
          (case LongestMatch s rest of
             (Some d, key_length) \<Rightarrow> (Some d, key_length + (length key - length rest))
           | (None, key_length) \<Rightarrow> (trie_data t, key_length)))"
  by pat_completeness auto
termination
  by (relation "measure (\<lambda>(t, key). length key)") (auto dest: FindSubTrie_Some_shorter [OF sym])

lemma trie_map_size [termination_simp]:
  "(c, u) \<in> set ts \<Longrightarrow> size u < Suc (size_list (size_prod (\<lambda>_. 0) size) ts)"
  by (induction ts) auto

text \<open>
  \<^verbatim>\<open>LookUpPredictiveAll\<close> with the empty key walks the whole sub-trie; with a key it first
  descends to the key's node.
\<close>

fun AllData :: "'a trie \<Rightarrow> 'a list" where
  "AllData (Trie ts d) =
     (case d of Some x \<Rightarrow> [x] | None \<Rightarrow> []) @ concat (map (\<lambda>(c, u). AllData u) ts)"

function LookUpPredictiveAll :: "'a trie \<Rightarrow> bytes \<Rightarrow> 'a list" where
  "LookUpPredictiveAll t key =
     (if key \<noteq> [] then
        (case FindSubTrie t key of
           (None, first_char, rest) \<Rightarrow> []
         | (Some s, first_char, rest) \<Rightarrow> LookUpPredictiveAll s rest)
      else AllData t)"
  by pat_completeness auto
termination
  by (relation "measure (\<lambda>(t, key). length key)") (auto dest: FindSubTrie_Some_shorter [OF sym])

function HasSubTrie :: "'a trie \<Rightarrow> bytes \<Rightarrow> bool" where
  "HasSubTrie t key =
     (case FindSubTrie t key of
        (None, first_char, rest) \<Rightarrow> False
      | (Some s, first_char, rest) \<Rightarrow> rest = [] \<or> HasSubTrie s rest)"
  by pat_completeness auto
termination
  by (relation "measure (\<lambda>(t, key). length key)") (auto dest: FindSubTrie_Some_shorter [OF sym])

declare AddEntry.simps [simp del] DeleteEntry.simps [simp del] LookUp.simps [simp del]
  LookUpPrefix.simps [simp del] LongestMatch.simps [simp del]
  LookUpPredictiveAll.simps [simp del] HasSubTrie.simps [simp del]

section \<open>Keys as character paths\<close>

text \<open>The characters under which a key is filed, and the number of bytes each takes.\<close>

function key_chars :: "bytes \<Rightarrow> char32 list" where
  "key_chars s =
     (if s = [] then []
      else (case SplitFirstChar32 s of (ok, c, rest) \<Rightarrow> c # key_chars rest))"
  by pat_completeness auto
termination
  by (relation "measure length") (auto dest: SplitFirstChar32_rest_shorter [OF _ sym])

declare key_chars.simps [simp del]

fun node_at :: "'a trie \<Rightarrow> char32 list \<Rightarrow> 'a trie option" where
  "node_at t [] = Some t"
| "node_at t (c # cs) = (case map_of (trie_map t) c of None \<Rightarrow> None | Some u \<Rightarrow> node_at u cs)"

definition data_at :: "'a trie \<Rightarrow> char32 list \<Rightarrow> 'a option" where
  "data_at t cs = (case node_at t cs of None \<Rightarrow> None | Some u \<Rightarrow> trie_data u)"

lemma key_chars_Nil [simp]: "key_chars [] = []"
  by (simp add: key_chars.simps)

lemma key_chars_eq_Nil [simp]: "key_chars s = [] \<longleftrightarrow> s = []"
  by (subst key_chars.simps) (auto split: prod.splits)

lemma key_chars_encoded [simp]:
  "list_all encodable cs \<Longrightarrow> key_chars (Utf32ToUtf8 cs) = cs"
  by (induction cs) (simp_all add: key_chars.simps CodepointToUtf8_nonempty)

text \<open>Induction on the key, one character at a time.\<close>

lemma key_induct [case_names Nil step]:
  assumes "P []"
    and "\<And>key ok c rest. key \<noteq> [] \<Longrightarrow> SplitFirstChar32 key = (ok, c, rest) \<Longrightarrow>
           key_chars key = c # key_chars rest \<Longrightarrow> length rest < length key \<Longrightarrow> P rest \<Longrightarrow> P key"
  shows "P key"
proof (induction "length key" arbitrary: key rule: less_induct)
  case less
  show ?case
  proof (cases "key = []")
    case False
    obtain ok c rest where sp: "SplitFirstChar32 key = (ok, c, rest)" by (cases "SplitFirstChar32 key")
    with False have "length rest < length key" by (rule SplitFirstChar32_rest_shorter)
    moreover have "key_chars key = c # key_chars rest"
      using False sp by (simp add: key_chars.simps)
    ultimately show ?thesis using assms(2) [OF False sp] less by blast
  qed (use assms(1) in simp)
qed

lemma FindSubTrie_step:
  "key \<noteq> [] \<Longrightarrow> SplitFirstChar32 key = (ok, c, rest) \<Longrightarrow>
     FindSubTrie t key = (map_of (trie_map t) c, c, rest)"
  by (simp add: FindSubTrie_def)

lemma FindSubTrie_Nil [simp]: "FindSubTrie t [] = (None, 0, [])"
  by (simp add: FindSubTrie_def)

lemma data_at_Cons:
  "data_at t (c # cs) = (case map_of (trie_map t) c of None \<Rightarrow> None | Some u \<Rightarrow> data_at u cs)"
  by (simp add: data_at_def split: option.splits)

lemma data_at_Nil [simp]: "data_at t [] = trie_data t"
  by (simp add: data_at_def)

lemma LookUp_data_at: "LookUp t key = data_at t (key_chars key)"
proof (induction key arbitrary: t rule: key_induct)
  case Nil
  then show ?case by (simp add: LookUp.simps)
next
  case (step key ok c rest)
  then show ?case
    by (subst LookUp.simps) (auto simp: FindSubTrie_step data_at_Cons split: option.splits)
qed

lemma data_at_AddEntry:
  "data_at (AddEntry t key d) cs = (if cs = key_chars key then Some d else data_at t cs)"
proof (induction key arbitrary: t cs rule: key_induct)
  case Nil
  then show ?case by (cases cs) (simp_all add: AddEntry.simps data_at_Cons)
next
  case (step key ok c rest)
  have empty: "data_at empty_trie cs = None" for cs :: "char32 list"
    by (cases cs) (simp_all add: data_at_Cons)
  show ?case
    by (subst AddEntry.simps, cases cs)
      (auto simp: step FindSubTrie_step [OF step(1,2)] data_at_Cons update_conv' empty
        split: option.splits)
qed

lemma DeleteEntry_step:
  assumes "key \<noteq> []" "SplitFirstChar32 key = (ok, c, rest)"
  shows "DeleteEntry t key =
     (case map_of (trie_map t) c of
        None \<Rightarrow> (False, t)
      | Some s \<Rightarrow>
          (case DeleteEntry s rest of
             (True, s') \<Rightarrow>
               let m = AList.delete c (trie_map t) in (m = [], Trie m (trie_data t))
           | (False, s') \<Rightarrow> (False, Trie (AList.update c s' (trie_map t)) (trie_data t))))"
  by (subst DeleteEntry.simps) (simp add: assms FindSubTrie_step [OF assms] split: option.split)

lemma delete_Nil_map_of: "AList.delete c m = [] \<Longrightarrow> c' \<noteq> c \<Longrightarrow> map_of m c' = None"
  by (metis delete_conv' fun_upd_other map_of.simps(1))

text \<open>
  \<^verbatim>\<open>DeleteEntry\<close> seen from the abstract map: the key itself is lost, and the data of a strict
  prefix may be lost too, but no other entry changes.
\<close>

lemma DeleteEntry_erases:
  "DeleteEntry t key = (True, t') \<Longrightarrow> map_of (trie_map t') = (\<lambda>_. None) \<and>
     (\<forall>cs. data_at t cs \<noteq> None \<longrightarrow> prefix cs (key_chars key))"
proof (induction key arbitrary: t t' rule: key_induct)
  case Nil
  have "cs = []" if "trie_map t = []" "data_at t cs \<noteq> None" for cs
    using that by (cases cs) (auto simp: data_at_Cons)
  with Nil show ?case by (auto simp: DeleteEntry.simps split: if_splits)
next
  case (step key ok c rest)
  from step(6) obtain s s' where s: "map_of (trie_map t) c = Some s"
    and d: "DeleteEntry s rest = (True, s')" and m: "AList.delete c (trie_map t) = []"
    and t': "t' = Trie [] (trie_data t)"
    by (auto simp: DeleteEntry_step [OF step(1,2)] Let_def
        split: option.splits prod.splits bool.splits)
  have "prefix cs (key_chars key)" if da: "data_at t cs \<noteq> None" for cs
  proof (cases cs)
    case (Cons c' cs')
    have c': "c' = c"
    proof (rule ccontr)
      assume "c' \<noteq> c"
      with m have "map_of (trie_map t) c' = None" by (rule delete_Nil_map_of)
      with da Cons show False by (simp add: data_at_Cons)
    qed
    with da Cons s have "data_at s cs' \<noteq> None" by (simp add: data_at_Cons)
    with step(5) [OF d] Cons c' step(3) show ?thesis by simp
  qed simp
  with t' show ?case by simp
qed

lemma data_at_DeleteEntry_same:
  "DeleteEntry t key = (r, t') \<Longrightarrow> \<not> r \<or> key \<noteq> [] \<Longrightarrow> data_at t' (key_chars key) = None"
proof (induction key arbitrary: t t' r rule: key_induct)
  case Nil
  then show ?case by (auto simp: DeleteEntry.simps split: if_splits)
next
  case (step key ok c rest)
  show ?case
  proof (cases "map_of (trie_map t) c")
    case None
    with step show ?thesis
      by (auto simp: DeleteEntry_step [OF step(1,2)] data_at_Cons)
  next
    case (Some s)
    obtain r1 s' where d: "DeleteEntry s rest = (r1, s')" by (cases "DeleteEntry s rest")
    show ?thesis
    proof (cases r1)
      case True
      with d Some step(1-3,6) show ?thesis
        by (auto simp: DeleteEntry_step [OF step(1,2)] data_at_Cons delete_conv' Let_def)
    next
      case False
      with d Some step(1-4,6) step(5) [OF d] show ?thesis
        by (auto simp: DeleteEntry_step [OF step(1,2)] data_at_Cons update_conv')
    qed
  qed
qed

lemma data_at_DeleteEntry_other:
  "DeleteEntry t key = (r, t') \<Longrightarrow> \<not> prefix cs (key_chars key) \<Longrightarrow> data_at t' cs = data_at t cs"
proof (induction key arbitrary: t t' r cs rule: key_induct)
  case Nil
  then show ?case
    by (cases cs) (auto simp: DeleteEntry.simps data_at_Cons split: if_splits)
next
  case (step key ok c rest)
  from step(7) obtain c' cs' where cs: "cs = c' # cs'" by (cases cs) auto
  show ?case
  proof (cases "map_of (trie_map t) c")
    case None
    with step show ?thesis by (auto simp: DeleteEntry_step [OF step(1,2)])
  next
    case (Some s)
    obtain r1 s' where d: "DeleteEntry s rest = (r1, s')" by (cases "DeleteEntry s rest")
    show ?thesis
    proof (cases "c' = c")
      case False
      with d Some cs step(1-3,6) show ?thesis
        by (auto simp: DeleteEntry_step [OF step(1,2)] data_at_Cons delete_conv' update_conv' Let_def
            delete_Nil_map_of
            split: bool.splits)
    next
      case True
      with cs step(3,7) have np: "\<not> prefix cs' (key_chars rest)" by simp
      have same: "data_at s' cs' = data_at s cs'" using step(5) [OF d np] .
      show ?thesis
      proof (cases r1)
        case r1: True
        have "data_at s cs' = None" using DeleteEntry_erases [of s rest s'] d r1 np by auto
        with d Some cs True r1 step(1-3,6) show ?thesis
          by (auto simp: DeleteEntry_step [OF step(1,2)] data_at_Cons delete_conv' Let_def)
      next
        case r1: False
        with d Some cs True same step(1-3,6) show ?thesis
          by (auto simp: DeleteEntry_step [OF step(1,2)] data_at_Cons update_conv')
      qed
    qed
  qed
qed

text \<open>
  The shape every reachable trie has: the children are filed under distinct characters, and a
  node that is not the root holds data or leads to some.
\<close>

fun distinct_trie :: "'a trie \<Rightarrow> bool" where
  "distinct_trie (Trie ts d) \<longleftrightarrow> distinct (map fst ts) \<and> (\<forall>(c, u) \<in> set ts. distinct_trie u)"

fun pruned :: "'a trie \<Rightarrow> bool" where
  "pruned (Trie ts d) \<longleftrightarrow>
     (\<forall>(c, u) \<in> set ts. (trie_map u \<noteq> [] \<or> trie_data u \<noteq> None) \<and> pruned u)"

definition trie_inv :: "'a trie \<Rightarrow> bool" where
  "trie_inv t \<longleftrightarrow> distinct_trie t \<and> pruned t"

lemma trie_inv_simps:
  "trie_inv (Trie ts d) \<longleftrightarrow> distinct (map fst ts) \<and>
     (\<forall>(c, u) \<in> set ts. (trie_map u \<noteq> [] \<or> trie_data u \<noteq> None) \<and> trie_inv u)"
  by (auto simp: trie_inv_def)

lemma trie_inv_data: "trie_inv (Trie ts d) = trie_inv (Trie ts d')"
  by (simp add: trie_inv_simps)

lemma trie_inv_empty [simp]: "trie_inv empty_trie"
  by (simp add: trie_inv_simps)

lemma set_AList_update: "set (AList.update k v xs) \<subseteq> insert (k, v) (set xs)"
  by (induction xs) auto

lemma set_AList_delete: "set (AList.delete k xs) \<subseteq> set xs"
  by (auto simp: AList.delete_eq)

lemma trie_inv_update:
  "trie_inv (Trie ts d) \<Longrightarrow> trie_inv u \<Longrightarrow> trie_map u \<noteq> [] \<or> trie_data u \<noteq> None \<Longrightarrow>
     trie_inv (Trie (AList.update c u ts) d)"
  using set_AList_update [of c u ts]
  by (auto simp: trie_inv_simps distinct_update)

lemma trie_inv_delete: "trie_inv (Trie ts d) \<Longrightarrow> trie_inv (Trie (AList.delete c ts) d)"
  using set_AList_delete [of c ts]
  by (auto simp: trie_inv_simps distinct_delete)

lemma trie_inv_child:
  "trie_inv t \<Longrightarrow> map_of (trie_map t) c = Some u \<Longrightarrow>
     trie_inv u \<and> (trie_map u \<noteq> [] \<or> trie_data u \<noteq> None)"
  by (cases t) (auto simp: trie_inv_simps dest: map_of_SomeD)

lemma AddEntry_nonempty: "trie_map (AddEntry t key d) \<noteq> [] \<or> trie_data (AddEntry t key d) \<noteq> None"
  by (subst AddEntry.simps, subst (2) AddEntry.simps)
    (auto split: prod.splits simp: AList.update_nonempty)

lemma AddEntry_step:
  assumes "key \<noteq> []" "SplitFirstChar32 key = (ok, c, rest)"
  shows "AddEntry t key d =
     Trie (AList.update c
        (AddEntry (case map_of (trie_map t) c of None \<Rightarrow> empty_trie | Some s \<Rightarrow> s) rest d)
        (trie_map t)) (trie_data t)"
  by (subst AddEntry.simps) (simp add: assms FindSubTrie_step [OF assms])

lemma AddEntry_inv: "trie_inv t \<Longrightarrow> trie_inv (AddEntry t key d)"
proof (induction key arbitrary: t rule: key_induct)
  case Nil
  then show ?case by (cases t) (simp add: AddEntry.simps trie_inv_simps)
next
  case (step key ok c rest)
  let ?s = "case map_of (trie_map t) c of None \<Rightarrow> empty_trie | Some s \<Rightarrow> s"
  have "trie_inv ?s" using trie_inv_child [OF step(6)] by (auto split: option.splits)
  from step(5) [OF this] step(6) AddEntry_nonempty [of ?s rest d] show ?case
    by (cases t) (simp add: AddEntry_step [OF step(1,2)] trie_inv_update)
qed

lemma DeleteEntry_False_nonempty:
  "DeleteEntry t key = (False, t') \<Longrightarrow> trie_map t \<noteq> [] \<or> trie_data t \<noteq> None \<Longrightarrow>
     trie_map t' \<noteq> [] \<or> trie_data t' \<noteq> None"
proof (cases "key = []")
  case True
  then show "DeleteEntry t key = (False, t') \<Longrightarrow> trie_map t \<noteq> [] \<or> trie_data t \<noteq> None \<Longrightarrow>
     trie_map t' \<noteq> [] \<or> trie_data t' \<noteq> None"
    by (auto simp: DeleteEntry.simps split: if_splits)
next
  case False
  obtain ok c rest where sp: "SplitFirstChar32 key = (ok, c, rest)" by (cases "SplitFirstChar32 key")
  show "DeleteEntry t key = (False, t') \<Longrightarrow> trie_map t \<noteq> [] \<or> trie_data t \<noteq> None \<Longrightarrow>
     trie_map t' \<noteq> [] \<or> trie_data t' \<noteq> None"
    by (auto simp: DeleteEntry_step [OF False sp] Let_def AList.update_nonempty
        split: option.splits prod.splits bool.splits)
qed

lemma DeleteEntry_inv: "trie_inv t \<Longrightarrow> DeleteEntry t key = (r, t') \<Longrightarrow> trie_inv t'"
proof (induction key arbitrary: t r t' rule: key_induct)
  case Nil
  then show ?case by (cases t) (auto simp: DeleteEntry.simps trie_inv_simps split: if_splits)
next
  case (step key ok c rest)
  show ?case
  proof (cases "map_of (trie_map t) c")
    case None
    with step show ?thesis by (simp add: DeleteEntry_step)
  next
    case (Some s)
    obtain r1 s' where d: "DeleteEntry s rest = (r1, s')" by (cases "DeleteEntry s rest")
    have s: "trie_inv s" "trie_map s \<noteq> [] \<or> trie_data s \<noteq> None"
      using trie_inv_child [OF step(6) Some] by auto
    note s' = step(5) [OF s(1) d]
    show ?thesis
    proof (cases r1)
      case True
      with step(6,7) d Some show ?thesis
        by (cases t) (auto simp: DeleteEntry_step [OF step(1,2)] Let_def intro!: trie_inv_delete)
    next
      case False
      with step(6,7) d Some s' DeleteEntry_False_nonempty [OF _ s(2)] show ?thesis
        by (cases t) (auto simp: DeleteEntry_step [OF step(1,2)] intro!: trie_inv_update)
    qed
  qed
qed

text \<open>In such a trie every node leads to data, so \<^verbatim>\<open>HasSubTrie\<close> is a statement about the keys.\<close>

lemma pruned_has_data:
  "trie_inv t \<Longrightarrow> trie_map t \<noteq> [] \<or> trie_data t \<noteq> None \<Longrightarrow> \<exists>cs. data_at t cs \<noteq> None"
proof (induction t)
  case (Trie ts d)
  show ?case
  proof (cases d)
    case (Some x)
    then have "data_at (Trie ts d) [] \<noteq> None" by simp
    then show ?thesis by blast
  next
    case None
    with Trie(3) obtain c u ts' where ts: "ts = (c, u) # ts'" by (cases ts) auto
    with Trie(2) have "trie_inv u" "trie_map u \<noteq> [] \<or> trie_data u \<noteq> None"
      by (auto simp: trie_inv_simps)
    with Trie(1) [of "(c, u)" u] ts obtain cs where "data_at u cs \<noteq> None" by auto
    then have "data_at (Trie ts d) (c # cs) \<noteq> None" by (simp add: ts data_at_Cons)
    then show ?thesis by blast
  qed
qed

lemma HasSubTrie_step:
  assumes "key \<noteq> []" "SplitFirstChar32 key = (ok, c, rest)"
  shows "HasSubTrie t key \<longleftrightarrow>
     (case map_of (trie_map t) c of None \<Rightarrow> False | Some s \<Rightarrow> rest = [] \<or> HasSubTrie s rest)"
  by (subst HasSubTrie.simps) (simp add: assms FindSubTrie_step [OF assms] split: option.split)

lemma HasSubTrie_node: "HasSubTrie t key \<longleftrightarrow> key \<noteq> [] \<and> node_at t (key_chars key) \<noteq> None"
proof (induction key arbitrary: t rule: key_induct)
  case Nil
  then show ?case by (simp add: HasSubTrie.simps)
next
  case (step key ok c rest)
  then show ?case by (auto simp: HasSubTrie_step split: option.splits)
qed

lemma node_at_inv:
  "trie_inv t \<Longrightarrow> node_at t cs = Some u \<Longrightarrow> cs \<noteq> [] \<Longrightarrow>
     trie_inv u \<and> (trie_map u \<noteq> [] \<or> trie_data u \<noteq> None)"
proof (induction cs arbitrary: t)
  case (Cons c cs)
  then obtain v where v: "map_of (trie_map t) c = Some v" "node_at v cs = Some u"
    by (auto split: option.splits)
  with Cons.prems trie_inv_child have "trie_inv v" "trie_map v \<noteq> [] \<or> trie_data v \<noteq> None" by blast+
  with Cons v(2) show ?case by (cases cs) auto
qed simp

lemma data_at_append: "data_at t (cs @ ds) = (case node_at t cs of None \<Rightarrow> None | Some u \<Rightarrow> data_at u ds)"
  by (induction cs arbitrary: t) (auto simp: data_at_Cons split: option.splits)

lemma HasSubTrie_data:
  assumes "trie_inv t"
  shows "HasSubTrie t key \<longleftrightarrow> key \<noteq> [] \<and> (\<exists>cs. prefix (key_chars key) cs \<and> data_at t cs \<noteq> None)"
proof (cases "node_at t (key_chars key)")
  case None
  then show ?thesis by (auto simp: HasSubTrie_node prefix_def data_at_append)
next
  case (Some u)
  show ?thesis
  proof (cases "key = []")
    case False
    with node_at_inv [OF assms Some] have "trie_inv u" "trie_map u \<noteq> [] \<or> trie_data u \<noteq> None"
      by simp_all
    from pruned_has_data [OF this] obtain cs where "data_at u cs \<noteq> None" ..
    then have "data_at t (key_chars key @ cs) \<noteq> None" by (simp add: data_at_append Some)
    then have "\<exists>cs'. prefix (key_chars key) cs' \<and> data_at t cs' \<noteq> None"
      by (blast intro: prefixI)
    with False Some show ?thesis by (simp add: HasSubTrie_node)
  qed (simp add: HasSubTrie_node)
qed

section \<open>Prefix searches\<close>

lemma SplitFirstChar32_rest_drop:
  "SplitFirstChar32 s = (ok, c, rest) \<Longrightarrow> rest = drop (length s - length rest) s"
  by (auto simp: SplitFirstChar32_def Let_def split: list.splits if_splits option.splits)

text \<open>
  \<^verbatim>\<open>LookUpPrefix\<close> descends as far as the key has nodes: \<open>cs\<close> is the part of the key it consumed,
  \<open>ds\<close> the part left, whose first character has no node.
\<close>

lemma LookUpPrefix_step:
  assumes "key \<noteq> []" "SplitFirstChar32 key = (ok, c, rest)"
  shows "LookUpPrefix t key =
     (case map_of (trie_map t) c of
        None \<Rightarrow> (trie_data t, 0, trie_data t = None \<or> trie_map t = [])
      | Some s \<Rightarrow> (case LookUpPrefix s rest of (found, n, fixed) \<Rightarrow>
                    (found, n + (length key - length rest), fixed)))"
  by (subst LookUpPrefix.simps) (simp add: FindSubTrie_step [OF assms] split: option.split)

lemma LookUpPrefix_Nil:
  "LookUpPrefix t [] = (trie_data t, 0, trie_data t = None \<or> trie_map t = [])"
  by (subst LookUpPrefix.simps) (simp split: option.split)

lemma LookUpPrefix_deepest:
  "LookUpPrefix t key = (found, n, fixed) \<Longrightarrow>
     \<exists>cs u. key_chars key = cs @ key_chars (drop n key) \<and> n \<le> length key \<and>
       node_at t cs = Some u \<and> found = trie_data u \<and>
       fixed = (trie_data u = None \<or> trie_map u = []) \<and>
       (\<forall>c ds. key_chars (drop n key) = c # ds \<longrightarrow> map_of (trie_map u) c = None)"
proof (induction key arbitrary: t n found fixed rule: key_induct)
  case Nil
  then show ?case by (auto simp: LookUpPrefix_Nil)
next
  case (step key ok c rest)
  show ?case
  proof (cases "map_of (trie_map t) c")
    case None
    with step show ?thesis by (intro exI [of _ "[]"]) (auto simp: LookUpPrefix_step)
  next
    case (Some s)
    obtain f m x where rec: "LookUpPrefix s rest = (f, m, x)" by (cases "LookUpPrefix s rest")
    from step(5) [OF this] obtain cs u where ih:
      "key_chars rest = cs @ key_chars (drop m rest)" "m \<le> length rest" "node_at s cs = Some u"
      "f = trie_data u" "x = (trie_data u = None \<or> trie_map u = [])"
      "\<forall>c ds. key_chars (drop m rest) = c # ds \<longrightarrow> map_of (trie_map u) c = None" by blast
    have n: "n = m + (length key - length rest)" "found = f" "fixed = x"
      using step(6) Some rec by (simp_all add: LookUpPrefix_step [OF step(1,2)])
    have drop: "drop n key = drop m rest"
      using SplitFirstChar32_rest_drop [OF step(2)] by (metis drop_drop n(1))
    show ?thesis
      by (intro exI [of _ "c # cs"] exI [of _ u]) (use ih n step(3,4) Some drop in auto)
  qed
qed

lemma LongestMatch_step:
  assumes "key \<noteq> []" "SplitFirstChar32 key = (ok, c, rest)"
  shows "LongestMatch t key =
     (case map_of (trie_map t) c of
        None \<Rightarrow> (trie_data t, 0)
      | Some s \<Rightarrow> (case LongestMatch s rest of
                    (Some d, n) \<Rightarrow> (Some d, n + (length key - length rest))
                  | (None, n) \<Rightarrow> (trie_data t, n)))"
  by (subst LongestMatch.simps) (simp add: FindSubTrie_step [OF assms] split: option.split)

lemma LongestMatch_Nil: "LongestMatch t [] = (trie_data t, 0)"
  by (subst LongestMatch.simps) (simp split: option.split)

lemma LongestMatch_None:
  "LongestMatch t key = (None, n) \<Longrightarrow> n = 0 \<and> (\<forall>cs. prefix cs (key_chars key) \<longrightarrow> data_at t cs = None)"
proof (induction key arbitrary: t n rule: key_induct)
  case Nil
  then show ?case by (simp add: LongestMatch_Nil)
next
  case (step key ok c rest)
  from step(6) have root: "trie_data t = None"
    by (auto simp: LongestMatch_step [OF step(1,2)] split: option.splits prod.splits)
  show ?case
  proof (cases "map_of (trie_map t) c")
    case None
    with step(6) root show ?thesis
      by (auto simp: LongestMatch_step [OF step(1,2)] step(3) prefix_Cons data_at_Cons)
  next
    case (Some s)
    with step(6) have rec: "LongestMatch s rest = (None, n)"
      by (auto simp: LongestMatch_step [OF step(1,2)] split: option.splits prod.splits)
    from step(5) [OF rec] Some root show ?thesis
      by (auto simp: step(3) prefix_Cons data_at_Cons)
  qed
qed

lemma LongestMatch_Some:
  "LongestMatch t key = (Some d, n) \<Longrightarrow>
     \<exists>cs. key_chars key = cs @ key_chars (drop n key) \<and> n \<le> length key \<and> data_at t cs = Some d \<and>
       (\<forall>cs'. prefix cs' (key_chars key) \<and> length cs < length cs' \<longrightarrow> data_at t cs' = None)"
proof (induction key arbitrary: t n d rule: key_induct)
  case Nil
  then show ?case by (simp add: LongestMatch_Nil)
next
  case (step key ok c rest)
  show ?case
  proof (cases "map_of (trie_map t) c")
    case None
    with step(6) show ?thesis
      by (intro exI [of _ "[]"])
        (auto simp: LongestMatch_step [OF step(1,2)] step(3) prefix_Cons data_at_Cons)
  next
    case (Some s)
    obtain f m where rec: "LongestMatch s rest = (f, m)" by (cases "LongestMatch s rest")
    show ?thesis
    proof (cases f)
      case None
      with LongestMatch_None rec have "m = 0 \<and> (\<forall>cs. prefix cs (key_chars rest) \<longrightarrow> data_at s cs = None)"
        by blast
      with step(6) Some rec None show ?thesis
        by (intro exI [of _ "[]"])
          (auto simp: LongestMatch_step [OF step(1,2)] step(3) prefix_Cons data_at_Cons)
    next
      case f: (Some d')
      with rec have "LongestMatch s rest = (Some d', m)" by simp
      from step(5) [OF this] obtain cs where ih: "key_chars rest = cs @ key_chars (drop m rest)"
        "m \<le> length rest" "data_at s cs = Some d'"
        "\<forall>cs'. prefix cs' (key_chars rest) \<and> length cs < length cs' \<longrightarrow> data_at s cs' = None"
        by blast
      have n: "n = m + (length key - length rest)" "d = d'"
        using step(6) Some rec f by (simp_all add: LongestMatch_step [OF step(1,2)])
      have drop: "drop n key = drop m rest"
        using SplitFirstChar32_rest_drop [OF step(2)] by (metis drop_drop n(1))
      show ?thesis
        by (intro exI [of _ "c # cs"])
          (use ih n step(3,4) Some drop in \<open>auto simp: prefix_Cons data_at_Cons\<close>)
    qed
  qed
qed

text \<open>The keys under a node, in the order in which \<^verbatim>\<open>LookUpPredictiveAll\<close> visits them.\<close>

fun AllKeys :: "'a trie \<Rightarrow> char32 list list" where
  "AllKeys (Trie ts d) =
     (case d of Some x \<Rightarrow> [[]] | None \<Rightarrow> []) @ concat (map (\<lambda>(c, u). map ((#) c) (AllKeys u)) ts)"

lemma AllData_AllKeys:
  "distinct_trie t \<Longrightarrow> map Some (AllData t) = map (data_at t) (AllKeys t)"
proof (induction t)
  case (Trie ts d)
  have "map Some (AllData u) = map (data_at (Trie ts d)) (map ((#) c) (AllKeys u))"
    if "(c, u) \<in> set ts" for c u
  proof -
    have "map_of ts c = Some u" using that Trie.prems by simp
    with Trie that show ?thesis by (auto simp: data_at_Cons)
  qed
  then show ?case
    by (cases d)
      (auto simp: map_concat o_def intro!: arg_cong [where f = concat] map_cong)
qed

lemma set_AllKeys: "distinct_trie t \<Longrightarrow> set (AllKeys t) = {cs. data_at t cs \<noteq> None}"
proof (induction t)
  case (Trie ts d)
  have "cs \<in> set (AllKeys (Trie ts d)) \<longleftrightarrow> data_at (Trie ts d) cs \<noteq> None" for cs
  proof (cases cs)
    case Nil
    then show ?thesis by (auto split: option.splits)
  next
    case (Cons c cs')
    have "cs \<in> set (AllKeys (Trie ts d)) \<longleftrightarrow> (\<exists>u. (c, u) \<in> set ts \<and> cs' \<in> set (AllKeys u))"
      using Cons by (auto split: option.splits)
    also have "\<dots> \<longleftrightarrow> (\<exists>u. map_of ts c = Some u \<and> cs' \<in> set (AllKeys u))"
      using Trie.prems by simp
    also have "\<dots> \<longleftrightarrow> (\<exists>u. map_of ts c = Some u \<and> data_at u cs' \<noteq> None)"
    proof -
      have "set (AllKeys u) = {cs. data_at u cs \<noteq> None}" if "map_of ts c = Some u" for u
        using Trie.IH [of "(c, u)" u] Trie.prems map_of_SomeD [OF that] by auto
      then show ?thesis by blast
    qed
    also have "\<dots> \<longleftrightarrow> data_at (Trie ts d) cs \<noteq> None"
      using Cons by (auto simp: data_at_Cons split: option.splits)
    finally show ?thesis .
  qed
  then show ?case by blast
qed

lemma distinct_AllKeys: "distinct_trie t \<Longrightarrow> distinct (AllKeys t)"
proof (induction t)
  case (Trie ts d)
  have "distinct (concat (map (\<lambda>(c, u). map ((#) c) (AllKeys u)) ts))"
    if "distinct (map fst ts)" "\<forall>(c, u) \<in> set ts. distinct (AllKeys u)"
    using that
  proof (induction ts)
    case (Cons p ts)
    then show ?case by (cases p) (force simp: distinct_map)
  qed simp
  with Trie show ?case by (fastforce split: option.splits)
qed

lemma LookUpPredictiveAll_node:
  "LookUpPredictiveAll t key =
     (case node_at t (key_chars key) of None \<Rightarrow> [] | Some u \<Rightarrow> AllData u)"
proof (induction key arbitrary: t rule: key_induct)
  case Nil
  then show ?case by (simp add: LookUpPredictiveAll.simps)
next
  case (step key ok c rest)
  then show ?case
    by (subst LookUpPredictiveAll.simps) (simp add: FindSubTrie_step split: option.split)
qed

lemma distinct_node_at: "distinct_trie t \<Longrightarrow> node_at t cs = Some u \<Longrightarrow> distinct_trie u"
proof (induction cs arbitrary: t)
  case (Cons c cs)
  then show ?case by (cases t) (auto split: option.splits dest: map_of_SomeD)
qed simp

lemma LookUpPredictiveAll_keys:
  assumes "distinct_trie t"
  shows "\<exists>ks. distinct ks \<and> set ks = {cs. prefix (key_chars key) cs \<and> data_at t cs \<noteq> None} \<and>
     map Some (LookUpPredictiveAll t key) = map (data_at t) ks"
proof (cases "node_at t (key_chars key)")
  case None
  then show ?thesis
    by (intro exI [of _ "[]"]) (auto simp: LookUpPredictiveAll_node prefix_def data_at_append)
next
  case (Some u)
  let ?k = "key_chars key"
  have u: "distinct_trie u" using distinct_node_at assms Some .
  have at: "data_at t (?k @ cs) = data_at u cs" for cs by (simp add: data_at_append Some)
  show ?thesis
    by (intro exI [of _ "map ((@) ?k) (AllKeys u)"])
      (auto simp: distinct_map distinct_AllKeys [OF u] set_AllKeys [OF u] inj_on_def prefix_def at
         LookUpPredictiveAll_node Some AllData_AllKeys [OF u] o_def)
qed

section \<open>The interface the romaji table relies on\<close>

text \<open>
  A store of rules: what a look-up returns after an insertion and a removal, and the predictive
  listing. A removal may take the entries of the key's strict prefixes with it, which is what
  \<^verbatim>\<open>DeleteEntry\<close> does; it leaves every other entry alone.
\<close>

locale prefix_store =
  fixes store_empty :: 's
    and store_add :: "'s \<Rightarrow> bytes \<Rightarrow> 'v \<Rightarrow> 's"
    and store_delete :: "'s \<Rightarrow> bytes \<Rightarrow> 's"
    and store_find :: "'s \<Rightarrow> bytes \<Rightarrow> 'v option"
    and store_has_longer :: "'s \<Rightarrow> bytes \<Rightarrow> bool"
    and store_inv :: "'s \<Rightarrow> bool"
  assumes inv_empty: "store_inv store_empty"
    and inv_add: "store_inv s \<Longrightarrow> store_inv (store_add s k v)"
    and inv_delete: "store_inv s \<Longrightarrow> store_inv (store_delete s k)"
    and find_empty: "store_find store_empty k = None"
    and find_add: "store_find (store_add s k v) k' =
          (if key_chars k' = key_chars k then Some v else store_find s k')"
    and find_delete_same: "store_find (store_delete s k) k = None \<or> k = []"
    and find_delete_other: "\<not> prefix (key_chars k') (key_chars k) \<Longrightarrow>
          store_find (store_delete s k) k' = store_find s k'"
    and has_longer: "store_inv s \<Longrightarrow> k \<noteq> [] \<Longrightarrow> prefix (key_chars k) (key_chars k') \<Longrightarrow>
          store_find s k' \<noteq> None \<Longrightarrow> store_has_longer s k"
begin

text \<open>Filling the store from a list of rules: the last rule of a key wins.\<close>

definition fill :: "(bytes \<times> 'v) list \<Rightarrow> 's" where
  "fill rules = fold (\<lambda>(k, v) s. store_add s k v) rules store_empty"

lemma fill_inv: "store_inv (fill rules)"
proof -
  have "store_inv s \<Longrightarrow> store_inv (fold (\<lambda>(k, v) s. store_add s k v) rules s)" for s
    by (induction rules arbitrary: s) (auto intro: inv_add)
  then show ?thesis by (simp add: fill_def inv_empty)
qed

lemma fill_find:
  "store_find (fill rules) k = map_of (rev (map (\<lambda>(k, v). (key_chars k, v)) rules)) (key_chars k)"
proof -
  have "store_find (fold (\<lambda>(k, v) s. store_add s k v) rules s) k =
      (case map_of (rev (map (\<lambda>(k, v). (key_chars k, v)) rules)) (key_chars k) of
         Some v \<Rightarrow> Some v | None \<Rightarrow> store_find s k)" for s
    by (induction rules arbitrary: s)
      (auto simp: find_add map_add_def split: option.splits)
  then show ?thesis by (simp add: fill_def find_empty split: option.split)
qed

lemma fill_has_longer:
  assumes "k \<noteq> []" "prefix (key_chars k) (key_chars k')" "k' \<in> fst ` set rules"
  shows "store_has_longer (fill rules) k"
proof -
  from assms(3) obtain v where "(k', v) \<in> set rules" by auto
  then have "(key_chars k', v) \<in> set (rev (map (\<lambda>(k, v). (key_chars k, v)) rules))" by force
  then have "map_of (rev (map (\<lambda>(k, v). (key_chars k, v)) rules)) (key_chars k') \<noteq> None"
    by (metis map_of_eq_None_iff image_eqI fst_conv)
  with fill_find [of rules k'] show ?thesis
    using has_longer [OF fill_inv assms(1,2)] by metis
qed

end

interpretation trie_store: prefix_store
  empty_trie AddEntry "\<lambda>t k. snd (DeleteEntry t k)" LookUp HasSubTrie trie_inv
proof unfold_locales
  show "trie_inv t \<Longrightarrow> trie_inv (snd (DeleteEntry t k))" for t :: "'a trie" and k
    by (cases "DeleteEntry t k") (auto dest: DeleteEntry_inv)
  show "LookUp (empty_trie :: 'a trie) k = None" for k
    by (cases "key_chars k") (simp_all add: LookUp_data_at data_at_Cons)
  show "LookUp (snd (DeleteEntry t k)) k = None \<or> k = []" for t :: "'a trie" and k
    by (cases "DeleteEntry t k") (auto simp: LookUp_data_at data_at_DeleteEntry_same)
  show "\<not> prefix (key_chars k') (key_chars k) \<Longrightarrow>
      LookUp (snd (DeleteEntry t k)) k' = LookUp t k'" for t :: "'a trie" and k k'
    by (cases "DeleteEntry t k") (auto simp: LookUp_data_at data_at_DeleteEntry_other)
  show "trie_inv t \<Longrightarrow> k \<noteq> [] \<Longrightarrow> prefix (key_chars k) (key_chars k') \<Longrightarrow>
      LookUp t k' \<noteq> None \<Longrightarrow> HasSubTrie t k" for t :: "'a trie" and k k'
    by (auto simp: HasSubTrie_data LookUp_data_at)
qed (auto simp: AddEntry_inv LookUp_data_at data_at_AddEntry)

section \<open>Properties\<close>

text \<open>C23: The trie of base/container/trie.h is a map from character strings: after any sequence
  of AddEntry calls LookUp returns the data of the last entry with the same characters and
  nothing for any other key, and HasSubTrie holds of every non-empty prefix of an added key.\<close>
theorem trie_is_a_map:
  "LookUp (fold (\<lambda>(k, v) t. AddEntry t k v) rules empty_trie) key =
     map_of (rev (map (\<lambda>(k, v). (key_chars k, v)) rules)) (key_chars key) \<and>
   (\<forall>k \<in> fst ` set rules. key \<noteq> [] \<and> prefix (key_chars key) (key_chars k) \<longrightarrow>
     HasSubTrie (fold (\<lambda>(k, v) t. AddEntry t k v) rules empty_trie) key)"
  using trie_store.fill_find [of rules key] trie_store.fill_has_longer [of key _ rules]
  by (auto simp: trie_store.fill_def)

theorem trie_is_a_map_witness:
  "HasSubTrie (fold (\<lambda>(k, v) t. AddEntry t k v) [([0x61, 0x62], 1 :: nat)] empty_trie) [0x61]"
proof -
  have "key_chars [0x61] = [0x61]" "key_chars [0x61, 0x62] = [0x61, 0x62]"
    by (simp_all add: key_chars.simps SplitFirstChar32_def)
  then show ?thesis
    using trie_is_a_map [of "[([0x61, 0x62], 1 :: nat)]" "[0x61]"] by simp
qed

text \<open>C24: DeleteEntry removes the entry of a non-empty key, keeps every entry whose key is not a prefix of the deleted
  one, and keeps the trie's shape: no two children of a node have the same character and no branch is left without data.
  The empty key loses its entry in a trie with children; in a trie without, the call asks for the erasure of the
  whole trie and changes nothing, so the entry of the empty key stays.\<close>
theorem DeleteEntry_keeps_others:
  assumes "trie_inv t" "DeleteEntry t key = (erase, t')"
  shows "trie_inv t' \<and> (key \<noteq> [] \<longrightarrow> LookUp t' key = None) \<and>
     (key = [] \<longrightarrow> (if trie_map t = [] then erase \<and> t' = t else \<not> erase \<and> LookUp t' [] = None)) \<and>
     (\<forall>k. \<not> prefix (key_chars k) (key_chars key) \<longrightarrow> LookUp t' k = LookUp t k)"
proof -
  have e: "key = [] \<longrightarrow> (if trie_map t = [] then erase \<and> t' = t else \<not> erase \<and> LookUp t' [] = None)"
    using assms(2) by (auto simp: DeleteEntry.simps [of t "[]"] LookUp.simps [of _ "[]"] split: if_splits)
  have "LookUp t' key = None" if "key \<noteq> []" using data_at_DeleteEntry_same [OF assms(2)] that by (simp add: LookUp_data_at)
  moreover have "LookUp t' k = LookUp t k" if "\<not> prefix (key_chars k) (key_chars key)" for k
    using data_at_DeleteEntry_other [OF assms(2) that] by (simp add: LookUp_data_at)
  ultimately show ?thesis using e DeleteEntry_inv [OF assms] by blast
qed

theorem DeleteEntry_keeps_others_witness:
  "LookUp (AddEntry (AddEntry empty_trie [0x61] (7 :: nat)) [0x62] 8) [0x62] = Some 8 \<and>
   LookUp (snd (DeleteEntry (AddEntry (AddEntry empty_trie [0x61] (7 :: nat)) [0x62] 8) [0x62])) [0x62] = None \<and>
   LookUp (snd (DeleteEntry (AddEntry (AddEntry empty_trie [0x61] (7 :: nat)) [0x62] 8) [0x62])) [0x61] = Some 7"
proof -
  let ?t = "AddEntry (AddEntry empty_trie [0x61] (7 :: nat)) [0x62] 8"
  have k: "key_chars [0x61] = [0x61]" "key_chars [0x62] = [0x62]"
    by (simp_all add: key_chars.simps SplitFirstChar32_def)
  have "LookUp (snd (DeleteEntry ?t [0x62])) [0x61] = LookUp ?t [0x61]" "LookUp (snd (DeleteEntry ?t [0x62])) [0x62] = None"
    using DeleteEntry_keeps_others [of ?t "[0x62]" "fst (DeleteEntry ?t [0x62])"
        "snd (DeleteEntry ?t [0x62])"] k
    by (simp_all add: AddEntry_inv)
  then show ?thesis by (simp add: LookUp_data_at data_at_AddEntry k)
qed

text \<open>DeleteEntry loses data of a shorter key: an inner node whose last child is erased tells its
  parent to erase it without looking at its own data, so deleting "ab" from a trie with "a" and
  "ab" leaves nothing.\<close>
theorem DeleteEntry_loses_prefix:
  "LookUp (AddEntry (AddEntry empty_trie (ascii ''a'') x) (ascii ''ab'') y) (ascii ''a'') = Some x \<and>
   snd (DeleteEntry (AddEntry (AddEntry empty_trie (ascii ''a'') x) (ascii ''ab'') y) (ascii ''ab''))
     = empty_trie"
proof -
  have a: "ascii ''a'' = [0x61]" "ascii ''ab'' = [0x61, 0x62]" by (simp_all add: bytes_simps)
  have s: "SplitFirstChar32 [0x61] = (True, 0x61, [])"
    "SplitFirstChar32 [0x62] = (True, 0x62, [])"
    "SplitFirstChar32 [0x61, 0x62] = (True, 0x61, [0x62])"
    by (simp_all add: SplitFirstChar32_def)
  have "LookUp (AddEntry (AddEntry empty_trie (ascii ''a'') x) (ascii ''ab'') y) (ascii ''a'') = Some x"
    by (simp add: a LookUp_data_at data_at_AddEntry key_chars.simps s)
  moreover have "snd (DeleteEntry (AddEntry (AddEntry empty_trie (ascii ''a'') x) (ascii ''ab'') y)
      (ascii ''ab'')) = empty_trie"
    by (simp add: a AddEntry_step [OF _ s(1)] AddEntry_step [OF _ s(2)] AddEntry_step [OF _ s(3)]
        AddEntry.simps [of _ "[]"] DeleteEntry_step [OF _ s(3)] DeleteEntry_step [OF _ s(2)]
        DeleteEntry.simps [of _ "[]"])
  ultimately show ?thesis ..
qed

text \<open>LookUpPrefix follows the key as far as the trie has nodes and answers from that node alone:
  the consumed bytes are those of its characters, the data and the fixed flag are the node's, and
  no longer part of the key has a node.\<close>
theorem LookUpPrefix_answers_deepest:
  assumes "LookUpPrefix t key = (found, n, fixed)"
  shows "\<exists>cs u. key_chars key = cs @ key_chars (drop n key) \<and> n \<le> length key \<and>
     node_at t cs = Some u \<and> found = data_at t cs \<and>
     (fixed \<longleftrightarrow> trie_data u = None \<or> trie_map u = []) \<and>
     (\<forall>cs'. prefix cs' (key_chars key) \<and> length cs < length cs' \<longrightarrow> node_at t cs' = None)"
proof -
  have app: "node_at t (cs @ ds) = (case node_at t cs of None \<Rightarrow> None | Some u \<Rightarrow> node_at u ds)"
    for t :: "'a trie" and cs ds
    by (induction cs arbitrary: t) (auto split: option.splits)
  from LookUpPrefix_deepest [OF assms] obtain cs u where *:
    "key_chars key = cs @ key_chars (drop n key)" "n \<le> length key" "node_at t cs = Some u"
    "found = trie_data u" "fixed = (trie_data u = None \<or> trie_map u = [])"
    "\<forall>c ds. key_chars (drop n key) = c # ds \<longrightarrow> map_of (trie_map u) c = None" by blast
  have "node_at t cs' = None" if "prefix cs' (key_chars key)" "length cs < length cs'" for cs'
  proof -
    have "prefix cs cs'" using that *(1) by (metis prefixI prefix_length_prefix less_imp_le)
    with that(2) obtain c ds where cs': "cs' = cs @ c # ds" by (auto simp: prefix_def neq_Nil_conv)
    with that(1) *(1) have "\<exists>es. key_chars (drop n key) = c # es"
      by (metis append_Cons prefix_def same_prefix_prefix)
    with *(3,6) show ?thesis by (auto simp: cs' app)
  qed
  with * show ?thesis by (intro exI [of _ cs] exI [of _ u]) (auto simp: data_at_def)
qed

theorem LookUpPrefix_answers_deepest_witness:
  "\<exists>n. fst (LookUpPrefix (AddEntry empty_trie [0x61] (7 :: nat)) [0x61, 0x62]) = Some 7 \<and> n \<le> 2 \<and>
     key_chars [0x61, 0x62] = [0x61] @ key_chars (drop n [0x61, 0x62])"
proof -
  let ?t = "AddEntry empty_trie [0x61] (7 :: nat)"
  have s: "SplitFirstChar32 [0x61] = (True, 0x61, [])"
    "SplitFirstChar32 [0x61, 0x62] = (True, 0x61, [0x62])"
    "SplitFirstChar32 [0x62] = (True, 0x62, [])"
    by (simp_all add: SplitFirstChar32_def)
  have t: "?t = Trie [(0x61, Trie [] (Some 7))] None"
    by (simp add: AddEntry_step [OF _ s(1)] AddEntry.simps [of _ "[]"])
  have l: "LookUpPrefix ?t [0x61, 0x62] = (Some 7, 1, True)"
    by (simp add: t LookUpPrefix_step [OF _ s(2)] LookUpPrefix_step [OF _ s(3)])
  from LookUpPrefix_answers_deepest [OF this] obtain cs where
    "key_chars [0x61, 0x62] = cs @ key_chars (drop 1 [0x61, 0x62])" by blast
  then show ?thesis by (intro exI [of _ 1]) (simp add: l key_chars.simps s)
qed

text \<open>LongestMatch returns the data of the longest part of the key that has data, with the number
  of bytes that part takes, and reports nothing exactly when no part of the key has data.\<close>
theorem LongestMatch_is_longest:
  "case LongestMatch t key of
     (None, n) \<Rightarrow> n = 0 \<and> (\<forall>cs. prefix cs (key_chars key) \<longrightarrow> data_at t cs = None)
   | (Some d, n) \<Rightarrow>
       \<exists>cs. key_chars key = cs @ key_chars (drop n key) \<and> data_at t cs = Some d \<and>
         (\<forall>cs'. prefix cs' (key_chars key) \<and> length cs < length cs' \<longrightarrow> data_at t cs' = None)"
  using LongestMatch_None [of t key] LongestMatch_Some [of t key]
  by (simp split: prod.split option.split) blast

text \<open>LookUpPredictiveAll lists the data of every key that starts with the given one, each key
  exactly once.\<close>
theorem LookUpPredictiveAll_complete:
  assumes "trie_inv t"
  shows "\<exists>ks. distinct ks \<and> set ks = {cs. prefix (key_chars key) cs \<and> data_at t cs \<noteq> None} \<and>
     map Some (LookUpPredictiveAll t key) = map (data_at t) ks"
  using LookUpPredictiveAll_keys [of t key] assms by (simp add: trie_inv_def)

theorem LookUpPredictiveAll_complete_witness:
  "\<exists>ks. distinct ks \<and> map Some (LookUpPredictiveAll (AddEntry empty_trie [0x61] (7 :: nat)) [0x61]) =
     map (data_at (AddEntry empty_trie [0x61] 7)) ks"
  using LookUpPredictiveAll_complete [OF AddEntry_inv [OF trie_inv_empty], of "[0x61]" "[0x61]" "7 :: nat"]
  by blast

end
