(* ===== verification/Unicode.thy ===== *)
theory Unicode
  imports Utf8
begin

text \<open>
  The strict UTF-8 decoder and encoder of \<^verbatim>\<open>src/src/base/strings\<close>
  (\<^verbatim>\<open>internal/utf8_internal.cc\<close>, \<^verbatim>\<open>unicode.h\<close>, \<^verbatim>\<open>unicode.cc\<close>), the iteration over the characters
  of a string, and the letter-case functions of \<^verbatim>\<open>src/src/base/util.cc\<close> built on it. The strict
  decoder is compared with the lenient one of theory \<^verbatim>\<open>Utf8\<close>; \<open>scalar\<close> is the set of code points it
  accepts.
\<close>

section \<open>The decoder and encoder: base/strings/internal/utf8\_internal.cc\<close>

text \<open>\<^verbatim>\<open>ByteBoundary\<close> and \<^verbatim>\<open>GenerateSecondByteBoundary\<close>; an empty interval for a byte that leads nothing.\<close>

definition GenerateSecondByteBoundary :: "byte \<Rightarrow> byte \<times> byte" where
  "GenerateSecondByteBoundary n =
     (if n < 0xc2 \<or> 0xf4 < n then (0xff, 0x00)
      else if n = 0xe0 then (0xa0, 0xbf)
      else if n = 0xed then (0x80, 0x9f)
      else if n = 0xf0 then (0x90, 0xbf)
      else if n = 0xf4 then (0x80, 0x8f)
      else (0x80, 0xbf))"

definition IsValidSecondByte :: "byte \<Rightarrow> byte \<Rightarrow> bool" where
  "IsValidSecondByte leading_byte second_byte =
     (case GenerateSecondByteBoundary leading_byte of
        (mn, mx) \<Rightarrow> mn \<le> second_byte \<and> second_byte \<le> mx)"

record decode_result =
  code_point :: char32
  dr_ok :: bool
  bytes_seen :: nat

definition Continue :: "char32 \<Rightarrow> nat \<Rightarrow> decode_result" where
  "Continue cp n = \<lparr>code_point = cp, dr_ok = True, bytes_seen = n\<rparr>"

definition Error :: "nat \<Rightarrow> decode_result" where
  "Error n = \<lparr>code_point = 0xfffd, dr_ok = False, bytes_seen = n\<rparr>"

definition Sentinel :: decode_result where
  "Sentinel = \<lparr>code_point = 0, dr_ok = False, bytes_seen = 0\<rparr>"

text \<open>The loop of \<^verbatim>\<open>HandleBufferTooShort\<close> over the bytes after the second one.\<close>

fun TooShortSeen :: "nat \<Rightarrow> bytes \<Rightarrow> nat" where
  "TooShortSeen seen [] = seen"
| "TooShortSeen seen (c # cs) = (if \<not> IsUtf8TrailingByte c then seen else TooShortSeen (Suc seen) cs)"

definition HandleBufferTooShort :: "byte \<Rightarrow> bytes \<Rightarrow> decode_result" where
  "HandleBufferTooShort leading_byte cs =
     (case cs of
        [] \<Rightarrow> Error 1
      | c # cs' \<Rightarrow> if \<not> IsValidSecondByte leading_byte c then Error 1 else Error (TooShortSeen 2 cs'))"

definition AppendTrailingByte :: "char32 \<Rightarrow> byte \<Rightarrow> char32" where
  "AppendTrailingByte base b = push_bit 6 base + ucast (b AND 0x3f)"

text \<open>\<^verbatim>\<open>DecodeSequence<Needed>\<close>: the loop over the third and fourth byte, then the whole.\<close>

fun DecodeTrailing :: "nat \<Rightarrow> bytes \<Rightarrow> char32 \<Rightarrow> decode_result" where
  "DecodeTrailing i [] base = Continue base i"
| "DecodeTrailing i (c # cs) base =
     (if \<not> IsUtf8TrailingByte c then Error i
      else DecodeTrailing (Suc i) cs (AppendTrailingByte base c))"

definition DecodeSequence :: "nat \<Rightarrow> bytes \<Rightarrow> byte \<Rightarrow> decode_result" where
  "DecodeSequence needed s msk =
     (case s of
        leading_byte # second_byte # cs \<Rightarrow>
          let base = ucast (leading_byte AND msk)
          in if \<not> (if needed = 2 then IsUtf8TrailingByte second_byte
                  else IsValidSecondByte leading_byte second_byte)
             then Error 1
             else DecodeTrailing 2 (take (needed - 2) cs) (AppendTrailingByte base second_byte)
      | _ \<Rightarrow> Error 1)"

definition Decode :: "bytes \<Rightarrow> decode_result" where
  "Decode s =
     (case s of
        [] \<Rightarrow> Sentinel
      | b # bs \<Rightarrow>
          if b < 0x80 then Continue (ucast b) 1
          else let needed = OneCharLen b
               in if length s < needed then HandleBufferTooShort b bs
                  else if needed = 3 then DecodeSequence 3 s 0x0f
                  else if needed = 2 then DecodeSequence 2 s 0x1f
                  else if needed = 4 then DecodeSequence 4 s 0x07
                  else Error 1)"

text \<open>\<^verbatim>\<open>EncodeResult::EncodeSequence\<close>: the loop counts down, then \<^verbatim>\<open>Encode\<close>.\<close>

fun EncodeTrailing :: "char32 \<Rightarrow> nat \<Rightarrow> bytes" where
  "EncodeTrailing cp 0 = []"
| "EncodeTrailing cp (Suc n) =
     (0x80 OR ((ucast (drop_bit (6 * n) cp) :: byte) AND 0x3f)) # EncodeTrailing cp n"

definition EncodeSequence :: "char32 \<Rightarrow> nat \<Rightarrow> byte \<Rightarrow> bytes" where
  "EncodeSequence cp n offset = ucast (drop_bit (6 * n) cp + ucast offset) # EncodeTrailing cp n"

definition kReplacementCharacter :: char32 where
  "kReplacementCharacter = 0xfffd"

definition EncodeValid :: "char32 \<Rightarrow> bytes option" where
  "EncodeValid cp =
     (if cp \<le> 0x7f then Some [ucast cp]
      else if cp \<le> 0x7ff then Some (EncodeSequence cp 1 0xc0)
      else if cp \<le> 0xffff then Some (EncodeSequence cp 2 0xe0)
      else if cp \<le> 0x10ffff then Some (EncodeSequence cp 3 0xf0)
      else None)"

definition Encode :: "char32 \<Rightarrow> bytes" where
  "Encode cp =
     (case EncodeValid cp of Some s \<Rightarrow> s | None \<Rightarrow> the (EncodeValid kReplacementCharacter))"

section \<open>Iterating over characters: base/strings/unicode.h\<close>

lemma TooShortSeen_ge: "n \<le> TooShortSeen n cs \<and> TooShortSeen n cs \<le> n + length cs"
proof (induction n cs rule: TooShortSeen.induct)
  case (2 n c cs)
  then show ?case by auto
qed simp

lemma bytes_seen_DecodeTrailing:
  "i \<le> bytes_seen (DecodeTrailing i cs b) \<and> bytes_seen (DecodeTrailing i cs b) \<le> i + length cs"
proof (induction i cs b rule: DecodeTrailing.induct)
  case (2 i c cs b)
  then show ?case by (auto simp: Error_def)
qed (simp add: Continue_def)

lemma bytes_seen_DecodeSequence:
  assumes "2 \<le> n" "n \<le> length s"
  shows "0 < bytes_seen (DecodeSequence n s m) \<and> bytes_seen (DecodeSequence n s m) \<le> n"
proof -
  from assms obtain b c cs where s: "s = b # c # cs" by (cases s; cases "tl s") auto
  have "length (take (n - 2) cs) \<le> n - 2" by simp
  then have "0 < bytes_seen (DecodeTrailing 2 (take (n - 2) cs) x) \<and>
      bytes_seen (DecodeTrailing 2 (take (n - 2) cs) x) \<le> n" for x
    using bytes_seen_DecodeTrailing [of 2 "take (n - 2) cs" x] assms(1) by linarith
  then show ?thesis
    using assms(1) by (simp add: s DecodeSequence_def Error_def)
qed

lemma bytes_seen_Decode:
  "s \<noteq> [] \<Longrightarrow> 0 < bytes_seen (Decode s) \<and> bytes_seen (Decode s) \<le> length s"
proof (cases s)
  case (Cons b bs)
  have seq: "0 < bytes_seen (DecodeSequence n s m) \<and> bytes_seen (DecodeSequence n s m) \<le> length s"
    if "2 \<le> n" "n \<le> length s" for n m
    using bytes_seen_DecodeSequence [OF that, of m] that by linarith
  have short: "0 < bytes_seen (HandleBufferTooShort b bs) \<and>
      bytes_seen (HandleBufferTooShort b bs) \<le> length s"
  proof (cases bs)
    case (Cons c cs)
    then show ?thesis
      using TooShortSeen_ge [of 2 cs] \<open>s = b # bs\<close> by (simp add: HandleBufferTooShort_def Error_def)
  qed (simp add: HandleBufferTooShort_def Error_def Cons)
  show ?thesis
  proof (cases "OneCharLen b \<le> length s")
    case True
    then show ?thesis
      using seq [of 2] seq [of 3] seq [of 4]
      by (auto simp: Decode_def Cons Let_def Continue_def Error_def)
  next
    case False
    then show ?thesis using short by (auto simp: Decode_def Cons Let_def Continue_def)
  qed
qed simp

lemma bytes_seen_shorter [termination_simp]:
  "s \<noteq> [] \<Longrightarrow> length s - bytes_seen (Decode s) < length s"
  using bytes_seen_Decode [of s] by simp

text \<open>
  The characters a \<^verbatim>\<open>Utf8CharIterator\<close> visits, as \<^verbatim>\<open>UnicodeChar\<close>s: the bytes of the string, the code
  point (the replacement character where decoding fails) and the \<^verbatim>\<open>ok\<close> flag.
\<close>

record unicode_char =
  uc_utf8 :: bytes
  uc_char32 :: char32
  uc_ok :: bool

function Utf8AsUnicodeChar :: "bytes \<Rightarrow> unicode_char list" where
  "Utf8AsUnicodeChar s =
     (if s = [] then []
      else let dr = Decode s
           in \<lparr>uc_utf8 = take (bytes_seen dr) s, uc_char32 = code_point dr, uc_ok = dr_ok dr\<rparr>
              # Utf8AsUnicodeChar (drop (bytes_seen dr) s))"
  by pat_completeness auto
termination by (relation "measure length") (auto simp: bytes_seen_Decode)

declare Utf8AsUnicodeChar.simps [simp del]

definition Utf8AsChars32 :: "bytes \<Rightarrow> char32 list" where
  "Utf8AsChars32 s = map uc_char32 (Utf8AsUnicodeChar s)"

definition Utf8AsChars :: "bytes \<Rightarrow> bytes list" where
  "Utf8AsChars s = map uc_utf8 (Utf8AsUnicodeChar s)"

text \<open>\<^verbatim>\<open>strings::IsValidUtf8\<close>, \<^verbatim>\<open>strings::Utf8ToUtf32\<close>, \<^verbatim>\<open>StrAppendChar32\<close> and the conversions back.\<close>

function strings_IsValidUtf8 :: "bytes \<Rightarrow> bool" where
  "strings_IsValidUtf8 s =
     (if s = [] then True
      else let dr = Decode s
           in if \<not> dr_ok dr then False else strings_IsValidUtf8 (drop (bytes_seen dr) s))"
  by pat_completeness auto
termination by (relation "measure length") (auto simp: bytes_seen_Decode)

declare strings_IsValidUtf8.simps [simp del]

definition strings_Utf8ToUtf32 :: "bytes \<Rightarrow> char32 list" where
  "strings_Utf8ToUtf32 s = Utf8AsChars32 s"

definition StrAppendChar32 :: "bytes \<Rightarrow> char32 \<Rightarrow> bytes" where
  "StrAppendChar32 dest cp = (if cp = 0 then dest else dest @ Encode cp)"

definition strings_Utf32ToUtf8 :: "char32 list \<Rightarrow> bytes" where
  "strings_Utf32ToUtf8 cs = foldl StrAppendChar32 [] cs"

definition Char32ToUtf8 :: "char32 \<Rightarrow> bytes" where
  "Char32ToUtf8 cp = Encode cp"

text \<open>
  \<^verbatim>\<open>strings::Utf8Substring\<close>: incrementing the iterator at the end adds no bytes.
\<close>

fun AdvanceUtf8 :: "nat \<Rightarrow> bytes \<Rightarrow> bytes" where
  "AdvanceUtf8 0 s = s"
| "AdvanceUtf8 (Suc n) s = AdvanceUtf8 n (drop (bytes_seen (Decode s)) s)"

definition Utf8Substring_from :: "bytes \<Rightarrow> nat \<Rightarrow> bytes" where
  "Utf8Substring_from s pos = AdvanceUtf8 pos s"

definition Utf8Substring :: "bytes \<Rightarrow> nat \<Rightarrow> nat \<Rightarrow> bytes" where
  "Utf8Substring s pos n =
     (let sv = Utf8Substring_from s pos
      in take (length sv - length (AdvanceUtf8 n sv)) sv)"

text \<open>\<^verbatim>\<open>Utf8AsChars::back\<close>: the last character by trying the sizes 3, 2, 4 and 1; None is the
  unreachable end.\<close>

definition utf8_back :: "bytes \<Rightarrow> (bytes \<times> decode_result) option" where
  "utf8_back sv =
     (if last sv \<le> 0x7f then Some ([last sv], Continue (ucast (last sv)) 1)
      else (case filter (\<lambda>n. n \<le> length sv \<and> bytes_seen (Decode (drop (length sv - n) sv)) = n) [3, 2, 4, 1] of
              [] \<Rightarrow> None
            | n # _ \<Rightarrow> let p = drop (length sv - n) sv in Some (p, Decode p)))"

section \<open>The strict decoder against the lenient one of util.cc\<close>

text \<open>Unicode scalar values: what the strict decoder accepts.\<close>

definition scalar :: "char32 \<Rightarrow> bool" where
  "scalar c \<longleftrightarrow> unat c < 0xd800 \<or> 0xe000 \<le> unat c \<and> unat c \<le> 0x10ffff"

lemma DecodeTrailing_eq:
  "list_all IsUtf8TrailingByte cs \<Longrightarrow> DecodeTrailing i cs b = Continue (foldl AppendTrailingByte b cs) (i + length cs)"
  by (induction cs arbitrary: i b) auto

lemma DecodeTrailing_ok: "dr_ok (DecodeTrailing i cs b) \<longleftrightarrow> list_all IsUtf8TrailingByte cs"
  by (induction i cs b rule: DecodeTrailing.induct) (auto simp: Continue_def Error_def)

lemma AddTrailingBytes_foldl:
  "AddTrailingBytes cs b =
     (if list_all IsUtf8TrailingByte cs then Some (foldl AppendTrailingByte b cs) else None)"
  by (induction cs b rule: AddTrailingBytes.induct) (auto simp: AppendTrailingByte_def [symmetric])

lemma unat_AppendTrailingByte:
  assumes "unat base < 2 ^ 20"
  shows "unat (AppendTrailingByte base b) = unat base * 64 + unat b mod 64"
proof -
  have "unat (push_bit 6 base) = unat base * 2 ^ 6"
    by (rule unat_push_bit_small) (use assms in simp)
  moreover have "unat (ucast (b AND 0x3f) :: char32) = unat b mod 64"
    by (simp add: unat_ucast_char32 unat_low)
  moreover have "unat b mod 64 < 64" by simp
  ultimately show ?thesis using assms by (simp add: AppendTrailingByte_def unat_word_ariths)
qed

lemma trailing_mod: "IsUtf8TrailingByte b \<Longrightarrow> unat b mod 64 = unat b - 128"
proof -
  assume "IsUtf8TrailingByte b"
  then have b: "128 \<le> unat b" "unat b - 128 < 64" by (auto simp: IsUtf8TrailingByte_range)
  have "unat b mod 64 = (unat b - 128) mod 64" using mod_128_64 [of "unat b - 128"] b(1) by simp
  also have "\<dots> = unat b - 128" using b(2) by (rule mod_less)
  finally show ?thesis .
qed

lemma GenerateSecondByteBoundary_trailing:
  "IsValidSecondByte l c \<Longrightarrow> IsUtf8TrailingByte c"
  by (auto simp: IsValidSecondByte_def GenerateSecondByteBoundary_def IsUtf8TrailingByte_range
      word_le_nat_alt split: if_splits)

lemma IsValidSecondByte_range:
  assumes "IsUtf8TrailingByte c" "0xe0 \<le> unat l" "unat l \<le> 0xf4"
  shows "IsValidSecondByte l c \<longleftrightarrow>
     (unat l = 0xe0 \<longrightarrow> 0xa0 \<le> unat c) \<and> (unat l = 0xed \<longrightarrow> unat c \<le> 0x9f) \<and>
     (unat l = 0xf0 \<longrightarrow> 0x90 \<le> unat c) \<and> (unat l = 0xf4 \<longrightarrow> unat c \<le> 0x8f)"
  using assms
  by (auto simp: IsValidSecondByte_def GenerateSecondByteBoundary_def IsUtf8TrailingByte_range
      word_le_nat_alt word_less_nat_alt word_unat_eq_iff)

lemma scalar_three:
  fixes x y z :: nat
  assumes "x < 16" "y < 64" "z < 64" "unat r = (x * 64 + y) * 64 + z"
  shows "(x = 0 \<longrightarrow> 32 \<le> y) \<and> (x = 13 \<longrightarrow> y < 32) \<longleftrightarrow> 0x800 \<le> unat r \<and> scalar r"
proof -
  consider "x = 0" | "1 \<le> x" "x \<le> 12" | "x = 13" | "14 \<le> x" by linarith
  then show ?thesis
    by cases (use assms in \<open>auto simp: scalar_def\<close>)
qed

lemma scalar_four:
  fixes x y z w :: nat
  assumes "x < 5" "y < 64" "z < 64" "w < 64" "unat r = ((x * 64 + y) * 64 + z) * 64 + w"
  shows "(x = 0 \<longrightarrow> 16 \<le> y) \<and> (x = 4 \<longrightarrow> y < 16) \<longleftrightarrow> 0x10000 \<le> unat r \<and> scalar r"
proof -
  consider "x = 0" | "1 \<le> x" "x \<le> 3" | "x = 4" using assms(1) by linarith
  then show ?thesis
    by cases (use assms in \<open>auto simp: scalar_def\<close>)
qed

lemma Decode_two:
  assumes b: "0xc2 \<le> unat b" "unat b < 0xe0"
  shows "dr_ok (Decode (b # bs)) \<longleftrightarrow>
    (\<exists>c cs. bs = c # cs \<and> IsUtf8TrailingByte c)"
    "IsUtf8TrailingByte c \<Longrightarrow> \<exists>r. Decode (b # c # cs) = Continue r 2 \<and>
       SplitFirstChar32 (b # c # cs) = (True, r, cs) \<and> scalar r"
proof -
  have o: "OneCharLen b = 2" "\<not> b < 0x80" using b by (simp_all add: OneCharLen_range word_less_nat_alt)
  show "dr_ok (Decode (b # bs)) \<longleftrightarrow> (\<exists>c cs. bs = c # cs \<and> IsUtf8TrailingByte c)"
    using o by (cases bs) (auto simp: Decode_def HandleBufferTooShort_def DecodeSequence_def Error_def Continue_def)
  assume c: "IsUtf8TrailingByte c"
  define r where "r = AppendTrailingByte (ucast (b AND 0x1f)) c"
  have "unat b mod 32 = unat b - 192"
    using b mod_mult_self4 [of 32 6 "unat b - 192"] by simp
  then have r: "unat r = (unat b - 192) * 64 + (unat c - 128)"
    using c b unfolding r_def
    by (subst unat_AppendTrailingByte) (simp_all add: unat_ucast_char32 unat_low trailing_mod)
  have dec: "Decode (b # c # cs) = Continue r 2"
    using o c by (simp add: Decode_def DecodeSequence_def r_def)
  have c': "128 \<le> unat c" "unat c < 192" using c by (simp_all add: IsUtf8TrailingByte_range)
  have "0x80 \<le> unat r" "unat r \<le> 0x7ff" using r b c' by linarith+
  then have "SplitFirstChar32 (b # c # cs) = (True, r, cs)" "scalar r"
    using o b c
    by (simp_all add: SplitFirstChar32_def LeadingByteInfo_range AddTrailingBytes_foldl r_def [symmetric]
        word_less_nat_alt scalar_def)
  with dec show "\<exists>r. Decode (b # c # cs) = Continue r 2 \<and>
       SplitFirstChar32 (b # c # cs) = (True, r, cs) \<and> scalar r" by blast
qed

lemma Decode_three:
  assumes b: "0xe0 \<le> unat b" "unat b < 0xf0"
  shows "dr_ok (Decode (b # bs)) \<longleftrightarrow>
    (\<exists>c d cs. bs = c # d # cs \<and> IsValidSecondByte b c \<and> IsUtf8TrailingByte d)"
    "IsUtf8TrailingByte c \<Longrightarrow> IsUtf8TrailingByte d \<Longrightarrow>
       \<exists>r. (IsValidSecondByte b c \<longrightarrow> Decode (b # c # d # cs) = Continue r 3) \<and>
       SplitFirstChar32 (b # c # d # cs) = (if 0x800 \<le> unat r then (True, r, cs) else (False, 0, [])) \<and>
       (IsValidSecondByte b c \<longleftrightarrow> 0x800 \<le> unat r \<and> scalar r)"
proof -
  have o: "OneCharLen b = 3" "\<not> b < 0x80" using b by (simp_all add: OneCharLen_range word_less_nat_alt)
  show "dr_ok (Decode (b # bs)) \<longleftrightarrow>
    (\<exists>c d cs. bs = c # d # cs \<and> IsValidSecondByte b c \<and> IsUtf8TrailingByte d)"
    using o by (cases bs; cases "tl bs")
      (auto simp: Decode_def HandleBufferTooShort_def DecodeSequence_def Error_def Continue_def
        DecodeTrailing_ok)
  assume c: "IsUtf8TrailingByte c" and d: "IsUtf8TrailingByte d"
  define r1 where "r1 = AppendTrailingByte (ucast (b AND 0x0f)) c"
  define r where "r = AppendTrailingByte r1 d"
  have c': "128 \<le> unat c" "unat c < 192" "128 \<le> unat d" "unat d < 192"
    using c d by (simp_all add: IsUtf8TrailingByte_range)
  have m: "unat b mod 16 = unat b - 224"
    using b mod_mult_self4 [of 16 14 "unat b - 224"] by simp
  then have r1: "unat r1 = (unat b - 224) * 64 + (unat c - 128)"
    using c b unfolding r1_def
    by (subst unat_AppendTrailingByte) (simp_all add: unat_ucast_char32 unat_low trailing_mod)
  have "unat r1 < 2 ^ 20" using r1 b c' by simp
  then have r: "unat r = ((unat b - 224) * 64 + (unat c - 128)) * 64 + (unat d - 128)"
    using d unfolding r_def by (simp add: unat_AppendTrailingByte r1 trailing_mod)
  have le: "unat r \<le> 0xffff" using r b c' by simp
  have dec: "Decode (b # c # d # cs) = Continue r 3" if "IsValidSecondByte b c"
    using o d that by (simp add: Decode_def DecodeSequence_def r_def r1_def numeral_3_eq_3)
  have split: "SplitFirstChar32 (b # c # d # cs) = (if 0x800 \<le> unat r then (True, r, cs) else (False, 0, []))"
    using o b c d le
    by (simp add: SplitFirstChar32_def LeadingByteInfo_range AddTrailingBytes_foldl r_def [symmetric]
        r1_def [symmetric] word_less_nat_alt)
  have b': "unat b \<le> 0xf4" using b by simp
  have valid: "IsValidSecondByte b c \<longleftrightarrow> 0x800 \<le> unat r \<and> scalar r"
  proof -
    have f: "unat b \<noteq> 0xf0" "unat b \<noteq> 0xf4" "(unat b = 0xe0) = (unat b - 224 = 0)"
      "(unat b = 0xed) = (unat b - 224 = 13)" "(0xa0 \<le> unat c) = (32 \<le> unat c - 128)"
      "(unat c \<le> 0x9f) = (unat c - 128 < 32)" "unat b - 224 < 16" "unat c - 128 < 64" "unat d - 128 < 64"
      using b c' by arith+
    show ?thesis
      unfolding IsValidSecondByte_range [OF c b(1) b'] scalar_three [OF f(7-9) r, symmetric]
      using f(1-6) by argo
  qed
  show "\<exists>r. (IsValidSecondByte b c \<longrightarrow> Decode (b # c # d # cs) = Continue r 3) \<and>
       SplitFirstChar32 (b # c # d # cs) = (if 0x800 \<le> unat r then (True, r, cs) else (False, 0, [])) \<and>
       (IsValidSecondByte b c \<longleftrightarrow> 0x800 \<le> unat r \<and> scalar r)"
    using dec split valid by blast
qed

lemma Decode_four:
  assumes b: "0xf0 \<le> unat b" "unat b < 0xf5"
  shows "dr_ok (Decode (b # bs)) \<longleftrightarrow>
    (\<exists>c d e cs. bs = c # d # e # cs \<and> IsValidSecondByte b c \<and> IsUtf8TrailingByte d \<and> IsUtf8TrailingByte e)"
    "IsUtf8TrailingByte c \<Longrightarrow> IsUtf8TrailingByte d \<Longrightarrow> IsUtf8TrailingByte e \<Longrightarrow>
       \<exists>r. (IsValidSecondByte b c \<longrightarrow> Decode (b # c # d # e # cs) = Continue r 4) \<and>
       SplitFirstChar32 (b # c # d # e # cs) =
         (if 0x10000 \<le> unat r then (True, r, cs) else (False, 0, [])) \<and>
       (IsValidSecondByte b c \<longleftrightarrow> 0x10000 \<le> unat r \<and> scalar r)"
proof -
  have o: "OneCharLen b = 4" "\<not> b < 0x80" using b by (simp_all add: OneCharLen_range word_less_nat_alt)
  show "dr_ok (Decode (b # bs)) \<longleftrightarrow>
    (\<exists>c d e cs. bs = c # d # e # cs \<and> IsValidSecondByte b c \<and> IsUtf8TrailingByte d \<and> IsUtf8TrailingByte e)"
    using o by (cases bs; cases "tl bs"; cases "tl (tl bs)")
      (auto simp: Decode_def HandleBufferTooShort_def DecodeSequence_def Error_def Continue_def
        DecodeTrailing_ok)
  assume c: "IsUtf8TrailingByte c" and d: "IsUtf8TrailingByte d" and e: "IsUtf8TrailingByte e"
  define r1 where "r1 = AppendTrailingByte (ucast (b AND 0x07)) c"
  define r2 where "r2 = AppendTrailingByte r1 d"
  define r where "r = AppendTrailingByte r2 e"
  have c': "128 \<le> unat c" "unat c < 192" "128 \<le> unat d" "unat d < 192" "128 \<le> unat e" "unat e < 192"
    using c d e by (simp_all add: IsUtf8TrailingByte_range)
  have m: "unat b mod 8 = unat b - 240"
    using b mod_mult_self4 [of 8 30 "unat b - 240"] by simp
  then have r1: "unat r1 = (unat b - 240) * 64 + (unat c - 128)"
    using c b unfolding r1_def
    by (subst unat_AppendTrailingByte) (simp_all add: unat_ucast_char32 unat_low trailing_mod)
  have "unat r1 < 2 ^ 20" using r1 b c' by simp
  then have r2: "unat r2 = ((unat b - 240) * 64 + (unat c - 128)) * 64 + (unat d - 128)"
    using d unfolding r2_def by (simp add: unat_AppendTrailingByte r1 trailing_mod)
  have "unat r2 < 2 ^ 20" using r2 b c' by simp
  then have r: "unat r = (((unat b - 240) * 64 + (unat c - 128)) * 64 + (unat d - 128)) * 64 + (unat e - 128)"
    using e unfolding r_def by (simp add: unat_AppendTrailingByte r2 trailing_mod)
  have le: "unat r \<le> 0x1fffff" using r b c' by simp
  have dec: "Decode (b # c # d # e # cs) = Continue r 4" if "IsValidSecondByte b c"
    using o d e that by (simp add: Decode_def DecodeSequence_def r_def r2_def r1_def numeral_eq_Suc)
  have cut: "take 3 (c # d # e # cs) = [c, d, e]" "drop 4 (b # c # d # e # cs) = cs"
    by (simp_all add: numeral_eq_Suc)
  have split: "SplitFirstChar32 (b # c # d # e # cs) =
      (if 0x10000 \<le> unat r then (True, r, cs) else (False, 0, []))"
    using o b c d e le
    by (simp add: SplitFirstChar32_def LeadingByteInfo_range AddTrailingBytes_foldl r_def [symmetric]
        r1_def [symmetric] r2_def [symmetric] word_less_nat_alt cut)
  have b': "0xe0 \<le> unat b" "unat b \<le> 0xf4" using b by simp_all
  have valid: "IsValidSecondByte b c \<longleftrightarrow> 0x10000 \<le> unat r \<and> scalar r"
  proof -
    have f: "unat b \<noteq> 0xe0" "unat b \<noteq> 0xed" "(unat b = 0xf0) = (unat b - 240 = 0)"
      "(unat b = 0xf4) = (unat b - 240 = 4)" "(0x90 \<le> unat c) = (16 \<le> unat c - 128)"
      "(unat c \<le> 0x8f) = (unat c - 128 < 16)" "unat b - 240 < 5" "unat c - 128 < 64"
      "unat d - 128 < 64" "unat e - 128 < 64"
      using b c' by arith+
    show ?thesis
      unfolding IsValidSecondByte_range [OF c b'] scalar_four [OF f(7-10) r, symmetric]
      using f(1-6) by argo
  qed
  show "\<exists>r. (IsValidSecondByte b c \<longrightarrow> Decode (b # c # d # e # cs) = Continue r 4) \<and>
       SplitFirstChar32 (b # c # d # e # cs) =
         (if 0x10000 \<le> unat r then (True, r, cs) else (False, 0, [])) \<and>
       (IsValidSecondByte b c \<longleftrightarrow> 0x10000 \<le> unat r \<and> scalar r)"
    using dec split valid by blast
qed

lemma Decode_ascii: "b < 0x80 \<Longrightarrow> Decode (b # bs) = Continue (ucast b) 1"
  by (simp add: Decode_def)

lemma dr_ok_Continue [simp]: "dr_ok (Continue c n)" "code_point (Continue c n) = c" "bytes_seen (Continue c n) = n"
  by (simp_all add: Continue_def)

lemma dr_ok_Error [simp]: "\<not> dr_ok (Error n)" "code_point (Error n) = 0xfffd" "bytes_seen (Error n) = n"
  by (simp_all add: Error_def)

lemma Decode_agrees:
  assumes "dr_ok (Decode s)"
  shows "\<exists>c n. Decode s = Continue c n \<and> SplitFirstChar32 s = (True, c, drop n s) \<and> scalar c"
proof (cases s)
  case Nil
  with assms show ?thesis by (simp add: Decode_def Sentinel_def)
next
  case (Cons b bs)
  consider "unat b < 0x80" | "0x80 \<le> unat b" "unat b < 0xc2" | "0xc2 \<le> unat b" "unat b < 0xe0"
    | "0xe0 \<le> unat b" "unat b < 0xf0" | "0xf0 \<le> unat b" "unat b < 0xf5" | "0xf5 \<le> unat b"
    by linarith
  then show ?thesis
  proof cases
    case 1
    then show ?thesis
      by (intro exI [of _ "ucast b"] exI [of _ 1])
        (simp add: Cons Decode_def SplitFirstChar32_def word_less_nat_alt scalar_def unat_ucast_char32)
  next
    case 2
    with assms Cons show ?thesis by (simp add: Decode_def OneCharLen_range word_less_nat_alt)
  next
    case 3
    with assms Cons obtain c cs where s: "s = b # c # cs" and c: "IsUtf8TrailingByte c"
      using Decode_two(1) by blast
    from Decode_two(2) [OF 3 c, of cs] obtain r where "Decode s = Continue r 2"
      "SplitFirstChar32 s = (True, r, cs)" "scalar r" by (auto simp: s)
    then show ?thesis by (intro exI [of _ r] exI [of _ 2]) (simp add: s)
  next
    case 4
    with assms Cons obtain c d cs where s: "s = b # c # d # cs" and c: "IsValidSecondByte b c"
      and d: "IsUtf8TrailingByte d"
      using Decode_three(1) by blast
    from Decode_three(2) [OF 4 GenerateSecondByteBoundary_trailing [OF c] d, of cs] c obtain r where
      "Decode s = Continue r 3" "SplitFirstChar32 s = (True, r, cs)" "scalar r" by (auto simp: s)
    then show ?thesis by (intro exI [of _ r] exI [of _ 3]) (simp add: s numeral_3_eq_3)
  next
    case 5
    with assms Cons obtain c d e cs where s: "s = b # c # d # e # cs" and c: "IsValidSecondByte b c"
      and d: "IsUtf8TrailingByte d" and e: "IsUtf8TrailingByte e"
      using Decode_four(1) by blast
    from Decode_four(2) [OF 5 GenerateSecondByteBoundary_trailing [OF c] d e, of cs] c obtain r where
      "Decode s = Continue r 4" "SplitFirstChar32 s = (True, r, cs)" "scalar r" by (auto simp: s)
    then show ?thesis by (intro exI [of _ r] exI [of _ 4]) (simp add: s numeral_eq_Suc)
  next
    case 6
    with assms Cons show ?thesis by (simp add: Decode_def OneCharLen_range word_less_nat_alt)
  qed
qed

lemma AddTrailingBytes_two:
  "AddTrailingBytes (take (Suc n) bs) r = Some c \<Longrightarrow> Suc n \<le> length bs \<Longrightarrow>
     \<exists>b bs'. bs = b # bs' \<and> IsUtf8TrailingByte b \<and> AddTrailingBytes (take n bs') (AppendTrailingByte r b) = Some c"
  by (cases bs) (auto simp: AppendTrailingByte_def split: if_splits)

lemma Decode_accepts:
  assumes "SplitFirstChar32 s = (True, c, rest)" "scalar c"
  shows "Decode s = Continue c (length s - length rest)"
proof (cases s)
  case Nil
  with assms show ?thesis by (simp add: SplitFirstChar32_def)
next
  case (Cons b bs)
  show ?thesis
  proof (cases "b < 0x80")
    case True
    with assms Cons show ?thesis by (auto simp: Decode_ascii SplitFirstChar32_def)
  next
    case False
    with assms(1) Cons obtain len mn mx r where
      info: "LeadingByteInfo b = Some (len, mn, mx, r)" and len: "len \<le> length s"
      and add: "AddTrailingBytes (take (len - 1) bs) r = Some c"
      and mn: "mn \<le> c" and mx: "c \<le> mx" and rest: "rest = drop len s"
      by (auto simp: SplitFirstChar32_def not_less split: if_splits option.splits)
    have c: "unat c \<le> 0x10ffff" using assms(2) by (auto simp: scalar_def)
    have hi: "len \<noteq> 5" "len \<noteq> 6"
      using info mn c by (auto simp: LeadingByteInfo_range word_le_nat_alt split: if_splits)
    with LeadingByteInfo_len [OF info] consider "len = 2" | "len = 3" | "len = 4" by linarith
    then show ?thesis
    proof cases
      case 1
      then have b: "0xc0 \<le> unat b" "unat b < 0xe0"
        using info by (auto simp: LeadingByteInfo_range split: if_splits)
      from 1 add len Cons AddTrailingBytes_two [of 0 bs r c] obtain d cs where
        bs: "bs = d # cs" "IsUtf8TrailingByte d" "AppendTrailingByte r d = c" by auto
      have r: "r = ucast (b AND 0x1f)" "mn = 0x80" using info b by (auto simp: LeadingByteInfo_range)
      have "unat b mod 32 = unat b - 192" using b mod_mult_self4 [of 32 6 "unat b - 192"] by simp
      then have "unat c = (unat b - 192) * 64 + (unat d - 128)"
        using bs(2) b unfolding bs(3) [symmetric] r
        by (subst unat_AppendTrailingByte) (simp_all add: unat_ucast_char32 unat_low trailing_mod)
      moreover have "0x80 \<le> unat c" using mn r by (simp add: word_le_nat_alt)
      moreover have "unat d < 192" using bs(2) by (simp add: IsUtf8TrailingByte_range)
      ultimately have "0xc2 \<le> unat b" by simp
      from Decode_two(2) [OF this b(2) bs(2), of cs] assms(1) show ?thesis
        by (auto simp: Cons bs(1))
    next
      case 2
      then have b: "0xe0 \<le> unat b" "unat b < 0xf0"
        using info by (auto simp: LeadingByteInfo_range split: if_splits)
      from 2 add len Cons AddTrailingBytes_two [of 1 bs r c] obtain d bs' where
        d: "bs = d # bs'" "IsUtf8TrailingByte d"
        "AddTrailingBytes (take 1 bs') (AppendTrailingByte r d) = Some c" by (auto simp: numeral_2_eq_2)
      from d 2 len Cons AddTrailingBytes_two [of 0 bs' "AppendTrailingByte r d" c] obtain e cs where
        e: "bs' = e # cs" "IsUtf8TrailingByte e" by (auto simp: numeral_eq_Suc)
      from Decode_three(2) [OF b d(2) e(2), of cs] assms show ?thesis
        by (auto simp: Cons d(1) e(1) split: if_splits)
    next
      case 3
      then have b: "0xf0 \<le> unat b" "unat b < 0xf8"
        using info by (auto simp: LeadingByteInfo_range split: if_splits)
      from 3 add len Cons AddTrailingBytes_two [of 2 bs r c] obtain d bs' where
        d: "bs = d # bs'" "IsUtf8TrailingByte d"
        "AddTrailingBytes (take 2 bs') (AppendTrailingByte r d) = Some c" by (auto simp: numeral_eq_Suc)
      from d 3 len Cons AddTrailingBytes_two [of 1 bs' "AppendTrailingByte r d" c] obtain e bs'' where
        e: "bs' = e # bs''" "IsUtf8TrailingByte e"
        "AddTrailingBytes (take 1 bs'') (AppendTrailingByte (AppendTrailingByte r d) e) = Some c"
        by (auto simp: numeral_eq_Suc)
      from d e 3 len Cons AddTrailingBytes_two [of 0 bs'' "AppendTrailingByte (AppendTrailingByte r d) e" c]
      obtain f cs where f: "bs'' = f # cs" "IsUtf8TrailingByte f"
        "AppendTrailingByte (AppendTrailingByte (AppendTrailingByte r d) e) f = c"
        by (auto simp: numeral_eq_Suc)
      have "unat b < 0xf5"
      proof (rule ccontr)
        assume "\<not> unat b < 0xf5"
        have r: "r = ucast (b AND 0x07)" using info b by (auto simp: LeadingByteInfo_range)
        have m: "unat b mod 8 = unat b - 240" using b mod_mult_self4 [of 8 30 "unat b - 240"] by simp
        have lt: "unat d - 128 < 64" "unat e - 128 < 64"
          using d(2) e(2) by (auto simp: IsUtf8TrailingByte_range)
        have r1: "unat (AppendTrailingByte r d) = (unat b - 240) * 64 + (unat d - 128)"
          using d b m unfolding r
          by (subst unat_AppendTrailingByte) (simp_all add: unat_ucast_char32 unat_low trailing_mod)
        have r2: "unat (AppendTrailingByte (AppendTrailingByte r d) e) =
            ((unat b - 240) * 64 + (unat d - 128)) * 64 + (unat e - 128)"
          using e lt b r1 by (subst unat_AppendTrailingByte) (simp_all add: trailing_mod)
        have "unat c = (((unat b - 240) * 64 + (unat d - 128)) * 64 + (unat e - 128)) * 64 + (unat f - 128)"
          unfolding f(3) [symmetric] using f(2) lt b r2
          by (subst unat_AppendTrailingByte) (simp_all add: trailing_mod)
        with \<open>\<not> unat b < 0xf5\<close> c show False by simp
      qed
      from Decode_four(2) [OF b(1) this d(2) e(2) f(2), of cs] assms show ?thesis
        by (auto simp: Cons d(1) e(1) f(1) split: if_splits)
    qed
  qed
qed

section \<open>The encoder against the one of util.cc\<close>

lemma or_80: "0x80 OR ((ucast (x :: char32) :: byte) AND 0x3f) = ucast (0x80 + (x AND 0x3F))"
proof -
  have "(0x80 :: byte) AND (ucast x AND 0x3f) = 0"
  proof -
    have "(0x80 :: byte) AND (ucast x AND 0x3f) = (0x80 AND 0x3f) AND ucast x"
      by (simp only: and.assoc and.commute [of "ucast x"])
    then show ?thesis by simp
  qed
  then have "0x80 OR ((ucast x :: byte) AND 0x3f) = 0x80 + (ucast x AND 0x3f)"
    using word_plus_and_or [of "0x80 :: byte" "ucast x AND 0x3f"] by simp
  moreover have "unat (0x80 + ((ucast x :: byte) AND 0x3f)) = 0x80 + unat x mod 64"
  proof -
    have "unat (ucast x :: byte) mod 64 = unat x mod 64"
      by (simp add: unat_ucast_byte mod_mod_cancel)
    then show ?thesis by (simp add: unat_word_ariths unat_low)
  qed
  ultimately show ?thesis by (simp add: word_unat_eq_iff unat_payload_byte)
qed

lemma EncodeTrailing_payload: "EncodeTrailing c n = payload n c"
  by (induction n) (simp_all add: or_80)

lemma EncodeSequence_payload: "EncodeSequence c n off = ucast (ucast off + drop_bit (6 * n) c) # payload n c"
  by (simp add: EncodeSequence_def EncodeTrailing_payload add.commute)

lemma Encode_CodepointToUtf8: "unicode c \<Longrightarrow> Encode c = CodepointToUtf8 c"
  by (simp add: Encode_def EncodeValid_def EncodeSequence_payload CodepointToUtf8_payload unicode_def
      word_le_nat_alt word_less_nat_alt)

lemma unicode_scalar: "scalar c \<Longrightarrow> c \<noteq> 0 \<Longrightarrow> unicode c"
  by (auto simp: scalar_def unicode_def word_le_nat_alt)

lemma Decode_Encode:
  assumes "scalar c" "c \<noteq> 0"
  shows "Decode (Encode c @ s) = Continue c (length (Encode c))"
proof -
  have u: "unicode c" using assms by (rule unicode_scalar)
  then have "SplitFirstChar32 (Encode c @ s) = (True, c, s)"
    by (simp add: Encode_CodepointToUtf8 unicode_encodable)
  from Decode_accepts [OF this assms(1)] show ?thesis by simp
qed

lemma Utf8AsUnicodeChar_Nil [simp]: "Utf8AsUnicodeChar [] = []"
  by (simp add: Utf8AsUnicodeChar.simps)

lemma strings_IsValidUtf8_Nil [simp]: "strings_IsValidUtf8 []"
  by (simp add: strings_IsValidUtf8.simps)

text \<open>No byte is lost or repeated, whatever the input.\<close>

lemma concat_Utf8AsChars: "concat (Utf8AsChars s) = s"
proof (induction s rule: Utf8AsUnicodeChar.induct)
  case (1 s)
  show ?case
  proof (cases "s = []")
    case False
    with 1 show ?thesis
      by (simp add: Utf8AsChars_def Let_def Utf8AsUnicodeChar.simps [of s])
  qed (simp add: Utf8AsChars_def)
qed

lemma code_point_scalar: "scalar (code_point (Decode s))"
proof (cases "dr_ok (Decode s)")
  case True
  then show ?thesis using Decode_agrees by fastforce
next
  case False
  have n: "\<not> dr_ok r \<Longrightarrow> r \<in> range Error \<union> {Sentinel} \<Longrightarrow> scalar (code_point r)" for r
    by (auto simp: Sentinel_def scalar_def)
  have t: "DecodeTrailing i cs b \<in> range Error \<or> dr_ok (DecodeTrailing i cs b)" for i cs b
    by (induction i cs b rule: DecodeTrailing.induct) auto
  have "Decode s \<in> range Error \<union> {Sentinel} \<or> dr_ok (Decode s)"
    using t by (auto simp: Decode_def HandleBufferTooShort_def DecodeSequence_def Let_def
        split: list.splits)
  with False n show ?thesis by blast
qed

lemma Utf8AsChars32_scalar: "list_all scalar (Utf8AsChars32 s)"
proof (induction s rule: Utf8AsUnicodeChar.induct)
  case (1 s)
  then show ?case
    by (cases "s = []")
      (simp_all add: Utf8AsChars32_def Let_def Utf8AsUnicodeChar.simps [of s] code_point_scalar)
qed

lemma Decode_step:
  assumes "dr_ok (Decode s)"
  obtains c n where "Decode s = Continue c n" "SplitFirstChar32 s = (True, c, drop n s)" "scalar c" "s \<noteq> []"
proof -
  from assms have "s \<noteq> []" by (auto simp: Decode_def Sentinel_def)
  with Decode_agrees [OF assms] that show ?thesis by blast
qed

lemma strings_IsValidUtf8_iff:
  "strings_IsValidUtf8 s \<longleftrightarrow> IsValidUtf8 s \<and> list_all scalar (Utf8ToUtf32 s)"
proof (induction s rule: strings_IsValidUtf8.induct)
  case (1 s)
  show ?case
  proof (cases "s = [] \<or> \<not> dr_ok (Decode s)")
    case True
    have "\<not> (IsValidUtf8 s \<and> list_all scalar (Utf8ToUtf32 s))" if "s \<noteq> []" "\<not> dr_ok (Decode s)"
    proof
      assume v: "IsValidUtf8 s \<and> list_all scalar (Utf8ToUtf32 s)"
      with that(1) obtain c rest where "SplitFirstChar32 s = (True, c, rest)"
        by (auto simp: IsValidUtf8.simps [of s] split: prod.splits if_splits)
      moreover with v have "scalar c" by (simp add: Utf8ToUtf32.simps [of s])
      ultimately show False using Decode_accepts that(2) by simp
    qed
    with True show ?thesis
      by (auto simp: strings_IsValidUtf8.simps [of s] IsValidUtf8.simps [of s] Utf8ToUtf32.simps [of s])
  next
    case False
    then obtain c n where *: "Decode s = Continue c n" "SplitFirstChar32 s = (True, c, drop n s)" "scalar c"
      by (meson Decode_step)
    with False 1 show ?thesis
      by (simp add: strings_IsValidUtf8.simps [of s] IsValidUtf8.simps [of s] Utf8ToUtf32.simps [of s])
  qed
qed

lemma strings_Utf8ToUtf32_valid: "strings_IsValidUtf8 s \<Longrightarrow> strings_Utf8ToUtf32 s = Utf8ToUtf32 s"
proof (induction s rule: strings_IsValidUtf8.induct)
  case (1 s)
  show ?case
  proof (cases "s = []")
    case True
    then show ?thesis by (simp add: strings_Utf8ToUtf32_def Utf8AsChars32_def Utf8ToUtf32.simps)
  next
    case False
    with 1(2) have "dr_ok (Decode s)"
      by (auto simp: strings_IsValidUtf8.simps [of s] Let_def split: if_splits)
    then obtain c n where *: "Decode s = Continue c n" "SplitFirstChar32 s = (True, c, drop n s)"
      by (meson Decode_step)
    with False 1(2) have "strings_IsValidUtf8 (drop n s)" by (simp add: strings_IsValidUtf8.simps [of s])
    with 1(1) [OF False refl] * False show ?thesis
      by (simp add: strings_Utf8ToUtf32_def Utf8AsChars32_def Utf8AsUnicodeChar.simps [of s]
          Utf8ToUtf32.simps [of s])
  qed
qed

lemma foldl_StrAppendChar32:
  "foldl StrAppendChar32 s cs = s @ concat (map Encode (filter (\<lambda>c. c \<noteq> 0) cs))"
  by (induction cs arbitrary: s) (auto simp: StrAppendChar32_def)

lemma strings_Utf32ToUtf8_eq: "strings_Utf32ToUtf8 cs = concat (map Encode (filter (\<lambda>c. c \<noteq> 0) cs))"
  by (simp add: strings_Utf32ToUtf8_def foldl_StrAppendChar32)

lemma Encode_nonempty [simp]: "Encode c \<noteq> []"
  by (auto simp: Encode_def EncodeValid_def EncodeSequence_def kReplacementCharacter_def word_le_nat_alt
      split: option.split if_splits)

lemma Utf8AsUnicodeChar_Encode:
  assumes "scalar c" "c \<noteq> 0"
  shows "Utf8AsUnicodeChar (Encode c @ s) = \<lparr>uc_utf8 = Encode c, uc_char32 = c, uc_ok = True\<rparr> # Utf8AsUnicodeChar s"
  using Decode_Encode [OF assms, of s] by (subst Utf8AsUnicodeChar.simps) (simp add: Let_def)

lemma strings_roundtrip:
  "list_all scalar cs \<Longrightarrow> strings_Utf8ToUtf32 (strings_Utf32ToUtf8 cs) = filter (\<lambda>c. c \<noteq> 0) cs"
proof (induction cs)
  case Nil
  then show ?case by (simp add: strings_Utf32ToUtf8_eq strings_Utf8ToUtf32_def Utf8AsChars32_def)
next
  case (Cons c cs)
  then show ?case
    by (cases "c = 0")
      (simp_all add: strings_Utf32ToUtf8_eq strings_Utf8ToUtf32_def Utf8AsChars32_def Utf8AsUnicodeChar_Encode)
qed

lemma strings_valid_encoded: "list_all scalar cs \<Longrightarrow> strings_IsValidUtf8 (strings_Utf32ToUtf8 cs)"
proof (induction cs)
  case Nil
  then show ?case by (simp add: strings_Utf32ToUtf8_eq)
next
  case (Cons c cs)
  then show ?case
    by (cases "c = 0") (simp_all add: strings_Utf32ToUtf8_eq strings_IsValidUtf8.simps [of "Encode c @ s" for s] Decode_Encode)
qed

section \<open>Letter case: util.cc\<close>

text \<open>
  \<^verbatim>\<open>LowerString\<close> and \<^verbatim>\<open>UpperString\<close> rewrite the string while they iterate over it; the replaced
  character has the size of the original one, or the loop returns with the rest unchanged. The
  iterator has decoded the character before it is replaced and moves by the original size.
\<close>

definition is_upper32 :: "char32 \<Rightarrow> bool" where
  "is_upper32 c \<longleftrightarrow> 0x0041 \<le> c \<and> c \<le> 0x005A \<or> 0xFF21 \<le> c \<and> c \<le> 0xFF3A"

definition is_lower32 :: "char32 \<Rightarrow> bool" where
  "is_lower32 c \<longleftrightarrow> 0x0061 \<le> c \<and> c \<le> 0x007A \<or> 0xFF41 \<le> c \<and> c \<le> 0xFF5A"

definition kOffsetFromUpperToLower :: char32 where
  "kOffsetFromUpperToLower = 0x0020"

function LowerString :: "bytes \<Rightarrow> bytes" where
  "LowerString s =
     (if s = [] then []
      else let dr = Decode s; codepoint = code_point dr;
               utf8 = take (bytes_seen dr) s; rest = drop (bytes_seen dr) s
           in if is_upper32 codepoint
              then let utf8' = CodepointToUtf8 (codepoint + kOffsetFromUpperToLower)
                   in if length utf8' \<noteq> length utf8 then s
                      else utf8' @ LowerString rest
              else utf8 @ LowerString rest)"
  by pat_completeness auto
termination by (relation "measure length") (auto simp: bytes_seen_Decode)

function UpperString :: "bytes \<Rightarrow> bytes" where
  "UpperString s =
     (if s = [] then []
      else let dr = Decode s; codepoint = code_point dr;
               utf8 = take (bytes_seen dr) s; rest = drop (bytes_seen dr) s
           in if is_lower32 codepoint
              then let utf8' = CodepointToUtf8 (codepoint - kOffsetFromUpperToLower)
                   in if length utf8' \<noteq> length utf8 then s
                      else utf8' @ UpperString rest
              else utf8 @ UpperString rest)"
  by pat_completeness auto
termination by (relation "measure length") (auto simp: bytes_seen_Decode)

declare LowerString.simps [simp del] UpperString.simps [simp del]

text \<open>\<^verbatim>\<open>CapitalizeString\<close>; None where \<^verbatim>\<open>Utf8SubString\<close> would read past the end.\<close>

definition CapitalizeString :: "bytes \<Rightarrow> bytes option" where
  "CapitalizeString s =
     (case (Utf8SubString s 0 1, Utf8SubString s 1 npos) of
        (Some first_str, Some tailing_str) \<Rightarrow> Some (UpperString first_str @ LowerString tailing_str)
      | _ \<Rightarrow> None)"

definition ascii_islower :: "byte \<Rightarrow> bool" where
  "ascii_islower b \<longleftrightarrow> 0x61 \<le> b \<and> b \<le> 0x7a"

definition ascii_isupper :: "byte \<Rightarrow> bool" where
  "ascii_isupper b \<longleftrightarrow> 0x41 \<le> b \<and> b \<le> 0x5a"

definition IsLowerAscii :: "bytes \<Rightarrow> bool" where
  "IsLowerAscii s = list_all ascii_islower s"

definition IsUpperAscii :: "bytes \<Rightarrow> bool" where
  "IsUpperAscii s = list_all ascii_isupper s"

definition IsCapitalizedAscii :: "bytes \<Rightarrow> bool" where
  "IsCapitalizedAscii s =
     (case s of
        [] \<Rightarrow> True
      | b # rest \<Rightarrow> if ascii_isupper b then IsLowerAscii rest else False)"

definition lower32 :: "char32 \<Rightarrow> char32" where
  "lower32 c = (if is_upper32 c then c + kOffsetFromUpperToLower else c)"

lemma length_CodepointToUtf8_range:
  "length (CodepointToUtf8 c) =
     (if c = 0 then 0 else if c < 0x80 then 1 else if c < 0x800 then 2 else if c < 0x10000 then 3
      else if c < 0x200000 then 4 else if c < 0x8000000 then 5 else 6)"
  by (simp add: CodepointToUtf8_def)

lemma unat_lower32: "is_upper32 c \<Longrightarrow> unat (c + kOffsetFromUpperToLower) = unat c + 32"
  by (auto simp: is_upper32_def kOffsetFromUpperToLower_def unat_word_ariths word_le_nat_alt)

lemma lower32_length:
  assumes "is_upper32 c"
  shows "length (CodepointToUtf8 (c + kOffsetFromUpperToLower)) = length (CodepointToUtf8 c)"
  using assms unat_lower32 [OF assms]
  by (auto simp: length_CodepointToUtf8_range is_upper32_def word_le_nat_alt word_less_nat_alt unat_eq_zero [symmetric])

lemma scalar_lower32: "scalar c \<Longrightarrow> scalar (lower32 c)"
  using unat_lower32 [of c]
  by (auto simp: lower32_def scalar_def is_upper32_def word_le_nat_alt)

lemma lower32_nonzero: "c \<noteq> 0 \<Longrightarrow> lower32 c \<noteq> 0"
  using unat_lower32 [of c] by (auto simp: lower32_def unat_eq_zero [symmetric])

lemma lower32_lower32 [simp]: "lower32 (lower32 c) = lower32 c"
proof (cases "is_upper32 c")
  case True
  then have "\<not> is_upper32 (c + kOffsetFromUpperToLower)"
    using unat_lower32 [OF True] by (auto simp: is_upper32_def word_le_nat_alt)
  then show ?thesis by (simp add: lower32_def)
qed (simp add: lower32_def)

text \<open>The size check of \<^verbatim>\<open>LowerString\<close> never fails, so it maps every character.\<close>

lemma upper_decode:
  assumes "is_upper32 (code_point (Decode s))"
  obtains c where "dr_ok (Decode s)" "Decode s = Continue c (length (CodepointToUtf8 c))" "is_upper32 c"
    "s = CodepointToUtf8 c @ drop (length (CodepointToUtf8 c)) s" "scalar c" "c \<noteq> 0"
proof -
  have ok: "dr_ok (Decode s)"
  proof (rule ccontr)
    assume "\<not> dr_ok (Decode s)"
    moreover have "DecodeTrailing i cs b \<in> range Error \<or> dr_ok (DecodeTrailing i cs b)" for i cs b
      by (induction i cs b rule: DecodeTrailing.induct) auto
    ultimately have "Decode s \<in> range Error \<union> {Sentinel}"
      by (auto simp: Decode_def HandleBufferTooShort_def DecodeSequence_def Let_def split: list.splits if_splits)
    with assms show False by (auto simp: is_upper32_def Sentinel_def)
  qed
  then obtain c n where d: "Decode s = Continue c n" "SplitFirstChar32 s = (True, c, drop n s)" "scalar c" "s \<noteq> []"
    by (rule Decode_step)
  with assms have u: "is_upper32 c" by simp
  have nz: "c \<noteq> 0" using u by (auto simp: is_upper32_def)
  have "c < 0x4000000" using u by (auto simp: is_upper32_def word_le_nat_alt word_less_nat_alt)
  from SplitFirstChar32_canonical [OF d(2) nz] this have s: "s = CodepointToUtf8 c @ drop n s" by blast
  have "n \<le> length s" using bytes_seen_Decode [OF d(4)] d(1) by simp
  with s have "n = length (CodepointToUtf8 c)"
    by (metis add_diff_cancel_right' diff_diff_cancel length_append length_drop)
  with s d u nz ok that show ?thesis by blast
qed

lemma LowerString_step:
  assumes "s \<noteq> []"
  shows "LowerString s =
     (if is_upper32 (code_point (Decode s)) then CodepointToUtf8 (lower32 (code_point (Decode s)))
      else take (bytes_seen (Decode s)) s) @ LowerString (drop (bytes_seen (Decode s)) s)"
proof (cases "is_upper32 (code_point (Decode s))")
  case True
  then obtain c where c: "Decode s = Continue c (length (CodepointToUtf8 c))" "is_upper32 c"
    "s = CodepointToUtf8 c @ drop (length (CodepointToUtf8 c)) s" by (rule upper_decode)
  have "length (CodepointToUtf8 c) \<le> length s" using arg_cong [OF c(3), of length] by simp
  with assms c(1,2) show ?thesis
    by (subst LowerString.simps) (simp add: Let_def lower32_length lower32_def min_absorb2)
next
  case False
  with assms show ?thesis by (subst LowerString.simps) (simp add: Let_def)
qed

lemma length_LowerString [simp]: "length (LowerString s) = length s"
proof (induction s rule: LowerString.induct)
  case (1 s)
  show ?case
  proof (cases "s = []")
    case True
    then show ?thesis by (simp add: LowerString.simps)
  next
    case False
    have n: "bytes_seen (Decode s) \<le> length s" using bytes_seen_Decode [OF False] by simp
    show ?thesis
    proof (cases "is_upper32 (code_point (Decode s))")
      case True
      then obtain c where c: "Decode s = Continue c (length (CodepointToUtf8 c))" "is_upper32 c"
        by (rule upper_decode)
      have "length (LowerString (drop (bytes_seen (Decode s)) s)) = length (drop (bytes_seen (Decode s)) s)"
        using 1(1) [OF False refl refl refl refl] True c lower32_length n by (simp add: min_absorb2)
      with c n show ?thesis
        by (simp add: LowerString_step [OF False] lower32_length lower32_def)
    next
      case c: False
      have "length (LowerString (drop (bytes_seen (Decode s)) s)) = length (drop (bytes_seen (Decode s)) s)"
        using 1(2) [OF False refl refl refl refl] c by simp
      with c n show ?thesis by (simp add: LowerString_step [OF False])
    qed
  qed
qed

lemma LowerString_Nil [simp]: "LowerString [] = []"
  by (simp add: LowerString.simps)

lemma LowerString_Encode:
  assumes "scalar c" "c \<noteq> 0"
  shows "LowerString (CodepointToUtf8 c @ s) = CodepointToUtf8 (lower32 c) @ LowerString s"
proof -
  have e: "Encode c = CodepointToUtf8 c" using assms by (simp add: Encode_CodepointToUtf8 unicode_scalar)
  have "CodepointToUtf8 c @ s \<noteq> []" using Encode_nonempty [of c] e by simp
  moreover have "Decode (CodepointToUtf8 c @ s) = Continue c (length (CodepointToUtf8 c))"
    using Decode_Encode [OF assms, of s] e by simp
  ultimately show ?thesis by (simp add: LowerString_step lower32_def)
qed

lemma LowerString_encoded:
  "list_all (\<lambda>c. scalar c \<and> c \<noteq> 0) cs \<Longrightarrow> LowerString (Utf32ToUtf8 cs) = Utf32ToUtf8 (map lower32 cs)"
  by (induction cs) (simp_all add: LowerString_Encode)

text \<open>ASCII strings.\<close>

lemma LowerString_ascii:
  "list_all (\<lambda>b. b < 0x80) s \<Longrightarrow> LowerString s = map (\<lambda>b. if ascii_isupper b then b + 0x20 else b) s"
proof (induction s)
  case (Cons b s)
  have d: "Decode (b # s) = Continue (ucast b) 1" using Cons by (simp add: Decode_ascii)
  have b: "unat b < 128" using Cons.prems by (simp add: word_less_nat_alt)
  have up: "is_upper32 (ucast b) \<longleftrightarrow> ascii_isupper b"
    using b by (auto simp: is_upper32_def ascii_isupper_def word_le_nat_alt unat_ucast_char32)
  have "CodepointToUtf8 (lower32 (ucast b)) = [b + 0x20]" if "ascii_isupper b"
  proof -
    have u: "unat (lower32 (ucast b :: char32)) = unat b + 32"
      using that up unat_lower32 [of "ucast b"] by (simp add: lower32_def unat_ucast_char32)
    have r: "65 \<le> unat b" "unat b \<le> 90" using that by (simp_all add: ascii_isupper_def word_le_nat_alt)
    have "CodepointToUtf8 (lower32 (ucast b)) = [ucast (lower32 (ucast b) :: char32)]"
      using u r by (auto simp: CodepointToUtf8_payload word_less_nat_alt)
    moreover have "(ucast (lower32 (ucast b :: char32)) :: byte) = b + 0x20"
      using u r by (simp add: word_unat_eq_iff unat_ucast_byte unat_word_ariths)
    ultimately show ?thesis by simp
  qed
  with d up Cons show ?case by (simp add: LowerString_step)
qed simp

section \<open>Properties\<close>

text \<open>C25: The strict decoder of base/strings accepts exactly the strings that the lenient one of
  util.cc accepts and whose code points are Unicode scalar values (no surrogate, nothing above
  0x10FFFF), and then both read the same code points.\<close>
theorem strict_decoder_agrees:
  "(strings_IsValidUtf8 s \<longleftrightarrow> IsValidUtf8 s \<and> list_all scalar (Utf8ToUtf32 s)) \<and>
   (strings_IsValidUtf8 s \<longrightarrow> strings_Utf8ToUtf32 s = Utf8ToUtf32 s)"
  using strings_IsValidUtf8_iff strings_Utf8ToUtf32_valid by blast

theorem strict_decoder_agrees_witness:
  "strings_Utf8ToUtf32 [0xe3, 0x81, 0x82] = [0x3042] \<and>
   \<not> strings_IsValidUtf8 [0xed, 0xa0, 0x80] \<and> IsValidUtf8 [0xed, 0xa0, 0x80]"
proof -
  have t: "IsUtf8TrailingByte 0x81" "IsUtf8TrailingByte 0x82" "IsUtf8TrailingByte 0xa0" "IsUtf8TrailingByte 0x80"
    by (simp_all add: IsUtf8TrailingByte_def)
  have a: "SplitFirstChar32 [0xe3, 0x81, 0x82] = (True, 0x3042, [])"
    using t by (simp add: SplitFirstChar32_def LeadingByteInfo_range)
  have b: "SplitFirstChar32 [0xed, 0xa0, 0x80] = (True, 0xd800, [])"
    using t by (simp add: SplitFirstChar32_def LeadingByteInfo_range)
  have "IsValidUtf8 [0xe3, 0x81, 0x82]" "Utf8ToUtf32 [0xe3, 0x81, 0x82] = [0x3042]"
    "IsValidUtf8 [0xed, 0xa0, 0x80]" "Utf8ToUtf32 [0xed, 0xa0, 0x80] = [0xd800]"
    using a b by (simp_all add: IsValidUtf8.simps Utf8ToUtf32.simps [of "_ # _"] Utf8ToUtf32.simps [of "[]"])
  then show ?thesis
    using strict_decoder_agrees [of "[0xe3, 0x81, 0x82]"] strict_decoder_agrees [of "[0xed, 0xa0, 0x80]"]
    by (simp add: scalar_def)
qed

text \<open>The conversions of base/strings are total and lossless: the characters of any byte string
  are its bytes cut into pieces, every code point read is a scalar value, and writing scalar
  values and reading them back gives them again without the NULs, as a valid string.\<close>
theorem strings_conversions_total:
  "concat (Utf8AsChars s) = s \<and> list_all scalar (strings_Utf8ToUtf32 s) \<and>
   (list_all scalar cs \<longrightarrow>
      strings_Utf8ToUtf32 (strings_Utf32ToUtf8 cs) = filter (\<lambda>c. c \<noteq> 0) cs \<and>
      strings_IsValidUtf8 (strings_Utf32ToUtf8 cs))"
  using concat_Utf8AsChars Utf8AsChars32_scalar strings_roundtrip strings_valid_encoded
  by (simp add: strings_Utf8ToUtf32_def)

theorem strings_conversions_total_witness:
  "strings_Utf8ToUtf32 (strings_Utf32ToUtf8 [0x3042, 0, 0x1F600]) = [0x3042, 0x1F600] \<and>
   concat (Utf8AsChars [0xff, 0xe3, 0x81, 0x61]) = [0xff, 0xe3, 0x81, 0x61]"
  using strings_conversions_total [of "[0xff, 0xe3, 0x81, 0x61]" "[0x3042, 0, 0x1F600]"]
  by (simp add: scalar_def)

text \<open>LowerString keeps the byte length of every string, and on the encoding of scalar values it
  maps exactly the ASCII and full-width capitals to their small letters; applying it twice is
  applying it once.\<close>
theorem LowerString_maps_capitals:
  "length (LowerString s) = length s \<and>
   (list_all (\<lambda>c. scalar c \<and> c \<noteq> 0) cs \<longrightarrow>
      LowerString (Utf32ToUtf8 cs) = Utf32ToUtf8 (map lower32 cs) \<and>
      LowerString (LowerString (Utf32ToUtf8 cs)) = LowerString (Utf32ToUtf8 cs))"
proof -
  have "list_all (\<lambda>c. scalar c \<and> c \<noteq> 0) (map lower32 cs)" if "list_all (\<lambda>c. scalar c \<and> c \<noteq> 0) cs"
    using that scalar_lower32 lower32_nonzero by (auto simp: list_all_iff)
  then show ?thesis by (simp add: LowerString_encoded o_def)
qed

theorem LowerString_maps_capitals_witness:
  "LowerString (Utf32ToUtf8 [0x41, 0xFF21, 0x3042]) = Utf32ToUtf8 [0x61, 0xFF41, 0x3042]"
  using LowerString_maps_capitals [of "[]" "[0x41, 0xFF21, 0x3042]"]
  by (simp add: scalar_def lower32_def is_upper32_def kOffsetFromUpperToLower_def)

end
