(* ===== verification/RomajiTable.thy ===== *)
theory RomajiTable
  imports SpecialKey KeyTrie Unicode
begin

text \<open>
  The conversion table of \<^verbatim>\<open>src/src/composer/table.cc\<close>: entries, rules and the check for looping
  rules, the loader of table files, the initialisation from request and configuration, and the
  cache of tables (\<^verbatim>\<open>TableManager\<close>). The trie is the one of theory \<^verbatim>\<open>KeyTrie\<close>, used through
  its interface. The contents of files, the fingerprint and the hash of the settings are
  parameters.
\<close>

section \<open>Entries and the table: composer/table.h\<close>

text \<open>The bits of \<^verbatim>\<open>TableAttribute\<close>.\<close>

type_synonym table_attributes = "32 word"

definition NO_TABLE_ATTRIBUTE :: table_attributes where "NO_TABLE_ATTRIBUTE = 0"
definition NEW_CHUNK :: table_attributes where "NEW_CHUNK = 1"
definition NO_TRANSLITERATION :: table_attributes where "NO_TRANSLITERATION = 2"
definition DIRECT_INPUT :: table_attributes where "DIRECT_INPUT = 4"
definition END_CHUNK :: table_attributes where "END_CHUNK = 8"
definition DISPLAY_AMBIGUOUS_RESULT :: table_attributes where "DISPLAY_AMBIGUOUS_RESULT = 16"

record table_entry =
  entry_input :: bytes
  entry_result :: bytes
  entry_pending :: bytes
  entry_attributes :: table_attributes

text \<open>
  \<^verbatim>\<open>Table\<close>: the trie holds the entries themselves (in the code pointers to the objects that
  \<^verbatim>\<open>entry_set_\<close> owns).
\<close>

record romaji_table =
  table_entries :: "table_entry trie"
  table_special_keys :: special_key_map
  case_sensitive :: bool

definition NewTable :: romaji_table where
  "NewTable =
     (let m1 = snd (Register [] (ascii ''{?}''));
          m2 = snd (Register m1 (ascii ''{*}''));
          m3 = snd (Register m2 (ascii ''{<}''));
          m4 = snd (Register m3 (ascii ''{!}''))
      in \<lparr>table_entries = empty_trie, table_special_keys = m4, case_sensitive = False\<rparr>)"

definition normalize_key :: "romaji_table \<Rightarrow> bytes \<Rightarrow> bytes" where
  "normalize_key t input = (if case_sensitive t then input else LowerString input)"

definition TableLookUp :: "romaji_table \<Rightarrow> bytes \<Rightarrow> table_entry option" where
  "TableLookUp t input = LookUp (table_entries t) (normalize_key t input)"

definition TableLookUpPrefix :: "romaji_table \<Rightarrow> bytes \<Rightarrow> table_entry option \<times> nat \<times> bool" where
  "TableLookUpPrefix t input = LookUpPrefix (table_entries t) (normalize_key t input)"

definition TableLookUpPredictiveAll :: "romaji_table \<Rightarrow> bytes \<Rightarrow> table_entry list" where
  "TableLookUpPredictiveAll t input = LookUpPredictiveAll (table_entries t) (normalize_key t input)"

definition HasSubRules :: "romaji_table \<Rightarrow> bytes \<Rightarrow> bool" where
  "HasSubRules t input = HasSubTrie (table_entries t) (normalize_key t input)"

definition kNewChunkPrefix :: bytes where
  "kNewChunkPrefix = [0x09]"

definition HasNewChunkEntry :: "romaji_table \<Rightarrow> bytes \<Rightarrow> bool" where
  "HasNewChunkEntry t input =
     (if input = [] then False
      else (case TableLookUpPrefix t (kNewChunkPrefix @ input) of
              (entry, key_length, fixed) \<Rightarrow> 1 < key_length))"

definition ParseSpecialKey :: "romaji_table \<Rightarrow> bytes \<Rightarrow> bytes" where
  "ParseSpecialKey t input = Parse (table_special_keys t) input"

section \<open>Adding and deleting rules: composer/table.cc\<close>

text \<open>
  The do-while loop of \<^verbatim>\<open>IsLoopingEntry\<close>; a run that never leaves the loop is None. The consumed
  length never exceeds the key (\<open>TableLookUpPrefix_length\<close>), so \<^verbatim>\<open>substr\<close> does not throw.
\<close>

partial_function (option) IsLoopingLoop :: "romaji_table \<Rightarrow> bytes \<Rightarrow> bytes \<Rightarrow> bool option" where
  "IsLoopingLoop t input key =
     (if starts_with key input then Some True
      else (case TableLookUpPrefix t key of
              (entry, key_length, fixed) \<Rightarrow>
                (case entry of
                   None \<Rightarrow> Some False
                 | Some e \<Rightarrow>
                     let key' = entry_pending e @ drop key_length key
                     in if key' \<noteq> [] then IsLoopingLoop t input key' else Some False)))"

definition IsLoopingEntry :: "romaji_table \<Rightarrow> bytes \<Rightarrow> bytes \<Rightarrow> bool option" where
  "IsLoopingEntry t input pending =
     (if input = [] \<or> pending = [] then Some False else IsLoopingLoop t input pending)"

text \<open>Whether the rule's input has an ASCII capital, special keys excluded.\<close>

definition has_capital :: "bytes \<Rightarrow> bool" where
  "has_capital s \<longleftrightarrow> list_ex (\<lambda>c. 0x41 \<le> c \<and> c \<le> 0x5A) (Utf8ToUtf32 s)"

text \<open>
  \<^verbatim>\<open>AddRuleWithAttributes\<close> below its \<^verbatim>\<open>NEW_CHUNK\<close> branch: the entry (none when the rule is refused)
  and the table; None where the loop check does not return. Overwriting the trie's entry is what
  becomes of the old entry's deletion, since entries are values here.
\<close>

definition AddRuleBase ::
  "romaji_table \<Rightarrow> bytes \<Rightarrow> bytes \<Rightarrow> bytes \<Rightarrow> table_attributes \<Rightarrow> (table_entry option \<times> romaji_table) option" where
  "AddRuleBase t escaped_input output escaped_pending attributes =
     (if 300 \<le> length escaped_input \<or> 1024 \<le> length output \<or> 300 \<le> length escaped_pending
      then Some (None, t)
      else (case Register (table_special_keys t) escaped_input of
         (input, m1) \<Rightarrow> (case Register m1 escaped_pending of
         (pending, m2) \<Rightarrow>
           let t1 = t\<lparr>table_special_keys := m2\<rparr>
           in (case IsLoopingEntry t1 input pending of
                 None \<Rightarrow> None
               | Some True \<Rightarrow> Some (None, t1)
               | Some False \<Rightarrow>
                   let entry = \<lparr>entry_input = input, entry_result = output, entry_pending = pending,
                                entry_attributes = attributes\<rparr>;
                       t2 = t1\<lparr>table_entries := AddEntry (table_entries t1) input entry\<rparr>;
                       t3 = (if \<not> case_sensitive t2 \<and> has_capital (DeleteSpecialKeys input)
                             then t2\<lparr>case_sensitive := True\<rparr> else t2)
                   in Some (Some entry, t3)))))"

definition AddRuleWithAttributes ::
  "romaji_table \<Rightarrow> bytes \<Rightarrow> bytes \<Rightarrow> bytes \<Rightarrow> table_attributes \<Rightarrow> (table_entry option \<times> romaji_table) option" where
  "AddRuleWithAttributes t escaped_input output escaped_pending attributes =
     (if attributes AND NEW_CHUNK \<noteq> 0
      then (case AddRuleBase t (kNewChunkPrefix @ escaped_input) output escaped_pending NO_TABLE_ATTRIBUTE of
              None \<Rightarrow> None
            | Some (_, t1) \<Rightarrow> AddRuleBase t1 escaped_input output escaped_pending attributes)
      else AddRuleBase t escaped_input output escaped_pending attributes)"

definition AddRule ::
  "romaji_table \<Rightarrow> bytes \<Rightarrow> bytes \<Rightarrow> bytes \<Rightarrow> (table_entry option \<times> romaji_table) option" where
  "AddRule t input output pending = AddRuleWithAttributes t input output pending NO_TABLE_ATTRIBUTE"

definition DeleteRule :: "romaji_table \<Rightarrow> bytes \<Rightarrow> romaji_table" where
  "DeleteRule t input = t\<lparr>table_entries := snd (DeleteEntry (table_entries t) input)\<rparr>"

section \<open>Loading a table: composer/table.cc\<close>

text \<open>\<^verbatim>\<open>absl::StrSplit(input, c, AllowEmpty())\<close>, and \<^verbatim>\<open>std::getline\<close> until the end of the stream.\<close>

fun StrSplit :: "byte \<Rightarrow> bytes \<Rightarrow> bytes list" where
  "StrSplit c [] = [[]]"
| "StrSplit c (b # bs) =
     (if b = c then [] # StrSplit c bs
      else (case StrSplit c bs of piece # pieces \<Rightarrow> (b # piece) # pieces | [] \<Rightarrow> [[b]]))"

text \<open>\<^verbatim>\<open>Util::ChopReturns\<close>: what it leaves of the line, and whether anything was cut.\<close>

definition ChopReturns :: "bytes \<Rightarrow> bool \<times> bytes" where
  "ChopReturns line =
     (let kept = rev (dropWhile (\<lambda>b. b = 0x0D \<or> b = 0x0A) (rev line))
      in (length kept \<noteq> length line, kept))"

definition ParseAttributes :: "bytes \<Rightarrow> table_attributes" where
  "ParseAttributes input =
     foldl (\<lambda>attributes s.
        if s = ascii ''NewChunk'' then attributes OR NEW_CHUNK
        else if s = ascii ''NoTransliteration'' then attributes OR NO_TRANSLITERATION
        else if s = ascii ''DirectInput'' then attributes OR DIRECT_INPUT
        else if s = ascii ''EndChunk'' then attributes OR END_CHUNK
        else if s = ascii ''DisplayAmbiguousResult'' then attributes OR DISPLAY_AMBIGUOUS_RESULT
        else attributes)
      NO_TABLE_ATTRIBUTE (StrSplit 0x20 input)"

text \<open>One line of \<^verbatim>\<open>LoadFromStream\<close>, then all of them; a malformed line is only logged.\<close>

definition LoadLine :: "romaji_table \<Rightarrow> bytes \<Rightarrow> romaji_table option" where
  "LoadLine t raw_line =
     (let line = snd (ChopReturns raw_line)
      in if line = [] then Some t
         else (case StrSplit 0x09 line of
                 [a, b, c, d] \<Rightarrow> map_option snd (AddRuleWithAttributes t a b c (ParseAttributes d))
               | [a, b, c] \<Rightarrow> map_option snd (AddRule t a b c)
               | [a, b] \<Rightarrow> map_option snd (AddRule t a b [])
               | _ \<Rightarrow> Some t))"

fun LoadLines :: "romaji_table \<Rightarrow> bytes list \<Rightarrow> romaji_table option" where
  "LoadLines t [] = Some t"
| "LoadLines t (line # lines) =
     (case LoadLine t line of None \<Rightarrow> None | Some t' \<Rightarrow> LoadLines t' lines)"

definition LoadFromStream :: "romaji_table \<Rightarrow> bytes \<Rightarrow> (bool \<times> romaji_table) option" where
  "LoadFromStream t stream = map_option (Pair True) (LoadLines t (StrSplit 0x0A stream))"

definition LoadFromString :: "romaji_table \<Rightarrow> bytes \<Rightarrow> (bool \<times> romaji_table) option" where
  "LoadFromString t str = LoadFromStream t str"

text \<open>\<^verbatim>\<open>ConfigFileStream\<close> is given by the contents of the files it can open.\<close>

definition LoadFromFile :: "(string \<Rightarrow> bytes option) \<Rightarrow> romaji_table \<Rightarrow> string \<Rightarrow> (bool \<times> romaji_table) option" where
  "LoadFromFile files t filepath =
     (case files filepath of None \<Rightarrow> Some (False, t) | Some content \<Rightarrow> LoadFromStream t content)"

section \<open>Initialisation from request and configuration: composer/table.cc\<close>

datatype special_romanji_table =
    DEFAULT_TABLE
  | TWELVE_KEYS_TO_HIRAGANA | TWELVE_KEYS_TO_HIRAGANA_INTUITIVE | TWELVE_KEYS_TO_HALFWIDTHASCII
  | FLICK_TO_HIRAGANA | FLICK_TO_HIRAGANA_INTUITIVE | FLICK_TO_HALFWIDTHASCII
  | FLICK_TO_HALFWIDTHASCII_IOS | FLICK_TO_NUMBER
  | TOGGLE_FLICK_TO_HIRAGANA | TOGGLE_FLICK_TO_HIRAGANA_INTUITIVE | TOGGLE_FLICK_TO_NUMBER
  | TOGGLE_FLICK_TO_HALFWIDTHASCII_IOS | TOGGLE_FLICK_TO_HALFWIDTHASCII
  | QWERTY_MOBILE_TO_HIRAGANA | QWERTY_MOBILE_TO_HALFWIDTHASCII
  | GODAN_TO_HIRAGANA | GODAN_TO_HALFWIDTHASCII
  | NOTOUCH_TO_HIRAGANA | NOTOUCH_TO_HALFWIDTHASCII | FIFTY_KEYS_TO_HIRAGANA

datatype preedit_method = ROMAN | KANA
datatype punctuation_method = TOUTEN_KUTEN | COMMA_PERIOD | TOUTEN_PERIOD | COMMA_KUTEN
datatype symbol_method =
  CORNER_BRACKET_MIDDLE_DOT | SQUARE_BRACKET_SLASH | CORNER_BRACKET_SLASH | SQUARE_BRACKET_MIDDLE_DOT

record table_config =
  preedit_method :: preedit_method
  punctuation_method :: punctuation_method
  symbol_method :: symbol_method
  custom_roman_table :: "bytes option"

text \<open>The table file of a request; none for the values the switch does not list.\<close>

fun table_file_name :: "special_romanji_table \<Rightarrow> string option" where
  "table_file_name TWELVE_KEYS_TO_HIRAGANA = Some ''system://12keys-hiragana.tsv''"
| "table_file_name TWELVE_KEYS_TO_HIRAGANA_INTUITIVE = Some ''system://12keys-hiragana_intuitive.tsv''"
| "table_file_name TWELVE_KEYS_TO_HALFWIDTHASCII = Some ''system://12keys-halfwidthascii.tsv''"
| "table_file_name FLICK_TO_HIRAGANA = Some ''system://flick-hiragana.tsv''"
| "table_file_name FLICK_TO_HIRAGANA_INTUITIVE = Some ''system://flick-hiragana_intuitive.tsv''"
| "table_file_name FLICK_TO_HALFWIDTHASCII_IOS = Some ''system://flick-halfwidthascii_ios.tsv''"
| "table_file_name FLICK_TO_HALFWIDTHASCII = Some ''system://flick-halfwidthascii.tsv''"
| "table_file_name FLICK_TO_NUMBER = Some ''system://flick-number.tsv''"
| "table_file_name TOGGLE_FLICK_TO_HIRAGANA = Some ''system://toggle_flick-hiragana.tsv''"
| "table_file_name TOGGLE_FLICK_TO_HIRAGANA_INTUITIVE =
     Some ''system://toggle_flick-hiragana_intuitive.tsv''"
| "table_file_name TOGGLE_FLICK_TO_HALFWIDTHASCII_IOS =
     Some ''system://toggle_flick-halfwidthascii_ios.tsv''"
| "table_file_name TOGGLE_FLICK_TO_NUMBER = Some ''system://toggle_flick-number.tsv''"
| "table_file_name TOGGLE_FLICK_TO_HALFWIDTHASCII = Some ''system://toggle_flick-halfwidthascii.tsv''"
| "table_file_name QWERTY_MOBILE_TO_HIRAGANA = Some ''system://qwerty_mobile-hiragana.tsv''"
| "table_file_name QWERTY_MOBILE_TO_HALFWIDTHASCII =
     Some ''system://qwerty_mobile-halfwidthascii.tsv''"
| "table_file_name GODAN_TO_HIRAGANA = Some ''system://godan-hiragana.tsv''"
| "table_file_name NOTOUCH_TO_HIRAGANA = Some ''system://notouch-hiragana.tsv''"
| "table_file_name NOTOUCH_TO_HALFWIDTHASCII = Some ''system://qwerty_mobile-halfwidthascii.tsv''"
| "table_file_name FIFTY_KEYS_TO_HIRAGANA = Some ''system://50keys-hiragana.tsv''"
| "table_file_name _ = None"

definition kKuten :: bytes where "kKuten = CodepointToUtf8 0x3001"
definition kTouten :: bytes where "kTouten = CodepointToUtf8 0x3002"
definition kComma :: bytes where "kComma = CodepointToUtf8 0xFF0C"
definition kPeriod :: bytes where "kPeriod = CodepointToUtf8 0xFF0E"
definition kCornerOpen :: bytes where "kCornerOpen = CodepointToUtf8 0x300C"
definition kCornerClose :: bytes where "kCornerClose = CodepointToUtf8 0x300D"
definition kSlash :: bytes where "kSlash = CodepointToUtf8 0xFF0F"
definition kSquareOpen :: bytes where "kSquareOpen = ascii ''[''"
definition kSquareClose :: bytes where "kSquareClose = ascii '']''"
definition kMiddleDot :: bytes where "kMiddleDot = CodepointToUtf8 0x30FB"

text \<open>
  One punctuation or symbol: its rule is replaced when it is missing or has the default output and
  no pending, and its attributes are kept (\<^verbatim>\<open>add_rule_preserving_attributes\<close>).
\<close>

definition InitSymbol ::
  "bytes \<Rightarrow> bytes \<Rightarrow> bool \<Rightarrow> bytes \<Rightarrow> bytes \<Rightarrow> romaji_table \<Rightarrow> romaji_table option" where
  "InitSymbol input default_result cond output_then output_else t =
     (let entry = TableLookUp t input
      in if (case entry of None \<Rightarrow> True
             | Some e \<Rightarrow> entry_result e = default_result \<and> entry_pending e = [])
         then map_option snd (AddRuleWithAttributes t input (if cond then output_then else output_else) []
                (case entry of None \<Rightarrow> NO_TABLE_ATTRIBUTE | Some e \<Rightarrow> entry_attributes e))
         else Some t)"

definition InitSymbols :: "table_config \<Rightarrow> romaji_table \<Rightarrow> romaji_table option" where
  "InitSymbols config t =
     (let pm = punctuation_method config; sm = symbol_method config
      in case InitSymbol (ascii '','') kKuten (pm = COMMA_PERIOD \<or> pm = COMMA_KUTEN) kComma kKuten t of
           None \<Rightarrow> None | Some t1 \<Rightarrow>
         (case InitSymbol (ascii ''.'') kTouten (pm = COMMA_PERIOD \<or> pm = TOUTEN_PERIOD) kPeriod kTouten t1 of
           None \<Rightarrow> None | Some t2 \<Rightarrow>
         (case InitSymbol (ascii ''/'') kMiddleDot
                 (sm = SQUARE_BRACKET_SLASH \<or> sm = CORNER_BRACKET_SLASH) kSlash kMiddleDot t2 of
           None \<Rightarrow> None | Some t3 \<Rightarrow>
         (case InitSymbol (ascii ''['') kCornerOpen
                 (sm = CORNER_BRACKET_MIDDLE_DOT \<or> sm = CORNER_BRACKET_SLASH) kCornerOpen kSquareOpen t3 of
           None \<Rightarrow> None | Some t4 \<Rightarrow>
         InitSymbol (ascii '']'') kCornerClose
                 (sm = CORNER_BRACKET_MIDDLE_DOT \<or> sm = CORNER_BRACKET_SLASH) kCornerClose kSquareClose t4))))"

definition InitializeWithRequestAndConfig ::
  "(string \<Rightarrow> bytes option) \<Rightarrow> special_romanji_table \<Rightarrow> table_config \<Rightarrow> romaji_table \<Rightarrow> (bool \<times> romaji_table) option" where
  "InitializeWithRequestAndConfig files request config t0 =
     (let t = t0\<lparr>case_sensitive := False\<rparr>
      in case (case (if request \<noteq> DEFAULT_TABLE then table_file_name request else None) of
                 None \<Rightarrow> Some (False, t)
               | Some name \<Rightarrow> LoadFromFile files t name) of
           None \<Rightarrow> None
         | Some (True, t1) \<Rightarrow> Some (True, t1)
         | Some (False, t1) \<Rightarrow>
      (case (case preedit_method config of
               ROMAN \<Rightarrow> (case custom_roman_table config of
                           Some custom \<Rightarrow> if custom \<noteq> [] then LoadFromString t1 custom
                                           else LoadFromFile files t1 ''system://romanji-hiragana.tsv''
                         | None \<Rightarrow> LoadFromFile files t1 ''system://romanji-hiragana.tsv'')
             | KANA \<Rightarrow> LoadFromFile files t1 ''system://romanji-hiragana.tsv'') of
           None \<Rightarrow> None
         | Some (result, t2) \<Rightarrow>
      (case (if \<not> result then LoadFromFile files t2 ''system://romanji-hiragana.tsv'' else Some (True, t2)) of
           None \<Rightarrow> None
         | Some (False, t3) \<Rightarrow> Some (False, t3)
         | Some (True, t3) \<Rightarrow>
      (case InitSymbols config t3 of
           None \<Rightarrow> None
         | Some t4 \<Rightarrow> LoadFromFile files t4 ''system://kana.tsv''))))"

section \<open>Caching tables: TableManager of composer/table.cc\<close>

text \<open>
  The hash of the settings (\<^verbatim>\<open>absl::HashOf\<close>, a \<^verbatim>\<open>size_t\<close> of 64 bits) and the fingerprint of the custom table
  (\<^verbatim>\<open>CityFingerprint\<close>) are parameters; the cache is a map from hash values to tables.
\<close>

definition GetCustomRomanTableFingerprint ::
  "(bytes \<Rightarrow> 64 word) \<Rightarrow> special_romanji_table \<Rightarrow> table_config \<Rightarrow> 64 word" where
  "GetCustomRomanTableFingerprint fingerprint request config =
     (if request \<noteq> DEFAULT_TABLE \<or> preedit_method config \<noteq> ROMAN then 0
      else (case custom_roman_table config of
              None \<Rightarrow> 0
            | Some custom \<Rightarrow> if custom = [] then 0 else fingerprint custom))"

definition GetTable ::
  "(string \<Rightarrow> bytes option) \<Rightarrow> (bytes \<Rightarrow> 64 word) \<Rightarrow>
   (special_romanji_table \<times> preedit_method \<times> punctuation_method \<times> symbol_method \<times> 64 word \<Rightarrow> 64 word) \<Rightarrow>
   (64 word \<Rightarrow> romaji_table option) \<Rightarrow> special_romanji_table \<Rightarrow> table_config \<Rightarrow>
   (romaji_table option \<times> (64 word \<Rightarrow> romaji_table option)) option" where
  "GetTable files fingerprint hash_of table_map request config =
     (let h = hash_of (request, preedit_method config, punctuation_method config, symbol_method config,
                       GetCustomRomanTableFingerprint fingerprint request config)
      in case table_map h of
           Some t \<Rightarrow> Some (Some t, table_map)
         | None \<Rightarrow>
             (case InitializeWithRequestAndConfig files request config NewTable of
                None \<Rightarrow> None
              | Some (False, _) \<Rightarrow> Some (None, table_map)
              | Some (True, t) \<Rightarrow> Some (Some t, table_map(h \<mapsto> t))))"

section \<open>Look-ups\<close>

lemma length_normalize_key [simp]: "length (normalize_key t key) = length key"
  by (simp add: normalize_key_def)

lemma TableLookUpPrefix_length:
  "TableLookUpPrefix t key = (e, n, fixed) \<Longrightarrow> n \<le> length key"
  using LookUpPrefix_deepest [of "table_entries t" "normalize_key t key" e n fixed]
  by (auto simp: TableLookUpPrefix_def)

lemma TableLookUp_AddEntry:
  "TableLookUp (t\<lparr>table_entries := AddEntry (table_entries t) input e\<rparr>) k =
     (if key_chars (normalize_key t k) = key_chars input then Some e else TableLookUp t k)"
  by (simp add: TableLookUp_def normalize_key_def trie_store.find_add)

section \<open>The invariant of a table\<close>

text \<open>
  Every entry is filed under its own input, and none of them rewrites to a string that starts with
  its own input.
\<close>

definition entry_ok :: "char32 list \<Rightarrow> table_entry \<Rightarrow> bool" where
  "entry_ok cs e \<longleftrightarrow> key_chars (entry_input e) = cs \<and>
     (entry_input e \<noteq> [] \<and> entry_pending e \<noteq> [] \<longrightarrow> \<not> starts_with (entry_pending e) (entry_input e))"

definition table_inv :: "romaji_table \<Rightarrow> bool" where
  "table_inv t \<longleftrightarrow> trie_inv (table_entries t) \<and>
     (\<forall>cs e. data_at (table_entries t) cs = Some e \<longrightarrow> entry_ok cs e)"

lemma IsLoopingEntry_not_prefix:
  "IsLoopingEntry t input pending = Some False \<Longrightarrow> input \<noteq> [] \<Longrightarrow> pending \<noteq> [] \<Longrightarrow>
     \<not> starts_with pending input"
  by (auto simp: IsLoopingEntry_def IsLoopingLoop.simps [of t input pending] split: if_splits)

lemma table_inv_more [simp]:
  "table_inv (t\<lparr>table_special_keys := m\<rparr>) = table_inv t" "table_inv (t\<lparr>case_sensitive := b\<rparr>) = table_inv t"
  by (simp_all add: table_inv_def)

lemma AddRuleBase_cases:
  assumes "AddRuleBase t i out p a = Some (r, t')"
  obtains (refused) "r = None" "table_entries t' = table_entries t" "case_sensitive t' = case_sensitive t"
  | (added) e m1 m2 b where "r = Some e" "Register (table_special_keys t) i = (entry_input e, m1)"
      "Register m1 p = (entry_pending e, m2)" "entry_result e = out" "entry_attributes e = a"
      "IsLoopingEntry (t\<lparr>table_special_keys := m2\<rparr>) (entry_input e) (entry_pending e) = Some False"
      "t' = t\<lparr>table_entries := AddEntry (table_entries t) (entry_input e) e, table_special_keys := m2,
              case_sensitive := b\<rparr>"
      "b = (case_sensitive t \<or> has_capital (DeleteSpecialKeys (entry_input e)))"
proof (cases "300 \<le> length i \<or> 1024 \<le> length out \<or> 300 \<le> length p")
  case True
  with assms show ?thesis by (intro refused) (auto simp: AddRuleBase_def)
next
  case False
  obtain inp m1 where r1: "Register (table_special_keys t) i = (inp, m1)" by fastforce
  obtain pend m2 where r2: "Register m1 p = (pend, m2)" by fastforce
  let ?t1 = "t\<lparr>table_special_keys := m2\<rparr>"
  let ?e = "\<lparr>entry_input = inp, entry_result = out, entry_pending = pend, entry_attributes = a\<rparr>"
  let ?b = "case_sensitive t \<or> has_capital (DeleteSpecialKeys inp)"
  from assms False r1 r2 consider "IsLoopingEntry ?t1 inp pend = Some True" "r = None" "t' = ?t1"
    | "IsLoopingEntry ?t1 inp pend = Some False" "r = Some ?e"
      "t' = t\<lparr>table_special_keys := m2, table_entries := AddEntry (table_entries t) inp ?e, case_sensitive := ?b\<rparr>"
    by (auto simp: AddRuleBase_def Let_def split: option.splits bool.splits if_splits)
  then show ?thesis
  proof cases
    case 1
    then show ?thesis by (intro refused) auto
  next
    case 2
    with r1 r2 show ?thesis by (intro added [of ?e m1 m2 ?b]) auto
  qed
qed

lemma AddRuleBase_inv:
  assumes "table_inv t" "AddRuleBase t i out p a = Some (r, t')"
  shows "table_inv t'"
  using assms(2)
proof (cases rule: AddRuleBase_cases)
  case refused
  with assms(1) show ?thesis by (simp add: table_inv_def)
next
  case (added e m1 m2 b)
  have "entry_ok (key_chars (entry_input e)) e"
    using IsLoopingEntry_not_prefix [OF added(6)] by (simp add: entry_ok_def)
  with assms(1) show ?thesis
    unfolding added(7) by (simp add: table_inv_def AddEntry_inv data_at_AddEntry)
qed

lemma AddRuleWithAttributes_inv:
  "table_inv t \<Longrightarrow> AddRuleWithAttributes t i out p a = Some (r, t') \<Longrightarrow> table_inv t'"
  by (auto simp: AddRuleWithAttributes_def split: if_splits option.splits dest: AddRuleBase_inv)

lemma LoadLine_inv: "table_inv t \<Longrightarrow> LoadLine t line = Some t' \<Longrightarrow> table_inv t'"
  by (auto simp: LoadLine_def Let_def AddRule_def split: if_splits list.splits
      dest: AddRuleWithAttributes_inv)

lemma LoadLines_inv: "table_inv t \<Longrightarrow> LoadLines t lines = Some t' \<Longrightarrow> table_inv t'"
  by (induction t lines rule: LoadLines.induct) (auto split: option.splits dest: LoadLine_inv)

lemma LoadFromStream_inv: "table_inv t \<Longrightarrow> LoadFromStream t s = Some (b, t') \<Longrightarrow> table_inv t'"
  by (auto simp: LoadFromStream_def dest: LoadLines_inv)

lemma LoadFromFile_inv: "table_inv t \<Longrightarrow> LoadFromFile files t f = Some (b, t') \<Longrightarrow> table_inv t'"
  by (auto simp: LoadFromFile_def split: option.splits dest: LoadFromStream_inv)

lemma InitSymbol_inv: "table_inv t \<Longrightarrow> InitSymbol i d c x y t = Some t' \<Longrightarrow> table_inv t'"
  by (auto simp: InitSymbol_def Let_def split: if_splits dest: AddRuleWithAttributes_inv)

text \<open>Taking apart a sequence of steps that may not return.\<close>

lemma InitSymbol_chain:
  assumes "(case x of None \<Rightarrow> None | Some y \<Rightarrow> f y) = Some z"
  obtains y where "x = Some y" "f y = Some z"
  using assms by (auto split: option.splits)

lemma InitSymbols_inv: "table_inv t \<Longrightarrow> InitSymbols config t = Some t' \<Longrightarrow> table_inv t'"
  unfolding InitSymbols_def Let_def
  by (elim InitSymbol_chain) ((drule (1) InitSymbol_inv)+, assumption)

lemma Initialize_inv:
  assumes "table_inv t0" "InitializeWithRequestAndConfig files request config t0 = Some (b, t')"
  shows "table_inv t'"
proof -
  define t where "t = t0\<lparr>case_sensitive := False\<rparr>"
  have inv: "table_inv t" using assms(1) by (simp add: t_def)
  define first where "first = (case (if request \<noteq> DEFAULT_TABLE then table_file_name request else None) of
      None \<Rightarrow> Some (False, t) | Some name \<Rightarrow> LoadFromFile files t name)"
  define load where "load t1 = (case preedit_method config of
      ROMAN \<Rightarrow> (case custom_roman_table config of
                  Some custom \<Rightarrow> if custom \<noteq> [] then LoadFromString t1 custom
                                  else LoadFromFile files t1 ''system://romanji-hiragana.tsv''
                | None \<Rightarrow> LoadFromFile files t1 ''system://romanji-hiragana.tsv'')
    | KANA \<Rightarrow> LoadFromFile files t1 ''system://romanji-hiragana.tsv'')" for t1
  define again where "again result t2 = (if \<not> result
      then LoadFromFile files t2 ''system://romanji-hiragana.tsv'' else Some (True, t2))" for result t2
  have first_inv: "table_inv t1" if "first = Some (b, t1)" for b t1
    using that inv unfolding first_def by (auto split: option.splits dest: LoadFromFile_inv)
  have load_inv: "table_inv t2" if "load t1 = Some (b, t2)" "table_inv t1" for b t1 t2
    using that unfolding load_def LoadFromString_def
    by (auto split: option.splits preedit_method.splits if_splits
        dest: LoadFromFile_inv LoadFromStream_inv)
  have again_inv: "table_inv t3" if "again r t2 = Some (b, t3)" "table_inv t2" for r b t2 t3
    using that unfolding again_def by (auto split: if_splits dest: LoadFromFile_inv)
  have eq: "InitializeWithRequestAndConfig files request config t0 =
     (case first of None \<Rightarrow> None | Some (True, t1) \<Rightarrow> Some (True, t1)
      | Some (False, t1) \<Rightarrow> (case load t1 of None \<Rightarrow> None | Some (result, t2) \<Rightarrow>
         (case again result t2 of None \<Rightarrow> None | Some (False, t3) \<Rightarrow> Some (False, t3)
          | Some (True, t3) \<Rightarrow> (case InitSymbols config t3 of None \<Rightarrow> None
             | Some t4 \<Rightarrow> LoadFromFile files t4 ''system://kana.tsv''))))"
    unfolding InitializeWithRequestAndConfig_def Let_def t_def [symmetric] first_def load_def again_def
    by (rule refl)
  show ?thesis
    using assms(2) unfolding eq
    by (auto split: option.splits bool.splits)
      (meson first_inv load_inv again_inv InitSymbols_inv LoadFromFile_inv)+
qed

lemma NewTable_inv: "table_inv NewTable"
proof -
  have "data_at (empty_trie :: table_entry trie) cs = None" for cs
    by (cases cs) (simp_all add: data_at_Cons)
  then show ?thesis by (simp add: NewTable_def Let_def table_inv_def)
qed

lemma DeleteRule_inv:
  assumes "table_inv t"
  shows "trie_inv (table_entries (DeleteRule t input))"
  using assms by (cases "DeleteEntry (table_entries t) input")
    (auto simp: DeleteRule_def table_inv_def dest: DeleteEntry_inv)

section \<open>What the loop check decides\<close>

text \<open>
  One rewriting step of the table: the rule found at the front of the key is replaced by its pending
  string; None where the key is empty or no rule is found. \<open>rewritten t n key\<close> is the key after
  \<open>n\<close> steps.
\<close>

definition rewrite_step :: "romaji_table \<Rightarrow> bytes \<Rightarrow> bytes option" where
  "rewrite_step t key =
     (if key = [] then None
      else (case TableLookUpPrefix t key of
              (entry, n, fixed) \<Rightarrow> map_option (\<lambda>e. entry_pending e @ drop n key) entry))"

fun rewritten :: "romaji_table \<Rightarrow> nat \<Rightarrow> bytes \<Rightarrow> bytes option" where
  "rewritten t 0 key = Some key"
| "rewritten t (Suc n) key = (case rewrite_step t key of None \<Rightarrow> None | Some key' \<Rightarrow> rewritten t n key')"

lemma IsLoopingLoop_step:
  assumes "key \<noteq> []" "input \<noteq> []"
  shows "IsLoopingLoop t input key =
     (if starts_with key input then Some True
      else (case rewrite_step t key of
              None \<Rightarrow> Some False
            | Some key' \<Rightarrow> if key' = [] then Some False else IsLoopingLoop t input key'))"
  by (subst IsLoopingLoop.simps)
    (simp add: assms rewrite_step_def Let_def split: prod.split option.split)

text \<open>The loop's body on a non-empty key, as a step of the rewriting.\<close>

lemma IsLooping_body:
  assumes "key \<noteq> []"
  shows "(if starts_with key input then Some True
      else (case TableLookUpPrefix t key of
              (entry, key_length, fixed) \<Rightarrow>
                (case entry of
                   None \<Rightarrow> Some False
                 | Some e \<Rightarrow>
                     let key' = entry_pending e @ drop key_length key
                     in if key' \<noteq> [] then loop t input key' else Some False))) =
     (if starts_with key input then Some True
      else (case rewrite_step t key of
              None \<Rightarrow> Some False
            | Some key' \<Rightarrow> if key' = [] then Some False else loop t input key'))"
  by (simp add: assms rewrite_step_def Let_def split: prod.split option.split)

lemma IsLoopingLoop_Some:
  "IsLoopingLoop t input key = Some b \<Longrightarrow> key \<noteq> [] \<longrightarrow> input \<noteq> [] \<longrightarrow>
     (if b then \<exists>n k. rewritten t n key = Some k \<and> starts_with k input
      else (\<exists>n. rewritten t n key = None) \<and> (\<forall>n k. rewritten t n key = Some k \<longrightarrow> \<not> starts_with k input))"
proof (induction rule: IsLoopingLoop.raw_induct [rotated, consumes 1, case_names step, where P = "\<lambda>t input key b. key \<noteq> [] \<longrightarrow> input \<noteq> [] \<longrightarrow>
     (if b then \<exists>n k. rewritten t n key = Some k \<and> starts_with k input
      else (\<exists>n. rewritten t n key = None) \<and> (\<forall>n k. rewritten t n key = Some k \<longrightarrow> \<not> starts_with k input))"])
  case (step loop t input key b)
  show ?case
  proof (intro impI)
    assume key: "key \<noteq> []" and input: "input \<noteq> []"
    have body: "(if starts_with key input then Some True
        else (case rewrite_step t key of
              None \<Rightarrow> Some False
            | Some key' \<Rightarrow> if key' = [] then Some False else loop t input key')) = Some b"
      using step(2) unfolding IsLooping_body [OF key] .
    have nil: "\<not> starts_with [] input" using input by (simp add: starts_with_def)
    have e: "rewrite_step t [] = None" by (simp add: rewrite_step_def)
    show "if b then \<exists>n k. rewritten t n key = Some k \<and> starts_with k input
      else (\<exists>n. rewritten t n key = None) \<and> (\<forall>n k. rewritten t n key = Some k \<longrightarrow> \<not> starts_with k input)"
    proof (cases "starts_with key input")
      case True
      have "rewritten t 0 key = Some key" by simp
      moreover have b using True body by simp
      ultimately show ?thesis using True by (auto intro!: exI [of _ 0] exI [of _ key])
    next
      case False
      show ?thesis
      proof (cases "rewrite_step t key")
        case None
        have "\<exists>n. rewritten t n key = None" using None by (intro exI [of _ "Suc 0"]) simp
        moreover have "\<forall>n k. rewritten t n key = Some k \<longrightarrow> \<not> starts_with k input"
          using False None by (metis (no_types) option.case(1) option.distinct(1) option.inject rewritten.elims)
        ultimately show ?thesis using body False None by auto
      next
        case (Some key')
        show ?thesis
        proof (cases "key' = []")
          case True
          have "\<exists>n. rewritten t n key = None" using Some True e by (intro exI [of _ "Suc (Suc 0)"]) simp
          moreover have "rewritten t n key = Some k \<Longrightarrow> \<not> starts_with k input" for n k
            using False Some True nil e by (cases n; cases "n - 1") auto
          ultimately show ?thesis using body False Some True by auto
        next
          case ne: False
          have suc: "rewritten t (Suc n) key = rewritten t n key'" for n using Some by simp
          have "loop t input key' = Some b" using body False Some ne by simp
          from step(1) [OF this] ne input have ih: "if b then \<exists>n k. rewritten t n key' = Some k \<and> starts_with k input
            else (\<exists>n. rewritten t n key' = None) \<and> (\<forall>n k. rewritten t n key' = Some k \<longrightarrow> \<not> starts_with k input)"
            by blast
          have "\<not> starts_with k input" if "\<not> b" "rewritten t n key = Some k" for n k
            using that False ih suc by (cases n) auto
          with ih suc show ?thesis by (metis (full_types))
        qed
      qed
    qed
  qed
qed

lemma IsLoopingLoop_True:
  "rewritten t n key = Some k \<Longrightarrow> starts_with k input \<Longrightarrow> key \<noteq> [] \<Longrightarrow> input \<noteq> [] \<Longrightarrow>
     IsLoopingLoop t input key = Some True"
proof (induction n arbitrary: key)
  case 0
  then show ?case by (simp add: IsLoopingLoop_step)
next
  case (Suc n)
  then obtain key' where key': "rewrite_step t key = Some key'" "rewritten t n key' = Some k"
    by (auto split: option.splits)
  have "key' \<noteq> []"
  proof
    assume "key' = []"
    with key'(2) Suc.prems show False
      by (cases n) (auto simp: starts_with_def rewrite_step_def)
  qed
  with Suc key' show ?case by (simp add: IsLoopingLoop_step)
qed

lemma IsLoopingLoop_False:
  "rewritten t n key = None \<Longrightarrow> \<forall>m k. rewritten t m key = Some k \<longrightarrow> \<not> starts_with k input \<Longrightarrow>
     key \<noteq> [] \<Longrightarrow> input \<noteq> [] \<Longrightarrow> IsLoopingLoop t input key = Some False"
proof (induction n arbitrary: key)
  case (Suc n)
  have ns: "\<not> starts_with key input" using Suc.prems(2) by (metis rewritten.simps(1))
  show ?case
  proof (cases "rewrite_step t key")
    case None
    with ns Suc.prems show ?thesis by (simp add: IsLoopingLoop_step)
  next
    case (Some key')
    have "\<forall>m k. rewritten t m key' = Some k \<longrightarrow> \<not> starts_with k input"
    proof (intro allI impI)
      fix m k assume "rewritten t m key' = Some k"
      then have "rewritten t (Suc m) key = Some k" using Some by simp
      then show "\<not> starts_with k input" using Suc.prems(2) by blast
    qed
    with Suc Some ns show ?thesis by (auto simp: IsLoopingLoop_step)
  qed
qed simp

text \<open>A table whose rules shorten what they consume is checked in finite time.\<close>

lemma IsLoopingLoop_terminates:
  assumes "\<And>key e n fixed. TableLookUpPrefix t key = (Some e, n, fixed) \<Longrightarrow> length (entry_pending e) < n"
  shows "\<exists>b. IsLoopingLoop t input key = Some b"
proof (induction "length key" arbitrary: key rule: less_induct)
  case less
  obtain e n fixed where l: "TableLookUpPrefix t key = (e, n, fixed)" by (cases "TableLookUpPrefix t key")
  show ?case
  proof (cases e)
    case None
    with l have "IsLoopingLoop t input key = (if starts_with key input then Some True else Some False)"
      by (subst IsLoopingLoop.simps) simp
    then show ?thesis by (cases "starts_with key input") auto
  next
    case (Some x)
    have "length (entry_pending x @ drop n key) < length key"
      using assms [of key x n fixed] l Some TableLookUpPrefix_length [OF l] by simp
    from less [OF this] obtain b where "IsLoopingLoop t input (entry_pending x @ drop n key) = Some b" ..
    with l Some have "IsLoopingLoop t input key = (if starts_with key input then Some True
        else if entry_pending x @ drop n key \<noteq> [] then Some b else Some False)"
      by (subst IsLoopingLoop.simps) (simp only: prod.case option.case Let_def)
    then show ?thesis by metis
  qed
qed

text \<open>A set of keys the table rewrites into itself, none of which starts with the input.\<close>

lemma IsLoopingLoop_diverges:
  assumes "\<And>key. key \<in> K \<Longrightarrow> key \<noteq> [] \<and> \<not> starts_with key input \<and> (\<exists>k \<in> K. rewrite_step t key = Some k)"
    and "key \<in> K" "input \<noteq> []"
  shows "IsLoopingLoop t input key = None"
proof (rule ccontr)
  assume "IsLoopingLoop t input key \<noteq> None"
  then obtain b where b: "IsLoopingLoop t input key = Some b" by auto
  have k: "\<exists>k \<in> K. rewritten t n key' = Some k" if "key' \<in> K" for n key'
    using that
  proof (induction n arbitrary: key')
    case (Suc n)
    with assms(1) obtain k where "k \<in> K" "rewrite_step t key' = Some k" by blast
    with Suc.IH show ?case by simp
  qed simp
  have ne: "key \<noteq> []" using assms(1,2) by blast
  show False
  proof (cases b)
    case True
    with IsLoopingLoop_Some [OF b] ne assms(3) obtain n x where
      "rewritten t n key = Some x" "starts_with x input" by auto
    with k [OF assms(2), of n] assms(1) show False by auto
  next
    case False
    with IsLoopingLoop_Some [OF b] ne assms(3) obtain n where "rewritten t n key = None" by auto
    with k [OF assms(2), of n] show False by auto
  qed
qed

lemma LookUpPrefix_leaf: "LookUpPrefix (Trie [] (Some e)) key = (Some e, 0, True)"
  by (simp add: LookUpPrefix.simps [of "Trie [] (Some e)"] FindSubTrie_def split: prod.split)

lemma LookUpPrefix_single:
  assumes "LookUpPrefix (Trie [(c, u)] None) key = (Some e, n, fixed)"
  obtains key rest n' where "LookUpPrefix u rest = (Some e, n', fixed)" "length rest < length (key :: bytes)"
    "n = n' + (length key - length rest)"
proof -
  obtain r fc rest where f: "FindSubTrie (Trie [(c, u)] None) key = (r, fc, rest)"
    by (cases "FindSubTrie (Trie [(c, u)] None) key")
  have r: "r = None \<or> r = Some u"
    using f by (auto simp: FindSubTrie_def split: prod.splits if_splits)
  show ?thesis
  proof (cases r)
    case None
    with f assms show ?thesis by (simp add: LookUpPrefix.simps [of _ key])
  next
    case (Some v)
    with r f have f': "FindSubTrie (Trie [(c, u)] None) key = (Some u, fc, rest)" by simp
    from FindSubTrie_Some_shorter [OF f'] have "length rest < length key" .
    with f' assms that [of rest _ key] show ?thesis
      by (auto simp: LookUpPrefix.simps [of _ key] split: prod.splits)
  qed
qed

lemma TableLookUpPrefix_root:
  "table_entries t = Trie [] (Some e) \<Longrightarrow> TableLookUpPrefix t key = (Some e, 0, True)"
  by (simp add: TableLookUpPrefix_def LookUpPrefix.simps FindSubTrie_def split: prod.split)

lemma IsLoopingEntry_root_diverges:
  assumes "table_entries t = Trie [] (Some e)" "entry_pending e = y # ys" "a \<noteq> y" "a \<noteq> b"
  shows "IsLoopingEntry t (a # as) (b # bs) = None"
proof -
  let ?K = "{key. key \<noteq> [] \<and> hd key \<noteq> a}"
  have "IsLoopingLoop t (a # as) (b # bs) = None"
  proof (rule IsLoopingLoop_diverges [where K = ?K])
    fix key assume "key \<in> ?K"
    moreover have "rewrite_step t key = Some (y # ys @ key)" if "key \<noteq> []"
      using that by (simp add: rewrite_step_def TableLookUpPrefix_root [OF assms(1)] assms(2))
    ultimately show "key \<noteq> [] \<and> \<not> starts_with key (a # as) \<and> (\<exists>k \<in> ?K. rewrite_step t key = Some k)"
      using assms(3) by (auto simp: starts_with_def prefix_def)
  qed (use assms(4) in auto)
  then show ?thesis by (simp add: IsLoopingEntry_def)
qed

section \<open>Properties\<close>

text \<open>C27: IsLoopingEntry answers exactly the question whether rewriting the pending string with the
  table's rules ever gives a string that starts with the input: true if it does, false if it does
  not and the rewriting stops; otherwise it does not return.\<close>
theorem IsLoopingEntry_decides_rewriting:
  assumes "input \<noteq> []" "pending \<noteq> []"
  shows "(IsLoopingEntry t input pending = Some True \<longleftrightarrow>
        (\<exists>n k. rewritten t n pending = Some k \<and> starts_with k input)) \<and>
     (IsLoopingEntry t input pending = Some False \<longleftrightarrow>
        (\<exists>n. rewritten t n pending = None) \<and>
        (\<forall>n k. rewritten t n pending = Some k \<longrightarrow> \<not> starts_with k input))"
proof -
  have e: "IsLoopingEntry t input pending = IsLoopingLoop t input pending"
    using assms by (simp add: IsLoopingEntry_def)
  have 1: "\<exists>n k. rewritten t n pending = Some k \<and> starts_with k input"
    if "IsLoopingLoop t input pending = Some True"
    using IsLoopingLoop_Some [OF that] assms by simp
  have 2: "(\<exists>n. rewritten t n pending = None) \<and>
      (\<forall>n k. rewritten t n pending = Some k \<longrightarrow> \<not> starts_with k input)"
    if "IsLoopingLoop t input pending = Some False"
    using IsLoopingLoop_Some [OF that] assms by simp
  show ?thesis
    unfolding e
    using 1 2 IsLoopingLoop_True [OF _ _ assms(2,1)] IsLoopingLoop_False [OF _ _ assms(2,1)]
    by blast
qed

theorem IsLoopingEntry_decides_rewriting_witness:
  "IsLoopingEntry NewTable (ascii ''a'') (ascii ''abc'') = Some True"
proof -
  have "rewritten NewTable 0 (ascii ''abc'') = Some (ascii ''abc'') \<and> starts_with (ascii ''abc'') (ascii ''a'')"
    by (simp add: bytes_simps starts_with_def)
  moreover have "ascii ''a'' \<noteq> []" "ascii ''abc'' \<noteq> []" by (simp_all add: bytes_simps)
  ultimately show ?thesis
    using IsLoopingEntry_decides_rewriting [of "ascii ''a''" "ascii ''abc''" NewTable] by blast
qed

text \<open>Where every rule is longer than its pending string, as in the Romaji tables, the loop check
  returns for every input and pending string.\<close>
theorem IsLoopingEntry_returns:
  assumes "\<And>key e n fixed. TableLookUpPrefix t key = (Some e, n, fixed) \<Longrightarrow> length (entry_pending e) < n"
  shows "\<exists>b. IsLoopingEntry t input pending = Some b"
proof (cases "input = [] \<or> pending = []")
  case False
  then show ?thesis using IsLoopingLoop_terminates [OF assms] by (simp add: IsLoopingEntry_def)
qed (auto simp: IsLoopingEntry_def)

theorem IsLoopingEntry_returns_witness:
  "\<exists>b. IsLoopingEntry (NewTable\<lparr>table_entries := Trie [(0x74, Trie [(0x74, Trie []
     (Some \<lparr>entry_input = [0x74, 0x74], entry_result = [], entry_pending = [0x74], entry_attributes = 0\<rparr>))]
     None)] None\<rparr>) [0x74] [0x74, 0x74, 0x74] = Some b"
proof (rule IsLoopingEntry_returns)
  let ?e = "\<lparr>entry_input = [0x74, 0x74], entry_result = [], entry_pending = [0x74], entry_attributes = 0\<rparr>"
  let ?u = "Trie [(0x74, Trie [] (Some ?e))] None"
  fix key e n fixed
  assume "TableLookUpPrefix (NewTable\<lparr>table_entries := Trie [(0x74, ?u)] None\<rparr>) key = (Some e, n, fixed)"
  then have "LookUpPrefix (Trie [(0x74, ?u)] None) (normalize_key (NewTable\<lparr>table_entries := Trie [(0x74, ?u)] None\<rparr>) key)
      = (Some e, n, fixed)" by (simp add: TableLookUpPrefix_def)
  then obtain key' rest n' where r: "LookUpPrefix ?u rest = (Some e, n', fixed)" "length rest < length (key' :: bytes)"
    "n = n' + (length key' - length rest)" by (rule LookUpPrefix_single)
  from r(1) obtain key'' rest' n'' where "LookUpPrefix (Trie [] (Some ?e)) rest' = (Some e, n'', fixed)"
    "length rest' < length (key'' :: bytes)" "n' = n'' + (length key'' - length rest')" by (rule LookUpPrefix_single)
  then have "e = ?e" "n'' = 0" "1 \<le> n'" by (auto simp: LookUpPrefix_leaf)
  moreover have "2 \<le> n" using r(2,3) \<open>1 \<le> n'\<close> by linarith
  ultimately show "length (entry_pending e) < n" by simp
qed

text \<open>A rule with an empty input and a pending string is accepted, and from then on adding an
  ordinary rule does not return: every key matches the empty rule, consumes nothing and grows.\<close>
theorem empty_input_rule_hangs:
  assumes "length result < 1024" "length result' < 1024"
  shows "\<exists>e t. AddRule NewTable [] result (ascii ''y'') = Some (Some e, t) \<and>
     AddRule t (ascii ''a'') result' (ascii ''b'') = None"
proof -
  let ?e = "\<lparr>entry_input = [], entry_result = result, entry_pending = [0x79], entry_attributes = 0\<rparr>"
  obtain m where new: "NewTable = \<lparr>table_entries = empty_trie, table_special_keys = m, case_sensitive = False\<rparr>"
    by (simp add: NewTable_def Let_def)
  let ?t = "\<lparr>table_entries = Trie [] (Some ?e), table_special_keys = m, case_sensitive = False\<rparr>"
  have n: "ascii ''y'' = [0x79]" "ascii ''a'' = [0x61]" "ascii ''b'' = [0x62]" by (simp_all add: bytes_simps)
  have reg: "Register m [0x79] = ([0x79], m)" "Register m [0x61] = ([0x61], m)"
    "Register m [0x62] = ([0x62], m)" "Register m [] = ([], m)"
    by (simp_all add: Register_def ParseBlock_plain FindBlock_def)
  have cap: "\<not> has_capital (DeleteSpecialKeys [])"
    by (simp add: has_capital_def DeleteSpecialKeys_def DeleteBlocks.simps [of "[]"] Utf8ToUtf32.simps [of "[]"] Let_def)
  have loop: "IsLoopingEntry t' [] p = Some False" for t' p by (simp add: IsLoopingEntry_def)
  have add: "AddEntry empty_trie [] ?e = Trie [] (Some ?e)" by (simp add: AddEntry.simps [of _ "[]"])
  have 1: "AddRule NewTable [] result (ascii ''y'') = Some (Some ?e, ?t)"
    using assms(1) cap
    by (simp add: AddRule_def AddRuleWithAttributes_def AddRuleBase_def NO_TABLE_ATTRIBUTE_def n reg new
        loop add Let_def)
  have "IsLoopingEntry ?t [0x61] [0x62] = None"
    by (rule IsLoopingEntry_root_diverges [where e = ?e and y = "0x79" and ys = "[]"]) simp_all
  then have "AddRule ?t (ascii ''a'') result' (ascii ''b'') = None"
    using assms(2)
    by (simp add: AddRule_def AddRuleWithAttributes_def AddRuleBase_def NO_TABLE_ATTRIBUTE_def n reg Let_def)
  with 1 show ?thesis by blast
qed

theorem empty_input_rule_hangs_witness:
  "\<exists>e t. AddRule NewTable [] (ascii ''x'') (ascii ''y'') = Some (Some e, t) \<and>
     AddRule t (ascii ''a'') [] (ascii ''b'') = None"
  by (rule empty_input_rule_hangs) (simp_all add: bytes_simps)

text \<open>Every table operation keeps the table well formed: the trie's shape, every entry under its
  own input, and no rule whose pending string starts with its own input. In particular whatever
  InitializeWithRequestAndConfig loads, from any files and settings, is well formed.\<close>
theorem tables_stay_well_formed:
  "(table_inv t \<and> AddRuleWithAttributes t i out p a = Some (r, t') \<longrightarrow> table_inv t') \<and>
   (table_inv t \<and> LoadFromString t s = Some (ok, t') \<longrightarrow> table_inv t') \<and>
   (InitializeWithRequestAndConfig files request config NewTable = Some (ok, t') \<longrightarrow> table_inv t')"
  unfolding LoadFromString_def
  by (intro conjI impI; (elim conjE)?;
      (erule (1) AddRuleWithAttributes_inv | erule (1) LoadFromStream_inv | erule Initialize_inv [OF NewTable_inv]))

theorem tables_stay_well_formed_witness:
  "table_inv (snd (the (LoadFromString NewTable (ascii ''# comment''))))"
proof -
  have e: "LoadFromString NewTable (ascii ''# comment'') = Some (True, NewTable)"
    by (simp add: LoadFromString_def LoadFromStream_def bytes_simps LoadLine_def ChopReturns_def)
  then show ?thesis
    using tables_stay_well_formed [of NewTable _ _ _ _ _ NewTable "ascii ''# comment''" True] NewTable_inv
    by simp
qed

text \<open>A rule that AddRule accepts is found by LookUp under its input, and every other key keeps its
  entry: in a case-sensitive table for any input, otherwise for an input without capitals, ASCII or
  full-width. Nothing is found that was not added, and a refused rule changes no entry.\<close>
theorem AddRule_then_LookUp:
  assumes "AddRuleBase t i out p a = Some (r, t')"
  shows "case r of
     None \<Rightarrow> (\<forall>k. TableLookUp t' k = TableLookUp t k)
   | Some e \<Rightarrow> entry_result e = out \<and> entry_attributes e = a \<and>
       entry_input e = fst (Register (table_special_keys t) i) \<and>
       (\<forall>k. TableLookUp t' k = (if key_chars (normalize_key t' k) = key_chars (entry_input e) then Some e
          else LookUp (table_entries t) (normalize_key t' k))) \<and>
       (case_sensitive t' \<or> LowerString (entry_input e) = entry_input e \<longrightarrow>
          TableLookUp t' (entry_input e) = Some e)"
  using assms
proof (cases rule: AddRuleBase_cases)
  case refused
  then show ?thesis by (simp add: TableLookUp_def normalize_key_def)
next
  case (added e m1 m2 b)
  have l: "TableLookUp t' k = (if key_chars (normalize_key t' k) = key_chars (entry_input e) then Some e
          else LookUp (table_entries t) (normalize_key t' k))" for k
    unfolding TableLookUp_def by (simp add: added(7) trie_store.find_add)
  have n: "normalize_key t' (entry_input e) = entry_input e"
    if "case_sensitive t' \<or> LowerString (entry_input e) = entry_input e"
    using that by (auto simp: normalize_key_def)
  show ?thesis using added(1-5) l n by simp
qed

theorem AddRule_then_LookUp_witness:
  "\<exists>t'. AddRuleBase NewTable (ascii ''a'') (ascii ''x'') [] 0 =
       Some (Some \<lparr>entry_input = [0x61], entry_result = ascii ''x'', entry_pending = [], entry_attributes = 0\<rparr>, t') \<and>
     TableLookUp t' [0x61] =
       Some \<lparr>entry_input = [0x61], entry_result = ascii ''x'', entry_pending = [], entry_attributes = 0\<rparr>"
proof -
  let ?e = "\<lparr>entry_input = [0x61], entry_result = ascii ''x'', entry_pending = [], entry_attributes = 0\<rparr>"
  have s: "SplitFirstChar32 [0x61] = (True, 0x61, [])" by (simp add: SplitFirstChar32_def)
  have n: "ascii ''a'' = [0x61]" "length (ascii ''x'') < 1024" by (simp_all add: bytes_simps)
  have reg: "Register m [0x61] = ([0x61], m)" "Register m [] = ([], m)" for m
    by (simp_all add: Register_def ParseBlock_plain FindBlock_def)
  obtain t' where a: "AddRuleBase NewTable (ascii ''a'') (ascii ''x'') [] 0 = Some (Some ?e, t')"
    using n by (simp add: AddRuleBase_def n reg IsLoopingEntry_def Let_def)
  have "LowerString [0x61] = [0x61]" by (simp add: LowerString_ascii ascii_isupper_def)
  with AddRule_then_LookUp [OF a] a show ?thesis by auto
qed

text \<open>A rule for a full-width capital is accepted but LookUp does not find it while the table is
  case insensitive: only ASCII capitals make the table case sensitive, and LookUp lowers full-width
  ones too.\<close>
theorem fullwidth_capital_rule_is_lost:
  assumes "length out < 1024"
  shows "\<exists>e t. AddRule NewTable (CodepointToUtf8 0xFF21) out [] = Some (Some e, t) \<and>
     entry_input e = CodepointToUtf8 0xFF21 \<and> TableLookUp t (CodepointToUtf8 0xFF21) = None"
proof -
  let ?A = "[0xEF, 0xBC, 0xA1] :: bytes"
  have cp: "CodepointToUtf8 0xFF21 = ?A" "CodepointToUtf8 0xFF41 = [0xEF, 0xBD, 0x81]"
    by (simp_all add: CodepointToUtf8_def)
  let ?e = "\<lparr>entry_input = ?A, entry_result = out, entry_pending = [], entry_attributes = 0\<rparr>"
  obtain m where new: "NewTable = \<lparr>table_entries = empty_trie, table_special_keys = m, case_sensitive = False\<rparr>"
    by (simp add: NewTable_def Let_def)
  have reg: "Register m ?A = (?A, m)" "Register m [] = ([], m)"
    by (simp_all add: Register_def ParseBlock_plain FindBlock_def)
  have enc: "encodable 0xFF21" "encodable 0xFF41" by (simp_all add: encodable_def)
  have u32: "Utf8ToUtf32 ?A = [0xFF21]"
    using Utf8ToUtf32_encoded [of "[0xFF21]"] enc by (simp add: cp)
  have cap: "\<not> has_capital (DeleteSpecialKeys ?A)"
    by (simp add: has_capital_def DeleteSpecialKeys_def DeleteBlocks.simps [of ?A] FindBlock_def
        kSpecialKeyOpen_def u32 IsSpecialKey_def kSpecialKeyBegin_def kSpecialKeyEnd_def Let_def)
  let ?t = "\<lparr>table_entries = AddEntry empty_trie ?A ?e, table_special_keys = m, case_sensitive = False\<rparr>"
  have add: "AddRule NewTable ?A out [] = Some (Some ?e, ?t)"
    using assms cap
    by (simp add: AddRule_def AddRuleWithAttributes_def AddRuleBase_def NO_TABLE_ATTRIBUTE_def new reg
        IsLoopingEntry_def Let_def)
  have "LowerString ?A = CodepointToUtf8 0xFF41"
    using LowerString_encoded [of "[0xFF21]"]
    by (simp add: cp scalar_def lower32_def is_upper32_def kOffsetFromUpperToLower_def)
  then have low: "LowerString ?A = [0xEF, 0xBD, 0x81]" by (simp add: cp)
  have "key_chars ?A = [0xFF21]" "key_chars [0xEF, 0xBD, 0x81] = [0xFF41]"
    using key_chars_encoded [of "[0xFF21]"] key_chars_encoded [of "[0xFF41]"] enc by (simp_all add: cp)
  then have "TableLookUp ?t ?A = None"
    by (simp add: TableLookUp_def normalize_key_def low trie_store.find_add trie_store.find_empty)
  with add show ?thesis unfolding cp by auto
qed

theorem fullwidth_capital_rule_is_lost_witness:
  "\<exists>e t. AddRule NewTable (CodepointToUtf8 0xFF21) (ascii ''x'') [] = Some (Some e, t) \<and>
     entry_input e = CodepointToUtf8 0xFF21 \<and> TableLookUp t (CodepointToUtf8 0xFF21) = None"
  by (rule fullwidth_capital_rule_is_lost) (simp add: bytes_simps)

section \<open>The table cache\<close>

text \<open>
  A cache filled by \<^verbatim>\<open>GetTable\<close>: every table in it is what \<^verbatim>\<open>InitializeWithRequestAndConfig\<close> makes for
  some settings with that hash.
\<close>

definition settings_key :: "(bytes \<Rightarrow> 64 word) \<Rightarrow> special_romanji_table \<Rightarrow> table_config \<Rightarrow>
    special_romanji_table \<times> preedit_method \<times> punctuation_method \<times> symbol_method \<times> 64 word" where
  "settings_key fingerprint request config =
     (request, preedit_method config, punctuation_method config, symbol_method config,
      GetCustomRomanTableFingerprint fingerprint request config)"

definition custom_in :: "bytes set \<Rightarrow> table_config \<Rightarrow> bool" where
  "custom_in C config \<longleftrightarrow> (case custom_roman_table config of None \<Rightarrow> True | Some s \<Rightarrow> s = [] \<or> s \<in> C)"

text \<open>\<open>S\<close> is the set of the settings, request and configuration, that \<^verbatim>\<open>GetTable\<close> is called with.\<close>

definition customs :: "(special_romanji_table \<times> table_config) set \<Rightarrow> bytes set" where
  "customs S = {custom. custom \<noteq> [] \<and> (\<exists>(request, config) \<in> S. custom_roman_table config = Some custom)}"

definition settings_keys where
  "settings_keys fingerprint S = (\<lambda>(request, config). settings_key fingerprint request config) ` S"

definition cache_ok where
  "cache_ok S files fingerprint hash_of table_map \<longleftrightarrow>
     (\<forall>h t. table_map h = Some t \<longrightarrow> (\<exists>(request, config) \<in> S.
        h = hash_of (settings_key fingerprint request config) \<and>
        InitializeWithRequestAndConfig files request config NewTable = Some (True, t)))"

lemma custom_in_customs: "(request, config) \<in> S \<Longrightarrow> custom_in (customs S) config"
  by (auto simp: custom_in_def customs_def split: option.splits)

lemma cache_ok_empty: "cache_ok S files fingerprint hash_of (\<lambda>_. None)"
  by (simp add: cache_ok_def)

lemma GetTable_settings_key:
  "GetTable files fingerprint hash_of table_map request config =
     (case table_map (hash_of (settings_key fingerprint request config)) of
        Some t \<Rightarrow> Some (Some t, table_map)
      | None \<Rightarrow>
          (case InitializeWithRequestAndConfig files request config NewTable of
             None \<Rightarrow> None
           | Some (False, _) \<Rightarrow> Some (None, table_map)
           | Some (True, t) \<Rightarrow>
               Some (Some t, table_map(hash_of (settings_key fingerprint request config) \<mapsto> t))))"
  unfolding GetTable_def settings_key_def Let_def by (rule refl)

lemma GetTable_cache_ok:
  assumes "cache_ok S files fingerprint hash_of table_map" "(request, config) \<in> S"
    "GetTable files fingerprint hash_of table_map request config = Some (r, table_map')"
  shows "cache_ok S files fingerprint hash_of table_map'"
proof -
  let ?h = "hash_of (settings_key fingerprint request config)"
  from assms(3) consider "table_map' = table_map"
    | t where "InitializeWithRequestAndConfig files request config NewTable = Some (True, t)"
        "table_map' = table_map(?h \<mapsto> t)"
    by (auto simp: GetTable_settings_key split: option.splits bool.splits)
  then show ?thesis
  proof cases
    case 1
    with assms(1) show ?thesis by simp
  next
    case 2
    show ?thesis
      unfolding cache_ok_def
    proof (intro allI impI)
      fix h u assume "table_map' h = Some u"
      then have "h = ?h \<and> u = t \<or> table_map h = Some u"
        unfolding 2(2) by (cases "h = ?h") simp_all
      then show "\<exists>(request, config) \<in> S. h = hash_of (settings_key fingerprint request config) \<and>
          InitializeWithRequestAndConfig files request config NewTable = Some (True, u)"
        using 2(1) assms(1,2) unfolding cache_ok_def by blast
    qed
  qed
qed

lemma custom_determined:
  assumes fp: "inj_on fingerprint C" "0 \<notin> fingerprint ` C" "custom_in C c1" "custom_in C c2"
    and eq: "settings_key fingerprint DEFAULT_TABLE c1 = settings_key fingerprint DEFAULT_TABLE c2"
  shows "InitializeWithRequestAndConfig files DEFAULT_TABLE c1 t = InitializeWithRequestAndConfig files DEFAULT_TABLE c2 t"
proof -
  have k: "preedit_method c1 = preedit_method c2" "punctuation_method c1 = punctuation_method c2"
    "symbol_method c1 = symbol_method c2"
    "GetCustomRomanTableFingerprint fingerprint DEFAULT_TABLE c1 =
     GetCustomRomanTableFingerprint fingerprint DEFAULT_TABLE c2"
    using eq by (simp_all add: settings_key_def)
  have s: "InitSymbols c1 = InitSymbols c2"
    by (rule ext) (simp add: InitSymbols_def k)
  show ?thesis
  proof (cases "preedit_method c2")
    case KANA
    with k show ?thesis unfolding InitializeWithRequestAndConfig_def s by simp
  next
    case ROMAN
    let ?n = "\<lambda>c. case custom_roman_table c of None \<Rightarrow> [] | Some x \<Rightarrow> x"
    have "?n c1 = ?n c2"
    proof -
      have g: "GetCustomRomanTableFingerprint fingerprint DEFAULT_TABLE c =
          (if ?n c = [] then 0 else fingerprint (?n c))" if "preedit_method c = ROMAN" for c
        using that by (auto simp: GetCustomRomanTableFingerprint_def split: option.splits)
      have in_C: "?n c1 = [] \<or> ?n c1 \<in> C" "?n c2 = [] \<or> ?n c2 \<in> C"
        using fp(3,4) by (auto simp: custom_in_def split: option.splits)
      have "(if ?n c1 = [] then 0 else fingerprint (?n c1)) = (if ?n c2 = [] then 0 else fingerprint (?n c2))"
        using k(4) g ROMAN k(1) by simp
      with in_C fp(2) inj_onD [OF fp(1), of "?n c1" "?n c2"] show ?thesis
        by (metis image_eqI)
    qed
    then have "(case custom_roman_table c1 of Some custom \<Rightarrow> if custom \<noteq> [] then f custom else d | None \<Rightarrow> d) =
        (case custom_roman_table c2 of Some custom \<Rightarrow> if custom \<noteq> [] then f custom else d | None \<Rightarrow> d)"
      for f and d :: "(bool \<times> romaji_table) option"
      by (auto split: option.splits)
    then show ?thesis using k ROMAN unfolding InitializeWithRequestAndConfig_def s by simp
  qed
qed

lemma AddRule_no_pending: "\<exists>x. AddRuleWithAttributes t i out [] a = Some x"
proof -
  have r: "Register m [] = ([], m)" for m by (simp add: Register_def ParseBlock_plain)
  have b: "\<exists>r t'. AddRuleBase t i out [] a = Some (r, t')" for t i a
    by (auto simp: AddRuleBase_def r IsLoopingEntry_def Let_def split: prod.split)
  from b [of t "kNewChunkPrefix @ i" NO_TABLE_ATTRIBUTE] obtain r t' where
    "AddRuleBase t (kNewChunkPrefix @ i) out [] NO_TABLE_ATTRIBUTE = Some (r, t')" by blast
  then show ?thesis using b [of t' i a] b [of t i a] by (auto simp: AddRuleWithAttributes_def)
qed

lemma InitSymbol_returns: "\<exists>t'. InitSymbol i d c x y t = Some t'"
proof -
  obtain z where "AddRuleWithAttributes t i (if c then x else y) []
     (case TableLookUp t i of None \<Rightarrow> NO_TABLE_ATTRIBUTE | Some e \<Rightarrow> entry_attributes e) = Some z"
    using AddRule_no_pending by blast
  then show ?thesis by (simp add: InitSymbol_def Let_def)
qed

lemma InitSymbols_returns: "\<exists>t'. InitSymbols config t = Some t'"
proof -
  have step: "\<exists>t'. (case x of None \<Rightarrow> None | Some y \<Rightarrow> f y) = Some t'"
    if "\<exists>y. x = Some y" "\<And>y. \<exists>t'. f y = Some t'" for x :: "romaji_table option" and f :: "_ \<Rightarrow> romaji_table option"
    using that by auto
  show ?thesis
    unfolding InitSymbols_def Let_def by (intro step InitSymbol_returns)
qed

section \<open>A custom table of one rule\<close>

lemma AddRuleBase_other:
  assumes "AddRuleBase t i out p a = Some (r, t')" "Register (table_special_keys t) i = (i, m)"
    and "\<not> has_capital (DeleteSpecialKeys i)" "key_chars (normalize_key t k) \<noteq> key_chars i"
  shows "TableLookUp t' k = TableLookUp t k \<and> case_sensitive t' = case_sensitive t"
  using assms(1)
proof (cases rule: AddRuleBase_cases)
  case refused
  then show ?thesis by (simp add: TableLookUp_def normalize_key_def)
next
  case (added e m1 m2 b)
  have "entry_input e = i" using added(2) assms(2) by simp
  with added(7,8) assms(3,4) show ?thesis
    by (simp add: TableLookUp_def normalize_key_def trie_store.find_add)
qed

definition letter_a :: bytes where "letter_a = [0x61]"

lemma normalize_a: "normalize_key t letter_a = letter_a" "key_chars letter_a = [0x61]"
  by (simp_all add: normalize_key_def letter_a_def LowerString_ascii ascii_isupper_def key_chars.simps SplitFirstChar32_def)

lemma DeleteBlocks_plain: "0x0F \<notin> set i \<Longrightarrow> DeleteBlocks i = i"
  by (subst DeleteBlocks.simps)
    (simp add: FindBlock_def kSpecialKeyOpen_def find_byte_None [THEN iffD2] del: find_byte_None)

lemma symbol_codes:
  "Utf8ToUtf32 [0x61] = [0x61]" "Utf8ToUtf32 [0x2C] = [0x2C]" "Utf8ToUtf32 [0x2E] = [0x2E]" "Utf8ToUtf32 [0x2F] = [0x2F]"
  "Utf8ToUtf32 [0x5B] = [0x5B]" "Utf8ToUtf32 [0x5D] = [0x5D]" "Utf8ToUtf32 [0x09, 0x2C] = [0x09, 0x2C]"
  "Utf8ToUtf32 [0x09, 0x2E] = [0x09, 0x2E]" "Utf8ToUtf32 [0x09, 0x2F] = [0x09, 0x2F]"
  "Utf8ToUtf32 [0x09, 0x5B] = [0x09, 0x5B]" "Utf8ToUtf32 [0x09, 0x5D] = [0x09, 0x5D]"
  by (simp_all add: Utf8ToUtf32.simps SplitFirstChar32_def)

lemmas plain_key_simps = Register_def ParseBlock_plain FindBlock_def has_capital_def DeleteSpecialKeys_def DeleteBlocks_plain
  Let_def symbol_codes key_chars.simps SplitFirstChar32_def IsSpecialKey_def kSpecialKeyBegin_def

lemma AddRuleWithAttributes_keeps_a:
  assumes "\<And>m j. j \<in> {i, kNewChunkPrefix @ i} \<Longrightarrow>
      Register m j = (j, m) \<and> \<not> has_capital (DeleteSpecialKeys j) \<and> key_chars j \<noteq> [0x61]"
    and "AddRuleWithAttributes t i out p a = Some (r, t')"
  shows "TableLookUp t' letter_a = TableLookUp t letter_a"
proof -
  have other: "TableLookUp t2 letter_a = TableLookUp t1 letter_a"
    if "AddRuleBase t1 j out p a' = Some (r', t2)" "j \<in> {i, kNewChunkPrefix @ i}" for t1 t2 j a' r'
    using AddRuleBase_other [OF that(1), of "table_special_keys t1" letter_a] assms(1) [OF that(2)] normalize_a by metis
  show ?thesis
    using assms(2) other [of _ i] other [of _ "kNewChunkPrefix @ i"]
    by (fastforce simp: AddRuleWithAttributes_def split: if_splits option.splits)
qed

lemma InitSymbol_keeps_a:
  assumes i: "i \<in> {ascii '','', ascii ''.'', ascii ''/'', ascii ''['', ascii '']''}"
    and t: "InitSymbol i d c x y t = Some t'"
  shows "TableLookUp t' letter_a = TableLookUp t letter_a"
proof -
  have r: "Register m j = (j, m) \<and> \<not> has_capital (DeleteSpecialKeys j) \<and> key_chars j \<noteq> [0x61]"
    if "j \<in> {i, kNewChunkPrefix @ i}" for j m
    using i that by (elim insertE) (simp_all add: bytes_simps kNewChunkPrefix_def plain_key_simps)
  show ?thesis
    using t AddRuleWithAttributes_keeps_a [OF r] by (fastforce simp: InitSymbol_def Let_def split: if_splits)
qed

lemma InitSymbols_keeps_a: "InitSymbols config t = Some t' \<Longrightarrow> TableLookUp t' letter_a = TableLookUp t letter_a"
  unfolding InitSymbols_def Let_def by (auto split: option.splits dest!: InitSymbol_keeps_a [rotated])

text \<open>The custom table with the one rule that the letter a gives \<open>x\<close>.\<close>

definition one_rule :: "byte \<Rightarrow> bytes" where
  "one_rule x = letter_a @ [0x09, x]"

lemma one_rule_loads:
  assumes "x \<notin> {0x09, 0x0A, 0x0D}"
  shows "\<exists>t' e. LoadFromString t (one_rule x) = Some (True, t') \<and> TableLookUp t' letter_a = Some e \<and> entry_result e = [x]"
proof -
  let ?m = "table_special_keys t"
  let ?e = "\<lparr>entry_input = letter_a, entry_result = [x], entry_pending = [], entry_attributes = NO_TABLE_ATTRIBUTE\<rparr>"
  have r: "Register m letter_a = (letter_a, m)" "Register m [] = ([], m)" "\<not> has_capital (DeleteSpecialKeys letter_a)" for m
    by (simp_all add: letter_a_def plain_key_simps)
  have "AddRule t letter_a [x] [] = Some (Some ?e, t\<lparr>table_entries := AddEntry (table_entries t) letter_a ?e\<rparr>)"
    using r by (simp add: AddRule_def AddRuleWithAttributes_def AddRuleBase_def IsLoopingEntry_def NO_TABLE_ATTRIBUTE_def letter_a_def Let_def)
  moreover have "TableLookUp (t\<lparr>table_entries := AddEntry (table_entries t) letter_a ?e\<rparr>) letter_a = Some ?e"
    by (simp add: TableLookUp_AddEntry normalize_a)
  moreover have "StrSplit 0x0A (one_rule x) = [one_rule x]" "StrSplit 0x09 (one_rule x) = [letter_a, [x]]"
    "snd (ChopReturns (one_rule x)) = one_rule x" "one_rule x \<noteq> []"
    using assms by (auto simp: one_rule_def letter_a_def ChopReturns_def)
  ultimately show ?thesis
    by (simp add: LoadFromString_def LoadFromStream_def LoadLine_def)
qed

text \<open>The table of kana combinations has no rule for the letter a.\<close>

definition kana_keeps_a :: "(string \<Rightarrow> bytes option) \<Rightarrow> bool" where
  "kana_keeps_a files \<longleftrightarrow> (\<forall>t. \<exists>t'. LoadFromFile files t ''system://kana.tsv'' = Some (True, t') \<and>
     TableLookUp t' letter_a = TableLookUp t letter_a)"

lemma one_rule_table:
  assumes "x \<notin> {0x09, 0x0A, 0x0D}" "kana_keeps_a files" "preedit_method config = ROMAN" "table_file_name request = None"
    and "custom_roman_table config = Some (one_rule x)"
  shows "\<exists>t e. InitializeWithRequestAndConfig files request config NewTable = Some (True, t) \<and>
    TableLookUp t letter_a = Some e \<and> entry_result e = [x]"
proof -
  obtain t1 e where t1: "LoadFromString (NewTable\<lparr>case_sensitive := False\<rparr>) (one_rule x) = Some (True, t1)"
    "TableLookUp t1 letter_a = Some e" "entry_result e = [x]" using one_rule_loads [OF assms(1)] by metis
  obtain t2 where t2: "InitSymbols config t1 = Some t2" using InitSymbols_returns by blast
  obtain t3 where t3: "LoadFromFile files t2 ''system://kana.tsv'' = Some (True, t3)"
    "TableLookUp t3 letter_a = TableLookUp t2 letter_a" using assms(2) unfolding kana_keeps_a_def by blast
  have "one_rule x \<noteq> []" by (simp add: one_rule_def)
  then have "InitializeWithRequestAndConfig files request config NewTable = Some (True, t3)"
    using assms(3-5) t1(1) t2 t3(1) by (simp add: InitializeWithRequestAndConfig_def Let_def)
  with t1(2,3) t3(2) InitSymbols_keeps_a [OF t2] show ?thesis by simp
qed

lemma kana_empty: "kana_keeps_a (\<lambda>f. Some [])"
  by (simp add: kana_keeps_a_def LoadFromFile_def LoadFromStream_def LoadLine_def ChopReturns_def)

section \<open>The cache\<close>

text \<open>C28: For requests without a special table the cache of GetTable is transparent: whatever calls
  filled it, GetTable returns the table that a fresh initialisation with these settings gives, and the cache stays one
  that such calls fill, if neither the 64-bit hash nor the fingerprint collides on the settings the calls are made with.\<close>
theorem GetTable_transparent:
  assumes "cache_ok S files fingerprint hash_of table_map" "(DEFAULT_TABLE, config) \<in> S"
    "inj_on hash_of (settings_keys fingerprint S)" "inj_on fingerprint (customs S)" "0 \<notin> fingerprint ` customs S"
    "GetTable files fingerprint hash_of table_map DEFAULT_TABLE config = Some (r, table_map')"
  shows "\<exists>ok t. InitializeWithRequestAndConfig files DEFAULT_TABLE config NewTable = Some (ok, t) \<and>
     r = (if ok then Some t else None) \<and> cache_ok S files fingerprint hash_of table_map'"
proof -
  let ?h = "hash_of (settings_key fingerprint DEFAULT_TABLE config)"
  have c': "cache_ok S files fingerprint hash_of table_map'" using GetTable_cache_ok [OF assms(1,2,6)] .
  have key: "settings_key fingerprint request c \<in> settings_keys fingerprint S" if "(request, c) \<in> S" for request c
    unfolding settings_keys_def using that by force
  show ?thesis
  proof (cases "table_map ?h")
    case None
    obtain x where x: "InitializeWithRequestAndConfig files DEFAULT_TABLE config NewTable = Some x"
      using assms(6) None unfolding GetTable_settings_key
      by (cases "InitializeWithRequestAndConfig files DEFAULT_TABLE config NewTable") simp_all
    obtain ok t where ok: "x = (ok, t)" by (cases x)
    with assms(6) None x have "r = (if ok then Some t else None)"
      unfolding GetTable_settings_key by (cases ok) simp_all
    with x ok c' show ?thesis by blast
  next
    case (Some t)
    from assms(1) [unfolded cache_ok_def, rule_format, OF Some] obtain request config' where
      h: "(request, config') \<in> S" "?h = hash_of (settings_key fingerprint request config')"
      "InitializeWithRequestAndConfig files request config' NewTable = Some (True, t)"
      by blast
    have "settings_key fingerprint DEFAULT_TABLE config = settings_key fingerprint request config'"
      using inj_onD [OF assms(3) h(2) key [OF assms(2)] key [OF h(1)]] .
    then have k: "request = DEFAULT_TABLE"
      "settings_key fingerprint DEFAULT_TABLE config = settings_key fingerprint DEFAULT_TABLE config'"
      by (simp_all add: settings_key_def)
    have "InitializeWithRequestAndConfig files DEFAULT_TABLE config NewTable = Some (True, t)"
      using custom_determined [OF assms(4,5) custom_in_customs [OF assms(2)] custom_in_customs [OF h(1)] k(2)] h(3) k(1)
      by simp
    moreover have "r = Some t" using assms(6) Some by (simp add: GetTable_settings_key)
    ultimately show ?thesis using c' by auto
  qed
qed

text \<open>A fingerprint and a hash of 64 bits.\<close>

definition example_fingerprint :: "bytes \<Rightarrow> 64 word" where
  "example_fingerprint s = foldr (\<lambda>b h. 31 * h + ucast b) s 7"

definition example_hash ::
  "special_romanji_table \<times> preedit_method \<times> punctuation_method \<times> symbol_method \<times> 64 word \<Rightarrow> 64 word" where
  "example_hash k = (case k of (request, preedit, punctuation, symbol, custom) \<Rightarrow>
     31 * custom + (if request = DEFAULT_TABLE then 1 else 2) + (if preedit = ROMAN then 4 else 8) +
     (if punctuation = TOUTEN_KUTEN then 16 else 32) + (if symbol = CORNER_BRACKET_MIDDLE_DOT then 64 else 128))"

definition example_config :: "byte \<Rightarrow> table_config" where
  "example_config x = \<lparr>preedit_method = ROMAN, punctuation_method = TOUTEN_KUTEN,
     symbol_method = CORNER_BRACKET_MIDDLE_DOT, custom_roman_table = Some (one_rule x)\<rparr>"

lemma example_keys:
  "settings_keys example_fingerprint {(DEFAULT_TABLE, example_config 0x78), (DEFAULT_TABLE, example_config 0x79)} =
     {(DEFAULT_TABLE, ROMAN, TOUTEN_KUTEN, CORNER_BRACKET_MIDDLE_DOT, example_fingerprint (one_rule 0x78)),
      (DEFAULT_TABLE, ROMAN, TOUTEN_KUTEN, CORNER_BRACKET_MIDDLE_DOT, example_fingerprint (one_rule 0x79))}"
  "customs {(DEFAULT_TABLE, example_config 0x78), (DEFAULT_TABLE, example_config 0x79)} = {one_rule 0x78, one_rule 0x79}"
  "example_fingerprint (one_rule 0x78) = 324233" "example_fingerprint (one_rule 0x79) = 325194"
  by (auto simp: settings_keys_def settings_key_def example_config_def GetCustomRomanTableFingerprint_def customs_def
      one_rule_def letter_a_def example_fingerprint_def)

text \<open>Two calls with different custom tables: the second is not given the table of the first.\<close>

lemma GetTable_transparent_witness:
  "\<exists>t m u m' e. GetTable (\<lambda>f. Some []) example_fingerprint example_hash (\<lambda>_. None) DEFAULT_TABLE (example_config 0x78) =
      Some (Some t, m) \<and>
    GetTable (\<lambda>f. Some []) example_fingerprint example_hash m DEFAULT_TABLE (example_config 0x79) = Some (Some u, m') \<and>
    TableLookUp u letter_a = Some e \<and> entry_result e = [0x79]"
proof -
  let ?S = "{(DEFAULT_TABLE, example_config 0x78), (DEFAULT_TABLE, example_config 0x79)}"
  let ?get = "GetTable (\<lambda>f. Some []) example_fingerprint example_hash"
  have c: "preedit_method (example_config x) = ROMAN" "custom_roman_table (example_config x) = Some (one_rule x)" for x
    by (simp_all add: example_config_def)
  obtain t where t: "InitializeWithRequestAndConfig (\<lambda>f. Some []) DEFAULT_TABLE (example_config 0x78) NewTable = Some (True, t)"
    using one_rule_table [OF _ kana_empty c(1) _ c(2), of "0x78" DEFAULT_TABLE] by auto
  obtain u e where u: "InitializeWithRequestAndConfig (\<lambda>f. Some []) DEFAULT_TABLE (example_config 0x79) NewTable = Some (True, u)"
    "TableLookUp u letter_a = Some e" "entry_result e = [0x79]"
    using one_rule_table [OF _ kana_empty c(1) _ c(2), of "0x79" DEFAULT_TABLE] by auto
  obtain m where m: "?get (\<lambda>_. None) DEFAULT_TABLE (example_config 0x78) = Some (Some t, m)"
    by (simp add: GetTable_settings_key t)
  have ok: "cache_ok ?S (\<lambda>f. Some []) example_fingerprint example_hash m"
    using GetTable_cache_ok [OF cache_ok_empty _ m, of ?S] by simp
  obtain r m' where r: "?get m DEFAULT_TABLE (example_config 0x79) = Some (r, m')"
    by (cases "m (example_hash (settings_key example_fingerprint DEFAULT_TABLE (example_config 0x79)))")
      (simp_all add: GetTable_settings_key u)
  have "inj_on example_hash (settings_keys example_fingerprint ?S)" "inj_on example_fingerprint (customs ?S)"
    "0 \<notin> example_fingerprint ` customs ?S"
    unfolding example_keys(1,2) by (simp_all add: example_keys(3,4) example_hash_def) (simp add: one_rule_def)
  from GetTable_transparent [OF ok _ this r] u(1) have "r = Some u" by auto
  with m r u(2,3) show ?thesis by auto
qed

text \<open>C29: A special table without a file of its own (GODAN_TO_HALFWIDTHASCII) is initialised from the custom table of the
  configuration, but the cache key leaves the custom table out. After a call with a custom table that gives x for the letter
  a, a call with one that gives y returns the table that still gives x, where a call with an empty cache returns one that gives y.
  The kana table is assumed to have no rule for the letter.\<close>
theorem GetTable_stale_custom_table:
  assumes "preedit_method config = ROMAN" "kana_keeps_a files" "{x, y} \<inter> {0x09, 0x0A, 0x0D} = {}"
  defines "with_rule \<equiv> \<lambda>z. config\<lparr>custom_roman_table := Some (one_rule z)\<rparr>"
  shows "\<exists>t t' m m' e e'.
    GetTable files fingerprint hash_of (\<lambda>_. None) GODAN_TO_HALFWIDTHASCII (with_rule x) = Some (Some t, m) \<and>
    GetTable files fingerprint hash_of m GODAN_TO_HALFWIDTHASCII (with_rule y) = Some (Some t, m) \<and>
    GetTable files fingerprint hash_of (\<lambda>_. None) GODAN_TO_HALFWIDTHASCII (with_rule y) = Some (Some t', m') \<and>
    TableLookUp t letter_a = Some e \<and> entry_result e = [x] \<and> TableLookUp t' letter_a = Some e' \<and> entry_result e' = [y]"
proof -
  have c: "preedit_method (with_rule z) = ROMAN" "custom_roman_table (with_rule z) = Some (one_rule z)" for z
    using assms(1) by (simp_all add: with_rule_def)
  have fresh: "\<exists>t e. InitializeWithRequestAndConfig files GODAN_TO_HALFWIDTHASCII (with_rule z) NewTable = Some (True, t) \<and>
      TableLookUp t letter_a = Some e \<and> entry_result e = [z]" if "z \<in> {x, y}" for z
    by (rule one_rule_table [OF _ assms(2) c(1) _ c(2)]) (use that assms(3) in auto)
  have k: "settings_key fingerprint GODAN_TO_HALFWIDTHASCII (with_rule x) = settings_key fingerprint GODAN_TO_HALFWIDTHASCII (with_rule y)"
    by (simp add: settings_key_def GetCustomRomanTableFingerprint_def with_rule_def)
  from fresh [of x] fresh [of y] show ?thesis by (auto simp: GetTable_settings_key k)
qed

lemma GetTable_stale_custom_table_witness:
  "\<exists>t t' m m' e e'.
    GetTable (\<lambda>f. Some []) example_fingerprint example_hash (\<lambda>_. None) GODAN_TO_HALFWIDTHASCII (example_config 0x78) = Some (Some t, m) \<and>
    GetTable (\<lambda>f. Some []) example_fingerprint example_hash m GODAN_TO_HALFWIDTHASCII (example_config 0x79) = Some (Some t, m) \<and>
    GetTable (\<lambda>f. Some []) example_fingerprint example_hash (\<lambda>_. None) GODAN_TO_HALFWIDTHASCII (example_config 0x79) = Some (Some t', m') \<and>
    TableLookUp t letter_a = Some e \<and> entry_result e = [0x78] \<and> TableLookUp t' letter_a = Some e' \<and> entry_result e' = [0x79]"
  using GetTable_stale_custom_table [OF _ kana_empty, of "example_config 0" "0x78" "0x79" example_fingerprint example_hash]
  by (simp add: example_config_def)

end
