(* ===== verification/CharChunk.thy ===== *)
theory CharChunk
  imports RomajiTable
begin

text \<open>
  The pieces of a composition: the transliterators of \<^verbatim>\<open>src/src/composer/transliterators.cc\<close>, the
  input record of \<^verbatim>\<open>composition_input.cc\<close>, and the chunks of \<^verbatim>\<open>char_chunk.cc\<close> with every operation on
  them. The character conversions are parameters, collected in the record \<open>composer_env\<close> with the
  tables that chunks refer to. The lemmas give the outcomes of one step of adding input, an induction
  rule for the loop around it, and what it keeps of the typed characters.
\<close>

section \<open>Transliterators: composer/transliterators.cc\<close>

text \<open>
  The character conversions of \<^verbatim>\<open>japanese_util\<close> and of the character form manager, and the tables
  shared pointers refer to. A pointer to a table is its number here, so that two pointers can be
  compared as the code does.
\<close>

record composer_env =
  table_at :: "nat \<Rightarrow> romaji_table"
  HalfWidthToFullWidth :: "bytes \<Rightarrow> bytes"
  FullWidthToHalfWidth :: "bytes \<Rightarrow> bytes"
  HiraganaToKatakana :: "bytes \<Rightarrow> bytes"
  KatakanaToHiragana :: "bytes \<Rightarrow> bytes"
  HalfWidthKatakanaToFullWidthKatakana :: "bytes \<Rightarrow> bytes"
  FullWidthAsciiToHalfWidthAscii :: "bytes \<Rightarrow> bytes"
  HalfWidthAsciiToFullWidthAscii :: "bytes \<Rightarrow> bytes"
  ConvertPreeditString :: "bytes \<Rightarrow> bytes"

datatype transliterator =
    CONVERSION_STRING | RAW_STRING | HIRAGANA | FULL_KATAKANA | HALF_KATAKANA | FULL_ASCII | HALF_ASCII
  | LOCAL

text \<open>The functions \<^verbatim>\<open>Transliterate\<close> of the transliterators; \<^verbatim>\<open>LOCAL\<close> falls back to the first.\<close>

fun TransliterateWith :: "composer_env \<Rightarrow> transliterator \<Rightarrow> bytes \<Rightarrow> bytes \<Rightarrow> bytes" where
  "TransliterateWith env CONVERSION_STRING raw converted = converted"
| "TransliterateWith env RAW_STRING raw converted = raw"
| "TransliterateWith env HIRAGANA raw converted =
     ConvertPreeditString env (HalfWidthToFullWidth env converted)"
| "TransliterateWith env FULL_KATAKANA raw converted =
     ConvertPreeditString env (HalfWidthToFullWidth env (HiraganaToKatakana env converted))"
| "TransliterateWith env HALF_KATAKANA raw converted =
     FullWidthToHalfWidth env (HiraganaToKatakana env converted)"
| "TransliterateWith env FULL_ASCII raw converted =
     HalfWidthAsciiToFullWidthAscii env (if raw = [] then converted else raw)"
| "TransliterateWith env HALF_ASCII raw converted =
     FullWidthAsciiToHalfWidthAscii env (if raw = [] then converted else raw)"
| "TransliterateWith env LOCAL raw converted = converted"

text \<open>\<^verbatim>\<open>std::string_view::rfind\<close>: whether the last occurrence of a string is at a position.\<close>

definition rfind_is :: "bytes \<Rightarrow> bytes \<Rightarrow> nat \<Rightarrow> bool" where
  "rfind_is s needle pos \<longleftrightarrow>
     pos + length needle \<le> length s \<and> starts_with (drop pos s) needle \<and>
     list_all (\<lambda>i. \<not> (i + length needle \<le> length s \<and> starts_with (drop i s) needle)) [Suc pos ..< Suc (length s)]"

record split_result =
  split_ok :: bool
  primary_lhs :: bytes
  primary_rhs :: bytes
  secondary_lhs :: bytes
  secondary_rhs :: bytes

text \<open>\<^verbatim>\<open>SplitPrimaryString\<close>; None where \<^verbatim>\<open>Utf8SubString\<close> would read past the end.\<close>

definition SplitPrimaryString :: "nat \<Rightarrow> bytes \<Rightarrow> bytes \<Rightarrow> split_result option" where
  "SplitPrimaryString position primary secondary =
     (case (Utf8SubString primary 0 position, Utf8SubString primary position npos) of
        (Some lhs, Some rhs) \<Rightarrow>
          let fallback = \<lparr>split_ok = False, primary_lhs = lhs, primary_rhs = rhs,
                          secondary_lhs = lhs, secondary_rhs = rhs\<rparr>
          in if length secondary < length rhs then Some fallback
             else let secondary_position = length secondary - length rhs
                  in if \<not> rfind_is secondary rhs secondary_position then Some fallback
                     else Some (fallback\<lparr>split_ok := True, secondary_rhs := rhs,
                                         secondary_lhs := take secondary_position secondary\<rparr>)
      | _ \<Rightarrow> None)"

record t13n_split =
  t13n_ok :: bool
  raw_lhs :: bytes
  raw_rhs :: bytes
  converted_lhs :: bytes
  converted_rhs :: bytes

definition SplitRaw :: "nat \<Rightarrow> bytes \<Rightarrow> bytes \<Rightarrow> t13n_split option" where
  "SplitRaw position raw converted =
     map_option (\<lambda>r. \<lparr>t13n_ok = split_ok r, raw_lhs = primary_lhs r, raw_rhs = primary_rhs r,
                      converted_lhs = secondary_lhs r, converted_rhs = secondary_rhs r\<rparr>)
       (SplitPrimaryString position raw converted)"

definition SplitConverted :: "nat \<Rightarrow> bytes \<Rightarrow> bytes \<Rightarrow> t13n_split option" where
  "SplitConverted position raw converted =
     map_option (\<lambda>r. \<lparr>t13n_ok = split_ok r, raw_lhs = secondary_lhs r, raw_rhs = secondary_rhs r,
                      converted_lhs = primary_lhs r, converted_rhs = primary_rhs r\<rparr>)
       (SplitPrimaryString position converted raw)"

definition HalfKatakanaToHiragana :: "composer_env \<Rightarrow> bytes \<Rightarrow> bytes" where
  "HalfKatakanaToHiragana env s = KatakanaToHiragana env (HalfWidthKatakanaToFullWidthKatakana env s)"

definition HalfKatakanaSplit :: "composer_env \<Rightarrow> nat \<Rightarrow> bytes \<Rightarrow> bytes \<Rightarrow> t13n_split option" where
  "HalfKatakanaSplit env position raw converted =
     map_option (\<lambda>r.
       let h = HalfKatakanaToHiragana env
       in if t13n_ok r
          then r\<lparr>converted_lhs := h (converted_lhs r), converted_rhs := h (converted_rhs r)\<rparr>
          else r\<lparr>raw_lhs := h (raw_lhs r), raw_rhs := h (raw_rhs r),
                 converted_lhs := h (converted_lhs r), converted_rhs := h (converted_rhs r)\<rparr>)
       (SplitConverted position raw (TransliterateWith env HALF_KATAKANA raw converted))"

text \<open>\<^verbatim>\<open>GetTransliterator(t)->Split\<close>.\<close>

fun SplitWith :: "composer_env \<Rightarrow> transliterator \<Rightarrow> nat \<Rightarrow> bytes \<Rightarrow> bytes \<Rightarrow> t13n_split option" where
  "SplitWith env RAW_STRING position raw converted = SplitRaw position raw converted"
| "SplitWith env FULL_ASCII position raw converted = SplitRaw position raw converted"
| "SplitWith env HALF_ASCII position raw converted = SplitRaw position raw converted"
| "SplitWith env HALF_KATAKANA position raw converted = HalfKatakanaSplit env position raw converted"
| "SplitWith env _ position raw converted = SplitConverted position raw converted"

section \<open>The input of a composition: composer/composition\_input.cc\<close>

record composition_input =
  input_raw :: bytes
  input_conversion :: bytes
  is_new_input :: bool
  is_asis :: bool

definition NewInput :: composition_input where
  "NewInput = \<lparr>input_raw = [], input_conversion = [], is_new_input = False, is_asis = False\<rparr>"

datatype input_style = FOLLOW_MODE | AS_IS | DIRECT_INPUT_STYLE

text \<open>The fields of a key event that \<^verbatim>\<open>Init\<close> reads; the name of a special key is given.\<close>

record key_event =
  key_code :: "char32 option"
  key_string :: "bytes option"
  special_key :: "bytes option"
  input_style :: input_style

definition InitInput :: "romaji_table \<Rightarrow> key_event \<Rightarrow> bool \<Rightarrow> composition_input \<Rightarrow> bool \<times> composition_input" where
  "InitInput table key new_input ci =
     (case (case key_code key of
              Some c \<Rightarrow> Some (CodepointToUtf8 c)
            | None \<Rightarrow> (case key_string key of
                Some s \<Rightarrow> Some s
              | None \<Rightarrow> (case special_key key of
                  Some name \<Rightarrow> Some (ParseSpecialKey table ([0x7B] @ name @ [0x7D]))
                | None \<Rightarrow> None))) of
        None \<Rightarrow> (False, ci)
      | Some raw \<Rightarrow>
          (True, ci\<lparr>input_raw := raw,
                    input_conversion := (case key_string key of Some s \<Rightarrow> s | None \<Rightarrow> input_conversion ci),
                    is_new_input := new_input,
                    is_asis := input_style key = AS_IS \<or> input_style key = DIRECT_INPUT_STYLE\<rparr>))"

definition InitFromRaw :: "bytes \<Rightarrow> bool \<Rightarrow> composition_input \<Rightarrow> composition_input" where
  "InitFromRaw raw new_input ci = ci\<lparr>input_raw := raw, is_new_input := new_input\<rparr>"

definition InitFromRawAndConv :: "bytes \<Rightarrow> bytes \<Rightarrow> bool \<Rightarrow> composition_input \<Rightarrow> composition_input" where
  "InitFromRawAndConv raw conversion new_input ci =
     ci\<lparr>input_raw := raw, input_conversion := conversion, is_new_input := new_input\<rparr>"

definition ClearInput :: "composition_input \<Rightarrow> composition_input" where
  "ClearInput ci = NewInput"

definition InputEmpty :: "composition_input \<Rightarrow> bool" where
  "InputEmpty ci \<longleftrightarrow> input_raw ci = [] \<and> input_conversion ci = []"

section \<open>Char chunks: composer/char\_chunk.h\<close>

record char_chunk =
  chunk_table :: nat
  raw :: bytes
  conversion :: bytes
  pending :: bytes
  ambiguous :: bytes
  display_ambiguous_as_result :: bool
  saved_raw :: bytes
  saved_conversion :: bytes
  saved_ambiguous :: bytes
  saved_attributes :: table_attributes
  transliterator :: transliterator
  attributes :: table_attributes
  local_length_cache :: nat

definition NewCharChunk :: "transliterator \<Rightarrow> nat \<Rightarrow> char_chunk" where
  "NewCharChunk t table =
     \<lparr>chunk_table = table, raw = [], conversion = [], pending = [], ambiguous = [],
      display_ambiguous_as_result = False, saved_raw = [], saved_conversion = [], saved_ambiguous = [],
      saved_attributes = NO_TABLE_ATTRIBUTE, transliterator = t, attributes = NO_TABLE_ATTRIBUTE,
      local_length_cache = npos\<rparr>"

definition ClearFallback :: "char_chunk \<Rightarrow> char_chunk" where
  "ClearFallback c = c\<lparr>saved_raw := [], saved_conversion := [], saved_ambiguous := [],
     saved_attributes := NO_TABLE_ATTRIBUTE\<rparr>"

definition SaveFallback :: "char_chunk \<Rightarrow> char_chunk" where
  "SaveFallback c = c\<lparr>saved_raw := raw c, saved_conversion := conversion c,
     saved_ambiguous := ambiguous c, saved_attributes := attributes c\<rparr>"

definition HasFallback :: "char_chunk \<Rightarrow> bool" where
  "HasFallback c \<longleftrightarrow> saved_raw c \<noteq> [] \<and> length (saved_raw c) < length (raw c) \<and>
     starts_with (raw c) (saved_raw c)"

definition RestoreFallback :: "char_chunk \<Rightarrow> bytes \<Rightarrow> bytes \<times> char_chunk" where
  "RestoreFallback c input =
     (let replay_input = drop (length (saved_raw c)) (raw c) @ input;
          c1 = c\<lparr>raw := saved_raw c, conversion := saved_conversion c @ saved_ambiguous c, pending := [],
                 ambiguous := [], display_ambiguous_as_result := False, attributes := saved_attributes c\<rparr>
      in (replay_input, (ClearFallback c1)\<lparr>local_length_cache := npos\<rparr>))"

definition ClearChunk :: "char_chunk \<Rightarrow> char_chunk" where
  "ClearChunk c =
     (ClearFallback (c\<lparr>raw := [], conversion := [], pending := [], ambiguous := [],
                       display_ambiguous_as_result := False\<rparr>))\<lparr>local_length_cache := npos\<rparr>"

definition has_attribute :: "table_attributes \<Rightarrow> table_attributes \<Rightarrow> bool" where
  "has_attribute a bit_mask \<longleftrightarrow> a AND bit_mask \<noteq> 0"

definition GetDisplayConverted :: "char_chunk \<Rightarrow> bytes" where
  "GetDisplayConverted c =
     (if display_ambiguous_as_result c \<and> ambiguous c \<noteq> [] then conversion c @ ambiguous c
      else conversion c @ pending c)"

definition ChunkGetTransliterator :: "char_chunk \<Rightarrow> transliterator \<Rightarrow> transliterator" where
  "ChunkGetTransliterator c t =
     (if has_attribute (attributes c) NO_TRANSLITERATION
      then if t = LOCAL \<or> t = HALF_ASCII \<or> t = FULL_ASCII then CONVERSION_STRING else t
      else if t = LOCAL then transliterator c else t)"

definition Transliterate :: "composer_env \<Rightarrow> char_chunk \<Rightarrow> transliterator \<Rightarrow> bytes \<Rightarrow> bytes \<Rightarrow> bytes" where
  "Transliterate env c t raw_string converted =
     TransliterateWith env (ChunkGetTransliterator c t) raw_string converted"

text \<open>The length without the cache, and \<^verbatim>\<open>GetLength\<close> with it.\<close>

definition ChunkLength :: "composer_env \<Rightarrow> transliterator \<Rightarrow> char_chunk \<Rightarrow> nat" where
  "ChunkLength env t c =
     CharsLen (Transliterate env c t (DeleteSpecialKeys (raw c)) (DeleteSpecialKeys (GetDisplayConverted c)))"

definition GetLength :: "composer_env \<Rightarrow> transliterator \<Rightarrow> char_chunk \<Rightarrow> nat \<times> char_chunk" where
  "GetLength env t c =
     (if t = LOCAL \<and> local_length_cache c \<noteq> npos then (local_length_cache c, c)
      else let len = ChunkLength env t c
           in (len, if t = LOCAL then c\<lparr>local_length_cache := len\<rparr> else c))"

definition AppendResult :: "composer_env \<Rightarrow> transliterator \<Rightarrow> char_chunk \<Rightarrow> bytes \<Rightarrow> bytes" where
  "AppendResult env t c result =
     result @ Transliterate env c t (DeleteSpecialKeys (raw c)) (DeleteSpecialKeys (GetDisplayConverted c))"

definition AppendTrimedResult :: "composer_env \<Rightarrow> transliterator \<Rightarrow> char_chunk \<Rightarrow> bytes \<Rightarrow> bytes" where
  "AppendTrimedResult env t c result =
     (let converted =
        (if pending c \<noteq> []
         then (case TableLookUpPrefix (table_at env (chunk_table c)) (pending c) of
                 (Some e, key_length, fixed) \<Rightarrow>
                   if entry_input e = entry_result e then conversion c @ entry_result e else conversion c
               | (None, key_length, fixed) \<Rightarrow> conversion c)
         else conversion c)
      in result @ Transliterate env c t (DeleteSpecialKeys (raw c)) (DeleteSpecialKeys converted))"

definition AppendFixedResult :: "composer_env \<Rightarrow> transliterator \<Rightarrow> char_chunk \<Rightarrow> bytes \<Rightarrow> bytes" where
  "AppendFixedResult env t c result =
     (let converted = (if ambiguous c \<noteq> [] then conversion c @ ambiguous c else conversion c @ pending c)
      in result @ Transliterate env c t (DeleteSpecialKeys (raw c)) (DeleteSpecialKeys converted))"

definition GetPendingDisplayLength :: "composer_env \<Rightarrow> transliterator \<Rightarrow> char_chunk \<Rightarrow> nat" where
  "GetPendingDisplayLength env t c =
     (if pending c = [] \<or> display_ambiguous_as_result c \<and> ambiguous c \<noteq> [] then 0
      else let displayed = AppendResult env t c []; trimmed = AppendTrimedResult env t c []
           in if \<not> starts_with displayed trimmed then 0 else CharsLen displayed - CharsLen trimmed)"

definition HasDisplayedAmbiguousResult :: "char_chunk \<Rightarrow> bool" where
  "HasDisplayedAmbiguousResult c \<longleftrightarrow>
     pending c \<noteq> [] \<and> ambiguous c \<noteq> [] \<and> display_ambiguous_as_result c"

section \<open>Expanded results: composer/char\_chunk.cc\<close>

text \<open>
  \<^verbatim>\<open>GetFromPending\<close>: the flag and the set of strings found so far (a \<^verbatim>\<open>btree_set\<close>, here a list of its
  elements in the order of insertion); the recursion count is the fuel of the code itself.
\<close>

fun GetFromPending :: "romaji_table \<Rightarrow> nat \<Rightarrow> bytes \<Rightarrow> bytes list \<Rightarrow> bool \<times> bytes list"
  and GetFromEntries :: "romaji_table \<Rightarrow> nat \<Rightarrow> table_entry list \<Rightarrow> bytes list \<Rightarrow> bool \<times> bytes list" where
  "GetFromPending table 0 key result = (False, result)"
| "GetFromPending table (Suc n) key result =
     (if key \<in> set result then (True, result)
      else GetFromEntries table n (TableLookUpPredictiveAll table key) (result @ [key]))"
| "GetFromEntries table n [] result = (True, result)"
| "GetFromEntries table n (e # es) result =
     (if entry_result e \<noteq> [] then (False, result)
      else (case GetFromPending table n (entry_pending e) result of
              (False, result') \<Rightarrow> (False, result')
            | (True, result') \<Rightarrow> GetFromEntries table n es result'))"

definition kMaxRecursion :: nat where "kMaxRecursion = 4"

definition GetExpandedResults :: "composer_env \<Rightarrow> char_chunk \<Rightarrow> bytes list" where
  "GetExpandedResults env c =
     (if pending c = [] then []
      else let table = table_at env (chunk_table c)
           in (if conversion c = [] then [DeleteSpecialKeys (pending c)] else []) @
              concat (map (\<lambda>e.
                (if entry_result e \<noteq> [] then [DeleteSpecialKeys (entry_result e)] else []) @
                (if entry_pending e = [] then []
                 else (case GetFromPending table kMaxRecursion (entry_pending e) [] of
                         (False, _) \<Rightarrow> []
                       | (True, loop_result) \<Rightarrow> map DeleteSpecialKeys loop_result)))
                (TableLookUpPredictiveAll table (pending c))))"

section \<open>Adding input: composer/char\_chunk.cc\<close>

definition IsFixed :: "char_chunk \<Rightarrow> bool" where
  "IsFixed c \<longleftrightarrow> pending c = []"

definition IsAppendable :: "char_chunk \<Rightarrow> transliterator \<Rightarrow> nat \<Rightarrow> bool" where
  "IsAppendable c t table \<longleftrightarrow>
     pending c \<noteq> [] \<and> (t = LOCAL \<or> t = transliterator c) \<and> table = chunk_table c"

definition IsConvertible :: "composer_env \<Rightarrow> char_chunk \<Rightarrow> transliterator \<Rightarrow> nat \<Rightarrow> bytes \<Rightarrow> bool" where
  "IsConvertible env c t table input \<longleftrightarrow>
     IsAppendable c t table \<and>
     (let key = pending c @ input
      in case TableLookUpPrefix (table_at env table) key of
           (entry, key_length, fixed) \<Rightarrow> entry \<noteq> None \<and> length key = key_length \<and> fixed)"

definition Combine :: "char_chunk \<Rightarrow> char_chunk \<Rightarrow> char_chunk" where
  "Combine c left =
     c\<lparr>conversion := conversion left @ conversion c, raw := raw left @ raw c, local_length_cache := npos,
       ambiguous :=
         (if ambiguous left = [] then []
          else if ambiguous c = [] then ambiguous left @ pending c
          else ambiguous left @ ambiguous c),
       pending := pending left @ pending c\<rparr>"

datatype chunk_error = OutOfRange | PastEnd

text \<open>
  The part of \<^verbatim>\<open>AddInputInternal\<close> for a rule found: the attributes of a first entry, the used input
  moved to the raw string, and the result fixed or kept as ambiguous; then what is returned.
\<close>

definition ApplyEntry :: "table_entry \<Rightarrow> nat \<Rightarrow> bool \<Rightarrow> bytes \<Rightarrow> char_chunk \<Rightarrow> bytes \<times> char_chunk" where
  "ApplyEntry e used_key_length fixed input c =
     (let key = pending c @ input;
          is_first_entry = (conversion c = [] \<and> (raw c = [] \<or> pending c = [] \<or> raw c = pending c));
          c1 = (if is_first_entry then c\<lparr>attributes := entry_attributes e\<rparr> else c);
          used_input_length = used_key_length - length (pending c);
          c2 = c1\<lparr>raw := raw c @ take used_input_length input\<rparr>;
          rest = drop used_input_length input;
          d = has_attribute (entry_attributes e) DISPLAY_AMBIGUOUS_RESULT
      in (rest,
          if fixed \<or> used_key_length < length key
          then ClearFallback (c2\<lparr>conversion := conversion c @ entry_result e, pending := entry_pending e,
                 ambiguous := [], display_ambiguous_as_result := False\<rparr>)
          else let c3 = c2\<lparr>pending := key, ambiguous := entry_result e, display_ambiguous_as_result := d\<rparr>
               in if d then SaveFallback c3 else ClearFallback c3))"

definition EntryOutcome :: "bool \<Rightarrow> bytes \<Rightarrow> char_chunk \<Rightarrow> bool \<times> bytes \<times> char_chunk" where
  "EntryOutcome fixed rest c =
     (if fixed \<and> rest = [] \<and> conversion c = [] \<and> pending c = [] \<and>
         has_attribute (attributes c) NO_TRANSLITERATION
      then (False, rest, c\<lparr>raw := []\<rparr>)
      else if rest = [] \<or> pending c = [] then (False, rest, c)
      else (True, rest, c))"

text \<open>
  \<^verbatim>\<open>AddInputInternal\<close>: loop flag, rest of the input and the chunk. The error is the exception of
  \<^verbatim>\<open>input.substr(used_input_length)\<close> where \<^verbatim>\<open>used_key_length - pending_.size()\<close> wraps around.
\<close>

definition AddInputInternal ::
  "composer_env \<Rightarrow> char_chunk \<Rightarrow> bytes \<Rightarrow> chunk_error + (bool \<times> bytes \<times> char_chunk)" where
  "AddInputInternal env c0 input =
     (let table = table_at env (chunk_table c0);
          key = pending c0 @ input;
          c = c0\<lparr>local_length_cache := npos\<rparr>
      in case TableLookUpPrefix table key of
           (None, used_key_length, fixed) \<Rightarrow>
             if used_key_length \<le> length (pending c) \<and> HasFallback c
             then (case RestoreFallback c input of (replay, c') \<Rightarrow> Inr (False, replay, c'))
             else if used_key_length = 0
             then let trimmed = TrimLeadingSpecialKey input
                  in if length trimmed < length input then Inr (True, trimmed, c)
                     else if pending c = []
                     then (case FrontChar input of
                             (front, rest) \<Rightarrow>
                               Inr (False, rest, c\<lparr>raw := raw c @ front, conversion := conversion c @ front\<rparr>))
                     else Inr (False, input, c)
             else if used_key_length = length (pending c)
             then (case TableLookUpPrefix table input of
                     (next_entry, used_length, next_fixed) \<Rightarrow>
                       let no_entry = (next_entry = None \<and> used_length = 0);
                           trimmed = TrimLeadingSpecialKey input
                       in if no_entry \<and> length trimmed < length input then Inr (True, trimmed, c)
                          else Inr (False, input, c))
             else if used_key_length < length (pending c) then Inr (False, input, c)
             else let used_input_length = used_key_length - length (pending c);
                      used_input_chars = take used_input_length input
                  in Inr (False, drop used_input_length input,
                          c\<lparr>raw := raw c @ used_input_chars, pending := pending c @ used_input_chars,
                            ambiguous := [], display_ambiguous_as_result := False\<rparr>)
         | (Some e, used_key_length, fixed) \<Rightarrow>
             if used_key_length < length (pending c) then Inl OutOfRange
             else (case ApplyEntry e used_key_length fixed input c of
                     (rest, c') \<Rightarrow> Inr (EntryOutcome fixed rest c')))"

text \<open>The loop of \<^verbatim>\<open>AddInput\<close>; None where it does not end.\<close>

partial_function (option) AddInput ::
  "composer_env \<Rightarrow> char_chunk \<Rightarrow> bytes \<Rightarrow> (chunk_error + (bytes \<times> char_chunk)) option" where
  "AddInput env c input =
     (case AddInputInternal env c input of
        Inl err \<Rightarrow> Some (Inl err)
      | Inr (loop, rest, c') \<Rightarrow> if loop then AddInput env c' rest else Some (Inr (rest, c')))"

definition ChunkIsEmpty :: "char_chunk \<Rightarrow> bool" where
  "ChunkIsEmpty c \<longleftrightarrow> raw c = [] \<and> conversion c = [] \<and> pending c = []"

definition AddInputAndConvertedChar ::
  "composer_env \<Rightarrow> char_chunk \<Rightarrow> composition_input \<Rightarrow> composition_input \<times> char_chunk" where
  "AddInputAndConvertedChar env c0 ci =
     (let c = c0\<lparr>local_length_cache := npos\<rparr>;
          table = table_at env (chunk_table c)
      in if is_asis ci
         then if ChunkIsEmpty c
              then (ClearInput ci, c\<lparr>raw := input_raw ci, conversion := input_conversion ci\<rparr>)
              else (ci, c)
         else if ChunkIsEmpty c
         then let c1 = c\<lparr>raw := input_raw ci, pending := input_conversion ci, ambiguous := input_conversion ci\<rparr>
              in (ci\<lparr>input_raw := [], input_conversion := []\<rparr>,
                  case TableLookUp table (pending c1) of
                    Some e \<Rightarrow> c1\<lparr>attributes := entry_attributes e\<rparr> | None \<Rightarrow> c1)
         else let key_input = pending c @ input_conversion ci
              in case TableLookUpPrefix table key_input of
                   (None, key_length, fixed) \<Rightarrow> (ci, c)
                 | (Some e, key_length, fixed) \<Rightarrow>
                     if key_length = length key_input
                     then (ci\<lparr>input_raw := [], input_conversion := []\<rparr>,
                           let c1 = c\<lparr>raw := raw c @ input_raw ci\<rparr>
                           in if fixed
                              then c1\<lparr>conversion := conversion c1 @ entry_result e,
                                      pending := entry_pending e, ambiguous := []\<rparr>
                              else c1\<lparr>pending := entry_result e, ambiguous := entry_result e\<rparr>)
                     else if key_length = length (pending c) then (ci, c)
                     else (ci\<lparr>input_raw := [], input_conversion := drop key_length key_input\<rparr>,
                           c\<lparr>raw := raw c @ input_raw ci, conversion := conversion c @ entry_result e,
                             pending := entry_pending e\<rparr>))"

definition ChunkShouldCommit :: "char_chunk \<Rightarrow> bool" where
  "ChunkShouldCommit c \<longleftrightarrow> has_attribute (attributes c) DIRECT_INPUT \<and> pending c = []"

definition ShouldInsertNewChunk :: "composer_env \<Rightarrow> char_chunk \<Rightarrow> composition_input \<Rightarrow> bool" where
  "ShouldInsertNewChunk env c ci \<longleftrightarrow>
     (if ChunkIsEmpty c then False
      else let new_input = (is_new_input ci \<or> has_attribute (attributes c) END_CHUNK \<and> pending c = []);
               table = table_at env (chunk_table c)
           in new_input \<and> (HasNewChunkEntry table (input_raw ci) \<or> \<not> HasSubRules table (input_raw ci)))"

definition AddCompositionInput ::
  "composer_env \<Rightarrow> char_chunk \<Rightarrow> composition_input \<Rightarrow>
   (chunk_error + (composition_input \<times> char_chunk)) option" where
  "AddCompositionInput env c0 ci =
     (let c = c0\<lparr>local_length_cache := npos\<rparr>
      in if input_conversion ci \<noteq> [] then Some (Inr (AddInputAndConvertedChar env c ci))
         else if ShouldInsertNewChunk env c ci then Some (Inr (ci, c))
         else (case AddInput env c (input_raw ci) of
                 None \<Rightarrow> None
               | Some (Inl err) \<Rightarrow> Some (Inl err)
               | Some (Inr (rest, c')) \<Rightarrow> Some (Inr (ci\<lparr>input_raw := rest\<rparr>, c'))))"

definition ChunkSetTransliterator :: "transliterator \<Rightarrow> char_chunk \<Rightarrow> char_chunk" where
  "ChunkSetTransliterator t c =
     (if t = LOCAL then c else c\<lparr>local_length_cache := npos, transliterator := t\<rparr>)"

text \<open>
  \<^verbatim>\<open>SplitChunk\<close>: the left chunk, none for an invalid position, and this chunk; None where the split
  would read past the end of a string. \<^verbatim>\<open>assign(s, 0, n)\<close> clips, also where \<^verbatim>\<open>n\<close> wrapped around.
\<close>

definition SplitChunk ::
  "composer_env \<Rightarrow> char_chunk \<Rightarrow> transliterator \<Rightarrow> nat \<Rightarrow> (char_chunk option \<times> char_chunk) option" where
  "SplitChunk env c0 t position =
     (if position = 0 then Some (None, c0)
      else if fst (GetLength env t c0) \<le> position then Some (None, snd (GetLength env t c0))
      else let c = c0\<lparr>local_length_cache := npos\<rparr>
           in case SplitWith env (ChunkGetTransliterator c t) position (DeleteSpecialKeys (raw c))
                     (DeleteSpecialKeys (conversion c @ pending c)) of
                None \<Rightarrow> None
              | Some s \<Rightarrow>
                  let left = (NewCharChunk (transliterator c) (chunk_table c))\<lparr>raw := raw_lhs s\<rparr>;
                      c1 = c\<lparr>raw := raw_rhs s\<rparr>
                  in if length (conversion c) < length (converted_lhs s)
                     then Some (Some (left\<lparr>conversion := conversion c,
                                           pending := drop (length (conversion c)) (converted_lhs s)\<rparr>),
                                c1\<lparr>conversion := [], pending := converted_rhs s, ambiguous := []\<rparr>)
                     else Some (Some (left\<lparr>conversion := converted_lhs s\<rparr>),
                                c1\<lparr>conversion :=
                                     (if length (pending c) \<le> length (converted_rhs s)
                                      then take (length (converted_rhs s) - length (pending c)) (converted_rhs s)
                                      else converted_rhs s)\<rparr>))"

section \<open>The length cache\<close>

definition length_cache_ok :: "composer_env \<Rightarrow> char_chunk \<Rightarrow> bool" where
  "length_cache_ok env c \<longleftrightarrow> local_length_cache c = npos \<or> local_length_cache c = ChunkLength env LOCAL c"

lemma length_cache_ok_npos [simp]: "local_length_cache c = npos \<Longrightarrow> length_cache_ok env c"
  by (simp add: length_cache_ok_def)

lemma ChunkLength_cache [simp]: "ChunkLength env t (c\<lparr>local_length_cache := n\<rparr>) = ChunkLength env t c"
  by (simp add: ChunkLength_def Transliterate_def ChunkGetTransliterator_def GetDisplayConverted_def)

lemma GetLength_cached:
  assumes "length_cache_ok env c" "GetLength env t c = (n, c')"
  shows "n = ChunkLength env t c \<and> length_cache_ok env c' \<and> c'\<lparr>local_length_cache := npos\<rparr> = c\<lparr>local_length_cache := npos\<rparr>"
  using assms by (auto simp: GetLength_def length_cache_ok_def Let_def split: if_splits)

lemma fst_GetLength: "length_cache_ok env c \<Longrightarrow> fst (GetLength env t c) = ChunkLength env t c"
  by (cases "GetLength env t c") (auto dest: GetLength_cached)

lemma fallback_simps [simp]:
  "local_length_cache (ClearFallback c) = local_length_cache c" "raw (ClearFallback c) = raw c"
  "conversion (ClearFallback c) = conversion c" "pending (ClearFallback c) = pending c"
  "attributes (ClearFallback c) = attributes c" "chunk_table (ClearFallback c) = chunk_table c"
  "transliterator (ClearFallback c) = transliterator c" "saved_raw (ClearFallback c) = []"
  "local_length_cache (SaveFallback c) = local_length_cache c" "raw (SaveFallback c) = raw c"
  "conversion (SaveFallback c) = conversion c" "pending (SaveFallback c) = pending c"
  "attributes (SaveFallback c) = attributes c" "chunk_table (SaveFallback c) = chunk_table c"
  "transliterator (SaveFallback c) = transliterator c" "saved_raw (SaveFallback c) = raw c"
  by (simp_all add: ClearFallback_def SaveFallback_def)

text \<open>The outcomes of one step, with what they do to the strings.\<close>

lemma AddInputInternal_cases:
  assumes "AddInputInternal env c input = Inr (loop, rest, c')"
  obtains (restore) "HasFallback c" "\<not> loop" "raw c' = saved_raw c" "pending c' = []" "saved_raw c' = []"
      "rest = drop (length (saved_raw c)) (raw c) @ input" "local_length_cache c' = npos"
      "chunk_table c' = chunk_table c" "transliterator c' = transliterator c"
  | (trim) loop "rest = TrimLeadingSpecialKey input" "length rest < length input"
      "c' = c\<lparr>local_length_cache := npos\<rparr>"
  | (front) "\<not> loop" "pending c = []" "rest = snd (FrontChar input)"
      "fst (snd (TableLookUpPrefix (table_at env (chunk_table c)) (pending c @ input))) = 0"
      "c' = c\<lparr>local_length_cache := npos, raw := raw c @ fst (FrontChar input),
              conversion := conversion c @ fst (FrontChar input)\<rparr>"
  | (none) "\<not> loop" "rest = input" "pending c \<noteq> []" "c' = c\<lparr>local_length_cache := npos\<rparr>"
  | (prefix) n fixed where "\<not> loop"
      "TableLookUpPrefix (table_at env (chunk_table c)) (pending c @ input) = (None, n, fixed)"
      "length (pending c) < n" "rest = drop (n - length (pending c)) input"
      "c' = c\<lparr>local_length_cache := npos, raw := raw c @ take (n - length (pending c)) input,
              pending := pending c @ take (n - length (pending c)) input, ambiguous := [],
              display_ambiguous_as_result := False\<rparr>"
  | (entry) e n fixed where
      "TableLookUpPrefix (table_at env (chunk_table c)) (pending c @ input) = (Some e, n, fixed)"
      "length (pending c) \<le> n" "rest = drop (n - length (pending c)) input"
      "raw c' = raw c @ take (n - length (pending c)) input \<or>
       raw c' = [] \<and> rest = [] \<and> fixed \<and> conversion c' = [] \<and> pending c' = [] \<and>
         has_attribute (attributes c') NO_TRANSLITERATION"
      "pending c' = (if fixed \<or> n < length (pending c @ input) then entry_pending e else pending c @ input)"
      "saved_raw c' = [] \<or> saved_raw c' = raw c'"
      "loop = (rest \<noteq> [] \<and> pending c' \<noteq> [])" "local_length_cache c' = npos"
      "chunk_table c' = chunk_table c" "transliterator c' = transliterator c"
proof -
  obtain r n fixed where l: "TableLookUpPrefix (table_at env (chunk_table c)) (pending c @ input) = (r, n, fixed)"
    by (cases "TableLookUpPrefix (table_at env (chunk_table c)) (pending c @ input)")
  show ?thesis
  proof (cases r)
    case None
    note l = l [unfolded None]
    let ?c = "c\<lparr>local_length_cache := npos\<rparr>"
    have hf: "HasFallback ?c = HasFallback c" by (simp add: HasFallback_def)
    consider "n \<le> length (pending c)" "HasFallback c"
      | "\<not> (n \<le> length (pending c) \<and> HasFallback c)" "n = 0"
      | "\<not> (n \<le> length (pending c) \<and> HasFallback c)" "n \<noteq> 0" "n \<le> length (pending c)"
      | "\<not> (n \<le> length (pending c) \<and> HasFallback c)" "length (pending c) < n"
      by linarith
    then show ?thesis
    proof cases
      case 1
      then show ?thesis
        using assms l hf
        by (intro restore) (auto simp: AddInputInternal_def Let_def RestoreFallback_def)
    next
      case 2
      let ?f = "FrontChar input"
      have "loop \<and> rest = TrimLeadingSpecialKey input \<and> length rest < length input \<and> c' = ?c
          \<or> \<not> loop \<and> pending c = [] \<and> rest = snd ?f \<and>
            c' = ?c\<lparr>raw := raw c @ fst ?f, conversion := conversion c @ fst ?f\<rparr>
          \<or> \<not> loop \<and> pending c \<noteq> [] \<and> rest = input \<and> c' = ?c"
        using assms l hf 2
        by (cases ?f) (auto simp: AddInputInternal_def Let_def split: if_splits)
      then show ?thesis using l 2 by (auto intro: trim front none)
    next
      case 3
      then have "pending c \<noteq> []" by auto
      moreover from 3 assms l hf have "loop \<and> rest = TrimLeadingSpecialKey input \<and> length rest < length input \<and> c' = ?c
          \<or> \<not> loop \<and> rest = input \<and> c' = ?c"
        by (auto simp: AddInputInternal_def Let_def split: if_splits prod.splits)
      ultimately show ?thesis by (auto intro: trim none)
    next
      case 4
      then show ?thesis
        using assms l hf by (intro prefix [OF _ l]) (auto simp: AddInputInternal_def Let_def)
    qed
  next
    case (Some e)
    note l = l [unfolded Some]
    have n: "length (pending c) \<le> n" using assms l by (auto simp: AddInputInternal_def Let_def split: if_splits)
    let ?c = "c\<lparr>local_length_cache := npos\<rparr>"
    obtain c3 where ap: "ApplyEntry e n fixed input ?c = (drop (n - length (pending c)) input, c3)"
      by (simp add: ApplyEntry_def Let_def)
    have out: "EntryOutcome fixed (drop (n - length (pending c)) input) c3 = (loop, rest, c')"
      using assms l n ap by (simp add: AddInputInternal_def Let_def)
    have c3: "raw c3 = raw c @ take (n - length (pending c)) input"
      "pending c3 = (if fixed \<or> n < length (pending c @ input) then entry_pending e else pending c @ input)"
      "saved_raw c3 = [] \<or> saved_raw c3 = raw c3" "local_length_cache c3 = npos"
      "chunk_table c3 = chunk_table c" "transliterator c3 = transliterator c"
      using ap by (auto simp: ApplyEntry_def Let_def)
    show ?thesis
    proof (cases "fixed \<and> drop (n - length (pending c)) input = [] \<and> conversion c3 = [] \<and> pending c3 = [] \<and>
        has_attribute (attributes c3) NO_TRANSLITERATION")
      case True
      with out have "\<not> loop" "rest = drop (n - length (pending c)) input" "c' = c3\<lparr>raw := []\<rparr>" "rest = []"
        by (auto simp: EntryOutcome_def)
      moreover have "saved_raw c3 = []"
        using ap True by (auto simp: ApplyEntry_def Let_def)
      moreover have "pending c3 = []" using True by blast
      ultimately show ?thesis using True c3(1,4-) c3(2) [symmetric] by (intro entry [OF l n]) simp_all
    next
      case False
      with out have "loop = (rest \<noteq> [] \<and> pending c3 \<noteq> [])" "rest = drop (n - length (pending c)) input" "c' = c3"
        by (auto simp: EntryOutcome_def split: if_splits)
      with c3 l n show ?thesis by (intro entry [OF l n]) simp_all
    qed
  qed
qed


section \<open>What a step does to the typed characters\<close>

lemma HasFallback_split:
  "HasFallback c \<Longrightarrow> raw c = saved_raw c @ drop (length (saved_raw c)) (raw c)"
  by (auto simp: HasFallback_def starts_with_def prefix_def)

lemma FrontChar_split: "fst (FrontChar s) @ snd (FrontChar s) = s"
  by (cases s) (simp_all add: FrontChar_def)

lemma AddInputInternal_raw:
  assumes "AddInputInternal env c input = Inr (loop, rest, c')"
  shows "raw c' @ rest = raw c @ input \<or>
     loop \<and> rest = TrimLeadingSpecialKey input \<and> length rest < length input \<and> raw c' = raw c \<or>
     \<not> loop \<and> rest = [] \<and> raw c' = [] \<and> conversion c' = [] \<and> pending c' = [] \<and>
       has_attribute (attributes c') NO_TRANSLITERATION"
  using assms
proof (cases rule: AddInputInternal_cases)
  case restore
  have "raw c @ input = saved_raw c @ drop (length (saved_raw c)) (raw c) @ input"
    using HasFallback_split [OF restore(1)] by (metis append.assoc)
  with restore show ?thesis by simp
next
  case trim
  then show ?thesis by simp
next
  case front
  then show ?thesis using FrontChar_split [of input] by simp
next
  case none
  then show ?thesis by simp
next
  case (prefix n fixed)
  then show ?thesis by simp
next
  case (entry e n fixed)
  from entry(4) show ?thesis
  proof
    assume "raw c' = raw c @ take (n - length (pending c)) input"
    with entry(3) have "raw c' @ rest = raw c @ input" by simp
    then show ?thesis ..
  qed (use entry(7) in auto)
qed

lemma AddInputInternal_keeps:
  assumes "AddInputInternal env c input = Inr (loop, rest, c')"
  shows "local_length_cache c' = npos \<and> chunk_table c' = chunk_table c \<and> transliterator c' = transliterator c"
  using assms by (cases rule: AddInputInternal_cases) auto

text \<open>Induction over the loop of \<^verbatim>\<open>AddInput\<close> that returned.\<close>

lemma AddInput_induct [consumes 1, case_names step]:
  assumes "AddInput env c input = Some (Inr (rest, c'))"
    and "\<And>c input loop r d. AddInputInternal env c input = Inr (loop, r, d) \<Longrightarrow>
           (if loop then P d r rest c' else r = rest \<and> d = c') \<Longrightarrow> P c input rest c'"
  shows "P c input rest c'"
proof -
  have "AddInput env c input = Some r \<Longrightarrow>
      (\<forall>c input loop r d. AddInputInternal env c input = Inr (loop, r, d) \<longrightarrow>
           (if loop then P d r rest c' else r = rest \<and> d = c') \<longrightarrow> P c input rest c') \<longrightarrow>
      r = Inr (rest, c') \<longrightarrow> P c input rest c'" for r
  proof (induction rule: AddInput.raw_induct [rotated, consumes 1, case_names step,
      where P = "\<lambda>env c input r.
      (\<forall>c input loop r d. AddInputInternal env c input = Inr (loop, r, d) \<longrightarrow>
           (if loop then P d r rest c' else r = rest \<and> d = c') \<longrightarrow> P c input rest c') \<longrightarrow>
      r = Inr (rest, c') \<longrightarrow> P c input rest c'"])
    case (step AddInput env c input r)
    show ?case
    proof (intro impI)
      assume hyp: "\<forall>c input loop r d. AddInputInternal env c input = Inr (loop, r, d) \<longrightarrow>
           (if loop then P d r rest c' else r = rest \<and> d = c') \<longrightarrow> P c input rest c'"
        and r: "r = Inr (rest, c')"
      from step(2) r obtain loop q d where i: "AddInputInternal env c input = Inr (loop, q, d)"
        by (cases "AddInputInternal env c input") auto
      have "if loop then P d q rest c' else q = rest \<and> d = c'"
      proof (cases loop)
        case True
        with step(2) i r have "AddInput env d q = Some (Inr (rest, c'))" by simp
        from step(1) [OF this] hyp True show ?thesis by simp
      next
        case False
        with step(2) i r show ?thesis by simp
      qed
      with hyp i show "P c input rest c'" by blast
    qed
  qed
  with assms show ?thesis by blast
qed

lemma AddInput_keeps:
  "AddInput env c input = Some (Inr (rest, c')) \<Longrightarrow>
     local_length_cache c' = npos \<and> chunk_table c' = chunk_table c \<and> transliterator c' = transliterator c"
proof (induction rule: AddInput_induct)
  case (step c input loop r d)
  from AddInputInternal_keeps [OF step(1)] step(2) show ?case by (cases loop) auto
qed

text \<open>Together the raw string and the rest never get longer.\<close>

lemma AddInput_length:
  "AddInput env c input = Some (Inr (rest, c')) \<Longrightarrow>
     length (raw c') + length rest \<le> length (raw c) + length input"
proof (induction rule: AddInput_induct)
  case (step c input loop r d)
  have "length (raw d) + length r \<le> length (raw c) + length input"
    using AddInputInternal_raw [OF step(1)]
  proof (elim disjE)
    assume "raw d @ r = raw c @ input"
    then have "length (raw d @ r) = length (raw c @ input)" by simp
    then show ?thesis by simp
  qed (elim conjE, simp)+
  with step(2) show ?case by (cases loop) auto
qed

lemma AddCompositionInput_keeps:
  assumes "AddCompositionInput env c ci = Some (Inr (ci', c'))"
  shows "local_length_cache c' = npos \<and> chunk_table c' = chunk_table c \<and> transliterator c' = transliterator c"
  using assms
  by (auto simp: AddCompositionInput_def AddInputAndConvertedChar_def Let_def
      split: if_splits option.splits sum.splits prod.splits dest: AddInput_keeps)

end
