(* ===== verification/Typing.thy ===== *)
theory Typing
  imports CharChunk
begin

text \<open>
  Typing into a chunk (\<^verbatim>\<open>CharChunk::AddInput\<close>): the tables on which it always returns without an
  exception, two tables on which it does not, the typed characters it keeps, and the length cache
  over every sequence of operations.
\<close>

section \<open>Texts: valid UTF-8 without NUL\<close>

definition good_chars :: "char32 list \<Rightarrow> bool" where
  "good_chars cs \<longleftrightarrow> list_all (\<lambda>c. scalar c \<and> c \<noteq> 0) cs"

definition valid_text :: "bytes \<Rightarrow> bool" where
  "valid_text s \<longleftrightarrow> (\<exists>cs. good_chars cs \<and> s = Utf32ToUtf8 cs)"

lemma good_chars_simps [simp]:
  "good_chars []" "good_chars (c # cs) \<longleftrightarrow> scalar c \<and> c \<noteq> 0 \<and> good_chars cs"
  "good_chars (cs @ ds) \<longleftrightarrow> good_chars cs \<and> good_chars ds"
  by (auto simp: good_chars_def)

lemma good_chars_take_drop: "good_chars cs \<Longrightarrow> good_chars (take k cs) \<and> good_chars (drop k cs)"
  by (metis append_take_drop_id good_chars_simps(3))

lemma good_chars_encodable: "good_chars cs \<Longrightarrow> list_all encodable cs"
  by (auto simp: good_chars_def list_all_iff intro: unicode_scalar)

lemma good_chars_lower: "good_chars cs \<Longrightarrow> good_chars (map lower32 cs)"
  by (auto simp: good_chars_def list_all_iff scalar_lower32 lower32_nonzero)

lemma valid_text_Nil [simp]: "valid_text []"
  unfolding valid_text_def by (intro exI [of _ "[]"]) simp

lemma valid_text_append: "valid_text s \<Longrightarrow> valid_text t \<Longrightarrow> valid_text (s @ t)"
  unfolding valid_text_def by (metis Utf32ToUtf8_simps(3) good_chars_simps(3))

lemma valid_text_Utf32 [simp]: "good_chars cs \<Longrightarrow> valid_text (Utf32ToUtf8 cs)"
  by (auto simp: valid_text_def)

lemma length_lower32: "length (CodepointToUtf8 (lower32 c)) = length (CodepointToUtf8 c)"
  by (simp add: lower32_def lower32_length)

lemma length_Utf32_lower: "length (Utf32ToUtf8 (map lower32 cs)) = length (Utf32ToUtf8 cs)"
  by (induction cs) (simp_all add: length_lower32)

lemma good_char_nonempty: "scalar c \<Longrightarrow> c \<noteq> 0 \<Longrightarrow> CodepointToUtf8 c \<noteq> []"
  by (simp add: CodepointToUtf8_nonempty unicode_encodable unicode_scalar)

text \<open>Cutting an encoded string at a length that is the length of a part.\<close>

lemma Utf32_prefix_boundary:
  "good_chars cs \<Longrightarrow> good_chars ds \<Longrightarrow> prefix (Utf32ToUtf8 cs) (Utf32ToUtf8 ds) \<Longrightarrow> prefix cs ds"
proof (induction cs arbitrary: ds)
  case (Cons c cs)
  have c: "CodepointToUtf8 c \<noteq> []" using Cons.prems(1) good_char_nonempty by simp
  then obtain d ds' where ds: "ds = d # ds'" using Cons.prems(3) by (cases ds) auto
  have e: "encodable c" "encodable d" using Cons.prems ds by (auto intro: unicode_scalar)
  from Cons.prems(3) ds obtain r where r: "CodepointToUtf8 d @ Utf32ToUtf8 ds' = CodepointToUtf8 c @ Utf32ToUtf8 cs @ r"
    by (auto elim!: prefixE)
  have "(True, d, Utf32ToUtf8 ds') = (True, c, Utf32ToUtf8 cs @ r)"
    using SplitFirstChar32_encoded [OF e(2), of "Utf32ToUtf8 ds'"]
      SplitFirstChar32_encoded [OF e(1), of "Utf32ToUtf8 cs @ r"] unfolding r by (rule trans [OF sym])
  then have eq: "c = d" "Utf32ToUtf8 ds' = Utf32ToUtf8 cs @ r" by blast+
  then have "prefix (Utf32ToUtf8 cs) (Utf32ToUtf8 ds')" by simp
  with Cons.IH [of ds'] Cons.prems(1,2) ds eq(1) show ?case by simp
qed simp

lemma valid_text_drop:
  assumes "valid_text s" "valid_text t" "starts_with t s"
  shows "valid_text (drop (length s) t)"
proof -
  from assms obtain cs ds where *: "good_chars cs" "s = Utf32ToUtf8 cs" "good_chars ds" "t = Utf32ToUtf8 ds"
    by (auto simp: valid_text_def)
  with assms(3) have "prefix cs ds" by (intro Utf32_prefix_boundary) (simp_all add: starts_with_def)
  then obtain es where "ds = cs @ es" by (auto simp: prefix_def)
  with * show ?thesis by simp
qed

text \<open>Looking up a text walks down the trie by characters.\<close>

fun walk :: "'a trie \<Rightarrow> char32 list \<Rightarrow> nat \<times> 'a trie" where
  "walk t [] = (0, t)"
| "walk t (c # cs) =
     (case map_of (trie_map t) c of None \<Rightarrow> (0, t) | Some u \<Rightarrow> (case walk u cs of (k, v) \<Rightarrow> (Suc k, v)))"

lemma walk_le: "fst (walk t cs) \<le> length cs"
  by (induction t cs rule: walk.induct) (auto split: option.splits prod.splits)

lemma walk_again: "fst (walk t cs) \<le> fst (walk t (take (fst (walk t cs)) cs @ ds))"
  by (induction t cs rule: walk.induct) (auto split: option.splits prod.splits)

lemma LookUpPrefix_walk:
  "good_chars cs \<Longrightarrow> LookUpPrefix t (Utf32ToUtf8 cs) =
     (case walk t cs of (k, u) \<Rightarrow>
        (trie_data u, length (Utf32ToUtf8 (take k cs)), trie_data u = None \<or> trie_map u = []))"
proof (induction cs arbitrary: t)
  case (Cons c cs)
  have e: "SplitFirstChar32 (CodepointToUtf8 c @ Utf32ToUtf8 cs) = (True, c, Utf32ToUtf8 cs)"
    using Cons.prems by (simp add: unicode_encodable unicode_scalar)
  have ne: "CodepointToUtf8 c @ Utf32ToUtf8 cs \<noteq> []" using Cons.prems good_char_nonempty by simp
  show ?case
    using Cons.IH Cons.prems by (simp add: LookUpPrefix_step [OF ne e] split: option.split prod.split)
qed (simp add: LookUpPrefix_Nil)

definition normalize_char :: "romaji_table \<Rightarrow> char32 \<Rightarrow> char32" where
  "normalize_char t c = (if case_sensitive t then c else lower32 c)"

lemma map_normalize: "map (normalize_char t) cs = (if case_sensitive t then cs else map lower32 cs)"
  by (induction cs) (simp_all add: normalize_char_def)

lemma TableLookUpPrefix_walk:
  assumes "good_chars cs"
  shows "TableLookUpPrefix t (Utf32ToUtf8 cs) =
     (case walk (table_entries t) (map (normalize_char t) cs) of (k, u) \<Rightarrow>
        (trie_data u, length (Utf32ToUtf8 (take k cs)), trie_data u = None \<or> trie_map u = []))"
proof (cases "case_sensitive t")
  case True
  then have m: "map (normalize_char t) cs = cs" by (simp add: map_normalize)
  show ?thesis
    unfolding m using True assms by (simp add: TableLookUpPrefix_def normalize_key_def LookUpPrefix_walk)
next
  case False
  then have m: "map (normalize_char t) cs = map lower32 cs" by (simp add: map_normalize)
  have l: "LowerString (Utf32ToUtf8 cs) = Utf32ToUtf8 (map lower32 cs)"
    using LowerString_encoded assms by (simp add: good_chars_def)
  show ?thesis
    unfolding m using l False good_chars_lower [OF assms]
    by (simp add: TableLookUpPrefix_def normalize_key_def LookUpPrefix_walk take_map length_Utf32_lower
        split: prod.split)
qed

section \<open>Tables on which typing is safe\<close>

text \<open>
  A pending string is safe where no rule is found that ends strictly inside it. A table is safe
  where every rule consumes something, leaves a safe pending string, and does not rewrite for ever
  (a rank falls from what the rule consumed to what it leaves).
\<close>

definition pending_ok :: "romaji_table \<Rightarrow> bytes \<Rightarrow> bool" where
  "pending_ok t p \<longleftrightarrow> valid_text p \<and>
     (\<forall>s e n fixed. valid_text s \<longrightarrow> TableLookUpPrefix t (p @ s) = (Some e, n, fixed) \<longrightarrow> length p \<le> n)"

definition table_safe :: "romaji_table \<Rightarrow> (bytes \<Rightarrow> nat) \<Rightarrow> bool" where
  "table_safe t rank \<longleftrightarrow>
     (\<forall>key e n fixed. valid_text key \<longrightarrow> TableLookUpPrefix t key = (Some e, n, fixed) \<longrightarrow>
        0 < n \<and> rank (entry_pending e) < rank (take n key) \<and> pending_ok t (entry_pending e))"

lemma pending_ok_Nil: "pending_ok t []"
  by (simp add: pending_ok_def)

lemma pending_ok_walked:
  assumes "valid_text key" "TableLookUpPrefix t key = (r, n, fixed)"
  shows "pending_ok t (take n key) \<and> valid_text (drop n key) \<and> n \<le> length key"
proof -
  from assms(1) obtain cs where cs: "good_chars cs" "key = Utf32ToUtf8 cs" by (auto simp: valid_text_def)
  let ?k = "fst (walk (table_entries t) (map (normalize_char t) cs))"
  have n: "n = length (Utf32ToUtf8 (take ?k cs))"
    using assms(2) unfolding cs(2) TableLookUpPrefix_walk [OF cs(1)] by (auto split: prod.splits)
  have g: "good_chars (take ?k cs)" "good_chars (drop ?k cs)" using good_chars_take_drop [OF cs(1)] by auto
  have key: "key = Utf32ToUtf8 (take ?k cs) @ Utf32ToUtf8 (drop ?k cs)"
    unfolding cs(2) by (metis Utf32ToUtf8_simps(3) append_take_drop_id)
  have t: "take n key = Utf32ToUtf8 (take ?k cs)" "drop n key = Utf32ToUtf8 (drop ?k cs)"
    using n key by simp_all
  have "length (take n key) \<le> m" if s: "valid_text s" "TableLookUpPrefix t (take n key @ s) = (Some e, m, f)" for s e m f
  proof -
    from s(1) obtain ds where ds: "good_chars ds" "s = Utf32ToUtf8 ds" by (auto simp: valid_text_def)
    let ?cs = "take ?k cs @ ds"
    let ?m = "fst (walk (table_entries t) (map (normalize_char t) ?cs))"
    have gc: "good_chars ?cs" using g ds by simp
    have m: "m = length (Utf32ToUtf8 (take ?m ?cs))"
      using s(2) unfolding t(1) ds(2) Utf32ToUtf8_simps(3) [symmetric] TableLookUpPrefix_walk [OF gc]
      by (auto split: prod.splits)
    have "?k \<le> ?m"
      using walk_again [of "table_entries t" "map (normalize_char t) cs" "map (normalize_char t) ds"]
      by (simp add: take_map)
    moreover have "?k \<le> length cs" using walk_le [of "table_entries t" "map (normalize_char t) cs"] by simp
    ultimately have "take ?m ?cs = take ?k cs @ take (?m - ?k) ds" by simp
    then show ?thesis using m t(1) by simp
  qed
  with t g n key show ?thesis by (auto simp: pending_ok_def)
qed

text \<open>The Romaji shape: pending strings of at most one character, shorter than the rule's input.\<close>

definition romaji_shape :: "romaji_table \<Rightarrow> bool" where
  "romaji_shape t \<longleftrightarrow> (\<forall>cs e. data_at (table_entries t) cs = Some e \<longrightarrow>
     (\<exists>ps. good_chars ps \<and> length ps \<le> 1 \<and> entry_pending e = Utf32ToUtf8 ps) \<and>
     (good_chars cs \<longrightarrow> length (entry_pending e) < length (Utf32ToUtf8 cs)))"

lemma walk_data: "data_at t (take (fst (walk t cs)) cs) = trie_data (snd (walk t cs))"
  by (induction t cs rule: walk.induct) (auto simp: data_at_Cons split: option.splits prod.splits)

lemma length_Utf32_normalize: "length (Utf32ToUtf8 (map (normalize_char t) cs)) = length (Utf32ToUtf8 cs)"
  unfolding map_normalize by (simp add: length_Utf32_lower)

lemma good_chars_normalize: "good_chars cs \<Longrightarrow> good_chars (map (normalize_char t) cs)"
  unfolding map_normalize by (simp add: good_chars_lower)

lemma romaji_shape_found:
  assumes "romaji_shape t" "valid_text key" "TableLookUpPrefix t key = (Some e, n, fixed)"
  shows "length (entry_pending e) < n \<and> (\<exists>ps. good_chars ps \<and> length ps \<le> 1 \<and> entry_pending e = Utf32ToUtf8 ps) \<and>
     (\<exists>cs k. good_chars cs \<and> key = Utf32ToUtf8 cs \<and> n = length (Utf32ToUtf8 (take k cs)))"
proof -
  from assms(2) obtain cs where cs: "good_chars cs" "key = Utf32ToUtf8 cs" by (auto simp: valid_text_def)
  let ?cs = "map (normalize_char t) cs"
  let ?w = "walk (table_entries t) ?cs"
  have w: "n = length (Utf32ToUtf8 (take (fst ?w) cs))" "trie_data (snd ?w) = Some e"
    using assms(3) unfolding cs(2) TableLookUpPrefix_walk [OF cs(1)] by (auto split: prod.splits)
  have "data_at (table_entries t) (take (fst ?w) ?cs) = Some e" using walk_data [of "table_entries t" ?cs] w(2) by simp
  moreover have "good_chars (take (fst ?w) ?cs)" using good_chars_normalize [OF cs(1)] good_chars_take_drop by blast
  moreover have "length (Utf32ToUtf8 (take (fst ?w) ?cs)) = n"
    using w(1) by (simp add: take_map length_Utf32_normalize)
  ultimately show ?thesis using assms(1) cs w(1) unfolding romaji_shape_def by blast
qed

lemma romaji_shape_safe:
  assumes "romaji_shape t"
  shows "table_safe t length"
proof -
  have ok: "pending_ok t (Utf32ToUtf8 ps)" if ps: "good_chars ps" "length ps \<le> 1" for ps
  proof (cases ps)
    case Nil
    then show ?thesis by (simp add: pending_ok_Nil)
  next
    case (Cons p ps')
    with ps have p: "ps = [p]" by simp
    have "length (Utf32ToUtf8 ps) \<le> n"
      if s: "valid_text s" "TableLookUpPrefix t (Utf32ToUtf8 ps @ s) = (Some e, n, fixed)" for s e n fixed
    proof -
      have v: "valid_text (Utf32ToUtf8 ps @ s)" using ps s(1) by (simp add: valid_text_append)
      from romaji_shape_found [OF assms v s(2)] obtain cs k where f: "length (entry_pending e) < n" "good_chars cs"
        "Utf32ToUtf8 ps @ s = Utf32ToUtf8 cs" "n = length (Utf32ToUtf8 (take k cs))" by blast
      have "prefix ps cs" using Utf32_prefix_boundary [OF ps(1) f(2)] f(3) by (metis prefixI)
      then obtain cs' where cs: "cs = p # cs'" using p by (auto simp: prefix_def)
      from f(1,4) have "0 < k" by (cases k) auto
      then show ?thesis using f(4) cs p by (cases k) simp_all
    qed
    with ps show ?thesis by (auto simp: pending_ok_def)
  qed
  show ?thesis
    unfolding table_safe_def
  proof (intro allI impI)
    fix key e n fixed assume k: "valid_text key" "TableLookUpPrefix t key = (Some e, n, fixed)"
    from romaji_shape_found [OF assms k] ok have "length (entry_pending e) < n" "pending_ok t (entry_pending e)" by auto
    moreover have "n \<le> length key" using TableLookUpPrefix_length [OF k(2)] .
    ultimately show "0 < n \<and> length (entry_pending e) < length (take n key) \<and> pending_ok t (entry_pending e)" by simp
  qed
qed

section \<open>Trimming and cutting texts\<close>

lemma CodepointToUtf8_high:
  assumes "unicode c" "0x80 \<le> c" "b \<in> set (CodepointToUtf8 c)"
  shows "\<not> b < 0x80"
proof -
  obtain l n where e: "CodepointToUtf8 c = l # payload n c" "OneCharLen l = Suc n" "\<not> IsUtf8TrailingByte l"
    using assms(1) by (rule unicode_leading)
  have "length (CodepointToUtf8 c) \<noteq> 1"
    using assms(1,2) by (auto simp: length_CodepointToUtf8_range unicode_def linorder_not_less [symmetric])
  with e(1) have "n \<noteq> 0" by auto
  with e(2) have "\<not> l < 0x80" by (auto simp: OneCharLen_range word_less_nat_alt split: if_splits)
  moreover have "\<not> x < 0x80" if "x \<in> set (payload n c)" for x
    using payload_trailing [of n c] that by (auto simp: list_all_iff IsUtf8TrailingByte_range word_less_nat_alt)
  ultimately show ?thesis using assms(3) e(1) by auto
qed

lemma ascii_boundary:
  "good_chars cs \<Longrightarrow> Utf32ToUtf8 cs = xs @ b # ys \<Longrightarrow> b < 0x80 \<Longrightarrow> valid_text ys"
proof (induction cs arbitrary: xs)
  case (Cons c cs)
  have u: "unicode c" using Cons.prems(1) by (simp add: unicode_scalar)
  show ?case
  proof (cases "length xs < length (CodepointToUtf8 c)")
    case True
    with Cons.prems(2) have b: "b \<in> set (CodepointToUtf8 c)"
      by (metis Utf32ToUtf8_simps(2) nth_append nth_append_length nth_mem)
    with CodepointToUtf8_high [OF u] Cons.prems(3) have c: "c < 0x80" by fastforce
    then have "CodepointToUtf8 c = [ucast c]" using u by (simp add: CodepointToUtf8_payload unicode_def)
    with True Cons.prems(2) have "Utf32ToUtf8 cs = ys" by simp
    with Cons.prems(1) show ?thesis using valid_text_Utf32 [of cs] by simp
  next
    case False
    with Cons.prems(2) obtain xs' where "xs = CodepointToUtf8 c @ xs'"
      by (metis Utf32ToUtf8_simps(2) append_eq_append_conv_if append_take_drop_id not_less)
    with Cons show ?thesis by simp
  qed
qed simp

lemma valid_text_Trim:
  assumes "valid_text s"
  shows "valid_text (TrimLeadingSpecialKey s)"
proof -
  from assms obtain cs where cs: "good_chars cs" "s = Utf32ToUtf8 cs" by (auto simp: valid_text_def)
  have close: "valid_text (drop (Suc j) s)" if "find_byte_from kSpecialKeyClose s 1 = Some j" for j
  proof -
    from find_byte_from_Some [OF that] have "s = take j s @ kSpecialKeyClose # drop (Suc j) s"
      by (metis id_take_nth_drop)
    with cs(2) have "Utf32ToUtf8 cs = take j s @ kSpecialKeyClose # drop (Suc j) s" by simp
    from ascii_boundary [OF cs(1) this] show ?thesis by (simp add: kSpecialKeyClose_def)
  qed
  have rest: "valid_text (drop (length s - length r) s)" if "SplitFirstChar32 s = (ok, c, r)" for ok c r
  proof (cases cs)
    case Nil
    with cs show ?thesis by simp
  next
    case (Cons d cs')
    have "SplitFirstChar32 s = (True, d, Utf32ToUtf8 cs')"
      using cs Cons by (simp add: unicode_encodable unicode_scalar)
    with that have "r = Utf32ToUtf8 cs'" by simp
    moreover have "drop (length s - length (Utf32ToUtf8 cs')) s = Utf32ToUtf8 cs'" using cs Cons by simp
    ultimately show ?thesis using cs Cons by simp
  qed
  obtain ok c r where sp: "SplitFirstChar32 s = (ok, c, r)" by (cases "SplitFirstChar32 s")
  show ?thesis
  proof (cases "find_byte_from kSpecialKeyClose s 1")
    case None
    with assms rest [OF sp] show ?thesis by (simp add: TrimLeadingSpecialKey_def sp)
  next
    case (Some j)
    with assms rest [OF sp] close [OF Some] show ?thesis by (simp add: TrimLeadingSpecialKey_def sp)
  qed
qed

lemma FrontChar_text:
  assumes "valid_text s" "s \<noteq> []"
  shows "valid_text (snd (FrontChar s)) \<and> valid_text (fst (FrontChar s)) \<and> fst (FrontChar s) \<noteq> []"
proof -
  from assms(1) obtain ds where ds: "good_chars ds" "s = Utf32ToUtf8 ds" by (auto simp: valid_text_def)
  with assms(2) obtain c cs where cs: "good_chars (c # cs)" "s = Utf32ToUtf8 (c # cs)" by (cases ds) auto
  have "unicode c" using cs(1) by (simp add: unicode_scalar)
  then obtain l n where e: "CodepointToUtf8 c = l # payload n c" "OneCharLen l = Suc n" by (rule unicode_leading)
  then have f: "FrontChar s = (CodepointToUtf8 c, Utf32ToUtf8 cs)" using cs(2) by (simp add: FrontChar_def)
  have "valid_text (CodepointToUtf8 c)" using valid_text_Utf32 [of "[c]"] cs(1) by simp
  with f cs(1) e show ?thesis by simp
qed

section \<open>Typing never throws and always returns\<close>

definition chunk_text :: "composer_env \<Rightarrow> char_chunk \<Rightarrow> bool" where
  "chunk_text env c \<longleftrightarrow> valid_text (raw c) \<and> valid_text (saved_raw c) \<and>
     pending_ok (table_at env (chunk_table c)) (pending c)"

lemma pending_ok_valid: "pending_ok t p \<Longrightarrow> valid_text p"
  by (simp add: pending_ok_def)

lemma AddInputInternal_safe:
  assumes safe: "table_safe (table_at env (chunk_table c)) rank" and c: "chunk_text env c" and inp: "valid_text input"
  shows "\<exists>loop rest c'. AddInputInternal env c input = Inr (loop, rest, c') \<and> chunk_text env c' \<and>
     valid_text rest \<and> chunk_table c' = chunk_table c \<and>
     (loop \<longrightarrow> length rest < length input \<or> rest = input \<and> rank (pending c') < rank (pending c))"
proof -
  let ?t = "table_at env (chunk_table c)"
  have p: "valid_text (pending c)" and raw: "valid_text (raw c)" and saved: "valid_text (saved_raw c)"
    using c pending_ok_valid by (auto simp: chunk_text_def)
  have key: "valid_text (pending c @ input)" using p inp by (rule valid_text_append)
  obtain r n fixed where l: "TableLookUpPrefix ?t (pending c @ input) = (r, n, fixed)"
    by (cases "TableLookUpPrefix ?t (pending c @ input)")
  note w = pending_ok_walked [OF key l]
  have le: "length (pending c) \<le> n" if "r \<noteq> None"
    using that l inp c unfolding chunk_text_def pending_ok_def by auto
  obtain loop rest c' where i: "AddInputInternal env c input = Inr (loop, rest, c')"
  proof -
    have "AddInputInternal env c input \<noteq> Inl err" for err
      using l le by (auto simp: AddInputInternal_def Let_def split: option.splits if_splits prod.splits)
    then show ?thesis using that by (cases "AddInputInternal env c input") auto
  qed
  have cut: "valid_text (take (n - length (pending c)) input)" "valid_text (drop (n - length (pending c)) input)"
    if "length (pending c) \<le> n"
  proof -
    have "take n (pending c @ input) = pending c @ take (n - length (pending c)) input"
      "drop n (pending c @ input) = drop (n - length (pending c)) input" using that by simp_all
    with w show "valid_text (drop (n - length (pending c)) input)" by simp
    have "valid_text (pending c @ take (n - length (pending c)) input)"
      using w that pending_ok_valid by fastforce
    from valid_text_drop [OF p this] show "valid_text (take (n - length (pending c)) input)"
      by (simp add: starts_with_def)
  qed
  have "chunk_text env c' \<and> valid_text rest \<and> chunk_table c' = chunk_table c \<and>
     (loop \<longrightarrow> length rest < length input \<or> rest = input \<and> rank (pending c') < rank (pending c))"
    using i
  proof (cases rule: AddInputInternal_cases)
    case restore
    have "valid_text (drop (length (saved_raw c)) (raw c))"
      using restore(1) saved raw by (intro valid_text_drop) (simp_all add: HasFallback_def)
    with restore saved inp show ?thesis
      by (auto simp: chunk_text_def pending_ok_Nil intro: valid_text_append)
  next
    case trim
    with c inp show ?thesis by (simp add: chunk_text_def valid_text_Trim)
  next
    case front
    show ?thesis
    proof (cases "input = []")
      case True
      with front c show ?thesis by (simp add: chunk_text_def FrontChar_def)
    next
      case False
      from FrontChar_text [OF inp False] front c show ?thesis
        by (simp add: chunk_text_def valid_text_append)
    qed
  next
    case none
    with c inp show ?thesis by (simp add: chunk_text_def)
  next
    case (prefix m f)
    with l have m: "n = m" by simp
    have "pending_ok ?t (pending c @ take (n - length (pending c)) input)"
      using w prefix(3) m by simp
    with prefix m cut c show ?thesis by (simp add: chunk_text_def valid_text_append)
  next
    case (entry e m f)
    with l have m: "r = Some e" "n = m" "fixed = f" by simp_all
    have e: "0 < n" "rank (entry_pending e) < rank (take n (pending c @ input))" "pending_ok ?t (entry_pending e)"
      using safe key l m(1) unfolding table_safe_def by blast+
    have full: "pending_ok ?t (pending c @ input)" if "\<not> (fixed \<or> n < length (pending c @ input))"
    proof -
      have n: "length (pending c @ input) \<le> n" using that by simp
      have "pending_ok ?t (take n (pending c @ input))" using w by blast
      then show ?thesis unfolding take_all [OF n] .
    qed
    have pend: "pending_ok ?t (pending c')"
      using entry(5) e(3) full m by (auto split: if_splits)
    have rw: "valid_text (raw c')" using entry(4) raw cut(1) [OF entry(2) [folded m(2)]] m(2)
      by (auto intro: valid_text_append)
    have sv: "valid_text (saved_raw c')" using entry(6) rw by auto
    have rest: "valid_text rest" using entry(3) cut(2) [OF entry(2) [folded m(2)]] m(2) by simp
    have "length rest < length input \<or> rest = input \<and> rank (pending c') < rank (pending c)" if loop
    proof (cases "n = length (pending c)")
      case False
      with entry(2) m have "length (pending c) < n" by simp
      moreover have "rest \<noteq> []" using that entry(7) by simp
      ultimately show ?thesis using entry(3) m by auto
    next
      case True
      then have r: "rest = input" using entry(3) m by simp
      moreover have "rest \<noteq> []" using that entry(7) by simp
      ultimately have "n < length (pending c @ input)" using True by simp
      then have "pending c' = entry_pending e" using entry(5) m by simp
      with e(2) True r show ?thesis by simp
    qed
    with pend rw sv rest entry(9) show ?thesis by (simp add: chunk_text_def)
  qed
  with i show ?thesis by blast
qed

lemma AddInput_safe:
  assumes "table_safe (table_at env (chunk_table c)) rank" "chunk_text env c" "valid_text input"
  shows "\<exists>rest c'. AddInput env c input = Some (Inr (rest, c')) \<and> chunk_text env c' \<and> valid_text rest"
  using assms
proof (induction "(length input, rank (pending c))" arbitrary: c input
    rule: wf_induct_rule [OF wf_lex_prod [OF wf_less_than wf_less_than]])
  case 1
  from AddInputInternal_safe [OF "1.prems"(1) "1.prems"(2,3)] obtain loop rest c' where
    i: "AddInputInternal env c input = Inr (loop, rest, c')" "chunk_text env c'" "valid_text rest"
    "chunk_table c' = chunk_table c"
    "loop \<longrightarrow> length rest < length input \<or> rest = input \<and> rank (pending c') < rank (pending c)" by blast
  show ?case
  proof (cases loop)
    case False
    with i have "AddInput env c input = Some (Inr (rest, c'))" by (subst AddInput.simps) simp
    with i show ?thesis by blast
  next
    case True
    with i(5) have "((length rest, rank (pending c')), (length input, rank (pending c))) \<in> less_than <*lex*> less_than"
      by auto
    from "1.hyps" [OF this] "1.prems"(1) i obtain rest' d where
      "AddInput env c' rest = Some (Inr (rest', d))" "chunk_text env d" "valid_text rest'" by auto
    with True i(1) have "AddInput env c input = Some (Inr (rest', d))" by (subst AddInput.simps) simp
    with \<open>chunk_text env d\<close> \<open>valid_text rest'\<close> show ?thesis by blast
  qed
qed

text \<open>A chunk that has typed characters keeps some, or the whole input is used.\<close>

lemma AddInput_keeps_raw:
  "AddInput env c input = Some (Inr (rest, c')) \<Longrightarrow> raw c \<noteq> [] \<Longrightarrow> raw c' \<noteq> [] \<or> rest = []"
proof (induction rule: AddInput_induct)
  case (step c input loop r d)
  have "raw d \<noteq> [] \<or> r = [] \<and> \<not> loop"
    using step(1)
  proof (cases rule: AddInputInternal_cases)
    case restore
    then show ?thesis by (simp add: HasFallback_def)
  next
    case (entry e n f)
    then show ?thesis using step(3) by auto
  qed (use step(3) in simp_all)
  with step(2) show ?case by (cases loop) auto
qed

lemma TableLookUpPrefix_root_data:
  "table_safe t rank \<Longrightarrow> valid_text key \<Longrightarrow> TableLookUpPrefix t key = (r, 0, fixed) \<Longrightarrow> r = None"
  by (cases r) (auto simp: table_safe_def)

text \<open>
  Progress: on a safe table an empty chunk leaves less of the input than it was given. The first
  step either drops a special key, or takes a character, or takes what a rule uses.
\<close>

lemma AddInput_progress:
  assumes safe: "table_safe (table_at env (chunk_table c)) rank" and inp: "valid_text input" "input \<noteq> []"
    and empty: "raw c = []" "pending c = []" "saved_raw c = []"
    and add: "AddInput env c input = Some (Inr (rest, c'))"
  shows "length rest < length input"
proof -
  have ct: "chunk_text env c" using empty by (simp add: chunk_text_def pending_ok_Nil)
  from AddInputInternal_safe [OF safe ct inp(1)] obtain loop r d where
    i: "AddInputInternal env c input = Inr (loop, r, d)" by blast
  have step: "if loop then AddInput env d r = Some (Inr (rest, c')) else rest = r \<and> c' = d"
    using add i by (subst (asm) AddInput.simps) (auto split: if_splits)
  show ?thesis
    using i
  proof (cases rule: AddInputInternal_cases)
    case restore
    then show ?thesis using empty by (simp add: HasFallback_def)
  next
    case trim
    with step have "length rest \<le> length (raw d) + length r" using AddInput_length [of env d r rest c'] by simp
    with trim empty show ?thesis by simp
  next
    case front
    with step have "rest = snd (FrontChar input)" by simp
    with FrontChar_text [OF inp] FrontChar_split [of input] show ?thesis
      by (metis add_less_same_cancel2 length_append length_greater_0_conv not_less_iff_gr_or_eq less_add_same_cancel2)
  next
    case none
    with empty show ?thesis by simp
  next
    case (prefix n f)
    with step have "rest = drop n input" using empty by simp
    with prefix(3) inp(2) show ?thesis by simp
  next
    case (entry e n f)
    have n: "0 < n" using TableLookUpPrefix_root_data [OF safe, of input] entry(1) inp(1) empty
      by (cases n) auto
    show ?thesis
    proof (cases loop)
      case False
      with step entry(3) n inp(2) empty show ?thesis by simp
    next
      case True
      with step have again: "AddInput env d r = Some (Inr (rest, c'))" by simp
      have d: "raw d = take n input" "r = drop n input" using entry(3,4,7) empty True by auto
      with n inp(2) have "raw d \<noteq> []" by simp
      from AddInput_keeps_raw [OF again this] show ?thesis
      proof
        assume "raw c' \<noteq> []"
        moreover have "length (raw c') + length rest \<le> length input"
          using AddInput_length [OF again] d by simp
        ultimately show ?thesis by (cases "raw c'") simp_all
      qed (use inp(2) in simp)
    qed
  qed
qed

section \<open>Reachable chunks\<close>

text \<open>The chunks the composition can make: every operation of a chunk, in any order.\<close>

inductive chunk_reach :: "composer_env \<Rightarrow> char_chunk \<Rightarrow> bool" for env :: composer_env where
  new: "chunk_reach env (NewCharChunk t table)"
| cleared: "chunk_reach env c \<Longrightarrow> chunk_reach env (ClearChunk c)"
| measured: "chunk_reach env c \<Longrightarrow> chunk_reach env (snd (GetLength env t c))"
| added: "chunk_reach env c \<Longrightarrow> AddCompositionInput env c ci = Some (Inr (ci', c')) \<Longrightarrow> chunk_reach env c'"
| combined: "chunk_reach env c \<Longrightarrow> chunk_reach env left \<Longrightarrow> chunk_reach env (Combine c left)"
| transliterated: "chunk_reach env c \<Longrightarrow> chunk_reach env (ChunkSetTransliterator t c)"
| split_left: "chunk_reach env c \<Longrightarrow> SplitChunk env c t n = Some (Some l, r) \<Longrightarrow> chunk_reach env l"
| split_right: "chunk_reach env c \<Longrightarrow> SplitChunk env c t n = Some (lo, r) \<Longrightarrow> chunk_reach env r"

lemma SplitChunk_cache:
  assumes "SplitChunk env c t n = Some (lo, r)" "length_cache_ok env c"
  shows "length_cache_ok env r \<and> (\<forall>l. lo = Some l \<longrightarrow> length_cache_ok env l)"
proof (cases "n = 0 \<or> fst (GetLength env t c) \<le> n")
  case True
  then show ?thesis
    using assms GetLength_cached [of env c t "fst (GetLength env t c)" "snd (GetLength env t c)"]
    by (auto simp: SplitChunk_def split: if_splits)
next
  case False
  with assms(1) have "local_length_cache r = npos \<and> (\<forall>l. lo = Some l \<longrightarrow> local_length_cache l = npos)"
    by (auto simp: SplitChunk_def Let_def NewCharChunk_def split: option.splits if_splits)
  then show ?thesis by auto
qed

lemma chunk_reach_cache: "chunk_reach env c \<Longrightarrow> length_cache_ok env c"
proof (induction rule: chunk_reach.induct)
  case (measured c t)
  then show ?case using GetLength_cached [of env c t "fst (GetLength env t c)" "snd (GetLength env t c)"] by simp
next
  case (added c ci ci' c')
  then show ?case using AddCompositionInput_keeps by simp
next
  case (transliterated c t)
  then show ?case by (simp add: ChunkSetTransliterator_def)
next
  case (split_left c t n l r)
  then show ?case using SplitChunk_cache by blast
next
  case (split_right c t n lo r)
  then show ?case using SplitChunk_cache by blast
qed (simp_all add: NewCharChunk_def ClearChunk_def Combine_def)

section \<open>What typing keeps of the characters\<close>

lemma AddInput_subseq:
  "AddInput env c input = Some (Inr (rest, c')) \<Longrightarrow> subseq (raw c' @ rest) (raw c @ input)"
proof (induction rule: AddInput_induct)
  case (step c input loop r d)
  have "subseq (raw d @ r) (raw c @ input)"
    using AddInputInternal_raw [OF step(1)]
  proof (elim disjE conjE)
    assume "r = TrimLeadingSpecialKey input" "raw d = raw c"
    moreover have "\<exists>n. TrimLeadingSpecialKey input = drop n input"
    proof -
      have "\<exists>n. input = drop n input" by (intro exI [of _ 0]) simp
      then show ?thesis by (auto simp: TrimLeadingSpecialKey_def split: prod.split option.split)
    qed
    ultimately show ?thesis by (auto simp: subseq_append' intro: suffix_imp_subseq suffix_drop)
  qed simp_all
  with step(2) show ?case by (cases loop) (auto intro: subseq_order.order_trans)
qed

definition plain_bytes :: "bytes \<Rightarrow> bool" where
  "plain_bytes s \<longleftrightarrow> list_all (\<lambda>b. b < 0x80 \<and> b \<noteq> kSpecialKeyOpen) s"

lemma ucast_byte: "unat (ucast (a :: byte) :: char32) = unat a"
proof -
  have "unat a < 2 ^ LENGTH(8)" by (rule unsigned_less)
  then have "unat a < 2 ^ 32" by simp
  then have "take_bit 32 (unat a) = unat a" by (rule take_bit_nat_eq_self)
  then show ?thesis by (simp add: unsigned_ucast_eq)
qed

lemma Trim_plain: "plain_bytes s \<Longrightarrow> TrimLeadingSpecialKey s = s"
  by (cases s) (auto simp: TrimLeadingSpecialKey_def plain_bytes_def SplitFirstChar32_def IsSpecialKey_def
      starts_with_def kSpecialKeyBegin_def word_less_nat_alt word_le_nat_alt ucast_byte split: prod.split)

lemma AddInput_plain:
  "AddInput env c input = Some (Inr (rest, c')) \<Longrightarrow> plain_bytes input \<Longrightarrow>
     raw c' @ rest = raw c @ input \<or>
     rest = [] \<and> raw c' = [] \<and> conversion c' = [] \<and> pending c' = [] \<and>
       has_attribute (attributes c') NO_TRANSLITERATION"
proof (induction rule: AddInput_induct)
  case (step c input loop r d)
  have one: "raw d @ r = raw c @ input \<or> \<not> loop \<and> r = [] \<and> raw d = [] \<and> conversion d = [] \<and> pending d = [] \<and>
       has_attribute (attributes d) NO_TRANSLITERATION"
    using AddInputInternal_raw [OF step(1)] Trim_plain [OF step(3)] by auto
  show ?case
  proof (cases loop)
    case False
    with one step(2) show ?thesis by auto
  next
    case True
    have "plain_bytes r"
      using step(1)
    proof (cases rule: AddInputInternal_cases)
      case (entry e n f)
      then show ?thesis using step(3) by (auto simp: plain_bytes_def list_all_iff dest: in_set_dropD)
    qed (use True Trim_plain [OF step(3)] in simp_all)
    with True step(2) one show ?thesis by auto
  qed
qed

section \<open>Two small tables\<close>

lemma FindSubTrie_byte:
  "b < 0x80 \<Longrightarrow> FindSubTrie t (b # bs) = (map_of (trie_map t) (ucast b), ucast b, bs)"
  by (simp add: FindSubTrie_def SplitFirstChar32_def split: option.split)

lemma AddEntry_byte:
  "b < 0x80 \<Longrightarrow> AddEntry t (b # bs) e =
     Trie (AList.update (ucast b)
       (AddEntry (case map_of (trie_map t) (ucast b) of None \<Rightarrow> empty_trie | Some s \<Rightarrow> s) bs e) (trie_map t))
     (trie_data t)"
  by (simp add: AddEntry.simps [of _ "b # bs"] FindSubTrie_byte)

lemma AddEntry_end: "AddEntry t [] e = Trie (trie_map t) (Some e)"
  by (simp add: AddEntry.simps [of _ "[]"])

lemma LookUpPrefix_byte:
  "b < 0x80 \<Longrightarrow> LookUpPrefix t (b # bs) =
     (case map_of (trie_map t) (ucast b) of
        None \<Rightarrow> (trie_data t, 0, trie_data t = None \<or> trie_map t = [])
      | Some u \<Rightarrow> (case LookUpPrefix u bs of (d, n, f) \<Rightarrow> (d, Suc n, f)))"
  by (simp add: LookUpPrefix.simps [of _ "b # bs"] FindSubTrie_byte split: option.split prod.split)

definition plain_entry :: "bytes \<Rightarrow> bytes \<Rightarrow> bytes \<Rightarrow> table_entry" where
  "plain_entry i r p = \<lparr>entry_input = i, entry_result = r, entry_pending = p, entry_attributes = NO_TABLE_ATTRIBUTE\<rparr>"

lemma plain_entry_simps [simp]:
  "entry_input (plain_entry i r p) = i" "entry_result (plain_entry i r p) = r"
  "entry_pending (plain_entry i r p) = p" "entry_attributes (plain_entry i r p) = NO_TABLE_ATTRIBUTE"
  by (simp_all add: plain_entry_def)

lemma Register_plain: "FindBlock s 0x7B 0x7D = None \<Longrightarrow> Register m s = (s, m)"
  by (simp add: Register_def ParseBlock_plain)

definition trie_table :: "table_entry trie \<Rightarrow> romaji_table" where
  "trie_table t = NewTable\<lparr>table_entries := t\<rparr>"

lemma trie_table_NewTable: "NewTable = trie_table empty_trie"
  by (simp add: trie_table_def NewTable_def Let_def)

lemma LowerString_plain: "list_all (\<lambda>b. b < 0x80 \<and> \<not> ascii_isupper b) s \<Longrightarrow> LowerString s = s"
  by (subst LowerString_ascii) (auto simp: list_all_iff map_idI)

lemma trie_table_LookUpPrefix:
  "list_all (\<lambda>b. b < 0x80 \<and> \<not> ascii_isupper b) s \<Longrightarrow> TableLookUpPrefix (trie_table t) s = LookUpPrefix t s"
  by (simp add: TableLookUpPrefix_def normalize_key_def LowerString_plain)
    (simp add: trie_table_def)

lemma trie_table_entries [simp]: "table_entries (trie_table t) = t"
  by (simp add: trie_table_def)

lemma trie_table_update:
  "(trie_table t)\<lparr>table_special_keys := table_special_keys (trie_table t)\<rparr> = trie_table t"
  "(trie_table t)\<lparr>table_entries := u\<rparr> = trie_table u" "case_sensitive (trie_table t) = False"
  "(trie_table t)\<lparr>table_special_keys := table_special_keys (trie_table t), table_entries := u\<rparr> = trie_table u"
  by (simp_all add: trie_table_def NewTable_def Let_def)

text \<open>Adding a rule without special keys to a table in which nothing can be rewritten.\<close>

lemma AddRule_trie:
  assumes "FindBlock i 0x7B 0x7D = None" "FindBlock p 0x7B 0x7D = None" "length i < 300" "length r < 1024" "length p < 300"
    and "IsLoopingEntry (trie_table t) i p = Some False" "\<not> has_capital (DeleteSpecialKeys i)"
  shows "AddRule (trie_table t) i r p =
     Some (Some (plain_entry i r p), trie_table (AddEntry t i (plain_entry i r p)))"
  using assms
  by (simp add: AddRule_def AddRuleWithAttributes_def AddRuleBase_def Register_plain Let_def trie_table_update
      NO_TABLE_ATTRIBUTE_def plain_entry_def)

lemma has_capital_byte: "b < 0x80 \<Longrightarrow> b \<noteq> kSpecialKeyOpen \<Longrightarrow> \<not> (0x41 \<le> b \<and> b \<le> 0x5A) \<Longrightarrow> \<not> has_capital (DeleteSpecialKeys [b])"
  using ucast_byte [of b]
  by (auto simp: has_capital_def DeleteSpecialKeys_def DeleteBlocks.simps [of "[b]"] DeleteBlocks.simps [of "[]"]
      FindBlock_def Utf8ToUtf32.simps [of "[b]"] Utf8ToUtf32.simps [of "[]"] SplitFirstChar32_def IsSpecialKey_def
      kSpecialKeyBegin_def word_le_nat_alt word_less_nat_alt Let_def)

text \<open>A table may hold a rule that ends inside a pending string: with the accepted rules
  "a" to pending "bc" and "b" to "X", typing "a" and then "d" makes the used length smaller than the
  pending string, the difference wraps around and the substring operation throws.\<close>
theorem shortened_pending_throws:
  "\<exists>e1 e2 t1 t2 c.
     AddRule NewTable [0x61] [] [0x62, 0x63] = Some (Some e1, t1) \<and>
     AddRule t1 [0x62] [0x58] [] = Some (Some e2, t2) \<and>
     AddInput (env\<lparr>table_at := \<lambda>_. t2\<rparr>) (NewCharChunk CONVERSION_STRING 0) [0x61] = Some (Inr ([], c)) \<and>
     AddInput (env\<lparr>table_at := \<lambda>_. t2\<rparr>) c [0x64] = Some (Inl OutOfRange)"
proof -
  let ?e1 = "plain_entry [0x61] [] [0x62, 0x63]" and ?e2 = "plain_entry [0x62] [0x58] []"
  let ?u1 = "Trie [(0x61, Trie [] (Some ?e1))] None"
  let ?u2 = "Trie [(0x61, Trie [] (Some ?e1)), (0x62, Trie [] (Some ?e2))] None"
  let ?env = "env\<lparr>table_at := \<lambda>_. trie_table ?u2\<rparr>"
  have l1: "TableLookUpPrefix (trie_table empty_trie) [0x62, 0x63] = (None, 0, True)"
    by (simp add: trie_table_LookUpPrefix ascii_isupper_def LookUpPrefix_byte)
  have "IsLoopingEntry (trie_table empty_trie) [0x61] [0x62, 0x63] = Some False"
    by (simp add: IsLoopingEntry_def IsLoopingLoop_step rewrite_step_def l1 starts_with_def)
  then have a1: "AddRule NewTable [0x61] [] [0x62, 0x63] = Some (Some ?e1, trie_table ?u1)"
    unfolding trie_table_NewTable
    by (simp add: AddRule_trie FindBlock_def has_capital_byte kSpecialKeyOpen_def AddEntry_byte AddEntry_end)
  have a2: "AddRule (trie_table ?u1) [0x62] [0x58] [] = Some (Some ?e2, trie_table ?u2)"
    by (simp add: AddRule_trie IsLoopingEntry_def FindBlock_def has_capital_byte kSpecialKeyOpen_def AddEntry_byte AddEntry_end)
  have l: "TableLookUpPrefix (trie_table ?u2) [0x61] = (Some ?e1, 1, True)"
    "TableLookUpPrefix (trie_table ?u2) [0x62, 0x63, 0x64] = (Some ?e2, 1, True)"
    by (simp_all add: trie_table_LookUpPrefix ascii_isupper_def LookUpPrefix_byte LookUpPrefix_leaf)
  let ?c = "(NewCharChunk CONVERSION_STRING 0)\<lparr>raw := [0x61], pending := [0x62, 0x63]\<rparr>"
  have "AddInput ?env (NewCharChunk CONVERSION_STRING 0) [0x61] = Some (Inr ([], ?c))"
    by (subst AddInput.simps)
      (simp add: AddInputInternal_def NewCharChunk_def l ApplyEntry_def EntryOutcome_def ClearFallback_def Let_def
        has_attribute_def NO_TABLE_ATTRIBUTE_def)
  moreover have "AddInput ?env ?c [0x64] = Some (Inl OutOfRange)"
    by (subst AddInput.simps) (simp add: AddInputInternal_def NewCharChunk_def l Let_def)
  ultimately show ?thesis using a1 a2 by blast
qed

lemma AddInput_diverges:
  assumes "\<And>c. P c \<Longrightarrow> \<exists>d. AddInputInternal env c input = Inr (True, input, d) \<and> P d" "P c"
  shows "AddInput env c input = None"
proof (rule ccontr)
  assume "AddInput env c input \<noteq> None"
  then obtain r where "AddInput env c input = Some r" by auto
  moreover have "AddInput env' c s = Some r \<Longrightarrow> \<not> (env' = env \<and> s = input \<and> P c)" for env' c s r
  proof (induction rule: AddInput.raw_induct [rotated, consumes 1, case_names step,
      where P = "\<lambda>env' c s r. \<not> (env' = env \<and> s = input \<and> P c)"])
    case (step AddInput env' c s r)
    then show ?case using assms(1) [of c] by (auto split: sum.splits)
  qed
  ultimately show False using assms(2) by blast
qed

text \<open>The check for looping rules compares bytes, but a case-insensitive table looks up lowered
  keys: the accepted rule "b" to pending "B" makes AddInput loop for ever on the key after "b".\<close>
theorem uppercase_pending_hangs:
  "\<exists>e t c. AddRule NewTable [0x62] [] [0x42] = Some (Some e, t) \<and>
     AddInput (env\<lparr>table_at := \<lambda>_. t\<rparr>) (NewCharChunk CONVERSION_STRING 0) [0x62] = Some (Inr ([], c)) \<and>
     AddInput (env\<lparr>table_at := \<lambda>_. t\<rparr>) c [0x78] = None"
proof -
  let ?e = "plain_entry [0x62] [] [0x42]"
  let ?u = "Trie [(0x62, Trie [] (Some ?e))] None"
  let ?env = "env\<lparr>table_at := \<lambda>_. trie_table ?u\<rparr>"
  have lower: "LowerString [0x42] = [0x62]" "LowerString [0x42, 0x78] = [0x62, 0x78]"
    by (simp_all add: LowerString_ascii ascii_isupper_def)
  have "TableLookUpPrefix (trie_table empty_trie) [0x42] = (None, 0, True)"
    by (simp add: TableLookUpPrefix_def normalize_key_def trie_table_update lower LookUpPrefix_byte)
  then have "IsLoopingEntry (trie_table empty_trie) [0x62] [0x42] = Some False"
    by (simp add: IsLoopingEntry_def IsLoopingLoop_step rewrite_step_def starts_with_def)
  then have a: "AddRule NewTable [0x62] [] [0x42] = Some (Some ?e, trie_table ?u)"
    unfolding trie_table_NewTable
    by (simp add: AddRule_trie FindBlock_def has_capital_byte kSpecialKeyOpen_def AddEntry_byte AddEntry_end)
  have l: "TableLookUpPrefix (trie_table ?u) [0x62] = (Some ?e, 1, True)"
    "TableLookUpPrefix (trie_table ?u) [0x42, 0x78] = (Some ?e, 1, True)"
    by (simp_all add: trie_table_LookUpPrefix ascii_isupper_def TableLookUpPrefix_def normalize_key_def
        trie_table_update lower LookUpPrefix_byte LookUpPrefix_leaf LowerString_plain)
  let ?c = "(NewCharChunk CONVERSION_STRING 0)\<lparr>raw := [0x62], pending := [0x42]\<rparr>"
  have "AddInput ?env (NewCharChunk CONVERSION_STRING 0) [0x62] = Some (Inr ([], ?c))"
    by (subst AddInput.simps)
      (simp add: AddInputInternal_def NewCharChunk_def l ApplyEntry_def EntryOutcome_def ClearFallback_def Let_def
        has_attribute_def NO_TABLE_ATTRIBUTE_def)
  moreover have "AddInput ?env ?c [0x78] = None"
  proof (rule AddInput_diverges [where P = "\<lambda>c. pending c = [0x42]"])
    fix c :: char_chunk assume "pending c = [0x42]"
    then show "\<exists>d. AddInputInternal ?env c [0x78] = Inr (True, [0x78], d) \<and> pending d = [0x42]"
      by (simp add: AddInputInternal_def l ApplyEntry_def EntryOutcome_def Let_def)
  qed simp
  ultimately show ?thesis using a by blast
qed

lemma data_at_leaf: "data_at (Trie [] (Some e)) cs = (if cs = [] then Some e else None)"
  by (cases cs) (simp_all add: data_at_Cons)

text \<open>The rules for "ka" and "kk" of the usual table.\<close>

definition ka_entry :: table_entry where "ka_entry = plain_entry [0x6B, 0x61] [0xE3, 0x81, 0x8B] []"
definition kk_entry :: table_entry where "kk_entry = plain_entry [0x6B, 0x6B] [0xE3, 0x81, 0xA3] [0x6B]"

definition ka_table :: romaji_table where
  "ka_table = trie_table (Trie [(0x6B, Trie [(0x61, Trie [] (Some ka_entry)), (0x6B, Trie [] (Some kk_entry))] None)] None)"

lemma CodepointToUtf8_ascii: "c < 0x80 \<Longrightarrow> c \<noteq> 0 \<Longrightarrow> CodepointToUtf8 c = [ucast c]"
  by (simp add: CodepointToUtf8_payload unicode_def)

lemma ka_table_shape: "romaji_shape ka_table"
proof -
  have k: "CodepointToUtf8 0x6B = [0x6B]" "CodepointToUtf8 0x61 = [0x61]"
    by (simp_all add: CodepointToUtf8_def)
  have "data_at (table_entries ka_table) cs = Some e \<Longrightarrow>
      cs = [0x6B, 0x61] \<and> e = ka_entry \<or> cs = [0x6B, 0x6B] \<and> e = kk_entry" for cs e
    by (cases cs; cases "List.tl cs")
      (auto simp: ka_table_def data_at_Cons data_at_leaf split: if_splits)
  moreover have "\<exists>ps. good_chars ps \<and> length ps \<le> 1 \<and> [] = Utf32ToUtf8 ps" by (rule exI [of _ "[]"]) simp
  moreover have "\<exists>ps. good_chars ps \<and> length ps \<le> 1 \<and> [0x6B] = Utf32ToUtf8 ps"
    by (rule exI [of _ "[0x6B]"]) (simp add: k scalar_def)
  ultimately show ?thesis
    unfolding romaji_shape_def by (fastforce simp: ka_entry_def kk_entry_def k)
qed

text \<open>An environment with one table, whose character conversions do nothing.\<close>

definition identity_env :: "romaji_table \<Rightarrow> composer_env" where
  "identity_env t =
     \<lparr>table_at = \<lambda>_. t, HalfWidthToFullWidth = \<lambda>s. s, FullWidthToHalfWidth = \<lambda>s. s,
      HiraganaToKatakana = \<lambda>s. s, KatakanaToHiragana = \<lambda>s. s,
      HalfWidthKatakanaToFullWidthKatakana = \<lambda>s. s, FullWidthAsciiToHalfWidthAscii = \<lambda>s. s,
      HalfWidthAsciiToFullWidthAscii = \<lambda>s. s, ConvertPreeditString = \<lambda>s. s\<rparr>"

lemma identity_env_table [simp]: "table_at (identity_env t) n = t"
  by (simp add: identity_env_def)

section \<open>Properties\<close>

text \<open>C30: On a safe table (every rule consumes something, its pending string has no rule ending inside
  it, and rewriting ranks fall) typing any valid text into a chunk returns, never throws the
  out-of-range exception, and leaves a chunk and a rest that are valid text again.\<close>
theorem typing_returns:
  assumes "table_safe (table_at env (chunk_table c)) rank" "chunk_text env c" "valid_text input"
  shows "\<exists>rest c'. AddInput env c input = Some (Inr (rest, c')) \<and> chunk_text env c' \<and> valid_text rest"
  using assms by (rule AddInput_safe)

theorem typing_returns_witness:
  "\<exists>rest c'. AddInput (identity_env ka_table) (NewCharChunk CONVERSION_STRING 0) [0x6B, 0x6B, 0x61]
     = Some (Inr (rest, c')) \<and> chunk_text (identity_env ka_table) c' \<and> valid_text rest"
proof (rule typing_returns)
  show "table_safe (table_at (identity_env ka_table) (chunk_table (NewCharChunk CONVERSION_STRING 0))) length"
    by (simp add: romaji_shape_safe ka_table_shape)
  show "chunk_text (identity_env ka_table) (NewCharChunk CONVERSION_STRING 0)"
    by (simp add: chunk_text_def NewCharChunk_def pending_ok_Nil)
  have "CodepointToUtf8 0x6B = [0x6B]" "CodepointToUtf8 0x61 = [0x61]" by (simp_all add: CodepointToUtf8_def)
  with valid_text_Utf32 [of "[0x6B, 0x6B, 0x61]"] show "valid_text [0x6B, 0x6B, 0x61]"
    by (simp add: scalar_def)
qed

text \<open>C31: The typed characters are kept: the raw string with the rest is a subsequence of the raw string
  with the input, and exactly that string for a plain ASCII input, unless the rule was a pure
  NO_TRANSLITERATION one, whose chunk is emptied for its removal.\<close>
theorem AddInput_keeps_typed:
  assumes "AddInput env c input = Some (Inr (rest, c'))"
  shows "subseq (raw c' @ rest) (raw c @ input) \<and>
     (plain_bytes input \<longrightarrow>
        raw c' @ rest = raw c @ input \<or>
        rest = [] \<and> ChunkIsEmpty c' \<and> has_attribute (attributes c') NO_TRANSLITERATION)"
  using AddInput_subseq [OF assms] AddInput_plain [OF assms] by (auto simp: ChunkIsEmpty_def)

theorem AddInput_keeps_typed_witness:
  "\<exists>c'. AddInput (identity_env ka_table) (NewCharChunk CONVERSION_STRING 0) [0x6B, 0x6B]
     = Some (Inr ([], c')) \<and> raw c' = [0x6B, 0x6B] \<and> pending c' = [0x6B] \<and> conversion c' = [0xE3, 0x81, 0xA3]"
proof -
  let ?env = "identity_env ka_table"
  have l: "TableLookUpPrefix ka_table [0x6B, 0x6B] = (Some kk_entry, 2, True)"
    by (simp add: ka_table_def trie_table_LookUpPrefix ascii_isupper_def LookUpPrefix_byte LookUpPrefix_leaf)
  obtain c' where a: "AddInput ?env (NewCharChunk CONVERSION_STRING 0) [0x6B, 0x6B] = Some (Inr ([], c'))"
    "pending c' = [0x6B]" "conversion c' = [0xE3, 0x81, 0xA3]"
    by (subst (asm) AddInput.simps)
      (simp add: AddInputInternal_def NewCharChunk_def l ApplyEntry_def EntryOutcome_def ClearFallback_def Let_def
        has_attribute_def NO_TABLE_ATTRIBUTE_def kk_entry_def)
  have "plain_bytes [0x6B, 0x6B]" by (simp add: plain_bytes_def kSpecialKeyOpen_def)
  with AddInput_keeps_typed [OF a(1)] a show ?thesis by (auto simp: NewCharChunk_def ChunkIsEmpty_def)
qed

text \<open>C32: The cached length is never stale: whatever operations a chunk went through, GetLength returns
  the length computed from its strings.\<close>
theorem GetLength_never_stale:
  assumes "chunk_reach env c"
  shows "fst (GetLength env t c) = ChunkLength env t c"
  using fst_GetLength [OF chunk_reach_cache [OF assms]] .

theorem GetLength_never_stale_witness:
  "fst (GetLength (identity_env ka_table) LOCAL (snd (GetLength (identity_env ka_table) LOCAL (NewCharChunk CONVERSION_STRING 0)))) =
     ChunkLength (identity_env ka_table) LOCAL (snd (GetLength (identity_env ka_table) LOCAL (NewCharChunk CONVERSION_STRING 0)))"
  by (rule GetLength_never_stale) (intro chunk_reach.measured chunk_reach.new)

end
