(* ===== verification/Composition.thy ===== *)
theory Composition
  imports Typing
begin

text \<open>
  The composition of \<^verbatim>\<open>src/src/composer/composition.cc\<close>: the list of chunks with the insertion and
  deletion of input, the positions in the display modes, and the strings shown and committed. The
  lemmas locate a position in the chunks, show that position conversion is monotone, and that
  typing at the end of a composition of safe chunks always returns.
\<close>

section \<open>The composition: composer/composition.h\<close>

datatype trim_mode = TRIM | ASIS | FIX

text \<open>
  \<^verbatim>\<open>Composition\<close>: an iterator into the list of chunks is an index here, \<^verbatim>\<open>end()\<close> the length of the list.
  \<^verbatim>\<open>clen\<close> is \<^verbatim>\<open>GetLength\<close> of a chunk; the cached length it leaves behind is dropped, which the lemmas on
  the cache show to be invisible.
\<close>

record composition =
  table_ptr :: nat
  chunks :: "char_chunk list"
  input_t12r :: transliterator

definition NewComposition :: "nat \<Rightarrow> composition" where
  "NewComposition table = \<lparr>table_ptr = table, chunks = [], input_t12r = CONVERSION_STRING\<rparr>"

abbreviation clen :: "composer_env \<Rightarrow> transliterator \<Rightarrow> char_chunk \<Rightarrow> nat" where
  "clen env t c \<equiv> fst (GetLength env t c)"

definition Erase :: "composition \<Rightarrow> composition" where
  "Erase compo = compo\<lparr>chunks := []\<rparr>"

definition SetInputMode :: "transliterator \<Rightarrow> composition \<Rightarrow> composition" where
  "SetInputMode t compo = compo\<lparr>input_t12r := t\<rparr>"

definition SetTable :: "nat \<Rightarrow> composition \<Rightarrow> composition" where
  "SetTable table compo = compo\<lparr>table_ptr := table\<rparr>"

section \<open>Positions: composer/composition.cc\<close>

definition GetPosition :: "composer_env \<Rightarrow> transliterator \<Rightarrow> char_chunk list \<Rightarrow> nat \<Rightarrow> nat" where
  "GetPosition env t cs cur = sum_list (map (clen env t) (take cur cs))"

definition CompositionLength :: "composer_env \<Rightarrow> composition \<Rightarrow> nat" where
  "CompositionLength env compo = GetPosition env LOCAL (chunks compo) (length (chunks compo))"

text \<open>The loop of \<^verbatim>\<open>GetChunkAt\<close>: the offset, the length of the previous chunk and the index so far.\<close>

fun GetChunkAtLoop ::
  "composer_env \<Rightarrow> transliterator \<Rightarrow> nat \<Rightarrow> nat \<Rightarrow> nat \<Rightarrow> nat \<Rightarrow> char_chunk list \<Rightarrow> nat \<times> nat" where
  "GetChunkAtLoop env t position chunk_offset chunk_length i [] = (i - 1, chunk_length)"
| "GetChunkAtLoop env t position chunk_offset chunk_length i (c # cs) =
     (if chunk_offset + clen env t c < position
      then GetChunkAtLoop env t position (chunk_offset + clen env t c) (clen env t c) (Suc i) cs
      else (i, position - chunk_offset))"

definition GetChunkAt :: "composer_env \<Rightarrow> char_chunk list \<Rightarrow> nat \<Rightarrow> transliterator \<Rightarrow> nat \<times> nat" where
  "GetChunkAt env cs position t = (if cs = [] then (0, 0) else GetChunkAtLoop env t position 0 0 0 cs)"

text \<open>\<^verbatim>\<open>MaybeSplitChunkAt\<close>: the chunks, and the index of the chunk right of the position.\<close>

definition MaybeSplitChunkAt ::
  "composer_env \<Rightarrow> char_chunk list \<Rightarrow> nat \<Rightarrow> chunk_error + (char_chunk list \<times> nat)" where
  "MaybeSplitChunkAt env cs position =
     (case GetChunkAt env cs position LOCAL of
        (i, inner_position) \<Rightarrow>
          if i = 0 \<and> inner_position = 0 then Inr (cs, i)
          else if inner_position = clen env LOCAL (cs ! i) then Inr (cs, Suc i)
          else (case SplitChunk env (cs ! i) LOCAL inner_position of
                  None \<Rightarrow> Inl PastEnd
                | Some (None, c) \<Rightarrow> Inr (cs[i := c], i)
                | Some (Some left, c) \<Rightarrow> Inr (take i cs @ left # c # drop (Suc i) cs, Suc i)))"

section \<open>Inserting: composer/composition.cc\<close>

definition NewChunkOf :: "composition \<Rightarrow> char_chunk" where
  "NewChunkOf compo = NewCharChunk (input_t12r compo) (table_ptr compo)"

text \<open>
  \<^verbatim>\<open>GetInsertionChunk\<close> and \<^verbatim>\<open>CombinePendingChunks\<close> work to the left of an iterator: the chunks before it,
  nearest first.
\<close>

definition GetInsertionChunk :: "composition \<Rightarrow> char_chunk list \<Rightarrow> char_chunk list" where
  "GetInsertionChunk compo ls =
     (case ls of
        [] \<Rightarrow> [NewChunkOf compo]
      | left # rest \<Rightarrow>
          if IsAppendable left (input_t12r compo) (table_ptr compo) then ls else NewChunkOf compo # ls)"

fun CombineLeft :: "composer_env \<Rightarrow> composition \<Rightarrow> bytes \<Rightarrow> char_chunk list \<Rightarrow> char_chunk list" where
  "CombineLeft env compo next_input (it # left # rest) =
     (if IsConvertible env left (input_t12r compo) (table_ptr compo) (pending it @ next_input)
      then CombineLeft env compo next_input (Combine it left # rest)
      else it # left # rest)"
| "CombineLeft env compo next_input ls = ls"

definition CombinePendingChunks ::
  "composer_env \<Rightarrow> composition \<Rightarrow> char_chunk list \<Rightarrow> composition_input \<Rightarrow> char_chunk list" where
  "CombinePendingChunks env compo ls input =
     (if is_asis input then ls
      else CombineLeft env compo
             (if input_conversion input = [] then input_raw input else input_conversion input) ls)"

text \<open>The loop of \<^verbatim>\<open>InsertInput\<close> with the chunk left of the insertion point; None where it does not end.\<close>

partial_function (option) InsertLoop ::
  "composer_env \<Rightarrow> composition \<Rightarrow> char_chunk \<Rightarrow> char_chunk list \<Rightarrow> composition_input \<Rightarrow>
   (chunk_error + (char_chunk \<times> char_chunk list)) option" where
  "InsertLoop env compo left rest input =
     (case AddCompositionInput env left input of
        None \<Rightarrow> None
      | Some (Inl err) \<Rightarrow> Some (Inl err)
      | Some (Inr (input', left')) \<Rightarrow>
          if InputEmpty input' then Some (Inr (left', rest))
          else InsertLoop env compo (NewChunkOf compo) (left' # rest) (input'\<lparr>is_new_input := False\<rparr>))"

definition InsertInput ::
  "composer_env \<Rightarrow> composition \<Rightarrow> nat \<Rightarrow> composition_input \<Rightarrow> (chunk_error + (nat \<times> composition)) option" where
  "InsertInput env compo pos input =
     (if InputEmpty input then Some (Inr (pos, compo))
      else (case MaybeSplitChunkAt env (chunks compo) pos of
              Inl err \<Rightarrow> Some (Inl err)
            | Inr (cs, i) \<Rightarrow>
                let right = i + length (takeWhile (\<lambda>c. clen env (input_t12r compo) c = 0) (drop i cs));
                    ls = CombinePendingChunks env compo (GetInsertionChunk compo (rev (take right cs))) input;
                    rs = drop right cs
                in (case InsertLoop env compo (hd ls) (List.tl ls) input of
                      None \<Rightarrow> None
                    | Some (Inl err) \<Rightarrow> Some (Inl err)
                    | Some (Inr (left, rest)) \<Rightarrow>
                        let ls' = rev (if ChunkIsEmpty left then rest else left # rest)
                        in Some (Inr (GetPosition env LOCAL (ls' @ rs) (length ls'), compo\<lparr>chunks := ls' @ rs\<rparr>)))))"

definition InsertAt :: "composer_env \<Rightarrow> composition \<Rightarrow> nat \<Rightarrow> bytes \<Rightarrow> (chunk_error + (nat \<times> composition)) option" where
  "InsertAt env compo pos input = InsertInput env compo pos (NewInput\<lparr>input_raw := input\<rparr>)"

definition InsertKeyAndPreeditAt ::
  "composer_env \<Rightarrow> composition \<Rightarrow> nat \<Rightarrow> bytes \<Rightarrow> bytes \<Rightarrow> (chunk_error + (nat \<times> composition)) option" where
  "InsertKeyAndPreeditAt env compo pos key preedit =
     InsertInput env compo pos (NewInput\<lparr>input_raw := key, input_conversion := preedit\<rparr>)"

section \<open>Deleting: composer/composition.cc\<close>

partial_function (option) DeleteLoop ::
  "composer_env \<Rightarrow> nat \<Rightarrow> nat \<Rightarrow> nat \<Rightarrow> char_chunk list \<Rightarrow> (chunk_error + (nat \<times> char_chunk list)) option" where
  "DeleteLoop env original_size position new_position cs =
     (if cs = [] \<or> GetPosition env LOCAL cs (length cs) \<noteq> original_size then Some (Inr (new_position, cs))
      else (case MaybeSplitChunkAt env cs position of
              Inl err \<Rightarrow> Some (Inl err)
            | Inr (cs', i) \<Rightarrow>
                if i = length cs' then Some (Inr (GetPosition env LOCAL cs' i, cs'))
                else if clen env LOCAL (cs' ! i) \<le> 1
                then DeleteLoop env original_size position (GetPosition env LOCAL cs' i)
                       (take i cs' @ drop (Suc i) cs')
                else (case SplitChunk env (cs' ! i) LOCAL 1 of
                        None \<Rightarrow> Some (Inl PastEnd)
                      | Some (left_deleted, c) \<Rightarrow>
                          DeleteLoop env original_size position (GetPosition env LOCAL cs' i) (cs'[i := c]))))"

definition DeleteAt :: "composer_env \<Rightarrow> composition \<Rightarrow> nat \<Rightarrow> (chunk_error + (nat \<times> composition)) option" where
  "DeleteAt env compo position =
     (case DeleteLoop env (CompositionLength env compo) position position (chunks compo) of
        None \<Rightarrow> None
      | Some (Inl err) \<Rightarrow> Some (Inl err)
      | Some (Inr (new_position, cs)) \<Rightarrow> Some (Inr (new_position, compo\<lparr>chunks := cs\<rparr>)))"

section \<open>Modes: composer/composition.cc\<close>

text \<open>\<^verbatim>\<open>ConvertPosition\<close>; None where its \<^verbatim>\<open>CHECK\<close> fails.\<close>

definition ConvertPosition ::
  "composer_env \<Rightarrow> composition \<Rightarrow> nat \<Rightarrow> transliterator \<Rightarrow> transliterator \<Rightarrow> nat option" where
  "ConvertPosition env compo position_from t_from t_to =
     (if t_from = t_to then Some position_from
      else (case GetChunkAt env (chunks compo) position_from t_from of
              (i, inner) \<Rightarrow>
                if i = length (chunks compo) then Some 0
                else let c = chunks compo ! i;
                         chunk_length_from = clen env t_from c
                     in if \<not> inner \<le> chunk_length_from then None
                        else let position_to = GetPosition env t_to (chunks compo) i
                             in if inner = 0 then Some position_to
                                else let chunk_length_to = clen env t_to c
                                     in if inner = chunk_length_from then Some (position_to + chunk_length_to)
                                        else if chunk_length_to < inner then Some (position_to + chunk_length_to)
                                        else Some (position_to + inner)))"

text \<open>
  \<^verbatim>\<open>SetTransliterator\<close>; the last chunk is set by the statement after the loop. None where the loop
  would run past its end iterator.
\<close>

definition SetTransliterator ::
  "composer_env \<Rightarrow> nat \<Rightarrow> nat \<Rightarrow> transliterator \<Rightarrow> composition \<Rightarrow> composition option" where
  "SetTransliterator env position_from position_to t compo =
     (if position_to < position_from \<or> chunks compo = [] then Some compo
      else (case (GetChunkAt env (chunks compo) position_from LOCAL, GetChunkAt env (chunks compo) position_to LOCAL) of
              ((i, _), (j, _)) \<Rightarrow>
                if j < i then None
                else Some (compo\<lparr>chunks := take i (chunks compo) @
                                  map (ChunkSetTransliterator t) (take (Suc j - i) (drop i (chunks compo))) @
                                  drop (Suc j) (chunks compo)\<rparr>)))"

definition SetDisplayMode :: "composer_env \<Rightarrow> nat \<Rightarrow> transliterator \<Rightarrow> composition \<Rightarrow> (nat \<times> composition) option" where
  "SetDisplayMode env position t compo =
     (case SetTransliterator env 0 (CompositionLength env compo) t compo of
        None \<Rightarrow> None
      | Some compo' \<Rightarrow> let compo'' = SetInputMode t compo' in Some (CompositionLength env compo'', compo''))"

text \<open>\<^verbatim>\<open>GetTransliterator\<close>; None for an empty composition, where the end iterator is read.\<close>

definition GetTransliterator :: "composer_env \<Rightarrow> composition \<Rightarrow> nat \<Rightarrow> transliterator option" where
  "GetTransliterator env compo position =
     (case GetChunkAt env (chunks compo) position LOCAL of
        (i, inner) \<Rightarrow>
          if i = length (chunks compo) then None
          else Some (ChunkGetTransliterator (chunks compo ! i) LOCAL))"

section \<open>The trailing chunk, and the strings: composer/composition.cc\<close>

definition GetTrailingPendingInputLength :: "composition \<Rightarrow> nat" where
  "GetTrailingPendingInputLength compo =
     (if chunks compo = [] then 0 else CharsLen (pending (last (chunks compo))))"

definition IsTrailingPendingInputAtCompositionStart :: "composition \<Rightarrow> bool" where
  "IsTrailingPendingInputAtCompositionStart compo \<longleftrightarrow>
     length (chunks compo) = 1 \<and> pending (last (chunks compo)) \<noteq> [] \<and> conversion (last (chunks compo)) = []"

definition HasTrailingDisplayedAmbiguousResult :: "composition \<Rightarrow> bool" where
  "HasTrailingDisplayedAmbiguousResult compo \<longleftrightarrow>
     chunks compo \<noteq> [] \<and> HasDisplayedAmbiguousResult (last (chunks compo))"

definition GetTrailingPendingDisplayLength :: "composer_env \<Rightarrow> composition \<Rightarrow> nat" where
  "GetTrailingPendingDisplayLength env compo =
     (if chunks compo = [] then 0 else GetPendingDisplayLength env LOCAL (last (chunks compo)))"

definition AppendResults :: "composer_env \<Rightarrow> transliterator \<Rightarrow> char_chunk list \<Rightarrow> bytes \<Rightarrow> bytes" where
  "AppendResults env t cs result = foldl (\<lambda>r c. AppendResult env t c r) result cs"

definition GetStringWithModes :: "composer_env \<Rightarrow> composition \<Rightarrow> transliterator \<Rightarrow> trim_mode \<Rightarrow> bytes" where
  "GetStringWithModes env compo t trim_mode =
     (if chunks compo = [] then []
      else let c = last (chunks compo);
               s = AppendResults env t (butlast (chunks compo)) []
           in case trim_mode of
                TRIM \<Rightarrow> AppendTrimedResult env t c s
              | ASIS \<Rightarrow> AppendResult env t c s
              | FIX \<Rightarrow> AppendFixedResult env t c s)"

definition GetExpandedStrings :: "composer_env \<Rightarrow> composition \<Rightarrow> bytes \<times> bytes list" where
  "GetExpandedStrings env compo =
     (if chunks compo = [] then ([], [])
      else let c = last (chunks compo)
           in (AppendTrimedResult env LOCAL c (AppendResults env LOCAL (butlast (chunks compo)) []),
               GetExpandedResults env c))"

definition GetString :: "composer_env \<Rightarrow> composition \<Rightarrow> bytes" where
  "GetString env compo = AppendResults env LOCAL (chunks compo) []"

definition GetStringWithTransliterator :: "composer_env \<Rightarrow> composition \<Rightarrow> transliterator \<Rightarrow> bytes" where
  "GetStringWithTransliterator env compo t = GetStringWithModes env compo t FIX"

definition GetStringWithTrimMode :: "composer_env \<Rightarrow> composition \<Rightarrow> trim_mode \<Rightarrow> bytes" where
  "GetStringWithTrimMode env compo trim_mode = GetStringWithModes env compo LOCAL trim_mode"

definition GetPreedit :: "composer_env \<Rightarrow> composition \<Rightarrow> nat \<Rightarrow> (bytes \<times> bytes \<times> bytes) option" where
  "GetPreedit env compo position =
     (let s = GetString env compo
      in case (Utf8SubString s 0 position, Utf8SubString s position 1, Utf8SubString s (position + 1) npos) of
           (Some left, Some focused, Some right) \<Rightarrow> Some (left, focused, right)
         | _ \<Rightarrow> None)"

definition ShouldCommit :: "composition \<Rightarrow> bool" where
  "ShouldCommit compo \<longleftrightarrow> list_all ChunkShouldCommit (chunks compo)"

definition IsToggleable :: "composer_env \<Rightarrow> composition \<Rightarrow> nat \<Rightarrow> bool" where
  "IsToggleable env compo position \<longleftrightarrow>
     (case GetChunkAt env (chunks compo) position LOCAL of
        (i, inner) \<Rightarrow>
          i \<noteq> length (chunks compo) \<and>
          starts_with (pending (chunks compo ! i)) (ParseSpecialKey (table_at env (table_ptr compo)) (ascii ''{?}'')))"

section \<open>Positions\<close>

lemma GetPosition_simps [simp]:
  "GetPosition env t cs 0 = 0"
  "GetPosition env t (c # cs) (Suc i) = clen env t c + GetPosition env t cs i"
  "GetPosition env t [] i = 0"
  by (simp_all add: GetPosition_def)

lemma GetPosition_Suc:
  "i < length cs \<Longrightarrow> GetPosition env t cs (Suc i) = GetPosition env t cs i + clen env t (cs ! i)"
  by (simp add: GetPosition_def take_Suc_conv_app_nth)

lemma GetPosition_mono: "i \<le> j \<Longrightarrow> GetPosition env t cs i \<le> GetPosition env t cs j"
proof -
  assume "i \<le> j"
  then have "take j cs = take i cs @ take (j - i) (drop i cs)" by (metis le_add_diff_inverse take_add)
  then show ?thesis by (simp add: GetPosition_def)
qed

lemma GetPosition_append: "GetPosition env t (cs @ ds) (length cs) = GetPosition env t cs (length cs)"
  by (simp add: GetPosition_def)

abbreviation total_length :: "composer_env \<Rightarrow> transliterator \<Rightarrow> char_chunk list \<Rightarrow> nat" where
  "total_length env t cs \<equiv> GetPosition env t cs (length cs)"

text \<open>The chunk found: it holds the position, or is the last one for a position past the end.\<close>

lemma GetChunkAtLoop_found:
  "GetChunkAtLoop env t p off l i cs = (j, inner) \<Longrightarrow> cs \<noteq> [] \<Longrightarrow> off < p \<or> i = 0 \<and> off \<le> p \<Longrightarrow>
     i \<le> j \<and> j - i < length cs \<and> inner \<le> clen env t (cs ! (j - i)) \<and>
     (p \<le> off + total_length env t cs \<longrightarrow>
        off + GetPosition env t cs (j - i) + inner = p \<and> (j = 0 \<or> 0 < inner)) \<and>
     (off + total_length env t cs < p \<longrightarrow> j - i = length cs - 1 \<and> inner = clen env t (cs ! (length cs - 1)))"
proof (induction env t p off l i cs rule: GetChunkAtLoop.induct)
  case (2 env t p off l i c cs)
  show ?case
  proof (cases "off + clen env t c < p")
    case False
    with "2.prems" show ?thesis by auto
  next
    case True
    note loop = "2.prems"(1) [unfolded GetChunkAtLoop.simps if_P [OF True]]
    show ?thesis
    proof (cases "cs = []")
      case True': True
      with loop True show ?thesis by auto
    next
      case False
      have h: "Suc i \<le> j \<and> j - Suc i < length cs \<and> inner \<le> clen env t (cs ! (j - Suc i)) \<and>
        (p \<le> off + clen env t c + total_length env t cs \<longrightarrow>
           off + clen env t c + GetPosition env t cs (j - Suc i) + inner = p \<and> (j = 0 \<or> 0 < inner)) \<and>
        (off + clen env t c + total_length env t cs < p \<longrightarrow>
           j - Suc i = length cs - 1 \<and> inner = clen env t (cs ! (length cs - 1)))"
        using "2.IH" [OF True loop False] True by blast
      then have j: "j - i = Suc (j - Suc i)" by linarith
      obtain k where k: "length cs = Suc k" using False by (cases cs) auto
      show ?thesis using h unfolding j by (auto simp: k add.assoc)
    qed
  qed
qed simp

lemma GetChunkAt_found:
  assumes "GetChunkAt env cs p t = (i, inner)" "cs \<noteq> []"
  shows "i < length cs" "inner \<le> clen env t (cs ! i)"
    "p \<le> total_length env t cs \<Longrightarrow> GetPosition env t cs i + inner = p \<and> (i = 0 \<or> 0 < inner)"
    "total_length env t cs < p \<Longrightarrow> i = length cs - 1 \<and> inner = clen env t (cs ! i)"
  using GetChunkAtLoop_found [of env t p 0 0 0 cs i inner] assms by (auto simp: GetChunkAt_def)

lemma GetChunkAt_mono:
  assumes "p \<le> q" "GetChunkAt env cs p t = (i, a)" "GetChunkAt env cs q t = (j, b)"
  shows "i < j \<or> i = j \<and> a \<le> b"
proof (cases "cs = []")
  case True
  with assms show ?thesis by (simp add: GetChunkAt_def)
next
  case False
  note p = GetChunkAt_found [OF assms(2) False] and q = GetChunkAt_found [OF assms(3) False]
  show ?thesis
  proof (cases "total_length env t cs < q")
    case True
    with q have j: "j = length cs - 1" "b = clen env t (cs ! j)" by auto
    show ?thesis
    proof (cases "i = j")
      case True
      with j p(2) show ?thesis by simp
    next
      case False
      with p(1) j show ?thesis by auto
    qed
  next
    case False
    with assms(1) have le: "q \<le> total_length env t cs" "p \<le> total_length env t cs" by linarith+
    have eq: "GetPosition env t cs i + a = p" "GetPosition env t cs j + b = q" "i = 0 \<or> 0 < a"
      using p(3) [OF le(2)] q(3) [OF le(1)] by auto
    have "\<not> j < i"
    proof
      assume "j < i"
      then have "GetPosition env t cs (Suc j) \<le> GetPosition env t cs i" by (intro GetPosition_mono) simp
      with q(1,2) eq assms(1) \<open>j < i\<close> show False by (simp add: GetPosition_Suc)
    qed
    with eq assms(1) show ?thesis by auto
  qed
qed

section \<open>Converting positions\<close>

text \<open>Where a position inside a chunk goes.\<close>

definition inner_to :: "nat \<Rightarrow> nat \<Rightarrow> nat \<Rightarrow> nat" where
  "inner_to from_len to_len inner =
     (if inner = 0 then 0 else if inner = from_len \<or> to_len < inner then to_len else inner)"

lemma inner_to_le: "inner_to f l n \<le> l"
  by (simp add: inner_to_def)

lemma inner_to_mono: "a \<le> b \<Longrightarrow> b \<le> f \<Longrightarrow> inner_to f l a \<le> inner_to f l b"
  by (auto simp: inner_to_def)

lemma ConvertPosition_found:
  assumes "tf \<noteq> tt" "chunks compo \<noteq> []" "GetChunkAt env (chunks compo) p tf = (i, a)"
  shows "ConvertPosition env compo p tf tt =
     Some (GetPosition env tt (chunks compo) i +
       inner_to (clen env tf (chunks compo ! i)) (clen env tt (chunks compo ! i)) a)"
  using assms GetChunkAt_found(1,2) [OF assms(3,2)]
  by (simp add: ConvertPosition_def inner_to_def Let_def)

lemma ConvertPosition_empty: "tf \<noteq> tt \<Longrightarrow> chunks compo = [] \<Longrightarrow> ConvertPosition env compo p tf tt = Some 0"
  by (simp add: ConvertPosition_def GetChunkAt_def)

lemma ConvertPosition_total:
  "\<exists>n. ConvertPosition env compo p tf tt = Some n \<and>
     (if tf = tt then n = p else n \<le> total_length env tt (chunks compo))"
proof (cases "tf = tt \<or> chunks compo = []")
  case True
  then show ?thesis using ConvertPosition_empty by (cases "tf = tt") (auto simp: ConvertPosition_def)
next
  case False
  then have h: "tf \<noteq> tt" "chunks compo \<noteq> []" by auto
  obtain i a where g: "GetChunkAt env (chunks compo) p tf = (i, a)" by fastforce
  have "GetPosition env tt (chunks compo) (Suc i) \<le> total_length env tt (chunks compo)"
    using GetChunkAt_found(1) [OF g h(2)] by (intro GetPosition_mono) simp
  then have "GetPosition env tt (chunks compo) i +
       inner_to (clen env tf (chunks compo ! i)) (clen env tt (chunks compo ! i)) a \<le> total_length env tt (chunks compo)"
    using GetChunkAt_found(1) [OF g h(2)]
      inner_to_le [of "clen env tf (chunks compo ! i)" "clen env tt (chunks compo ! i)" a]
    by (simp add: GetPosition_Suc)
  then show ?thesis unfolding ConvertPosition_found [OF h g] using h by simp
qed

lemma ConvertPosition_mono:
  assumes "p \<le> q" "ConvertPosition env compo p tf tt = Some m" "ConvertPosition env compo q tf tt = Some n"
  shows "m \<le> n"
proof (cases "tf = tt \<or> chunks compo = []")
  case True
  with assms ConvertPosition_empty show ?thesis by (cases "tf = tt") (auto simp: ConvertPosition_def)
next
  case False
  then have h: "tf \<noteq> tt" "chunks compo \<noteq> []" by auto
  obtain i a where p: "GetChunkAt env (chunks compo) p tf = (i, a)" by fastforce
  obtain j b where q: "GetChunkAt env (chunks compo) q tf = (j, b)" by fastforce
  let ?G = "GetPosition env tt (chunks compo)"
  let ?in = "\<lambda>i. inner_to (clen env tf (chunks compo ! i)) (clen env tt (chunks compo ! i))"
  have mn: "m = ?G i + ?in i a" "n = ?G j + ?in j b"
    using assms ConvertPosition_found [OF h p] ConvertPosition_found [OF h q] by simp_all
  from GetChunkAt_mono [OF assms(1) p q] show ?thesis
  proof (elim disjE conjE)
    assume "i < j"
    then have "?G (Suc i) \<le> ?G j" by (intro GetPosition_mono) simp
    with GetChunkAt_found(1) [OF p h(2)] mn inner_to_le [of "clen env tf (chunks compo ! i)" "clen env tt (chunks compo ! i)" a]
    show ?thesis by (simp add: GetPosition_Suc)
  next
    assume "i = j" "a \<le> b"
    with GetChunkAt_found(2) [OF q h(2)] mn show ?thesis by (simp add: inner_to_mono)
  qed
qed

lemma SetTransliterator_total: "\<exists>c. SetTransliterator env p q t compo = Some c"
proof -
  obtain i a where i: "GetChunkAt env (chunks compo) p LOCAL = (i, a)" by fastforce
  obtain j b where j: "GetChunkAt env (chunks compo) q LOCAL = (j, b)" by fastforce
  have "\<not> j < i" if "\<not> q < p" using GetChunkAt_mono [OF _ i j] that by auto
  then show ?thesis by (auto simp: SetTransliterator_def i j)
qed

section \<open>Typing at the end of the composition\<close>

lemma walk_prefix:
  "length cs \<le> fst (walk t (cs @ ds)) \<Longrightarrow> length cs \<le> fst (walk t (cs @ es))"
proof (induction cs arbitrary: t)
  case (Cons c cs)
  show ?case
  proof (cases "map_of (trie_map t) c")
    case None
    with Cons.prems show ?thesis by simp
  next
    case (Some u)
    with Cons.prems Cons.IH [of u] show ?thesis by (cases "walk u (cs @ es)") (auto split: prod.splits)
  qed
qed simp

lemma length_Utf32_mono: "k \<le> m \<Longrightarrow> length (Utf32ToUtf8 (take k cs)) \<le> length (Utf32ToUtf8 (take m cs))"
  by (metis Utf32ToUtf8_simps(3) le_add1 le_add_diff_inverse length_append take_add)

text \<open>A string that a lookup walked through is a safe pending string.\<close>

lemma pending_ok_reached:
  assumes p: "valid_text p" and s: "valid_text s" and l: "TableLookUpPrefix t (p @ s) = (r, n, f)" "length p \<le> n"
  shows "pending_ok t p"
  unfolding pending_ok_def
proof (intro conjI allI impI)
  fix s' e m f' assume s': "valid_text s'" and l': "TableLookUpPrefix t (p @ s') = (Some e, m, f')"
  from p obtain ps where ps: "good_chars ps" "p = Utf32ToUtf8 ps" by (auto simp: valid_text_def)
  from s obtain cs where cs: "good_chars cs" "s = Utf32ToUtf8 cs" by (auto simp: valid_text_def)
  from s' obtain ds where ds: "good_chars ds" "s' = Utf32ToUtf8 ds" by (auto simp: valid_text_def)
  let ?w = "\<lambda>xs. fst (walk (table_entries t) (map (normalize_char t) xs))"
  have g: "good_chars (ps @ cs)" "good_chars (ps @ ds)" using ps cs ds by simp_all
  have n: "n = length (Utf32ToUtf8 (take (?w (ps @ cs)) (ps @ cs)))"
    using l(1) unfolding ps(2) cs(2) Utf32ToUtf8_simps(3) [symmetric] TableLookUpPrefix_walk [OF g(1)]
    by (auto split: prod.splits)
  have m: "m = length (Utf32ToUtf8 (take (?w (ps @ ds)) (ps @ ds)))"
    using l' unfolding ps(2) ds(2) Utf32ToUtf8_simps(3) [symmetric] TableLookUpPrefix_walk [OF g(2)]
    by (auto split: prod.splits)
  have "length ps \<le> ?w (ps @ cs)"
  proof (rule ccontr)
    assume "\<not> length ps \<le> ?w (ps @ cs)"
    then obtain x xs where x: "drop (?w (ps @ cs)) ps = x # xs" by (cases "drop (?w (ps @ cs)) ps") auto
    then have "ps = take (?w (ps @ cs)) ps @ x # xs" by (metis append_take_drop_id)
    then have "p = Utf32ToUtf8 (take (?w (ps @ cs)) ps) @ CodepointToUtf8 x @ Utf32ToUtf8 xs"
      using ps(2) by (metis Utf32ToUtf8_simps(2,3))
    moreover have "good_chars (x # xs)" using good_chars_take_drop [OF ps(1)] x by metis
    then have "CodepointToUtf8 x \<noteq> []" using good_char_nonempty by simp
    ultimately have "n < length p" using n \<open>\<not> length ps \<le> ?w (ps @ cs)\<close> by simp
    with l(2) show False by simp
  qed
  then have "length ps \<le> ?w (ps @ ds)"
    using walk_prefix [of "map (normalize_char t) ps" _ "map (normalize_char t) cs"] by simp
  from length_Utf32_mono [OF this, of "ps @ ds"] show "length p \<le> m" using m ps by simp
qed (use p in simp)

definition chunks_text :: "composer_env \<Rightarrow> char_chunk list \<Rightarrow> bool" where
  "chunks_text env cs \<longleftrightarrow> list_all (chunk_text env) cs"

lemma chunks_text_simps [simp]:
  "chunks_text env []" "chunks_text env (c # cs) \<longleftrightarrow> chunk_text env c \<and> chunks_text env cs"
  "chunks_text env (cs @ ds) \<longleftrightarrow> chunks_text env cs \<and> chunks_text env ds"
  "chunks_text env (rev cs) \<longleftrightarrow> chunks_text env cs"
  by (auto simp: chunks_text_def)

lemma chunks_text_take_drop: "chunks_text env cs \<Longrightarrow> chunks_text env (take n cs) \<and> chunks_text env (drop n cs)"
  by (metis append_take_drop_id chunks_text_simps(3))

lemma NewChunkOf_simps [simp]:
  "chunk_table (NewChunkOf compo) = table_ptr compo" "raw (NewChunkOf compo) = []"
  "conversion (NewChunkOf compo) = []" "pending (NewChunkOf compo) = []" "saved_raw (NewChunkOf compo) = []"
  "(NewChunkOf compo)\<lparr>local_length_cache := npos\<rparr> = NewChunkOf compo"
  by (simp_all add: NewChunkOf_def NewCharChunk_def)

lemma NewChunkOf_text [simp]: "chunk_text env (NewChunkOf compo)"
  by (simp add: chunk_text_def pending_ok_Nil)

lemma chunk_text_cache [simp]: "chunk_text env (c\<lparr>local_length_cache := n\<rparr>) = chunk_text env c"
  by (simp add: chunk_text_def)

lemma GetInsertionChunk_text:
  "chunks_text env ls \<Longrightarrow> \<exists>left rest. GetInsertionChunk compo ls = left # rest \<and> chunk_text env left \<and>
     chunks_text env rest \<and> chunk_table left = table_ptr compo"
  by (cases ls) (auto simp: GetInsertionChunk_def IsAppendable_def)

lemma Combine_text:
  assumes "chunk_text env it" "chunk_text env left" "chunk_table it = table" "valid_text next_input"
    and "IsConvertible env left t table (pending it @ next_input)"
  shows "chunk_text env (Combine it left)"
proof -
  let ?p = "pending left @ pending it"
  from assms(5) obtain e f where l: "TableLookUpPrefix (table_at env table) (?p @ next_input) = (Some e, length (?p @ next_input), f)"
    by (auto simp: IsConvertible_def split: prod.splits)
  have v: "valid_text ?p" using assms(1,2) by (auto simp: chunk_text_def intro: valid_text_append pending_ok_valid)
  from pending_ok_reached [OF v assms(4) l] have "pending_ok (table_at env table) ?p" by simp
  with assms(1-3) show ?thesis by (auto simp: chunk_text_def Combine_def intro: valid_text_append)
qed

lemma Combine_table [simp]: "chunk_table (Combine it left) = chunk_table it"
  by (simp add: Combine_def)

lemma CombineLeft_text:
  "valid_text next_input \<Longrightarrow> chunk_text env it \<Longrightarrow> chunks_text env rest \<Longrightarrow> chunk_table it = table_ptr compo \<Longrightarrow>
   \<exists>it' rest'. CombineLeft env compo next_input (it # rest) = it' # rest' \<and> chunk_text env it' \<and>
     chunks_text env rest' \<and> chunk_table it' = table_ptr compo"
proof (induction rest arbitrary: it)
  case (Cons left rest)
  then show ?case using Combine_text [of env it left "table_ptr compo" next_input "input_t12r compo"] by auto
qed simp

lemma AddCompositionInput_typed:
  assumes "table_safe (table_at env (chunk_table c)) rank" "chunk_text env c"
    and "valid_text (input_raw input)" "input_conversion input = []"
  shows "\<exists>rest c'. AddCompositionInput env c input = Some (Inr (input\<lparr>input_raw := rest\<rparr>, c')) \<and>
     chunk_text env c' \<and> valid_text rest \<and> chunk_table c' = chunk_table c \<and>
     (raw c = [] \<and> conversion c = [] \<and> pending c = [] \<and> saved_raw c = [] \<and> input_raw input \<noteq> [] \<longrightarrow>
        length rest < length (input_raw input))"
proof (cases "ShouldInsertNewChunk env (c\<lparr>local_length_cache := npos\<rparr>) input")
  case True
  then have "\<not> ChunkIsEmpty c" by (auto simp: ShouldInsertNewChunk_def ChunkIsEmpty_def)
  moreover have "input\<lparr>input_raw := input_raw input\<rparr> = input" by simp
  ultimately show ?thesis using True assms
    by (intro exI [of _ "input_raw input"] exI [of _ "c\<lparr>local_length_cache := npos\<rparr>"])
      (auto simp: AddCompositionInput_def ChunkIsEmpty_def)
next
  case False
  let ?c = "c\<lparr>local_length_cache := npos\<rparr>"
  have s: "table_safe (table_at env (chunk_table ?c)) rank" "chunk_text env ?c" using assms by simp_all
  from AddInput_safe [OF s assms(3)] obtain rest c' where
    a: "AddInput env ?c (input_raw input) = Some (Inr (rest, c'))" "chunk_text env c'" "valid_text rest" by blast
  have "length rest < length (input_raw input)"
    if "raw c = []" "pending c = []" "saved_raw c = []" "input_raw input \<noteq> []"
    using that AddInput_progress [OF s(1) assms(3) that(4) _ _ _ a(1)] by simp
  with a False assms AddInput_keeps [OF a(1)] show ?thesis
    by (auto simp: AddCompositionInput_def)
qed

lemma InsertLoop_fresh:
  assumes "table_safe (table_at env (table_ptr compo)) rank"
  shows "valid_text (input_raw input) \<Longrightarrow> input_raw input \<noteq> [] \<Longrightarrow> input_conversion input = [] \<Longrightarrow> chunks_text env rest \<Longrightarrow>
    \<exists>left' rest'. InsertLoop env compo (NewChunkOf compo) rest input = Some (Inr (left', rest')) \<and>
      chunk_text env left' \<and> chunks_text env rest'"
proof (induction "length (input_raw input)" arbitrary: input rest rule: less_induct)
  case less
  have s: "table_safe (table_at env (chunk_table (NewChunkOf compo))) rank" using assms by simp
  from AddCompositionInput_typed [OF s NewChunkOf_text less.prems(1,3)] less.prems(2) obtain r c where
    a: "AddCompositionInput env (NewChunkOf compo) input = Some (Inr (input\<lparr>input_raw := r\<rparr>, c))" "chunk_text env c"
      "valid_text r" "length r < length (input_raw input)" by auto
  show ?case
  proof (cases "r = []")
    case True
    with a less.prems show ?thesis by (subst InsertLoop.simps) (simp add: InputEmpty_def)
  next
    case False
    let ?i = "input\<lparr>input_raw := r, is_new_input := False\<rparr>"
    from less.hyps [of ?i "c # rest"] a False less.prems obtain left' rest' where
      "InsertLoop env compo (NewChunkOf compo) (c # rest) ?i = Some (Inr (left', rest'))"
      "chunk_text env left'" "chunks_text env rest'" by auto
    with a False less.prems show ?thesis by (subst InsertLoop.simps) (simp add: InputEmpty_def)
  qed
qed

lemma InsertLoop_typed:
  assumes "table_safe (table_at env (table_ptr compo)) rank" "chunk_table left = table_ptr compo"
    and "chunk_text env left" "chunks_text env rest" "valid_text (input_raw input)" "input_conversion input = []"
  shows "\<exists>left' rest'. InsertLoop env compo left rest input = Some (Inr (left', rest')) \<and>
      chunk_text env left' \<and> chunks_text env rest'"
proof -
  from assms(1,2) have s: "table_safe (table_at env (chunk_table left)) rank" by simp
  from AddCompositionInput_typed [OF s assms(3,5,6)] obtain r c where
    a: "AddCompositionInput env left input = Some (Inr (input\<lparr>input_raw := r\<rparr>, c))" "chunk_text env c" "valid_text r"
    by auto
  show ?thesis
  proof (cases "r = []")
    case True
    with a assms show ?thesis by (subst InsertLoop.simps) (simp add: InputEmpty_def)
  next
    case False
    let ?i = "input\<lparr>input_raw := r, is_new_input := False\<rparr>"
    from InsertLoop_fresh [OF assms(1), of ?i "c # rest"] a False assms obtain left' rest' where
      "InsertLoop env compo (NewChunkOf compo) (c # rest) ?i = Some (Inr (left', rest'))"
      "chunk_text env left'" "chunks_text env rest'" by auto
    with a False assms show ?thesis by (subst InsertLoop.simps) (simp add: InputEmpty_def)
  qed
qed

text \<open>Inserting where the split left safe chunks.\<close>

lemma InsertInput_typed:
  assumes "table_safe (table_at env (table_ptr compo)) rank" "MaybeSplitChunkAt env (chunks compo) pos = Inr (cs, i)"
    and "chunks_text env cs" "valid_text (input_raw input)" "input_conversion input = []" "input_raw input \<noteq> []"
  shows "\<exists>ls rs compo'. InsertInput env compo pos input = Some (Inr (total_length env LOCAL ls, compo')) \<and>
     chunks compo' = ls @ rs \<and> chunks_text env (ls @ rs) \<and> (\<exists>k. rs = drop (i + k) cs)"
proof -
  let ?k = "length (takeWhile (\<lambda>c. clen env (input_t12r compo) c = 0) (drop i cs))"
  let ?ls = "CombinePendingChunks env compo (GetInsertionChunk compo (rev (take (i + ?k) cs))) input"
  from chunks_text_take_drop [OF assms(3), of "i + ?k"]
  have cs: "chunks_text env (take (i + ?k) cs)" "chunks_text env (drop (i + ?k) cs)" by blast+
  from GetInsertionChunk_text [of env "rev (take (i + ?k) cs)" compo] cs(1) obtain left rest where
    g: "GetInsertionChunk compo (rev (take (i + ?k) cs)) = left # rest" "chunk_text env left" "chunks_text env rest"
      "chunk_table left = table_ptr compo" by auto
  from CombineLeft_text [OF assms(4) g(2-4)] obtain it rest' where
    c: "?ls = it # rest'" "chunk_text env it" "chunks_text env rest'" "chunk_table it = table_ptr compo"
    using g assms(5) by (cases "is_asis input") (auto simp: CombinePendingChunks_def)
  from InsertLoop_typed [OF assms(1) c(4,2,3) assms(4,5)] obtain left' rest'' where
    l: "InsertLoop env compo it rest' input = Some (Inr (left', rest''))" "chunk_text env left'" "chunks_text env rest''"
    by blast
  let ?ls' = "rev (if ChunkIsEmpty left' then rest'' else left' # rest'')"
  have "InsertInput env compo pos input =
      Some (Inr (GetPosition env LOCAL (?ls' @ drop (i + ?k) cs) (length ?ls'), compo\<lparr>chunks := ?ls' @ drop (i + ?k) cs\<rparr>))"
    using assms(2,5,6) c(1) l(1) by (simp add: InsertInput_def InputEmpty_def Let_def)
  moreover have "chunks_text env (?ls' @ drop (i + ?k) cs)" using l cs by simp
  ultimately show ?thesis unfolding GetPosition_append by fastforce
qed

lemma MaybeSplitChunkAt_end:
  assumes "total_length env LOCAL cs \<le> pos"
  shows "\<exists>i. MaybeSplitChunkAt env cs pos = Inr (cs, i) \<and> total_length env LOCAL (drop i cs) = 0"
proof (cases "cs = []")
  case True
  then show ?thesis by (simp add: MaybeSplitChunkAt_def GetChunkAt_def)
next
  case False
  obtain i a where g: "GetChunkAt env cs pos LOCAL = (i, a)" by fastforce
  note f = GetChunkAt_found [OF g False]
  have split: "total_length env LOCAL cs = GetPosition env LOCAL cs j + total_length env LOCAL (drop j cs)" for j
    unfolding GetPosition_def by (simp flip: sum_list_append map_append)
  have G: "GetPosition env LOCAL cs (Suc i) = GetPosition env LOCAL cs i + clen env LOCAL (cs ! i)"
    using GetPosition_Suc [OF f(1)] .
  show ?thesis
  proof (cases "i = 0 \<and> a = 0")
    case True
    have "total_length env LOCAL cs = 0"
    proof (cases "pos \<le> total_length env LOCAL cs")
      case True': True
      with f(3) True assms show ?thesis by simp
    next
      case False
      with f(4) True have "i = length cs - 1" "clen env LOCAL (cs ! i) = 0" by auto
      with True \<open>cs \<noteq> []\<close> G show ?thesis by (cases cs) auto
    qed
    with True g show ?thesis by (auto simp: MaybeSplitChunkAt_def)
  next
    case False
    have "a = clen env LOCAL (cs ! i) \<and> total_length env LOCAL (drop (Suc i) cs) = 0"
    proof (cases "pos \<le> total_length env LOCAL cs")
      case True
      with f(3) assms have "GetPosition env LOCAL cs i + a = total_length env LOCAL cs" by simp
      with split [of "Suc i"] G f(2) show ?thesis by linarith
    next
      case False
      with f(4) have "i = length cs - 1" "a = clen env LOCAL (cs ! i)" by auto
      with \<open>cs \<noteq> []\<close> show ?thesis by simp
    qed
    with False g show ?thesis by (auto simp: MaybeSplitChunkAt_def)
  qed
qed

lemma total_length_append: "total_length env t (cs @ ds) = total_length env t cs + total_length env t ds"
  by (simp add: GetPosition_def)

lemma total_length_drop: "total_length env t cs = 0 \<Longrightarrow> total_length env t (drop k cs) = 0"
  by (simp add: GetPosition_def) (metis in_set_dropD)

section \<open>A rule without input\<close>

lemma InsertLoop_diverges:
  assumes "\<And>left rest input. P left input \<Longrightarrow> \<exists>c. AddCompositionInput env left input = Some (Inr (input, c))"
    and "\<And>left input. P left input \<Longrightarrow> \<not> InputEmpty input \<and> P (NewChunkOf compo) (input\<lparr>is_new_input := False\<rparr>)"
    and "P left input"
  shows "InsertLoop env compo left rest input = None"
proof (rule ccontr)
  assume "InsertLoop env compo left rest input \<noteq> None"
  then obtain r where "InsertLoop env compo left rest input = Some r" by auto
  moreover have "InsertLoop env' compo' left rest input = Some r \<Longrightarrow> \<not> (env' = env \<and> compo' = compo \<and> P left input)"
    for env' compo' left rest input r
  proof (induction rule: InsertLoop.raw_induct [rotated, consumes 1, case_names step,
      where P = "\<lambda>env' compo' left rest input r. \<not> (env' = env \<and> compo' = compo \<and> P left input)"])
    case (step InsertLoop env' compo' left rest input r)
    then show ?case using assms(1,2) [of left input] by (auto split: if_splits)
  qed
  ultimately show False using assms(3) by blast
qed

section \<open>Properties\<close>

text \<open>C33: Typing raw characters at the end of a composition of safe chunks, on a safe table, returns
  without an exception; the chunks are safe again and the returned cursor is the end of the
  composition.\<close>
theorem typing_at_end:
  assumes "table_safe (table_at env (table_ptr compo)) rank" "chunks_text env (chunks compo)"
    and "valid_text (input_raw input)" "input_conversion input = []" "input_raw input \<noteq> []"
    and "CompositionLength env compo \<le> pos"
  shows "\<exists>compo'. InsertInput env compo pos input = Some (Inr (CompositionLength env compo', compo')) \<and>
     chunks_text env (chunks compo')"
proof -
  from assms(6) have "total_length env LOCAL (chunks compo) \<le> pos" by (simp add: CompositionLength_def)
  from MaybeSplitChunkAt_end [OF this] obtain i where
    i: "MaybeSplitChunkAt env (chunks compo) pos = Inr (chunks compo, i)"
      "total_length env LOCAL (drop i (chunks compo)) = 0" by blast
  from InsertInput_typed [OF assms(1) i(1) assms(2-5)] obtain ls rs compo' k where
    "InsertInput env compo pos input = Some (Inr (total_length env LOCAL ls, compo'))"
    "chunks compo' = ls @ rs" "chunks_text env (ls @ rs)" "rs = drop (i + k) (chunks compo)" by blast
  with total_length_drop [OF i(2), of k] show ?thesis
    by (auto simp: CompositionLength_def total_length_append add.commute simp del: length_append)
qed

theorem typing_at_end_witness:
  "\<exists>compo'. InsertInput (identity_env ka_table) (NewComposition 0) 0 (NewInput\<lparr>input_raw := [0x6B, 0x61]\<rparr>) =
       Some (Inr (CompositionLength (identity_env ka_table) compo', compo')) \<and>
     chunks_text (identity_env ka_table) (chunks compo')"
proof (rule typing_at_end)
  show "table_safe (table_at (identity_env ka_table) (table_ptr (NewComposition 0))) length"
    by (simp add: romaji_shape_safe ka_table_shape)
  have "CodepointToUtf8 0x6B = [0x6B]" "CodepointToUtf8 0x61 = [0x61]" by (simp_all add: CodepointToUtf8_def)
  with valid_text_Utf32 [of "[0x6B, 0x61]"] show "valid_text (input_raw (NewInput\<lparr>input_raw := [0x6B, 0x61]\<rparr>))"
    by (simp add: scalar_def)
qed (simp_all add: NewComposition_def NewInput_def CompositionLength_def)

text \<open>C34: Converting cursor positions between display modes never fails its CHECK, stays inside the
  composition, and is monotone: two cursors never change their order.\<close>
theorem ConvertPosition_monotone:
  assumes "p \<le> q"
  shows "\<exists>m n. ConvertPosition env compo p t_from t_to = Some m \<and>
     ConvertPosition env compo q t_from t_to = Some n \<and> m \<le> n \<and>
     (t_from \<noteq> t_to \<longrightarrow> n \<le> GetPosition env t_to (chunks compo) (length (chunks compo)))"
proof -
  from ConvertPosition_total [of env compo p t_from t_to] obtain m where
    m: "ConvertPosition env compo p t_from t_to = Some m" by blast
  from ConvertPosition_total [of env compo q t_from t_to] obtain n where
    n: "ConvertPosition env compo q t_from t_to = Some n"
      "t_from \<noteq> t_to \<Longrightarrow> n \<le> GetPosition env t_to (chunks compo) (length (chunks compo))" by auto
  from ConvertPosition_mono [OF assms m n(1)] m n show ?thesis by blast
qed

theorem ConvertPosition_monotone_witness:
  "\<exists>m n. ConvertPosition (identity_env ka_table) (NewComposition 0) 1 HIRAGANA RAW_STRING = Some m \<and>
     ConvertPosition (identity_env ka_table) (NewComposition 0) 2 HIRAGANA RAW_STRING = Some n \<and> m \<le> n"
  using ConvertPosition_monotone [of 1 2 "identity_env ka_table" "NewComposition 0" HIRAGANA RAW_STRING] by auto

text \<open>A table may hold a rule without input (a table line that starts with a tab): AddRule
  accepts it, and then inserting any character into an empty composition never returns, a new chunk
  being made each time around.\<close>
theorem empty_rule_typing_hangs:
  "\<exists>e t. AddRule NewTable [] [0x58] [] = Some (Some e, t) \<and>
     InsertAt (env\<lparr>table_at := \<lambda>_. t\<rparr>) (NewComposition 0) 0 (b # bs) = None"
proof -
  let ?e = "plain_entry [] [0x58] []"
  let ?t = "trie_table (Trie [] (Some ?e))"
  let ?env = "env\<lparr>table_at := \<lambda>_. ?t\<rparr>" and ?new = "NewChunkOf (NewComposition 0)"
  have cap: "\<not> has_capital (DeleteSpecialKeys [])"
    by (simp add: has_capital_def DeleteSpecialKeys_def DeleteBlocks.simps [of "[]"] Utf8ToUtf32.simps [of "[]"])
  have a: "AddRule NewTable [] [0x58] [] = Some (Some ?e, ?t)"
    unfolding trie_table_NewTable
    by (simp add: AddRule_trie IsLoopingEntry_def FindBlock_def cap AddEntry_end)
  have l: "TableLookUpPrefix ?t key = (Some ?e, 0, True)" for key
    by (simp add: TableLookUpPrefix_root)
  have step: "AddCompositionInput ?env ?new input = Some (Inr (input, snd (ApplyEntry ?e 0 True (input_raw input) ?new)))"
    if "input_conversion input = []" for input
    using that
    by (simp add: AddCompositionInput_def ShouldInsertNewChunk_def ChunkIsEmpty_def AddInput.simps [of _ ?new]
        AddInputInternal_def l ApplyEntry_def EntryOutcome_def Let_def ClearFallback_def has_attribute_def NO_TABLE_ATTRIBUTE_def)
  have "InsertLoop ?env (NewComposition 0) ?new [] (NewInput\<lparr>input_raw := b # bs\<rparr>) = None"
    by (rule InsertLoop_diverges [where P = "\<lambda>left input. left = ?new \<and> input_raw input \<noteq> [] \<and> input_conversion input = []"])
      (auto simp: step InputEmpty_def NewInput_def)
  then have "InsertAt ?env (NewComposition 0) 0 (b # bs) = None"
    by (simp add: InsertAt_def InsertInput_def InputEmpty_def NewInput_def NewComposition_def MaybeSplitChunkAt_def
        GetChunkAt_def GetInsertionChunk_def CombinePendingChunks_def)
  with a show ?thesis by blast
qed

end
