(* ===== verification/Connector.thy ===== *)
theory Connector
  imports DictFile
begin

text \<open>
  The connection matrix of the converter, \<^verbatim>\<open>src/src/converter/connector.cc\<close> and \<^verbatim>\<open>connector.h\<close>, and the script that
  writes its image, \<^verbatim>\<open>src/src/data_manager/gen_connection_data.py\<close>: a row keeps the costs that differ from the
  mode of the row under a two-level bit vector. What the script writes is read back, and the cache of the connector
  never changes a cost, also with several threads. \<open>base\<close> is the address of the image, for the checks of the alignment.
\<close>

section \<open>connector.cc: the image\<close>

definition kConnectorMagicNumber :: "16 word" where "kConnectorMagicNumber = 0xCDAB"
definition kInvalid1ByteCostValue :: byte where "kInvalid1ByteCostValue = 255"
definition kCacheSize :: "32 word" where "kCacheSize = 1024"
definition kCacheHashMask :: "32 word" where "kCacheHashMask = kCacheSize - 1"
definition kChunkWidth :: nat where "kChunkWidth = 8"
definition kInvalidCost :: int where "kInvalidCost = 30000"

text \<open>A 16-bit number at an offset; the callers check that it is inside the data.\<close>

definition load16 :: "bytes \<Rightarrow> nat \<Rightarrow> 16 word" where
  "load16 data offset = load_le (take 2 (drop offset data))"

record metadata =
  md_magic :: "16 word"
  md_resolution :: "16 word"
  md_rsize :: "16 word"
  md_lsize :: "16 word"

definition kMetadataByteSize :: nat where "kMetadataByteSize = 8"

definition NumChunkBits :: "metadata \<Rightarrow> nat" where
  "NumChunkBits md = (unat (md_lsize md) + kChunkWidth - 1) div kChunkWidth"

definition ChunkBitsSize :: "metadata \<Rightarrow> nat" where
  "ChunkBitsSize md = (NumChunkBits md + 31) div 32 * 4"

definition Use1ByteValue :: "metadata \<Rightarrow> bool" where
  "Use1ByteValue md \<longleftrightarrow> md_resolution md \<noteq> 1"

definition DefaultCostArraySize :: "metadata \<Rightarrow> nat" where
  "DefaultCostArraySize md = unat (md_rsize md) + unat (md_rsize md) mod 2"

text \<open>The status of the errors of \<^verbatim>\<open>Init\<close>.\<close>

datatype connector_error = TooShort | UnexpectedMagic | NotSquare | PastTheEnd | NotAligned

definition ParseMetadata :: "bytes \<Rightarrow> connector_error + metadata" where
  "ParseMetadata data =
     (if length data < kMetadataByteSize then Inl TooShort
      else let md = \<lparr>md_magic = load16 data 0, md_resolution = load16 data 2, md_rsize = load16 data 4, md_lsize = load16 data 6\<rparr>
           in if md_magic md \<noteq> kConnectorMagicNumber then Inl UnexpectedMagic
              else if md_lsize md \<noteq> md_rsize md then Inl NotSquare
              else Inr md)"

section \<open>connector.cc: rows\<close>

record rank_bit_vector =
  rb_data :: bytes
  rb_rank_index :: "16 word list"

definition IndexSize :: "rank_bit_vector \<Rightarrow> nat" where
  "IndexSize v = length (rb_data v) div 4"

text \<open>The loop of \<^verbatim>\<open>BuildIndex\<close> over \<open>n\<close> words of the data.\<close>

fun BuildRank :: "bytes \<Rightarrow> nat \<Rightarrow> 32 word \<Rightarrow> 16 word list" where
  "BuildRank data 0 bit_count = []"
| "BuildRank data (Suc n) bit_count =
     ucast bit_count #
     BuildRank (drop 4 data) n (bit_count + of_nat (popcount (load_le (take 4 data) :: 32 word)))"

definition BuildIndex :: "rank_bit_vector \<Rightarrow> rank_bit_vector" where
  "BuildIndex v = v\<lparr>rb_rank_index := BuildRank (rb_data v) (IndexSize v) 0\<rparr>"

text \<open>The outer None is a load outside the data.\<close>

definition Rank1IfSet :: "rank_bit_vector \<Rightarrow> nat \<Rightarrow> nat option option" where
  "Rank1IfSet v n =
     do {
       let word_index = n div 32;
       w \<leftarrow> LoadUnaligned32 (rb_data v) (4 * word_index);
       let b = push_bit (n mod 32) 1;
       if w AND b = 0 then Some None
       else Some (Some (unat (rb_rank_index v ! word_index) + popcount (w AND (b - 1)))) }"

record row =
  row_chunk_bits :: rank_bit_vector
  row_compact_bits :: rank_bit_vector
  row_values :: bytes

definition NewRow :: "bytes \<Rightarrow> bytes \<Rightarrow> bytes \<Rightarrow> row" where
  "NewRow chunk_bits compact_bits vals =
     \<lparr>row_chunk_bits = \<lparr>rb_data = chunk_bits, rb_rank_index = []\<rparr>,
      row_compact_bits = \<lparr>rb_data = compact_bits, rb_rank_index = []\<rparr>, row_values = vals\<rparr>"

definition RowBuildIndex :: "row \<Rightarrow> row" where
  "RowBuildIndex r = r\<lparr>row_chunk_bits := BuildIndex (row_chunk_bits r), row_compact_bits := BuildIndex (row_compact_bits r)\<rparr>"

definition GetValue :: "row \<Rightarrow> 16 word \<Rightarrow> bool \<Rightarrow> int option option" where
  "GetValue r index use_1byte_value =
     do {
       chunk_rank \<leftarrow> Rank1IfSet (row_chunk_bits r) (unat index div kChunkWidth);
       case chunk_rank of
         None \<Rightarrow> Some None
       | Some cr \<Rightarrow>
           do {
             compact_rank \<leftarrow> Rank1IfSet (row_compact_bits r) (cr * kChunkWidth + unat index mod kChunkWidth);
             case compact_rank of
               None \<Rightarrow> Some None
             | Some value_position \<Rightarrow>
                 if use_1byte_value
                 then (if value_position < length (row_values r)
                       then Some (Some (let value = row_values r ! value_position
                                        in if value = kInvalid1ByteCostValue then kInvalidCost else uint value))
                       else None)
                 else (if 2 * value_position + 2 \<le> length (row_values r)
                       then Some (Some (uint (load16 (row_values r) (2 * value_position)))) else None) } }"

section \<open>connector.cc: the connector\<close>

record connector =
  cn_rows :: "row list"
  cn_default_cost :: "16 word list"
  cn_resolution :: int
  cn_use_1byte_value :: bool
  cn_cache :: "64 word list"

text \<open>The loop of \<^verbatim>\<open>Init\<close> over the rows from \<open>ptr\<close> on; \<open>base\<close> is the address of the data.\<close>

primrec ReadRows :: "nat \<Rightarrow> bytes \<Rightarrow> nat \<Rightarrow> nat \<Rightarrow> nat \<Rightarrow> connector_error + row list" where
  "ReadRows base data chunk_bits_size 0 ptr = Inr []"
| "ReadRows base data chunk_bits_size (Suc n) ptr =
     (if length data < ptr + 2 then Inl PastTheEnd
      else let compact_bits_size = unat (load16 data ptr); ptr = ptr + 2
      in if length data < ptr + 2 then Inl PastTheEnd
      else let values_size = unat (load16 data ptr); ptr = ptr + 2
      in if length data < ptr + chunk_bits_size then Inl PastTheEnd
      else if (base + ptr) mod 4 \<noteq> 0 then Inl NotAligned
      else let chunk_bits = take chunk_bits_size (drop ptr data); ptr = ptr + chunk_bits_size
      in if length data < ptr + compact_bits_size then Inl PastTheEnd
      else if (base + ptr) mod 4 \<noteq> 0 then Inl NotAligned
      else let compact_bits = take compact_bits_size (drop ptr data); ptr = ptr + compact_bits_size
      in if length data < ptr + values_size then Inl PastTheEnd
      else if (base + ptr) mod 4 \<noteq> 0 then Inl NotAligned
      else let vals = take values_size (drop ptr data); ptr = ptr + values_size
      in (case ReadRows base data chunk_bits_size n ptr of
            Inl e \<Rightarrow> Inl e
          | Inr rows \<Rightarrow> Inr (NewRow chunk_bits compact_bits vals # rows)))"

definition CreateConnector :: "nat \<Rightarrow> bytes \<Rightarrow> connector_error + connector" where
  "CreateConnector base data =
     (case ParseMetadata data of
        Inl e \<Rightarrow> Inl e
      | Inr md \<Rightarrow>
          let ptr = kMetadataByteSize; default_cost_size = DefaultCostArraySize md * 2
          in if length data < ptr + default_cost_size then Inl PastTheEnd
             else if (base + ptr) mod 4 \<noteq> 0 then Inl NotAligned
             else (case ReadRows base data (ChunkBitsSize md) (unat (md_rsize md)) (ptr + default_cost_size) of
                     Inl e \<Rightarrow> Inl e
                   | Inr rows \<Rightarrow>
                       Inr \<lparr>cn_rows = map RowBuildIndex rows,
                            cn_default_cost = map (\<lambda>i. load16 data (ptr + 2 * i)) [0 ..< DefaultCostArraySize md],
                            cn_resolution = uint (md_resolution md), cn_use_1byte_value = Use1ByteValue md,
                            cn_cache = replicate (unat kCacheSize) 0\<rparr>))"

definition LookupCost :: "connector \<Rightarrow> 16 word \<Rightarrow> 16 word \<Rightarrow> int option" where
  "LookupCost c rid lid =
     (if unat rid < length (cn_rows c)
      then do {
        value \<leftarrow> GetValue (cn_rows c ! unat rid) lid (cn_use_1byte_value c);
        Some (case value of
                None \<Rightarrow> uint (cn_default_cost c ! unat rid)
              | Some v \<Rightarrow> if v = kInvalidCost then kInvalidCost else v * cn_resolution c) }
      else None)"

definition CacheIndex :: "16 word \<Rightarrow> 16 word \<Rightarrow> 32 word" where
  "CacheIndex rid lid = push_bit 16 (ucast rid) OR ucast lid"

definition CacheBucket :: "16 word \<Rightarrow> 16 word \<Rightarrow> nat" where
  "CacheBucket rid lid = unat ((3 * ucast rid + ucast lid) AND kCacheHashMask)"

text \<open>The load of a cache entry, with the cost where it is a hit, and the entry stored after a miss.\<close>

definition CacheHit :: "64 word \<Rightarrow> 16 word \<Rightarrow> 16 word \<Rightarrow> int option" where
  "CacheHit cv rid lid = (if ucast cv = CacheIndex rid lid then Some (sint (ucast (drop_bit 32 cv) :: 32 word)) else None)"

definition CacheEntry :: "16 word \<Rightarrow> 16 word \<Rightarrow> int \<Rightarrow> 64 word" where
  "CacheEntry rid lid value = push_bit 32 (word_of_int value) OR ucast (CacheIndex rid lid)"

definition GetTransitionCost :: "16 word \<Rightarrow> 16 word \<Rightarrow> connector \<Rightarrow> (int \<times> connector) option" where
  "GetTransitionCost rid lid c =
     (case CacheHit (cn_cache c ! CacheBucket rid lid) rid lid of
        Some cost \<Rightarrow> Some (cost, c)
      | None \<Rightarrow>
          do {
            value \<leftarrow> LookupCost c rid lid;
            Some (value, c\<lparr>cn_cache := (cn_cache c)[CacheBucket rid lid := CacheEntry rid lid value]\<rparr>) })"

section \<open>gen\_connection\_data.py: the writer of the image\<close>

definition INVALID_COST :: int where "INVALID_COST = 30000"
definition INVALID_1BYTE_COST :: int where "INVALID_1BYTE_COST = 255"
definition RESOLUTION_FOR_1BYTE :: int where "RESOLUTION_FOR_1BYTE = 64"

fun SplitChunk :: "nat \<Rightarrow> 'a list \<Rightarrow> 'a list list" where
  "SplitChunk n xs = (if xs = [] \<or> n = 0 then [] else take n xs # SplitChunk n (drop n xs))"

declare SplitChunk.simps [simp del]

text \<open>\<^verbatim>\<open>struct.pack\<close> of a 16-bit number and of a byte; a number out of range raises an exception, None here.\<close>

definition pack_H :: "int \<Rightarrow> bytes option" where
  "pack_H x = (if 0 \<le> x \<and> x < 65536 then Some (le_bytes 2 (word_of_int x :: 16 word)) else None)"

definition pack_B :: "int \<Rightarrow> bytes option" where
  "pack_B x = (if 0 \<le> x \<and> x < 256 then Some [word_of_int x] else None)"

definition pack_all :: "(int \<Rightarrow> bytes option) \<Rightarrow> int list \<Rightarrow> bytes option" where
  "pack_all pack xs = map_option concat (those (map pack xs))"

definition CompressRow :: "int list \<Rightarrow> int \<Rightarrow> int option list" where
  "CompressRow r mode_value = map (\<lambda>cost. if cost = mode_value then None else Some cost) r"

definition byte_of_bits :: "bool list \<Rightarrow> byte" where
  "byte_of_bits bits = foldr (\<lambda>b byte. (if b then 1 else 0) OR push_bit 1 byte) bits 0"

definition OutputBitList :: "bool list \<Rightarrow> bytes" where
  "OutputBitList bits = map byte_of_bits (SplitChunk 8 bits)"

definition AlignBits :: "bool list \<Rightarrow> bool list" where
  "AlignBits bits = bits @ replicate ((32 - length bits mod 32) mod 32) False"

text \<open>The number written for a cost, None for a failing assertion.\<close>

definition QuantizeCost :: "bool \<Rightarrow> int \<Rightarrow> int option" where
  "QuantizeCost use_1byte_cost cost =
     (if use_1byte_cost
      then (if cost = INVALID_COST then Some INVALID_1BYTE_COST
            else if cost div RESOLUTION_FOR_1BYTE = INVALID_1BYTE_COST then None
            else Some (cost div RESOLUTION_FOR_1BYTE))
      else Some cost)"

definition ChunkBits :: "int option list \<Rightarrow> bool list" where
  "ChunkBits r = map (\<lambda>chunk. \<not> list_all (\<lambda>cost. cost = None) chunk) (SplitChunk 8 r)"

definition CompactBits :: "int option list \<Rightarrow> bool list" where
  "CompactBits r =
     concat (map (map (\<lambda>cost. cost \<noteq> None)) (filter (\<lambda>chunk. \<not> list_all (\<lambda>cost. cost = None) chunk) (SplitChunk 8 r)))"

definition RowValues :: "bool \<Rightarrow> int option list \<Rightarrow> int list option" where
  "RowValues use_1byte_cost r = those (map (\<lambda>cost. QuantizeCost use_1byte_cost (the cost)) (filter (\<lambda>cost. cost \<noteq> None) r))"

definition BuildRowData :: "bool \<Rightarrow> int option list \<Rightarrow> bytes option" where
  "BuildRowData use_1byte_cost r =
     do {
       vals \<leftarrow> RowValues use_1byte_cost r;
       let chunk_bits = AlignBits (ChunkBits r);
       let compact_bits = AlignBits (CompactBits r);
       let width = (if use_1byte_cost then 4 else 2);
       let vals = vals @ replicate ((width - length vals mod width) mod width) 0;
       let values_size = (if use_1byte_cost then length vals else length vals * 2);
       compact_size \<leftarrow> pack_H (int (length compact_bits div 8));
       vals_size \<leftarrow> pack_H (int values_size);
       value_bytes \<leftarrow> pack_all (if use_1byte_cost then pack_B else pack_H) vals;
       Some (compact_size @ vals_size @ OutputBitList chunk_bits @ OutputBitList compact_bits @ value_bytes) }"

definition BuildBinaryData :: "int option list list \<Rightarrow> int list \<Rightarrow> bool \<Rightarrow> bytes option" where
  "BuildBinaryData matrix mode_value_list use_1byte_cost =
     do {
       resolution \<leftarrow> pack_H (if use_1byte_cost then RESOLUTION_FOR_1BYTE else 1);
       matrix_size \<leftarrow> pack_H (int (length matrix));
       modes \<leftarrow> pack_all pack_H mode_value_list;
       rows \<leftarrow> those (map (BuildRowData use_1byte_cost) matrix);
       Some ([0xAB, 0xCD] @ resolution @ matrix_size @ matrix_size @ modes @
             (if odd (length mode_value_list) then [0, 0] else []) @ concat rows) }"

definition ConnectionData :: "int list list \<Rightarrow> int list \<Rightarrow> bool \<Rightarrow> bytes option" where
  "ConnectionData matrix mode_value_list use_1byte_cost =
     (if length matrix = length mode_value_list
      then BuildBinaryData (map2 CompressRow matrix mode_value_list) mode_value_list use_1byte_cost else None)"

section \<open>Ranks\<close>

lemma BuildRank_nth:
  "4 * n \<le> length data \<Longrightarrow> i < n \<Longrightarrow> BuildRank data n count ! i = ucast (count + of_nat (ones (bits_of (take (4 * i) data))))"
proof (induction data n count arbitrary: i rule: BuildRank.induct)
  case (2 data n count)
  show ?case
  proof (cases i)
    case (Suc j)
    have "8 * length (take 4 data) \<le> LENGTH(32)" by simp
    from popcount_load_le [OF this] have p: "popcount (load_le (take 4 data) :: 32 word) = ones (bits_of (take 4 data))" .
    have "take (4 * Suc j) data = take 4 data @ take (4 * j) (drop 4 data)" using take_add [of 4 "4 * j" data] by simp
    then show ?thesis using 2 Suc by (simp add: p add.assoc)
  qed simp
qed simp

lemma length_BuildRank [simp]: "length (BuildRank data n count) = n"
  by (induction data n count rule: BuildRank.induct) simp_all

lemma popcount_mask: "k < 32 \<Longrightarrow> popcount ((w :: 32 word) AND (push_bit k 1 - 1)) = ones (take k (map (bit w) [0 ..< 32]))"
proof -
  assume k: "k < 32"
  have m: "push_bit k 1 - 1 = (mask k :: 32 word)" by (simp add: mask_eq_exp_minus_1 push_bit_eq_mult)
  have u: "[0 ..< 32] = [0 ..< k] @ [k ..< 32]" using k upt_add_eq_append [of 0 k "32 - k"] by simp
  have "map (bit (w AND mask k)) [0 ..< 32] = map (bit w) [0 ..< k] @ replicate (32 - k) False"
    unfolding u map_append by (intro arg_cong2 [where f = append] nth_equalityI) (use k in \<open>auto simp: bit_simps\<close>)
  moreover have "popcount (w AND mask k) = ones (map (bit (w AND mask k)) [0 ..< 32])" using popcount_ones [of "w AND mask k"] by simp
  ultimately show ?thesis using k unfolding m by (simp add: take_map del: upt_rec_numeral)
qed

lemma Rank1IfSet_bits:
  assumes d: "length data mod 4 = 0" and n: "n < 8 * length data" and o: "ones (bits_of data) < 65536"
  shows "Rank1IfSet (BuildIndex \<lparr>rb_data = data, rb_rank_index = r\<rparr>) n =
    Some (if bits_of data ! n then Some (ones (take n (bits_of data))) else None)"
proof -
  let ?i = "n div 32" and ?k = "n mod 32"
  have "4 * ?i + 4 \<le> length data"
  proof -
    obtain m where m: "length data = 4 * m" using d by (metis mod_0_imp_dvd dvdE)
    then have "?i < m" using n by (simp add: less_mult_imp_div_less)
    then show ?thesis using m by simp
  qed
  then obtain w where w: "LoadUnaligned32 data (4 * ?i) = Some w" "map (bit w) [0 ..< 32] = bits_of (take 4 (drop (4 * ?i) data))"
    by (rule LoadUnaligned32_bits)
  have i: "?i < length data div 4" using \<open>4 * ?i + 4 \<le> length data\<close> by linarith
  have split: "bits_of data = bits_of (take (4 * ?i) data) @ map (bit w) [0 ..< 32] @ bits_of (drop (4 * ?i + 4) data)"
    unfolding w(2) by (metis append_take_drop_id bits_of_simps(3) drop_drop add.commute)
  have l: "length (bits_of (take (4 * ?i) data)) = 32 * ?i" using \<open>4 * ?i + 4 \<le> length data\<close> by simp
  have k: "?k < 32" by simp
  define A where "A = bits_of (take (4 * ?i) data)"
  have nk: "n = length A + ?k" using l by (simp add: A_def)
  have s: "bits_of data = A @ map (bit w) [0 ..< 32] @ bits_of (drop (4 * ?i + 4) data)" unfolding A_def by (rule split)
  have "bits_of data ! n = (map (bit w) [0 ..< 32] @ bits_of (drop (4 * ?i + 4) data)) ! ?k"
    unfolding s by (subst nk) (rule nth_append_length_plus)
  then have "bits_of data ! n = bit w ?k" using k by (simp add: nth_append del: upt_rec_numeral)
  moreover have "take n (bits_of data) = A @ take ?k (map (bit w) [0 ..< 32])"
    unfolding s by (subst nk) (use k in \<open>simp del: upt_rec_numeral\<close>)
  then have "ones (take n (bits_of data)) = ones (bits_of (take (4 * ?i) data)) + ones (take ?k (map (bit w) [0 ..< 32]))"
    by (simp add: A_def del: upt_rec_numeral)
  moreover have "unat (BuildRank data (length data div 4) 0 ! ?i) = ones (bits_of (take (4 * ?i) data))"
  proof -
    have "ones (bits_of (take (4 * ?i) data)) \<le> ones (bits_of data)"
      using ones_take_le [of "8 * (4 * ?i)" "bits_of data"] unfolding take_bits_of .
    then have s: "ones (bits_of (take (4 * ?i) data)) < 65536" using o by simp
    have "4 * (length data div 4) \<le> length data" by simp
    from BuildRank_nth [OF this i, of 0] s show ?thesis by (simp add: unsigned_ucast_eq unat_of_nat take_bit_nat_eq_self_iff unsigned_take_bit_eq)
  qed
  ultimately show ?thesis
    using w(1) popcount_mask [OF k, of w]
    by (simp add: Rank1IfSet_def BuildIndex_def IndexSize_def and_exp_eq_0_iff_not_bit push_bit_eq_mult
        del: upt_rec_numeral)
qed

section \<open>Lists of bits as bytes\<close>

lemma bit_byte_of_bits: "length bits \<le> 8 \<Longrightarrow> bit (byte_of_bits bits) n \<longleftrightarrow> n < length bits \<and> bits ! n"
proof (induction bits arbitrary: n)
  case (Cons b bits)
  have s: "byte_of_bits (b # bits) = (if b then 1 else 0) OR push_bit 1 (byte_of_bits bits)" by (simp add: byte_of_bits_def)
  have z: "bit (if b then 1 else 0 :: byte) n \<longleftrightarrow> b \<and> n = 0" by (simp add: bit_1_iff)
  have p: "bit (push_bit 1 (byte_of_bits bits)) n \<longleftrightarrow> n < 8 \<and> 0 < n \<and> bit (byte_of_bits bits) (n - 1)"
    unfolding bit_push_bit_iff by (auto simp: bit_imp_le_length)
  have l: "length bits \<le> 7" using Cons.prems by simp
  then have ih: "bit (byte_of_bits bits) k \<longleftrightarrow> k < length bits \<and> bits ! k" for k by (intro Cons.IH) simp
  show ?case
  proof (cases n)
    case 0
    then show ?thesis unfolding s bit_or_iff z p by simp
  next
    case (Suc m)
    then show ?thesis unfolding s bit_or_iff z p ih using l by auto
  qed
qed (simp add: byte_of_bits_def)

lemma bits_of_byte: "length bits = 8 \<Longrightarrow> map (bit (byte_of_bits bits)) [0 ..< 8] = bits"
  by (rule nth_equalityI) (simp_all add: bit_byte_of_bits del: upt_rec_numeral)

lemma SplitChunk_Cons: "xs \<noteq> [] \<Longrightarrow> 0 < n \<Longrightarrow> SplitChunk n xs = take n xs # SplitChunk n (drop n xs)"
  by (simp add: SplitChunk.simps [of n xs])

lemma SplitChunk_Nil [simp]: "SplitChunk n [] = []"
  by (simp add: SplitChunk.simps)

lemma bits_of_OutputBitList: "length bits mod 8 = 0 \<Longrightarrow> bits_of (OutputBitList bits) = bits \<and> length (OutputBitList bits) = length bits div 8"
proof (induction bits rule: length_induct)
  case (1 bits)
  show ?case
  proof (cases "bits = []")
    case False
    have l: "8 \<le> length bits" using 1(2) False by (cases "length bits < 8") auto
    have m: "length (drop 8 bits) mod 8 = 0" using 1(2) l by (simp add: le_mod_geq)
    with 1(1) False have ih: "bits_of (OutputBitList (drop 8 bits)) = drop 8 bits"
      "length (OutputBitList (drop 8 bits)) = length (drop 8 bits) div 8" by simp_all
    have s: "OutputBitList bits = byte_of_bits (take 8 bits) # OutputBitList (drop 8 bits)"
      using False by (simp add: OutputBitList_def SplitChunk_Cons)
    show ?thesis unfolding s using ih bits_of_byte [of "take 8 bits"] l
      by (simp add: min_absorb2 le_div_geq del: upt_rec_numeral)
  qed (simp add: OutputBitList_def)
qed

lemma round_up_32: "(x + (32 - x mod 32) mod 32) mod 32 = (0::nat)"
proof (cases "x mod 32 = 0")
  case False
  obtain q r where r: "x = 32 * q + r" "r < 32" "x mod 32 = r" by (metis mod_less_divisor mult_div_mod_eq zero_less_numeral)
  then have "x + (32 - x mod 32) mod 32 = 32 * (q + 1)" using False by simp
  then show ?thesis by (metis mod_mult_self1_is_0)
qed simp

lemma AlignBits_facts:
  "length (AlignBits bits) mod 32 = 0" "length bits \<le> length (AlignBits bits)" "take (length bits) (AlignBits bits) = bits"
  "n < length bits \<Longrightarrow> AlignBits bits ! n = bits ! n" "n \<le> length bits \<Longrightarrow> take n (AlignBits bits) = take n bits"
  "ones (AlignBits bits) = ones bits"
  by (simp_all add: AlignBits_def nth_append round_up_32)

section \<open>A row of the matrix\<close>

definition all_None :: "int option list \<Rightarrow> bool" where
  "all_None xs \<longleftrightarrow> list_all (\<lambda>cost. cost = None) xs"

lemma ChunkBits_step: "r \<noteq> [] \<Longrightarrow> ChunkBits r = (\<not> all_None (take 8 r)) # ChunkBits (drop 8 r)"
  by (simp add: ChunkBits_def SplitChunk_Cons all_None_def)

lemma CompactBits_step:
  "r \<noteq> [] \<Longrightarrow> CompactBits r =
     (if all_None (take 8 r) then [] else map (\<lambda>cost. cost \<noteq> None) (take 8 r)) @ CompactBits (drop 8 r)"
  by (simp add: CompactBits_def SplitChunk_Cons all_None_def)

lemma Bits_Nil [simp]: "ChunkBits [] = []" "CompactBits [] = []"
  by (simp_all add: ChunkBits_def CompactBits_def)

abbreviation count_costs :: "int option list \<Rightarrow> nat" where
  "count_costs xs \<equiv> length (filter (\<lambda>cost. cost \<noteq> None) xs)"

lemma ones_costs: "ones (map (\<lambda>cost. cost \<noteq> None) xs) = count_costs xs"
  by (simp add: ones_def filter_map comp_def)

lemma count_all_None: "all_None xs \<Longrightarrow> count_costs xs = 0"
  by (simp add: all_None_def list_all_iff)

lemma row_bits:
  "lid < length r \<Longrightarrow> lid div 8 < length (ChunkBits r) \<and>
    (if ChunkBits r ! (lid div 8)
     then ones (take (lid div 8) (ChunkBits r)) * 8 + lid mod 8 < length (CompactBits r) \<and>
       (CompactBits r ! (ones (take (lid div 8) (ChunkBits r)) * 8 + lid mod 8) \<longleftrightarrow> r ! lid \<noteq> None) \<and>
       ones (take (ones (take (lid div 8) (ChunkBits r)) * 8 + lid mod 8) (CompactBits r)) = count_costs (take lid r)
     else r ! lid = None)"
proof (induction r arbitrary: lid rule: length_induct)
  case (1 r)
  then have ne: "r \<noteq> []" by auto
  note c = ChunkBits_step [OF ne] and k = CompactBits_step [OF ne]
  show ?case
  proof (cases "lid < 8")
    case True
    have l: "lid < length (take 8 r)" "take 8 r ! lid = r ! lid" using 1(2) True by simp_all
    show ?thesis
    proof (cases "all_None (take 8 r)")
      case a: True
      then have "r ! lid = None" using nth_mem [OF l(1)] l(2) by (simp add: all_None_def list_all_iff)
      moreover have d: "lid div 8 = 0" using True by simp
      ultimately show ?thesis unfolding d using a by (simp add: c)
    next
      case False
      have "take lid (map (\<lambda>cost. cost \<noteq> None) (take 8 r)) = map (\<lambda>cost. cost \<noteq> None) (take lid r)"
        using True by (simp add: take_map min_absorb1)
      then have t: "take lid (CompactBits r) = map (\<lambda>cost. cost \<noteq> None) (take lid r)"
        using l(1) False by (simp add: k)
      have d: "lid div 8 = 0" "lid mod 8 = lid" using True by simp_all
      have "lid < length (CompactBits r)" "CompactBits r ! lid \<longleftrightarrow> r ! lid \<noteq> None"
        using l False by (simp_all add: k nth_append trans_less_add1 del: length_take)
      moreover have "ones (take lid (CompactBits r)) = count_costs (take lid r)" unfolding t by (rule ones_costs)
      ultimately show ?thesis unfolding d by (simp add: c False)
    qed
  next
    case False
    define m where "m = lid - 8"
    have lid: "lid = m + 8" using False by (simp add: m_def)
    have m: "m < length (drop 8 r)" "drop 8 r ! m = r ! lid" using 1(2) lid by (simp_all add: add.commute)
    have len: "length (take 8 r) = 8" using 1(2) False by simp
    have "length (drop 8 r) < length r" using ne by simp
    with 1(1) m(1) have ih: "m div 8 < length (ChunkBits (drop 8 r))"
      "if ChunkBits (drop 8 r) ! (m div 8)
       then ones (take (m div 8) (ChunkBits (drop 8 r))) * 8 + m mod 8 < length (CompactBits (drop 8 r)) \<and>
         (CompactBits (drop 8 r) ! (ones (take (m div 8) (ChunkBits (drop 8 r))) * 8 + m mod 8) \<longleftrightarrow> drop 8 r ! m \<noteq> None) \<and>
         ones (take (ones (take (m div 8) (ChunkBits (drop 8 r))) * 8 + m mod 8) (CompactBits (drop 8 r))) = count_costs (take m (drop 8 r))
       else drop 8 r ! m = None" by blast+
    have d: "lid div 8 = Suc (m div 8)" "lid mod 8 = m mod 8" by (simp_all add: lid)
    have t: "count_costs (take lid r) = count_costs (take 8 r) + count_costs (take m (drop 8 r))"
      unfolding lid add.commute [of m 8] take_add by simp
    let ?q = "ones (take (m div 8) (ChunkBits (drop 8 r))) * 8 + m mod 8"
    show ?thesis
    proof (cases "all_None (take 8 r)")
      case True
      with ih m(2) t count_all_None [OF True] show ?thesis by (cases "ChunkBits (drop 8 r) ! (m div 8)") (simp_all add: c k d)
    next
      case False
      have "take (8 + ?q) (map (\<lambda>cost. cost \<noteq> None) (take 8 r) @ CompactBits (drop 8 r)) =
          map (\<lambda>cost. cost \<noteq> None) (take 8 r) @ take ?q (CompactBits (drop 8 r))" using len by simp
      with False ih m(2) t len ones_costs [of "take 8 r"] show ?thesis
        by (cases "ChunkBits (drop 8 r) ! (m div 8)") (simp_all add: c k d nth_append add.assoc)
    qed
  qed
qed

lemma CompactBits_ones: "ones (CompactBits r) \<le> length r"
proof (induction r rule: length_induct)
  case (1 r)
  show ?case
  proof (cases "r = []")
    case False
    then have "length (drop 8 r) < length r" by simp
    with 1 have "ones (CompactBits (drop 8 r)) \<le> length (drop 8 r)" by blast
    moreover have "count_costs (take 8 r) \<le> length (take 8 r)" by (rule length_filter_le)
    moreover have "length (take 8 r) + length (drop 8 r) = length r" by simp
    ultimately have "count_costs (take 8 r) + ones (CompactBits (drop 8 r)) \<le> length r" by linarith
    moreover have "ones (if all_None (take 8 r) then [] else map (\<lambda>cost. cost \<noteq> None) (take 8 r)) \<le> count_costs (take 8 r)"
      by (cases "all_None (take 8 r)") (simp_all only: if_True if_False ones_simps(1) ones_costs le0 order_refl)
    ultimately show ?thesis unfolding CompactBits_step [OF False] ones_simps(3) by linarith
  qed simp
qed

lemma length_ChunkBits: "length (ChunkBits r) = (length r + 7) div 8"
proof (induction r rule: length_induct)
  case (1 r)
  show ?case
  proof (cases "r = []")
    case False
    then have "length (drop 8 r) < length r" by simp
    with 1 have "length (ChunkBits (drop 8 r)) = (length (drop 8 r) + 7) div 8" by blast
    then show ?thesis unfolding ChunkBits_step [OF False] using False by (cases "length r < 8") (auto simp: Suc_le_eq div_if)
  qed simp
qed

text \<open>The stored number of a cost and the cost that is read back.\<close>

definition stored_cost :: "bool \<Rightarrow> int \<Rightarrow> int" where
  "stored_cost use_1byte cost = (if use_1byte then if cost = INVALID_COST then INVALID_COST else cost div 64 else cost)"

lemma image_of_bits:
  fixes bits :: "bool list"
  defines "data \<equiv> OutputBitList (AlignBits bits)"
  shows "length data mod 4 = 0" "bits_of data = AlignBits bits" "8 * length data = length (AlignBits bits)"
proof -
  have "length (AlignBits bits) mod 32 = 0" by (rule AlignBits_facts)
  then obtain q where q: "length (AlignBits bits) = 32 * q" by (metis mod_0_imp_dvd dvdE)
  then have "length (AlignBits bits) mod 8 = 0" by simp
  from bits_of_OutputBitList [OF this] q
  show "length data mod 4 = 0" "bits_of data = AlignBits bits" "8 * length data = length (AlignBits bits)"
    by (simp_all add: data_def)
qed

lemma Rank1IfSet_image:
  assumes "n < length bits" "ones bits < 65536"
  shows "Rank1IfSet (BuildIndex \<lparr>rb_data = OutputBitList (AlignBits bits), rb_rank_index = r\<rparr>) n =
    Some (if bits ! n then Some (ones (take n bits)) else None)"
proof -
  note i = image_of_bits [of bits]
  have "n < 8 * length (OutputBitList (AlignBits bits))" using assms(1) i(3) AlignBits_facts(2) [of bits] by simp
  from Rank1IfSet_bits [OF i(1) this, of r] assms AlignBits_facts show ?thesis by (simp add: i(2))
qed

lemma those_eq_Some_nth: "those xs = Some ys \<longleftrightarrow> length xs = length ys \<and> (\<forall>i < length xs. xs ! i = Some (ys ! i))"
proof (induction xs arbitrary: ys)
  case (Cons x xs)
  show ?case
    by (cases ys; cases x) (auto simp: Cons.IH All_less_Suc2)
qed auto

definition value_bytes :: "bool \<Rightarrow> int list \<Rightarrow> bytes option" where
  "value_bytes use_1byte vals =
     (let width = (if use_1byte then 4 else 2)
      in pack_all (if use_1byte then pack_B else pack_H) (vals @ replicate ((width - length vals mod width) mod width) 0))"

lemma GetValue_row:
  assumes lid: "unat lid < length r" and r: "length r < 65536"
    and v: "RowValues use_1byte r = Some vals"
    and vb: "\<And>i. i < length vals \<Longrightarrow>
      (if use_1byte then i < length vb \<and> uint (vb ! i) = vals ! i
       else 2 * i + 2 \<le> length vb \<and> uint (load16 vb (2 * i)) = vals ! i)"
  shows "GetValue (RowBuildIndex (NewRow (OutputBitList (AlignBits (ChunkBits r))) (OutputBitList (AlignBits (CompactBits r))) vb)) lid use_1byte
    = Some (map_option (stored_cost use_1byte) (r ! unat lid))"
proof -
  let ?n = "unat lid"
  let ?p = "ones (take (?n div 8) (ChunkBits r)) * 8 + ?n mod 8"
  note b = row_bits [OF lid]
  have "ones (ChunkBits r) \<le> length (ChunkBits r)" by (rule ones_le)
  also have "\<dots> \<le> length r + 7" unfolding length_ChunkBits by (rule div_le_dividend)
  also have "\<dots> div 1 < 65536 + 7" using r by simp
  finally have o: "ones (ChunkBits r) < 65536"
    using ones_le [of "ChunkBits r"] r unfolding length_ChunkBits by linarith
  have cr: "Rank1IfSet (row_chunk_bits (RowBuildIndex (NewRow (OutputBitList (AlignBits (ChunkBits r))) (OutputBitList (AlignBits (CompactBits r))) vb))) (?n div kChunkWidth)
      = Some (if ChunkBits r ! (?n div 8) then Some (ones (take (?n div 8) (ChunkBits r))) else None)"
    using Rank1IfSet_image [OF _ o] b by (simp add: RowBuildIndex_def NewRow_def kChunkWidth_def)
  have rv: "row_values (RowBuildIndex (NewRow (OutputBitList (AlignBits (ChunkBits r))) (OutputBitList (AlignBits (CompactBits r))) vb)) = vb"
    by (simp add: RowBuildIndex_def NewRow_def)
  show ?thesis
  proof (cases "ChunkBits r ! (?n div 8)")
    case False
    then show ?thesis using b by (simp add: GetValue_def cr)
  next
    case True
    then have p: "?p < length (CompactBits r)" "CompactBits r ! ?p \<longleftrightarrow> r ! ?n \<noteq> None"
      "ones (take ?p (CompactBits r)) = count_costs (take ?n r)" using b by simp_all
    have "ones (CompactBits r) < 65536" using CompactBits_ones [of r] r by simp
    from Rank1IfSet_image [OF p(1) this] have k: "Rank1IfSet (row_compact_bits (RowBuildIndex (NewRow (OutputBitList (AlignBits (ChunkBits r))) (OutputBitList (AlignBits (CompactBits r))) vb))) (ones (take (?n div 8) (ChunkBits r)) * kChunkWidth + ?n mod kChunkWidth)
      = Some (if r ! ?n \<noteq> None then Some (count_costs (take ?n r)) else None)"
      using p(2,3) by (simp add: RowBuildIndex_def NewRow_def kChunkWidth_def)
    show ?thesis
    proof (cases "r ! ?n")
      case None
      then show ?thesis by (simp add: GetValue_def cr True k)
    next
      case (Some cost)
      let ?i = "count_costs (take ?n r)"
      let ?costs = "filter (\<lambda>cost. cost \<noteq> None) r"
      have "r = take ?n r @ Some cost # drop (Suc ?n) r" using id_take_nth_drop [OF lid] Some by simp
      from arg_cong [OF this, of "filter (\<lambda>cost. cost \<noteq> None)"]
      have split: "?costs = filter (\<lambda>cost. cost \<noteq> None) (take ?n r) @ Some cost # filter (\<lambda>cost. cost \<noteq> None) (drop (Suc ?n) r)"
        unfolding filter_append by simp
      have i: "?i < length ?costs" "?costs ! ?i = Some cost" unfolding split by (simp_all add: nth_append)
      have vals: "length vals = length ?costs" "QuantizeCost use_1byte cost = Some (vals ! ?i)"
        using v i unfolding RowValues_def by (auto simp: those_eq_Some_nth)
      have st: "vals ! ?i = (if use_1byte \<and> cost = INVALID_COST then 255 else stored_cost use_1byte cost)"
        "use_1byte \<and> cost \<noteq> INVALID_COST \<longrightarrow> vals ! ?i \<noteq> 255"
        using vals(2) by (auto simp: QuantizeCost_def stored_cost_def INVALID_1BYTE_COST_def RESOLUTION_FOR_1BYTE_def split: if_splits)
      have "?i < length vals" using i(1) vals(1) by simp
      note w = vb [OF this]
      show ?thesis
      proof (cases use_1byte)
        case False
        then show ?thesis using w st Some by (simp add: GetValue_def cr True k rv stored_cost_def)
      next
        case t: True
        have u: "vb ! ?i = 255 \<longleftrightarrow> uint (vb ! ?i) = 255" using word_uint_eq_iff [of "vb ! ?i" 255] by simp
        have "(if vb ! ?i = 255 then 30000 else uint (vb ! ?i)) = stored_cost use_1byte cost"
          unfolding u using w st t by (simp add: stored_cost_def INVALID_COST_def split: if_splits)
        moreover have "?i < length vb" using w t by simp
        ultimately show ?thesis using Some t
          by (simp add: GetValue_def cr True k rv kInvalid1ByteCostValue_def kInvalidCost_def Let_def del: not_None_eq split: if_splits)
      qed
    qed
  qed
qed

section \<open>Reading the image back\<close>

lemma pack_H_Some: "pack_H x = Some bs \<Longrightarrow> length bs = 2 \<and> 0 \<le> x \<and> x < 65536 \<and> load_le bs = (word_of_int x :: 16 word)"
  using load_le_bytes [of 2 "word_of_int x :: 16 word"] by (auto simp: pack_H_def split: if_splits)

lemma uint_word_of_int_16: "0 \<le> x \<Longrightarrow> x < 65536 \<Longrightarrow> uint (word_of_int x :: 16 word) = x"
  by (simp add: uint_word_of_int)

lemma pack_all_H:
  assumes "pack_all pack_H xs = Some bs"
  shows "length bs = 2 * length xs \<and> (\<forall>i < length xs. load16 bs (2 * i) = word_of_int (xs ! i) \<and> 0 \<le> xs ! i \<and> xs ! i < 65536)"
  using assms
proof (induction xs arbitrary: bs)
  case (Cons x xs)
  then obtain b cs where b: "pack_H x = Some b" "pack_all pack_H xs = Some cs" "bs = b @ cs"
    by (auto simp: pack_all_def split: option.splits)
  note p = pack_H_Some [OF b(1)]
  have "load16 bs (2 * i) = word_of_int ((x # xs) ! i) \<and> 0 \<le> (x # xs) ! i \<and> (x # xs) ! i < 65536" if "i < length (x # xs)" for i
  proof (cases i)
    case 0
    then show ?thesis using p b(3) by (simp add: load16_def)
  next
    case (Suc j)
    then have "load16 bs (2 * i) = load16 cs (2 * j)" using p b(3) by (simp add: load16_def)
    then show ?thesis using Cons.IH [OF b(2)] Suc that by simp
  qed
  then show ?case using Cons.IH [OF b(2)] p b(3) by simp
qed (simp add: pack_all_def)

lemma pack_all_B:
  assumes "pack_all pack_B xs = Some bs"
  shows "length bs = length xs \<and> (\<forall>i < length xs. uint (bs ! i) = xs ! i)"
  using assms
proof (induction xs arbitrary: bs)
  case (Cons x xs)
  then obtain b cs where b: "pack_B x = Some b" "pack_all pack_B xs = Some cs" "bs = b @ cs"
    by (auto simp: pack_all_def split: option.splits)
  then have "b = [word_of_int x]" "0 \<le> x" "x < 256" by (auto simp: pack_B_def split: if_splits)
  then have "uint (bs ! 0) = x" "\<And>i. bs ! Suc i = cs ! i" "length bs = Suc (length cs)" using b(3) by (simp_all add: uint_word_of_int)
  then show ?case using Cons.IH [OF b(2)] by (auto simp: nth_Cons split: nat.split)
qed (simp add: pack_all_def)

lemma length_align: "0 < w \<Longrightarrow> (length xs + (w - length xs mod w) mod w) mod w = (0::nat)"
proof (cases "length xs mod w = 0")
  case False
  assume "0 < w"
  then obtain q r where r: "length xs = w * q + r" "r < w" "length xs mod w = r" by (metis mod_less_divisor mult_div_mod_eq)
  then have "length xs + (w - length xs mod w) mod w = w * (q + 1)" using False by simp
  then show ?thesis by (metis mod_mult_self1_is_0)
qed simp

lemma drop_more: "drop n xs = ys @ zs \<Longrightarrow> drop (n + length ys) xs = zs"
  by (metis add.commute append_eq_conv_conj drop_drop)

text \<open>A row as it is written, and as it is read.\<close>

definition row_image :: "bool \<Rightarrow> int option list \<Rightarrow> bytes \<Rightarrow> bytes \<Rightarrow> bool" where
  "row_image use_1byte r bs vb \<longleftrightarrow>
     (\<exists>cs vs. pack_H (int (length (OutputBitList (AlignBits (CompactBits r))))) = Some cs \<and> pack_H (int (length vb)) = Some vs \<and>
       length vb mod 4 = 0 \<and>
       bs = cs @ vs @ OutputBitList (AlignBits (ChunkBits r)) @ OutputBitList (AlignBits (CompactBits r)) @ vb)"

lemma BuildRowData_image:
  assumes "BuildRowData use_1byte r = Some bs"
  obtains vals vb where "RowValues use_1byte r = Some vals" "row_image use_1byte r bs vb"
    "\<forall>i < length vals. if use_1byte then i < length vb \<and> uint (vb ! i) = vals ! i
       else 2 * i + 2 \<le> length vb \<and> uint (load16 vb (2 * i)) = vals ! i"
proof -
  let ?w = "if use_1byte then 4 else 2 :: nat"
  from assms obtain vals cs vs vb where v: "RowValues use_1byte r = Some vals"
    and c: "pack_H (int (length (AlignBits (CompactBits r)) div 8)) = Some cs"
    and s: "pack_H (int (if use_1byte then length (vals @ replicate ((?w - length vals mod ?w) mod ?w) 0)
        else length (vals @ replicate ((?w - length vals mod ?w) mod ?w) 0) * 2)) = Some vs"
    and b: "pack_all (if use_1byte then pack_B else pack_H) (vals @ replicate ((?w - length vals mod ?w) mod ?w) 0) = Some vb"
    and bs: "bs = cs @ vs @ OutputBitList (AlignBits (ChunkBits r)) @ OutputBitList (AlignBits (CompactBits r)) @ vb"
    unfolding BuildRowData_def Let_def bind_eq_Some_conv by blast
  let ?vals = "vals @ replicate ((?w - length vals mod ?w) mod ?w) 0"
  have m: "length ?vals mod ?w = 0" using length_align [of ?w vals] by simp
  have l: "length vb = (if use_1byte then length ?vals else 2 * length ?vals)"
    using b pack_all_H pack_all_B by (auto split: if_splits)
  have l4: "length vb mod 4 = 0"
  proof (cases use_1byte)
    case False
    then obtain q where "length ?vals = 2 * q" using m by (metis (full_types) mod_0_imp_dvd dvdE)
    then show ?thesis using l False by simp
  qed (use l m in simp)
  have k: "length (OutputBitList (AlignBits (CompactBits r))) = length (AlignBits (CompactBits r)) div 8"
    using image_of_bits(3) [of "CompactBits r"] by simp
  have "row_image use_1byte r bs vb"
    using c s l l4 bs unfolding row_image_def k by (cases use_1byte) (auto simp: mult.commute)
  moreover have "if use_1byte then i < length vb \<and> uint (vb ! i) = vals ! i
       else 2 * i + 2 \<le> length vb \<and> uint (load16 vb (2 * i)) = vals ! i" if i: "i < length vals" for i
  proof (cases use_1byte)
    case True
    then show ?thesis using pack_all_B [of ?vals vb] b i l by (simp add: nth_append)
  next
    case False
    then have p: "pack_all pack_H ?vals = Some vb" using b by simp
    have iv: "i < length ?vals" "?vals ! i = vals ! i" using i by (simp_all add: nth_append)
    have "load16 vb (2 * i) = word_of_int (vals ! i) \<and> 0 \<le> vals ! i \<and> vals ! i < 65536"
      using conjunct2 [OF pack_all_H [OF p]] iv(1) unfolding iv(2) [symmetric] by blast
    then show ?thesis using False i l uint_word_of_int_16 [of "vals ! i"] by simp
  qed
  ultimately show thesis using that v by blast
qed

lemma ReadRows_images:
  assumes "list_all2 (\<lambda>r (bs, vb). row_image use_1byte r bs vb \<and> length (OutputBitList (AlignBits (ChunkBits r))) = csize) rs imgs"
    and "drop ptr data = concat (map fst imgs)" "ptr \<le> length data" "(base + ptr) mod 4 = 0" "csize mod 4 = 0"
  shows "ReadRows base data csize (length rs) ptr =
    Inr (map2 (\<lambda>r (bs, vb). NewRow (OutputBitList (AlignBits (ChunkBits r))) (OutputBitList (AlignBits (CompactBits r))) vb) rs imgs)"
  using assms
proof (induction rs arbitrary: imgs ptr)
  case (Cons r rs)
  from Cons.prems(1) obtain bs vb imgs' where imgs: "imgs = (bs, vb) # imgs'" and ri: "row_image use_1byte r bs vb"
    and cl: "length (OutputBitList (AlignBits (ChunkBits r))) = csize"
    and rest: "list_all2 (\<lambda>r (bs, vb). row_image use_1byte r bs vb \<and> length (OutputBitList (AlignBits (ChunkBits r))) = csize) rs imgs'"
    by (auto simp: list_all2_Cons1)
  let ?c = "OutputBitList (AlignBits (ChunkBits r))" and ?k = "OutputBitList (AlignBits (CompactBits r))"
  from ri obtain cs vs where cs: "pack_H (int (length ?k)) = Some cs" and vs: "pack_H (int (length vb)) = Some vs"
    and l4: "length vb mod 4 = 0" and bs: "bs = cs @ vs @ ?c @ ?k @ vb" by (auto simp: row_image_def)
  note pc = pack_H_Some [OF cs] and pv = pack_H_Some [OF vs]
  let ?rest = "concat (map fst imgs')"
  have d: "drop ptr data = cs @ vs @ ?c @ ?k @ vb @ ?rest" using Cons.prems(2) imgs bs by simp
  have len: "length data = ptr + 4 + csize + length ?k + length vb + length ?rest"
    using arg_cong [OF d, of length] Cons.prems(3) pc pv cl by simp
  have d2: "drop (ptr + 2) data = vs @ ?c @ ?k @ vb @ ?rest" using drop_more [OF d] pc by simp
  have d4: "drop (ptr + 4) data = ?c @ ?k @ vb @ ?rest" using drop_more [OF d2] pv by (metis add.assoc numeral_Bit0)
  have d5: "drop (ptr + 4 + csize) data = ?k @ vb @ ?rest" using drop_more [OF d4] unfolding cl .
  note d6 = drop_more [OF d5]
  note d7 = drop_more [OF d6]
  have k4: "length ?k mod 4 = 0" by (rule image_of_bits(1))
  have lk: "unat (load16 data ptr) = length ?k"
    using d pc by (simp add: load16_def unat_of_nat)
  have lv: "unat (load16 data (ptr + 2)) = length vb"
    using d2 pv by (simp add: load16_def unat_of_nat)
  have a: "(base + (ptr + 4)) mod 4 = 0" "(base + (ptr + 4 + csize)) mod 4 = 0" "(base + (ptr + 4 + csize + length ?k)) mod 4 = 0"
    "(base + (ptr + 4 + csize + length ?k + length vb)) mod 4 = 0"
    using Cons.prems(4,5) k4 l4 by presburger+
  have ih: "ReadRows base data csize (length rs) (ptr + 4 + csize + length ?k + length vb) =
    Inr (map2 (\<lambda>r (bs, vb). NewRow (OutputBitList (AlignBits (ChunkBits r))) (OutputBitList (AlignBits (CompactBits r))) vb) rs imgs')"
    using len a(4) by (intro Cons.IH [OF rest d7 _ _ Cons.prems(5)]) simp_all
  have p4: "ptr + 2 + 2 = ptr + 4" by simp
  have pc2: "ptr + 2 \<le> length data" "ptr + 4 \<le> length data" using len by linarith+
  show ?case
    using len a ih cl pc2 imgs
    by (simp add: Let_def lk lv p4 d4 d5 d6 del: add_2_eq_Suc add_2_eq_Suc')
qed (simp)

section \<open>The matrix behind a connector\<close>

text \<open>What is left of a cost: with one byte a cost other than the mode of its row is a multiple of 64.\<close>

definition connection_cost :: "bool \<Rightarrow> int \<Rightarrow> int \<Rightarrow> int" where
  "connection_cost use_1byte_cost mode_value cost =
     (if cost = mode_value \<or> cost = INVALID_COST \<or> \<not> use_1byte_cost then cost else cost div 64 * 64)"

lemma chunk_image_size:
  assumes "length r = n"
  shows "length (OutputBitList (AlignBits (ChunkBits r))) = ((n + 7) div 8 + 31) div 32 * 4"
proof -
  let ?x = "(n + 7) div 8"
  have "8 * length (OutputBitList (AlignBits (ChunkBits r))) = ?x + (32 - ?x mod 32) mod 32"
    using image_of_bits(3) [of "ChunkBits r"] length_ChunkBits [of r] assms by (simp add: AlignBits_def)
  also have "\<dots> = 32 * ((?x + 31) div 32)"
  proof -
    obtain q r where "?x = 32 * q + r" "r < 32" "?x mod 32 = r" by (metis mod_less_divisor mult_div_mod_eq zero_less_numeral)
    moreover have "(r + 31) div 32 = (if r = 0 then 0 else 1)" using calculation(2) by (auto intro: div_nat_eqI)
    moreover have "(32 * q + r + 31) div 32 = q + (r + 31) div 32" by (simp add: add.assoc)
    ultimately show ?thesis by (cases "r = 0") simp_all
  qed
  finally show ?thesis by simp
qed

lemma BuildRowData_read:
  assumes "BuildRowData use_1byte r = Some bs" "length r < 65536"
  obtains vb where "row_image use_1byte r bs vb"
    "\<And>lid. unat lid < length r \<Longrightarrow>
       GetValue (RowBuildIndex (NewRow (OutputBitList (AlignBits (ChunkBits r))) (OutputBitList (AlignBits (CompactBits r))) vb)) lid use_1byte
       = Some (map_option (stored_cost use_1byte) (r ! unat lid))"
    "\<And>cost. Some cost \<in> set r \<Longrightarrow> use_1byte \<Longrightarrow> cost \<noteq> INVALID_COST \<Longrightarrow> cost div 64 < 256"
proof -
  obtain vals vb where v: "RowValues use_1byte r = Some vals" "row_image use_1byte r bs vb"
    "\<forall>i < length vals. if use_1byte then i < length vb \<and> uint (vb ! i) = vals ! i
       else 2 * i + 2 \<le> length vb \<and> uint (load16 vb (2 * i)) = vals ! i"
    by (rule BuildRowData_image [OF assms(1)])
  have "cost div 64 < 256" if c: "Some cost \<in> set r" "use_1byte" "cost \<noteq> INVALID_COST" for cost
  proof -
    from c(1) have "Some cost \<in> set (filter (\<lambda>cost. cost \<noteq> None) r)" by simp
    then obtain i where i: "i < length (filter (\<lambda>cost. cost \<noteq> None) r)" "filter (\<lambda>cost. cost \<noteq> None) r ! i = Some cost"
      by (auto simp only: in_set_conv_nth)
    then have iv: "i < length vals" "vals ! i = cost div 64"
      using v(1) c(2,3) unfolding RowValues_def those_eq_Some_nth
      by (auto simp: QuantizeCost_def RESOLUTION_FOR_1BYTE_def split: if_splits)
    have "uint (vb ! i) = cost div 64" using v(3) iv c(2) by simp
    then show ?thesis using unsigned_less [of "vb ! i", where 'a = int] by simp
  qed
  with that [OF v(2)] GetValue_row [OF _ assms(2) v(1) v(3) [rule_format]] show thesis by blast
qed

lemma load16_append: "length as = n \<Longrightarrow> length b = 2 \<Longrightarrow> load16 (as @ b @ cs) n = load_le b"
  by (simp add: load16_def)

text \<open>The image of a matrix: its header, the modes of the rows and the images of the rows.\<close>

definition connection_metadata :: "nat \<Rightarrow> bool \<Rightarrow> metadata" where
  "connection_metadata n use_1byte_cost =
     \<lparr>md_magic = 0xCDAB, md_resolution = (if use_1byte_cost then 64 else 1), md_rsize = of_nat n, md_lsize = of_nat n\<rparr>"

definition connection_image :: "int list list \<Rightarrow> int list \<Rightarrow> bool \<Rightarrow> bytes \<Rightarrow> bytes list \<Rightarrow> bool" where
  "connection_image matrix modes use_1byte_cost img rows \<longleftrightarrow>
     (let n = length matrix; ptr = 8 + (n + n mod 2) * 2 in
      n < 65536 \<and> length modes = n \<and> length rows = n \<and> ParseMetadata img = Inr (connection_metadata n use_1byte_cost) \<and>
      ptr \<le> length img \<and> drop ptr img = concat rows \<and> (\<forall>i < n. uint (load16 img (8 + 2 * i)) = modes ! i) \<and>
      (\<forall>i < n. BuildRowData use_1byte_cost (CompressRow (matrix ! i) (modes ! i)) = Some (rows ! i)))"

lemma ConnectionData_image:
  assumes data: "ConnectionData matrix modes use_1byte_cost = Some img"
  shows "\<exists>rows. connection_image matrix modes use_1byte_cost img rows"
proof -
  let ?n = "length matrix" and ?cells = "map2 CompressRow matrix modes"
  let ?res = "if use_1byte_cost then RESOLUTION_FOR_1BYTE else 1"
  have lm: "length modes = ?n" using data by (auto simp: ConnectionData_def split: if_splits)
  obtain rs ns ms rows where rs: "pack_H ?res = Some rs" and ns: "pack_H (int ?n) = Some ns" and ms: "pack_all pack_H modes = Some ms"
    and rows: "those (map (BuildRowData use_1byte_cost) ?cells) = Some rows"
    and img: "img = [0xAB, 0xCD] @ rs @ ns @ ns @ ms @ (if odd ?n then [0, 0] else []) @ concat rows"
    using data lm by (auto simp: ConnectionData_def BuildBinaryData_def bind_eq_Some_conv)
  note pr = pack_H_Some [OF rs] and pn = pack_H_Some [OF ns] and pm = pack_all_H [OF ms]
  have n: "?n < 65536" using pn by simp
  have res: "word_of_int ?res = (if use_1byte_cost then 64 else 1 :: 16 word)" by (simp add: RESOLUTION_FOR_1BYTE_def)
  have "load16 img 0 = 0xCDAB" using img by (simp add: load16_def)
  moreover have "load16 img 2 = word_of_int ?res" using load16_append [of "[0xAB, 0xCD]" 2 rs] img pr by simp
  moreover have "load16 img 4 = of_nat ?n" using load16_append [of "[0xAB, 0xCD] @ rs" 4 ns] img pr pn by simp
  moreover have "load16 img 6 = of_nat ?n" using load16_append [of "[0xAB, 0xCD] @ rs @ ns" 6 ns] img pr pn by simp
  moreover have l8: "\<not> length img < 8" using img pr pn by simp
  ultimately have md: "ParseMetadata img = Inr (connection_metadata ?n use_1byte_cost)"
    by (simp add: ParseMetadata_def kMetadataByteSize_def kConnectorMagicNumber_def Let_def connection_metadata_def res)
  let ?ptr = "8 + (?n + ?n mod 2) * 2"
  have d8: "drop 8 img = ms @ (if odd ?n then [0, 0] else []) @ concat rows" using img pr pn by simp
  have lp: "length (ms @ (if odd ?n then [0, 0 :: byte] else [])) = (?n + ?n mod 2) * 2"
    using pm lm by (cases "odd ?n") (simp_all add: odd_iff_mod_2_eq_one)
  have dp: "drop ?ptr img = concat rows" using drop_more [of 8 img "ms @ (if odd ?n then [0, 0] else [])" "concat rows"] d8 lp by simp
  have len: "?ptr \<le> length img" using arg_cong [OF d8, of length] l8 lp by simp
  have "uint (load16 img (8 + 2 * i)) = modes ! i" if i: "i < ?n" for i
  proof -
    have "drop (8 + 2 * i) img = drop (2 * i) (drop 8 img)" by (simp add: add.commute)
    also have "\<dots> = drop (2 * i) ms @ (if odd ?n then [0, 0] else []) @ concat rows" using d8 pm lm i by simp
    finally have "load16 img (8 + 2 * i) = load16 ms (2 * i)" using pm lm i by (simp add: load16_def)
    then show ?thesis using pm lm i uint_word_of_int_16 [of "modes ! i"] by simp
  qed
  moreover have "length rows = ?n \<and> (\<forall>i < ?n. BuildRowData use_1byte_cost (CompressRow (matrix ! i) (modes ! i)) = Some (rows ! i))"
    using rows lm unfolding those_eq_Some_nth by auto
  ultimately have "connection_image matrix modes use_1byte_cost img rows"
    using n lm md len dp unfolding connection_image_def Let_def by blast
  then show ?thesis by blast
qed

text \<open>The rows of the connector over such an image.\<close>

definition row_of_cells :: "int option list \<Rightarrow> bytes \<Rightarrow> row" where
  "row_of_cells r vb =
     RowBuildIndex (NewRow (OutputBitList (AlignBits (ChunkBits r))) (OutputBitList (AlignBits (CompactBits r))) vb)"

lemma connection_rows:
  assumes image: "connection_image matrix modes use_1byte_cost img rows" and square: "\<forall>r \<in> set matrix. length r = length matrix"
  shows "\<exists>vb. \<forall>i < length matrix. row_image use_1byte_cost (CompressRow (matrix ! i) (modes ! i)) (rows ! i) (vb i) \<and>
    (\<forall>lid. unat lid < length matrix \<longrightarrow> GetValue (row_of_cells (CompressRow (matrix ! i) (modes ! i)) (vb i)) lid use_1byte_cost
       = Some (map_option (stored_cost use_1byte_cost) (CompressRow (matrix ! i) (modes ! i) ! unat lid))) \<and>
    (\<forall>cost. Some cost \<in> set (CompressRow (matrix ! i) (modes ! i)) \<longrightarrow> use_1byte_cost \<longrightarrow> cost \<noteq> INVALID_COST \<longrightarrow> cost div 64 < 256)"
proof -
  let ?n = "length matrix" and ?cell = "\<lambda>i. CompressRow (matrix ! i) (modes ! i)"
  have n: "?n < 65536" and built: "\<And>i. i < ?n \<Longrightarrow> BuildRowData use_1byte_cost (?cell i) = Some (rows ! i)"
    using image by (simp_all add: connection_image_def Let_def)
  have l: "length (?cell i) = ?n" if "i < ?n" for i using that square by (simp add: CompressRow_def)
  have "\<forall>i. \<exists>vb. i < ?n \<longrightarrow> row_image use_1byte_cost (?cell i) (rows ! i) vb \<and>
     (\<forall>lid. unat lid < ?n \<longrightarrow>
       GetValue (row_of_cells (?cell i) vb) lid use_1byte_cost = Some (map_option (stored_cost use_1byte_cost) (?cell i ! unat lid))) \<and>
     (\<forall>cost. Some cost \<in> set (?cell i) \<longrightarrow> use_1byte_cost \<longrightarrow> cost \<noteq> INVALID_COST \<longrightarrow> cost div 64 < 256)"
    using BuildRowData_read [OF built] l n unfolding row_of_cells_def by (metis (no_types))
  then show ?thesis by metis
qed

lemma CreateConnector_rows:
  assumes image: "connection_image matrix modes use_1byte_cost img rows" and square: "\<forall>r \<in> set matrix. length r = length matrix"
    and base: "base mod 4 = 0"
    and vb: "\<And>i. i < length matrix \<Longrightarrow> row_image use_1byte_cost (CompressRow (matrix ! i) (modes ! i)) (rows ! i) (vb i)"
  shows "CreateConnector base img = Inr
    \<lparr>cn_rows = map (\<lambda>i. row_of_cells (CompressRow (matrix ! i) (modes ! i)) (vb i)) [0 ..< length matrix],
     cn_default_cost = map (\<lambda>i. load16 img (8 + 2 * i)) [0 ..< length matrix + length matrix mod 2],
     cn_resolution = (if use_1byte_cost then 64 else 1), cn_use_1byte_value = use_1byte_cost, cn_cache = replicate 1024 0\<rparr>"
proof -
  let ?n = "length matrix" and ?cell = "\<lambda>i. CompressRow (matrix ! i) (modes ! i)"
  let ?md = "connection_metadata ?n use_1byte_cost" and ?ptr = "8 + (?n + ?n mod 2) * 2"
  let ?cells = "map ?cell [0 ..< ?n]" and ?imgs = "map (\<lambda>i. (rows ! i, vb i)) [0 ..< ?n]"
  have n: "?n < 65536" and md: "ParseMetadata img = Inr ?md" and len: "?ptr \<le> length img" and dp: "drop ?ptr img = concat rows"
    and lr: "length rows = ?n" using image by (simp_all add: connection_image_def Let_def)
  have un: "unat (of_nat ?n :: 16 word) = ?n" using n by (simp add: unat_of_nat take_bit_nat_eq_self_iff)
  have ds: "DefaultCostArraySize ?md = ?n + ?n mod 2" by (simp add: DefaultCostArraySize_def connection_metadata_def un)
  have cs: "ChunkBitsSize ?md = ((?n + 7) div 8 + 31) div 32 * 4" "((?n + 7) div 8 + 31) div 32 * 4 mod 4 = 0"
    by (simp_all add: ChunkBitsSize_def NumChunkBits_def kChunkWidth_def connection_metadata_def un)
  have al: "(base + 8) mod 4 = 0" "(base + ?ptr) mod 4 = 0" using base by presburger+
  have l: "length (?cell i) = ?n" if "i < ?n" for i using that square by (simp add: CompressRow_def)
  have "list_all2 (\<lambda>r (bs, vb). row_image use_1byte_cost r bs vb \<and>
      length (OutputBitList (AlignBits (ChunkBits r))) = ((?n + 7) div 8 + 31) div 32 * 4) ?cells ?imgs"
    using vb chunk_image_size [OF l] by (simp add: list_all2_conv_all_nth)
  moreover have "map fst ?imgs = rows" using lr by (intro nth_equalityI) simp_all
  ultimately have rr: "ReadRows base img (ChunkBitsSize ?md) ?n ?ptr =
      Inr (map2 (\<lambda>r (bs :: bytes, vb). NewRow (OutputBitList (AlignBits (ChunkBits r))) (OutputBitList (AlignBits (CompactBits r))) vb) ?cells ?imgs)"
    using ReadRows_images [of use_1byte_cost "((?n + 7) div 8 + 31) div 32 * 4" ?cells ?imgs ?ptr img base] dp len al(2) cs by simp
  have rs: "md_rsize ?md = of_nat ?n" "uint (md_resolution ?md) = (if use_1byte_cost then 64 else 1)" "Use1ByteValue ?md = use_1byte_cost"
    by (simp_all add: connection_metadata_def Use1ByteValue_def)
  show ?thesis using md len al rr
    by (simp add: CreateConnector_def Let_def kMetadataByteSize_def ds un kCacheSize_def rs row_of_cells_def map2_map_map o_def)
qed

lemma connection_data_read:
  assumes data: "ConnectionData matrix modes use_1byte_cost = Some img" and square: "\<forall>r \<in> set matrix. length r = length matrix"
    and base: "base mod 4 = 0"
  shows "\<exists>c. CreateConnector base img = Inr c \<and> length (cn_rows c) = length matrix \<and>
    (\<forall>rid lid. unat rid < length matrix \<longrightarrow> unat lid < length matrix \<longrightarrow>
      LookupCost c rid lid = Some (connection_cost use_1byte_cost (modes ! unat rid) (matrix ! unat rid ! unat lid)))"
proof -
  let ?n = "length matrix" and ?cell = "\<lambda>i. CompressRow (matrix ! i) (modes ! i)"
  obtain rows where image: "connection_image matrix modes use_1byte_cost img rows" using ConnectionData_image [OF data] by blast
  obtain vb where vb: "\<forall>i < ?n. row_image use_1byte_cost (?cell i) (rows ! i) (vb i) \<and>
    (\<forall>lid. unat lid < ?n \<longrightarrow> GetValue (row_of_cells (?cell i) (vb i)) lid use_1byte_cost
       = Some (map_option (stored_cost use_1byte_cost) (?cell i ! unat lid))) \<and>
    (\<forall>cost. Some cost \<in> set (?cell i) \<longrightarrow> use_1byte_cost \<longrightarrow> cost \<noteq> INVALID_COST \<longrightarrow> cost div 64 < 256)"
    using connection_rows [OF image square] by blast
  let ?c = "\<lparr>cn_rows = map (\<lambda>i. row_of_cells (?cell i) (vb i)) [0 ..< ?n], cn_default_cost = map (\<lambda>i. load16 img (8 + 2 * i)) [0 ..< ?n + ?n mod 2],
     cn_resolution = (if use_1byte_cost then 64 else 1), cn_use_1byte_value = use_1byte_cost, cn_cache = replicate 1024 0\<rparr>"
  have "LookupCost ?c rid lid = Some (connection_cost use_1byte_cost (modes ! unat rid) (matrix ! unat rid ! unat lid))"
    if r: "unat rid < ?n" and l: "unat lid < ?n" for rid lid
  proof -
    let ?i = "unat rid" and ?j = "unat lid"
    have lrow: "length (matrix ! ?i) = ?n" using square r by simp
    have cj: "?cell ?i ! ?j = (if matrix ! ?i ! ?j = modes ! ?i then None else Some (matrix ! ?i ! ?j))"
      using lrow l by (simp add: CompressRow_def)
    have "length (?cell ?i) = ?n" using lrow by (simp add: CompressRow_def)
    then have mem: "?cell ?i ! ?j \<in> set (?cell ?i)" using l by (intro nth_mem) simp
    have def_cost: "uint (cn_default_cost ?c ! ?i) = modes ! ?i" using image r by (simp add: connection_image_def Let_def)
    have rl: "?i < length (cn_rows ?c)" and row: "cn_rows ?c ! ?i = row_of_cells (?cell ?i) (vb ?i)" using r by simp_all
    have sm: "cost div 64 \<noteq> 30000" if "Some cost \<in> set (?cell ?i)" "use_1byte_cost" "cost \<noteq> INVALID_COST" for cost
      using vb r that by fastforce
    show ?thesis
      using vb [rule_format, OF r] l sm [of "matrix ! ?i ! ?j"] mem unfolding LookupCost_def row if_P [OF rl] def_cost
      by (auto simp: cj connection_cost_def stored_cost_def kInvalidCost_def INVALID_COST_def RESOLUTION_FOR_1BYTE_def
          simp del: One_nat_def)
  qed
  with CreateConnector_rows [OF image square base, of vb] vb show ?thesis by (intro exI [of _ ?c]) simp
qed

text \<open>C8: What the script writes for a square matrix is read back by the connector: for every pair of ids of the matrix the
  connector looks up the cost of the matrix, in the form that uses one byte the cost rounded down to a multiple of 64 unless
  it is the mode of its row or invalid.\<close>
theorem connection_data_roundtrip:
  assumes "ConnectionData matrix modes use_1byte_cost = Some img" "\<forall>r \<in> set matrix. length r = length matrix" "base mod 4 = 0"
  shows "\<exists>c. CreateConnector base img = Inr c \<and>
    (\<forall>rid lid. unat rid < length matrix \<longrightarrow> unat lid < length matrix \<longrightarrow>
      LookupCost c rid lid = Some (connection_cost use_1byte_cost (modes ! unat rid) (matrix ! unat rid ! unat lid)))"
  using connection_data_read [OF assms] by blast

lemma connection_data_roundtrip_witness:
  "\<exists>img c. ConnectionData [[0, 100], [500, 30000]] [0, 500] True = Some img \<and> CreateConnector 0 img = Inr c \<and>
    LookupCost c 0 1 = Some 64 \<and> LookupCost c 1 0 = Some 500 \<and> LookupCost c 1 1 = Some 30000"
proof -
  have img: "ConnectionData [[0, 100], [500, 30000]] [0, 500] True \<noteq> None" by code_simp
  then obtain img where img: "ConnectionData [[0, 100], [500, 30000]] [0, 500] True = Some img" by blast
  obtain c where c: "CreateConnector 0 img = Inr c"
    "\<And>rid lid. unat rid < 2 \<Longrightarrow> unat lid < 2 \<Longrightarrow>
      LookupCost c rid lid = Some (connection_cost True ([0, 500] ! unat rid) ([[0, 100], [500, 30000]] ! unat rid ! unat lid))"
    using connection_data_roundtrip [OF img, of 0] by auto
  have "LookupCost c 0 1 = Some 64" "LookupCost c 1 0 = Some 500" "LookupCost c 1 1 = Some 30000"
    using c(2) [of 0 1] c(2) [of 1 0] c(2) [of 1 1] by (simp_all add: connection_cost_def INVALID_COST_def)
  with img c(1) show ?thesis by blast
qed

text \<open>Every connector that loads has costs below 2 to the 24.\<close>

lemma GetValue_bound:
  assumes "GetValue r lid use_1byte = Some (Some v)"
  shows "0 \<le> v \<and> (if use_1byte then v < 256 \<or> v = kInvalidCost else v < 65536)"
proof -
  have "0 \<le> uint (b :: byte) \<and> uint b < 256" for b using unsigned_less [of b, where 'a = int] by simp
  moreover have "0 \<le> uint (w :: 16 word) \<and> uint w < 65536" for w using unsigned_less [of w, where 'a = int] by simp
  ultimately show ?thesis using assms
    by (auto simp: GetValue_def kInvalidCost_def Let_def bind_eq_Some_conv split: option.splits if_splits)
qed

lemma uint_16_less: "uint (w :: 16 word) < 65536"
  using unsigned_less [of w, where 'a = int] by simp

lemma CreateConnector_costs:
  assumes c: "CreateConnector base data = Inr c" and l: "LookupCost c rid lid = Some cost"
  shows "0 \<le> cost" "cost < 2 ^ 24"
proof -
  have f: "cn_use_1byte_value c = (cn_resolution c \<noteq> 1)" "0 \<le> cn_resolution c" "cn_resolution c < 65536"
    using c by (auto simp: CreateConnector_def Use1ByteValue_def Let_def word_uint_eq_iff uint_16_less split: sum.splits if_splits)
  obtain v where v: "GetValue (cn_rows c ! unat rid) lid (cn_use_1byte_value c) = Some v"
    and cost: "cost = (case v of None \<Rightarrow> uint (cn_default_cost c ! unat rid)
      | Some v \<Rightarrow> if v = kInvalidCost then kInvalidCost else v * cn_resolution c)"
    using l by (auto simp: LookupCost_def bind_eq_Some_conv split: if_splits)
  have "0 \<le> cost \<and> cost < 2 ^ 24"
  proof (cases v)
    case None
    then show ?thesis using cost unsigned_less [of "cn_default_cost c ! unat rid", where 'a = int] by simp
  next
    case (Some x)
    note b = GetValue_bound [OF v [unfolded Some]]
    show ?thesis
    proof (cases "x = kInvalidCost")
      case True
      then show ?thesis using Some cost by (simp add: kInvalidCost_def)
    next
      case False
      have "x * cn_resolution c < 2 ^ 24"
      proof (cases "cn_use_1byte_value c")
        case True
        then have "x * cn_resolution c \<le> 255 * 65535" using b False f by (intro mult_mono) auto
        then show ?thesis by simp
      next
        case one: False
        then show ?thesis using b f by simp
      qed
      then show ?thesis using Some cost False b f(2) by simp
    qed
  qed
  then show "0 \<le> cost" "cost < 2 ^ 24" by simp_all
qed

section \<open>The cache of the connector\<close>

text \<open>Costs fit an \<^verbatim>\<open>int\<close>, and the cost of (0, 0) is 0, as the writer of the data makes it.\<close>

definition sound_connector :: "connector \<Rightarrow> bool" where
  "sound_connector c \<longleftrightarrow>
     (\<forall>rid lid cost. LookupCost c rid lid = Some cost \<longrightarrow> 0 \<le> cost \<and> cost < 2 ^ 31) \<and> LookupCost c 0 0 = Some 0"

definition right_entry :: "connector \<Rightarrow> 64 word \<Rightarrow> bool" where
  "right_entry c cv \<longleftrightarrow> cv = 0 \<or> (\<exists>rid lid cost. cv = CacheEntry rid lid cost \<and> LookupCost c rid lid = Some cost)"

definition right_cache :: "connector \<Rightarrow> bool" where
  "right_cache c \<longleftrightarrow> length (cn_cache c) = 1024 \<and> (\<forall>cv \<in> set (cn_cache c). right_entry c cv)"

lemma LookupCost_cache [simp]: "LookupCost (c\<lparr>cn_cache := x\<rparr>) = LookupCost c"
  by (intro ext) (simp add: LookupCost_def cong: option.case_cong if_cong)

lemma right_entry_cache [simp]: "right_entry (c\<lparr>cn_cache := x\<rparr>) = right_entry c"
  by (intro ext) (simp add: right_entry_def)

lemma CacheIndex_eq: "CacheIndex rid lid = CacheIndex rid' lid' \<longleftrightarrow> rid = rid' \<and> lid = lid'"
proof
  assume e: "CacheIndex rid lid = CacheIndex rid' lid'"
  have hi: "bit (CacheIndex r l) (n + 16) = bit r n" if "n < 16" for r l :: "16 word" and n
    using that by (auto simp: CacheIndex_def bit_simps dest: bit_imp_le_length)
  have lo: "bit (CacheIndex r l) n = bit l n" if "n < 16" for r l :: "16 word" and n
    using that by (auto simp: CacheIndex_def bit_simps)
  show "rid = rid' \<and> lid = lid'"
    using e hi [of _ rid lid] hi [of _ rid' lid'] lo [of _ rid lid] lo [of _ rid' lid'] by (auto intro!: bit_word_eqI)
qed simp

lemma CacheEntry_parts:
  "ucast (CacheEntry rid lid cost) = CacheIndex rid lid"
  "(ucast (drop_bit 32 (CacheEntry rid lid cost)) :: 32 word) = word_of_int cost"
proof -
  show "ucast (CacheEntry rid lid cost) = CacheIndex rid lid"
    by (rule bit_word_eqI) (auto simp: CacheEntry_def bit_simps)
  show "(ucast (drop_bit 32 (CacheEntry rid lid cost)) :: 32 word) = word_of_int cost"
    by (rule bit_word_eqI) (auto simp: CacheEntry_def bit_simps dest: bit_imp_le_length)
qed

lemma CacheBucket_less: "CacheBucket rid lid < 1024"
proof -
  have m: "kCacheHashMask = mask 10" by (simp add: kCacheHashMask_def kCacheSize_def mask_eq_exp_minus_1)
  show ?thesis unfolding CacheBucket_def m unat_and_mask by simp
qed

lemma CacheHit_right:
  assumes "sound_connector c" "right_entry c cv" "CacheHit cv rid lid = Some cost"
  shows "LookupCost c rid lid = Some cost"
proof -
  have h: "ucast cv = CacheIndex rid lid" "cost = sint (ucast (drop_bit 32 cv) :: 32 word)"
    using assms(3) by (simp_all add: CacheHit_def split: if_splits)
  show ?thesis
  proof (cases "cv = 0")
    case True
    have "CacheIndex 0 0 = CacheIndex rid lid" using h(1) True by (simp add: CacheIndex_def)
    then have "rid = 0 \<and> lid = 0" unfolding CacheIndex_eq by simp
    then show ?thesis using h(2) True assms(1) by (simp add: sound_connector_def)
  next
    case False
    then obtain r l x where e: "cv = CacheEntry r l x" "LookupCost c r l = Some x" using assms(2) by (auto simp: right_entry_def)
    have "r = rid \<and> l = lid" using h(1) unfolding e(1) CacheEntry_parts(1) CacheIndex_eq .
    moreover have "0 \<le> x" "x < 2 ^ 31" using e(2) assms(1) by (auto simp: sound_connector_def)
    then have "cost = x" using h(2) unfolding e(1) CacheEntry_parts(2)
      by (simp add: signed_of_int signed_take_bit_int_eq_self)
    ultimately show ?thesis using e(2) by simp
  qed
qed

lemma right_cache_store:
  assumes "right_cache c" "LookupCost c rid lid = Some cost"
  shows "right_cache (c\<lparr>cn_cache := (cn_cache c)[b := CacheEntry rid lid cost]\<rparr>)"
  using assms by (auto simp: right_cache_def right_entry_def dest!: set_update_subset_insert [THEN subsetD])

lemma GetTransitionCost_right:
  assumes "sound_connector c" "right_cache c" "LookupCost c rid lid = Some cost"
  shows "\<exists>c'. GetTransitionCost rid lid c = Some (cost, c') \<and> right_cache c' \<and> LookupCost c' = LookupCost c"
proof -
  let ?cv = "cn_cache c ! CacheBucket rid lid"
  have "right_entry c ?cv" using assms(2) CacheBucket_less [of rid lid] by (simp add: right_cache_def)
  from CacheHit_right [OF assms(1) this] assms(3) have h: "CacheHit ?cv rid lid = Some x \<Longrightarrow> x = cost" for x by simp
  show ?thesis
    using h assms right_cache_store [OF assms(2,3)] by (cases "CacheHit ?cv rid lid") (auto simp: GetTransitionCost_def)
qed

section \<open>Several threads\<close>

text \<open>
  The connector is shared: a load and a store of a cache entry are atomic, and other threads may run between the two.
  The state is the connector, the costs that threads have looked up and not stored yet, and the results returned so far.
\<close>

type_synonym cost_result = "16 word \<times> 16 word \<times> int"

inductive cost_step ::
  "connector \<times> cost_result list \<times> cost_result list \<Rightarrow> connector \<times> cost_result list \<times> cost_result list \<Rightarrow> bool" where
  load_hit: "CacheHit (cn_cache c ! CacheBucket rid lid) rid lid = Some cost \<Longrightarrow>
     cost_step (c, pending, results) (c, pending, (rid, lid, cost) # results)"
| load_miss: "CacheHit (cn_cache c ! CacheBucket rid lid) rid lid = None \<Longrightarrow> LookupCost c rid lid = Some cost \<Longrightarrow>
     cost_step (c, pending, results) (c, (rid, lid, cost) # pending, results)"
| store: "cost_step (c, p1 @ (rid, lid, cost) # p2, results)
     (c\<lparr>cn_cache := (cn_cache c)[CacheBucket rid lid := CacheEntry rid lid cost]\<rparr>, p1 @ p2, (rid, lid, cost) # results)"

inductive_cases cost_stepE: "cost_step (c, pending, results) s"

definition right_results :: "connector \<Rightarrow> cost_result list \<Rightarrow> bool" where
  "right_results c results \<longleftrightarrow> list_all (\<lambda>(rid, lid, cost). LookupCost c rid lid = Some cost) results"

lemma cost_step_keeps:
  assumes "cost_step (c, pending, results) (c', pending', results')" "sound_connector c" "right_cache c"
    "right_results c pending" "right_results c results"
  shows "LookupCost c' = LookupCost c \<and> right_cache c' \<and> right_results c pending' \<and> right_results c results'"
  using assms(1)
proof cases
  case (load_hit rid lid cost)
  have "right_entry c (cn_cache c ! CacheBucket rid lid)"
    using assms(3) CacheBucket_less [of rid lid] by (simp add: right_cache_def)
  with load_hit CacheHit_right [OF assms(2)] assms show ?thesis by (auto simp: right_results_def)
next
  case (load_miss rid lid cost)
  with assms show ?thesis by (simp add: right_results_def)
next
  case (store p1 rid lid cost p2)
  with assms right_cache_store [OF assms(3)] show ?thesis by (auto simp: right_results_def)
qed

lemma cost_steps_keep:
  assumes "cost_step\<^sup>*\<^sup>* (c, [], []) (c', pending', results')" "sound_connector c" "right_cache c"
  shows "LookupCost c' = LookupCost c \<and> right_cache c' \<and> right_results c pending' \<and> right_results c results'"
proof -
  have "case s of (c', pending', results') \<Rightarrow>
      LookupCost c' = LookupCost c \<and> right_cache c' \<and> right_results c pending' \<and> right_results c results'"
    if "cost_step\<^sup>*\<^sup>* (c, [], []) s" for s
    using that
  proof (induction rule: rtranclp_induct)
    case base
    then show ?case using assms(3) by (simp add: right_results_def)
  next
    case (step s1 s2)
    obtain c1 p1 r1 c2 p2 r2 where s: "s1 = (c1, p1, r1)" "s2 = (c2, p2, r2)" by (cases s1, cases s2)
    have "sound_connector c1" using step.IH s assms(2) by (simp add: sound_connector_def)
    moreover have "right_results c1 = right_results c" using step.IH s by (intro ext) (simp add: right_results_def)
    ultimately show ?case using cost_step_keeps [OF step.hyps(2) [unfolded s]] step.IH s by simp
  qed
  from this [OF assms(1)] show ?thesis by simp
qed

lemma CreateConnector_ok:
  assumes c: "CreateConnector base data = Inr c" and zero: "LookupCost c 0 0 = Some 0"
  shows "sound_connector c \<and> right_cache c"
proof
  show "sound_connector c" using CreateConnector_costs [OF c] zero by (fastforce simp: sound_connector_def)
  have "cn_cache c = replicate 1024 0" using c
    by (auto simp: CreateConnector_def Let_def kCacheSize_def split: sum.splits if_splits)
  then show "right_cache c" by (simp add: right_cache_def right_entry_def)
qed

text \<open>C9: The costs that any number of threads get from a shared connector are those of the matrix, in whatever order their
  loads and stores of cache entries are interleaved: the connector was loaded from data in which the cost of (0, 0) is 0.\<close>
theorem shared_connector_costs_are_right:
  assumes "CreateConnector base data = Inr c" "LookupCost c 0 0 = Some 0"
    and "cost_step\<^sup>*\<^sup>* (c, [], []) (c', pending, results)" "(rid, lid, cost) \<in> set results"
  shows "LookupCost c rid lid = Some cost"
  using cost_steps_keep [OF assms(3)] CreateConnector_ok [OF assms(1,2)] assms(4)
  by (auto simp: right_results_def list_all_iff)

text \<open>A connector with two ids.\<close>

definition example_matrix :: "int list list" where
  "example_matrix = [[0, 100], [500, 30000]]"

lemma example_connector:
  obtains img c where "ConnectionData example_matrix [0, 500] False = Some img" "CreateConnector 0 img = Inr c" "LookupCost c 0 0 = Some 0"
    "LookupCost c 0 1 = Some 100" "LookupCost c 1 0 = Some 500" "LookupCost c 1 1 = Some 30000"
proof -
  have "ConnectionData example_matrix [0, 500] False \<noteq> None" by code_simp
  then obtain img where img: "ConnectionData example_matrix [0, 500] False = Some img" by blast
  have "\<forall>r \<in> set example_matrix. length r = length example_matrix" by (simp add: example_matrix_def)
  from connection_data_read [OF img this, of 0] obtain c where c: "CreateConnector 0 img = Inr c"
    "\<And>rid lid. unat rid < length example_matrix \<Longrightarrow> unat lid < length example_matrix \<Longrightarrow>
      LookupCost c rid lid = Some (connection_cost False ([0, 500] ! unat rid) (example_matrix ! unat rid ! unat lid))" by auto
  show thesis
    by (rule that [OF img c(1)])
      (use c(2) [of 0 0] c(2) [of 0 1] c(2) [of 1 0] c(2) [of 1 1] in \<open>simp_all add: connection_cost_def example_matrix_def\<close>)
qed

lemma shared_connector_costs_are_right_witness:
  "\<exists>img c c'. CreateConnector 0 img = Inr c \<and> cost_step\<^sup>*\<^sup>* (c, [], []) (c', [], [(0, 1, 100)]) \<and> LookupCost c 0 1 = Some 100"
proof -
  obtain img c where c: "CreateConnector 0 img = Inr c" "LookupCost c 0 0 = Some 0" "LookupCost c 0 1 = Some 100"
    by (rule example_connector)
  have "cn_cache c = replicate 1024 0" using c(1)
    by (auto simp: CreateConnector_def Let_def kCacheSize_def split: sum.splits if_splits)
  then have "cn_cache c ! CacheBucket 0 1 = 0" using CacheBucket_less [of 0 1] by simp
  then have "CacheHit (cn_cache c ! CacheBucket 0 1) 0 1 = None" by (simp add: CacheHit_def CacheIndex_def)
  note s1 = load_miss [OF this c(3), of "[]" "[]"]
  note s2 = store [of c "[]" 0 1 100 "[]" "[]", unfolded append_Nil]
  let ?c = "c\<lparr>cn_cache := (cn_cache c)[CacheBucket 0 1 := CacheEntry 0 1 100]\<rparr>"
  have steps: "cost_step\<^sup>*\<^sup>* (c, [], []) (?c, [], [(0, 1, 100)])" using s1 s2 by (meson r_into_rtranclp rtranclp_trans)
  with shared_connector_costs_are_right [OF c(1,2) steps, of 0 1 100] c(1) show ?thesis by auto
qed

end
