(* ===== verification/CachingConnector.thy ===== *)
theory CachingConnector
  imports Connector
begin

text \<open>
  The connector the search uses, \<^verbatim>\<open>src/src/converter/caching_connector.h\<close>: a cache for the current right node and the
  bonus of the particle omission. The locale \<open>transition_costs\<close> is what a search needs of a connector; the connector
  itself and the caching connector are its interpretations.
\<close>

section \<open>caching\_connector.h\<close>

text \<open>The rules of the part-of-speech matcher that the connector uses; its tables are data.\<close>

record pos_matcher =
  IsContentWordWithConjugation :: "16 word \<Rightarrow> bool"
  IsContentNoun :: "16 word \<Rightarrow> bool"
  IsPronoun :: "16 word \<Rightarrow> bool"

definition kInvalidLid :: "16 word" where "kInvalidLid = 65535"
definition kCachingSize :: nat where "kCachingSize = 2048"

text \<open>\<open>cc_has_bonus\<close> is the template parameter.\<close>

record caching_connector =
  cc_connector :: connector
  cc_has_bonus :: bool
  cc_bonus :: int
  cc_pos_matcher :: pos_matcher
  cc_cache :: "(16 word \<times> int) list"
  cc_cache_lid :: "16 word"
  cc_is_right_node_target :: bool

definition NewCachingConnector :: "bool \<Rightarrow> int \<Rightarrow> pos_matcher \<Rightarrow> connector \<Rightarrow> caching_connector" where
  "NewCachingConnector has_bonus bonus pm c =
     \<lparr>cc_connector = c, cc_has_bonus = has_bonus, cc_bonus = bonus, cc_pos_matcher = pm,
      cc_cache = replicate kCachingSize (kInvalidLid, 0), cc_cache_lid = kInvalidLid, cc_is_right_node_target = False\<rparr>"

definition ResetCacheIfNecessary :: "16 word \<Rightarrow> caching_connector \<Rightarrow> caching_connector" where
  "ResetCacheIfNecessary rnode_lid cc =
     (if cc_cache_lid cc \<noteq> rnode_lid
      then let cc = cc\<lparr>cc_cache_lid := rnode_lid\<rparr>
           in if cc_has_bonus cc
              then cc\<lparr>cc_is_right_node_target := 0 < cc_bonus cc \<and> IsContentWordWithConjugation (cc_pos_matcher cc) rnode_lid\<rparr>
              else cc
      else cc)"

definition ApplyBonus :: "caching_connector \<Rightarrow> int \<Rightarrow> 16 word \<Rightarrow> int" where
  "ApplyBonus cc cost lnode_rid =
     (if cc_has_bonus cc \<and> cc_is_right_node_target cc \<and>
         (IsContentNoun (cc_pos_matcher cc) lnode_rid \<or> IsPronoun (cc_pos_matcher cc) lnode_rid)
      then max 0 (cost - cc_bonus cc) else cost)"

definition CachingTransitionCost :: "16 word \<Rightarrow> 16 word \<Rightarrow> caching_connector \<Rightarrow> (int \<times> caching_connector) option" where
  "CachingTransitionCost lnode_rid rnode_lid cc =
     (if kCachingSize \<le> unat lnode_rid
      then do {
        (cost, c) \<leftarrow> GetTransitionCost lnode_rid rnode_lid (cc_connector cc);
        Some (ApplyBonus cc cost lnode_rid, cc\<lparr>cc_connector := c\<rparr>) }
      else (case cc_cache cc ! unat lnode_rid of (entry_lid, entry_cost) \<Rightarrow>
        if entry_lid = rnode_lid then Some (entry_cost, cc)
        else do {
          (cost, c) \<leftarrow> GetTransitionCost lnode_rid rnode_lid (cc_connector cc);
          let cost = ApplyBonus cc cost lnode_rid;
          Some (cost, cc\<lparr>cc_connector := c, cc_cache := (cc_cache cc)[unat lnode_rid := (rnode_lid, cost)]\<rparr>) }))"

section \<open>What a search needs of a connector\<close>

text \<open>
  The search is a template over the connector: it tells the connector the next right node and then asks for costs
  to that node. \<open>covers\<close> are the pairs of ids in the matrix, \<open>costs\<close> the costs the search sees.
\<close>

locale transition_costs =
  fixes reset :: "16 word \<Rightarrow> 'c \<Rightarrow> 'c" and get :: "16 word \<Rightarrow> 16 word \<Rightarrow> 'c \<Rightarrow> (int \<times> 'c) option"
    and covers :: "16 word \<Rightarrow> 16 word \<Rightarrow> bool" and costs :: "16 word \<Rightarrow> 16 word \<Rightarrow> int"
    and ok :: "'c \<Rightarrow> bool" and ready :: "16 word \<Rightarrow> 'c \<Rightarrow> bool"
  assumes reset_ready: "ok c \<Longrightarrow> ok (reset lid c) \<and> ready lid (reset lid c)"
    and get_cost: "ok c \<Longrightarrow> ready lid c \<Longrightarrow> covers rid lid \<Longrightarrow>
      \<exists>c'. get rid lid c = Some (costs rid lid, c') \<and> ok c' \<and> ready lid c'"

text \<open>The matrix of a connector.\<close>

definition matrix_cost :: "connector \<Rightarrow> 16 word \<Rightarrow> 16 word \<Rightarrow> int" where
  "matrix_cost c rid lid = (case LookupCost c rid lid of Some cost \<Rightarrow> cost | None \<Rightarrow> 0)"

definition in_matrix :: "connector \<Rightarrow> 16 word \<Rightarrow> 16 word \<Rightarrow> bool" where
  "in_matrix c rid lid \<longleftrightarrow> LookupCost c rid lid \<noteq> None \<and> lid \<noteq> kInvalidLid"

definition bonus_cost :: "connector \<Rightarrow> bool \<Rightarrow> int \<Rightarrow> pos_matcher \<Rightarrow> 16 word \<Rightarrow> 16 word \<Rightarrow> int" where
  "bonus_cost c has_bonus bonus pm rid lid =
     (if has_bonus \<and> 0 < bonus \<and> IsContentWordWithConjugation pm lid \<and> (IsContentNoun pm rid \<or> IsPronoun pm rid)
      then max 0 (matrix_cost c rid lid - bonus) else matrix_cost c rid lid)"

definition connector_ok :: "connector \<Rightarrow> connector \<Rightarrow> bool" where
  "connector_ok c0 c \<longleftrightarrow> sound_connector c0 \<and> right_cache c \<and> LookupCost c = LookupCost c0"

lemma GetTransitionCost_ok:
  assumes "connector_ok c0 c" "in_matrix c0 rid lid"
  shows "\<exists>c'. GetTransitionCost rid lid c = Some (matrix_cost c0 rid lid, c') \<and> connector_ok c0 c'"
proof -
  obtain cost where l: "LookupCost c rid lid = Some cost" using assms by (auto simp: connector_ok_def in_matrix_def)
  have "sound_connector c" using assms(1) by (simp add: connector_ok_def sound_connector_def)
  from GetTransitionCost_right [OF this _ l] assms(1) l show ?thesis
    by (auto simp: connector_ok_def matrix_cost_def)
qed

interpretation direct: transition_costs "\<lambda>lid c. c" GetTransitionCost "in_matrix c0" "matrix_cost c0"
  "connector_ok c0" "\<lambda>lid c. True" for c0
  by unfold_locales (use GetTransitionCost_ok in auto)

definition caching_ok :: "connector \<Rightarrow> bool \<Rightarrow> int \<Rightarrow> pos_matcher \<Rightarrow> caching_connector \<Rightarrow> bool" where
  "caching_ok c0 has_bonus bonus pm cc \<longleftrightarrow>
     connector_ok c0 (cc_connector cc) \<and> cc_has_bonus cc = has_bonus \<and> cc_bonus cc = bonus \<and> cc_pos_matcher cc = pm \<and>
     length (cc_cache cc) = kCachingSize \<and>
     (\<forall>rid. unat rid < kCachingSize \<longrightarrow> fst (cc_cache cc ! unat rid) = kInvalidLid \<or>
        snd (cc_cache cc ! unat rid) = bonus_cost c0 has_bonus bonus pm rid (fst (cc_cache cc ! unat rid))) \<and>
     (cc_cache_lid cc \<noteq> kInvalidLid \<longrightarrow> has_bonus \<longrightarrow>
        cc_is_right_node_target cc = (0 < bonus \<and> IsContentWordWithConjugation pm (cc_cache_lid cc)))"

lemma NewCachingConnector_ok: "connector_ok c0 c \<Longrightarrow> caching_ok c0 hb b pm (NewCachingConnector hb b pm c)"
  by (simp add: caching_ok_def NewCachingConnector_def)

lemma ApplyBonus_cost:
  assumes "caching_ok c0 hb b pm cc" "cc_cache_lid cc = lid" "lid \<noteq> kInvalidLid"
  shows "ApplyBonus cc (matrix_cost c0 rid lid) rid = bonus_cost c0 hb b pm rid lid"
  using assms by (auto simp: ApplyBonus_def bonus_cost_def caching_ok_def)

lemma CachingTransitionCost_ok:
  assumes ok: "caching_ok c0 hb b pm cc" and lid: "cc_cache_lid cc = lid" and m: "in_matrix c0 rid lid"
  shows "\<exists>cc'. CachingTransitionCost rid lid cc = Some (bonus_cost c0 hb b pm rid lid, cc') \<and>
    caching_ok c0 hb b pm cc' \<and> cc_cache_lid cc' = lid"
proof -
  have inv: "lid \<noteq> kInvalidLid" using m by (simp add: in_matrix_def)
  obtain c where c: "GetTransitionCost rid lid (cc_connector cc) = Some (matrix_cost c0 rid lid, c)" "connector_ok c0 c"
    using GetTransitionCost_ok [OF _ m, of "cc_connector cc"] ok by (auto simp: caching_ok_def)
  note cost = ApplyBonus_cost [OF ok lid inv, of rid]
  obtain el ec where e: "cc_cache cc ! unat rid = (el, ec)" by fastforce
  show ?thesis
  proof (cases "kCachingSize \<le> unat rid")
    case True
    then show ?thesis using ok c lid cost by (simp add: CachingTransitionCost_def caching_ok_def)
  next
    case small: False
    show ?thesis
    proof (cases "el = lid")
      case True
      have "fst (cc_cache cc ! unat rid) = kInvalidLid \<or>
          snd (cc_cache cc ! unat rid) = bonus_cost c0 hb b pm rid (fst (cc_cache cc ! unat rid))"
        using ok small by (simp add: caching_ok_def)
      then have "ec = bonus_cost c0 hb b pm rid lid" using True e inv by simp
      then show ?thesis using True small e ok lid by (simp add: CachingTransitionCost_def)
    next
      case False
      let ?cc = "cc\<lparr>cc_connector := c, cc_cache := (cc_cache cc)[unat rid := (lid, bonus_cost c0 hb b pm rid lid)]\<rparr>"
      have "CachingTransitionCost rid lid cc = Some (bonus_cost c0 hb b pm rid lid, ?cc)"
        using small e False c(1) cost by (simp add: CachingTransitionCost_def Let_def)
      moreover have "(cc_cache ?cc) ! unat r = (if r = rid then (lid, bonus_cost c0 hb b pm rid lid) else cc_cache cc ! unat r)" for r
        using ok small by (auto simp: caching_ok_def nth_list_update word_unat_eq_iff)
      then have "caching_ok c0 hb b pm ?cc" using ok c(2) unfolding caching_ok_def by (auto simp del: caching_connector.select_convs(5))
      ultimately show ?thesis using lid by (intro exI [of _ ?cc]) simp
    qed
  qed
qed

interpretation caching: transition_costs ResetCacheIfNecessary CachingTransitionCost "in_matrix c0" "bonus_cost c0 hb b pm"
  "caching_ok c0 hb b pm" "\<lambda>lid cc. cc_cache_lid cc = lid" for c0 hb b pm
proof
  fix cc lid
  assume ok: "caching_ok c0 hb b pm cc"
  then show "caching_ok c0 hb b pm (ResetCacheIfNecessary lid cc) \<and> cc_cache_lid (ResetCacheIfNecessary lid cc) = lid"
    by (auto simp: ResetCacheIfNecessary_def caching_ok_def Let_def)
next
  fix cc lid rid
  assume "caching_ok c0 hb b pm cc" "cc_cache_lid cc = lid" "in_matrix c0 rid lid"
  then show "\<exists>cc'. CachingTransitionCost rid lid cc = Some (bonus_cost c0 hb b pm rid lid, cc') \<and>
      caching_ok c0 hb b pm cc' \<and> cc_cache_lid cc' = lid"
    by (rule CachingTransitionCost_ok)
qed

end
