(* ===== verification/ConvLattice.thy ===== *)
theory ConvLattice
  imports CachingConnector
begin

text \<open>
  The lattice of a conversion, \<^verbatim>\<open>src/src/converter/node.h\<close>, \<^verbatim>\<open>lattice.h\<close> and \<^verbatim>\<open>lattice.cc\<close>: the nodes of a key by the
  position they begin and end at. \<open>lattice_ok\<close> is the invariant of a lattice before the search; making a lattice and
  inserting nodes keep it.
\<close>

section \<open>node.h\<close>

datatype node_type = NOR_NODE | BOS_NODE | EOS_NODE | CON_NODE | HIS_NODE

text \<open>A pointer to a node is the number of the node in the allocator; \<^verbatim>\<open>nullptr\<close> is None.\<close>

record node =
  n_prev :: "nat option"
  n_next :: "nat option"
  n_constrained_prev :: "nat option"
  n_rid :: "16 word"
  n_lid :: "16 word"
  n_begin_pos :: nat
  n_end_pos :: nat
  n_wcost :: int
  n_cost :: int
  n_node_type :: node_type
  n_attributes :: "32 word"
  n_key :: bytes
  n_value :: bytes

definition NodeInit :: node where
  "NodeInit =
     \<lparr>n_prev = None, n_next = None, n_constrained_prev = None, n_rid = 0, n_lid = 0, n_begin_pos = 0, n_end_pos = 0,
      n_wcost = 0, n_cost = 0, n_node_type = NOR_NODE, n_attributes = 0, n_key = [], n_value = []\<rparr>"

section \<open>lattice.h and lattice.cc\<close>

record lattice =
  la_key :: bytes
  la_begin_nodes :: "nat list list"
  la_end_nodes :: "nat list list"
  la_nodes :: "node list"

definition NewLattice :: lattice where
  "NewLattice = \<lparr>la_key = [], la_begin_nodes = [], la_end_nodes = [], la_nodes = []\<rparr>"

definition NewNode :: "lattice \<Rightarrow> nat \<times> lattice" where
  "NewNode lat = (length (la_nodes lat), lat\<lparr>la_nodes := la_nodes lat @ [NodeInit]\<rparr>)"

text \<open>A conversion to \<^verbatim>\<open>uint16_t\<close>.\<close>

definition to_uint16 :: "nat \<Rightarrow> nat" where
  "to_uint16 x = x mod 65536"

definition InitBOSNode :: "nat \<Rightarrow> 16 word \<Rightarrow> node \<Rightarrow> node" where
  "InitBOSNode position bos_id n =
     n\<lparr>n_rid := bos_id, n_lid := 0, n_key := [], n_value := ascii ''BOS'', n_node_type := BOS_NODE,
       n_wcost := 0, n_cost := 0, n_begin_pos := position, n_end_pos := position\<rparr>"

definition InitEOSNode :: "nat \<Rightarrow> node \<Rightarrow> node" where
  "InitEOSNode position n =
     n\<lparr>n_rid := 0, n_lid := 0, n_key := [], n_value := ascii ''EOS'', n_node_type := EOS_NODE,
       n_wcost := 0, n_cost := 0, n_begin_pos := position, n_end_pos := position\<rparr>"

definition LatticeClear :: "lattice \<Rightarrow> lattice" where
  "LatticeClear lat = lat\<lparr>la_key := [], la_begin_nodes := [], la_end_nodes := [], la_nodes := []\<rparr>"

definition SetKey :: "bytes \<Rightarrow> 16 word \<Rightarrow> lattice \<Rightarrow> lattice" where
  "SetKey key bos_id lat =
     (let lat = (LatticeClear lat)\<lparr>la_key := key, la_begin_nodes := replicate (length key + 1) [],
                                  la_end_nodes := replicate (length key + 1) []\<rparr>;
          (bos, lat) = NewNode lat;
          lat = lat\<lparr>la_nodes := (la_nodes lat)[bos := InitBOSNode 0 bos_id (la_nodes lat ! bos)]\<rparr>;
          (eos, lat) = NewNode lat;
          lat = lat\<lparr>la_nodes := (la_nodes lat)[eos := InitEOSNode (to_uint16 (length key)) (la_nodes lat ! eos)]\<rparr>
      in lat\<lparr>la_end_nodes := (la_end_nodes lat)[0 := la_end_nodes lat ! 0 @ [bos]],
             la_begin_nodes := (la_begin_nodes lat)[length key := la_begin_nodes lat ! length key @ [eos]]\<rparr>)"

text \<open>None where a position or a node is out of bounds, and where the first node of an empty list is read.\<close>

definition begin_nodes :: "lattice \<Rightarrow> nat \<Rightarrow> nat list option" where
  "begin_nodes lat pos = (if pos < length (la_begin_nodes lat) then Some (la_begin_nodes lat ! pos) else None)"

definition end_nodes :: "lattice \<Rightarrow> nat \<Rightarrow> nat list option" where
  "end_nodes lat pos = (if pos < length (la_end_nodes lat) then Some (la_end_nodes lat ! pos) else None)"

definition front :: "'a list \<Rightarrow> 'a option" where
  "front xs = (case xs of [] \<Rightarrow> None | x # _ \<Rightarrow> Some x)"

definition bos_node :: "lattice \<Rightarrow> nat option" where
  "bos_node lat = Option.bind (end_nodes lat 0) front"

definition eos_node :: "lattice \<Rightarrow> nat option" where
  "eos_node lat = Option.bind (begin_nodes lat (length (la_key lat))) front"

definition LatticeInsert :: "nat \<Rightarrow> nat \<Rightarrow> lattice \<Rightarrow> lattice option" where
  "LatticeInsert pos i lat =
     (if i < length (la_nodes lat)
      then let n = la_nodes lat ! i; end_pos = min (length (n_key n) + pos) (length (la_key lat))
           in if pos < length (la_begin_nodes lat) \<and> end_pos < length (la_end_nodes lat)
              then Some (lat\<lparr>la_nodes := (la_nodes lat)[i := n\<lparr>n_begin_pos := to_uint16 pos, n_end_pos := to_uint16 end_pos,
                                                           n_prev := None, n_next := None, n_cost := 0\<rparr>],
                            la_begin_nodes := (la_begin_nodes lat)[pos := la_begin_nodes lat ! pos @ [i]],
                            la_end_nodes := (la_end_nodes lat)[end_pos := la_end_nodes lat ! end_pos @ [i]]\<rparr>)
              else None
      else None)"

fun InsertNodes :: "nat \<Rightarrow> nat list \<Rightarrow> lattice \<Rightarrow> lattice option" where
  "InsertNodes pos [] lat = Some lat"
| "InsertNodes pos (i # is) lat = Option.bind (LatticeInsert pos i lat) (InsertNodes pos is)"

definition has_lattice :: "lattice \<Rightarrow> bool" where
  "has_lattice lat \<longleftrightarrow> la_begin_nodes lat \<noteq> []"

text \<open>\<^verbatim>\<open>ScopedLatticeNodeInserter\<close>: the nodes collected, inserted by the destructor.\<close>

type_synonym node_inserter = "(nat \<times> nat) list"

definition InserterInsert :: "nat \<Rightarrow> nat \<Rightarrow> node_inserter \<Rightarrow> node_inserter" where
  "InserterInsert pos i inserted = inserted @ [(pos, i)]"

fun InserterDestroy :: "node_inserter \<Rightarrow> lattice \<Rightarrow> lattice option" where
  "InserterDestroy [] lat = Some lat"
| "InserterDestroy ((pos, i) # inserted) lat = Option.bind (LatticeInsert pos i lat) (InserterDestroy inserted)"

section \<open>Lattices\<close>

abbreviation nd :: "lattice \<Rightarrow> nat \<Rightarrow> node" where
  "nd L i \<equiv> la_nodes L ! i"

text \<open>What the lists of a position say of their nodes; no costs have been computed yet.\<close>

definition begins_at :: "lattice \<Rightarrow> nat \<Rightarrow> nat \<Rightarrow> nat \<Rightarrow> nat \<Rightarrow> bool" where
  "begins_at L bos eos p i \<longleftrightarrow>
     i \<noteq> bos \<and> i \<noteq> eos \<and> i < length (la_nodes L) \<and> n_begin_pos (nd L i) = p \<and>
     p < n_end_pos (nd L i) \<and> n_end_pos (nd L i) \<le> length (la_key L) \<and>
     i \<in> set (la_end_nodes L ! n_end_pos (nd L i)) \<and> n_prev (nd L i) = None \<and>
     (\<forall>c. n_constrained_prev (nd L i) = Some c \<longrightarrow> 0 < p \<and> c \<in> set (la_end_nodes L ! p))"

definition ends_at :: "lattice \<Rightarrow> nat \<Rightarrow> nat \<Rightarrow> bool" where
  "ends_at L q i \<longleftrightarrow>
     n_end_pos (nd L i) = q \<and> n_begin_pos (nd L i) < q \<and> i \<in> set (la_begin_nodes L ! n_begin_pos (nd L i))"

definition lattice_ok :: "lattice \<Rightarrow> nat \<Rightarrow> nat \<Rightarrow> bool" where
  "lattice_ok L bos eos \<longleftrightarrow>
     la_key L \<noteq> [] \<and> length (la_begin_nodes L) = Suc (length (la_key L)) \<and> length (la_end_nodes L) = Suc (length (la_key L)) \<and>
     la_end_nodes L ! 0 = [bos] \<and> la_begin_nodes L ! length (la_key L) = [eos] \<and> bos \<noteq> eos \<and>
     bos < length (la_nodes L) \<and> eos < length (la_nodes L) \<and> n_prev (nd L bos) = None \<and> n_prev (nd L eos) = None \<and>
     n_constrained_prev (nd L eos) = None \<and>
     (\<forall>p < length (la_key L). distinct (la_begin_nodes L ! p) \<and> (\<forall>i \<in> set (la_begin_nodes L ! p). begins_at L bos eos p i)) \<and>
     (\<forall>q. 0 < q \<longrightarrow> q \<le> length (la_key L) \<longrightarrow> (\<forall>i \<in> set (la_end_nodes L ! q). ends_at L q i))"

text \<open>The facts of a node of a position.\<close>

lemma lattice_node_at:
  assumes "lattice_ok L bos eos" "p < length (la_key L)" "i \<in> set (la_begin_nodes L ! p)"
  shows "i \<noteq> bos" "i \<noteq> eos" "i < length (la_nodes L)" "n_begin_pos (nd L i) = p" "p < n_end_pos (nd L i)"
    "n_end_pos (nd L i) \<le> length (la_key L)" "i \<in> set (la_end_nodes L ! n_end_pos (nd L i))" "n_prev (nd L i) = None"
    "n_constrained_prev (nd L i) = Some c \<Longrightarrow> 0 < p \<and> c \<in> set (la_end_nodes L ! p)"
  using assms by (simp_all add: lattice_ok_def begins_at_def)

lemma node_ending_at:
  assumes "lattice_ok L bos eos" "0 < q" "q \<le> length (la_key L)" "i \<in> set (la_end_nodes L ! q)"
  shows "n_end_pos (nd L i) = q" "n_begin_pos (nd L i) < q" "i \<in> set (la_begin_nodes L ! n_begin_pos (nd L i))"
  using assms by (simp_all add: lattice_ok_def ends_at_def)

lemma ending_in_range:
  assumes ok: "lattice_ok L bos eos" and q: "0 < q" "q \<le> length (la_key L)" and l: "l \<in> set (la_end_nodes L ! q)"
  shows "l < length (la_nodes L)"
proof -
  have "l \<in> set (la_begin_nodes L ! n_begin_pos (nd L l))" "n_begin_pos (nd L l) < length (la_key L)"
    using node_ending_at [OF ok q l] q by simp_all
  from lattice_node_at(3) [OF ok this(2,1)] show ?thesis .
qed

section \<open>Building a lattice\<close>

lemma SetKey_ok:
  assumes "key \<noteq> []"
  shows "lattice_ok (SetKey key bos_id lat) 0 1"
proof -
  have n: "length key \<noteq> 0" "0 < length key" using assms by simp_all
  let ?L = "SetKey key bos_id lat"
  note defs = SetKey_def NewNode_def LatticeClear_def InitBOSNode_def InitEOSNode_def NodeInit_def
  have s: "la_key ?L = key" "length (la_nodes ?L) = 2" "length (la_begin_nodes ?L) = Suc (length key)"
    "length (la_end_nodes ?L) = Suc (length key)"
    using n by (simp_all add: defs del: replicate.simps)
  have bn: "la_begin_nodes ?L ! p = (if p = length key then [1] else [])" if "p \<le> length key" for p
    using that n by (simp add: defs nth_list_update nth_replicate del: replicate.simps)
  have en: "la_end_nodes ?L ! p = (if p = 0 then [0] else [])" if "p \<le> length key" for p
    using that n by (simp add: defs nth_list_update nth_replicate del: replicate.simps)
  have "n_prev (nd ?L 0) = None" "n_prev (nd ?L 1) = None" "n_constrained_prev (nd ?L 1) = None" by (simp_all add: defs)
  then show ?thesis using n assms s bn en by (simp add: lattice_ok_def)
qed

text \<open>A node that is in no list of the lattice: fresh from the allocator or filled by the dictionary callbacks.\<close>

definition not_inserted :: "lattice \<Rightarrow> nat \<Rightarrow> bool" where
  "not_inserted L i \<longleftrightarrow> (\<forall>p \<le> length (la_key L). i \<notin> set (la_begin_nodes L ! p) \<and> i \<notin> set (la_end_nodes L ! p))"

lemma lattice_ok_nodes:
  assumes ok: "lattice_ok L bos eos" and len: "length (la_nodes L) \<le> length N"
    and same: "\<And>i. i < length (la_nodes L) \<Longrightarrow> \<not> not_inserted L i \<Longrightarrow> N ! i = nd L i"
  shows "lattice_ok (L\<lparr>la_nodes := N\<rparr>) bos eos"
proof -
  have b: "N ! i = nd L i" if "p < length (la_key L)" "i \<in> set (la_begin_nodes L ! p)" for p i
  proof -
    have "\<not> not_inserted L i" using that by (meson not_inserted_def less_imp_le)
    then show ?thesis by (rule same [OF lattice_node_at(3) [OF ok that]])
  qed
  have e: "N ! i = nd L i" if "0 < q" "q \<le> length (la_key L)" "i \<in> set (la_end_nodes L ! q)" for q i
    using same [OF ending_in_range [OF ok that]] that(2,3) by (auto simp: not_inserted_def)
  have i: "\<not> not_inserted L bos" "\<not> not_inserted L eos" using ok unfolding lattice_ok_def not_inserted_def
    by (metis le0 list.set_intros(1), metis order_refl list.set_intros(1))
  have bos: "N ! bos = nd L bos" "N ! eos = nd L eos" using same i ok by (simp_all add: lattice_ok_def)
  have "begins_at (L\<lparr>la_nodes := N\<rparr>) bos eos p i" if p: "p < length (la_key L)" "i \<in> set (la_begin_nodes L ! p)" for p i
    using lattice_node_at [OF ok p] b [OF p] len by (simp add: begins_at_def)
  moreover have "ends_at (L\<lparr>la_nodes := N\<rparr>) q i" if q: "0 < q" "q \<le> length (la_key L)" "i \<in> set (la_end_nodes L ! q)" for q i
    using node_ending_at [OF ok q] e [OF q] by (simp add: ends_at_def)
  ultimately show ?thesis using ok bos len by (auto simp: lattice_ok_def)
qed

lemma NewNode_ok:
  assumes "lattice_ok L bos eos"
  shows "lattice_ok (snd (NewNode L)) bos eos"
  unfolding NewNode_def by (simp, rule lattice_ok_nodes [OF assms]) (simp_all add: nth_append)

lemma SetNode_ok:
  assumes "lattice_ok L bos eos" "not_inserted L i"
  shows "lattice_ok (L\<lparr>la_nodes := (la_nodes L)[i := n]\<rparr>) bos eos"
  by (rule lattice_ok_nodes [OF assms(1)]) (use assms(2) in simp, metis assms(2) nth_list_update_neq)

text \<open>C7: Inserting a node into a lattice at a position within the key succeeds and keeps the lattice well-formed, if the node is
  new, has a key, and follows the node it is constrained to, and the key is shorter than 2 to the 16 bytes.\<close>
theorem lattice_insert_keeps_the_lattice:
  assumes ok: "lattice_ok L bos eos" and i: "i < length (la_nodes L)" "not_inserted L i" and key: "n_key (nd L i) \<noteq> []"
    and pos: "pos < length (la_key L)" and small: "length (la_key L) < 65536"
    and con: "\<forall>c. n_constrained_prev (nd L i) = Some c \<longrightarrow> 0 < pos \<and> c \<in> set (la_end_nodes L ! pos)"
  shows "\<exists>L'. LatticeInsert pos i L = Some L' \<and> lattice_ok L' bos eos"
proof -
  let ?n = "length (la_key L)" and ?e = "min (length (n_key (nd L i)) + pos) (length (la_key L))"
  let ?m = "(nd L i)\<lparr>n_begin_pos := pos, n_end_pos := ?e, n_prev := None, n_next := None, n_cost := 0\<rparr>"
  let ?L = "L\<lparr>la_nodes := (la_nodes L)[i := ?m], la_begin_nodes := (la_begin_nodes L)[pos := la_begin_nodes L ! pos @ [i]],
    la_end_nodes := (la_end_nodes L)[?e := la_end_nodes L ! ?e @ [i]]\<rparr>"
  have e: "pos < ?e" "?e \<le> ?n" using key pos by simp_all
  have len: "length (la_begin_nodes L) = Suc ?n" "length (la_end_nodes L) = Suc ?n" using ok by (simp_all add: lattice_ok_def)
  have "to_uint16 pos = pos" "to_uint16 ?e = ?e" using pos small e by (simp_all add: to_uint16_def)
  then have ins: "LatticeInsert pos i L = Some ?L" using i(1) len pos e by (simp add: LatticeInsert_def Let_def)
  have B: "la_begin_nodes ?L ! p = (if p = pos then la_begin_nodes L ! p @ [i] else la_begin_nodes L ! p)" for p
    using len pos by (auto simp: nth_list_update)
  have E: "la_end_nodes ?L ! p = (if p = ?e then la_end_nodes L ! p @ [i] else la_end_nodes L ! p)" for p
    using len e by (auto simp: nth_list_update)
  have Ni: "nd ?L i = ?m" using i(1) by simp
  have Nx: "nd ?L x = nd L x" if "x \<noteq> i" for x using that by simp
  have ni: "x \<noteq> i" if "p \<le> ?n" "x \<in> set (la_begin_nodes L ! p) \<or> x \<in> set (la_end_nodes L ! p)" for p x
    using i(2) that by (auto simp: not_inserted_def)
  have ib: "bos \<noteq> i" "eos \<noteq> i" using ni [of 0 bos] ni [of ?n eos] ok by (auto simp: lattice_ok_def)
  define L' where "L' = ?L"
  have L': "la_key L' = la_key L" "length (la_nodes L') = length (la_nodes L)" "length (la_begin_nodes L') = Suc ?n"
    "length (la_end_nodes L') = Suc ?n" using len by (simp_all add: L'_def)
  note B = B [folded L'_def] and E = E [folded L'_def] and Ni = Ni [folded L'_def] and Nx = Nx [folded L'_def]
  have new: "begins_at L' bos eos pos i"
    using ib e con i(1) by (auto simp: begins_at_def L' B E Ni)
  have begins: "begins_at L' bos eos p x" if p: "p < ?n" and x: "x \<in> set (la_begin_nodes L' ! p)" for p x
  proof (cases "x = i")
    case True
    then have "p = pos" using x ni [of p x] p by (auto simp: B split: if_splits)
    then show ?thesis using True new by simp
  next
    case False
    then have "x \<in> set (la_begin_nodes L ! p)" using x by (auto simp: B split: if_splits)
    from lattice_node_at [OF ok p this] show ?thesis by (auto simp: begins_at_def L' E Nx [OF False])
  qed
  have ends: "ends_at L' q x" if q: "0 < q" "q \<le> ?n" and x: "x \<in> set (la_end_nodes L' ! q)" for q x
  proof (cases "x = i")
    case True
    then have "q = ?e" using x ni [of q x] q by (auto simp: E split: if_splits)
    then show ?thesis using True e by (simp add: ends_at_def Ni B)
  next
    case False
    then have "x \<in> set (la_end_nodes L ! q)" using x by (auto simp: E split: if_splits)
    from node_ending_at [OF ok q this] show ?thesis by (auto simp: ends_at_def B Nx [OF False])
  qed
  have dist: "distinct (la_begin_nodes L' ! p)" if "p < ?n" for p
    using ok that ni [of p i] by (auto simp: B lattice_ok_def)
  have "la_end_nodes L' ! 0 = [bos]" "la_begin_nodes L' ! ?n = [eos]" using ok e pos by (simp_all add: B E lattice_ok_def)
  then have "lattice_ok L' bos eos" using ok begins ends dist by (simp add: lattice_ok_def L' Nx ib)
  with ins show ?thesis unfolding L'_def by blast
qed

definition example_node :: "16 word \<Rightarrow> int \<Rightarrow> node" where
  "example_node pos_id wcost =
     NodeInit\<lparr>n_lid := pos_id, n_rid := pos_id, n_wcost := wcost, n_end_pos := 1, n_key := [0x61], n_value := [0x61]\<rparr>"

lemma lattice_insert_keeps_the_lattice_witness:
  "\<exists>L'. LatticeInsert 0 2 ((snd (NewNode (SetKey [0x61] 0 NewLattice)))
      \<lparr>la_nodes := (la_nodes (snd (NewNode (SetKey [0x61] 0 NewLattice))))[2 := example_node 1 100]\<rparr>) = Some L' \<and> lattice_ok L' 0 1"
proof -
  let ?M = "snd (NewNode (SetKey [0x61] 0 NewLattice))"
  let ?L = "?M\<lparr>la_nodes := (la_nodes ?M)[2 := example_node 1 100]\<rparr>"
  note defs = SetKey_def NewNode_def LatticeClear_def NewLattice_def not_inserted_def example_node_def NodeInit_def
  have ok0: "lattice_ok ?M 0 1" by (intro NewNode_ok SetKey_ok) simp
  have n0: "not_inserted ?M 2" by (simp add: defs le_Suc_eq all_conj_distrib)
  then have n: "not_inserted ?L 2" by (simp add: not_inserted_def)
  have key: "la_key ?L = [0x61]" "2 < length (la_nodes ?L)" "nd ?L 2 = example_node 1 100" by (simp_all add: defs)
  have ok: "lattice_ok ?L 0 1" using SetNode_ok [OF ok0 n0] by simp
  show ?thesis
    by (rule lattice_insert_keeps_the_lattice [OF ok key(2) n]; (unfold key)?; simp add: example_node_def NodeInit_def)
qed

end
