(* ===== verification/Viterbi.thy ===== *)
theory Viterbi
  imports ConvLattice
begin

text \<open>
  The search of the converter, \<^verbatim>\<open>ImmutableConverter::Viterbi\<close> of \<^verbatim>\<open>src/src/converter/immutable_converter.cc\<close>. A path is
  a sequence of nodes that follow one another from the beginning; its cost is the sum of the costs of its words and of
  its links. The search is shown to find a cheapest path: a node is \<open>solved\<close> when its cost is the least cost of a path
  to it, and every position solves the nodes that begin at it, with any connector that satisfies the locale
  \<open>transition_costs\<close>. Costs are bounded so that the sums stay below \<^verbatim>\<open>kVeryBigCost\<close> and no \<^verbatim>\<open>int\<close> overflows.
\<close>

section \<open>immutable\_converter.cc: the search\<close>

definition kVeryBigCost :: int where "kVeryBigCost = (2 ^ 31 - 1) div 4"

text \<open>The loop over the left nodes; an invalid left node is skipped.\<close>

fun BestLeft ::
  "(16 word \<Rightarrow> 16 word \<Rightarrow> 'c \<Rightarrow> (int \<times> 'c) option) \<Rightarrow> node list \<Rightarrow> 16 word \<Rightarrow> nat list \<Rightarrow> int \<Rightarrow> nat option \<Rightarrow> 'c \<Rightarrow>
     (int \<times> nat option \<times> 'c) option" where
  "BestLeft get ns lid [] best_cost best_node c = Some (best_cost, best_node, c)"
| "BestLeft get ns lid (lnode # lnodes) best_cost best_node c =
     (if n_prev (ns ! lnode) = None then BestLeft get ns lid lnodes best_cost best_node c
      else do {
        (t, c) \<leftarrow> get (n_rid (ns ! lnode)) lid c;
        let cost = n_cost (ns ! lnode) + t;
        if cost < best_cost then BestLeft get ns lid lnodes cost (Some lnode) c
        else BestLeft get ns lid lnodes best_cost best_node c })"

definition ViterbiNode ::
  "(16 word \<Rightarrow> 'c \<Rightarrow> 'c) \<Rightarrow> (16 word \<Rightarrow> 16 word \<Rightarrow> 'c \<Rightarrow> (int \<times> 'c) option) \<Rightarrow> nat \<Rightarrow> nat list \<Rightarrow> nat \<Rightarrow>
     node list \<Rightarrow> 'c \<Rightarrow> (node list \<times> 'c) option" where
  "ViterbiNode reset get right_boundary lnodes rnode ns c =
     (let r = ns ! rnode in
      if right_boundary < n_end_pos r then Some (ns[rnode := r\<lparr>n_prev := None\<rparr>], c)
      else let c = reset (n_lid r) c
      in (case n_constrained_prev r of
            Some p \<Rightarrow>
              if n_prev (ns ! p) = None then Some (ns[rnode := r\<lparr>n_prev := None\<rparr>], c)
              else do {
                (t, c) \<leftarrow> get (n_rid (ns ! p)) (n_lid r) c;
                Some (ns[rnode := r\<lparr>n_prev := Some p, n_cost := n_cost (ns ! p) + n_wcost r + t\<rparr>], c) }
          | None \<Rightarrow>
              do {
                (best_cost, best_node, c) \<leftarrow> BestLeft get ns (n_lid r) lnodes kVeryBigCost None c;
                Some (ns[rnode := r\<lparr>n_prev := best_node, n_cost := best_cost + n_wcost r\<rparr>], c) }))"

fun ViterbiNodes ::
  "(16 word \<Rightarrow> 'c \<Rightarrow> 'c) \<Rightarrow> (16 word \<Rightarrow> 16 word \<Rightarrow> 'c \<Rightarrow> (int \<times> 'c) option) \<Rightarrow> nat \<Rightarrow> nat list \<Rightarrow> nat list \<Rightarrow>
     node list \<Rightarrow> 'c \<Rightarrow> (node list \<times> 'c) option" where
  "ViterbiNodes reset get right_boundary lnodes [] ns c = Some (ns, c)"
| "ViterbiNodes reset get right_boundary lnodes (rnode # rnodes) ns c =
     do {
       (ns, c) \<leftarrow> ViterbiNode reset get right_boundary lnodes rnode ns c;
       ViterbiNodes reset get right_boundary lnodes rnodes ns c }"

definition ViterbiInternal ::
  "(16 word \<Rightarrow> 'c \<Rightarrow> 'c) \<Rightarrow> (16 word \<Rightarrow> 16 word \<Rightarrow> 'c \<Rightarrow> (int \<times> 'c) option) \<Rightarrow> nat \<Rightarrow> nat \<Rightarrow> lattice \<Rightarrow> 'c \<Rightarrow>
     (lattice \<times> 'c) option" where
  "ViterbiInternal reset get pos right_boundary lat c =
     do {
       rnodes \<leftarrow> begin_nodes lat pos;
       lnodes \<leftarrow> end_nodes lat pos;
       (ns, c) \<leftarrow> ViterbiNodes reset get right_boundary lnodes rnodes (la_nodes lat) c;
       Some (lat\<lparr>la_nodes := ns\<rparr>, c) }"

fun ViterbiPositions ::
  "(16 word \<Rightarrow> 'c \<Rightarrow> 'c) \<Rightarrow> (16 word \<Rightarrow> 16 word \<Rightarrow> 'c \<Rightarrow> (int \<times> 'c) option) \<Rightarrow> nat \<Rightarrow> nat list \<Rightarrow> lattice \<Rightarrow> 'c \<Rightarrow>
     (lattice \<times> 'c) option" where
  "ViterbiPositions reset get right_boundary [] lat c = Some (lat, c)"
| "ViterbiPositions reset get right_boundary (pos # positions) lat c =
     do {
       (lat, c) \<leftarrow> ViterbiInternal reset get pos right_boundary lat c;
       ViterbiPositions reset get right_boundary positions lat c }"

text \<open>The segments after the first; a segment is its key here.\<close>

fun ViterbiSegments ::
  "(16 word \<Rightarrow> 'c \<Rightarrow> 'c) \<Rightarrow> (16 word \<Rightarrow> 16 word \<Rightarrow> 'c \<Rightarrow> (int \<times> 'c) option) \<Rightarrow> nat \<Rightarrow> bytes list \<Rightarrow> lattice \<Rightarrow> 'c \<Rightarrow>
     (lattice \<times> 'c) option" where
  "ViterbiSegments reset get left_boundary [] lat c = Some (lat, c)"
| "ViterbiSegments reset get left_boundary (key # keys) lat c =
     do {
       let right_boundary = left_boundary + length key;
       (lat, c) \<leftarrow> ViterbiPositions reset get right_boundary [left_boundary ..< right_boundary] lat c;
       ViterbiSegments reset get right_boundary keys lat c }"

definition RunViterbiLoop ::
  "(16 word \<Rightarrow> 'c \<Rightarrow> 'c) \<Rightarrow> (16 word \<Rightarrow> 16 word \<Rightarrow> 'c \<Rightarrow> (int \<times> 'c) option) \<Rightarrow> bytes list \<Rightarrow> lattice \<Rightarrow> 'c \<Rightarrow>
     (lattice \<times> 'c) option" where
  "RunViterbiLoop reset get keys lat c =
     (case keys of
        [] \<Rightarrow> None
      | key # keys \<Rightarrow>
          do {
            (lat, c) \<leftarrow> ViterbiPositions reset get (length key) [1 ..< length key] lat c;
            ViterbiSegments reset get (length key) keys lat c })"

text \<open>The nodes at the beginning, reached from BOS.\<close>

fun ViterbiBOS :: "nat \<Rightarrow> nat \<Rightarrow> nat list \<Rightarrow> node list \<Rightarrow> connector \<Rightarrow> (node list \<times> connector) option" where
  "ViterbiBOS bos right_boundary [] ns c = Some (ns, c)"
| "ViterbiBOS bos right_boundary (rnode # rnodes) ns c =
     (let r = ns ! rnode in
      if right_boundary < n_end_pos r then ViterbiBOS bos right_boundary rnodes ns c
      else do {
        (t, c) \<leftarrow> GetTransitionCost (n_rid (ns ! bos)) (n_lid r) c;
        ViterbiBOS bos right_boundary rnodes
          (ns[rnode := r\<lparr>n_prev := Some bos, n_cost := n_cost (ns ! bos) + t + n_wcost r\<rparr>]) c })"

definition ViterbiEOS :: "lattice \<Rightarrow> connector \<Rightarrow> (lattice \<times> connector) option" where
  "ViterbiEOS lat c =
     do {
       eos \<leftarrow> eos_node lat;
       lnodes \<leftarrow> end_nodes lat (length (la_key lat));
       let e = la_nodes lat ! eos;
       (best_cost, best_node, c) \<leftarrow> BestLeft GetTransitionCost (la_nodes lat) (n_lid e) lnodes kVeryBigCost None c;
       Some (lat\<lparr>la_nodes := (la_nodes lat)[eos := e\<lparr>n_prev := best_node, n_cost := best_cost + n_wcost e\<rparr>]\<rparr>, c) }"

text \<open>The walk from the end to the beginning that sets the \<^verbatim>\<open>next\<close> pointers; \<open>prev\<close> is None before the first step.\<close>

partial_function (option) TraverseBack :: "nat \<Rightarrow> nat option \<Rightarrow> node list \<Rightarrow> (nat option \<times> node list) option" where
  "TraverseBack cur prev ns =
     (case n_prev (ns ! cur) of
        None \<Rightarrow> Some (prev, ns)
      | Some p \<Rightarrow> TraverseBack p (Some p) (ns[p := (ns ! p)\<lparr>n_next := Some cur\<rparr>]))"

definition FinishLattice :: "lattice \<Rightarrow> (bool \<times> lattice) option" where
  "FinishLattice lat =
     do {
       bos \<leftarrow> bos_node lat;
       eos \<leftarrow> eos_node lat;
       (prev, ns) \<leftarrow> TraverseBack eos None (la_nodes lat);
       Some (prev = Some bos, lat\<lparr>la_nodes := ns\<rparr>) }"

definition Viterbi ::
  "int \<Rightarrow> pos_matcher \<Rightarrow> bytes list \<Rightarrow> lattice \<Rightarrow> connector \<Rightarrow> (bool \<times> lattice \<times> connector) option" where
  "Viterbi bonus pm segment_keys lat c =
     do {
       bos \<leftarrow> bos_node lat;
       first \<leftarrow> front segment_keys;
       rnodes \<leftarrow> begin_nodes lat 0;
       (ns, c) \<leftarrow> ViterbiBOS bos (length first) rnodes (la_nodes lat) c;
       (lat, cc) \<leftarrow> RunViterbiLoop ResetCacheIfNecessary CachingTransitionCost segment_keys (lat\<lparr>la_nodes := ns\<rparr>)
                     (NewCachingConnector (bonus \<noteq> 0) bonus pm c);
       (lat, c) \<leftarrow> ViterbiEOS lat (cc_connector cc);
       (made, lat) \<leftarrow> FinishLattice lat;
       Some (made, lat, c) }"

text \<open>The paths from BOS to a node, without BOS: no node crosses the right boundary of the segment it begins in.\<close>

inductive lattice_path :: "lattice \<Rightarrow> (nat \<Rightarrow> nat) \<Rightarrow> nat list \<Rightarrow> bool" for L boundary where
  path_first: "r \<in> set (la_begin_nodes L ! 0) \<Longrightarrow> n_end_pos (nd L r) \<le> boundary 0 \<Longrightarrow> lattice_path L boundary [r]"
| path_next: "lattice_path L boundary ns \<Longrightarrow> pos = n_end_pos (nd L (last ns)) \<Longrightarrow> pos < length (la_key L) \<Longrightarrow>
    r \<in> set (la_begin_nodes L ! pos) \<Longrightarrow> n_end_pos (nd L r) \<le> boundary pos \<Longrightarrow>
    n_constrained_prev (nd L r) = None \<or> n_constrained_prev (nd L r) = Some (last ns) \<Longrightarrow> lattice_path L boundary (ns @ [r])"

fun links_cost :: "(16 word \<Rightarrow> 16 word \<Rightarrow> int) \<Rightarrow> lattice \<Rightarrow> nat list \<Rightarrow> int" where
  "links_cost tc L (a # b # ns) = tc (n_rid (nd L a)) (n_lid (nd L b)) + links_cost tc L (b # ns)"
| "links_cost tc L ns = 0"

text \<open>The links to and from the ends cost \<open>dc\<close>, the links between the nodes of the path \<open>tc\<close>.\<close>

definition path_cost ::
  "(16 word \<Rightarrow> 16 word \<Rightarrow> int) \<Rightarrow> (16 word \<Rightarrow> 16 word \<Rightarrow> int) \<Rightarrow> lattice \<Rightarrow> nat \<Rightarrow> nat list \<Rightarrow> int" where
  "path_cost dc tc L bos ns =
     n_cost (nd L bos) + dc (n_rid (nd L bos)) (n_lid (nd L (hd ns))) + links_cost tc L ns + (\<Sum>i \<leftarrow> ns. n_wcost (nd L i))"

definition complete_path :: "lattice \<Rightarrow> (nat \<Rightarrow> nat) \<Rightarrow> nat list \<Rightarrow> bool" where
  "complete_path L boundary ns \<longleftrightarrow> lattice_path L boundary ns \<and> n_end_pos (nd L (last ns)) = length (la_key L)"

definition total_cost ::
  "(16 word \<Rightarrow> 16 word \<Rightarrow> int) \<Rightarrow> (16 word \<Rightarrow> 16 word \<Rightarrow> int) \<Rightarrow> lattice \<Rightarrow> nat \<Rightarrow> nat \<Rightarrow> nat list \<Rightarrow> int" where
  "total_cost dc tc L bos eos ns =
     path_cost dc tc L bos ns + dc (n_rid (nd L (last ns))) (n_lid (nd L eos)) + n_wcost (nd L eos)"

lemma path_nonempty: "lattice_path L b ns \<Longrightarrow> ns \<noteq> []"
  by (induction rule: lattice_path.induct) auto

lemma links_cost_snoc: "ns \<noteq> [] \<Longrightarrow> links_cost tc L (ns @ [r]) = links_cost tc L ns + tc (n_rid (nd L (last ns))) (n_lid (nd L r))"
proof (induction ns)
  case (Cons a ns)
  then show ?case by (cases ns) auto
qed simp

lemma path_cost_snoc:
  "ns \<noteq> [] \<Longrightarrow> path_cost dc tc L bos (ns @ [r]) =
     path_cost dc tc L bos ns + tc (n_rid (nd L (last ns))) (n_lid (nd L r)) + n_wcost (nd L r)"
  by (simp add: path_cost_def links_cost_snoc)

lemma path_last:
  assumes "lattice_ok L bos eos" "lattice_path L b ns"
  shows "\<exists>p < length (la_key L). last ns \<in> set (la_begin_nodes L ! p)"
  using assms(2)
proof cases
  case (path_first r)
  moreover have "0 < length (la_key L)" using assms(1) by (simp add: lattice_ok_def)
  ultimately show ?thesis by auto
next
  case (path_next ns pos r)
  then show ?thesis by auto
qed

lemma path_members:
  assumes "lattice_ok L bos eos"
  shows "lattice_path L b ns \<Longrightarrow> x \<in> set ns \<Longrightarrow> x = last ns \<or> n_begin_pos (nd L x) < n_begin_pos (nd L (last ns))"
proof (induction rule: lattice_path.induct)
  case (path_next ns pos r)
  obtain p where p: "p < length (la_key L)" "last ns \<in> set (la_begin_nodes L ! p)" using path_last [OF assms path_next.hyps(1)] by blast
  note l = lattice_node_at [OF assms p] and r = lattice_node_at [OF assms path_next.hyps(3,4)]
  show ?case
  proof (cases "x = r")
    case False
    then have "x \<in> set ns" using path_next.prems by simp
    then have "n_begin_pos (nd L x) \<le> n_begin_pos (nd L (last ns))" using path_next.IH by auto
    then show ?thesis using l(4,5) r(4) path_next.hyps(2) by simp
  qed simp
qed simp

lemma path_to_later:
  assumes ok: "lattice_ok L bos eos" and pos: "0 < pos" "pos < length (la_key L)" and r: "r \<in> set (la_begin_nodes L ! pos)"
  shows "lattice_path L b ns \<and> last ns = r \<longleftrightarrow>
    (\<exists>ns'. ns = ns' @ [r] \<and> lattice_path L b ns' \<and> last ns' \<in> set (la_end_nodes L ! pos) \<and> n_end_pos (nd L r) \<le> b pos \<and>
      (n_constrained_prev (nd L r) = None \<or> n_constrained_prev (nd L r) = Some (last ns')))" (is "?l \<longleftrightarrow> ?r")
proof
  note nr = lattice_node_at [OF ok pos(2) r]
  assume l: ?l
  then have "lattice_path L b ns" "last ns = r" by simp_all
  then show ?r
  proof cases
    case (path_first r')
    have "0 < length (la_key L)" using pos by (rule less_trans)
    from lattice_node_at(4) [OF ok this path_first(2)] nr(4) pos l path_first(1) show ?thesis by simp
  next
    case (path_next ns' pos' r')
    have r': "r' = r" using l path_next(1) by simp
    have pp: "pos' = pos" using lattice_node_at(4) [OF ok path_next(4,5)] nr(4) r' by simp
    obtain p where p: "p < length (la_key L)" "last ns' \<in> set (la_begin_nodes L ! p)" using path_last [OF ok path_next(2)] by blast
    have "last ns' \<in> set (la_end_nodes L ! pos)" using lattice_node_at(7) [OF ok p] path_next(3) pp by simp
    then show ?thesis using path_next r' pp by auto
  qed
next
  assume ?r
  then obtain ns' where ns': "ns = ns' @ [r]" "lattice_path L b ns'" "last ns' \<in> set (la_end_nodes L ! pos)"
    "n_end_pos (nd L r) \<le> b pos" "n_constrained_prev (nd L r) = None \<or> n_constrained_prev (nd L r) = Some (last ns')" by blast
  have "n_end_pos (nd L (last ns')) = pos" using node_ending_at(1) [OF ok pos(1) _ ns'(3)] pos(2) by simp
  from lattice_path.path_next [OF ns'(2) this [symmetric] pos(2) r ns'(4,5)] ns'(1) show ?l by simp
qed

lemma path_to_first:
  assumes ok: "lattice_ok L bos eos" and r: "r \<in> set (la_begin_nodes L ! 0)"
  shows "lattice_path L b ns \<and> last ns = r \<longleftrightarrow> ns = [r] \<and> n_end_pos (nd L r) \<le> b 0" (is "?l \<longleftrightarrow> ?r")
proof
  have n: "0 < length (la_key L)" using ok by (simp add: lattice_ok_def)
  note nr = lattice_node_at [OF ok n r]
  assume l: ?l
  then have "lattice_path L b ns" "last ns = r" by simp_all
  then show ?r
  proof cases
    case (path_next ns' pos' r')
    have r': "r' = r" using l path_next(1) by simp
    obtain p where p: "p < length (la_key L)" "last ns' \<in> set (la_begin_nodes L ! p)" using path_last [OF ok path_next(2)] by blast
    have "pos' = 0" using lattice_node_at(4) [OF ok path_next(4,5)] nr(4) r' by simp
    then show ?thesis using lattice_node_at(5) [OF ok p] path_next(3) by simp
  qed simp
next
  assume ?r
  then show ?l using lattice_path.path_first [OF r] by simp
qed

text \<open>The length of a path and bounds on its cost.\<close>

lemma path_length:
  assumes "lattice_ok L bos eos" "lattice_path L b ns"
  shows "length ns \<le> n_end_pos (nd L (last ns))"
  using assms(2)
proof (induction rule: lattice_path.induct)
  case (path_first r)
  have "0 < length (la_key L)" using assms(1) by (simp add: lattice_ok_def)
  from lattice_node_at(5) [OF assms(1) this path_first(1)] show ?case by simp
next
  case (path_next ns pos r)
  from lattice_node_at(5) [OF assms(1) path_next.hyps(3,4)] path_next show ?case by simp
qed

definition bounded_costs ::
  "(16 word \<Rightarrow> 16 word \<Rightarrow> int) \<Rightarrow> (16 word \<Rightarrow> 16 word \<Rightarrow> int) \<Rightarrow> lattice \<Rightarrow> nat \<Rightarrow> int \<Rightarrow> bool" where
  "bounded_costs dc tc L bos B \<longleftrightarrow>
     0 \<le> B \<and> (\<forall>rid lid. \<bar>dc rid lid\<bar> \<le> B \<and> \<bar>tc rid lid\<bar> \<le> B) \<and> (\<forall>i < length (la_nodes L). \<bar>n_wcost (nd L i)\<bar> \<le> B) \<and>
     n_cost (nd L bos) = 0 \<and> 2 * B * (int (length (la_key L)) + 1) < kVeryBigCost"

lemma path_cost_bound:
  assumes "lattice_ok L bos eos" "bounded_costs dc tc L bos B" "lattice_path L b ns"
  shows "\<bar>path_cost dc tc L bos ns\<bar> \<le> 2 * B * int (length ns)"
  using assms(3)
proof (induction rule: lattice_path.induct)
  case (path_first r)
  have "0 < length (la_key L)" using assms(1) by (simp add: lattice_ok_def)
  from lattice_node_at(3) [OF assms(1) this path_first(1)] have "\<bar>n_wcost (nd L r)\<bar> \<le> B" using assms(2) by (simp add: bounded_costs_def)
  moreover have "\<bar>dc (n_rid (nd L bos)) (n_lid (nd L r))\<bar> \<le> B" using assms(2) by (simp add: bounded_costs_def)
  moreover have "n_cost (nd L bos) = 0" using assms(2) by (simp add: bounded_costs_def)
  ultimately show ?case by (simp add: path_cost_def)
next
  case (path_next ns pos r)
  have "\<bar>n_wcost (nd L r)\<bar> \<le> B" using lattice_node_at(3) [OF assms(1) path_next.hyps(3,4)] assms(2) by (simp add: bounded_costs_def)
  moreover have "\<bar>tc (n_rid (nd L (last ns))) (n_lid (nd L r))\<bar> \<le> B" using assms(2) by (simp add: bounded_costs_def)
  ultimately have "\<bar>path_cost dc tc L bos (ns @ [r])\<bar> \<le> 2 * B * int (length ns) + 2 * B"
    unfolding path_cost_snoc [OF path_nonempty [OF path_next.hyps(1)]] using path_next.IH by linarith
  then show ?case by (simp add: algebra_simps)
qed

lemma path_cost_small:
  assumes ok: "lattice_ok L bos eos" and B: "bounded_costs dc tc L bos B" and p: "lattice_path L b ns"
  shows "path_cost dc tc L bos ns + dc rid lid < kVeryBigCost" "path_cost dc tc L bos ns + tc rid lid < kVeryBigCost"
proof -
  obtain q where q: "q < length (la_key L)" "last ns \<in> set (la_begin_nodes L ! q)" using path_last [OF ok p] by blast
  have "length ns \<le> length (la_key L)" using path_length [OF ok p] lattice_node_at(6) [OF ok q] by simp
  moreover have B0: "0 \<le> B" using B by (simp add: bounded_costs_def)
  ultimately have "2 * B * int (length ns) \<le> 2 * B * int (length (la_key L))" by (simp add: mult_left_mono)
  then have "path_cost dc tc L bos ns \<le> 2 * B * int (length (la_key L))" using path_cost_bound [OF ok B p] by linarith
  moreover have "2 * B * int (length (la_key L)) + 2 * B < kVeryBigCost" using B by (simp add: bounded_costs_def algebra_simps)
  moreover have "dc rid lid \<le> B" "tc rid lid \<le> B" using B abs_le_D1 by (auto simp: bounded_costs_def)
  ultimately show "path_cost dc tc L bos ns + dc rid lid < kVeryBigCost" "path_cost dc tc L bos ns + tc rid lid < kVeryBigCost"
    using B0 by linarith+
qed

section \<open>Solved nodes\<close>

definition static :: "node \<Rightarrow> node" where
  "static n = n\<lparr>n_prev := None, n_next := None, n_cost := 0\<rparr>"

definition same_nodes :: "node list \<Rightarrow> lattice \<Rightarrow> bool" where
  "same_nodes N L \<longleftrightarrow> length N = length (la_nodes L) \<and> (\<forall>i < length N. static (N ! i) = static (nd L i))"

lemma same_fields:
  assumes "same_nodes N L" "i < length (la_nodes L)"
  shows "n_rid (N ! i) = n_rid (nd L i)" "n_lid (N ! i) = n_lid (nd L i)" "n_wcost (N ! i) = n_wcost (nd L i)"
    "n_begin_pos (N ! i) = n_begin_pos (nd L i)" "n_end_pos (N ! i) = n_end_pos (nd L i)"
    "n_constrained_prev (N ! i) = n_constrained_prev (nd L i)"
proof -
  have s: "static (N ! i) = static (nd L i)" using assms by (simp add: same_nodes_def)
  show "n_rid (N ! i) = n_rid (nd L i)" "n_lid (N ! i) = n_lid (nd L i)" "n_wcost (N ! i) = n_wcost (nd L i)"
    "n_begin_pos (N ! i) = n_begin_pos (nd L i)" "n_end_pos (N ! i) = n_end_pos (nd L i)"
    "n_constrained_prev (N ! i) = n_constrained_prev (nd L i)"
    using arg_cong [OF s, of n_rid] arg_cong [OF s, of n_lid] arg_cong [OF s, of n_wcost] arg_cong [OF s, of n_begin_pos]
      arg_cong [OF s, of n_end_pos] arg_cong [OF s, of n_constrained_prev] by (simp_all add: static_def)
qed

lemma same_nodes_update:
  "same_nodes N L \<Longrightarrow> i < length N \<Longrightarrow> static n = static (N ! i) \<Longrightarrow> same_nodes (N[i := n]) L"
  by (auto simp: same_nodes_def nth_list_update)

definition linked :: "node list \<Rightarrow> nat \<Rightarrow> nat list \<Rightarrow> bool" where
  "linked N bos ns \<longleftrightarrow> n_prev (N ! hd ns) = Some bos \<and> successively (\<lambda>a b. n_prev (N ! b) = Some a) ns"

lemma linked_cong:
  assumes "linked N bos ns" "ns \<noteq> []" "\<forall>x \<in> set ns. N' ! x = N ! x"
  shows "linked N' bos ns"
proof -
  have "successively (\<lambda>a b. n_prev (N ! b) = Some a) ns" using assms(1) by (simp add: linked_def)
  then have "successively (\<lambda>a b. n_prev (N' ! b) = Some a) ns"
    using assms(3) by (induction ns rule: induct_list012) auto
  then show ?thesis using assms by (simp add: linked_def)
qed

text \<open>A node is solved when its cost and its pointer describe a cheapest path, or it has no pointer and there is no path.\<close>

definition solved ::
  "(16 word \<Rightarrow> 16 word \<Rightarrow> int) \<Rightarrow> (16 word \<Rightarrow> 16 word \<Rightarrow> int) \<Rightarrow> lattice \<Rightarrow> (nat \<Rightarrow> nat) \<Rightarrow> nat \<Rightarrow> node list \<Rightarrow> nat \<Rightarrow> bool" where
  "solved dc tc L b bos N r \<longleftrightarrow>
     (\<forall>ns. lattice_path L b ns \<longrightarrow> last ns = r \<longrightarrow> n_prev (N ! r) \<noteq> None \<and> n_cost (N ! r) \<le> path_cost dc tc L bos ns) \<and>
     (n_prev (N ! r) \<noteq> None \<longrightarrow>
        (\<exists>ns. lattice_path L b ns \<and> last ns = r \<and> linked N bos ns \<and> path_cost dc tc L bos ns = n_cost (N ! r)))"

lemma solved_cong:
  assumes ok: "lattice_ok L bos eos" and s: "solved dc tc L b bos N r"
    and eq: "N' ! r = N ! r" "\<And>x. n_begin_pos (nd L x) < n_begin_pos (nd L r) \<Longrightarrow> N' ! x = N ! x"
  shows "solved dc tc L b bos N' r"
proof -
  have "linked N' bos ns" if ns: "lattice_path L b ns" "last ns = r" "linked N bos ns" for ns
  proof (rule linked_cong [OF ns(3) path_nonempty [OF ns(1)]])
    show "\<forall>x \<in> set ns. N' ! x = N ! x" using path_members [OF ok ns(1)] ns(2) eq by auto
  qed
  with s eq(1) show ?thesis unfolding solved_def by metis
qed

lemma solved_first:
  assumes ok: "lattice_ok L bos eos" and r: "r \<in> set (la_begin_nodes L ! 0)" and N: "same_nodes N L"
    and res: "if n_end_pos (nd L r) \<le> b 0
      then n_prev (N ! r) = Some bos \<and> n_cost (N ! r) = n_cost (nd L bos) + dc (n_rid (nd L bos)) (n_lid (nd L r)) + n_wcost (nd L r)
      else n_prev (N ! r) = None"
  shows "solved dc tc L b bos N r"
proof -
  have p: "lattice_path L b ns \<and> last ns = r \<longleftrightarrow> ns = [r] \<and> n_end_pos (nd L r) \<le> b 0" for ns by (rule path_to_first [OF ok r])
  show ?thesis
  proof (cases "n_end_pos (nd L r) \<le> b 0")
    case True
    then have n: "n_prev (N ! r) = Some bos"
      "n_cost (N ! r) = n_cost (nd L bos) + dc (n_rid (nd L bos)) (n_lid (nd L r)) + n_wcost (nd L r)" using res by simp_all
    then have c: "path_cost dc tc L bos [r] = n_cost (N ! r)" by (simp add: path_cost_def)
    have "lattice_path L b [r] \<and> last [r] = r" using p True by blast
    moreover have "linked N bos [r]" using n by (simp add: linked_def)
    moreover have "ns = [r]" if "lattice_path L b ns" "last ns = r" for ns using p that by blast
    ultimately show ?thesis unfolding solved_def using n(1) c by (metis option.distinct(1) order_refl)
  next
    case False
    then have "\<not> (lattice_path L b ns \<and> last ns = r)" for ns using p by blast
    moreover have "n_prev (N ! r) = None" using res False by simp
    ultimately show ?thesis unfolding solved_def by blast
  qed
qed

text \<open>The step of the dynamic program. The candidates are the left nodes with a path that the constraint admits.\<close>

definition candidates :: "lattice \<Rightarrow> node list \<Rightarrow> nat \<Rightarrow> nat \<Rightarrow> nat set" where
  "candidates L N pos r =
     {l \<in> set (la_end_nodes L ! pos). n_prev (N ! l) \<noteq> None \<and>
        (n_constrained_prev (nd L r) = None \<or> n_constrained_prev (nd L r) = Some l)}"

definition chosen ::
  "(16 word \<Rightarrow> 16 word \<Rightarrow> int) \<Rightarrow> lattice \<Rightarrow> node list \<Rightarrow> nat \<Rightarrow> nat \<Rightarrow> nat option \<Rightarrow> int \<Rightarrow> bool" where
  "chosen tc L N pos r pr cost \<longleftrightarrow>
     (case pr of
        None \<Rightarrow> candidates L N pos r = {}
      | Some l \<Rightarrow> l \<in> candidates L N pos r \<and> cost = n_cost (N ! l) + tc (n_rid (nd L l)) (n_lid (nd L r)) \<and>
          (\<forall>l' \<in> candidates L N pos r. cost \<le> n_cost (N ! l') + tc (n_rid (nd L l')) (n_lid (nd L r))))"

lemma solved_step:
  assumes ok: "lattice_ok L bos eos" and pos: "0 < pos" "pos < length (la_key L)" and r: "r \<in> set (la_begin_nodes L ! pos)"
    and N: "same_nodes N L" and left: "\<forall>l \<in> set (la_end_nodes L ! pos). solved dc tc L b bos N l"
    and N': "N' = N[r := (N ! r)\<lparr>n_prev := pr, n_cost := cost + n_wcost (nd L r)\<rparr>]"
    and res: "if n_end_pos (nd L r) \<le> b pos then chosen tc L N pos r pr cost else pr = None"
  shows "solved dc tc L b bos N' r"
proof -
  note nr = lattice_node_at [OF ok pos(2) r]
  have rN: "r < length N" using nr(3) N by (simp add: same_nodes_def)
  have N'r: "n_prev (N' ! r) = pr" "n_cost (N' ! r) = cost + n_wcost (nd L r)" using rN by (simp_all add: N')
  have N'x: "N' ! x = N ! x" if "x \<noteq> r" for x using that by (simp add: N')
  note paths = path_to_later [OF ok pos r, of b]
  have "pr \<noteq> None \<and> cost + n_wcost (nd L r) \<le> path_cost dc tc L bos ns" if ns: "lattice_path L b ns" "last ns = r" for ns
  proof -
    from ns paths obtain ns' where ns': "ns = ns' @ [r]" "lattice_path L b ns'" "last ns' \<in> set (la_end_nodes L ! pos)"
      "n_end_pos (nd L r) \<le> b pos" "n_constrained_prev (nd L r) = None \<or> n_constrained_prev (nd L r) = Some (last ns')" by blast
    have "n_prev (N ! last ns') \<noteq> None" "n_cost (N ! last ns') \<le> path_cost dc tc L bos ns'"
      using left ns'(2,3) by (auto simp: solved_def)
    moreover from this ns' have c: "last ns' \<in> candidates L N pos r" by (simp add: candidates_def)
    moreover obtain l where "pr = Some l" using res c ns'(4) by (cases pr) (auto simp: chosen_def)
    moreover from this have "\<forall>l' \<in> candidates L N pos r. cost \<le> n_cost (N ! l') + tc (n_rid (nd L l')) (n_lid (nd L r))"
      using res ns'(4) by (auto simp: chosen_def)
    moreover from this have "cost \<le> n_cost (N ! last ns') + tc (n_rid (nd L (last ns'))) (n_lid (nd L r))" using c by (rule bspec)
    ultimately show ?thesis using path_cost_snoc [OF path_nonempty [OF ns'(2)]] ns'(1) by auto
  qed
  moreover have "\<exists>ns. lattice_path L b ns \<and> last ns = r \<and> linked N' bos ns \<and> path_cost dc tc L bos ns = cost + n_wcost (nd L r)"
    if pr: "pr = Some l" for l
  proof -
    have e: "n_end_pos (nd L r) \<le> b pos" using res pr by (auto split: if_splits)
    with res pr have l: "l \<in> candidates L N pos r" "cost = n_cost (N ! l) + tc (n_rid (nd L l)) (n_lid (nd L r))"
      by (simp_all add: chosen_def)
    then have le: "l \<in> set (la_end_nodes L ! pos)" by (simp add: candidates_def)
    with l left obtain ns where ns: "lattice_path L b ns" "last ns = l" "linked N bos ns" "path_cost dc tc L bos ns = n_cost (N ! l)"
      by (auto simp: candidates_def solved_def)
    have "lattice_path L b (ns @ [r]) \<and> last (ns @ [r]) = r"
      using paths [of "ns @ [r]"] ns(1,2) le e l(1) by (auto simp: candidates_def)
    moreover have "r \<notin> set ns"
    proof
      assume "r \<in> set ns"
      then have "n_begin_pos (nd L r) \<le> n_begin_pos (nd L l)" using path_members [OF ok ns(1)] ns(2) by fastforce
      then show False using node_ending_at(2) [OF ok pos(1) _ le] nr(4) pos(2) by simp
    qed
    then have "linked N' bos ns" by (intro linked_cong [OF ns(3) path_nonempty [OF ns(1)]] ballI N'x) blast
    then have "linked N' bos (ns @ [r])"
      using path_nonempty [OF ns(1)] N'r(1) pr ns(2) by (simp add: linked_def successively_append_iff)
    moreover have "path_cost dc tc L bos (ns @ [r]) = cost + n_wcost (nd L r)"
      using path_cost_snoc [OF path_nonempty [OF ns(1)]] ns(2,4) l(2) by simp
    ultimately show ?thesis by blast
  qed
  ultimately show ?thesis unfolding solved_def N'r by auto
qed

section \<open>The search with any connector\<close>

context transition_costs
begin

lemma BestLeft_least:
  "ok c \<Longrightarrow> ready lid c \<Longrightarrow> \<forall>l \<in> set ls. n_prev (N ! l) \<noteq> None \<longrightarrow> covers (n_rid (N ! l)) lid \<Longrightarrow>
    \<exists>bc' bn' c'. BestLeft get N lid ls bc bn c = Some (bc', bn', c') \<and> ok c' \<and> ready lid c' \<and> bc' \<le> bc \<and>
      (\<forall>l \<in> set ls. n_prev (N ! l) \<noteq> None \<longrightarrow> bc' \<le> n_cost (N ! l) + costs (n_rid (N ! l)) lid) \<and>
      (bn' = bn \<and> bc' = bc \<or>
       (\<exists>l \<in> set ls. n_prev (N ! l) \<noteq> None \<and> bn' = Some l \<and> bc' = n_cost (N ! l) + costs (n_rid (N ! l)) lid \<and> bc' < bc))"
proof (induction ls arbitrary: bc bn c)
  case (Cons l ls)
  show ?case
  proof (cases "n_prev (N ! l) = None")
    case True
    with Cons show ?thesis by simp
  next
    case False
    then obtain prev where prev: "n_prev (N ! l) = Some prev" by blast
    have "covers (n_rid (N ! l)) lid" using Cons.prems(3) False by simp
    from get_cost [OF Cons.prems(1,2) this] obtain c1 where c1: "get (n_rid (N ! l)) lid c = Some (costs (n_rid (N ! l)) lid, c1)"
      "ok c1" "ready lid c1" by blast
    let ?cost = "n_cost (N ! l) + costs (n_rid (N ! l)) lid"
    have p: "\<forall>l \<in> set ls. n_prev (N ! l) \<noteq> None \<longrightarrow> covers (n_rid (N ! l)) lid" using Cons.prems(3) by simp
    show ?thesis
    proof (cases "?cost < bc")
      case True
      from Cons.IH [OF c1(2,3) p, of ?cost "Some l"] obtain bc' bn' c' where
        i: "BestLeft get N lid ls ?cost (Some l) c1 = Some (bc', bn', c')" "ok c'" "ready lid c'" "bc' \<le> ?cost"
          "\<forall>l \<in> set ls. n_prev (N ! l) \<noteq> None \<longrightarrow> bc' \<le> n_cost (N ! l) + costs (n_rid (N ! l)) lid"
          "bn' = Some l \<and> bc' = ?cost \<or> (\<exists>l \<in> set ls. n_prev (N ! l) \<noteq> None \<and> bn' = Some l \<and>
             bc' = n_cost (N ! l) + costs (n_rid (N ! l)) lid \<and> bc' < ?cost)" by blast
      have "BestLeft get N lid (l # ls) bc bn c = Some (bc', bn', c')" using prev True c1(1) i(1) by (simp add: Let_def)
      moreover have "bc' \<le> bc" using i(4) True by simp
      moreover have "\<exists>l' \<in> set (l # ls). n_prev (N ! l') \<noteq> None \<and> bn' = Some l' \<and>
          bc' = n_cost (N ! l') + costs (n_rid (N ! l')) lid \<and> bc' < bc"
        using i(4,6) True prev by (elim disjE bexE) auto
      ultimately show ?thesis using i(2,3,4,5) by (intro exI [of _ bc'] exI [of _ bn'] exI [of _ c']) auto
    next
      case ge: False
      from Cons.IH [OF c1(2,3) p, of bc bn] obtain bc' bn' c' where
        i: "BestLeft get N lid ls bc bn c1 = Some (bc', bn', c')" "ok c'" "ready lid c'" "bc' \<le> bc"
          "\<forall>l \<in> set ls. n_prev (N ! l) \<noteq> None \<longrightarrow> bc' \<le> n_cost (N ! l) + costs (n_rid (N ! l)) lid"
          "bn' = bn \<and> bc' = bc \<or> (\<exists>l \<in> set ls. n_prev (N ! l) \<noteq> None \<and> bn' = Some l \<and>
             bc' = n_cost (N ! l) + costs (n_rid (N ! l)) lid \<and> bc' < bc)" by blast
      have "BestLeft get N lid (l # ls) bc bn c = Some (bc', bn', c')" using prev ge c1(1) i(1) by (simp add: Let_def)
      then show ?thesis using i(2-6) ge by (intro exI [of _ bc'] exI [of _ bn'] exI [of _ c']) auto
    qed
  qed
qed simp

end

text \<open>All nodes before position \<open>q\<close> are solved, the others are as they were.\<close>

definition solved_before ::
  "(16 word \<Rightarrow> 16 word \<Rightarrow> int) \<Rightarrow> (16 word \<Rightarrow> 16 word \<Rightarrow> int) \<Rightarrow> lattice \<Rightarrow> (nat \<Rightarrow> nat) \<Rightarrow> nat \<Rightarrow> nat set \<Rightarrow> node list \<Rightarrow> bool" where
  "solved_before dc tc L b bos done N \<longleftrightarrow>
     same_nodes N L \<and> (\<forall>r \<in> done. solved dc tc L b bos N r) \<and> (\<forall>i. i \<notin> done \<longrightarrow> N ! i = nd L i)"

definition nodes_before :: "lattice \<Rightarrow> nat \<Rightarrow> nat set" where
  "nodes_before L q = (\<Union>p < q. set (la_begin_nodes L ! p))"

lemma nodes_before_0: "nodes_before L 0 = {}"
  by (simp add: nodes_before_def)

lemma nodes_before_Suc: "nodes_before L (Suc q) = nodes_before L q \<union> set (la_begin_nodes L ! q)"
  by (auto simp: nodes_before_def lessThan_Suc)

lemma before_begin:
  assumes "lattice_ok L bos eos" "q \<le> length (la_key L)" "x \<in> nodes_before L q"
  shows "n_begin_pos (nd L x) < q" "x \<noteq> bos" "x \<noteq> eos"
proof -
  obtain p where p: "p < q" "x \<in> set (la_begin_nodes L ! p)" using assms(3) by (auto simp: nodes_before_def)
  then have "p < length (la_key L)" using assms(2) by simp
  from lattice_node_at(1,2,4) [OF assms(1) this p(2)] p(1) show "n_begin_pos (nd L x) < q" "x \<noteq> bos" "x \<noteq> eos" by simp_all
qed

lemma ends_before:
  assumes ok: "lattice_ok L bos eos" and q: "0 < q" "q \<le> length (la_key L)" and l: "l \<in> set (la_end_nodes L ! q)"
  shows "l \<in> nodes_before L q"
  using node_ending_at [OF ok q l] by (auto simp: nodes_before_def)

lemma solved_before_add:
  assumes ok: "lattice_ok L bos eos" and S: "solved_before dc tc L b bos D N" and r: "r < length (la_nodes L)"
    and N': "N' = N[r := n]" "static n = static (N ! r)" and sr: "solved dc tc L b bos N' r" and rD: "r \<notin> D"
    and D: "\<And>x. x \<in> D \<Longrightarrow> n_begin_pos (nd L x) \<le> n_begin_pos (nd L r)"
  shows "solved_before dc tc L b bos (insert r D) N'"
proof -
  have len: "length N = length (la_nodes L)" using S by (simp add: solved_before_def same_nodes_def)
  have x: "N' ! x = N ! x" if "x \<noteq> r" for x using that N'(1) by simp
  have "solved dc tc L b bos N' d" if d: "d \<in> D" for d
  proof (rule solved_cong [OF ok])
    show "solved dc tc L b bos N d" using S d by (simp add: solved_before_def)
    show "N' ! d = N ! d" using d rD by (intro x) auto
    show "N' ! y = N ! y" if "n_begin_pos (nd L y) < n_begin_pos (nd L d)" for y using x D [OF d] that by (cases "y = r") auto
  qed
  moreover have "same_nodes N' L" unfolding N'(1)
    using S r len N'(2) by (intro same_nodes_update) (simp_all add: solved_before_def)
  ultimately show ?thesis using S sr x by (auto simp: solved_before_def)
qed

lemma best_is_chosen:
  assumes ok: "lattice_ok L bos eos" and pos: "0 < pos" "pos \<le> length (la_key L)" and small: "\<And>ns rid lid. lattice_path L b ns \<Longrightarrow> path_cost dc tc L bos ns + ec rid lid < kVeryBigCost"
    and left: "\<forall>l \<in> set (la_end_nodes L ! pos). solved dc tc L b bos N l"
    and rid: "\<And>l. l \<in> set (la_end_nodes L ! pos) \<Longrightarrow> n_rid (N ! l) = n_rid (nd L l)"
    and least: "\<forall>l \<in> set (la_end_nodes L ! pos). n_prev (N ! l) \<noteq> None \<longrightarrow> bc \<le> n_cost (N ! l) + ec (n_rid (N ! l)) (n_lid (nd L r))"
    and best: "bn = None \<and> bc = kVeryBigCost \<or> (\<exists>l \<in> set (la_end_nodes L ! pos). n_prev (N ! l) \<noteq> None \<and> bn = Some l \<and>
      bc = n_cost (N ! l) + ec (n_rid (N ! l)) (n_lid (nd L r)) \<and> bc < kVeryBigCost)"
    and con: "n_constrained_prev (nd L r) = None"
  shows "chosen ec L N pos r bn bc"
proof (cases bn)
  case None
  then have bc: "bc = kVeryBigCost" using best by simp
  have "n_prev (N ! l) = None" if l: "l \<in> set (la_end_nodes L ! pos)" for l
  proof (rule ccontr)
    assume p: "n_prev (N ! l) \<noteq> None"
    obtain ns where ns: "lattice_path L b ns" "path_cost dc tc L bos ns = n_cost (N ! l)"
      using bspec [OF left l] p unfolding solved_def by blast
    have "bc \<le> n_cost (N ! l) + ec (n_rid (N ! l)) (n_lid (nd L r))" using least l p by blast
    moreover have "path_cost dc tc L bos ns + ec (n_rid (N ! l)) (n_lid (nd L r)) < kVeryBigCost" by (rule small [OF ns(1)])
    ultimately show False using bc ns(2) by simp
  qed
  then show ?thesis using None by (simp add: chosen_def candidates_def)
next
  case (Some l)
  then have l: "l \<in> set (la_end_nodes L ! pos)" "n_prev (N ! l) \<noteq> None" "bc = n_cost (N ! l) + ec (n_rid (N ! l)) (n_lid (nd L r))"
    using best by auto
  have "bc \<le> n_cost (N ! l') + ec (n_rid (nd L l')) (n_lid (nd L r))" if "l' \<in> candidates L N pos r" for l'
    using least rid [of l'] that unfolding candidates_def by auto
  moreover have "l \<in> candidates L N pos r" using l con by (simp add: candidates_def)
  ultimately show ?thesis using Some l(3) rid [OF l(1)] by (simp add: chosen_def)
qed

context transition_costs
begin

lemma ViterbiNode_solves:
  assumes ok: "lattice_ok L bos eos" and pos: "0 < pos" "pos < length (la_key L)" and r: "r \<in> set (la_begin_nodes L ! pos)"
    and S: "solved_before dc costs L b bos D N" and D: "nodes_before L pos \<subseteq> D" "D \<subseteq> nodes_before L (Suc pos)" "r \<notin> D"
    and B: "bounded_costs dc costs L bos B" and c: "ok c"
    and cov: "\<And>l r. l < length (la_nodes L) \<Longrightarrow> r < length (la_nodes L) \<Longrightarrow> covers (n_rid (nd L l)) (n_lid (nd L r))"
  shows "\<exists>N' c'. ViterbiNode reset get (b pos) (la_end_nodes L ! pos) r N c = Some (N', c') \<and> ok c' \<and>
    solved_before dc costs L b bos (insert r D) N'"
proof -
  note nr = lattice_node_at [OF ok pos(2) r]
  have sn: "same_nodes N L" using S by (simp add: solved_before_def)
  note fr = same_fields [OF sn nr(3)]
  have left: "\<forall>l \<in> set (la_end_nodes L ! pos). solved dc costs L b bos N l"
    using ends_before [OF ok pos(1)] pos(2) D(1) S by (auto simp: solved_before_def)
  have ll: "l < length (la_nodes L)" if "l \<in> set (la_end_nodes L ! pos)" for l
    by (rule ending_in_range [OF ok pos(1) _ that]) (use pos(2) in simp)
  have lf: "n_rid (N ! l) = n_rid (nd L l)" if "l \<in> set (la_end_nodes L ! pos)" for l
    by (rule same_fields(1) [OF sn ll [OF that]])
  have add: "solved_before dc costs L b bos (insert r D) N'"
    if N': "N' = N[r := (N ! r)\<lparr>n_prev := pr, n_cost := cost + n_wcost (nd L r)\<rparr>]"
      and res: "if n_end_pos (nd L r) \<le> b pos then chosen costs L N pos r pr cost else pr = None" for N' pr cost
  proof (rule solved_before_add [OF ok S nr(3) N'])
    show "static ((N ! r)\<lparr>n_prev := pr, n_cost := cost + n_wcost (nd L r)\<rparr>) = static (N ! r)" by (simp add: static_def)
    show "solved dc costs L b bos N' r" by (rule solved_step [OF ok pos r sn left N' res])
    show "r \<notin> D" by (rule D(3))
    show "n_begin_pos (nd L x) \<le> n_begin_pos (nd L r)" if "x \<in> D" for x
      using before_begin(1) [OF ok, of "Suc pos" x] that D(2) pos(2) nr(4) by auto
  qed
  have keep: "N[r := (N ! r)\<lparr>n_prev := None\<rparr>] =
      N[r := (N ! r)\<lparr>n_prev := None, n_cost := (n_cost (N ! r) - n_wcost (nd L r)) + n_wcost (nd L r)\<rparr>]" by simp
  show ?thesis
  proof (cases "b pos < n_end_pos (nd L r)")
    case True
    then have "ViterbiNode reset get (b pos) (la_end_nodes L ! pos) r N c = Some (N[r := (N ! r)\<lparr>n_prev := None\<rparr>], c)"
      using fr(5) by (simp add: ViterbiNode_def)
    with c add [OF keep] True show ?thesis by simp
  next
    case False
    have c1: "ok (reset (n_lid (nd L r)) c)" "ready (n_lid (nd L r)) (reset (n_lid (nd L r)) c)" using reset_ready [OF c] by auto
    show ?thesis
    proof (cases "n_constrained_prev (nd L r)")
      case (Some p)
      then have p: "p \<in> set (la_end_nodes L ! pos)" using nr(9) by simp
      show ?thesis
      proof (cases "n_prev (N ! p)")
        case None
        have "ViterbiNode reset get (b pos) (la_end_nodes L ! pos) r N c =
            Some (N[r := (N ! r)\<lparr>n_prev := None\<rparr>], reset (n_lid (nd L r)) c)"
          using fr False Some None by (simp add: ViterbiNode_def)
        moreover have "chosen costs L N pos r None x" for x using Some None by (auto simp: chosen_def candidates_def)
        ultimately show ?thesis using c1(1) add [OF keep] False by simp
      next
        case (Some pp)
        note con = \<open>n_constrained_prev (nd L r) = Some p\<close>
        from get_cost [OF c1 cov [OF ll [OF p] nr(3)]] obtain c' where
          c': "get (n_rid (nd L p)) (n_lid (nd L r)) (reset (n_lid (nd L r)) c) = Some (costs (n_rid (nd L p)) (n_lid (nd L r)), c')" "ok c'"
          by blast
        let ?cost = "n_cost (N ! p) + costs (n_rid (nd L p)) (n_lid (nd L r))"
        have "ViterbiNode reset get (b pos) (la_end_nodes L ! pos) r N c =
            Some (N[r := (N ! r)\<lparr>n_prev := Some p, n_cost := ?cost + n_wcost (nd L r)\<rparr>], c')"
          using fr False con Some c'(1) lf [OF p] by (simp add: ViterbiNode_def algebra_simps)
        moreover have "chosen costs L N pos r (Some p) ?cost" using con Some p by (auto simp: chosen_def candidates_def)
        ultimately show ?thesis using c'(2) add [OF refl] False by simp
      qed
    next
      case None
      have "\<forall>l \<in> set (la_end_nodes L ! pos). n_prev (N ! l) \<noteq> None \<longrightarrow> covers (n_rid (N ! l)) (n_lid (nd L r))" using lf ll cov nr(3) by simp
      from BestLeft_least [OF c1 this, of kVeryBigCost None] obtain bc bn c' where
        best: "BestLeft get N (n_lid (nd L r)) (la_end_nodes L ! pos) kVeryBigCost None (reset (n_lid (nd L r)) c) = Some (bc, bn, c')" "ok c'"
          "\<forall>l \<in> set (la_end_nodes L ! pos). n_prev (N ! l) \<noteq> None \<longrightarrow> bc \<le> n_cost (N ! l) + costs (n_rid (N ! l)) (n_lid (nd L r))"
          "bn = None \<and> bc = kVeryBigCost \<or> (\<exists>l \<in> set (la_end_nodes L ! pos). n_prev (N ! l) \<noteq> None \<and> bn = Some l \<and>
             bc = n_cost (N ! l) + costs (n_rid (N ! l)) (n_lid (nd L r)) \<and> bc < kVeryBigCost)" by blast
      have "ViterbiNode reset get (b pos) (la_end_nodes L ! pos) r N c =
          Some (N[r := (N ! r)\<lparr>n_prev := bn, n_cost := bc + n_wcost (nd L r)\<rparr>], c')"
        using fr False None best(1) by (simp add: ViterbiNode_def)
      moreover have "chosen costs L N pos r bn bc"
        by (rule best_is_chosen [where ec = costs and dc = dc and tc = costs and b = b, OF ok pos(1) less_imp_le [OF pos(2)]
              path_cost_small(2) [OF ok B] left lf best(3,4) None])
      ultimately show ?thesis using best(2) add [OF refl] False by simp
    qed
  qed
qed

end

text \<open>The right boundary of the segment a position is in.\<close>

fun segment_end :: "nat \<Rightarrow> bytes list \<Rightarrow> nat \<Rightarrow> nat" where
  "segment_end left [] pos = left"
| "segment_end left (key # keys) pos =
     (if pos < left + length key then left + length key else segment_end (left + length key) keys pos)"

lemma nodes_before_new:
  assumes "lattice_ok L bos eos" "pos < length (la_key L)" "r \<in> set (la_begin_nodes L ! pos)"
  shows "r \<notin> nodes_before L pos"
  using before_begin(1) [OF assms(1), of pos r] lattice_node_at(4) [OF assms] assms(2) by auto

context transition_costs
begin

lemma ViterbiNodes_solve:
  assumes ok: "lattice_ok L bos eos" and pos: "0 < pos" "pos < length (la_key L)" and B: "bounded_costs dc costs L bos B"
    and cov: "\<And>l r. l < length (la_nodes L) \<Longrightarrow> r < length (la_nodes L) \<Longrightarrow> covers (n_rid (nd L l)) (n_lid (nd L r))"
  shows "distinct rs \<Longrightarrow> set rs \<subseteq> set (la_begin_nodes L ! pos) \<Longrightarrow> set rs \<inter> D = {} \<Longrightarrow> solved_before dc costs L b bos D N \<Longrightarrow>
    nodes_before L pos \<subseteq> D \<Longrightarrow> D \<subseteq> nodes_before L (Suc pos) \<Longrightarrow> ok c \<Longrightarrow>
    \<exists>N' c'. ViterbiNodes reset get (b pos) (la_end_nodes L ! pos) rs N c = Some (N', c') \<and> ok c' \<and>
      solved_before dc costs L b bos (set rs \<union> D) N'"
proof (induction rs arbitrary: D N c)
  case (Cons r rs)
  have r: "r \<in> set (la_begin_nodes L ! pos)" "r \<notin> D" using Cons.prems by auto
  obtain N1 c1 where 1: "ViterbiNode reset get (b pos) (la_end_nodes L ! pos) r N c = Some (N1, c1)" "ok c1"
    "solved_before dc costs L b bos (insert r D) N1"
    using ViterbiNode_solves [OF ok pos r(1) Cons.prems(4,5,6) r(2) B Cons.prems(7) cov] by blast
  have "insert r D \<subseteq> nodes_before L (Suc pos)" using r(1) Cons.prems(6) by (simp add: nodes_before_Suc)
  moreover have "set rs \<inter> insert r D = {}" using Cons.prems(1,3) by auto
  ultimately obtain N' c' where "ViterbiNodes reset get (b pos) (la_end_nodes L ! pos) rs N1 c1 = Some (N', c')" "ok c'"
    "solved_before dc costs L b bos (set rs \<union> insert r D) N'"
    using Cons.IH [of "insert r D" N1 c1] Cons.prems 1 by auto
  then show ?case using 1(1) by simp
qed simp

lemma ViterbiInternal_solves:
  assumes ok: "lattice_ok L bos eos" and pos: "0 < pos" "pos < length (la_key L)" and B: "bounded_costs dc costs L bos B"
    and cov: "\<And>l r. l < length (la_nodes L) \<Longrightarrow> r < length (la_nodes L) \<Longrightarrow> covers (n_rid (nd L l)) (n_lid (nd L r))"
    and S: "solved_before dc costs L b bos (nodes_before L pos) N" and c: "ok c"
  shows "\<exists>N' c'. ViterbiInternal reset get pos (b pos) (L\<lparr>la_nodes := N\<rparr>) c = Some (L\<lparr>la_nodes := N'\<rparr>, c') \<and> ok c' \<and>
    solved_before dc costs L b bos (nodes_before L (Suc pos)) N'"
proof -
  have "distinct (la_begin_nodes L ! pos)" using ok pos(2) by (simp add: lattice_ok_def)
  moreover have "set (la_begin_nodes L ! pos) \<inter> nodes_before L pos = {}" using nodes_before_new [OF ok pos(2)] by blast
  moreover have "nodes_before L pos \<subseteq> nodes_before L (Suc pos)" by (simp add: nodes_before_Suc)
  ultimately obtain N' c' where
    "ViterbiNodes reset get (b pos) (la_end_nodes L ! pos) (la_begin_nodes L ! pos) N c = Some (N', c')" "ok c'"
    "solved_before dc costs L b bos (set (la_begin_nodes L ! pos) \<union> nodes_before L pos) N'"
    using ViterbiNodes_solve [OF ok pos B cov _ order_refl _ S order_refl _ c] by blast
  moreover have "pos < length (la_begin_nodes L)" "pos < length (la_end_nodes L)" using ok pos(2) by (simp_all add: lattice_ok_def)
  ultimately have "ViterbiInternal reset get pos (b pos) (L\<lparr>la_nodes := N\<rparr>) c = Some (L\<lparr>la_nodes := N'\<rparr>, c') \<and> ok c' \<and>
      solved_before dc costs L b bos (nodes_before L (Suc pos)) N'"
    by (simp add: ViterbiInternal_def begin_nodes_def end_nodes_def nodes_before_Suc Un_commute)
  then show ?thesis by blast
qed

lemma ViterbiPositions_solve:
  assumes ok: "lattice_ok L bos eos" and B: "bounded_costs dc costs L bos B"
    and cov: "\<And>l r. l < length (la_nodes L) \<Longrightarrow> r < length (la_nodes L) \<Longrightarrow> covers (n_rid (nd L l)) (n_lid (nd L r))"
  shows "0 < p \<Longrightarrow> p + n \<le> length (la_key L) \<Longrightarrow> \<forall>x. p \<le> x \<longrightarrow> x < p + n \<longrightarrow> b x = right \<Longrightarrow>
    solved_before dc costs L b bos (nodes_before L p) N \<Longrightarrow> ok c \<Longrightarrow>
    \<exists>N' c'. ViterbiPositions reset get right [p ..< p + n] (L\<lparr>la_nodes := N\<rparr>) c = Some (L\<lparr>la_nodes := N'\<rparr>, c') \<and> ok c' \<and>
      solved_before dc costs L b bos (nodes_before L (p + n)) N'"
proof (induction n arbitrary: p N c)
  case (Suc n)
  have bp: "b p = right" using Suc.prems(3) by simp
  obtain N1 c1 where 1: "ViterbiInternal reset get p right (L\<lparr>la_nodes := N\<rparr>) c = Some (L\<lparr>la_nodes := N1\<rparr>, c1)" "ok c1"
    "solved_before dc costs L b bos (nodes_before L (Suc p)) N1"
    using ViterbiInternal_solves [OF ok Suc.prems(1) _ B cov Suc.prems(4,5)] Suc.prems(2) bp by auto
  obtain N' c' where
    "ViterbiPositions reset get right [Suc p ..< Suc p + n] (L\<lparr>la_nodes := N1\<rparr>) c1 = Some (L\<lparr>la_nodes := N'\<rparr>, c')" "ok c'"
    "solved_before dc costs L b bos (nodes_before L (Suc p + n)) N'"
    using Suc.IH [of "Suc p" N1 c1] Suc.prems(2,3) 1 by auto
  moreover have "[p ..< p + Suc n] = p # [Suc p ..< Suc p + n]" by (simp add: upt_rec)
  ultimately have "ViterbiPositions reset get right [p ..< p + Suc n] (L\<lparr>la_nodes := N\<rparr>) c = Some (L\<lparr>la_nodes := N'\<rparr>, c') \<and> ok c' \<and>
      solved_before dc costs L b bos (nodes_before L (p + Suc n)) N'" using 1(1) by (simp del: upt_Suc)
  then show ?case by blast
qed auto

lemma ViterbiSegments_solve:
  assumes ok: "lattice_ok L bos eos" and B: "bounded_costs dc costs L bos B"
    and cov: "\<And>l r. l < length (la_nodes L) \<Longrightarrow> r < length (la_nodes L) \<Longrightarrow> covers (n_rid (nd L l)) (n_lid (nd L r))"
  shows "0 < left \<Longrightarrow> left + length (concat keys) = length (la_key L) \<Longrightarrow> \<forall>x \<ge> left. x < length (la_key L) \<longrightarrow> b x = segment_end left keys x \<Longrightarrow>
    solved_before dc costs L b bos (nodes_before L left) N \<Longrightarrow> ok c \<Longrightarrow>
    \<exists>N' c'. ViterbiSegments reset get left keys (L\<lparr>la_nodes := N\<rparr>) c = Some (L\<lparr>la_nodes := N'\<rparr>, c') \<and> ok c' \<and>
      solved_before dc costs L b bos (nodes_before L (length (la_key L))) N'"
proof (induction keys arbitrary: left N c)
  case (Cons key keys)
  have len: "left + length key \<le> length (la_key L)" using Cons.prems(2) by simp
  moreover have "\<forall>x. left \<le> x \<longrightarrow> x < left + length key \<longrightarrow> b x = left + length key" using Cons.prems(3) len by simp
  ultimately obtain N1 c1 where
    1: "ViterbiPositions reset get (left + length key) [left ..< left + length key] (L\<lparr>la_nodes := N\<rparr>) c = Some (L\<lparr>la_nodes := N1\<rparr>, c1)"
      "ok c1" "solved_before dc costs L b bos (nodes_before L (left + length key)) N1"
    using ViterbiPositions_solve [OF ok B cov Cons.prems(1) _ _ Cons.prems(4,5)] by blast
  have "\<forall>x \<ge> left + length key. x < length (la_key L) \<longrightarrow> b x = segment_end (left + length key) keys x" using Cons.prems(3) by simp
  from Cons.IH [OF _ _ this 1(3,2)] Cons.prems(1,2) obtain N' c' where
    "ViterbiSegments reset get (left + length key) keys (L\<lparr>la_nodes := N1\<rparr>) c1 = Some (L\<lparr>la_nodes := N'\<rparr>, c')" "ok c'"
    "solved_before dc costs L b bos (nodes_before L (length (la_key L))) N'" by auto
  with 1(1) have "ViterbiSegments reset get left (key # keys) (L\<lparr>la_nodes := N\<rparr>) c = Some (L\<lparr>la_nodes := N'\<rparr>, c') \<and> ok c' \<and>
      solved_before dc costs L b bos (nodes_before L (length (la_key L))) N'" by (simp add: Let_def)
  then show ?case by blast
qed (use ok in \<open>auto simp: lattice_ok_def\<close>)

lemma RunViterbiLoop_solves:
  assumes ok: "lattice_ok L bos eos" and B: "bounded_costs dc costs L bos B"
    and cov: "\<And>l r. l < length (la_nodes L) \<Longrightarrow> r < length (la_nodes L) \<Longrightarrow> covers (n_rid (nd L l)) (n_lid (nd L r))"
    and keys: "length (concat keys) = length (la_key L)" "keys \<noteq> []" "hd keys \<noteq> []"
    and S: "solved_before dc costs L (segment_end 0 keys) bos (nodes_before L 1) N" and c: "ok c"
  shows "\<exists>N' c'. RunViterbiLoop reset get keys (L\<lparr>la_nodes := N\<rparr>) c = Some (L\<lparr>la_nodes := N'\<rparr>, c') \<and> ok c' \<and>
    solved_before dc costs L (segment_end 0 keys) bos (nodes_before L (length (la_key L))) N'"
proof -
  let ?b = "segment_end 0 keys"
  obtain key ks where k: "keys = key # ks" "key \<noteq> []" using keys(2,3) by (cases keys) auto
  then have n: "0 < length key" "length key \<le> length (la_key L)" using keys(1) by auto
  then have e: "1 + (length key - 1) = length key" by simp
  have "\<forall>x. 1 \<le> x \<longrightarrow> x < 1 + (length key - 1) \<longrightarrow> ?b x = length key" using k by auto
  from ViterbiPositions_solve [OF ok B cov _ _ this S c, unfolded e] n obtain N1 c1 where
    1: "ViterbiPositions reset get (length key) [1 ..< length key] (L\<lparr>la_nodes := N\<rparr>) c = Some (L\<lparr>la_nodes := N1\<rparr>, c1)"
      "ok c1" "solved_before dc costs L ?b bos (nodes_before L (length key)) N1" by (auto simp del: upt_Suc)
  have "\<forall>x \<ge> length key. x < length (la_key L) \<longrightarrow> ?b x = segment_end (length key) ks x" using k by simp
  from ViterbiSegments_solve [OF ok B cov n(1) _ this 1(3,2)] keys(1) k(1) obtain N' c' where
    "ViterbiSegments reset get (length key) ks (L\<lparr>la_nodes := N1\<rparr>) c1 = Some (L\<lparr>la_nodes := N'\<rparr>, c')" "ok c'"
    "solved_before dc costs L ?b bos (nodes_before L (length (la_key L))) N'" by auto
  with 1(1) k(1) have "RunViterbiLoop reset get keys (L\<lparr>la_nodes := N\<rparr>) c = Some (L\<lparr>la_nodes := N'\<rparr>, c') \<and> ok c' \<and>
      solved_before dc costs L ?b bos (nodes_before L (length (la_key L))) N'" by (simp add: RunViterbiLoop_def)
  then show ?thesis by blast
qed

end

section \<open>The nodes at the beginning\<close>

definition nodes_covered :: "connector \<Rightarrow> lattice \<Rightarrow> bool" where
  "nodes_covered c L \<longleftrightarrow> (\<forall>l < length (la_nodes L). \<forall>r < length (la_nodes L). in_matrix c (n_rid (nd L l)) (n_lid (nd L r)))"

lemma ViterbiBOS_solves:
  assumes ok: "lattice_ok L bos eos" and cov: "nodes_covered c0 L"
  shows "distinct rs \<Longrightarrow> set rs \<subseteq> set (la_begin_nodes L ! 0) \<Longrightarrow> set rs \<inter> D = {} \<Longrightarrow> D \<subseteq> nodes_before L 1 \<Longrightarrow>
    solved_before (matrix_cost c0) tc L b bos D N \<Longrightarrow> connector_ok c0 c \<Longrightarrow>
    \<exists>N' c'. ViterbiBOS bos (b 0) rs N c = Some (N', c') \<and> connector_ok c0 c' \<and>
      solved_before (matrix_cost c0) tc L b bos (set rs \<union> D) N'"
proof (induction rs arbitrary: D N c)
  case (Cons r rs)
  let ?S = "solved_before (matrix_cost c0) tc L b bos"
  have n: "0 < length (la_key L)" using ok by (simp add: lattice_ok_def)
  have r: "r \<in> set (la_begin_nodes L ! 0)" "r \<notin> D" using Cons.prems(2,3) by auto
  note nr = lattice_node_at [OF ok n r(1)]
  have bos: "bos < length (la_nodes L)" using ok by (simp add: lattice_ok_def)
  have sn: "same_nodes N L" and unch: "\<And>i. i \<notin> D \<Longrightarrow> N ! i = nd L i" using Cons.prems(5) by (simp_all add: solved_before_def)
  have rN: "r < length N" using nr(3) sn by (simp add: same_nodes_def)
  have beg: "n_begin_pos (nd L x) \<le> n_begin_pos (nd L r)" if "x \<in> D" for x
    using before_begin(1) [OF ok, of 1 x] that Cons.prems(4) n nr(4) by auto
  have "bos \<notin> D" using before_begin(2) [OF ok, of 1] Cons.prems(4) n by auto
  then have nb: "N ! bos = nd L bos" by (rule unch)
  have nrN: "N ! r = nd L r" by (rule unch [OF r(2)])
  have step: "\<exists>N1 c1. ViterbiBOS bos (b 0) (r # rs) N c = ViterbiBOS bos (b 0) rs N1 c1 \<and> connector_ok c0 c1 \<and> ?S (insert r D) N1"
  proof (cases "b 0 < n_end_pos (nd L r)")
    case True
    have "solved (matrix_cost c0) tc L b bos N r" by (rule solved_first [OF ok r(1) sn]) (use True nrN nr(8) in simp)
    then have "?S (insert r D) N"
      by (intro solved_before_add [OF ok Cons.prems(5) nr(3) _ _ _ r(2) beg, where n = "N ! r"]) simp_all
    then show ?thesis using True Cons.prems(6) nrN by (intro exI [of _ N] exI [of _ c]) simp
  next
    case False
    have m: "in_matrix c0 (n_rid (nd L bos)) (n_lid (nd L r))" using cov bos nr(3) by (simp add: nodes_covered_def)
    from GetTransitionCost_ok [OF Cons.prems(6) m] obtain c1 where
      c1: "GetTransitionCost (n_rid (nd L bos)) (n_lid (nd L r)) c = Some (matrix_cost c0 (n_rid (nd L bos)) (n_lid (nd L r)), c1)"
        "connector_ok c0 c1" by blast
    let ?n = "(nd L r)\<lparr>n_prev := Some bos,
      n_cost := n_cost (nd L bos) + matrix_cost c0 (n_rid (nd L bos)) (n_lid (nd L r)) + n_wcost (nd L r)\<rparr>"
    have st: "static ?n = static (N ! r)" using nrN by (simp add: static_def)
    have "same_nodes (N[r := ?n]) L" by (rule same_nodes_update [OF sn rN st])
    then have "solved (matrix_cost c0) tc L b bos (N[r := ?n]) r" by (rule solved_first [OF ok r(1)]) (use False rN in simp)
    then have "?S (insert r D) (N[r := ?n])" by (rule solved_before_add [OF ok Cons.prems(5) nr(3) refl st _ r(2) beg])
    then show ?thesis using False c1 nrN nb by (intro exI [of _ "N[r := ?n]"] exI [of _ c1]) (simp add: Let_def)
  qed
  then obtain N1 c1 where 1: "ViterbiBOS bos (b 0) (r # rs) N c = ViterbiBOS bos (b 0) rs N1 c1" "connector_ok c0 c1" "?S (insert r D) N1"
    by blast
  have "r \<in> nodes_before L 1" using r(1) by (auto simp: nodes_before_def)
  with Cons.IH [of "insert r D" N1 c1] Cons.prems(1-4) 1 show ?case by (auto simp del: ViterbiBOS.simps)
qed simp

section \<open>The end\<close>

lemma ViterbiEOS_solves:
  assumes ok: "lattice_ok L bos eos" and cov: "nodes_covered c0 L" and B: "bounded_costs (matrix_cost c0) tc L bos B"
    and S: "solved_before (matrix_cost c0) tc L b bos (nodes_before L (length (la_key L))) N" and c: "connector_ok c0 c"
  shows "\<exists>pr cost c'. ViterbiEOS (L\<lparr>la_nodes := N\<rparr>) c =
      Some (L\<lparr>la_nodes := N[eos := (nd L eos)\<lparr>n_prev := pr, n_cost := cost + n_wcost (nd L eos)\<rparr>]\<rparr>, c') \<and>
    connector_ok c0 c' \<and> chosen (matrix_cost c0) L N (length (la_key L)) eos pr cost"
proof -
  let ?n = "length (la_key L)"
  have n: "0 < ?n" and eos: "eos < length (la_nodes L)" "la_begin_nodes L ! ?n = [eos]" "n_constrained_prev (nd L eos) = None"
    and len: "length (la_begin_nodes L) = Suc ?n" "length (la_end_nodes L) = Suc ?n"
    using ok by (simp_all add: lattice_ok_def)
  have sn: "same_nodes N L" using S by (simp add: solved_before_def)
  have "eos \<notin> nodes_before L ?n" using before_begin(3) [OF ok order_refl] by blast
  then have e: "N ! eos = nd L eos" using S by (simp add: solved_before_def)
  have lf: "n_rid (N ! l) = n_rid (nd L l)" "l < length (la_nodes L)" if "l \<in> set (la_end_nodes L ! ?n)" for l
    using same_fields(1) [OF sn] ending_in_range [OF ok n order_refl that] by simp_all
  have left: "\<forall>l \<in> set (la_end_nodes L ! ?n). solved (matrix_cost c0) tc L b bos N l"
    using ends_before [OF ok n order_refl] S by (simp add: solved_before_def)
  have "\<forall>l \<in> set (la_end_nodes L ! ?n). n_prev (N ! l) \<noteq> None \<longrightarrow> in_matrix c0 (n_rid (N ! l)) (n_lid (nd L eos))"
    using lf cov eos(1) by (simp add: nodes_covered_def)
  from direct.BestLeft_least [OF c TrueI this, of kVeryBigCost None] obtain bc bn c' where
    best: "BestLeft GetTransitionCost N (n_lid (nd L eos)) (la_end_nodes L ! ?n) kVeryBigCost None c = Some (bc, bn, c')" "connector_ok c0 c'"
      "\<forall>l \<in> set (la_end_nodes L ! ?n). n_prev (N ! l) \<noteq> None \<longrightarrow> bc \<le> n_cost (N ! l) + matrix_cost c0 (n_rid (N ! l)) (n_lid (nd L eos))"
      "bn = None \<and> bc = kVeryBigCost \<or> (\<exists>l \<in> set (la_end_nodes L ! ?n). n_prev (N ! l) \<noteq> None \<and> bn = Some l \<and>
         bc = n_cost (N ! l) + matrix_cost c0 (n_rid (N ! l)) (n_lid (nd L eos)) \<and> bc < kVeryBigCost)" by blast
  have "chosen (matrix_cost c0) L N ?n eos bn bc"
    by (rule best_is_chosen [where ec = "matrix_cost c0" and dc = "matrix_cost c0" and tc = tc and b = b, OF ok n order_refl path_cost_small(1) [OF ok B] left lf(1) best(3,4) eos(3)])
  moreover have "ViterbiEOS (L\<lparr>la_nodes := N\<rparr>) c =
      Some (L\<lparr>la_nodes := N[eos := (nd L eos)\<lparr>n_prev := bn, n_cost := bc + n_wcost (nd L eos)\<rparr>]\<rparr>, c')"
    using best(1) e eos(2) len by (simp add: ViterbiEOS_def eos_node_def begin_nodes_def end_nodes_def front_def Let_def)
  ultimately show ?thesis using best(2) by blast
qed

section \<open>The walk back\<close>

definition prev_chain :: "node list \<Rightarrow> nat list \<Rightarrow> bool" where
  "prev_chain N ns \<longleftrightarrow> successively (\<lambda>a b. n_prev (N ! b) = Some a) ns"

definition next_chain :: "node list \<Rightarrow> nat list \<Rightarrow> bool" where
  "next_chain N ns \<longleftrightarrow> successively (\<lambda>a b. n_next (N ! a) = Some b) ns"

text \<open>Only \<^verbatim>\<open>next\<close> pointers have changed.\<close>

definition same_but_next :: "node list \<Rightarrow> node list \<Rightarrow> bool" where
  "same_but_next N' N \<longleftrightarrow> length N' = length N \<and> (\<forall>i < length N. (N' ! i)\<lparr>n_next := None\<rparr> = (N ! i)\<lparr>n_next := None\<rparr>)"

lemma same_but_nextD:
  assumes "same_but_next N' N" "i < length N"
  shows "n_prev (N' ! i) = n_prev (N ! i)" "n_cost (N' ! i) = n_cost (N ! i)" "static (N' ! i) = static (N ! i)"
proof -
  have s: "(N' ! i)\<lparr>n_next := None\<rparr> = (N ! i)\<lparr>n_next := None\<rparr>" using assms by (simp add: same_but_next_def)
  show "n_prev (N' ! i) = n_prev (N ! i)" "n_cost (N' ! i) = n_cost (N ! i)" "static (N' ! i) = static (N ! i)"
    using arg_cong [OF s, of n_prev] arg_cong [OF s, of n_cost] arg_cong [OF s, of static] by (simp_all add: static_def)
qed

lemma successively_cong':
  "successively P xs \<Longrightarrow> (\<And>a b. a \<in> set (butlast xs) \<Longrightarrow> b \<in> set (tl xs) \<Longrightarrow> P a b \<Longrightarrow> Q a b) \<Longrightarrow> successively Q xs"
  by (induction xs rule: induct_list012) auto

lemma TraverseBack_chain:
  "xs \<noteq> [] \<Longrightarrow> distinct xs \<Longrightarrow> \<forall>x \<in> set xs. x < length N \<Longrightarrow> prev_chain N xs \<Longrightarrow> n_prev (N ! hd xs) = None \<Longrightarrow>
    \<exists>N'. TraverseBack (last xs) pr N = Some (if length xs = 1 then pr else Some (hd xs), N') \<and> same_but_next N' N \<and>
      (\<forall>x. x \<notin> set (butlast xs) \<longrightarrow> N' ! x = N ! x) \<and> next_chain N' xs"
proof (induction xs arbitrary: N pr rule: rev_induct)
  case (snoc c ys)
  show ?case
  proof (cases "ys = []")
    case True
    then show ?thesis using snoc.prems by (subst TraverseBack.simps) (simp add: same_but_next_def next_chain_def)
  next
    case False
    let ?l = "last ys" and ?N = "N[last ys := (N ! last ys)\<lparr>n_next := Some c\<rparr>]"
    have l: "?l < length N" "?l \<in> set ys" using snoc.prems(3) False by auto
    have pc: "prev_chain N ys" "n_prev (N ! c) = Some ?l" using snoc.prems(4) False by (simp_all add: prev_chain_def successively_append_iff)
    have fld: "n_prev (?N ! x) = n_prev (N ! x)" for x using l(1) by (cases "x = ?l") simp_all
    have hd: "n_prev (?N ! hd ys) = None" using snoc.prems(5) False fld by simp
    have "prev_chain ?N ys" using pc(1) unfolding prev_chain_def fld .
    from snoc.IH [OF False _ _ this hd, of "Some ?l"] snoc.prems(2,3) obtain N' where
      i: "TraverseBack ?l (Some ?l) ?N = Some (if length ys = 1 then Some ?l else Some (hd ys), N')" "same_but_next N' ?N"
        "\<forall>x. x \<notin> set (butlast ys) \<longrightarrow> N' ! x = ?N ! x" "next_chain N' ys" by auto
    have "TraverseBack c pr N = TraverseBack ?l (Some ?l) ?N" using pc(2) by (subst TraverseBack.simps) simp
    moreover have "?l = hd ys" if "length ys = 1" using that by (cases ys) auto
    ultimately have "TraverseBack (last (ys @ [c])) pr N = Some (if length (ys @ [c]) = 1 then pr else Some (hd (ys @ [c])), N')"
      using i(1) False by (simp split: if_splits)
    moreover have "same_but_next N' N" using i(2) l(1) by (auto simp: same_but_next_def nth_list_update)
    moreover have "N' ! x = N ! x" if "x \<notin> set (butlast (ys @ [c]))" for x
    proof -
      have "x \<notin> set (butlast ys)" "x \<noteq> ?l" using that l(2) by (auto dest: in_set_butlastD)
      then show ?thesis using i(3) by simp
    qed
    moreover have "?l \<notin> set (butlast ys)"
      using snoc.prems(2) False by (metis append_butlast_last_id distinct_append not_distinct_conv_prefix)
    then have "n_next (N' ! ?l) = Some c" using i(3) l(1) by simp
    then have "next_chain N' (ys @ [c])" using i(4) False by (simp add: next_chain_def successively_append_iff)
    ultimately show ?thesis by blast
  qed
qed simp

section \<open>The whole search\<close>

lemma path_distinct:
  assumes ok: "lattice_ok L bos eos"
  shows "lattice_path L b ns \<Longrightarrow> distinct ns"
proof (induction rule: lattice_path.induct)
  case (path_next ns pos r)
  obtain p where p: "p < length (la_key L)" "last ns \<in> set (la_begin_nodes L ! p)" using path_last [OF ok path_next.hyps(1)] by blast
  have "n_begin_pos (nd L (last ns)) < n_begin_pos (nd L r)"
    using lattice_node_at(4,5) [OF ok p] lattice_node_at(4) [OF ok path_next.hyps(3,4)] path_next.hyps(2) by simp
  then have "r \<notin> set ns" using path_members [OF ok path_next.hyps(1), of r] by (auto dest: less_trans)
  then show ?case using path_next.IH by simp
qed simp

lemma path_nodes:
  assumes ok: "lattice_ok L bos eos"
  shows "lattice_path L b ns \<Longrightarrow> x \<in> set ns \<Longrightarrow> x \<noteq> bos \<and> x \<noteq> eos \<and> x < length (la_nodes L)"
proof (induction rule: lattice_path.induct)
  case (path_first r)
  have "0 < length (la_key L)" using ok by (simp add: lattice_ok_def)
  from lattice_node_at(1,2,3) [OF ok this path_first(1)] path_first(3) show ?case by simp
next
  case (path_next ns pos r)
  from lattice_node_at(1,2,3) [OF ok path_next.hyps(3,4)] path_next show ?case by auto
qed

text \<open>
  The result of a search: the pointers of the nodes link a complete path in both directions, the last node has its cost
  and no complete path costs less.
\<close>

definition cheapest_path ::
  "(16 word \<Rightarrow> 16 word \<Rightarrow> int) \<Rightarrow> (16 word \<Rightarrow> 16 word \<Rightarrow> int) \<Rightarrow> lattice \<Rightarrow> (nat \<Rightarrow> nat) \<Rightarrow> nat \<Rightarrow> nat \<Rightarrow> node list \<Rightarrow> nat list \<Rightarrow> bool" where
  "cheapest_path dc tc L b bos eos N ns \<longleftrightarrow>
     complete_path L b ns \<and> prev_chain N (bos # ns @ [eos]) \<and> next_chain N (bos # ns @ [eos]) \<and>
     n_cost (N ! eos) = total_cost dc tc L bos eos ns \<and>
     (\<forall>ns'. complete_path L b ns' \<longrightarrow> total_cost dc tc L bos eos ns \<le> total_cost dc tc L bos eos ns')"

lemma complete_path_end:
  assumes ok: "lattice_ok L bos eos" and p: "complete_path L b ns"
  shows "last ns \<in> set (la_end_nodes L ! length (la_key L))"
proof -
  have l: "lattice_path L b ns" "n_end_pos (nd L (last ns)) = length (la_key L)" using p by (simp_all add: complete_path_def)
  obtain q where q: "q < length (la_key L)" "last ns \<in> set (la_begin_nodes L ! q)" using path_last [OF ok l(1)] by blast
  from lattice_node_at(7) [OF ok q] l(2) show ?thesis by simp
qed

lemma chosen_at_end:
  assumes ok: "lattice_ok L bos eos" and S: "solved_before dc tc L b bos (nodes_before L (length (la_key L))) N"
    and ch: "chosen dc L N (length (la_key L)) eos pr cost"
  shows "pr = None \<and> (\<forall>ns. \<not> complete_path L b ns) \<or>
    (\<exists>ns. pr = Some (last ns) \<and> complete_path L b ns \<and> linked N bos ns \<and>
       cost + n_wcost (nd L eos) = total_cost dc tc L bos eos ns \<and>
       (\<forall>ns'. complete_path L b ns' \<longrightarrow> total_cost dc tc L bos eos ns \<le> total_cost dc tc L bos eos ns'))"
proof -
  let ?n = "length (la_key L)"
  have n: "0 < ?n" and con: "n_constrained_prev (nd L eos) = None" using ok by (simp_all add: lattice_ok_def)
  have left: "solved dc tc L b bos N l" if "l \<in> set (la_end_nodes L ! ?n)" for l
    using ends_before [OF ok n order_refl that] S by (simp add: solved_before_def)
  have cand: "last ns \<in> candidates L N ?n eos \<and> n_cost (N ! last ns) \<le> path_cost dc tc L bos ns" if p: "complete_path L b ns" for ns
  proof -
    note e = complete_path_end [OF ok p]
    have "lattice_path L b ns" using p by (simp add: complete_path_def)
    then show ?thesis using left [OF e] e con unfolding solved_def candidates_def by blast
  qed
  show ?thesis
  proof (cases pr)
    case None
    then show ?thesis using ch cand by (auto simp: chosen_def)
  next
    case (Some l)
    then have l: "l \<in> candidates L N ?n eos" "cost = n_cost (N ! l) + dc (n_rid (nd L l)) (n_lid (nd L eos))"
      "\<forall>l' \<in> candidates L N ?n eos. cost \<le> n_cost (N ! l') + dc (n_rid (nd L l')) (n_lid (nd L eos))"
      using ch by (auto simp: chosen_def)
    then have le: "l \<in> set (la_end_nodes L ! ?n)" "n_prev (N ! l) \<noteq> None" by (simp_all add: candidates_def)
    with left obtain ns where ns: "lattice_path L b ns" "last ns = l" "linked N bos ns" "path_cost dc tc L bos ns = n_cost (N ! l)"
      unfolding solved_def by blast
    have "complete_path L b ns" using ns(1,2) node_ending_at(1) [OF ok n order_refl le(1)] by (simp add: complete_path_def)
    moreover have t: "cost + n_wcost (nd L eos) = total_cost dc tc L bos eos ns" using l(2) ns(2,4) by (simp add: total_cost_def)
    moreover have "total_cost dc tc L bos eos ns \<le> total_cost dc tc L bos eos ns'" if p: "complete_path L b ns'" for ns'
    proof -
      have "cost \<le> n_cost (N ! last ns') + dc (n_rid (nd L (last ns'))) (n_lid (nd L eos))" using l(3) cand [OF p] by blast
      then show ?thesis using cand [OF p] t unfolding total_cost_def [of dc tc L bos eos ns'] by linarith
    qed
    ultimately show ?thesis using Some ns(2,3) by blast
  qed
qed

lemma FinishLattice_result:
  assumes ok: "lattice_ok L bos eos" and S: "solved_before dc tc L b bos (nodes_before L (length (la_key L))) N"
    and ch: "chosen dc L N (length (la_key L)) eos pr cost"
    and N1: "N1 = N[eos := (nd L eos)\<lparr>n_prev := pr, n_cost := cost + n_wcost (nd L eos)\<rparr>]"
  shows "\<exists>made N'. FinishLattice (L\<lparr>la_nodes := N1\<rparr>) = Some (made, L\<lparr>la_nodes := N'\<rparr>) \<and> same_nodes N' L \<and>
    (if made then \<exists>ns. cheapest_path dc tc L b bos eos N' ns else \<forall>ns. \<not> complete_path L b ns)"
proof -
  let ?n = "length (la_key L)"
  have n: "0 < ?n" and eb: "eos < length (la_nodes L)" "bos < length (la_nodes L)" "bos \<noteq> eos" "n_prev (nd L bos) = None"
    and ln: "la_begin_nodes L ! ?n = [eos]" "la_end_nodes L ! 0 = [bos]" "length (la_begin_nodes L) = Suc ?n" "length (la_end_nodes L) = Suc ?n"
    using ok by (simp_all add: lattice_ok_def)
  have sn: "same_nodes N L" using S by (simp add: solved_before_def)
  then have len: "length N = length (la_nodes L)" by (simp add: same_nodes_def)
  have "eos \<notin> nodes_before L ?n" "bos \<notin> nodes_before L ?n" using before_begin(2,3) [OF ok order_refl] by blast+
  then have e: "N ! eos = nd L eos" "N ! bos = nd L bos" using S by (simp_all add: solved_before_def)
  have sn1: "same_nodes N1 L" unfolding N1 by (rule same_nodes_update [OF sn]) (use eb len e in \<open>simp_all add: static_def\<close>)
  have N1e: "n_prev (N1 ! eos) = pr" "n_cost (N1 ! eos) = cost + n_wcost (nd L eos)" using eb len by (simp_all add: N1)
  have N1x: "N1 ! x = N ! x" if "x \<noteq> eos" for x using that by (simp add: N1)
  have nodes: "bos_node (L\<lparr>la_nodes := N1\<rparr>) = Some bos" "eos_node (L\<lparr>la_nodes := N1\<rparr>) = Some eos"
    using ln by (simp_all add: bos_node_def eos_node_def begin_nodes_def end_nodes_def front_def)
  from chosen_at_end [OF ok S ch] show ?thesis
  proof (elim disjE exE conjE)
    assume none: "pr = None" "\<forall>ns. \<not> complete_path L b ns"
    have "TraverseBack eos None N1 = Some (None, N1)" using none(1) N1e by (subst TraverseBack.simps) simp
    then have "FinishLattice (L\<lparr>la_nodes := N1\<rparr>) = Some (False, L\<lparr>la_nodes := N1\<rparr>)" using nodes by (simp add: FinishLattice_def)
    then show ?thesis using sn1 none(2) by (metis (full_types))
  next
    fix ns
    assume ns: "pr = Some (last ns)" "complete_path L b ns" "linked N bos ns" "cost + n_wcost (nd L eos) = total_cost dc tc L bos eos ns"
      "\<forall>ns'. complete_path L b ns' \<longrightarrow> total_cost dc tc L bos eos ns \<le> total_cost dc tc L bos eos ns'"
    have lp: "lattice_path L b ns" using ns(2) by (simp add: complete_path_def)
    note ne = path_nonempty [OF lp] and mem = path_nodes [OF ok lp]
    let ?xs = "bos # ns @ [eos]"
    have "linked N1 bos ns" by (rule linked_cong [OF ns(3) ne]) (use mem N1x in blast)
    then have pc: "prev_chain N1 ?xs"
      using ne ns(1) N1e(1) by (simp add: prev_chain_def linked_def successively_Cons successively_append_iff)
    have dist: "distinct ?xs" using path_distinct [OF ok lp] mem eb(3) by auto
    have lt: "\<forall>x \<in> set ?xs. x < length N1" using mem eb len by (auto simp: N1)
    have "n_prev (N1 ! hd ?xs) = None" using N1x [of bos] eb(3,4) e(2) by simp
    from TraverseBack_chain [OF _ dist lt pc this, of None] obtain N' where
      t: "TraverseBack eos None N1 = Some (Some bos, N')" "same_but_next N' N1" "next_chain N' ?xs" by auto
    have "prev_chain N' ?xs" unfolding prev_chain_def
      by (rule successively_cong' [OF pc [unfolded prev_chain_def]]) (use same_but_nextD(1) [OF t(2)] lt in auto)
    moreover have "n_cost (N' ! eos) = total_cost dc tc L bos eos ns" using same_but_nextD(2) [OF t(2)] lt N1e(2) ns(4) by simp
    ultimately have "cheapest_path dc tc L b bos eos N' ns" using ns(2,5) t(3) by (simp add: cheapest_path_def)
    moreover have "same_nodes N' L" using sn1 same_but_nextD(3) [OF t(2)] t(2) by (simp add: same_nodes_def same_but_next_def)
    moreover have "FinishLattice (L\<lparr>la_nodes := N1\<rparr>) = Some (True, L\<lparr>la_nodes := N'\<rparr>)" using t(1) nodes by (simp add: FinishLattice_def)
    ultimately show ?thesis by (metis (full_types))
  qed
qed

text \<open>C6: The search finds a cheapest path. On a well-formed lattice over a loaded connection matrix it always returns; it succeeds
  exactly if there is a path from the beginning to the end whose nodes do not cross the boundaries of the segments and
  follow their constraints, and then the pointers of the nodes link such a path in both directions, the cost of the last
  node is its cost, and no other path costs less. The costs may include the bonus of the particle omission.\<close>
theorem viterbi_finds_the_cheapest_path:
  assumes "sound_connector c" "right_cache c" "lattice_ok L bos eos" "nodes_covered c L"
    and "segment_keys \<noteq> []" "hd segment_keys \<noteq> []" "length (concat segment_keys) = length (la_key L)"
    and "bounded_costs (matrix_cost c) (bonus_cost c (bonus \<noteq> 0) bonus pm) L bos B"
  shows "\<exists>made N' c'. Viterbi bonus pm segment_keys L c = Some (made, L\<lparr>la_nodes := N'\<rparr>, c') \<and> connector_ok c c' \<and> same_nodes N' L \<and>
    (if made
     then \<exists>ns. cheapest_path (matrix_cost c) (bonus_cost c (bonus \<noteq> 0) bonus pm) L (segment_end 0 segment_keys) bos eos N' ns
     else \<forall>ns. \<not> complete_path L (segment_end 0 segment_keys) ns)"
proof -
  let ?b = "segment_end 0 segment_keys" and ?tc = "bonus_cost c (bonus \<noteq> 0) bonus pm"
  note ok = assms(3) and B = assms(8)
  obtain key ks where k: "segment_keys = key # ks" "key \<noteq> []" using assms(5,6) by (cases segment_keys) auto
  have n: "0 < length (la_key L)" and ln: "la_end_nodes L ! 0 = [bos]" "distinct (la_begin_nodes L ! 0)"
    "length (la_begin_nodes L) = Suc (length (la_key L))" "length (la_end_nodes L) = Suc (length (la_key L))"
    using ok by (simp_all add: lattice_ok_def)
  have co: "connector_ok c c" using assms(1,2) by (simp add: connector_ok_def)
  have b0: "?b 0 = length key" using k by simp
  have S0: "solved_before (matrix_cost c) ?tc L ?b bos {} (la_nodes L)" by (simp add: solved_before_def same_nodes_def)
  have nb: "nodes_before L 1 = set (la_begin_nodes L ! 0)" by (simp add: nodes_before_def lessThan_Suc)
  from ViterbiBOS_solves [OF ok assms(4) ln(2) order_refl _ _ S0 co] obtain N1 c1 where
    1: "ViterbiBOS bos (length key) (la_begin_nodes L ! 0) (la_nodes L) c = Some (N1, c1)" "connector_ok c c1"
      "solved_before (matrix_cost c) ?tc L ?b bos (nodes_before L 1) N1" unfolding b0 nb by auto
  have cov: "in_matrix c (n_rid (nd L l)) (n_lid (nd L r))" if "l < length (la_nodes L)" "r < length (la_nodes L)" for l r
    using assms(4) that by (simp add: nodes_covered_def)
  let ?cc = "NewCachingConnector (bonus \<noteq> 0) bonus pm c1"
  from caching.RunViterbiLoop_solves [OF ok B cov assms(7,5,6) 1(3) NewCachingConnector_ok [OF 1(2)]] obtain N2 cc where
    2: "RunViterbiLoop ResetCacheIfNecessary CachingTransitionCost segment_keys (L\<lparr>la_nodes := N1\<rparr>) ?cc = Some (L\<lparr>la_nodes := N2\<rparr>, cc)"
      "caching_ok c (bonus \<noteq> 0) bonus pm cc" "solved_before (matrix_cost c) ?tc L ?b bos (nodes_before L (length (la_key L))) N2" by blast
  have cc: "connector_ok c (cc_connector cc)" using 2(2) by (simp add: caching_ok_def)
  from ViterbiEOS_solves [OF ok assms(4) B 2(3) cc] obtain pr cost c3 where
    3: "ViterbiEOS (L\<lparr>la_nodes := N2\<rparr>) (cc_connector cc) =
         Some (L\<lparr>la_nodes := N2[eos := (nd L eos)\<lparr>n_prev := pr, n_cost := cost + n_wcost (nd L eos)\<rparr>]\<rparr>, c3)" "connector_ok c c3"
      "chosen (matrix_cost c) L N2 (length (la_key L)) eos pr cost" by blast
  from FinishLattice_result [OF ok 2(3) 3(3) refl] obtain made N' where
    4: "FinishLattice (L\<lparr>la_nodes := N2[eos := (nd L eos)\<lparr>n_prev := pr, n_cost := cost + n_wcost (nd L eos)\<rparr>]\<rparr>) =
         Some (made, L\<lparr>la_nodes := N'\<rparr>)" "same_nodes N' L"
      "if made then \<exists>ns. cheapest_path (matrix_cost c) ?tc L ?b bos eos N' ns else \<forall>ns. \<not> complete_path L ?b ns" by blast
  have "front segment_keys = Some key" "bos_node L = Some bos" "begin_nodes L 0 = Some (la_begin_nodes L ! 0)"
    using k ln by (simp_all add: front_def bos_node_def begin_nodes_def end_nodes_def)
  then have "Viterbi bonus pm segment_keys L c = Some (made, L\<lparr>la_nodes := N'\<rparr>, c3)"
    using 1(1) 2(1) 3(1) 4(1) unfolding Viterbi_def by simp
  then show ?thesis using 3(2) 4(2,3) by blast
qed

text \<open>The lattice of the key "a" with two nodes for it, the second of them cheaper.\<close>

definition example_lattice :: lattice where
  "example_lattice =
     \<lparr>la_key = [0x61], la_begin_nodes = [[2, 3], [1]], la_end_nodes = [[0], [2, 3]],
      la_nodes = [InitBOSNode 0 0 NodeInit, InitEOSNode 1 NodeInit, example_node 0 2000, example_node 1 100]\<rparr>"

definition example_pos_matcher :: pos_matcher where
  "example_pos_matcher = \<lparr>IsContentWordWithConjugation = (\<lambda>_. False), IsContentNoun = (\<lambda>_. False), IsPronoun = (\<lambda>_. False)\<rparr>"

lemma example_lattice_ok: "lattice_ok example_lattice 0 1"
  by (simp add: lattice_ok_def example_lattice_def begins_at_def ends_at_def example_node_def NodeInit_def InitBOSNode_def InitEOSNode_def
      All_less_Suc less_Suc_eq)

lemma example_nodes:
  assumes "l < length (la_nodes example_lattice)"
  shows "n_rid (nd example_lattice l) \<in> {0, 1}" "n_lid (nd example_lattice l) \<in> {0, 1}"
proof -
  have "nd example_lattice l \<in> set (la_nodes example_lattice)" using assms by (rule nth_mem)
  then show "n_rid (nd example_lattice l) \<in> {0, 1}" "n_lid (nd example_lattice l) \<in> {0, 1}"
    by (auto simp: example_lattice_def example_node_def NodeInit_def InitBOSNode_def InitEOSNode_def)
qed

lemma example_covered:
  assumes "LookupCost c 0 0 \<noteq> None" "LookupCost c 0 1 \<noteq> None" "LookupCost c 1 0 \<noteq> None" "LookupCost c 1 1 \<noteq> None"
  shows "nodes_covered c example_lattice"
proof -
  have "in_matrix c r l" if "r \<in> {0, 1}" "l \<in> {0, 1}" for r l using assms that by (auto simp: in_matrix_def kInvalidLid_def)
  then show ?thesis using example_nodes unfolding nodes_covered_def by blast
qed

lemma created_costs_bounded:
  assumes "CreateConnector base data = Inr c"
  shows "\<bar>matrix_cost c rid lid\<bar> \<le> 2 ^ 24" "\<bar>bonus_cost c hb b pm rid lid\<bar> \<le> 2 ^ 24"
proof -
  have m: "0 \<le> matrix_cost c rid lid \<and> matrix_cost c rid lid < 2 ^ 24"
    using CreateConnector_costs [OF assms] by (auto simp: matrix_cost_def split: option.split)
  then show "\<bar>matrix_cost c rid lid\<bar> \<le> 2 ^ 24" by simp
  show "\<bar>bonus_cost c hb b pm rid lid\<bar> \<le> 2 ^ 24" using m by (auto simp: bonus_cost_def max_def)
qed

lemma viterbi_finds_the_cheapest_path_witness:
  "\<exists>img c N' c' ns. CreateConnector 0 img = Inr c \<and>
    Viterbi 0 example_pos_matcher [[0x61]] example_lattice c = Some (True, example_lattice\<lparr>la_nodes := N'\<rparr>, c') \<and>
    cheapest_path (matrix_cost c) (bonus_cost c False 0 example_pos_matcher) example_lattice (segment_end 0 [[0x61]]) 0 1 N' ns"
proof -
  obtain img c where c: "CreateConnector 0 img = Inr c" "LookupCost c 0 0 = Some 0" "LookupCost c 0 1 = Some 100"
    "LookupCost c 1 0 = Some 500" "LookupCost c 1 1 = Some 30000" by (rule example_connector)
  let ?b = "segment_end 0 [[0x61]]"
  have ok: "sound_connector c" "right_cache c" using CreateConnector_ok [OF c(1,2)] by simp_all
  have cov: "nodes_covered c example_lattice" using c by (intro example_covered) simp_all
  have B: "bounded_costs (matrix_cost c) (bonus_cost c (0 \<noteq> 0) 0 example_pos_matcher) example_lattice 0 (2 ^ 24)"
    using created_costs_bounded [OF c(1)]
    by (simp add: bounded_costs_def example_lattice_def example_node_def NodeInit_def InitBOSNode_def InitEOSNode_def kVeryBigCost_def
        All_less_Suc numeral_eq_Suc [of "num.Bit0 (num.Bit0 num.One)"])
  have keys: "[[0x61 :: byte]] \<noteq> []" "hd [[0x61 :: byte]] \<noteq> []" "length (concat [[0x61]]) = length (la_key example_lattice)"
    by (simp_all add: example_lattice_def)
  have "lattice_path example_lattice ?b [2]" by (rule path_first) (simp_all add: example_lattice_def example_node_def NodeInit_def)
  then have p: "complete_path example_lattice ?b [2]" by (simp add: complete_path_def example_lattice_def example_node_def NodeInit_def)
  from viterbi_finds_the_cheapest_path [OF ok example_lattice_ok cov keys B] p c(1) show ?thesis
    by (auto split: if_splits)
qed

end
