(* ===== verification/ScriptTypes.thy ===== *)
theory ScriptTypes
  imports Unicode
begin

text \<open>
  The classification of characters and strings by script and width, of \<^verbatim>\<open>src/src/base/util.cc\<close>. The type of a string is
  found with a set of the types that are still possible; the lemmas say for which strings the result is a given type.
\<close>

section \<open>The script of a character: util.cc\<close>

datatype ScriptType = UNKNOWN_SCRIPT | KATAKANA | HIRAGANA | KANJI | NUMBER | ALPHABET | EMOJI

datatype FormType = UNKNOWN_FORM | HALF_WIDTH | FULL_WIDTH | FORM_TYPE_SIZE

text \<open>The macro \<^verbatim>\<open>INRANGE\<close>.\<close>

definition INRANGE :: "char32 \<Rightarrow> char32 \<Rightarrow> char32 \<Rightarrow> bool" where
  "INRANGE w a b \<longleftrightarrow> a \<le> w \<and> w \<le> b"

definition GetScriptType32 :: "char32 \<Rightarrow> ScriptType" where
  "GetScriptType32 codepoint =
     (if INRANGE codepoint 0x0030 0x0039 \<or> INRANGE codepoint 0xFF10 0xFF19 then NUMBER
      else if INRANGE codepoint 0x0041 0x005A \<or> INRANGE codepoint 0x0061 0x007A \<or>
              INRANGE codepoint 0xFF21 0xFF3A \<or> INRANGE codepoint 0xFF41 0xFF5A then ALPHABET
      else if codepoint = 0x3005 \<or> INRANGE codepoint 0x3400 0x4DBF \<or> INRANGE codepoint 0x4E00 0x9FFF \<or>
              INRANGE codepoint 0xF900 0xFAFF \<or> INRANGE codepoint 0x20000 0x2A6DF \<or>
              INRANGE codepoint 0x2A700 0x2B73F \<or> INRANGE codepoint 0x2B740 0x2B81F \<or>
              INRANGE codepoint 0x2F800 0x2FA1F then KANJI
      else if INRANGE codepoint 0x3041 0x309F \<or> codepoint = 0x1B001 then HIRAGANA
      else if INRANGE codepoint 0x30A1 0x30FF \<or> INRANGE codepoint 0x31F0 0x31FF \<or>
              INRANGE codepoint 0xFF65 0xFF9F \<or> codepoint = 0x1B000 then KATAKANA
      else if INRANGE codepoint 0x02300 0x023F3 \<or> INRANGE codepoint 0x02700 0x027BF \<or>
              INRANGE codepoint 0x1F000 0x1F02F \<or> INRANGE codepoint 0x1F030 0x1F09F \<or>
              INRANGE codepoint 0x1F0A0 0x1F0FF \<or> INRANGE codepoint 0x1F100 0x1F2FF \<or>
              INRANGE codepoint 0x1F200 0x1F2FF \<or> INRANGE codepoint 0x1F300 0x1F5FF \<or>
              INRANGE codepoint 0x1F600 0x1F64F \<or> INRANGE codepoint 0x1F680 0x1F6FF \<or>
              INRANGE codepoint 0x1F700 0x1F77F \<or> codepoint = 0x26CE then EMOJI
      else UNKNOWN_SCRIPT)"

definition GetFormType32 :: "char32 \<Rightarrow> FormType" where
  "GetFormType32 codepoint =
     (if INRANGE codepoint 0x0020 0x007F \<or> INRANGE codepoint 0x27E6 0x27ED \<or> INRANGE codepoint 0x2985 0x2986 then HALF_WIDTH
      else if INRANGE codepoint 0x00A2 0x00AF \<and> codepoint \<in> {0x00A2, 0x00A3, 0x00A5, 0x00A6, 0x00AC, 0x00AF} then HALF_WIDTH
      else if codepoint = 0x20A9 \<or> INRANGE codepoint 0xFF61 0xFF9F \<or> INRANGE codepoint 0xFFA0 0xFFBE \<or>
              INRANGE codepoint 0xFFC2 0xFFCF \<or> INRANGE codepoint 0xFFD2 0xFFD7 \<or>
              INRANGE codepoint 0xFFDA 0xFFDC \<or> INRANGE codepoint 0xFFE8 0xFFEE then HALF_WIDTH
      else FULL_WIDTH)"

text \<open>\<^verbatim>\<open>GetFirstScriptType\<close>: the type and the length of the first character, 0 where it does not decode.\<close>

definition GetFirstScriptType :: "bytes \<Rightarrow> ScriptType \<times> nat" where
  "GetFirstScriptType str =
     (case Utf8AsUnicodeChar str of
        [] \<Rightarrow> (GetScriptType32 0, 0)
      | u # _ \<Rightarrow> (GetScriptType32 (uc_char32 u), if uc_ok u then length (uc_utf8 u) else 0))"

text \<open>A \<^verbatim>\<open>std::bitset\<close> over the types, with the order of the enumeration.\<close>

type_synonym script_set = "7 word"

definition script_index :: "ScriptType \<Rightarrow> nat" where
  "script_index t =
     (case t of UNKNOWN_SCRIPT \<Rightarrow> 0 | KATAKANA \<Rightarrow> 1 | HIRAGANA \<Rightarrow> 2 | KANJI \<Rightarrow> 3 | NUMBER \<Rightarrow> 4 | ALPHABET \<Rightarrow> 5 | EMOJI \<Rightarrow> 6)"

definition script_types :: "ScriptType list" where
  "script_types = [UNKNOWN_SCRIPT, KATAKANA, HIRAGANA, KANJI, NUMBER, ALPHABET, EMOJI]"

definition ScriptBit :: "ScriptType \<Rightarrow> script_set" where
  "ScriptBit t = push_bit (script_index t) 1"

definition kNumBs :: script_set where "kNumBs = ScriptBit NUMBER"
definition kKanaBs :: script_set where "kKanaBs = ScriptBit HIRAGANA OR ScriptBit KATAKANA"

definition countr_zero :: "script_set \<Rightarrow> nat" where
  "countr_zero w = length (takeWhile (\<lambda>i. \<not> bit w i) [0 ..< 7])"

definition ScriptStep :: "bool \<Rightarrow> char32 \<Rightarrow> script_set \<Rightarrow> script_set" where
  "ScriptStep ignore_symbols codepoint bs =
     (if codepoint = 0x30FC \<or> codepoint = 0x30FB \<or> (0x3099 \<le> codepoint \<and> codepoint \<le> 0x309C) then bs AND kKanaBs
      else if (codepoint = 0xFF0E \<or> codepoint = 0x2E) \<and> bs = kNumBs then bs
      else let type = GetScriptType32 codepoint
           in if ignore_symbols \<and> type = UNKNOWN_SCRIPT then bs
              else bs AND ScriptBit type)"

text \<open>The loop over the characters; None is the return where no type is left.\<close>

fun ScriptLoop :: "bool \<Rightarrow> char32 list \<Rightarrow> script_set \<Rightarrow> script_set option" where
  "ScriptLoop ignore_symbols [] bs = Some bs"
| "ScriptLoop ignore_symbols (codepoint # cs) bs =
     (if popcount bs = 0 then None else ScriptLoop ignore_symbols cs (ScriptStep ignore_symbols codepoint bs))"

definition GetScriptTypeInternal :: "bytes \<Rightarrow> bool \<Rightarrow> ScriptType" where
  "GetScriptTypeInternal str ignore_symbols =
     (case ScriptLoop ignore_symbols (Utf8AsChars32 str) (-1) of
        None \<Rightarrow> UNKNOWN_SCRIPT
      | Some bs \<Rightarrow> if popcount bs \<noteq> 1 then UNKNOWN_SCRIPT else script_types ! countr_zero bs)"

definition GetScriptType :: "bytes \<Rightarrow> ScriptType" where
  "GetScriptType str = GetScriptTypeInternal str False"

definition GetScriptTypeWithoutSymbols :: "bytes \<Rightarrow> ScriptType" where
  "GetScriptTypeWithoutSymbols str = GetScriptTypeInternal str True"

definition IsScriptType :: "bytes \<Rightarrow> ScriptType \<Rightarrow> bool" where
  "IsScriptType str type =
     list_all (\<lambda>codepoint. \<not> (type \<noteq> GetScriptType32 codepoint \<and> (codepoint \<noteq> 0x30FC \<or> type \<noteq> HIRAGANA))) (Utf8ToUtf32 str)"

definition ContainsScriptType :: "bytes \<Rightarrow> ScriptType \<Rightarrow> bool" where
  "ContainsScriptType str type = list_ex (\<lambda>codepoint. type = GetScriptType32 codepoint) (Utf8ToUtf32 str)"

fun FormLoop :: "char32 list \<Rightarrow> FormType \<Rightarrow> FormType" where
  "FormLoop [] result = result"
| "FormLoop (codepoint # cs) result =
     (let type = GetFormType32 codepoint
      in if type = UNKNOWN_FORM \<or> (result \<noteq> FORM_TYPE_SIZE \<and> type \<noteq> result) then UNKNOWN_FORM else FormLoop cs type)"

definition GetFormType :: "bytes \<Rightarrow> FormType" where
  "GetFormType str = FormLoop (Utf8ToUtf32 str) FORM_TYPE_SIZE"

section \<open>What the type of a string says\<close>

text \<open>The set of the types that a bit set holds; the characters that are allowed for a type.\<close>

lemma script_index_less: "script_index t < 7"
  by (cases t) (simp_all add: script_index_def)

lemma bit_ScriptBit: "bit (ScriptBit t) n \<longleftrightarrow> n = script_index t"
  using script_index_less [of t] unfolding ScriptBit_def bit_push_bit_iff bit_1_iff by auto

definition has_type :: "script_set \<Rightarrow> ScriptType \<Rightarrow> bool" where
  "has_type bs t \<longleftrightarrow> bit bs (script_index t)"

lemma script_index_eq [simp]: "script_index a = script_index b \<longleftrightarrow> a = b"
  by (cases a; cases b) (simp_all add: script_index_def)

lemma script_types_index: "script_types ! script_index t = t"
  by (cases t) (simp_all add: script_types_def script_index_def)

lemma has_type_simps [simp]:
  "has_type (-1) t" "has_type (a AND b) t \<longleftrightarrow> has_type a t \<and> has_type b t" "has_type (ScriptBit u) t \<longleftrightarrow> t = u"
  "has_type kKanaBs t \<longleftrightarrow> t = HIRAGANA \<or> t = KATAKANA"
  using script_index_less [of t]
  by (auto simp: has_type_def bit_simps bit_ScriptBit kKanaBs_def)

lemma index_script: "n < 7 \<Longrightarrow> \<exists>t. n = script_index t"
proof -
  assume "n < 7"
  then have "n \<in> {0, 1, 2, 3, 4, 5, 6}" by auto
  then show ?thesis
    by (auto intro: exI [of _ UNKNOWN_SCRIPT] exI [of _ KATAKANA] exI [of _ HIRAGANA] exI [of _ KANJI] exI [of _ NUMBER]
        exI [of _ ALPHABET] exI [of _ EMOJI] simp: script_index_def split: ScriptType.splits)
qed

lemma one_type:
  assumes "popcount bs = 1" 
  shows "has_type bs t \<longleftrightarrow> t = script_types ! countr_zero bs"
proof -
  have "card {n. n < 7 \<and> bit bs n} = 1" using assms by (simp add: popcount_eq_card)
  then obtain n where n: "{n. n < 7 \<and> bit bs n} = {n}" by (auto simp: card_1_singleton_iff)
  then have bn: "n < 7" "bit bs n" "\<And>m. m < 7 \<Longrightarrow> bit bs m \<Longrightarrow> m = n" by auto
  obtain u where u: "n = script_index u" using index_script [OF bn(1)] by blast
  have "countr_zero bs = n"
  proof -
    have "length (takeWhile (\<lambda>i. \<not> bit bs i) [0 ..< k]) = n" if k: "n < k" "k \<le> 7" for k
    proof -
      have "takeWhile (\<lambda>i. \<not> bit bs i) ([0 ..< n] @ n # [Suc n ..< k]) = [0 ..< n]"
      proof (subst takeWhile_append2)
        show "\<not> bit bs x" if "x \<in> set [0 ..< n]" for x using bn(3) [of x] that bn(1) by auto
      qed (use bn(2) in simp)
      moreover have "[0 ..< k] = [0 ..< n] @ n # [Suc n ..< k]"
        using k(1) upt_add_eq_append [of 0 n "k - n"] by (simp add: upt_conv_Cons)
      ultimately show ?thesis by simp
    qed
    then show ?thesis unfolding countr_zero_def using bn(1) by blast
  qed
  then have "script_types ! countr_zero bs = u" using u script_types_index by simp
  moreover have "bit bs (script_index t) \<longleftrightarrow> script_index t = n" using bn(2) bn(3) [OF script_index_less [of t]] by blast
  ultimately show ?thesis using u by (simp add: has_type_def)
qed

definition IsEnglishTransliteration :: "bytes \<Rightarrow> bool" where
  "IsEnglishTransliteration value =
     list_all (\<lambda>c. c \<in> {0x20, 0x21, 0x27, 0x2D} \<or> (0x41 \<le> c \<and> c \<le> 0x5A) \<or> (0x61 \<le> c \<and> c \<le> 0x7A)) value"

definition IsAscii :: "bytes \<Rightarrow> bool" where
  "IsAscii str = list_all (\<lambda>c. c < 0x80) str"

definition IsAcceptableCharacterAsCandidate :: "char32 \<Rightarrow> bool" where
  "IsAcceptableCharacterAsCandidate letter =
     (if 0x10FFFF < letter then False
      else if letter < 0x20 \<or> (0x7F \<le> letter \<and> letter \<le> 0x9F) then False
      else if letter = 0x061C \<or> letter = 0x200E \<or> letter = 0x200F \<or> (0x202A \<le> letter \<and> letter \<le> 0x202E) \<or>
              (0x2066 \<le> letter \<and> letter \<le> 0x2069) then False
      else True)"

section \<open>The sets of the loop\<close>

lemma one_type_iff: "popcount bs = 1 \<longleftrightarrow> (\<exists>t. \<forall>u. has_type bs u \<longleftrightarrow> u = t)"
proof
  assume "popcount bs = 1"
  then show "\<exists>t. \<forall>u. has_type bs u \<longleftrightarrow> u = t" using one_type by blast
next
  assume "\<exists>t. \<forall>u. has_type bs u \<longleftrightarrow> u = t"
  then obtain t where t: "\<And>u. has_type bs u \<longleftrightarrow> u = t" by blast
  have "{n. n < 7 \<and> bit bs n} = {script_index t}"
  proof -
    have "n = script_index t" if "n < 7" "bit bs n" for n
      using index_script [OF that(1)] that(2) t by (auto simp: has_type_def)
    moreover have "bit bs (script_index t)" using t by (simp add: has_type_def)
    ultimately show ?thesis using script_index_less by blast
  qed
  then show "popcount bs = 1" by (simp add: popcount_eq_card)
qed

lemma popcount_0: "popcount bs = 0 \<Longrightarrow> bs = 0" for bs :: script_set
proof -
  assume "popcount bs = 0"
  then have "\<not> (n < 7 \<and> bit bs n)" for n by (auto simp: popcount_eq_card card_eq_0_iff)
  then show "bs = 0" by (intro bit_eqI) auto
qed

lemma ScriptStep_0 [simp]: "ScriptStep ig c 0 = 0"
  by (simp add: ScriptStep_def Let_def)

lemma ScriptSteps_0 [simp]: "foldl (\<lambda>bs c. ScriptStep ig c bs) 0 cs = 0"
  by (induction cs) simp_all

lemma ScriptLoop_steps:
  "ScriptLoop ig cs bs = Some (foldl (\<lambda>bs c. ScriptStep ig c bs) bs cs) \<or>
   (ScriptLoop ig cs bs = None \<and> foldl (\<lambda>bs c. ScriptStep ig c bs) bs cs = 0)"
proof (induction cs arbitrary: bs)
  case (Cons c cs)
  then show ?case using popcount_0 [of bs] by (cases "popcount bs = 0") simp_all
qed simp

lemma GetScriptTypeInternal_steps:
  "GetScriptTypeInternal str ig =
     (let bs = foldl (\<lambda>bs c. ScriptStep ig c bs) (-1) (Utf8AsChars32 str)
      in if popcount bs = 1 then script_types ! countr_zero bs else UNKNOWN_SCRIPT)"
proof -
  have "popcount (0 :: script_set) \<noteq> 1" by (simp add: popcount_eq_card)
  then show ?thesis using ScriptLoop_steps [of ig "Utf8AsChars32 str" "-1"]
    unfolding GetScriptTypeInternal_def Let_def by auto
qed

lemma GetScriptTypeInternal_iff:
  assumes "t \<noteq> UNKNOWN_SCRIPT"
  shows "GetScriptTypeInternal str ig = t \<longleftrightarrow>
    (\<forall>u. has_type (foldl (\<lambda>bs c. ScriptStep ig c bs) (-1) (Utf8AsChars32 str)) u \<longleftrightarrow> u = t)"
proof (cases "popcount (foldl (\<lambda>bs c. ScriptStep ig c bs) (-1) (Utf8AsChars32 str)) = 1")
  case True
  then show ?thesis using one_type [OF True] by (auto simp: GetScriptTypeInternal_steps)
next
  case False
  then have "GetScriptTypeInternal str ig = UNKNOWN_SCRIPT" by (simp add: GetScriptTypeInternal_steps)
  then show ?thesis using assms False [unfolded one_type_iff] by blast
qed

text \<open>Marks belong to both Kana; a character shares a type if it does not exclude it, and decides it if it has it.\<close>

definition kana_mark :: "char32 \<Rightarrow> bool" where
  "kana_mark c \<longleftrightarrow> c = 0x30FC \<or> c = 0x30FB \<or> (0x3099 \<le> c \<and> c \<le> 0x309C)"

definition shares_type :: "bool \<Rightarrow> ScriptType \<Rightarrow> char32 \<Rightarrow> bool" where
  "shares_type ignore_symbols t c \<longleftrightarrow>
     (if kana_mark c then t = HIRAGANA \<or> t = KATAKANA
      else GetScriptType32 c = t \<or> (ignore_symbols \<and> GetScriptType32 c = UNKNOWN_SCRIPT))"

definition decides_type :: "ScriptType \<Rightarrow> char32 \<Rightarrow> bool" where
  "decides_type t c \<longleftrightarrow> \<not> kana_mark c \<and> GetScriptType32 c = t"

lemma kNumBs_type [simp]: "has_type kNumBs t \<longleftrightarrow> t = NUMBER"
  by (simp add: kNumBs_def)

lemma period_type: "GetScriptType32 0xFF0E = UNKNOWN_SCRIPT" "GetScriptType32 0x2E = UNKNOWN_SCRIPT"
  by (simp_all add: GetScriptType32_def INRANGE_def)

lemma ScriptStep_type:
  "t \<noteq> NUMBER \<Longrightarrow> has_type (ScriptStep ig c bs) t \<longleftrightarrow> has_type bs t \<and> shares_type ig t c"
  unfolding ScriptStep_def Let_def shares_type_def kana_mark_def [symmetric]
  by (auto simp: kana_mark_def)

lemma ScriptSteps_type:
  "t \<noteq> NUMBER \<Longrightarrow> has_type (foldl (\<lambda>bs c. ScriptStep ig c bs) bs cs) t \<longleftrightarrow> has_type bs t \<and> (\<forall>c \<in> set cs. shares_type ig t c)"
  by (induction cs arbitrary: bs) (auto simp: ScriptStep_type)

lemma ScriptStep_number:
  "has_type (ScriptStep ig c bs) NUMBER \<Longrightarrow> has_type bs NUMBER \<and> \<not> kana_mark c \<and> GetScriptType32 c \<in> {NUMBER, UNKNOWN_SCRIPT}"
  unfolding ScriptStep_def Let_def kana_mark_def [symmetric]
  by (auto simp: period_type kana_mark_def split: if_splits)

lemma ScriptSteps_number:
  "has_type (foldl (\<lambda>bs c. ScriptStep ig c bs) bs cs) NUMBER \<Longrightarrow>
     \<forall>c \<in> set cs. \<not> kana_mark c \<and> GetScriptType32 c \<in> {NUMBER, UNKNOWN_SCRIPT}"
proof (induction cs arbitrary: bs rule: rev_induct)
  case (snoc c cs)
  then show ?case using ScriptStep_number [of ig c] by fastforce
qed simp

text \<open>C14: A string has a script type other than numbers exactly if no character excludes it (marks of the Kana belong to both,
  and symbols to all where they are ignored) and some character has it.\<close>
theorem script_type_of_a_string:
  assumes "t \<noteq> UNKNOWN_SCRIPT" "t \<noteq> NUMBER"
  shows "GetScriptTypeInternal str ignore_symbols = t \<longleftrightarrow>
    (\<forall>c \<in> set (Utf8AsChars32 str). shares_type ignore_symbols t c) \<and> (\<exists>c \<in> set (Utf8AsChars32 str). decides_type t c)"
proof -
  let ?cs = "set (Utf8AsChars32 str)" and ?bs = "foldl (\<lambda>bs c. ScriptStep ignore_symbols c bs) (-1) (Utf8AsChars32 str)"
  have types: "has_type ?bs u \<longleftrightarrow> (\<forall>c \<in> ?cs. shares_type ignore_symbols u c)" if "u \<noteq> NUMBER" for u
    using ScriptSteps_type [OF that] by simp
  have "(\<forall>u. has_type ?bs u \<longleftrightarrow> u = t) \<longleftrightarrow> has_type ?bs t \<and> (\<exists>c \<in> ?cs. decides_type t c)"
  proof safe
    assume only: "\<forall>u. has_type ?bs u \<longleftrightarrow> u = t"
    show "\<exists>c \<in> ?cs. decides_type t c"
    proof (rule ccontr)
      assume none: "\<not> (\<exists>c \<in> ?cs. decides_type t c)"
      define u where "u = (if t = HIRAGANA then KATAKANA else if t = KATAKANA then HIRAGANA else if t = KANJI then EMOJI else KANJI)"
      have "\<forall>c \<in> ?cs. shares_type ignore_symbols t c" using only types [OF assms(2)] by blast
      then have "\<forall>c \<in> ?cs. shares_type ignore_symbols u c" using none
        by (auto simp: shares_type_def decides_type_def u_def split: if_splits)
      then have "has_type ?bs u" using types [of u] by (auto simp: u_def)
      then show False using only by (auto simp: u_def split: if_splits)
    qed
  next
    fix c u assume t: "has_type ?bs t" and c: "c \<in> ?cs" "decides_type t c" and u: "has_type ?bs u"
    show "u = t"
    proof (cases "u = NUMBER")
      case True
      then show ?thesis using ScriptSteps_number [OF u [unfolded True]] c assms by (auto simp: decides_type_def)
    next
      case False
      then have "shares_type ignore_symbols u c" using types u c(1) by blast
      then show ?thesis using c(2) assms(1) by (auto simp: shares_type_def decides_type_def)
    qed
  qed (use assms in auto)
  then show ?thesis using GetScriptTypeInternal_iff [OF assms(1)] types [OF assms(2)] by simp
qed

lemma script_type_of_a_string_witness:
  "GetScriptTypeInternal [0xE3, 0x81, 0x82, 0xE3, 0x83, 0xBC] False = HIRAGANA \<longleftrightarrow>
     (\<forall>c \<in> set (Utf8AsChars32 [0xE3, 0x81, 0x82, 0xE3, 0x83, 0xBC]). shares_type False HIRAGANA c) \<and>
     (\<exists>c \<in> set (Utf8AsChars32 [0xE3, 0x81, 0x82, 0xE3, 0x83, 0xBC]). decides_type HIRAGANA c)"
  by (rule script_type_of_a_string) simp_all

lemma example_script: "Utf8AsChars32 [0xE3, 0x81, 0x82, 0xE3, 0x83, 0xBC] = [0x3042, 0x30FC]"
  by code_simp

end
