(* ===== verification/KeyCorrector.thy ===== *)
theory KeyCorrector
  imports ScriptTypes "HOL-Library.Monad_Syntax"
begin

text \<open>
  The corrections of mistyped keys, \<^verbatim>\<open>src/src/converter/key_corrector.cc\<close>: a key is rewritten by six rules, and two alignments
  lead from its bytes to the corrected key and back. The alignments stay within their strings, so what a word of the
  corrected key stands for is a part of the key.
\<close>

section \<open>Rewriting rules: key\_corrector.cc\<close>

text \<open>\<^verbatim>\<open>Util::Utf8ToCodepoint\<close>: the code point and its length, both 0 where the string does not decode.\<close>

definition Utf8ToCodepoint :: "bytes \<Rightarrow> char32 \<times> nat" where
  "Utf8ToCodepoint s = (case SplitFirstChar32 s of (ok, c, rest) \<Rightarrow> if ok then (c, length s - length rest) else (0, 0))"

text \<open>
  A rule gets the number of the character and the rest of the key. Its result is the length \<^verbatim>\<open>mblen\<close> it consumes and what it
  appends to the output; None is the result false, which leaves the output alone and \<^verbatim>\<open>mblen\<close> at 0.
  Some code points go through a \<^verbatim>\<open>uint16_t\<close>.
\<close>

type_synonym rewrite = "(nat \<times> bytes) option"

definition uint16 :: "char32 \<Rightarrow> 16 word" where "uint16 c = ucast c"

definition AppendUint16 :: "16 word \<Rightarrow> bytes" where
  "AppendUint16 c = CodepointToUtf8 (ucast c)"

definition RewriteNN :: "nat \<Rightarrow> bytes \<Rightarrow> rewrite" where
  "RewriteNN key_pos str =
     (if key_pos = 0 then None
      else let (codepoint, mblen) = Utf8ToCodepoint str
      in if codepoint \<noteq> 0x3093 then None
      else let str = drop mblen str
      in if str = [] then None
      else let (c, mblen2) = Utf8ToCodepoint str; next_codepoint = uint16 c;
               output_codepoint =
                 (if next_codepoint = 0x3042 then 0x306A else if next_codepoint = 0x3044 then 0x306B
                  else if next_codepoint = 0x3046 then 0x306C else if next_codepoint = 0x3048 then 0x306D
                  else if next_codepoint = 0x304A then 0x306E else 0)
      in if output_codepoint \<noteq> 0 then Some (mblen + mblen2, CodepointToUtf8 codepoint @ AppendUint16 output_codepoint)
         else None)"

text \<open>
  The loops over \<^verbatim>\<open>kPattern\<close>: 0 stands for a Hiragana character other than the repeated one. The result lists the
  characters with their lengths and the rest.
\<close>

fun MatchPattern :: "char32 \<Rightarrow> char32 list \<Rightarrow> bytes \<Rightarrow> ((char32 \<times> nat) list \<times> bytes) option" where
  "MatchPattern repeated [] str = Some ([], str)"
| "MatchPattern repeated (p # pattern) str =
     (if str = [] then None
      else let (codepoint, mblen2) = Utf8ToCodepoint str
      in if (p = 0 \<and> codepoint \<noteq> repeated \<and> GetScriptType32 codepoint = HIRAGANA) \<or> (p = repeated \<and> codepoint = repeated)
         then map_option (\<lambda>(ms, rest). ((codepoint, mblen2) # ms, rest)) (MatchPattern repeated pattern (drop mblen2 str))
         else None)"

definition RewriteDoubleNN :: "nat \<Rightarrow> bytes \<Rightarrow> rewrite" where
  "RewriteDoubleNN key_pos str =
     (case MatchPattern 0x3093 [0, 0x3093, 0x3093] str of
        None \<Rightarrow> None
      | Some (ms, rest) \<Rightarrow>
          let mblen = sum_list (map snd ms); first_char = uint16 (fst (ms ! 0)); first_mblen = snd (ms ! 0)
          in if rest = [] then None
             else if first_char = 0 \<or> first_mblen = 0 then None
             else let codepoint = fst (Utf8ToCodepoint rest)
             in if codepoint = 0x3093 then None
                else if codepoint \<in> {0x3042, 0x3044, 0x3046, 0x3048, 0x304A} then Some (first_mblen + 3, AppendUint16 first_char)
                else Some (mblen, AppendUint16 first_char @ CodepointToUtf8 0x3093))"

definition RewriteNI :: "nat \<Rightarrow> bytes \<Rightarrow> rewrite" where
  "RewriteNI key_pos str =
     (let (codepoint, mblen) = Utf8ToCodepoint str
      in if codepoint \<noteq> 0x306B then None
      else let str = drop mblen str
      in if str = [] then None
      else let (c, mblen2) = Utf8ToCodepoint str; next_codepoint = uint16 c;
               output_codepoint =
                 (if next_codepoint = 0x3083 then 0x3084 else if next_codepoint = 0x3085 then 0x3086
                  else if next_codepoint = 0x3087 then 0x3088 else 0)
      in if output_codepoint \<noteq> 0 then Some (mblen + mblen2, CodepointToUtf8 0x3093 @ AppendUint16 output_codepoint)
         else None)"

definition RewriteM :: "nat \<Rightarrow> bytes \<Rightarrow> rewrite" where
  "RewriteM key_pos str =
     (if key_pos = 0 then None
      else let (codepoint, mblen) = Utf8ToCodepoint str
      in if codepoint \<noteq> 0x006D \<and> codepoint \<noteq> 0xFF4D then None
      else let str = drop mblen str
      in if str = [] then None
      else let (c, mblen2) = Utf8ToCodepoint str; next_codepoint = uint16 c
      in if next_codepoint mod 3 \<noteq> 0 \<and> 0x306F \<le> next_codepoint \<and> next_codepoint \<le> 0x307D
         then Some (mblen + mblen2, CodepointToUtf8 0x3093 @ AppendUint16 next_codepoint)
         else None)"

definition RewriteSmallTSU :: "nat \<Rightarrow> bytes \<Rightarrow> rewrite" where
  "RewriteSmallTSU key_pos str =
     (case MatchPattern 0x3063 [0, 0x3063, 0x3063, 0] str of
        None \<Rightarrow> None
      | Some (ms, rest) \<Rightarrow>
          let first_char = uint16 (fst (ms ! 0)); last_char = uint16 (fst (ms ! 3))
          in if first_char = 0 \<or> last_char = 0 then None
             else Some (sum_list (map snd ms), AppendUint16 first_char @ CodepointToUtf8 0x3063 @ AppendUint16 last_char))"

definition RewriteYu :: "nat \<Rightarrow> bytes \<Rightarrow> rewrite" where
  "RewriteYu key_pos str =
     (let (first_char, mblen) = Utf8ToCodepoint str
      in if first_char \<notin> {0x304D, 0x3057, 0x3061, 0x306B, 0x3072, 0x308A} then None
      else let str = drop mblen str
      in if str = [] then None
      else let (next_char, mblen2) = Utf8ToCodepoint str
      in if next_char \<noteq> 0x3085 then None
      else let str = drop mblen2 str
      in if str = [] then None
      else let last_char = fst (Utf8ToCodepoint str)
      in if last_char = 0x3046 then None
         else Some (mblen + mblen2, CodepointToUtf8 first_char @ CodepointToUtf8 next_char @ CodepointToUtf8 0x3046))"

text \<open>The body of the loop of \<^verbatim>\<open>Init\<close> up to the output: what is consumed and what is appended.\<close>

definition first_rewrite :: "rewrite list \<Rightarrow> rewrite" where
  "first_rewrite rs = (case dropWhile (\<lambda>r. r = None) rs of [] \<Rightarrow> None | r # _ \<Rightarrow> r)"

definition RewriteStep :: "nat \<Rightarrow> bool \<Rightarrow> bytes \<Rightarrow> nat \<times> bytes" where
  "RewriteStep key_pos in_history str =
     (case (if in_history then None
            else first_rewrite [RewriteDoubleNN key_pos str, RewriteNN key_pos str, RewriteYu key_pos str,
                                RewriteNI key_pos str, RewriteSmallTSU key_pos str, RewriteM key_pos str]) of
        Some r \<Rightarrow> r
      | None \<Rightarrow> (case Utf8ToCodepoint str of (codepoint, mblen) \<Rightarrow> (mblen, CodepointToUtf8 codepoint)))"

section \<open>The lengths of a step\<close>

lemma Utf8ToCodepoint_len:
  assumes "Utf8ToCodepoint s = (c, n)"
  shows "n \<le> length s" "c \<noteq> 0 \<Longrightarrow> 0 < n" "n = 0 \<Longrightarrow> c = 0"
proof -
  obtain ok d rest where sp: "SplitFirstChar32 s = (ok, d, rest)" by (cases "SplitFirstChar32 s") auto
  show "n \<le> length s" using assms sp by (auto simp: Utf8ToCodepoint_def split: if_splits)
  show "c \<noteq> 0 \<Longrightarrow> 0 < n" using assms sp SplitFirstChar32_shorter [of s d rest]
    by (auto simp: Utf8ToCodepoint_def split: if_splits)
  then show "n = 0 \<Longrightarrow> c = 0" by blast
qed

lemma MatchPattern_len:
  "MatchPattern repeated pattern str = Some (ms, rest) \<Longrightarrow>
     length ms = length pattern \<and> rest = drop (sum_list (map snd ms)) str \<and> sum_list (map snd ms) \<le> length str"
proof (induction pattern arbitrary: str ms)
  case (Cons p pattern)
  obtain c n where u: "Utf8ToCodepoint str = (c, n)" by (cases "Utf8ToCodepoint str")
  from Cons.prems obtain ms' where ms': "MatchPattern repeated pattern (drop n str) = Some (ms', rest)" "ms = (c, n) # ms'"
    by (auto simp: u split: if_splits)
  from Cons.IH [OF ms'(1)] Utf8ToCodepoint_len(1) [OF u] ms'(2) show ?case by (auto simp: add.commute)
qed simp

lemma RewriteNN_len: "RewriteNN i s = Some (n, out) \<Longrightarrow> 0 < n \<and> n \<le> length s"
proof -
  assume r: "RewriteNN i s = Some (n, out)"
  obtain c m where u: "Utf8ToCodepoint s = (c, m)" by (cases "Utf8ToCodepoint s")
  obtain c2 m2 where u2: "Utf8ToCodepoint (drop m s) = (c2, m2)" by (cases "Utf8ToCodepoint (drop m s)")
  have "c = 0x3093" "n = m + m2" using r by (auto simp: RewriteNN_def u u2 Let_def split: if_splits)
  then show ?thesis using Utf8ToCodepoint_len [OF u] Utf8ToCodepoint_len(1) [OF u2] by auto
qed

lemma RewriteNI_len: "RewriteNI i s = Some (n, out) \<Longrightarrow> 0 < n \<and> n \<le> length s"
proof -
  assume r: "RewriteNI i s = Some (n, out)"
  obtain c m where u: "Utf8ToCodepoint s = (c, m)" by (cases "Utf8ToCodepoint s")
  obtain c2 m2 where u2: "Utf8ToCodepoint (drop m s) = (c2, m2)" by (cases "Utf8ToCodepoint (drop m s)")
  have "c = 0x306B" "n = m + m2" using r by (auto simp: RewriteNI_def u u2 Let_def split: if_splits)
  then show ?thesis using Utf8ToCodepoint_len [OF u] Utf8ToCodepoint_len(1) [OF u2] by auto
qed

lemma RewriteM_len: "RewriteM i s = Some (n, out) \<Longrightarrow> 0 < n \<and> n \<le> length s"
proof -
  assume r: "RewriteM i s = Some (n, out)"
  obtain c m where u: "Utf8ToCodepoint s = (c, m)" by (cases "Utf8ToCodepoint s")
  obtain c2 m2 where u2: "Utf8ToCodepoint (drop m s) = (c2, m2)" by (cases "Utf8ToCodepoint (drop m s)")
  have "c \<noteq> 0" "n = m + m2" using r by (auto simp: RewriteM_def u u2 Let_def split: if_splits)
  then show ?thesis using Utf8ToCodepoint_len [OF u] Utf8ToCodepoint_len(1) [OF u2] by auto
qed

lemma RewriteYu_len: "RewriteYu i s = Some (n, out) \<Longrightarrow> 0 < n \<and> n \<le> length s"
proof -
  assume r: "RewriteYu i s = Some (n, out)"
  obtain c m where u: "Utf8ToCodepoint s = (c, m)" by (cases "Utf8ToCodepoint s")
  obtain c2 m2 where u2: "Utf8ToCodepoint (drop m s) = (c2, m2)" by (cases "Utf8ToCodepoint (drop m s)")
  have "c \<noteq> 0" "n = m + m2" using r by (auto simp: RewriteYu_def u u2 Let_def split: if_splits)
  then show ?thesis using Utf8ToCodepoint_len [OF u] Utf8ToCodepoint_len(1) [OF u2] by auto
qed

lemma GetScriptType32_0: "GetScriptType32 0 = UNKNOWN_SCRIPT"
  by (simp add: GetScriptType32_def INRANGE_def)

lemma MatchPattern_first:
  assumes "MatchPattern repeated (0 # pattern) s = Some (ms, rest)" "repeated \<noteq> 0"
  shows "0 < snd (ms ! 0)" "fst (ms ! 0) \<noteq> 0"
proof -
  obtain c m where u: "Utf8ToCodepoint s = (c, m)" by (cases "Utf8ToCodepoint s")
  have "c \<noteq> 0 \<and> ms ! 0 = (c, m)" using assms GetScriptType32_0 by (auto simp: u split: if_splits)
  then show "0 < snd (ms ! 0)" "fst (ms ! 0) \<noteq> 0" using Utf8ToCodepoint_len(2) [OF u] by auto
qed

lemma RewriteSmallTSU_len: "RewriteSmallTSU i s = Some (n, out) \<Longrightarrow> 0 < n \<and> n \<le> length s"
proof -
  assume r: "RewriteSmallTSU i s = Some (n, out)"
  then obtain ms rest where m: "MatchPattern 0x3063 [0, 0x3063, 0x3063, 0] s = Some (ms, rest)" "n = sum_list (map snd ms)"
    by (auto simp: RewriteSmallTSU_def Let_def split: option.splits if_splits)
  have "ms \<noteq> []" using MatchPattern_len [OF m(1)] by auto
  then have "snd (ms ! 0) \<le> n" unfolding m(2) by (cases ms) auto
  then show ?thesis using MatchPattern_len [OF m(1)] MatchPattern_first(1) [OF m(1)] m(2) by auto
qed

text \<open>The character that is repeated has three bytes.\<close>

lemma Utf8ToCodepoint_nn:
  assumes "Utf8ToCodepoint s = (c, n)" "0x800 \<le> c" "c < 0x10000"
  shows "n = 3"
proof -
  obtain ok d rest where sp: "SplitFirstChar32 s = (ok, d, rest)" by (cases "SplitFirstChar32 s") auto
  have ok: "ok" "d = c" "n = length s - length rest" using assms sp by (auto simp: Utf8ToCodepoint_def split: if_splits)
  obtain b bs where s: "s = b # bs" using sp ok by (cases s) (auto simp: SplitFirstChar32_def)
  show ?thesis
  proof (cases "b < 0x80")
    case True
    then have c: "c = ucast b" using sp ok s by (simp add: SplitFirstChar32_def)
    then have "unat c < 256" using unsigned_less [of b, where 'a = nat] by (simp add: unat_ucast_char32)
    moreover have "unat (0x800 :: char32) \<le> unat c" using assms(2) by (simp only: word_le_nat_alt)
    ultimately show ?thesis by simp
  next
    case False
    then obtain len mn mx r where l: "LeadingByteInfo b = Some (len, mn, mx, r)" "mn \<le> c" "c \<le> mx" "len \<le> length s" "rest = drop len s"
      using sp ok s by (auto simp: SplitFirstChar32_def not_less split: option.splits if_splits)
    have "unat mn \<le> unat c" "unat c \<le> unat mx" "unat (0x800 :: char32) \<le> unat c" "unat c < unat (0x10000 :: char32)"
      using l(2,3) assms(2,3) by (simp_all only: word_le_nat_alt word_less_nat_alt)
    then have "len = 3" using l(1) by (auto simp: LeadingByteInfo_def split: if_splits)
    then show ?thesis using ok(3) l(4,5) by simp
  qed
qed

lemma RewriteDoubleNN_len: "RewriteDoubleNN i s = Some (n, out) \<Longrightarrow> 0 < n \<and> n \<le> length s"
proof -
  assume r: "RewriteDoubleNN i s = Some (n, out)"
  then obtain ms rest where m: "MatchPattern 0x3093 [0, 0x3093, 0x3093] s = Some (ms, rest)"
    and n: "n = sum_list (map snd ms) \<or> n = snd (ms ! 0) + 3"
    by (auto simp: RewriteDoubleNN_def Let_def split: option.splits if_splits)
  obtain c0 m0 where u0: "Utf8ToCodepoint s = (c0, m0)" by (cases "Utf8ToCodepoint s")
  obtain c1 m1 where u1: "Utf8ToCodepoint (drop m0 s) = (c1, m1)" by (cases "Utf8ToCodepoint (drop m0 s)")
  obtain c2 m2 where u2: "Utf8ToCodepoint (drop m1 (drop m0 s)) = (c2, m2)" by (cases "Utf8ToCodepoint (drop m1 (drop m0 s))")
  have ms: "ms = [(c0, m0), (c1, m1), (c2, m2)]" "c1 = 0x3093"
    using m u1 u2 by (auto simp: u0 split: if_splits simp del: drop_drop)
  have "m1 = 3" using Utf8ToCodepoint_nn [OF u1] ms(2) by simp
  then have "n \<le> sum_list (map snd ms)" using n ms(1) by auto
  moreover have "0 < n" using MatchPattern_first(1) [OF m] n ms(1) by auto
  ultimately show ?thesis using MatchPattern_len [OF m] by auto
qed

lemma first_rewrite_Some: "first_rewrite rs = Some r \<Longrightarrow> Some r \<in> set rs"
  by (induction rs) (auto simp: first_rewrite_def split: if_splits)

text \<open>A step consumes something unless the rest does not decode, and then it appends nothing.\<close>

lemma RewriteStep_len:
  assumes "RewriteStep i h s = (n, out)"
  shows "n \<le> length s" "n = 0 \<Longrightarrow> out = []"
proof -
  obtain c m where u: "Utf8ToCodepoint s = (c, m)" by (cases "Utf8ToCodepoint s")
  note rules = RewriteNN_len RewriteNI_len RewriteM_len RewriteYu_len RewriteSmallTSU_len RewriteDoubleNN_len
  have "n \<le> length s \<and> (n = 0 \<longrightarrow> out = [])"
  proof (cases "(if h then None else first_rewrite [RewriteDoubleNN i s, RewriteNN i s, RewriteYu i s, RewriteNI i s, RewriteSmallTSU i s, RewriteM i s])")
    case None
    then have "n = m" "out = CodepointToUtf8 c" using assms u by (simp_all add: RewriteStep_def)
    then show ?thesis using Utf8ToCodepoint_len [OF u] by (auto simp: CodepointToUtf8_def)
  next
    case (Some r)
    then have r: "r = (n, out)" using assms by (simp add: RewriteStep_def)
    have "Some (n, out) \<in> set [RewriteDoubleNN i s, RewriteNN i s, RewriteYu i s, RewriteNI i s, RewriteSmallTSU i s, RewriteM i s]"
      by (rule first_rewrite_Some) (use Some r in \<open>simp split: if_splits\<close>)
    moreover have "\<forall>r \<in> set [RewriteDoubleNN i s, RewriteNN i s, RewriteYu i s, RewriteNI i s, RewriteSmallTSU i s, RewriteM i s].
        r = Some (n, out) \<longrightarrow> 0 < n \<and> n \<le> length s" using rules by (metis (no_types, lifting) set_ConsD empty_iff list.set(1))
    ultimately show ?thesis by fastforce
  qed
  then show "n \<le> length s" "n = 0 \<Longrightarrow> out = []" by simp_all
qed

section \<open>The corrector\<close>

datatype InputMode = ROMAN | KANA

record key_corrector =
  kc_available :: bool
  kc_mode :: InputMode
  kc_corrected_key :: bytes
  kc_original_key :: bytes
  kc_alignment :: "nat list"
  kc_rev_alignment :: "nat list"

definition kMaxSize :: nat where "kMaxSize = 128"
definition kInvalidPos :: nat where "kInvalidPos = 2 ^ 64 - 1"

definition IsValidPosition :: "nat \<Rightarrow> bool" where
  "IsValidPosition pos \<longleftrightarrow> pos \<noteq> kInvalidPos"

text \<open>The loop of \<^verbatim>\<open>Init\<close>; the flag is its result. The position in the key is what has been consumed.\<close>

function InitLoop :: "bytes \<Rightarrow> nat \<Rightarrow> nat \<Rightarrow> bytes \<Rightarrow> key_corrector \<Rightarrow> bool \<times> key_corrector" where
  "InitLoop key history_size key_pos str kc =
     (if str = [] then (True, kc\<lparr>kc_available := True\<rparr>)
      else let org_len = length (kc_corrected_key kc); len = length key - length str;
               (mblen, output) = RewriteStep key_pos (len < min (length key) history_size) str;
               kc = kc\<lparr>kc_corrected_key := kc_corrected_key kc @ output\<rparr>;
               corrected_mblen = length output
           in if corrected_mblen = 0 \<and> mblen = 0 then (False, kc)
              else let kc = (if mblen = corrected_mblen
                             then kc\<lparr>kc_alignment := kc_alignment kc @ map (\<lambda>i. org_len + i) [0 ..< mblen],
                                     kc_rev_alignment := kc_rev_alignment kc @ map (\<lambda>i. len + i) [0 ..< mblen]\<rparr>
                             else kc\<lparr>kc_alignment := kc_alignment kc @ org_len # replicate (mblen - 1) kInvalidPos,
                                     kc_rev_alignment := kc_rev_alignment kc @ len # replicate (corrected_mblen - 1) kInvalidPos\<rparr>)
                   in InitLoop key history_size (key_pos + 1) (drop mblen str) kc)"
  by pat_completeness auto
termination
proof (relation "measure (\<lambda>(key, history_size, key_pos, str, kc). length str)", goal_cases)
  case (2 key history_size key_pos str kc org_len len r mblen out kc1 corrected_mblen kc2)
  have "0 < mblen"
    using RewriteStep_len(2) [of key_pos "len < min (length key) history_size" str mblen out] 2 by (cases "mblen = 0") auto
  then show ?case using 2 by simp
qed simp

declare InitLoop.simps [simp del]

definition KeyCorrectorInit :: "bytes \<Rightarrow> InputMode \<Rightarrow> nat \<Rightarrow> key_corrector \<Rightarrow> bool \<times> key_corrector" where
  "KeyCorrectorInit key mode history_size kc =
     (if mode = KANA then (False, kc)
      else if key = [] \<or> kMaxSize \<le> length key then (False, kc)
      else InitLoop key history_size 0 key (kc\<lparr>kc_original_key := key\<rparr>))"

definition NewKeyCorrector :: "bytes \<Rightarrow> InputMode \<Rightarrow> nat \<Rightarrow> key_corrector" where
  "NewKeyCorrector key mode history_size =
     snd (KeyCorrectorInit key mode history_size
       \<lparr>kc_available = False, kc_mode = mode, kc_corrected_key = [], kc_original_key = [], kc_alignment = [], kc_rev_alignment = []\<rparr>)"

definition GetCorrectedPosition :: "key_corrector \<Rightarrow> nat \<Rightarrow> nat" where
  "GetCorrectedPosition kc original_key_pos =
     (if original_key_pos < length (kc_alignment kc) then kc_alignment kc ! original_key_pos else kInvalidPos)"

definition GetOriginalPosition :: "key_corrector \<Rightarrow> nat \<Rightarrow> nat" where
  "GetOriginalPosition kc corrected_key_pos =
     (if corrected_key_pos < length (kc_rev_alignment kc) then kc_rev_alignment kc ! corrected_key_pos else kInvalidPos)"

text \<open>\<^verbatim>\<open>substr\<close> throws where the position is greater than the length: None.\<close>

definition substr :: "bytes \<Rightarrow> nat \<Rightarrow> bytes option" where
  "substr s pos = (if pos \<le> length s then Some (drop pos s) else None)"

definition GetCorrectedPrefix :: "key_corrector \<Rightarrow> nat \<Rightarrow> bytes option" where
  "GetCorrectedPrefix kc original_key_pos =
     (if \<not> kc_available kc then Some []
      else if kc_mode kc = KANA then Some []
      else let corrected_key_pos = GetCorrectedPosition kc original_key_pos
      in if \<not> IsValidPosition corrected_key_pos then Some []
      else do {
        corrected_substr \<leftarrow> substr (kc_corrected_key kc) corrected_key_pos;
        original_substr \<leftarrow> substr (kc_original_key kc) original_key_pos;
        Some (if corrected_substr \<noteq> original_substr then corrected_substr else []) })"

text \<open>The sums and differences are those of \<^verbatim>\<open>size_t\<close>.\<close>

definition GetOriginalOffset :: "key_corrector \<Rightarrow> nat \<Rightarrow> nat \<Rightarrow> nat" where
  "GetOriginalOffset kc original_key_pos new_key_offset =
     (if \<not> kc_available kc then kInvalidPos
      else if kc_mode kc = KANA then kInvalidPos
      else let corrected_key_pos = GetCorrectedPosition kc original_key_pos
      in if \<not> IsValidPosition corrected_key_pos then kInvalidPos
      else if length (kc_rev_alignment kc) = (corrected_key_pos + new_key_offset) mod 2 ^ 64
      then (length (kc_alignment kc) + 2 ^ 64 - GetOriginalPosition kc corrected_key_pos) mod 2 ^ 64
      else let original_key_pos2 = GetOriginalPosition kc ((corrected_key_pos + new_key_offset) mod 2 ^ 64)
      in if \<not> IsValidPosition original_key_pos2 then kInvalidPos
      else if original_key_pos \<le> original_key_pos2 then original_key_pos2 - original_key_pos
      else kInvalidPos)"

definition str_contains :: "bytes \<Rightarrow> bytes \<Rightarrow> bool" where
  "str_contains s t \<longleftrightarrow> list_ex (\<lambda>i. take (length t) (drop i s) = t) [0 ..< Suc (length s)]"

definition GetCorrectedCostPenalty :: "bytes \<Rightarrow> int" where
  "GetCorrectedCostPenalty key =
     (if str_contains key [0xE3, 0x82, 0x93, 0xE3, 0x82, 0x93] \<or> str_contains key [0xE3, 0x81, 0xA3, 0xE3, 0x81, 0xA3] then 0 else 3000)"

section \<open>The alignments\<close>

text \<open>The alignments lead from a position of the key to the corrected key and back, and never beyond what was consumed.\<close>

definition aligned :: "bytes \<Rightarrow> nat \<Rightarrow> key_corrector \<Rightarrow> bool" where
  "aligned key consumed kc \<longleftrightarrow>
     kc_original_key kc = key \<and> length (kc_alignment kc) = consumed \<and> length (kc_rev_alignment kc) = length (kc_corrected_key kc) \<and>
     (\<forall>p < consumed. kc_alignment kc ! p \<noteq> kInvalidPos \<longrightarrow>
        kc_alignment kc ! p < length (kc_corrected_key kc) \<and> kc_rev_alignment kc ! (kc_alignment kc ! p) = p) \<and>
     (\<forall>c < length (kc_corrected_key kc). kc_rev_alignment kc ! c \<noteq> kInvalidPos \<longrightarrow> kc_rev_alignment kc ! c < consumed)"

lemma aligned_extend:
  assumes a: "aligned key len kc" and al: "length A = m" and re: "length R = length output"
    and A: "\<And>i. i < m \<Longrightarrow> A ! i \<noteq> kInvalidPos \<Longrightarrow>
      length (kc_corrected_key kc) \<le> A ! i \<and> A ! i < length (kc_corrected_key kc) + length output \<and> R ! (A ! i - length (kc_corrected_key kc)) = len + i"
    and R: "\<And>i. i < length output \<Longrightarrow> R ! i \<noteq> kInvalidPos \<Longrightarrow> R ! i < len + m"
  shows "aligned key (len + m) (kc\<lparr>kc_corrected_key := kc_corrected_key kc @ output,
    kc_alignment := kc_alignment kc @ A, kc_rev_alignment := kc_rev_alignment kc @ R\<rparr>)" (is "aligned key _ ?kc")
proof -
  let ?n = "length (kc_corrected_key kc)"
  have l: "length (kc_alignment kc) = len" "length (kc_rev_alignment kc) = ?n" "kc_original_key kc = key"
    using a by (simp_all add: aligned_def)
  have "kc_alignment ?kc ! p < length (kc_corrected_key ?kc) \<and> kc_rev_alignment ?kc ! (kc_alignment ?kc ! p) = p"
    if p: "p < len + m" "kc_alignment ?kc ! p \<noteq> kInvalidPos" for p
  proof (cases "p < len")
    case True
    then have "kc_alignment kc ! p < ?n \<and> kc_rev_alignment kc ! (kc_alignment kc ! p) = p"
      using a p(2) l(1) by (simp add: aligned_def nth_append)
    then show ?thesis using True l by (simp add: nth_append)
  next
    case False
    then have "p - len < m" "A ! (p - len) \<noteq> kInvalidPos" using p l by (auto simp: nth_append)
    from A [OF this] False show ?thesis using l by (auto simp: nth_append)
  qed
  moreover have "kc_rev_alignment ?kc ! c < len + m" if c: "c < ?n + length output" "kc_rev_alignment ?kc ! c \<noteq> kInvalidPos" for c
  proof (cases "c < ?n")
    case True
    then have "kc_rev_alignment kc ! c < len" using a c(2) l(2) by (simp add: aligned_def nth_append)
    then show ?thesis using True l(2) by (simp add: nth_append)
  next
    case False
    then have "c - ?n < length output" "R ! (c - ?n) \<noteq> kInvalidPos" using c l by (auto simp: nth_append)
    from R [OF this] False show ?thesis using l by (simp add: nth_append)
  qed
  ultimately show ?thesis using l al re by (simp add: aligned_def)
qed

lemma Utf8ToCodepoint_0:
  assumes "Utf8ToCodepoint s = (0, n)" "0 < n"
  shows "hd s = 0 \<and> s \<noteq> []"
proof -
  obtain ok d rest where sp: "SplitFirstChar32 s = (ok, d, rest)" by (cases "SplitFirstChar32 s") auto
  have ok: "ok" "d = 0" using assms sp by (auto simp: Utf8ToCodepoint_def split: if_splits)
  obtain b bs where s: "s = b # bs" using sp ok by (cases s) (auto simp: SplitFirstChar32_def)
  show ?thesis
  proof (cases "b < 0x80")
    case True
    then have "ucast b = (0 :: char32)" using sp ok s by (simp add: SplitFirstChar32_def)
    then have "unat (ucast b :: char32) = 0" by simp
    then have "b = 0" by (simp add: unat_ucast_char32 unat_eq_zero)
    then show ?thesis using s by simp
  next
    case False
    then obtain len mn mx r where l: "LeadingByteInfo b = Some (len, mn, mx, r)" "mn \<le> (0 :: char32)"
      using sp ok s by (auto simp: SplitFirstChar32_def not_less split: option.splits if_splits)
    then show ?thesis by (auto simp: LeadingByteInfo_def split: if_splits)
  qed
qed

lemma CodepointToUtf8_Nil: "CodepointToUtf8 c = [] \<longleftrightarrow> c = 0"
  by (simp add: CodepointToUtf8_def)

lemma AppendUint16_Nil: "AppendUint16 c = [] \<longleftrightarrow> c = 0"
proof -
  have "unat (ucast c :: char32) = unat c" using unsigned_less [of c, where 'a = nat]
    by (simp add: unsigned_ucast_eq take_bit_nat_eq_self)
  then show ?thesis unfolding AppendUint16_def CodepointToUtf8_Nil by (metis unat_eq_zero unat_0)
qed

lemma RewriteStep_out:
  assumes "RewriteStep i h s = (n, out)" "0 < n" "0 \<notin> set s"
  shows "out \<noteq> []"
proof -
  obtain c m where u: "Utf8ToCodepoint s = (c, m)" by (cases "Utf8ToCodepoint s")
  have rules: "RewriteNN i s = Some (n, out) \<Longrightarrow> out \<noteq> []" "RewriteNI i s = Some (n, out) \<Longrightarrow> out \<noteq> []"
    "RewriteM i s = Some (n, out) \<Longrightarrow> out \<noteq> []" "RewriteYu i s = Some (n, out) \<Longrightarrow> out \<noteq> []"
    "RewriteSmallTSU i s = Some (n, out) \<Longrightarrow> out \<noteq> []" "RewriteDoubleNN i s = Some (n, out) \<Longrightarrow> out \<noteq> []"
    by (auto simp: RewriteNN_def RewriteNI_def RewriteM_def RewriteYu_def RewriteSmallTSU_def RewriteDoubleNN_def Let_def
        CodepointToUtf8_Nil AppendUint16_Nil split: prod.splits option.splits if_splits)
  show ?thesis
  proof (cases "(if h then None else first_rewrite [RewriteDoubleNN i s, RewriteNN i s, RewriteYu i s, RewriteNI i s, RewriteSmallTSU i s, RewriteM i s])")
    case None
    then have "n = m" "out = CodepointToUtf8 c" using assms(1) u by (simp_all add: RewriteStep_def)
    then show ?thesis using Utf8ToCodepoint_0 [of s m] u assms(2,3) by (metis CodepointToUtf8_Nil hd_in_set)
  next
    case (Some r)
    then have r: "r = (n, out)" using assms by (simp add: RewriteStep_def)
    have "Some (n, out) \<in> set [RewriteDoubleNN i s, RewriteNN i s, RewriteYu i s, RewriteNI i s, RewriteSmallTSU i s, RewriteM i s]"
      by (rule first_rewrite_Some) (use Some r in \<open>simp split: if_splits\<close>)
    moreover have "\<forall>r \<in> set [RewriteDoubleNN i s, RewriteNN i s, RewriteYu i s, RewriteNI i s, RewriteSmallTSU i s, RewriteM i s].
        r = Some (n, out) \<longrightarrow> out \<noteq> []" using rules by (metis (no_types, lifting) set_ConsD empty_iff list.set(1))
    ultimately show ?thesis by fastforce
  qed
qed

lemma InitLoop_aligned:
  "aligned key (length key - length str) kc \<Longrightarrow> \<not> kc_available kc \<Longrightarrow> length str \<le> length key \<Longrightarrow> 0 \<notin> set str \<Longrightarrow>
     InitLoop key history_size key_pos str kc = (ok, kc') \<Longrightarrow>
     kc_mode kc' = kc_mode kc \<and> (kc_available kc' \<longrightarrow> aligned key (length key) kc')"
proof (induction "length str" arbitrary: key_pos str kc rule: less_induct)
  case less
  show ?case
  proof (cases "str = []")
    case True
    then show ?thesis using less.prems by (auto simp: InitLoop.simps [of _ _ _ "[]"] aligned_def)
  next
    case ne: False
    let ?n = "length (kc_corrected_key kc)" and ?len = "length key - length str"
    obtain m out where st: "RewriteStep key_pos (?len < min (length key) history_size) str = (m, out)" by fastforce
    note m = RewriteStep_len [OF st]
    show ?thesis
    proof (cases "m = 0")
      case True
      then show ?thesis using less.prems ne st m(2) by (auto simp: InitLoop.simps [of _ _ _ str] Let_def)
    next
      case False
      then have out: "out \<noteq> []" using RewriteStep_out [OF st] less.prems(4) by simp
      let ?kc = "kc\<lparr>kc_corrected_key := kc_corrected_key kc @ out\<rparr>"
      define kc1 where "kc1 = (if m = length out
        then ?kc\<lparr>kc_alignment := kc_alignment ?kc @ map (\<lambda>i. ?n + i) [0 ..< m], kc_rev_alignment := kc_rev_alignment ?kc @ map (\<lambda>i. ?len + i) [0 ..< m]\<rparr>
        else ?kc\<lparr>kc_alignment := kc_alignment ?kc @ ?n # replicate (m - 1) kInvalidPos,
                 kc_rev_alignment := kc_rev_alignment ?kc @ ?len # replicate (length out - 1) kInvalidPos\<rparr>)"
      have run: "InitLoop key history_size key_pos str kc = InitLoop key history_size (key_pos + 1) (drop m str) kc1"
        using ne st False unfolding InitLoop.simps [of _ _ _ str] kc1_def by (simp add: Let_def)
      have lp: "?len + m = length key - length (drop m str)" using m(1) less.prems(3) by simp
      have "aligned key (?len + m) kc1"
      proof (cases "m = length out")
        case True
        then have "kc1 = kc\<lparr>kc_corrected_key := kc_corrected_key kc @ out,
          kc_alignment := kc_alignment kc @ map (\<lambda>i. ?n + i) [0 ..< m], kc_rev_alignment := kc_rev_alignment kc @ map (\<lambda>i. ?len + i) [0 ..< m]\<rparr>"
          by (simp add: kc1_def)
        then show ?thesis using True by (simp only:) (rule aligned_extend [OF less.prems(1)]; simp)
      next
        case neq: False
        have A: "(?n # replicate (m - 1) kInvalidPos) ! i = (if i = 0 then ?n else kInvalidPos)" if "i < m" for i
          using that by (cases i) simp_all
        have R: "(?len # replicate (length out - 1) kInvalidPos) ! i = (if i = 0 then ?len else kInvalidPos)" if "i < length out" for i
          using that by (cases i) simp_all
        have "kc1 = kc\<lparr>kc_corrected_key := kc_corrected_key kc @ out, kc_alignment := kc_alignment kc @ ?n # replicate (m - 1) kInvalidPos,
                 kc_rev_alignment := kc_rev_alignment kc @ ?len # replicate (length out - 1) kInvalidPos\<rparr>"
          using neq by (simp add: kc1_def)
        moreover have "aligned key (?len + m) (kc\<lparr>kc_corrected_key := kc_corrected_key kc @ out,
            kc_alignment := kc_alignment kc @ ?n # replicate (m - 1) kInvalidPos,
            kc_rev_alignment := kc_rev_alignment kc @ ?len # replicate (length out - 1) kInvalidPos\<rparr>)"
          by (rule aligned_extend [OF less.prems(1)]) (use False out A R in \<open>auto split: if_splits\<close>)
        ultimately show ?thesis by (simp only:)
      qed
      moreover have "\<not> kc_available kc1" "kc_mode kc1 = kc_mode kc" using less.prems(2) by (simp_all add: kc1_def)
      moreover have "0 \<notin> set (drop m str)" using less.prems(4) in_set_dropD by metis
      moreover have "length (drop m str) < length str" using False ne by simp
      moreover have "length (drop m str) \<le> length key" using less.prems(3) by simp
      moreover have "InitLoop key history_size (key_pos + 1) (drop m str) kc1 = (ok, kc')" using run less.prems(5) by simp
      ultimately show ?thesis using less.hyps [of "drop m str" kc1 "key_pos + 1"] lp by metis
    qed
  qed
qed

lemma NewKeyCorrector_aligned:
  assumes "0 \<notin> set key" "kc_available (NewKeyCorrector key mode h)"
  shows "aligned key (length key) (NewKeyCorrector key mode h)" "length key < kMaxSize"
proof -
  let ?kc = "\<lparr>kc_available = False, kc_mode = mode, kc_corrected_key = [], kc_original_key = key, kc_alignment = [], kc_rev_alignment = []\<rparr>"
  obtain ok kc where i: "InitLoop key h 0 key ?kc = (ok, kc)" by fastforce
  have r: "\<not> (key = [] \<or> kMaxSize \<le> length key)" "NewKeyCorrector key mode h = kc"
    using assms(2) i by (auto simp: NewKeyCorrector_def KeyCorrectorInit_def split: if_splits)
  have "aligned key (length key - length key) ?kc" by (simp add: aligned_def)
  from InitLoop_aligned [OF this _ order_refl assms(1) i] r assms(2)
  show "aligned key (length key) (NewKeyCorrector key mode h)" "length key < kMaxSize" by auto
qed

text \<open>C13: For a key without NUL the corrector never reads outside its strings: asking for a corrected prefix throws no
  exception, and the part of the key that a word of a corrected prefix stands for ends within the key.\<close>
theorem corrections_stay_in_the_key:
  assumes "0 \<notin> set key"
  shows "GetCorrectedPrefix (NewKeyCorrector key mode h) pos \<noteq> None \<and>
    (IsValidPosition (GetOriginalOffset (NewKeyCorrector key mode h) pos off) \<longrightarrow>
       pos + GetOriginalOffset (NewKeyCorrector key mode h) pos off \<le> length key)"
proof (cases "kc_available (NewKeyCorrector key mode h) \<and> kc_mode (NewKeyCorrector key mode h) \<noteq> KANA \<and>
    IsValidPosition (GetCorrectedPosition (NewKeyCorrector key mode h) pos)")
  case False
  then show ?thesis by (auto simp: GetCorrectedPrefix_def GetOriginalOffset_def IsValidPosition_def)
next
  case True
  let ?kc = "NewKeyCorrector key mode h" and ?c = "GetCorrectedPosition (NewKeyCorrector key mode h) pos"
  note a = NewKeyCorrector_aligned [OF assms, of mode h]
  have al: "aligned key (length key) ?kc" and small: "length key < 128" using a True by (simp_all add: kMaxSize_def)
  have pos: "pos < length key" "?c < length (kc_corrected_key ?kc)" "kc_rev_alignment ?kc ! ?c = pos"
    using al True by (auto simp: aligned_def GetCorrectedPosition_def IsValidPosition_def split: if_splits)
  have gp: "GetOriginalPosition ?kc ?c = pos" using pos(2,3) al by (simp add: GetOriginalPosition_def aligned_def)
  have rest: "GetOriginalPosition ?kc x < length key" if "IsValidPosition (GetOriginalPosition ?kc x)" for x
    using al that by (auto simp: aligned_def GetOriginalPosition_def IsValidPosition_def split: if_splits)
  have "(length key + 2 ^ 64 - pos) mod 2 ^ 64 = length key - pos"
  proof -
    have "length key + 2 ^ 64 - pos = (length key - pos) + 2 ^ 64" using pos(1) by simp
    moreover have "length key - pos < 2 ^ 64" by (rule less_le_trans [of _ 128]) (use small in simp_all)
    ultimately show ?thesis by (simp only: mod_add_self2 mod_less)
  qed
  then have "pos + GetOriginalOffset ?kc pos off \<le> length key" if "IsValidPosition (GetOriginalOffset ?kc pos off)"
    using that rest [of "(?c + off) mod 2 ^ 64"] True al pos(1) gp
    by (auto simp: GetOriginalOffset_def Let_def aligned_def IsValidPosition_def split: if_splits)
  moreover have "GetCorrectedPrefix ?kc pos \<noteq> None"
    using True pos(1,2) al by (simp add: GetCorrectedPrefix_def Let_def substr_def aligned_def)
  ultimately show ?thesis by blast
qed

lemma example_steps:
  "RewriteStep 0 False [0xE3, 0x81, 0x8B, 0xE3, 0x82, 0x93, 0xE3, 0x81, 0x82] = (3, [0xE3, 0x81, 0x8B])"
  "RewriteStep 1 False [0xE3, 0x82, 0x93, 0xE3, 0x81, 0x82] = (6, [0xE3, 0x82, 0x93, 0xE3, 0x81, 0xAA])"
  by code_simp+

lemma example_offset:
  "GetOriginalOffset (NewKeyCorrector [0xE3, 0x81, 0x8B, 0xE3, 0x82, 0x93, 0xE3, 0x81, 0x82] ROMAN 0) 3 6 = 6"
proof -
  have s: "RewriteStep 0 False [0xE3, 0x81, 0x8B, 0xE3, 0x82, 0x93, 0xE3, 0x81, 0x82] = (3, [0xE3, 0x81, 0x8B])"
    "RewriteStep (Suc 0) False [0xE3, 0x82, 0x93, 0xE3, 0x81, 0x82] = (6, [0xE3, 0x82, 0x93, 0xE3, 0x81, 0xAA])"
    using example_steps by simp_all
  have v: "IsValidPosition (Suc (Suc (Suc 0)))" by (simp add: IsValidPosition_def kInvalidPos_def)
  show ?thesis
    by (simp add: NewKeyCorrector_def KeyCorrectorInit_def kMaxSize_def InitLoop.simps s v Let_def upt_rec
      GetOriginalOffset_def GetCorrectedPosition_def GetOriginalPosition_def)
qed

lemma corrections_stay_in_the_key_witness:
  "GetCorrectedPrefix (NewKeyCorrector [0xE3, 0x81, 0x8B, 0xE3, 0x82, 0x93, 0xE3, 0x81, 0x82] ROMAN 0) 3 \<noteq> None \<and>
    3 + GetOriginalOffset (NewKeyCorrector [0xE3, 0x81, 0x8B, 0xE3, 0x82, 0x93, 0xE3, 0x81, 0x82] ROMAN 0) 3 6 \<le> 9"
proof -
  have "IsValidPosition (GetOriginalOffset (NewKeyCorrector [0xE3, 0x81, 0x8B, 0xE3, 0x82, 0x93, 0xE3, 0x81, 0x82] ROMAN 0) 3 6)"
    unfolding example_offset by (simp add: IsValidPosition_def kInvalidPos_def)
  then show ?thesis
    using corrections_stay_in_the_key [of "[0xE3, 0x81, 0x8B, 0xE3, 0x82, 0x93, 0xE3, 0x81, 0x82]" ROMAN 0 3 6] by simp
qed

text \<open>A character beyond 16 bits is taken for a Hiragana letter: \<^verbatim>\<open>am\<close> and U+13070 are corrected as if it were U+3070.\<close>

lemma truncated_steps:
  "RewriteStep 0 False [0x61, 0x6D, 0xF0, 0x93, 0x81, 0xB0] = (1, [0x61])"
  "RewriteStep 1 False [0x6D, 0xF0, 0x93, 0x81, 0xB0] = (5, [0xE3, 0x82, 0x93, 0xE3, 0x81, 0xB0])"
  by code_simp+

lemma truncated_correction:
  "GetCorrectedPrefix (NewKeyCorrector [0x61, 0x6D, 0xF0, 0x93, 0x81, 0xB0] ROMAN 0) 1 =
     Some [0xE3, 0x82, 0x93, 0xE3, 0x81, 0xB0]"
proof -
  have s: "RewriteStep 0 False [0x61, 0x6D, 0xF0, 0x93, 0x81, 0xB0] = (Suc 0, [0x61])"
    "RewriteStep (Suc 0) False [0x6D, 0xF0, 0x93, 0x81, 0xB0] = (5, [0xE3, 0x82, 0x93, 0xE3, 0x81, 0xB0])"
    using truncated_steps by simp_all
  have v: "IsValidPosition (Suc 0)" by (simp add: IsValidPosition_def kInvalidPos_def)
  show ?thesis
    by (simp add: NewKeyCorrector_def KeyCorrectorInit_def kMaxSize_def InitLoop.simps s v Let_def
      GetCorrectedPrefix_def GetCorrectedPosition_def substr_def)
qed

end
