(* ===== verification/UserDictionary.thy ===== *)
theory UserDictionary
  imports Dictionary Unicode "HOL-Library.Product_Lexorder"
begin

text \<open>
  The user's dictionary in memory, \<^verbatim>\<open>src/src/dictionary/user_dictionary.cc\<close>: the index of words and suppressed words, loaded from
  the entries of the storage with the parts of speech of \<^verbatim>\<open>user_pos.cc\<close> and the checks of \<^verbatim>\<open>user_dictionary_util.cc\<close>, and its lookups
  by binary search. The lemmas show that the lookups find exactly the matching words of a loaded index.
\<close>

section \<open>Words and parts of speech: user\_pos.h, user\_pos.cc\<close>

text \<open>The struct \<^verbatim>\<open>UserPos::Token\<close>; the part of speech is its number in the protocol.\<close>

record UserToken =
  ut_key :: bytes
  ut_value :: bytes
  ut_id :: "16 word"
  ut_attributes :: byte
  ut_pos_type :: byte
  ut_comment :: bytes

definition NON_JA_LOCALE :: byte where "NON_JA_LOCALE = 1"
definition NO_POS :: byte where "NO_POS = 0"
definition SUGGESTION_ONLY :: byte where "SUGGESTION_ONLY = 3"
definition EMOTICON_POS :: byte where "EMOTICON_POS = 15"
definition SUPPRESSION_WORD :: byte where "SUPPRESSION_WORD = 44"

definition PosType_IsValid :: "byte \<Rightarrow> bool" where
  "PosType_IsValid p \<longleftrightarrow> p \<le> 44"

text \<open>
  The data of \<^verbatim>\<open>UserPos\<close>: for every part of speech its conjugation forms (suffix of the key, suffix of the value, id),
  with the base form first, and its cost in the generated table \<^verbatim>\<open>kPosTypeStringTable\<close>.
\<close>

record user_pos =
  up_forms :: "byte \<Rightarrow> (bytes \<times> bytes \<times> 16 word) list"
  up_cost :: "byte \<Rightarrow> int"

definition ends_with :: "bytes \<Rightarrow> bytes \<Rightarrow> bool" where
  "ends_with s t \<longleftrightarrow> length t \<le> length s \<and> drop (length s - length t) s = t"

definition UserPosGetTokens :: "user_pos \<Rightarrow> bytes \<Rightarrow> bytes \<Rightarrow> byte \<Rightarrow> bytes \<Rightarrow> UserToken list" where
  "UserPosGetTokens up key value pt locale =
     (if key = [] \<or> value = [] \<or> \<not> PosType_IsValid pt then []
      else let attributes = (if locale \<noteq> [] \<and> \<not> starts_with locale [0x6A, 0x61] then NON_JA_LOCALE else 0);
               tok = (\<lambda>k v i. \<lparr>ut_key = k, ut_value = v, ut_id = i, ut_attributes = attributes, ut_pos_type = pt, ut_comment = []\<rparr>)
      in case up_forms up pt of
           [] \<Rightarrow> []
         | [(_, _, conjugation_id)] \<Rightarrow> [tok key value conjugation_id]
         | (base_key_suffix, base_value_suffix, i) # forms \<Rightarrow>
             let conjugated = length base_key_suffix < length key \<and> length base_value_suffix < length value \<and>
                   ends_with key base_key_suffix \<and> ends_with value base_value_suffix;
                 key_stem = (if conjugated then take (length key - length base_key_suffix) key else key);
                 value_stem = (if conjugated then take (length value - length base_value_suffix) value else value)
             in map (\<lambda>(ks, vs, i). tok (key_stem @ ks) (value_stem @ vs) i) ((base_key_suffix, base_value_suffix, i) # forms))"

text \<open>The result is a \<^verbatim>\<open>uint16_t\<close>.\<close>

definition GetCostFromPosType :: "user_pos \<Rightarrow> byte \<Rightarrow> int \<Rightarrow> int" where
  "GetCostFromPosType up pt cost_penalty =
     (let cost = (if PosType_IsValid pt then up_cost up pt else 0)
      in if cost = 0 then 5000 else (cost + cost_penalty) mod 2 ^ 16)"

section \<open>Entries: user\_dictionary\_util.cc\<close>

record UserEntry =
  ue_key :: bytes
  ue_value :: bytes
  ue_comment :: bytes
  ue_pos :: "byte option"

datatype ExtendedErrorCode =
    READING_EMPTY | READING_TOO_LONG | READING_CONTAINS_INVALID_CHARACTER
  | WORD_EMPTY | WORD_TOO_LONG | WORD_CONTAINS_INVALID_CHARACTER
  | COMMENT_TOO_LONG | COMMENT_CONTAINS_INVALID_CHARACTER | INVALID_POS_TYPE

definition kMaxStringSize :: nat where "kMaxStringSize = 300"

definition IsTooLongString :: "bytes \<Rightarrow> bool" where
  "IsTooLongString str \<longleftrightarrow> kMaxStringSize < length str"

definition ContainsInvalidChars :: "bytes \<Rightarrow> bool" where
  "ContainsInvalidChars str \<longleftrightarrow> list_ex (\<lambda>c. c = 0x0A \<or> c = 0x0D \<or> c = 0x09) str \<or> \<not> strings_IsValidUtf8 str"

text \<open>None is the status of a valid entry.\<close>

definition ValidateEntry :: "UserEntry \<Rightarrow> ExtendedErrorCode option" where
  "ValidateEntry e =
     (if ue_key e = [] then Some READING_EMPTY
      else if IsTooLongString (ue_key e) then Some READING_TOO_LONG
      else if ContainsInvalidChars (ue_key e) then Some READING_CONTAINS_INVALID_CHARACTER
      else if ue_value e = [] then Some WORD_EMPTY
      else if IsTooLongString (ue_value e) then Some WORD_TOO_LONG
      else if ContainsInvalidChars (ue_value e) then Some WORD_CONTAINS_INVALID_CHARACTER
      else if IsTooLongString (ue_comment e) then Some COMMENT_TOO_LONG
      else if ContainsInvalidChars (ue_comment e) then Some COMMENT_CONTAINS_INVALID_CHARACTER
      else if ue_pos e = None \<or> \<not> PosType_IsValid (the (ue_pos e)) then Some INVALID_POS_TYPE
      else None)"

text \<open>The conversions of \<^verbatim>\<open>japanese_util\<close> that a reading goes through.\<close>

record japanese_conversions =
  jc_FullWidthAsciiToHalfWidthAscii :: "bytes \<Rightarrow> bytes"
  jc_HalfWidthKatakanaToFullWidthKatakana :: "bytes \<Rightarrow> bytes"
  jc_KatakanaToHiragana :: "bytes \<Rightarrow> bytes"
  jc_NormalizeVoicedSoundMark :: "bytes \<Rightarrow> bytes"

definition NormalizeReading :: "japanese_conversions \<Rightarrow> bytes \<Rightarrow> bytes" where
  "NormalizeReading jc input =
     jc_NormalizeVoicedSoundMark jc (jc_KatakanaToHiragana jc
       (jc_HalfWidthKatakanaToFullWidthKatakana jc (jc_FullWidthAsciiToHalfWidthAscii jc input)))"

section \<open>Suppressed words: user\_dictionary.cc\<close>

record suppression_dictionary =
  sd_keys_values :: "(bytes \<times> bytes) set"
  sd_keys_only :: "bytes set"
  sd_values_only :: "bytes set"

definition SuppressionAddEntry :: "bytes \<Rightarrow> bytes \<Rightarrow> suppression_dictionary \<Rightarrow> bool \<times> suppression_dictionary" where
  "SuppressionAddEntry key value sd =
     (if key = [] \<and> value = [] then (False, sd)
      else if key = [] then (True, sd\<lparr>sd_values_only := insert value (sd_values_only sd)\<rparr>)
      else if value = [] then (True, sd\<lparr>sd_keys_only := insert key (sd_keys_only sd)\<rparr>)
      else (True, sd\<lparr>sd_keys_values := insert (key, value) (sd_keys_values sd)\<rparr>))"

definition SuppressionIsEmpty :: "suppression_dictionary \<Rightarrow> bool" where
  "SuppressionIsEmpty sd \<longleftrightarrow> sd_keys_only sd = {} \<and> sd_values_only sd = {} \<and> sd_keys_values sd = {}"

definition SuppressionIsSuppressedEntry :: "suppression_dictionary \<Rightarrow> bytes \<Rightarrow> bytes \<Rightarrow> bool" where
  "SuppressionIsSuppressedEntry sd key value \<longleftrightarrow> \<not> SuppressionIsEmpty sd \<and>
     ((key, value) \<in> sd_keys_values sd \<or> key \<in> sd_keys_only sd \<or> value \<in> sd_values_only sd)"

section \<open>The index of tokens\<close>

record tokens_index =
  ti_tokens :: "UserToken list"
  ti_suppression :: suppression_dictionary
  ti_cost_penalty :: int

definition NewTokensIndex :: tokens_index where
  "NewTokensIndex = \<lparr>ti_tokens = [], ti_suppression = \<lparr>sd_keys_values = {}, sd_keys_only = {}, sd_values_only = {}\<rparr>, ti_cost_penalty = 0\<rparr>"

text \<open>
  What the loader is given: the conversions, the fingerprint, the parts of speech and the logarithm of the penalty. \<open>ul_tie\<close> is the
  order in which \<^verbatim>\<open>std::sort\<close>, which leaves it open, puts tokens with the same key and id.
\<close>

record user_env =
  ul_japanese :: japanese_conversions
  ul_CityFingerprint :: "bytes \<Rightarrow> 64 word"
  ul_user_pos :: user_pos
  ul_penalty :: "nat \<Rightarrow> int"
  ul_tie :: "UserToken \<Rightarrow> nat"

definition StripAsciiWhitespace :: "bytes \<Rightarrow> bytes" where
  "StripAsciiWhitespace s =
     (let space = (\<lambda>c :: byte. c = 0x20 \<or> (0x09 \<le> c \<and> c \<le> 0x0D))
      in rev (dropWhile space (rev (dropWhile space s))))"

text \<open>One entry; \<open>seen\<close> is the set of the fingerprints.\<close>

definition LoadEntry :: "user_env \<Rightarrow> UserEntry \<Rightarrow> 64 word set \<times> tokens_index \<Rightarrow> 64 word set \<times> tokens_index" where
  "LoadEntry env e = (\<lambda>(seen, ti).
     if ValidateEntry e \<noteq> None then (seen, ti)
     else let pos = the (ue_pos e);
              reading = jc_NormalizeVoicedSoundMark (ul_japanese env) (NormalizeReading (ul_japanese env) (ue_key e));
              fp = ul_CityFingerprint env (reading @ [0x09] @ ue_value e @ [0x09] @ [pos])
          in if fp \<in> seen then (seen, ti)
             else (insert fp seen,
               if pos = SUPPRESSION_WORD
               then ti\<lparr>ti_suppression := snd (SuppressionAddEntry reading (ue_value e) (ti_suppression ti))\<rparr>
               else ti\<lparr>ti_tokens := ti_tokens ti @
                      map (\<lambda>t. t\<lparr>ut_comment := StripAsciiWhitespace (ue_comment e)\<rparr>)
                        (UserPosGetTokens (ul_user_pos env) reading (ue_value e) pos [])\<rparr>))"

text \<open>The loop over all entries, each with the value of \<^verbatim>\<open>canceled_signal\<close> that is read before it; the flag says that it was set.\<close>

fun LoadEntries :: "user_env \<Rightarrow> (bool \<times> UserEntry) list \<Rightarrow> 64 word set \<times> tokens_index \<Rightarrow> bool \<times> tokens_index" where
  "LoadEntries env [] st = (False, snd st)"
| "LoadEntries env ((canceled, e) # es) st = (if canceled then (True, snd st) else LoadEntries env es (LoadEntry env e st))"

text \<open>\<^verbatim>\<open>TokensIndex::Load\<close>. \<^verbatim>\<open>std::sort\<close> by key and id; a canceled load leaves the tokens unsorted.\<close>

definition TokensIndexLoad :: "user_env \<Rightarrow> (bool \<times> UserEntry) list \<Rightarrow> tokens_index \<Rightarrow> tokens_index" where
  "TokensIndexLoad env es ti =
     (case LoadEntries env es ({}, ti\<lparr>ti_tokens := []\<rparr>) of
        (True, ti) \<Rightarrow> ti
      | (False, ti) \<Rightarrow>
          ti\<lparr>ti_tokens := sort_key (\<lambda>t. (ut_key t, ut_id t, ul_tie env t)) (ti_tokens ti),
             ti_cost_penalty := ul_penalty env (length (ti_tokens ti))\<rparr>)"

section \<open>Lookups\<close>

text \<open>The binary search of \<^verbatim>\<open>std::lower_bound\<close>, by the test that holds of the elements before the bound.\<close>

function std_lower_bound :: "('a \<Rightarrow> bool) \<Rightarrow> 'a list \<Rightarrow> nat" where
  "std_lower_bound p xs =
     (if xs = [] then 0
      else let half = length xs div 2
           in if p (xs ! half) then half + 1 + std_lower_bound p (drop (half + 1) xs) else std_lower_bound p (take half xs))"
  by pat_completeness auto
termination by (relation "measure (\<lambda>(p, xs). length xs)") auto

declare std_lower_bound.simps [simp del]

definition std_equal_range :: "('a \<Rightarrow> bool) \<Rightarrow> ('a \<Rightarrow> bool) \<Rightarrow> 'a list \<Rightarrow> 'a list" where
  "std_equal_range below beyond xs =
     (let first = std_lower_bound below xs; last = std_lower_bound (\<lambda>x. \<not> beyond x) xs in take (last - first) (drop first xs))"

datatype user_request = REQUEST_PREFIX | REQUEST_PREDICTIVE | REQUEST_EXACT

text \<open>\<^verbatim>\<open>strings::AtLeastCharsLen\<close>; None where a character is cut off and the iterator runs past the end.\<close>

fun AtLeastCharsLen :: "nat \<Rightarrow> bytes \<Rightarrow> nat option" where
  "AtLeastCharsLen 0 s = Some 0"
| "AtLeastCharsLen (Suc n) s =
     (case s of [] \<Rightarrow> Some 0
      | b # _ \<Rightarrow> if OneCharLen b \<le> length s then map_option Suc (AtLeastCharsLen n (drop (OneCharLen b) s)) else None)"

text \<open>A dictionary at rest: its index, its parts of speech and the id of unknown words.\<close>

record user_dictionary =
  ud_index :: tokens_index
  ud_user_pos :: user_pos
  ud_unknown_id :: "16 word"

definition USER_DICTIONARY :: byte where "USER_DICTIONARY = 128"
definition EMOTICON :: byte where "EMOTICON = 4"

definition PopulateTokenFromUserPosToken :: "user_dictionary \<Rightarrow> UserToken \<Rightarrow> user_request \<Rightarrow> Token option" where
  "PopulateTokenFromUserPosToken ud t request =
     (let id = (if ut_pos_type t = SUGGESTION_ONLY then ud_unknown_id ud else ut_id t);
          cost = (if ut_attributes t AND NON_JA_LOCALE \<noteq> 0 then 10000
                  else GetCostFromPosType (ud_user_pos ud) (ut_pos_type t) (ti_cost_penalty (ud_index ud)));
          attributes = (if ut_pos_type t = EMOTICON_POS then USER_DICTIONARY OR EMOTICON else USER_DICTIONARY);
          tok = (\<lambda>cost. \<lparr>t_key = ut_key t, t_value = ut_value t, t_cost = cost, t_lid = id, t_rid = id, t_attributes = attributes\<rparr>)
      in if ut_pos_type t = NO_POS \<and> (request = REQUEST_PREFIX \<or> request = REQUEST_EXACT)
         then map_option (\<lambda>key_length. tok (cost + (4 - int key_length) * 2000)) (AtLeastCharsLen 4 (ut_key t))
         else Some (tok cost))"

fun UserPredictiveLoop :: "user_dictionary \<Rightarrow> 's callback \<Rightarrow> UserToken list \<Rightarrow> 's \<Rightarrow> 's option" where
  "UserPredictiveLoop ud cb [] s = Some s"
| "UserPredictiveLoop ud cb (t # ts) s =
     (case OnKey cb (ut_key t) s of (r, s) \<Rightarrow>
        if r = TRAVERSE_DONE then Some s
        else if r = TRAVERSE_NEXT_KEY \<or> r = TRAVERSE_CULL then UserPredictiveLoop ud cb ts s
        else case OnActualKey cb (ut_key t) (ut_key t) 0 s of (r, s) \<Rightarrow>
          if r = TRAVERSE_DONE then Some s
          else do {
            token \<leftarrow> PopulateTokenFromUserPosToken ud t REQUEST_PREDICTIVE;
            case OnToken cb (ut_key t) (ut_key t) token s of (r, s) \<Rightarrow>
              if r = TRAVERSE_DONE then Some s else UserPredictiveLoop ud cb ts s })"

definition UserLookupPredictive :: "user_dictionary \<Rightarrow> bytes \<Rightarrow> 's callback \<Rightarrow> 's \<Rightarrow> 's option" where
  "UserLookupPredictive ud key cb s =
     (if key = [] then Some s
      else let tokens = ti_tokens (ud_index ud)
           in if tokens = [] then Some s
              else UserPredictiveLoop ud cb
                     (std_equal_range (\<lambda>t. take (length key) (ut_key t) < key) (\<lambda>t. key < take (length key) (ut_key t)) tokens) s)"

text \<open>\<^verbatim>\<open>TRAVERSE_CULL\<close> is a \<^verbatim>\<open>LOG(FATAL)\<close>.\<close>

fun UserPrefixLoop :: "user_dictionary \<Rightarrow> bytes \<Rightarrow> 's callback \<Rightarrow> UserToken list \<Rightarrow> 's \<Rightarrow> 's option" where
  "UserPrefixLoop ud key cb [] s = Some s"
| "UserPrefixLoop ud key cb (t # ts) s =
     (if key < ut_key t then Some s
      else if ut_pos_type t = SUGGESTION_ONLY then UserPrefixLoop ud key cb ts s
      else if \<not> starts_with key (ut_key t) then UserPrefixLoop ud key cb ts s
      else case OnKey cb (ut_key t) s of (r, s) \<Rightarrow>
        if r = TRAVERSE_DONE then Some s
        else if r = TRAVERSE_NEXT_KEY then UserPrefixLoop ud key cb ts s
        else if r = TRAVERSE_CULL then None
        else case OnActualKey cb (ut_key t) (ut_key t) 0 s of (r, s) \<Rightarrow>
          if r = TRAVERSE_DONE then Some s
          else do {
            token \<leftarrow> PopulateTokenFromUserPosToken ud t REQUEST_PREFIX;
            case OnToken cb (ut_key t) (ut_key t) token s of (r, s) \<Rightarrow>
              if r = TRAVERSE_DONE then Some s
              else if r = TRAVERSE_CULL then None
              else UserPrefixLoop ud key cb ts s })"

definition UserLookupPrefix :: "user_dictionary \<Rightarrow> bytes \<Rightarrow> 's callback \<Rightarrow> 's \<Rightarrow> 's option" where
  "UserLookupPrefix ud key cb s =
     (if key = [] then Some s
      else let tokens = ti_tokens (ud_index ud)
           in if tokens = [] then Some s
              else let first_char = hd (Utf8AsChars key)
                   in UserPrefixLoop ud key cb (drop (std_lower_bound (\<lambda>t. ut_key t < first_char) tokens) tokens) s)"

fun UserExactLoop :: "user_dictionary \<Rightarrow> bytes \<Rightarrow> 's callback \<Rightarrow> UserToken list \<Rightarrow> 's \<Rightarrow> 's option" where
  "UserExactLoop ud key cb [] s = Some s"
| "UserExactLoop ud key cb (t # ts) s =
     (if ut_pos_type t = SUGGESTION_ONLY then UserExactLoop ud key cb ts s
      else do {
        token \<leftarrow> PopulateTokenFromUserPosToken ud t REQUEST_EXACT;
        case OnToken cb key key token s of (r, s) \<Rightarrow>
          if r \<noteq> TRAVERSE_CONTINUE then Some s else UserExactLoop ud key cb ts s })"

definition EqualRangeOfKey :: "user_dictionary \<Rightarrow> bytes \<Rightarrow> UserToken list" where
  "EqualRangeOfKey ud key = std_equal_range (\<lambda>t. ut_key t < key) (\<lambda>t. key < ut_key t) (ti_tokens (ud_index ud))"

definition UserLookupExact :: "user_dictionary \<Rightarrow> bytes \<Rightarrow> 's callback \<Rightarrow> 's \<Rightarrow> 's option" where
  "UserLookupExact ud key cb s =
     (if key = [] \<or> ti_tokens (ud_index ud) = [] then Some s
      else let ts = EqualRangeOfKey ud key
           in if ts = [] then Some s
              else case OnKey cb key s of (r, s) \<Rightarrow>
                if r \<noteq> TRAVERSE_CONTINUE then Some s
                else case OnActualKey cb key key 0 s of (r, s) \<Rightarrow>
                  if r \<noteq> TRAVERSE_CONTINUE then Some s else UserExactLoop ud key cb ts s)"

text \<open>None: there is no comment.\<close>

definition UserLookupComment :: "user_dictionary \<Rightarrow> bytes \<Rightarrow> bytes \<Rightarrow> bytes option" where
  "UserLookupComment ud key value =
     (if key = [] then None
      else if ti_tokens (ud_index ud) = [] then None
      else map_option ut_comment (find (\<lambda>t. ut_value t = value \<and> ut_comment t \<noteq> []) (EqualRangeOfKey ud key)))"

definition UserIsSuppressedEntry :: "user_dictionary \<Rightarrow> bytes \<Rightarrow> bytes \<Rightarrow> bool" where
  "UserIsSuppressedEntry ud key value = SuppressionIsSuppressedEntry (ti_suppression (ud_index ud)) key value"

definition UserHasSuppressedEntries :: "user_dictionary \<Rightarrow> bool" where
  "UserHasSuppressedEntries ud \<longleftrightarrow> \<not> SuppressionIsEmpty (ti_suppression (ud_index ud))"

definition UserDictionaryLoad :: "user_env \<Rightarrow> (bool \<times> UserEntry) list \<Rightarrow> user_dictionary \<Rightarrow> bool \<times> user_dictionary" where
  "UserDictionaryLoad env es ud = (True, ud\<lparr>ud_index := TokensIndexLoad env es NewTokensIndex\<rparr>)"

section \<open>Binary search\<close>

lemma std_lower_bound_split:
  "xs = ys @ zs \<Longrightarrow> \<forall>y \<in> set ys. p y \<Longrightarrow> \<forall>z \<in> set zs. \<not> p z \<Longrightarrow> std_lower_bound p xs = length ys"
proof (induction p xs arbitrary: ys zs rule: std_lower_bound.induct)
  case (1 p xs)
  show ?case
  proof (cases "xs = []")
    case True
    then show ?thesis using "1.prems" by (simp add: std_lower_bound.simps)
  next
    case False
    let ?half = "length xs div 2"
    have h: "?half < length xs" using False by simp
    show ?thesis
    proof (cases "p (xs ! ?half)")
      case True
      then have less: "?half < length ys" using "1.prems" h
        by (metis add_diff_inverse_nat length_append nat_add_left_cancel_less nth_append nth_mem)
      have "std_lower_bound p (drop (?half + 1) xs) = length (drop (?half + 1) ys)"
      proof (rule "1.IH"(1) [OF False refl True])
        show "drop (?half + 1) xs = drop (?half + 1) ys @ zs" using "1.prems"(1) less by simp
      qed (use "1.prems" in_set_dropD in \<open>metis+\<close>)
      then show ?thesis using False True less by (simp add: std_lower_bound.simps [of p xs] Let_def)
    next
      case False2: False
      then have less: "length ys \<le> ?half" using "1.prems" h by (metis leI nth_append nth_mem)
      have "std_lower_bound p (take ?half xs) = length ys"
      proof (rule "1.IH"(2) [OF False refl False2])
        show "take ?half xs = ys @ take (?half - length ys) zs" using "1.prems"(1) less by simp
      qed (use "1.prems" in_set_takeD in \<open>metis+\<close>)
      then show ?thesis using False False2 by (simp add: std_lower_bound.simps [of p xs] Let_def)
    qed
  qed
qed

lemma filter_split:
  fixes f :: "'a \<Rightarrow> 'b :: linorder"
  assumes "sorted (map f xs)" "\<And>x y. f x \<le> f y \<Longrightarrow> P y \<Longrightarrow> P x"
  shows "xs = filter P xs @ filter (\<lambda>x. \<not> P x) xs"
  using assms(1)
proof (induction xs)
  case (Cons x xs)
  show ?case
  proof (cases "P x")
    case True
    then show ?thesis using Cons by simp
  next
    case False
    then have "\<forall>y \<in> set xs. \<not> P y" using Cons.prems assms(2) by fastforce
    then show ?thesis using False by (simp add: filter_False)
  qed
qed simp

lemma std_lower_bound_sorted:
  fixes f :: "'a \<Rightarrow> 'b :: linorder"
  assumes "sorted (map f xs)" "\<And>x y. f x \<le> f y \<Longrightarrow> P y \<Longrightarrow> P x"
  shows "drop (std_lower_bound P xs) xs = filter (\<lambda>x. \<not> P x) xs" "take (std_lower_bound P xs) xs = filter P xs"
proof -
  note s = filter_split [of f xs P, OF assms]
  have n: "std_lower_bound P xs = length (filter P xs)" by (rule std_lower_bound_split [OF s]) auto
  have "drop (length (filter P xs)) (filter P xs @ filter (\<lambda>x. \<not> P x) xs) = filter (\<lambda>x. \<not> P x) xs"
    "take (length (filter P xs)) (filter P xs @ filter (\<lambda>x. \<not> P x) xs) = filter P xs" by simp_all
  then show "drop (std_lower_bound P xs) xs = filter (\<lambda>x. \<not> P x) xs" "take (std_lower_bound P xs) xs = filter P xs"
    unfolding n using s by simp_all
qed

lemma std_equal_range_sorted:
  fixes f :: "'a \<Rightarrow> 'b :: linorder"
  assumes "sorted (map f xs)"
  shows "std_equal_range (\<lambda>x. f x < k) (\<lambda>x. k < f x) xs = filter (\<lambda>x. f x = k) xs"
proof -
  have down: "\<And>x y. f x \<le> f y \<Longrightarrow> f y < k \<Longrightarrow> f x < k" "\<And>x y. f x \<le> f y \<Longrightarrow> \<not> k < f y \<Longrightarrow> \<not> k < f x" by auto
  have len: "std_lower_bound (\<lambda>x. f x < k) xs \<le> length (filter (\<lambda>x. \<not> k < f x) xs)"
  proof -
    have s: "xs = filter (\<lambda>x. f x < k) xs @ filter (\<lambda>x. \<not> f x < k) xs" by (rule filter_split [of f]) (use assms down(1) in auto)
    have "std_lower_bound (\<lambda>x. f x < k) xs = length (filter (\<lambda>x. f x < k) xs)" by (rule std_lower_bound_split [OF s]) auto
    also have "\<dots> \<le> length (filter (\<lambda>x. \<not> k < f x) xs)" by (induction xs) auto
    finally show ?thesis .
  qed
  have "std_equal_range (\<lambda>x. f x < k) (\<lambda>x. k < f x) xs = drop (std_lower_bound (\<lambda>x. f x < k) xs) (filter (\<lambda>x. \<not> k < f x) xs)"
  proof -
    have "std_equal_range (\<lambda>x. f x < k) (\<lambda>x. k < f x) xs = drop (std_lower_bound (\<lambda>x. f x < k) xs) (take (std_lower_bound (\<lambda>x. \<not> k < f x) xs) xs)"
      unfolding std_equal_range_def Let_def drop_take ..
    moreover have "take (std_lower_bound (\<lambda>x. \<not> k < f x) xs) xs = filter (\<lambda>x. \<not> k < f x) xs"
      by (rule std_lower_bound_sorted(2) [of f]) (use assms in auto)
    ultimately show ?thesis by simp
  qed
  also have "filter (\<lambda>x. \<not> k < f x) xs = filter (\<lambda>x. f x < k) xs @ filter (\<lambda>x. f x = k) xs"
  proof -
    have "filter (\<lambda>x. \<not> k < f x) xs = filter (\<lambda>x. \<not> k < f x) (filter (\<lambda>x. f x < k) xs @ filter (\<lambda>x. \<not> f x < k) xs)"
      using filter_split [of f xs "\<lambda>x. f x < k", OF assms down(1)] by simp
    also have "\<dots> = filter (\<lambda>x. f x < k) xs @ filter (\<lambda>x. f x = k) xs"
      by (auto simp: intro!: arg_cong2 [where f = append] filter_cong)
    finally show ?thesis .
  qed
  also have "std_lower_bound (\<lambda>x. f x < k) xs = length (filter (\<lambda>x. f x < k) xs)"
    using std_lower_bound_split [OF filter_split [of f xs "\<lambda>x. f x < k", OF assms down(1)]] by auto
  finally show ?thesis by simp
qed

section \<open>The order of strings\<close>

lemma take_mono: "(a :: 'a :: linorder list) \<le> b \<Longrightarrow> take n a \<le> take n b"
proof (induction n arbitrary: a b)
  case (Suc n)
  then show ?case by (cases a; cases b) auto
qed simp

lemma take_le: "take n (a :: 'a :: linorder list) \<le> a"
  by (induction a arbitrary: n) (auto simp: take_Cons split: nat.split)

lemma starts_with_iff: "starts_with s t \<longleftrightarrow> take (length t) s = t"
  by (metis append_eq_conv_conj append_take_drop_id prefix_def starts_with_def)

lemma starts_with_le: "starts_with s t \<Longrightarrow> t \<le> s" for s :: "'a :: linorder list"
  using take_le [of "length t" s] by (simp add: starts_with_iff)

section \<open>The lookups find the matching words\<close>

lemma UserPrefixLoop_filter:
  "sorted (map ut_key ts) \<Longrightarrow>
     UserPrefixLoop ud key cb ts s = UserPrefixLoop ud key cb (filter (\<lambda>t. ut_pos_type t \<noteq> SUGGESTION_ONLY \<and> starts_with key (ut_key t)) ts) s"
proof (induction ts arbitrary: s)
  case (Cons t ts)
  have s: "sorted (map ut_key ts)" using Cons.prems by simp
  note IH = Cons.IH [OF s]
  show ?case
  proof (cases "key < ut_key t")
    case True
    then have "\<forall>u \<in> set (t # ts). key < ut_key u" using Cons.prems by auto
    then have "\<forall>u \<in> set (t # ts). \<not> starts_with key (ut_key u)" using starts_with_le leD by blast
    then have "filter (\<lambda>t. ut_pos_type t \<noteq> SUGGESTION_ONLY \<and> starts_with key (ut_key t)) (t # ts) = []" by (simp add: filter_empty_conv)
    then show ?thesis using True by simp
  next
    case False
    show ?thesis
    proof (cases "ut_pos_type t \<noteq> SUGGESTION_ONLY \<and> starts_with key (ut_key t)")
      case True
      then show ?thesis using IH False by (simp only: filter.simps if_P if_not_P UserPrefixLoop.simps simp_thms)
    next
      case nq: False
      then show ?thesis using IH False by auto
    qed
  qed
qed simp

lemma hd_chars_prefix:
  assumes "key \<noteq> []"
  shows "take (length (hd (Utf8AsChars key))) key = hd (Utf8AsChars key)"
proof -
  have c: "concat (Utf8AsChars key) = key" by (rule concat_Utf8AsChars)
  then have "Utf8AsChars key \<noteq> []" using assms by auto
  then obtain x xs where "Utf8AsChars key = x # xs" by (cases "Utf8AsChars key") auto
  then show ?thesis using c by (metis append_eq_conv_conj concat.simps(2) list.sel(1))
qed

lemma loaded_sorted:
  assumes "\<forall>(canceled, e) \<in> set es. \<not> canceled"
  shows "sorted (map ut_key (ti_tokens (TokensIndexLoad env es ti)))"
proof -
  have "\<not> fst (LoadEntries env es st)" for st using assms by (induction es arbitrary: st) (auto simp del: prod.case_distrib split: prod.splits)
  then obtain ti' where l: "LoadEntries env es ({}, ti\<lparr>ti_tokens := []\<rparr>) = (False, ti')"
    by (metis prod.exhaust_sel)
  let ?order = "\<lambda>t. (ut_key t, ut_id t, ul_tie env t)"
  have "sorted (map ?order (sort_key ?order (ti_tokens ti')))" by (rule sorted_sort_key)
  then have "sorted (map ut_key (sort_key ?order (ti_tokens ti')))"
    unfolding sorted_map by (rule sorted_wrt_mono_rel [rotated]) (auto simp: less_eq_prod_def)
  then show ?thesis by (simp add: TokensIndexLoad_def l)
qed

text \<open>C10: The lookups of a loaded user dictionary, by binary search, find exactly the words that match, in the order of the index: the
  predictive lookup those whose key begins with the given key, the prefix lookup those whose key begins the given key and that are not for
  suggestions only, the exact lookup and the comments those with the key.\<close>
theorem user_lookups_find_the_matching_words:
  assumes "\<forall>(canceled, e) \<in> set es. \<not> canceled" "ud = snd (UserDictionaryLoad env es ud0)" "key \<noteq> []"
    and "\<forall>t \<in> set (ti_tokens (ud_index ud)). starts_with key (ut_key t) \<longrightarrow> length (hd (Utf8AsChars key)) \<le> length (ut_key t)"
  shows "UserLookupPredictive ud key cb s = UserPredictiveLoop ud cb (filter (\<lambda>t. starts_with (ut_key t) key) (ti_tokens (ud_index ud))) s \<and>
    UserLookupPrefix ud key cb s =
      UserPrefixLoop ud key cb (filter (\<lambda>t. ut_pos_type t \<noteq> SUGGESTION_ONLY \<and> starts_with key (ut_key t)) (ti_tokens (ud_index ud))) s \<and>
    EqualRangeOfKey ud key = filter (\<lambda>t. ut_key t = key) (ti_tokens (ud_index ud))"
proof -
  let ?ts = "ti_tokens (ud_index ud)" and ?c = "hd (Utf8AsChars key)"
  have s: "sorted (map ut_key ?ts)" using loaded_sorted [OF assms(1)] by (simp add: assms(2) UserDictionaryLoad_def)
  have st: "sorted (map (\<lambda>t. take (length key) (ut_key t)) ?ts)"
    using s unfolding sorted_map by (rule sorted_wrt_mono_rel [rotated]) (simp add: take_mono)
  have "UserLookupPredictive ud key cb s = UserPredictiveLoop ud cb (filter (\<lambda>t. starts_with (ut_key t) key) ?ts) s" for s
    using assms(3) by (simp add: UserLookupPredictive_def Let_def std_equal_range_sorted [OF st] starts_with_iff)
  moreover have "UserLookupPrefix ud key cb s =
      UserPrefixLoop ud key cb (filter (\<lambda>t. ut_pos_type t \<noteq> SUGGESTION_ONLY \<and> starts_with key (ut_key t)) ?ts) s" for s
  proof -
    let ?Q = "\<lambda>t. ut_pos_type t \<noteq> SUGGESTION_ONLY \<and> starts_with key (ut_key t)"
    have d: "drop (std_lower_bound (\<lambda>t. ut_key t < ?c) ?ts) ?ts = filter (\<lambda>t. \<not> ut_key t < ?c) ?ts"
      by (rule std_lower_bound_sorted(1) [of ut_key, OF s]) auto
    have "\<not> ut_key t < ?c" if "t \<in> set ?ts" "starts_with key (ut_key t)" for t
    proof -
      have len: "length ?c \<le> length (ut_key t)" using assms(4) that by blast
      have "take (length ?c) (ut_key t) = take (length ?c) (take (length (ut_key t)) key)"
        using that(2) by (simp add: starts_with_iff)
      also have "\<dots> = ?c" using len hd_chars_prefix [OF assms(3)] by (simp add: min_def)
      finally have "?c = take (length ?c) (ut_key t)" ..
      then show ?thesis using take_le [of "length ?c" "ut_key t"] by (metis leD)
    qed
    then have "filter ?Q (filter (\<lambda>t. \<not> ut_key t < ?c) ?ts) = filter ?Q ?ts" by (auto intro!: filter_cong)
    moreover have "sorted (map ut_key (filter (\<lambda>t. \<not> ut_key t < ?c) ?ts))" using s by (simp add: sorted_filter)
    ultimately show ?thesis using assms(3) UserPrefixLoop_filter [of "filter (\<lambda>t. \<not> ut_key t < ?c) ?ts" ud key cb s]
      by (simp add: UserLookupPrefix_def Let_def d)
  qed
  moreover have "EqualRangeOfKey ud key = filter (\<lambda>t. ut_key t = key) ?ts"
    unfolding EqualRangeOfKey_def by (rule std_equal_range_sorted [OF s])
  ultimately show ?thesis by blast
qed

definition example_user_env :: user_env where
  "example_user_env =
     \<lparr>ul_japanese = \<lparr>jc_FullWidthAsciiToHalfWidthAscii = id, jc_HalfWidthKatakanaToFullWidthKatakana = id,
        jc_KatakanaToHiragana = id, jc_NormalizeVoicedSoundMark = id\<rparr>,
      ul_CityFingerprint = (\<lambda>s. of_nat (length s)), ul_user_pos = \<lparr>up_forms = (\<lambda>_. [([], [], 5)]), up_cost = (\<lambda>_. 1000)\<rparr>,
      ul_penalty = (\<lambda>n. 300 * int n), ul_tie = (\<lambda>t. length (ut_value t))\<rparr>"

definition example_user_entries :: "(bool \<times> UserEntry) list" where
  "example_user_entries = map (Pair False)
     [\<lparr>ue_key = [0x61, 0x62], ue_value = [0x58], ue_comment = [0x20], ue_pos = Some 1\<rparr>,
      \<lparr>ue_key = [0x61], ue_value = [0x59], ue_comment = [], ue_pos = Some 1\<rparr>,
      \<lparr>ue_key = [0x63, 0x64, 0x65], ue_value = [0x5A], ue_comment = [], ue_pos = Some 44\<rparr>]"

definition example_user_dictionary :: user_dictionary where
  "example_user_dictionary = snd (UserDictionaryLoad example_user_env example_user_entries
     \<lparr>ud_index = NewTokensIndex, ud_user_pos = ul_user_pos example_user_env, ud_unknown_id = 9\<rparr>)"

lemma example_user_tokens:
  "map ut_key (ti_tokens (ud_index example_user_dictionary)) = [[0x61], [0x61, 0x62]]"
  "UserIsSuppressedEntry example_user_dictionary [0x63, 0x64, 0x65] [0x5A]"
  by code_simp+

definition example_callback :: "bytes list callback" where
  "example_callback =
     \<lparr>OnKey = (\<lambda>key s. (TRAVERSE_CONTINUE, s)), OnActualKey = (\<lambda>key actual_key n s. (TRAVERSE_CONTINUE, s)),
      OnToken = (\<lambda>key actual_key t s. (TRAVERSE_CONTINUE, s @ [t_value t])), IsKanaModifierInsensitiveConversion = False\<rparr>"

lemma user_lookups_find_the_matching_words_witness:
  "UserLookupPrefix example_user_dictionary [0x61, 0x62] example_callback [] =
     UserPrefixLoop example_user_dictionary [0x61, 0x62] example_callback
       (filter (\<lambda>t. ut_pos_type t \<noteq> SUGGESTION_ONLY \<and> starts_with [0x61, 0x62] (ut_key t)) (ti_tokens (ud_index example_user_dictionary))) []"
proof -
  have c: "hd (Utf8AsChars [0x61, 0x62]) = [0x61]" by code_simp
  have "ut_key ` set (ti_tokens (ud_index example_user_dictionary)) = {[0x61], [0x61, 0x62]}"
    using arg_cong [OF example_user_tokens(1), of set] by simp
  then have "\<forall>t \<in> set (ti_tokens (ud_index example_user_dictionary)). ut_key t = [0x61] \<or> ut_key t = [0x61, 0x62]" by blast
  then have "\<forall>t \<in> set (ti_tokens (ud_index example_user_dictionary)). starts_with [0x61, 0x62] (ut_key t) \<longrightarrow>
    length (hd (Utf8AsChars [0x61, 0x62])) \<le> length (ut_key t)" unfolding c by auto
  then show ?thesis
    using user_lookups_find_the_matching_words [of example_user_entries example_user_dictionary example_user_env
      "\<lparr>ud_index = NewTokensIndex, ud_user_pos = ul_user_pos example_user_env, ud_unknown_id = 9\<rparr>" "[0x61, 0x62]" example_callback "[]"]
    by (simp add: example_user_dictionary_def [symmetric]) (simp add: example_user_entries_def)
qed

end
