(* ===== verification/UserReload.thy ===== *)
theory UserReload
  imports UserDictionary "HOL-Library.Multiset"
begin

text \<open>
  The threads of the user's dictionary, \<^verbatim>\<open>src/src/dictionary/user_dictionary.cc\<close>, as step relations: the reloader, which loses no
  change of the file that a call has seen, and the importer, which can leave data in its queue.
\<close>

section \<open>The reloader\<close>

text \<open>
  \<^verbatim>\<open>UserDictionaryReloader\<close>, shared by the threads that call \<^verbatim>\<open>MaybeStartReload\<close> and the thread that loads. A step is one access to
  the shared atomics, the file or the task. A call has noted the modification time of the file, has exchanged it and found it
  changed, or has found the reloader idle and schedules the thread.
\<close>

datatype reload_state = kIdle | kRunning | kRunningWithPending

datatype reload_call = Noted nat nat | Exchanged | Scheduling

datatype reload_thread = Stopped | AtLoop | Entering | Loading | Loaded | Canceled

text \<open>
  The file has a modification time, of which nothing is assumed, and contents numbered by \<open>rl_file\<close>. The contents in the
  dictionary are those numbered \<open>rl_loaded\<close>. Not in the code are \<open>rl_tried\<close> and \<open>rl_failed\<close>, the contents of the thread's last
  attempt to load and whether it failed, and \<open>rl_seen\<close>, the latest contents whose time a call has found to be another than the
  one exchanged before.
\<close>

record reloader =
  rl_modified_at :: nat
  rl_state :: reload_state
  rl_canceled :: bool
  rl_calls :: "reload_call multiset"
  rl_thread :: reload_thread
  rl_time :: nat
  rl_file :: nat
  rl_loaded :: nat
  rl_tried :: nat
  rl_failed :: bool
  rl_seen :: nat

definition NewReloader :: "nat \<Rightarrow> nat \<Rightarrow> reloader" where
  "NewReloader time file =
     \<lparr>rl_modified_at = 0, rl_state = kIdle, rl_canceled = False, rl_calls = {#}, rl_thread = Stopped, rl_time = time, rl_file = file,
      rl_loaded = 0, rl_tried = 0, rl_failed = False, rl_seen = 0\<rparr>"

text \<open>A call that cannot read the time of the file returns without a step.\<close>

inductive reload_step :: "reloader \<Rightarrow> reloader \<Rightarrow> bool" where
  file_changes: "reload_step r (r\<lparr>rl_time := time, rl_file := Suc (rl_file r)\<rparr>)"
| cancel: "reload_step r (r\<lparr>rl_canceled := True\<rparr>)"
| call_notes: "reload_step r (r\<lparr>rl_calls := add_mset (Noted (rl_time r) (rl_file r)) (rl_calls r)\<rparr>)"
| call_unchanged: "Noted m v \<in># rl_calls r \<Longrightarrow> m = rl_modified_at r \<Longrightarrow>
    reload_step r (r\<lparr>rl_calls := rl_calls r - {#Noted m v#}\<rparr>)"
| call_changed: "Noted m v \<in># rl_calls r \<Longrightarrow> m \<noteq> rl_modified_at r \<Longrightarrow>
    reload_step r (r\<lparr>rl_modified_at := m, rl_seen := max (rl_seen r) v, rl_calls := add_mset Exchanged (rl_calls r - {#Noted m v#})\<rparr>)"
| call_pending: "Exchanged \<in># rl_calls r \<Longrightarrow> rl_state r \<noteq> kIdle \<Longrightarrow>
    reload_step r (r\<lparr>rl_state := kRunningWithPending, rl_calls := rl_calls r - {#Exchanged#}\<rparr>)"
| call_schedules: "Exchanged \<in># rl_calls r \<Longrightarrow> rl_state r = kIdle \<Longrightarrow>
    reload_step r (r\<lparr>rl_state := kRunningWithPending, rl_calls := add_mset Scheduling (rl_calls r - {#Exchanged#})\<rparr>)"
| call_scheduled: "Scheduling \<in># rl_calls r \<Longrightarrow> rl_thread r = Stopped \<Longrightarrow>
    reload_step r (r\<lparr>rl_thread := AtLoop, rl_calls := rl_calls r - {#Scheduling#}\<rparr>)"
| thread_enters: "rl_thread r = AtLoop \<Longrightarrow> \<not> rl_canceled r \<Longrightarrow> reload_step r (r\<lparr>rl_thread := Entering\<rparr>)"
| thread_runs: "rl_thread r = Entering \<Longrightarrow> reload_step r (r\<lparr>rl_state := kRunning, rl_thread := Loading\<rparr>)"
| thread_loads: "rl_thread r = Loading \<Longrightarrow>
    reload_step r (r\<lparr>rl_loaded := rl_file r, rl_tried := rl_file r, rl_failed := False, rl_thread := Loaded\<rparr>)"
| thread_load_fails: "rl_thread r = Loading \<Longrightarrow> reload_step r (r\<lparr>rl_tried := rl_file r, rl_failed := True, rl_thread := Loaded\<rparr>)"
| thread_done: "rl_thread r = Loaded \<Longrightarrow> rl_state r = kRunning \<Longrightarrow> reload_step r (r\<lparr>rl_state := kIdle, rl_thread := Stopped\<rparr>)"
| thread_again: "rl_thread r = Loaded \<Longrightarrow> rl_state r \<noteq> kRunning \<Longrightarrow> reload_step r (r\<lparr>rl_thread := AtLoop\<rparr>)"
| thread_canceled: "rl_thread r = AtLoop \<Longrightarrow> rl_canceled r \<Longrightarrow> reload_step r (r\<lparr>rl_thread := Canceled\<rparr>)"
| thread_stops: "rl_thread r = Canceled \<Longrightarrow> reload_step r (r\<lparr>rl_state := kIdle, rl_thread := Stopped\<rparr>)"

inductive_cases reload_stepE: "reload_step r r'"

text \<open>
  Unless the dictionary is being destroyed: a running or scheduled thread goes with every state but idle, and the thread has
  tried to load what the calls have seen, or a call or the state still asks for another round, or the thread has yet to read.
\<close>

definition reload_inv :: "reloader \<Rightarrow> bool" where
  "reload_inv r \<longleftrightarrow>
     (\<forall>m v. Noted m v \<in># rl_calls r \<longrightarrow> v \<le> rl_file r) \<and> rl_seen r \<le> rl_file r \<and>
     rl_loaded r \<le> rl_tried r \<and> rl_tried r \<le> rl_file r \<and> (rl_failed r \<or> rl_loaded r = rl_tried r) \<and>
     (\<not> rl_canceled r \<longrightarrow>
        rl_thread r \<noteq> Canceled \<and>
        count (rl_calls r) Scheduling + (if rl_thread r = Stopped then 0 else 1) = (if rl_state r = kIdle then 0 else 1) \<and>
        (rl_seen r \<le> rl_tried r \<or> Exchanged \<in># rl_calls r \<or> rl_state r = kRunningWithPending \<or> rl_thread r = Loading))"

lemma in_minus_other: "x \<noteq> y \<Longrightarrow> x \<in># M - {#y#} \<longleftrightarrow> x \<in># M"
  unfolding count_greater_zero_iff [symmetric] by simp

lemma reload_inv_step: "reload_step r r' \<Longrightarrow> reload_inv r \<Longrightarrow> reload_inv r'"
proof (induction rule: reload_step.induct)
  case (file_changes r m)
  then show ?case by (fastforce simp: reload_inv_def)
next
  case (call_unchanged m v r)
  then show ?case by (auto simp: reload_inv_def in_minus_other dest: in_diffD)
next
  case (call_changed m v r)
  then show ?case by (auto simp: reload_inv_def dest: in_diffD)
next
  case (call_pending r)
  then show ?case by (auto simp: reload_inv_def dest: in_diffD split: if_splits)
next
  case (call_schedules r)
  then show ?case by (auto simp: reload_inv_def dest: in_diffD split: if_splits)
next
  case (call_scheduled r)
  then obtain n where "count (rl_calls r) Scheduling = Suc n" by (metis count_eq_zero_iff not0_implies_Suc)
  with call_scheduled show ?case by (auto simp: reload_inv_def in_minus_other dest: in_diffD split: if_splits)
qed (auto simp: reload_inv_def split: if_splits)

lemma reload_inv_reachable: "reload_step\<^sup>*\<^sup>* (NewReloader time file) r \<Longrightarrow> reload_inv r"
proof (induction rule: rtranclp_induct)
  case base
  show ?case by (simp add: reload_inv_def NewReloader_def)
next
  case (step r r')
  then show ?case using reload_inv_step by blast
qed

text \<open>C11: No reload is lost: in every interleaving, when no call of \<^verbatim>\<open>MaybeStartReload\<close> is under way and the thread has stopped, the
  state is idle and the thread has tried to load the file at or after every change that a call has seen, unless the dictionary is
  being destroyed. When the last attempt did not fail the dictionary has what it read. A failed attempt is not repeated.\<close>
theorem no_reload_is_lost:
  assumes "reload_step\<^sup>*\<^sup>* (NewReloader time file) r" "\<not> rl_canceled r" "rl_calls r = {#}" "rl_thread r = Stopped"
  shows "rl_state r = kIdle \<and> rl_seen r \<le> rl_tried r \<and> (rl_failed r \<or> rl_loaded r = rl_tried r)"
  using reload_inv_reachable [OF assms(1)] assms(2-4) by (auto simp: reload_inv_def split: if_splits)

text \<open>A run up to the load of the first contents, which succeeds or fails.\<close>

definition first_load :: "bool \<Rightarrow> reloader" where
  "first_load ok = (NewReloader 7 1)\<lparr>rl_modified_at := 7, rl_seen := 1, rl_tried := 1, rl_failed := \<not> ok, rl_loaded := (if ok then 1 else 0)\<rparr>"

lemma first_load_reachable: "reload_step\<^sup>*\<^sup>* (NewReloader 7 1) (first_load ok)"
proof -
  let ?r0 = "NewReloader 7 1"
  let ?r1 = "?r0\<lparr>rl_calls := {#Noted 7 1#}\<rparr>"
  let ?s = "?r0\<lparr>rl_modified_at := 7, rl_seen := 1\<rparr>"
  let ?r2 = "?s\<lparr>rl_calls := {#Exchanged#}\<rparr>"
  let ?r3 = "?s\<lparr>rl_state := kRunningWithPending, rl_calls := {#Scheduling#}\<rparr>"
  let ?r4 = "?s\<lparr>rl_state := kRunningWithPending, rl_thread := AtLoop\<rparr>"
  let ?r5 = "?s\<lparr>rl_state := kRunningWithPending, rl_thread := Entering\<rparr>"
  let ?r6 = "?s\<lparr>rl_state := kRunning, rl_thread := Loading\<rparr>"
  let ?r7 = "(first_load ok)\<lparr>rl_state := kRunning, rl_thread := Loaded\<rparr>"
  have "reload_step ?r0 ?r1" using call_notes [of ?r0] by (simp add: NewReloader_def)
  moreover have "reload_step ?r1 ?r2" using call_changed [of 7 1 ?r1] by (simp add: NewReloader_def)
  moreover have "reload_step ?r2 ?r3" using call_schedules [of ?r2] by (simp add: NewReloader_def)
  moreover have "reload_step ?r3 ?r4" using call_scheduled [of ?r3] by (simp add: NewReloader_def)
  moreover have "reload_step ?r4 ?r5" using thread_enters [of ?r4] by (simp add: NewReloader_def)
  moreover have "reload_step ?r5 ?r6" using thread_runs [of ?r5] by (simp add: NewReloader_def)
  moreover have "reload_step ?r6 ?r7"
    using thread_loads [of ?r6] thread_load_fails [of ?r6] by (cases ok) (simp_all add: NewReloader_def first_load_def)
  moreover have "reload_step ?r7 (first_load ok)" using thread_done [of ?r7] by (simp add: NewReloader_def first_load_def)
  ultimately show ?thesis by (meson converse_rtranclp_into_rtranclp rtranclp.rtrancl_refl)
qed

lemma no_reload_is_lost_witness:
  "rl_state (first_load True) = kIdle \<and> rl_seen (first_load True) \<le> rl_tried (first_load True) \<and>
     (rl_failed (first_load True) \<or> rl_loaded (first_load True) = rl_tried (first_load True))"
  by (rule no_reload_is_lost [OF first_load_reachable]) (simp_all add: first_load_def NewReloader_def)

text \<open>
  The time of the file has been exchanged before the load. Once the thread has stopped, no call starts another before the file
  changes, whether the load succeeded or not.
\<close>

definition settled :: "reloader \<Rightarrow> bool" where
  "settled r \<longleftrightarrow> rl_modified_at r = rl_time r \<and> rl_thread r = Stopped \<and>
     (\<forall>c. c \<in># rl_calls r \<longrightarrow> (\<exists>v. c = Noted (rl_time r) v))"

lemma settled_step:
  "reload_step r r' \<Longrightarrow> settled r \<Longrightarrow> rl_file r' = rl_file r \<Longrightarrow>
     settled r' \<and> rl_loaded r' = rl_loaded r \<and> rl_failed r' = rl_failed r"
  by (induction rule: reload_step.induct) (auto simp: settled_def dest: in_diffD)

lemma file_grows: "reload_step r r' \<Longrightarrow> rl_file r \<le> rl_file r'"
  by (induction rule: reload_step.induct) auto

lemma failed_load_is_not_retried:
  assumes "reload_step\<^sup>*\<^sup>* (first_load False) r" "rl_file r = rl_file (first_load False)"
  shows "rl_failed r \<and> rl_loaded r = 0 \<and> rl_thread r = Stopped"
proof -
  have "rl_file (first_load False) \<le> rl_file r \<and>
      (rl_file r = rl_file (first_load False) \<longrightarrow> settled r \<and> rl_loaded r = 0 \<and> rl_failed r)"
    using assms(1)
  proof (induction rule: rtranclp_induct)
    case base
    show ?case by (simp add: settled_def first_load_def NewReloader_def)
  next
    case (step r r')
    then show ?case using settled_step [OF step(2)] file_grows [OF step(2)] by auto
  qed
  with assms(2) show ?thesis by (simp add: settled_def)
qed

section \<open>The importer\<close>

text \<open>
  \<^verbatim>\<open>AsyncUserDictionaryImporter\<close>: a call has put its data into the queue, or has found no task running and schedules one. The
  thread looks for data, takes it out, saves, and at the end of its loop is over before the task reports so.
\<close>

datatype import_call = Pushed | ToSchedule

datatype import_thread = ImStopped | CheckPending | Popping | Saving | LoopOver

record 'd importer =
  im_queue :: "'d list"
  im_calls :: "import_call multiset"
  im_thread :: import_thread
  im_imported :: "'d list"

definition NewImporter :: "'d importer" where
  "NewImporter = \<lparr>im_queue = [], im_calls = {#}, im_thread = ImStopped, im_imported = []\<rparr>"

inductive import_step :: "'d importer \<Rightarrow> 'd importer \<Rightarrow> bool" where
  call_pushes: "import_step m (m\<lparr>im_queue := im_queue m @ [d], im_calls := add_mset Pushed (im_calls m)\<rparr>)"
| call_finds_task: "Pushed \<in># im_calls m \<Longrightarrow> im_thread m \<noteq> ImStopped \<Longrightarrow>
    import_step m (m\<lparr>im_calls := im_calls m - {#Pushed#}\<rparr>)"
| call_finds_none: "Pushed \<in># im_calls m \<Longrightarrow> im_thread m = ImStopped \<Longrightarrow>
    import_step m (m\<lparr>im_calls := add_mset ToSchedule (im_calls m - {#Pushed#})\<rparr>)"
| call_starts_task: "ToSchedule \<in># im_calls m \<Longrightarrow> im_thread m = ImStopped \<Longrightarrow>
    import_step m (m\<lparr>im_calls := im_calls m - {#ToSchedule#}, im_thread := CheckPending\<rparr>)"
| thread_pending: "im_thread m = CheckPending \<Longrightarrow> im_queue m \<noteq> [] \<Longrightarrow> import_step m (m\<lparr>im_thread := Popping\<rparr>)"
| thread_nothing: "im_thread m = CheckPending \<Longrightarrow> im_queue m = [] \<Longrightarrow> import_step m (m\<lparr>im_thread := LoopOver\<rparr>)"
| thread_pops: "im_thread m = Popping \<Longrightarrow> im_queue m = d # q \<Longrightarrow>
    import_step m (m\<lparr>im_queue := q, im_imported := im_imported m @ [d]\<rparr>)"
| thread_empty: "im_thread m = Popping \<Longrightarrow> im_queue m = [] \<Longrightarrow> import_step m (m\<lparr>im_thread := Saving\<rparr>)"
| thread_saves: "im_thread m = Saving \<Longrightarrow> import_step m (m\<lparr>im_thread := CheckPending\<rparr>)"
| task_reports: "im_thread m = LoopOver \<Longrightarrow> import_step m (m\<lparr>im_thread := ImStopped\<rparr>)"

text \<open>C12: An import can be left in the queue: when it comes after the thread has found the queue empty and before the task reports
  that it is over, \<^verbatim>\<open>Import\<close> sees a running task and schedules none; the thread stops, no call is under way and the data waits for the
  next call.\<close>
theorem import_can_be_left:
  "import_step\<^sup>*\<^sup>* NewImporter \<lparr>im_queue = [d2], im_calls = {#}, im_thread = ImStopped, im_imported = [d1]\<rparr>"
proof -
  let ?m = "\<lambda>q c t i. \<lparr>im_queue = q, im_calls = c, im_thread = t, im_imported = i\<rparr>"
  have "import_step NewImporter (?m [d1] {#Pushed#} ImStopped [])"
    using call_pushes [of NewImporter d1] by (simp add: NewImporter_def)
  moreover have "import_step (?m [d1] {#Pushed#} ImStopped []) (?m [d1] {#ToSchedule#} ImStopped [])"
    using call_finds_none [of "?m [d1] {#Pushed#} ImStopped []"] by simp
  moreover have "import_step (?m [d1] {#ToSchedule#} ImStopped []) (?m [d1] {#} CheckPending [])"
    using call_starts_task [of "?m [d1] {#ToSchedule#} ImStopped []"] by simp
  moreover have "import_step (?m [d1] {#} CheckPending []) (?m [d1] {#} Popping [])"
    using thread_pending [of "?m [d1] {#} CheckPending []"] by simp
  moreover have "import_step (?m [d1] {#} Popping []) (?m [] {#} Popping [d1])"
    using thread_pops [of "?m [d1] {#} Popping []" d1 "[]"] by simp
  moreover have "import_step (?m [] {#} Popping [d1]) (?m [] {#} Saving [d1])"
    using thread_empty [of "?m [] {#} Popping [d1]"] by simp
  moreover have "import_step (?m [] {#} Saving [d1]) (?m [] {#} CheckPending [d1])"
    using thread_saves [of "?m [] {#} Saving [d1]"] by simp
  moreover have "import_step (?m [] {#} CheckPending [d1]) (?m [] {#} LoopOver [d1])"
    using thread_nothing [of "?m [] {#} CheckPending [d1]"] by simp
  moreover have "import_step (?m [] {#} LoopOver [d1]) (?m [d2] {#Pushed#} LoopOver [d1])"
    using call_pushes [of "?m [] {#} LoopOver [d1]" d2] by simp
  moreover have "import_step (?m [d2] {#Pushed#} LoopOver [d1]) (?m [d2] {#} LoopOver [d1])"
    using call_finds_task [of "?m [d2] {#Pushed#} LoopOver [d1]"] by simp
  moreover have "import_step (?m [d2] {#} LoopOver [d1]) (?m [d2] {#} ImStopped [d1])"
    using task_reports [of "?m [d2] {#} LoopOver [d1]"] by simp
  ultimately show ?thesis by (meson converse_rtranclp_into_rtranclp rtranclp.rtrancl_refl)
qed

end
