(* ===== verification/Spec2Isabelle.thy ===== *)
theory Spec2Isabelle
  imports DictProps CandList Composition Viterbi KeyCorrector UserReload
begin

text \<open>
  A verification development for the input method Mozkey (a fork of Mozc), the C++ sources under
  \<^verbatim>\<open>src/src\<close>.

  The program turns key strokes into Japanese text. The composer collects typed characters into a
  composition and converts them by a table of rules (Romaji to Kana); the converter looks the
  reading up in a dictionary and offers candidates; the session lets the user move in the list of
  candidates. The dictionary is a compact binary image made at build time.

  Parts and theories, in the order of dependence:

  \<^item> \<^verbatim>\<open>Prelude\<close>: bytes, code points, little-endian loads and bit counts (\<^verbatim>\<open>base/bits.h\<close>), searches in
    strings, and facts on words that the components share.
  \<^item> \<^verbatim>\<open>Utf8\<close>: \<^verbatim>\<open>base/util.cc\<close>, the lenient UTF-8 decoder, the encoder, the validity check, character
    counts and substrings. Round trips, and the range where encoder and decoder disagree.
  \<^item> \<^verbatim>\<open>Unicode\<close>: \<^verbatim>\<open>base/strings/unicode.cc\<close>, \<^verbatim>\<open>base/strings/internal/utf8_internal.cc\<close> and letter case:
    the strict decoder, its agreement with the lenient one, and \<^verbatim>\<open>LowerString\<close>.
  \<^item> \<^verbatim>\<open>ScriptTypes\<close>: the scripts and widths of characters and strings in \<^verbatim>\<open>base/util.cc\<close>.
  \<^item> \<^verbatim>\<open>Codec\<close>: \<^verbatim>\<open>dictionary/system/codec.cc\<close>, the codecs of keys, values and tokens, and
    \<^verbatim>\<open>token_decode_iterator.h\<close>. Round trips on every branch.
  \<^item> \<^verbatim>\<open>SystemDictionary\<close>: \<^verbatim>\<open>dictionary/system/system_dictionary_builder.cc\<close>: grouping, sorting and typing of
    the tokens. The builder keeps the tokens, and the iterator reads back what it encodes.
  \<^item> \<^verbatim>\<open>BitVector\<close>: \<^verbatim>\<open>storage/louds\<close>, bit streams and the succinct bit vector under the dictionary's tries:
    rank and select agree with the list of bits.
  \<^item> \<^verbatim>\<open>Louds\<close>, \<^verbatim>\<open>LoudsBuild\<close>, \<^verbatim>\<open>LoudsTrie\<close>: the LOUDS tree, the trie and its builder: a trie opened from the image
    of its builder is the set of words, with the ids of the builder. \<^verbatim>\<open>BitArray\<close>: the arrays of variable-length
    elements.
  \<^item> \<^verbatim>\<open>DictFile\<close>: \<^verbatim>\<open>base/hash.cc\<close> and \<^verbatim>\<open>dictionary/file\<close>: the file of named sections.
  \<^item> \<^verbatim>\<open>Dictionary\<close>: \<^verbatim>\<open>dictionary/system/system_dictionary.cc\<close>, the dictionary at run time, and the images that the
    builder writes. \<^verbatim>\<open>DictBuild\<close>, \<^verbatim>\<open>DictLookup\<close>, \<^verbatim>\<open>DictPredict\<close>, \<^verbatim>\<open>DictReverse\<close>: the lemmas on building and opening,
    on the exact and the prefix lookup, on the breadth-first search of the predictive lookup and on the
    reverse lookup. \<^verbatim>\<open>DictProps\<close>: the whole chain; a dictionary made from a list of tokens answers the lookups as the map
    from the keys to their tokens does.
  \<^item> \<^verbatim>\<open>KeyTrie\<close>: \<^verbatim>\<open>base/container/trie.h\<close>, the trie of rules, as a map from character strings; its
    interface is the locale \<open>prefix_store\<close>.
  \<^item> \<^verbatim>\<open>SpecialKey\<close>, \<^verbatim>\<open>RomajiTable\<close>: \<^verbatim>\<open>composer/special_key.cc\<close> and \<^verbatim>\<open>composer/table.cc\<close>: special keys, rules,
    the check for looping rules, the loader, the initialisation and the table cache.
  \<^item> \<^verbatim>\<open>CharChunk\<close>, \<^verbatim>\<open>Typing\<close>: \<^verbatim>\<open>composer/char_chunk.cc\<close>, \<^verbatim>\<open>composition_input.cc\<close> and \<^verbatim>\<open>transliterators.cc\<close>;
    adding input to a chunk, when it returns and when it does not, and what it keeps.
  \<^item> \<^verbatim>\<open>Composition\<close>: \<^verbatim>\<open>composer/composition.cc\<close>: the list of chunks, insertion, deletion, positions and
    display modes.
  \<^item> \<^verbatim>\<open>CandList\<close>: \<^verbatim>\<open>engine/candidate_list.cc\<close>: the list of candidates with its nested sublists, the
    moves of the focus and the pages.

  \<^item> \<^verbatim>\<open>Connector\<close>, \<^verbatim>\<open>CachingConnector\<close>: \<^verbatim>\<open>converter/connector.cc\<close> and \<^verbatim>\<open>caching_connector.h\<close>: the
    connection matrix, with the script \<^verbatim>\<open>data_manager/gen_connection_data.py\<close> that writes it. What is written is read
    back; the cache shared by threads never changes a cost.
  \<^item> \<^verbatim>\<open>ConvLattice\<close>, \<^verbatim>\<open>Viterbi\<close>: \<^verbatim>\<open>converter/lattice.cc\<close>, \<^verbatim>\<open>node.h\<close> and the search of
    \<^verbatim>\<open>converter/immutable_converter.cc\<close>: nodes by position, and the dynamic program, which finds a path of least cost
    among all paths.

  \<^item> \<^verbatim>\<open>KeyCorrector\<close>: \<^verbatim>\<open>converter/key_corrector.cc\<close>, the rules for mistyped keys and the alignments of the
    corrected key, which stay within their strings.

  \<^item> \<^verbatim>\<open>UserDictionary\<close>, \<^verbatim>\<open>UserReload\<close>: \<^verbatim>\<open>dictionary/user_dictionary.cc\<close>, the user's words: loading, the lookups by
    binary search, which find exactly the matching words, and the threads that reload, with loads that may fail, and import.

  Conventions. Characters are unsigned bytes, as the build files say. A class is a record of its state and a method a function that returns the new state;
  a pointer to shared, constant data is the data or its number. A failing \<^verbatim>\<open>CHECK\<close>, a load outside
  an image and a read of the end iterator are None; an exception is the left part of a sum; a loop
  that may not end is a partial function whose value None says that it does not. Machine integers
  are words where their width matters; elsewhere they are natural numbers or integers, and the
  bounds that make this right are hypotheses (\<^verbatim>\<open>INT_MAX\<close> for the counts of tokens, 2 to the 31 for
  the special keys; the sum of the lengths of the encoded keys and values and of 20 for each token
  below 2 to the 26 for a dictionary, so that all offsets of its file are positive \<^verbatim>\<open>int\<close>s; costs of nodes and links so bounded
  that a path stays below \<^verbatim>\<open>kVeryBigCost\<close>, 2 to the 29, in the search), except in the succinct bit vector, whose counts are
  natural numbers without a bound and stay within \<^verbatim>\<open>int\<close> for images up to 2 to the 28 bytes, a chunk included (lemma
  \<open>vector_counts_int\<close>). Where the code's own overflow is reached, in the padding of sections, it is the wrap-around of two's complement. The loops with a fuel of their own are those the code bounds itself
  (\<^verbatim>\<open>kMaxRecursion\<close> of \<^verbatim>\<open>GetFromPending\<close>).

  Interfaces. \<open>prefix_store\<close> (\<^verbatim>\<open>KeyTrie\<close>) is what the conversion table uses of the trie, and \<open>bit_vector\<close>
  (\<^verbatim>\<open>BitVector\<close>) what the succinct trees use of a bit vector; \<open>transition_costs\<close> (\<^verbatim>\<open>CachingConnector\<close>) is what
  the search uses of a connector, interpreted on the connector and on the caching connector. Each is interpreted on the
  model of the code that provides it.

  Not modelled: what the converter does around its search (filling the lattice, penalties, segments and candidates),
  prediction and rewriters, which score candidates with data files; the session's key handling; the platform front ends, windows, processes, files
  and cryptography. The tables of \<^verbatim>\<open>japanese_util\<close> and the character form manager are parameters of the
  transliterators (\<open>composer_env\<close>), as the files, the fingerprint and the hash are of the table
  loader.
\<close>

end
